(* ===== verification/Prelude.thy ===== *)
theory Prelude
  imports Main "HOL-Library.Word"
begin

text \<open>
  Shared vocabulary of the development.

  \<^item> Type names for the fixed-width integers of the sources: \<open>uint8_t\<close> / \<open>std::byte\<close> /
    \<open>char\<close> are \<open>byte\<close>, and \<open>uint16_t\<close>, \<open>uint32_t\<close>, \<open>uint64_t\<close> are \<open>u16\<close>, \<open>u32\<close>, \<open>u64\<close>.
    A \<open>std::string\<close>, a \<open>std::string_view\<close> and a \<open>std::span<const std::byte>\<close> are all
    lists of bytes.  A \<open>size_t\<close> that only ever holds the size of an object, or an offset into
    one, is a \<open>nat\<close>; where the sources mask or multiply a \<open>size_t\<close> it is a \<open>u64\<close>.
  \<^item> \<open>std::expected<T, E>\<close> is the sum \<open>'e + 'a\<close>: \<open>Inl\<close> is the unexpected value.
  \<^item> Generic lemmas on lists, sums and words, and the two collections
    \<open>wire_simps\<close> (big-endian encoding) and \<open>name_simps\<close> (domain names).
\<close>

unbundle bit_operations_syntax

type_synonym byte = "8 word"
type_synonym u16 = "16 word"
type_synonym u32 = "32 word"
type_synonym u64 = "64 word"

named_theorems wire_simps
named_theorems name_simps

section \<open>Sums as fallible results\<close>

definition is_ok :: "'e + 'a \<Rightarrow> bool" where
  "is_ok r = (case r of Inl _ \<Rightarrow> False | Inr _ \<Rightarrow> True)"

lemma is_ok_simps [simp]: "is_ok (Inr x)" "\<not> is_ok (Inl e)"
  by (simp_all add: is_ok_def)

lemma is_ok_iff: "is_ok r \<longleftrightarrow> (\<exists>x. r = Inr x)"
  by (cases r) auto

lemma not_is_ok_iff: "\<not> is_ok r \<longleftrightarrow> (\<exists>e. r = Inl e)"
  by (cases r) auto

section \<open>Lists\<close>

lemma nth_append_at [simp]: "(xs @ y # ys) ! length xs = y"
  by simp

lemma nth_append_offset: "(xs @ ys) ! (length xs + i) = ys ! i"
  by (simp add: nth_append)

lemma take_drop_middle: "take (length ys) (drop (length xs) (xs @ ys @ zs)) = ys"
  by simp

lemma drop_eq_nth_Cons: "i < length xs \<Longrightarrow> drop i xs = xs ! i # drop (Suc i) xs"
  by (rule Cons_nth_drop_Suc [symmetric])

lemma sum_list_mono_append: "sum_list (xs :: nat list) \<le> sum_list (xs @ ys)"
  by simp

section \<open>Maps\<close>

lemma restrict_UNIV [simp]: "m |` UNIV = m"
  by (simp add: restrict_map_def)

section \<open>Words: big-endian bytes\<close>

text \<open>The byte the writer emits for \<open>(value >> k) & 0xff\<close>.\<close>

definition byte_of :: "nat \<Rightarrow> 'a::len word \<Rightarrow> byte" where
  "byte_of k w = ucast (drop_bit k w AND 0xff)"

lemma byte_mask_eq: "(0xff :: 'a::len word) = mask 8"
  by (simp add: mask_eq_exp_minus_1)

lemma bit_byte_mask: "bit (0xff :: 'a::len word) n \<longleftrightarrow> n < 8 \<and> n < LENGTH('a)"
  unfolding byte_mask_eq bit_mask_iff by simp (rule conj_commute)

lemma bit_byte_of:
  "bit (byte_of k (w :: 'a::len word)) n \<longleftrightarrow> n < 8 \<and> k + n < LENGTH('a) \<and> bit w (k + n)"
  unfolding byte_of_def bit_ucast_iff bit_and_iff bit_drop_bit_eq bit_byte_mask
  using bit_imp_le_length [of w "k + n"] by auto

lemma u16_of_bytes [wire_simps]:
  "push_bit 8 (ucast (byte_of 8 w) :: u16) OR ucast (byte_of 0 w) = (w :: u16)"
  by (rule bit_word_eqI) (auto simp: bit_or_iff bit_push_bit_iff bit_ucast_iff bit_byte_of)

lemma u32_of_bytes [wire_simps]:
  "push_bit 24 (ucast (byte_of 24 w) :: u32) OR push_bit 16 (ucast (byte_of 16 w))
     OR push_bit 8 (ucast (byte_of 8 w)) OR ucast (byte_of 0 w) = (w :: u32)"
  by (rule bit_word_eqI) (auto simp: bit_or_iff bit_push_bit_iff bit_ucast_iff bit_byte_of)

lemma unat_of_nat_byte: "n < 256 \<Longrightarrow> unat (of_nat n :: byte) = n"
  by (simp add: unat_of_nat)

lemma unat_of_nat_u16: "n < 65536 \<Longrightarrow> unat (of_nat n :: u16) = n"
  by (simp add: unat_of_nat)

end
