(* ===== verification/DomainName.thy ===== *)
theory DomainName
  imports Prelude "HOL-Library.Sublist"
begin

text \<open>
  \<open>src/protocol/DomainName.{h,cpp}\<close>: domain names as label sequences with a cached wire size and a
  canonical (lower-cased, length-prefixed) key; the presentation-format parser \<open>from_text\<close> with
  its escapes; the printers; suffix keys and the subdomain test.

  A \<open>DomainName\<close> can only be built by its two factories, so every object satisfies
  \<open>wf_name\<close>.  The lemmas show that the factories establish it, that the printer and the
  parser are inverse, that the canonical key decides equality of names up to ASCII case, and that
  the subdomain test is the suffix order on canonical labels.
\<close>

section \<open>Definitions\<close>

definition kMaxLabelSize :: nat where "kMaxLabelSize = 63"
definition kMaxDomainWireSize :: nat where "kMaxDomainWireSize = 255"

datatype domain_name_error_code = DN_EmptyLabel | DN_InvalidEscape | DN_LabelTooLong | DN_NameTooLong

type_synonym domain_name_error = "domain_name_error_code \<times> nat"

record domain_name =
  labels :: "byte list list"
  wire_size :: nat
  canonical_key :: "byte list"

text \<open>The default-constructed name is the root.\<close>

definition root_name :: domain_name where
  "root_name = \<lparr>labels = [], wire_size = 1, canonical_key = [0]\<rparr>"

definition ascii_lower :: "byte \<Rightarrow> byte" where
  "ascii_lower b = (if 0x41 \<le> b \<and> b \<le> 0x5A then b + 0x20 else b)"

definition is_ascii_digit :: "byte \<Rightarrow> bool" where
  "is_ascii_digit b \<longleftrightarrow> 0x30 \<le> b \<and> b \<le> 0x39"

text \<open>Presentation form of one byte of a label; \<open>0x2E\<close> is the dot, \<open>0x5C\<close> the backslash.\<close>

definition byte_to_presentation :: "byte \<Rightarrow> byte list" where
  "byte_to_presentation b =
     (if b = 0x2E \<or> b = 0x5C then [0x5C, b]
      else if 0x21 \<le> b \<and> b \<le> 0x7E then [b]
      else [0x5C, 0x30 + b div 100, 0x30 + (b div 10) mod 10, 0x30 + b mod 10])"

definition label_to_presentation :: "byte list \<Rightarrow> bool \<Rightarrow> byte list" where
  "label_to_presentation l canonical =
     concat (map (\<lambda>v. byte_to_presentation (if canonical then ascii_lower v else v)) l)"

definition labels_equal_canonical :: "byte list \<Rightarrow> byte list \<Rightarrow> bool" where
  "labels_equal_canonical l r \<longleftrightarrow>
     length l = length r \<and> (\<forall>i < length l. ascii_lower (l ! i) = ascii_lower (r ! i))"

text \<open>
  \<open>from_labels\<close>: the size loop rejects the first bad label, the second loop builds the key.
\<close>

fun check_labels :: "byte list list \<Rightarrow> nat \<Rightarrow> nat \<Rightarrow> domain_name_error + nat" where
  "check_labels [] index wsize = Inr wsize"
| "check_labels (l # ls) index wsize =
     (if l = [] then Inl (DN_EmptyLabel, index)
      else if length l > kMaxLabelSize then Inl (DN_LabelTooLong, index)
      else if wsize > kMaxDomainWireSize - (length l + 1) then Inl (DN_NameTooLong, index)
      else check_labels ls (index + 1) (wsize + (length l + 1)))"

definition label_key :: "byte list \<Rightarrow> byte list" where
  "label_key l = of_nat (length l) # map ascii_lower l"

definition key_of_labels :: "byte list list \<Rightarrow> byte list" where
  "key_of_labels ls = concat (map label_key ls) @ [0]"

definition from_labels :: "byte list list \<Rightarrow> domain_name_error + domain_name" where
  "from_labels ls =
     (case check_labels ls 0 1 of
        Inl e \<Rightarrow> Inl e
      | Inr wsize \<Rightarrow> Inr \<lparr>labels = ls, wire_size = wsize, canonical_key = key_of_labels ls\<rparr>)"

text \<open>The three-digit escape of \<open>from_text\<close>: its value is computed in an \<open>unsigned int\<close>.\<close>

definition decimal_escape :: "byte \<Rightarrow> byte \<Rightarrow> byte \<Rightarrow> nat" where
  "decimal_escape a b c = unat (a - 0x30) * 100 + unat (b - 0x30) * 10 + unat (c - 0x30)"

text \<open>
  The scanning loop of \<open>from_text\<close>.  The third argument is the text from \<open>index\<close> on, so
  \<open>index + 1 == text.size()\<close> is \<open>cs = []\<close> and \<open>remaining >= 3\<close> is a match on three bytes.
\<close>

fun from_text_loop ::
  "byte list list \<Rightarrow> byte list \<Rightarrow> byte list \<Rightarrow> domain_name_error + domain_name" where
  "from_text_loop ls l [] =
     (if l = [] then
        (if ls = [] then Inl (DN_EmptyLabel, length ls) else from_labels ls)
      else from_labels (ls @ [l]))"
| "from_text_loop ls l (v # cs) =
     (if v = 0x2E then
        (if l = [] then Inl (DN_EmptyLabel, length ls)
         else if cs = [] then from_labels (ls @ [l])
         else from_text_loop (ls @ [l]) [] cs)
      else if v \<noteq> 0x5C then from_text_loop ls (l @ [v]) cs
      else (case cs of
              [] \<Rightarrow> Inl (DN_InvalidEscape, length ls)
            | c1 # cs1 \<Rightarrow>
                (case cs1 of
                   c2 # c3 # cs3 \<Rightarrow>
                     (if is_ascii_digit c1 \<and> is_ascii_digit c2 \<and> is_ascii_digit c3 then
                        (if decimal_escape c1 c2 c3 > 255 then Inl (DN_InvalidEscape, length ls)
                         else from_text_loop ls (l @ [of_nat (decimal_escape c1 c2 c3)]) cs3)
                      else from_text_loop ls (l @ [c1]) cs1)
                 | _ \<Rightarrow> from_text_loop ls (l @ [c1]) cs1)))"

definition from_text :: "byte list \<Rightarrow> domain_name_error + domain_name" where
  "from_text text =
     (if text = [] \<or> text = [0x2E] then Inr root_name else from_text_loop [] [] text)"

definition is_root :: "domain_name \<Rightarrow> bool" where
  "is_root n \<longleftrightarrow> labels n = []"

definition label_count :: "domain_name \<Rightarrow> nat" where
  "label_count n = length (labels n)"

text \<open>The loop shared by \<open>to_string\<close> and \<open>to_canonical_string\<close>: a dot before every label but the first.\<close>

fun join_presentation :: "byte list list \<Rightarrow> bool \<Rightarrow> byte list" where
  "join_presentation [] canonical = []"
| "join_presentation [l] canonical = label_to_presentation l canonical"
| "join_presentation (l # l' # ls) canonical =
     label_to_presentation l canonical @ 0x2E # join_presentation (l' # ls) canonical"

definition to_string :: "domain_name \<Rightarrow> byte list" where
  "to_string n = (if is_root n then [0x2E] else join_presentation (labels n) False)"

definition to_canonical_string :: "domain_name \<Rightarrow> byte list" where
  "to_canonical_string n = (if is_root n then [0x2E] else join_presentation (labels n) True)"

definition label_offset :: "domain_name \<Rightarrow> nat \<Rightarrow> nat" where
  "label_offset n k = sum_list (map (\<lambda>l. length l + 1) (take k (labels n)))"

definition canonical_suffix_key :: "domain_name \<Rightarrow> nat \<Rightarrow> byte list" where
  "canonical_suffix_key n first_label =
     (if first_label \<ge> length (labels n) then []
      else drop (label_offset n first_label) (canonical_key n))"

definition canonical_label :: "domain_name \<Rightarrow> nat \<Rightarrow> byte list" where
  "canonical_label n index =
     (if index \<ge> length (labels n) then []
      else take (length (labels n ! index))
             (drop (label_offset n index + 1) (canonical_key n)))"

definition is_subdomain_of :: "domain_name \<Rightarrow> domain_name \<Rightarrow> bool" where
  "is_subdomain_of n parent \<longleftrightarrow>
     length (labels parent) \<le> length (labels n) \<and>
     (\<forall>i < length (labels parent).
        labels_equal_canonical
          (labels n ! (length (labels n) - length (labels parent) + i)) (labels parent ! i))"

text \<open>\<open>operator==\<close> compares canonical keys.\<close>

definition name_eq :: "domain_name \<Rightarrow> domain_name \<Rightarrow> bool" where
  "name_eq a b \<longleftrightarrow> canonical_key a = canonical_key b"

section \<open>Well-formed names\<close>

definition valid_label :: "byte list \<Rightarrow> bool" where
  "valid_label l \<longleftrightarrow> l \<noteq> [] \<and> length l \<le> kMaxLabelSize"

definition labels_wire_size :: "byte list list \<Rightarrow> nat" where
  "labels_wire_size ls = 1 + sum_list (map (\<lambda>l. length l + 1) ls)"

definition valid_labels :: "byte list list \<Rightarrow> bool" where
  "valid_labels ls \<longleftrightarrow> (\<forall>l \<in> set ls. valid_label l) \<and> labels_wire_size ls \<le> kMaxDomainWireSize"

definition name_of :: "byte list list \<Rightarrow> domain_name" where
  "name_of ls = \<lparr>labels = ls, wire_size = labels_wire_size ls, canonical_key = key_of_labels ls\<rparr>"

definition wf_name :: "domain_name \<Rightarrow> bool" where
  "wf_name n \<longleftrightarrow> valid_labels (labels n) \<and> n = name_of (labels n)"

definition canonical_labels :: "domain_name \<Rightarrow> byte list list" where
  "canonical_labels n = map (map ascii_lower) (labels n)"

lemma name_of_simps [simp]:
  "labels (name_of ls) = ls"
  "wire_size (name_of ls) = labels_wire_size ls"
  "canonical_key (name_of ls) = key_of_labels ls"
  by (simp_all add: name_of_def)

lemma wf_nameE:
  assumes "wf_name n"
  obtains ls where "n = name_of ls" and "valid_labels ls"
  using assms unfolding wf_name_def by blast

lemma wf_name_of [simp]: "wf_name (name_of ls) \<longleftrightarrow> valid_labels ls"
  by (simp add: wf_name_def)

lemma labels_wire_size_simps [simp]:
  "labels_wire_size [] = 1"
  "labels_wire_size (l # ls) = length l + 1 + labels_wire_size ls"
  "labels_wire_size (ls @ ms) = labels_wire_size ls + labels_wire_size ms - 1"
  by (simp_all add: labels_wire_size_def)

lemma valid_labels_Nil [simp]: "valid_labels []"
  by (simp add: valid_labels_def kMaxDomainWireSize_def)

lemma root_name_eq: "root_name = name_of []"
  by (simp add: root_name_def name_of_def key_of_labels_def)

section \<open>The factories\<close>

text \<open>
  The size loop: it accepts exactly the label lists that keep the invariant, with the
  accumulated size generalised.
\<close>

lemma check_labels_Inr_iff:
  assumes "1 \<le> w" and "w \<le> kMaxDomainWireSize"
  shows "check_labels ls i w = Inr v \<longleftrightarrow>
    (\<forall>l \<in> set ls. valid_label l) \<and> w - 1 + labels_wire_size ls \<le> kMaxDomainWireSize
      \<and> v = w - 1 + labels_wire_size ls"
  using assms
proof (induction ls arbitrary: i w)
  case (Cons l ls)
  show ?case
  proof (cases "l \<noteq> [] \<and> length l \<le> kMaxLabelSize \<and> w + (length l + 1) \<le> kMaxDomainWireSize")
    case True
    then have "check_labels (l # ls) i w = check_labels ls (i + 1) (w + (length l + 1))"
      by auto
    with True Cons.prems Cons.IH [of "w + (length l + 1)" "i + 1"] show ?thesis
      by (auto simp: valid_label_def)
  next
    case False
    have "1 \<le> labels_wire_size ls"
      by (simp add: labels_wire_size_def)
    with False Cons.prems show ?thesis
      by (auto simp: valid_label_def kMaxLabelSize_def kMaxDomainWireSize_def)
  qed
qed auto

lemma from_labels_Inr_iff: "from_labels ls = Inr n \<longleftrightarrow> valid_labels ls \<and> n = name_of ls"
proof -
  have key: "check_labels ls 0 1 = Inr v \<longleftrightarrow> valid_labels ls \<and> v = labels_wire_size ls" for v
    using check_labels_Inr_iff [of 1 ls 0 v]
    by (simp add: valid_labels_def kMaxDomainWireSize_def)
  show ?thesis
  proof (cases "check_labels ls 0 1")
    case (Inl e)
    with key [of "labels_wire_size ls"] have "\<not> valid_labels ls" by simp
    with Inl show ?thesis by (simp add: from_labels_def)
  next
    case (Inr v)
    with key [of v] show ?thesis by (auto simp: from_labels_def name_of_def)
  qed
qed

lemma from_labels_valid: "valid_labels ls \<Longrightarrow> from_labels ls = Inr (name_of ls)"
  by (simp add: from_labels_Inr_iff)

declare from_text_loop.simps(2) [simp del]

lemma from_text_loop_wf: "from_text_loop ls l cs = Inr n \<Longrightarrow> wf_name n"
proof (induction ls l cs rule: from_text_loop.induct)
  case (1 ls l)
  then show ?case by (auto simp: from_labels_Inr_iff split: if_splits)
next
  case (2 ls l v cs)
  from "2.prems" show ?case
    by (subst (asm) from_text_loop.simps)
      (auto simp: from_labels_Inr_iff intro: "2.IH" split: if_split_asm list.split_asm)
qed

lemma from_text_wf: "from_text t = Inr n \<Longrightarrow> wf_name n"
  by (auto simp: from_text_def root_name_eq dest: from_text_loop_wf split: if_splits)

section \<open>Printing and parsing\<close>

lemma unat_le_byte: "unat (b :: byte) \<le> 255"
  using unsigned_less [where ?'a = nat and w = b] by simp

lemma decimal_escape_digits:
  "decimal_escape (0x30 + b div 100) (0x30 + (b div 10) mod 10) (0x30 + b mod 10) = unat b"
proof -
  have "n div 100 * 100 + n div 10 mod 10 * 10 + n mod 10 = n" for n :: nat
  proof -
    have "n div 100 = n div 10 div 10"
      by (simp add: div_mult2_eq [symmetric])
    then show ?thesis
      using div_mult_mod_eq [of n 10] div_mult_mod_eq [of "n div 10" 10] by linarith
  qed
  from this [of "unat b"] show ?thesis
    by (simp add: decimal_escape_def unat_div unat_mod)
qed

lemma is_ascii_digit_plus: "d \<le> 9 \<Longrightarrow> is_ascii_digit (0x30 + d)"
  by (simp add: is_ascii_digit_def word_le_nat_alt unat_word_ariths)

lemma decimal_digits_bounded:
  "(b :: byte) div 100 \<le> 9" "(b div 10) mod 10 \<le> 9" "b mod 10 \<le> 9"
  using unat_le_byte [of b] by (simp_all add: word_le_nat_alt unat_div unat_mod)

text \<open>The parser undoes the printer byte by byte, whatever follows.\<close>

lemma from_text_loop_byte:
  "from_text_loop ls l (byte_to_presentation b @ cs) = from_text_loop ls (l @ [b]) cs"
proof -
  consider "b = 0x2E \<or> b = 0x5C" | "b \<noteq> 0x2E" "b \<noteq> 0x5C" "0x21 \<le> b \<and> b \<le> 0x7E"
    | "b \<noteq> 0x2E" "b \<noteq> 0x5C" "\<not> (0x21 \<le> b \<and> b \<le> 0x7E)"
    by blast
  then show ?thesis
  proof cases
    case 1
    then show ?thesis
      by (auto simp: byte_to_presentation_def from_text_loop.simps(2) is_ascii_digit_def
          split: list.split)
  next
    case 2
    then show ?thesis
      by (simp add: byte_to_presentation_def from_text_loop.simps(2))
  next
    case 3
    then show ?thesis
      using unat_le_byte [of b]
      by (simp add: byte_to_presentation_def from_text_loop.simps(2) decimal_escape_digits
          is_ascii_digit_plus decimal_digits_bounded)
  qed
qed

lemma from_text_loop_bytes:
  "from_text_loop ls l (concat (map byte_to_presentation m) @ cs) = from_text_loop ls (l @ m) cs"
  by (induction m arbitrary: l) (simp_all add: from_text_loop_byte)

definition cased :: "bool \<Rightarrow> byte list \<Rightarrow> byte list" where
  "cased canonical l = (if canonical then map ascii_lower l else l)"

lemma cased_eq_Nil [simp]: "cased c l = [] \<longleftrightarrow> l = []"
  by (simp add: cased_def)

lemma label_to_presentation_cased:
  "label_to_presentation l c = concat (map byte_to_presentation (cased c l))"
  by (simp add: label_to_presentation_def cased_def comp_def)

lemma byte_to_presentation_neq [simp]:
  "byte_to_presentation b \<noteq> []" "byte_to_presentation b \<noteq> 0x2E # bs"
  by (auto simp: byte_to_presentation_def)

lemma join_presentation_eq_Nil:
  "[] \<notin> set ms \<Longrightarrow> join_presentation ms c = [] \<longleftrightarrow> ms = []"
  by (cases "(ms, c)" rule: join_presentation.cases)
    (auto simp: label_to_presentation_cased)

lemma from_text_loop_join:
  assumes "ms \<noteq> []" and "[] \<notin> set ms"
  shows "from_text_loop ls [] (join_presentation ms c) = from_labels (ls @ map (cased c) ms)"
  using assms
proof (induction ms c arbitrary: ls rule: join_presentation.induct)
  case (2 m c)
  then show ?case
    using from_text_loop_bytes [of ls "[]" "cased c m" "[]"]
    by (simp add: label_to_presentation_cased)
next
  case (3 m m' ms c)
  have "join_presentation (m' # ms) c \<noteq> []"
    using "3.prems" by (simp add: join_presentation_eq_Nil)
  with 3 show ?case
    by (auto simp: label_to_presentation_cased from_text_loop_bytes from_text_loop.simps(2))
qed simp


lemma join_presentation_neq_dot:
  "[] \<notin> set ms \<Longrightarrow> join_presentation ms c \<noteq> [0x2E]"
proof (cases "(ms, c)" rule: join_presentation.cases)
  case (2 l c')
  assume "[] \<notin> set ms"
  with 2 obtain b bs where "cased c l = b # bs"
    by (metis cased_eq_Nil list.exhaust list.set_intros(1) prod.inject)
  with 2 show ?thesis
    by (auto simp: label_to_presentation_cased append_eq_Cons_conv)
next
  case (3 l l' ls c')
  assume "[] \<notin> set ms"
  with 3 obtain b bs where "cased c l = b # bs"
    by (metis cased_eq_Nil list.exhaust list.set_intros(1) prod.inject)
  with 3 show ?thesis
    by (auto simp: label_to_presentation_cased append_eq_Cons_conv)
qed simp

lemma valid_labels_no_empty: "valid_labels ls \<Longrightarrow> [] \<notin> set ls"
  by (auto simp: valid_labels_def valid_label_def)

lemma valid_labels_cased [simp]: "valid_labels (map (cased c) ls) \<longleftrightarrow> valid_labels ls"
  by (auto simp: valid_labels_def valid_label_def labels_wire_size_def cased_def comp_def)

lemma from_text_join:
  assumes "valid_labels ms" and "ms \<noteq> []"
  shows "from_text (join_presentation ms c) = Inr (name_of (map (cased c) ms))"
proof -
  note ne = valid_labels_no_empty [OF assms(1)]
  have "from_text (join_presentation ms c) = from_text_loop [] [] (join_presentation ms c)"
    using ne assms(2) by (simp add: from_text_def join_presentation_eq_Nil join_presentation_neq_dot)
  also have "\<dots> = from_labels (map (cased c) ms)"
    using from_text_loop_join [OF assms(2) ne, of "[]" c] by simp
  finally show ?thesis
    using assms(1) by (simp add: from_labels_valid)
qed

section \<open>Canonical keys\<close>

lemma length_label_key [simp]: "length (label_key l) = length l + 1"
  by (simp add: label_key_def)

lemma length_key_of_labels: "length (key_of_labels ls) = labels_wire_size ls"
  by (simp add: key_of_labels_def length_concat labels_wire_size_def comp_def)

lemma key_of_labels_simps:
  "key_of_labels [] = [0]"
  "key_of_labels (l # ls) = label_key l @ key_of_labels ls"
  by (simp_all add: key_of_labels_def)

lemma valid_labels_Cons:
  "valid_labels (l # ls) \<Longrightarrow> valid_label l \<and> valid_labels ls"
  by (auto simp: valid_labels_def)

lemma valid_label_prefix:
  "valid_label l \<Longrightarrow> unat (of_nat (length l) :: byte) = length l \<and> of_nat (length l) \<noteq> (0 :: byte)"
  by (auto simp: valid_label_def kMaxLabelSize_def unat_of_nat_byte unsigned_word_eqI
      dest: arg_cong [of _ _ unat])

text \<open>The length-prefixed key is injective up to ASCII case.\<close>

lemma key_of_labels_inject:
  assumes "valid_labels ls" and "valid_labels ms"
  shows "key_of_labels ls = key_of_labels ms \<longleftrightarrow>
           map (map ascii_lower) ls = map (map ascii_lower) ms"
  using assms
proof (induction ls arbitrary: ms)
  case Nil
  then show ?case
    by (cases ms) (auto simp: key_of_labels_simps label_key_def
        dest!: valid_labels_Cons valid_label_prefix)
next
  case (Cons l ls)
  note l = valid_labels_Cons [OF Cons.prems(1)]
  show ?case
  proof (cases ms)
    case Nil
    with l valid_label_prefix [of l] show ?thesis
      by (auto simp: key_of_labels_simps label_key_def)
  next
    case (Cons m ms')
    with Cons.prems have m: "valid_label m" "valid_labels ms'"
      by (auto dest: valid_labels_Cons)
    have "key_of_labels (l # ls) = key_of_labels (m # ms') \<longleftrightarrow>
            label_key l = label_key m \<and> key_of_labels ls = key_of_labels ms'"
    proof
      assume eq: "key_of_labels (l # ls) = key_of_labels (m # ms')"
      then have "of_nat (length l) = (of_nat (length m) :: byte)"
        by (simp add: key_of_labels_simps label_key_def)
      with l m valid_label_prefix have "length l = length m" by metis
      with eq show "label_key l = label_key m \<and> key_of_labels ls = key_of_labels ms'"
        by (simp add: key_of_labels_simps)
    qed (simp add: key_of_labels_simps)
    moreover have "label_key l = label_key m \<longleftrightarrow> map ascii_lower l = map ascii_lower m"
      by (auto simp: label_key_def dest: map_eq_imp_length_eq)
    ultimately show ?thesis
      using Cons.IH [of ms'] l m Cons by simp
  qed
qed

lemma key_of_labels_append:
  "key_of_labels (ls @ ms) = concat (map label_key ls) @ key_of_labels ms"
  by (simp add: key_of_labels_def)

lemma length_concat_label_key:
  "length (concat (map label_key ls)) = sum_list (map (\<lambda>l. length l + 1) ls)"
  by (simp add: length_concat comp_def)

text \<open>The offset of a label in the key is the length of the encoding of the labels before it.\<close>

lemma key_split:
  assumes "wf_name n"
  shows "canonical_key n = concat (map label_key (take k (labels n))) @ key_of_labels (drop k (labels n))"
    and "label_offset n k = length (concat (map label_key (take k (labels n))))"
proof -
  have "key_of_labels (labels n) = key_of_labels (take k (labels n) @ drop k (labels n))"
    by simp
  with assms show "canonical_key n =
      concat (map label_key (take k (labels n))) @ key_of_labels (drop k (labels n))"
    unfolding key_of_labels_append by (auto elim: wf_nameE)
qed (simp only: label_offset_def length_concat_label_key)

lemma canonical_suffix_key_eq:
  assumes "wf_name n" and "k < label_count n"
  shows "canonical_suffix_key n k = key_of_labels (drop k (labels n))"
  using assms(2) unfolding canonical_suffix_key_def label_count_def
  by (simp add: key_split [OF assms(1), of k])

lemma canonical_label_eq:
  assumes "wf_name n" and "i < length (labels n)"
  shows "canonical_label n i = map ascii_lower (labels n ! i)"
proof -
  have "drop i (labels n) = labels n ! i # drop (Suc i) (labels n)"
    using assms(2) by (rule drop_eq_nth_Cons)
  then have "drop (label_offset n i + 1) (canonical_key n) =
      map ascii_lower (labels n ! i) @ key_of_labels (drop (Suc i) (labels n))"
    by (simp add: key_split [OF assms(1), of i] key_of_labels_simps label_key_def)
  with assms(2) show ?thesis
    by (simp add: canonical_label_def)
qed

lemma labels_equal_canonical_iff:
  "labels_equal_canonical l r \<longleftrightarrow> map ascii_lower l = map ascii_lower r"
  by (auto simp: labels_equal_canonical_def list_eq_iff_nth_eq)

lemma length_canonical_labels [simp]: "length (canonical_labels n) = length (labels n)"
  by (simp add: canonical_labels_def)

lemma ascii_lower_idem [simp]: "ascii_lower (ascii_lower b) = ascii_lower b"
  by (auto simp: ascii_lower_def word_le_nat_alt unat_word_ariths)

section \<open>Properties\<close>

text \<open>Printing a name and parsing it back returns the same object, escapes included.\<close>

theorem from_text_to_string: "wf_name n \<Longrightarrow> from_text (to_string n) = Inr n"
proof (erule wf_nameE)
  fix ls assume n: "n = name_of ls" and valid: "valid_labels ls"
  have "map (cased False) ls = ls"
    by (simp add: cased_def map_idI)
  with n valid from_text_join [OF valid, of False] show ?thesis
    by (cases "ls = []") (simp_all add: to_string_def is_root_def from_text_def root_name_eq)
qed

text \<open>The canonical form parses to a name equal to the original.\<close>

theorem from_text_to_canonical_string:
  assumes "wf_name n"
  shows "\<exists>m. from_text (to_canonical_string n) = Inr m \<and> name_eq m n
             \<and> labels m = canonical_labels n"
proof -
  from assms obtain ls where n: "n = name_of ls" and valid: "valid_labels ls"
    by (rule wf_nameE)
  have lower: "map (cased True) ls = map (map ascii_lower) ls"
    by (simp add: cased_def)
  have "valid_labels (map (map ascii_lower) ls)"
    using valid valid_labels_cased [of True ls, unfolded lower] by simp
  then have "key_of_labels (map (map ascii_lower) ls) = key_of_labels ls"
    using valid by (simp add: key_of_labels_inject comp_def)
  with n from_text_join [OF valid, of True, unfolded lower] show ?thesis
    by (cases "ls = []")
      (simp_all add: to_canonical_string_def is_root_def from_text_def root_name_eq name_eq_def
        canonical_labels_def)
qed

lemma name_eq_canonical:
  "wf_name a \<Longrightarrow> wf_name b \<Longrightarrow> name_eq a b \<longleftrightarrow> canonical_labels a = canonical_labels b"
  by (auto simp: name_eq_def canonical_labels_def key_of_labels_inject elim!: wf_nameE)

lemma is_subdomain_suffix:
  "is_subdomain_of n p \<longleftrightarrow> suffix (canonical_labels p) (canonical_labels n)"
proof -
  let ?N = "length (labels n)" and ?P = "length (labels p)"
  have "is_subdomain_of n p \<longleftrightarrow>
          ?P \<le> ?N \<and> drop (?N - ?P) (canonical_labels n) = canonical_labels p"
    by (auto simp: is_subdomain_of_def labels_equal_canonical_iff list_eq_iff_nth_eq
        canonical_labels_def)
  also have "\<dots> \<longleftrightarrow> suffix (canonical_labels p) (canonical_labels n)"
    by (metis append_take_drop_id length_canonical_labels suffix_def suffix_length_le suffix_take
        append_eq_conv_conj)
  finally show ?thesis .
qed

lemma sample_name_wf: "wf_name (name_of [[87, 119, 119], [97, 46]])" "wf_name (name_of [[119, 87, 119], [65, 46]])"
  by (auto simp: wf_name_def valid_labels_def valid_label_def kMaxLabelSize_def
      kMaxDomainWireSize_def)

lemma from_text_to_string_witness:
  "from_text (to_string (name_of [[87, 119, 119], [97, 46]])) = Inr (name_of [[87, 119, 119], [97, 46]])"
  by (rule from_text_to_string [OF sample_name_wf(1)])

lemma from_text_to_canonical_string_witness:
  "\<exists>m. from_text (to_canonical_string (name_of [[87, 119, 119], [97, 46]])) = Inr m
       \<and> labels m = [[119, 119, 119], [97, 46]]"
  using from_text_to_canonical_string [OF sample_name_wf(1)]
  by (auto simp: canonical_labels_def ascii_lower_def)

text \<open>
  The subdomain test is the suffix order on the labels up to ASCII case: it is reflexive and
  transitive, and two names are subdomains of each other exactly when their canonical keys, which
  is what the equality of names compares, are equal.
\<close>

theorem is_subdomain_of_order:
  "(is_subdomain_of a b \<longleftrightarrow> suffix (canonical_labels b) (canonical_labels a))
   \<and> is_subdomain_of a a
   \<and> (is_subdomain_of a b \<longrightarrow> is_subdomain_of b c \<longrightarrow> is_subdomain_of a c)
   \<and> (wf_name a \<longrightarrow> wf_name b \<longrightarrow>
        (is_subdomain_of a b \<and> is_subdomain_of b a \<longleftrightarrow> name_eq a b))"
  using suffix_order.order_trans suffix_order.eq_iff
  by (auto simp: is_subdomain_suffix name_eq_canonical)

lemma is_subdomain_of_order_witness:
  "name_eq (name_of [[87, 119, 119], [97, 46]]) (name_of [[119, 87, 119], [65, 46]])"
  using is_subdomain_of_order [of "name_of [[87, 119, 119], [97, 46]]" "name_of [[119, 87, 119], [65, 46]]"
      root_name] sample_name_wf
  by (simp add: canonical_labels_def ascii_lower_def is_subdomain_suffix)

end
