(* ===== verification/RadixTree.thy ===== *)
theory RadixTree
  imports DomainName
begin

text \<open>
  \<open>src/RadixTree.{h,cpp}\<close>: the trie of blocked names, walked from the last label to the first.
  The \<open>unordered_map\<close> of a node's children is a map from canonical labels; its hash function
  (\<open>SvCRC32\<close>) only places entries and does not show in the behaviour.

  \<open>ends_at\<close> is the set of inserted walks; the lemmas describe insertion and search by it, and the
  locale \<open>exact_matcher\<close> is what the blocklist relies on.
\<close>

section \<open>Definitions\<close>

datatype trie_node = TrieNode (children: "byte list \<Rightarrow> trie_node option") (is_end_of_domain: bool)

definition new_tree :: trie_node where
  "new_tree = TrieNode (\<lambda>_. None) False"

text \<open>The labels a walk visits: the canonical labels from the last to the first.\<close>

definition walk_labels :: "domain_name \<Rightarrow> byte list list" where
  "walk_labels d = map (\<lambda>i. canonical_label d i) (rev [0..<label_count d])"

fun insert_walk :: "byte list list \<Rightarrow> trie_node \<Rightarrow> bool \<times> trie_node" where
  "insert_walk [] (TrieNode ch e) = (\<not> e, TrieNode ch True)"
| "insert_walk (l # ls) (TrieNode ch e) =
     (let child = (case ch l of None \<Rightarrow> new_tree | Some c \<Rightarrow> c);
          (newly_inserted, child') = insert_walk ls child
      in (newly_inserted, TrieNode (ch(l \<mapsto> child')) e))"

definition tree_insert :: "domain_name \<Rightarrow> trie_node \<Rightarrow> bool \<times> trie_node" where
  "tree_insert d t = insert_walk (walk_labels d) t"

definition tree_insert_text :: "byte list \<Rightarrow> trie_node \<Rightarrow> bool \<times> trie_node" where
  "tree_insert_text text t =
     (case from_text text of Inl _ \<Rightarrow> (False, t) | Inr d \<Rightarrow> tree_insert d t)"

fun search_walk :: "byte list list \<Rightarrow> trie_node \<Rightarrow> bool" where
  "search_walk [] node = is_end_of_domain node"
| "search_walk (l # ls) node =
     (case children node l of
        None \<Rightarrow> False
      | Some child \<Rightarrow> if is_end_of_domain child then True else search_walk ls child)"

definition tree_search :: "trie_node \<Rightarrow> domain_name \<Rightarrow> bool" where
  "tree_search t d = search_walk (walk_labels d) t"

definition tree_search_text :: "trie_node \<Rightarrow> byte list \<Rightarrow> bool" where
  "tree_search_text t text = (case from_text text of Inl _ \<Rightarrow> False | Inr d \<Rightarrow> tree_search t d)"

section \<open>The set of inserted walks\<close>

fun ends_at :: "trie_node \<Rightarrow> byte list list \<Rightarrow> bool" where
  "ends_at node [] = is_end_of_domain node"
| "ends_at node (l # ls) = (case children node l of None \<Rightarrow> False | Some child \<Rightarrow> ends_at child ls)"

lemma ends_at_new_tree [simp]: "\<not> ends_at new_tree p"
  by (cases p) (simp_all add: new_tree_def)

lemma ends_at_insert_walk:
  "ends_at (snd (insert_walk p t)) q \<longleftrightarrow> q = p \<or> ends_at t q"
proof (induction p t arbitrary: q rule: insert_walk.induct)
  case (1 ch e)
  then show ?case by (cases q) auto
next
  case (2 l ls ch e)
  let ?c = "case ch l of None \<Rightarrow> new_tree | Some c \<Rightarrow> c"
  have "ends_at (snd (insert_walk ls ?c)) q' \<longleftrightarrow> q' = ls \<or> ends_at ?c q'" for q'
    using 2 by simp
  moreover have "ends_at ?c q' \<longleftrightarrow> ends_at (TrieNode ch e) (l # q')" for q'
    by (simp split: option.split)
  ultimately show ?case
    by (cases q) (auto simp: Let_def split: prod.splits)
qed

lemma insert_walk_new: "fst (insert_walk p t) \<longleftrightarrow> \<not> ends_at t p"
proof (induction p t rule: insert_walk.induct)
  case (2 l ls ch e)
  then show ?case by (auto simp: Let_def split: prod.splits option.splits)
qed simp

lemma search_walk_iff:
  "search_walk p t \<longleftrightarrow> (\<exists>q. prefix q p \<and> (q \<noteq> [] \<or> p = []) \<and> ends_at t q)"
proof (induction p t rule: search_walk.induct)
  case (2 l ls t)
  show ?case
  proof (cases "children t l")
    case None
    then show ?thesis by (auto simp: prefix_Cons)
  next
    case (Some c)
    have "(\<exists>q. prefix q (l # ls) \<and> (q \<noteq> [] \<or> l # ls = []) \<and> ends_at t q) \<longleftrightarrow>
        (\<exists>q. prefix q ls \<and> ends_at c q)"
      using Some by (auto simp: prefix_Cons)
    also have "\<dots> \<longleftrightarrow> is_end_of_domain c \<or> (\<exists>q. prefix q ls \<and> q \<noteq> [] \<and> ends_at c q)"
      by (metis Nil_prefix ends_at.simps(1))
    finally show ?thesis
      using 2 [OF Some] Some by auto
  qed
qed simp

section \<open>Names\<close>

lemma walk_labels_eq: "wf_name d \<Longrightarrow> walk_labels d = rev (canonical_labels d)"
  unfolding walk_labels_def
  by (rule nth_equalityI)
    (auto simp: label_count_def canonical_labels_def rev_nth canonical_label_eq)


lemma walk_labels_Nil: "walk_labels d = [] \<longleftrightarrow> is_root d"
  by (simp add: walk_labels_def label_count_def is_root_def)

lemma walk_labels_prefix:
  "wf_name d \<Longrightarrow> wf_name q \<Longrightarrow> prefix (walk_labels d) (walk_labels q) \<longleftrightarrow> is_subdomain_of q d"
  by (simp add: walk_labels_eq is_subdomain_suffix suffix_to_prefix)

lemma walk_labels_inject:
  "wf_name d \<Longrightarrow> wf_name q \<Longrightarrow> walk_labels d = walk_labels q \<longleftrightarrow> name_eq d q"
  by (simp add: walk_labels_eq name_eq_canonical)

lemma tree_search_insert:
  assumes "wf_name d" and "wf_name q" and "\<not> is_root d"
  shows "tree_search (snd (tree_insert d t)) q \<longleftrightarrow> is_subdomain_of q d \<or> tree_search t q"
proof -
  have "walk_labels d \<noteq> []" using assms(3) by (simp add: walk_labels_Nil)
  then show ?thesis
    using walk_labels_prefix [OF assms(1,2)]
    unfolding tree_search_def tree_insert_def search_walk_iff ends_at_insert_walk by blast
qed

lemma ends_at_fold:
  "ends_at (fold (\<lambda>n t. snd (tree_insert n t)) ns t) p \<longleftrightarrow> p \<in> walk_labels ` set ns \<or> ends_at t p"
  by (induction ns arbitrary: t) (auto simp: tree_insert_def ends_at_insert_walk)

lemma tree_search_new [simp]: "\<not> tree_search new_tree q"
  by (simp add: tree_search_def search_walk_iff)

section \<open>The interface to the blocklist\<close>

text \<open>
  An exact matcher finds a query exactly when one of the rules inserted so far covers it.
\<close>

locale exact_matcher =
  fixes empty :: "'t" and ins :: "'n \<Rightarrow> 't \<Rightarrow> bool \<times> 't" and search :: "'t \<Rightarrow> 'n \<Rightarrow> bool"
    and rule_ok :: "'n \<Rightarrow> bool" and query_ok :: "'n \<Rightarrow> bool" and covers :: "'n \<Rightarrow> 'n \<Rightarrow> bool"
  assumes search_empty: "\<not> search empty q"
    and search_ins: "rule_ok n \<Longrightarrow> query_ok q \<Longrightarrow> search (snd (ins n t)) q \<longleftrightarrow> covers n q \<or> search t q"
begin

lemma search_fold:
  "\<forall>n \<in> set ns. rule_ok n \<Longrightarrow> query_ok q \<Longrightarrow>
     search (fold (\<lambda>n t. snd (ins n t)) ns t) q \<longleftrightarrow> (\<exists>n \<in> set ns. covers n q) \<or> search t q"
  by (induction ns arbitrary: t) (auto simp: search_ins)

end

definition blockable :: "domain_name \<Rightarrow> bool" where
  "blockable n \<longleftrightarrow> wf_name n \<and> \<not> is_root n"

interpretation radix: exact_matcher new_tree tree_insert tree_search blockable wf_name
  "\<lambda>rule query. is_subdomain_of query rule"
  by unfold_locales (simp_all add: tree_search_insert blockable_def)

text \<open>
  C31. A tree built by inserting rules finds a name exactly when the name is one of the rules or a
  subdomain of one, whatever the order of insertion and the letter case of either; an insertion
  reports whether no equal rule was there before.
\<close>

theorem tree_search_exact:
  assumes "\<forall>n \<in> set (rules @ [r]). wf_name n \<and> \<not> is_root n" and "wf_name q"
  shows "let tree = fold (\<lambda>n t. snd (tree_insert n t)) rules new_tree in
           (tree_search tree q \<longleftrightarrow> (\<exists>n \<in> set rules. is_subdomain_of q n))
           \<and> (fst (tree_insert r tree) \<longleftrightarrow> \<not> (\<exists>n \<in> set rules. name_eq n r))"
proof -
  let ?tree = "fold (\<lambda>n t. snd (tree_insert n t)) rules new_tree"
  have "tree_search ?tree q \<longleftrightarrow> (\<exists>n \<in> set rules. is_subdomain_of q n)"
    using assms radix.search_fold [of rules q new_tree] by (simp add: blockable_def)
  moreover have "fst (tree_insert r ?tree) \<longleftrightarrow> \<not> (\<exists>n \<in> set rules. name_eq n r)"
    using assms(1)
    by (auto simp: tree_insert_def insert_walk_new ends_at_fold [unfolded tree_insert_def] image_iff walk_labels_inject [symmetric])
  ultimately show ?thesis by (simp add: Let_def)
qed

lemma tree_search_exact_witness:
  "tree_search (fold (\<lambda>n t. snd (tree_insert n t)) [name_of [[97]], name_of [[98], [99]]] new_tree)
     (name_of [[65], [66], [67]])"
proof -
  have wf: "wf_name (name_of [[97]])" "wf_name (name_of [[98], [99]])" "wf_name (name_of [[65], [66], [67]])"
    by (auto simp: wf_name_def valid_labels_def valid_label_def kMaxLabelSize_def kMaxDomainWireSize_def)
  have ok: "\<forall>n \<in> set ([name_of [[97]], name_of [[98], [99]]] @ [name_of [[97]]]). wf_name n \<and> \<not> is_root n"
    using wf by (auto simp: is_root_def)
  show ?thesis
    using tree_search_exact [OF ok wf(3)]
    by (simp add: Let_def is_subdomain_suffix canonical_labels_def ascii_lower_def suffix_Cons)
qed

end
