(* ===== verification/CuckooFilter.thy ===== *)
theory CuckooFilter
  imports Prelude
begin

text \<open>
  \<open>src/CuckooFilter.{h,cpp}\<close>: the approximate set in front of the rule tree.  The hash function
  \<open>xxH3_64bits\<close> is the parameter \<open>xxh3\<close>: no property of it is assumed.  A bucket is the list of its
  four 16-bit fingerprints, \<open>0\<close> marks an empty slot, and bucket indices are 64-bit words, as in the
  code, so that masking and the exclusive-or of \<open>alternate_index\<close> are those of the code.

  The lemmas show that the two candidate buckets of a fingerprint are each other's alternate, that
  exchanging a fingerprint trades one claim for another, that a failed chain of kicks is rolled back
  exactly, and from these what an insertion does on each of its branches.  The locale
  \<open>approximate_set\<close> is what the blocklist relies on.
\<close>

section \<open>Definitions\<close>

definition MAX_KICKS :: nat where "MAX_KICKS = 500"
definition FPS_PER_BUCKET :: nat where "FPS_PER_BUCKET = 4"
definition MAX_FINGERPRINT_VALUE :: u64 where "MAX_FINGERPRINT_VALUE = 65535"
definition size_max :: nat where "size_max = 2 ^ 64 - 1"

text \<open>
  \<open>std::vector<Bucket>::max_size()\<close> with 32-byte buckets: four \<open>std::bitset<16>\<close> of eight bytes each.
\<close>

definition buckets_max_size :: nat where "buckets_max_size = (2 ^ 63 - 1) div 32"

type_synonym fingerprint = u16
type_synonym bucket = "fingerprint list"

datatype insert_failure_reason = NoFailure | LoadLimit | KickLimit

record cuckoo_filter =
  buckets :: "bucket list"
  cf_size :: nat
  maximum_kicks :: nat
  rng_state :: u64
  last_failure :: insert_failure_reason

fun bit_ceil :: "nat \<Rightarrow> nat" where
  "bit_ceil n = (if n \<le> 1 then 1 else 2 * bit_ceil ((n + 1) div 2))"

declare bit_ceil.simps [simp del]

definition normalize_bucket_count :: "nat \<Rightarrow> nat option" where
  "normalize_bucket_count requested =
     (let r = max requested 4 in if r > 2 ^ 63 then None else Some (bit_ceil r))"

definition load_limit :: "nat \<Rightarrow> nat" where
  "load_limit total_slots = (total_slots div 100) * 95 + ((total_slots mod 100) * 95) div 100"

definition splitmix64 :: "u64 \<Rightarrow> u64" where
  "splitmix64 v0 =
     (let v1 = v0 + 0x9e3779b97f4a7c15;
          v2 = (v1 XOR drop_bit 30 v1) * 0xbf58476d1ce4e5b9;
          v3 = (v2 XOR drop_bit 27 v2) * 0x94d049bb133111eb
      in v3 XOR drop_bit 31 v3)"

text \<open>
  The constructor; \<open>None\<close> is the \<open>std::length_error\<close> it throws.
\<close>

definition new_filter :: "nat \<Rightarrow> nat \<Rightarrow> cuckoo_filter option" where
  "new_filter requested_bucket_count max_kicks =
     (case normalize_bucket_count requested_bucket_count of
        None \<Rightarrow> None
      | Some bucket_count \<Rightarrow>
          if bucket_count > buckets_max_size \<or> bucket_count > size_max div FPS_PER_BUCKET then None
          else Some \<lparr>buckets = replicate bucket_count (replicate FPS_PER_BUCKET 0), cf_size = 0,
                     maximum_kicks = max_kicks,
                     rng_state = splitmix64 (of_nat bucket_count XOR 0xD1B54A32D192ED03),
                     last_failure = NoFailure\<rparr>)"

definition calc_fp :: "u64 \<Rightarrow> fingerprint" where
  "calc_fp hash =
     (let high16bits = ucast (drop_bit 48 hash) :: u16
      in ucast (ucast high16bits mod MAX_FINGERPRINT_VALUE + 1))"

text \<open>\<open>buckets_.size() - 1\<close> as the 64-bit mask of the code.\<close>

definition bucket_mask :: "nat \<Rightarrow> u64" where
  "bucket_mask n = of_nat n - 1"

definition alternate_index :: "nat \<Rightarrow> u64 \<Rightarrow> fingerprint \<Rightarrow> u64" where
  "alternate_index n index fp =
     (let delta = splitmix64 (ucast fp) AND bucket_mask n;
          delta' = if delta = 0 then 1 else delta
      in index XOR delta')"

definition next_rand_u64 :: "u64 \<Rightarrow> u64 \<times> u64" where
  "next_rand_u64 rng = (let rng' = rng + 0x9e3779b97f4a7c15 in (splitmix64 rng', rng'))"

definition bucket_at :: "bucket list \<Rightarrow> u64 \<Rightarrow> bucket" where
  "bucket_at bs index = bs ! unat index"

definition set_slot :: "bucket list \<Rightarrow> u64 \<Rightarrow> nat \<Rightarrow> fingerprint \<Rightarrow> bucket list" where
  "set_slot bs index slot fp = bs[unat index := (bucket_at bs index)[slot := fp]]"

definition find_fp :: "bucket list \<Rightarrow> u64 \<Rightarrow> fingerprint \<Rightarrow> bool" where
  "find_fp bs index fp \<longleftrightarrow>
     fp \<in> set (bucket_at bs index) \<or> fp \<in> set (bucket_at bs (alternate_index (length bs) index fp))"

fun first_empty :: "bucket \<Rightarrow> nat \<Rightarrow> nat option" where
  "first_empty [] slot = None"
| "first_empty (fp # fps) slot = (if fp = 0 then Some slot else first_empty fps (slot + 1))"

definition find_empty_slot :: "bucket list \<Rightarrow> u64 \<Rightarrow> nat option" where
  "find_empty_slot bs index = first_empty (bucket_at bs index) 0"

type_synonym kick_record = "u64 \<times> nat \<times> fingerprint"

fun kick_loop ::
  "nat \<Rightarrow> bucket list \<Rightarrow> u64 \<Rightarrow> u64 \<Rightarrow> fingerprint \<Rightarrow> kick_record list
     \<Rightarrow> bool \<times> bucket list \<times> u64 \<times> kick_record list" where
  "kick_loop 0 bs rng victim_index fp history = (False, bs, rng, history)"
| "kick_loop (Suc k) bs rng victim_index fp history =
     (let (r, rng') = next_rand_u64 rng;
          slot = unat (r mod of_nat FPS_PER_BUCKET);
          victim = bucket_at bs victim_index ! slot;
          bs' = set_slot bs victim_index slot fp;
          history' = (victim_index, slot, victim) # history;
          next_index = alternate_index (length bs) victim_index victim
      in case find_empty_slot bs' next_index of
           Some empty_slot \<Rightarrow> (True, set_slot bs' next_index empty_slot victim, rng', history')
         | None \<Rightarrow> kick_loop k bs' rng' next_index victim history')"

text \<open>The newest record comes first: the rollback runs the history backwards.\<close>

fun roll_back :: "kick_record list \<Rightarrow> bucket list \<Rightarrow> bucket list" where
  "roll_back [] bs = bs"
| "roll_back ((index, slot, previous) # history) bs =
     roll_back history (set_slot bs index slot previous)"

definition kick_out :: "u64 \<Rightarrow> fingerprint \<Rightarrow> cuckoo_filter \<Rightarrow> bool \<times> cuckoo_filter" where
  "kick_out victim_index fp f =
     (case kick_loop (maximum_kicks f) (buckets f) (rng_state f) victim_index fp [] of
        (True, bs, rng, _) \<Rightarrow> (True, f\<lparr>buckets := bs, cf_size := cf_size f + 1, rng_state := rng\<rparr>)
      | (False, bs, rng, history) \<Rightarrow> (False, f\<lparr>buckets := roll_back history bs, rng_state := rng\<rparr>))"

definition home_index :: "nat \<Rightarrow> u64 \<Rightarrow> u64" where
  "home_index n hash = hash AND bucket_mask n"

definition filter_insert ::
  "(byte list \<Rightarrow> u64) \<Rightarrow> byte list \<Rightarrow> cuckoo_filter \<Rightarrow> bool \<times> cuckoo_filter" where
  "filter_insert xxh3 item f0 =
     (let f = f0\<lparr>last_failure := NoFailure\<rparr>;
          hash = xxh3 item;
          fp = calc_fp hash;
          n = length (buckets f);
          index1 = home_index n hash
      in if find_fp (buckets f) index1 fp then (True, f)
         else if cf_size f \<ge> load_limit (n * FPS_PER_BUCKET) then (False, f\<lparr>last_failure := LoadLimit\<rparr>)
         else case find_empty_slot (buckets f) index1 of
           Some slot \<Rightarrow> (True, f\<lparr>buckets := set_slot (buckets f) index1 slot fp, cf_size := cf_size f + 1\<rparr>)
         | None \<Rightarrow>
             let index2 = alternate_index n index1 fp in
             case find_empty_slot (buckets f) index2 of
               Some slot \<Rightarrow> (True, f\<lparr>buckets := set_slot (buckets f) index2 slot fp, cf_size := cf_size f + 1\<rparr>)
             | None \<Rightarrow>
                 let rng_before = rng_state f;
                     (r, rng') = next_rand_u64 rng_before;
                     victim_index = if r AND 1 = 0 then index1 else index2
                 in case kick_out victim_index fp (f\<lparr>rng_state := rng'\<rparr>) of
                      (True, f') \<Rightarrow> (True, f')
                    | (False, f') \<Rightarrow> (False, f'\<lparr>rng_state := rng_before, last_failure := KickLimit\<rparr>))"

definition filter_contains :: "(byte list \<Rightarrow> u64) \<Rightarrow> cuckoo_filter \<Rightarrow> byte list \<Rightarrow> bool" where
  "filter_contains xxh3 f item =
     (let hash = xxh3 item
      in find_fp (buckets f) (home_index (length (buckets f)) hash) (calc_fp hash))"

section \<open>Invariant\<close>

definition occupied :: "bucket list \<Rightarrow> nat" where
  "occupied bs = sum_list (map (\<lambda>b. length (filter (\<lambda>fp. fp \<noteq> 0) b)) bs)"

definition table_ok :: "bucket list \<Rightarrow> bool" where
  "table_ok bs \<longleftrightarrow> (\<exists>k. 2 \<le> k \<and> k \<le> 61 \<and> length bs = 2 ^ k) \<and> (\<forall>b \<in> set bs. length b = FPS_PER_BUCKET)"

definition filter_inv :: "cuckoo_filter \<Rightarrow> bool" where
  "filter_inv f \<longleftrightarrow> table_ok (buckets f) \<and> cf_size f = occupied (buckets f)
     \<and> cf_size f \<le> load_limit (length (buckets f) * FPS_PER_BUCKET)"

lemma load_limit_eq: "load_limit t = 95 * t div 100"
proof -
  have "95 * t = 95 * (t mod 100) + (t div 100) * 95 * 100"
    using mult_div_mod_eq [of 100 t] by linarith
  then show ?thesis by (simp add: load_limit_def)
qed

lemma bit_ceil_spec:
  "1 \<le> n \<Longrightarrow> n \<le> bit_ceil n \<and> bit_ceil n < 2 * n \<and> (\<exists>k. bit_ceil n = 2 ^ k)"
proof (induction n rule: bit_ceil.induct)
  case (1 n)
  show ?case
  proof (cases "n \<le> 1")
    case True
    with 1 have "n = 1" by simp
    then show ?thesis
      using exI [of "\<lambda>k. (1 :: nat) = 2 ^ k" 0] by (simp add: bit_ceil.simps [of "Suc 0"])
  next
    case False
    then have "1 \<le> (n + 1) div 2" by auto
    with 1 False obtain k where
      "(n + 1) div 2 \<le> bit_ceil ((n + 1) div 2)" "bit_ceil ((n + 1) div 2) < 2 * ((n + 1) div 2)"
      "bit_ceil ((n + 1) div 2) = 2 ^ k"
      by blast
    moreover from this have "even n \<or> bit_ceil ((n + 1) div 2) \<noteq> n"
      by (cases k) (use False in auto)
    ultimately have "bit_ceil ((n + 1) div 2) < n" "n \<le> 2 * bit_ceil ((n + 1) div 2)"
      "2 * bit_ceil ((n + 1) div 2) = 2 ^ Suc k"
      by (cases "even n"; force elim!: evenE oddE)+
    moreover have "bit_ceil n = 2 * bit_ceil ((n + 1) div 2)"
      using False by (simp add: bit_ceil.simps [of n])
    ultimately show ?thesis by (metis mult_less_mono2 zero_less_numeral)
  qed
qed


section \<open>Indices\<close>

definition index_ok :: "bucket list \<Rightarrow> u64 \<Rightarrow> bool" where
  "index_ok bs i \<longleftrightarrow> unat i < length bs"

lemma bucket_mask_eq: "n = 2 ^ k \<Longrightarrow> bucket_mask n = mask k"
  by (simp add: bucket_mask_def mask_eq_exp_minus_1)

lemma take_bit_xor_eq:
  "take_bit k a = a \<Longrightarrow> take_bit k b = b \<Longrightarrow> take_bit k (a XOR b) = (a XOR b :: u64)"
  by (metis take_bit_xor)

lemma index_ok_iff_take_bit:
  "length bs = 2 ^ k \<Longrightarrow> k < 64 \<Longrightarrow> index_ok bs i \<longleftrightarrow> take_bit k i = i"
proof -
  assume l: "length bs = 2 ^ k" and k: "k < 64"
  have "unat (take_bit k i) = unat i mod 2 ^ k"
    by (simp only: unsigned_take_bit_eq) (simp add: take_bit_eq_mod)
  then show ?thesis
    unfolding index_ok_def l word_unat_eq_iff
    by (metis mod_less mod_less_divisor zero_less_numeral zero_less_power)
qed

lemma alternate_index_invol [simp]:
  "alternate_index n (alternate_index n i fp) fp = i"
  by (simp add: alternate_index_def Let_def xor.assoc)

lemma home_index_ok: "table_ok bs \<Longrightarrow> index_ok bs (home_index (length bs) h)"
  by (auto simp: table_ok_def home_index_def bucket_mask_eq index_ok_iff_take_bit
      simp flip: take_bit_eq_mask)

lemma alternate_index_ok:
  assumes "table_ok bs" and "index_ok bs i"
  shows "index_ok bs (alternate_index (length bs) i fp)"
proof -
  from assms(1) obtain k where k: "2 \<le> k" "k \<le> 61" "length bs = 2 ^ k" by (auto simp: table_ok_def)
  let ?d = "splitmix64 (ucast fp) AND mask k"
  have "take_bit k (if ?d = 0 then 1 else ?d) = (if ?d = 0 then 1 else ?d)"
    using k by (simp add: take_bit_eq_mask [symmetric] take_bit_of_1)
  with assms(2) k show ?thesis
    by (simp add: index_ok_iff_take_bit alternate_index_def Let_def bucket_mask_eq take_bit_xor_eq)
qed

section \<open>Slots\<close>

lemma first_empty_eq:
  "first_empty b s = (if 0 \<in> set b then Some (s + length (takeWhile (\<lambda>fp. fp \<noteq> 0) b)) else None)"
  by (induction b arbitrary: s) auto

lemma first_empty_Some:
  "first_empty b 0 = Some s \<Longrightarrow> s < length b \<and> b ! s = 0"
proof -
  assume s: "first_empty b 0 = Some s"
  then have len: "length (takeWhile (\<lambda>fp. fp \<noteq> 0) b) = s" and "0 \<in> set b"
    by (auto simp: first_empty_eq split: if_splits)
  then have "takeWhile (\<lambda>fp. fp \<noteq> 0) b \<noteq> b"
    by (auto simp: takeWhile_eq_all_conv)
  then have "s < length b"
    using len length_takeWhile_le [of "\<lambda>fp. fp \<noteq> 0" b]
    by (metis le_neq_implies_less takeWhile_eq_take take_all_iff order_refl)
  with len nth_length_takeWhile [of "\<lambda>fp. fp \<noteq> 0" b] show ?thesis by auto
qed

lemma length_set_slot [simp]: "length (set_slot bs i s fp) = length bs"
  by (simp add: set_slot_def)

lemma index_ok_set_slot [simp]: "index_ok (set_slot bs i s fp) j \<longleftrightarrow> index_ok bs j"
  by (simp add: index_ok_def)

lemma bucket_at_set_slot:
  "index_ok bs i \<Longrightarrow>
     bucket_at (set_slot bs i s fp) j = (if i = j then (bucket_at bs i)[s := fp] else bucket_at bs j)"
  by (auto simp: bucket_at_def set_slot_def index_ok_def nth_list_update word_unat_eq_iff)

lemma table_ok_set_slot: "table_ok bs \<Longrightarrow> index_ok bs i \<Longrightarrow> table_ok (set_slot bs i s fp)"
  by (auto simp: table_ok_def set_slot_def bucket_at_def index_ok_def dest: set_update_subset_insert [THEN subsetD])

lemma table_ok_bucket: "table_ok bs \<Longrightarrow> index_ok bs i \<Longrightarrow> length (bucket_at bs i) = 4"
  by (auto simp: table_ok_def index_ok_def bucket_at_def FPS_PER_BUCKET_def)

lemma set_slot_undo:
  "index_ok bs i \<Longrightarrow> s < length (bucket_at bs i) \<Longrightarrow>
     set_slot (set_slot bs i s fp) i s (bucket_at bs i ! s) = bs"
  by (simp add: set_slot_def bucket_at_def index_ok_def)

lemma occupied_set_slot:
  assumes "index_ok bs i" and "s < length (bucket_at bs i)" and "fp \<noteq> 0"
  shows "occupied (set_slot bs i s fp) = occupied bs + (if bucket_at bs i ! s = 0 then 1 else 0)"
proof -
  have f: "length (filter (\<lambda>fp. fp \<noteq> 0) (b[s := fp])) =
      length (filter (\<lambda>fp. fp \<noteq> 0) b) + (if b ! s = 0 then 1 else 0)" if "s < length b" for b
    using that assms(3)
    by (subst (2) id_take_nth_drop [OF that]) (simp add: upd_conv_take_nth_drop)
  have g: "sum_list (xs[n := (y :: nat)]) = sum_list xs + y - xs ! n" if "n < length xs" for n xs y
    using that by (simp add: sum_list_update)
  have le: "map g bs ! unat i \<le> sum_list (map g bs)" for g :: "bucket \<Rightarrow> nat"
    using assms(1) elem_le_sum_list [of "unat i" "map g bs"] by (simp add: index_ok_def)
  show ?thesis
    using assms(1,2) f [OF assms(2)] le [of "\<lambda>b. length (filter (\<lambda>fp. fp \<noteq> 0) b)"]
    by (simp add: occupied_def set_slot_def bucket_at_def map_update g index_ok_def)
qed

section \<open>What the table claims to hold\<close>

lemma alternate_index_swap: "alternate_index n i fp = j \<longleftrightarrow> i = alternate_index n j fp"
  by (metis alternate_index_invol)

definition pair_of :: "nat \<Rightarrow> u64 \<Rightarrow> fingerprint \<Rightarrow> u64 \<Rightarrow> bool" where
  "pair_of n i fp j \<longleftrightarrow> j = i \<or> j = alternate_index n i fp"

lemma pair_of_alternate [simp]: "pair_of n (alternate_index n i fp) fp j \<longleftrightarrow> pair_of n i fp j"
  by (auto simp: pair_of_def)

lemma find_fp_pair: "pair_of (length bs) i fp j \<Longrightarrow> find_fp bs j fp \<longleftrightarrow> find_fp bs i fp"
  by (auto simp: pair_of_def find_fp_def)

text \<open>Replacing the fingerprint of a slot trades its claim for the claim of the new one.\<close>

lemma find_fp_exchange:
  assumes "index_ok bs i" and "s < length (bucket_at bs i)"
  defines "v \<equiv> bucket_at bs i ! s" and "n \<equiv> length bs"
  shows "find_fp (set_slot bs i s fp) j f \<or> f = v \<and> pair_of n i v j
           \<longleftrightarrow> find_fp bs j f \<or> f = fp \<and> pair_of n i fp j"
proof -
  have upd: "x \<in> set (b[s := fp]) \<or> x = b ! s \<longleftrightarrow> x \<in> set b \<or> x = fp" if "s < length b" for b x
    using that by (subst (3) id_take_nth_drop [OF that]) (auto simp: upd_conv_take_nth_drop)
  have member: "f \<in> set (bucket_at (set_slot bs i s fp) j') \<or> j' = i \<and> f = v
      \<longleftrightarrow> f \<in> set (bucket_at bs j') \<or> j' = i \<and> f = fp" for j'
    using upd [OF assms(2), of f] by (auto simp: bucket_at_set_slot assms)
  have pair: "pair_of n i x j \<longleftrightarrow> j = i \<or> alternate_index n j x = i" for x
    by (auto simp: pair_of_def)
  show ?thesis
    using member [of j] member [of "alternate_index n j f"]
    unfolding find_fp_def pair length_set_slot n_def [symmetric] by blast
qed

lemma find_fp_fill:
  assumes "index_ok bs i" and "find_empty_slot bs i = Some s" and "f \<noteq> 0"
  shows "find_fp (set_slot bs i s fp) j f \<longleftrightarrow> find_fp bs j f \<or> f = fp \<and> pair_of (length bs) i fp j"
proof -
  from assms(2) have "s < length (bucket_at bs i)" "bucket_at bs i ! s = 0"
    by (auto simp: find_empty_slot_def dest: first_empty_Some)
  with find_fp_exchange [OF assms(1), of s fp j f] assms(3) show ?thesis by simp
qed

lemma occupied_fill:
  assumes "index_ok bs i" and "find_empty_slot bs i = Some s" and "fp \<noteq> 0"
  shows "occupied (set_slot bs i s fp) = occupied bs + 1"
  using assms occupied_set_slot [OF assms(1), of s fp]
  by (auto simp: find_empty_slot_def dest: first_empty_Some)

lemma find_empty_slot_None: "find_empty_slot bs i = None \<longleftrightarrow> 0 \<notin> set (bucket_at bs i)"
  by (simp add: find_empty_slot_def first_empty_eq)

lemma calc_fp_nonzero [simp]: "calc_fp h \<noteq> 0"
proof
  assume z: "calc_fp h = 0"
  define w where "w = (ucast (ucast (drop_bit 48 h) :: u16) :: u64) mod 65535"
  have "unat w < 65535"
    unfolding w_def unat_mod_distrib by simp
  then have "unat (w + 1) = unat w + 1" "unat w + 1 < 2 ^ 16"
    by (simp_all add: unat_word_ariths)
  then have "unat (ucast (w + 1) :: u16) = unat w + 1"
    by (simp add: unsigned_ucast_eq take_bit_nat_eq_self)
  with z show False
    by (simp add: calc_fp_def MAX_FINGERPRINT_VALUE_def Let_def w_def)
qed

section \<open>Kicking out\<close>

lemma kick_slot_bound: "unat (r mod of_nat FPS_PER_BUCKET :: u64) < 4"
  by (simp add: FPS_PER_BUCKET_def unat_mod_distrib)

definition kick_post :: "bucket list \<Rightarrow> u64 \<Rightarrow> fingerprint \<Rightarrow> bucket list \<Rightarrow> bool" where
  "kick_post bs i fp bs' \<longleftrightarrow>
     table_ok bs' \<and> length bs' = length bs \<and> occupied bs' = occupied bs + 1
     \<and> (\<forall>j f. f \<noteq> 0 \<longrightarrow> (find_fp bs' j f \<longleftrightarrow> find_fp bs j f \<or> f = fp \<and> pair_of (length bs) i fp j))"

lemma kick_loop_correct:
  assumes "table_ok bs" and "index_ok bs i" and "find_empty_slot bs i = None" and "fp \<noteq> 0"
    and "kick_loop k bs rng i fp h = (ok, bs', rng', h')"
  shows "if ok then kick_post bs i fp bs' else roll_back h' bs' = roll_back h bs"
  using assms
proof (induction k arbitrary: bs rng i fp h)
  case (Suc k)
  obtain r rng1 where rnd: "next_rand_u64 rng = (r, rng1)" by fastforce
  define s where "s = unat (r mod of_nat FPS_PER_BUCKET)"
  define v where "v = bucket_at bs i ! s"
  define bs1 where "bs1 = set_slot bs i s fp"
  define nx where "nx = alternate_index (length bs) i v"
  have s: "s < length (bucket_at bs i)"
    using Suc.prems kick_slot_bound by (simp add: s_def table_ok_bucket)
  then have v: "v \<noteq> 0"
    using Suc.prems(3) by (auto simp: find_empty_slot_None v_def in_set_conv_nth)
  have len: "length bs1 = length bs" and ok1: "table_ok bs1" and nx: "index_ok bs1 nx"
    using Suc.prems alternate_index_ok by (simp_all add: bs1_def nx_def table_ok_set_slot)
  have occ: "occupied bs1 = occupied bs"
    using occupied_set_slot [OF Suc.prems(2) s Suc.prems(4)] v by (simp add: bs1_def v_def)
  have exch: "find_fp bs1 j f \<or> f = v \<and> pair_of (length bs) nx v j
      \<longleftrightarrow> find_fp bs j f \<or> f = fp \<and> pair_of (length bs) i fp j" for j f
    using find_fp_exchange [OF Suc.prems(2) s, of fp j f] by (simp add: v_def bs1_def nx_def)
  have undo: "roll_back ((i, s, v) # h) bs1 = roll_back h bs"
    using set_slot_undo [OF Suc.prems(2) s] by (simp add: bs1_def v_def)
  have step: "kick_loop (Suc k) bs rng i fp h =
      (case find_empty_slot bs1 nx of
         Some e \<Rightarrow> (True, set_slot bs1 nx e v, rng1, (i, s, v) # h)
       | None \<Rightarrow> kick_loop k bs1 rng1 nx v ((i, s, v) # h))"
    by (simp add: rnd Let_def s_def v_def bs1_def nx_def split: option.split)
  show ?case
  proof (cases "find_empty_slot bs1 nx")
    case None
    with Suc.prems(5) step have "kick_loop k bs1 rng1 nx v ((i, s, v) # h) = (ok, bs', rng', h')"
      by simp
    from Suc.IH [OF ok1 nx None v this] undo exch occ len show ?thesis
      by (cases ok) (simp_all add: kick_post_def)
  next
    case (Some e)
    with Suc.prems(5) step have r: "ok" "bs' = set_slot bs1 nx e v" by simp_all
    with find_fp_fill [OF nx Some] occupied_fill [OF nx Some v] exch occ len ok1 nx show ?thesis
      by (simp add: kick_post_def table_ok_set_slot)
  qed
qed simp


section \<open>The filter\<close>

lemma table_ok_replicate:
  "k \<ge> 2 \<Longrightarrow> k \<le> 61 \<Longrightarrow> table_ok (replicate (2 ^ k) (replicate FPS_PER_BUCKET 0))"
  by (auto simp: table_ok_def)

lemma occupied_replicate: "occupied (replicate n (replicate m 0)) = 0"
  by (simp add: occupied_def map_replicate_const filter_replicate sum_list_replicate)

lemma new_filter_Some:
  assumes "new_filter r mk = Some f"
  shows "filter_inv f \<and> \<not> filter_contains xxh3 f item \<and> r \<le> length (buckets f)
         \<and> length (buckets f) \<le> buckets_max_size"
proof -
  from assms have f: "f = \<lparr>buckets = replicate (bit_ceil (max r 4)) (replicate FPS_PER_BUCKET 0),
      cf_size = 0, maximum_kicks = mk,
      rng_state = splitmix64 (of_nat (bit_ceil (max r 4)) XOR 0xD1B54A32D192ED03),
      last_failure = NoFailure\<rparr>"
    and le: "bit_ceil (max r 4) \<le> buckets_max_size"
    by (auto simp: new_filter_def normalize_bucket_count_def Let_def split: if_splits)
  have "1 \<le> max r 4" by simp
  then obtain k where k: "bit_ceil (max r 4) = 2 ^ k" and ge: "max r 4 \<le> bit_ceil (max r 4)"
    using bit_ceil_spec by blast
  have "(2 :: nat) ^ 2 \<le> 2 ^ k" "(2 :: nat) ^ k \<le> 2 ^ 58"
    using ge le k by (simp_all add: buckets_max_size_def)
  then have "2 \<le> k" "k \<le> 58" by (simp_all only: power_increasing_iff one_less_numeral_iff semiring_norm)
  then have t: "table_ok (buckets f)"
    by (simp add: f k table_ok_replicate)
  have "\<not> find_fp (buckets f) (home_index (length (buckets f)) h) (calc_fp h)" for h
  proof -
    have "bucket_at (buckets f) i = replicate FPS_PER_BUCKET 0" if "index_ok (buckets f) i" for i
      using that by (simp add: f bucket_at_def index_ok_def)
    then show ?thesis
      using home_index_ok [OF t] alternate_index_ok [OF t home_index_ok [OF t]]
      by (simp add: find_fp_def)
  qed
  with t le ge show ?thesis
    by (simp add: filter_inv_def filter_contains_def Let_def)
      (simp add: f occupied_replicate)
qed

definition claims :: "cuckoo_filter \<Rightarrow> u64 \<Rightarrow> u64 \<Rightarrow> bool" where
  "claims f hash other \<longleftrightarrow> calc_fp other = calc_fp hash
     \<and> pair_of (length (buckets f)) (home_index (length (buckets f)) hash) (calc_fp hash)
         (home_index (length (buckets f)) other)"

lemma claims_refl [simp]: "claims f h h"
  by (simp add: claims_def pair_of_def)

text \<open>The outcome of an insertion: what it reports, what it claims, what it leaves alone.\<close>

definition insert_post ::
  "(byte list \<Rightarrow> u64) \<Rightarrow> byte list \<Rightarrow> cuckoo_filter \<Rightarrow> bool \<Rightarrow> cuckoo_filter \<Rightarrow> bool" where
  "insert_post xxh3 item f ok f' \<longleftrightarrow>
     filter_inv f' \<and> length (buckets f') = length (buckets f) \<and> maximum_kicks f' = maximum_kicks f
     \<and> (ok \<longrightarrow> (\<forall>y. filter_contains xxh3 f' y \<longleftrightarrow> filter_contains xxh3 f y \<or> claims f (xxh3 item) (xxh3 y)))
     \<and> (\<not> ok \<longrightarrow> f' = f\<lparr>last_failure := last_failure f'\<rparr> \<and> last_failure f' \<noteq> NoFailure)"

lemma insert_post_filled:
  assumes "filter_inv f" and "cf_size f < load_limit (length (buckets f) * FPS_PER_BUCKET)"
    and "pair_of (length (buckets f)) (home_index (length (buckets f)) (xxh3 item)) (calc_fp (xxh3 item)) i"
    and "kick_post (buckets f) i (calc_fp (xxh3 item)) (buckets f')" and "cf_size f' = cf_size f + 1"
    and "maximum_kicks f' = maximum_kicks f"
  shows "insert_post xxh3 item f True f'"
proof -
  have "pair_of n i fp j \<longleftrightarrow> pair_of n h fp j" if "pair_of n h fp i" for n h j fp
    using that by (auto simp: pair_of_def)
  then show ?thesis
    using assms
    by (auto simp: insert_post_def filter_inv_def kick_post_def filter_contains_def claims_def Let_def)
qed

lemma kick_post_fill:
  assumes "table_ok bs" and "index_ok bs i" and "find_empty_slot bs i = Some s" and "fp \<noteq> 0"
  shows "kick_post bs i fp (set_slot bs i s fp)"
  using assms find_fp_fill [OF assms(2,3)] occupied_fill [OF assms(2-4)]
  by (simp add: kick_post_def table_ok_set_slot)


lemma insert_post_unchanged:
  assumes "filter_inv f" and "r \<noteq> NoFailure"
  shows "insert_post xxh3 item f False (f\<lparr>last_failure := r\<rparr>)"
  using assms by (simp add: insert_post_def filter_inv_def)

lemma insert_post_present:
  assumes "filter_inv f" and "find_fp (buckets f) (home_index (length (buckets f)) (xxh3 item)) (calc_fp (xxh3 item))"
  shows "insert_post xxh3 item f True (f\<lparr>last_failure := NoFailure\<rparr>)"
  using assms find_fp_pair by (auto simp: insert_post_def filter_inv_def filter_contains_def claims_def Let_def)

lemma kick_out_correct:
  assumes "table_ok (buckets f)" and "index_ok (buckets f) i" and "find_empty_slot (buckets f) i = None"
    and "fp \<noteq> 0" and "kick_out i fp f = (ok, f')"
  shows "if ok then kick_post (buckets f) i fp (buckets f') \<and> cf_size f' = cf_size f + 1
                    \<and> maximum_kicks f' = maximum_kicks f
         else \<exists>rng. f' = f\<lparr>rng_state := rng\<rparr>"
proof -
  obtain ok1 bs rng h where k: "kick_loop (maximum_kicks f) (buckets f) (rng_state f) i fp [] = (ok1, bs, rng, h)"
    by (metis prod_cases4)
  with kick_loop_correct [OF assms(1-4) k] assms(5) show ?thesis
    by (auto simp: kick_out_def split: bool.splits)
qed

lemma filter_insert_correct:
  assumes inv: "filter_inv f" and ins: "filter_insert xxh3 item f = (ok, f')"
  shows "insert_post xxh3 item f ok f'"
proof -
  let ?h = "xxh3 item" and ?bs = "buckets f"
  let ?n = "length ?bs" and ?fp = "calc_fp ?h"
  let ?i1 = "home_index ?n ?h"
  let ?i2 = "alternate_index ?n ?i1 ?fp"
  let ?f0 = "f\<lparr>last_failure := NoFailure\<rparr>"
  have t: "table_ok ?bs" using inv by (simp add: filter_inv_def)
  have i: "index_ok ?bs ?i1" "index_ok ?bs ?i2"
    using home_index_ok [OF t] alternate_index_ok [OF t] by blast+
  have pair: "pair_of ?n ?i1 ?fp ?i1" "pair_of ?n ?i1 ?fp ?i2" by (simp_all add: pair_of_def)
  consider (present) "find_fp ?bs ?i1 ?fp"
    | (full) "\<not> find_fp ?bs ?i1 ?fp" "load_limit (?n * FPS_PER_BUCKET) \<le> cf_size f"
    | (room1) s where "\<not> find_fp ?bs ?i1 ?fp" "cf_size f < load_limit (?n * FPS_PER_BUCKET)"
        "find_empty_slot ?bs ?i1 = Some s"
    | (room2) s where "\<not> find_fp ?bs ?i1 ?fp" "cf_size f < load_limit (?n * FPS_PER_BUCKET)"
        "find_empty_slot ?bs ?i1 = None" "find_empty_slot ?bs ?i2 = Some s"
    | (kick) "\<not> find_fp ?bs ?i1 ?fp" "cf_size f < load_limit (?n * FPS_PER_BUCKET)"
        "find_empty_slot ?bs ?i1 = None" "find_empty_slot ?bs ?i2 = None"
    by (metis linorder_not_le option.exhaust)
  then show ?thesis
  proof cases
    case present
    with ins insert_post_present [OF inv, of xxh3 item] show ?thesis
      by (simp add: filter_insert_def Let_def)
  next
    case full
    with ins insert_post_unchanged [OF inv, of LoadLimit] show ?thesis
      by (auto simp add: filter_insert_def Let_def)
  next
    case (room1 s)
    with ins have "ok" "f' = ?f0\<lparr>buckets := set_slot ?bs ?i1 s ?fp, cf_size := cf_size f + 1\<rparr>"
      by (simp_all add: filter_insert_def Let_def)
    with insert_post_filled [of f xxh3 item _ f', OF inv room1(2) pair(1)] kick_post_fill [OF t i(1) room1(3)]
    show ?thesis by simp
  next
    case (room2 s)
    with ins have "ok" "f' = ?f0\<lparr>buckets := set_slot ?bs ?i2 s ?fp, cf_size := cf_size f + 1\<rparr>"
      by (simp_all add: filter_insert_def Let_def)
    with insert_post_filled [of f xxh3 item _ f', OF inv room2(2) pair(2)] kick_post_fill [OF t i(2) room2(4)]
    show ?thesis by simp
  next
    case kick
    obtain r rng where rnd: "next_rand_u64 (rng_state f) = (r, rng)" by fastforce
    define vi where "vi = (if r AND 1 = 0 then ?i1 else ?i2)"
    have vi: "index_ok ?bs vi" "find_empty_slot ?bs vi = None" "pair_of ?n ?i1 ?fp vi"
      using i kick pair by (simp_all add: vi_def)
    obtain ok1 f1 where k: "kick_out vi ?fp (?f0\<lparr>rng_state := rng\<rparr>) = (ok1, f1)" by fastforce
    with ins kick rnd have res: "ok = ok1"
      "f' = (if ok1 then f1 else f1\<lparr>rng_state := rng_state f, last_failure := KickLimit\<rparr>)"
      by (auto simp: filter_insert_def Let_def vi_def split: bool.splits if_splits)
    have post: "if ok1 then kick_post ?bs vi ?fp (buckets f1) \<and> cf_size f1 = cf_size f + 1
        \<and> maximum_kicks f1 = maximum_kicks f else \<exists>rng'. f1 = ?f0\<lparr>rng_state := rng'\<rparr>"
      using kick_out_correct [OF _ _ _ _ k] t vi by auto
    show ?thesis
    proof (cases ok1)
      case True
      with insert_post_filled [of f xxh3 item _ f1, OF inv kick(2) vi(3)] post res show ?thesis by simp
    next
      case False
      with post res have "f' = f\<lparr>last_failure := KickLimit\<rparr>" by auto
      with insert_post_unchanged [OF inv, of KickLimit xxh3 item] res(1) False show ?thesis by simp
    qed
  qed
qed


section \<open>The interface to the blocklist\<close>

text \<open>
  What a client of the filter relies on: an approximate set never forgets a key it has accepted,
  and a refused insertion changes none of its answers.
\<close>

locale approximate_set =
  fixes inv :: "'f \<Rightarrow> bool" and ins :: "'k \<Rightarrow> 'f \<Rightarrow> bool \<times> 'f" and mem :: "'f \<Rightarrow> 'k \<Rightarrow> bool"
  assumes ins_inv: "inv f \<Longrightarrow> ins k f = (ok, f') \<Longrightarrow> inv f'"
    and ins_mem: "inv f \<Longrightarrow> ins k f = (True, f') \<Longrightarrow> mem f' k"
    and ins_keeps: "inv f \<Longrightarrow> ins k f = (ok, f') \<Longrightarrow> mem f k' \<Longrightarrow> mem f' k'"
    and ins_refused: "inv f \<Longrightarrow> ins k f = (False, f') \<Longrightarrow> mem f' = mem f"
begin

definition holds :: "'k set \<Rightarrow> 'f \<Rightarrow> bool" where
  "holds K f \<longleftrightarrow> inv f \<and> (\<forall>k \<in> K. mem f k)"

lemma holds_empty: "inv f \<Longrightarrow> holds {} f"
  by (simp add: holds_def)

lemma holds_ins: "holds K f \<Longrightarrow> ins k f = (True, f') \<Longrightarrow> holds (insert k K) f'"
  by (auto simp: holds_def intro: ins_inv ins_mem ins_keeps)

lemma holds_refused: "holds K f \<Longrightarrow> ins k f = (False, f') \<Longrightarrow> holds K f'"
  by (auto simp: holds_def ins_refused intro: ins_inv)

end

interpretation cuckoo: approximate_set filter_inv "filter_insert xxh3" "filter_contains xxh3"
  for xxh3 :: "byte list \<Rightarrow> u64"
proof
  fix f k ok f' k'
  assume inv: "filter_inv f"
  show "filter_inv f'" if "filter_insert xxh3 k f = (ok, f')"
    using filter_insert_correct [OF inv that] by (simp add: insert_post_def)
  show "filter_contains xxh3 f' k" if "filter_insert xxh3 k f = (True, f')"
    using filter_insert_correct [OF inv that] by (simp add: insert_post_def)
  have unchanged: "filter_contains xxh3 (f\<lparr>last_failure := r\<rparr>) = filter_contains xxh3 f" for r
    by (simp add: filter_contains_def fun_eq_iff)
  show "filter_contains xxh3 f' = filter_contains xxh3 f" if "filter_insert xxh3 k f = (False, f')"
    using filter_insert_correct [OF inv that] unchanged by (metis insert_post_def)
  show "filter_contains xxh3 f' k'" if "filter_insert xxh3 k f = (ok, f')" "filter_contains xxh3 f k'"
    using filter_insert_correct [OF inv that(1)] that(2) unchanged by (metis insert_post_def)
qed

text \<open>
  C30. An insertion either succeeds, and then the filter answers yes for exactly the items it answered
  yes for before and those whose fingerprint and bucket pair are those of the new item (so the item
  itself, and nothing is forgotten), or fails, and then nothing but the reported reason changes:
  every fingerprint and the random state are as before.  The invariant holds either way: a
  power-of-two table of full-size buckets whose size is the number of occupied slots and within
  the load limit.
\<close>

theorem filter_insert_exact:
  assumes "filter_inv f" and "filter_insert xxh3 item f = (ok, f')"
  shows "filter_inv f'
    \<and> (ok \<longrightarrow> filter_contains xxh3 f' item
         \<and> (\<forall>y. filter_contains xxh3 f' y \<longleftrightarrow> filter_contains xxh3 f y \<or> claims f (xxh3 item) (xxh3 y)))
    \<and> (\<not> ok \<longrightarrow> (\<exists>reason. reason \<noteq> NoFailure \<and> f' = f\<lparr>last_failure := reason\<rparr>))"
  using filter_insert_correct [OF assms] unfolding insert_post_def by (metis claims_refl)

text \<open>The constructor gives an empty filter that satisfies the invariant, with room for at least
  the buckets asked for, or throws; it cannot throw for a request of at most \<open>2 ^ 57\<close> buckets.\<close>

theorem new_filter_correct:
  "(case new_filter requested mk of
      Some f \<Rightarrow> filter_inv f \<and> (\<forall>item. \<not> filter_contains xxh3 f item) \<and> requested \<le> length (buckets f)
    | None \<Rightarrow> 2 ^ 57 < requested)"
proof (cases "new_filter requested mk")
  case None
  show ?thesis
  proof (rule ccontr)
    assume "\<not> ?thesis"
    with None have le: "requested \<le> 2 ^ 57" by simp
    have "1 \<le> max requested 4" by simp
    then obtain k where k: "bit_ceil (max requested 4) = 2 ^ k"
        "bit_ceil (max requested 4) < 2 * max requested 4"
      using bit_ceil_spec by blast
    with le have "(2 :: nat) ^ k < 2 ^ 58" by simp
    then have "k < 58" by (simp only: power_strict_increasing_iff one_less_numeral_iff semiring_norm)
    then have "k \<le> 57" by simp
    then have "(2 :: nat) ^ k \<le> 2 ^ 57" by (simp only: power_increasing_iff one_less_numeral_iff semiring_norm)
    with k None le show False
      by (auto simp: new_filter_def normalize_bucket_count_def Let_def buckets_max_size_def size_max_def
          FPS_PER_BUCKET_def split: if_splits)
  qed
next
  case (Some f)
  with new_filter_Some [OF Some] show ?thesis by simp
qed

lemma new_filter_small:
  "new_filter 4 500 = Some \<lparr>buckets = replicate 4 (replicate 4 0), cf_size = 0, maximum_kicks = 500,
     rng_state = splitmix64 (4 XOR 0xD1B54A32D192ED03), last_failure = NoFailure\<rparr>"
  by (simp add: new_filter_def normalize_bucket_count_def bit_ceil.simps buckets_max_size_def
      size_max_def FPS_PER_BUCKET_def)

lemma small_insert:
  "\<exists>f'. filter_insert (\<lambda>_. 5) item
     \<lparr>buckets = replicate 4 (replicate 4 0), cf_size = 0, maximum_kicks = 500,
      rng_state = splitmix64 (4 XOR 0xD1B54A32D192ED03), last_failure = NoFailure\<rparr> = (True, f')"
proof -
  have i: "home_index 4 5 = 1" by (simp add: home_index_def bucket_mask_def)
  have e: "find_empty_slot (replicate 4 (replicate 4 0)) 1 = Some 0"
    by (simp add: find_empty_slot_def bucket_at_def first_empty_eq eval_nat_numeral)
  show ?thesis
    by (simp add: filter_insert_def Let_def i e load_limit_def FPS_PER_BUCKET_def)
qed

lemma filter_insert_exact_witness:
  "\<exists>f f'. filter_inv f \<and> filter_insert (\<lambda>_. 5) [1] f = (True, f') \<and> filter_contains (\<lambda>_. 5) f' [1]"
proof -
  let ?f = "\<lparr>buckets = replicate 4 (replicate 4 0), cf_size = 0, maximum_kicks = 500,
     rng_state = splitmix64 (4 XOR 0xD1B54A32D192ED03), last_failure = NoFailure\<rparr>"
  have inv: "filter_inv ?f" using new_filter_Some [OF new_filter_small] by blast
  obtain f' where ins: "filter_insert (\<lambda>_. 5) [1] ?f = (True, f')"
    using small_insert by blast
  with filter_insert_exact [OF inv ins] inv show ?thesis by blast
qed

end
