(* ===== verification/DomainBlocklist.thy ===== *)
theory DomainBlocklist
  imports RadixTree CuckooFilter
begin

text \<open>
  \<open>src/DomainBlocklist.{h,cpp}\<close> and \<open>src/FilterContext.{h,cpp}\<close>: the compiled blocklist, an
  approximate prefilter in front of the rule tree, and the immutable snapshot that carries it.

  The locale \<open>prefiltered_matcher\<close> combines the interfaces of the two structures: if every rule's
  key is among the keys probed for a query it covers, the combination is exact.  The doubling loop
  of \<open>build\<close> is a partial function, so not returning would be the value \<open>None\<close>; \<open>build_loop_total\<close>
  shows that it always returns.
\<close>

section \<open>Definitions\<close>

datatype blocklist_error_code = BL_InvalidDomain | BL_RootRuleNotAllowed | BL_WildcardNotSupported
  | BL_CapacityOverflow | BL_Cancelled

text \<open>
  \<open>build\<close> returns an error or lets the \<open>std::length_error\<close> of the filter's constructor escape.
\<close>

datatype blocklist_failure = BuildError blocklist_error_code nat | BuildLengthError

record domain_blocklist =
  prefilter :: cuckoo_filter
  tree :: trie_node
  rule_count :: nat
  normalized_rule_bytes :: nat

definition contains_unsupported_wildcard :: "domain_name \<Rightarrow> bool" where
  "contains_unsupported_wildcard name \<longleftrightarrow> (\<exists>label \<in> set (labels name). 42 \<in> set label \<or> 63 \<in> set label)"

definition initial_bucket_count :: "nat \<Rightarrow> nat" where
  "initial_bucket_count item_count = (if item_count < 4 then 4 else item_count div 3 + 1)"

definition new_blocklist :: "nat \<Rightarrow> domain_blocklist option" where
  "new_blocklist bucket_count =
     map_option (\<lambda>f. \<lparr>prefilter = f, tree = new_tree, rule_count = 0, normalized_rule_bytes = 0\<rparr>)
       (new_filter bucket_count MAX_KICKS)"

text \<open>The default constructor asks for four buckets.\<close>

definition default_blocklist :: "domain_blocklist option" where
  "default_blocklist = new_blocklist 4"

text \<open>
  The stop token is polled at fixed places.  \<open>stop n\<close> is the answer to the \<open>n\<close>-th poll, and every
  loop returns the number of polls made so far.
\<close>

fun collect_rules ::
  "(nat \<Rightarrow> bool) \<Rightarrow> byte list list \<Rightarrow> nat \<Rightarrow> nat \<Rightarrow> byte list set \<Rightarrow> domain_name list
     \<Rightarrow> blocklist_failure + (domain_name list \<times> nat)" where
  "collect_rules stop [] index polls unique_rules canonical_rules = Inr (canonical_rules, polls)"
| "collect_rules stop (rule # rules) index polls unique_rules canonical_rules =
     (if stop polls then Inl (BuildError BL_Cancelled index)
      else case from_text rule of
        Inl _ \<Rightarrow> Inl (BuildError BL_InvalidDomain index)
      | Inr name \<Rightarrow>
          if is_root name then Inl (BuildError BL_RootRuleNotAllowed index)
          else if contains_unsupported_wildcard name then Inl (BuildError BL_WildcardNotSupported index)
          else if canonical_key name \<in> unique_rules
          then collect_rules stop rules (index + 1) (polls + 1) unique_rules canonical_rules
          else collect_rules stop rules (index + 1) (polls + 1) (insert (canonical_key name) unique_rules)
                 (canonical_rules @ [name]))"

fun insert_prefilter ::
  "(byte list \<Rightarrow> u64) \<Rightarrow> (nat \<Rightarrow> bool) \<Rightarrow> domain_name list \<Rightarrow> nat \<Rightarrow> nat \<Rightarrow> cuckoo_filter
     \<Rightarrow> blocklist_failure + (bool \<times> cuckoo_filter \<times> nat)" where
  "insert_prefilter xxh3 stop [] index polls f = Inr (True, f, polls)"
| "insert_prefilter xxh3 stop (name # names) index polls f =
     (if stop polls then Inl (BuildError BL_Cancelled index)
      else case filter_insert xxh3 (canonical_key name) f of
        (False, f') \<Rightarrow> Inr (False, f', polls + 1)
      | (True, f') \<Rightarrow> insert_prefilter xxh3 stop names (index + 1) (polls + 1) f')"

fun insert_tree ::
  "(nat \<Rightarrow> bool) \<Rightarrow> domain_name list \<Rightarrow> nat \<Rightarrow> nat \<Rightarrow> trie_node \<Rightarrow> blocklist_failure + (trie_node \<times> nat)" where
  "insert_tree stop [] index polls t = Inr (t, polls)"
| "insert_tree stop (name # names) index polls t =
     (if stop polls then Inl (BuildError BL_Cancelled index)
      else insert_tree stop names (index + 1) (polls + 1) (snd (tree_insert name t)))"

partial_function (option) build_loop ::
  "(byte list \<Rightarrow> u64) \<Rightarrow> (nat \<Rightarrow> bool) \<Rightarrow> domain_name list \<Rightarrow> nat \<Rightarrow> nat
     \<Rightarrow> (blocklist_failure + domain_blocklist \<times> nat) option" where
  "build_loop xxh3 stop canonical_rules polls bucket_count =
     (if stop polls then Some (Inl (BuildError BL_Cancelled 0))
      else case new_blocklist bucket_count of
        None \<Rightarrow> Some (Inl BuildLengthError)
      | Some candidate \<Rightarrow>
          (case insert_prefilter xxh3 stop canonical_rules 0 (polls + 1) (prefilter candidate) of
             Inl e \<Rightarrow> Some (Inl e)
           | Inr r \<Rightarrow>
               (case r of (inserted_all, f, polls') \<Rightarrow>
                  if inserted_all then
                    (case insert_tree stop canonical_rules 0 polls' (tree candidate) of
                       Inl e \<Rightarrow> Some (Inl e)
                     | Inr (t, polls'') \<Rightarrow>
                         Some (Inr (\<lparr>prefilter = f, tree = t, rule_count = length canonical_rules,
                           normalized_rule_bytes =
                             sum_list (map (\<lambda>rule. length (canonical_key rule)) canonical_rules)\<rparr>, polls'')))
                  else if bucket_count > size_max div 2 then Some (Inl (BuildError BL_CapacityOverflow 0))
                  else build_loop xxh3 stop canonical_rules polls' (bucket_count * 2))))"

text \<open>\<open>DomainBlocklist::build\<close>; the outer \<open>None\<close> would be a build that never returns.\<close>

definition build ::
  "(byte list \<Rightarrow> u64) \<Rightarrow> (nat \<Rightarrow> bool) \<Rightarrow> byte list list
     \<Rightarrow> (blocklist_failure + domain_blocklist \<times> nat) option" where
  "build xxh3 stop rules =
     (if stop 0 then Some (Inl (BuildError BL_Cancelled 0))
      else case collect_rules stop rules 0 1 {} [] of
        Inl e \<Rightarrow> Some (Inl e)
      | Inr (canonical_rules, polls) \<Rightarrow>
          build_loop xxh3 stop canonical_rules polls (initial_bucket_count (length canonical_rules)))"

definition matches :: "(byte list \<Rightarrow> u64) \<Rightarrow> domain_blocklist \<Rightarrow> domain_name \<Rightarrow> bool" where
  "matches xxh3 b query \<longleftrightarrow>
     list_ex (\<lambda>first_label. filter_contains xxh3 (prefilter b) (canonical_suffix_key query first_label))
       [0..<label_count query]
     \<and> tree_search (tree b) query"

definition matches_text :: "(byte list \<Rightarrow> u64) \<Rightarrow> domain_blocklist \<Rightarrow> byte list \<Rightarrow> bool" where
  "matches_text xxh3 b text = (case from_text text of Inl _ \<Rightarrow> False | Inr query \<Rightarrow> matches xxh3 b query)"

section \<open>An approximate set in front of an exact matcher\<close>

locale prefiltered_matcher =
  approximate_set inv ins mem + exact_matcher empty tins search rule_ok query_ok covers
  for inv :: "'f \<Rightarrow> bool" and ins :: "'k \<Rightarrow> 'f \<Rightarrow> bool \<times> 'f" and mem :: "'f \<Rightarrow> 'k \<Rightarrow> bool"
    and empty :: "'t" and tins :: "'n \<Rightarrow> 't \<Rightarrow> bool \<times> 't" and search :: "'t \<Rightarrow> 'n \<Rightarrow> bool"
    and rule_ok :: "'n \<Rightarrow> bool" and query_ok :: "'n \<Rightarrow> bool" and covers :: "'n \<Rightarrow> 'n \<Rightarrow> bool" +
  fixes key :: "'n \<Rightarrow> 'k" and probes :: "'n \<Rightarrow> 'k list"
  assumes probe: "rule_ok n \<Longrightarrow> query_ok q \<Longrightarrow> covers n q \<Longrightarrow> key n \<in> set (probes q)"
begin

lemma prefiltered_exact:
  assumes "\<forall>n \<in> set ns. rule_ok n" and "query_ok q" and "holds (key ` set ns) f"
  shows "list_ex (mem f) (probes q) \<and> search (fold (\<lambda>n t. snd (tins n t)) ns empty) q
           \<longleftrightarrow> (\<exists>n \<in> set ns. covers n q)"
  using assms search_fold [OF assms(1,2)] search_empty probe
  by (auto simp: holds_def list_ex_iff)

end

definition suffix_keys :: "domain_name \<Rightarrow> byte list list" where
  "suffix_keys q = map (canonical_suffix_key q) [0..<label_count q]"

lemma key_of_labels_cong:
  assumes "map (map ascii_lower) ls = map (map ascii_lower) ms"
  shows "key_of_labels ls = key_of_labels ms"
proof -
  have "map label_key xs = map (\<lambda>l. of_nat (length l) # l) (map (map ascii_lower) xs)" for xs
    by (simp add: label_key_def)
  note this [of ls] this [of ms]
  then have "map label_key ls = map label_key ms"
    using assms by (simp only:)
  then show ?thesis by (simp add: key_of_labels_def)
qed

lemma key_in_suffix_keys:
  assumes "blockable n" and "wf_name q" and "is_subdomain_of q n"
  shows "canonical_key n \<in> set (suffix_keys q)"
proof -
  from assms(3) obtain pre where pre: "canonical_labels q = pre @ canonical_labels n"
    by (auto simp: is_subdomain_suffix suffix_def)
  let ?k = "length pre"
  from pre have "map (map ascii_lower) (labels n) = map (map ascii_lower) (drop ?k (labels q))"
    by (simp add: canonical_labels_def flip: drop_map)
  then have "key_of_labels (labels n) = key_of_labels (drop ?k (labels q))"
    by (rule key_of_labels_cong)
  moreover have "?k < label_count q"
    using arg_cong [OF pre, of length] assms(1)
    by (simp add: label_count_def canonical_labels_def blockable_def is_root_def)
  moreover from assms(1) have "canonical_key n = key_of_labels (labels n)"
    by (auto simp: blockable_def elim: wf_nameE)
  ultimately show ?thesis
    using assms(2) by (auto simp: suffix_keys_def canonical_suffix_key_eq)
qed

interpretation blocked: prefiltered_matcher filter_inv "filter_insert xxh3" "filter_contains xxh3"
  new_tree tree_insert tree_search blockable wf_name "\<lambda>rule query. is_subdomain_of query rule"
  canonical_key suffix_keys
  for xxh3 :: "byte list \<Rightarrow> u64"
  by unfold_locales (rule key_in_suffix_keys)


section \<open>Building\<close>

text \<open>None of the polls \<open>a\<close> to \<open>b - 1\<close> asked to stop.\<close>

definition quiet :: "(nat \<Rightarrow> bool) \<Rightarrow> nat \<Rightarrow> nat \<Rightarrow> bool" where
  "quiet stop a b \<longleftrightarrow> (\<forall>k. a \<le> k \<longrightarrow> k < b \<longrightarrow> \<not> stop k)"

lemma quiet_empty [simp]: "quiet stop a a"
  by (simp add: quiet_def)

lemma quiet_step: "\<not> stop a \<Longrightarrow> quiet stop (Suc a) b \<Longrightarrow> quiet stop a b"
  by (metis quiet_def le_eq_less_or_eq Suc_le_eq)

lemma quiet_trans: "quiet stop a b \<Longrightarrow> quiet stop b c \<Longrightarrow> quiet stop a c"
  by (metis quiet_def not_le)

lemma collect_rules_Inr:
  assumes "collect_rules stop rules index polls seen acc = Inr (cs, p)"
    and "seen = canonical_key ` set acc"
  shows "(\<forall>r \<in> set rules. \<exists>n. from_text r = Inr n \<and> \<not> is_root n \<and> \<not> contains_unsupported_wildcard n
            \<and> (\<exists>c \<in> set cs. name_eq c n))
         \<and> (\<forall>c \<in> set cs. c \<in> set acc \<or> (\<exists>r \<in> set rules. from_text r = Inr c))
         \<and> set acc \<subseteq> set cs \<and> (distinct (map canonical_key acc) \<longrightarrow> distinct (map canonical_key cs))
         \<and> p = polls + length rules \<and> quiet stop polls p"
  using assms
proof (induction rules arbitrary: index polls seen acc)
  case (Cons rule rules)
  from Cons.prems(1) obtain n where n: "from_text rule = Inr n" "\<not> is_root n"
      "\<not> contains_unsupported_wildcard n" and stop: "\<not> stop polls"
    by (auto split: if_splits sum.splits)
  define acc' where "acc' = (if canonical_key n \<in> seen then acc else acc @ [n])"
  define seen' where "seen' = insert (canonical_key n) seen"
  have seen': "seen' = canonical_key ` set acc'"
    using Cons.prems(2) by (auto simp: seen'_def acc'_def)
  have "collect_rules stop rules (index + 1) (polls + 1) seen' acc' = Inr (cs, p)"
    using Cons.prems(1) n stop by (auto simp: seen'_def acc'_def insert_absorb split: if_splits)
  note IH = Cons.IH [OF this seen']
  have "\<exists>c \<in> set acc'. name_eq c n"
    using Cons.prems(2) by (auto simp: acc'_def name_eq_def)
  with IH have "\<exists>c \<in> set cs. name_eq c n" by blast
  moreover have "distinct (map canonical_key acc) \<longrightarrow> distinct (map canonical_key acc')"
    using Cons.prems(2) by (auto simp: acc'_def)
  moreover have "set acc \<subseteq> set acc'" "set acc' \<subseteq> insert n (set acc)"
    by (auto simp: acc'_def)
  moreover have "quiet stop polls p"
    using IH stop by (auto intro: quiet_step)
  moreover have "c \<in> set acc \<or> (\<exists>r \<in> set (rule # rules). from_text r = Inr c)" if "c \<in> set cs" for c
    using IH that n(1) \<open>set acc' \<subseteq> insert n (set acc)\<close> by auto
  ultimately show ?case
    using IH n by auto
qed simp

lemma insert_prefilter_Inr:
  assumes "cuckoo.holds xxh3 K f" and "insert_prefilter xxh3 stop names index polls f = Inr (True, f', p)"
  shows "cuckoo.holds xxh3 (K \<union> canonical_key ` set names) f'
         \<and> p = polls + length names \<and> quiet stop polls p"
  using assms
proof (induction names arbitrary: index polls K f)
  case (Cons n names)
  from Cons.prems(2) obtain f1 where one: "filter_insert xxh3 (canonical_key n) f = (True, f1)"
    and rest: "insert_prefilter xxh3 stop names (index + 1) (polls + 1) f1 = Inr (True, f', p)"
    and stop: "\<not> stop polls"
    by (auto split: if_splits prod.splits bool.splits)
  note IH = Cons.IH [OF cuckoo.holds_ins [OF Cons.prems(1) one] rest]
  with stop show ?case by (auto intro: quiet_step)
qed simp

lemma insert_tree_Inr:
  assumes "insert_tree stop names index polls t = Inr (t', p)"
  shows "t' = fold (\<lambda>n t. snd (tree_insert n t)) names t
         \<and> p = polls + length names \<and> quiet stop polls p"
  using assms
proof (induction names arbitrary: index polls t)
  case (Cons n names)
  then have rest: "insert_tree stop names (index + 1) (polls + 1) (snd (tree_insert n t)) = Inr (t', p)"
    and stop: "\<not> stop polls"
    by (auto split: if_splits)
  note IH = Cons.IH [OF rest]
  with stop show ?case by (auto intro: quiet_step)
qed simp

definition rule_defect :: "byte list \<Rightarrow> blocklist_error_code option" where
  "rule_defect rule =
     (case from_text rule of Inl _ \<Rightarrow> Some BL_InvalidDomain
      | Inr n \<Rightarrow> if is_root n then Some BL_RootRuleNotAllowed
                 else if contains_unsupported_wildcard n then Some BL_WildcardNotSupported else None)"

lemma collect_rules_Inl:
  assumes "collect_rules stop rules index polls seen acc = Inl e"
  shows "(\<exists>i. e = BuildError BL_Cancelled i) \<and> (\<exists>k. stop k)
    \<or> (\<exists>i < length rules. \<exists>c. e = BuildError c (index + i) \<and> rule_defect (rules ! i) = Some c
         \<and> (\<forall>j < i. rule_defect (rules ! j) = None))"
  using assms
proof (induction rules arbitrary: index polls seen acc)
  case (Cons rule rules)
  consider "stop polls" | c where "\<not> stop polls" "rule_defect rule = Some c"
    | "\<not> stop polls" "rule_defect rule = None" by fastforce
  then show ?case
  proof cases
    case 1
    with Cons.prems show ?thesis by auto
  next
    case (2 c)
    with Cons.prems have "e = BuildError c index"
      by (auto simp: rule_defect_def split: sum.splits if_splits)
    with 2 show ?thesis by (intro disjI2 exI [of _ 0]) simp
  next
    case 3
    then obtain seen' acc' where "collect_rules stop rules (index + 1) (polls + 1) seen' acc' = Inl e"
      using Cons.prems by (auto simp: rule_defect_def split: sum.splits if_splits)
    from Cons.IH [OF this] show ?thesis
    proof (elim disjE exE conjE)
      fix i c
      assume "i < length rules" "e = BuildError c (index + 1 + i)" "rule_defect (rules ! i) = Some c"
        "\<forall>j < i. rule_defect (rules ! j) = None"
      with 3 show ?thesis
        by (intro disjI2 exI [of _ "Suc i"]) (auto simp: less_Suc_eq_0_disj)
    qed auto
  qed
qed simp

lemma insert_prefilter_Inl:
  "insert_prefilter xxh3 stop names index polls f = Inl e \<Longrightarrow>
     (\<exists>i. e = BuildError BL_Cancelled i) \<and> (\<exists>k. stop k)"
  by (induction names arbitrary: index polls f) (auto split: if_splits prod.splits bool.splits)

lemma insert_tree_Inl:
  "insert_tree stop names index polls t = Inl e \<Longrightarrow>
     (\<exists>i. e = BuildError BL_Cancelled i) \<and> (\<exists>k. stop k)"
  by (induction names arbitrary: index polls t) (auto split: if_splits)

lemma insert_prefilter_polls:
  "insert_prefilter xxh3 stop names index polls f = Inr (ok, f', p) \<Longrightarrow> quiet stop polls p \<and> polls \<le> p"
  by (induction names arbitrary: index polls f)
    (fastforce split: if_splits prod.splits bool.splits intro: quiet_step)+

lemma new_blocklist_Some:
  assumes "new_blocklist n = Some b"
  shows "cuckoo.holds xxh3 {} (prefilter b) \<and> tree b = new_tree \<and> n \<le> buckets_max_size"
proof -
  from assms obtain f where f: "new_filter n MAX_KICKS = Some f" and b: "prefilter b = f" "tree b = new_tree"
    by (auto simp: new_blocklist_def)
  from new_filter_Some [OF f, of xxh3] b show ?thesis by (auto simp: cuckoo.holds_def intro: le_trans)
qed

text \<open>What a finished round of the doubling loop returns.\<close>

definition built :: "(byte list \<Rightarrow> u64) \<Rightarrow> domain_name list \<Rightarrow> domain_blocklist \<Rightarrow> bool" where
  "built xxh3 names b \<longleftrightarrow> cuckoo.holds xxh3 (canonical_key ` set names) (prefilter b)
     \<and> tree b = fold (\<lambda>n t. snd (tree_insert n t)) names new_tree \<and> rule_count b = length names
     \<and> normalized_rule_bytes b = sum_list (map (\<lambda>rule. length (canonical_key rule)) names)"

definition loop_post ::
  "(byte list \<Rightarrow> u64) \<Rightarrow> (nat \<Rightarrow> bool) \<Rightarrow> domain_name list \<Rightarrow> nat
     \<Rightarrow> blocklist_failure + domain_blocklist \<times> nat \<Rightarrow> bool" where
  "loop_post xxh3 stop names polls r \<longleftrightarrow>
     (case r of Inr (b, p) \<Rightarrow> built xxh3 names b \<and> quiet stop polls p
      | Inl e \<Rightarrow> e = BuildLengthError \<or> (\<exists>i. e = BuildError BL_Cancelled i) \<and> (\<exists>k. stop k))"

lemma build_loop_round:
  "(\<exists>r. build_loop xxh3 stop names polls n = Some r \<and> loop_post xxh3 stop names polls r)
   \<or> (\<exists>p. build_loop xxh3 stop names polls n = build_loop xxh3 stop names p (n * 2)
        \<and> quiet stop polls p \<and> n \<le> buckets_max_size)"
proof (cases "stop polls \<or> new_blocklist n = None")
  case True
  with build_loop.simps [of xxh3 stop names polls n] show ?thesis
    by (cases "stop polls") (auto simp: loop_post_def)
next
  case False
  then obtain b where go: "\<not> stop polls" "new_blocklist n = Some b" by auto
  note b = new_blocklist_Some [OF go(2), of xxh3]
  note unfold = build_loop.simps [of xxh3 stop names polls n]
  show ?thesis
  proof (cases "insert_prefilter xxh3 stop names 0 (polls + 1) (prefilter b)")
    case (Inl e)
    with unfold go insert_prefilter_Inl [OF Inl] show ?thesis by (auto simp: loop_post_def)
  next
    case (Inr r)
    then obtain ok f p where ins: "insert_prefilter xxh3 stop names 0 (polls + 1) (prefilter b) = Inr (ok, f, p)"
      by (metis prod_cases3)
    have q: "quiet stop polls p"
      using insert_prefilter_polls [OF ins] go quiet_step by auto
    have "\<not> n > size_max div 2"
      using b by (simp add: buckets_max_size_def size_max_def)
    with unfold go ins q b have "\<not> ok \<Longrightarrow> ?thesis" by auto
    moreover have ?thesis if ok
    proof (cases "insert_tree stop names 0 p (tree b)")
      case (Inl e)
      with unfold go ins that insert_tree_Inl [OF Inl] show ?thesis by (auto simp: loop_post_def)
    next
      case (Inr tp)
      then obtain t p' where tr: "insert_tree stop names 0 p (tree b) = Inr (t, p')" by fastforce
      have "cuckoo.holds xxh3 (canonical_key ` set names) f"
        using insert_prefilter_Inr [of xxh3 "{}" "prefilter b" stop names 0 "polls + 1" f p] b ins that
        by simp
      with insert_tree_Inr [OF tr] b unfold go ins that tr quiet_trans [OF q, of p'] show ?thesis
        by (auto simp: loop_post_def built_def)
    qed
    ultimately show ?thesis by blast
  qed
qed

lemma loop_post_later: "quiet stop polls p \<Longrightarrow> loop_post xxh3 stop names p r \<Longrightarrow> loop_post xxh3 stop names polls r"
  by (auto simp: loop_post_def split: sum.splits intro: quiet_trans)

lemma build_loop_total:
  assumes "0 < n"
  shows "\<exists>r. build_loop xxh3 stop names polls n = Some r \<and> loop_post xxh3 stop names polls r"
  using assms
proof (induction "2 ^ 64 - n" arbitrary: n polls rule: less_induct)
  case less
  from build_loop_round [of xxh3 stop names polls n] show ?case
  proof
    assume "\<exists>p. build_loop xxh3 stop names polls n = build_loop xxh3 stop names p (n * 2)
        \<and> quiet stop polls p \<and> n \<le> buckets_max_size"
    then obtain p where p: "build_loop xxh3 stop names polls n = build_loop xxh3 stop names p (n * 2)"
      "quiet stop polls p" "n \<le> buckets_max_size" by blast
    then have "2 ^ 64 - n * 2 < 2 ^ 64 - n"
      using less.prems by (simp add: buckets_max_size_def)
    from less.hyps [OF this, of p] less.prems p loop_post_later show ?thesis by fastforce
  qed
qed

section \<open>Correctness of the blocklist\<close>

lemma collected_blockable:
  assumes "collect_rules stop rules 0 1 {} [] = Inr (cs, p)" and "c \<in> set cs"
  shows "blockable c"
proof -
  from collect_rules_Inr [OF assms(1)] assms(2) obtain r where r: "r \<in> set rules" "from_text r = Inr c"
    by auto
  with collect_rules_Inr [OF assms(1)] from_text_wf [OF r(2)] show ?thesis
    by (fastforce simp: blockable_def)
qed

lemma collected_keys:
  assumes "collect_rules stop rules 0 1 {} [] = Inr (cs, p)"
  shows "canonical_key ` set cs = {canonical_key n | n rule. rule \<in> set rules \<and> from_text rule = Inr n}"
    (is "?L = ?R")
proof
  note cs = collect_rules_Inr [OF assms, simplified]
  show "?L \<subseteq> ?R" using cs by blast
  show "?R \<subseteq> ?L"
  proof
    fix x assume "x \<in> ?R"
    then obtain n rule where n: "x = canonical_key n" "rule \<in> set rules" "from_text rule = Inr n" by blast
    with cs obtain c where "c \<in> set cs" "name_eq c n" by fastforce
    with n(1) show "x \<in> ?L" by (metis name_eq_def imageI)
  qed
qed

lemma matches_built:
  assumes "built xxh3 names b" and "\<forall>n \<in> set names. blockable n" and "wf_name q"
  shows "matches xxh3 b q \<longleftrightarrow> (\<exists>n \<in> set names. is_subdomain_of q n)"
proof -
  have "list_ex (filter_contains xxh3 (prefilter b)) (suffix_keys q) \<longleftrightarrow>
      list_ex (\<lambda>i. filter_contains xxh3 (prefilter b) (canonical_suffix_key q i)) [0..<label_count q]"
    by (simp add: suffix_keys_def list_ex_iff)
  then show ?thesis
    using blocked.prefiltered_exact [OF assms(2,3), of xxh3 "prefilter b"] assms(1)
    by (simp add: matches_def built_def)
qed


lemma initial_bucket_count_pos: "0 < initial_bucket_count n"
  by (simp add: initial_bucket_count_def)

lemma build_Inr:
  assumes "build xxh3 stop rules = Some (Inr (b, p))"
  shows "\<exists>cs k. \<not> stop 0 \<and> collect_rules stop rules 0 1 {} [] = Inr (cs, k) \<and> built xxh3 cs b \<and> quiet stop 0 p"
proof -
  from assms obtain cs k where c: "\<not> stop 0" "collect_rules stop rules 0 1 {} [] = Inr (cs, k)"
    and l: "build_loop xxh3 stop cs k (initial_bucket_count (length cs)) = Some (Inr (b, p))"
    by (auto simp: build_def split: if_splits sum.splits)
  with build_loop_total [OF initial_bucket_count_pos, of xxh3 stop cs k "length cs"]
  have "built xxh3 cs b" "quiet stop k p" by (auto simp: loop_post_def)
  moreover have "quiet stop 0 k"
    using collect_rules_Inr [OF c(2)] c(1) by (auto intro: quiet_step)
  ultimately show ?thesis using c quiet_trans by blast
qed

text \<open>
  A built blocklist matches a name exactly when the name is one of the rules or a subdomain of
  one, for every hash function: a false positive of the approximate prefilter never blocks and the
  prefilter never hides a rule.
\<close>

lemma build_matches_exactly:
  assumes "build xxh3 stop rules = Some (Inr (b, polls))" and "wf_name q"
  shows "matches xxh3 b q \<longleftrightarrow> (\<exists>rule \<in> set rules. \<exists>n. from_text rule = Inr n \<and> is_subdomain_of q n)"
proof -
  from build_Inr [OF assms(1)] obtain cs k where
    c: "collect_rules stop rules 0 1 {} [] = Inr (cs, k)" and b: "built xxh3 cs b" by blast
  note cs = collect_rules_Inr [OF c]
  have "matches xxh3 b q \<longleftrightarrow> (\<exists>n \<in> set cs. is_subdomain_of q n)"
    using matches_built [OF b _ assms(2)] collected_blockable [OF c] by blast
  also have "\<dots> \<longleftrightarrow> (\<exists>rule \<in> set rules. \<exists>n. from_text rule = Inr n \<and> is_subdomain_of q n)"
  proof
    assume "\<exists>n \<in> set cs. is_subdomain_of q n"
    with cs show "\<exists>rule \<in> set rules. \<exists>n. from_text rule = Inr n \<and> is_subdomain_of q n" by fastforce
  next
    assume "\<exists>rule \<in> set rules. \<exists>n. from_text rule = Inr n \<and> is_subdomain_of q n"
    then obtain rule n where n: "rule \<in> set rules" "from_text rule = Inr n" "is_subdomain_of q n" by blast
    with cs obtain c' where c': "c' \<in> set cs" "name_eq c' n" by fastforce
    then have "canonical_labels c' = canonical_labels n"
      using collected_blockable [OF c] from_text_wf [OF n(2)]
      by (simp add: blockable_def name_eq_canonical)
    with n(3) c'(1) show "\<exists>n \<in> set cs. is_subdomain_of q n"
      unfolding is_subdomain_suffix by metis
  qed
  finally show ?thesis .
qed

text \<open>
  C32. A build always returns.  It succeeds only if every rule is a valid, non-root name without a
  wildcard and no poll of the stop token asked to stop, and then counts each name once; it reports a
  defect with the index of the first rule that has it; \<open>Cancelled\<close> only when a stop was requested;
  and never \<open>CapacityOverflow\<close>, because the constructor of the filter throws before the bucket count
  can exceed half of the address space.
\<close>

theorem build_outcome:
  "\<exists>r. build xxh3 stop rules = Some r
     \<and> (case r of
          Inr (b, polls) \<Rightarrow>
            (\<forall>rule \<in> set rules. rule_defect rule = None) \<and> (\<forall>k < polls. \<not> stop k)
            \<and> rule_count b = card {canonical_key n | n rule. rule \<in> set rules \<and> from_text rule = Inr n}
        | Inl (BuildError code i) \<Rightarrow>
            code = BL_Cancelled \<and> (\<exists>k. stop k)
            \<or> i < length rules \<and> rule_defect (rules ! i) = Some code \<and> (\<forall>j < i. rule_defect (rules ! j) = None)
        | Inl BuildLengthError \<Rightarrow> \<forall>rule \<in> set rules. rule_defect rule = None)"
proof (cases "stop 0")
  case True
  then show ?thesis by (auto simp: build_def)
next
  case go: False
  show ?thesis
  proof (cases "collect_rules stop rules 0 1 {} []")
    case (Inl e)
    with go collect_rules_Inl [OF Inl] show ?thesis by (auto simp: build_def)
  next
    case (Inr cp)
    then obtain cs k where c: "collect_rules stop rules 0 1 {} [] = Inr (cs, k)" by fastforce
    note cs = collect_rules_Inr [OF c, simplified]
    have ok: "\<forall>rule \<in> set rules. rule_defect rule = None"
      using cs by (fastforce simp: rule_defect_def)
    have "canonical_key ` set cs = {canonical_key n | n rule. rule \<in> set rules \<and> from_text rule = Inr n}"
      by (rule collected_keys [OF c])
    then have card: "length cs = card {canonical_key n | n rule. rule \<in> set rules \<and> from_text rule = Inr n}"
      using distinct_card [of "map canonical_key cs"] cs by simp
    obtain r where r: "build xxh3 stop rules = Some r" "loop_post xxh3 stop cs k r"
      using build_loop_total [OF initial_bucket_count_pos, of xxh3 stop cs k "length cs"] c go
      by (auto simp: build_def)
    have "quiet stop 0 k"
      using cs go by (auto intro: quiet_step)
    then have polls: "\<forall>j < p. \<not> stop j" if "quiet stop k p" for p
      using quiet_trans [OF _ that] by (auto simp: quiet_def)
    show ?thesis
    proof (cases r)
      case (Inl e)
      with r(2) have "e = BuildLengthError \<or> (\<exists>i. e = BuildError BL_Cancelled i) \<and> (\<exists>k. stop k)"
        by (simp add: loop_post_def)
      with r(1) Inl ok show ?thesis by (elim disjE exE conjE) (simp, simp, blast)
    next
      case (Inr bp)
      then obtain b p where bp: "r = Inr (b, p)" by fastforce
      with r(2) have "built xxh3 cs b" "quiet stop k p" by (simp_all add: loop_post_def)
      with r(1) bp ok polls card show ?thesis by (simp add: built_def)
    qed
  qed
qed

lemma small_text: "from_text [97] = Inr (name_of [[97]])"
  by (simp add: from_text_def from_text_loop.simps from_labels_def kMaxLabelSize_def
      kMaxDomainWireSize_def name_of_def labels_wire_size_def)

lemma small_build:
  "\<exists>b p. build (\<lambda>_. 5) (\<lambda>_. False) [[97]] = Some (Inr (b, p))"
proof -
  obtain f' where f': "filter_insert (\<lambda>_. 5) (canonical_key (name_of [[97]]))
      \<lparr>buckets = replicate 4 (replicate 4 0), cf_size = 0, maximum_kicks = 500,
       rng_state = splitmix64 (4 XOR 0xD1B54A32D192ED03), last_failure = NoFailure\<rparr> = (True, f')"
    using small_insert by blast
  show ?thesis
    by (simp add: build_def small_text is_root_def contains_unsupported_wildcard_def initial_bucket_count_def build_loop.simps new_blocklist_def MAX_KICKS_def
        new_filter_small f' [simplified])
qed

lemma build_outcome_witness:
  "build (\<lambda>_. 5) (\<lambda>_. False) [[97], [42]] = Some (Inl (BuildError BL_WildcardNotSupported 1))"
proof -
  have d: "rule_defect [97] = None" "rule_defect [42] = Some BL_WildcardNotSupported"
    by (simp_all add: rule_defect_def from_text_def from_text_loop.simps from_labels_def kMaxLabelSize_def
        kMaxDomainWireSize_def is_root_def contains_unsupported_wildcard_def)
  then have first: "i = 1 \<and> c = BL_WildcardNotSupported"
    if "i < length [[97 :: byte], [42]]" "rule_defect ([[97], [42]] ! i) = Some c" for i and c
    using that by (cases i) auto
  note build_outcome [of "\<lambda>_. 5" "\<lambda>_. False" "[[97], [42]]"]
  then show ?thesis
  proof (elim exE conjE, goal_cases)
    case (1 r)
    then show ?thesis
    proof (cases r)
      case (Inl e)
      with 1 d first show ?thesis by (cases e) auto
    qed (use d in auto)
  qed
qed

section \<open>Filter snapshots\<close>

definition kInitialFilterGeneration :: u64 where "kInitialFilterGeneration = 1"

record filter_context =
  generation :: u64
  ctx_rule_bytes :: nat
  blocklist :: domain_blocklist

definition new_filter_context :: "u64 \<Rightarrow> domain_blocklist \<Rightarrow> filter_context" where
  "new_filter_context g b = \<lparr>generation = g, ctx_rule_bytes = normalized_rule_bytes b, blocklist = b\<rparr>"

definition build_filter_snapshot ::
  "(byte list \<Rightarrow> u64) \<Rightarrow> (nat \<Rightarrow> bool) \<Rightarrow> byte list list \<Rightarrow> u64
     \<Rightarrow> (blocklist_failure + filter_context) option" where
  "build_filter_snapshot xxh3 stop rules g =
     (case build xxh3 stop rules of
        None \<Rightarrow> None
      | Some (Inl e) \<Rightarrow> Some (Inl e)
      | Some (Inr (b, polls)) \<Rightarrow>
          if stop polls then Some (Inl (BuildError BL_Cancelled 0))
          else Some (Inr (new_filter_context g b)))"

text \<open>
  C13. A snapshot carries the generation it was built for and blocks a name exactly when the name is
  one of the rules or a subdomain of one, for every hash function: a false positive of the
  approximate prefilter never blocks, and the prefilter never hides a rule.
\<close>

theorem build_filter_snapshot_exact:
  assumes "build_filter_snapshot xxh3 stop rules g = Some (Inr ctx)" and "wf_name q"
  shows "generation ctx = g
    \<and> (matches xxh3 (blocklist ctx) q \<longleftrightarrow>
         (\<exists>rule \<in> set rules. \<exists>n. from_text rule = Inr n \<and> is_subdomain_of q n))"
proof -
  from assms(1) obtain b polls where b: "build xxh3 stop rules = Some (Inr (b, polls))"
    and ctx: "ctx = new_filter_context g b"
    by (auto simp: build_filter_snapshot_def split: option.splits sum.splits if_splits)
  from build_matches_exactly [OF b assms(2)] show ?thesis by (simp add: ctx new_filter_context_def)
qed

lemma build_filter_snapshot_exact_witness:
  "\<exists>ctx. build_filter_snapshot (\<lambda>_. 5) (\<lambda>_. False) [[97]] 1 = Some (Inr ctx)
        \<and> matches (\<lambda>_. 5) (blocklist ctx) (name_of [[98], [65]])"
proof -
  obtain ctx where b: "build_filter_snapshot (\<lambda>_. 5) (\<lambda>_. False) [[97]] 1 = Some (Inr ctx)"
    using small_build by (auto simp: build_filter_snapshot_def)
  have "wf_name (name_of [[98], [65]])"
    by (auto simp: wf_name_def valid_labels_def valid_label_def kMaxLabelSize_def kMaxDomainWireSize_def)
  from build_filter_snapshot_exact [OF b this] b show ?thesis
    by (auto simp: small_text is_subdomain_suffix canonical_labels_def ascii_lower_def suffix_Cons)
qed

end
