(* ===== verification/DNS_Cache.thy ===== *)
theory DNS_Cache
  imports DomainName
begin

text \<open>
  \<open>src/DNS_Cache.{h,cpp}\<close>: the positive cache, one shard per worker, with CLOCK replacement.
  A shard is its vector of optional entries, the clock hand and the index from keys to slots; time
  points of the steady clock are integers in nanoseconds (unbounded: the largest time to live is
  about \<open>2 ^ 62\<close> nanoseconds, so the 64-bit sum of the code cannot overflow within a century of
  uptime).  \<open>CacheKeyHash\<close> is modelled, with \<open>XXH3\<close> as a parameter; it only places index entries.

  The invariant ties the index to the slots; \<open>view\<close> is the map from keys to address sets and expiry
  times that it represents, and every operation is described by its effect on the view.  The sweep
  of the clock hand terminates because every step clears a chance bit.  The locale
  \<open>expiring_cache\<close> is what the workers rely on.
\<close>

section \<open>Definitions\<close>

datatype address_family = AF_UNSPEC | AF_INET | AF_INET6

record ip_address =
  ip_bytes :: "byte list"
  family :: address_family

definition default_ip :: ip_address where
  "default_ip = \<lparr>ip_bytes = replicate 16 0, family = AF_UNSPEC\<rparr>"

definition ip_v4 :: "byte list \<Rightarrow> ip_address" where
  "ip_v4 v = default_ip\<lparr>ip_bytes := v @ drop (length v) (ip_bytes default_ip), family := AF_INET\<rparr>"

definition ip_v6 :: "byte list \<Rightarrow> ip_address" where
  "ip_v6 v = default_ip\<lparr>ip_bytes := v, family := AF_INET6\<rparr>"

definition is_v4 :: "ip_address \<Rightarrow> bool" where "is_v4 a \<longleftrightarrow> family a = AF_INET"
definition is_v6 :: "ip_address \<Rightarrow> bool" where "is_v6 a \<longleftrightarrow> family a = AF_INET6"

record cache_key =
  qname :: "byte list"
  qtype :: u16
  qclass :: u16

definition mk_cache_key :: "domain_name \<Rightarrow> u16 \<Rightarrow> u16 \<Rightarrow> cache_key" where
  "mk_cache_key name ty cl = \<lparr>qname = canonical_key name, qtype = ty, qclass = cl\<rparr>"

definition cache_key_hash :: "(byte list \<Rightarrow> u64) \<Rightarrow> cache_key \<Rightarrow> u64" where
  "cache_key_hash xxh3 key =
     (let h0 = xxh3 (qname key);
          h1 = h0 XOR push_bit 32 (ucast (qtype key));
          h2 = h1 XOR push_bit 48 (ucast (qclass key));
          h3 = h2 XOR drop_bit 30 h2;
          h4 = h3 * 0xbf58476d1ce4e5b9
      in h4 XOR drop_bit 27 h4)"

record cache_hit =
  hit_addresses :: "ip_address list"
  remaining_ttl :: u32

record cache_entry =
  ce_key :: cache_key
  ce_addresses :: "ip_address list"
  ce_expiry :: int
  ce_chance :: bool

record cache_shard =
  capacity :: nat
  hand :: nat
  entries :: "cache_entry option list"
  index :: "cache_key \<rightharpoonup> nat"

definition new_shard :: "nat \<Rightarrow> cache_shard" where
  "new_shard c = \<lparr>capacity = c, hand = 0, entries = [], index = Map.empty\<rparr>"

definition shard_size :: "cache_shard \<Rightarrow> nat" where
  "shard_size s = card (dom (index s))"

definition nanoseconds_per_second :: int where "nanoseconds_per_second = 1000000000"

text \<open>\<open>std::chrono::ceil<seconds>\<close> of a duration in nanoseconds.\<close>

definition ceil_seconds :: "int \<Rightarrow> int" where
  "ceil_seconds d = - ((- d) div nanoseconds_per_second)"

definition bounded_remaining :: "int \<Rightarrow> u32" where
  "bounded_remaining d = of_int (min (max (ceil_seconds d) 1) (2 ^ 32 - 1))"

definition cache_get :: "cache_key \<Rightarrow> int \<Rightarrow> cache_shard \<Rightarrow> cache_hit option \<times> cache_shard" where
  "cache_get key now s =
     (case index s key of
        None \<Rightarrow> (None, s)
      | Some i \<Rightarrow>
          (case entries s ! i of
             None \<Rightarrow> (None, s\<lparr>index := (index s)(key := None), entries := (entries s)[i := None]\<rparr>)
           | Some e \<Rightarrow>
               if now \<ge> ce_expiry e
               then (None, s\<lparr>index := (index s)(key := None), entries := (entries s)[i := None]\<rparr>)
               else (Some \<lparr>hit_addresses = ce_addresses e,
                           remaining_ttl = bounded_remaining (ce_expiry e - now)\<rparr>,
                     s\<lparr>entries := (entries s)[i := Some (e\<lparr>ce_chance := True\<rparr>)]\<rparr>)))"

definition chance_bits :: "cache_entry option list \<Rightarrow> nat" where
  "chance_bits es = length (filter (\<lambda>x. case x of None \<Rightarrow> False | Some e \<Rightarrow> ce_chance e) es)"

lemma chance_bits_update:
  assumes "h < length es" and "es ! h = Some e" and "ce_chance e"
  shows "chance_bits (es[h := Some (e\<lparr>ce_chance := False\<rparr>)]) < chance_bits es"
  using assms
  by (subst (2) id_take_nth_drop [OF assms(1)]) (simp add: chance_bits_def upd_conv_take_nth_drop)

text \<open>
  The sweep of the clock hand.  It returns the entries with the cleared chance bits and the slot to
  reuse; \<open>None\<close> is an access outside the vector, which the invariant below excludes.
\<close>

function clock_sweep ::
  "nat \<Rightarrow> int \<Rightarrow> cache_entry option list \<Rightarrow> nat \<Rightarrow> (cache_entry option list \<times> nat) option" where
  "clock_sweep cap now es h =
     (if h \<ge> length es then None
      else case es ! h of
        None \<Rightarrow> Some (es, h)
      | Some e \<Rightarrow>
          if now \<ge> ce_expiry e \<or> \<not> ce_chance e then Some (es, h)
          else clock_sweep cap now (es[h := Some (e\<lparr>ce_chance := False\<rparr>)]) ((h + 1) mod cap))"
  by pat_completeness auto
termination
  by (relation "measure (\<lambda>(cap, now, es, h). chance_bits es)") (auto simp: chance_bits_update)

declare clock_sweep.simps [simp del]

definition replace_slot ::
  "nat \<Rightarrow> cache_key \<Rightarrow> ip_address list \<Rightarrow> int \<Rightarrow> cache_shard \<Rightarrow> cache_shard" where
  "replace_slot i key addresses expiry s =
     (let ix = (case entries s ! i of None \<Rightarrow> index s | Some e \<Rightarrow> (index s)(ce_key e := None));
          new = \<lparr>ce_key = key, ce_addresses = addresses, ce_expiry = expiry, ce_chance = True\<rparr>
      in s\<lparr>entries := (entries s)[i := Some new], index := ix(key \<mapsto> i)\<rparr>)"

definition cache_put ::
  "cache_key \<Rightarrow> ip_address list \<Rightarrow> u32 \<Rightarrow> int \<Rightarrow> cache_shard \<Rightarrow> cache_shard option" where
  "cache_put key addresses ttl_seconds now s =
     (if capacity s = 0 then Some s
      else if ttl_seconds = 0 \<or> addresses = [] then
        (case index s key of
           None \<Rightarrow> Some s
         | Some i \<Rightarrow> Some (s\<lparr>entries := (entries s)[i := None], index := (index s)(key := None)\<rparr>))
      else let expiry = now + uint ttl_seconds * nanoseconds_per_second in
        case index s key of
          Some i \<Rightarrow>
            (case entries s ! i of
               None \<Rightarrow> None
             | Some e \<Rightarrow> Some (s\<lparr>entries := (entries s)[i := Some (e\<lparr>ce_addresses := addresses,
                                ce_expiry := expiry, ce_chance := True\<rparr>)]\<rparr>))
        | None \<Rightarrow>
            if length (entries s) < capacity s then
              Some (s\<lparr>entries := entries s @ [Some \<lparr>ce_key = key, ce_addresses = addresses,
                                                    ce_expiry = expiry, ce_chance = True\<rparr>],
                      index := (index s)(key \<mapsto> length (entries s))\<rparr>)
            else (case clock_sweep (capacity s) now (entries s) (hand s) of
                    None \<Rightarrow> None
                  | Some (es, h) \<Rightarrow>
                      Some ((replace_slot h key addresses expiry (s\<lparr>entries := es\<rparr>))
                              \<lparr>hand := (h + 1) mod capacity s\<rparr>)))"

definition cache_put_one :: "cache_key \<Rightarrow> ip_address \<Rightarrow> u32 \<Rightarrow> int \<Rightarrow> cache_shard \<Rightarrow> cache_shard option" where
  "cache_put_one key address ttl_seconds now s =
     (if capacity s = 0 then Some s else cache_put key [address] ttl_seconds now s)"

record dns_cache =
  total_capacity :: nat
  shards :: "cache_shard list"

text \<open>\<open>None\<close> is the \<open>std::invalid_argument\<close> of the constructor and the \<open>std::out_of_range\<close> of \<open>at\<close>.\<close>

definition new_dns_cache :: "nat \<Rightarrow> nat \<Rightarrow> dns_cache option" where
  "new_dns_cache total_cap shard_count =
     (if shard_count = 0 then None
      else let base_capacity = total_cap div shard_count; remainder = total_cap mod shard_count in
        Some \<lparr>total_capacity = total_cap,
              shards = map (\<lambda>i. new_shard (base_capacity + (if i < remainder then 1 else 0))) [0..<shard_count]\<rparr>)"

definition cache_shard_at :: "dns_cache \<Rightarrow> nat \<Rightarrow> cache_shard option" where
  "cache_shard_at c worker_id = (if worker_id < length (shards c) then Some (shards c ! worker_id) else None)"

section \<open>Invariant and view\<close>

text \<open>
  What a slot says apart from its chance bit, and the agreement of the index with the slots: a key
  is indexed at a slot exactly when the slot holds an entry for it.
\<close>

type_synonym slot_data = "(cache_key \<times> ip_address list \<times> int) option"

definition slot_data :: "cache_entry option \<Rightarrow> slot_data" where
  "slot_data x = map_option (\<lambda>e. (ce_key e, ce_addresses e, ce_expiry e)) x"

definition slots :: "cache_shard \<Rightarrow> slot_data list" where
  "slots s = map slot_data (entries s)"

definition indexed :: "(cache_key \<rightharpoonup> nat) \<Rightarrow> slot_data list \<Rightarrow> bool" where
  "indexed ix sl \<longleftrightarrow> (\<forall>k i. ix k = Some i \<longleftrightarrow> i < length sl \<and> (\<exists>v. sl ! i = Some (k, v)))"

definition shard_inv :: "cache_shard \<Rightarrow> bool" where
  "shard_inv s \<longleftrightarrow> indexed (index s) (slots s) \<and> length (entries s) \<le> capacity s
     \<and> (capacity s > 0 \<longrightarrow> hand s < capacity s)"

definition view_of :: "(cache_key \<rightharpoonup> nat) \<Rightarrow> slot_data list \<Rightarrow> cache_key \<Rightarrow> (ip_address list \<times> int) option" where
  "view_of ix sl k = (case ix k of None \<Rightarrow> None | Some i \<Rightarrow> map_option snd (sl ! i))"

definition view :: "cache_shard \<Rightarrow> cache_key \<Rightarrow> (ip_address list \<times> int) option" where
  "view s = view_of (index s) (slots s)"

lemma slot_data_simps [simp]:
  "slot_data None = None" "slot_data (Some e) = Some (ce_key e, ce_addresses e, ce_expiry e)"
  by (simp_all add: slot_data_def)

lemma length_slots [simp]: "length (slots s) = length (entries s)"
  by (simp add: slots_def)

lemma indexedD:
  assumes "indexed ix sl" and "ix k = Some i"
  shows "i < length sl" and "\<exists>v. sl ! i = Some (k, v)"
  using assms by (auto simp: indexed_def)

lemma indexed_slot: "indexed ix sl \<Longrightarrow> i < length sl \<Longrightarrow> sl ! i = Some (k, v) \<Longrightarrow> ix k = Some i"
  unfolding indexed_def by blast

lemma indexedI:
  assumes "\<And>k i. ix k = Some i \<Longrightarrow> i < length sl \<and> (\<exists>v. sl ! i = Some (k, v))"
    and "\<And>k i v. i < length sl \<Longrightarrow> sl ! i = Some (k, v) \<Longrightarrow> ix k = Some i"
  shows "indexed ix sl"
  unfolding indexed_def using assms by blast

lemma indexed_inject:
  assumes "indexed ix sl" and "ix k = Some i" and "ix k' = Some i"
  shows "k' = k"
  using indexedD(2) [OF assms(1,2)] indexedD(2) [OF assms(1,3)] by auto

text \<open>Overwriting slot \<open>i\<close>: the keys of the other slots keep their slot.\<close>

lemma indexed_overwrite:
  assumes "indexed ix sl" and "i < length sl"
    and "\<And>k' j. j \<noteq> i \<Longrightarrow> ix' k' = Some j \<longleftrightarrow> ix k' = Some j"
    and "\<And>k'. ix' k' = Some i \<longleftrightarrow> (\<exists>v. x = Some (k', v))"
  shows "indexed ix' (sl[i := x])"
proof (rule indexedI)
  fix k' j assume "ix' k' = Some j"
  then show "j < length (sl[i := x]) \<and> (\<exists>v. sl[i := x] ! j = Some (k', v))"
    using assms(2-4) indexedD [OF assms(1), of k' j] by (cases "j = i") simp_all
next
  fix k' j v assume "j < length (sl[i := x])" "sl[i := x] ! j = Some (k', v)"
  then show "ix' k' = Some j"
    using assms(2-4) indexed_slot [OF assms(1), of j k' v] by (cases "j = i") auto
qed

lemma view_of_overwrite:
  assumes "\<And>j. j \<noteq> i \<Longrightarrow> ix' k = Some j \<longleftrightarrow> ix k = Some j" and "ix' k \<noteq> Some i" and "ix k \<noteq> Some i"
  shows "view_of ix' (sl[i := x]) k = view_of ix sl k"
proof (cases "ix k")
  case None
  then have "ix' k = None" using assms by (metis option.exhaust)
  with None show ?thesis by (simp add: view_of_def)
next
  case (Some j)
  then have "j \<noteq> i" "ix' k = Some j" using assms by auto
  with Some show ?thesis by (simp add: view_of_def)
qed

lemma indexed_only:
  assumes "indexed ix sl" and "ix k = Some i"
  shows "ix k' = Some i \<longleftrightarrow> k' = k"
  using indexed_inject [OF assms, of k'] assms(2) by auto

lemma indexed_erase:
  assumes "indexed ix sl" and "ix k = Some i"
  shows "indexed (ix(k := None)) (sl[i := None])"
proof (rule indexed_overwrite [OF assms(1) indexedD(1) [OF assms]])
  show "(ix(k := None)) k' = Some j \<longleftrightarrow> ix k' = Some j" if "j \<noteq> i" for k' j
    using that assms(2) by auto
  show "(ix(k := None)) k' = Some i \<longleftrightarrow> (\<exists>v. None = Some (k', v))" for k'
    by (simp add: indexed_only [OF assms])
qed

lemma view_of_erase:
  assumes "indexed ix sl" and "ix k = Some i"
  shows "view_of (ix(k := None)) (sl[i := None]) = (view_of ix sl)(k := None)"
proof
  fix k'
  show "view_of (ix(k := None)) (sl[i := None]) k' = ((view_of ix sl)(k := None)) k'"
    using view_of_overwrite [of i "ix(k := None)" k' ix sl None] indexed_only [OF assms, of k']
    by (cases "k' = k") (simp_all add: view_of_def)
qed

lemma indexed_update:
  assumes "indexed ix sl" and "ix k = Some i"
  shows "indexed ix (sl[i := Some (k, v)])"
proof (rule indexed_overwrite [OF assms(1) indexedD(1) [OF assms]])
  fix k'
  show "ix k' = Some i \<longleftrightarrow> (\<exists>w. Some (k, v) = Some (k', w))"
    unfolding indexed_only [OF assms] by auto
qed (rule refl)

lemma view_of_update:
  assumes "indexed ix sl" and "ix k = Some i"
  shows "view_of ix (sl[i := Some (k, v)]) = (view_of ix sl)(k \<mapsto> v)"
proof
  fix k'
  show "view_of ix (sl[i := Some (k, v)]) k' = ((view_of ix sl)(k \<mapsto> v)) k'"
  proof (cases "k' = k")
    case True
    with assms(2) indexedD(1) [OF assms] show ?thesis by (simp add: view_of_def)
  next
    case False
    with view_of_overwrite [of i ix k' ix sl "Some (k, v)"] indexed_only [OF assms, of k'] show ?thesis
      by simp
  qed
qed

lemma indexed_fill:
  assumes "indexed ix sl" and "ix k = None" and "i < length sl" and "sl ! i = None"
  shows "indexed (ix(k \<mapsto> i)) (sl[i := Some (k, v)])"
    and "view_of (ix(k \<mapsto> i)) (sl[i := Some (k, v)]) = (view_of ix sl)(k \<mapsto> v)"
proof -
  have free: "ix k' \<noteq> Some i" for k'
    using indexedD(2) [OF assms(1), of k' i] assms(4) by auto
  show "indexed (ix(k \<mapsto> i)) (sl[i := Some (k, v)])"
  proof (rule indexed_overwrite [OF assms(1,3)])
    show "(ix(k \<mapsto> i)) k' = Some j \<longleftrightarrow> ix k' = Some j" if "j \<noteq> i" for k' j
      using that assms(2) by auto
    show "(ix(k \<mapsto> i)) k' = Some i \<longleftrightarrow> (\<exists>w. Some (k, v) = Some (k', w))" for k'
      using free by auto
  qed
  show "view_of (ix(k \<mapsto> i)) (sl[i := Some (k, v)]) = (view_of ix sl)(k \<mapsto> v)"
  proof
    fix k'
    show "view_of (ix(k \<mapsto> i)) (sl[i := Some (k, v)]) k' = ((view_of ix sl)(k \<mapsto> v)) k'"
      using view_of_overwrite [of i "ix(k \<mapsto> i)" k' ix sl "Some (k, v)"] free [of k'] assms(3)
      by (cases "k' = k") (simp_all add: view_of_def)
  qed
qed

text \<open>Appending is filling a fresh empty slot.\<close>

lemma indexed_grow:
  assumes "indexed ix sl"
  shows "indexed ix (sl @ [None])" and "view_of ix (sl @ [None]) = view_of ix sl"
proof -
  show "indexed ix (sl @ [None])"
  proof (rule indexedI)
    fix k i assume "ix k = Some i"
    then show "i < length (sl @ [None]) \<and> (\<exists>v. (sl @ [None]) ! i = Some (k, v))"
      using indexedD [OF assms, of k i] by (simp add: nth_append)
  next
    fix k i v assume "i < length (sl @ [None])" "(sl @ [None]) ! i = Some (k, v)"
    then show "ix k = Some i"
      using indexed_slot [OF assms, of i k v] by (simp add: nth_append less_Suc_eq split: if_splits)
  qed
  show "view_of ix (sl @ [None]) = view_of ix sl"
    using indexedD(1) [OF assms] by (auto simp: fun_eq_iff view_of_def nth_append split: option.split)
qed

lemma indexed_append:
  assumes "indexed ix sl" and "ix k = None"
  shows "indexed (ix(k \<mapsto> length sl)) (sl @ [Some (k, v)])"
    and "view_of (ix(k \<mapsto> length sl)) (sl @ [Some (k, v)]) = (view_of ix sl)(k \<mapsto> v)"
  using indexed_fill [OF indexed_grow(1) [OF assms(1)] assms(2), of "length sl" v]
    indexed_grow(2) [OF assms(1)] by simp_all

section \<open>The operations on the view\<close>

lemma slots_update [simp]: "slots (s\<lparr>entries := (entries s)[i := x]\<rparr>) = (slots s)[i := slot_data x]"
  by (simp add: slots_def map_update)

lemma slots_index [simp]: "slots (s\<lparr>index := ix\<rparr>) = slots s" "slots (s\<lparr>hand := h\<rparr>) = slots s"
  by (simp_all add: slots_def)

lemma slots_nth: "i < length (entries s) \<Longrightarrow> slots s ! i = slot_data (entries s ! i)"
  by (simp add: slots_def)

lemma shard_inv_lookup:
  assumes "shard_inv s" and "index s k = Some i"
  obtains e where "i < length (entries s)" and "entries s ! i = Some e" and "ce_key e = k"
    and "view s k = Some (ce_addresses e, ce_expiry e)"
proof -
  from assms have i: "i < length (entries s)" and v: "\<exists>v. slots s ! i = Some (k, v)"
    using indexedD [of "index s" "slots s" k i] by (auto simp: shard_inv_def)
  then obtain e where e: "entries s ! i = Some e" "ce_key e = k"
    by (auto simp: slots_nth slot_data_def)
  with i assms(2) that show thesis by (simp add: view_def view_of_def slots_nth)
qed

lemma view_None: "shard_inv s \<Longrightarrow> view s k = None \<longleftrightarrow> index s k = None"
  by (metis option.distinct(1) option.exhaust shard_inv_lookup view_def view_of_def option.simps(4))

lemma clock_sweep_ok:
  assumes "h < length es" and "length es = cap"
  shows "\<exists>es' h'. clock_sweep cap now es h = Some (es', h') \<and> map slot_data es' = map slot_data es
           \<and> h' < length es"
  using assms
proof (induction cap now es h rule: clock_sweep.induct)
  case (1 cap now es h)
  show ?case
  proof (cases "es ! h")
    case None
    with "1.prems" show ?thesis by (simp add: clock_sweep.simps [of cap now es h])
  next
    case (Some e)
    show ?thesis
    proof (cases "now \<ge> ce_expiry e \<or> \<not> ce_chance e")
      case True
      with Some "1.prems" show ?thesis by (simp add: clock_sweep.simps [of cap now es h])
    next
      case False
      let ?es = "es[h := Some (e\<lparr>ce_chance := False\<rparr>)]"
      have "map slot_data ?es = map slot_data es"
        using Some "1.prems"(1) by (simp add: map_update list_update_same_conv)
      moreover have "\<exists>es' h'. clock_sweep cap now ?es ((h + 1) mod cap) = Some (es', h')
          \<and> map slot_data es' = map slot_data ?es \<and> h' < length ?es"
        using "1.IH" [OF _ Some] False "1.prems" by simp
      ultimately show ?thesis
        using Some False "1.prems" by (simp add: clock_sweep.simps [of cap now es h])
    qed
  qed
qed

definition expiry_of :: "u32 \<Rightarrow> int \<Rightarrow> int" where
  "expiry_of ttl now = now + uint ttl * nanoseconds_per_second"

text \<open>The key an occupied slot gives up when it is reused.\<close>

definition victims :: "slot_data \<Rightarrow> cache_key set" where
  "victims x = fst ` set_option x"

lemma replace_slot_view:
  assumes "indexed (index s) (slots s)" and "i < length (entries s)" and "index s k = None"
  shows "indexed (index (replace_slot i k a x s)) (slots (replace_slot i k a x s))"
    and "view (replace_slot i k a x s) = ((view s) |` (- victims (slots s ! i)))(k \<mapsto> (a, x))"
proof -
  let ?sl = "(slots s)[i := None]"
  obtain ix where ix: "indexed ix ?sl" "ix k = None" "view_of ix ?sl = (view s) |` (- victims (slots s ! i))"
    and r: "index (replace_slot i k a x s) = ix(k \<mapsto> i)"
  proof (cases "entries s ! i")
    case None
    then have "?sl = slots s"
      using assms(2) by (metis list_update_id slots_nth slot_data_simps(1))
    moreover have "slots s ! i = None" using None assms(2) by (simp add: slots_nth)
    moreover have "view s |` UNIV = view s" by (simp add: restrict_map_def)
    ultimately show ?thesis
      using that [of "index s"] assms None by (simp add: view_def replace_slot_def victims_def)
  next
    case (Some e)
    then have e: "index s (ce_key e) = Some i" "victims (slots s ! i) = {ce_key e}"
      using assms(1,2) indexed_slot [of "index s" "slots s" i "ce_key e"]
      by (simp_all add: slots_nth victims_def)
    have "(view s)(ce_key e := None) = (view s) |` (- {ce_key e})"
      by (auto simp: restrict_map_def)
    then show ?thesis
      using that [of "(index s)(ce_key e := None)"] indexed_erase [OF assms(1) e(1)]
        view_of_erase [OF assms(1) e(1)] assms(3) Some e(2)
      by (simp add: replace_slot_def view_def)
  qed
  have sl: "slots (replace_slot i k a x s) = ?sl[i := Some (k, a, x)]"
    by (simp add: replace_slot_def Let_def slots_def map_update)
  have fill: "i < length ?sl" "?sl ! i = None"
    using assms(2) by simp_all
  note f = indexed_fill [OF ix(1,2) fill, of "(a, x)"]
  from f(1) show "indexed (index (replace_slot i k a x s)) (slots (replace_slot i k a x s))"
    by (simp add: r sl)
  from f(2) ix(3) show "view (replace_slot i k a x s) = ((view s) |` (- victims (slots s ! i)))(k \<mapsto> (a, x))"
    by (simp add: view_def r sl)
qed

lemma cache_get_correct:
  assumes "shard_inv s" and "cache_get k now s = (r, s')"
  shows "shard_inv s' \<and> capacity s' = capacity s
    \<and> (case view s k of
         Some (a, x) \<Rightarrow>
           if now < x then r = Some \<lparr>hit_addresses = a, remaining_ttl = bounded_remaining (x - now)\<rparr>
                           \<and> view s' = view s
           else r = None \<and> view s' = (view s)(k := None)
       | None \<Rightarrow> r = None \<and> view s' = view s)"
proof (cases "index s k")
  case None
  with assms show ?thesis by (simp add: cache_get_def view_None [THEN iffD2])
next
  case (Some i)
  with assms(1) obtain e where e: "i < length (entries s)" "entries s ! i = Some e" "ce_key e = k"
    "view s k = Some (ce_addresses e, ce_expiry e)" by (rule shard_inv_lookup)
  have ix: "indexed (index s) (slots s)" using assms(1) by (simp add: shard_inv_def)
  show ?thesis
  proof (cases "now < ce_expiry e")
    case True
    then have s': "s' = s\<lparr>entries := (entries s)[i := Some (e\<lparr>ce_chance := True\<rparr>)]\<rparr>"
      and r: "r = Some \<lparr>hit_addresses = ce_addresses e, remaining_ttl = bounded_remaining (ce_expiry e - now)\<rparr>"
      using assms(2) Some e(2) by (simp_all add: cache_get_def)
    have "slots s' = slots s"
      using e by (simp add: s' list_update_same_conv slots_nth)
    with r True e assms(1) show ?thesis
      by (simp add: s' view_def shard_inv_def)
  next
    case False
    then have s': "s' = s\<lparr>index := (index s)(k := None), entries := (entries s)[i := None]\<rparr>" and r: "r = None"
      using assms(2) Some e(2) by (simp_all add: cache_get_def)
    have "slots s' = (slots s)[i := None]" by (simp add: s' slots_def map_update)
    with r False e(4) assms(1) indexed_erase [OF ix Some] view_of_erase [OF ix Some] show ?thesis
      by (simp add: s' view_def shard_inv_def)
  qed
qed

definition put_post ::
  "cache_key \<Rightarrow> ip_address list \<Rightarrow> u32 \<Rightarrow> int \<Rightarrow> cache_shard \<Rightarrow> cache_shard \<Rightarrow> bool" where
  "put_post k a ttl now s s' \<longleftrightarrow> shard_inv s' \<and> capacity s' = capacity s
     \<and> (if capacity s = 0 then s' = s
        else if ttl = 0 \<or> a = [] then view s' = (view s)(k := None)
        else \<exists>victim. view s' = ((view s) |` (- set_option victim))(k \<mapsto> (a, expiry_of ttl now))
               \<and> (victim \<noteq> None \<longrightarrow> view s k = None \<and> length (entries s) = capacity s))"

lemma put_post_erase:
  assumes "shard_inv s" and "0 < capacity s" and "ttl = 0 \<or> a = []"
  shows "\<exists>s'. cache_put k a ttl now s = Some s' \<and> put_post k a ttl now s s'"
proof (cases "index s k")
  case None
  then have "view s = (view s)(k := None)"
    using view_None [OF assms(1)] by (simp add: fun_upd_idem)
  with None assms show ?thesis by (auto simp: cache_put_def put_post_def)
next
  case (Some i)
  have ix: "indexed (index s) (slots s)" using assms(1) by (simp add: shard_inv_def)
  have sl: "slots (s\<lparr>entries := (entries s)[i := None], index := ix'\<rparr>) = (slots s)[i := None]" for ix'
    by (simp add: slots_def map_update)
  show ?thesis
    using Some assms indexed_erase [OF ix Some] view_of_erase [OF ix Some]
    by (auto simp: cache_put_def put_post_def shard_inv_def view_def sl)
qed

lemma put_post_update:
  assumes "shard_inv s" and "0 < capacity s" and "ttl \<noteq> 0" and "a \<noteq> []" and "index s k = Some i"
  shows "\<exists>s'. cache_put k a ttl now s = Some s' \<and> put_post k a ttl now s s'"
proof -
  have ix: "indexed (index s) (slots s)" using assms(1) by (simp add: shard_inv_def)
  obtain e where e: "i < length (entries s)" "entries s ! i = Some e" "ce_key e = k"
    using shard_inv_lookup [OF assms(1,5)] by blast
  let ?s' = "s\<lparr>entries := (entries s)[i := Some (e\<lparr>ce_addresses := a, ce_expiry := expiry_of ttl now,
               ce_chance := True\<rparr>)]\<rparr>"
  have "cache_put k a ttl now s = Some ?s'"
    using assms e by (simp add: cache_put_def Let_def expiry_of_def)
  moreover have "put_post k a ttl now s ?s'"
    using assms indexed_update [OF ix assms(5)] view_of_update [OF ix assms(5)] e(3)
    unfolding put_post_def by (auto simp: shard_inv_def view_def intro!: exI [of _ None])
  ultimately show ?thesis by blast
qed

lemma put_post_append:
  assumes "shard_inv s" and "ttl \<noteq> 0" and "a \<noteq> []" and "index s k = None"
    and "length (entries s) < capacity s"
  shows "\<exists>s'. cache_put k a ttl now s = Some s' \<and> put_post k a ttl now s s'"
proof -
  have ix: "indexed (index s) (slots s)" using assms(1) by (simp add: shard_inv_def)
  let ?s' = "s\<lparr>entries := entries s @ [Some \<lparr>ce_key = k, ce_addresses = a, ce_expiry = expiry_of ttl now,
               ce_chance = True\<rparr>], index := (index s)(k \<mapsto> length (entries s))\<rparr>"
  have "cache_put k a ttl now s = Some ?s'"
    using assms by (simp add: cache_put_def Let_def expiry_of_def)
  moreover have sl: "slots ?s' = slots s @ [Some (k, a, expiry_of ttl now)]"
    by (simp add: slots_def)
  have "put_post k a ttl now s ?s'"
    using assms indexed_append [OF ix assms(4), of "(a, expiry_of ttl now)"]
    unfolding put_post_def shard_inv_def view_def sl by (auto intro!: exI [of _ None])
  ultimately show ?thesis by blast
qed

lemma put_post_evict:
  assumes "shard_inv s" and "0 < capacity s" and "ttl \<noteq> 0" and "a \<noteq> []" and "index s k = None"
    and "\<not> length (entries s) < capacity s"
  shows "\<exists>s'. cache_put k a ttl now s = Some s' \<and> put_post k a ttl now s s'"
proof -
  have full: "length (entries s) = capacity s" "hand s < length (entries s)"
    using assms by (auto simp: shard_inv_def)
  from clock_sweep_ok [OF full(2,1), of now] obtain es h where
    sweep: "clock_sweep (capacity s) now (entries s) (hand s) = Some (es, h)"
      "map slot_data es = map slot_data (entries s)" "h < length (entries s)" by blast
  let ?t = "s\<lparr>entries := es\<rparr>"
  let ?s' = "(replace_slot h k a (expiry_of ttl now) ?t)\<lparr>hand := (h + 1) mod capacity s\<rparr>"
  have t: "slots ?t = slots s" "length es = length (entries s)"
    using sweep(2) by (auto simp: slots_def dest: map_eq_imp_length_eq)
  then have ix: "indexed (index ?t) (slots ?t)" using assms(1) by (simp add: shard_inv_def)
  have "cache_put k a ttl now s = Some ?s'"
    using assms sweep by (simp add: cache_put_def Let_def expiry_of_def)
  moreover have "put_post k a ttl now s ?s'"
  proof -
    have h: "h < length (entries ?t)" "index ?t k = None" using sweep t assms by simp_all
    note r = replace_slot_view [OF ix h, of a "expiry_of ttl now"]
    have "view ?s' = ((view s) |` (- victims (slots s ! h)))(k \<mapsto> (a, expiry_of ttl now))"
      using r(2) t(1) by (simp add: view_def)
    moreover obtain v where "victims (slots s ! h) = set_option v"
      by (metis option.simps(14) option.simps(15) option.exhaust image_empty image_insert victims_def)
    moreover have "shard_inv ?s'" "capacity ?s' = capacity s"
      using r(1) t assms(1,2) by (simp_all add: shard_inv_def replace_slot_def Let_def)
    ultimately show ?thesis
      using assms full by (auto simp: put_post_def view_None)
  qed
  ultimately show ?thesis by blast
qed

lemma cache_put_correct:
  assumes "shard_inv s"
  shows "\<exists>s'. cache_put k a ttl now s = Some s' \<and> put_post k a ttl now s s'"
proof (cases "capacity s = 0")
  case True
  with assms show ?thesis by (simp add: cache_put_def put_post_def)
next
  case False
  then have cap: "0 < capacity s" by simp
  show ?thesis
  proof (cases "ttl = 0 \<or> a = []")
    case True
    from put_post_erase [OF assms cap True] show ?thesis .
  next
    case False
    then have d: "ttl \<noteq> 0" "a \<noteq> []" by simp_all
    show ?thesis
    proof (cases "index s k")
      case None
      show ?thesis
        by (cases "length (entries s) < capacity s")
          (rule put_post_append [OF assms d None], assumption, rule put_post_evict [OF assms cap d None])
    next
      case (Some i)
      from put_post_update [OF assms cap d Some] show ?thesis .
    qed
  qed
qed

lemma new_shard_inv: "shard_inv (new_shard c)" "view (new_shard c) = Map.empty"
  by (auto simp: shard_inv_def new_shard_def slots_def indexed_def view_def view_of_def fun_eq_iff)

lemma shard_size_le: assumes "shard_inv s" shows "shard_size s \<le> capacity s"
proof -
  have "index s ` dom (index s) \<subseteq> Some ` {..<length (entries s)}"
    using assms by (auto simp: shard_inv_def dest: indexedD(1))
  moreover have "inj_on (index s) (dom (index s))"
    by (rule inj_onI) (use assms indexed_inject in \<open>fastforce simp: shard_inv_def\<close>)
  ultimately have "card (dom (index s)) \<le> card (Some ` {..<length (entries s)})"
    by (metis card_image card_mono finite_imageI finite_lessThan)
  also have "\<dots> = length (entries s)" by (simp add: card_image)
  finally show ?thesis using assms by (simp add: shard_size_def shard_inv_def)
qed

lemma bounded_remaining_bounds:
  fixes ttl :: u32
  assumes "0 < d" and "d \<le> uint ttl * nanoseconds_per_second"
  shows "1 \<le> uint (bounded_remaining d) \<and> uint (bounded_remaining d) \<le> uint ttl
    \<and> (uint (bounded_remaining d) - 1) * nanoseconds_per_second < d
    \<and> d \<le> uint (bounded_remaining d) * nanoseconds_per_second"
proof -
  let ?N = "1000000000 :: int"
  define c where "c = ceil_seconds d"
  have c: "(c - 1) * ?N < d" "d \<le> c * ?N"
    using mult_div_mod_eq [of ?N "- d"] pos_mod_bound [of ?N "- d"] pos_mod_sign [of ?N "- d"]
    by (simp_all add: c_def ceil_seconds_def nanoseconds_per_second_def)
  with assms have "1 \<le> c" "c \<le> uint ttl" by (simp_all add: nanoseconds_per_second_def)
  moreover have "uint ttl < 2 ^ 32" using uint_bounded [of ttl] by simp
  ultimately have "uint (bounded_remaining d) = c"
    by (simp add: bounded_remaining_def c_def [symmetric] uint_word_of_int)
  with c \<open>1 \<le> c\<close> \<open>c \<le> uint ttl\<close> show ?thesis by (simp add: nanoseconds_per_second_def)
qed


section \<open>The interface to the workers\<close>

text \<open>
  What a client of a cache relies on, over a view of its entries with their expiry times: a lookup
  adds nothing to the view and answers from it, and a store adds at most the stored entry.  The
  client lemma says what a sequence of operations can have left in the cache.
\<close>

datatype ('k, 'v) cache_event = Stored 'k 'v u32 int | LookedUp 'k int

text \<open>A sequence of events, oldest first, and the last store of a key in it.\<close>

fun run_events ::
  "('k \<Rightarrow> int \<Rightarrow> 's \<Rightarrow> 'h option \<times> 's) \<Rightarrow> ('k \<Rightarrow> 'v \<Rightarrow> u32 \<Rightarrow> int \<Rightarrow> 's \<Rightarrow> 's option)
     \<Rightarrow> ('k, 'v) cache_event list \<Rightarrow> 's \<Rightarrow> 's option" where
  "run_events getop putop [] s = Some s"
| "run_events getop putop (Stored k v ttl now # es) s =
     Option.bind (putop k v ttl now s) (run_events getop putop es)"
| "run_events getop putop (LookedUp k now # es) s = run_events getop putop es (snd (getop k now s))"

fun last_store :: "('k, 'v) cache_event list \<Rightarrow> 'k \<Rightarrow> ('v \<times> u32 \<times> int) option" where
  "last_store [] k = None"
| "last_store (Stored k' v ttl now # es) k =
     (case last_store es k of Some x \<Rightarrow> Some x | None \<Rightarrow> if k' = k then Some (v, ttl, now) else None)"
| "last_store (LookedUp k' now # es) k = last_store es k"

locale expiring_cache =
  fixes inv :: "'s \<Rightarrow> bool" and look :: "'s \<Rightarrow> 'k \<Rightarrow> ('v \<times> int) option"
    and getop :: "'k \<Rightarrow> int \<Rightarrow> 's \<Rightarrow> 'h option \<times> 's"
    and putop :: "'k \<Rightarrow> 'v \<Rightarrow> u32 \<Rightarrow> int \<Rightarrow> 's \<Rightarrow> 's option"
    and answer :: "'v \<Rightarrow> int \<Rightarrow> 'h" and storable :: "'v \<Rightarrow> bool"
  assumes get_inv: "inv s \<Longrightarrow> getop k now s = (r, s') \<Longrightarrow> inv s'"
    and get_look: "inv s \<Longrightarrow> getop k now s = (r, s') \<Longrightarrow> look s' k' = Some x \<Longrightarrow> look s k' = Some x"
    and get_hit: "inv s \<Longrightarrow> getop k now s = (Some hit, s') \<Longrightarrow>
                    \<exists>v x. look s k = Some (v, x) \<and> now < x \<and> hit = answer v (x - now)"
    and put_total: "inv s \<Longrightarrow> \<exists>s'. putop k v ttl now s = Some s'"
    and put_inv: "inv s \<Longrightarrow> putop k v ttl now s = Some s' \<Longrightarrow> inv s'"
    and put_look: "inv s \<Longrightarrow> putop k v ttl now s = Some s' \<Longrightarrow> look s' k' = Some x \<Longrightarrow>
                    if k' = k then ttl \<noteq> 0 \<and> storable v \<and> x = (v, expiry_of ttl now) else look s k' = Some x"
begin

lemma run_total: "inv s \<Longrightarrow> \<exists>s'. run_events getop putop es s = Some s' \<and> inv s'"
proof (induction es arbitrary: s)
  case (Cons e es)
  show ?case
  proof (cases e)
    case (Stored k v ttl now)
    with Cons put_total [OF Cons.prems, of k v ttl now] put_inv [OF Cons.prems, of k v ttl now]
    show ?thesis by fastforce
  next
    case (LookedUp k now)
    with Cons get_inv [OF Cons.prems, of k now] show ?thesis by (metis prod.collapse run_events.simps(3))
  qed
qed simp

lemma run_look:
  assumes "inv s" and "run_events getop putop es s = Some s'" and "look s' k = Some x"
  shows "case last_store es k of
      Some (v, ttl, now) \<Rightarrow> ttl \<noteq> 0 \<and> storable v \<and> x = (v, expiry_of ttl now)
    | None \<Rightarrow> look s k = Some x"
  using assms
proof (induction es arbitrary: s)
  case (Cons e es)
  show ?case
  proof (cases e)
    case (Stored k' v ttl now)
    with Cons.prems obtain s1 where
      s1: "putop k' v ttl now s = Some s1" "run_events getop putop es s1 = Some s'"
      by (auto simp: Option.bind_eq_Some_conv)
    from Cons.IH [OF put_inv [OF Cons.prems(1) s1(1)] s1(2) Cons.prems(3)]
      put_look [OF Cons.prems(1) s1(1), of k x] Stored
    show ?thesis by (auto split: option.splits if_splits)
  next
    case (LookedUp k' now)
    obtain r s1 where g: "getop k' now s = (r, s1)" by fastforce
    with Cons.prems(2) LookedUp have "run_events getop putop es s1 = Some s'" by simp
    from Cons.IH [OF get_inv [OF Cons.prems(1) g] this Cons.prems(3)]
      get_look [OF Cons.prems(1) g, of k x] LookedUp
    show ?thesis by (auto split: option.splits)
  qed
qed simp

lemma run_hit:
  assumes "inv s" and "\<And>k. look s k = None" and "run_events getop putop es s = Some s'" and "getop k now s' = (Some hit, s'')"
  shows "\<exists>v ttl t. last_store es k = Some (v, ttl, t) \<and> ttl \<noteq> 0 \<and> storable v \<and> now < expiry_of ttl t
           \<and> hit = answer v (expiry_of ttl t - now)"
proof -
  have "inv s'" using run_total [OF assms(1), of es] assms(3) by simp
  from get_hit [OF this assms(4)] obtain v x where
    h: "look s' k = Some (v, x)" "now < x" "hit = answer v (x - now)" by blast
  from run_look [OF assms(1,3) h(1)] assms(2) h(2,3) show ?thesis by (auto split: option.splits)
qed

end

interpretation shard: expiring_cache shard_inv view cache_get cache_put
  "\<lambda>a d. \<lparr>hit_addresses = a, remaining_ttl = bounded_remaining d\<rparr>" "\<lambda>a. a \<noteq> []"
proof
  fix s k now r s' k' x hit a ttl
  assume inv: "shard_inv s"
  show "shard_inv s'" if "cache_get k now s = (r, s')"
    using cache_get_correct [OF inv that] by simp
  show "view s k' = Some x" if "cache_get k now s = (r, s')" "view s' k' = Some x"
    using cache_get_correct [OF inv that(1)] that(2) by (auto split: option.splits if_splits)
  show "\<exists>v x. view s k = Some (v, x) \<and> now < x
      \<and> hit = \<lparr>hit_addresses = v, remaining_ttl = bounded_remaining (x - now)\<rparr>"
    if "cache_get k now s = (Some hit, s')"
    using cache_get_correct [OF inv that] by (auto split: option.splits if_splits)
  show "\<exists>s'. cache_put k a ttl now s = Some s'"
    using cache_put_correct [OF inv] by blast
  show "shard_inv s'" if "cache_put k a ttl now s = Some s'"
    using cache_put_correct [OF inv, of k a ttl now] that by (auto simp: put_post_def)
  have empty: "view s k = None" if "capacity s = 0"
    using inv that by (auto simp: view_None shard_inv_def indexed_def)
  show "if k' = k then ttl \<noteq> 0 \<and> a \<noteq> [] \<and> x = (a, expiry_of ttl now) else view s k' = Some x"
    if "cache_put k a ttl now s = Some s'" "view s' k' = Some x"
    using cache_put_correct [OF inv, of k a ttl now] that empty
    by (auto simp: put_post_def restrict_map_def split: if_splits)
qed


section \<open>Correctness\<close>

text \<open>
  C23. Whatever sequence of stores and lookups a shard has served, a hit returns the addresses of the
  most recent store for the same name, type and class, that store has not expired, and, if the
  clock has not gone backwards since, the remaining time to live lies between one second and the
  stored one and is the time left rounded up to a second.
\<close>

theorem cache_hit_sound:
  assumes "run_events cache_get cache_put es (new_shard c) = Some s"
    and "cache_get k now s = (Some hit, s')"
  shows "\<exists>ttl t. last_store es k = Some (hit_addresses hit, ttl, t) \<and> hit_addresses hit \<noteq> []
           \<and> now < expiry_of ttl t
           \<and> (t \<le> now \<longrightarrow> 1 \<le> uint (remaining_ttl hit) \<and> uint (remaining_ttl hit) \<le> uint ttl
                \<and> (uint (remaining_ttl hit) - 1) * nanoseconds_per_second < expiry_of ttl t - now
                \<and> expiry_of ttl t - now \<le> uint (remaining_ttl hit) * nanoseconds_per_second)"
proof -
  from shard.run_hit [OF new_shard_inv(1) _ assms] new_shard_inv(2) obtain v ttl t where
    h: "last_store es k = Some (v, ttl, t)" "v \<noteq> []" "now < expiry_of ttl t"
      "hit = \<lparr>hit_addresses = v, remaining_ttl = bounded_remaining (expiry_of ttl t - now)\<rparr>" by fastforce
  then show ?thesis
    using bounded_remaining_bounds [of "expiry_of ttl t - now" ttl]
    by (intro exI [of _ ttl] exI [of _ t]) (simp add: expiry_of_def)
qed

text \<open>
  C33. A store never fails, keeps the invariant and the bound on the size, and evicts at most one
  other entry, and that only when the shard is full and the key is new; the stored set is then
  found until it expires.  A store of nothing, or with a time to live of zero, forgets the key.
\<close>

theorem cache_put_get:
  assumes "shard_inv s" and "0 < capacity s"
  shows "\<exists>s'. cache_put k a ttl now s = Some s' \<and> shard_inv s' \<and> shard_size s' \<le> capacity s
    \<and> (\<exists>victim. (victim \<noteq> None \<longrightarrow> view s k = None \<and> length (entries s) = capacity s)
         \<and> (\<forall>k'. k' \<noteq> k \<longrightarrow> Some k' \<noteq> victim \<longrightarrow> view s' k' = view s k'))
    \<and> (\<forall>later. fst (cache_get k later s') =
         (if ttl = 0 \<or> a = [] \<or> expiry_of ttl now \<le> later then None
          else Some \<lparr>hit_addresses = a, remaining_ttl = bounded_remaining (expiry_of ttl now - later)\<rparr>))"
proof -
  from cache_put_correct [OF assms(1)] obtain s' where
    s': "cache_put k a ttl now s = Some s'" "put_post k a ttl now s s'" by blast
  then have inv: "shard_inv s'" and cap: "capacity s' = capacity s" by (simp_all add: put_post_def)
  have "\<exists>victim. (victim \<noteq> None \<longrightarrow> view s k = None \<and> length (entries s) = capacity s)
      \<and> (\<forall>k'. k' \<noteq> k \<longrightarrow> Some k' \<noteq> victim \<longrightarrow> view s' k' = view s k')"
  proof (cases "ttl = 0 \<or> a = []")
    case True
    with s'(2) assms(2) show ?thesis by (intro exI [of _ None]) (auto simp: put_post_def)
  next
    case False
    with s'(2) assms(2) obtain victim where
      "view s' = ((view s) |` (- set_option victim))(k \<mapsto> (a, expiry_of ttl now))"
      "victim \<noteq> None \<longrightarrow> view s k = None \<and> length (entries s) = capacity s"
      by (auto simp: put_post_def)
    then show ?thesis by (intro exI [of _ victim]) (auto simp: restrict_map_def)
  qed
  moreover have "view s' k = (if ttl = 0 \<or> a = [] then None else Some (a, expiry_of ttl now))"
    using s'(2) assms(2) by (auto simp: put_post_def)
  then have "fst (cache_get k later s') =
      (if ttl = 0 \<or> a = [] \<or> expiry_of ttl now \<le> later then None
       else Some \<lparr>hit_addresses = a, remaining_ttl = bounded_remaining (expiry_of ttl now - later)\<rparr>)" for later
    using cache_get_correct [OF inv, of k later] by (cases "cache_get k later s'") (auto split: if_splits)
  ultimately show ?thesis
    using s'(1) inv cap shard_size_le [OF inv] by simp
qed

text \<open>
  The constructor of the cache divides the capacity over the shards without loss, no two
  shards differ by more than one entry, every shard starts empty with its invariant, and it
  refuses to make a cache of no shard.
\<close>

theorem new_dns_cache_partition:
  "case new_dns_cache t n of
     None \<Rightarrow> n = 0
   | Some c \<Rightarrow> 0 < n \<and> length (shards c) = n \<and> sum_list (map capacity (shards c)) = t
       \<and> (\<forall>s \<in> set (shards c). shard_inv s \<and> shard_size s = 0 \<and> (capacity s = t div n \<or> capacity s = t div n + 1))"
proof (cases "n = 0")
  case False
  have "sum_list (map (\<lambda>i. if i < r then 1 else 0) [0..<m]) = min r m" for r m :: nat
    by (induction m) (auto simp: min_def)
  moreover have "t mod n < n" using False by simp
  ultimately have "sum_list (map (\<lambda>i. t div n + (if i < t mod n then 1 else 0)) [0..<n]) = t"
    by (simp add: sum_list_addf sum_list_triv min_absorb1)
  with False show ?thesis
    by (auto simp: new_dns_cache_def Let_def comp_def new_shard_inv shard_size_def)
       (simp_all add: new_shard_def comp_def)
qed (simp add: new_dns_cache_def)

lemma cache_hit_sound_witness:
  "\<exists>s hit s'. run_events cache_get cache_put
       [Stored \<lparr>qname = [1, 97, 0], qtype = 1, qclass = 1\<rparr> [default_ip] 5 0] (new_shard 1) = Some s
     \<and> cache_get \<lparr>qname = [1, 97, 0], qtype = 1, qclass = 1\<rparr> 1500000000 s = (Some hit, s')
     \<and> hit_addresses hit = [default_ip] \<and> uint (remaining_ttl hit) \<le> 5"
proof -
  let ?k = "\<lparr>qname = [1, 97, 0], qtype = 1, qclass = 1\<rparr>"
  obtain s where s: "run_events cache_get cache_put [Stored ?k [default_ip] 5 0] (new_shard 1) = Some s"
    by (simp add: cache_put_def new_shard_def)
  then obtain hit s' where g: "cache_get ?k 1500000000 s = (Some hit, s')"
    by (auto simp: cache_put_def new_shard_def cache_get_def nanoseconds_per_second_def)
  from cache_hit_sound [OF s g] s g show ?thesis
    by (intro exI [of _ s] exI [of _ hit] exI [of _ s']) simp
qed

lemma cache_put_get_witness:
  "\<exists>s'. cache_put \<lparr>qname = [1, 97, 0], qtype = 1, qclass = 1\<rparr> [default_ip] 5 0 (new_shard 1) = Some s'
     \<and> shard_inv s' \<and> fst (cache_get \<lparr>qname = [1, 97, 0], qtype = 1, qclass = 1\<rparr> 1500000000 s') \<noteq> None"
proof -
  have "shard_inv (new_shard 1)" "0 < capacity (new_shard 1)"
    by (rule new_shard_inv) (simp add: new_shard_def)
  from cache_put_get [OF this, of "\<lparr>qname = [1, 97, 0], qtype = 1, qclass = 1\<rparr>" "[default_ip]" 5 0]
  show ?thesis by (auto simp: expiry_of_def nanoseconds_per_second_def)
qed

lemma new_dns_cache_partition_witness:
  "\<exists>c. new_dns_cache 7 3 = Some c \<and> sum_list (map capacity (shards c)) = 7"
  using new_dns_cache_partition [where t = 7 and n = 3] by (auto simp: new_dns_cache_def)

end
