(* ===== verification/Wire.thy ===== *)
theory Wire
  imports Prelude
begin

text \<open>
  \<open>src/protocol/Wire.h\<close>: the bounds-checked reader and writer every parser and serializer is
  built from.  A reader operation that returns \<open>false\<close> is \<open>None\<close> and leaves the reader as it
  was; one that returns \<open>true\<close> is \<open>Some\<close> of the value it stored and the advanced reader.  A
  writer operation that returns \<open>false\<close> appends nothing and is \<open>None\<close>.

  The locale \<open>wire_codec\<close> is the contract between the two classes: a writer that appends
  an encoding of a fixed width and a reader that recovers the value from it, wherever the encoding
  stands in a packet.  It is interpreted for 8, 16 and 32 bits.
\<close>

section \<open>WireReader\<close>

record wire_reader =
  rd_bytes :: "byte list"
  rd_offset :: nat

definition mk_reader :: "byte list \<Rightarrow> nat \<Rightarrow> wire_reader" where
  "mk_reader bs off = \<lparr>rd_bytes = bs, rd_offset = off\<rparr>"

definition remaining :: "wire_reader \<Rightarrow> nat" where
  "remaining r =
     (if rd_offset r \<le> length (rd_bytes r) then length (rd_bytes r) - rd_offset r else 0)"

definition read_u8 :: "wire_reader \<Rightarrow> (byte \<times> wire_reader) option" where
  "read_u8 r =
     (if remaining r < 1 then None
      else Some (rd_bytes r ! rd_offset r, r\<lparr>rd_offset := rd_offset r + 1\<rparr>))"

definition read_u16 :: "wire_reader \<Rightarrow> (u16 \<times> wire_reader) option" where
  "read_u16 r =
     (if remaining r < 2 then None
      else Some (push_bit 8 (ucast (rd_bytes r ! rd_offset r)) OR ucast (rd_bytes r ! (rd_offset r + 1)),
                 r\<lparr>rd_offset := rd_offset r + 2\<rparr>))"

definition read_u32 :: "wire_reader \<Rightarrow> (u32 \<times> wire_reader) option" where
  "read_u32 r =
     (if remaining r < 4 then None
      else Some (push_bit 24 (ucast (rd_bytes r ! rd_offset r))
                   OR push_bit 16 (ucast (rd_bytes r ! (rd_offset r + 1)))
                   OR push_bit 8 (ucast (rd_bytes r ! (rd_offset r + 2)))
                   OR ucast (rd_bytes r ! (rd_offset r + 3)),
                 r\<lparr>rd_offset := rd_offset r + 4\<rparr>))"

definition read_bytes :: "nat \<Rightarrow> wire_reader \<Rightarrow> (byte list \<times> wire_reader) option" where
  "read_bytes n r =
     (if remaining r < n then None
      else Some (take n (drop (rd_offset r) (rd_bytes r)), r\<lparr>rd_offset := rd_offset r + n\<rparr>))"

definition skip :: "nat \<Rightarrow> wire_reader \<Rightarrow> wire_reader option" where
  "skip n r = (if remaining r < n then None else Some (r\<lparr>rd_offset := rd_offset r + n\<rparr>))"

section \<open>WireWriter\<close>

record wire_writer =
  wr_maximum_size :: nat
  wr_bytes :: "byte list"

definition mk_writer :: "nat \<Rightarrow> wire_writer" where
  "mk_writer maximum_size = \<lparr>wr_maximum_size = maximum_size, wr_bytes = []\<rparr>"

definition can_append :: "wire_writer \<Rightarrow> nat \<Rightarrow> bool" where
  "can_append w count \<longleftrightarrow>
     length (wr_bytes w) \<le> wr_maximum_size w \<and> count \<le> wr_maximum_size w - length (wr_bytes w)"

definition write_bytes :: "byte list \<Rightarrow> wire_writer \<Rightarrow> wire_writer option" where
  "write_bytes bs w =
     (if \<not> can_append w (length bs) then None else Some (w\<lparr>wr_bytes := wr_bytes w @ bs\<rparr>))"

definition write_u8 :: "byte \<Rightarrow> wire_writer \<Rightarrow> wire_writer option" where
  "write_u8 v w = (if \<not> can_append w 1 then None else Some (w\<lparr>wr_bytes := wr_bytes w @ [v]\<rparr>))"

definition write_u16 :: "u16 \<Rightarrow> wire_writer \<Rightarrow> wire_writer option" where
  "write_u16 v w =
     (if \<not> can_append w 2 then None
      else Some (w\<lparr>wr_bytes := wr_bytes w @ [byte_of 8 v, byte_of 0 v]\<rparr>))"

definition write_u32 :: "u32 \<Rightarrow> wire_writer \<Rightarrow> wire_writer option" where
  "write_u32 v w =
     (if \<not> can_append w 4 then None
      else Some (w\<lparr>wr_bytes := wr_bytes w @ [byte_of 24 v, byte_of 16 v, byte_of 8 v, byte_of 0 v]\<rparr>))"

section \<open>Encodings\<close>

text \<open>The bytes a writer operation appends, so that a whole message is a concatenation.\<close>

definition enc_u16 :: "u16 \<Rightarrow> byte list" where
  "enc_u16 v = [byte_of 8 v, byte_of 0 v]"

definition enc_u32 :: "u32 \<Rightarrow> byte list" where
  "enc_u32 v = [byte_of 24 v, byte_of 16 v, byte_of 8 v, byte_of 0 v]"

lemma length_enc [simp]: "length (enc_u16 v) = 2" "length (enc_u32 w) = 4"
  by (simp_all add: enc_u16_def enc_u32_def)

lemma write_u8_eq: "write_u8 v = write_bytes [v]"
  by (rule ext) (simp add: write_u8_def write_bytes_def)

lemma write_u16_eq: "write_u16 v = write_bytes (enc_u16 v)"
  by (rule ext) (simp add: write_u16_def write_bytes_def flip: enc_u16_def)

lemma write_u32_eq: "write_u32 v = write_bytes (enc_u32 v)"
  by (rule ext) (simp add: write_u32_def write_bytes_def flip: enc_u32_def)

lemmas write_eqs = write_u8_eq write_u16_eq write_u32_eq

text \<open>A successful write stays within the budget and appends exactly its encoding.\<close>

lemma write_bytes_Some_iff:
  "write_bytes bs w = Some w' \<longleftrightarrow>
     length (wr_bytes w) + length bs \<le> wr_maximum_size w \<and> w' = w\<lparr>wr_bytes := wr_bytes w @ bs\<rparr>"
  by (auto simp: write_bytes_def can_append_def)

lemma write_bytes_None_iff:
  "write_bytes bs w = None \<longleftrightarrow> wr_maximum_size w < length (wr_bytes w) + length bs"
  by (auto simp: write_bytes_def can_append_def)

lemma remaining_mk [simp]: "remaining (mk_reader bs off) = length bs - off"
  by (simp add: remaining_def mk_reader_def)

lemma mk_reader_simps [simp]:
  "rd_bytes (mk_reader bs off) = bs" "rd_offset (mk_reader bs off) = off"
  "(mk_reader bs off)\<lparr>rd_offset := off'\<rparr> = mk_reader bs off'"
  by (simp_all add: mk_reader_def)

section \<open>The codec contract\<close>

locale wire_codec =
  fixes enc :: "'v \<Rightarrow> byte list"
    and rd :: "wire_reader \<Rightarrow> ('v \<times> wire_reader) option"
    and wr :: "'v \<Rightarrow> wire_writer \<Rightarrow> wire_writer option"
    and width :: nat
  assumes enc_width: "length (enc v) = width"
    and width_pos: "0 < width"
    and wr_appends: "wr v w = write_bytes (enc v) w"
    and rd_enc: "rd (mk_reader (pre @ enc v @ suf) (length pre)) =
                   Some (v, mk_reader (pre @ enc v @ suf) (length pre + width))"
    and rd_short: "remaining r < width \<Longrightarrow> rd r = None"
    and rd_enough: "width \<le> remaining r \<Longrightarrow>
                      \<exists>v. rd r = Some (v, r\<lparr>rd_offset := rd_offset r + width\<rparr>)"
begin

text \<open>What was written to a fresh region of a packet is what a reader placed there reads back.\<close>

lemma write_then_read:
  assumes "wr v w = Some w'"
  shows "rd (mk_reader (wr_bytes w' @ suf) (length (wr_bytes w))) =
           Some (v, mk_reader (wr_bytes w' @ suf) (length (wr_bytes w')))"
  using assms rd_enc [of "wr_bytes w" v suf]
  by (simp add: wr_appends write_bytes_Some_iff enc_width)

lemma enc_inject: "enc u = enc v \<longleftrightarrow> u = v"
proof
  assume eq: "enc u = enc v"
  from rd_enc [of "[]" u "[]", unfolded eq] rd_enc [of "[]" v "[]"] show "u = v"
    by simp
qed simp

lemma rd_Some_iff:
  "(\<exists>v r'. rd r = Some (v, r')) \<longleftrightarrow> width \<le> remaining r"
  using rd_short [of r] rd_enough [of r] by (cases "width \<le> remaining r") auto

lemma rd_Some_bounds:
  assumes "rd r = Some (v, r')" and "rd_offset r \<le> length (rd_bytes r)"
  shows "r' = r\<lparr>rd_offset := rd_offset r + width\<rparr> \<and> rd_offset r + width \<le> length (rd_bytes r)"
proof -
  have w: "width \<le> remaining r"
    using assms(1) rd_Some_iff [of r] by auto
  then have "r' = r\<lparr>rd_offset := rd_offset r + width\<rparr>"
    using rd_enough [of r] assms(1) by auto
  moreover have "rd_offset r + width \<le> length (rd_bytes r)"
    using w assms(2) by (simp add: remaining_def)
  ultimately show ?thesis by simp
qed

end

interpretation u8: wire_codec "\<lambda>v. [v]" read_u8 write_u8 1
  by unfold_locales
    (auto simp: read_u8_def write_u8_eq)

interpretation u16: wire_codec enc_u16 read_u16 write_u16 2
proof unfold_locales
  fix pre suf :: "byte list" and v :: u16
  have "(pre @ enc_u16 v @ suf) ! length pre = byte_of 8 v"
    and "(pre @ enc_u16 v @ suf) ! Suc (length pre) = byte_of 0 v"
    by (simp_all add: enc_u16_def nth_append)
  then show "read_u16 (mk_reader (pre @ enc_u16 v @ suf) (length pre)) =
               Some (v, mk_reader (pre @ enc_u16 v @ suf) (length pre + 2))"
    by (simp add: read_u16_def wire_simps)
qed (auto simp: read_u16_def write_u16_eq)

interpretation u32: wire_codec enc_u32 read_u32 write_u32 4
proof unfold_locales
  fix pre suf :: "byte list" and v :: u32
  have "(pre @ enc_u32 v @ suf) ! length pre = byte_of 24 v"
    and "(pre @ enc_u32 v @ suf) ! (length pre + 1) = byte_of 16 v"
    and "(pre @ enc_u32 v @ suf) ! (length pre + 2) = byte_of 8 v"
    and "(pre @ enc_u32 v @ suf) ! (length pre + 3) = byte_of 0 v"
    by (simp_all add: enc_u32_def nth_append)
  then show "read_u32 (mk_reader (pre @ enc_u32 v @ suf) (length pre)) =
               Some (v, mk_reader (pre @ enc_u32 v @ suf) (length pre + 4))"
    by (simp add: read_u32_def wire_simps del: nth_append_at)
qed (auto simp: read_u32_def write_u32_eq)

lemma read_bytes_enc:
  "n = length bs \<Longrightarrow>
   read_bytes n (mk_reader (pre @ bs @ suf) (length pre)) =
     Some (bs, mk_reader (pre @ bs @ suf) (length pre + n))"
  by (simp add: read_bytes_def)

end
