(* ===== verification/DnsMessage.thy ===== *)
theory DnsMessage
  imports DomainName
begin

text \<open>
  \<open>src/protocol/DnsMessage.h\<close> and \<open>src/protocol/DnsLimits.h\<close>: the in-memory form of a DNS
  message.  The scoped enumerations are datatypes with their \<open>uint16_t\<close> / \<open>uint8_t\<close> values;
  fields that hold an arbitrary wire value keep their width.
\<close>

definition kDnsHeaderSize :: nat where "kDnsHeaderSize = 12"
definition kClassicDnsUdpPayloadLimit :: nat where "kClassicDnsUdpPayloadLimit = 512"
definition kDownstreamReceiveBufferSize :: nat where
  "kDownstreamReceiveBufferSize = kClassicDnsUdpPayloadLimit"
definition kUpstreamQueryBudget :: nat where
  "kUpstreamQueryBudget = kClassicDnsUdpPayloadLimit"
definition kUpstreamReceiveBufferSize :: nat where
  "kUpstreamReceiveBufferSize = kClassicDnsUdpPayloadLimit"
definition kDownstreamResponseBudget :: nat where
  "kDownstreamResponseBudget = kClassicDnsUdpPayloadLimit"

lemmas limit_defs = kClassicDnsUdpPayloadLimit_def kDownstreamReceiveBufferSize_def
  kUpstreamQueryBudget_def kUpstreamReceiveBufferSize_def kDownstreamResponseBudget_def

datatype record_type = RT_A | RT_NS | RT_CNAME | RT_SOA | RT_PTR | RT_HINFO | RT_MINFO | RT_MX
  | RT_TXT | RT_AAAA | RT_OPT

fun type_code :: "record_type \<Rightarrow> u16" where
  "type_code RT_A = 1" | "type_code RT_NS = 2" | "type_code RT_CNAME = 5" | "type_code RT_SOA = 6"
| "type_code RT_PTR = 12" | "type_code RT_HINFO = 13" | "type_code RT_MINFO = 14"
| "type_code RT_MX = 15" | "type_code RT_TXT = 16" | "type_code RT_AAAA = 28"
| "type_code RT_OPT = 41"

datatype record_class = RC_IN | RC_NONE | RC_ANY

fun class_code :: "record_class \<Rightarrow> u16" where
  "class_code RC_IN = 1" | "class_code RC_NONE = 254" | "class_code RC_ANY = 255"

datatype opcode = OpQuery | OpIQuery | OpStatus

fun opcode_value :: "opcode \<Rightarrow> byte" where
  "opcode_value OpQuery = 0" | "opcode_value OpIQuery = 1" | "opcode_value OpStatus = 2"

datatype response_code = NoError | FormErr | ServFail | NxDomain | NotImp | Refused

fun rcode_value :: "response_code \<Rightarrow> byte" where
  "rcode_value NoError = 0" | "rcode_value FormErr = 1" | "rcode_value ServFail = 2"
| "rcode_value NxDomain = 3" | "rcode_value NotImp = 4" | "rcode_value Refused = 5"

record header =
  hdr_id :: u16
  is_response :: bool
  hdr_opcode :: byte
  authoritative_answer :: bool
  truncated :: bool
  recursion_desired :: bool
  recursion_available :: bool
  reserved_z :: bool
  authenticated_data :: bool
  checking_disabled :: bool
  hdr_response_code :: byte

definition default_header :: header where
  "default_header =
     \<lparr>hdr_id = 0, is_response = False, hdr_opcode = opcode_value OpQuery,
      authoritative_answer = False, truncated = False, recursion_desired = False,
      recursion_available = False, reserved_z = False, authenticated_data = False,
      checking_disabled = False, hdr_response_code = rcode_value NoError\<rparr>"

record question =
  q_name :: domain_name
  q_type :: u16
  q_class :: u16

text \<open>The defaulted \<open>operator==\<close> of \<open>Question\<close> compares names by key.\<close>

definition question_eq :: "question \<Rightarrow> question \<Rightarrow> bool" where
  "question_eq a b \<longleftrightarrow> name_eq (q_name a) (q_name b) \<and> q_type a = q_type b \<and> q_class a = q_class b"

record resource_record =
  rr_name :: domain_name
  rr_type :: u16
  rr_class :: u16
  rr_ttl :: u32
  rdata_offset :: nat
  rdata :: "byte list"

record message =
  msg_header :: header
  questions :: "question list"
  answers :: "resource_record list"
  authorities :: "resource_record list"
  additionals :: "resource_record list"
  wire_image :: "byte list"

lemma type_code_inject [simp]: "type_code a = type_code b \<longleftrightarrow> a = b"
  by (cases a; cases b) simp_all

lemma question_eq_refl [simp]: "question_eq q q"
  by (simp add: question_eq_def name_eq_def)

lemma question_eq_sym: "question_eq a b \<longleftrightarrow> question_eq b a"
  by (auto simp: question_eq_def name_eq_def)

lemma question_eq_trans: "question_eq a b \<Longrightarrow> question_eq b c \<Longrightarrow> question_eq a c"
  by (simp add: question_eq_def name_eq_def)

definition wf_question :: "question \<Rightarrow> bool" where
  "wf_question q \<longleftrightarrow> wf_name (q_name q)"

end
