(* ===== verification/DnsParser.thy ===== *)
theory DnsParser
  imports Wire DnsMessage
begin

text \<open>
  \<open>src/protocol/DnsParser.{h,cpp}\<close>: name decompression, questions, resource records with their
  type-specific RDATA checks, and whole messages.  Every early return of the code is a value of
  \<open>parse_error\<close> with the offset the code reports.

  \<open>decode_name_loop\<close> is the \<open>while (true)\<close> loop of \<open>decode_name\<close>; it is a total function:
  a pointer step adds to the bounded list of visited pointers, a label step moves the position
  forward inside the packet.
\<close>

section \<open>Definitions\<close>

datatype parse_error_code = PE_PacketTooLarge | PE_UnexpectedEnd | PE_TooManyQuestions
  | PE_TooManyRecords | PE_InvalidLabelType | PE_EmptyLabel | PE_LabelTooLong | PE_NameTooLong
  | PE_TruncatedCompressionPointer | PE_CompressionPointerOutOfBounds
  | PE_CompressionPointerIntoHeader | PE_ForwardCompressionPointer | PE_CompressionPointerLoop
  | PE_TooManyCompressionPointers | PE_InvalidRdata | PE_TrailingData

type_synonym parse_error = "parse_error_code \<times> nat"

record parse_limits =
  maximum_packet_size :: nat
  maximum_questions :: nat
  maximum_records_per_section :: nat
  maximum_total_records :: nat
  maximum_compression_pointers :: nat
  require_backward_pointers :: bool
  reject_trailing_data :: bool

definition default_limits :: parse_limits where
  "default_limits =
     \<lparr>maximum_packet_size = 65535, maximum_questions = 16, maximum_records_per_section = 4096,
      maximum_total_records = 4096, maximum_compression_pointers = 32,
      require_backward_pointers = True, reject_trailing_data = True\<rparr>"

definition pointer_target :: "byte \<Rightarrow> byte \<Rightarrow> nat" where
  "pointer_target hi lo = unat (push_bit 8 (ucast (hi AND 0x3f)) OR ucast lo :: u64)"

function decode_name_loop ::
  "byte list \<Rightarrow> nat \<Rightarrow> parse_limits \<Rightarrow> byte list list \<Rightarrow> nat list \<Rightarrow> nat \<Rightarrow> nat \<Rightarrow> nat \<Rightarrow> bool
     \<Rightarrow> parse_error + (byte list list \<times> nat)" where
  "decode_name_loop packet encoded_end lim ls visited position next_offset expanded followed =
     (if position \<ge> length packet then Inl (PE_UnexpectedEnd, position)
      else if \<not> followed \<and> position \<ge> encoded_end then Inl (PE_UnexpectedEnd, position)
      else let len = packet ! position in
        if len = 0 then Inr (ls, if followed then next_offset else position + 1)
        else if len AND 0xc0 = 0xc0 then
          (if position + 1 \<ge> length packet \<or> (\<not> followed \<and> position + 1 \<ge> encoded_end)
           then Inl (PE_TruncatedCompressionPointer, position)
           else let pointer = pointer_target len (packet ! (position + 1)) in
             if pointer \<ge> length packet then Inl (PE_CompressionPointerOutOfBounds, position)
             else if pointer < kDnsHeaderSize then Inl (PE_CompressionPointerIntoHeader, position)
             else if require_backward_pointers lim \<and> pointer \<ge> position
             then Inl (PE_ForwardCompressionPointer, position)
             else if pointer \<in> set visited then Inl (PE_CompressionPointerLoop, position)
             else if length visited \<ge> maximum_compression_pointers lim
             then Inl (PE_TooManyCompressionPointers, position)
             else decode_name_loop packet encoded_end lim ls (visited @ [pointer]) pointer
                    (if followed then next_offset else position + 2) expanded True)
        else if len AND 0xc0 \<noteq> 0 then Inl (PE_InvalidLabelType, position)
        else if unat len > kMaxLabelSize then Inl (PE_LabelTooLong, position)
        else let label_begin = position + 1 in
          if label_begin > length packet \<or> unat len > length packet - label_begin
             \<or> (\<not> followed \<and> (label_begin > encoded_end \<or> unat len > encoded_end - label_begin))
          then Inl (PE_UnexpectedEnd, position)
          else if expanded > kMaxDomainWireSize - (unat len + 1)
          then Inl (PE_NameTooLong, position)
          else decode_name_loop packet encoded_end lim
                 (ls @ [take (unat len) (drop label_begin packet)]) visited
                 (label_begin + unat len)
                 (if followed then next_offset else label_begin + unat len)
                 (expanded + (unat len + 1)) followed)"
  by pat_completeness auto
termination
  by (relation "measures [\<lambda>(packet, encoded_end, lim, ls, visited, position, nxt, ex, fo).
          maximum_compression_pointers lim - length visited,
        \<lambda>(packet, encoded_end, lim, ls, visited, position, nxt, ex, fo).
          length packet - position]") auto

declare decode_name_loop.simps [simp del]

definition name_error_code :: "domain_name_error_code \<Rightarrow> parse_error_code" where
  "name_error_code c =
     (case c of DN_EmptyLabel \<Rightarrow> PE_EmptyLabel | DN_InvalidEscape \<Rightarrow> PE_InvalidLabelType
      | DN_LabelTooLong \<Rightarrow> PE_LabelTooLong | DN_NameTooLong \<Rightarrow> PE_NameTooLong)"

definition decode_name ::
  "byte list \<Rightarrow> nat \<Rightarrow> nat \<Rightarrow> parse_limits \<Rightarrow> parse_error + (domain_name \<times> nat)" where
  "decode_name packet start encoded_end lim =
     (case decode_name_loop packet encoded_end lim [] [] start start 1 False of
        Inl e \<Rightarrow> Inl e
      | Inr (ls, next_offset) \<Rightarrow>
          (case from_labels ls of
             Inl (c, _) \<Rightarrow> Inl (name_error_code c, start)
           | Inr name \<Rightarrow> Inr (name, next_offset)))"

definition parse_question ::
  "byte list \<Rightarrow> parse_limits \<Rightarrow> nat \<Rightarrow> parse_error + (question \<times> nat)" where
  "parse_question packet lim offset =
     (case decode_name packet offset (length packet) lim of
        Inl e \<Rightarrow> Inl e
      | Inr (name, next_offset) \<Rightarrow>
          let r0 = mk_reader packet next_offset in
          (case read_u16 r0 of
             None \<Rightarrow> Inl (PE_UnexpectedEnd, rd_offset r0)
           | Some (ty, r1) \<Rightarrow>
               (case read_u16 r1 of
                  None \<Rightarrow> Inl (PE_UnexpectedEnd, rd_offset r1)
                | Some (cl, r2) \<Rightarrow>
                    Inr (\<lparr>q_name = name, q_type = ty, q_class = cl\<rparr>, rd_offset r2))))"

text \<open>The lambdas of \<open>parse_resource_record\<close>.\<close>

definition validate_single_name ::
  "byte list \<Rightarrow> parse_limits \<Rightarrow> nat \<Rightarrow> nat \<Rightarrow> parse_error + unit" where
  "validate_single_name packet lim name_offset required_end =
     (case decode_name packet name_offset required_end lim of
        Inl e \<Rightarrow> Inl e
      | Inr (_, next_offset) \<Rightarrow>
          if next_offset \<noteq> required_end then Inl (PE_InvalidRdata, next_offset) else Inr ())"

text \<open>
  The loop shared by \<open>validate_character_strings\<close> and \<open>validate_text_strings\<close>: \<open>None\<close> is the
  early \<open>return false\<close>, \<open>Some (cursor, count)\<close> the state after the loop.
\<close>

function count_strings :: "byte list \<Rightarrow> nat \<Rightarrow> nat \<Rightarrow> nat \<Rightarrow> (nat \<times> nat) option" where
  "count_strings packet rdata_end cursor count =
     (if cursor < rdata_end then
        let string_size = unat (packet ! cursor) in
        if string_size > rdata_end - (cursor + 1) then None
        else count_strings packet rdata_end (cursor + 1 + string_size) (count + 1)
      else Some (cursor, count))"
  by pat_completeness auto
termination
  by (relation "measure (\<lambda>(packet, rdata_end, cursor, count). rdata_end - cursor)") auto

declare count_strings.simps [simp del]

definition validate_character_strings :: "byte list \<Rightarrow> nat \<Rightarrow> nat \<Rightarrow> nat \<Rightarrow> bool" where
  "validate_character_strings packet rdata_off rdata_end expected_count =
     (case count_strings packet rdata_end rdata_off 0 of
        None \<Rightarrow> False
      | Some (cursor, count) \<Rightarrow> cursor = rdata_end \<and> count = expected_count)"

definition validate_text_strings :: "byte list \<Rightarrow> nat \<Rightarrow> nat \<Rightarrow> bool" where
  "validate_text_strings packet rdata_off rdata_end =
     (case count_strings packet rdata_end rdata_off 0 of
        None \<Rightarrow> False
      | Some (cursor, count) \<Rightarrow> cursor = rdata_end \<and> count \<noteq> 0)"

text \<open>The \<open>switch\<close> on the record type.\<close>

definition validate_rdata ::
  "byte list \<Rightarrow> parse_limits \<Rightarrow> u16 \<Rightarrow> nat \<Rightarrow> nat \<Rightarrow> nat \<Rightarrow> parse_error + unit" where
  "validate_rdata packet lim ty rdata_length off rdata_end =
     (if ty = type_code RT_A then
        (if rdata_length \<noteq> 4 then Inl (PE_InvalidRdata, off) else Inr ())
      else if ty = type_code RT_AAAA then
        (if rdata_length \<noteq> 16 then Inl (PE_InvalidRdata, off) else Inr ())
      else if ty = type_code RT_NS \<or> ty = type_code RT_CNAME \<or> ty = type_code RT_PTR then
        validate_single_name packet lim off rdata_end
      else if ty = type_code RT_MX then
        (if rdata_length < 3 then Inl (PE_InvalidRdata, off)
         else validate_single_name packet lim (off + 2) rdata_end)
      else if ty = type_code RT_SOA then
        (case decode_name packet off rdata_end lim of
           Inl e \<Rightarrow> Inl e
         | Inr (_, primary_next) \<Rightarrow>
             (case decode_name packet primary_next rdata_end lim of
                Inl e \<Rightarrow> Inl e
              | Inr (_, mailbox_next) \<Rightarrow>
                  if mailbox_next > rdata_end \<or> rdata_end - mailbox_next \<noteq> 20
                  then Inl (PE_InvalidRdata, mailbox_next) else Inr ()))
      else if ty = type_code RT_MINFO then
        (case decode_name packet off rdata_end lim of
           Inl e \<Rightarrow> Inl e
         | Inr (_, responsible_next) \<Rightarrow> validate_single_name packet lim responsible_next rdata_end)
      else if ty = type_code RT_HINFO then
        (if \<not> validate_character_strings packet off rdata_end 2
         then Inl (PE_InvalidRdata, off) else Inr ())
      else if ty = type_code RT_TXT then
        (if \<not> validate_text_strings packet off rdata_end
         then Inl (PE_InvalidRdata, off) else Inr ())
      else Inr ())"

definition parse_resource_record ::
  "byte list \<Rightarrow> parse_limits \<Rightarrow> nat \<Rightarrow> parse_error + (resource_record \<times> nat)" where
  "parse_resource_record packet lim offset =
     (case decode_name packet offset (length packet) lim of
        Inl e \<Rightarrow> Inl e
      | Inr (name, next_offset) \<Rightarrow>
        let r0 = mk_reader packet next_offset in
        (case read_u16 r0 of None \<Rightarrow> Inl (PE_UnexpectedEnd, rd_offset r0)
         | Some (ty, r1) \<Rightarrow>
        (case read_u16 r1 of None \<Rightarrow> Inl (PE_UnexpectedEnd, rd_offset r1)
         | Some (cl, r2) \<Rightarrow>
        (case read_u32 r2 of None \<Rightarrow> Inl (PE_UnexpectedEnd, rd_offset r2)
         | Some (ttl, r3) \<Rightarrow>
        (case read_u16 r3 of None \<Rightarrow> Inl (PE_UnexpectedEnd, rd_offset r3)
         | Some (rdata_length, r4) \<Rightarrow>
        (case read_bytes (unat rdata_length) r4 of None \<Rightarrow> Inl (PE_UnexpectedEnd, rd_offset r4)
         | Some (rd, r5) \<Rightarrow>
        (case validate_rdata packet lim ty (unat rdata_length) (rd_offset r4) (rd_offset r5) of
           Inl e \<Rightarrow> Inl e
         | Inr _ \<Rightarrow>
             Inr (\<lparr>rr_name = name, rr_type = ty, rr_class = cl, rr_ttl = ttl,
                   rdata_offset = rd_offset r4, rdata = rd\<rparr>, rd_offset r5))))))))"

fun parse_section ::
  "nat \<Rightarrow> (nat \<Rightarrow> parse_error + ('a \<times> nat)) \<Rightarrow> nat \<Rightarrow> parse_error + ('a list \<times> nat)" where
  "parse_section 0 parser offset = Inr ([], offset)"
| "parse_section (Suc n) parser offset =
     (case parser offset of
        Inl e \<Rightarrow> Inl e
      | Inr (item, offset') \<Rightarrow>
          (case parse_section n parser offset' of
             Inl e \<Rightarrow> Inl e
           | Inr (items, offset'') \<Rightarrow> Inr (item # items, offset'')))"

definition decode_flags :: "u16 \<Rightarrow> u16 \<Rightarrow> header" where
  "decode_flags ident flags =
     \<lparr>hdr_id = ident,
      is_response = (flags AND 0x8000 \<noteq> 0),
      hdr_opcode = ucast (drop_bit 11 flags AND 0x0f),
      authoritative_answer = (flags AND 0x0400 \<noteq> 0),
      truncated = (flags AND 0x0200 \<noteq> 0),
      recursion_desired = (flags AND 0x0100 \<noteq> 0),
      recursion_available = (flags AND 0x0080 \<noteq> 0),
      reserved_z = (flags AND 0x0040 \<noteq> 0),
      authenticated_data = (flags AND 0x0020 \<noteq> 0),
      checking_disabled = (flags AND 0x0010 \<noteq> 0),
      hdr_response_code = ucast (flags AND 0x000f)\<rparr>"

text \<open>The six 16-bit fields of the header; on failure the offset of the first short read.\<close>

fun read_u16s :: "nat \<Rightarrow> wire_reader \<Rightarrow> parse_error + (u16 list \<times> wire_reader)" where
  "read_u16s 0 r = Inr ([], r)"
| "read_u16s (Suc n) r =
     (case read_u16 r of
        None \<Rightarrow> Inl (PE_UnexpectedEnd, rd_offset r)
      | Some (v, r') \<Rightarrow>
          (case read_u16s n r' of Inl e \<Rightarrow> Inl e | Inr (vs, r'') \<Rightarrow> Inr (v # vs, r'')))"

text \<open>The body of \<open>parse_message\<close> after the header: the four sections and the trailing check.\<close>

definition parse_body ::
  "byte list \<Rightarrow> parse_limits \<Rightarrow> header \<Rightarrow> nat \<Rightarrow> nat \<Rightarrow> nat \<Rightarrow> nat \<Rightarrow> nat \<Rightarrow> parse_error + message" where
  "parse_body packet lim hdr qd an ns ar offset =
     (case parse_section qd (parse_question packet lim) offset of Inl e \<Rightarrow> Inl e
      | Inr (qs, o1) \<Rightarrow>
     (case parse_section an (parse_resource_record packet lim) o1 of Inl e \<Rightarrow> Inl e
      | Inr (ans, o2) \<Rightarrow>
     (case parse_section ns (parse_resource_record packet lim) o2 of Inl e \<Rightarrow> Inl e
      | Inr (auths, o3) \<Rightarrow>
     (case parse_section ar (parse_resource_record packet lim) o3 of Inl e \<Rightarrow> Inl e
      | Inr (adds, o4) \<Rightarrow>
          if reject_trailing_data lim \<and> o4 \<noteq> length packet then Inl (PE_TrailingData, o4)
          else Inr \<lparr>msg_header = hdr, questions = qs, answers = ans, authorities = auths,
                    additionals = adds, wire_image = packet\<rparr>))))"

definition parse_message :: "byte list \<Rightarrow> parse_limits \<Rightarrow> parse_error + message" where
  "parse_message packet lim =
     (if length packet > maximum_packet_size lim
      then Inl (PE_PacketTooLarge, maximum_packet_size lim)
      else (case read_u16s 6 (mk_reader packet 0) of
              Inl e \<Rightarrow> Inl e
            | Inr (vs, r) \<Rightarrow>
                let ident = vs ! 0; flags = vs ! 1; qd = unat (vs ! 2); an = unat (vs ! 3);
                    ns = unat (vs ! 4); ar = unat (vs ! 5) in
                if qd > maximum_questions lim then Inl (PE_TooManyQuestions, 4)
                else if an > maximum_records_per_section lim \<or> ns > maximum_records_per_section lim
                        \<or> ar > maximum_records_per_section lim then Inl (PE_TooManyRecords, 6)
                else if an + ns + ar > maximum_total_records lim then Inl (PE_TooManyRecords, 6)
                else parse_body packet lim (decode_flags ident flags) qd an ns ar (rd_offset r)))"

section \<open>Names\<close>

lemma length_byte_pos: "(b :: byte) \<noteq> 0 \<Longrightarrow> 0 < unat b"
  by (simp add: unat_gt_0)

lemma decode_name_loop_ok:
  assumes "decode_name_loop packet encoded_end lim ls visited position nxt expanded followed
             = Inr (ms, out)"
    and "\<forall>l \<in> set ls. valid_label l" and "expanded = labels_wire_size ls"
    and "expanded \<le> kMaxDomainWireSize"
  shows "valid_labels ms \<and>
         (if followed then out = nxt
          else position < out \<and> out \<le> encoded_end \<and> out \<le> length packet)"
  using assms
proof (induction packet encoded_end lim ls visited position nxt expanded followed
    rule: decode_name_loop.induct)
  case (1 packet encoded_end lim ls visited position nxt expanded followed)
  note step = "1.prems"(1) [unfolded decode_name_loop.simps [of packet encoded_end lim ls visited]]
  let ?len = "packet ! position"
  have pos: "position < length packet" "followed \<or> position < encoded_end"
    using step by (auto split: if_split_asm)
  consider (stop) "?len = 0"
    | (pointer) "?len \<noteq> 0" "?len AND 0xc0 = 0xc0"
    | (label) "?len \<noteq> 0" "?len AND 0xc0 \<noteq> 0xc0"
    by blast
  then show ?case
  proof cases
    case stop
    with step pos "1.prems" show ?thesis
      by (auto simp: valid_labels_def)
  next
    case pointer
    let ?ptr = "pointer_target ?len (packet ! (position + 1))"
    from step pos pointer have
      rec: "decode_name_loop packet encoded_end lim ls (visited @ [?ptr]) ?ptr
              (if followed then nxt else position + 2) expanded True = Inr (ms, out)"
      and g: "\<not> (length packet \<le> position + 1 \<or> \<not> followed \<and> encoded_end \<le> position + 1)"
             "\<not> length packet \<le> ?ptr" "\<not> ?ptr < kDnsHeaderSize"
             "\<not> (require_backward_pointers lim \<and> position \<le> ?ptr)" "?ptr \<notin> set visited"
             "\<not> maximum_compression_pointers lim \<le> length visited"
      by (simp_all add: Let_def split: if_split_asm)
    have "valid_labels ms \<and> out = (if followed then nxt else position + 2)"
      using "1.IH"(1) [OF _ _ refl _ _ _ refl _ _ _ _ _ rec] pos pointer g "1.prems" by auto
    with g pos show ?thesis by auto
  next
    case label
    let ?n = "unat ?len" and ?b = "position + 1"
    let ?l = "take ?n (drop ?b packet)"
    from step pos label have
      rec: "decode_name_loop packet encoded_end lim (ls @ [?l]) visited (?b + ?n)
              (if followed then nxt else ?b + ?n) (expanded + (?n + 1)) followed = Inr (ms, out)"
      and g: "\<not> ?len AND 0xc0 \<noteq> 0" "\<not> kMaxLabelSize < ?n"
             "\<not> (length packet < ?b \<or> length packet - ?b < ?n
                 \<or> \<not> followed \<and> (encoded_end < ?b \<or> encoded_end - ?b < ?n))"
             "\<not> kMaxDomainWireSize - (?n + 1) < expanded"
      by (simp_all add: Let_def split: if_split_asm)
    have l: "length ?l = ?n" "valid_label ?l"
      using g(2,3) length_byte_pos [OF label(1)] by (auto simp: valid_label_def)
    have "valid_labels ms \<and>
        (if followed then out = (if followed then nxt else ?b + ?n)
         else ?b + ?n < out \<and> out \<le> encoded_end \<and> out \<le> length packet)"
      using "1.IH"(2) [OF _ _ refl _ _ _ _ refl _ _ rec] pos label g l "1.prems"
      by (auto simp: kMaxDomainWireSize_def kMaxLabelSize_def)
    then show ?thesis by auto
  qed
qed

text \<open>After the loop \<open>from_labels\<close> cannot fail: the size checks of the loop are its checks.\<close>

lemma decode_name_Inr_iff:
  "decode_name packet start encoded_end lim = Inr (n, out) \<longleftrightarrow>
     (\<exists>ls. decode_name_loop packet encoded_end lim [] [] start start 1 False = Inr (ls, out)
           \<and> n = name_of ls)"
proof (cases "decode_name_loop packet encoded_end lim [] [] start start 1 False")
  case (Inr p)
  obtain ls nx where p: "p = (ls, nx)" by (cases p)
  with Inr have "valid_labels ls"
    using decode_name_loop_ok [of packet encoded_end lim "[]" "[]" start start 1 False ls nx]
    by (simp add: kMaxDomainWireSize_def)
  with Inr p show ?thesis
    by (auto simp: decode_name_def from_labels_valid)
qed (simp add: decode_name_def)

lemma decode_name_ok:
  assumes "decode_name packet start encoded_end lim = Inr (n, out)"
  shows "wf_name n" and "start < out" and "out \<le> encoded_end" and "out \<le> length packet"
  using assms decode_name_loop_ok [of packet encoded_end lim "[]" "[]" start start 1 False _ out]
  by (auto simp: decode_name_Inr_iff kMaxDomainWireSize_def)

section \<open>Wire form of a name\<close>

definition wire_labels :: "byte list list \<Rightarrow> byte list" where
  "wire_labels ls = concat (map (\<lambda>l. of_nat (length l) # l) ls)"

definition wire_name :: "byte list list \<Rightarrow> byte list" where
  "wire_name ls = wire_labels ls @ [0]"

lemma wire_name_simps [simp]:
  "wire_name [] = [0]"
  "wire_name (l # ls) = of_nat (length l) # l @ wire_name ls"
  by (simp_all add: wire_name_def wire_labels_def)

lemma length_wire_name [simp]: "length (wire_name ls) = labels_wire_size ls"
  by (induction ls) simp_all

lemma label_length_byte:
  assumes "valid_label l"
  shows "unat (of_nat (length l) :: byte) = length l" and "of_nat (length l) \<noteq> (0 :: byte)"
    and "of_nat (length l) AND (0xc0 :: byte) = 0"
proof -
  show u: "unat (of_nat (length l) :: byte) = length l" and "of_nat (length l) \<noteq> (0 :: byte)"
    using valid_label_prefix [OF assms] by simp_all
  have "take_bit 6 (of_nat (length l) :: byte) = of_nat (length l)"
    using assms u
    by (simp add: word_unat_eq_iff take_bit_eq_mod unat_mod valid_label_def kMaxLabelSize_def)
  moreover have "take_bit 6 (x :: byte) AND 0xc0 = 0" for x
  proof -
    have "\<not> bit (0xc0 :: byte) n" if "n < 6" for n
      using that by (auto simp: less_Suc_eq eval_nat_numeral)
    then show ?thesis
      by (auto intro!: bit_word_eqI simp: bit_simps)
  qed
  ultimately show "of_nat (length l) AND (0xc0 :: byte) = 0" by metis
qed

text \<open>The loop reads a written name back, directly or behind a pointer.\<close>

lemma decode_name_loop_wire:
  assumes "packet = pre @ wire_name ls @ suf"
    and "\<forall>l \<in> set ls. valid_label l"
    and "1 \<le> expanded" and "expanded - 1 + labels_wire_size ls \<le> kMaxDomainWireSize"
    and "followed \<or> length pre + labels_wire_size ls \<le> encoded_end"
  shows "decode_name_loop packet encoded_end lim acc visited (length pre) nxt expanded followed
           = Inr (acc @ ls, if followed then nxt else length pre + labels_wire_size ls)"
  using assms
proof (induction ls arbitrary: pre acc nxt expanded)
  case Nil
  then show ?case by (subst decode_name_loop.simps) auto
next
  case (Cons l ls)
  let ?pre = "pre @ of_nat (length l) # l" and ?p = "length pre" and ?n = "length l"
  from Cons.prems(2) have l: "valid_label l" by simp
  note len = label_length_byte [OF l]
  have ge: "1 \<le> labels_wire_size ls" by (simp add: labels_wire_size_def)
  have pk: "packet = ?pre @ wire_name ls @ suf" using Cons.prems(1) by simp
  have nth: "packet ! ?p = of_nat ?n" using Cons.prems(1) by simp
  have lab: "take ?n (drop (?p + 1) packet) = l" using Cons.prems(1) by simp
  have lenp: "length packet = ?p + 1 + ?n + labels_wire_size ls + length suf"
    using Cons.prems(1) by simp
  have in_packet: "\<not> length packet \<le> ?p" "\<not> (\<not> followed \<and> encoded_end \<le> ?p)"
    using lenp Cons.prems(5) by auto
  have in_range: "\<not> (length packet < ?p + 1 \<or> length packet - (?p + 1) < ?n
      \<or> \<not> followed \<and> (encoded_end < ?p + 1 \<or> encoded_end - (?p + 1) < ?n))"
    using lenp Cons.prems(5) by auto
  have sizes: "\<not> kMaxLabelSize < ?n" "\<not> kMaxDomainWireSize - (?n + 1) < expanded"
    using l ge Cons.prems(3,4) by (auto simp: valid_label_def)
  have "decode_name_loop packet encoded_end lim acc visited ?p nxt expanded followed =
        decode_name_loop packet encoded_end lim (acc @ [l]) visited (?p + 1 + ?n)
          (if followed then nxt else ?p + 1 + ?n) (expanded + (?n + 1)) followed"
    unfolding decode_name_loop.simps [of packet encoded_end lim acc visited "?p"] Let_def nth len(1) lab
    using in_packet in_range sizes len(2,3) by (simp only: if_False) simp
  also have "\<dots> = decode_name_loop packet encoded_end lim (acc @ [l]) visited (length ?pre)
          (if followed then nxt else length ?pre) (expanded + (?n + 1)) followed"
    by simp
  also have "\<dots> = Inr ((acc @ [l]) @ ls,
      if followed then (if followed then nxt else length ?pre)
      else length ?pre + labels_wire_size ls)"
    by (rule Cons.IH [OF pk]) (use Cons.prems(2-5) in auto)
  finally show ?case by (auto simp: add.commute add.left_commute)
qed

lemma decode_name_wire:
  assumes "valid_labels ls" and "length pre + labels_wire_size ls \<le> encoded_end"
  shows "decode_name (pre @ wire_name ls @ suf) (length pre) encoded_end lim
           = Inr (name_of ls, length pre + labels_wire_size ls)"
  using assms decode_name_loop_wire [OF refl, of ls 1 False pre encoded_end suf lim "[]" "[]"]
  by (auto simp: decode_name_Inr_iff valid_labels_def)

text \<open>A record owner written as the pointer \<open>0xc00c\<close> decodes to the name after the header.\<close>

lemma decode_name_pointer:
  assumes "packet = pre @ wire_name ls @ suf" and "length pre = kDnsHeaderSize"
    and "valid_labels ls"
    and "packet ! off = 0xc0" and "packet ! (off + 1) = 0x0c" and "off + 1 < length packet"
    and "kDnsHeaderSize < off" and "0 < maximum_compression_pointers lim"
  shows "decode_name packet off (length packet) lim = Inr (name_of ls, off + 2)"
proof -
  have ptr: "pointer_target 0xc0 0x0c = 12"
    by (simp add: pointer_target_def)
  have "decode_name_loop packet (length packet) lim [] [] off off 1 False =
        decode_name_loop packet (length packet) lim [] [12] 12 (off + 2) 1 True"
    using assms(4-8)
    by (subst decode_name_loop.simps) (simp add: Let_def ptr kDnsHeaderSize_def)
  also have "\<dots> = Inr ([] @ ls, off + 2)"
    using decode_name_loop_wire [OF assms(1), of 1 True "length packet" lim "[]" "[12]" "off + 2"]
      assms(2,3) by (simp add: kDnsHeaderSize_def valid_labels_def)
  finally show ?thesis
    by (simp add: decode_name_Inr_iff)
qed

section \<open>Sections and messages\<close>

lemma parse_section_length:
  "parse_section n p off = Inr (xs, out) \<Longrightarrow> length xs = n"
  by (induction n arbitrary: off xs) (auto split: sum.splits prod.splits)

text \<open>If each item advances the offset inside the packet and satisfies \<open>P\<close>, so does a section.\<close>

lemma parse_section_all:
  assumes "parse_section n p off = Inr (xs, out)"
    and "\<And>i x j. p i = Inr (x, j) \<Longrightarrow> P x \<and> i < j \<and> j \<le> bound"
    and "off \<le> bound"
  shows "(\<forall>x \<in> set xs. P x) \<and> off + n \<le> out \<and> out \<le> bound"
  using assms(1,3)
proof (induction n arbitrary: off xs)
  case (Suc n)
  from Suc.prems(1) obtain x j ys where
    item: "p off = Inr (x, j)" and rest: "parse_section n p j = Inr (ys, out)" and xs: "xs = x # ys"
    by (auto split: sum.splits prod.splits)
  with assms(2) [OF item] Suc.IH [OF rest] show ?case by auto
qed simp

definition wf_record :: "byte list \<Rightarrow> resource_record \<Rightarrow> bool" where
  "wf_record packet r \<longleftrightarrow>
     wf_name (rr_name r)
     \<and> rdata_offset r + length (rdata r) \<le> length packet
     \<and> rdata r = take (length (rdata r)) (drop (rdata_offset r) packet)
     \<and> (rr_type r = type_code RT_A \<longrightarrow> length (rdata r) = 4)
     \<and> (rr_type r = type_code RT_AAAA \<longrightarrow> length (rdata r) = 16)"

lemma read_u16_SomeE:
  assumes "read_u16 r = Some (v, r')"
  obtains "r' = r\<lparr>rd_offset := rd_offset r + 2\<rparr>" "rd_offset r + 2 \<le> length (rd_bytes r)"
  using assms by (auto simp: read_u16_def remaining_def split: if_splits)

lemma read_u32_SomeE:
  assumes "read_u32 r = Some (v, r')"
  obtains "r' = r\<lparr>rd_offset := rd_offset r + 4\<rparr>" "rd_offset r + 4 \<le> length (rd_bytes r)"
  using assms by (auto simp: read_u32_def remaining_def split: if_splits)

lemma read_bytes_SomeE:
  assumes "read_bytes n r = Some (bs, r')" and "rd_offset r \<le> length (rd_bytes r)"
  obtains "r' = r\<lparr>rd_offset := rd_offset r + n\<rparr>" "rd_offset r + n \<le> length (rd_bytes r)"
    "bs = take n (drop (rd_offset r) (rd_bytes r))"
  using assms by (auto simp: read_bytes_def remaining_def split: if_splits)

lemma parse_question_ok:
  assumes "parse_question packet lim i = Inr (q, j)"
  shows "wf_question q \<and> i < j \<and> j \<le> length packet"
proof -
  from assms obtain n k where d: "decode_name packet i (length packet) lim = Inr (n, k)"
    by (auto simp: parse_question_def split: sum.splits)
  with assms decode_name_ok [OF d] show ?thesis
    by (auto simp: parse_question_def wf_question_def Let_def
        elim!: read_u16_SomeE split: option.splits)
qed

lemma validate_rdata_lengths:
  "validate_rdata packet lim ty n off e = Inr u \<Longrightarrow>
     (ty = type_code RT_A \<longrightarrow> n = 4) \<and> (ty = type_code RT_AAAA \<longrightarrow> n = 16)"
  by (auto simp: validate_rdata_def split: if_splits)

lemma parse_resource_record_ok:
  assumes "parse_resource_record packet lim i = Inr (r, j)"
  shows "wf_record packet r \<and> i < j \<and> j \<le> length packet"
proof -
  from assms obtain n k where d: "decode_name packet i (length packet) lim = Inr (n, k)"
    by (auto simp: parse_resource_record_def split: sum.splits)
  with assms decode_name_ok [OF d] show ?thesis
    by (auto simp: parse_resource_record_def wf_record_def Let_def
        elim!: read_u16_SomeE read_u32_SomeE read_bytes_SomeE
        dest!: validate_rdata_lengths
        split: option.splits sum.splits)
qed

text \<open>What a message that parses satisfies: the counts, the names and the record payloads.\<close>

definition wf_message :: "message \<Rightarrow> bool" where
  "wf_message m \<longleftrightarrow>
     (\<forall>q \<in> set (questions m). wf_question q)
     \<and> (\<forall>r \<in> set (answers m) \<union> set (authorities m) \<union> set (additionals m).
          wf_record (wire_image m) r)"

lemma parse_body_ok:
  assumes "parse_body packet lim hdr qd an ns ar off = Inr m" and "off \<le> length packet"
  shows "wf_message m \<and> msg_header m = hdr \<and> wire_image m = packet
         \<and> length (questions m) = qd \<and> length (answers m) = an \<and> length (authorities m) = ns
         \<and> length (additionals m) = ar"
proof -
  from assms(1) obtain qs o1 ans o2 auths o3 adds o4 where
    secs: "parse_section qd (parse_question packet lim) off = Inr (qs, o1)"
      "parse_section an (parse_resource_record packet lim) o1 = Inr (ans, o2)"
      "parse_section ns (parse_resource_record packet lim) o2 = Inr (auths, o3)"
      "parse_section ar (parse_resource_record packet lim) o3 = Inr (adds, o4)"
    and m: "m = \<lparr>msg_header = hdr, questions = qs, answers = ans, authorities = auths,
                  additionals = adds, wire_image = packet\<rparr>"
    by (auto simp: parse_body_def split: sum.splits prod.splits if_splits)
  have q: "(\<forall>q \<in> set qs. wf_question q) \<and> off + qd \<le> o1 \<and> o1 \<le> length packet"
    by (rule parse_section_all [OF secs(1) parse_question_ok assms(2)])
  have a: "(\<forall>r \<in> set ans. wf_record packet r) \<and> o1 + an \<le> o2 \<and> o2 \<le> length packet"
    by (rule parse_section_all [OF secs(2) parse_resource_record_ok]) (use q in auto)
  have b: "(\<forall>r \<in> set auths. wf_record packet r) \<and> o2 + ns \<le> o3 \<and> o3 \<le> length packet"
    by (rule parse_section_all [OF secs(3) parse_resource_record_ok]) (use a in auto)
  have c: "(\<forall>r \<in> set adds. wf_record packet r) \<and> o3 + ar \<le> o4 \<and> o4 \<le> length packet"
    by (rule parse_section_all [OF secs(4) parse_resource_record_ok]) (use b in auto)
  show ?thesis
    using q a b c secs [THEN parse_section_length] by (auto simp: m wf_message_def)
qed

lemma read_u16s_ok:
  assumes "read_u16s n r = Inr (vs, r')" and "rd_offset r \<le> length (rd_bytes r)"
  shows "length vs = n \<and> r' = r\<lparr>rd_offset := rd_offset r + 2 * n\<rparr>
         \<and> rd_offset r + 2 * n \<le> length (rd_bytes r)"
  using assms
proof (induction n arbitrary: r vs)
  case (Suc n)
  from Suc.prems(1) obtain v r1 ws where
    hd: "read_u16 r = Some (v, r1)" and tl: "read_u16s n r1 = Inr (ws, r')" and vs: "vs = v # ws"
    by (auto split: option.splits sum.splits prod.splits)
  with u16.rd_Some_bounds [OF hd Suc.prems(2)] Suc.IH [OF tl] show ?case by auto
qed simp

lemma decode_flags_small:
  "unat (hdr_opcode (decode_flags i f)) < 16" "unat (hdr_response_code (decode_flags i f)) < 16"
proof -
  have "unat (ucast (x AND 0x0f :: u16) :: byte) < 16" for x
  proof -
    have "x AND 0x0f = take_bit 4 x" for x :: u16
      by (simp add: take_bit_eq_mask mask_eq_exp_minus_1)
    then show ?thesis
      by (simp add: unsigned_ucast_eq take_bit_eq_mod unat_mod)
  qed
  then show "unat (hdr_opcode (decode_flags i f)) < 16"
    "unat (hdr_response_code (decode_flags i f)) < 16"
    by (simp_all add: decode_flags_def)
qed

lemma parse_message_wf:
  assumes "parse_message packet lim = Inr m"
  shows "wf_message m \<and> wire_image m = packet
         \<and> kDnsHeaderSize \<le> length packet \<and> length packet \<le> maximum_packet_size lim
         \<and> length (questions m) \<le> maximum_questions lim
         \<and> length (answers m) + length (authorities m) + length (additionals m)
             \<le> maximum_total_records lim
         \<and> unat (hdr_opcode (msg_header m)) < 16 \<and> unat (hdr_response_code (msg_header m)) < 16"
proof -
  from assms obtain vs r where rd: "read_u16s 6 (mk_reader packet 0) = Inr (vs, r)"
    by (auto simp: parse_message_def split: sum.splits if_splits)
  then have r: "r = mk_reader packet 12" "12 \<le> length packet"
    using read_u16s_ok [OF rd] by simp_all
  from assms rd r have
    body: "parse_body packet lim (decode_flags (vs ! 0) (vs ! 1)) (unat (vs ! 2)) (unat (vs ! 3))
             (unat (vs ! 4)) (unat (vs ! 5)) 12 = Inr m"
    and g: "length packet \<le> maximum_packet_size lim" "unat (vs ! 2) \<le> maximum_questions lim"
      "unat (vs ! 3) + unat (vs ! 4) + unat (vs ! 5) \<le> maximum_total_records lim"
    by (auto simp: parse_message_def Let_def split: if_splits)
  from parse_body_ok [OF body r(2)] r(2) g show ?thesis
    by (simp add: kDnsHeaderSize_def decode_flags_small)
qed

text \<open>
  The header as RFC 1035 lays it out: the ID in the first two bytes and every flag at its bit of
  the third and fourth byte.  The predicate reads the packet and not the code's masks.
\<close>

definition be16 :: "byte \<Rightarrow> byte \<Rightarrow> nat" where
  "be16 a b = 256 * unat a + unat b"

definition header_on_wire :: "byte list \<Rightarrow> header \<Rightarrow> bool" where
  "header_on_wire packet h \<longleftrightarrow>
     unat (hdr_id h) = be16 (packet ! 0) (packet ! 1)
     \<and> (is_response h \<longleftrightarrow> bit (packet ! 2) 7)
     \<and> unat (hdr_opcode h) = unat (packet ! 2) div 8 mod 16
     \<and> (authoritative_answer h \<longleftrightarrow> bit (packet ! 2) 2)
     \<and> (truncated h \<longleftrightarrow> bit (packet ! 2) 1)
     \<and> (recursion_desired h \<longleftrightarrow> bit (packet ! 2) 0)
     \<and> (recursion_available h \<longleftrightarrow> bit (packet ! 3) 7)
     \<and> (reserved_z h \<longleftrightarrow> bit (packet ! 3) 6)
     \<and> (authenticated_data h \<longleftrightarrow> bit (packet ! 3) 5)
     \<and> (checking_disabled h \<longleftrightarrow> bit (packet ! 3) 4)
     \<and> unat (hdr_response_code h) = unat (packet ! 3) mod 16"

lemma read_u16_value:
  assumes "read_u16 r = Some (v, r')"
  shows "v = push_bit 8 (ucast (rd_bytes r ! rd_offset r)) OR ucast (rd_bytes r ! (rd_offset r + 1))"
  using assms by (auto simp: read_u16_def split: if_splits)

lemma read_u16s_values:
  assumes "read_u16s n r = Inr (vs, r')" and "rd_offset r \<le> length (rd_bytes r)"
  shows "\<forall>k < n. vs ! k = push_bit 8 (ucast (rd_bytes r ! (rd_offset r + 2 * k)))
                           OR ucast (rd_bytes r ! (rd_offset r + 2 * k + 1))"
  using assms
proof (induction n arbitrary: r vs)
  case (Suc n)
  from Suc.prems(1) obtain v r1 ws where
    hd: "read_u16 r = Some (v, r1)" and tl: "read_u16s n r1 = Inr (ws, r')" and vs: "vs = v # ws"
    by (auto split: option.splits sum.splits prod.splits)
  with u16.rd_Some_bounds [OF hd Suc.prems(2)] Suc.IH [OF tl] read_u16_value [OF hd] show ?case
    by (auto simp: nth_Cons split: nat.split)
qed simp

lemma be16_word:
  "unat (push_bit 8 (ucast (a :: byte)) OR ucast (b :: byte) :: u16) = be16 a b"
proof -
  have "push_bit 8 (ucast a :: u16) OR ucast b = push_bit 8 (ucast a) + ucast b"
    by (rule disjunctive_add_eq_or [symmetric])
      (rule bit_eqI, auto simp: bit_simps dest: bit_imp_le_length)
  moreover have "unat a < 256" "unat b < 256" using unsigned_less [of a] unsigned_less [of b] by simp_all
  ultimately show ?thesis
    by (simp add: be16_def push_bit_eq_mult unat_word_ariths unsigned_ucast_eq take_bit_eq_mod)
qed

lemma decode_flags_on_wire:
  assumes "vs0 = push_bit 8 (ucast (packet ! 0)) OR ucast (packet ! 1)"
    and "vs1 = push_bit 8 (ucast (packet ! 2)) OR ucast (packet ! 3)"
  shows "header_on_wire packet (decode_flags vs0 vs1)"
proof -
  have b: "bit vs1 k \<longleftrightarrow> (if k < 8 then bit (packet ! 3) k else k < 16 \<and> bit (packet ! 2) (k - 8))" for k
    unfolding assms(2) by (auto simp: bit_simps dest: bit_imp_le_length)
  have m: "x AND 0x0f = take_bit 4 x" for x :: u16
    by (simp add: take_bit_eq_mask mask_eq_exp_minus_1)
  have u: "unat (ucast (take_bit 4 x :: u16) :: byte) = unat x mod 16" for x
    by (simp add: unsigned_ucast_eq take_bit_eq_mod unat_mod)
  have v: "unat vs1 = be16 (packet ! 2) (packet ! 3)"
    unfolding assms(2) by (rule be16_word)
  have l: "unat (packet ! 3) < 256" using unsigned_less [of "packet ! 3"] by simp
  have d: "(256 * a + c) div 2048 mod 16 = a div 8 mod 16" if "c < 256" for a c :: nat
  proof -
    have "(256 * a + c) div 2048 = (256 * a + c) div 256 div 8" by (simp add: div_mult2_eq [symmetric])
    with that show ?thesis by simp
  qed
  have e: "(256 * a + c) mod 16 = c mod 16" for a c :: nat
    using mod_mult_self4 [of 16 "16 * a" c] by simp
  have f: "(vs1 AND 2 ^ k \<noteq> 0) = bit vs1 k" for k
    by (simp add: and_exp_eq_0_iff_not_bit)
  show ?thesis
    unfolding header_on_wire_def decode_flags_def
    using f [of 15] f [of 10] f [of 9] f [of 8] f [of 7] f [of 6] f [of 5] f [of 4]
    by (simp add: b m u v be16_def d e l unat_div drop_bit_eq_div assms(1)
        be16_word [unfolded be16_def])
qed

lemma parse_message_fields:
  assumes "parse_message packet lim = Inr m"
  shows "header_on_wire packet (msg_header m)
         \<and> length (questions m) = be16 (packet ! 4) (packet ! 5)
         \<and> length (answers m) = be16 (packet ! 6) (packet ! 7)
         \<and> length (authorities m) = be16 (packet ! 8) (packet ! 9)
         \<and> length (additionals m) = be16 (packet ! 10) (packet ! 11)
         \<and> length (answers m) \<le> maximum_records_per_section lim
         \<and> length (authorities m) \<le> maximum_records_per_section lim
         \<and> length (additionals m) \<le> maximum_records_per_section lim"
proof -
  from assms obtain vs r where rd: "read_u16s 6 (mk_reader packet 0) = Inr (vs, r)"
    by (auto simp: parse_message_def split: sum.splits if_splits)
  then have r: "r = mk_reader packet 12" "12 \<le> length packet"
    using read_u16s_ok [OF rd] by simp_all
  have at: "vs ! k = push_bit 8 (ucast (packet ! (2 * k))) OR ucast (packet ! (2 * k + 1))" if "k < 6" for k
    using read_u16s_values [OF rd] that by simp
  from assms rd r have
    body: "parse_body packet lim (decode_flags (vs ! 0) (vs ! 1)) (unat (vs ! 2)) (unat (vs ! 3))
             (unat (vs ! 4)) (unat (vs ! 5)) 12 = Inr m"
    and g: "unat (vs ! 3) \<le> maximum_records_per_section lim"
      "unat (vs ! 4) \<le> maximum_records_per_section lim"
      "unat (vs ! 5) \<le> maximum_records_per_section lim"
    by (auto simp: parse_message_def Let_def split: if_splits)
  have "header_on_wire packet (decode_flags (vs ! 0) (vs ! 1))"
    by (rule decode_flags_on_wire) (simp_all add: at)
  moreover have "unat (vs ! k) = be16 (packet ! (2 * k)) (packet ! (2 * k + 1))" if "k < 6" for k
    using at [OF that] be16_word by simp
  note this [of 2] this [of 3] this [of 4] this [of 5]
  ultimately show ?thesis using parse_body_ok [OF body r(2)] g by simp
qed

text \<open>
  C26. A message that parses is well formed: every name satisfies the name invariant, every RDATA
  is the slice of the packet it claims to be, A and AAAA records carry 4 and 16 bytes, and the
  wire image is the packet.  The packet, the questions, each of the three record sections and
  their sum are within the limits; the sections have exactly the lengths the 16-bit counts of the
  header announce, and the ID, the opcode, the RCODE and every flag are the bits of the packet.
\<close>

theorem parse_message_sound:
  assumes "parse_message packet lim = Inr m"
  shows "wf_message m \<and> wire_image m = packet
         \<and> kDnsHeaderSize \<le> length packet \<and> length packet \<le> maximum_packet_size lim
         \<and> length (questions m) \<le> maximum_questions lim
         \<and> length (answers m) \<le> maximum_records_per_section lim
         \<and> length (authorities m) \<le> maximum_records_per_section lim
         \<and> length (additionals m) \<le> maximum_records_per_section lim
         \<and> length (answers m) + length (authorities m) + length (additionals m)
             \<le> maximum_total_records lim
         \<and> length (questions m) = be16 (packet ! 4) (packet ! 5)
         \<and> length (answers m) = be16 (packet ! 6) (packet ! 7)
         \<and> length (authorities m) = be16 (packet ! 8) (packet ! 9)
         \<and> length (additionals m) = be16 (packet ! 10) (packet ! 11)
         \<and> header_on_wire packet (msg_header m)
         \<and> unat (hdr_opcode (msg_header m)) < 16 \<and> unat (hdr_response_code (msg_header m)) < 16"
  using parse_message_wf [OF assms] parse_message_fields [OF assms] by simp

end
