(* ===== verification/DnsWriter.thy ===== *)
theory DnsWriter
  imports DnsParser "HOL-Library.Monad_Syntax"
begin

text \<open>
  \<open>src/protocol/DnsWriter.{h,cpp}\<close>: queries, error responses and address responses, each within a
  byte budget.  A chain \<open>!writer.write_u16(..) || ..\<close> of the code is a chain of option binds: the
  first write that does not fit makes the whole chain \<open>None\<close>, which the code turns into
  \<open>MessageTooLarge\<close>.

  The lemmas give every function a closed form (its bytes are a concatenation, and it succeeds
  exactly when they fit), and the theorems show that what is written parses back.
\<close>

section \<open>Definitions\<close>

datatype write_error = WE_MessageTooLarge | WE_TooManyQuestions | WE_TooManyAnswers
  | WE_InvalidOpcode | WE_InvalidResponseCode | WE_InvalidMaximumSize | WE_ExpectedQuery
  | WE_MissingTransactionId | WE_WrongQuestionCount | WE_UnsupportedAddressType
  | WE_InvalidAddressLength | WE_MissingAnswers

type_synonym write_result = "write_error + byte list"

definition flag :: "bool \<Rightarrow> u16 \<Rightarrow> u16" where
  "flag b v = (if b then v else 0)"

definition encode_flags :: "header \<Rightarrow> write_error + u16" where
  "encode_flags h =
     (if hdr_opcode h > 0x0f then Inl WE_InvalidOpcode
      else if hdr_response_code h > 0x0f then Inl WE_InvalidResponseCode
      else Inr (flag (is_response h) 0x8000 OR push_bit 11 (ucast (hdr_opcode h))
                OR flag (authoritative_answer h) 0x0400 OR flag (truncated h) 0x0200
                OR flag (recursion_desired h) 0x0100 OR flag (recursion_available h) 0x0080
                OR flag (reserved_z h) 0x0040 OR flag (authenticated_data h) 0x0020
                OR flag (checking_disabled h) 0x0010 OR ucast (hdr_response_code h)))"

fun write_labels :: "byte list list \<Rightarrow> wire_writer \<Rightarrow> wire_writer option" where
  "write_labels [] w = Some w"
| "write_labels (l # ls) w =
     do { w1 \<leftarrow> write_u8 (of_nat (length l)) w; w2 \<leftarrow> write_bytes l w1; write_labels ls w2 }"

definition write_name :: "domain_name \<Rightarrow> wire_writer \<Rightarrow> wire_writer option" where
  "write_name n w = do { w1 \<leftarrow> write_labels (labels n) w; write_u8 0 w1 }"

definition write_question :: "question \<Rightarrow> wire_writer \<Rightarrow> wire_writer option" where
  "write_question q w =
     do { w1 \<leftarrow> write_name (q_name q) w; w2 \<leftarrow> write_u16 (q_type q) w1; write_u16 (q_class q) w2 }"

fun write_questions :: "question list \<Rightarrow> wire_writer \<Rightarrow> wire_writer option" where
  "write_questions [] w = Some w"
| "write_questions (q # qs) w = do { w1 \<leftarrow> write_question q w; write_questions qs w1 }"

definition write_header :: "u16 \<Rightarrow> u16 \<Rightarrow> u16 \<Rightarrow> u16 \<Rightarrow> wire_writer \<Rightarrow> wire_writer option" where
  "write_header ident flags qd an w =
     do { w1 \<leftarrow> write_u16 ident w; w2 \<leftarrow> write_u16 flags w1; w3 \<leftarrow> write_u16 qd w2;
          w4 \<leftarrow> write_u16 an w3; w5 \<leftarrow> write_u16 0 w4; write_u16 0 w5 }"

definition finish_write :: "wire_writer option \<Rightarrow> write_result" where
  "finish_write r = (case r of None \<Rightarrow> Inl WE_MessageTooLarge | Some w \<Rightarrow> Inr (wr_bytes w))"

definition write_question_message :: "header \<Rightarrow> question list \<Rightarrow> nat \<Rightarrow> write_result" where
  "write_question_message h qs maximum_size =
     (if maximum_size > 65535 then Inl WE_InvalidMaximumSize
      else if length qs > 65535 then Inl WE_TooManyQuestions
      else (case encode_flags h of
              Inl e \<Rightarrow> Inl e
            | Inr flags \<Rightarrow>
                finish_write (do { w1 \<leftarrow> write_header (hdr_id h) flags (of_nat (length qs)) 0
                                           (mk_writer maximum_size);
                                   write_questions qs w1 })))"

definition write_answer :: "question \<Rightarrow> u32 \<Rightarrow> byte list \<Rightarrow> wire_writer \<Rightarrow> wire_writer option" where
  "write_answer q ttl addr w =
     do { w1 \<leftarrow> write_u16 0xc00c w; w2 \<leftarrow> write_u16 (q_type q) w1; w3 \<leftarrow> write_u16 (q_class q) w2;
          w4 \<leftarrow> write_u32 ttl w3; w5 \<leftarrow> write_u16 (of_nat (length addr)) w4; write_bytes addr w5 }"

fun write_answers :: "question \<Rightarrow> u32 \<Rightarrow> byte list list \<Rightarrow> wire_writer \<Rightarrow> wire_writer option" where
  "write_answers q ttl [] w = Some w"
| "write_answers q ttl (a # as) w = do { w1 \<leftarrow> write_answer q ttl a w; write_answers q ttl as w1 }"

definition address_size :: "u16 \<Rightarrow> nat option" where
  "address_size ty =
     (if ty = type_code RT_A then Some 4 else if ty = type_code RT_AAAA then Some 16 else None)"

definition write_address_message ::
  "header \<Rightarrow> question \<Rightarrow> byte list list \<Rightarrow> u32 \<Rightarrow> nat \<Rightarrow> write_result" where
  "write_address_message h q addrs ttl maximum_size =
     (if maximum_size > 65535 then Inl WE_InvalidMaximumSize
      else if addrs = [] then Inl WE_MissingAnswers
      else if length addrs > 65535 then Inl WE_TooManyAnswers
      else (case address_size (q_type q) of
              None \<Rightarrow> Inl WE_UnsupportedAddressType
            | Some expected_size \<Rightarrow>
                if \<exists>a \<in> set addrs. length a \<noteq> expected_size then Inl WE_InvalidAddressLength
                else (case encode_flags h of
                        Inl e \<Rightarrow> Inl e
                      | Inr flags \<Rightarrow>
                          finish_write
                            (do { w1 \<leftarrow> write_header (hdr_id h) flags 1 (of_nat (length addrs))
                                          (mk_writer maximum_size);
                                  w2 \<leftarrow> write_question q w1;
                                  write_answers q ttl addrs w2 }))))"

definition serialize_query :: "header \<Rightarrow> question list \<Rightarrow> nat \<Rightarrow> write_result" where
  "serialize_query h qs maximum_size =
     (if is_response h then Inl WE_ExpectedQuery
      else write_question_message
             (h\<lparr>authoritative_answer := False, truncated := False, recursion_available := False,
                hdr_response_code := rcode_value NoError\<rparr>) qs maximum_size)"

definition rewrite_transaction_id :: "byte list \<Rightarrow> u16 \<Rightarrow> write_result" where
  "rewrite_transaction_id packet ident =
     (if length packet < 2 then Inl WE_MissingTransactionId
      else Inr (packet[0 := byte_of 8 ident, 1 := byte_of 0 ident]))"

definition response_header :: "header \<Rightarrow> byte \<Rightarrow> bool \<Rightarrow> header" where
  "response_header req rcode ra =
     default_header\<lparr>hdr_id := hdr_id req, is_response := True, hdr_opcode := hdr_opcode req,
       recursion_desired := recursion_desired req, recursion_available := ra,
       checking_disabled := checking_disabled req, hdr_response_code := rcode\<rparr>"

definition make_error_response :: "message \<Rightarrow> response_code \<Rightarrow> bool \<Rightarrow> nat \<Rightarrow> write_result" where
  "make_error_response request rc ra maximum_size =
     (if is_response (msg_header request) then Inl WE_ExpectedQuery
      else let h = response_header (msg_header request) (rcode_value rc) ra in
        (case write_question_message h (questions request) maximum_size of
           Inl WE_MessageTooLarge \<Rightarrow> write_question_message h [] maximum_size
         | r \<Rightarrow> r))"

definition make_header_only_error_response ::
  "byte list \<Rightarrow> response_code \<Rightarrow> bool \<Rightarrow> nat \<Rightarrow> write_result" where
  "make_header_only_error_response request_prefix rc ra maximum_size =
     (if length request_prefix < 2 then Inl WE_MissingTransactionId
      else let h0 = default_header
                 \<lparr>hdr_id := push_bit 8 (ucast (request_prefix ! 0)) OR ucast (request_prefix ! 1),
                  is_response := True, recursion_available := ra,
                  hdr_response_code := rcode_value rc\<rparr>
           in if length request_prefix \<ge> 3 \<and> request_prefix ! 2 AND 0x80 \<noteq> 0
              then Inl WE_ExpectedQuery
              else let h1 = (if length request_prefix \<ge> 3
                             then h0\<lparr>hdr_opcode := drop_bit 3 (request_prefix ! 2) AND 0x0f,
                                     recursion_desired := (request_prefix ! 2 AND 0x01 \<noteq> 0)\<rparr>
                             else h0);
                       h2 = (if length request_prefix \<ge> 4
                             then h1\<lparr>checking_disabled := (request_prefix ! 3 AND 0x10 \<noteq> 0)\<rparr>
                             else h1)
                   in write_question_message h2 [] maximum_size)"

definition make_format_error_response :: "byte list \<Rightarrow> bool \<Rightarrow> nat \<Rightarrow> write_result" where
  "make_format_error_response malformed_request ra maximum_size =
     make_header_only_error_response malformed_request FormErr ra maximum_size"

definition make_address_response ::
  "message \<Rightarrow> byte list list \<Rightarrow> u32 \<Rightarrow> bool \<Rightarrow> nat \<Rightarrow> write_result" where
  "make_address_response request addrs ttl ra maximum_size =
     (if is_response (msg_header request) then Inl WE_ExpectedQuery
      else (case questions request of
              [q] \<Rightarrow> write_address_message
                       (response_header (msg_header request) (rcode_value NoError) ra)
                       q addrs ttl maximum_size
            | _ \<Rightarrow> Inl WE_WrongQuestionCount))"

section \<open>Closed forms\<close>

lemma write_bytes_bind:
  "Option.bind (write_bytes a w) (\<lambda>w1. Option.bind (write_bytes b w1) f)
     = Option.bind (write_bytes (a @ b) w) f"
  by (cases "write_bytes a w"; cases "write_bytes (a @ b) w")
    (auto simp: write_bytes_def can_append_def split: if_splits)

lemma write_bytes_bind':
  "Option.bind (write_bytes a w) (write_bytes b) = write_bytes (a @ b) w"
  using write_bytes_bind [of a w b Some] by simp

lemma write_bytes_Nil: "length (wr_bytes w) \<le> wr_maximum_size w \<Longrightarrow> write_bytes [] w = Some w"
  by (simp add: write_bytes_def can_append_def)

lemmas write_chain = write_eqs write_bytes_bind write_bytes_bind'

lemma write_labels_eq:
  "length (wr_bytes w) \<le> wr_maximum_size w \<Longrightarrow> write_labels ls w = write_bytes (wire_labels ls) w"
proof (induction ls arbitrary: w)
  case Nil
  then show ?case by (simp add: wire_labels_def write_bytes_Nil)
next
  case (Cons l ls)
  have "write_labels (l # ls) w =
      Option.bind (write_bytes (of_nat (length l) # l) w) (write_labels ls)"
    by (simp add: write_chain)
  also have "\<dots> = Option.bind (write_bytes (of_nat (length l) # l) w) (write_bytes (wire_labels ls))"
    by (rule Option.bind_cong) (auto simp: write_bytes_Some_iff intro!: Cons.IH)
  finally show ?case
    by (simp add: write_bytes_bind' wire_labels_def)
qed

lemma write_name_eq:
  "length (wr_bytes w) \<le> wr_maximum_size w \<Longrightarrow>
     write_name n w = write_bytes (wire_name (labels n)) w"
  by (simp add: write_name_def write_labels_eq write_chain wire_name_def)

definition wire_question :: "question \<Rightarrow> byte list" where
  "wire_question q = wire_name (labels (q_name q)) @ enc_u16 (q_type q) @ enc_u16 (q_class q)"

definition wire_header :: "u16 \<Rightarrow> u16 \<Rightarrow> u16 \<Rightarrow> u16 \<Rightarrow> byte list" where
  "wire_header ident flags qd an =
     enc_u16 ident @ enc_u16 flags @ enc_u16 qd @ enc_u16 an @ enc_u16 0 @ enc_u16 0"

definition wire_answer :: "question \<Rightarrow> u32 \<Rightarrow> byte list \<Rightarrow> byte list" where
  "wire_answer q ttl a =
     [0xc0, 0x0c] @ enc_u16 (q_type q) @ enc_u16 (q_class q) @ enc_u32 ttl
       @ enc_u16 (of_nat (length a)) @ a"

lemma write_question_eq:
  "length (wr_bytes w) \<le> wr_maximum_size w \<Longrightarrow> write_question q w = write_bytes (wire_question q) w"
  by (simp add: write_question_def write_name_eq write_chain wire_question_def)

lemma write_header_eq:
  "write_header i f qd an w = write_bytes (wire_header i f qd an) w"
  by (simp add: write_header_def write_chain wire_header_def)

lemma enc_pointer: "enc_u16 0xc00c = [0xc0, 0x0c]"
  by (simp add: enc_u16_def byte_of_def)

lemma write_answer_eq:
  "write_answer q ttl a w = write_bytes (wire_answer q ttl a) w"
  by (simp add: write_answer_def write_chain wire_answer_def enc_pointer)

text \<open>Loops of writes are one write of the concatenation.\<close>

lemma write_loop_eq:
  assumes "\<And>x w. length (wr_bytes w) \<le> wr_maximum_size w \<Longrightarrow> f x w = write_bytes (g x) w"
    and "\<And>w. F [] w = Some w"
    and "\<And>x xs w. F (x # xs) w = Option.bind (f x w) (F xs)"
    and "length (wr_bytes w) \<le> wr_maximum_size w"
  shows "F xs w = write_bytes (concat (map g xs)) w"
  using assms(4)
proof (induction xs arbitrary: w)
  case (Cons x xs)
  have "F (x # xs) w = Option.bind (write_bytes (g x) w) (F xs)"
    using Cons.prems by (simp add: assms(1,3))
  also have "\<dots> = Option.bind (write_bytes (g x) w) (write_bytes (concat (map g xs)))"
    by (rule Option.bind_cong) (auto simp: write_bytes_Some_iff intro!: Cons.IH)
  finally show ?case by (simp add: write_bytes_bind')
qed (simp add: assms(2) write_bytes_Nil)

lemma write_questions_eq:
  "length (wr_bytes w) \<le> wr_maximum_size w \<Longrightarrow>
     write_questions qs w = write_bytes (concat (map wire_question qs)) w"
  by (rule write_loop_eq [where f = write_question]) (simp_all add: write_question_eq)

lemma write_answers_eq:
  "length (wr_bytes w) \<le> wr_maximum_size w \<Longrightarrow>
     write_answers q ttl as w = write_bytes (concat (map (wire_answer q ttl) as)) w"
  by (rule write_loop_eq [where f = "write_answer q ttl"]) (simp_all add: write_answer_eq)

lemma finish_write_bytes:
  "finish_write (write_bytes bs (mk_writer m)) =
     (if length bs \<le> m then Inr bs else Inl WE_MessageTooLarge)"
  by (simp add: finish_write_def write_bytes_def can_append_def mk_writer_def)

lemma bind_write_header:
  assumes "\<And>w. length (wr_bytes w) \<le> wr_maximum_size w \<Longrightarrow> F w = write_bytes b w"
  shows "Option.bind (write_bytes a w) F = write_bytes (a @ b) w"
proof -
  have "Option.bind (write_bytes a w) F = Option.bind (write_bytes a w) (write_bytes b)"
    by (rule Option.bind_cong) (auto simp: write_bytes_Some_iff intro!: assms)
  then show ?thesis by (simp add: write_bytes_bind')
qed

definition question_message :: "u16 \<Rightarrow> u16 \<Rightarrow> question list \<Rightarrow> byte list" where
  "question_message ident flags qs =
     wire_header ident flags (of_nat (length qs)) 0 @ concat (map wire_question qs)"

definition address_message :: "u16 \<Rightarrow> u16 \<Rightarrow> question \<Rightarrow> u32 \<Rightarrow> byte list list \<Rightarrow> byte list" where
  "address_message ident flags q ttl as =
     wire_header ident flags 1 (of_nat (length as)) @ wire_question q
       @ concat (map (wire_answer q ttl) as)"

lemma write_question_message_eq:
  "write_question_message h qs m =
     (if m > 65535 then Inl WE_InvalidMaximumSize
      else if length qs > 65535 then Inl WE_TooManyQuestions
      else case encode_flags h of Inl e \<Rightarrow> Inl e
           | Inr flags \<Rightarrow>
               if length (question_message (hdr_id h) flags qs) \<le> m
               then Inr (question_message (hdr_id h) flags qs) else Inl WE_MessageTooLarge)"
  by (simp add: write_question_message_def write_header_eq question_message_def
      bind_write_header [OF write_questions_eq] finish_write_bytes split: sum.split)

lemma bind_cong_write:
  "(\<And>w'. write_bytes a w = Some w' \<Longrightarrow> F w' = G w') \<Longrightarrow>
   Option.bind (write_bytes a w) F = Option.bind (write_bytes a w) G"
  by (rule Option.bind_cong) auto

lemma write_address_message_eq:
  "write_address_message h q as ttl m =
     (if m > 65535 then Inl WE_InvalidMaximumSize
      else if as = [] then Inl WE_MissingAnswers
      else if length as > 65535 then Inl WE_TooManyAnswers
      else case address_size (q_type q) of None \<Rightarrow> Inl WE_UnsupportedAddressType
        | Some n \<Rightarrow>
            if \<exists>a \<in> set as. length a \<noteq> n then Inl WE_InvalidAddressLength
            else case encode_flags h of Inl e \<Rightarrow> Inl e
              | Inr flags \<Rightarrow>
                  if length (address_message (hdr_id h) flags q ttl as) \<le> m
                  then Inr (address_message (hdr_id h) flags q ttl as) else Inl WE_MessageTooLarge)"
proof -
  have body: "Option.bind (write_question q w) (write_answers q ttl as)
      = write_bytes (wire_question q @ concat (map (wire_answer q ttl) as)) w"
    if "length (wr_bytes w) \<le> wr_maximum_size w" for w
    using that by (simp add: write_question_eq bind_write_header [OF write_answers_eq])
  show ?thesis
    by (simp add: write_address_message_def write_header_eq address_message_def
        bind_write_header [OF body] finish_write_bytes split: sum.split option.split)
qed

section \<open>Flags\<close>

lemma bit_flag: "bit (flag b v) n \<longleftrightarrow> b \<and> bit v n"
  by (simp add: flag_def)

lemma small_bits:
  assumes "(x :: byte) \<le> 0x0f" shows "bit x n \<Longrightarrow> n < 4"
proof -
  have "x = take_bit 4 x"
    using assms by (simp add: word_unat_eq_iff take_bit_eq_mod unat_mod word_le_nat_alt)
  then show "bit x n \<Longrightarrow> n < 4"
    by (metis bit_take_bit_iff)
qed

lemma flag_tests:
  "(w :: u16) AND 0x8000 \<noteq> 0 \<longleftrightarrow> bit w 15" "w AND 0x0400 \<noteq> 0 \<longleftrightarrow> bit w 10"
  "w AND 0x0200 \<noteq> 0 \<longleftrightarrow> bit w 9" "w AND 0x0100 \<noteq> 0 \<longleftrightarrow> bit w 8"
  "w AND 0x0080 \<noteq> 0 \<longleftrightarrow> bit w 7" "w AND 0x0040 \<noteq> 0 \<longleftrightarrow> bit w 6"
  "w AND 0x0020 \<noteq> 0 \<longleftrightarrow> bit w 5" "w AND 0x0010 \<noteq> 0 \<longleftrightarrow> bit w 4"
  using and_exp_eq_0_iff_not_bit [of w 15] and_exp_eq_0_iff_not_bit [of w 10]
    and_exp_eq_0_iff_not_bit [of w 9] and_exp_eq_0_iff_not_bit [of w 8]
    and_exp_eq_0_iff_not_bit [of w 7] and_exp_eq_0_iff_not_bit [of w 6]
    and_exp_eq_0_iff_not_bit [of w 5] and_exp_eq_0_iff_not_bit [of w 4]
  by simp_all

lemma bit_nibble: "bit (0x0f :: u16) n \<longleftrightarrow> n < 4"
proof -
  have "(0x0f :: u16) = mask 4" by (simp add: mask_eq_exp_minus_1)
  then have "bit (0x0f :: u16) n \<longleftrightarrow> bit (mask 4 :: u16) n" by (rule arg_cong)
  then show ?thesis by (simp only: bit_mask_iff) auto
qed

definition flag_bits :: "header \<Rightarrow> u16" where
  "flag_bits h = flag (is_response h) 0x8000 OR push_bit 11 (ucast (hdr_opcode h))
                OR flag (authoritative_answer h) 0x0400 OR flag (truncated h) 0x0200
                OR flag (recursion_desired h) 0x0100 OR flag (recursion_available h) 0x0080
                OR flag (reserved_z h) 0x0040 OR flag (authenticated_data h) 0x0020
                OR flag (checking_disabled h) 0x0010 OR ucast (hdr_response_code h)"

lemma less4_cases: "n < 4 \<Longrightarrow> n = 0 \<or> n = 1 \<or> n = 2 \<or> n = (3 :: nat)"
  by arith

lemma decode_flag_bits:
  assumes "hdr_opcode h \<le> 0x0f" and "hdr_response_code h \<le> 0x0f"
  shows "decode_flags (hdr_id h) (flag_bits h) = h"
proof -
  note o = small_bits [OF assms(1)] and r = small_bits [OF assms(2)]
  have hi: "\<not> bit (hdr_response_code h) n" "\<not> bit (hdr_opcode h) n" if "4 \<le> n" for n
    using o [of n] r [of n] that by auto
  note bits = flag_bits_def bit_or_iff bit_flag bit_push_bit_iff bit_ucast_iff hi
  have "ucast (drop_bit 11 (flag_bits h) AND 0x0f) = hdr_opcode h"
  proof (rule bit_word_eqI)
    fix n assume "n < LENGTH(8)"
    show "bit (ucast (drop_bit 11 (flag_bits h) AND 0x0f) :: byte) n = bit (hdr_opcode h) n"
    proof (cases "n < 4")
      case True
      then show ?thesis using less4_cases [OF True]
        by (auto simp: bits bit_nibble bit_and_iff bit_drop_bit_eq)
    next
      case False
      then show ?thesis
        unfolding bit_ucast_iff bit_and_iff bit_nibble by (simp add: hi)
    qed
  qed
  moreover have "ucast (flag_bits h AND 0x000f) = hdr_response_code h"
  proof (rule bit_word_eqI)
    fix n assume "n < LENGTH(8)"
    show "bit (ucast (flag_bits h AND 0x000f) :: byte) n = bit (hdr_response_code h) n"
    proof (cases "n < 4")
      case True
      then show ?thesis using less4_cases [OF True]
        by (auto simp: bits bit_nibble bit_and_iff)
    next
      case False
      then show ?thesis
        unfolding bit_ucast_iff bit_and_iff bit_nibble by (simp add: hi)
    qed
  qed
  ultimately show ?thesis
    unfolding decode_flags_def flag_tests by (intro header.equality) (simp_all add: bits)
qed

lemma encode_flags_eq:
  "encode_flags h =
     (if hdr_opcode h > 0x0f then Inl WE_InvalidOpcode
      else if hdr_response_code h > 0x0f then Inl WE_InvalidResponseCode else Inr (flag_bits h))"
  by (simp add: encode_flags_def flag_bits_def)

lemma encode_flags_Inr_iff:
  "encode_flags h = Inr f \<longleftrightarrow> hdr_opcode h \<le> 0x0f \<and> hdr_response_code h \<le> 0x0f \<and> f = flag_bits h"
  by (auto simp: encode_flags_eq not_less)

lemma encode_flags_decode:
  "encode_flags h = Inr f \<Longrightarrow> decode_flags (hdr_id h) f = h"
  by (simp add: encode_flags_Inr_iff decode_flag_bits)

section \<open>Reading written messages back\<close>

lemma length_wire_question [simp]:
  "length (wire_question q) = labels_wire_size (labels (q_name q)) + 4"
  by (simp add: wire_question_def)

lemma length_wire_header [simp]: "length (wire_header i f qd an) = 12"
  by (simp add: wire_header_def)

lemma wf_question_name_of:
  "wf_question q \<Longrightarrow> q_name q = name_of (labels (q_name q)) \<and> valid_labels (labels (q_name q))"
  by (auto simp: wf_question_def wf_name_def)

lemma parse_question_wire:
  assumes "wf_question q"
  shows "parse_question (pre @ wire_question q @ suf) lim (length pre)
           = Inr (q, length pre + length (wire_question q))"
proof -
  let ?ls = "labels (q_name q)"
  let ?p = "pre @ wire_question q @ suf"
  note q = wf_question_name_of [OF assms]
  have p0: "?p = pre @ wire_name ?ls @ (enc_u16 (q_type q) @ enc_u16 (q_class q) @ suf)"
    by (simp add: wire_question_def)
  have p1: "?p = (pre @ wire_name ?ls) @ enc_u16 (q_type q) @ (enc_u16 (q_class q) @ suf)"
    by (simp add: wire_question_def)
  have p2: "?p = (pre @ wire_name ?ls @ enc_u16 (q_type q)) @ enc_u16 (q_class q) @ suf"
    by (simp add: wire_question_def)
  have name: "decode_name ?p (length pre) (length ?p) lim
      = Inr (q_name q, length pre + labels_wire_size ?ls)"
    unfolding p0 using q decode_name_wire [of ?ls pre] by simp
  have r1: "read_u16 (mk_reader ?p (length pre + labels_wire_size ?ls)) =
      Some (q_type q, mk_reader ?p (length pre + labels_wire_size ?ls + 2))"
    unfolding p1
    using u16.rd_enc [of "pre @ wire_name ?ls" "q_type q" "enc_u16 (q_class q) @ suf"] by simp
  have r2: "read_u16 (mk_reader ?p (length pre + labels_wire_size ?ls + 2)) =
      Some (q_class q, mk_reader ?p (length pre + labels_wire_size ?ls + 4))"
    unfolding p2
    using u16.rd_enc [of "pre @ wire_name ?ls @ enc_u16 (q_type q)" "q_class q" suf]
    by (simp add: add.assoc)
  show ?thesis
    unfolding parse_question_def name using r1 r2 by (simp add: Let_def)
qed

lemma parse_section_wire:
  assumes "\<And>x pre suf. x \<in> set xs \<Longrightarrow> Q (length pre) \<Longrightarrow> packet = pre @ enc x @ suf \<Longrightarrow>
      p (length pre) = Inr (dec (length pre) x, length pre + length (enc x)) \<and> Q (length pre + length (enc x))"
    and "packet = pre @ concat (map enc xs) @ suf" and "Q (length pre)"
  shows "\<exists>ys. parse_section (length xs) p (length pre) = Inr (ys, length pre + length (concat (map enc xs)))
           \<and> list_all2 (\<lambda>x y. \<exists>i. y = dec i x) xs ys"
  using assms
proof (induction xs arbitrary: pre)
  case (Cons x xs)
  let ?pre = "pre @ enc x"
  have "packet = pre @ enc x @ (concat (map enc xs) @ suf)" using Cons.prems(2) by simp
  from Cons.prems(1) [OF _ Cons.prems(3) this] have
    hd: "p (length pre) = Inr (dec (length pre) x, length ?pre)" and q: "Q (length ?pre)" by auto
  have pk: "packet = ?pre @ concat (map enc xs) @ suf" using Cons.prems(2) by simp
  have "\<exists>ys. parse_section (length xs) p (length ?pre)
           = Inr (ys, length ?pre + length (concat (map enc xs)))
         \<and> list_all2 (\<lambda>x y. \<exists>i. y = dec i x) xs ys"
    by (rule Cons.IH [OF _ pk q]) (use Cons.prems(1) in auto)
  with hd show ?case by (force simp: add.assoc)
qed simp

lemma read_u16s_wire:
  "read_u16s (length vs) (mk_reader (pre @ concat (map enc_u16 vs) @ suf) (length pre)) =
     Inr (vs, mk_reader (pre @ concat (map enc_u16 vs) @ suf) (length pre + 2 * length vs))"
proof (induction vs arbitrary: pre)
  case (Cons v vs)
  have "read_u16 (mk_reader (pre @ enc_u16 v @ concat (map enc_u16 vs) @ suf) (length pre)) =
     Some (v, mk_reader (pre @ enc_u16 v @ concat (map enc_u16 vs) @ suf) (length pre + 2))"
    by (rule u16.rd_enc)
  with Cons.IH [of "pre @ enc_u16 v"] show ?case by simp
qed simp

lemma read_wire_header:
  "read_u16s 6 (mk_reader (wire_header i f qd an @ suf) 0) =
     Inr ([i, f, qd, an, 0, 0], mk_reader (wire_header i f qd an @ suf) 12)"
  using read_u16s_wire [of "[i, f, qd, an, 0, 0]" "[]" suf]
  by (simp add: wire_header_def eval_nat_numeral)

text \<open>A message whose header is written by \<open>write_header\<close> is parsed section by section.\<close>

lemma parse_message_wire_header:
  assumes "length (wire_header i f qd an @ body) \<le> maximum_packet_size lim"
    and "unat qd \<le> maximum_questions lim" and "unat an \<le> maximum_records_per_section lim"
    and "unat an \<le> maximum_total_records lim"
  shows "parse_message (wire_header i f qd an @ body) lim =
           parse_body (wire_header i f qd an @ body) lim (decode_flags i f) (unat qd) (unat an) 0 0 12"
  using assms unfolding parse_message_def read_wire_header by (simp add: Let_def)

lemma list_all2_same: "list_all2 (\<lambda>x y. y = x) xs ys \<Longrightarrow> ys = xs"
  by (simp add: list_all2_conv_all_nth list_eq_iff_nth_eq)

lemma parse_questions_wire:
  assumes "\<forall>q \<in> set qs. wf_question q" and "packet = pre @ concat (map wire_question qs) @ suf"
  shows "parse_section (length qs) (parse_question packet lim) (length pre) =
           Inr (qs, length pre + length (concat (map wire_question qs)))"
proof -
  have "\<exists>ys. parse_section (length qs) (parse_question packet lim) (length pre)
          = Inr (ys, length pre + length (concat (map wire_question qs)))
        \<and> list_all2 (\<lambda>x y. \<exists>i :: nat. y = x) qs ys"
    by (rule parse_section_wire [where Q = "\<lambda>_. True" and dec = "\<lambda>i x. x", OF _ assms(2)])
      (use assms(1) parse_question_wire in auto)
  then show ?thesis by (auto dest: list_all2_same)
qed

lemma parse_question_message:
  assumes "\<forall>q \<in> set qs. wf_question q" and "length qs \<le> 65535"
    and "length qs \<le> maximum_questions lim"
    and "length (question_message i f qs) \<le> maximum_packet_size lim"
  shows "parse_message (question_message i f qs) lim =
           Inr \<lparr>msg_header = decode_flags i f, questions = qs, answers = [], authorities = [],
                additionals = [], wire_image = question_message i f qs\<rparr>"
proof -
  let ?p = "question_message i f qs"
  have "parse_message ?p lim = parse_body ?p lim (decode_flags i f) (length qs) 0 0 0 12"
    using assms(2-4) parse_message_wire_header [of i f "of_nat (length qs)" 0 _ lim]
    by (simp add: question_message_def unat_of_nat_u16)
  also have "parse_section (length qs) (parse_question ?p lim) 12 = Inr (qs, length ?p)"
    using parse_questions_wire [OF assms(1), of ?p "wire_header i f (of_nat (length qs)) 0" "[]" lim]
    by (simp add: question_message_def)
  then have "parse_body ?p lim (decode_flags i f) (length qs) 0 0 0 12 =
      Inr \<lparr>msg_header = decode_flags i f, questions = qs, answers = [], authorities = [],
                additionals = [], wire_image = ?p\<rparr>"
    by (simp add: parse_body_def)
  finally show ?thesis .
qed

text \<open>The record \<open>write_answer\<close> writes, as the parser sees it at offset \<open>i\<close>.\<close>

definition address_record :: "question \<Rightarrow> u32 \<Rightarrow> nat \<Rightarrow> byte list \<Rightarrow> resource_record" where
  "address_record q ttl i a =
     \<lparr>rr_name = q_name q, rr_type = q_type q, rr_class = q_class q, rr_ttl = ttl,
      rdata_offset = i + 12, rdata = a\<rparr>"

lemma length_wire_answer [simp]: "length (wire_answer q ttl a) = 12 + length a"
  by (simp add: wire_answer_def)

lemma parse_answer_wire:
  assumes pk: "packet = pre @ wire_answer q ttl a @ suf"
    and name: "decode_name packet (length pre) (length packet) lim = Inr (q_name q, length pre + 2)"
    and size: "address_size (q_type q) = Some (length a)"
  shows "parse_resource_record packet lim (length pre) =
           Inr (address_record q ttl (length pre) a, length pre + length (wire_answer q ttl a))"
proof -
  let ?b = "pre @ [0xc0, 0x0c]"
  let ?n = "of_nat (length a) :: u16"
  have n: "unat ?n = length a"
    using size by (auto simp: address_size_def split: if_splits)
  have rd: "validate_rdata packet lim (q_type q) (length a) x y = Inr ()" for x y
    using size by (auto simp: validate_rdata_def address_size_def split: if_splits)
  have r0: "read_u16 (mk_reader packet (length pre + 2)) = Some (q_type q, mk_reader packet (length pre + 4))"
    using u16.rd_enc [of ?b "q_type q"
        "enc_u16 (q_class q) @ enc_u32 ttl @ enc_u16 ?n @ a @ suf"]
    by (simp add: pk wire_answer_def)
  have r1: "read_u16 (mk_reader packet (length pre + 4)) = Some (q_class q, mk_reader packet (length pre + 6))"
    using u16.rd_enc [of "?b @ enc_u16 (q_type q)" "q_class q" "enc_u32 ttl @ enc_u16 ?n @ a @ suf"]
    by (simp add: pk wire_answer_def)
  have r2: "read_u32 (mk_reader packet (length pre + 6)) = Some (ttl, mk_reader packet (length pre + 10))"
    using u32.rd_enc [of "?b @ enc_u16 (q_type q) @ enc_u16 (q_class q)" ttl "enc_u16 ?n @ a @ suf"]
    by (simp add: pk wire_answer_def)
  have r3: "read_u16 (mk_reader packet (length pre + 10)) = Some (?n, mk_reader packet (length pre + 12))"
    using u16.rd_enc [of "?b @ enc_u16 (q_type q) @ enc_u16 (q_class q) @ enc_u32 ttl" ?n "a @ suf"]
    by (simp add: pk wire_answer_def)
  have r4: "read_bytes (length a) (mk_reader packet (length pre + 12))
      = Some (a, mk_reader packet (length pre + 12 + length a))"
    using read_bytes_enc [of "length a" a
        "?b @ enc_u16 (q_type q) @ enc_u16 (q_class q) @ enc_u32 ttl @ enc_u16 ?n" suf]
    by (simp add: pk wire_answer_def)
  show ?thesis
    unfolding parse_resource_record_def name
    using r0 r1 r2 r3 r4 rd by (simp add: Let_def n address_record_def)
qed

lemma parse_address_message:
  assumes "wf_question q" and "length as \<le> 65535"
    and size: "\<forall>a \<in> set as. address_size (q_type q) = Some (length a)"
    and "1 \<le> maximum_questions lim" and "length as \<le> maximum_records_per_section lim"
    and "length as \<le> maximum_total_records lim" and ptrs: "0 < maximum_compression_pointers lim"
    and "length (address_message i f q ttl as) \<le> maximum_packet_size lim"
  shows "\<exists>rs. parse_message (address_message i f q ttl as) lim =
           Inr \<lparr>msg_header = decode_flags i f, questions = [q], answers = rs, authorities = [],
                additionals = [], wire_image = address_message i f q ttl as\<rparr>
         \<and> list_all2 (\<lambda>a r. \<exists>k. r = address_record q ttl k a) as rs"
proof -
  let ?p = "address_message i f q ttl as"
  let ?h = "wire_header i f 1 (of_nat (length as))"
  let ?ls = "labels (q_name q)"
  let ?off = "12 + length (wire_question q)"
  note q = wf_question_name_of [OF assms(1)]
  have p1: "?p = ?h @ wire_question q @ concat (map (wire_answer q ttl) as)"
    by (simp add: address_message_def)
  have p2: "?p = (?h @ wire_question q) @ concat (map (wire_answer q ttl) as) @ []"
    by (simp add: address_message_def)
  have p3: "?p = ?h @ wire_name ?ls @
      (enc_u16 (q_type q) @ enc_u16 (q_class q) @ concat (map (wire_answer q ttl) as))"
    by (simp add: address_message_def wire_question_def)
  have "parse_message ?p lim = parse_body ?p lim (decode_flags i f) 1 (length as) 0 0 12"
    using assms(2,4,5,6,8) parse_message_wire_header [of i f 1 "of_nat (length as)" _ lim]
    by (simp add: address_message_def unat_of_nat_u16)
  moreover have "parse_question ?p lim 12 = Inr (q, ?off)"
    using parse_question_wire [OF assms(1), of ?h "concat (map (wire_answer q ttl) as)" lim]
    unfolding p1 by simp
  then have "parse_section 1 (parse_question ?p lim) 12 = Inr ([q], ?off)"
    by simp
  moreover have "parse_resource_record ?p lim (length pre)
        = Inr (address_record q ttl (length pre) a, length pre + length (wire_answer q ttl a))
      \<and> 12 < length pre + length (wire_answer q ttl a)"
    if a: "a \<in> set as" and pre: "12 < length pre" and pk: "?p = pre @ wire_answer q ttl a @ suf"
    for a pre suf
  proof -
    have "?p ! length pre = 0xc0" "?p ! (length pre + 1) = 0x0c" "length pre + 1 < length ?p"
      unfolding pk by (simp_all add: wire_answer_def nth_append)
    then have "decode_name ?p (length pre) (length ?p) lim = Inr (q_name q, length pre + 2)"
      using decode_name_pointer [OF p3 _ conjunct2 [OF q], of "length pre" lim] q pre ptrs
      by (simp add: kDnsHeaderSize_def)
    with parse_answer_wire [OF pk this] size a pre show ?thesis by auto
  qed
  then have "\<exists>rs. parse_section (length as) (parse_resource_record ?p lim)
          (length (?h @ wire_question q))
        = Inr (rs, length (?h @ wire_question q) + length (concat (map (wire_answer q ttl) as)))
      \<and> list_all2 (\<lambda>a r. \<exists>k. r = address_record q ttl k a) as rs"
    by (intro parse_section_wire [where Q = "\<lambda>k. 12 < k", OF _ p2]) auto
  moreover have "length ?p = ?off + length (concat (map (wire_answer q ttl) as))"
    by (simp add: address_message_def)
  ultimately show ?thesis
    by (auto simp: parse_body_def)
qed

section \<open>Budgets\<close>

lemma write_question_message_Inr_iff:
  "write_question_message h qs m = Inr bs \<longleftrightarrow>
     m \<le> 65535 \<and> length qs \<le> 65535 \<and> hdr_opcode h \<le> 0x0f \<and> hdr_response_code h \<le> 0x0f
     \<and> bs = question_message (hdr_id h) (flag_bits h) qs \<and> length bs \<le> m"
  unfolding write_question_message_eq encode_flags_eq by (auto simp: not_less)

lemma write_question_message_size: "write_question_message h qs m = Inr bs \<Longrightarrow> length bs \<le> m"
  unfolding write_question_message_Inr_iff by blast

lemma length_question_message_Nil [simp]: "length (question_message i f []) = 12"
  by (simp add: question_message_def)

lemma rcode_value_small [simp]: "rcode_value rc \<le> 0x0f"
  by (cases rc) simp_all

lemma response_header_simps [simp]:
  "hdr_id (response_header h rc ra) = hdr_id h" "is_response (response_header h rc ra)"
  "hdr_opcode (response_header h rc ra) = hdr_opcode h"
  "hdr_response_code (response_header h rc ra) = rc"
  "recursion_desired (response_header h rc ra) = recursion_desired h"
  "recursion_available (response_header h rc ra) = ra"
  "checking_disabled (response_header h rc ra) = checking_disabled h"
  "\<not> authenticated_data (response_header h rc ra)" "\<not> truncated (response_header h rc ra)"
  "\<not> authoritative_answer (response_header h rc ra)" "\<not> reserved_z (response_header h rc ra)"
  by (simp_all add: response_header_def default_header_def)

lemma write_question_message_parses:
  assumes "write_question_message h qs m = Inr bs" and "\<forall>q \<in> set qs. wf_question q"
    and "length qs \<le> maximum_questions lim" and "m \<le> maximum_packet_size lim"
  shows "parse_message bs lim =
           Inr \<lparr>msg_header = h, questions = qs, answers = [], authorities = [], additionals = [],
                wire_image = bs\<rparr>"
  using assms parse_question_message [of qs lim "hdr_id h" "flag_bits h"]
  by (auto simp: write_question_message_Inr_iff decode_flag_bits)

text \<open>
  The two attempts of \<open>make_error_response\<close>: the question section is echoed when it fits and
  dropped otherwise.
\<close>

definition echoed_questions :: "message \<Rightarrow> nat \<Rightarrow> question list" where
  "echoed_questions request m =
     (if 12 + length (concat (map wire_question (questions request))) \<le> m
      then questions request else [])"

lemma make_error_response_eq:
  assumes "\<not> is_response (msg_header req)" and "hdr_opcode (msg_header req) \<le> 0x0f"
    and "length (questions req) \<le> 65535" and "12 \<le> m" and "m \<le> 65535"
  shows "make_error_response req rc ra m =
           write_question_message (response_header (msg_header req) (rcode_value rc) ra)
             (echoed_questions req m) m
       \<and> is_ok (make_error_response req rc ra m)"
proof -
  let ?h = "response_header (msg_header req) (rcode_value rc) ra"
  have enc: "encode_flags ?h = Inr (flag_bits ?h)"
    using assms(2) by (simp add: encode_flags_Inr_iff)
  have len: "length (question_message i f qs) = 12 + length (concat (map wire_question qs))"
    for i f qs by (simp add: question_message_def)
  show ?thesis
    using assms unfolding make_error_response_def Let_def write_question_message_eq enc len
    by (simp add: echoed_questions_def)
qed

section \<open>Properties\<close>

lemma serialize_query_parses:
  assumes "serialize_query h qs m = Inr bs" and "\<forall>q \<in> set qs. wf_question q"
    and "length qs \<le> maximum_questions lim" and "m \<le> maximum_packet_size lim"
  shows "parse_message bs lim =
           Inr \<lparr>msg_header = h\<lparr>authoritative_answer := False, truncated := False,
                                 recursion_available := False, hdr_response_code := 0\<rparr>,
                questions = qs, answers = [], authorities = [], additionals = [], wire_image = bs\<rparr>
         \<and> length bs \<le> m"
proof -
  let ?h = "h\<lparr>authoritative_answer := False, truncated := False, recursion_available := False,
              hdr_response_code := 0\<rparr>"
  from assms(1) have w: "write_question_message ?h qs m = Inr bs"
    by (simp add: serialize_query_def split: if_splits)
  from write_question_message_parses [OF w assms(2-4)] write_question_message_size [OF w]
  show ?thesis by simp
qed

text \<open>
  C29. Serializing a query and parsing the bytes returns the header (with the response-only bits
  cleared) and exactly the questions.
\<close>

theorem serialize_query_roundtrip:
  assumes "serialize_query h qs m = Inr bs" and "\<forall>q \<in> set qs. wf_question q"
    and "length qs \<le> maximum_questions lim" and "m \<le> maximum_packet_size lim"
  shows "parse_message bs lim =
           Inr \<lparr>msg_header = h\<lparr>authoritative_answer := False, truncated := False,
                                 recursion_available := False, hdr_response_code := 0\<rparr>,
                questions = qs, answers = [], authorities = [], additionals = [], wire_image = bs\<rparr>
         \<and> length bs \<le> m"
  using assms by (rule serialize_query_parses)

lemma make_error_response_parses:
  assumes "\<not> is_response (msg_header req)" and "unat (hdr_opcode (msg_header req)) < 16"
    and "\<forall>q \<in> set (questions req). wf_question q" and "length (questions req) \<le> 16"
    and "12 \<le> m" and "m \<le> 65535"
  shows "\<exists>bs. make_error_response req rc ra m = Inr bs \<and> length bs \<le> m
           \<and> parse_message bs default_limits =
               Inr \<lparr>msg_header = response_header (msg_header req) (rcode_value rc) ra,
                    questions = echoed_questions req m, answers = [], authorities = [],
                    additionals = [], wire_image = bs\<rparr>"
proof -
  have op: "hdr_opcode (msg_header req) \<le> 0x0f"
    using assms(2) by (simp add: word_le_nat_alt)
  from make_error_response_eq [OF assms(1) op _ assms(5,6), of rc ra] assms(4) obtain bs where
    ok: "make_error_response req rc ra m = Inr bs" and
    w: "write_question_message (response_header (msg_header req) (rcode_value rc) ra)
             (echoed_questions req m) m = Inr bs"
    by (auto simp: is_ok_iff dest: sym)
  have "\<forall>q \<in> set (echoed_questions req m). wf_question q"
    "length (echoed_questions req m) \<le> maximum_questions default_limits"
    "m \<le> maximum_packet_size default_limits"
    using assms by (auto simp: echoed_questions_def default_limits_def)
  from write_question_message_parses [OF w this] ok write_question_message_size [OF w]
  show ?thesis by simp
qed

lemma response_header_eq:
  "response_header h rc ra =
     \<lparr>hdr_id = hdr_id h, is_response = True, hdr_opcode = hdr_opcode h,
      authoritative_answer = False, truncated = False, recursion_desired = recursion_desired h,
      recursion_available = ra, reserved_z = False, authenticated_data = False,
      checking_disabled = checking_disabled h, hdr_response_code = rc\<rparr>"
  by (simp add: response_header_def default_header_def)

text \<open>
  C28. A local error response always exists within the budget; it keeps ID, opcode, RD and CD,
  sets QR, the given RA and the requested RCODE, clears AA, TC, Z and AD, and carries all the
  questions of the request when they fit the budget behind the header, and none otherwise.
\<close>

theorem make_error_response_correct:
  assumes "\<not> is_response (msg_header req)" and "unat (hdr_opcode (msg_header req)) < 16"
    and "\<forall>q \<in> set (questions req). wf_question q" and "length (questions req) \<le> 16"
    and "12 \<le> m" and "m \<le> 65535"
  shows "\<exists>bs. make_error_response req rc ra m = Inr bs \<and> length bs \<le> m
           \<and> parse_message bs default_limits =
               Inr \<lparr>msg_header =
                     \<lparr>hdr_id = hdr_id (msg_header req), is_response = True,
                      hdr_opcode = hdr_opcode (msg_header req), authoritative_answer = False,
                      truncated = False,
                      recursion_desired = recursion_desired (msg_header req),
                      recursion_available = ra, reserved_z = False, authenticated_data = False,
                      checking_disabled = checking_disabled (msg_header req),
                      hdr_response_code = rcode_value rc\<rparr>,
                    questions =
                      (if 12 + length (concat (map wire_question (questions req))) \<le> m
                       then questions req else []),
                    answers = [], authorities = [], additionals = [], wire_image = bs\<rparr>"
  using make_error_response_parses [OF assms, of rc ra]
  by (simp only: response_header_eq echoed_questions_def)

lemma make_address_response_parses:
  assumes "make_address_response req as ttl ra m = Inr bs" and "questions req = [q]"
    and "wf_question q" and "length as \<le> 4096"
  shows "\<exists>rs. parse_message bs default_limits =
           Inr \<lparr>msg_header = response_header (msg_header req) 0 ra, questions = [q],
                answers = rs, authorities = [], additionals = [], wire_image = bs\<rparr>
         \<and> map rdata rs = as
         \<and> (\<forall>r \<in> set rs. rr_name r = q_name q \<and> rr_type r = q_type q \<and> rr_class r = q_class q
                \<and> rr_ttl r = ttl)
         \<and> length bs \<le> m"
proof -
  let ?h = "response_header (msg_header req) 0 ra"
  from assms(1,2) obtain n where
    enc: "encode_flags ?h = Inr (flag_bits ?h)" and m: "m \<le> 65535" and
    bs: "bs = address_message (hdr_id ?h) (flag_bits ?h) q ttl as" and len: "length bs \<le> m" and
    n: "address_size (q_type q) = Some n" "\<forall>a \<in> set as. length a = n"
    unfolding make_address_response_def write_address_message_eq encode_flags_eq
    by (auto split: if_splits option.splits)
  have hd: "decode_flags (hdr_id ?h) (flag_bits ?h) = ?h"
    using enc by (rule encode_flags_decode)
  obtain rs where
    parsed: "parse_message bs default_limits =
      Inr \<lparr>msg_header = ?h, questions = [q], answers = rs, authorities = [], additionals = [],
           wire_image = bs\<rparr>"
    and all: "list_all2 (\<lambda>a r. \<exists>k. r = address_record q ttl k a) as rs"
    using parse_address_message [OF assms(3), of as default_limits "hdr_id ?h" "flag_bits ?h" ttl]
      assms(4) n len m hd unfolding bs by (auto simp: default_limits_def)
  have "map rdata rs = as"
    using all by (induction rule: list_all2_induct) (auto simp: address_record_def)
  moreover have "\<forall>r \<in> set rs. rr_name r = q_name q \<and> rr_type r = q_type q
      \<and> rr_class r = q_class q \<and> rr_ttl r = ttl"
    using all by (induction rule: list_all2_induct) (auto simp: address_record_def)
  ultimately show ?thesis using parsed len by blast
qed

text \<open>
  C27. An address response parses back to the question and one record per address: the owner
  is the question's name behind the compression pointer, and type, class, TTL and RDATA are the
  ones given.  The header is the request's with QR set, the given RA, RCODE 0, RD and CD kept and
  AA, TC, Z and AD cleared.
\<close>

theorem make_address_response_roundtrip:
  assumes "make_address_response req as ttl ra m = Inr bs" and "questions req = [q]"
    and "wf_question q" and "length as \<le> 4096"
  shows "\<exists>rs. parse_message bs default_limits =
           Inr \<lparr>msg_header =
                     \<lparr>hdr_id = hdr_id (msg_header req), is_response = True,
                      hdr_opcode = hdr_opcode (msg_header req), authoritative_answer = False,
                      truncated = False,
                      recursion_desired = recursion_desired (msg_header req),
                      recursion_available = ra, reserved_z = False, authenticated_data = False,
                      checking_disabled = checking_disabled (msg_header req),
                      hdr_response_code = 0\<rparr>,
                questions = [q],
                answers = rs, authorities = [], additionals = [], wire_image = bs\<rparr>
         \<and> map rdata rs = as
         \<and> (\<forall>r \<in> set rs. rr_name r = q_name q \<and> rr_type r = q_type q \<and> rr_class r = q_class q
                \<and> rr_ttl r = ttl)
         \<and> length bs \<le> m"
  using make_address_response_parses [OF assms] by (simp only: response_header_eq)

text \<open>Witness input: an A query for the name \<open>a\<close>.\<close>

definition sample_question :: question where
  "sample_question = \<lparr>q_name = name_of [[97]], q_type = 1, q_class = 1\<rparr>"

definition sample_request :: message where
  "sample_request =
     \<lparr>msg_header = default_header\<lparr>hdr_id := 7, recursion_desired := True\<rparr>,
      questions = [sample_question], answers = [], authorities = [], additionals = [],
      wire_image = []\<rparr>"

lemma sample_question_wf [simp]: "wf_question sample_question"
  by (simp add: sample_question_def wf_question_def valid_labels_def valid_label_def
      kMaxLabelSize_def kMaxDomainWireSize_def)

lemma sample_question_size: "labels_wire_size (labels (q_name sample_question)) = 3"
  by (simp add: sample_question_def)

lemma length_wire_sample [simp]: "length (wire_question sample_question) = 7"
  by (simp add: sample_question_def)

lemma serialize_query_roundtrip_witness:
  "\<exists>bs. serialize_query (msg_header sample_request) [sample_question] 512 = Inr bs
        \<and> length bs \<le> 512 \<and> is_ok (parse_message bs default_limits)"
proof -
  have "is_ok (serialize_query (msg_header sample_request) [sample_question] 512)"
    by (simp add: serialize_query_def write_question_message_eq encode_flags_eq question_message_def
        sample_request_def default_header_def sample_question_def)
  then obtain bs where ok: "serialize_query (msg_header sample_request) [sample_question] 512 = Inr bs"
    by (auto simp: is_ok_iff)
  from serialize_query_roundtrip [OF ok, of default_limits] ok show ?thesis
    by (simp add: default_limits_def)
qed

lemma make_error_response_correct_witness:
  "\<exists>bs. make_error_response sample_request Refused True 512 = Inr bs \<and> length bs \<le> 512
        \<and> is_ok (parse_message bs default_limits)"
proof -
  have "\<not> is_response (msg_header sample_request)" "unat (hdr_opcode (msg_header sample_request)) < 16"
    "\<forall>q \<in> set (questions sample_request). wf_question q" "length (questions sample_request) \<le> 16"
    by (simp_all add: sample_request_def default_header_def)
  from make_error_response_correct [OF this, of 512 Refused True] show ?thesis by auto
qed

lemma make_address_response_roundtrip_witness:
  "\<exists>bs rs m. make_address_response sample_request [[1, 2, 3, 4], [5, 6, 7, 8]] 60 True 512 = Inr bs
        \<and> parse_message bs default_limits = Inr m \<and> answers m = rs
        \<and> map rdata rs = [[1, 2, 3, 4], [5, 6, 7, 8]]"
proof -
  have "is_ok (make_address_response sample_request [[1, 2, 3, 4], [5, 6, 7, 8]] 60 True 512)"
    by (simp add: make_address_response_def write_address_message_eq encode_flags_eq
        address_message_def sample_request_def default_header_def response_header_def
        address_size_def sample_question_def)
  then obtain bs where
    ok: "make_address_response sample_request [[1, 2, 3, 4], [5, 6, 7, 8]] 60 True 512 = Inr bs"
    by (auto simp: is_ok_iff)
  have "questions sample_request = [sample_question]" by (simp add: sample_request_def)
  from make_address_response_roundtrip [OF ok this] ok show ?thesis by auto
qed

section \<open>Header-only errors\<close>

definition packet_id :: "byte list \<Rightarrow> u16" where
  "packet_id p = push_bit 8 (ucast (p ! 0)) OR ucast (p ! 1)"

definition packet_flags :: "byte list \<Rightarrow> u16" where
  "packet_flags p = push_bit 8 (ucast (p ! 2)) OR ucast (p ! 3)"

definition header_only_header :: "byte list \<Rightarrow> response_code \<Rightarrow> bool \<Rightarrow> header" where
  "header_only_header p rc ra =
     (let h0 = default_header\<lparr>hdr_id := packet_id p, is_response := True,
                  recursion_available := ra, hdr_response_code := rcode_value rc\<rparr>;
          h1 = (if length p \<ge> 3
                then h0\<lparr>hdr_opcode := drop_bit 3 (p ! 2) AND 0x0f,
                        recursion_desired := (p ! 2 AND 0x01 \<noteq> 0)\<rparr> else h0)
      in if length p \<ge> 4 then h1\<lparr>checking_disabled := (p ! 3 AND 0x10 \<noteq> 0)\<rparr> else h1)"

lemma make_header_only_error_response_eq:
  "make_header_only_error_response p rc ra m =
     (if length p < 2 then Inl WE_MissingTransactionId
      else if length p \<ge> 3 \<and> p ! 2 AND 0x80 \<noteq> 0 then Inl WE_ExpectedQuery
      else write_question_message (header_only_header p rc ra) [] m)"
  by (simp add: make_header_only_error_response_def header_only_header_def packet_id_def Let_def)

lemma byte_flag_tests:
  "(b :: byte) AND 0x80 \<noteq> 0 \<longleftrightarrow> bit b 7" "b AND 0x01 \<noteq> 0 \<longleftrightarrow> bit b 0"
  "b AND 0x10 \<noteq> 0 \<longleftrightarrow> bit b 4"
  using and_exp_eq_0_iff_not_bit [of b 7] and_exp_eq_0_iff_not_bit [of b 0]
    and_exp_eq_0_iff_not_bit [of b 4] by simp_all

lemma bit_packet_flags:
  "bit (packet_flags p) n \<longleftrightarrow> (if n < 8 then bit (p ! 3) n else n < 16 \<and> bit (p ! 2) (n - 8))"
proof -
  have "bit (p ! 3) n \<Longrightarrow> n < 8" for n
    using bit_imp_le_length [of "p ! 3" n] by simp
  then show ?thesis
    by (auto simp: packet_flags_def bit_or_iff bit_push_bit_iff bit_ucast_iff)
qed

text \<open>The bits kept from a prefix are the ones the full parser would decode.\<close>

lemma header_only_bits:
  assumes "4 \<le> length p"
  shows "hdr_opcode (header_only_header p rc ra) = hdr_opcode (decode_flags i (packet_flags p))"
    and "recursion_desired (header_only_header p rc ra)
           = recursion_desired (decode_flags i (packet_flags p))"
    and "checking_disabled (header_only_header p rc ra)
           = checking_disabled (decode_flags i (packet_flags p))"
proof -
  have byte_nibble: "bit (0x0f :: byte) n \<longleftrightarrow> n < 4" for n
  proof -
    have "(0x0f :: byte) = mask 4" by (simp add: mask_eq_exp_minus_1)
    then have "bit (0x0f :: byte) n \<longleftrightarrow> bit (mask 4 :: byte) n" by (rule arg_cong)
    then show ?thesis by (simp only: bit_mask_iff) auto
  qed
  have "drop_bit 3 (p ! 2) AND 0x0f = (ucast (drop_bit 11 (packet_flags p) AND 0x0f) :: byte)"
  proof (rule bit_word_eqI)
    fix n assume "n < LENGTH(8)"
    show "bit (drop_bit 3 (p ! 2) AND 0x0f) n =
          bit (ucast (drop_bit 11 (packet_flags p) AND 0x0f) :: byte) n"
      unfolding bit_ucast_iff bit_and_iff bit_nibble byte_nibble bit_drop_bit_eq comp_def
        bit_packet_flags by auto
  qed
  with assms show "hdr_opcode (header_only_header p rc ra) = hdr_opcode (decode_flags i (packet_flags p))"
    by (simp add: header_only_header_def decode_flags_def Let_def)
  show "recursion_desired (header_only_header p rc ra)
           = recursion_desired (decode_flags i (packet_flags p))"
    and "checking_disabled (header_only_header p rc ra)
           = checking_disabled (decode_flags i (packet_flags p))"
    using assms unfolding header_only_header_def decode_flags_def Let_def
    by (simp_all only: flag_tests byte_flag_tests bit_packet_flags) simp_all
qed

lemma header_only_simps [simp]:
  "hdr_id (header_only_header p rc ra) = packet_id p" "is_response (header_only_header p rc ra)"
  "hdr_response_code (header_only_header p rc ra) = rcode_value rc"
  "recursion_available (header_only_header p rc ra) = ra"
  "\<not> authenticated_data (header_only_header p rc ra)"
  "hdr_opcode (header_only_header p rc ra) \<le> 0x0f"
  by (simp_all add: header_only_header_def Let_def default_header_def word_and_le1)

lemma make_header_only_error_response_parses:
  assumes "2 \<le> length p" and "3 \<le> length p \<longrightarrow> p ! 2 AND 0x80 = 0"
    and "12 \<le> m" and "m \<le> 65535"
  shows "\<exists>bs h. make_header_only_error_response p rc ra m = Inr bs \<and> length bs = 12
           \<and> parse_message bs default_limits =
               Inr \<lparr>msg_header = h, questions = [], answers = [], authorities = [],
                    additionals = [], wire_image = bs\<rparr>
           \<and> hdr_id h = packet_id p \<and> is_response h \<and> hdr_response_code h = rcode_value rc
           \<and> \<not> authenticated_data h
           \<and> (4 \<le> length p \<longrightarrow>
                (let d = decode_flags (packet_id p) (packet_flags p) in
                 hdr_opcode h = hdr_opcode d \<and> recursion_desired h = recursion_desired d
                 \<and> checking_disabled h = checking_disabled d))"
proof -
  let ?h = "header_only_header p rc ra"
  let ?bs = "question_message (packet_id p) (flag_bits ?h) []"
  have w: "write_question_message ?h [] m = Inr ?bs"
    using assms(3,4) by (simp add: write_question_message_Inr_iff)
  then have "make_header_only_error_response p rc ra m = Inr ?bs"
    using assms(1,2) by (auto simp: make_header_only_error_response_eq)
  moreover have "parse_message ?bs default_limits =
      Inr \<lparr>msg_header = ?h, questions = [], answers = [], authorities = [], additionals = [],
           wire_image = ?bs\<rparr>"
    using write_question_message_parses [OF w, of default_limits] assms(4)
    by (simp add: default_limits_def)
  moreover have "length ?bs = 12" by simp
  ultimately show ?thesis
    using header_only_bits [of p rc ra "packet_id p"] unfolding Let_def
    by (intro exI [of _ ?bs] exI [of _ ?h]) simp
qed

text \<open>
  For a query prefix with at least an ID the header-only error always exists, is exactly
  twelve bytes, keeps the ID and, when the flag bytes are there, the opcode, RD and CD that the
  full parser would have decoded.
\<close>

theorem make_header_only_error_response_correct:
  assumes "2 \<le> length p" and "3 \<le> length p \<longrightarrow> p ! 2 AND 0x80 = 0"
    and "12 \<le> m" and "m \<le> 65535"
  shows "\<exists>bs h. make_header_only_error_response p rc ra m = Inr bs \<and> length bs = 12
           \<and> parse_message bs default_limits =
               Inr \<lparr>msg_header = h, questions = [], answers = [], authorities = [],
                    additionals = [], wire_image = bs\<rparr>
           \<and> hdr_id h = packet_id p \<and> is_response h \<and> hdr_response_code h = rcode_value rc
           \<and> \<not> authenticated_data h
           \<and> (4 \<le> length p \<longrightarrow>
                (let d = decode_flags (packet_id p) (packet_flags p) in
                 hdr_opcode h = hdr_opcode d \<and> recursion_desired h = recursion_desired d
                 \<and> checking_disabled h = checking_disabled d))"
  using assms by (rule make_header_only_error_response_parses)

lemma make_header_only_error_response_correct_witness:
  "\<exists>bs. make_header_only_error_response [0x12, 0x34, 0x01, 0x10] FormErr True 512 = Inr bs
        \<and> length bs = 12"
  using make_header_only_error_response_correct [of "[0x12, 0x34, 0x01, 0x10]" 512 FormErr True]
  by auto

section \<open>Rewriting the transaction ID\<close>

text \<open>
  No compression pointer may point into the header, so name decoding past the header does not
  depend on the header bytes.
\<close>

definition same_body :: "byte list \<Rightarrow> byte list \<Rightarrow> bool" where
  "same_body p p' \<longleftrightarrow> length p = length p' \<and> (\<forall>i. 12 \<le> i \<longrightarrow> i < length p \<longrightarrow> p ! i = p' ! i)"

lemma same_body_slice:
  assumes "same_body p p'" and "12 \<le> k"
  shows "take n (drop k p) = take n (drop k p')"
  using assms by (auto simp: same_body_def list_eq_iff_nth_eq)

lemma decode_name_loop_same_body:
  assumes "same_body p p'" and "12 \<le> position"
  shows "decode_name_loop p e lim ls visited position nxt ex fo =
         decode_name_loop p' e lim ls visited position nxt ex fo"
  using assms
proof (induction p e lim ls visited position nxt ex fo rule: decode_name_loop.induct)
  case (1 p e lim ls visited position nxt ex fo)
  have len: "length p' = length p" using "1.prems" by (simp add: same_body_def)
  have nth: "position + k < length p \<Longrightarrow> p' ! (position + k) = p ! (position + k)" for k
    using "1.prems" by (simp add: same_body_def)
  have slice: "take n (drop (position + 1) p') = take n (drop (position + 1) p)" for n
    using same_body_slice [OF "1.prems"(1), of "position + 1" n] "1.prems"(2) by simp
  consider (short) "length p \<le> position + 1" | (long) "position + 1 < length p" by linarith
  then show ?case
  proof cases
    case short
    show ?thesis
    proof (cases "length p \<le> position")
      case True
      then show ?thesis
        unfolding decode_name_loop.simps [of p e lim ls visited position nxt ex fo] decode_name_loop.simps [of p' e lim ls visited position nxt ex fo] len by simp
    next
      case False
      with nth [of 0] have n: "p' ! position = p ! position" by simp
      from False short have "length p = position + 1" by simp
      then show ?thesis
        unfolding decode_name_loop.simps [of p e lim ls visited position nxt ex fo] decode_name_loop.simps [of p' e lim ls visited position nxt ex fo] Let_def len n
        by (simp add: unat_gt_0)
    qed
  next
    case long
    with nth [of 0] nth [of 1] have n: "p' ! position = p ! position"
      "p' ! (position + 1) = p ! (position + 1)" by simp_all
    show ?thesis
      unfolding decode_name_loop.simps [of p e lim ls visited position nxt ex fo] decode_name_loop.simps [of p' e lim ls visited position nxt ex fo] Let_def len slice n
    apply (intro if_cong refl)
    subgoal by (rule "1.IH"(1)) (use "1.prems" in \<open>simp_all add: kDnsHeaderSize_def\<close>)
    subgoal by (rule "1.IH"(2)) (use "1.prems" in \<open>simp_all add: kDnsHeaderSize_def\<close>)
    done
  qed
qed


lemma decode_name_same_body:
  "same_body p p' \<Longrightarrow> 12 \<le> i \<Longrightarrow> decode_name p i e lim = decode_name p' i e lim"
  by (simp add: decode_name_def decode_name_loop_same_body)

definition u16_at :: "byte list \<Rightarrow> nat \<Rightarrow> u16" where
  "u16_at p i = push_bit 8 (ucast (p ! i)) OR ucast (p ! (i + 1))"

definition u32_at :: "byte list \<Rightarrow> nat \<Rightarrow> u32" where
  "u32_at p i = push_bit 24 (ucast (p ! i)) OR push_bit 16 (ucast (p ! (i + 1)))
                  OR push_bit 8 (ucast (p ! (i + 2))) OR ucast (p ! (i + 3))"

lemma read_at:
  "read_u16 (mk_reader p i) =
     (if length p - i < 2 then None else Some (u16_at p i, mk_reader p (i + 2)))"
  "read_u32 (mk_reader p i) =
     (if length p - i < 4 then None else Some (u32_at p i, mk_reader p (i + 4)))"
  "read_bytes n (mk_reader p i) =
     (if length p - i < n then None else Some (take n (drop i p), mk_reader p (i + n)))"
  by (simp_all add: read_u16_def read_u32_def read_bytes_def u16_at_def u32_at_def)

lemma u_at_same_body:
  assumes "same_body p p'" and "12 \<le> i"
  shows "i + 2 \<le> length p \<Longrightarrow> u16_at p' i = u16_at p i"
    and "i + 4 \<le> length p \<Longrightarrow> u32_at p' i = u32_at p i"
  using assms by (auto simp: u16_at_def u32_at_def same_body_def)

lemma parse_question_same_body:
  assumes "same_body p p'" and "12 \<le> i"
  shows "parse_question p' lim i = parse_question p lim i"
proof -
  have len: "length p' = length p" using assms(1) by (simp add: same_body_def)
  show ?thesis
  proof (cases "decode_name p i (length p) lim")
    case (Inr x)
    obtain n k where x: "x = (n, k)" by (cases x)
    with Inr assms(2) decode_name_ok(2) [of p i "length p" lim n k] have k: "12 \<le> k" by simp
    show ?thesis
      using Inr x k u_at_same_body(1) [OF assms(1), of k] u_at_same_body(1) [OF assms(1), of "k + 2"]
      unfolding parse_question_def decode_name_same_body [OF assms, symmetric] len
      by (simp add: Let_def read_at len)
  qed (simp add: parse_question_def decode_name_same_body [OF assms, symmetric] len)
qed

lemma count_strings_same_body:
  assumes "same_body p p'" and "12 \<le> c" and "e \<le> length p"
  shows "count_strings p' e c n = count_strings p e c n"
  using assms
proof (induction p e c n rule: count_strings.induct)
  case (1 p e c n)
  then show ?case
    unfolding count_strings.simps [of p e c n] count_strings.simps [of p' e c n]
    by (auto simp: Let_def same_body_def)
qed

lemma validate_single_name_same_body:
  assumes "same_body p p'" and "12 \<le> i"
  shows "validate_single_name p' lim i e = validate_single_name p lim i e"
  by (simp add: validate_single_name_def decode_name_same_body [OF assms])

lemma validate_rdata_same_body:
  assumes "same_body p p'" and "12 \<le> off" and "e \<le> length p"
  shows "validate_rdata p' lim ty n off e = validate_rdata p lim ty n off e"
proof -
  note name = decode_name_same_body [OF assms(1)] validate_single_name_same_body [OF assms(1)]
  note cs = count_strings_same_body [OF assms]
  have two: "12 \<le> off + 2" using assms(2) by simp
  have nx: "12 \<le> k" if "decode_name p off e lim = Inr (m, k)" for m k
    using decode_name_ok(2) [OF that] assms(2) by simp
  show ?thesis
    unfolding validate_rdata_def validate_character_strings_def validate_text_strings_def cs
      name(2) [OF assms(2)] name(2) [OF two] name(1) [OF assms(2), symmetric]
    by (auto simp: name nx split: sum.split prod.split)
qed

lemma parse_resource_record_same_body:
  assumes "same_body p p'" and "12 \<le> i"
  shows "parse_resource_record p' lim i = parse_resource_record p lim i"
proof -
  have len: "length p' = length p" using assms(1) by (simp add: same_body_def)
  show ?thesis
  proof (cases "decode_name p i (length p) lim")
    case (Inr x)
    obtain n k where x: "x = (n, k)" by (cases x)
    with Inr assms(2) decode_name_ok(2) [of p i "length p" lim n k] have k: "12 \<le> k" by simp
    note dec = Inr [unfolded x]
    show ?thesis
    proof (cases "10 + k \<le> length p")
      case True
      note u = u_at_same_body [OF assms(1)]
      have at: "u16_at p' k = u16_at p k" "u16_at p' (Suc (Suc k)) = u16_at p (Suc (Suc k))"
        "u32_at p' (Suc (Suc (Suc (Suc k)))) = u32_at p (Suc (Suc (Suc (Suc k))))"
        "u16_at p' (8 + k) = u16_at p (8 + k)"
        by (rule u; use k True in simp)+
      have rd: "validate_rdata p' lim ty n (10 + k) (10 + k + n) =
                validate_rdata p lim ty n (10 + k) (10 + k + n)"
        if "\<not> length p - (10 + k) < n" for ty n
        by (rule validate_rdata_same_body [OF assms(1)]) (use k that True in auto)
      have sl: "take n (drop (10 + k) p') = take n (drop (10 + k) p)" for n
        using same_body_slice [OF assms(1), of "10 + k" n] k by simp
      show ?thesis
        unfolding parse_resource_record_def decode_name_same_body [OF assms, symmetric] len dec
        using True by (simp add: Let_def read_at len at rd sl split: sum.split)
    next
      case False
      then show ?thesis
        unfolding parse_resource_record_def decode_name_same_body [OF assms, symmetric] len dec
        by (simp add: Let_def read_at len)
    qed
  qed (simp add: parse_resource_record_def decode_name_same_body [OF assms, symmetric] len)
qed

lemma parse_section_cong_from:
  assumes "\<And>i. 12 \<le> i \<Longrightarrow> f i = g i" and "\<And>i x j. g i = Inr (x, j) \<Longrightarrow> i < j" and "12 \<le> off"
  shows "parse_section n f off = parse_section n g off"
  using assms(3)
proof (induction n arbitrary: off)
  case (Suc n)
  then show ?case
  proof (cases "g off")
    case (Inr y)
    obtain x j where y: "y = (x, j)" by (cases y)
    with Inr Suc.prems have "12 \<le> j" using assms(2) [of off x j] by simp
    from Suc.IH [OF this] Suc.prems Inr y show ?thesis by (simp add: assms(1))
  qed (simp add: assms(1))
qed simp

lemma parse_section_mono:
  assumes "\<And>i x j. f i = Inr (x, j) \<Longrightarrow> i < j" and "parse_section n f i = Inr (xs, k)"
  shows "i \<le> k"
  using assms(2)
proof (induction n arbitrary: i xs)
  case (Suc n)
  then obtain x j ys where "f i = Inr (x, j)" "parse_section n f j = Inr (ys, k)"
    by (auto split: sum.splits prod.splits)
  with Suc.IH [of j ys] assms(1) [of i x j] show ?case by simp
qed simp

lemma parse_body_same_body:
  assumes sb: "same_body p p'" and off: "12 \<le> off"
    and ok: "parse_body p lim h qd an ns ar off = Inr m"
  shows "parse_body p' lim h' qd an ns ar off = Inr (m\<lparr>msg_header := h', wire_image := p'\<rparr>)"
proof -
  let ?q = "parse_question p lim" and ?r = "parse_resource_record p lim"
  from ok obtain qs o1 ans o2 auths o3 adds o4 where
    secs: "parse_section qd ?q off = Inr (qs, o1)" "parse_section an ?r o1 = Inr (ans, o2)"
      "parse_section ns ?r o2 = Inr (auths, o3)" "parse_section ar ?r o3 = Inr (adds, o4)"
    and m: "m = \<lparr>msg_header = h, questions = qs, answers = ans, authorities = auths,
                  additionals = adds, wire_image = p\<rparr>" "\<not> (reject_trailing_data lim \<and> o4 \<noteq> length p)"
    by (auto simp: parse_body_def split: sum.splits prod.splits if_splits)
  have rr: "12 \<le> i \<Longrightarrow> parse_section n (parse_resource_record p' lim) i = parse_section n ?r i" for n i
    by (rule parse_section_cong_from)
      (use sb in \<open>auto simp: parse_resource_record_same_body dest: parse_resource_record_ok\<close>)
  have qq: "parse_section qd (parse_question p' lim) off = parse_section qd ?q off"
    by (rule parse_section_cong_from [OF _ _ off])
      (use sb in \<open>auto simp: parse_question_same_body dest: parse_question_ok\<close>)
  note mono = parse_section_mono [of ?r] and monoq = parse_section_mono [of ?q]
  have "i < j" if "?r i = Inr (x, j)" for i x j
    using parse_resource_record_ok [OF that] by simp
  moreover have "i < j" if "?q i = Inr (x, j)" for i x j
    using parse_question_ok [OF that] by simp
  ultimately   have o: "12 \<le> o1" "12 \<le> o2" "12 \<le> o3"
    using monoq [OF _ secs(1)] mono [OF _ secs(2)] mono [OF _ secs(3)] off
    by (meson order_trans)+
  have len: "length p' = length p" using sb by (simp add: same_body_def)
  show ?thesis
    using secs m o by (simp add: parse_body_def qq rr len)
qed

lemma read_u16s_at:
  "off + 2 * n \<le> length p \<Longrightarrow>
     read_u16s n (mk_reader p off)
       = Inr (map (\<lambda>k. u16_at p (off + 2 * k)) [0..<n], mk_reader p (off + 2 * n))"
proof (induction n arbitrary: off)
  case (Suc n)
  have "map (\<lambda>k. u16_at p (off + 2 * k)) [0..<Suc n]
      = u16_at p off # map (\<lambda>k. u16_at p (off + 2 + 2 * k)) [0..<n]"
    by (simp add: map_upt_Suc del: upt_Suc)
  with Suc show ?case by (simp add: read_at)
qed simp

lemma rewrite_transaction_id_parses:
  assumes "parse_message p lim = Inr m"
  shows "\<exists>p'. rewrite_transaction_id p ident = Inr p' \<and> length p' = length p
           \<and> parse_message p' lim =
               Inr (m\<lparr>msg_header := (msg_header m)\<lparr>hdr_id := ident\<rparr>, wire_image := p'\<rparr>)"
proof -
  let ?p' = "p[0 := byte_of 8 ident, 1 := byte_of 0 ident]"
  from assms obtain vs r where rd: "read_u16s 6 (mk_reader p 0) = Inr (vs, r)"
    by (auto simp: parse_message_def split: sum.splits if_splits)
  then have l: "12 \<le> length p" and r: "r = mk_reader p 12"
    using read_u16s_ok [OF rd] by simp_all
  have sb: "same_body p ?p'"
    by (auto simp: same_body_def)
  from l have "0 < length p" "1 < length p" by linarith+
  then have id: "u16_at ?p' 0 = ident"
    by (simp add: u16_at_def nth_list_update wire_simps)
  have at: "u16_at ?p' i = u16_at p i" if "2 \<le> i" for i
    using that by (simp add: u16_at_def)
  have upt: "[0..<6] = [0, 1, 2, 3, 4, 5::nat]" by (simp add: upt_rec)
  have v: "vs = [u16_at p 0, u16_at p 2, u16_at p 4, u16_at p 6, u16_at p 8, u16_at p 10]"
    using rd l read_u16s_at [of 0 6 p] by (simp add: upt)
  have rd': "read_u16s 6 (mk_reader ?p' 0) = Inr (ident # tl vs, mk_reader ?p' 12)"
    using l at id read_u16s_at [of 0 6 ?p'] by (simp add: upt v)
  have body: "parse_body p lim (decode_flags (vs ! 0) (vs ! 1)) (unat (vs ! 2)) (unat (vs ! 3))
      (unat (vs ! 4)) (unat (vs ! 5)) 12 = Inr m"
    and hd: "msg_header m = decode_flags (vs ! 0) (vs ! 1)"
    using assms rd r parse_body_ok [of p lim _ _ _ _ _ 12 m] l
    by (auto simp: parse_message_def Let_def split: if_splits)
  have "parse_message ?p' lim =
      parse_body ?p' lim (decode_flags ident (vs ! 1)) (unat (vs ! 2)) (unat (vs ! 3))
        (unat (vs ! 4)) (unat (vs ! 5)) 12"
    using assms rd rd' r by (auto simp: parse_message_def Let_def v split: if_splits)
  also have "\<dots> = Inr (m\<lparr>msg_header := decode_flags ident (vs ! 1), wire_image := ?p'\<rparr>)"
    by (rule parse_body_same_body [OF sb _ body]) simp
  also have "decode_flags ident (vs ! 1) = (msg_header m)\<lparr>hdr_id := ident\<rparr>"
    by (simp add: hd decode_flags_def)
  finally show ?thesis
    using l by (simp add: rewrite_transaction_id_def)
qed

text \<open>
  Rewriting the transaction ID of a packet that parses changes the parsed ID and
  nothing else: questions, records and the other header fields are those of the original.
\<close>

theorem rewrite_transaction_id_transparent:
  assumes "parse_message p lim = Inr m"
  shows "\<exists>p'. rewrite_transaction_id p ident = Inr p' \<and> length p' = length p
           \<and> parse_message p' lim =
               Inr (m\<lparr>msg_header := (msg_header m)\<lparr>hdr_id := ident\<rparr>, wire_image := p'\<rparr>)"
  using assms by (rule rewrite_transaction_id_parses)

lemma rewrite_transaction_id_transparent_witness:
  "\<exists>p m p'. parse_message p default_limits = Inr m \<and> rewrite_transaction_id p 0xBEEF = Inr p'
        \<and> parse_message p' default_limits =
            Inr (m\<lparr>msg_header := (msg_header m)\<lparr>hdr_id := 0xBEEF\<rparr>, wire_image := p'\<rparr>)"
proof -
  have "is_ok (parse_message (question_message 1 0 [sample_question]) default_limits)"
    by (subst parse_question_message)
      (simp_all add: default_limits_def question_message_def sample_question_size)
  then obtain p m where ok: "parse_message p default_limits = Inr m"
    by (auto simp: is_ok_def split: sum.splits)
  from rewrite_transaction_id_transparent [OF ok, where ident = "0xBEEF"] ok show ?thesis by blast
qed

lemma parse_message_sound_witness:
  "\<exists>p m. parse_message p default_limits = Inr m \<and> questions m = [sample_question] \<and> wf_message m
        \<and> wire_image m = p \<and> header_on_wire p (msg_header m)
        \<and> be16 (p ! 4) (p ! 5) = 1"
proof -
  have ok: "parse_message (question_message 1 0 [sample_question]) default_limits =
      Inr \<lparr>msg_header = decode_flags 1 0, questions = [sample_question], answers = [],
           authorities = [], additionals = [], wire_image = question_message 1 0 [sample_question]\<rparr>"
    by (rule parse_question_message)
      (simp_all add: default_limits_def question_message_def sample_question_size)
  from parse_message_sound [OF ok] show ?thesis
    by (intro exI conjI) (rule ok, simp_all)
qed

end
