(* ===== verification/DnsQuery.thy ===== *)
theory DnsQuery
  imports DnsWriter
begin

text \<open>
  \<open>src/protocol/DnsQuery.{h,cpp}\<close>: the query policy of the service.  A query is served when it is a
  plain one-question \<open>IN\<close> query for an address; every other message has an error that
  \<open>response_code_for\<close> turns into a response code.
\<close>

datatype query_error = QE_NotAQuery | QE_UnsupportedOpcode | QE_InvalidHeaderFlags
  | QE_WrongQuestionCount | QE_UnexpectedAnswerSection | QE_ExtensionsNotSupported
  | QE_UnsupportedType | QE_UnsupportedClass

definition validate_mvp_query :: "message \<Rightarrow> query_error + question" where
  "validate_mvp_query m =
     (let h = msg_header m in
      if is_response h then Inl QE_NotAQuery
      else if hdr_opcode h \<noteq> opcode_value OpQuery then Inl QE_UnsupportedOpcode
      else if authoritative_answer h \<or> truncated h \<or> recursion_available h \<or> reserved_z h
              \<or> hdr_response_code h \<noteq> rcode_value NoError then Inl QE_InvalidHeaderFlags
      else if length (questions m) \<noteq> 1 then Inl QE_WrongQuestionCount
      else if answers m \<noteq> [] \<or> authorities m \<noteq> [] then Inl QE_UnexpectedAnswerSection
      else if additionals m \<noteq> [] then Inl QE_ExtensionsNotSupported
      else let question = hd (questions m) in
        if q_class question \<noteq> class_code RC_IN then Inl QE_UnsupportedClass
        else if q_type question \<noteq> type_code RT_A \<and> q_type question \<noteq> type_code RT_AAAA
        then Inl QE_UnsupportedType
        else Inr question)"

fun response_code_for :: "query_error \<Rightarrow> response_code" where
  "response_code_for QE_WrongQuestionCount = FormErr"
| "response_code_for QE_UnexpectedAnswerSection = FormErr"
| "response_code_for QE_InvalidHeaderFlags = FormErr"
| "response_code_for QE_NotAQuery = NotImp"
| "response_code_for QE_UnsupportedOpcode = NotImp"
| "response_code_for QE_ExtensionsNotSupported = NotImp"
| "response_code_for QE_UnsupportedType = NotImp"
| "response_code_for QE_UnsupportedClass = NotImp"

definition address_question :: "question \<Rightarrow> bool" where
  "address_question q \<longleftrightarrow> q_class q = class_code RC_IN
     \<and> (q_type q = type_code RT_A \<or> q_type q = type_code RT_AAAA)"

definition plain_query_header :: "header \<Rightarrow> bool" where
  "plain_query_header h \<longleftrightarrow> \<not> is_response h \<and> hdr_opcode h = 0 \<and> \<not> authoritative_answer h
     \<and> \<not> truncated h \<and> \<not> recursion_available h \<and> \<not> reserved_z h \<and> hdr_response_code h = 0"

lemma validate_mvp_query_Inr_iff:
  "validate_mvp_query m = Inr q \<longleftrightarrow>
     plain_query_header (msg_header m) \<and> questions m = [q] \<and> address_question q
     \<and> answers m = [] \<and> authorities m = [] \<and> additionals m = []"
  by (auto simp: validate_mvp_query_def Let_def plain_query_header_def address_question_def
      length_Suc_conv)

lemma response_code_for_cases:
  "response_code_for e = FormErr \<or> response_code_for e = NotImp"
  by (cases e) simp_all

lemma address_size_address_question:
  "address_question q \<Longrightarrow> \<exists>n. address_size (q_type q) = Some n \<and> (n = 4 \<or> n = 16)"
  by (auto simp: address_question_def address_size_def)

end
