(* ===== verification/DnsResponse.thy ===== *)
theory DnsResponse
  imports DnsQuery
begin

text \<open>
  \<open>src/protocol/DnsResponse.{h,cpp}\<close>: the checks a datagram of the upstream server has to pass before
  it may complete a pending query.
\<close>

datatype response_validation_error = RE_NotAResponse | RE_WrongTransactionId | RE_WrongOpcode
  | RE_InvalidHeaderFlags | RE_WrongQuestionCount | RE_QuestionMismatch

definition transaction_id :: "byte list \<Rightarrow> u16 option" where
  "transaction_id packet =
     (if length packet < 2 then None
      else Some (push_bit 8 (ucast (packet ! 0)) OR ucast (packet ! 1)))"

definition validate_upstream_response ::
  "message \<Rightarrow> u16 \<Rightarrow> byte \<Rightarrow> question \<Rightarrow> response_validation_error + unit" where
  "validate_upstream_response m expected_transaction_id expected_opcode expected_question =
     (if \<not> is_response (msg_header m) then Inl RE_NotAResponse
      else if hdr_id (msg_header m) \<noteq> expected_transaction_id then Inl RE_WrongTransactionId
      else if hdr_opcode (msg_header m) \<noteq> expected_opcode then Inl RE_WrongOpcode
      else if reserved_z (msg_header m) then Inl RE_InvalidHeaderFlags
      else if length (questions m) \<noteq> 1 then Inl RE_WrongQuestionCount
      else if \<not> question_eq (hd (questions m)) expected_question then Inl RE_QuestionMismatch
      else Inr ())"

lemma validate_upstream_response_ok_iff:
  "validate_upstream_response m ident opc q = Inr () \<longleftrightarrow>
     is_response (msg_header m) \<and> hdr_id (msg_header m) = ident \<and> hdr_opcode (msg_header m) = opc
     \<and> \<not> reserved_z (msg_header m) \<and> (\<exists>q'. questions m = [q'] \<and> question_eq q' q)"
  by (auto simp: validate_upstream_response_def length_Suc_conv)

lemma transaction_id_packet_id:
  "transaction_id p = (if length p < 2 then None else Some (packet_id p))"
  by (simp add: transaction_id_def packet_id_def)

text \<open>The header the parser reports is the one the first four bytes of the packet encode.\<close>

lemma parse_message_header:
  assumes "parse_message p lim = Inr m"
  shows "12 \<le> length p \<and> msg_header m = decode_flags (u16_at p 0) (u16_at p 2)"
proof -
  from assms obtain vs r where rd: "read_u16s 6 (mk_reader p 0) = Inr (vs, r)"
    by (auto simp: parse_message_def split: sum.splits if_splits)
  then have l: "12 \<le> length p" and r: "r = mk_reader p 12"
    using read_u16s_ok [OF rd] by simp_all
  then have "vs ! 0 = u16_at p 0 \<and> vs ! 1 = u16_at p 2"
    using rd read_u16s_at [of 0 6 p] by (auto simp: upt_rec)
  moreover have "msg_header m = decode_flags (vs ! 0) (vs ! 1)"
    using assms rd r parse_body_ok [of p lim _ _ _ _ _ 12 m] l
    by (auto simp: parse_message_def Let_def split: if_splits)
  ultimately show ?thesis using l by simp
qed

text \<open>The ID read from the raw packet is the ID the parser reports.\<close>

lemma transaction_id_parse_message:
  "parse_message p lim = Inr m \<Longrightarrow> transaction_id p = Some (hdr_id (msg_header m))"
  using parse_message_header [of p lim m]
  by (simp add: transaction_id_def decode_flags_def u16_at_def)

end
