(* ===== verification/CachePolicy.thy ===== *)
theory CachePolicy
  imports DNS_Cache DnsResponse
begin

text \<open>
  \<open>src/CachePolicy.{h,cpp}\<close>: which upstream responses may enter the positive cache.
\<close>

section \<open>Definitions\<close>

record cacheable_set =
  set_addresses :: "ip_address list"
  set_ttl :: u32

text \<open>One answer of the loop: the address it contributes, or \<open>None\<close> where the function gives up.\<close>

definition cacheable_answer :: "question \<Rightarrow> resource_record \<Rightarrow> ip_address option" where
  "cacheable_answer q answer =
     (if \<not> name_eq (rr_name answer) (q_name q) \<or> rr_type answer \<noteq> q_type q
         \<or> rr_class answer \<noteq> q_class q \<or> rr_ttl answer = 0 then None
      else if rr_type answer = type_code RT_A \<and> length (rdata answer) = 4 then Some (ip_v4 (rdata answer))
      else if rr_type answer = type_code RT_AAAA \<and> length (rdata answer) = 16 then Some (ip_v6 (rdata answer))
      else None)"

fun collect_answers :: "question \<Rightarrow> resource_record list \<Rightarrow> cacheable_set \<Rightarrow> cacheable_set option" where
  "collect_answers q [] result = Some result"
| "collect_answers q (answer # rest) result =
     (case cacheable_answer q answer of
        None \<Rightarrow> None
      | Some address \<Rightarrow>
          collect_answers q rest
            (result\<lparr>set_addresses := set_addresses result @ [address],
                    set_ttl := min (set_ttl result) (rr_ttl answer)\<rparr>))"

definition cacheable_address_set :: "message \<Rightarrow> question \<Rightarrow> cacheable_set option" where
  "cacheable_address_set response expected_question =
     (if \<not> is_response (msg_header response) \<or> truncated (msg_header response)
         \<or> hdr_response_code (msg_header response) \<noteq> rcode_value NoError
         \<or> length (questions response) \<noteq> 1
         \<or> \<not> question_eq (hd (questions response)) expected_question
         \<or> answers response = [] \<or> length (answers response) > 65535
         \<or> authorities response \<noteq> [] \<or> additionals response \<noteq> [] then None
      else collect_answers expected_question (answers response)
             \<lparr>set_addresses = [], set_ttl = 0xffffffff\<rparr>)"


section \<open>What is admitted\<close>

lemma collect_answers_iff:
  "collect_answers q as r = Some r' \<longleftrightarrow>
     (\<forall>a \<in> set as. cacheable_answer q a \<noteq> None)
     \<and> r' = r\<lparr>set_addresses := set_addresses r @ map (\<lambda>a. the (cacheable_answer q a)) as,
               set_ttl := fold (\<lambda>a t. min t (rr_ttl a)) as (set_ttl r)\<rparr>"
  by (induction as arbitrary: r) (auto split: option.splits)

definition direct_response :: "message \<Rightarrow> question \<Rightarrow> bool" where
  "direct_response m q \<longleftrightarrow> is_response (msg_header m) \<and> \<not> truncated (msg_header m)
     \<and> hdr_response_code (msg_header m) = 0 \<and> (\<exists>q'. questions m = [q'] \<and> question_eq q' q)
     \<and> answers m \<noteq> [] \<and> length (answers m) \<le> 65535 \<and> authorities m = [] \<and> additionals m = []"

lemma cacheable_address_set_iff:
  "cacheable_address_set m q = Some r \<longleftrightarrow>
     direct_response m q \<and> (\<forall>a \<in> set (answers m). cacheable_answer q a \<noteq> None)
     \<and> r = \<lparr>set_addresses = map (\<lambda>a. the (cacheable_answer q a)) (answers m),
            set_ttl = fold (\<lambda>a t. min t (rr_ttl a)) (answers m) 0xffffffff\<rparr>"
  by (auto simp: cacheable_address_set_def collect_answers_iff direct_response_def length_Suc_conv)

lemma fold_min_eq:
  "fold (\<lambda>a t. min t (f a)) as (t :: 'a :: linorder) \<le> t"
  "a \<in> set as \<Longrightarrow> fold (\<lambda>a t. min t (f a)) as t \<le> f a"
  "fold (\<lambda>a t. min t (f a)) as t \<in> insert t (f ` set as)"
proof (induction as arbitrary: t)
  case (Cons x xs)
  {
    case 1
    show ?case using Cons.IH(1) [of "min t (f x)"] by simp
  next
    case 2
    then show ?case
      using Cons.IH(1,2) [of "min t (f x)"] by auto
  next
    case 3
    show ?case using Cons.IH(3) [of "min t (f x)"] by (auto simp: min_def split: if_splits)
  }
qed simp_all

lemma cacheable_ttl:
  assumes "cacheable_address_set m q = Some r"
  shows "set_ttl r \<noteq> 0 \<and> (\<forall>a \<in> set (answers m). set_ttl r \<le> rr_ttl a) \<and> (\<exists>a \<in> set (answers m). set_ttl r = rr_ttl a)"
proof -
  from assms have r: "set_ttl r = fold (\<lambda>a t. min t (rr_ttl a)) (answers m) 0xffffffff"
    and ne: "answers m \<noteq> []" and nz: "\<forall>a \<in> set (answers m). rr_ttl a \<noteq> 0"
    by (auto simp: cacheable_address_set_iff direct_response_def cacheable_answer_def split: if_splits)
  have le: "\<forall>a \<in> set (answers m). set_ttl r \<le> rr_ttl a"
    using fold_min_eq(2) [of _ "answers m" rr_ttl] by (simp add: r)
  have "set_ttl r = 0xffffffff \<or> set_ttl r \<in> rr_ttl ` set (answers m)"
    using fold_min_eq(3) [of rr_ttl "answers m" "0xffffffff"] by (simp add: r)
  moreover have "\<exists>a \<in> set (answers m). rr_ttl a = 0xffffffff" if "set_ttl r = 0xffffffff"
  proof -
    from ne obtain a where a: "a \<in> set (answers m)" by (cases "answers m") auto
    with le that have "0xffffffff \<le> rr_ttl a" by auto
    moreover have "(0xffffffff :: u32) = - 1" by simp
    ultimately have "rr_ttl a = 0xffffffff" by (metis word_order.extremum_uniqueI)
    with a show ?thesis by blast
  qed
  ultimately have "\<exists>a \<in> set (answers m). set_ttl r = rr_ttl a" by force
  with le nz show ?thesis by metis
qed

end
