(* ===== verification/TransactionIds.thy ===== *)
theory TransactionIds
  imports Prelude "HOL-Library.Product_Lexorder" "HOL-Library.Multiset"
begin

text \<open>
  The transaction-ID pool of \<open>src/upstream/UpstreamChannel.{h,cpp}\<close>: the data of a channel, the
  allocation, release, quarantine and reclamation of IDs, the initial pool and the audit of an idle
  pool.

  Time points and durations are nanosecond counts.  The arrays \<open>slots_\<close> and \<open>id_states_\<close> are functions
  of the 16-bit ID; a slot holds the address of the query that waits for a response under this ID.
  The counters of the statistics are natural numbers.
\<close>

section \<open>The state of a channel\<close>

record channel_config =
  query_timeout :: int
  id_reuse_guard :: int
  transaction_id_capacity :: nat
  initial_transaction_id :: u16
  randomize_transaction_ids :: bool

record channel_stats =
  st_queries_sent :: nat
  st_responses_completed :: nat
  st_timeouts :: nat
  st_cancellations :: nat
  st_send_errors :: nat
  st_socket_errors :: nat
  st_overloaded :: nat
  st_invalid_responses :: nat
  st_unmatched_responses :: nat
  st_invariant_failures :: nat

definition no_channel_stats :: channel_stats where
  "no_channel_stats = \<lparr>st_queries_sent = 0, st_responses_completed = 0, st_timeouts = 0, st_cancellations = 0,
     st_send_errors = 0, st_socket_errors = 0, st_overloaded = 0, st_invalid_responses = 0,
     st_unmatched_responses = 0, st_invariant_failures = 0\<rparr>"

datatype id_state = IdUnavailable | IdFree | IdPending | IdRetired

type_synonym retired_id = "int \<times> u16"

record upstream_channel =
  ch_scheduler :: "nat option"
  ch_timers :: bool
  ch_config :: channel_config
  ch_stats :: channel_stats
  ch_slots :: "u16 \<Rightarrow> nat option"
  ch_id_states :: "u16 \<Rightarrow> id_state"
  ch_free_ids :: "u16 list"
  ch_retired_ids :: "retired_id list"
  ch_draws :: nat
  ch_socket_fd :: int
  ch_pending_count :: nat
  ch_running :: bool
  ch_accepting :: bool
  ch_has_started :: bool

definition kTransactionIdSpace :: nat where "kTransactionIdSpace = 65536"

definition duration_max :: int where "duration_max = 2 ^ 63 - 1"

abbreviation capacity :: "upstream_channel \<Rightarrow> nat" where
  "capacity c \<equiv> transaction_id_capacity (ch_config c)"

definition count_invariant_failure :: "upstream_channel \<Rightarrow> upstream_channel" where
  "count_invariant_failure c =
     c\<lparr>ch_stats := (ch_stats c)\<lparr>st_invariant_failures := st_invariant_failures (ch_stats c) + 1\<rparr>\<rparr>"

definition set_id_state :: "u16 \<Rightarrow> id_state \<Rightarrow> upstream_channel \<Rightarrow> upstream_channel" where
  "set_id_state ident st c = c\<lparr>ch_id_states := (ch_id_states c)(ident := st)\<rparr>"

section \<open>Operations on the pool\<close>

text \<open>
  \<open>rnd\<close> is the entropy of the random engine: its \<open>k\<close>-th draw from a uniform distribution over
  \<open>n\<close> indices.  Every sequence of draws is obtained from some \<open>rnd\<close>.
\<close>

definition uniform_index :: "(nat \<Rightarrow> nat) \<Rightarrow> nat \<Rightarrow> nat \<Rightarrow> nat" where
  "uniform_index rnd k n = rnd k mod n"

definition swap_at :: "nat \<Rightarrow> nat \<Rightarrow> 'a list \<Rightarrow> 'a list" where
  "swap_at i j xs = xs[i := xs ! j, j := xs ! i]"

definition insert_free_id :: "(nat \<Rightarrow> nat) \<Rightarrow> u16 \<Rightarrow> upstream_channel \<Rightarrow> upstream_channel" where
  "insert_free_id rnd ident c =
     (let ids = ch_free_ids c @ [ident] in
      if \<not> randomize_transaction_ids (ch_config c) \<or> length ids < 2 then c\<lparr>ch_free_ids := ids\<rparr>
      else c\<lparr>ch_free_ids := swap_at (length ids - 1) (uniform_index rnd (ch_draws c) (length ids)) ids,
             ch_draws := ch_draws c + 1\<rparr>)"

definition guarded_reuse_time :: "channel_config \<Rightarrow> int \<Rightarrow> int" where
  "guarded_reuse_time cfg now =
     (let guard = id_reuse_guard cfg in
      if guard \<le> 0 then now
      else if now > 0 \<and> guard > duration_max - now then duration_max
      else now + guard)"

text \<open>
  The heap of retired IDs is used through \<open>push_heap\<close>, \<open>pop_heap\<close>, \<open>front\<close> and \<open>is_heap\<close> only, so
  it is kept as the list sorted by reuse time and ID, which is one of the layouts of that heap.
\<close>

definition release_id :: "(nat \<Rightarrow> nat) \<Rightarrow> u16 \<Rightarrow> int \<Rightarrow> bool \<Rightarrow> upstream_channel \<Rightarrow> upstream_channel" where
  "release_id rnd ident now quarantine c =
     (if unat ident \<ge> capacity c \<or> ch_id_states c ident \<noteq> IdPending then count_invariant_failure c
      else if \<not> quarantine \<or> id_reuse_guard (ch_config c) \<le> 0
      then insert_free_id rnd ident (set_id_state ident IdFree c)
      else (set_id_state ident IdRetired c)
             \<lparr>ch_retired_ids := insort (guarded_reuse_time (ch_config c) now, ident) (ch_retired_ids c)\<rparr>)"

fun reclaim_loop :: "(nat \<Rightarrow> nat) \<Rightarrow> int \<Rightarrow> retired_id list \<Rightarrow> upstream_channel \<Rightarrow> upstream_channel" where
  "reclaim_loop rnd now [] c = c\<lparr>ch_retired_ids := []\<rparr>"
| "reclaim_loop rnd now ((reusable_at, ident) # rest) c =
     (if reusable_at \<le> now
      then let c1 = c\<lparr>ch_retired_ids := rest\<rparr> in
        if unat ident \<ge> capacity c1 \<or> ch_id_states c1 ident \<noteq> IdRetired \<or> ch_slots c1 ident \<noteq> None
        then reclaim_loop rnd now rest (count_invariant_failure c1)
        else reclaim_loop rnd now rest (insert_free_id rnd ident (set_id_state ident IdFree c1))
      else c\<lparr>ch_retired_ids := (reusable_at, ident) # rest\<rparr>)"

definition reclaim_ids :: "(nat \<Rightarrow> nat) \<Rightarrow> int \<Rightarrow> upstream_channel \<Rightarrow> upstream_channel" where
  "reclaim_ids rnd now c = reclaim_loop rnd now (ch_retired_ids c) c"

function allocate_loop :: "upstream_channel \<Rightarrow> u16 option \<times> upstream_channel" where
  "allocate_loop c =
     (if ch_free_ids c = [] then (None, c)
      else let ident = last (ch_free_ids c);
               c1 = c\<lparr>ch_free_ids := butlast (ch_free_ids c)\<rparr>
           in if unat ident \<ge> capacity c1 \<or> ch_id_states c1 ident \<noteq> IdFree \<or> ch_slots c1 ident \<noteq> None
              then allocate_loop (count_invariant_failure c1)
              else (Some ident, set_id_state ident IdPending c1))"
  by pat_completeness auto
termination by (relation "measure (\<lambda>c. length (ch_free_ids c))") (auto simp: count_invariant_failure_def)

declare allocate_loop.simps [simp del]

definition allocate_id :: "(nat \<Rightarrow> nat) \<Rightarrow> int \<Rightarrow> upstream_channel \<Rightarrow> u16 option \<times> upstream_channel" where
  "allocate_id rnd now c = allocate_loop (reclaim_ids rnd now c)"

text \<open>\<open>std::shuffle\<close>: every position is exchanged with a uniformly drawn earlier one.\<close>

fun shuffle_loop :: "(nat \<Rightarrow> nat) \<Rightarrow> nat \<Rightarrow> nat \<Rightarrow> 'a list \<Rightarrow> 'a list" where
  "shuffle_loop rnd k 0 xs = xs"
| "shuffle_loop rnd k (Suc i) xs = shuffle_loop rnd (k + 1) i (swap_at i (uniform_index rnd k (i + 1)) xs)"

definition sequential_ids :: "channel_config \<Rightarrow> u16 list" where
  "sequential_ids cfg =
     (let first = unat (initial_transaction_id cfg) mod transaction_id_capacity cfg
      in map (\<lambda>remaining. word_of_nat ((first + remaining - 1) mod transaction_id_capacity cfg))
           (rev [1..<transaction_id_capacity cfg + 1]))"

definition initialize_id_pool :: "(nat \<Rightarrow> nat) \<Rightarrow> channel_config \<Rightarrow> upstream_channel \<Rightarrow> upstream_channel" where
  "initialize_id_pool rnd cfg c =
     (let ids = (if randomize_transaction_ids cfg
                 then let all = map word_of_nat [0..<transaction_id_capacity cfg]
                      in shuffle_loop rnd 0 (length all) all
                 else sequential_ids cfg)
      in c\<lparr>ch_free_ids := ids, ch_retired_ids := [],
           ch_draws := (if randomize_transaction_ids cfg then transaction_id_capacity cfg else ch_draws c),
           ch_id_states := (\<lambda>ident. if ident \<in> set ids then IdFree else IdUnavailable)\<rparr>)"

fun check_ids :: "upstream_channel \<Rightarrow> nat \<Rightarrow> id_state \<Rightarrow> u16 list \<Rightarrow> u16 set \<Rightarrow> u16 set option" where
  "check_ids c cap st [] seen = Some seen"
| "check_ids c cap st (ident # ids) seen =
     (if unat ident \<ge> cap \<or> ident \<in> seen \<or> ch_id_states c ident \<noteq> st \<or> ch_slots c ident \<noteq> None then None
      else check_ids c cap st ids (insert ident seen))"

definition check_slot :: "upstream_channel \<Rightarrow> nat \<Rightarrow> u16 set \<Rightarrow> nat \<Rightarrow> bool" where
  "check_slot c cap seen i =
     (let ident = word_of_nat i in
      if i \<ge> cap then ch_id_states c ident = IdUnavailable \<and> ch_slots c ident = None
      else ident \<in> seen \<and> ch_id_states c ident \<noteq> IdPending \<and> ch_slots c ident = None)"

definition validate_id_pool :: "nat \<Rightarrow> upstream_channel \<Rightarrow> bool" where
  "validate_id_pool cap c =
     (if cap = 0 \<or> cap > kTransactionIdSpace \<or> ch_pending_count c \<noteq> 0
         \<or> length (ch_free_ids c) + length (ch_retired_ids c) \<noteq> cap \<or> \<not> sorted (ch_retired_ids c) then False
      else case check_ids c cap IdFree (ch_free_ids c) {} of
        None \<Rightarrow> False
      | Some seen \<Rightarrow>
          (case check_ids c cap IdRetired (map snd (ch_retired_ids c)) seen of
             None \<Rightarrow> False
           | Some seen \<Rightarrow> list_all (check_slot c cap seen) [0..<kTransactionIdSpace] \<and> card seen = cap))"

section \<open>The pool invariant\<close>

definition pool_ok :: "upstream_channel \<Rightarrow> bool" where
  "pool_ok c \<longleftrightarrow> 0 < capacity c \<and> capacity c \<le> kTransactionIdSpace
     \<and> distinct (ch_free_ids c) \<and> distinct (map snd (ch_retired_ids c)) \<and> sorted (ch_retired_ids c)
     \<and> (\<forall>i. ch_id_states c i = IdFree \<longleftrightarrow> i \<in> set (ch_free_ids c))
     \<and> (\<forall>i. ch_id_states c i = IdRetired \<longleftrightarrow> i \<in> snd ` set (ch_retired_ids c))
     \<and> (\<forall>i. ch_id_states c i = IdUnavailable \<longleftrightarrow> capacity c \<le> unat i)
     \<and> (\<forall>i. ch_slots c i \<noteq> None \<longrightarrow> ch_id_states c i = IdPending)"

lemma pool_okD:
  assumes "pool_ok c"
  shows "0 < capacity c" "capacity c \<le> kTransactionIdSpace" "distinct (ch_free_ids c)"
    "distinct (map snd (ch_retired_ids c))" "sorted (ch_retired_ids c)"
    "ch_id_states c i = IdFree \<longleftrightarrow> i \<in> set (ch_free_ids c)"
    "ch_id_states c i = IdRetired \<longleftrightarrow> i \<in> snd ` set (ch_retired_ids c)"
    "ch_id_states c i = IdUnavailable \<longleftrightarrow> capacity c \<le> unat i"
    "ch_id_states c i \<noteq> IdPending \<Longrightarrow> ch_slots c i = None"
  using assms unfolding pool_ok_def by blast+

text \<open>The parts of the channel that the pool does not touch.\<close>

definition off_pool :: "upstream_channel \<Rightarrow> upstream_channel" where
  "off_pool c = c\<lparr>ch_id_states := (\<lambda>_. IdFree), ch_free_ids := [], ch_retired_ids := [], ch_draws := 0\<rparr>"

lemma off_poolD:
  assumes "off_pool c' = off_pool c"
  shows "ch_config c' = ch_config c" "ch_stats c' = ch_stats c" "ch_slots c' = ch_slots c"
    "ch_pending_count c' = ch_pending_count c" "ch_running c' = ch_running c" "ch_accepting c' = ch_accepting c"
    "ch_scheduler c' = ch_scheduler c" "ch_timers c' = ch_timers c" "ch_has_started c' = ch_has_started c"
    "ch_socket_fd c' = ch_socket_fd c"
  using arg_cong [OF assms, of ch_config] arg_cong [OF assms, of ch_stats] arg_cong [OF assms, of ch_slots]
    arg_cong [OF assms, of ch_pending_count] arg_cong [OF assms, of ch_running] arg_cong [OF assms, of ch_accepting]
    arg_cong [OF assms, of ch_scheduler] arg_cong [OF assms, of ch_timers] arg_cong [OF assms, of ch_has_started]
    arg_cong [OF assms, of ch_socket_fd]
  by (simp_all add: off_pool_def)

lemma mset_swap_at:
  assumes "i < length xs" and "j < length xs"
  shows "mset (swap_at i j xs) = mset xs"
  using mset_swap [OF assms(2,1)] by (simp add: swap_at_def)

lemma mset_insert_free_id: "mset (ch_free_ids (insert_free_id rnd ident c)) = add_mset ident (mset (ch_free_ids c))"
proof -
  have "uniform_index rnd k (Suc n) < Suc n" for k n by (simp add: uniform_index_def)
  then show ?thesis by (simp add: insert_free_id_def Let_def mset_swap_at)
qed

lemma set_insert_free_id [simp]: "set (ch_free_ids (insert_free_id rnd ident c)) = insert ident (set (ch_free_ids c))"
  by (metis mset_insert_free_id set_mset_add_mset_insert set_mset_mset)

lemma distinct_insert_free_id:
  "distinct (ch_free_ids (insert_free_id rnd ident c)) \<longleftrightarrow> ident \<notin> set (ch_free_ids c) \<and> distinct (ch_free_ids c)"
  using mset_eq_imp_distinct_iff [of "ch_free_ids (insert_free_id rnd ident c)" "ident # ch_free_ids c"]
  by (simp add: mset_insert_free_id)

lemma insert_free_id_frame [simp]:
  "ch_id_states (insert_free_id rnd ident c) = ch_id_states c" "ch_retired_ids (insert_free_id rnd ident c) = ch_retired_ids c"
  "ch_config (insert_free_id rnd ident c) = ch_config c" "ch_slots (insert_free_id rnd ident c) = ch_slots c"
  "off_pool (insert_free_id rnd ident c) = off_pool c"
  by (simp_all add: insert_free_id_def Let_def off_pool_def)

lemma set_id_state_frame [simp]:
  "ch_id_states (set_id_state ident st c) = (ch_id_states c)(ident := st)"
  "ch_retired_ids (set_id_state ident st c) = ch_retired_ids c" "ch_free_ids (set_id_state ident st c) = ch_free_ids c"
  "ch_config (set_id_state ident st c) = ch_config c" "ch_slots (set_id_state ident st c) = ch_slots c"
  "off_pool (set_id_state ident st c) = off_pool c"
  by (simp_all add: set_id_state_def off_pool_def)

lemma off_pool_retired [simp]: "off_pool (c\<lparr>ch_retired_ids := r\<rparr>) = off_pool c" "off_pool (c\<lparr>ch_free_ids := f\<rparr>) = off_pool c"
  by (simp_all add: off_pool_def)

section \<open>Releasing, reclaiming and allocating\<close>

text \<open>Every change of the pool moves one ID from a list to a list; the invariant follows from the sets.\<close>

lemma pool_ok_move:
  assumes "pool_ok c" and "off_pool c' = off_pool c" and "ch_id_states c' = (ch_id_states c)(ident := st)"
    and "unat ident < capacity c" and "ch_slots c ident = None" and "st \<noteq> IdUnavailable"
    and "distinct (ch_free_ids c')" and "distinct (map snd (ch_retired_ids c'))" and "sorted (ch_retired_ids c')"
    and "set (ch_free_ids c') = (if st = IdFree then insert ident (set (ch_free_ids c)) else set (ch_free_ids c) - {ident})"
    and "snd ` set (ch_retired_ids c') =
       (if st = IdRetired then insert ident (snd ` set (ch_retired_ids c)) else snd ` set (ch_retired_ids c) - {ident})"
  shows "pool_ok c'"
  using pool_okD [OF assms(1)] off_poolD [OF assms(2)] assms(3-) unfolding pool_ok_def by (auto split: if_splits)

lemma release_id_free:
  fixes rnd :: "nat \<Rightarrow> nat" and now :: int
  assumes "pool_ok c" and "ch_id_states c ident = IdPending" and "ch_slots c ident = None"
    and "\<not> quarantine \<or> id_reuse_guard (ch_config c) \<le> 0"
  defines "c' \<equiv> release_id rnd ident now quarantine c"
  shows "pool_ok c' \<and> off_pool c' = off_pool c \<and> ch_id_states c' = (ch_id_states c)(ident := IdFree)
    \<and> ch_retired_ids c' = ch_retired_ids c"
proof -
  have u: "unat ident < capacity c" using pool_okD(8) [OF assms(1), of ident] assms(2) by auto
  have e: "c' = insert_free_id rnd ident (set_id_state ident IdFree c)"
    using u assms by (simp add: release_id_def)
  have n: "ident \<notin> set (ch_free_ids c)" "ident \<notin> snd ` set (ch_retired_ids c)"
    using pool_okD(6,7) [OF assms(1), of ident] assms(2) by auto
  have "pool_ok c'"
    by (rule pool_ok_move [OF assms(1) _ _ u assms(3), where st = IdFree])
      (use pool_okD [OF assms(1)] n in \<open>auto simp: e distinct_insert_free_id\<close>)
  then show ?thesis by (simp add: e)
qed

lemma release_id_retire:
  fixes rnd :: "nat \<Rightarrow> nat" and now :: int
  assumes "pool_ok c" and "ch_id_states c ident = IdPending" and "ch_slots c ident = None"
    and "quarantine" and "0 < id_reuse_guard (ch_config c)"
  defines "c' \<equiv> release_id rnd ident now quarantine c"
  shows "pool_ok c' \<and> off_pool c' = off_pool c \<and> ch_id_states c' = (ch_id_states c)(ident := IdRetired)
    \<and> set (ch_retired_ids c') = insert (guarded_reuse_time (ch_config c) now, ident) (set (ch_retired_ids c))
    \<and> ch_free_ids c' = ch_free_ids c"
proof -
  let ?x = "(guarded_reuse_time (ch_config c) now, ident)"
  have u: "unat ident < capacity c" using pool_okD(8) [OF assms(1), of ident] assms(2) by auto
  have e: "c' = (set_id_state ident IdRetired c)\<lparr>ch_retired_ids := insort ?x (ch_retired_ids c)\<rparr>"
    using u assms by (simp add: release_id_def)
  have n: "ident \<notin> set (ch_free_ids c)" "ident \<notin> snd ` set (ch_retired_ids c)"
    using pool_okD(6,7) [OF assms(1), of ident] assms(2) by auto
  have "mset (map snd (insort ?x (ch_retired_ids c))) = mset (ident # map snd (ch_retired_ids c))" by simp
  from mset_eq_imp_distinct_iff [OF this] n pool_okD(4) [OF assms(1)]
  have d: "distinct (map snd (insort ?x (ch_retired_ids c)))" by simp
  have "pool_ok c'"
    by (rule pool_ok_move [OF assms(1) _ _ u assms(3), where st = IdRetired])
      (use pool_okD [OF assms(1)] n d in \<open>auto simp: e sorted_insort set_insort_key\<close>)
  then show ?thesis by (simp add: e set_insort_key)
qed

lemma reclaim_loop_correct:
  fixes rnd :: "nat \<Rightarrow> nat" and now :: int
  assumes "pool_ok c" and "ch_retired_ids c = rs"
  defines "c' \<equiv> reclaim_loop rnd now rs c"
  shows "pool_ok c' \<and> off_pool c' = off_pool c \<and> ch_retired_ids c' = filter (\<lambda>r. now < fst r) rs
    \<and> set (ch_free_ids c') = set (ch_free_ids c) \<union> snd ` set (filter (\<lambda>r. fst r \<le> now) rs)"
  using assms(1,2) unfolding c'_def
proof (induction rs arbitrary: c)
  case Nil
  then have e: "reclaim_loop rnd now [] c = c" by simp
  show ?case using Nil by (simp only: e) simp
next
  case (Cons r rs)
  obtain at ident where r: "r = (at, ident)" by fastforce
  show ?case
  proof (cases "at \<le> now")
    case False
    have "sorted (r # rs)" using pool_okD(5) [OF Cons.prems(1)] Cons.prems(2) by simp
    then have "\<forall>x \<in> set rs. now < fst x" using False by (auto simp: r less_eq_prod_def)
    moreover from this have "filter (\<lambda>x. now < fst x) rs = rs" "filter (\<lambda>x. fst x \<le> now) rs = []"
      by (auto simp: filter_id_conv filter_empty_conv)
    moreover have e: "reclaim_loop rnd now (r # rs) c = c" using Cons.prems(2) False by (simp add: r)
    ultimately show ?thesis using False Cons.prems by (simp only: e) (simp add: r)
  next
    case True
    have st: "ch_id_states c ident = IdRetired" using pool_okD(7) [OF Cons.prems(1), of ident] Cons.prems(2) by (simp add: r)
    then have u: "unat ident < capacity c" "ch_slots c ident = None"
      using pool_okD(8,9) [OF Cons.prems(1), of ident] by auto
    define c1 where "c1 = insert_free_id rnd ident (set_id_state ident IdFree (c\<lparr>ch_retired_ids := rs\<rparr>))"
    have n: "ident \<notin> set (ch_free_ids c)" "ident \<notin> snd ` set rs"
      using pool_okD(4) [OF Cons.prems(1)] pool_okD(6) [OF Cons.prems(1), of ident] st Cons.prems(2) by (auto simp: r)
    have "pool_ok c1"
      by (rule pool_ok_move [OF Cons.prems(1) _ _ u, where st = IdFree])
        (use pool_okD [OF Cons.prems(1)] Cons.prems(2) n in \<open>auto simp: c1_def distinct_insert_free_id r\<close>)
    from Cons.IH [OF this] have ih: "pool_ok (reclaim_loop rnd now rs c1)" "off_pool (reclaim_loop rnd now rs c1) = off_pool c1"
      "ch_retired_ids (reclaim_loop rnd now rs c1) = filter (\<lambda>r. now < fst r) rs"
      "set (ch_free_ids (reclaim_loop rnd now rs c1)) = set (ch_free_ids c1) \<union> snd ` set (filter (\<lambda>r. fst r \<le> now) rs)"
      by (simp_all add: c1_def)
    have "reclaim_loop rnd now (r # rs) c = reclaim_loop rnd now rs c1"
      using True st u by (simp add: r c1_def Let_def)
    with ih True show ?thesis by (auto simp: r c1_def)
  qed
qed

text \<open>The IDs that may be given out at a given time: free ones, and retired ones whose guard has passed.\<close>

definition available_ids :: "upstream_channel \<Rightarrow> int \<Rightarrow> u16 set" where
  "available_ids c now = {i. ch_id_states c i = IdFree} \<union> {i. \<exists>at. (at, i) \<in> set (ch_retired_ids c) \<and> at \<le> now}"

lemma reclaim_ids_correct:
  fixes rnd :: "nat \<Rightarrow> nat" and now :: int
  assumes "pool_ok c"
  defines "c' \<equiv> reclaim_ids rnd now c"
  shows "pool_ok c'" and "off_pool c' = off_pool c" and "set (ch_free_ids c') = available_ids c now"
    and "ch_retired_ids c' = filter (\<lambda>r. now < fst r) (ch_retired_ids c)"
  using reclaim_loop_correct [OF assms(1) refl, of rnd now] pool_okD(6) [OF assms(1)]
  by (force simp: c'_def reclaim_ids_def available_ids_def)+

lemma pending_reclaim:
  assumes "pool_ok c"
  shows "ch_id_states (reclaim_ids rnd now c) i = IdPending \<longleftrightarrow> ch_id_states c i = IdPending"
proof -
  let ?c = "reclaim_ids rnd now c"
  note r = reclaim_ids_correct [OF assms, of rnd now]
  have "ch_id_states ?c i = IdPending \<longleftrightarrow> i \<notin> set (ch_free_ids ?c) \<and> i \<notin> snd ` set (ch_retired_ids ?c) \<and> unat i < capacity c"
    using pool_okD(6-8) [OF r(1), of i] off_poolD [OF r(2)] by (cases "ch_id_states ?c i") auto
  also have "\<dots> \<longleftrightarrow> i \<notin> set (ch_free_ids c) \<and> i \<notin> snd ` set (ch_retired_ids c) \<and> unat i < capacity c"
    using r(3,4) pool_okD(6) [OF assms, of i] by (force simp: available_ids_def)
  also have "\<dots> \<longleftrightarrow> ch_id_states c i = IdPending"
    using pool_okD(6-8) [OF assms, of i] by (cases "ch_id_states c i") auto
  finally show ?thesis .
qed

lemma allocate_id_correct:
  assumes "pool_ok c" and "allocate_id rnd now c = (r, c')"
  shows "pool_ok c' \<and> off_pool c' = off_pool c \<and> (r = None \<longleftrightarrow> available_ids c now = {})
    \<and> (\<forall>i. ch_id_states c' i = IdPending \<longleftrightarrow> r = Some i \<or> ch_id_states c i = IdPending)
    \<and> ch_retired_ids c' = filter (\<lambda>r. now < fst r) (ch_retired_ids c)
    \<and> (\<forall>i. r = Some i \<longrightarrow> i \<in> available_ids c now \<and> ch_slots c i = None \<and> unat i < capacity c \<and> ch_id_states c i \<noteq> IdPending)"
proof -
  define c1 where "c1 = reclaim_ids rnd now c"
  note r1 = reclaim_ids_correct [OF assms(1), of rnd now, folded c1_def]
  have a: "allocate_loop c1 = (r, c')" using assms(2) by (simp add: allocate_id_def c1_def)
  show ?thesis
  proof (cases "ch_free_ids c1 = []")
    case True
    then have "r = None" "c' = c1" using a by (simp_all add: allocate_loop.simps)
    with r1 True pending_reclaim [OF assms(1)] show ?thesis by (auto simp: c1_def)
  next
    case False
    let ?i = "last (ch_free_ids c1)"
    have m: "?i \<in> set (ch_free_ids c1)" using False by simp
    then have st: "ch_id_states c1 ?i = IdFree" using pool_okD(6) [OF r1(1)] by blast
    then have u: "unat ?i < capacity c1" "ch_slots c1 ?i = None"
      using pool_okD(8) [OF r1(1), of ?i] pool_okD(9) [OF r1(1), of ?i] by auto
    have e: "r = Some ?i" "c' = set_id_state ?i IdPending (c1\<lparr>ch_free_ids := butlast (ch_free_ids c1)\<rparr>)"
      using a False st u by (auto simp: allocate_loop.simps Let_def)
    have f: "ch_free_ids c1 = butlast (ch_free_ids c1) @ [?i]" using False by simp
    then have d: "distinct (butlast (ch_free_ids c1) @ [?i])" using pool_okD(3) [OF r1(1)] by metis
    have sets: "set (butlast (ch_free_ids c1)) = set (ch_free_ids c1) - {?i}"
      using d f by (metis Diff_insert_absorb distinct.simps(2) distinct1_rotate insert_Diff_single list.set(2) rotate1.simps(2) set_rotate1)
    have nr: "?i \<notin> snd ` set (ch_retired_ids c1)" using pool_okD(7) [OF r1(1), of ?i] st by simp
    have "pool_ok c'"
      by (rule pool_ok_move [OF r1(1) _ _ u, where st = IdPending])
        (use pool_okD(3-5) [OF r1(1)] d sets nr in \<open>simp_all add: e\<close>)
    moreover have "off_pool c' = off_pool c" using r1(2) by (simp add: e)
    moreover have "ch_id_states c' i = IdPending \<longleftrightarrow> r = Some i \<or> ch_id_states c i = IdPending" for i
      using pending_reclaim [OF assms(1), of rnd now i] by (auto simp: e c1_def)
    moreover have "ch_retired_ids c' = filter (\<lambda>r. now < fst r) (ch_retired_ids c)" using r1(4) by (simp add: e)
    ultimately show ?thesis
      using m st u r1 e(1) off_poolD [OF r1(2)] pending_reclaim [OF assms(1), of rnd now ?i] by (auto simp: c1_def)
  qed
qed

section \<open>Initial pools and the audit\<close>

lemma mset_shuffle_loop: "i \<le> length xs \<Longrightarrow> mset (shuffle_loop rnd k i xs) = mset xs"
proof (induction i arbitrary: k xs)
  case (Suc i)
  have u: "uniform_index rnd k (Suc i) < Suc i" by (simp add: uniform_index_def)
  then have "uniform_index rnd k (Suc i) < length xs" using Suc.prems by simp
  with mset_swap_at [of i xs "uniform_index rnd k (Suc i)"] Suc.prems
  have "mset (swap_at i (uniform_index rnd k (Suc i)) xs) = mset xs" by simp
  moreover have "length (swap_at i (uniform_index rnd k (Suc i)) xs) = length xs" by (simp add: swap_at_def)
  ultimately show ?case using Suc by simp
qed simp

lemma unat_word_of_nat_id: "n < kTransactionIdSpace \<Longrightarrow> unat (word_of_nat n :: u16) = n"
  by (simp add: kTransactionIdSpace_def unat_of_nat_u16)

lemma unat_less_space: "unat (i :: u16) < kTransactionIdSpace"
  using unsigned_less [of i] by (simp add: kTransactionIdSpace_def)

lemma id_range: "cap \<le> kTransactionIdSpace \<Longrightarrow> (word_of_nat :: nat \<Rightarrow> u16) ` {..<cap} = {i. unat i < cap}"
  by (force simp: unat_word_of_nat_id image_iff)

lemma inj_word_of_nat_id: "cap \<le> kTransactionIdSpace \<Longrightarrow> inj_on (word_of_nat :: nat \<Rightarrow> u16) {..<cap}"
  by (rule inj_onI) (metis lessThan_iff order_less_le_trans unat_word_of_nat_id)

lemma card_ids: "cap \<le> kTransactionIdSpace \<Longrightarrow> card {i :: u16. unat i < cap} = cap"
  by (metis card_image card_lessThan id_range inj_word_of_nat_id)

lemma rotation_inj:
  assumes "0 < (n :: nat)"
  shows "inj_on (\<lambda>r. (first + r - 1) mod n) {1..<n + 1}"
proof (rule inj_onI)
  fix x y assume x: "x \<in> {1..<n + 1}" and y: "y \<in> {1..<n + 1}" and e: "(first + x - 1) mod n = (first + y - 1) mod n"
  have "a = b" if "a \<le> b" "b < a + n" "a mod n = b mod n" for a b :: nat
    using that by (metis add_diff_inverse_nat add_less_cancel_left dvd_imp_le le_add_diff_inverse less_le_not_le
        mod_eq_dvd_iff_nat not_gr_zero not_less zero_less_diff)
  from this [of "first + x - 1" "first + y - 1"] this [of "first + y - 1" "first + x - 1"] x y e
  have "first + x - 1 = first + y - 1" by (cases "x \<le> y") (simp, fastforce)+
  with x y show "x = y" by auto
qed

lemma sequential_ids_perm:
  assumes "0 < transaction_id_capacity cfg" and "transaction_id_capacity cfg \<le> kTransactionIdSpace"
  shows "distinct (sequential_ids cfg) \<and> set (sequential_ids cfg) = {i. unat i < transaction_id_capacity cfg}"
proof -
  let ?n = "transaction_id_capacity cfg"
  let ?f = "\<lambda>r. (unat (initial_transaction_id cfg) mod ?n + r - 1) mod ?n"
  have inj: "inj_on ?f {1..<?n + 1}" by (rule rotation_inj [OF assms(1)])
  have sub: "?f ` {1..<?n + 1} \<subseteq> {..<?n}" using assms(1) by auto
  have "card (?f ` {1..<?n + 1}) = card {..<?n}" using card_image [OF inj] by simp
  with sub have img: "?f ` {1..<?n + 1} = {..<?n}" by (simp add: card_subset_eq)
  have "distinct (sequential_ids cfg)"
  proof -
    have "inj_on ((word_of_nat :: nat \<Rightarrow> u16) \<circ> ?f) {1..<?n + 1}"
      by (rule comp_inj_on [OF inj]) (simp only: img inj_word_of_nat_id [OF assms(2)])
    moreover have "set (rev [1..<?n + 1]) = {1..<?n + 1}" by (simp only: set_rev set_upt)
    moreover have "sequential_ids cfg = map ((word_of_nat :: nat \<Rightarrow> u16) \<circ> ?f) (rev [1..<?n + 1])" by (simp only: sequential_ids_def Let_def comp_def)
    ultimately show ?thesis by (simp only: distinct_map distinct_rev distinct_upt)
  qed
  moreover have "set (sequential_ids cfg) = word_of_nat ` (?f ` {1..<?n + 1})"
    by (simp only: sequential_ids_def Let_def image_image set_map set_rev set_upt)
  ultimately show ?thesis using id_range [OF assms(2)] img by simp
qed

lemma initialize_id_pool_ok:
  fixes rnd :: "nat \<Rightarrow> nat" and c :: upstream_channel
  assumes "0 < transaction_id_capacity cfg" and "transaction_id_capacity cfg \<le> kTransactionIdSpace"
  defines "c' \<equiv> initialize_id_pool rnd cfg (c :: upstream_channel)"
  shows "distinct (ch_free_ids c') \<and> set (ch_free_ids c') = {i. unat i < transaction_id_capacity cfg}
    \<and> ch_retired_ids c' = [] \<and> off_pool c' = off_pool c
    \<and> (\<forall>i. ch_id_states c' i = (if unat i < transaction_id_capacity cfg then IdFree else IdUnavailable))"
proof -
  let ?n = "transaction_id_capacity cfg"
  let ?all = "map word_of_nat [0..<?n] :: u16 list"
  have m: "mset (shuffle_loop rnd 0 (length ?all) ?all) = mset ?all" by (rule mset_shuffle_loop) simp
  have "set ?all = {i. unat i < ?n}" using id_range [OF assms(2)] by (simp add: lessThan_atLeast0)
  moreover have "distinct ?all" using inj_word_of_nat_id [OF assms(2)] by (simp add: distinct_map lessThan_atLeast0)
  ultimately have r: "distinct (shuffle_loop rnd 0 (length ?all) ?all)"
      "set (shuffle_loop rnd 0 (length ?all) ?all) = {i. unat i < ?n}"
    using mset_eq_imp_distinct_iff [OF m] mset_eq_setD [OF m] by simp_all
  with sequential_ids_perm [OF assms(1,2)] show ?thesis
    unfolding c'_def initialize_id_pool_def Let_def off_pool_def by simp
qed

lemma check_ids_Some:
  "check_ids c cap st ids seen = Some seen' \<longleftrightarrow>
     distinct ids \<and> set ids \<inter> seen = {} \<and> seen' = seen \<union> set ids
     \<and> (\<forall>i \<in> set ids. unat i < cap \<and> ch_id_states c i = st \<and> ch_slots c i = None)"
proof (induction ids arbitrary: seen)
  case Nil
  then show ?case by auto
next
  case (Cons i ids)
  show ?case
  proof (cases "unat i \<ge> cap \<or> i \<in> seen \<or> ch_id_states c i \<noteq> st \<or> ch_slots c i \<noteq> None")
    case True
    then have "check_ids c cap st (i # ids) seen = None" by simp
    moreover have "\<not> (unat i < cap \<and> i \<notin> seen \<and> ch_id_states c i = st \<and> ch_slots c i = None)" using True by (meson not_le)
    ultimately show ?thesis by auto
  next
    case False
    then have e: "check_ids c cap st (i # ids) seen = check_ids c cap st ids (insert i seen)" by simp
    show ?thesis unfolding e Cons.IH using False by (auto simp: not_le)
  qed
qed

lemma all_slots:
  "list_all (check_slot c cap seen) [0..<kTransactionIdSpace] \<longleftrightarrow>
     (\<forall>i. ch_slots c i = None \<and> (if cap \<le> unat i then ch_id_states c i = IdUnavailable
          else i \<in> seen \<and> ch_id_states c i \<noteq> IdPending))"
proof -
  have "list_all (check_slot c cap seen) [0..<kTransactionIdSpace] \<longleftrightarrow> (\<forall>i :: u16. check_slot c cap seen (unat i))"
    by (auto simp: list_all_iff unat_less_space) (metis unat_word_of_nat_id)
  then show ?thesis by (auto simp: check_slot_def Let_def split: if_splits)
qed

lemma pool_sets:
  assumes "pool_ok c"
  shows "set (ch_free_ids c) = {i. ch_id_states c i = IdFree}" "snd ` set (ch_retired_ids c) = {i. ch_id_states c i = IdRetired}"
    "{i. unat i < capacity c} = {i. ch_id_states c i \<noteq> IdUnavailable}"
proof -
  have "i \<in> set (ch_free_ids c) \<longleftrightarrow> ch_id_states c i = IdFree" "i \<in> snd ` set (ch_retired_ids c) \<longleftrightarrow> ch_id_states c i = IdRetired"
    "unat i < capacity c \<longleftrightarrow> ch_id_states c i \<noteq> IdUnavailable" for i
    using pool_okD(6-8) [OF assms, of i] by (simp_all add: not_le)
  then show "set (ch_free_ids c) = {i. ch_id_states c i = IdFree}" "snd ` set (ch_retired_ids c) = {i. ch_id_states c i = IdRetired}"
    "{i. unat i < capacity c} = {i. ch_id_states c i \<noteq> IdUnavailable}" by blast+
qed

lemma validate_id_pool_spec:
  "validate_id_pool (capacity c) c \<longleftrightarrow>
     pool_ok c \<and> ch_pending_count c = 0 \<and> (\<forall>i. ch_slots c i = None \<and> ch_id_states c i \<noteq> IdPending)"
proof
  assume v: "validate_id_pool (capacity c) c"
  let ?F = "set (ch_free_ids c)" let ?R = "snd ` set (ch_retired_ids c)"
  from v have b: "0 < capacity c" "capacity c \<le> kTransactionIdSpace" "ch_pending_count c = 0" "sorted (ch_retired_ids c)"
    by (auto simp: validate_id_pool_def split: if_splits)
  from v obtain s1 s2 where s: "check_ids c (capacity c) IdFree (ch_free_ids c) {} = Some s1"
      "check_ids c (capacity c) IdRetired (map snd (ch_retired_ids c)) s1 = Some s2"
      "list_all (check_slot c (capacity c) s2) [0..<kTransactionIdSpace]"
    by (auto simp: validate_id_pool_def split: if_splits option.splits)
  from s(1,2) have d: "distinct (ch_free_ids c)" "distinct (map snd (ch_retired_ids c))" "s2 = ?F \<union> ?R"
      "\<forall>i \<in> ?F. unat i < capacity c \<and> ch_id_states c i = IdFree" "\<forall>i \<in> ?R. unat i < capacity c \<and> ch_id_states c i = IdRetired"
    unfolding check_ids_Some by auto
  have a: "ch_slots c i = None" "capacity c \<le> unat i \<Longrightarrow> ch_id_states c i = IdUnavailable"
      "unat i < capacity c \<Longrightarrow> i \<in> ?F \<union> ?R \<and> ch_id_states c i \<noteq> IdPending" for i
    using s(3) unfolding all_slots d(3) by (metis leD)+
  have "pool_ok c" unfolding pool_ok_def
  proof (intro conjI allI)
    fix i
    show "(ch_id_states c i = IdFree) = (i \<in> ?F)" using d a(2,3) [of i] by (cases "unat i < capacity c") auto
    show "(ch_id_states c i = IdRetired) = (i \<in> ?R)" using d a(2,3) [of i] by (cases "unat i < capacity c") auto
    show "(ch_id_states c i = IdUnavailable) = (capacity c \<le> unat i)" using d a(2,3) [of i] by (cases "unat i < capacity c") auto
    show "ch_slots c i \<noteq> None \<longrightarrow> ch_id_states c i = IdPending" using a by simp
  qed (use b d in auto)
  moreover have "ch_id_states c i \<noteq> IdPending" for i using a(2,3) [of i] by (cases "unat i < capacity c") auto
  ultimately show "pool_ok c \<and> ch_pending_count c = 0 \<and> (\<forall>i. ch_slots c i = None \<and> ch_id_states c i \<noteq> IdPending)"
    using b(3) a(1) by simp
next
  assume p: "pool_ok c \<and> ch_pending_count c = 0 \<and> (\<forall>i. ch_slots c i = None \<and> ch_id_states c i \<noteq> IdPending)"
  then have p0: "pool_ok c" by simp
  note k = pool_okD [OF p0]
  let ?F = "set (ch_free_ids c)" let ?R = "snd ` set (ch_retired_ids c)"
  have disj: "?F \<inter> ?R = {}" unfolding pool_sets [OF p0] by auto
  have "ch_id_states c i = IdFree \<or> ch_id_states c i = IdRetired \<longleftrightarrow> ch_id_states c i \<noteq> IdUnavailable" for i
    using p by (cases "ch_id_states c i") auto
  then have all: "?F \<union> ?R = {i. unat i < capacity c}" unfolding pool_sets [OF p0] by auto
  have "length (ch_free_ids c) + length (ch_retired_ids c) = card ?F + card ?R"
    using k(3,4) by (metis distinct_card length_map list.set_map)
  also have "\<dots> = capacity c"
    using disj all card_ids [OF k(2)] by (metis card_Un_disjoint finite_set finite_imageI)
  finally have len: "length (ch_free_ids c) + length (ch_retired_ids c) = capacity c" .
  have c1: "check_ids c (capacity c) IdFree (ch_free_ids c) {} = Some ?F"
    unfolding check_ids_Some using k p all by auto
  have c2: "check_ids c (capacity c) IdRetired (map snd (ch_retired_ids c)) ?F = Some (?F \<union> ?R)"
    unfolding check_ids_Some using k p all disj by auto
  have sl: "list_all (check_slot c (capacity c) (?F \<union> ?R)) [0..<kTransactionIdSpace]"
    unfolding all_slots all using k p by auto
  show "validate_id_pool (capacity c) c"
    unfolding validate_id_pool_def using len c1 c2 sl k(1,2,5) p card_ids [OF k(2)] all by simp
qed

text \<open>
  C38. The audit that runs when a channel starts and stops accepts a pool exactly when it satisfies the
  pool invariant and no ID is in use.
\<close>

theorem validate_id_pool_iff:
  "validate_id_pool (capacity c) c \<longleftrightarrow>
     pool_ok c \<and> ch_pending_count c = 0 \<and> (\<forall>i. ch_slots c i = None \<and> ch_id_states c i \<noteq> IdPending)"
  by (rule validate_id_pool_spec)

text \<open>The three kinds of ID partition the capacity.\<close>

lemma pool_partition:
  assumes "pool_ok c"
  shows "length (ch_free_ids c) + length (ch_retired_ids c) + card {i. ch_id_states c i = IdPending} = capacity c"
proof -
  note k = pool_okD [OF assms]
  let ?F = "set (ch_free_ids c)" let ?R = "snd ` set (ch_retired_ids c)" let ?P = "{i. ch_id_states c i = IdPending}"
  have "ch_id_states c i = IdFree \<or> ch_id_states c i = IdRetired \<or> ch_id_states c i = IdPending
      \<longleftrightarrow> ch_id_states c i \<noteq> IdUnavailable" for i
    by (cases "ch_id_states c i") auto
  then have "?F \<union> ?R \<union> ?P = {i. unat i < capacity c}" unfolding pool_sets [OF assms] by auto
  moreover have "?F \<inter> ?R = {}" "(?F \<union> ?R) \<inter> ?P = {}" unfolding pool_sets [OF assms] by auto
  moreover have "finite ?P" by simp
  ultimately have "card ?F + card ?R + card ?P = capacity c"
    using card_ids [OF k(2)] by (metis card_Un_disjoint finite_UnI finite_imageI finite_set)
  then show ?thesis using k(3,4) by (metis distinct_card length_map list.set_map)
qed

section \<open>Histories of the pool\<close>

text \<open>
  A use of the pool: an allocation at a time for a query, which takes its slot, or a release, which
  follows the clearing of the slot.
\<close>

datatype pool_event = Allocate int nat | Release u16 int bool

fun event_time :: "pool_event \<Rightarrow> int" where
  "event_time (Allocate now q) = now"
| "event_time (Release ident now quarantine) = now"

fun pool_step :: "(nat \<Rightarrow> nat) \<Rightarrow> pool_event \<Rightarrow> upstream_channel \<Rightarrow> u16 option \<times> upstream_channel" where
  "pool_step rnd (Allocate now q) c =
     (case allocate_id rnd now c of
        (None, c') \<Rightarrow> (None, c')
      | (Some ident, c') \<Rightarrow> (Some ident, c'\<lparr>ch_slots := (ch_slots c')(ident := Some q)\<rparr>))"
| "pool_step rnd (Release ident now quarantine) c =
     (None, release_id rnd ident now quarantine (c\<lparr>ch_slots := (ch_slots c)(ident := None)\<rparr>))"

fun run_pool :: "(nat \<Rightarrow> nat) \<Rightarrow> pool_event list \<Rightarrow> upstream_channel \<Rightarrow> u16 option list \<times> upstream_channel" where
  "run_pool rnd [] c = ([], c)"
| "run_pool rnd (e # es) c =
     (case pool_step rnd e c of (r, c1) \<Rightarrow> (case run_pool rnd es c1 of (rs, c2) \<Rightarrow> (r # rs, c2)))"

lemma pool_ok_slots:
  assumes "pool_ok c" and "\<And>i. slots i \<noteq> None \<Longrightarrow> ch_id_states c i = IdPending"
  shows "pool_ok (c\<lparr>ch_slots := slots\<rparr>)"
  using assms unfolding pool_ok_def by simp

lemma pool_slot_pending: "pool_ok c \<Longrightarrow> ch_slots c i = Some q \<Longrightarrow> ch_id_states c i = IdPending"
  unfolding pool_ok_def by simp

lemma pool_ok_clear_slot: "pool_ok c \<Longrightarrow> pool_ok (c\<lparr>ch_slots := (ch_slots c)(i := None)\<rparr>)"
  by (rule pool_ok_slots) (auto simp: pool_slot_pending split: if_splits)

lemma pool_ok_failure: "pool_ok c \<Longrightarrow> pool_ok (count_invariant_failure c)"
  unfolding pool_ok_def by (simp add: count_invariant_failure_def)

lemma release_id_keeps:
  assumes p: "pool_ok c" and n: "ch_slots c i = None" and r: "ch_id_states c j \<noteq> IdPending" "(at, j) \<in> set (ch_retired_ids c)"
  shows "pool_ok (release_id rnd i now quarantine c)" and "(at, j) \<in> set (ch_retired_ids (release_id rnd i now quarantine c))"
proof -
  consider (bad) "ch_id_states c i \<noteq> IdPending" | (free) "ch_id_states c i = IdPending" "\<not> quarantine \<or> id_reuse_guard (ch_config c) \<le> 0"
    | (retire) "ch_id_states c i = IdPending" "quarantine" "0 < id_reuse_guard (ch_config c)" by linarith
  then have "pool_ok (release_id rnd i now quarantine c) \<and> (at, j) \<in> set (ch_retired_ids (release_id rnd i now quarantine c))"
  proof cases
    case bad
    with p r pool_ok_failure [OF p] show ?thesis by (simp add: release_id_def) (simp add: count_invariant_failure_def)
  next
    case free
    with release_id_free [OF p free(1) n free(2), of rnd now] r show ?thesis by simp
  next
    case retire
    with release_id_retire [OF p retire(1) n retire(2,3), of rnd now] r show ?thesis by simp
  qed
  then show "pool_ok (release_id rnd i now quarantine c)" "(at, j) \<in> set (ch_retired_ids (release_id rnd i now quarantine c))"
    by blast+
qed

lemma retired_time_unique:
  assumes "pool_ok c" and "(a, i) \<in> set (ch_retired_ids c)" and "(b, i) \<in> set (ch_retired_ids c)"
  shows "a = b"
  using pool_okD(4) [OF assms(1)] assms(2,3) by (metis distinct_map inj_onD prod.inject snd_conv)

lemma allocate_step:
  assumes p: "pool_ok c" and r: "(at, i) \<in> set (ch_retired_ids c)" and s: "pool_step rnd (Allocate now q) c = (res, c1)"
  shows "pool_ok c1 \<and> (res = Some i \<longrightarrow> at \<le> now) \<and> (now < at \<longrightarrow> (at, i) \<in> set (ch_retired_ids c1))"
proof -
  obtain a c0 where a: "allocate_id rnd now c = (a, c0)" by fastforce
  note ac = allocate_id_correct [OF p a]
  have res: "res = a" "ch_retired_ids c1 = ch_retired_ids c0" using s a by (auto split: option.splits)
  have "pool_ok c1"
  proof (cases a)
    case None
    with s a ac show ?thesis by simp
  next
    case (Some j)
    then have "c1 = c0\<lparr>ch_slots := (ch_slots c0)(j := Some q)\<rparr>" using s a by simp
    moreover have "pool_ok c0" "ch_id_states c0 j = IdPending" using ac Some by auto
    ultimately show ?thesis by (auto intro!: pool_ok_slots dest: pool_slot_pending split: if_splits)
  qed
  moreover have "at \<le> now" if "res = Some i"
  proof -
    have "i \<in> available_ids c now" using ac res(1) that by blast
    moreover have "ch_id_states c i = IdRetired" using pool_okD(7) [OF p, of i] r by force
    ultimately obtain b where "(b, i) \<in> set (ch_retired_ids c)" "b \<le> now" by (auto simp: available_ids_def)
    with retired_time_unique [OF p r] show ?thesis by metis
  qed
  moreover have "(at, i) \<in> set (ch_retired_ids c1)" if "now < at" using ac r that res(2) by simp
  ultimately show ?thesis by blast
qed

lemma run_pool_guarded:
  assumes "pool_ok c" and "(at, i) \<in> set (ch_retired_ids c)" and "sorted (map event_time es)"
    and "run_pool rnd es c = (rs, c')" and "k < length es" and "rs ! k = Some i"
  shows "at \<le> event_time (es ! k)"
  using assms
proof (induction es arbitrary: c rs k)
  case Nil
  then show ?case by simp
next
  case (Cons e es)
  obtain r c1 where s: "pool_step rnd e c = (r, c1)" by fastforce
  obtain rs1 where rs: "run_pool rnd es c1 = (rs1, c')" "rs = r # rs1" using Cons.prems(4) s by (auto split: prod.splits)
  have le: "event_time e \<le> event_time ((e # es) ! k)" using Cons.prems(3,5) by (cases k) auto
  show ?case
  proof (cases e)
    case (Allocate now q)
    note st = allocate_step [OF Cons.prems(1,2) s [unfolded Allocate]]
    show ?thesis
    proof (cases "k = 0 \<or> at \<le> now")
      case True
      with st rs(2) Cons.prems(6) le Allocate show ?thesis by auto
    next
      case False
      then have "(at, i) \<in> set (ch_retired_ids c1)" "pool_ok c1" using st by auto
      with Cons.IH [of c1 rs1 "k - 1"] Cons.prems rs False show ?thesis by auto
    qed
  next
    case (Release j now quarantine)
    let ?c = "c\<lparr>ch_slots := (ch_slots c)(j := None)\<rparr>"
    have c1: "c1 = release_id rnd j now quarantine ?c" "r = None" using s Release by auto
    have "pool_ok ?c" by (rule pool_ok_clear_slot [OF Cons.prems(1)])
    moreover have "ch_id_states ?c i \<noteq> IdPending" using pool_okD(7) [OF Cons.prems(1), of i] Cons.prems(2) by force
    ultimately have "pool_ok c1" "(at, i) \<in> set (ch_retired_ids c1)"
      using release_id_keeps [of ?c j i at rnd now quarantine] Cons.prems(2) c1(1) by simp_all
    with Cons.IH [of c1 rs1 "k - 1"] Cons.prems rs c1(2) show ?thesis by (cases k) auto
  qed
qed

text \<open>
  C22. An ID that is retired when its query ends is not given to another query before its guard interval
  has passed (or the end of the clock's range, if that comes first), whatever else happens to the pool
  in between.
\<close>

theorem id_reuse_guarded:
  assumes "pool_ok c" and "ch_id_states c i = IdPending" and "0 < id_reuse_guard (ch_config c)"
    and "sorted (t # map event_time es)" and "run_pool rnd (Release i t True # es) c = (r # rs, c')"
    and "k < length es" and "rs ! k = Some i"
  shows "min (t + id_reuse_guard (ch_config c)) duration_max \<le> event_time (es ! k)"
proof -
  let ?c = "c\<lparr>ch_slots := (ch_slots c)(i := None)\<rparr>"
  have p: "pool_ok ?c" by (rule pool_ok_clear_slot [OF assms(1)])
  define c1 where "c1 = release_id rnd i t True ?c"
  from release_id_retire [OF p, of i True rnd t] assms(2,3)
  have c1: "pool_ok c1" "(guarded_reuse_time (ch_config c) t, i) \<in> set (ch_retired_ids c1)" by (simp_all add: c1_def)
  have "run_pool rnd es c1 = (rs, c')" using assms(5) by (auto simp: c1_def split: prod.splits)
  from run_pool_guarded [OF c1 _ this assms(6,7)] assms(4)
  have "guarded_reuse_time (ch_config c) t \<le> event_time (es ! k)" by simp
  then show ?thesis using assms(3) by (auto simp: guarded_reuse_time_def Let_def min_def split: if_splits)
qed

section \<open>Witnesses\<close>

definition small_config :: channel_config where
  "small_config = \<lparr>query_timeout = 2, id_reuse_guard = 4, transaction_id_capacity = 2, initial_transaction_id = 0,
     randomize_transaction_ids = False\<rparr>"

definition idle_channel :: "channel_config \<Rightarrow> upstream_channel" where
  "idle_channel cfg = \<lparr>ch_scheduler = None, ch_timers = False, ch_config = cfg, ch_stats = no_channel_stats,
     ch_slots = (\<lambda>_. None), ch_id_states = (\<lambda>_. IdUnavailable), ch_free_ids = [], ch_retired_ids = [], ch_draws = 0,
     ch_socket_fd = -1, ch_pending_count = 0, ch_running = False, ch_accepting = False, ch_has_started = False\<rparr>"

definition small_pool :: upstream_channel where
  "small_pool = initialize_id_pool id small_config (idle_channel small_config)"

lemma small_pool_ok: "pool_ok small_pool"
proof -
  have "0 < transaction_id_capacity small_config" "transaction_id_capacity small_config \<le> kTransactionIdSpace"
    by (simp_all add: small_config_def kTransactionIdSpace_def)
  from initialize_id_pool_ok [OF this, of id "idle_channel small_config"] this show ?thesis
    using off_poolD [of small_pool "idle_channel small_config"]
    unfolding pool_ok_def small_pool_def by (simp add: idle_channel_def not_less)
qed

lemma small_pool_fields:
  "ch_free_ids small_pool = [1, 0]" "ch_retired_ids small_pool = []" "ch_config small_pool = small_config"
  "ch_slots small_pool = (\<lambda>_. None)" "ch_id_states small_pool = (\<lambda>i. if i = 1 \<or> i = 0 then IdFree else IdUnavailable)"
  "ch_pending_count small_pool = 0" "ch_has_started small_pool = False"
  by (simp_all add: small_pool_def initialize_id_pool_def small_config_def sequential_ids_def idle_channel_def upt_rec)

definition busy_pool :: upstream_channel where
  "busy_pool = snd (pool_step id (Allocate 10 5) small_pool)"

lemma busy_pool_facts: "pool_ok busy_pool" "ch_id_states busy_pool 0 = IdPending" "id_reuse_guard (ch_config busy_pool) = 4"
  "run_pool id [Release 0 11 True, Allocate 20 6] busy_pool
     = ([None, Some 0], snd (run_pool id [Release 0 11 True, Allocate 20 6] busy_pool))"
proof -
  note e = small_pool_fields
  have r: "reclaim_ids id 10 small_pool = small_pool" using e(2) by (simp add: reclaim_ids_def)
  have a: "allocate_id id 10 small_pool = (Some 0, set_id_state 0 IdPending (small_pool\<lparr>ch_free_ids := [1]\<rparr>))"
    by (simp add: allocate_id_def r allocate_loop.simps e small_config_def)
  have b: "busy_pool = (set_id_state 0 IdPending (small_pool\<lparr>ch_free_ids := [1]\<rparr>))\<lparr>ch_slots := (\<lambda>_. None)(0 := Some 5)\<rparr>"
    by (simp add: busy_pool_def a) (simp add: set_id_state_def e)
  show "ch_id_states busy_pool 0 = IdPending" "id_reuse_guard (ch_config busy_pool) = 4"
    by (simp_all add: b e small_config_def)
  from allocate_id_correct [OF small_pool_ok a]
  show "pool_ok busy_pool" unfolding b by (intro pool_ok_slots) (auto split: if_splits)
  show "run_pool id [Release 0 11 True, Allocate 20 6] busy_pool
      = ([None, Some 0], snd (run_pool id [Release 0 11 True, Allocate 20 6] busy_pool))"
    by (simp add: b e release_id_def small_config_def guarded_reuse_time_def duration_max_def set_id_state_def
        allocate_id_def reclaim_ids_def insert_free_id_def allocate_loop.simps)
qed

lemma id_reuse_guarded_witness:
  "fst (run_pool id [Release 0 11 True, Allocate 20 6] busy_pool) = [None, Some 0]
   \<and> 15 \<le> event_time ([Allocate 20 6] ! 0)"
proof -
  have "15 \<le> event_time ([Allocate 20 6] ! 0)"
    using id_reuse_guarded [OF busy_pool_facts(1,2) _ _ busy_pool_facts(4), of 0]
    by (simp add: busy_pool_facts(3) duration_max_def)
  then show ?thesis using busy_pool_facts(4) by (metis fst_conv)
qed

end
