(* ===== verification/TimerQueue.thy ===== *)
theory TimerQueue
  imports Prelude "HOL-Library.Product_Lexorder" "HOL-Library.Multiset"
begin

text \<open>
  \<open>src/runtime/TimerQueue.{h,cpp}\<close>: the intrusive binary heap of deadlines that a worker keeps.

  Registrations are borrowed objects that the heap points to and that point back into the heap, so
  they are modelled as a store \<open>regs\<close> from addresses (natural numbers) to records, and the heap is
  a list of addresses.  \<open>tr_owned\<close> says that the registration's \<open>owner_\<close> is this queue.  A time
  point is the count of nanoseconds of \<open>steady_clock\<close>.  The caller's thread is the flag
  \<open>on_thread\<close>.  A completion callback is a value \<open>'c\<close>; what it does to the rest of the worker is
  the parameter \<open>run\<close> of the dispatching operations.  The callbacks that the program installs
  (\<open>SleepAwaiter::complete\<close> and the query deadline of \<open>UpstreamChannel\<close>) do not arm or disarm
  other registrations, so the queue itself is not part of that state.

  The invariant \<open>timer_inv\<close> says that the heap is ordered by (deadline, sequence), that it holds
  each owned registration once, and that every back index is right.  Under it the operations refine
  those of the finite map \<open>armed\<close> from registrations to their key and callback.
\<close>

section \<open>Definitions\<close>

datatype timer_completion = TimerExpired | TimerCancelled

text \<open>
  A registration.  \<open>tr_heap_index = None\<close> is \<open>not_in_heap\<close>; \<open>tr_callback\<close> is the pair of the
  completion function and its context.
\<close>

record 'c timer_registration =
  tr_owned :: bool
  tr_deadline :: int
  tr_sequence :: u64
  tr_heap_index :: "nat option"
  tr_callback :: "'c option"

datatype arm_result = Armed | ArmNotRunning | ArmClosed | ArmWrongThread | ArmAlreadyArmed | ArmInvalidCallback

record dispatch_result =
  dispatched :: nat
  schedule_failures :: nat
  has_due :: bool

record 'c timer_queue =
  heap :: "nat list"
  regs :: "nat \<Rightarrow> 'c timer_registration"
  next_sequence :: u64
  timer_invariant_failures :: nat
  tq_running :: bool
  tq_accepting :: bool
  tq_scheduler :: "nat option"

definition earlier :: "'c timer_registration \<Rightarrow> 'c timer_registration \<Rightarrow> bool" where
  "earlier left right =
     (if tr_deadline left \<noteq> tr_deadline right then tr_deadline left < tr_deadline right
      else tr_sequence left < tr_sequence right)"

abbreviation reg_at :: "'c timer_queue \<Rightarrow> nat \<Rightarrow> 'c timer_registration" where
  "reg_at q i \<equiv> regs q (heap q ! i)"

definition set_heap_index :: "nat \<Rightarrow> nat option \<Rightarrow> 'c timer_queue \<Rightarrow> 'c timer_queue" where
  "set_heap_index r i q = q\<lparr>regs := (regs q)(r := (regs q r)\<lparr>tr_heap_index := i\<rparr>)\<rparr>"

definition swap_nodes :: "nat \<Rightarrow> nat \<Rightarrow> 'c timer_queue \<Rightarrow> 'c timer_queue" where
  "swap_nodes left right q =
     (let h = (heap q)[left := heap q ! right, right := heap q ! left]
      in set_heap_index (h ! right) (Some right) (set_heap_index (h ! left) (Some left) (q\<lparr>heap := h\<rparr>)))"

function sift_up :: "nat \<Rightarrow> 'c timer_queue \<Rightarrow> 'c timer_queue" where
  "sift_up index q =
     (if index = 0 then q
      else let parent = (index - 1) div 2 in
        if \<not> earlier (reg_at q index) (reg_at q parent) then q
        else sift_up parent (swap_nodes index parent q))"
  by pat_completeness auto
termination by (relation "measure fst") auto

declare sift_up.simps [simp del]

lemma swap_nodes_simps [simp]:
  "length (heap (swap_nodes i j q)) = length (heap q)"
  "heap (set_heap_index r x q) = heap q"
  by (simp_all add: swap_nodes_def Let_def set_heap_index_def)

function sift_down :: "nat \<Rightarrow> 'c timer_queue \<Rightarrow> 'c timer_queue" where
  "sift_down index q =
     (let left = index * 2 + 1 in
      if left \<ge> length (heap q) then q
      else let right = left + 1;
               earliest = (if right < length (heap q) \<and> earlier (reg_at q right) (reg_at q left) then right else left)
           in if \<not> earlier (reg_at q earliest) (reg_at q index) then q
              else sift_down earliest (swap_nodes index earliest q))"
  by pat_completeness auto
termination
  by (relation "measure (\<lambda>(i, q). length (heap q) - i)") (auto simp: Let_def split: if_splits)

declare sift_down.simps [simp del]

text \<open>The first half of \<open>remove_at\<close>: the tail takes the place of the removed node and is sifted.\<close>

definition detach_at :: "nat \<Rightarrow> 'c timer_queue \<Rightarrow> 'c timer_queue" where
  "detach_at index q =
     (let tail = last (heap q);
          q1 = q\<lparr>heap := butlast (heap q)\<rparr>
      in if index < length (heap q1)
         then let q' = set_heap_index tail (Some index) (q1\<lparr>heap := (heap q1)[index := tail]\<rparr>)
              in if index \<noteq> 0 \<and> earlier (reg_at q' index) (reg_at q' ((index - 1) div 2))
                 then sift_up index q' else sift_down index q'
         else q1)"

definition remove_at :: "nat \<Rightarrow> 'c timer_queue \<Rightarrow> nat \<times> 'c timer_queue" where
  "remove_at index q =
     (let removed = heap q ! index;
          q2 = detach_at index q
      in (removed, q2\<lparr>regs := (regs q2)(removed := (regs q2 removed)\<lparr>tr_owned := False, tr_heap_index := None\<rparr>)\<rparr>))"

definition clear_callback :: "nat \<Rightarrow> 'c timer_queue \<Rightarrow> 'c timer_queue" where
  "clear_callback r q = q\<lparr>regs := (regs q)(r := (regs q r)\<lparr>tr_callback := None\<rparr>)\<rparr>"

text \<open>
  \<open>on_thread\<close> tells whether the caller runs on the owner thread; \<open>on_owner_thread()\<close> of the code.
\<close>

definition timer_on_owner :: "bool \<Rightarrow> 'c timer_queue \<Rightarrow> bool" where
  "timer_on_owner on_thread q \<longleftrightarrow> tq_running q \<and> on_thread"

definition timer_start :: "bool \<Rightarrow> nat \<Rightarrow> 'c timer_queue \<Rightarrow> bool \<times> 'c timer_queue" where
  "timer_start scheduler_owns_thread scheduler q =
     (if tq_running q \<or> heap q \<noteq> [] \<or> \<not> scheduler_owns_thread then (False, q)
      else (True, q\<lparr>tq_scheduler := Some scheduler, next_sequence := 0, timer_invariant_failures := 0,
                    tq_running := True, tq_accepting := True\<rparr>))"

definition timer_close :: "bool \<Rightarrow> 'c timer_queue \<Rightarrow> bool \<times> 'c timer_queue" where
  "timer_close on_thread q =
     (if tq_running q \<and> \<not> timer_on_owner on_thread q then (False, q)
      else (True, q\<lparr>tq_accepting := False\<rparr>))"

definition timer_stop :: "bool \<Rightarrow> 'c timer_queue \<Rightarrow> bool \<times> 'c timer_queue" where
  "timer_stop on_thread q =
     (if tq_running q \<and> \<not> timer_on_owner on_thread q then (False, q)
      else if heap q \<noteq> [] then (False, q)
      else (True, q\<lparr>tq_scheduler := None, tq_running := False, tq_accepting := False\<rparr>))"

definition timer_arm ::
  "bool \<Rightarrow> nat \<Rightarrow> int \<Rightarrow> 'c option \<Rightarrow> 'c timer_queue \<Rightarrow> arm_result \<times> 'c timer_queue" where
  "timer_arm on_thread r deadline callback q =
     (if \<not> tq_running q then (ArmNotRunning, q)
      else if \<not> timer_on_owner on_thread q then (ArmWrongThread, q)
      else if \<not> tq_accepting q then (ArmClosed, q)
      else if tr_owned (regs q r) \<or> tr_heap_index (regs q r) \<noteq> None then (ArmAlreadyArmed, q)
      else if callback = None then (ArmInvalidCallback, q)
      else let index = length (heap q);
               reg = \<lparr>tr_owned = True, tr_deadline = deadline, tr_sequence = next_sequence q,
                      tr_heap_index = Some index, tr_callback = callback\<rparr>
           in (Armed, sift_up index (q\<lparr>heap := heap q @ [r], regs := (regs q)(r := reg),
                                      next_sequence := next_sequence q + 1\<rparr>)))"

definition timer_disarm :: "bool \<Rightarrow> nat \<Rightarrow> 'c timer_queue \<Rightarrow> bool \<times> 'c timer_queue" where
  "timer_disarm on_thread r q =
     (if \<not> tq_running q \<or> \<not> timer_on_owner on_thread q \<or> \<not> tr_owned (regs q r) then (False, q)
      else case tr_heap_index (regs q r) of
        None \<Rightarrow> (False, q\<lparr>timer_invariant_failures := timer_invariant_failures q + 1\<rparr>)
      | Some index \<Rightarrow>
          if index \<ge> length (heap q) \<or> heap q ! index \<noteq> r
          then (False, q\<lparr>timer_invariant_failures := timer_invariant_failures q + 1\<rparr>)
          else (True, clear_callback r (snd (remove_at index q))))"

text \<open>
  Completions run code outside the queue: \<open>run\<close> is what the callback does to the rest of the worker
  and returns, and \<open>w\<close> is that rest.
\<close>

definition complete_front ::
  "('c \<Rightarrow> timer_completion \<Rightarrow> 'w \<Rightarrow> bool \<times> 'w) \<Rightarrow> timer_completion
     \<Rightarrow> dispatch_result \<Rightarrow> 'c timer_queue \<Rightarrow> 'w \<Rightarrow> dispatch_result \<times> 'c timer_queue \<times> 'w" where
  "complete_front run completion result q w =
     (let (r, q1) = remove_at 0 q;
         callback = tr_callback (regs q1 r);
         q2 = clear_callback r q1;
         result1 = result\<lparr>dispatched := dispatched result + 1\<rparr>;
         (ok, w1) = (case callback of None \<Rightarrow> (False, w) | Some c \<Rightarrow> run c completion w)
     in if ok then (result1, q2, w1)
        else (result1\<lparr>schedule_failures := schedule_failures result1 + 1\<rparr>,
              q2\<lparr>timer_invariant_failures := timer_invariant_failures q2 + 1\<rparr>, w1))"


lemma length_sift_up [simp]: "length (heap (sift_up i q)) = length (heap q)"
proof (induction i q rule: sift_up.induct)
  case (1 i q)
  then show ?case by (subst sift_up.simps) (simp add: Let_def)
qed

lemma length_sift_down [simp]: "length (heap (sift_down i q)) = length (heap q)"
proof (induction i q rule: sift_down.induct)
  case (1 i q)
  then show ?case by (subst sift_down.simps) (simp add: Let_def)
qed

lemma length_remove_at [simp]: "length (heap (snd (remove_at i q))) = length (heap q) - 1"
  by (simp add: remove_at_def detach_at_def Let_def)

lemma length_remove_at_result: "remove_at i q = (r, q') \<Longrightarrow> length (heap q') = length (heap q) - 1"
  by (metis length_remove_at snd_conv)

lemma heap_clear_callback [simp]: "heap (clear_callback r q) = heap q"
  by (simp add: clear_callback_def)

lemma length_complete_front:
  "complete_front run c result q w = (result', q', w') \<Longrightarrow> length (heap q') = length (heap q) - 1"
  by (auto simp: complete_front_def Let_def length_remove_at_result split: prod.splits if_splits)

function expire_loop ::
  "('c \<Rightarrow> timer_completion \<Rightarrow> 'w \<Rightarrow> bool \<times> 'w) \<Rightarrow> int \<Rightarrow> nat \<Rightarrow> dispatch_result \<Rightarrow> 'c timer_queue \<Rightarrow> 'w
     \<Rightarrow> dispatch_result \<times> 'c timer_queue \<times> 'w" where
  "expire_loop run now budget result q w =
     (if dispatched result < budget \<and> heap q \<noteq> [] \<and> tr_deadline (reg_at q 0) \<le> now
      then case complete_front run TimerExpired result q w of
             (result', q', w') \<Rightarrow> expire_loop run now budget result' q' w'
      else (result, q, w))"
  by pat_completeness simp
termination
  by (relation "measure (\<lambda>(run, now, budget, result, q, w). length (heap q))")
    (auto split: prod.split dest: length_complete_front)

declare expire_loop.simps [simp del]

definition no_dispatch :: dispatch_result where
  "no_dispatch = \<lparr>dispatched = 0, schedule_failures = 0, has_due = False\<rparr>"

definition timer_expire ::
  "('c \<Rightarrow> timer_completion \<Rightarrow> 'w \<Rightarrow> bool \<times> 'w) \<Rightarrow> bool \<Rightarrow> int \<Rightarrow> nat \<Rightarrow> 'c timer_queue \<Rightarrow> 'w
     \<Rightarrow> dispatch_result \<times> 'c timer_queue \<times> 'w" where
  "timer_expire run on_thread now budget q w =
     (if \<not> tq_running q \<or> \<not> timer_on_owner on_thread q then (no_dispatch, q, w)
      else let (result, q', w') = expire_loop run now budget no_dispatch q w
           in (result\<lparr>has_due := heap q' \<noteq> [] \<and> tr_deadline (reg_at q' 0) \<le> now\<rparr>, q', w'))"

function cancel_loop ::
  "('c \<Rightarrow> timer_completion \<Rightarrow> 'w \<Rightarrow> bool \<times> 'w) \<Rightarrow> dispatch_result \<Rightarrow> 'c timer_queue \<Rightarrow> 'w
     \<Rightarrow> dispatch_result \<times> 'c timer_queue \<times> 'w" where
  "cancel_loop run result q w =
     (if heap q \<noteq> []
      then case complete_front run TimerCancelled result q w of
             (result', q', w') \<Rightarrow> cancel_loop run result' q' w'
      else (result, q, w))"
  by pat_completeness simp
termination
  by (relation "measure (\<lambda>(run, result, q, w). length (heap q))")
    (auto split: prod.split dest: length_complete_front)

declare cancel_loop.simps [simp del]

definition timer_cancel_all ::
  "('c \<Rightarrow> timer_completion \<Rightarrow> 'w \<Rightarrow> bool \<times> 'w) \<Rightarrow> bool \<Rightarrow> 'c timer_queue \<Rightarrow> 'w
     \<Rightarrow> dispatch_result \<times> 'c timer_queue \<times> 'w" where
  "timer_cancel_all run on_thread q w =
     (if \<not> tq_running q \<or> \<not> timer_on_owner on_thread q then (no_dispatch, q, w)
      else cancel_loop run no_dispatch q w)"

definition next_deadline :: "'c timer_queue \<Rightarrow> int option" where
  "next_deadline q = (if heap q = [] then None else Some (tr_deadline (reg_at q 0)))"

definition int_max :: int where "int_max = 2 ^ 31 - 1"
definition nanoseconds_per_millisecond :: int where "nanoseconds_per_millisecond = 1000000"
definition maximum_wait :: int where "maximum_wait = int_max * nanoseconds_per_millisecond"

definition wait_timeout :: "'c timer_queue \<Rightarrow> int \<Rightarrow> int" where
  "wait_timeout q now =
     (case next_deadline q of
        None \<Rightarrow> - 1
      | Some deadline \<Rightarrow>
          if deadline \<le> now then 0
          else if now < 0 \<and> deadline \<ge> 0 \<and> (deadline \<ge> maximum_wait \<or> now \<le> - maximum_wait) then int_max
          else let wait_duration = deadline - now in
            if wait_duration \<ge> maximum_wait then int_max
            else let wait = - ((- wait_duration) div nanoseconds_per_millisecond)
                 in if wait \<ge> int_max then int_max else wait)"

text \<open>
  \<open>TimerQueue::abandon\<close>, the destructor of an armed registration.  \<open>None\<close> is \<open>std::terminate\<close>.
\<close>

fun find_reg :: "nat \<Rightarrow> nat list \<Rightarrow> nat \<Rightarrow> nat option" where
  "find_reg r [] i = None"
| "find_reg r (x # xs) i = (if x = r then Some i else find_reg r xs (i + 1))"

definition timer_abandon :: "bool \<Rightarrow> nat \<Rightarrow> 'c timer_queue \<Rightarrow> 'c timer_queue option" where
  "timer_abandon on_thread r q =
     (if \<not> tr_owned (regs q r) then Some q
      else if tq_running q \<and> \<not> timer_on_owner on_thread q then None
      else let failed = q\<lparr>timer_invariant_failures := timer_invariant_failures q + 1\<rparr>;
               search = (case find_reg r (heap q) 0 of
                  None \<Rightarrow> Some (failed\<lparr>regs := (regs q)(r := (regs q r)\<lparr>tr_owned := False,
                                   tr_heap_index := None, tr_callback := None\<rparr>)\<rparr>)
                | Some index \<Rightarrow> Some (clear_callback r (snd (remove_at index failed))))
           in case tr_heap_index (regs q r) of
                None \<Rightarrow> search
              | Some index \<Rightarrow>
                  if index \<ge> length (heap q) \<or> heap q ! index \<noteq> r then search
                  else Some (clear_callback r (snd (remove_at index q))))"

definition sleep_deadline :: "int \<Rightarrow> int \<Rightarrow> int" where
  "sleep_deadline now delay =
     (if delay \<le> 0 then now
      else if now > 0 \<and> delay > (2 ^ 63 - 1) - now then 2 ^ 63 - 1
      else now + delay)"

section \<open>Heap order on lists\<close>

definition par :: "nat \<Rightarrow> nat" where "par i = (i - 1) div 2"

definition heap_ordered :: "(nat \<Rightarrow> 'k::linorder) \<Rightarrow> nat list \<Rightarrow> bool" where
  "heap_ordered k h \<longleftrightarrow> (\<forall>j. 0 < j \<longrightarrow> j < length h \<longrightarrow> k (h ! par j) \<le> k (h ! j))"

lemma par_less: "0 < j \<Longrightarrow> par j < j"
  by (auto simp: par_def)

lemma par_child: "0 < c \<Longrightarrow> par c = i \<longleftrightarrow> c = i * 2 + 1 \<or> c = i * 2 + 1 + 1"
  by (auto simp: par_def)

text \<open>Ordered but for the edge above \<open>i\<close>, and but for the edges below \<open>i\<close>.\<close>

definition up_hole :: "(nat \<Rightarrow> 'k::linorder) \<Rightarrow> nat list \<Rightarrow> nat \<Rightarrow> bool" where
  "up_hole k h i \<longleftrightarrow> (\<forall>j. 0 < j \<longrightarrow> j < length h \<longrightarrow> j \<noteq> i \<longrightarrow> k (h ! par j) \<le> k (h ! j))
     \<and> (\<forall>c. 0 < i \<longrightarrow> 0 < c \<longrightarrow> c < length h \<longrightarrow> par c = i \<longrightarrow> k (h ! par i) \<le> k (h ! c))"

definition down_hole :: "(nat \<Rightarrow> 'k::linorder) \<Rightarrow> nat list \<Rightarrow> nat \<Rightarrow> bool" where
  "down_hole k h i \<longleftrightarrow> (\<forall>j. 0 < j \<longrightarrow> j < length h \<longrightarrow> par j \<noteq> i \<longrightarrow> k (h ! par j) \<le> k (h ! j))
     \<and> (\<forall>c. 0 < i \<longrightarrow> 0 < c \<longrightarrow> c < length h \<longrightarrow> par c = i \<longrightarrow> k (h ! par i) \<le> k (h ! c))"

lemma up_holeD:
  assumes "up_hole k h i"
  shows "0 < j \<Longrightarrow> j < length h \<Longrightarrow> j \<noteq> i \<Longrightarrow> k (h ! par j) \<le> k (h ! j)"
    and "0 < i \<Longrightarrow> 0 < c \<Longrightarrow> c < length h \<Longrightarrow> par c = i \<Longrightarrow> k (h ! par i) \<le> k (h ! c)"
  using assms by (auto simp: up_hole_def)

lemma down_holeD:
  assumes "down_hole k h i"
  shows "0 < j \<Longrightarrow> j < length h \<Longrightarrow> par j \<noteq> i \<Longrightarrow> k (h ! par j) \<le> k (h ! j)"
    and "0 < i \<Longrightarrow> 0 < c \<Longrightarrow> c < length h \<Longrightarrow> par c = i \<Longrightarrow> k (h ! par i) \<le> k (h ! c)"
  using assms by (auto simp: down_hole_def)


definition exchanged :: "nat list \<Rightarrow> nat \<Rightarrow> nat \<Rightarrow> nat list" where
  "exchanged h i j = h[i := h ! j, j := h ! i]"

lemma exchanged_nth:
  "i < length h \<Longrightarrow> j < length h \<Longrightarrow>
     exchanged h i j ! l = (if l = j then h ! i else if l = i then h ! j else h ! l)"
  by (auto simp: exchanged_def nth_list_update)

lemma length_exchanged [simp]: "length (exchanged h i j) = length h"
  by (simp add: exchanged_def)

lemma mset_exchanged: "i < length h \<Longrightarrow> j < length h \<Longrightarrow> mset (exchanged h i j) = mset h"
  unfolding exchanged_def by (rule mset_swap)

lemma up_hole_step:
  assumes u: "up_hole k h i" and i: "0 < i" "i < length h" and lt: "k (h ! i) < k (h ! par i)"
  shows "up_hole k (exchanged h i (par i)) (par i)"
  unfolding up_hole_def
proof (intro conjI allI impI)
  have p: "par i < i" using par_less [OF i(1)] .
  note nth = exchanged_nth [OF i(2), of "par i"]
  fix j assume j: "0 < j" "j < length (exchanged h i (par i))" "j \<noteq> par i"
  consider "j = i" | "j \<noteq> i" "par j = i" | "j \<noteq> i" "par j = par i" | "j \<noteq> i" "par j \<noteq> i" "par j \<noteq> par i"
    by blast
  then show "k (exchanged h i (par i) ! par j) \<le> k (exchanged h i (par i) ! j)"
  proof cases
    case 1
    with p i lt show ?thesis by (simp add: nth)
  next
    case 2
    with up_holeD(2) [OF u i(1) j(1)] j p i show ?thesis by (simp add: nth)
  next
    case 3
    with up_holeD(1) [OF u j(1)] j p i lt show ?thesis by (simp add: nth)
  next
    case 4
    with up_holeD(1) [OF u j(1)] j p i show ?thesis by (simp add: nth)
  qed
next
  have p: "par i < i" using par_less [OF i(1)] .
  note nth = exchanged_nth [OF i(2), of "par i"]
  fix c assume c: "0 < par i" "0 < c" "c < length (exchanged h i (par i))" "par c = par i"
  have pp: "par (par i) < par i" using par_less [OF c(1)] .
  have a: "k (h ! par (par i)) \<le> k (h ! par i)"
    using up_holeD(1) [OF u c(1)] p i by simp
  show "k (exchanged h i (par i) ! par (par i)) \<le> k (exchanged h i (par i) ! c)"
  proof (cases "c = i")
    case True
    with a p pp i show ?thesis by (simp add: nth)
  next
    case False
    have "k (h ! par c) \<le> k (h ! c)" using up_holeD(1) [OF u c(2) _ False] c(3) by simp
    moreover have "c \<noteq> par i" using par_less [OF c(2)] c(4) by auto
    ultimately show ?thesis using a False p pp i c(4) by (simp add: nth)
  qed
qed

lemma up_hole_done:
  assumes "up_hole k h i" and "i = 0 \<or> \<not> k (h ! i) < k (h ! par i)"
  shows "heap_ordered k h"
  using assms by (auto simp: heap_ordered_def up_hole_def not_less)

lemma down_hole_step:
  assumes d: "down_hole k h i" and m: "m < length h" "0 < m" "par m = i"
    and least: "\<And>c. 0 < c \<Longrightarrow> c < length h \<Longrightarrow> par c = i \<Longrightarrow> k (h ! m) \<le> k (h ! c)"
    and lt: "k (h ! m) < k (h ! i)"
  shows "down_hole k (exchanged h i m) m"
  unfolding down_hole_def
proof (intro conjI allI impI)
  have im: "i < m" using par_less [OF m(2)] m(3) by simp
  then have i: "i < length h" using m(1) by simp
  note nth = exchanged_nth [OF i m(1)]
  fix j assume j: "0 < j" "j < length (exchanged h i m)" "par j \<noteq> m"
  have pj: "par j < j" using par_less [OF j(1)] .
  consider "j = m" | "j = i" | "j \<noteq> m" "j \<noteq> i" "par j = i" | "j \<noteq> m" "j \<noteq> i" "par j \<noteq> i" by blast
  then show "k (exchanged h i m ! par j) \<le> k (exchanged h i m ! j)"
  proof cases
    case 1
    with im lt m show ?thesis by (simp add: nth)
  next
    case 2
    with down_holeD(2) [OF d, of m] j m im pj show ?thesis by (simp add: nth)
  next
    case 3
    with least [OF j(1)] j im show ?thesis by (simp add: nth)
  next
    case 4
    with down_holeD(1) [OF d j(1)] j show ?thesis by (simp add: nth)
  qed
next
  have im: "i < m" using par_less [OF m(2)] m(3) by simp
  then have i: "i < length h" using m(1) by simp
  note nth = exchanged_nth [OF i m(1)]
  fix c assume c: "0 < c" "c < length (exchanged h i m)" "par c = m"
  have "m < c" using par_less [OF c(1)] c(3) by simp
  with down_holeD(1) [OF d c(1)] c im m show "k (exchanged h i m ! par m) \<le> k (exchanged h i m ! c)"
    by (simp add: nth)
qed

lemma down_hole_done:
  assumes "down_hole k h i" and "\<And>c. 0 < c \<Longrightarrow> c < length h \<Longrightarrow> par c = i \<Longrightarrow> k (h ! i) \<le> k (h ! c)"
  shows "heap_ordered k h"
  using assms(1) assms(2) unfolding heap_ordered_def down_hole_def by metis

lemma heap_ordered_front:
  assumes "heap_ordered k h" and "j < length h"
  shows "k (h ! 0) \<le> k (h ! j)"
  using assms(2)
proof (induction j rule: less_induct)
  case (less j)
  show ?case
  proof (cases "j = 0")
    case False
    then have "par j < j" by (simp add: par_less)
    with less have "k (h ! 0) \<le> k (h ! par j)" by simp
    also have "k (h ! par j) \<le> k (h ! j)"
      using assms(1) False less.prems by (simp add: heap_ordered_def)
    finally show ?thesis .
  qed simp
qed

section \<open>Sifting\<close>

definition reg_key :: "'c timer_registration \<Rightarrow> int \<times> u64" where
  "reg_key r = (tr_deadline r, tr_sequence r)"

definition keys :: "'c timer_queue \<Rightarrow> nat \<Rightarrow> int \<times> u64" where
  "keys q r = reg_key (regs q r)"

lemma earlier_iff: "earlier a b \<longleftrightarrow> reg_key a < reg_key b"
  by (auto simp: earlier_def reg_key_def less_prod_def)

definition linked :: "'c timer_queue \<Rightarrow> bool" where
  "linked q \<longleftrightarrow> distinct (heap q) \<and> (\<forall>i < length (heap q). tr_heap_index (reg_at q i) = Some i)"

text \<open>Nothing but the order of the heap and the indices of its members differs.\<close>

definition unlinked :: "'c timer_registration \<Rightarrow> 'c timer_registration" where
  "unlinked r = r\<lparr>tr_heap_index := None\<rparr>"

definition control :: "'c timer_queue \<Rightarrow> u64 \<times> nat \<times> bool \<times> bool \<times> nat option" where
  "control q = (next_sequence q, timer_invariant_failures q, tq_running q, tq_accepting q, tq_scheduler q)"

definition reordered :: "'c timer_queue \<Rightarrow> 'c timer_queue \<Rightarrow> bool" where
  "reordered q q' \<longleftrightarrow> mset (heap q') = mset (heap q) \<and> control q' = control q
     \<and> (\<forall>r. unlinked (regs q' r) = unlinked (regs q r)) \<and> (\<forall>r. r \<notin> set (heap q) \<longrightarrow> regs q' r = regs q r)"

lemma reordered_refl [simp]: "reordered q q"
  by (simp add: reordered_def)

lemma reordered_trans:
  assumes "reordered a b" and "reordered b c"
  shows "reordered a c"
proof -
  have "set (heap b) = set (heap a)"
    using assms(1) by (simp add: reordered_def) (metis set_mset_mset)
  with assms show ?thesis by (simp add: reordered_def)
qed

lemma unlinked_eqD:
  assumes "unlinked a = unlinked b"
  shows "tr_owned a = tr_owned b" "tr_deadline a = tr_deadline b" "tr_sequence a = tr_sequence b"
    "tr_callback a = tr_callback b"
  using assms by (cases a; cases b; simp add: unlinked_def)+

lemma reordered_keys: "reordered q q' \<Longrightarrow> keys q' = keys q"
  by (auto simp: reordered_def keys_def reg_key_def fun_eq_iff dest: unlinked_eqD)

lemma swap_nodes_heap: "heap (swap_nodes i j q) = exchanged (heap q) i j"
  by (simp add: swap_nodes_def exchanged_def Let_def set_heap_index_def)

lemma swap_nodes_regs:
  assumes "i < length (heap q)" and "j < length (heap q)" and "i \<noteq> j" and "distinct (heap q)"
  shows "regs (swap_nodes i j q) = (regs q)
      (heap q ! j := (regs q (heap q ! j))\<lparr>tr_heap_index := Some i\<rparr>,
       heap q ! i := (regs q (heap q ! i))\<lparr>tr_heap_index := Some j\<rparr>)"
  using assms by (simp add: swap_nodes_def set_heap_index_def Let_def nth_eq_iff_index_eq nth_list_update)

lemma swap_nodes_linked:
  assumes "linked q" and "i < length (heap q)" and "j < length (heap q)" and "i \<noteq> j"
  shows "linked (swap_nodes i j q)" and "reordered q (swap_nodes i j q)"
proof -
  have d: "distinct (heap q)" using assms(1) by (simp add: linked_def)
  have m: "mset (heap (swap_nodes i j q)) = mset (heap q)"
    unfolding swap_nodes_heap by (rule mset_exchanged [OF assms(2,3)])
  have "tr_heap_index (reg_at (swap_nodes i j q) l) = Some l" if "l < length (heap q)" for l
    using assms(1) that assms(2-4) d
    by (auto simp: swap_nodes_regs swap_nodes_heap exchanged_nth linked_def nth_eq_iff_index_eq)
  then show "linked (swap_nodes i j q)"
    using m d by (metis linked_def mset_eq_imp_distinct_iff swap_nodes_simps(1))
  have "regs (swap_nodes i j q) r = regs q r" if "r \<notin> set (heap q)" for r
    using that assms(2-4) d by (auto simp: swap_nodes_regs)
  moreover have "unlinked (regs (swap_nodes i j q) r) = unlinked (regs q r)" for r
    using assms(2-4) d by (simp add: swap_nodes_regs unlinked_def)
  moreover have "control (swap_nodes i j q) = control q"
    by (simp add: control_def swap_nodes_def set_heap_index_def Let_def)
  ultimately show "reordered q (swap_nodes i j q)"
    using m by (simp add: reordered_def)
qed

lemma sift_up_correct:
  assumes "linked q" and "i < length (heap q)" and "up_hole (keys q) (heap q) i"
  shows "linked (sift_up i q) \<and> reordered q (sift_up i q) \<and> heap_ordered (keys q) (heap (sift_up i q))"
  using assms
proof (induction i q rule: sift_up.induct)
  case (1 i q)
  show ?case
  proof (cases "i = 0 \<or> \<not> keys q (heap q ! i) < keys q (heap q ! par i)")
    case True
    then have "sift_up i q = q"
      by (subst sift_up.simps) (auto simp: Let_def earlier_iff keys_def par_def)
    with "1.prems" True up_hole_done show ?thesis by (metis reordered_refl)
  next
    case False
    then have i: "0 < i" and lt: "keys q (heap q ! i) < keys q (heap q ! par i)" by auto
    have p: "par i < i" using par_less [OF i] .
    let ?q = "swap_nodes i (par i) q"
    have eq: "sift_up i q = sift_up (par i) ?q"
      using i lt by (subst sift_up.simps) (simp add: Let_def earlier_iff keys_def par_def)
    have sw: "linked ?q" "reordered q ?q"
      using swap_nodes_linked [OF "1.prems"(1,2), of "par i"] p "1.prems"(2) by simp_all
    have "up_hole (keys ?q) (heap ?q) (par i)"
      using up_hole_step [OF "1.prems"(3) i "1.prems"(2) lt]
      by (simp add: swap_nodes_heap reordered_keys [OF sw(2)])
    then have "linked (sift_up (par i) ?q) \<and> reordered ?q (sift_up (par i) ?q)
        \<and> heap_ordered (keys ?q) (heap (sift_up (par i) ?q))"
      using "1.IH" [OF _ par_def] i lt sw(1) p "1.prems"(2) by (simp add: earlier_iff keys_def [abs_def])
    with eq sw reordered_trans [OF sw(2)] reordered_keys [OF sw(2)] show ?thesis by simp
  qed
qed

definition earliest_child :: "'c timer_queue \<Rightarrow> nat \<Rightarrow> nat" where
  "earliest_child q i =
     (if i * 2 + 1 + 1 < length (heap q) \<and> keys q (heap q ! (i * 2 + 1 + 1)) < keys q (heap q ! (i * 2 + 1))
      then i * 2 + 1 + 1 else i * 2 + 1)"

lemma sift_down_unfold:
  "sift_down i q =
     (if length (heap q) \<le> i * 2 + 1 \<or> \<not> keys q (heap q ! earliest_child q i) < keys q (heap q ! i) then q
      else sift_down (earliest_child q i) (swap_nodes i (earliest_child q i) q))"
  unfolding sift_down.simps [of i q] Let_def earlier_iff keys_def [symmetric] earliest_child_def [symmetric]
  by simp

lemma earliest_child_least:
  "0 < c \<Longrightarrow> c < length (heap q) \<Longrightarrow> par c = i \<Longrightarrow> keys q (heap q ! earliest_child q i) \<le> keys q (heap q ! c)"
  by (auto simp: par_child earliest_child_def)

lemma earliest_child_bounds:
  assumes "i * 2 + 1 < length (heap q)"
  shows "earliest_child q i < length (heap q)" "i < earliest_child q i" "par (earliest_child q i) = i"
  using assms par_child [of "earliest_child q i" i] by (auto simp: earliest_child_def)

lemma sift_down_correct:
  assumes "linked q" and "i < length (heap q)" and "down_hole (keys q) (heap q) i"
  shows "linked (sift_down i q) \<and> reordered q (sift_down i q) \<and> heap_ordered (keys q) (heap (sift_down i q))"
  using assms
proof (induction "length (heap q) - i" arbitrary: i q rule: less_induct)
  case less
  let ?m = "earliest_child q i"
  show ?case
  proof (cases "length (heap q) \<le> i * 2 + 1 \<or> \<not> keys q (heap q ! ?m) < keys q (heap q ! i)")
    case True
    then have eq: "sift_down i q = q"
      by (simp only: sift_down_unfold [of i q] if_True)
    have "keys q (heap q ! i) \<le> keys q (heap q ! c)" if "0 < c" "c < length (heap q)" "par c = i" for c
      using True that earliest_child_least [OF that] par_child [OF that(1), of i] by auto
    then have "heap_ordered (keys q) (heap q)"
      using down_hole_done [OF less.prems(3)] by blast
    with eq less.prems(1) show ?thesis by simp
  next
    case False
    then have l: "i * 2 + 1 < length (heap q)" and lt: "keys q (heap q ! ?m) < keys q (heap q ! i)" by auto
    note m = earliest_child_bounds [OF l]
    have m0: "0 < ?m" "i \<noteq> ?m" using m(2) by auto
    let ?q = "swap_nodes i ?m q"
    have eq: "sift_down i q = sift_down ?m ?q"
      using False by (simp only: sift_down_unfold [of i q] if_False)
    have sw: "linked ?q" "reordered q ?q"
      using swap_nodes_linked [OF less.prems(1,2) m(1) m0(2)] by simp_all
    have "down_hole (keys ?q) (heap ?q) ?m"
      unfolding swap_nodes_heap reordered_keys [OF sw(2)]
      by (rule down_hole_step [OF less.prems(3) m(1) m0(1) m(3) _ lt]) (rule earliest_child_least)
    then have "linked (sift_down ?m ?q) \<and> reordered ?q (sift_down ?m ?q)
        \<and> heap_ordered (keys ?q) (heap (sift_down ?m ?q))"
      using less.hyps [OF _ sw(1), of ?m] m less.prems(2) by simp
    with eq sw reordered_trans [OF sw(2)] reordered_keys [OF sw(2)] show ?thesis by simp
  qed
qed

section \<open>Removing a node\<close>

lemma heap_ordered_butlast: "heap_ordered k h \<Longrightarrow> heap_ordered k (butlast h)"
  unfolding heap_ordered_def
proof (intro allI impI)
  fix j
  assume h: "\<forall>j. 0 < j \<longrightarrow> j < length h \<longrightarrow> k (h ! par j) \<le> k (h ! j)"
    and j: "0 < j" "j < length (butlast h)"
  then show "k (butlast h ! par j) \<le> k (butlast h ! j)"
    using par_less [OF j(1)] by (simp add: nth_butlast)
qed

lemma heap_ordered_replace:
  assumes ord: "heap_ordered k h" and i: "i < length h" and l: "h' = h[i := x]"
  shows "i \<noteq> 0 \<and> k x < k (h ! par i) \<Longrightarrow> up_hole k h' i"
    and "\<not> (i \<noteq> 0 \<and> k x < k (h ! par i)) \<Longrightarrow> down_hole k h' i"
proof -
  have edge: "k (h ! par j) \<le> k (h ! j)" if "0 < j" "j < length h" for j
    using ord that by (simp add: heap_ordered_def)
  have pne: "par j \<noteq> j" if "0 < j" for j using par_less [OF that] by simp
  have grand: "k (h' ! par i) \<le> k (h' ! c)" if "0 < i" "0 < c" "c < length h'" "par c = i" for c
    using edge [of c] edge [of i] that i pne [of c] pne [of i] by (auto simp: l)
  show "up_hole k h' i" if lt: "i \<noteq> 0 \<and> k x < k (h ! par i)"
    unfolding up_hole_def
  proof (intro conjI allI impI)
    fix j assume j: "0 < j" "j < length h'" "j \<noteq> i"
    show "k (h' ! par j) \<le> k (h' ! j)"
    proof (cases "par j = i")
      case True
      have "k x < k (h ! par i)" using lt by simp
      also have "\<dots> \<le> k (h ! i)" using edge [of i] lt i by simp
      also have "\<dots> \<le> k (h ! j)" using edge [of j] j True by (simp add: l)
      finally show ?thesis using True j i by (simp add: l)
    qed (use edge [of j] j in \<open>simp add: l\<close>)
  qed (use grand in blast)
  show "down_hole k h' i" if "\<not> (i \<noteq> 0 \<and> k x < k (h ! par i))"
    unfolding down_hole_def
  proof (intro conjI allI impI)
    fix j assume j: "0 < j" "j < length h'" "par j \<noteq> i"
    show "k (h' ! par j) \<le> k (h' ! j)"
      using edge [of j] j that i by (cases "j = i") (auto simp: l)
  qed (use grand in blast)
qed

definition timer_inv :: "'c timer_queue \<Rightarrow> bool" where
  "timer_inv q \<longleftrightarrow> linked q \<and> heap_ordered (keys q) (heap q)
     \<and> (\<forall>r. tr_owned (regs q r) \<longleftrightarrow> r \<in> set (heap q))
     \<and> (\<forall>r. r \<notin> set (heap q) \<longrightarrow> tr_heap_index (regs q r) = None)
     \<and> (\<forall>r \<in> set (heap q). tr_callback (regs q r) \<noteq> None)"

text \<open>The queue of the remaining nodes, before the removed one is marked.\<close>

definition detached :: "'c timer_queue \<Rightarrow> nat \<Rightarrow> 'c timer_queue \<Rightarrow> bool" where
  "detached q r q' \<longleftrightarrow> linked q' \<and> heap_ordered (keys q) (heap q') \<and> mset (heap q) = add_mset r (mset (heap q'))
     \<and> control q' = control q \<and> (\<forall>x. unlinked (regs q' x) = unlinked (regs q x))
     \<and> (\<forall>x. x \<notin> set (heap q) \<longrightarrow> regs q' x = regs q x)"

lemma mset_butlast_last: "h \<noteq> [] \<Longrightarrow> mset h = add_mset (last h) (mset (butlast h))"
  by (metis append_butlast_last_id add_mset_add_single mset.simps(1) mset.simps(2) mset_append)

lemma mset_replace: "i < length h \<Longrightarrow> add_mset (h ! i) (mset (h[i := x])) = add_mset x (mset h)"
  by (simp add: mset_update nth_mem_mset)

lemma remove_detached_cases:
  assumes q: "timer_inv q" and i: "i < length (heap q)"
  defines "q1 \<equiv> q\<lparr>heap := butlast (heap q)\<rparr>" and "tail \<equiv> last (heap q)"
  defines "q' \<equiv> set_heap_index tail (Some i) (q1\<lparr>heap := (heap q1)[i := tail]\<rparr>)"
  shows "i < length (heap q1) \<Longrightarrow>
      detached q (heap q ! i)
        (if i \<noteq> 0 \<and> earlier (reg_at q' i) (reg_at q' ((i - 1) div 2)) then sift_up i q' else sift_down i q')"
    and "\<not> i < length (heap q1) \<Longrightarrow> detached q (heap q ! i) q1"
proof -
  have lq: "linked q" "distinct (heap q)" and ord: "heap_ordered (keys q) (heap q)"
    using q by (simp_all add: timer_inv_def linked_def)
  have ne: "heap q \<noteq> []" using i by auto
  have len1: "length (heap q1) = length (heap q) - 1" by (simp add: q1_def)
  have ord1: "heap_ordered (keys q) (heap q1)"
    using heap_ordered_butlast [OF ord] by (simp add: q1_def)
  show "detached q (heap q ! i) q1" if "\<not> i < length (heap q1)"
  proof -
    have "i = length (heap q) - 1" using that i len1 by linarith
    then have "heap q ! i = last (heap q)" by (simp add: last_conv_nth [OF ne])
    moreover have "linked q1"
      using lq by (auto simp: linked_def q1_def distinct_butlast nth_butlast)
    ultimately show ?thesis
      using ord1 mset_butlast_last [OF ne] by (simp add: detached_def q1_def control_def)
  qed
  assume i1: "i < length (heap q1)"
  have h': "heap q' = (heap q1)[i := tail]" by (simp add: q'_def)
  have same: "unlinked (regs q' x) = unlinked (regs q x)" for x
    by (simp add: q'_def set_heap_index_def unlinked_def q1_def)
  then have k': "keys q' = keys q"
    by (auto simp: keys_def reg_key_def fun_eq_iff dest: unlinked_eqD)
  have tail: "tail = heap q ! (length (heap q) - 1)" by (simp add: tail_def last_conv_nth [OF ne])
  have m: "mset (heap q) = add_mset (heap q ! i) (mset (heap q'))"
    using mset_butlast_last [OF ne] mset_replace [OF i1, of tail] i1
    by (simp add: h' q1_def tail_def nth_butlast)
  have d': "distinct (heap q')"
    using lq(2) m by (metis distinct.simps(2) mset.simps(2) mset_eq_imp_distinct_iff)
  have "tr_heap_index (reg_at q' j) = Some j" if "j < length (heap q')" for j
  proof (cases "j = i")
    case True
    with i1 show ?thesis by (simp add: h') (simp add: q'_def set_heap_index_def)
  next
    case False
    then have "heap q' ! j = heap q ! j" "j < length (heap q) - 1"
      using that len1 by (simp_all add: h' q1_def nth_butlast)
    moreover from this have "heap q ! j \<noteq> tail"
      using lq(2) i by (simp add: tail nth_eq_iff_index_eq)
    ultimately show ?thesis
      using lq(1) by (simp add: q'_def set_heap_index_def q1_def linked_def)
  qed
  with d' have l': "linked q'" by (simp add: linked_def)
  have i': "i < length (heap q')" using i1 by (simp add: h')
  have pi: "heap q' ! par i = heap q1 ! par i" if "i \<noteq> 0"
    using that par_less [of i] by (simp add: h')
  have c': "control q' = control q"
    by (simp add: control_def q'_def q1_def set_heap_index_def)
  have out: "regs q' x = regs q x" if "x \<notin> set (heap q)" for x
    using that ne by (auto simp: q'_def set_heap_index_def q1_def tail_def)
  have fin: "detached q (heap q ! i) q2"
    if "linked q2 \<and> reordered q' q2 \<and> heap_ordered (keys q') (heap q2)" for q2
  proof -
    have "set (heap q') \<subseteq> set (heap q)" using m by (metis set_mset_add_mset_insert set_mset_mset subset_insertI)
    with that m c' same out k' show ?thesis by (auto simp: detached_def reordered_def)
  qed
  show "detached q (heap q ! i)
      (if i \<noteq> 0 \<and> earlier (reg_at q' i) (reg_at q' ((i - 1) div 2)) then sift_up i q' else sift_down i q')"
  proof (cases "i \<noteq> 0 \<and> earlier (reg_at q' i) (reg_at q' (par i))")
    case True
    then have "i \<noteq> 0 \<and> keys q tail < keys q (heap q1 ! par i)"
      using i1 pi by (simp add: earlier_iff keys_def [symmetric] k') (simp add: h')
    from heap_ordered_replace(1) [OF ord1 i1 h' this] have "up_hole (keys q') (heap q') i" by (simp add: k')
    from fin [OF sift_up_correct [OF l' i' this]] True show ?thesis by (simp add: par_def)
  next
    case False
    then have "\<not> (i \<noteq> 0 \<and> keys q tail < keys q (heap q1 ! par i))"
      using i1 pi by (auto simp: earlier_iff keys_def [symmetric] k') (auto simp: h')
    from heap_ordered_replace(2) [OF ord1 i1 h' this] have "down_hole (keys q') (heap q') i" by (simp add: k')
    from fin [OF sift_down_correct [OF l' i' this]] False show ?thesis by (auto simp: par_def)
  qed
qed


lemma remove_detached:
  "timer_inv q \<Longrightarrow> i < length (heap q) \<Longrightarrow> detached q (heap q ! i) (detach_at i q)"
  unfolding detach_at_def Let_def using remove_detached_cases [of q i] by simp

section \<open>The abstract queue\<close>

text \<open>The armed registrations, with the key that orders them and the callback to run.\<close>

definition armed :: "'c timer_queue \<Rightarrow> nat \<rightharpoonup> (int \<times> u64) \<times> 'c" where
  "armed q r = (if r \<in> set (heap q) then Some (keys q r, the (tr_callback (regs q r))) else None)"

lemma dom_armed [simp]: "dom (armed q) = set (heap q)"
  by (auto simp: armed_def dom_def)

lemma detached_marked:
  assumes q: "timer_inv q" and d: "detached q r q'"
  defines "q'' \<equiv> q'\<lparr>regs := (regs q')(r := (regs q' r)\<lparr>tr_owned := False, tr_heap_index := None\<rparr>)\<rparr>"
  shows "timer_inv q'' \<and> armed q'' = (armed q)(r := None) \<and> control q'' = control q
     \<and> tr_callback (regs q'' r) = tr_callback (regs q r) \<and> keys q'' = keys q"
proof -
  have same: "unlinked (regs q' x) = unlinked (regs q x)" for x
    using d by (simp add: detached_def)
  then have k: "keys q' = keys q"
    by (auto simp: keys_def reg_key_def fun_eq_iff dest: unlinked_eqD)
  have k'': "keys q'' = keys q'"
    by (auto simp: keys_def reg_key_def q''_def fun_eq_iff)
  have m: "mset (heap q) = add_mset r (mset (heap q'))" using d by (simp add: detached_def)
  have "distinct (heap q)" using q by (simp add: timer_inv_def linked_def)
  then have rn: "r \<notin> set (heap q')"
    using m by (metis distinct.simps(2) mset.simps(2) mset_eq_imp_distinct_iff)
  have set: "set (heap q) = insert r (set (heap q'))"
    using m by (metis set_mset_add_mset_insert set_mset_mset)
  have h: "heap q'' = heap q'" by (simp add: q''_def)
  have other: "regs q'' x = regs q' x" if "x \<noteq> r" for x using that by (simp add: q''_def)
  have "linked q''"
    using d rn by (auto simp: detached_def linked_def h q''_def)
  moreover have "heap_ordered (keys q'') (heap q'')"
    using d by (simp add: detached_def h k'' k)
  moreover have "tr_owned (regs q'' x) \<longleftrightarrow> x \<in> set (heap q'')" for x
    using q set rn unlinked_eqD(1) [OF same [of x]] other [of x]
    by (cases "x = r") (auto simp: h timer_inv_def, simp add: q''_def)
  moreover have "tr_heap_index (regs q'' x) = None" if "x \<notin> set (heap q'')" for x
    using that q d set other [of x] by (cases "x = r") (auto simp: h timer_inv_def detached_def, simp add: q''_def)
  moreover have cb: "tr_callback (regs q'' x) = tr_callback (regs q x)" for x
    using unlinked_eqD(4) [OF same [of x]] by (auto simp: q''_def)
  moreover have "armed q'' = (armed q)(r := None)"
    using set rn by (auto simp: armed_def fun_eq_iff h k'' k cb)
  moreover have "control q'' = control q"
    using d by (simp add: detached_def q''_def control_def)
  ultimately show ?thesis
    using q set k k'' by (auto simp: timer_inv_def h)
qed

lemma remove_at_correct:
  assumes "timer_inv q" and "i < length (heap q)" and "remove_at i q = (r, q')"
  shows "r = heap q ! i \<and> timer_inv q' \<and> armed q' = (armed q)(r := None) \<and> control q' = control q
     \<and> tr_callback (regs q' r) = tr_callback (regs q r) \<and> keys q' = keys q"
  using assms(3) detached_marked [OF assms(1) remove_detached [OF assms(1,2)]]
  by (auto simp: remove_at_def Let_def)

lemma clear_callback_inv:
  assumes "timer_inv q" and "r \<notin> set (heap q)"
  shows "timer_inv (clear_callback r q)" "armed (clear_callback r q) = armed q"
    "control (clear_callback r q) = control q" "keys (clear_callback r q) = keys q"
  using assms
  by (auto simp: timer_inv_def clear_callback_def linked_def keys_def [abs_def] reg_key_def armed_def control_def
      heap_ordered_def fun_eq_iff)

section \<open>Arming and disarming\<close>

lemma up_hole_last:
  assumes "heap_ordered k h" and "length h' = Suc (length h)"
    and "\<And>j. j < length h \<Longrightarrow> k' (h' ! j) = k (h ! j)"
  shows "up_hole k' h' (length h)"
  unfolding up_hole_def
proof (intro conjI allI impI)
  fix j assume j: "0 < j" "j < length h'" "j \<noteq> length h"
  then have "j < length h" using assms(2) by simp
  with par_less [OF j(1)] assms(1,3) j(1) show "k' (h' ! par j) \<le> k' (h' ! j)"
    by (simp add: heap_ordered_def)
next
  fix c assume "0 < c" "c < length h'" "par c = length h"
  with par_less [of c] assms(2) show "k' (h' ! par (length h)) \<le> k' (h' ! c)" by simp
qed

lemma timer_arm_correct:
  assumes q: "timer_inv q" and a: "timer_arm on_thread r deadline cb q = (Armed, q')"
  shows "timer_inv q' \<and> armed q r = None \<and> cb \<noteq> None
     \<and> armed q' = (armed q)(r \<mapsto> ((deadline, next_sequence q), the cb))"
proof -
  define reg where "reg = \<lparr>tr_owned = True, tr_deadline = deadline, tr_sequence = next_sequence q,
    tr_heap_index = Some (length (heap q)), tr_callback = cb\<rparr>"
  define q1 where "q1 = q\<lparr>heap := heap q @ [r], regs := (regs q)(r := reg), next_sequence := next_sequence q + 1\<rparr>"
  have free: "\<not> tr_owned (regs q r)" "cb \<noteq> None" and q': "q' = sift_up (length (heap q)) q1"
    using a by (auto simp: timer_arm_def q1_def reg_def Let_def split: if_splits)
  then have rn: "r \<notin> set (heap q)" using q by (simp add: timer_inv_def)
  have k1: "keys q1 x = (if x = r then (deadline, next_sequence q) else keys q x)" for x
    by (simp add: keys_def q1_def reg_def reg_key_def)
  have kh: "keys q1 (heap q1 ! j) = keys q (heap q ! j)" if "j < length (heap q)" for j
  proof -
    have "heap q1 ! j = heap q ! j" using that by (simp add: q1_def nth_append)
    moreover have "heap q ! j \<noteq> r" using that rn by (metis nth_mem)
    ultimately show ?thesis by (simp add: k1)
  qed
  have l1: "linked q1"
    using q rn unfolding timer_inv_def linked_def
    by (auto simp: q1_def reg_def nth_append less_Suc_eq)
  have "heap_ordered (keys q) (heap q)" using q by (simp add: timer_inv_def)
  then have "up_hole (keys q1) (heap q1) (length (heap q))"
    by (rule up_hole_last) (use kh in \<open>simp_all add: q1_def\<close>)
  then have s: "linked q'" "reordered q1 q'" "heap_ordered (keys q1) (heap q')"
    using sift_up_correct [OF l1, of "length (heap q)"] by (simp_all add: q' q1_def)
  have set: "set (heap q') = insert r (set (heap q))"
  proof -
    have "mset (heap q') = mset (r # heap q)" using s(2) by (simp add: reordered_def q1_def)
    from mset_eq_setD [OF this] show ?thesis by simp
  qed
  have k': "keys q' = keys q1" by (rule reordered_keys [OF s(2)])
  have same: "unlinked (regs q' x) = unlinked (regs q1 x)" for x
    using s(2) by (simp add: reordered_def)
  have cb': "tr_callback (regs q' x) = (if x = r then cb else tr_callback (regs q x))" for x
    using unlinked_eqD(4) [OF same [of x]] by (simp add: q1_def reg_def)
  have own: "tr_owned (regs q' x) \<longleftrightarrow> x \<in> set (heap q')" for x
    using unlinked_eqD(1) [OF same [of x]] q by (auto simp: q1_def reg_def set timer_inv_def)
  have idx: "tr_heap_index (regs q' x) = None" if "x \<notin> set (heap q')" for x
    using that s(2) q by (auto simp: set reordered_def q1_def timer_inv_def)
  have "timer_inv q'"
    using s own idx q free(2) by (auto simp: timer_inv_def k' set cb')
  moreover have "armed q' = (armed q)(r \<mapsto> ((deadline, next_sequence q), the cb))"
    by (auto simp: armed_def fun_eq_iff set k' k1 cb')
  ultimately show ?thesis
    using rn free(2) by (simp add: armed_def)
qed

lemma timer_disarm_correct:
  assumes q: "timer_inv q" and d: "timer_disarm on_thread r q = (ok, q')"
  shows "timer_inv q' \<and> armed q' = (if ok then (armed q)(r := None) else armed q)
     \<and> (ok \<longleftrightarrow> tq_running q \<and> on_thread \<and> armed q r \<noteq> None) \<and> control q' = control q"
proof (cases "tq_running q \<and> on_thread \<and> r \<in> set (heap q)")
  case True
  then obtain i where i: "i < length (heap q)" "heap q ! i = r" by (metis in_set_conv_nth)
  then have ix: "tr_heap_index (regs q r) = Some i" "tr_owned (regs q r)"
    using q True by (auto simp: timer_inv_def linked_def)
  obtain r' q1 where rm: "remove_at i q = (r', q1)" by fastforce
  note c = remove_at_correct [OF q i(1) rm]
  have eq: "(ok, q') = (True, clear_callback r q1)"
    using d True i ix rm by (simp add: timer_disarm_def timer_on_owner_def)
  have "armed q1 r = None" using c i(2) by simp
  then have "r \<notin> set (heap q1)" by (metis armed_def option.distinct(1))
  with clear_callback_inv [of q1 r] c eq i(2) True show ?thesis by (auto simp: armed_def)
next
  case False
  then have "ok = False" "q' = q"
    using d q by (auto simp: timer_disarm_def timer_on_owner_def timer_inv_def)
  with q False show ?thesis by (auto simp: armed_def)
qed

section \<open>Dispatching\<close>

text \<open>Running the callbacks of a list of registrations, in order, and counting the failures.\<close>

fun run_callbacks ::
  "('c \<Rightarrow> timer_completion \<Rightarrow> 'w \<Rightarrow> bool \<times> 'w) \<Rightarrow> timer_completion \<Rightarrow> 'c list \<Rightarrow> 'w \<Rightarrow> nat \<times> 'w" where
  "run_callbacks run completion [] w = (0, w)"
| "run_callbacks run completion (c # cs) w =
     (case run c completion w of (ok, w') \<Rightarrow>
        (case run_callbacks run completion cs w' of (n, w'') \<Rightarrow> (n + (if ok then 0 else 1), w'')))"

definition callbacks :: "'c timer_queue \<Rightarrow> nat list \<Rightarrow> 'c list" where
  "callbacks q rs = map (\<lambda>r. snd (the (armed q r))) rs"

lemma complete_front_correct:
  assumes q: "timer_inv q" and ne: "heap q \<noteq> []"
    and c: "complete_front run completion res q w = (res', q', w')"
  defines "r \<equiv> heap q ! 0"
  shows "timer_inv q' \<and> armed q' = (armed q)(r := None) \<and> r \<in> set (heap q)
     \<and> (\<forall>x \<in> set (heap q). keys q r \<le> keys q x)
     \<and> (\<exists>ok. run (snd (the (armed q r))) completion w = (ok, w')
          \<and> res' = res\<lparr>dispatched := dispatched res + 1,
                        schedule_failures := schedule_failures res + (if ok then 0 else 1)\<rparr>)"
proof -
  have i: "0 < length (heap q)" using ne by simp
  obtain r' q1 where rm: "remove_at 0 q = (r', q1)" by fastforce
  note rc = remove_at_correct [OF q i rm]
  have r': "r' = r" using rc by (simp add: r_def)
  have rin: "r \<in> set (heap q)" using i by (simp add: r_def)
  obtain cb where cb: "tr_callback (regs q r) = Some cb"
    using q rin by (auto simp: timer_inv_def)
  then have a: "snd (the (armed q r)) = cb" using rin by (simp add: armed_def)
  obtain ok w1 where run: "run cb completion w = (ok, w1)" by fastforce
  have "armed q1 r = None" using rc r' by simp
  then have rn: "r \<notin> set (heap q1)" by (metis armed_def option.distinct(1))
  have q': "q' = (if ok then clear_callback r q1
      else (clear_callback r q1)\<lparr>timer_invariant_failures := timer_invariant_failures (clear_callback r q1) + 1\<rparr>)"
    and res': "w' = w1" "res' = res\<lparr>dispatched := dispatched res + 1,
        schedule_failures := schedule_failures res + (if ok then 0 else 1)\<rparr>"
    using c rm rc r' cb run by (auto simp: complete_front_def Let_def split: if_splits)
  have fail: "timer_inv (x\<lparr>timer_invariant_failures := n\<rparr>) = timer_inv x"
    "armed (x\<lparr>timer_invariant_failures := n\<rparr>) = armed x" for x :: "'a timer_queue" and n
    by (simp_all add: timer_inv_def linked_def keys_def [abs_def] armed_def fun_eq_iff)
  have "timer_inv q'" "armed q' = (armed q)(r := None)"
    using clear_callback_inv [of q1 r] rc rn r' by (auto simp: q' fail)
  moreover have "\<forall>x \<in> set (heap q). keys q r \<le> keys q x"
    using q heap_ordered_front [of "keys q" "heap q"] by (auto simp: timer_inv_def r_def in_set_conv_nth)
  ultimately show ?thesis
    using rin run res' a by auto
qed


definition dispatched_prefix ::
  "'c timer_queue \<Rightarrow> nat list \<Rightarrow> 'c timer_queue \<Rightarrow> bool" where
  "dispatched_prefix q rs q' \<longleftrightarrow> timer_inv q' \<and> distinct rs \<and> set rs \<subseteq> set (heap q)
     \<and> armed q' = (armed q) |` (- set rs) \<and> sorted_wrt (\<le>) (map (keys q) rs)
     \<and> (\<forall>r \<in> set rs. \<forall>x \<in> set (heap q'). keys q r \<le> keys q x)"

lemma armed_keys: "x \<in> set (heap q) \<Longrightarrow> fst (the (armed q x)) = keys q x"
  by (simp add: armed_def)

lemma dispatched_prefix_Nil: "timer_inv q \<Longrightarrow> dispatched_prefix q [] q"
  by (simp add: dispatched_prefix_def)

lemma dispatched_prefix_Cons:
  assumes q: "timer_inv q" and r: "r \<in> set (heap q)" "\<forall>x \<in> set (heap q). keys q r \<le> keys q x"
    and a1: "armed q1 = (armed q)(r := None)" and p: "dispatched_prefix q1 rs q'"
  shows "dispatched_prefix q (r # rs) q' \<and> callbacks q1 rs = callbacks q rs"
proof -
  have d1: "set (heap q1) = set (heap q) - {r}"
    using arg_cong [OF a1, of dom] by simp
  have rs: "set rs \<subseteq> set (heap q) - {r}" using p d1 by (simp add: dispatched_prefix_def)
  have k: "keys q1 x = keys q x" if "x \<in> set (heap q1)" for x
    using that armed_keys [of x q1] armed_keys [of x q] d1 by (simp add: a1)
  have h': "set (heap q') \<subseteq> set (heap q1)"
  proof -
    have "dom (armed q') \<subseteq> dom (armed q1)" using p by (auto simp: dispatched_prefix_def)
    then show ?thesis by simp
  qed
  have keq: "map (keys q1) rs = map (keys q) rs" using rs d1 k by auto
  have "armed q' = (armed q) |` (- set (r # rs))"
    using p a1 by (auto simp: dispatched_prefix_def restrict_map_def fun_eq_iff)
  moreover have "sorted_wrt (\<le>) (map (keys q) (r # rs))"
    using p keq r(2) rs by (auto simp: dispatched_prefix_def)
  moreover have "\<forall>r' \<in> set (r # rs). \<forall>x \<in> set (heap q'). keys q r' \<le> keys q x"
  proof (intro ballI)
    fix r' x assume a: "r' \<in> set (r # rs)" "x \<in> set (heap q')"
    show "keys q r' \<le> keys q x"
    proof (cases "r' = r")
      case True
      with a(2) r(2) h' d1 show ?thesis by auto
    next
      case False
      with a p have "keys q1 r' \<le> keys q1 x" by (auto simp: dispatched_prefix_def)
      moreover have "r' \<in> set (heap q1)" "x \<in> set (heap q1)" using a False rs d1 h' by auto
      ultimately show ?thesis using k by simp
    qed
  qed
  moreover have "callbacks q1 rs = callbacks q rs"
    using rs by (auto simp: callbacks_def a1)
  ultimately show ?thesis
    using p rs r(1) by (auto simp: dispatched_prefix_def)
qed

lemma run_callbacks_Cons:
  "run c completion w = (ok, w1) \<Longrightarrow> run_callbacks run completion cs w1 = (n, w2) \<Longrightarrow>
     run_callbacks run completion (c # cs) w = (n + (if ok then 0 else 1), w2)"
  by simp

lemma expire_loop_correct:
  assumes "timer_inv q" and "expire_loop run now budget res q w = (res', q', w')"
  shows "\<exists>rs n. dispatched_prefix q rs q' \<and> (\<forall>r \<in> set rs. fst (keys q r) \<le> now)
     \<and> run_callbacks run TimerExpired (callbacks q rs) w = (n, w')
     \<and> res' = res\<lparr>dispatched := dispatched res + length rs, schedule_failures := schedule_failures res + n\<rparr>
     \<and> (dispatched res' < budget \<longrightarrow> (\<forall>x \<in> set (heap q'). now < fst (keys q x)))
     \<and> (dispatched res \<le> budget \<longrightarrow> dispatched res' \<le> budget)"
  using assms
proof (induction "length (heap q)" arbitrary: res q w rule: less_induct)
  case less
  show ?case
  proof (cases "dispatched res < budget \<and> heap q \<noteq> [] \<and> tr_deadline (reg_at q 0) \<le> now")
    case False
    then have eq: "res' = res" "q' = q" "w' = w"
      using less.prems(2) by (simp_all only: expire_loop.simps [of run now budget res q w] if_False prod.inject)
    have "now < fst (keys q x)" if "dispatched res < budget" "x \<in> set (heap q)" for x
    proof -
      from that(2) obtain j where j: "j < length (heap q)" "x = heap q ! j" by (metis in_set_conv_nth)
      then have "keys q (heap q ! 0) \<le> keys q x"
        using less.prems(1) heap_ordered_front by (auto simp: timer_inv_def)
      moreover have "heap q \<noteq> []" using j by auto
      with False that(1) have "now < fst (keys q (heap q ! 0))" by (simp add: keys_def reg_key_def)
      ultimately show ?thesis by (auto simp: less_eq_prod_def)
    qed
    with dispatched_prefix_Nil [OF less.prems(1)] show ?thesis
      by (intro exI [of _ "[]"] exI [of _ 0]) (simp add: eq callbacks_def)
  next
    case True
    obtain res1 q1 w1 where c: "complete_front run TimerExpired res q w = (res1, q1, w1)" by (metis prod_cases3)
    let ?r = "heap q ! 0"
    from True c less.prems(2) have loop: "expire_loop run now budget res1 q1 w1 = (res', q', w')"
      by (simp add: expire_loop.simps [of run now budget res q w])
    have ne: "heap q \<noteq> []" using True by simp
    from complete_front_correct [OF less.prems(1) ne c] obtain ok where
      f: "timer_inv q1" "armed q1 = (armed q)(?r := None)" "?r \<in> set (heap q)"
        "\<forall>x \<in> set (heap q). keys q ?r \<le> keys q x"
        "run (snd (the (armed q ?r))) TimerExpired w = (ok, w1)"
        "res1 = res\<lparr>dispatched := dispatched res + 1,
                    schedule_failures := schedule_failures res + (if ok then 0 else 1)\<rparr>" by blast
    have "length (heap q1) < length (heap q)"
      using length_complete_front [OF c] ne by (simp add: length_greater_0_conv [symmetric] del: length_greater_0_conv)
    from less.hyps [OF this f(1) loop] obtain rs n where
      ih: "dispatched_prefix q1 rs q'" "\<forall>r \<in> set rs. fst (keys q1 r) \<le> now"
        "run_callbacks run TimerExpired (callbacks q1 rs) w1 = (n, w')"
        "res' = res1\<lparr>dispatched := dispatched res1 + length rs, schedule_failures := schedule_failures res1 + n\<rparr>"
        "dispatched res' < budget \<longrightarrow> (\<forall>x \<in> set (heap q'). now < fst (keys q1 x))"
        "dispatched res1 \<le> budget \<longrightarrow> dispatched res' \<le> budget" by blast
    note p = dispatched_prefix_Cons [OF less.prems(1) f(3,4,2) ih(1)]
    have d1: "set (heap q1) = set (heap q) - {?r}" using arg_cong [OF f(2), of dom] by simp
    have k: "keys q1 x = keys q x" if "x \<in> set (heap q1)" for x
      using that armed_keys [of x q1] armed_keys [of x q] d1 by (simp add: f(2))
    have sub: "set rs \<subseteq> set (heap q1)" "set (heap q') \<subseteq> set (heap q1)"
      using ih(1) dom_armed [of q'] dom_armed [of q1] by (auto simp: dispatched_prefix_def)
    have "fst (keys q ?r) \<le> now" using True by (simp add: keys_def reg_key_def)
    with ih(2) sub k have "\<forall>r \<in> set (?r # rs). fst (keys q r) \<le> now" by fastforce
    moreover have "callbacks q (?r # rs) = snd (the (armed q ?r)) # callbacks q1 rs"
      using p by (simp add: callbacks_def)
    then have "run_callbacks run TimerExpired (callbacks q (?r # rs)) w = (n + (if ok then 0 else 1), w')"
      using run_callbacks_Cons [of run _ _ w, OF f(5) ih(3)] by simp
    moreover have "dispatched res' < budget \<longrightarrow> (\<forall>x \<in> set (heap q'). now < fst (keys q x))"
      using ih(5) sub k by (metis subsetD)
    moreover have "dispatched res \<le> budget \<longrightarrow> dispatched res' \<le> budget"
      using ih(6) f(6) True by simp
    ultimately show ?thesis
      using p ih(4) f(6) by (intro exI [of _ "?r # rs"] exI [of _ "n + (if ok then 0 else 1)"]) simp
  qed
qed


lemma cancel_loop_correct:
  assumes "timer_inv q" and "cancel_loop run res q w = (res', q', w')"
  shows "\<exists>rs n. dispatched_prefix q rs q' \<and> set rs = set (heap q) \<and> heap q' = []
     \<and> run_callbacks run TimerCancelled (callbacks q rs) w = (n, w')
     \<and> res' = res\<lparr>dispatched := dispatched res + length rs, schedule_failures := schedule_failures res + n\<rparr>"
  using assms
proof (induction "length (heap q)" arbitrary: res q w rule: less_induct)
  case less
  show ?case
  proof (cases "heap q = []")
    case True
    with less.prems dispatched_prefix_Nil [OF less.prems(1)] show ?thesis
      by (intro exI [of _ "[]"] exI [of _ 0]) (simp add: cancel_loop.simps [of run res q w] callbacks_def)
  next
    case False
    obtain res1 q1 w1 where c: "complete_front run TimerCancelled res q w = (res1, q1, w1)" by (metis prod_cases3)
    let ?r = "heap q ! 0"
    from False c less.prems(2) have loop: "cancel_loop run res1 q1 w1 = (res', q', w')"
      by (simp add: cancel_loop.simps [of run res q w])
    from complete_front_correct [OF less.prems(1) False c] obtain ok where
      f: "timer_inv q1" "armed q1 = (armed q)(?r := None)" "?r \<in> set (heap q)"
        "\<forall>x \<in> set (heap q). keys q ?r \<le> keys q x"
        "run (snd (the (armed q ?r))) TimerCancelled w = (ok, w1)"
        "res1 = res\<lparr>dispatched := dispatched res + 1,
                    schedule_failures := schedule_failures res + (if ok then 0 else 1)\<rparr>" by blast
    have "length (heap q1) < length (heap q)"
      using length_complete_front [OF c] False by (simp add: length_greater_0_conv [symmetric] del: length_greater_0_conv)
    from less.hyps [OF this f(1) loop] obtain rs n where
      ih: "dispatched_prefix q1 rs q'" "set rs = set (heap q1)" "heap q' = []"
        "run_callbacks run TimerCancelled (callbacks q1 rs) w1 = (n, w')"
        "res' = res1\<lparr>dispatched := dispatched res1 + length rs, schedule_failures := schedule_failures res1 + n\<rparr>"
      by blast
    note p = dispatched_prefix_Cons [OF less.prems(1) f(3,4,2) ih(1)]
    have "set (?r # rs) = set (heap q)"
      using arg_cong [OF f(2), of dom] f(3) ih(2) by auto
    moreover have "callbacks q (?r # rs) = snd (the (armed q ?r)) # callbacks q1 rs"
      using p by (simp add: callbacks_def)
    then have "run_callbacks run TimerCancelled (callbacks q (?r # rs)) w = (n + (if ok then 0 else 1), w')"
      using run_callbacks_Cons [of run _ _ w, OF f(5) ih(4)] by simp
    ultimately show ?thesis
      using p ih(3,5) f(6) by (intro exI [of _ "?r # rs"] exI [of _ "n + (if ok then 0 else 1)"]) simp
  qed
qed

section \<open>Correctness of the queue\<close>

text \<open>
  C34. Arming adds exactly one registration with its deadline and callback and disarming removes
  exactly one, both keeping the heap well formed: ordered, with every node's back index right.
  A registration can be disarmed exactly when it is armed.
\<close>

theorem timer_arm_disarm:
  assumes "timer_inv q" and "timer_arm on_thread r deadline cb q = (res, q')"
  shows "timer_inv q'
    \<and> armed q' = (if res = Armed then (armed q)(r \<mapsto> ((deadline, next_sequence q), the cb)) else armed q)
    \<and> (tq_running q \<longrightarrow> on_thread \<longrightarrow> tq_accepting q \<longrightarrow> cb \<noteq> None \<longrightarrow> (res = Armed \<longleftrightarrow> armed q r = None))
    \<and> (tq_running q \<longrightarrow> timer_inv (snd (timer_disarm True r q))
         \<and> armed (snd (timer_disarm True r q)) = (armed q)(r := None)
         \<and> (fst (timer_disarm True r q) \<longleftrightarrow> armed q r \<noteq> None))"
proof -
  have add: "timer_inv q' \<and> armed q' = (if res = Armed then (armed q)(r \<mapsto> ((deadline, next_sequence q), the cb)) else armed q)"
  proof (cases "res = Armed")
    case True
    with timer_arm_correct [OF assms(1)] assms(2) show ?thesis by simp
  next
    case False
    then have "q' = q" using assms(2) by (auto simp: timer_arm_def Let_def split: if_splits)
    with False assms(1) show ?thesis by simp
  qed
  moreover have "res = Armed \<longleftrightarrow> armed q r = None"
    if "tq_running q" "on_thread" "tq_accepting q" "cb \<noteq> None"
    using assms that
    by (auto simp: timer_arm_def Let_def timer_on_owner_def armed_def timer_inv_def split: if_splits)
  moreover have "timer_inv (snd (timer_disarm True r q)) \<and> armed (snd (timer_disarm True r q)) = (armed q)(r := None)
      \<and> (fst (timer_disarm True r q) \<longleftrightarrow> armed q r \<noteq> None)" if "tq_running q"
  proof -
    obtain ok q1 where d: "timer_disarm True r q = (ok, q1)" by fastforce
    from timer_disarm_correct [OF assms(1) d] that d show ?thesis
      by (auto simp: fun_eq_iff)
  qed
  ultimately show ?thesis by simp
qed

text \<open>
  C35. Expiry dispatches only due timers, in the order of deadline and arming, within its budget, and
  all of them if the budget allows: each dispatched callback runs exactly once, what stays armed is
  exactly the rest, and the flag for more work is right.
\<close>

theorem timer_expire_correct:
  assumes "timer_inv q" and "tq_running q" and "timer_expire run True now budget q w = (res, q', w')"
  shows "timer_inv q' \<and> (\<exists>rs n.
      distinct rs \<and> (\<forall>r \<in> set rs. armed q r \<noteq> None \<and> fst (keys q r) \<le> now)
      \<and> sorted_wrt (\<le>) (map (keys q) rs) \<and> armed q' = (armed q) |` (- set rs)
      \<and> run_callbacks run TimerExpired (callbacks q rs) w = (n, w')
      \<and> dispatched res = length rs \<and> schedule_failures res = n \<and> length rs \<le> budget
      \<and> (length rs < budget \<longrightarrow> (\<forall>r. armed q r \<noteq> None \<longrightarrow> fst (keys q r) \<le> now \<longrightarrow> r \<in> set rs)))
    \<and> (has_due res \<longleftrightarrow> (\<exists>r. armed q' r \<noteq> None \<and> fst (keys q' r) \<le> now))"
proof -
  obtain res1 where loop: "expire_loop run now budget no_dispatch q w = (res1, q', w')"
    and res: "res = res1\<lparr>has_due := heap q' \<noteq> [] \<and> tr_deadline (reg_at q' 0) \<le> now\<rparr>"
    using assms(2,3) by (auto simp: timer_expire_def timer_on_owner_def split: prod.splits)
  from expire_loop_correct [OF assms(1) loop] obtain rs n where
    p: "dispatched_prefix q rs q'" "\<forall>r \<in> set rs. fst (keys q r) \<le> now"
      "run_callbacks run TimerExpired (callbacks q rs) w = (n, w')"
      "res1 = no_dispatch\<lparr>dispatched := dispatched no_dispatch + length rs,
                          schedule_failures := schedule_failures no_dispatch + n\<rparr>"
      "dispatched res1 < budget \<longrightarrow> (\<forall>x \<in> set (heap q'). now < fst (keys q x))"
      "dispatched res1 \<le> budget" by (auto simp: no_dispatch_def)
  have inv: "timer_inv q'" using p(1) by (simp add: dispatched_prefix_def)
  have h': "set (heap q') = set (heap q) - set rs"
    using p(1) dom_armed [of q'] dom_armed [of q] by (auto simp: dispatched_prefix_def)
  have "r \<in> set rs" if "length rs < budget" "armed q r \<noteq> None" "fst (keys q r) \<le> now" for r
    using that p(4,5) h' by (force simp: no_dispatch_def armed_def split: if_splits)
  moreover have "has_due res \<longleftrightarrow> (\<exists>r. armed q' r \<noteq> None \<and> fst (keys q' r) \<le> now)"
  proof
    assume "has_due res"
    then show "\<exists>r. armed q' r \<noteq> None \<and> fst (keys q' r) \<le> now"
      by (intro exI [of _ "heap q' ! 0"]) (simp add: res armed_def keys_def reg_key_def)
  next
    assume "\<exists>r. armed q' r \<noteq> None \<and> fst (keys q' r) \<le> now"
    then obtain j where j: "j < length (heap q')" "fst (keys q' (heap q' ! j)) \<le> now"
      by (auto simp: armed_def in_set_conv_nth split: if_splits)
    then have "keys q' (heap q' ! 0) \<le> keys q' (heap q' ! j)"
      using inv heap_ordered_front by (auto simp: timer_inv_def)
    with j show "has_due res" by (auto simp: res keys_def reg_key_def less_eq_prod_def)
  qed
  moreover have "\<forall>r \<in> set rs. armed q r \<noteq> None \<and> fst (keys q r) \<le> now"
    using p(1,2) by (auto simp: dispatched_prefix_def armed_def)
  moreover have "dispatched res = length rs" "schedule_failures res = n" "length rs \<le> budget"
    using p(4,6) by (simp_all add: res no_dispatch_def)
  ultimately show ?thesis
    using p(1,3) inv unfolding dispatched_prefix_def by blast
qed

lemma next_deadline_least:
  assumes "timer_inv q"
  shows "case next_deadline q of None \<Rightarrow> armed q = Map.empty
    | Some d \<Rightarrow> (\<exists>r. armed q r \<noteq> None \<and> fst (keys q r) = d) \<and> (\<forall>r. armed q r \<noteq> None \<longrightarrow> d \<le> fst (keys q r))"
proof (cases "heap q = []")
  case True
  then show ?thesis by (simp add: next_deadline_def armed_def fun_eq_iff)
next
  case False
  have "keys q (heap q ! 0) \<le> keys q r" if "r \<in> set (heap q)" for r
    using that assms heap_ordered_front [of "keys q" "heap q"] by (auto simp: timer_inv_def in_set_conv_nth)
  then have "fst (keys q (heap q ! 0)) \<le> fst (keys q r)" if "armed q r \<noteq> None" for r
    using that by (force simp: armed_def less_eq_prod_def split: if_splits)
  with False show ?thesis
    by (auto simp: next_deadline_def armed_def keys_def reg_key_def intro!: exI [of _ "heap q ! 0"])
qed

lemma ceil_div_bounds:
  assumes "(0 :: int) < n"
  shows "(- ((- d) div n) - 1) * n < d \<and> d \<le> - ((- d) div n) * n"
proof -
  define q m where "q = (- d) div n" and "m = (- d) mod n"
  have "n * q + m = - d" "0 \<le> m" "m < n"
    using assms by (simp_all add: q_def m_def)
  then show ?thesis unfolding q_def [symmetric] by (simp add: algebra_simps)
qed

lemma wait_timeout_future:
  assumes d: "next_deadline q = Some d" and "now < d"
  shows "0 < wait_timeout q now \<and> wait_timeout q now \<le> int_max
    \<and> (wait_timeout q now - 1) * nanoseconds_per_millisecond < d - now
    \<and> (wait_timeout q now < int_max \<longrightarrow> d - now \<le> wait_timeout q now * nanoseconds_per_millisecond)"
proof -
  define n where "n = nanoseconds_per_millisecond"
  define w where "w = - ((- (d - now)) div n)"
  have n: "0 < n" "0 < int_max" by (simp_all add: n_def nanoseconds_per_millisecond_def int_max_def)
  have w: "(w - 1) * n < d - now" "d - now \<le> w * n"
    using ceil_div_bounds [of n "d - now"] n by (simp_all add: w_def)
  have "0 < w * n" using w(2) \<open>now < d\<close> by linarith
  with n have pos: "0 < w" by (simp add: zero_less_mult_iff)
  have eq: "wait_timeout q now =
      (if now < 0 \<and> d \<ge> 0 \<and> (d \<ge> int_max * n \<or> now \<le> - (int_max * n)) then int_max
       else if d - now \<ge> int_max * n then int_max else if w \<ge> int_max then int_max else w)"
    using assms
    by (simp only: wait_timeout_def Let_def maximum_wait_def n_def w_def option.case not_le [symmetric] if_False)
  have less: "(int_max - 1) * n < int_max * n" using n by simp
  consider (sat) "wait_timeout q now = int_max" "int_max * n \<le> d - now"
    | (big) "wait_timeout q now = int_max" "int_max \<le> w"
    | (exact) "wait_timeout q now = w" "w < int_max"
    unfolding eq by (smt (verit))
  then show ?thesis
  proof cases
    case sat
    then have "(int_max - 1) * n < d - now" using less by linarith
    with sat n show ?thesis by (simp add: n_def)
  next
    case big
    then have "(int_max - 1) * n \<le> (w - 1) * n" using n by (intro mult_right_mono) simp_all
    then have "(int_max - 1) * n < d - now" using w(1) by linarith
    with big n show ?thesis by (simp add: n_def)
  next
    case exact
    with w pos show ?thesis by (simp add: n_def)
  qed
qed

lemma wait_difference_fits:
  assumes "- (2 ^ 63) \<le> now" "d < 2 ^ 63"
    and "\<not> (now < 0 \<and> d \<ge> 0 \<and> (d \<ge> maximum_wait \<or> now \<le> - maximum_wait))"
  shows "d - now < 2 ^ 63"
proof -
  have "maximum_wait + maximum_wait < 2 ^ 63"
    by (simp add: maximum_wait_def int_max_def nanoseconds_per_millisecond_def)
  with assms show ?thesis by linarith
qed

text \<open>
  The poll timeout is \<open>-1\<close> exactly when no timer is armed and \<open>0\<close> exactly when one is due.
  Otherwise it is positive, never later than the earliest deadline by a millisecond or more, and
  not earlier either unless it is saturated at \<open>INT_MAX\<close>.  The subtraction of the two time points
  that the code performs never leaves the 64-bit range of the clock.
\<close>

theorem wait_timeout_correct:
  assumes "timer_inv q"
  shows "(wait_timeout q now = - 1 \<longleftrightarrow> armed q = Map.empty)
    \<and> (wait_timeout q now = 0 \<longleftrightarrow> (\<exists>r. armed q r \<noteq> None \<and> fst (keys q r) \<le> now))
    \<and> wait_timeout q now \<le> int_max
    \<and> (\<forall>d. next_deadline q = Some d \<longrightarrow> now < d \<longrightarrow>
         0 < wait_timeout q now \<and> (wait_timeout q now - 1) * nanoseconds_per_millisecond < d - now
         \<and> (wait_timeout q now < int_max \<longrightarrow> d - now \<le> wait_timeout q now * nanoseconds_per_millisecond))
    \<and> (\<forall>d. next_deadline q = Some d \<longrightarrow> now < d \<longrightarrow> - (2 ^ 63) \<le> now \<longrightarrow> d < 2 ^ 63
         \<longrightarrow> \<not> (now < 0 \<and> d \<ge> 0 \<and> (d \<ge> maximum_wait \<or> now \<le> - maximum_wait)) \<longrightarrow> d - now < 2 ^ 63)"
proof (cases "next_deadline q")
  case None
  then have "wait_timeout q now = - 1" "armed q = Map.empty"
    using next_deadline_least [OF assms] by (simp_all add: wait_timeout_def)
  with None show ?thesis by (simp add: int_max_def)
next
  case (Some d)
  note least = next_deadline_least [OF assms, unfolded Some option.case]
  have ne: "armed q \<noteq> Map.empty" using least by auto
  have due: "(\<exists>r. armed q r \<noteq> None \<and> fst (keys q r) \<le> now) \<longleftrightarrow> d \<le> now"
    using least by (meson order_trans)
  show ?thesis
  proof (cases "d \<le> now")
    case True
    then have "wait_timeout q now = 0" by (simp add: wait_timeout_def Some)
    with True due ne Some show ?thesis by (simp add: int_max_def)
  next
    case False
    then have t: "now < d" by simp
    from wait_timeout_future [OF Some t] t due ne Some wait_difference_fits [of now d]
    show ?thesis by auto
  qed
qed

section \<open>Life cycle\<close>

lemma timer_control_inv:
  "timer_inv q \<Longrightarrow> timer_inv (snd (timer_start owns s q))"
  "timer_inv q \<Longrightarrow> timer_inv (snd (timer_close on_thread q))"
  "timer_inv q \<Longrightarrow> timer_inv (snd (timer_stop on_thread q))"
  by (simp_all add: timer_start_def timer_close_def timer_stop_def timer_inv_def linked_def keys_def [abs_def] heap_ordered_def)

lemma timer_stop_armed: "fst (timer_stop on_thread q) \<Longrightarrow> armed q = Map.empty"
  by (auto simp: timer_stop_def armed_def fun_eq_iff split: if_splits)

text \<open>
  Cancelling everything runs the callback of every armed timer exactly once, in deadline order,
  and leaves a queue that can be stopped.
\<close>

theorem timer_cancel_all_correct:
  assumes "timer_inv q" and "tq_running q" and "timer_cancel_all run True q w = (res, q', w')"
  shows "timer_inv q' \<and> armed q' = Map.empty
    \<and> (\<exists>rs n. distinct rs \<and> (\<forall>r. r \<in> set rs \<longleftrightarrow> armed q r \<noteq> None) \<and> sorted_wrt (\<le>) (map (keys q) rs)
         \<and> run_callbacks run TimerCancelled (callbacks q rs) w = (n, w')
         \<and> dispatched res = length rs \<and> schedule_failures res = n)
    \<and> fst (timer_stop True q')"
proof -
  have "cancel_loop run no_dispatch q w = (res, q', w')"
    using assms(2,3) by (simp add: timer_cancel_all_def timer_on_owner_def)
  from cancel_loop_correct [OF assms(1) this] obtain rs n where
    p: "dispatched_prefix q rs q'" "set rs = set (heap q)" "heap q' = []"
      "run_callbacks run TimerCancelled (callbacks q rs) w = (n, w')"
      "res = no_dispatch\<lparr>dispatched := dispatched no_dispatch + length rs,
                         schedule_failures := schedule_failures no_dispatch + n\<rparr>" by blast
  then have "armed q' = Map.empty" "\<forall>r. r \<in> set rs \<longleftrightarrow> armed q r \<noteq> None" "fst (timer_stop True q')"
      "dispatched res = length rs" "schedule_failures res = n"
    by (auto simp: armed_def fun_eq_iff timer_stop_def timer_on_owner_def no_dispatch_def)
  with p(1,4) show ?thesis unfolding dispatched_prefix_def by blast
qed

section \<open>Witnesses\<close>

definition idle_registration :: "'c timer_registration" where
  "idle_registration = \<lparr>tr_owned = False, tr_deadline = 0, tr_sequence = 0, tr_heap_index = None, tr_callback = None\<rparr>"

definition new_timer_queue :: "'c timer_queue" where
  "new_timer_queue = \<lparr>heap = [], regs = (\<lambda>_. idle_registration), next_sequence = 0,
     timer_invariant_failures = 0, tq_running = False, tq_accepting = False, tq_scheduler = None\<rparr>"

definition started_timer_queue :: "'c timer_queue" where
  "started_timer_queue = snd (timer_start True 0 new_timer_queue)"

lemma started_timer_queue_inv:
  "timer_inv started_timer_queue" "tq_running started_timer_queue" "tq_accepting started_timer_queue"
  "armed started_timer_queue = Map.empty"
  by (simp_all add: started_timer_queue_def timer_start_def new_timer_queue_def timer_inv_def linked_def
      heap_ordered_def idle_registration_def armed_def fun_eq_iff)

definition one_timer :: "string timer_queue" where
  "one_timer = snd (timer_arm True 1 5 (Some ''probe'') started_timer_queue)"

lemma one_timer_eq:
  "timer_arm True 1 5 (Some ''probe'') started_timer_queue = (Armed, one_timer)"
  "heap one_timer = [1]" "tq_running one_timer"
  "regs one_timer 1 = \<lparr>tr_owned = True, tr_deadline = 5, tr_sequence = 0, tr_heap_index = Some 0, tr_callback = Some ''probe''\<rparr>"
  by (simp_all add: one_timer_def timer_arm_def started_timer_queue_def timer_start_def new_timer_queue_def
      idle_registration_def timer_on_owner_def Let_def sift_up.simps)

lemma one_timer_inv: "timer_inv one_timer" "armed one_timer = [1 \<mapsto> ((5, 0), ''probe'')]" "keys one_timer 1 = (5, 0)"
proof -
  have "next_sequence (started_timer_queue :: string timer_queue) = 0"
    by (simp add: started_timer_queue_def timer_start_def new_timer_queue_def)
  then show "timer_inv one_timer" "armed one_timer = [1 \<mapsto> ((5, 0), ''probe'')]"
    using timer_arm_correct [OF started_timer_queue_inv(1) one_timer_eq(1)]
    by (simp_all add: started_timer_queue_inv(4))
  show "keys one_timer 1 = (5, 0)" unfolding keys_def reg_key_def one_timer_eq(4) by simp
qed

lemmas one_timer_simps = one_timer_inv one_timer_inv(2,3) [simplified]

lemma timer_arm_disarm_witness:
  "armed (snd (timer_disarm True 1 one_timer)) = Map.empty
   \<and> timer_inv (snd (timer_arm True 2 9 (Some ''probe'') one_timer))"
proof -
  obtain res q' where a: "timer_arm True 2 9 (Some ''probe'') one_timer = (res, q')" by fastforce
  obtain res1 q1 where b: "timer_arm True 1 9 (Some ''probe'') one_timer = (res1, q1)" by fastforce
  from timer_arm_disarm [OF one_timer_inv(1) a] timer_arm_disarm [OF one_timer_inv(1) b] a one_timer_eq(3)
  show ?thesis by (simp add: one_timer_inv)
qed

lemma timer_expire_correct_witness:
  "\<exists>res q' w'. timer_expire (\<lambda>c e w. (True, c # w)) True 7 10 one_timer [] = (res, q', w')
     \<and> armed q' = Map.empty \<and> dispatched res \<le> 10"
proof -
  obtain res q' w' where e: "timer_expire (\<lambda>c e w. (True, c # w)) True 7 10 one_timer [] = (res, q', w')"
    by (metis prod_cases3)
  from timer_expire_correct [OF one_timer_inv(1) one_timer_eq(3) e] obtain rs where
    rs: "\<forall>r \<in> set rs. armed one_timer r \<noteq> None" "distinct rs" "armed q' = (armed one_timer) |` (- set rs)"
      "dispatched res = length rs" "length rs \<le> 10"
      "length rs < 10 \<longrightarrow> (\<forall>r. armed one_timer r \<noteq> None \<longrightarrow> fst (keys one_timer r) \<le> 7 \<longrightarrow> r \<in> set rs)" by blast
  have "set rs \<subseteq> {1}" using rs(1) by (auto simp: one_timer_inv split: if_splits)
  then have "length rs \<le> 1" using rs(2) by (metis card_mono distinct_card finite.emptyI finite_insert card.empty card_insert_disjoint empty_iff One_nat_def)
  with rs(6) have "1 \<in> set rs" by (simp add: one_timer_simps)
  with rs(3) have "armed q' = Map.empty"
    by (auto simp: one_timer_inv restrict_map_def fun_eq_iff)
  with e rs show ?thesis by (intro exI [of _ res] exI [of _ q'] exI [of _ w']) simp
qed

lemma wait_timeout_correct_witness: "wait_timeout one_timer 0 \<le> int_max \<and> wait_timeout one_timer 7 = 0"
  using wait_timeout_correct [OF one_timer_inv(1), of 0] wait_timeout_correct [OF one_timer_inv(1), of 7]
  by (auto simp: one_timer_simps)

lemma timer_cancel_all_correct_witness:
  "\<exists>res q' w'. timer_cancel_all (\<lambda>c e w. (True, c # w)) True one_timer [] = (res, q', w') \<and> armed q' = Map.empty"
proof -
  obtain res q' w' where e: "timer_cancel_all (\<lambda>c e w. (True, c # w)) True one_timer [] = (res, q', w')"
    by (metis prod_cases3)
  from timer_cancel_all_correct [OF one_timer_inv(1) one_timer_eq(3) e] e show ?thesis by auto
qed

end
