(* ===== verification/Scheduler.thy ===== *)
theory Scheduler
  imports Prelude "HOL-Library.Monad_Syntax" "HOL-Library.Sublist"
begin

text \<open>
  \<open>src/runtime/Scheduler.{h,cpp}\<close> and the awaiters of \<open>src/runtime/Task.h\<close>: the cooperative scheduler
  of a worker thread.

  Coroutine promises are a store \<open>sc_tasks\<close> from addresses to records; the ready list and the list of
  roots are threaded through them, as in the code.  \<open>tp_handle\<close> says that the handle of the frame is
  not null and \<open>tp_done\<close> is \<open>handle_.done()\<close>.  What a frame does between two suspensions is the parameter
  \<open>resume\<close>, constrained by \<open>coroutine_bodies\<close>: it is a sequence of the steps \<open>body_step\<close>.  What the
  destruction of a frame does to the rest of the worker is the parameter \<open>destroy\<close>.  Loops that follow
  pointers return an option, in which \<open>None\<close> is a loop that does not end; the theorems show that this
  does not happen.  Exceptions are their texts.

  \<open>sched_rep s ready roots\<close> says that the two lists of the scheduler are \<open>ready\<close> and \<open>roots\<close>, that
  the flags and counters of the promises agree with them and that listed frames exist.
\<close>

section \<open>Tasks and the scheduler\<close>

record task_promise =
  tp_scheduler :: "nat option"
  tp_token :: bool
  tp_handle :: bool
  tp_done :: bool
  tp_exception :: "string option"
  tp_continuation :: "nat option"
  tp_ready_next :: "nat option"
  tp_root_previous :: "nat option"
  tp_root_next :: "nat option"
  tp_queued :: bool
  tp_root :: bool

datatype schedule_result = Scheduled | Duplicate | NotRunning | WrongScheduler | WrongThread | Completed

datatype spawn_result = Spawned | EmptyTask | NotAccepting | SpawnWrongThread | InvalidTask

record run_result =
  rr_resumed :: nat
  rr_has_ready :: bool

record scheduler =
  sc_self :: nat
  sc_tasks :: "nat \<Rightarrow> task_promise"
  sc_ready_head :: "nat option"
  sc_ready_tail :: "nat option"
  sc_root_head :: "nat option"
  sc_ready_count :: nat
  sc_active_count :: nat
  sc_unhandled_root_exceptions :: nat
  sc_invariant_failures :: nat
  sc_last_unhandled_exception :: "string option"
  sc_stop_source :: bool
  sc_stop_token :: bool
  sc_external_stop_pending :: bool
  sc_running :: bool
  sc_accepting :: bool
  sc_dispatching :: bool
  sc_cancel_pending :: bool
  sc_shutdown_pending :: bool

definition set_task :: "nat \<Rightarrow> (task_promise \<Rightarrow> task_promise) \<Rightarrow> scheduler \<Rightarrow> scheduler" where
  "set_task t f s = s\<lparr>sc_tasks := (sc_tasks s)(t := f (sc_tasks s t))\<rparr>"

definition fresh_promise :: task_promise where
  "fresh_promise = \<lparr>tp_scheduler = None, tp_token = False, tp_handle = True, tp_done = False, tp_exception = None,
     tp_continuation = None, tp_ready_next = None, tp_root_previous = None, tp_root_next = None,
     tp_queued = False, tp_root = False\<rparr>"

definition has_ready :: "scheduler \<Rightarrow> bool" where
  "has_ready s \<longleftrightarrow> sc_ready_head s \<noteq> None"

definition record_invariant_failure :: "scheduler \<Rightarrow> scheduler" where
  "record_invariant_failure s = s\<lparr>sc_invariant_failures := sc_invariant_failures s + 1\<rparr>"

definition sched_on_owner :: "bool \<Rightarrow> scheduler \<Rightarrow> bool" where
  "sched_on_owner on_thread s \<longleftrightarrow> sc_running s \<and> on_thread"

definition observe_external_stop :: "scheduler \<Rightarrow> scheduler" where
  "observe_external_stop s =
     (if sc_external_stop_pending s then s\<lparr>sc_stop_source := True, sc_accepting := False\<rparr> else s)"

text \<open>\<open>stop_token_.stop_requested()\<close>: an empty token is never stopped.\<close>

definition stop_requested :: "scheduler \<Rightarrow> bool" where
  "stop_requested s \<longleftrightarrow> sc_stop_token s \<and> sc_stop_source s"

definition sched_accepting :: "scheduler \<Rightarrow> bool" where
  "sched_accepting s \<longleftrightarrow> sc_accepting s \<and> \<not> sc_external_stop_pending s \<and> \<not> stop_requested s"

text \<open>\<open>ForwardStop\<close>: what a request on the external stop source does to a started scheduler.\<close>

definition forward_stop :: "scheduler \<Rightarrow> scheduler" where
  "forward_stop s = s\<lparr>sc_external_stop_pending := True\<rparr>"

definition bind_task :: "nat \<Rightarrow> bool \<Rightarrow> scheduler \<Rightarrow> bool \<times> scheduler" where
  "bind_task t token s =
     (if tp_scheduler (sc_tasks s t) \<noteq> None \<and> tp_scheduler (sc_tasks s t) \<noteq> Some (sc_self s) then (False, s)
      else (True, set_task t (\<lambda>p. p\<lparr>tp_scheduler := Some (sc_self s), tp_token := token\<rparr>) s))"

definition sched_start :: "bool \<Rightarrow> scheduler \<Rightarrow> bool \<times> scheduler" where
  "sched_start already_stopped s =
     (if sc_running s \<or> sc_ready_head s \<noteq> None \<or> sc_root_head s \<noteq> None then (False, s)
      else let s1 = observe_external_stop (s\<lparr>sc_stop_source := False, sc_external_stop_pending := already_stopped,
                      sc_stop_token := True, sc_running := True\<rparr>)
           in (True, s1\<lparr>sc_accepting := \<not> stop_requested s1\<rparr>))"

definition schedule :: "bool \<Rightarrow> nat \<Rightarrow> scheduler \<Rightarrow> schedule_result \<times> scheduler" where
  "schedule on_thread t s =
     (if \<not> sc_running s then (NotRunning, s)
      else if \<not> sched_on_owner on_thread s then (WrongThread, s)
      else if tp_scheduler (sc_tasks s t) \<noteq> Some (sc_self s) then (WrongScheduler, s)
      else if \<not> tp_handle (sc_tasks s t) \<or> tp_done (sc_tasks s t) then (Completed, s)
      else if tp_queued (sc_tasks s t) then (Duplicate, s)
      else let s1 = set_task t (\<lambda>p. p\<lparr>tp_ready_next := None, tp_queued := True\<rparr>) s;
               s2 = (case sc_ready_tail s1 of
                       Some tail \<Rightarrow> set_task tail (\<lambda>p. p\<lparr>tp_ready_next := Some t\<rparr>) s1
                     | None \<Rightarrow> s1\<lparr>sc_ready_head := Some t\<rparr>)
           in (Scheduled, s2\<lparr>sc_ready_tail := Some t, sc_ready_count := sc_ready_count s2 + 1\<rparr>))"

definition schedule_continuation :: "nat \<Rightarrow> scheduler \<Rightarrow> scheduler" where
  "schedule_continuation t s =
     (case tp_continuation (sc_tasks s t) of
        None \<Rightarrow> s
      | Some c \<Rightarrow>
          if tp_scheduler (sc_tasks s t) = None then s
          else case schedule True c s of
            (r, s') \<Rightarrow> if r \<noteq> Scheduled then record_invariant_failure s' else s')"

definition link_root :: "nat \<Rightarrow> scheduler \<Rightarrow> scheduler" where
  "link_root t s =
     (let s1 = set_task t (\<lambda>p. p\<lparr>tp_root := True, tp_root_previous := None, tp_root_next := sc_root_head s\<rparr>) s;
          s2 = (case sc_root_head s1 of
                  Some h \<Rightarrow> set_task h (\<lambda>p. p\<lparr>tp_root_previous := Some t\<rparr>) s1
                | None \<Rightarrow> s1)
      in s2\<lparr>sc_root_head := Some t, sc_active_count := sc_active_count s2 + 1\<rparr>)"

definition unlink_root :: "nat \<Rightarrow> scheduler \<Rightarrow> scheduler" where
  "unlink_root t s =
     (if \<not> tp_root (sc_tasks s t) then s
      else let previous = tp_root_previous (sc_tasks s t);
               next_root = tp_root_next (sc_tasks s t);
               s1 = (case previous of
                       Some p \<Rightarrow> set_task p (\<lambda>x. x\<lparr>tp_root_next := next_root\<rparr>) s
                     | None \<Rightarrow> s\<lparr>sc_root_head := next_root\<rparr>);
               s2 = (case next_root of
                       Some n \<Rightarrow> set_task n (\<lambda>x. x\<lparr>tp_root_previous := previous\<rparr>) s1
                     | None \<Rightarrow> s1);
               s3 = set_task t (\<lambda>p. p\<lparr>tp_root_previous := None, tp_root_next := None, tp_root := False\<rparr>) s2
           in s3\<lparr>sc_active_count := sc_active_count s3 - 1\<rparr>)"

definition spawn :: "bool \<Rightarrow> nat option \<Rightarrow> scheduler \<Rightarrow> spawn_result \<times> scheduler" where
  "spawn on_thread task s =
     (case task of
        None \<Rightarrow> (EmptyTask, s)
      | Some t \<Rightarrow>
          if sc_running s \<and> \<not> sched_on_owner on_thread s then (SpawnWrongThread, s)
          else if \<not> sc_running s then (NotAccepting, s)
          else let s1 = observe_external_stop s in
            if \<not> sc_accepting s1 \<or> stop_requested s1 then (NotAccepting, s1)
            else case bind_task t (sc_stop_token s1) s1 of (bound, s2) \<Rightarrow>
              if \<not> bound \<or> tp_root (sc_tasks s2 t) \<or> tp_queued (sc_tasks s2 t) \<or> tp_done (sc_tasks s2 t)
              then (InvalidTask, s2)
              else case schedule on_thread t (link_root t s2) of (scheduled, s3) \<Rightarrow>
                if scheduled \<noteq> Scheduled
                then (if scheduled = WrongThread then SpawnWrongThread else InvalidTask, unlink_root t s3)
                else (Spawned, s3))"

text \<open>The head of the ready list is unlinked before its frame runs.\<close>

definition pop_ready :: "nat \<Rightarrow> scheduler \<Rightarrow> scheduler" where
  "pop_ready t s =
     (let head = tp_ready_next (sc_tasks s t);
          s1 = s\<lparr>sc_ready_head := head, sc_ready_tail := (if head = None then None else sc_ready_tail s)\<rparr>;
          s2 = set_task t (\<lambda>p. p\<lparr>tp_ready_next := None, tp_queued := False\<rparr>) s1
      in s2\<lparr>sc_ready_count := sc_ready_count s2 - 1\<rparr>)"

partial_function (option) clear_ready_loop :: "scheduler \<Rightarrow> scheduler option" where
  "clear_ready_loop s =
     (case sc_ready_head s of
        None \<Rightarrow> Some s
      | Some t \<Rightarrow>
          clear_ready_loop (set_task t (\<lambda>p. p\<lparr>tp_ready_next := None, tp_queued := False\<rparr>)
            (s\<lparr>sc_ready_head := tp_ready_next (sc_tasks s t)\<rparr>)))"

definition clear_ready :: "scheduler \<Rightarrow> scheduler option" where
  "clear_ready s = do { s1 \<leftarrow> clear_ready_loop s; Some (s1\<lparr>sc_ready_tail := None, sc_ready_count := 0\<rparr>) }"

text \<open>
  \<open>destroy\<close> is what the destruction of a frame does to the rest of the worker: the destructors of
  the objects that live in the frame.
\<close>

definition release_frame :: "(nat \<Rightarrow> 'w \<Rightarrow> 'w) \<Rightarrow> nat \<Rightarrow> scheduler \<Rightarrow> 'w \<Rightarrow> scheduler \<times> 'w" where
  "release_frame destroy t s w =
     (set_task t (\<lambda>p. p\<lparr>tp_handle := False\<rparr>) (unlink_root t s), destroy t w)"

partial_function (option) destroy_roots :: "(nat \<Rightarrow> 'w \<Rightarrow> 'w) \<Rightarrow> scheduler \<Rightarrow> 'w \<Rightarrow> (scheduler \<times> 'w) option" where
  "destroy_roots destroy s w =
     (case sc_root_head s of
        None \<Rightarrow> Some (s, w)
      | Some t \<Rightarrow> (case release_frame destroy t s w of (s', w') \<Rightarrow> destroy_roots destroy s' w'))"

definition cancel_all_now :: "(nat \<Rightarrow> 'w \<Rightarrow> 'w) \<Rightarrow> scheduler \<Rightarrow> 'w \<Rightarrow> (scheduler \<times> 'w) option" where
  "cancel_all_now destroy s w = do { s1 \<leftarrow> clear_ready s; destroy_roots destroy s1 w }"

definition deactivate :: "scheduler \<Rightarrow> scheduler" where
  "deactivate s = s\<lparr>sc_running := False, sc_accepting := False, sc_dispatching := False, sc_cancel_pending := False,
     sc_shutdown_pending := False, sc_external_stop_pending := False, sc_stop_token := False\<rparr>"

definition finish_root :: "(nat \<Rightarrow> 'w \<Rightarrow> 'w) \<Rightarrow> nat \<Rightarrow> scheduler \<Rightarrow> 'w \<Rightarrow> scheduler \<times> 'w" where
  "finish_root destroy t s w =
     (let s1 = (case tp_exception (sc_tasks s t) of
                  None \<Rightarrow> s
                | Some e \<Rightarrow> s\<lparr>sc_unhandled_root_exceptions := sc_unhandled_root_exceptions s + 1,
                              sc_last_unhandled_exception := Some e\<rparr>)
      in release_frame destroy t s1 w)"

text \<open>
  One round of the dispatch loop.  \<open>resume\<close> is \<open>handle.resume()\<close>: the coroutine body up to its next
  suspension, which may call the scheduler and change the rest of the worker.
\<close>

definition resume_front ::
  "(nat \<Rightarrow> scheduler \<Rightarrow> 'w \<Rightarrow> scheduler \<times> 'w) \<Rightarrow> (nat \<Rightarrow> 'w \<Rightarrow> 'w) \<Rightarrow> nat \<Rightarrow> scheduler \<Rightarrow> 'w \<Rightarrow> scheduler \<times> 'w" where
  "resume_front resume destroy t s w =
     (let s1 = pop_ready t s;
          root = tp_root (sc_tasks s1 t);
          (s2, w1) = resume t (s1\<lparr>sc_dispatching := True\<rparr>) w;
          s3 = s2\<lparr>sc_dispatching := False\<rparr>
      in if root \<and> tp_done (sc_tasks s3 t) then finish_root destroy t s3 w1 else (s3, w1))"

fun run_loop ::
  "(nat \<Rightarrow> scheduler \<Rightarrow> 'w \<Rightarrow> scheduler \<times> 'w) \<Rightarrow> (nat \<Rightarrow> 'w \<Rightarrow> 'w) \<Rightarrow> nat \<Rightarrow> nat \<Rightarrow> scheduler \<Rightarrow> 'w
     \<Rightarrow> (nat \<times> scheduler \<times> 'w) option" where
  "run_loop resume destroy 0 resumed s w = Some (resumed, s, w)"
| "run_loop resume destroy (Suc left) resumed s w =
     (case sc_ready_head s of
        None \<Rightarrow> Some (resumed, s, w)
      | Some t \<Rightarrow>
          (case resume_front resume destroy t s w of (s1, w1) \<Rightarrow>
             if sc_cancel_pending s1
             then do {
               (s2, w2) \<leftarrow> cancel_all_now destroy (s1\<lparr>sc_cancel_pending := False, sc_shutdown_pending := False\<rparr>) w1;
               Some (resumed + 1, if sc_shutdown_pending s1 then deactivate s2 else s2, w2)
             }
             else run_loop resume destroy left (resumed + 1) s1 w1))"

definition run_ready ::
  "(nat \<Rightarrow> scheduler \<Rightarrow> 'w \<Rightarrow> scheduler \<times> 'w) \<Rightarrow> (nat \<Rightarrow> 'w \<Rightarrow> 'w) \<Rightarrow> bool \<Rightarrow> nat \<Rightarrow> scheduler \<Rightarrow> 'w
     \<Rightarrow> (run_result \<times> scheduler \<times> 'w) option" where
  "run_ready resume destroy on_thread budget s w =
     (if \<not> sc_running s \<or> \<not> sched_on_owner on_thread s
      then Some (\<lparr>rr_resumed = 0, rr_has_ready = has_ready s\<rparr>, s, w)
      else if sc_dispatching s
      then Some (\<lparr>rr_resumed = 0, rr_has_ready = has_ready s\<rparr>, record_invariant_failure s, w)
      else do {
        (resumed, s1, w1) \<leftarrow> run_loop resume destroy budget 0 (observe_external_stop s) w;
        Some (\<lparr>rr_resumed = resumed, rr_has_ready = has_ready s1\<rparr>, s1, w1)
      })"

definition sched_close :: "bool \<Rightarrow> scheduler \<Rightarrow> bool \<times> scheduler" where
  "sched_close on_thread s =
     (if sc_running s \<and> \<not> sched_on_owner on_thread s then (False, s) else (True, s\<lparr>sc_accepting := False\<rparr>))"

definition sched_cancel_all ::
  "(nat \<Rightarrow> 'w \<Rightarrow> 'w) \<Rightarrow> bool \<Rightarrow> scheduler \<Rightarrow> 'w \<Rightarrow> (bool \<times> scheduler \<times> 'w) option" where
  "sched_cancel_all destroy on_thread s w =
     (if sc_running s \<and> \<not> sched_on_owner on_thread s then Some (False, s, w)
      else let s1 = s\<lparr>sc_stop_source := True, sc_accepting := False\<rparr> in
        if sc_dispatching s1 then Some (True, s1\<lparr>sc_cancel_pending := True\<rparr>, w)
        else do { (s2, w2) \<leftarrow> cancel_all_now destroy s1 w; Some (True, s2, w2) })"

text \<open>The loop of \<open>shutdown\<close>; every round but the last resumes at least one task.\<close>

function shutdown_loop ::
  "(nat \<Rightarrow> scheduler \<Rightarrow> 'w \<Rightarrow> scheduler \<times> 'w) \<Rightarrow> (nat \<Rightarrow> 'w \<Rightarrow> 'w) \<Rightarrow> bool \<Rightarrow> nat \<Rightarrow> nat \<Rightarrow> scheduler \<Rightarrow> 'w
     \<Rightarrow> (nat \<times> scheduler \<times> 'w) option" where
  "shutdown_loop resume destroy on_thread budget resumed s w =
     (if sc_running s \<and> resumed < budget \<and> has_ready s
      then case run_ready resume destroy on_thread (budget - resumed) s w of
             None \<Rightarrow> None
           | Some (result, s1, w1) \<Rightarrow>
               if rr_resumed result = 0 then Some (resumed, s1, w1)
               else shutdown_loop resume destroy on_thread budget (resumed + rr_resumed result) s1 w1
      else Some (resumed, s, w))"
  by pat_completeness auto
termination by (relation "measure (\<lambda>(resume, destroy, on_thread, budget, resumed, s, w). budget - resumed)") auto

declare shutdown_loop.simps [simp del]

definition sched_shutdown ::
  "(nat \<Rightarrow> scheduler \<Rightarrow> 'w \<Rightarrow> scheduler \<times> 'w) \<Rightarrow> (nat \<Rightarrow> 'w \<Rightarrow> 'w) \<Rightarrow> bool \<Rightarrow> nat \<Rightarrow> scheduler \<Rightarrow> 'w
     \<Rightarrow> (nat \<times> scheduler \<times> 'w) option" where
  "sched_shutdown resume destroy on_thread resume_budget s w =
     (if sc_running s \<and> \<not> sched_on_owner on_thread s then Some (0, s, w)
      else let s1 = s\<lparr>sc_stop_source := True, sc_accepting := False\<rparr> in
        if sc_dispatching s1 then Some (0, s1\<lparr>sc_cancel_pending := True, sc_shutdown_pending := True\<rparr>, w)
        else do {
          (resumed, s2, w2) \<leftarrow> shutdown_loop resume destroy on_thread resume_budget 0 s1 w;
          if sc_running s2
          then do { (s3, w3) \<leftarrow> cancel_all_now destroy s2 w2; Some (resumed, deactivate s3, w3) }
          else Some (resumed, s2, w2)
        })"

text \<open>The destructor.\<close>

definition sched_destroy :: "(nat \<Rightarrow> 'w \<Rightarrow> 'w) \<Rightarrow> scheduler \<Rightarrow> 'w \<Rightarrow> (scheduler \<times> 'w) option" where
  "sched_destroy destroy s w =
     do { (s1, w1) \<leftarrow> cancel_all_now destroy (s\<lparr>sc_stop_source := True, sc_accepting := False\<rparr>) w;
          Some (deactivate s1, w1) }"

section \<open>Lists threaded through the promises\<close>

fun chain :: "(nat \<Rightarrow> nat option) \<Rightarrow> nat option \<Rightarrow> nat list \<Rightarrow> bool" where
  "chain nx p [] \<longleftrightarrow> p = None"
| "chain nx p (x # xs) \<longleftrightarrow> p = Some x \<and> chain nx (nx x) xs"

lemma chain_unique: "chain nx p xs \<Longrightarrow> chain nx p ys \<Longrightarrow> xs = ys"
proof (induction xs arbitrary: p ys)
  case Nil
  then show ?case by (cases ys) auto
next
  case (Cons x xs)
  then show ?case by (cases ys) auto
qed

lemma chain_cong: "(\<And>x. x \<in> set xs \<Longrightarrow> nx' x = nx x) \<Longrightarrow> chain nx' p xs = chain nx p xs"
  by (induction xs arbitrary: p) auto

lemma chain_upd [simp]: "x \<notin> set xs \<Longrightarrow> chain (nx(x := v)) p xs = chain nx p xs"
  by (rule chain_cong) auto

lemma chain_snoc:
  assumes "chain nx p xs" and "x \<notin> set xs" and "distinct xs" and "xs \<noteq> []"
  shows "chain (nx(x := None, last xs := Some x)) p (xs @ [x])"
  using assms
proof (induction xs arbitrary: p)
  case Nil
  then show ?case by simp
next
  case (Cons a xs)
  show ?case
  proof (cases "xs = []")
    case True
    with Cons.prems show ?thesis by auto
  next
    case False
    then have "a \<noteq> last xs" using Cons.prems(3) last_in_set by auto
    with Cons False show ?thesis by simp
  qed
qed

text \<open>A doubly linked list, given its next and previous pointers and the node before its head.\<close>

fun dchain :: "(nat \<Rightarrow> nat option) \<Rightarrow> (nat \<Rightarrow> nat option) \<Rightarrow> nat option \<Rightarrow> nat option \<Rightarrow> nat list \<Rightarrow> bool" where
  "dchain nx pv prev p [] \<longleftrightarrow> p = None"
| "dchain nx pv prev p (x # xs) \<longleftrightarrow> p = Some x \<and> pv x = prev \<and> dchain nx pv (Some x) (nx x) xs"

lemma dchain_cong:
  "(\<And>x. x \<in> set xs \<Longrightarrow> nx' x = nx x \<and> pv' x = pv x) \<Longrightarrow> dchain nx' pv' prev p xs = dchain nx pv prev p xs"
  by (induction xs arbitrary: prev p) auto


lemma dchain_upd [simp]:
  "x \<notin> set xs \<Longrightarrow> dchain (nx(x := v)) pv prev p xs = dchain nx pv prev p xs"
  "x \<notin> set xs \<Longrightarrow> dchain nx (pv(x := v)) prev p xs = dchain nx pv prev p xs"
  by (rule dchain_cong; auto)+

lemma dchain_head: "dchain nx pv prev p xs \<Longrightarrow> p = (if xs = [] then None else Some (hd xs))"
  by (cases xs) auto

lemma dchain_unique: "dchain nx pv prev p xs \<Longrightarrow> dchain nx pv prev p ys \<Longrightarrow> xs = ys"
proof (induction xs arbitrary: prev p ys)
  case Nil
  then show ?case by (cases ys) auto
next
  case (Cons x xs)
  then show ?case by (cases ys) auto
qed

lemma dchain_push:
  assumes "dchain nx pv None p xs" and "x \<notin> set xs" and "distinct xs"
  shows "dchain (nx(x := p))
     (case p of None \<Rightarrow> pv(x := None) | Some h \<Rightarrow> pv(x := None, h := Some x)) None (Some x) (x # xs)"
  using assms by (cases xs) simp_all

text \<open>Unlinking an inner node: its neighbours are joined.\<close>

lemma dchain_split:
  "dchain nx pv prev p (xs @ x # ys) \<Longrightarrow>
     pv x = (if xs = [] then prev else Some (last xs))
     \<and> nx x = (if ys = [] then None else Some (hd ys))"
  by (induction xs arbitrary: prev p) (auto dest: dchain_head split: if_splits)

lemma dchain_unlink_head:
  assumes "dchain nx pv prev p (x # ys)" and "distinct (x # ys)"
  shows "dchain nx (case nx x of None \<Rightarrow> pv | Some n \<Rightarrow> pv(n := prev)) prev (nx x) ys"
  using assms by (cases ys) simp_all

lemma dchain_unlink_inner:
  assumes "dchain nx pv prev p (xs @ x # ys)" and "distinct (xs @ x # ys)" and "xs \<noteq> []"
  shows "dchain (nx(last xs := nx x))
     (case nx x of None \<Rightarrow> pv | Some n \<Rightarrow> pv(n := Some (last xs))) prev p (xs @ ys)"
  using assms
proof (induction xs arbitrary: prev p)
  case Nil
  then show ?case by simp
next
  case (Cons a xs)
  show ?case
  proof (cases "xs = []")
    case True
    with Cons.prems have h: "p = Some a" "pv a = prev" "dchain nx pv (Some a) (nx a) (x # ys)" "distinct (x # ys)"
      "a \<notin> set (x # ys)" by auto
    have n: "nx x = None \<or> (\<exists>n. nx x = Some n \<and> n \<in> set ys)"
      using h(3) by (cases ys) auto
    from dchain_unlink_head [OF h(3,4)]
    have "dchain (nx(a := nx x)) (case nx x of None \<Rightarrow> pv | Some n \<Rightarrow> pv(n := Some a)) (Some a) (nx x) ys"
      using h(5) by simp
    with True h(1,2,5) n show ?thesis 
      by (auto simp del: fun_upd_apply simp: fun_upd_same fun_upd_other split: option.splits)
        (metis fun_upd_other)
  next
    case False
    have h: "p = Some a" "pv a = prev" "dchain nx pv (Some a) (nx a) (xs @ x # ys)" "a \<notin> set (xs @ x # ys)"
      using Cons.prems by auto
    have n: "nx x = None \<or> (\<exists>n. nx x = Some n \<and> n \<in> set ys)"
      using dchain_split [OF Cons.prems(1)] by (cases ys) auto
    have "last xs \<noteq> a" using False h(4) last_in_set [OF False] by auto
    with Cons.IH [OF h(3)] False Cons.prems(2) h n show ?thesis by (auto split: option.splits)
  qed
qed

lemmas dchain_unlink = dchain_unlink_head dchain_unlink_inner

section \<open>The representation invariant\<close>

definition ready_nexts :: "scheduler \<Rightarrow> nat \<Rightarrow> nat option" where
  "ready_nexts s = (\<lambda>t. tp_ready_next (sc_tasks s t))"

definition root_nexts :: "scheduler \<Rightarrow> nat \<Rightarrow> nat option" where
  "root_nexts s = (\<lambda>t. tp_root_next (sc_tasks s t))"

definition root_previouses :: "scheduler \<Rightarrow> nat \<Rightarrow> nat option" where
  "root_previouses s = (\<lambda>t. tp_root_previous (sc_tasks s t))"

lemma links_set_task [simp]:
  "ready_nexts (set_task t f s) = (ready_nexts s)(t := tp_ready_next (f (sc_tasks s t)))"
  "root_nexts (set_task t f s) = (root_nexts s)(t := tp_root_next (f (sc_tasks s t)))"
  "root_previouses (set_task t f s) = (root_previouses s)(t := tp_root_previous (f (sc_tasks s t)))"
  by (simp_all add: ready_nexts_def root_nexts_def root_previouses_def set_task_def fun_eq_iff)

lemma links_cong:
  "sc_tasks s' = sc_tasks s \<Longrightarrow> ready_nexts s' = ready_nexts s"
  "sc_tasks s' = sc_tasks s \<Longrightarrow> root_nexts s' = root_nexts s"
  "sc_tasks s' = sc_tasks s \<Longrightarrow> root_previouses s' = root_previouses s"
  by (simp_all add: ready_nexts_def root_nexts_def root_previouses_def)

lemma links_self:
  "(ready_nexts s)(t := tp_ready_next (sc_tasks s t)) = ready_nexts s"
  "(root_nexts s)(t := tp_root_next (sc_tasks s t)) = root_nexts s"
  "(root_previouses s)(t := tp_root_previous (sc_tasks s t)) = root_previouses s"
  by (simp_all add: ready_nexts_def root_nexts_def root_previouses_def fun_eq_iff)

definition ready_rep :: "scheduler \<Rightarrow> nat list \<Rightarrow> bool" where
  "ready_rep s ready \<longleftrightarrow> chain (ready_nexts s) (sc_ready_head s) ready
     \<and> sc_ready_tail s = (if ready = [] then None else Some (last ready))
     \<and> sc_ready_count s = length ready \<and> distinct ready
     \<and> (\<forall>t. tp_queued (sc_tasks s t) \<longleftrightarrow> t \<in> set ready)"

definition root_rep :: "scheduler \<Rightarrow> nat list \<Rightarrow> bool" where
  "root_rep s roots \<longleftrightarrow> dchain (root_nexts s) (root_previouses s) None (sc_root_head s) roots
     \<and> sc_active_count s = length roots \<and> distinct roots
     \<and> (\<forall>t. tp_root (sc_tasks s t) \<longleftrightarrow> t \<in> set roots)"

definition live :: "scheduler \<Rightarrow> nat list \<Rightarrow> nat list \<Rightarrow> bool" where
  "live s ready roots \<longleftrightarrow>
     (\<forall>t \<in> set ready \<union> set roots. tp_scheduler (sc_tasks s t) = Some (sc_self s) \<and> tp_handle (sc_tasks s t))
     \<and> (\<forall>t \<in> set ready. \<not> tp_done (sc_tasks s t))"

definition sched_rep :: "scheduler \<Rightarrow> nat list \<Rightarrow> nat list \<Rightarrow> bool" where
  "sched_rep s ready roots \<longleftrightarrow> ready_rep s ready \<and> root_rep s roots \<and> live s ready roots"

lemma sched_rep_unique: "sched_rep s ready roots \<Longrightarrow> sched_rep s ready' roots' \<Longrightarrow> ready' = ready \<and> roots' = roots"
  by (auto simp: sched_rep_def ready_rep_def root_rep_def dest: chain_unique dchain_unique)

text \<open>Changes of the scheduler's own flags and counters keep the representation.\<close>

definition same_links :: "scheduler \<Rightarrow> scheduler \<Rightarrow> bool" where
  "same_links s s' \<longleftrightarrow> sc_tasks s' = sc_tasks s \<and> sc_self s' = sc_self s \<and> sc_ready_head s' = sc_ready_head s
     \<and> sc_ready_tail s' = sc_ready_tail s \<and> sc_root_head s' = sc_root_head s
     \<and> sc_ready_count s' = sc_ready_count s \<and> sc_active_count s' = sc_active_count s"

lemma same_links_rep: "same_links s s' \<Longrightarrow> sched_rep s' = sched_rep s"
  by (simp add: fun_eq_iff same_links_def sched_rep_def ready_rep_def root_rep_def live_def links_cong [of s' s])

lemma same_links_flags [simp]:
  "same_links s (s\<lparr>sc_dispatching := a\<rparr>)" "same_links s (s\<lparr>sc_accepting := a\<rparr>)"
  "same_links s (s\<lparr>sc_stop_source := b, sc_accepting := a\<rparr>)"
  "same_links s (s\<lparr>sc_cancel_pending := a\<rparr>)" "same_links s (s\<lparr>sc_cancel_pending := a, sc_shutdown_pending := b\<rparr>)"
  "same_links s (record_invariant_failure s)" "same_links s (observe_external_stop s)"
  "same_links s (deactivate s)" "same_links s (forward_stop s)"
  "same_links s (s\<lparr>sc_unhandled_root_exceptions := n, sc_last_unhandled_exception := e\<rparr>)"
  by (simp_all add: same_links_def record_invariant_failure_def observe_external_stop_def deactivate_def forward_stop_def)

lemma same_links_trans: "same_links a b \<Longrightarrow> same_links b c \<Longrightarrow> same_links a c"
  by (simp add: same_links_def)

section \<open>The ready list is a queue\<close>

lemma schedule_result:
  assumes "sched_rep s ready roots"
  shows "fst (schedule on_thread t s) = Scheduled \<longleftrightarrow>
     sc_running s \<and> on_thread \<and> tp_scheduler (sc_tasks s t) = Some (sc_self s)
     \<and> tp_handle (sc_tasks s t) \<and> \<not> tp_done (sc_tasks s t) \<and> t \<notin> set ready"
  using assms by (auto simp: schedule_def sched_on_owner_def sched_rep_def ready_rep_def Let_def)

lemma schedule_failed: "fst (schedule on_thread t s) \<noteq> Scheduled \<Longrightarrow> snd (schedule on_thread t s) = s"
  by (auto simp: schedule_def Let_def)

lemma sc_tasks_set_task: "sc_tasks (set_task t f s) x = (if x = t then f (sc_tasks s t) else sc_tasks s x)"
  by (simp add: set_task_def)

lemma set_task_frame [simp]:
  "sc_self (set_task t f s) = sc_self s" "sc_ready_head (set_task t f s) = sc_ready_head s"
  "sc_ready_tail (set_task t f s) = sc_ready_tail s" "sc_root_head (set_task t f s) = sc_root_head s"
  "sc_ready_count (set_task t f s) = sc_ready_count s" "sc_active_count (set_task t f s) = sc_active_count s"
  "sc_running (set_task t f s) = sc_running s" "sc_dispatching (set_task t f s) = sc_dispatching s"
  "sc_cancel_pending (set_task t f s) = sc_cancel_pending s"
  "sc_shutdown_pending (set_task t f s) = sc_shutdown_pending s"
  "sc_accepting (set_task t f s) = sc_accepting s" "sc_stop_source (set_task t f s) = sc_stop_source s"
  "sc_stop_token (set_task t f s) = sc_stop_token s"
  "sc_external_stop_pending (set_task t f s) = sc_external_stop_pending s"
  by (simp_all add: set_task_def)

definition enqueue_task :: "nat \<Rightarrow> scheduler \<Rightarrow> scheduler" where
  "enqueue_task t s =
     (let s1 = set_task t (\<lambda>p. p\<lparr>tp_ready_next := None, tp_queued := True\<rparr>) s;
          s2 = (case sc_ready_tail s1 of
                  Some tail \<Rightarrow> set_task tail (\<lambda>p. p\<lparr>tp_ready_next := Some t\<rparr>) s1
                | None \<Rightarrow> s1\<lparr>sc_ready_head := Some t\<rparr>)
      in s2\<lparr>sc_ready_tail := Some t, sc_ready_count := sc_ready_count s2 + 1\<rparr>)"

lemma schedule_enqueue: "fst (schedule on_thread t s) = Scheduled \<Longrightarrow> snd (schedule on_thread t s) = enqueue_task t s"
  by (auto simp: schedule_def enqueue_task_def Let_def split: if_splits)

lemma enqueue_task_ready:
  assumes "ready_rep s ready" and "t \<notin> set ready"
  shows "ready_rep (enqueue_task t s) (ready @ [t])"
proof (cases "ready = []")
  case True
  with assms show ?thesis
    by (auto simp: ready_rep_def enqueue_task_def Let_def sc_tasks_set_task links_cong(1) [of "_\<lparr>sc_ready_tail := _, sc_ready_count := _\<rparr>"])
next
  case False
  have c: "chain (ready_nexts s) (sc_ready_head s) ready" "distinct ready" using assms(1) by (simp_all add: ready_rep_def)
  have l: "last ready \<noteq> t" using assms(2) False by auto
  have "ready_nexts (enqueue_task t s) = (ready_nexts s)(t := None, last ready := Some t)"
    using assms(1) False l
    by (simp add: ready_rep_def enqueue_task_def Let_def ready_nexts_def fun_eq_iff sc_tasks_set_task)
  with chain_snoc [OF c(1) assms(2) c(2) False]
  have "chain (ready_nexts (enqueue_task t s)) (sc_ready_head s) (ready @ [t])" by simp
  with assms False l show ?thesis
    by (auto simp: ready_rep_def enqueue_task_def Let_def sc_tasks_set_task)
qed

lemma enqueue_task_frame:
  "root_nexts (enqueue_task t s) = root_nexts s" "root_previouses (enqueue_task t s) = root_previouses s"
  "sc_root_head (enqueue_task t s) = sc_root_head s" "sc_active_count (enqueue_task t s) = sc_active_count s"
  "tp_root (sc_tasks (enqueue_task t s) x) = tp_root (sc_tasks s x)"
  "tp_scheduler (sc_tasks (enqueue_task t s) x) = tp_scheduler (sc_tasks s x)"
  "tp_handle (sc_tasks (enqueue_task t s) x) = tp_handle (sc_tasks s x)"
  "tp_done (sc_tasks (enqueue_task t s) x) = tp_done (sc_tasks s x)"
  "tp_continuation (sc_tasks (enqueue_task t s) x) = tp_continuation (sc_tasks s x)"
  "sc_self (enqueue_task t s) = sc_self s" "sc_running (enqueue_task t s) = sc_running s"
  "sc_dispatching (enqueue_task t s) = sc_dispatching s" "sc_cancel_pending (enqueue_task t s) = sc_cancel_pending s"
  "sc_shutdown_pending (enqueue_task t s) = sc_shutdown_pending s"
  by (auto simp: enqueue_task_def Let_def root_nexts_def root_previouses_def fun_eq_iff sc_tasks_set_task
      split: option.splits)

lemma schedule_correct:
  assumes s: "sched_rep s ready roots" and e: "schedule on_thread t s = (Scheduled, s')"
  shows "t \<notin> set ready \<and> sched_rep s' (ready @ [t]) roots"
proof -
  have "fst (schedule on_thread t s) = Scheduled" using e by simp
  note f = schedule_result [OF s, THEN iffD1, OF this] and q = schedule_enqueue [OF this]
  have s': "s' = enqueue_task t s" using q e by simp
  with f s enqueue_task_ready [of s ready t] show ?thesis
    by (auto simp: sched_rep_def root_rep_def live_def enqueue_task_frame)
qed

lemma pop_ready_correct:
  assumes "sched_rep s (t # ready) roots"
  shows "sc_ready_head s = Some t \<and> sched_rep (pop_ready t s) ready roots \<and> t \<notin> set ready"
proof -
  have c: "chain (ready_nexts s) (sc_ready_head s) (t # ready)" and d: "t \<notin> set ready" "distinct ready"
    using assms by (auto simp: sched_rep_def ready_rep_def)
  have n: "ready_nexts (pop_ready t s) = (ready_nexts s)(t := None)"
    "root_nexts (pop_ready t s) = root_nexts s" "root_previouses (pop_ready t s) = root_previouses s"
    by (simp_all add: pop_ready_def Let_def ready_nexts_def root_nexts_def root_previouses_def fun_eq_iff sc_tasks_set_task)
  have h: "sc_ready_head (pop_ready t s) = ready_nexts s t"
    by (simp add: pop_ready_def Let_def ready_nexts_def)
  have "chain (ready_nexts (pop_ready t s)) (ready_nexts s t) ready"
    using c d(1) by (simp add: n)
  moreover have "(ready_nexts s t = None) = (ready = [])" using c by (cases ready) auto
  ultimately have "ready_rep (pop_ready t s) ready"
    using assms d by (auto simp: sched_rep_def ready_rep_def h) (auto simp: pop_ready_def Let_def ready_nexts_def sc_tasks_set_task split: if_splits)
  moreover have "root_rep (pop_ready t s) roots"
    using assms by (simp add: sched_rep_def root_rep_def n) (simp add: pop_ready_def Let_def sc_tasks_set_task)
  moreover have "live (pop_ready t s) ready roots"
    using assms by (simp add: sched_rep_def live_def) (simp add: pop_ready_def Let_def sc_tasks_set_task)
  ultimately show ?thesis using c d by (simp add: sched_rep_def)
qed

section \<open>The list of roots\<close>

lemma root_links_frame:
  "ready_nexts (link_root t s) = ready_nexts s" "ready_nexts (unlink_root t s) = ready_nexts s"
  "sc_ready_head (link_root t s) = sc_ready_head s" "sc_ready_head (unlink_root t s) = sc_ready_head s"
  "sc_ready_tail (link_root t s) = sc_ready_tail s" "sc_ready_tail (unlink_root t s) = sc_ready_tail s"
  "sc_ready_count (link_root t s) = sc_ready_count s" "sc_ready_count (unlink_root t s) = sc_ready_count s"
  "tp_queued (sc_tasks (link_root t s) x) = tp_queued (sc_tasks s x)"
  "tp_queued (sc_tasks (unlink_root t s) x) = tp_queued (sc_tasks s x)"
  "tp_scheduler (sc_tasks (link_root t s) x) = tp_scheduler (sc_tasks s x)"
  "tp_scheduler (sc_tasks (unlink_root t s) x) = tp_scheduler (sc_tasks s x)"
  "tp_handle (sc_tasks (link_root t s) x) = tp_handle (sc_tasks s x)"
  "tp_handle (sc_tasks (unlink_root t s) x) = tp_handle (sc_tasks s x)"
  "tp_done (sc_tasks (link_root t s) x) = tp_done (sc_tasks s x)"
  "tp_done (sc_tasks (unlink_root t s) x) = tp_done (sc_tasks s x)"
  "sc_self (link_root t s) = sc_self s" "sc_self (unlink_root t s) = sc_self s"
  "sc_running (link_root t s) = sc_running s" "sc_running (unlink_root t s) = sc_running s"
  "sc_dispatching (link_root t s) = sc_dispatching s" "sc_dispatching (unlink_root t s) = sc_dispatching s"
  "sc_cancel_pending (link_root t s) = sc_cancel_pending s"
  "sc_cancel_pending (unlink_root t s) = sc_cancel_pending s"
  "sc_shutdown_pending (link_root t s) = sc_shutdown_pending s"
  "sc_shutdown_pending (unlink_root t s) = sc_shutdown_pending s"
  by (auto simp: link_root_def unlink_root_def Let_def ready_nexts_def fun_eq_iff sc_tasks_set_task split: option.splits)

lemma link_root_rep:
  assumes "root_rep s roots" and "t \<notin> set roots"
  shows "root_rep (link_root t s) (t # roots)"
proof -
  have c: "dchain (root_nexts s) (root_previouses s) None (sc_root_head s) roots" "distinct roots"
    using assms(1) by (simp_all add: root_rep_def)
  have h: "sc_root_head s = Some x \<Longrightarrow> x \<in> set roots" for x using dchain_head [OF c(1)] by (auto split: if_splits)
  have "root_nexts (link_root t s) = (root_nexts s)(t := sc_root_head s)"
    "root_previouses (link_root t s) = (case sc_root_head s of
       None \<Rightarrow> (root_previouses s)(t := None) | Some h \<Rightarrow> (root_previouses s)(t := None, h := Some t))"
    using h assms(2)
    by (auto simp: link_root_def Let_def root_nexts_def root_previouses_def fun_eq_iff sc_tasks_set_task
        split: option.splits)
  with dchain_push [OF c(1) assms(2) c(2)]
  have "dchain (root_nexts (link_root t s)) (root_previouses (link_root t s)) None (Some t) (t # roots)" by simp
  moreover have "sc_root_head (link_root t s) = Some t" "sc_active_count (link_root t s) = sc_active_count s + 1"
    "tp_root (sc_tasks (link_root t s) x) \<longleftrightarrow> x = t \<or> tp_root (sc_tasks s x)" for x
    by (auto simp: link_root_def Let_def sc_tasks_set_task split: option.splits)
  ultimately show ?thesis using assms by (auto simp: root_rep_def)
qed

lemma unlink_root_rep:
  assumes "root_rep s (xs @ t # ys)"
  shows "root_rep (unlink_root t s) (xs @ ys)"
proof -
  have c: "dchain (root_nexts s) (root_previouses s) None (sc_root_head s) (xs @ t # ys)" "distinct (xs @ t # ys)"
    "tp_root (sc_tasks s t)" "sc_active_count s = length (xs @ t # ys)"
    using assms by (auto simp: root_rep_def)
  have pv: "tp_root_previous (sc_tasks s t) = (if xs = [] then None else Some (last xs))"
    and nx: "tp_root_next (sc_tasks s t) = (if ys = [] then None else Some (hd ys))"
    using dchain_split [OF c(1)] by (simp_all add: root_nexts_def root_previouses_def)
  have t: "t \<notin> set xs" "t \<notin> set ys" using c(2) by auto
  have d: "ys \<noteq> [] \<Longrightarrow> hd ys \<noteq> t" "xs \<noteq> [] \<Longrightarrow> last xs \<noteq> t"
    using c(2) by auto
  have e: "xs \<noteq> [] \<Longrightarrow> ys \<noteq> [] \<Longrightarrow> last xs \<noteq> hd ys"
    using c(2) by (metis Int_iff distinct_append empty_iff hd_in_set last_in_set list.set_intros(2))
  have nxt: "root_nexts (unlink_root t s) =
      (if xs = [] then root_nexts s else (root_nexts s)(last xs := root_nexts s t))(t := None)"
    using c(3) pv nx d e
    by (auto simp: unlink_root_def Let_def root_nexts_def fun_eq_iff sc_tasks_set_task)
  have prv: "root_previouses (unlink_root t s) =
      (case root_nexts s t of None \<Rightarrow> root_previouses s
        | Some n \<Rightarrow> (root_previouses s)(n := (if xs = [] then None else Some (last xs))))(t := None)"
    using c(3) pv nx d e
    by (auto simp: unlink_root_def Let_def root_nexts_def root_previouses_def fun_eq_iff sc_tasks_set_task)
  have head: "sc_root_head (unlink_root t s) = (if xs = [] then root_nexts s t else sc_root_head s)"
    using c(3) pv nx
    by (auto simp: unlink_root_def Let_def root_nexts_def split: option.splits)
  have "dchain (root_nexts (unlink_root t s)) (root_previouses (unlink_root t s)) None
      (sc_root_head (unlink_root t s)) (xs @ ys)"
  proof (cases "xs = []")
    case True
    with dchain_unlink_head [of "root_nexts s" "root_previouses s" None "sc_root_head s" t ys] c(1,2) t
    show ?thesis by (simp add: nxt prv head)
  next
    case False
    with dchain_unlink_inner [OF c(1,2) False] t show ?thesis by (simp add: nxt prv head)
  qed
  moreover have "sc_active_count (unlink_root t s) = length (xs @ ys)"
    using c(3,4) by (auto simp: unlink_root_def Let_def split: option.splits)
  moreover have "tp_root (sc_tasks (unlink_root t s) x) \<longleftrightarrow> x \<in> set (xs @ ys)" for x
  proof -
    have "tp_root (sc_tasks (unlink_root t s) x) \<longleftrightarrow> x \<noteq> t \<and> tp_root (sc_tasks s x)"
      using c(3) d by (auto simp: unlink_root_def Let_def pv nx sc_tasks_set_task split: option.splits)
    then show ?thesis using assms t by (auto simp: root_rep_def)
  qed
  ultimately show ?thesis using c(2) by (simp add: root_rep_def)
qed

lemma unlink_root_sched_rep:
  assumes "sched_rep s ready (xs @ t # ys)"
  shows "sched_rep (unlink_root t s) ready (xs @ ys)"
  using assms unlink_root_rep [of s xs t ys]
  by (auto simp: sched_rep_def ready_rep_def live_def root_links_frame)

lemma bind_task_rep:
  assumes "sched_rep s ready roots"
  shows "sched_rep (snd (bind_task t token s)) ready roots"
proof -
  have k: "ready_nexts (snd (bind_task t token s)) = ready_nexts s" "root_nexts (snd (bind_task t token s)) = root_nexts s"
    "root_previouses (snd (bind_task t token s)) = root_previouses s"
    by (auto simp: bind_task_def ready_nexts_def root_nexts_def root_previouses_def fun_eq_iff sc_tasks_set_task)
  with assms show ?thesis
    by (auto simp: sched_rep_def ready_rep_def root_rep_def live_def k)
      (auto simp: bind_task_def sc_tasks_set_task split: if_splits)
qed

lemma spawn_correct:
  assumes s: "sched_rep s ready roots" and e: "spawn on_thread task s = (r, s')"
  shows "(r = Spawned \<longrightarrow> (\<exists>t. task = Some t \<and> t \<notin> set ready \<and> t \<notin> set roots \<and> sched_rep s' (ready @ [t]) (t # roots)))
     \<and> (r \<noteq> Spawned \<longrightarrow> sched_rep s' ready roots)"
proof (cases task)
  case None
  with e s show ?thesis by (simp add: spawn_def)
next
  case (Some t)
  have o: "sched_rep (observe_external_stop s) ready roots"
    using s same_links_rep [of s "observe_external_stop s"] by simp
  define s2 where "s2 = snd (bind_task t (sc_stop_token (observe_external_stop s)) (observe_external_stop s))"
  define ok where "ok = fst (bind_task t (sc_stop_token (observe_external_stop s)) (observe_external_stop s))"
  have s2: "sched_rep s2 ready roots" unfolding s2_def by (rule bind_task_rep [OF o])
  show ?thesis
  proof (cases "sc_running s \<and> on_thread \<and> sc_accepting (observe_external_stop s)
      \<and> \<not> stop_requested (observe_external_stop s) \<and> ok
      \<and> \<not> tp_root (sc_tasks s2 t) \<and> \<not> tp_queued (sc_tasks s2 t) \<and> \<not> tp_done (sc_tasks s2 t)")
    case False
    then have "r \<noteq> Spawned" "s' = s \<or> s' = observe_external_stop s \<or> s' = s2"
      using e Some by (auto simp: spawn_def sched_on_owner_def s2_def ok_def Let_def split: if_splits prod.splits)
    with s o s2 show ?thesis by auto
  next
    case True
    have tn: "t \<notin> set roots" "t \<notin> set ready" using True s2 by (auto simp: sched_rep_def root_rep_def ready_rep_def)
    obtain r3 s3 where s3: "schedule on_thread t (link_root t s2) = (r3, s3)" by fastforce
    have r: "(r, s') = (if r3 \<noteq> Scheduled then (if r3 = WrongThread then SpawnWrongThread else InvalidTask, unlink_root t s3)
        else (Spawned, s3))"
      using e Some True s3 by (auto simp: spawn_def sched_on_owner_def s2_def ok_def Let_def split: prod.splits)
    have sb: "tp_scheduler (sc_tasks s2 t) = Some (sc_self s2)"
      using True by (auto simp: s2_def ok_def bind_task_def sc_tasks_set_task split: if_splits)
    have rr: "root_rep (link_root t s2) (t # roots)" using s2 tn by (intro link_root_rep) (simp_all add: sched_rep_def)
    have qr: "ready_rep (link_root t s2) ready" using s2 by (simp add: sched_rep_def ready_rep_def root_links_frame)
    show ?thesis
    proof (cases "tp_handle (sc_tasks s2 t)")
      case h: True
      then have l: "sched_rep (link_root t s2) ready (t # roots)"
        using s2 rr qr sb by (auto simp: sched_rep_def live_def root_links_frame)
      show ?thesis
      proof (cases "r3 = Scheduled")
        case True
        with schedule_correct [OF l s3 [unfolded True]] r tn Some show ?thesis by auto
      next
        case False
        then have "s3 = link_root t s2" using schedule_failed [of on_thread t "link_root t s2"] s3 by simp
        with r False unlink_root_sched_rep [of _ ready "[]" t roots] l show ?thesis by (auto split: if_splits)
      qed
    next
      case h: False
      then have "r3 \<noteq> Scheduled" "s3 = link_root t s2"
        using s3 by (auto simp: schedule_def root_links_frame split: if_splits)
      moreover have "sched_rep (unlink_root t (link_root t s2)) ready roots"
        using unlink_root_rep [of "link_root t s2" "[]" t roots] rr s2
        by (auto simp: sched_rep_def ready_rep_def live_def root_links_frame)
      ultimately show ?thesis using r by (auto split: if_splits)
    qed
  qed
qed

section \<open>Cancellation\<close>

lemma clear_ready_loop_correct:
  assumes "chain (ready_nexts s) (sc_ready_head s) ready" and "distinct ready"
  shows "\<exists>s'. clear_ready_loop s = Some s' \<and> sc_ready_head s' = None
     \<and> (\<forall>t. sc_tasks s' t = (if t \<in> set ready then (sc_tasks s t)\<lparr>tp_ready_next := None, tp_queued := False\<rparr> else sc_tasks s t))
     \<and> s' = s\<lparr>sc_ready_head := None, sc_tasks := sc_tasks s'\<rparr>"
  using assms
proof (induction ready arbitrary: s)
  case Nil
  then show ?case by (simp add: clear_ready_loop.simps)
next
  case (Cons t ready)
  define s1 where "s1 = set_task t (\<lambda>p. p\<lparr>tp_ready_next := None, tp_queued := False\<rparr>)
     (s\<lparr>sc_ready_head := tp_ready_next (sc_tasks s t)\<rparr>)"
  have h: "sc_ready_head s = Some t" "t \<notin> set ready" using Cons.prems by auto
  have e: "clear_ready_loop s = clear_ready_loop s1"
    by (subst clear_ready_loop.simps) (simp add: h(1) s1_def)
  have "ready_nexts s1 = (ready_nexts s)(t := None)" "sc_ready_head s1 = ready_nexts s t"
    by (simp_all add: s1_def ready_nexts_def fun_eq_iff sc_tasks_set_task)
  with Cons.prems have "chain (ready_nexts s1) (sc_ready_head s1) ready" "distinct ready" by simp_all
  from Cons.IH [OF this] obtain s' where s': "clear_ready_loop s1 = Some s'" "sc_ready_head s' = None"
    "\<forall>x. sc_tasks s' x = (if x \<in> set ready then (sc_tasks s1 x)\<lparr>tp_ready_next := None, tp_queued := False\<rparr> else sc_tasks s1 x)"
    "s' = s1\<lparr>sc_ready_head := None, sc_tasks := sc_tasks s'\<rparr>" by blast
  have "s' = s\<lparr>sc_ready_head := None, sc_tasks := sc_tasks s'\<rparr>"
    using s'(4) by (simp add: s1_def set_task_def)
  moreover have "sc_tasks s1 x = (if x = t then (sc_tasks s t)\<lparr>tp_ready_next := None, tp_queued := False\<rparr> else sc_tasks s x)" for x
    by (simp add: s1_def sc_tasks_set_task)
  moreover from this have "sc_tasks s' x = (if x \<in> set (t # ready) then (sc_tasks s x)\<lparr>tp_ready_next := None, tp_queued := False\<rparr>
      else sc_tasks s x)" for x
    using s'(3) h(2) by auto
  ultimately show ?case
    using s'(1,2) e by (metis (no_types, lifting))
qed

text \<open>What cancellation leaves of the scheduler's flags.\<close>

definition flags :: "scheduler \<Rightarrow> bool \<times> bool \<times> bool \<times> bool \<times> bool" where
  "flags s = (sc_running s, sc_accepting s, sc_dispatching s, sc_cancel_pending s, sc_shutdown_pending s)"

lemma clear_ready_correct:
  assumes "sched_rep s ready roots"
  shows "\<exists>s'. clear_ready s = Some s' \<and> sched_rep s' [] roots \<and> flags s' = flags s"
proof -
  have r: "chain (ready_nexts s) (sc_ready_head s) ready" "distinct ready"
    "\<forall>t. tp_queued (sc_tasks s t) \<longleftrightarrow> t \<in> set ready"
    using assms by (simp_all add: sched_rep_def ready_rep_def)
  from clear_ready_loop_correct [OF r(1,2)] obtain s1 where s1: "clear_ready_loop s = Some s1" "sc_ready_head s1 = None"
    "\<forall>t. sc_tasks s1 t = (if t \<in> set ready then (sc_tasks s t)\<lparr>tp_ready_next := None, tp_queued := False\<rparr> else sc_tasks s t)"
    "s1 = s\<lparr>sc_ready_head := None, sc_tasks := sc_tasks s1\<rparr>" by blast
  define s' where "s' = s1\<lparr>sc_ready_tail := None, sc_ready_count := 0\<rparr>"
  have t: "sc_tasks s' = sc_tasks s1" by (simp add: s'_def)
  have f: "sc_self s1 = sc_self s" "sc_root_head s1 = sc_root_head s" "sc_active_count s1 = sc_active_count s" "flags s1 = flags s"
    by (subst s1(4), simp add: flags_def)+
  have k: "root_nexts s' = root_nexts s" "root_previouses s' = root_previouses s"
    by (auto simp: root_nexts_def root_previouses_def fun_eq_iff t s1(3))
  have "tp_root (sc_tasks s' x) = tp_root (sc_tasks s x)" "tp_queued (sc_tasks s' x) = False"
    "tp_scheduler (sc_tasks s' x) = tp_scheduler (sc_tasks s x)" "tp_handle (sc_tasks s' x) = tp_handle (sc_tasks s x)" for x
    using r(3) by (auto simp: t s1(3))
  then have "sched_rep s' [] roots"
    using assms f by (auto simp: sched_rep_def ready_rep_def root_rep_def live_def k) (simp_all add: s'_def s1(2))
  then show ?thesis using s1(1) f by (simp add: clear_ready_def s'_def flags_def)
qed

lemma release_frame_rep:
  assumes "sched_rep s ready (xs @ t # ys)" and "t \<notin> set ready"
  shows "sched_rep (fst (release_frame destroy t s w)) ready (xs @ ys)"
    and "flags (fst (release_frame destroy t s w)) = flags s" and "snd (release_frame destroy t s w) = destroy t w"
proof -
  let ?s = "unlink_root t s"
  have u: "sched_rep ?s ready (xs @ ys)" by (rule unlink_root_sched_rep [OF assms(1)])
  have "distinct (xs @ t # ys)" using assms(1) by (auto simp: sched_rep_def root_rep_def)
  then have n: "t \<notin> set (xs @ ys)" by simp
  have k: "ready_nexts (set_task t (\<lambda>p. p\<lparr>tp_handle := False\<rparr>) ?s) = ready_nexts ?s"
    "root_nexts (set_task t (\<lambda>p. p\<lparr>tp_handle := False\<rparr>) ?s) = root_nexts ?s"
    "root_previouses (set_task t (\<lambda>p. p\<lparr>tp_handle := False\<rparr>) ?s) = root_previouses ?s"
    by (auto simp: ready_nexts_def root_nexts_def root_previouses_def fun_eq_iff sc_tasks_set_task)
  show "sched_rep (fst (release_frame destroy t s w)) ready (xs @ ys)"
    using u n assms(2) unfolding release_frame_def
    by (simp add: sched_rep_def ready_rep_def root_rep_def live_def k del: links_set_task)
      (auto simp: sc_tasks_set_task)
  show "flags (fst (release_frame destroy t s w)) = flags s"
    by (auto simp: release_frame_def flags_def unlink_root_def Let_def split: option.splits)
qed (simp add: release_frame_def)

lemma destroy_roots_correct:
  assumes "sched_rep s [] roots"
  shows "\<exists>s'. destroy_roots destroy s w = Some (s', fold destroy roots w) \<and> sched_rep s' [] [] \<and> flags s' = flags s"
  using assms
proof (induction roots arbitrary: s w)
  case Nil
  then show ?case by (subst destroy_roots.simps) (simp add: sched_rep_def root_rep_def)
next
  case (Cons t roots)
  obtain s1 w1 where r: "release_frame destroy t s w = (s1, w1)" by fastforce
  from release_frame_rep [of s "[]" "[]" t roots destroy w] Cons.prems r
  have s1: "sched_rep s1 [] roots" "flags s1 = flags s" "w1 = destroy t w" by simp_all
  have "sc_root_head s = Some t" using Cons.prems by (simp add: sched_rep_def root_rep_def)
  with r have "destroy_roots destroy s w = destroy_roots destroy s1 w1"
    by (subst destroy_roots.simps) simp
  with Cons.IH [OF s1(1), of w1] s1 show ?case by auto
qed

lemma cancel_all_now_correct:
  assumes "sched_rep s ready roots"
  shows "\<exists>s'. cancel_all_now destroy s w = Some (s', fold destroy roots w) \<and> sched_rep s' [] [] \<and> flags s' = flags s"
proof -
  obtain s1 where "clear_ready s = Some s1" "sched_rep s1 [] roots" "flags s1 = flags s"
    using clear_ready_correct [OF assms] by blast
  with destroy_roots_correct [of s1 roots destroy w] show ?thesis by (auto simp: cancel_all_now_def)
qed

lemma sched_destroy_correct:
  assumes "sched_rep s ready roots"
  shows "\<exists>s'. sched_destroy destroy s w = Some (s', fold destroy roots w) \<and> sched_rep s' [] [] \<and> \<not> sc_running s'"
proof -
  define s0 where "s0 = s\<lparr>sc_stop_source := True, sc_accepting := False\<rparr>"
  have "sched_rep s0 ready roots" using assms same_links_rep [of s s0] by (simp add: s0_def)
  from cancel_all_now_correct [OF this, of destroy w] obtain s1 where
    c: "cancel_all_now destroy s0 w = Some (s1, fold destroy roots w)" "sched_rep s1 [] []" by blast
  have "sched_rep (deactivate s1) [] []" using c(2) same_links_rep [of s1 "deactivate s1"] by simp
  with c(1) show ?thesis by (simp add: sched_destroy_def s0_def [symmetric]) (simp add: deactivate_def)
qed

section \<open>Coroutine bodies\<close>

text \<open>
  What the body of task \<open>t\<close> may do to the scheduler between two suspensions, as the awaiters and the
  worker use it: schedule and spawn tasks, create, await and destroy child frames, observe a stop,
  ask for cancellation or shutdown, and complete.  A frame that completes is not in the ready list,
  because a task enters the list only when it suspends.
\<close>

inductive body_step :: "nat \<Rightarrow> scheduler \<Rightarrow> scheduler \<Rightarrow> bool" for t where
  bs_schedule: "body_step t s (snd (schedule True u s))"
| bs_spawn: "body_step t s (snd (spawn True task s))"
| bs_create: "\<not> tp_queued (sc_tasks s u) \<Longrightarrow> \<not> tp_root (sc_tasks s u) \<Longrightarrow> body_step t s (set_task u (\<lambda>_. fresh_promise) s)"
| bs_bind: "body_step t s (snd (bind_task u token s))"
| bs_continuation: "body_step t s (set_task u (\<lambda>p. p\<lparr>tp_continuation := c\<rparr>) s)"
| bs_destroy: "\<not> tp_queued (sc_tasks s u) \<Longrightarrow> \<not> tp_root (sc_tasks s u)
    \<Longrightarrow> body_step t s (set_task u (\<lambda>p. p\<lparr>tp_handle := False\<rparr>) s)"
| bs_stop: "body_step t s (forward_stop s)"
| bs_observe: "body_step t s (observe_external_stop s)"
| bs_close: "body_step t s (snd (sched_close True s))"
| bs_cancel: "sc_dispatching s \<Longrightarrow> sched_cancel_all (\<lambda>_ w. w) True s () = Some (ok, s', ()) \<Longrightarrow> body_step t s s'"
| bs_shutdown: "sc_dispatching s \<Longrightarrow> sched_shutdown (\<lambda>_ s w. (s, w)) (\<lambda>_ w. w) True n s () = Some (m, s', ())
    \<Longrightarrow> body_step t s s'"
| bs_nested: "sc_dispatching s \<Longrightarrow> run_ready (\<lambda>_ s w. (s, w)) (\<lambda>_ w. w) True n s () = Some (r, s', ()) \<Longrightarrow> body_step t s s'"
| bs_complete: "\<not> tp_queued (sc_tasks s t)
    \<Longrightarrow> body_step t s (schedule_continuation t (set_task t (\<lambda>p. p\<lparr>tp_done := True, tp_exception := e\<rparr>) s))"

definition coroutine_bodies :: "(nat \<Rightarrow> scheduler \<Rightarrow> 'w \<Rightarrow> scheduler \<times> 'w) \<Rightarrow> bool" where
  "coroutine_bodies resume \<longleftrightarrow> (\<forall>t s w. (body_step t)\<^sup>*\<^sup>* s (fst (resume t s w)))"

definition dispatch_rep :: "scheduler \<Rightarrow> nat list \<Rightarrow> nat list \<Rightarrow> bool" where
  "dispatch_rep s ready roots \<longleftrightarrow> sched_rep s ready roots \<and> sc_running s \<and> sc_dispatching s"

definition extended :: "nat list \<Rightarrow> nat list \<Rightarrow> scheduler \<Rightarrow> bool" where
  "extended ready roots s \<longleftrightarrow> (\<exists>more new. dispatch_rep s (ready @ more) (new @ roots))"

lemma extended_same: "dispatch_rep s ready roots \<Longrightarrow> extended ready roots s"
  unfolding extended_def by (metis append_Nil append_Nil2)

lemma dispatch_rep_flags:
  assumes "dispatch_rep s ready roots"
  shows "dispatch_rep (forward_stop s) ready roots" "dispatch_rep (observe_external_stop s) ready roots"
    "dispatch_rep (record_invariant_failure s) ready roots"
    "dispatch_rep (s\<lparr>sc_accepting := a\<rparr>) ready roots"
    "dispatch_rep (s\<lparr>sc_stop_source := b, sc_accepting := a, sc_cancel_pending := c\<rparr>) ready roots"
    "dispatch_rep (s\<lparr>sc_stop_source := b, sc_accepting := a, sc_cancel_pending := c, sc_shutdown_pending := d\<rparr>) ready roots"
proof -
  have "same_links s (s\<lparr>sc_stop_source := b, sc_accepting := a, sc_cancel_pending := c\<rparr>)"
    "same_links s (s\<lparr>sc_stop_source := b, sc_accepting := a, sc_cancel_pending := c, sc_shutdown_pending := d\<rparr>)"
    by (simp_all add: same_links_def)
  with assms show "dispatch_rep (forward_stop s) ready roots" "dispatch_rep (observe_external_stop s) ready roots"
    "dispatch_rep (record_invariant_failure s) ready roots"
    "dispatch_rep (s\<lparr>sc_accepting := a\<rparr>) ready roots"
    "dispatch_rep (s\<lparr>sc_stop_source := b, sc_accepting := a, sc_cancel_pending := c\<rparr>) ready roots"
    "dispatch_rep (s\<lparr>sc_stop_source := b, sc_accepting := a, sc_cancel_pending := c, sc_shutdown_pending := d\<rparr>) ready roots"
    by (auto simp: dispatch_rep_def same_links_rep [of s])
      (auto simp: forward_stop_def observe_external_stop_def record_invariant_failure_def)
qed

text \<open>A change of one promise that touches neither its links nor, if it is listed, its life.\<close>

lemma set_task_rep:
  assumes "sched_rep s ready roots"
    and "tp_queued (f (sc_tasks s u)) = tp_queued (sc_tasks s u)" and "tp_root (f (sc_tasks s u)) = tp_root (sc_tasks s u)"
    and "u \<in> set ready \<Longrightarrow> tp_ready_next (f (sc_tasks s u)) = tp_ready_next (sc_tasks s u)
           \<and> tp_scheduler (f (sc_tasks s u)) = tp_scheduler (sc_tasks s u) \<and> tp_handle (f (sc_tasks s u))
           \<and> \<not> tp_done (f (sc_tasks s u))"
    and "u \<in> set roots \<Longrightarrow> tp_root_next (f (sc_tasks s u)) = tp_root_next (sc_tasks s u)
           \<and> tp_root_previous (f (sc_tasks s u)) = tp_root_previous (sc_tasks s u)
           \<and> tp_scheduler (f (sc_tasks s u)) = tp_scheduler (sc_tasks s u) \<and> tp_handle (f (sc_tasks s u))"
  shows "sched_rep (set_task u f s) ready roots"
proof -
  have "chain (ready_nexts (set_task u f s)) (sc_ready_head s) ready = chain (ready_nexts s) (sc_ready_head s) ready"
    using assms(4) by (intro chain_cong) (auto simp: ready_nexts_def sc_tasks_set_task)
  moreover have "dchain (root_nexts (set_task u f s)) (root_previouses (set_task u f s)) None (sc_root_head s) roots
      = dchain (root_nexts s) (root_previouses s) None (sc_root_head s) roots"
    using assms(5) by (intro dchain_cong) (auto simp: root_nexts_def root_previouses_def sc_tasks_set_task)
  ultimately show ?thesis
    using assms by (simp add: sched_rep_def ready_rep_def root_rep_def live_def del: links_set_task)
      (auto simp: sc_tasks_set_task)
qed

lemma schedule_dispatch:
  assumes "dispatch_rep s ready roots"
  shows "extended ready roots (snd (schedule True u s))"
proof (cases "fst (schedule True u s) = Scheduled")
  case True
  then have "schedule True u s = (Scheduled, snd (schedule True u s))" by (metis prod.collapse)
  moreover have "sched_rep s ready roots" using assms by (simp add: dispatch_rep_def)
  ultimately have "sched_rep (snd (schedule True u s)) (ready @ [u]) roots" using schedule_correct by blast
  with assms schedule_enqueue [OF True] show ?thesis
    unfolding extended_def dispatch_rep_def by (metis append_Nil enqueue_task_frame(11,12))
next
  case False
  with schedule_failed [OF False] assms show ?thesis by (simp add: extended_same)
qed

lemma schedule_control:
  "sc_running (snd (schedule b u s)) = sc_running s" "sc_dispatching (snd (schedule b u s)) = sc_dispatching s"
  by (auto simp: schedule_def Let_def split: option.splits)

lemma spawn_control:
  "sc_running (snd (spawn b u s)) = sc_running s" "sc_dispatching (snd (spawn b u s)) = sc_dispatching s"
  using schedule_control
  by (auto simp: spawn_def Let_def bind_task_def root_links_frame observe_external_stop_def split: option.splits prod.splits)
    (metis set_task_frame(7,8) root_links_frame snd_conv scheduler.select_convs scheduler.surjective)+

lemma schedule_continuation_dispatch:
  assumes "dispatch_rep s ready roots"
  shows "extended ready roots (schedule_continuation t s)"
proof (cases "tp_continuation (sc_tasks s t) = None \<or> tp_scheduler (sc_tasks s t) = None")
  case True
  with assms show ?thesis by (auto simp: schedule_continuation_def extended_same split: option.splits)
next
  case False
  then obtain c where c: "tp_continuation (sc_tasks s t) = Some c" by auto
  have "extended ready roots (snd (schedule True c s))" by (rule schedule_dispatch [OF assms])
  then have "extended ready roots (record_invariant_failure (snd (schedule True c s)))"
    "extended ready roots (snd (schedule True c s))"
    unfolding extended_def by (blast intro: dispatch_rep_flags(3))+
  with c False show ?thesis
    by (auto simp: schedule_continuation_def split: prod.splits)
qed

lemma body_step_extends:
  assumes "body_step t s s'" and "dispatch_rep s ready roots"
  shows "extended ready roots s'"
  using assms
proof (induction rule: body_step.cases)
  case (bs_schedule s u)
  then show ?case using schedule_dispatch by blast
next
  case (bs_spawn s task)
  have r: "sched_rep s ready roots" using bs_spawn by (simp add: dispatch_rep_def)
  obtain res s1 where e: "spawn True task s = (res, s1)" by fastforce
  have c: "sc_running s1" "sc_dispatching s1"
    using spawn_control [of True task s] e bs_spawn by (simp_all add: dispatch_rep_def)
  from spawn_correct [OF r e] c show ?case
    unfolding extended_def dispatch_rep_def bs_spawn(2) e snd_conv
    by (metis append.right_neutral append_Cons append_Nil)
next
  case (bs_create s u)
  then have "u \<notin> set ready" "u \<notin> set roots" by (auto simp: dispatch_rep_def sched_rep_def ready_rep_def root_rep_def)
  with bs_create show ?case
    by (intro extended_same) (auto simp: dispatch_rep_def fresh_promise_def intro!: set_task_rep)
next
  case (bs_bind s u token)
  then show ?case
    by (intro extended_same) (auto simp: dispatch_rep_def bind_task_rep, auto simp: bind_task_def)
next
  case (bs_continuation s u c)
  then have "\<forall>x \<in> set ready \<union> set roots. tp_handle (sc_tasks s x)" "\<forall>x \<in> set ready. \<not> tp_done (sc_tasks s x)"
    by (auto simp: dispatch_rep_def sched_rep_def live_def)
  with bs_continuation show ?case
    by (intro extended_same) (auto simp: dispatch_rep_def intro!: set_task_rep)
next
  case (bs_destroy s u)
  then have "u \<notin> set ready" "u \<notin> set roots" by (auto simp: dispatch_rep_def sched_rep_def ready_rep_def root_rep_def)
  with bs_destroy show ?case
    by (intro extended_same) (auto simp: dispatch_rep_def intro!: set_task_rep)
next
  case (bs_complete s e)
  let ?s = "set_task t (\<lambda>p. p\<lparr>tp_done := True, tp_exception := e\<rparr>) s"
  have "t \<notin> set ready" using bs_complete by (auto simp: dispatch_rep_def sched_rep_def ready_rep_def)
  moreover have "\<forall>x \<in> set roots. tp_handle (sc_tasks s x)" using bs_complete by (auto simp: dispatch_rep_def sched_rep_def live_def)
  ultimately have "dispatch_rep ?s ready roots"
    using bs_complete by (auto simp: dispatch_rep_def intro!: set_task_rep)
  then show ?case using schedule_continuation_dispatch bs_complete(2) by blast
qed (auto simp: sched_close_def sched_on_owner_def sched_cancel_all_def sched_shutdown_def run_ready_def Let_def
      dispatch_rep_flags intro!: extended_same split: if_splits)

lemma bodies_extend:
  assumes "(body_step t)\<^sup>*\<^sup>* s s'" and "dispatch_rep s ready roots"
  shows "extended ready roots s'"
  using assms
proof (induction rule: rtranclp_induct)
  case base
  then show ?case by (rule extended_same)
next
  case (step s1 s2)
  then obtain more new where "dispatch_rep s1 (ready @ more) (new @ roots)" by (auto simp: extended_def)
  from body_step_extends [OF step(2) this] show ?case
    unfolding extended_def by (metis append.assoc)
qed

section \<open>Dispatching\<close>

lemma resume_front_correct:
  assumes b: "coroutine_bodies resume" and s: "sched_rep s (t # ready) roots" "sc_running s"
    and e: "resume_front resume destroy t s w = (s', w')"
    and r: "resume t ((pop_ready t s)\<lparr>sc_dispatching := True\<rparr>) w = (s2, w1)"
  defines "completed \<equiv> tp_root (sc_tasks (pop_ready t s) t) \<and> tp_done (sc_tasks s2 t)"
  shows "\<exists>more roots'. sched_rep s' (ready @ more) roots' \<and> sc_running s' \<and> \<not> sc_dispatching s'
      \<and> (\<forall>u \<in> set roots. u \<in> set roots' \<or> completed \<and> u = t)"
    and "w' = (if completed then destroy t w1 else w1)" and "sc_cancel_pending s' = sc_cancel_pending s2"
proof -
  define s1 where "s1 = (pop_ready t s)\<lparr>sc_dispatching := True\<rparr>"
  have p: "sched_rep (pop_ready t s) ready roots" using pop_ready_correct [OF s(1)] by blast
  have "sc_running (pop_ready t s) = sc_running s" by (simp add: pop_ready_def Let_def)
  then have d: "dispatch_rep s1 ready roots"
    using p s(2) same_links_rep [of "pop_ready t s" s1] by (simp add: dispatch_rep_def s1_def)
  have "(body_step t)\<^sup>*\<^sup>* s1 s2" using b r by (metis coroutine_bodies_def fst_conv s1_def)
  from bodies_extend [OF this d] obtain more new where
    x: "sched_rep s2 (ready @ more) (new @ roots)" "sc_running s2" "sc_dispatching s2"
    by (auto simp: extended_def dispatch_rep_def)
  define s3 where "s3 = s2\<lparr>sc_dispatching := False\<rparr>"
  have s3: "sched_rep s3 (ready @ more) (new @ roots)" "sc_running s3" "\<not> sc_dispatching s3" "sc_cancel_pending s3 = sc_cancel_pending s2"
    using x same_links_rep [of s2 s3] by (simp_all add: s3_def)
  have "(\<exists>more roots'. sched_rep s' (ready @ more) roots' \<and> sc_running s' \<and> \<not> sc_dispatching s'
      \<and> (\<forall>u \<in> set roots. u \<in> set roots' \<or> completed \<and> u = t))
    \<and> w' = (if completed then destroy t w1 else w1) \<and> sc_cancel_pending s' = sc_cancel_pending s2"
  proof (cases completed)
    case False
    with e r have "s' = s3" "w' = w1" by (auto simp: resume_front_def s3_def completed_def)
    moreover have "\<forall>u \<in> set roots. u \<in> set (new @ roots) \<or> completed \<and> u = t" by simp
    ultimately show ?thesis using s3 False by metis
  next
    case True
    then have c: "tp_root (sc_tasks (pop_ready t s) t)" "tp_done (sc_tasks s3 t)" by (simp_all add: completed_def s3_def)
    define s4 where "s4 = (case tp_exception (sc_tasks s3 t) of None \<Rightarrow> s3
        | Some ex \<Rightarrow> s3\<lparr>sc_unhandled_root_exceptions := sc_unhandled_root_exceptions s3 + 1,
                       sc_last_unhandled_exception := Some ex\<rparr>)"
    have same: "same_links s3 s4" by (auto simp: s4_def same_links_def split: option.split)
    have f: "flags s4 = flags s3" by (auto simp: s4_def flags_def split: option.split)
    have "(s', w') = finish_root destroy t s3 w1"
      using e r c by (simp add: resume_front_def s3_def Let_def)
    then have s': "(s', w') = release_frame destroy t s4 w1" by (simp add: finish_root_def s4_def)
    have "t \<in> set (new @ roots)" using c p by (simp add: sched_rep_def root_rep_def)
    from split_list [OF this] obtain xs ys where ys: "new @ roots = xs @ t # ys" by blast
    then have "\<forall>u \<in> set roots. u \<in> set (xs @ ys) \<or> u = t" by (metis Un_iff insert_iff list.simps(15) set_append)
    moreover have s4: "sched_rep s4 (ready @ more) (xs @ t # ys)" using s3 same_links_rep [OF same] ys by simp
    moreover have "t \<notin> set (ready @ more)" using c s3(1) by (auto simp: sched_rep_def live_def)
    note rf = release_frame_rep [OF s4 this, of destroy w1, folded s', unfolded fst_conv snd_conv]
    moreover have "sc_running s'" "\<not> sc_dispatching s'" "sc_cancel_pending s' = sc_cancel_pending s2"
      using rf(2) f s3 by (simp_all add: flags_def)
    ultimately show ?thesis using rf(1,3) True by metis
  qed
  then show "\<exists>more roots'. sched_rep s' (ready @ more) roots' \<and> sc_running s' \<and> \<not> sc_dispatching s'
      \<and> (\<forall>u \<in> set roots. u \<in> set roots' \<or> completed \<and> u = t)"
    and "w' = (if completed then destroy t w1 else w1)" and "sc_cancel_pending s' = sc_cancel_pending s2" by blast+
qed

text \<open>
  The dispatch loop with a record of what it does: \<open>Resumed t r c\<close> for each task \<open>t\<close> it resumes, where
  \<open>r\<close> says that \<open>t\<close> is a root that ran to its end and \<open>c\<close> that a cancellation was pending when the
  task gave control back, and \<open>Destroyed t\<close> for each frame it destroys.
\<close>

datatype sched_event = Resumed nat bool bool | Destroyed nat

definition logged ::
  "(nat \<Rightarrow> scheduler \<Rightarrow> 'w \<Rightarrow> scheduler \<times> 'w) \<Rightarrow> nat \<Rightarrow> scheduler \<Rightarrow> 'w \<times> sched_event list \<Rightarrow> scheduler \<times> 'w \<times> sched_event list" where
  "logged resume t s x = (case resume t s (fst x) of (s', w') \<Rightarrow>
     (s', w', snd x @ [Resumed t (tp_root (sc_tasks s t) \<and> tp_done (sc_tasks s' t)) (sc_cancel_pending s')]))"

definition logged_destroy :: "(nat \<Rightarrow> 'w \<Rightarrow> 'w) \<Rightarrow> nat \<Rightarrow> 'w \<times> sched_event list \<Rightarrow> 'w \<times> sched_event list" where
  "logged_destroy destroy t x = (destroy t (fst x), snd x @ [Destroyed t])"

fun resumptions :: "sched_event list \<Rightarrow> nat list" where
  "resumptions [] = []"
| "resumptions (Resumed t r c # es) = t # resumptions es"
| "resumptions (Destroyed t # es) = resumptions es"

fun cancels :: "sched_event \<Rightarrow> bool" where
  "cancels (Resumed t r c) = c"
| "cancels (Destroyed t) = False"

text \<open>One round, and the logs that consist of rounds: a frame is destroyed exactly after its end.\<close>

definition dispatch_round :: "nat \<Rightarrow> bool \<Rightarrow> bool \<Rightarrow> sched_event list" where
  "dispatch_round t r c = Resumed t r c # (if r then [Destroyed t] else [])"

fun rounds :: "sched_event list \<Rightarrow> bool" where
  "rounds [] \<longleftrightarrow> True"
| "rounds (Resumed t False c # es) \<longleftrightarrow> rounds es"
| "rounds (Resumed t True c # Destroyed u # es) \<longleftrightarrow> u = t \<and> rounds es"
| "rounds es \<longleftrightarrow> False"

lemma resumptions_append [simp]: "resumptions (xs @ ys) = resumptions xs @ resumptions ys"
  by (induction xs rule: resumptions.induct) simp_all

lemma resumptions_destroyed [simp]: "resumptions (map Destroyed ts) = []"
  by (induction ts) simp_all

lemma dispatch_round_simps [simp]:
  "resumptions (dispatch_round t r c) = [t]" "rounds (dispatch_round t r c @ es) = rounds es"
  "Destroyed u \<in> set (dispatch_round t r c) \<longleftrightarrow> r \<and> u = t"
  by (cases r; auto simp: dispatch_round_def)+

lemma cancels_round: "(\<exists>e \<in> set (dispatch_round t r c @ es). cancels e) \<longleftrightarrow> c \<or> (\<exists>e \<in> set es. cancels e)"
  by (cases r) (auto simp: dispatch_round_def)

lemma coroutine_bodies_logged: "coroutine_bodies resume \<Longrightarrow> coroutine_bodies (logged resume)"
  by (auto simp: coroutine_bodies_def logged_def split: prod.split) (metis fst_conv)

lemma fold_logged_destroy: "snd (fold (logged_destroy destroy) ts x) = snd x @ map Destroyed ts"
  by (induction ts arbitrary: x) (simp_all add: logged_destroy_def)

lemma resume_front_logged:
  assumes b: "coroutine_bodies resume" and s: "sched_rep s (t # ready) roots" "sc_running s"
    and e: "resume_front (logged resume) (logged_destroy destroy) t s (w, log) = (s', x)"
  shows "\<exists>more roots' r w'. sched_rep s' (ready @ more) roots' \<and> sc_running s' \<and> \<not> sc_dispatching s'
      \<and> (\<forall>u \<in> set roots. u \<in> set roots' \<or> r \<and> u = t) \<and> x = (w', log @ dispatch_round t r (sc_cancel_pending s'))"
proof -
  let ?s1 = "(pop_ready t s)\<lparr>sc_dispatching := True\<rparr>"
  obtain s2 w1 where r: "resume t ?s1 w = (s2, w1)" by fastforce
  define completed where "completed \<longleftrightarrow> tp_root (sc_tasks (pop_ready t s) t) \<and> tp_done (sc_tasks s2 t)"
  have l: "logged resume t ?s1 (w, log) = (s2, w1, log @ [Resumed t completed (sc_cancel_pending s2)])"
    using r by (simp add: logged_def completed_def)
  note f = resume_front_correct [OF coroutine_bodies_logged [OF b] s e l, folded completed_def]
  have "snd x = log @ dispatch_round t completed (sc_cancel_pending s')"
    using f(2,3) by (simp add: dispatch_round_def logged_destroy_def)
  with f(1) show ?thesis by (metis prod.collapse)
qed

lemma prefix_comparable_append:
  "prefix xs (ys @ zs) \<or> prefix (ys @ zs) xs \<Longrightarrow> prefix xs ys \<or> prefix ys xs"
  by (metis prefix_append prefix_order.trans prefixI)

definition run_post ::
  "nat \<Rightarrow> nat list \<Rightarrow> nat list \<Rightarrow> sched_event list \<Rightarrow> scheduler \<Rightarrow> bool" where
  "run_post budget ready roots log s' \<longleftrightarrow>
     length (resumptions log) \<le> budget \<and> (ready \<noteq> [] \<longrightarrow> 0 < budget \<longrightarrow> resumptions log \<noteq> [])
     \<and> (prefix (resumptions log) ready \<or> prefix ready (resumptions log))
     \<and> \<not> sc_dispatching s' \<and> (\<exists>ready' roots'. sched_rep s' ready' roots'
       \<and> (length (resumptions log) < budget \<longrightarrow> ready' = [])
       \<and> (\<forall>t \<in> set roots. t \<in> set roots' \<or> Destroyed t \<in> set log)
       \<and> (if \<exists>e \<in> set log. cancels e
          then ready' = [] \<and> roots' = []
            \<and> (\<exists>before t r frames. log = before @ dispatch_round t r True @ map Destroyed frames
                 \<and> rounds before \<and> (\<forall>e \<in> set before. \<not> cancels e))
          else rounds log \<and> sc_running s' \<and> prefix (take budget ready) (resumptions log)
            \<and> prefix (drop (length (resumptions log)) ready) ready'))"

lemma run_post_Cons:
  assumes "run_post left (tail @ late) roots1 xs s'" and "\<forall>u \<in> set roots. u \<in> set roots1 \<or> r \<and> u = t"
  shows "run_post (Suc left) (t # tail) roots (dispatch_round t r False @ xs) s'"
proof -
  let ?log = "dispatch_round t r False @ xs"
  from assms(1) obtain ready' roots' where r: "sched_rep s' ready' roots'" "length (resumptions xs) < left \<longrightarrow> ready' = []"
    "\<forall>t \<in> set roots1. t \<in> set roots' \<or> Destroyed t \<in> set xs"
    "if \<exists>e \<in> set xs. cancels e
     then ready' = [] \<and> roots' = [] \<and> (\<exists>before t r frames. xs = before @ dispatch_round t r True @ map Destroyed frames
         \<and> rounds before \<and> (\<forall>e \<in> set before. \<not> cancels e))
     else rounds xs \<and> sc_running s' \<and> prefix (take left (tail @ late)) (resumptions xs)
       \<and> prefix (drop (length (resumptions xs)) (tail @ late)) ready'"
    unfolding run_post_def by blast
  have c: "(\<exists>e \<in> set ?log. cancels e) \<longleftrightarrow> (\<exists>e \<in> set xs. cancels e)"
    using cancels_round [of t r False xs] by simp
  have "if \<exists>e \<in> set ?log. cancels e
     then ready' = [] \<and> roots' = [] \<and> (\<exists>before t r frames. ?log = before @ dispatch_round t r True @ map Destroyed frames
         \<and> rounds before \<and> (\<forall>e \<in> set before. \<not> cancels e))
     else rounds ?log \<and> sc_running s' \<and> prefix (take (Suc left) (t # tail)) (resumptions ?log)
       \<and> prefix (drop (length (resumptions ?log)) (t # tail)) ready'"
  proof (cases "\<exists>e \<in> set xs. cancels e")
    case True
    with r(4) obtain before u d frames where
      x: "ready' = []" "roots' = []" "xs = before @ dispatch_round u d True @ map Destroyed frames" "rounds before"
        "\<forall>e \<in> set before. \<not> cancels e" by auto
    have "?log = (dispatch_round t r False @ before) @ dispatch_round u d True @ map Destroyed frames"
      "rounds (dispatch_round t r False @ before)" "\<forall>e \<in> set (dispatch_round t r False @ before). \<not> cancels e"
      using x(3,4) cancels_round [of t r False before] x(5) by (simp, simp, blast)
    then have "\<exists>before t r frames. ?log = before @ dispatch_round t r True @ map Destroyed frames
        \<and> rounds before \<and> (\<forall>e \<in> set before. \<not> cancels e)" by blast
    with x(1,2) show ?thesis unfolding c if_P [OF True] by blast
  next
    case False
    have "prefix (take left tail) (take left (tail @ late))"
      "prefix (drop n tail) (drop n (tail @ late))" for n by simp_all
    note le = prefix_order.trans [OF this(1)] prefix_order.trans [OF this(2)]
    from r(4) show ?thesis unfolding c if_not_P [OF False] by (auto intro: le)
  qed
  moreover have "\<forall>u \<in> set roots. u \<in> set roots' \<or> Destroyed u \<in> set ?log" using r(3) assms(2) by auto
  moreover have "prefix (resumptions ?log) (t # tail) \<or> prefix (t # tail) (resumptions ?log)"
    using assms(1) prefix_comparable_append [of "resumptions xs" tail late] by (simp add: run_post_def)
  moreover have "length (resumptions ?log) < Suc left \<longrightarrow> ready' = []" using r(2) by simp
  moreover have "length (resumptions ?log) \<le> Suc left" "\<not> sc_dispatching s'" "resumptions ?log \<noteq> []"
    using assms(1) by (simp_all add: run_post_def)
  ultimately show ?thesis unfolding run_post_def using r(1) by blast
qed

text \<open>A cancellation after the first round destroys every root that is left.\<close>

lemma run_post_cancelled:
  assumes "sched_rep s' [] []" and "\<not> sc_dispatching s'" and "\<forall>u \<in> set roots. u \<in> set frames \<or> r \<and> u = t"
  shows "run_post (Suc left) (t # tail) roots (dispatch_round t r True @ map Destroyed frames) s'"
proof -
  let ?log = "dispatch_round t r True @ map Destroyed frames"
  have "\<exists>e \<in> set ?log. cancels e" unfolding cancels_round by simp
  moreover have "\<exists>before u d fs. ?log = before @ dispatch_round u d True @ map Destroyed fs
      \<and> rounds before \<and> (\<forall>e \<in> set before. \<not> cancels e)"
    by (intro exI [of _ "[]"] exI conjI) simp_all
  moreover have "\<forall>u \<in> set roots. u \<in> set [] \<or> Destroyed u \<in> set ?log" using assms(3) by auto
  ultimately show ?thesis unfolding run_post_def using assms(1,2)
    by (intro conjI exI [of _ "[]"]) simp_all
qed

lemma run_loop_correct:
  assumes b: "coroutine_bodies resume" and "sched_rep s ready roots" and "sc_running s" and "\<not> sc_dispatching s"
  shows "\<exists>s' w' xs. run_loop (logged resume) (logged_destroy destroy) left n s (w, log)
       = Some (n + length (resumptions xs), s', w', log @ xs) \<and> run_post left ready roots xs s'"
  using assms(2-4)
proof (induction left arbitrary: n s w log ready roots)
  case 0
  then show ?case by (intro exI [of _ s] exI [of _ w] exI [of _ "[]"]) (auto simp: run_post_def)
next
  case (Suc left)
  show ?case
  proof (cases ready)
    case Nil
    then have "sc_ready_head s = None" using Suc.prems(1) by (simp add: sched_rep_def ready_rep_def)
    with Nil Suc.prems show ?thesis
      by (intro exI [of _ s] exI [of _ w] exI [of _ "[]"]) (auto simp: run_post_def)
  next
    case (Cons t tail)
    have h: "sc_ready_head s = Some t" using Suc.prems(1) Cons by (simp add: sched_rep_def ready_rep_def)
    obtain s1 x1 where f: "resume_front (logged resume) (logged_destroy destroy) t s (w, log) = (s1, x1)" by (metis surj_pair)
    from resume_front_logged [OF b Suc.prems(1) [unfolded Cons] Suc.prems(2) f]
    obtain later roots1 r w1 where s1: "sched_rep s1 (tail @ later) roots1" "sc_running s1" "\<not> sc_dispatching s1"
      and ro: "\<forall>u \<in> set roots. u \<in> set roots1 \<or> r \<and> u = t"
      and x1: "x1 = (w1, log @ dispatch_round t r (sc_cancel_pending s1))" by blast
    show ?thesis
    proof (cases "sc_cancel_pending s1")
      case True
      let ?c = "s1\<lparr>sc_cancel_pending := False, sc_shutdown_pending := False\<rparr>"
      let ?xs = "dispatch_round t r True @ map Destroyed roots1"
      have "sched_rep ?c (tail @ later) roots1" using s1(1) same_links_rep [of s1 ?c] by simp
      from cancel_all_now_correct [OF this, of "logged_destroy destroy" x1] obtain s2 x2 where
        c: "cancel_all_now (logged_destroy destroy) ?c x1 = Some (s2, x2)" "snd x2 = log @ ?xs"
          "sched_rep s2 [] []" "flags s2 = flags ?c"
        using fold_logged_destroy [of destroy roots1 x1] x1 True by (metis append.assoc snd_conv)
      define s3 where "s3 = (if sc_shutdown_pending s1 then deactivate s2 else s2)"
      have "sched_rep s3 [] []" using c(3) same_links_rep [of s2 "deactivate s2"] by (simp add: s3_def)
      moreover have "\<not> sc_dispatching s3" using c(4) s1(3) by (simp add: s3_def flags_def deactivate_def)
      moreover have "run_loop (logged resume) (logged_destroy destroy) (Suc left) n s (w, log)
          = Some (n + length (resumptions ?xs), s3, fst x2, log @ ?xs)"
        using h f True c(1,2) by (cases x2) (simp add: s3_def)
      ultimately show ?thesis using run_post_cancelled [OF _ _ ro, of s3 left tail] unfolding Cons by blast
    next
      case False
      let ?l = "log @ dispatch_round t r False"
      from Suc.IH [OF s1, of "n + 1" w1 ?l] obtain s' w' xs where
        ih: "run_loop (logged resume) (logged_destroy destroy) left (n + 1) s1 (w1, ?l)
              = Some (n + 1 + length (resumptions xs), s', w', ?l @ xs)"
          "run_post left (tail @ later) roots1 xs s'" by blast
      let ?xs = "dispatch_round t r False @ xs"
      have "run_loop (logged resume) (logged_destroy destroy) (Suc left) n s (w, log)
          = Some (n + length (resumptions ?xs), s', w', log @ ?xs)"
        using ih(1) h f x1 False by simp
      moreover have "run_post (Suc left) ready roots ?xs s'"
        using ih(2) ro unfolding Cons by (rule run_post_Cons)
      ultimately show ?thesis by blast
    qed
  qed
qed

lemma observe_rep:
  assumes "sched_rep s ready roots"
  shows "sched_rep (observe_external_stop s) ready roots"
    and "sc_running (observe_external_stop s) = sc_running s"
    and "sc_dispatching (observe_external_stop s) = sc_dispatching s"
  using assms same_links_rep [of s "observe_external_stop s"] by simp (simp_all add: observe_external_stop_def)

lemma run_ready_logged:
  assumes "coroutine_bodies resume" and "sched_rep s ready roots" and "sc_running s" and "\<not> sc_dispatching s"
  shows "\<exists>result s' w' xs. run_ready (logged resume) (logged_destroy destroy) True budget s (w, log) = Some (result, s', w', log @ xs)
     \<and> rr_resumed result = length (resumptions xs) \<and> rr_has_ready result = has_ready s' \<and> run_post budget ready roots xs s'"
proof -
  let ?o = "observe_external_stop s"
  have "sched_rep ?o ready roots" "sc_running ?o" "\<not> sc_dispatching ?o"
    using assms(2-4) observe_rep by simp_all
  from run_loop_correct [OF assms(1) this, of destroy budget 0 w log] obtain s' w' xs where
    "run_loop (logged resume) (logged_destroy destroy) budget 0 ?o (w, log) = Some (length (resumptions xs), s', w', log @ xs)"
    "run_post budget ready roots xs s'" by auto
  with assms(3,4) show ?thesis by (auto simp: run_ready_def sched_on_owner_def)
qed

text \<open>
  C36. Dispatching always returns.  It resumes at most \<open>budget\<close> tasks, first those that were ready, in
  the order they were scheduled, and then tasks that were scheduled meanwhile.  It stops early only
  with an empty ready list.  A root that ran to its end is destroyed at once, and every other root stays.
  If no cancellation was pending when a task gave control back, every task that was ready within the
  budget has run, the tasks behind the budget are still ready in their order, nothing but completed
  roots was destroyed and the scheduler is still running.  The first pending cancellation ends the
  dispatching: all the roots are destroyed and no task and no root is left.
\<close>

theorem run_ready_fifo:
  assumes "coroutine_bodies resume" and "sched_rep s ready roots" and "sc_running s" and "\<not> sc_dispatching s"
  shows "\<exists>result s' w' log. run_ready (logged resume) (logged_destroy destroy) True budget s (w, []) = Some (result, s', w', log)
     \<and> rr_resumed result = length (resumptions log) \<and> rr_has_ready result = has_ready s'
     \<and> run_post budget ready roots log s'"
  using run_ready_logged [OF assms, of destroy budget w "[]"] by simp

section \<open>Shutdown\<close>

lemma shutdown_loop_correct:
  assumes b: "coroutine_bodies resume"
  shows "sched_rep s ready roots \<Longrightarrow> sc_running s \<or> ready = [] \<and> roots = [] \<Longrightarrow> \<not> sc_dispatching s \<Longrightarrow> resumed \<le> budget
    \<Longrightarrow> \<exists>s' w' xs ready' roots'. shutdown_loop (logged resume) (logged_destroy destroy) True budget resumed s (w, log)
          = Some (resumed + length (resumptions xs), s', w', log @ xs)
      \<and> resumed + length (resumptions xs) \<le> budget \<and> (\<forall>t \<in> set roots. t \<in> set roots' \<or> Destroyed t \<in> set xs)
      \<and> sched_rep s' ready' roots' \<and> \<not> sc_dispatching s' \<and> (sc_running s' \<or> ready' = [] \<and> roots' = [])"
proof (induction "budget - resumed" arbitrary: resumed s w log ready roots rule: less_induct)
  case less
  show ?case
  proof (cases "sc_running s \<and> resumed < budget \<and> has_ready s")
    case False
    then have "shutdown_loop (logged resume) (logged_destroy destroy) True budget resumed s (w, log) = Some (resumed, s, w, log)"
      by (subst shutdown_loop.simps) auto
    with less.prems show ?thesis
      by (intro exI [of _ s] exI [of _ w] exI [of _ "[]"] exI [of _ ready] exI [of _ roots]) simp
  next
    case True
    then have ne: "ready \<noteq> []" using less.prems(1) by (auto simp: has_ready_def sched_rep_def ready_rep_def)
    from run_ready_logged [OF b less.prems(1) _ less.prems(3), of destroy "budget - resumed" w log] True
    obtain result s1 w1 xs where r: "run_ready (logged resume) (logged_destroy destroy) True (budget - resumed) s (w, log)
          = Some (result, s1, w1, log @ xs)" "rr_resumed result = length (resumptions xs)"
      and p: "run_post (budget - resumed) ready roots xs s1" by blast
    from p True ne have q: "length (resumptions xs) \<le> budget - resumed" "0 < length (resumptions xs)" "\<not> sc_dispatching s1"
      by (auto simp: run_post_def)
    from p obtain ready1 roots1 where s1: "sched_rep s1 ready1 roots1" "\<forall>t \<in> set roots. t \<in> set roots1 \<or> Destroyed t \<in> set xs"
      "sc_running s1 \<or> ready1 = [] \<and> roots1 = []" unfolding run_post_def by metis
    have e: "shutdown_loop (logged resume) (logged_destroy destroy) True budget resumed s (w, log)
        = shutdown_loop (logged resume) (logged_destroy destroy) True budget (resumed + rr_resumed result) s1 (w1, log @ xs)"
      using True r q(2) by (subst shutdown_loop.simps) simp
    have "budget - (resumed + rr_resumed result) < budget - resumed" "resumed + rr_resumed result \<le> budget"
      using q True r(2) by linarith+
    from less.hyps [OF this(1) s1(1,3) q(3) this(2), of w1 "log @ xs"] obtain s' w' ys ready' roots' where
      i: "shutdown_loop (logged resume) (logged_destroy destroy) True budget (resumed + rr_resumed result) s1 (w1, log @ xs)
          = Some (resumed + rr_resumed result + length (resumptions ys), s', w', (log @ xs) @ ys)"
        "resumed + rr_resumed result + length (resumptions ys) \<le> budget"
        "\<forall>t \<in> set roots1. t \<in> set roots' \<or> Destroyed t \<in> set ys" "sched_rep s' ready' roots'" "\<not> sc_dispatching s'"
        "sc_running s' \<or> ready' = [] \<and> roots' = []" by blast
    show ?thesis unfolding e using i r(2) s1(2)
      by (intro exI [of _ s'] exI [of _ w'] exI [of _ "xs @ ys"] exI [of _ ready'] exI [of _ roots']) (auto simp: add.assoc)
  qed
qed

text \<open>
  C37. Shutting down a scheduler that is not dispatching always returns, resumes no more tasks than its
  budget, and leaves it stopped with no ready task and no root: the frame of every root there was has
  been destroyed, and the scheduler can be started again.
\<close>

theorem sched_shutdown_complete:
  assumes "coroutine_bodies resume" and "sched_rep s ready roots" and "sc_running s" and "\<not> sc_dispatching s"
  shows "\<exists>n s' w' log. sched_shutdown (logged resume) (logged_destroy destroy) True budget s (w, []) = Some (n, s', w', log)
    \<and> n = length (resumptions log) \<and> n \<le> budget \<and> (\<forall>t \<in> set roots. Destroyed t \<in> set log)
    \<and> sched_rep s' [] [] \<and> \<not> sc_running s' \<and> \<not> sc_dispatching s' \<and> fst (sched_start stopped s')"
proof -
  define s1 where "s1 = s\<lparr>sc_stop_source := True, sc_accepting := False\<rparr>"
  have s1: "sched_rep s1 ready roots" "sc_running s1" "\<not> sc_dispatching s1"
    using assms(2-4) same_links_rep [of s s1] by (simp_all add: s1_def)
  from shutdown_loop_correct [OF assms(1) s1(1) _ s1(3), of 0 budget destroy w "[]"] s1(2) obtain s2 w2 xs ready2 roots2 where
    l: "shutdown_loop (logged resume) (logged_destroy destroy) True budget 0 s1 (w, []) = Some (length (resumptions xs), s2, w2, xs)"
      "length (resumptions xs) \<le> budget" "\<forall>t \<in> set roots. t \<in> set roots2 \<or> Destroyed t \<in> set xs"
      "sched_rep s2 ready2 roots2" "\<not> sc_dispatching s2" "sc_running s2 \<or> ready2 = [] \<and> roots2 = []" by auto
  from cancel_all_now_correct [OF l(4), of "logged_destroy destroy" "(w2, xs)"] obtain s3 where
    c: "cancel_all_now (logged_destroy destroy) s2 (w2, xs) = Some (s3, fold (logged_destroy destroy) roots2 (w2, xs))"
      "sched_rep s3 [] []" by blast
  define x3 where "x3 = (if sc_running s2 then fold (logged_destroy destroy) roots2 (w2, xs) else (w2, xs))"
  have x3: "snd x3 = xs @ map Destroyed (if sc_running s2 then roots2 else [])"
    by (simp add: x3_def fold_logged_destroy)
  define s' where "s' = (if sc_running s2 then deactivate s3 else s2)"
  have "sched_rep (deactivate s3) [] []" using c(2) same_links_rep [of s3 "deactivate s3"] by simp
  then have s': "sched_rep s' [] []" "\<not> sc_running s'" "\<not> sc_dispatching s'"
    using l by (auto simp: s'_def) (simp_all add: deactivate_def)
  moreover have "fst (sched_start stopped s')"
    using s'(1,2) by (simp add: sched_start_def sched_rep_def ready_rep_def root_rep_def Let_def)
  moreover have "sched_shutdown (logged resume) (logged_destroy destroy) True budget s (w, [])
      = Some (length (resumptions xs), s', fst x3, snd x3)"
    using l(1) c(1) s1(3) assms(3,4) by (simp add: sched_shutdown_def s1_def [symmetric] Let_def sched_on_owner_def s'_def x3_def)
  moreover have "\<forall>t \<in> set roots. Destroyed t \<in> set (snd x3)" "resumptions (snd x3) = resumptions xs"
    using l(3,6) unfolding x3 by (cases "sc_running s2"; auto)+
  ultimately show ?thesis using l(2) by metis
qed

section \<open>Waking tasks\<close>

text \<open>
  The contract that completions rely on: waking a suspended task puts it at the end of the queue,
  once, and disturbs no other task that can be woken.
\<close>

locale waker =
  fixes rep :: "'s \<Rightarrow> 't list \<Rightarrow> bool" and wake :: "'t \<Rightarrow> 's \<Rightarrow> bool \<times> 's" and sleeping :: "'s \<Rightarrow> 't \<Rightarrow> bool"
  assumes wake_sleeping: "rep s q \<Longrightarrow> sleeping s t \<Longrightarrow> \<exists>s'. wake t s = (True, s') \<and> rep s' (q @ [t])"
    and wake_other: "rep s q \<Longrightarrow> wake t s = (b, s') \<Longrightarrow> u \<noteq> t \<Longrightarrow> sleeping s' u \<longleftrightarrow> sleeping s u"
    and wake_awake: "rep s q \<Longrightarrow> \<not> sleeping s t \<Longrightarrow> wake t s = (False, s)"
    and awake: "rep s q \<Longrightarrow> t \<in> set q \<Longrightarrow> \<not> sleeping s t"
begin

lemma wake_twice:
  assumes "rep s q" and "wake t s = (True, s')"
  shows "rep s' (q @ [t]) \<and> wake t s' = (False, s')"
proof -
  have "sleeping s t" using assms wake_awake by fastforce
  with assms wake_sleeping have r: "rep s' (q @ [t])" by fastforce
  then have "\<not> sleeping s' t" by (rule awake) simp
  with r wake_awake show ?thesis by blast
qed

lemma wake_in_order:
  assumes "rep s q" and "distinct ts" and "\<forall>t \<in> set ts. sleeping s t"
  shows "\<exists>s'. fold (\<lambda>t (n, s). case wake t s of (ok, s') \<Rightarrow> (n + (if ok then 1 else 0), s')) ts (k, s) = (k + length ts, s')
     \<and> rep s' (q @ ts)"
  using assms
proof (induction ts arbitrary: s q k)
  case Nil
  then show ?case by simp
next
  case (Cons t ts)
  obtain s1 where s1: "wake t s = (True, s1)" "rep s1 (q @ [t])" using wake_sleeping Cons.prems by force
  have "sleeping s1 u" if "u \<in> set ts" for u
    using wake_other [OF Cons.prems(1) s1(1), of u] Cons.prems that by auto
  with Cons.IH [OF s1(2), of "Suc k"] Cons.prems(2) s1(1) show ?case by simp
qed

end

definition wakeable :: "scheduler \<Rightarrow> nat \<Rightarrow> bool" where
  "wakeable s t \<longleftrightarrow> sc_running s \<and> tp_scheduler (sc_tasks s t) = Some (sc_self s) \<and> tp_handle (sc_tasks s t)
     \<and> \<not> tp_done (sc_tasks s t) \<and> \<not> tp_queued (sc_tasks s t)"

definition wake_task :: "nat \<Rightarrow> scheduler \<Rightarrow> bool \<times> scheduler" where
  "wake_task t s = (case schedule True t s of (r, s') \<Rightarrow> (r = Scheduled, s'))"

lemma wakeable_schedule:
  assumes "\<exists>roots. sched_rep s q roots"
  shows "fst (schedule True t s) = Scheduled \<longleftrightarrow> wakeable s t"
proof -
  from assms obtain roots where r: "sched_rep s q roots" by blast
  then have "tp_queued (sc_tasks s t) \<longleftrightarrow> t \<in> set q" by (simp add: sched_rep_def ready_rep_def)
  with schedule_result [OF r, of True t] show ?thesis by (auto simp: wakeable_def)
qed

lemma wakeable_enqueue: "u \<noteq> t \<Longrightarrow> wakeable (enqueue_task t s) u = wakeable s u"
  by (auto simp: wakeable_def enqueue_task_frame) (auto simp: enqueue_task_def Let_def sc_tasks_set_task split: option.splits if_splits)

interpretation sched: waker "\<lambda>s q. \<exists>roots. sched_rep s q roots" wake_task wakeable
proof
  fix s q t
  assume r: "\<exists>roots. sched_rep s q roots"
  { assume "wakeable s t"
    then have "schedule True t s = (Scheduled, snd (schedule True t s))"
      using wakeable_schedule [OF r] by (metis prod.collapse)
    with r schedule_correct show "\<exists>s'. wake_task t s = (True, s') \<and> (\<exists>roots. sched_rep s' (q @ [t]) roots)"
      unfolding wake_task_def by (metis (mono_tags, lifting) case_prod_conv) }
  { fix b s' u
    assume "wake_task t s = (b, s')" and "u \<noteq> t"
    then have "s' = snd (schedule True t s)" by (auto simp: wake_task_def split: prod.splits)
    then have "s' = enqueue_task t s \<or> s' = s" using schedule_enqueue schedule_failed by metis
    then show "wakeable s' u = wakeable s u" using wakeable_enqueue \<open>u \<noteq> t\<close> by auto }
  { assume "\<not> wakeable s t"
    then have "fst (schedule True t s) \<noteq> Scheduled" using wakeable_schedule [OF r] by blast
    with schedule_failed [OF this] show "wake_task t s = (False, s)" by (auto simp: wake_task_def split: prod.splits) }
  { assume "t \<in> set q"
    with r show "\<not> wakeable s t" by (auto simp: wakeable_def sched_rep_def ready_rep_def) }
qed

text \<open>
  Waking distinct suspended tasks makes each of them ready exactly once, in the order of the
  wake-ups and behind the tasks that were ready before; waking a task that is already ready reports a
  failure and changes nothing.
\<close>

theorem wake_tasks_once:
  assumes "sched_rep s ready roots" and "distinct ts" and "\<forall>t \<in> set ts. wakeable s t"
  shows "\<exists>s' roots'. fold (\<lambda>t (n, s). case wake_task t s of (ok, s') \<Rightarrow> (n + (if ok then 1 else 0), s')) ts (0, s) = (length ts, s')
    \<and> sched_rep s' (ready @ ts) roots' \<and> (\<forall>t \<in> set ts. wake_task t s' = (False, s'))"
proof -
  from sched.wake_in_order [OF _ assms(2,3), of ready 0] assms(1) obtain s' where
    s': "fold (\<lambda>t (n, s). case wake_task t s of (ok, s') \<Rightarrow> (n + (if ok then 1 else 0), s')) ts (0, s) = (length ts, s')"
      "\<exists>roots'. sched_rep s' (ready @ ts) roots'" by auto
  have "wake_task t s' = (False, s')" if "t \<in> set ts" for t
    by (rule sched.wake_awake [OF s'(2)]) (use sched.awake [OF s'(2)] that in auto)
  with s' show ?thesis by blast
qed

section \<open>Awaiting a child task\<close>

definition set_continuation :: "nat \<Rightarrow> nat option \<Rightarrow> scheduler \<Rightarrow> scheduler" where
  "set_continuation t c = set_task t (\<lambda>p. p\<lparr>tp_continuation := c\<rparr>)"

text \<open>\<open>Task::Awaiter::await_suspend\<close>: whether the parent suspends, and the error of the awaiter.\<close>

definition task_await_suspend ::
  "bool \<Rightarrow> nat \<Rightarrow> nat option \<Rightarrow> scheduler \<Rightarrow> bool \<times> string option \<times> scheduler" where
  "task_await_suspend on_thread parent child s =
     (case child of
        None \<Rightarrow> (False, Some ''cannot await an empty task'', s)
      | Some c \<Rightarrow>
          if tp_scheduler (sc_tasks s parent) = None then (False, Some ''parent task is not bound to a scheduler'', s)
          else let s1 = observe_external_stop s in
            case bind_task c (tp_token (sc_tasks s1 parent)) s1 of (bound, s2) \<Rightarrow>
              if \<not> bound then (False, Some ''child task belongs to another scheduler'', s2)
              else case schedule on_thread c (set_continuation c (Some parent) s2) of (result, s3) \<Rightarrow>
                if result \<noteq> Scheduled
                then (False, Some ''child task could not be scheduled'', set_continuation c None s3)
                else (True, None, s3))"

text \<open>\<open>Task::Awaiter::await_resume\<close>: the logic error it throws, or the exception of the child to rethrow.\<close>

datatype await_failure = LogicError string | ChildException string

definition task_await_resume :: "string option \<Rightarrow> nat option \<Rightarrow> scheduler \<Rightarrow> await_failure + unit" where
  "task_await_resume error child s =
     (case error of
        Some e \<Rightarrow> Inl (LogicError e)
      | None \<Rightarrow>
          (case child of
             None \<Rightarrow> Inl (LogicError ''cannot resume an empty task'')
           | Some c \<Rightarrow>
               if \<not> tp_done (sc_tasks s c) then Inl (LogicError ''child task resumed before completion'')
               else case tp_exception (sc_tasks s c) of
                 Some e \<Rightarrow> Inl (ChildException e)
               | None \<Rightarrow> Inr ()))"

definition yield_await_suspend :: "bool \<Rightarrow> nat \<Rightarrow> scheduler \<Rightarrow> bool \<times> schedule_result \<times> scheduler" where
  "yield_await_suspend on_thread t s =
     (if tp_scheduler (sc_tasks s t) = None then (False, NotRunning, s)
      else case schedule on_thread t s of (r, s') \<Rightarrow> (r = Scheduled, r, s'))"

text \<open>
  \<open>TaskPromiseBase::stop_token\<close> and the awaiters of \<open>this_coro\<close>.  A token is represented by whether it
  belongs to the scheduler's stop source; an empty token is never stopped.
\<close>

definition task_stop_token :: "nat \<Rightarrow> scheduler \<Rightarrow> bool \<times> scheduler" where
  "task_stop_token t s =
     (let s1 = (if tp_scheduler (sc_tasks s t) \<noteq> None then observe_external_stop s else s)
      in (tp_token (sc_tasks s1 t), s1))"

definition token_stop_requested :: "bool \<Rightarrow> scheduler \<Rightarrow> bool" where
  "token_stop_requested token s \<longleftrightarrow> token \<and> sc_stop_source s"

datatype coro_failure = CoroLogicError string | OperationCancelled

definition stop_token_await :: "nat \<Rightarrow> scheduler \<Rightarrow> (coro_failure + bool) \<times> scheduler" where
  "stop_token_await t s =
     (let bound = (tp_scheduler (sc_tasks s t) \<noteq> None); (token, s1) = task_stop_token t s
      in (if \<not> bound then Inl (CoroLogicError ''coroutine is not bound to a scheduler'') else Inr token, s1))"

definition yield_await_resume :: "schedule_result \<Rightarrow> coro_failure + unit" where
  "yield_await_resume r =
     (if r \<noteq> Scheduled then Inl (CoroLogicError ''coroutine could not yield to its scheduler'') else Inr ())"

definition cancellation_point :: "nat \<Rightarrow> scheduler \<Rightarrow> (coro_failure + unit) \<times> scheduler" where
  "cancellation_point t s =
     (let bound = (tp_scheduler (sc_tasks s t) \<noteq> None); (token, s1) = task_stop_token t s
      in (if \<not> bound then Inl (CoroLogicError ''coroutine is not bound to a scheduler'')
          else if token_stop_requested token s1 then Inl OperationCancelled else Inr (), s1))"

text \<open>A frame runs to its end: the promise is done and \<open>FinalAwaiter\<close> schedules the continuation.\<close>

definition complete_task :: "nat \<Rightarrow> string option \<Rightarrow> scheduler \<Rightarrow> scheduler" where
  "complete_task t e s = schedule_continuation t (set_task t (\<lambda>p. p\<lparr>tp_done := True, tp_exception := e\<rparr>) s)"

lemma schedule_Scheduled:
  assumes "schedule on_thread t s = (Scheduled, s')"
  shows "s' = enqueue_task t s"
  using schedule_enqueue [of on_thread t s] assms by simp

lemma set_continuation_rep:
  assumes "sched_rep s ready roots"
  shows "sched_rep (set_continuation u c s) ready roots"
proof -
  have "\<forall>x \<in> set ready \<union> set roots. tp_handle (sc_tasks s x)" "\<forall>x \<in> set ready. \<not> tp_done (sc_tasks s x)"
    using assms by (auto simp: sched_rep_def live_def)
  with assms show ?thesis unfolding set_continuation_def by (auto intro!: set_task_rep)
qed

lemma task_await_suspend_cases:
  assumes s: "sched_rep s ready roots"
    and a: "task_await_suspend True parent (Some c) s = (suspended, error, s')"
  shows "(suspended \<longleftrightarrow> error = None)
    \<and> (suspended \<longrightarrow> sched_rep s' (ready @ [c]) roots \<and> tp_continuation (sc_tasks s' c) = Some parent)
    \<and> (\<not> suspended \<longrightarrow> sched_rep s' ready roots)"
proof (cases "tp_scheduler (sc_tasks s parent) = None")
  case True
  with a s show ?thesis by (auto simp: task_await_suspend_def)
next
  case False
  define s1 where "s1 = observe_external_stop s"
  obtain bound s2 where b: "bind_task c (tp_token (sc_tasks s1 parent)) s1 = (bound, s2)" by fastforce
  have s2: "sched_rep s2 ready roots"
    using bind_task_rep [of s1 ready roots c] observe_rep(1) [OF s] b by (metis s1_def snd_conv)
  define s3 where "s3 = set_continuation c (Some parent) s2"
  have s3: "sched_rep s3 ready roots" unfolding s3_def by (rule set_continuation_rep [OF s2])
  obtain r s4 where r: "schedule True c s3 = (r, s4)" by fastforce
  show ?thesis
  proof (cases "bound \<and> r = Scheduled")
    case True
    then have "sched_rep s4 (ready @ [c]) roots" "s4 = enqueue_task c s3"
      using schedule_correct [OF s3, of True c s4] schedule_Scheduled [of True c s3 s4] r by simp_all
    moreover have "tp_continuation (sc_tasks s3 c) = Some parent"
      by (simp add: s3_def set_continuation_def sc_tasks_set_task)
    ultimately have "sched_rep s4 (ready @ [c]) roots" "tp_continuation (sc_tasks s4 c) = Some parent"
      by (simp_all add: enqueue_task_frame)
    moreover have "(suspended, error, s') = (True, None, s4)"
      using a False b r True by (simp add: task_await_suspend_def s1_def s3_def)
    ultimately show ?thesis by simp
  next
    case nb: False
    have "r \<noteq> Scheduled \<Longrightarrow> s4 = s3" using schedule_failed [of True c s3] r by simp
    then have "r \<noteq> Scheduled \<Longrightarrow> sched_rep (set_continuation c None s4) ready roots"
      using set_continuation_rep [OF s3] by simp
    with a False b r nb s2 show ?thesis
      by (auto simp: task_await_suspend_def s1_def s3_def split: if_splits)
  qed
qed

lemma complete_task_wakes:
  assumes s: "sched_rep s ready roots" and c: "c \<notin> set ready" "c \<noteq> parent" and p: "wakeable s parent"
    and k: "tp_continuation (sc_tasks s c) = Some parent" "tp_scheduler (sc_tasks s c) \<noteq> None"
  shows "sched_rep (complete_task c e s) (ready @ [parent]) roots"
    and "tp_done (sc_tasks (complete_task c e s) c)" and "tp_exception (sc_tasks (complete_task c e s) c) = e"
proof -
  define s1 where "s1 = set_task c (\<lambda>p. p\<lparr>tp_done := True, tp_exception := e\<rparr>) s"
  have h: "\<forall>x \<in> set roots. tp_handle (sc_tasks s x)" using s by (auto simp: sched_rep_def live_def)
  have s1: "sched_rep s1 ready roots" unfolding s1_def
    by (rule set_task_rep [OF s]) (use c h in auto)
  have "wakeable s1 parent" using p c by (simp add: wakeable_def s1_def sc_tasks_set_task)
  with wakeable_schedule [of s1 ready parent] s1 have f: "fst (schedule True parent s1) = Scheduled" by blast
  then have q: "schedule True parent s1 = (Scheduled, enqueue_task parent s1)"
    using schedule_enqueue [OF f] by (metis prod.collapse)
  have e: "complete_task c e s = enqueue_task parent s1"
    using k q by (simp add: complete_task_def schedule_continuation_def s1_def [symmetric])
      (auto simp: s1_def sc_tasks_set_task)
  show "sched_rep (complete_task c e s) (ready @ [parent]) roots" using schedule_correct [OF s1 q] e by simp
  show "tp_done (sc_tasks (complete_task c e s) c)" "tp_exception (sc_tasks (complete_task c e s) c) = e"
    unfolding e by (auto simp: enqueue_task_def Let_def s1_def sc_tasks_set_task split: option.splits)
qed

text \<open>
  Awaiting a child suspends the parent exactly when the child could be scheduled, and then the child
  is the last of the ready list and knows its parent.  When such a child completes, with or without
  an exception, the parent becomes ready exactly once and resumes with the child's outcome.  If the
  await fails the parent does not suspend and its resumption throws.
\<close>

theorem task_await_roundtrip:
  assumes s: "sched_rep s ready roots" and c: "c \<noteq> parent"
    and a: "task_await_suspend True parent (Some c) s = (suspended, error, s')"
  shows "(suspended \<longleftrightarrow> error = None)
    \<and> (suspended \<longrightarrow> sched_rep s' (ready @ [c]) roots \<and> tp_continuation (sc_tasks s' c) = Some parent)
    \<and> (\<not> suspended \<longrightarrow> sched_rep s' ready roots \<and> (\<exists>e. task_await_resume error (Some c) s' = Inl (LogicError e)))
    \<and> (\<forall>s1 ready1 roots1 e. sched_rep s1 ready1 roots1 \<longrightarrow> c \<notin> set ready1 \<longrightarrow> wakeable s1 parent
         \<longrightarrow> tp_continuation (sc_tasks s1 c) = Some parent \<longrightarrow> tp_scheduler (sc_tasks s1 c) \<noteq> None
         \<longrightarrow> sched_rep (complete_task c e s1) (ready1 @ [parent]) roots1
             \<and> task_await_resume None (Some c) (complete_task c e s1) = (case e of None \<Rightarrow> Inr () | Some x \<Rightarrow> Inl (ChildException x)))"
  using task_await_suspend_cases [OF s a] complete_task_wakes [OF _ _ c]
  by (auto simp: task_await_resume_def split: option.splits)

section \<open>Witnesses\<close>

definition new_scheduler :: scheduler where
  "new_scheduler = \<lparr>sc_self = 0, sc_tasks = (\<lambda>_. fresh_promise), sc_ready_head = None, sc_ready_tail = None,
     sc_root_head = None, sc_ready_count = 0, sc_active_count = 0, sc_unhandled_root_exceptions = 0,
     sc_invariant_failures = 0, sc_last_unhandled_exception = None, sc_stop_source = False, sc_stop_token = False,
     sc_external_stop_pending = False, sc_running = False, sc_accepting = False, sc_dispatching = False,
     sc_cancel_pending = False, sc_shutdown_pending = False\<rparr>"

definition started_scheduler :: scheduler where
  "started_scheduler = snd (sched_start False new_scheduler)"

lemma started_scheduler_rep: "sched_rep started_scheduler [] []" "sc_running started_scheduler" "\<not> sc_dispatching started_scheduler"
  by (simp_all add: started_scheduler_def sched_start_def new_scheduler_def observe_external_stop_def stop_requested_def Let_def
      fresh_promise_def sched_rep_def ready_rep_def root_rep_def live_def)

definition one_task :: scheduler where
  "one_task = snd (spawn True (Some 7) started_scheduler)"

lemma one_task_spawned: "fst (spawn True (Some 7) started_scheduler) = Spawned"
  by (simp add: spawn_def started_scheduler_def sched_start_def new_scheduler_def observe_external_stop_def stop_requested_def
      sched_on_owner_def bind_task_def set_task_def fresh_promise_def link_root_def schedule_def Let_def)

lemma one_task_rep: "sched_rep one_task [7] [7]" "sc_running one_task" "\<not> sc_dispatching one_task"
proof -
  have "spawn True (Some 7) started_scheduler = (Spawned, one_task)"
    using one_task_spawned by (metis one_task_def prod.collapse)
  from spawn_correct [OF started_scheduler_rep(1) this] show "sched_rep one_task [7] [7]" by simp
  show "sc_running one_task" "\<not> sc_dispatching one_task"
    unfolding one_task_def by (simp_all add: spawn_control started_scheduler_rep)
qed

definition completing_body :: "nat \<Rightarrow> scheduler \<Rightarrow> unit \<Rightarrow> scheduler \<times> unit" where
  "completing_body t s w = (if tp_queued (sc_tasks s t) then s else complete_task t None s, w)"

lemma completing_body: "coroutine_bodies completing_body"
  unfolding coroutine_bodies_def completing_body_def complete_task_def
  by (auto intro: bs_complete)

lemma run_ready_fifo_witness:
  "\<exists>result s' w' log. run_ready (logged completing_body) (logged_destroy (\<lambda>_ w. w)) True 3 one_task ((), []) = Some (result, s', w', log)
     \<and> (resumptions log \<noteq> [] \<and> hd (resumptions log) = 7)"
proof -
  from run_ready_fifo [OF completing_body one_task_rep, of "\<lambda>_ w. w" 3 "()"] obtain result s' w' log where
    r: "run_ready (logged completing_body) (logged_destroy (\<lambda>_ w. w)) True 3 one_task ((), []) = Some (result, s', w', log)"
      "run_post 3 [7] [7] log s'" by blast
  then have "resumptions log \<noteq> [] \<and> hd (resumptions log) = 7" by (auto simp: run_post_def prefix_Cons elim!: prefixE)
  with r(1) show ?thesis by blast
qed

lemma sched_shutdown_complete_witness:
  "\<exists>n s' w' log. sched_shutdown (logged completing_body) (logged_destroy (\<lambda>_ w. w)) True 4 one_task ((), []) = Some (n, s', w', log)
    \<and> n \<le> 4 \<and> Destroyed 7 \<in> set log \<and> fst (sched_start False s')"
  using sched_shutdown_complete [OF completing_body one_task_rep, of "\<lambda>_ w. w" 4 "()" False] by fastforce

definition two_bound :: scheduler where
  "two_bound = set_task 3 (\<lambda>p. p\<lparr>tp_scheduler := Some 0\<rparr>) (set_task 4 (\<lambda>p. p\<lparr>tp_scheduler := Some 0\<rparr>) started_scheduler)"

lemma two_bound_rep: "sched_rep two_bound [] []" "wakeable two_bound 3" "wakeable two_bound 4"
proof -
  show "sched_rep two_bound [] []" unfolding two_bound_def
    by (intro set_task_rep started_scheduler_rep) simp_all
  show "wakeable two_bound 3" "wakeable two_bound 4"
    by (simp_all add: wakeable_def two_bound_def sc_tasks_set_task started_scheduler_def sched_start_def new_scheduler_def
        observe_external_stop_def stop_requested_def Let_def fresh_promise_def)
qed

lemma wake_tasks_once_witness:
  "\<exists>s' roots'. sched_rep s' [4, 3] roots' \<and> wake_task 3 s' = (False, s')"
  using wake_tasks_once [OF two_bound_rep(1), of "[4, 3]"] two_bound_rep by auto

lemma task_await_roundtrip_witness:
  "fst (task_await_suspend True 3 (Some 4) two_bound)
   \<and> sched_rep (snd (snd (task_await_suspend True 3 (Some 4) two_bound))) [4] []"
proof -
  obtain suspended error s' where e: "task_await_suspend True 3 (Some 4) two_bound = (suspended, error, s')"
    by (metis prod_cases3)
  have "error = None"
    using e by (auto simp: task_await_suspend_def two_bound_def sc_tasks_set_task started_scheduler_def sched_start_def
        new_scheduler_def observe_external_stop_def stop_requested_def Let_def fresh_promise_def bind_task_def
        schedule_def sched_on_owner_def set_continuation_def split: if_splits)
  with task_await_roundtrip [OF two_bound_rep(1) _ e] e show ?thesis by simp
qed

end
