(* ===== verification/UpstreamChannel.thy ===== *)
theory UpstreamChannel
  imports TransactionIds TimerQueue Scheduler DnsResponse
begin

text \<open>
The upstream channel of \<open>src/upstream/UpstreamChannel.cpp\<close>: queries that wait for an answer on a UDP
socket, each under a transaction ID of the pool of \<open>TransactionIds\<close>, with a deadline in the timer queue
and a suspended task of the scheduler.

The objects that a call touches (the channel, the awaiters, the timer queue, the scheduler) are the record
\<open>upstream_runtime\<close>; every method takes it and returns it updated.  Clock readings, random numbers and the
answers of the socket are arguments: \<open>now\<close> and \<open>later\<close> are readings of the clock, \<open>rnd\<close> the random
generator, \<open>send\<close> the answer of \<open>send\<close> to the bytes of a query, and the input of \<open>drain\<close> the list of the
answers of \<open>recvmsg\<close>.  Calls interrupted by a signal are repeated by the code; the answer of \<open>send\<close> is the
one that ends the repetition.  \<open>bad_alloc\<close> and the errors of the random device are not modelled.

The invariant \<open>up_inv\<close> ties a slot to its awaiter, its armed deadline and its sleeping task.  Every
operation keeps it, each pending query ends exactly once, and the task that waited for it is woken once.
\<close>

section \<open>Queries and the runtime they share\<close>

datatype query_outcome = QO_Response | QO_Timeout | QO_SendError | QO_SocketError | QO_Overloaded
  | QO_InvalidQuery | QO_Cancelled

record query_result =
  qr_outcome :: query_outcome
  qr_response :: "byte list"
  qr_error_number :: int

datatype packet_result = PR_Completed | PR_Invalid | PR_Unmatched | PR_InvariantFailure

record drain_result =
  dr_datagrams :: nat
  dr_has_more :: bool
  dr_socket_error :: bool

datatype query_state = QS_Idle | QS_Pending | QS_Completed | QS_Failed

record query_awaiter =
  qa_owned :: bool
  qa_task :: "nat option"
  qa_header :: header
  qa_question :: question
  qa_deadline :: int
  qa_result :: query_result
  qa_error :: "string option"
  qa_transaction_id :: u16
  qa_state :: query_state

datatype begin_result = BR_Suspended | BR_Closed | BR_WrongThread | BR_WrongScheduler | BR_Overloaded
  | BR_InvalidQuery | BR_TimerFailure | BR_SendError

text \<open>The objects that a query touches: its channel, the awaiters, the timer queue and the scheduler.\<close>

record upstream_runtime =
  ur_channel :: upstream_channel
  ur_queries :: "nat \<Rightarrow> query_awaiter"
  ur_timers :: "nat timer_queue"
  ur_sched :: scheduler

definition set_query :: "nat \<Rightarrow> (query_awaiter \<Rightarrow> query_awaiter) \<Rightarrow> upstream_runtime \<Rightarrow> upstream_runtime" where
  "set_query q f w = w\<lparr>ur_queries := (ur_queries w)(q := f (ur_queries w q))\<rparr>"

definition on_channel :: "(upstream_channel \<Rightarrow> upstream_channel) \<Rightarrow> upstream_runtime \<Rightarrow> upstream_runtime" where
  "on_channel f w = w\<lparr>ur_channel := f (ur_channel w)\<rparr>"

definition on_stats :: "(channel_stats \<Rightarrow> channel_stats) \<Rightarrow> upstream_channel \<Rightarrow> upstream_channel" where
  "on_stats f c = c\<lparr>ch_stats := f (ch_stats c)\<rparr>"

definition empty_result :: query_result where
  "empty_result = \<lparr>qr_outcome = QO_InvalidQuery, qr_response = [], qr_error_number = 0\<rparr>"

definition new_query :: "header \<Rightarrow> question \<Rightarrow> int \<Rightarrow> query_awaiter" where
  "new_query h question deadline = \<lparr>qa_owned = True, qa_task = None, qa_header = h, qa_question = question,
     qa_deadline = deadline, qa_result = empty_result, qa_error = None, qa_transaction_id = 0, qa_state = QS_Idle\<rparr>"

definition query_deadline :: "channel_config \<Rightarrow> int \<Rightarrow> int" where
  "query_deadline cfg now =
     (if now \<le> 0 \<or> query_timeout cfg \<le> duration_max - now then now + query_timeout cfg else duration_max)"

definition channel_on_owner :: "bool \<Rightarrow> upstream_channel \<Rightarrow> bool" where
  "channel_on_owner on_thread c \<longleftrightarrow> ch_running c \<and> on_thread"

definition timers_bound_to :: "nat timer_queue \<Rightarrow> nat \<Rightarrow> bool" where
  "timers_bound_to tq s \<longleftrightarrow> tq_running tq \<and> tq_scheduler tq = Some s"

section \<open>Starting a query\<close>

text \<open>The slot of an ID is emptied and the query is no longer pending.\<close>

definition clear_slot :: "u16 \<Rightarrow> upstream_channel \<Rightarrow> upstream_channel" where
  "clear_slot ident c = c\<lparr>ch_slots := (ch_slots c)(ident := None), ch_pending_count := ch_pending_count c - 1\<rparr>"

definition rollback_begin :: "(nat \<Rightarrow> nat) \<Rightarrow> bool \<Rightarrow> int \<Rightarrow> nat \<Rightarrow> upstream_runtime \<Rightarrow> upstream_runtime" where
  "rollback_begin rnd on_thread now q w =
     (let w1 = (if tr_owned (regs (ur_timers w) q) \<and> ch_timers (ur_channel w)
                then w\<lparr>ur_timers := snd (timer_disarm on_thread q (ur_timers w))\<rparr> else w);
          ident = qa_transaction_id (ur_queries w1 q);
          w2 = (if unat ident < capacity (ur_channel w1) \<and> ch_slots (ur_channel w1) ident = Some q
                then on_channel (\<lambda>c. release_id rnd ident now False (clear_slot ident c)) w1 else w1)
      in set_query q (\<lambda>a. a\<lparr>qa_owned := False, qa_task := None, qa_state := QS_Idle\<rparr>) w2)"

text \<open>
  \<open>send\<close> is the answer of the socket to the bytes of the query once it is not \<open>EINTR\<close>: the number
  of bytes sent, or the error.
\<close>

datatype send_outcome = SentBytes nat | SendErrno int

definition errno_EIO :: int where "errno_EIO = 5"

definition register_query :: "nat \<Rightarrow> nat \<Rightarrow> u16 \<Rightarrow> upstream_runtime \<Rightarrow> upstream_runtime" where
  "register_query q task ident w =
     on_channel (\<lambda>c. c\<lparr>ch_slots := (ch_slots c)(ident := Some q), ch_pending_count := ch_pending_count c + 1\<rparr>)
       (set_query q (\<lambda>a. a\<lparr>qa_owned := True, qa_task := Some task, qa_transaction_id := ident, qa_state := QS_Pending\<rparr>) w)"

definition send_failed ::
  "(nat \<Rightarrow> nat) \<Rightarrow> bool \<Rightarrow> int \<Rightarrow> int \<Rightarrow> nat \<Rightarrow> upstream_runtime \<Rightarrow> begin_result \<times> upstream_runtime" where
  "send_failed rnd on_thread later error_number q w =
     (BR_SendError,
      on_channel (on_stats (\<lambda>s. s\<lparr>st_send_errors := st_send_errors s + 1\<rparr>))
        (set_query q (\<lambda>a. a\<lparr>qa_result := (qa_result a)\<lparr>qr_error_number := error_number\<rparr>\<rparr>)
          (rollback_begin rnd on_thread later q w)))"

text \<open>The end of \<open>begin\<close>: the deadline is armed and the query is sent.\<close>

definition arm_and_send ::
  "(nat \<Rightarrow> nat) \<Rightarrow> bool \<Rightarrow> int \<Rightarrow> (byte list \<Rightarrow> send_outcome) \<Rightarrow> byte list \<Rightarrow> nat \<Rightarrow> upstream_runtime
     \<Rightarrow> begin_result \<times> upstream_runtime" where
  "arm_and_send rnd on_thread later send wire q w =
     (case timer_arm on_thread q (qa_deadline (ur_queries w q)) (Some q) (ur_timers w) of (result, timers) \<Rightarrow>
        let w1 = w\<lparr>ur_timers := timers\<rparr> in
        if result \<noteq> Armed
        then (if result = ArmClosed then BR_Closed else BR_TimerFailure, rollback_begin rnd on_thread later q w1)
        else case send wire of
          SendErrno e \<Rightarrow> send_failed rnd on_thread later e q w1
        | SentBytes n \<Rightarrow>
            if n \<noteq> length wire then send_failed rnd on_thread later errno_EIO q w1
            else (BR_Suspended, on_channel (on_stats (\<lambda>s. s\<lparr>st_queries_sent := st_queries_sent s + 1\<rparr>)) w1))"

definition channel_begin ::
  "(nat \<Rightarrow> nat) \<Rightarrow> bool \<Rightarrow> nat \<Rightarrow> int \<Rightarrow> int \<Rightarrow> (byte list \<Rightarrow> send_outcome) \<Rightarrow> nat \<Rightarrow> upstream_runtime
     \<Rightarrow> begin_result \<times> upstream_runtime" where
  "channel_begin rnd on_thread task now later send q w =
     (let c = ur_channel w in
      if \<not> ch_running c \<or> \<not> ch_accepting c then (BR_Closed, w)
      else if \<not> channel_on_owner on_thread c then (BR_WrongThread, w)
      else if tp_scheduler (sc_tasks (ur_sched w) task) \<noteq> ch_scheduler c \<or> \<not> ch_timers c
              \<or> \<not> timers_bound_to (ur_timers w) (the (ch_scheduler c)) then (BR_WrongScheduler, w)
      else case allocate_id rnd now c of
        (None, c1) \<Rightarrow>
          (BR_Overloaded, w\<lparr>ur_channel := on_stats (\<lambda>s. s\<lparr>st_overloaded := st_overloaded s + 1\<rparr>) c1\<rparr>)
      | (Some ident, c1) \<Rightarrow>
          let w1 = w\<lparr>ur_channel := c1\<rparr>; a = ur_queries w1 q in
          (case serialize_query ((qa_header a)\<lparr>hdr_id := ident\<rparr>) [qa_question a] kUpstreamQueryBudget of
             Inl e \<Rightarrow> (BR_InvalidQuery, on_channel (release_id rnd ident now False) w1)
           | Inr wire \<Rightarrow> arm_and_send rnd on_thread later send wire q (register_query q task ident w1)))"

definition settle_query :: "query_outcome \<Rightarrow> query_awaiter \<Rightarrow> query_awaiter" where
  "settle_query outcome a = a\<lparr>qa_owned := False, qa_state := QS_Completed, qa_result := (qa_result a)\<lparr>qr_outcome := outcome\<rparr>\<rparr>"

definition fail_query :: "string \<Rightarrow> query_awaiter \<Rightarrow> query_awaiter" where
  "fail_query e a = a\<lparr>qa_owned := False, qa_state := QS_Failed, qa_error := Some e\<rparr>"

definition query_begin ::
  "(nat \<Rightarrow> nat) \<Rightarrow> bool \<Rightarrow> nat \<Rightarrow> int \<Rightarrow> int \<Rightarrow> (byte list \<Rightarrow> send_outcome) \<Rightarrow> nat \<Rightarrow> upstream_runtime
     \<Rightarrow> bool \<times> upstream_runtime" where
  "query_begin rnd on_thread task now later send q w =
     (if \<not> qa_owned (ur_queries w q) \<or> qa_state (ur_queries w q) \<noteq> QS_Idle
      then (False, set_query q (\<lambda>a. a\<lparr>qa_state := QS_Failed, qa_error := Some ''upstream query awaiter cannot be reused''\<rparr>) w)
      else case channel_begin rnd on_thread task now later send q w of (r, w1) \<Rightarrow>
        (case r of
           BR_Suspended \<Rightarrow> (True, w1)
         | BR_Closed \<Rightarrow> (False, set_query q (settle_query QO_Cancelled) w1)
         | BR_Overloaded \<Rightarrow> (False, set_query q (settle_query QO_Overloaded) w1)
         | BR_InvalidQuery \<Rightarrow> (False, set_query q (settle_query QO_InvalidQuery) w1)
         | BR_SendError \<Rightarrow> (False, set_query q (settle_query QO_SendError) w1)
         | BR_WrongThread \<Rightarrow> (False, set_query q (fail_query ''upstream channel used from a non-owner thread'') w1)
         | BR_WrongScheduler \<Rightarrow> (False, set_query q (fail_query ''upstream channel belongs to another scheduler'') w1)
         | BR_TimerFailure \<Rightarrow> (False, set_query q (fail_query ''upstream deadline could not be armed'') w1)))"

text \<open>\<open>QueryAwaiter::await_suspend\<close>.  Reading the task's stop token observes an external stop.\<close>

definition query_await_suspend ::
  "(nat \<Rightarrow> nat) \<Rightarrow> bool \<Rightarrow> nat \<Rightarrow> int \<Rightarrow> int \<Rightarrow> (byte list \<Rightarrow> send_outcome) \<Rightarrow> nat \<Rightarrow> upstream_runtime
     \<Rightarrow> bool \<times> upstream_runtime" where
  "query_await_suspend rnd on_thread task now later send q w =
     (if tp_scheduler (sc_tasks (ur_sched w) task) = None
      then (False, set_query q (fail_query ''upstream query is not bound to a scheduler'') w)
      else let w1 = w\<lparr>ur_sched := observe_external_stop (ur_sched w)\<rparr> in
        if tp_token (sc_tasks (ur_sched w1) task) \<and> sc_stop_source (ur_sched w1)
        then (False, set_query q (settle_query QO_Cancelled) w1)
        else query_begin rnd on_thread task now later send q w1)"

datatype query_failure = QF_LogicError string | QF_OperationCancelled

definition query_await_resume :: "query_awaiter \<Rightarrow> query_failure + query_result" where
  "query_await_resume a =
     (if qa_state a = QS_Failed
      then Inl (QF_LogicError (case qa_error a of Some e \<Rightarrow> e | None \<Rightarrow> ''upstream query failed''))
      else if qa_state a \<noteq> QS_Completed then Inl (QF_LogicError ''upstream query resumed before completion'')
      else if qr_outcome (qa_result a) = QO_Cancelled then Inl QF_OperationCancelled
      else Inr (qa_result a))"

section \<open>Ending a query\<close>

definition pending_query :: "nat \<Rightarrow> upstream_runtime \<Rightarrow> bool" where
  "pending_query q w \<longleftrightarrow>
     (let a = ur_queries w q; c = ur_channel w in
      qa_owned a \<and> qa_state a = QS_Pending \<and> unat (qa_transaction_id a) < capacity c
      \<and> ch_slots c (qa_transaction_id a) = Some q)"

text \<open>The deadline of a query is disarmed if it is armed; a failure is counted.\<close>

definition disarm_query :: "bool \<Rightarrow> nat \<Rightarrow> upstream_runtime \<Rightarrow> upstream_runtime" where
  "disarm_query on_thread q w =
     (if tr_owned (regs (ur_timers w) q) \<and> ch_timers (ur_channel w)
      then case timer_disarm on_thread q (ur_timers w) of (ok, timers) \<Rightarrow>
        (let w1 = w\<lparr>ur_timers := timers\<rparr> in if ok then w1 else on_channel count_invariant_failure w1)
      else w)"

fun count_outcome :: "query_outcome \<Rightarrow> channel_stats \<Rightarrow> channel_stats" where
  "count_outcome QO_Response s = s\<lparr>st_responses_completed := st_responses_completed s + 1\<rparr>"
| "count_outcome QO_Timeout s = s\<lparr>st_timeouts := st_timeouts s + 1\<rparr>"
| "count_outcome QO_Cancelled s = s\<lparr>st_cancellations := st_cancellations s + 1\<rparr>"
| "count_outcome QO_SocketError s = s\<lparr>st_socket_errors := st_socket_errors s + 1\<rparr>"
| "count_outcome QO_SendError s = s\<lparr>st_send_errors := st_send_errors s + 1\<rparr>"
| "count_outcome QO_Overloaded s = s\<lparr>st_overloaded := st_overloaded s + 1\<rparr>"
| "count_outcome QO_InvalidQuery s = s"

definition wake_query :: "bool \<Rightarrow> nat option \<Rightarrow> upstream_runtime \<Rightarrow> bool \<times> upstream_runtime" where
  "wake_query on_thread task w =
     (case task of
        None \<Rightarrow> (False, on_channel count_invariant_failure w)
      | Some t \<Rightarrow>
          if ch_scheduler (ur_channel w) = None then (False, on_channel count_invariant_failure w)
          else case schedule on_thread t (ur_sched w) of (r, s) \<Rightarrow>
            (let w1 = w\<lparr>ur_sched := s\<rparr> in if r \<noteq> Scheduled then (False, on_channel count_invariant_failure w1) else (True, w1)))"

definition finish ::
  "(nat \<Rightarrow> nat) \<Rightarrow> bool \<Rightarrow> int \<Rightarrow> query_outcome \<Rightarrow> byte list \<Rightarrow> int \<Rightarrow> nat \<Rightarrow> upstream_runtime
     \<Rightarrow> bool \<times> upstream_runtime" where
  "finish rnd on_thread now outcome response error_number q w =
     (if \<not> pending_query q w then (False, w)
      else let ident = qa_transaction_id (ur_queries w q);
               w1 = disarm_query on_thread q (on_channel (clear_slot ident) w);
               w2 = on_channel (release_id rnd ident now True) w1;
               task = qa_task (ur_queries w2 q);
               w3 = set_query q (\<lambda>a. a\<lparr>qa_task := None, qa_state := QS_Completed, qa_owned := False,
                      qa_result := \<lparr>qr_outcome = outcome, qr_response = response, qr_error_number = error_number\<rparr>\<rparr>) w2;
               w4 = on_channel (on_stats (count_outcome outcome)) w3
           in wake_query on_thread task w4)"

definition finish_deadline ::
  "(nat \<Rightarrow> nat) \<Rightarrow> bool \<Rightarrow> int \<Rightarrow> timer_completion \<Rightarrow> nat \<Rightarrow> upstream_runtime \<Rightarrow> bool \<times> upstream_runtime" where
  "finish_deadline rnd on_thread now completion q w =
     finish rnd on_thread now (if completion = TimerExpired then QO_Timeout else QO_Cancelled) [] 0 q w"

definition deadline_complete ::
  "(nat \<Rightarrow> nat) \<Rightarrow> bool \<Rightarrow> int \<Rightarrow> nat \<Rightarrow> timer_completion \<Rightarrow> upstream_runtime \<Rightarrow> bool \<times> upstream_runtime" where
  "deadline_complete rnd on_thread now q completion w =
     (if qa_owned (ur_queries w q) then finish_deadline rnd on_thread now completion q w else (False, w))"

text \<open>\<open>UpstreamChannel::abandon\<close>, the destructor of an awaiter.\<close>

definition abandon :: "(nat \<Rightarrow> nat) \<Rightarrow> bool \<Rightarrow> int \<Rightarrow> nat \<Rightarrow> upstream_runtime \<Rightarrow> upstream_runtime" where
  "abandon rnd on_thread now q w =
     (let a = ur_queries w q; c = ur_channel w; ident = qa_transaction_id a in
      if \<not> qa_owned a \<or> qa_state a \<noteq> QS_Pending then w
      else if unat ident \<ge> capacity c \<or> ch_slots c ident \<noteq> Some q
      then set_query q (\<lambda>a. a\<lparr>qa_owned := False, qa_task := None\<rparr>) (on_channel count_invariant_failure w)
      else let w1 = disarm_query on_thread q (on_channel (clear_slot ident) w);
               w2 = on_channel (release_id rnd ident now True) w1;
               w3 = set_query q (\<lambda>a. settle_query QO_Cancelled (a\<lparr>qa_task := None\<rparr>)) w2
           in on_channel (on_stats (\<lambda>s. s\<lparr>st_cancellations := st_cancellations s + 1\<rparr>)) w3)"

section \<open>Datagrams\<close>

definition count_invalid :: "upstream_runtime \<Rightarrow> upstream_runtime" where
  "count_invalid = on_channel (on_stats (\<lambda>s. s\<lparr>st_invalid_responses := st_invalid_responses s + 1\<rparr>))"

definition upstream_limits :: parse_limits where
  "upstream_limits = default_limits\<lparr>maximum_packet_size := kUpstreamReceiveBufferSize\<rparr>"

definition handle_datagram ::
  "(nat \<Rightarrow> nat) \<Rightarrow> bool \<Rightarrow> int \<Rightarrow> byte list \<Rightarrow> bool \<Rightarrow> upstream_runtime \<Rightarrow> packet_result \<times> upstream_runtime" where
  "handle_datagram rnd on_thread now packet was_truncated w =
     (let c = ur_channel w in
      if \<not> ch_running c \<or> \<not> channel_on_owner on_thread c then (PR_InvariantFailure, w)
      else if was_truncated \<or> length packet > kUpstreamReceiveBufferSize then (PR_Invalid, count_invalid w)
      else let unmatched = (PR_Unmatched, on_channel (on_stats (\<lambda>s. s\<lparr>st_unmatched_responses := st_unmatched_responses s + 1\<rparr>)) w) in
        case transaction_id packet of
          None \<Rightarrow> unmatched
        | Some ident \<Rightarrow>
            if unat ident \<ge> capacity c then unmatched
            else case ch_slots c ident of
              None \<Rightarrow> unmatched
            | Some q \<Rightarrow>
                (case parse_message packet upstream_limits of
                   Inl e \<Rightarrow> (PR_Invalid, count_invalid w)
                 | Inr parsed \<Rightarrow>
                     if \<not> is_ok (validate_upstream_response parsed ident (hdr_opcode (qa_header (ur_queries w q)))
                                  (qa_question (ur_queries w q)))
                     then (PR_Invalid, count_invalid w)
                     else case rewrite_transaction_id (wire_image parsed) (hdr_id (qa_header (ur_queries w q))) of
                       Inl e \<Rightarrow> (PR_InvariantFailure, on_channel count_invariant_failure w)
                     | Inr response \<Rightarrow>
                         (case finish rnd on_thread now QO_Response response 0 q w of
                            (ok, w') \<Rightarrow> (if ok then PR_Completed else PR_InvariantFailure, w'))))"

fun fail_loop ::
  "(nat \<Rightarrow> nat) \<Rightarrow> bool \<Rightarrow> (nat \<Rightarrow> int) \<Rightarrow> query_outcome \<Rightarrow> int \<Rightarrow> nat list \<Rightarrow> nat \<Rightarrow> upstream_runtime
     \<Rightarrow> nat \<times> upstream_runtime" where
  "fail_loop rnd on_thread clock outcome error_number [] completed w = (completed, w)"
| "fail_loop rnd on_thread clock outcome error_number (index # rest) completed w =
     (case ch_slots (ur_channel w) (word_of_nat index) of
        None \<Rightarrow> fail_loop rnd on_thread clock outcome error_number rest completed w
      | Some q \<Rightarrow>
          (case finish rnd on_thread (clock index) outcome [] error_number q w of
             (ok, w') \<Rightarrow> fail_loop rnd on_thread clock outcome error_number rest (if ok then completed + 1 else completed) w'))"

text \<open>\<open>clock index\<close> is what the clock shows when slot \<open>index\<close> is reached.\<close>

definition fail_all ::
  "(nat \<Rightarrow> nat) \<Rightarrow> bool \<Rightarrow> (nat \<Rightarrow> int) \<Rightarrow> query_outcome \<Rightarrow> int \<Rightarrow> upstream_runtime \<Rightarrow> nat \<times> upstream_runtime" where
  "fail_all rnd on_thread clock outcome error_number w =
     (if \<not> ch_running (ur_channel w) \<or> \<not> channel_on_owner on_thread (ur_channel w)
         \<or> (outcome \<noteq> QO_Cancelled \<and> outcome \<noteq> QO_SocketError) then (0, w)
      else fail_loop rnd on_thread clock outcome error_number [0..<capacity (ur_channel w)] 0 w)"

definition channel_cancel_all ::
  "(nat \<Rightarrow> nat) \<Rightarrow> bool \<Rightarrow> (nat \<Rightarrow> int) \<Rightarrow> upstream_runtime \<Rightarrow> nat \<times> upstream_runtime" where
  "channel_cancel_all rnd on_thread clock w = fail_all rnd on_thread clock QO_Cancelled 0 w"

text \<open>
  The answers of \<open>recvmsg\<close>: the bytes of a datagram and whether it was longer than the buffer, or an
  error.  The list ends when the socket would block.
\<close>

datatype recv_answer = Datagram "byte list" bool | RecvErrno int

definition errno_EINTR :: int where "errno_EINTR = 4"
definition errno_EAGAIN :: int where "errno_EAGAIN = 11"

fun drain_loop ::
  "(nat \<Rightarrow> nat) \<Rightarrow> bool \<Rightarrow> (nat \<Rightarrow> int) \<Rightarrow> nat \<Rightarrow> recv_answer list \<Rightarrow> drain_result \<Rightarrow> upstream_runtime
     \<Rightarrow> drain_result \<times> upstream_runtime" where
  "drain_loop rnd on_thread clock budget [] result w =
     (if dr_datagrams result < budget then (result, w) else (result\<lparr>dr_has_more := True\<rparr>, w))"
| "drain_loop rnd on_thread clock budget (answer # rest) result w =
     (if dr_datagrams result < budget then
        (case answer of
           RecvErrno e \<Rightarrow>
             if e = errno_EINTR then drain_loop rnd on_thread clock budget rest result w
             else if e = errno_EAGAIN then (result, w)
             else (result\<lparr>dr_socket_error := True\<rparr>, snd (fail_all rnd on_thread clock QO_SocketError e w))
         | Datagram bytes longer \<Rightarrow>
             let available = take kUpstreamReceiveBufferSize bytes;
                 was_truncated = (longer \<or> length bytes > kUpstreamReceiveBufferSize);
                 result1 = result\<lparr>dr_datagrams := dr_datagrams result + 1\<rparr>
             in case handle_datagram rnd on_thread (clock (dr_datagrams result)) available was_truncated w of
                  (r, w') \<Rightarrow> drain_loop rnd on_thread clock budget rest result1 w')
      else (result\<lparr>dr_has_more := True\<rparr>, w))"

definition drain ::
  "(nat \<Rightarrow> nat) \<Rightarrow> bool \<Rightarrow> (nat \<Rightarrow> int) \<Rightarrow> nat \<Rightarrow> recv_answer list \<Rightarrow> upstream_runtime \<Rightarrow> drain_result \<times> upstream_runtime" where
  "drain rnd on_thread clock budget input w =
     (let result = \<lparr>dr_datagrams = 0, dr_has_more = False, dr_socket_error = False\<rparr> in
      if \<not> ch_running (ur_channel w) \<or> \<not> channel_on_owner on_thread (ur_channel w) then (result, w)
      else drain_loop rnd on_thread clock budget input result w)"

section \<open>Life cycle\<close>

text \<open>\<open>None\<close> is a datagram that was discarded, \<open>Some e\<close> an error.\<close>

fun discard_socket_input :: "nat \<Rightarrow> int option list \<Rightarrow> bool" where
  "discard_socket_input left [] = (left > 0)"
| "discard_socket_input left (answer # rest) =
     (if left = 0 then False
      else case answer of
        None \<Rightarrow> discard_socket_input (left - 1) rest
      | Some e \<Rightarrow> if e = errno_EINTR then discard_socket_input left rest else e = errno_EAGAIN)"

definition channel_start ::
  "(nat \<Rightarrow> nat) \<Rightarrow> bool \<Rightarrow> int \<Rightarrow> int option list \<Rightarrow> int \<Rightarrow> channel_config \<Rightarrow> upstream_runtime \<Rightarrow> bool \<times> upstream_runtime" where
  "channel_start rnd on_thread now input socket_fd cfg w =
     (let c = ur_channel w in
      if ch_running c \<or> ch_pending_count c \<noteq> 0 \<or> socket_fd < 0 \<or> \<not> sched_on_owner on_thread (ur_sched w)
         \<or> \<not> timers_bound_to (ur_timers w) (sc_self (ur_sched w)) \<or> query_timeout cfg \<le> 0
         \<or> id_reuse_guard cfg < query_timeout cfg \<or> transaction_id_capacity cfg = 0
         \<or> transaction_id_capacity cfg > kTransactionIdSpace \<or> (ch_has_started c \<and> cfg \<noteq> ch_config c)
         \<or> \<not> discard_socket_input kTransactionIdSpace input
      then (False, w)
      else let c1 = c\<lparr>ch_slots := (\<lambda>_. None), ch_stats := no_channel_stats\<rparr>;
               c2 = (if \<not> ch_has_started c then initialize_id_pool rnd cfg c1 else reclaim_ids rnd now c1)
           in if \<not> validate_id_pool (transaction_id_capacity cfg) c2
              then (False, w\<lparr>ur_channel := count_invariant_failure c2\<rparr>)
              else (True, w\<lparr>ur_channel := c2\<lparr>ch_scheduler := Some (sc_self (ur_sched w)), ch_timers := True, ch_config := cfg,
                       ch_socket_fd := socket_fd, ch_pending_count := 0, ch_running := True, ch_accepting := True,
                       ch_has_started := True\<rparr>\<rparr>))"

definition channel_close :: "bool \<Rightarrow> upstream_channel \<Rightarrow> bool \<times> upstream_channel" where
  "channel_close on_thread c =
     (if ch_running c \<and> \<not> channel_on_owner on_thread c then (False, c) else (True, c\<lparr>ch_accepting := False\<rparr>))"

definition channel_stop :: "bool \<Rightarrow> upstream_channel \<Rightarrow> bool \<times> upstream_channel" where
  "channel_stop on_thread c =
     (if ch_running c \<and> \<not> channel_on_owner on_thread c then (False, c)
      else if ch_pending_count c \<noteq> 0 then (False, c)
      else if ch_has_started c \<and> \<not> validate_id_pool (capacity c) c then (False, count_invariant_failure c)
      else (True, c\<lparr>ch_scheduler := None, ch_timers := False, ch_socket_fd := -1, ch_running := False, ch_accepting := False\<rparr>))"

text \<open>The destructors of an awaiter and of a channel; \<open>None\<close> is \<open>std::terminate\<close>.\<close>

definition query_destroy :: "(nat \<Rightarrow> nat) \<Rightarrow> bool \<Rightarrow> int \<Rightarrow> nat \<Rightarrow> upstream_runtime \<Rightarrow> upstream_runtime" where
  "query_destroy rnd on_thread now q w = (if qa_owned (ur_queries w q) then abandon rnd on_thread now q w else w)"

definition channel_destroy ::
  "(nat \<Rightarrow> nat) \<Rightarrow> bool \<Rightarrow> (nat \<Rightarrow> int) \<Rightarrow> upstream_runtime \<Rightarrow> upstream_runtime option" where
  "channel_destroy rnd on_thread clock w =
     (if ch_pending_count (ur_channel w) = 0 then Some w
      else if \<not> channel_on_owner on_thread (ur_channel w) then None
      else let w1 = snd (channel_cancel_all rnd on_thread clock (on_channel (\<lambda>c. c\<lparr>ch_accepting := False\<rparr>) w))
           in if ch_pending_count (ur_channel w1) \<noteq> 0 then None else Some w1)"

section \<open>The invariant of a running channel\<close>

text \<open>The query in a slot is pending under that ID, its task sleeps and its deadline is armed.\<close>

definition slot_ok :: "upstream_runtime \<Rightarrow> u16 \<Rightarrow> nat \<Rightarrow> bool" where
  "slot_ok w i q \<longleftrightarrow> qa_owned (ur_queries w q) \<and> qa_state (ur_queries w q) = QS_Pending
     \<and> qa_transaction_id (ur_queries w q) = i
     \<and> (\<exists>t. qa_task (ur_queries w q) = Some t \<and> wakeable (ur_sched w) t)
     \<and> (\<exists>n. armed (ur_timers w) q = Some ((qa_deadline (ur_queries w q), n), q))"

definition bound_ok :: "upstream_runtime \<Rightarrow> bool" where
  "bound_ok w \<longleftrightarrow> ch_running (ur_channel w) \<and> ch_timers (ur_channel w)
     \<and> ch_scheduler (ur_channel w) = Some (sc_self (ur_sched w)) \<and> 0 < id_reuse_guard (ch_config (ur_channel w))
     \<and> timer_inv (ur_timers w) \<and> tq_running (ur_timers w) \<and> (\<exists>ready roots. sched_rep (ur_sched w) ready roots)"

definition ids_ok :: "upstream_channel \<Rightarrow> bool" where
  "ids_ok c \<longleftrightarrow> pool_ok c \<and> (\<forall>i. ch_id_states c i = IdPending \<longrightarrow> ch_slots c i \<noteq> None)
     \<and> ch_pending_count c = card (dom (ch_slots c))"

definition up_inv :: "upstream_runtime \<Rightarrow> bool" where
  "up_inv w \<longleftrightarrow> ids_ok (ur_channel w) \<and> bound_ok w
     \<and> (\<forall>i q. ch_slots (ur_channel w) i = Some q \<longrightarrow> slot_ok w i q)
     \<and> (\<forall>i j q q'. ch_slots (ur_channel w) i = Some q \<longrightarrow> ch_slots (ur_channel w) j = Some q'
          \<longrightarrow> qa_task (ur_queries w q) = qa_task (ur_queries w q') \<longrightarrow> i = j)
     \<and> (\<forall>q. qa_owned (ur_queries w q) \<longrightarrow> qa_state (ur_queries w q) = QS_Pending
          \<longrightarrow> ch_slots (ur_channel w) (qa_transaction_id (ur_queries w q)) = Some q)
     \<and> (\<forall>q. armed (ur_timers w) q \<noteq> None \<longrightarrow> (\<exists>i. ch_slots (ur_channel w) i = Some q))"

lemma up_invD:
  assumes "up_inv w"
  shows "ids_ok (ur_channel w)" "pool_ok (ur_channel w)" "bound_ok w"
    "ch_slots (ur_channel w) i = Some q \<Longrightarrow> slot_ok w i q"
    "ch_slots (ur_channel w) i = Some q \<Longrightarrow> ch_slots (ur_channel w) j = Some q'
       \<Longrightarrow> qa_task (ur_queries w q) = qa_task (ur_queries w q') \<Longrightarrow> i = j"
    "qa_owned (ur_queries w q) \<Longrightarrow> qa_state (ur_queries w q) = QS_Pending
       \<Longrightarrow> ch_slots (ur_channel w) (qa_transaction_id (ur_queries w q)) = Some q"
    "armed (ur_timers w) q \<noteq> None \<Longrightarrow> \<exists>i. ch_slots (ur_channel w) i = Some q"
  using assms unfolding up_inv_def ids_ok_def by blast+

lemma slots_bound: "pool_ok c \<Longrightarrow> ch_slots c i = Some q \<Longrightarrow> unat i < capacity c"
  using pool_slot_pending [of c i q] pool_okD(8) [of c i] by (auto simp: not_le)

lemma pending_query_iff:
  assumes "up_inv w"
  shows "pending_query q w \<longleftrightarrow> (\<exists>i. ch_slots (ur_channel w) i = Some q)"
proof
  assume "\<exists>i. ch_slots (ur_channel w) i = Some q"
  then obtain i where i: "ch_slots (ur_channel w) i = Some q" by blast
  with up_invD(4) [OF assms i] slots_bound [OF up_invD(2) [OF assms] i] show "pending_query q w"
    by (simp add: pending_query_def slot_ok_def Let_def)
qed (auto simp: pending_query_def Let_def)

text \<open>Counters do not matter to the pool.\<close>

lemma on_stats_frame [simp]:
  "ch_id_states (on_stats f c) = ch_id_states c" "ch_slots (on_stats f c) = ch_slots c"
  "ch_free_ids (on_stats f c) = ch_free_ids c" "ch_retired_ids (on_stats f c) = ch_retired_ids c"
  "ch_config (on_stats f c) = ch_config c" "ch_pending_count (on_stats f c) = ch_pending_count c"
  "ch_running (on_stats f c) = ch_running c" "ch_timers (on_stats f c) = ch_timers c"
  "ch_scheduler (on_stats f c) = ch_scheduler c" "ch_accepting (on_stats f c) = ch_accepting c"
  by (simp_all add: on_stats_def)

lemma pool_ok_cong:
  assumes "ch_id_states c' = ch_id_states c" "ch_slots c' = ch_slots c" "ch_free_ids c' = ch_free_ids c"
    "ch_retired_ids c' = ch_retired_ids c" "ch_config c' = ch_config c"
  shows "pool_ok c' = pool_ok c"
  using assms by (simp add: pool_ok_def)

lemma ids_ok_stats [simp]: "ids_ok (on_stats f c) = ids_ok c" "pool_ok (on_stats f c) = pool_ok c"
  using pool_ok_cong [of "on_stats f c" c] by (simp_all add: ids_ok_def)

lemma up_inv_stats:
  assumes "up_inv w"
  shows "up_inv (on_channel (on_stats f) w)"
  using assms unfolding up_inv_def bound_ok_def on_channel_def slot_ok_def by simp

lemma count_invariant_failure_stats:
  "count_invariant_failure = on_stats (\<lambda>s. s\<lparr>st_invariant_failures := st_invariant_failures s + 1\<rparr>)"
  by (simp add: fun_eq_iff count_invariant_failure_def on_stats_def)

section \<open>Releasing a slot\<close>

lemma clear_slot_frame [simp]:
  "ch_id_states (clear_slot i c) = ch_id_states c" "ch_free_ids (clear_slot i c) = ch_free_ids c"
  "ch_retired_ids (clear_slot i c) = ch_retired_ids c" "ch_config (clear_slot i c) = ch_config c"
  "ch_slots (clear_slot i c) = (ch_slots c)(i := None)" "ch_stats (clear_slot i c) = ch_stats c"
  "ch_running (clear_slot i c) = ch_running c" "ch_timers (clear_slot i c) = ch_timers c"
  "ch_scheduler (clear_slot i c) = ch_scheduler c" "ch_accepting (clear_slot i c) = ch_accepting c"
  "ch_pending_count (clear_slot i c) = ch_pending_count c - 1"
  by (simp_all add: clear_slot_def)

lemma pool_ok_clear: "pool_ok c \<Longrightarrow> pool_ok (clear_slot i c)"
  using pool_ok_cong [of "clear_slot i c" "c\<lparr>ch_slots := (ch_slots c)(i := None)\<rparr>"] pool_ok_clear_slot by simp

lemma finite_slots: "finite (dom (ch_slots (c :: upstream_channel)))"
  by (rule finite_subset [OF subset_UNIV]) simp

lemma release_slot:
  fixes rnd :: "nat \<Rightarrow> nat" and now :: int
  assumes "ids_ok c" and "ch_slots c i = Some q" and "quarantine \<Longrightarrow> 0 < id_reuse_guard (ch_config c)"
  defines "c' \<equiv> release_id rnd i now quarantine (clear_slot i c)"
  shows "ids_ok c'" and "ch_slots c' = (ch_slots c)(i := None)" and "off_pool c' = off_pool (clear_slot i c)"
    and "quarantine \<Longrightarrow> (guarded_reuse_time (ch_config c) now, i) \<in> set (ch_retired_ids c')"
proof -
  have p: "pool_ok c" using assms(1) by (simp add: ids_ok_def)
  have st: "ch_id_states (clear_slot i c) i = IdPending" "ch_slots (clear_slot i c) i = None"
    using pool_slot_pending [OF p assms(2)] by simp_all
  have r: "pool_ok c' \<and> off_pool c' = off_pool (clear_slot i c)
      \<and> (\<exists>s. s \<noteq> IdPending \<and> ch_id_states c' = (ch_id_states c)(i := s))
      \<and> (quarantine \<longrightarrow> (guarded_reuse_time (ch_config c) now, i) \<in> set (ch_retired_ids c'))"
  proof (cases quarantine)
    case True
    from release_id_retire [OF pool_ok_clear [OF p] st True, of rnd now] assms(3) [OF True] show ?thesis
      by (auto simp: c'_def)
  next
    case False
    from release_id_free [OF pool_ok_clear [OF p] st, of quarantine rnd now] False show ?thesis
      by (auto simp: c'_def)
  qed
  show o: "off_pool c' = off_pool (clear_slot i c)" using r by blast
  note f = off_poolD [OF o]
  show s: "ch_slots c' = (ch_slots c)(i := None)" using f by simp
  show "quarantine \<Longrightarrow> (guarded_reuse_time (ch_config c) now, i) \<in> set (ch_retired_ids c')" using r by blast
  have "card (dom ((ch_slots c)(i := None))) = card (dom (ch_slots c)) - 1"
    using assms(2) finite_slots [of c] by (simp add: card_Diff_singleton domI)
  with r assms(1) f show "ids_ok c'" by (auto simp: ids_ok_def s)
qed

lemma up_inv_removed:
  assumes w: "up_inv w" and i: "ch_slots (ur_channel w) i = Some q"
    and c: "ids_ok (ur_channel w')" "ch_slots (ur_channel w') = (ch_slots (ur_channel w))(i := None)"
    and b: "bound_ok w'"
    and q: "ur_queries w' = (ur_queries w)(q := a)" "\<not> qa_owned a"
    and t: "armed (ur_timers w') = (armed (ur_timers w))(q := None)"
    and s: "\<And>u. Some u \<noteq> qa_task (ur_queries w q) \<Longrightarrow> wakeable (ur_sched w) u \<Longrightarrow> wakeable (ur_sched w') u"
  shows "up_inv w'"
proof -
  have tid: "qa_transaction_id (ur_queries w q) = i" using up_invD(4) [OF w i] by (simp add: slot_ok_def)
  have other: "slot_ok w j q'" "q' \<noteq> q" "qa_task (ur_queries w q') \<noteq> qa_task (ur_queries w q)" "j \<noteq> i"
    if "ch_slots (ur_channel w') j = Some q'" for j q'
  proof -
    have j: "ch_slots (ur_channel w) j = Some q'" "j \<noteq> i" using that c(2) by (auto split: if_splits)
    then show "slot_ok w j q'" "j \<noteq> i" using up_invD(4) [OF w] by blast+
    then show "q' \<noteq> q" using tid by (auto simp: slot_ok_def)
    show "qa_task (ur_queries w q') \<noteq> qa_task (ur_queries w q)" using up_invD(5) [OF w j(1) i] j(2) by blast
  qed
  have keep: "ur_queries w' q' = ur_queries w q'" if "q' \<noteq> q" for q' using that q(1) by simp
  show ?thesis unfolding up_inv_def
  proof (intro conjI allI impI)
    fix j q' assume j: "ch_slots (ur_channel w') j = Some q'"
    note o = other [OF j]
    have "armed (ur_timers w') q' = armed (ur_timers w) q'" using o(2) t by simp
    moreover have "\<exists>u. qa_task (ur_queries w q') = Some u \<and> wakeable (ur_sched w') u"
      using o(1,3) s unfolding slot_ok_def by metis
    ultimately show "slot_ok w' j q'" using o(1) keep [OF o(2)] unfolding slot_ok_def by auto
  next
    fix j k q1 q2
    assume j: "ch_slots (ur_channel w') j = Some q1" and k: "ch_slots (ur_channel w') k = Some q2"
      and e: "qa_task (ur_queries w' q1) = qa_task (ur_queries w' q2)"
    have "ch_slots (ur_channel w) j = Some q1" "ch_slots (ur_channel w) k = Some q2"
      using j k c(2) by (auto split: if_splits)
    with up_invD(5) [OF w] e keep other(2) [OF j] other(2) [OF k] show "j = k" by metis
  next
    fix q' assume o: "qa_owned (ur_queries w' q')" and p: "qa_state (ur_queries w' q') = QS_Pending"
    have ne: "q' \<noteq> q" using o q by auto
    then have "ch_slots (ur_channel w) (qa_transaction_id (ur_queries w q')) = Some q'"
      using up_invD(6) [OF w] o p keep by simp
    moreover from this have "qa_transaction_id (ur_queries w q') \<noteq> i" using i ne by auto
    ultimately show "ch_slots (ur_channel w') (qa_transaction_id (ur_queries w' q')) = Some q'"
      using c(2) keep [OF ne] by simp
  next
    fix q' assume "armed (ur_timers w') q' \<noteq> None"
    then have ne: "q' \<noteq> q" and a: "armed (ur_timers w) q' \<noteq> None" using t by (auto split: if_splits)
    from up_invD(7) [OF w a] obtain j where j: "ch_slots (ur_channel w) j = Some q'" by blast
    with i ne c(2) show "\<exists>i. ch_slots (ur_channel w') i = Some q'" by (intro exI [of _ j]) auto
  qed (use c(1) b in blast)+
qed

section \<open>Finishing a query\<close>

lemma on_channel_frame [simp]:
  "ur_channel (on_channel f w) = f (ur_channel w)" "ur_queries (on_channel f w) = ur_queries w"
  "ur_timers (on_channel f w) = ur_timers w" "ur_sched (on_channel f w) = ur_sched w"
  by (simp_all add: on_channel_def)

lemma set_query_frame [simp]:
  "ur_channel (set_query q f w) = ur_channel w" "ur_queries (set_query q f w) = (ur_queries w)(q := f (ur_queries w q))"
  "ur_timers (set_query q f w) = ur_timers w" "ur_sched (set_query q f w) = ur_sched w"
  by (simp_all add: set_query_def)

lemma armed_owned: "timer_inv tq \<Longrightarrow> armed tq q \<noteq> None \<longleftrightarrow> tr_owned (regs tq q)"
  by (auto simp: timer_inv_def armed_def)

lemma disarm_query_correct:
  fixes q :: nat
  assumes "timer_inv (ur_timers w)" and "tq_running (ur_timers w)" and "ch_timers (ur_channel w)"
  defines "w' \<equiv> disarm_query True q w"
  shows "timer_inv (ur_timers w')" and "tq_running (ur_timers w')" and "armed (ur_timers w') = (armed (ur_timers w))(q := None)"
    and "ur_channel w' = ur_channel w" and "ur_queries w' = ur_queries w" and "ur_sched w' = ur_sched w"
    and "tq_scheduler (ur_timers w') = tq_scheduler (ur_timers w)"
proof -
  obtain ok timers where d: "timer_disarm True q (ur_timers w) = (ok, timers)" by fastforce
  note dc = timer_disarm_correct [OF assms(1) d]
  have "timer_inv (ur_timers w') \<and> tq_running (ur_timers w') \<and> armed (ur_timers w') = (armed (ur_timers w))(q := None)
      \<and> ur_channel w' = ur_channel w \<and> ur_queries w' = ur_queries w \<and> ur_sched w' = ur_sched w
      \<and> tq_scheduler (ur_timers w') = tq_scheduler (ur_timers w)"
  proof (cases "tr_owned (regs (ur_timers w) q)")
    case True
    then have "ok" using dc armed_owned [OF assms(1)] assms(2) by blast
    with True d assms(3) dc assms(2) show ?thesis
      by (auto simp: w'_def disarm_query_def control_def)
  next
    case False
    then have "armed (ur_timers w) q = None" using armed_owned [OF assms(1)] by blast
    then have "(armed (ur_timers w))(q := None) = armed (ur_timers w)" by (simp add: fun_upd_idem)
    with False assms show ?thesis by (simp add: w'_def disarm_query_def)
  qed
  then show "timer_inv (ur_timers w')" "tq_running (ur_timers w')" "armed (ur_timers w') = (armed (ur_timers w))(q := None)"
    "ur_channel w' = ur_channel w" "ur_queries w' = ur_queries w" "ur_sched w' = ur_sched w"
    "tq_scheduler (ur_timers w') = tq_scheduler (ur_timers w)" by blast+
qed

text \<open>What finishing the query in slot \<open>i\<close> leaves.\<close>

definition finished ::
  "int \<Rightarrow> query_outcome \<Rightarrow> byte list \<Rightarrow> int \<Rightarrow> u16 \<Rightarrow> nat \<Rightarrow> upstream_runtime \<Rightarrow> upstream_runtime \<Rightarrow> bool" where
  "finished now outcome response error_number i q w w' \<longleftrightarrow>
     ch_slots (ur_channel w') = (ch_slots (ur_channel w))(i := None)
     \<and> ur_queries w' = (ur_queries w)(q := (ur_queries w q)\<lparr>qa_task := None, qa_state := QS_Completed, qa_owned := False,
         qa_result := \<lparr>qr_outcome = outcome, qr_response = response, qr_error_number = error_number\<rparr>\<rparr>)
     \<and> armed (ur_timers w') = (armed (ur_timers w))(q := None)
     \<and> (\<exists>t. qa_task (ur_queries w q) = Some t \<and> schedule True t (ur_sched w) = (Scheduled, ur_sched w')
          \<and> (\<forall>ready roots. sched_rep (ur_sched w) ready roots \<longrightarrow> sched_rep (ur_sched w') (ready @ [t]) roots))
     \<and> (guarded_reuse_time (ch_config (ur_channel w)) now, i) \<in> set (ch_retired_ids (ur_channel w'))
     \<and> ch_stats (ur_channel w') = count_outcome outcome (ch_stats (ur_channel w))
     \<and> ch_config (ur_channel w') = ch_config (ur_channel w)
     \<and> ch_accepting (ur_channel w') = ch_accepting (ur_channel w)"

lemma finish_correct:
  assumes w: "up_inv w" and i: "ch_slots (ur_channel w) i = Some q"
  shows "\<exists>w'. finish rnd True now outcome response error_number q w = (True, w') \<and> up_inv w'
    \<and> finished now outcome response error_number i q w w'"
proof -
  define w0 where "w0 = on_channel (clear_slot i) w"
  define w1 where "w1 = disarm_query True q w0"
  define w2 where "w2 = on_channel (release_id rnd i now True) w1"
  define a where "a = (ur_queries w q)\<lparr>qa_task := None, qa_state := QS_Completed, qa_owned := False,
      qa_result := \<lparr>qr_outcome = outcome, qr_response = response, qr_error_number = error_number\<rparr>\<rparr>"
  define w4 where "w4 = on_channel (on_stats (count_outcome outcome)) (set_query q (\<lambda>_. a) w2)"
  have b: "bound_ok w" by (rule up_invD(3) [OF w])
  have sl: "slot_ok w i q" by (rule up_invD(4) [OF w i])
  then obtain t where t: "qa_task (ur_queries w q) = Some t" "wakeable (ur_sched w) t" "qa_transaction_id (ur_queries w q) = i"
    by (auto simp: slot_ok_def)
  have pend: "pending_query q w" using pending_query_iff [OF w] i by blast
  have w0: "timer_inv (ur_timers w0)" "tq_running (ur_timers w0)" "ch_timers (ur_channel w0)"
    using b by (simp_all add: w0_def bound_ok_def)
  note d = disarm_query_correct [OF w0, of q, folded w1_def]
  have c1: "ur_channel w1 = clear_slot i (ur_channel w)" "ur_queries w1 = ur_queries w" "ur_sched w1 = ur_sched w"
    using d by (simp_all add: w0_def)
  have g: "0 < id_reuse_guard (ch_config (ur_channel w))" using b by (simp add: bound_ok_def)
  note r = release_slot [OF up_invD(1) [OF w] i, where quarantine = True and rnd = rnd and now = now, OF g]
  note f = off_poolD [OF r(3)]
  from b obtain ready roots where rep: "sched_rep (ur_sched w) ready roots" by (auto simp: bound_ok_def)
  then have "fst (schedule True t (ur_sched w)) = Scheduled" using wakeable_schedule t(2) by blast
  then have sch: "schedule True t (ur_sched w) = (Scheduled, enqueue_task t (ur_sched w))"
    using schedule_enqueue by (metis prod.collapse)
  define w' where "w' = w4\<lparr>ur_sched := enqueue_task t (ur_sched w)\<rparr>"
  have s4: "ur_sched w4 = ur_sched w" "ch_scheduler (ur_channel w4) \<noteq> None"
    using b f by (auto simp: w4_def w2_def c1 bound_ok_def)
  have task: "qa_task (ur_queries w2 q) = Some t" using t by (simp add: w2_def c1)
  have fin: "finish rnd True now outcome response error_number q w = wake_query True (Some t) w4"
  proof -
    have "w4 = on_channel (on_stats (count_outcome outcome)) (set_query q
        (\<lambda>x. x\<lparr>qa_task := None, qa_state := QS_Completed, qa_owned := False,
           qa_result := \<lparr>qr_outcome = outcome, qr_response = response, qr_error_number = error_number\<rparr>\<rparr>) w2)"
      by (simp add: w4_def set_query_def a_def w2_def c1)
    then show ?thesis using pend task unfolding finish_def Let_def t(3) w0_def [symmetric] w1_def [symmetric] w2_def [symmetric] by simp
  qed
  have wake: "wake_query True (Some t) w4 = (True, w')"
    using s4 sch by (simp add: wake_query_def w'_def)
  have ch: "ur_channel w' = on_stats (count_outcome outcome) (release_id rnd i now True (clear_slot i (ur_channel w)))"
    by (simp add: w'_def w4_def w2_def c1)
  have qs: "ur_queries w' = (ur_queries w)(q := a)" by (simp add: w'_def w4_def w2_def c1)
  have tm: "ur_timers w' = ur_timers w1" by (simp add: w'_def w4_def w2_def)
  have ss: "ur_sched w' = enqueue_task t (ur_sched w)" by (simp add: w'_def)
  have rep': "sched_rep (ur_sched w') (ready' @ [t]) roots'" if "sched_rep (ur_sched w) ready' roots'" for ready' roots'
    using schedule_correct [OF that sch] ss by simp
  have bound: "bound_ok w'"
    using b f d rep' [OF rep] unfolding bound_ok_def ch ss tm by (auto simp: enqueue_task_frame)
  have "up_inv w'"
  proof (rule up_inv_removed [OF w i _ _ bound qs])
    show "ids_ok (ur_channel w')" using r(1) by (simp add: ch)
    show "ch_slots (ur_channel w') = (ch_slots (ur_channel w))(i := None)" using r(2) by (simp add: ch)
    show "\<not> qa_owned a" by (simp add: a_def)
    show "armed (ur_timers w') = (armed (ur_timers w))(q := None)" using d(3) by (simp add: tm w0_def)
    show "wakeable (ur_sched w') u" if "Some u \<noteq> qa_task (ur_queries w q)" "wakeable (ur_sched w) u" for u
      using that wakeable_enqueue [of u t] t(1) by (simp add: ss)
  qed
  moreover have "finished now outcome response error_number i q w w'"
    unfolding finished_def
    using r(2,4) f d(3) t(1) sch rep' by (auto simp: ch qs a_def tm w0_def ss on_stats_def)
  ultimately show ?thesis using fin wake by auto
qed

lemma finish_not_pending:
  "up_inv w \<Longrightarrow> \<forall>i. ch_slots (ur_channel w) i \<noteq> Some q \<Longrightarrow> finish rnd b now outcome response e q w = (False, w)"
  using pending_query_iff by (auto simp: finish_def)

text \<open>
  C12. A pending query ends exactly once.  Ending it empties its slot, quarantines its ID, disarms its
  deadline, stores its result and makes its task ready, and touches no other query; the invariant is
  kept.  Ending a query that is not pending, for instance a second time, fails and changes nothing.
\<close>

theorem finish_exactly_once:
  assumes "up_inv w"
  shows "(\<forall>i. ch_slots (ur_channel w) i = Some q \<longrightarrow>
           (\<exists>w'. finish rnd True now outcome response error_number q w = (True, w') \<and> up_inv w'
              \<and> finished now outcome response error_number i q w w'
              \<and> (\<forall>now' outcome' response' e'. finish rnd True now' outcome' response' e' q w' = (False, w'))))
    \<and> ((\<forall>i. ch_slots (ur_channel w) i \<noteq> Some q) \<longrightarrow> finish rnd True now outcome response error_number q w = (False, w))"
proof -
  have "finish rnd True now' outcome' response' e' q w' = (False, w')"
    if i: "ch_slots (ur_channel w) i = Some q" and w': "up_inv w'" "finished now outcome response error_number i q w w'"
    for i w' now' outcome' response' e'
  proof (rule finish_not_pending [OF w'(1)], rule allI)
    fix j
    have "\<not> qa_owned (ur_queries w' q)" using w'(2) by (simp add: finished_def)
    then show "ch_slots (ur_channel w') j \<noteq> Some q" using up_invD(4) [OF w'(1)] by (auto simp: slot_ok_def)
  qed
  with finish_correct [OF assms] finish_not_pending [OF assms] show ?thesis by meson
qed

section \<open>Datagrams from the upstream\<close>

lemma upstream_limits_size: "maximum_packet_size upstream_limits = kUpstreamReceiveBufferSize"
  by (simp add: upstream_limits_def)

text \<open>
  The datagram answers the query in slot \<open>i\<close>: it parses, it is a response with that ID, the
  query's opcode and a clear Z bit, and its only question is the query's, with the same type and class
  and, up to the case of ASCII letters, the same name.  The predicate does not mention the validator.
\<close>

definition answers_query :: "upstream_runtime \<Rightarrow> byte list \<Rightarrow> u16 \<Rightarrow> nat \<Rightarrow> message \<Rightarrow> bool" where
  "answers_query w packet i q m \<longleftrightarrow> ch_slots (ur_channel w) i = Some q \<and> parse_message packet upstream_limits = Inr m
     \<and> is_response (msg_header m) \<and> hdr_id (msg_header m) = i
     \<and> hdr_opcode (msg_header m) = hdr_opcode (qa_header (ur_queries w q)) \<and> \<not> reserved_z (msg_header m)
     \<and> (\<exists>x. questions m = [x] \<and> q_type x = q_type (qa_question (ur_queries w q))
          \<and> q_class x = q_class (qa_question (ur_queries w q))
          \<and> canonical_key (q_name x) = canonical_key (q_name (qa_question (ur_queries w q))))"

lemma answers_query_valid:
  "answers_query w packet i q m \<longleftrightarrow> ch_slots (ur_channel w) i = Some q \<and> parse_message packet upstream_limits = Inr m
     \<and> validate_upstream_response m i (hdr_opcode (qa_header (ur_queries w q))) (qa_question (ur_queries w q)) = Inr ()"
  unfolding answers_query_def validate_upstream_response_ok_iff question_eq_def name_eq_def by blast

lemma handle_datagram_cases:
  assumes w: "up_inv w" and h: "handle_datagram rnd True now packet was_truncated w = (r, w')"
  shows "(r = PR_Completed \<and> \<not> was_truncated \<and> (\<exists>i q m response. answers_query w packet i q m
            \<and> rewrite_transaction_id packet (hdr_id (qa_header (ur_queries w q))) = Inr response
            \<and> finish rnd True now QO_Response response 0 q w = (True, w')))
       \<or> ((r = PR_Invalid \<or> r = PR_Unmatched) \<and> (was_truncated \<or> (\<forall>i q m. \<not> answers_query w packet i q m))
          \<and> (\<exists>f. w' = on_channel (on_stats f) w))"
proof -
  have run: "ch_running (ur_channel w)" using up_invD(3) [OF w] by (simp add: bound_ok_def)
  have no: "\<not> answers_query w packet i q m" if "transaction_id packet \<noteq> Some i" for i q m
    using that transaction_id_parse_message [of packet upstream_limits m] by (auto simp: answers_query_valid validate_upstream_response_ok_iff)
  have long: "\<not> answers_query w packet i q m" if "length packet > kUpstreamReceiveBufferSize" for i q m
    using that parse_message_wf [of packet upstream_limits m] by (auto simp: answers_query_valid upstream_limits_size)
  show ?thesis
  proof (cases "was_truncated \<or> length packet > kUpstreamReceiveBufferSize")
    case True
    with h run long show ?thesis by (auto simp: handle_datagram_def Let_def channel_on_owner_def count_invalid_def)
  next
    case small: False
    show ?thesis
    proof (cases "\<exists>i q. transaction_id packet = Some i \<and> ch_slots (ur_channel w) i = Some q")
      case False
      then have n: "\<forall>i q m. \<not> answers_query w packet i q m" using no by (metis answers_query_valid)
      have "r = PR_Unmatched \<and> (\<exists>f. w' = on_channel (on_stats f) w)"
        using h run small False by (auto simp: handle_datagram_def Let_def channel_on_owner_def split: option.splits if_splits)
      with n show ?thesis by blast
    next
      case True
      then obtain i q where i: "transaction_id packet = Some i" "ch_slots (ur_channel w) i = Some q" by blast
      have cap: "unat i < capacity (ur_channel w)" by (rule slots_bound [OF up_invD(2) [OF w] i(2)])
      show ?thesis
      proof (cases "\<exists>m. answers_query w packet i q m")
        case False
        then have n: "\<forall>j q m. \<not> answers_query w packet j q m" using no i by (metis answers_query_valid option.inject)
        have "(\<nexists>m. parse_message packet upstream_limits = Inr m \<and>
            is_ok (validate_upstream_response m i (hdr_opcode (qa_header (ur_queries w q))) (qa_question (ur_queries w q))))"
          using False i(2) by (auto simp: answers_query_valid is_ok_iff)
        then have "r = PR_Invalid \<and> w' = count_invalid w"
          using h run small i cap by (auto simp: handle_datagram_def Let_def channel_on_owner_def split: sum.splits if_splits)
        with n show ?thesis by (auto simp: count_invalid_def)
      next
        case True
        then obtain m where m: "answers_query w packet i q m" by blast
        then have pm: "parse_message packet upstream_limits = Inr m" by (simp add: answers_query_valid)
        then have img: "wire_image m = packet" using parse_message_wf by blast
        obtain response where re: "rewrite_transaction_id packet (hdr_id (qa_header (ur_queries w q))) = Inr response"
          using rewrite_transaction_id_parses [OF pm] by blast
        from finish_correct [OF w i(2), of rnd now QO_Response response 0] obtain w1 where
          f: "finish rnd True now QO_Response response 0 q w = (True, w1)" by blast
        have "(r, w') = (PR_Completed, w1)"
          using h run small i cap m pm img re f
          by (simp add: handle_datagram_def Let_def channel_on_owner_def answers_query_valid)
        with m re f small show ?thesis by blast
      qed
    qed
  qed
qed

text \<open>
  C11. A datagram completes a query exactly when it was not truncated by the socket, parses, and is a
  response with a clear Z bit that carries the query's ID, opcode and its question, and no other one.
  The task of that query then resumes with the datagram in which only the ID was replaced by the
  client's, as re-parsing it shows.  Any other datagram changes no query, no timer and no task: only a
  counter moves.
\<close>

theorem handle_datagram_correct:
  assumes "up_inv w" and "handle_datagram rnd True now packet was_truncated w = (r, w')"
  shows "up_inv w' \<and> r \<noteq> PR_InvariantFailure
    \<and> (r = PR_Completed \<longleftrightarrow> \<not> was_truncated \<and> (\<exists>i q m. answers_query w packet i q m))
    \<and> (r = PR_Completed \<longrightarrow> (\<exists>i q m response. answers_query w packet i q m \<and> finished now QO_Response response 0 i q w w'
         \<and> length response = length packet
         \<and> parse_message response upstream_limits =
             Inr (m\<lparr>msg_header := (msg_header m)\<lparr>hdr_id := hdr_id (qa_header (ur_queries w q))\<rparr>, wire_image := response\<rparr>)))
    \<and> (r \<noteq> PR_Completed \<longrightarrow> (\<exists>f. w' = on_channel (on_stats f) w))"
  using handle_datagram_cases [OF assms]
proof
  assume "r = PR_Completed \<and> \<not> was_truncated \<and> (\<exists>i q m response. answers_query w packet i q m
      \<and> rewrite_transaction_id packet (hdr_id (qa_header (ur_queries w q))) = Inr response
      \<and> finish rnd True now QO_Response response 0 q w = (True, w'))"
  then obtain i q m response where r: "r = PR_Completed" "\<not> was_truncated" "answers_query w packet i q m"
      "rewrite_transaction_id packet (hdr_id (qa_header (ur_queries w q))) = Inr response"
      "finish rnd True now QO_Response response 0 q w = (True, w')" by blast
  have pm: "parse_message packet upstream_limits = Inr m" "ch_slots (ur_channel w) i = Some q"
    using r(3) by (simp_all add: answers_query_valid)
  from finish_correct [OF assms(1) pm(2), of rnd now QO_Response response 0] r(5)
  have f: "up_inv w'" "finished now QO_Response response 0 i q w w'" by auto
  from rewrite_transaction_id_parses [OF pm(1), of "hdr_id (qa_header (ur_queries w q))"] r(4) have
    "length response = length packet" "parse_message response upstream_limits =
       Inr (m\<lparr>msg_header := (msg_header m)\<lparr>hdr_id := hdr_id (qa_header (ur_queries w q))\<rparr>, wire_image := response\<rparr>)" by simp_all
  with r f show ?thesis by auto
next
  assume "(r = PR_Invalid \<or> r = PR_Unmatched) \<and> (was_truncated \<or> (\<forall>i q m. \<not> answers_query w packet i q m))
      \<and> (\<exists>f. w' = on_channel (on_stats f) w)"
  with up_inv_stats [OF assms(1)] show ?thesis by auto
qed

section \<open>Failing every query\<close>

definition slot_queries :: "upstream_runtime \<Rightarrow> nat list \<Rightarrow> nat list" where
  "slot_queries w ids = concat (map (\<lambda>x. case ch_slots (ur_channel w) (word_of_nat x) of None \<Rightarrow> [] | Some q \<Rightarrow> [q]) ids)"

definition failed_query :: "query_outcome \<Rightarrow> int \<Rightarrow> query_awaiter \<Rightarrow> query_awaiter" where
  "failed_query outcome e a = a\<lparr>qa_task := None, qa_state := QS_Completed, qa_owned := False,
     qa_result := \<lparr>qr_outcome = outcome, qr_response = [], qr_error_number = e\<rparr>\<rparr>"

lemma slot_queries_Cons:
  "slot_queries w (x # ids) = (case ch_slots (ur_channel w) (word_of_nat x) of None \<Rightarrow> [] | Some q \<Rightarrow> [q]) @ slot_queries w ids"
  by (simp add: slot_queries_def)

lemma slot_queries_cong:
  "(\<And>x. x \<in> set ids \<Longrightarrow> ch_slots (ur_channel w') (word_of_nat x) = ch_slots (ur_channel w) (word_of_nat x))
     \<Longrightarrow> slot_queries w' ids = slot_queries w ids"
  by (induction ids) (simp_all add: slot_queries_def)

lemma set_slot_queries: "q \<in> set (slot_queries w ids) \<longleftrightarrow> (\<exists>x \<in> set ids. ch_slots (ur_channel w) (word_of_nat x) = Some q)"
  by (auto simp: slot_queries_def split: option.splits) force

lemma slot_unique: "up_inv w \<Longrightarrow> ch_slots (ur_channel w) i = Some q \<Longrightarrow> ch_slots (ur_channel w) j = Some q \<Longrightarrow> i = j"
  using up_invD(4) unfolding slot_ok_def by metis

lemma fail_loop_correct:
  assumes "up_inv w" and "distinct ids" and "\<forall>x \<in> set ids. x < kTransactionIdSpace" and "sched_rep (ur_sched w) ready roots"
  shows "\<exists>w'. fail_loop rnd True clock outcome e ids k w = (k + length (slot_queries w ids), w') \<and> up_inv w'
    \<and> (\<forall>i. ch_slots (ur_channel w') i = (if unat i \<in> set ids then None else ch_slots (ur_channel w) i))
    \<and> (\<forall>q. ur_queries w' q = (if q \<in> set (slot_queries w ids) then failed_query outcome e (ur_queries w q) else ur_queries w q))
    \<and> sched_rep (ur_sched w') (ready @ map (\<lambda>q. the (qa_task (ur_queries w q))) (slot_queries w ids)) roots
    \<and> ch_config (ur_channel w') = ch_config (ur_channel w)"
  using assms
proof (induction ids arbitrary: w k ready)
  case Nil
  then show ?case by (auto simp: slot_queries_def)
next
  case (Cons x ids)
  have x: "unat (word_of_nat x :: u16) = x" using Cons.prems(3) by (simp add: unat_word_of_nat_id)
  have wd: "unat i = x \<longleftrightarrow> i = word_of_nat x" for i :: u16 using x by (metis word_eq_iff_unsigned)
  have fresh: "(word_of_nat y :: u16) \<noteq> word_of_nat x" if "y \<in> set ids" for y
    using that Cons.prems(2,3) unat_word_of_nat_id by (metis distinct.simps(2) list.set_intros(2) x)
  show ?case
  proof (cases "ch_slots (ur_channel w) (word_of_nat x)")
    case None
    from Cons.IH [OF Cons.prems(1) _ _ Cons.prems(4), of k] Cons.prems(2,3) None show ?thesis
      by (auto simp: slot_queries_Cons wd)
  next
    case (Some q)
    from finish_correct [OF Cons.prems(1) Some, of rnd "clock x" outcome "[]" e] obtain w1 where
      f: "finish rnd True (clock x) outcome [] e q w = (True, w1)" "up_inv w1"
        "finished (clock x) outcome [] e (word_of_nat x) q w w1" by blast
    from f(3) obtain t where t: "qa_task (ur_queries w q) = Some t" "sched_rep (ur_sched w1) (ready @ [t]) roots"
      and sl: "ch_slots (ur_channel w1) = (ch_slots (ur_channel w))(word_of_nat x := None)"
      and qs: "ur_queries w1 = (ur_queries w)(q := failed_query outcome e (ur_queries w q))"
      and cf: "ch_config (ur_channel w1) = ch_config (ur_channel w)"
      using Cons.prems(4) by (auto simp: finished_def failed_query_def)
    have same: "slot_queries w1 ids = slot_queries w ids" using fresh by (intro slot_queries_cong) (auto simp: sl)
    have nq: "q \<notin> set (slot_queries w ids)"
      unfolding set_slot_queries using slot_unique [OF Cons.prems(1) Some] fresh by metis
    have tasks: "map (\<lambda>q. the (qa_task (ur_queries w1 q))) (slot_queries w ids)
        = map (\<lambda>q. the (qa_task (ur_queries w q))) (slot_queries w ids)"
      using nq by (auto simp: qs)
    from Cons.IH [OF f(2) _ _ t(2), of "Suc k"] Cons.prems(2,3) obtain w' where
      ih: "fail_loop rnd True clock outcome e ids (Suc k) w1 = (Suc k + length (slot_queries w ids), w')" "up_inv w'"
        "\<forall>i. ch_slots (ur_channel w') i = (if unat i \<in> set ids then None else ch_slots (ur_channel w1) i)"
        "\<forall>p. ur_queries w' p = (if p \<in> set (slot_queries w ids) then failed_query outcome e (ur_queries w1 p) else ur_queries w1 p)"
        "sched_rep (ur_sched w') ((ready @ [t]) @ map (\<lambda>q. the (qa_task (ur_queries w q))) (slot_queries w ids)) roots"
        "ch_config (ur_channel w') = ch_config (ur_channel w1)"
      by (auto simp: same tasks)
    show ?thesis
    proof (intro exI [of _ w'] conjI allI)
      show "fail_loop rnd True clock outcome e (x # ids) k w = (k + length (slot_queries w (x # ids)), w')"
        using ih(1) Some f(1) by (simp add: slot_queries_Cons)
      show "ch_slots (ur_channel w') i = (if unat i \<in> set (x # ids) then None else ch_slots (ur_channel w) i)" for i
        using ih(3) by (simp add: sl wd)
      show "ur_queries w' p = (if p \<in> set (slot_queries w (x # ids)) then failed_query outcome e (ur_queries w p) else ur_queries w p)" for p
        using ih(4) nq by (simp add: slot_queries_Cons Some qs)
      show "sched_rep (ur_sched w') (ready @ map (\<lambda>q. the (qa_task (ur_queries w q))) (slot_queries w (x # ids))) roots"
        using ih(5) t(1) by (simp add: slot_queries_Cons Some)
    qed (use ih(2,6) cf in simp_all)
  qed
qed

text \<open>Visiting the slots in ascending order visits the queries in the order of their IDs.\<close>

lemma slot_queries_ids:
  assumes "up_inv w" and "sorted_wrt (<) ids" and "\<forall>x \<in> set ids. x < kTransactionIdSpace"
  shows "sorted_wrt (<) (map (\<lambda>q. unat (qa_transaction_id (ur_queries w q))) (slot_queries w ids))
    \<and> (\<lambda>q. unat (qa_transaction_id (ur_queries w q))) ` set (slot_queries w ids) \<subseteq> set ids"
  using assms(2,3)
proof (induction ids)
  case (Cons x ids)
  have "unat (qa_transaction_id (ur_queries w q)) = x" if "ch_slots (ur_channel w) (word_of_nat x) = Some q" for q
    using up_invD(4) [OF assms(1) that] Cons.prems(2) by (simp add: slot_ok_def unat_word_of_nat_id)
  moreover have "x < y" if "y \<in> set ids" for y using that Cons.prems(1) by simp
  ultimately show ?case
    using Cons.IH Cons.prems by (auto simp: slot_queries_Cons split: option.splits)
qed (simp add: slot_queries_def)

lemma fail_all_correct:
  assumes "up_inv w" and "outcome = QO_Cancelled \<or> outcome = QO_SocketError" and "sched_rep (ur_sched w) ready roots"
  shows "\<exists>w' qs. fail_all rnd True clock outcome e w = (length qs, w') \<and> up_inv w' \<and> distinct qs
    \<and> length qs = ch_pending_count (ur_channel w)
    \<and> sorted_wrt (<) (map (\<lambda>q. unat (qa_transaction_id (ur_queries w q))) qs)
    \<and> (\<forall>q. q \<in> set qs \<longleftrightarrow> (\<exists>i. ch_slots (ur_channel w) i = Some q))
    \<and> (\<forall>q. ur_queries w' q = (if q \<in> set qs then failed_query outcome e (ur_queries w q) else ur_queries w q))
    \<and> sched_rep (ur_sched w') (ready @ map (\<lambda>q. the (qa_task (ur_queries w q))) qs) roots
    \<and> (\<forall>i. ch_slots (ur_channel w') i = None) \<and> ch_pending_count (ur_channel w') = 0 \<and> fst (channel_stop True (ur_channel w'))"
proof -
  let ?c = "ur_channel w" and ?ids = "[0..<capacity (ur_channel w)]"
  define qs where "qs = slot_queries w ?ids"
  have p: "pool_ok ?c" by (rule up_invD(2) [OF assms(1)])
  have lt: "\<forall>x \<in> set ?ids. x < kTransactionIdSpace" using pool_okD(2) [OF p] by auto
  have ord: "sorted_wrt (<) (map (\<lambda>q. unat (qa_transaction_id (ur_queries w q))) qs)"
    using slot_queries_ids [OF assms(1) _ lt] by (simp add: qs_def)
  from fail_loop_correct [OF assms(1) _ lt assms(3), of rnd clock outcome e 0] obtain w' where
    l: "fail_loop rnd True clock outcome e ?ids 0 w = (length qs, w')" "up_inv w'"
      "\<forall>i. ch_slots (ur_channel w') i = (if unat i < capacity ?c then None else ch_slots ?c i)"
      "\<forall>q. ur_queries w' q = (if q \<in> set qs then failed_query outcome e (ur_queries w q) else ur_queries w q)"
      "sched_rep (ur_sched w') (ready @ map (\<lambda>q. the (qa_task (ur_queries w q))) qs) roots"
    by (auto simp: qs_def)
  have run: "fail_all rnd True clock outcome e w = (length qs, w')"
    using l(1) assms(2) up_invD(3) [OF assms(1)] by (auto simp: fail_all_def channel_on_owner_def bound_ok_def)
  have none: "ch_slots (ur_channel w') i = None" for i
  proof (cases "unat i < capacity ?c")
    case False
    then have "ch_slots ?c i = None" using slots_bound [OF p] by (cases "ch_slots ?c i") auto
    then show ?thesis using l(3) by simp
  qed (use l(3) in simp)
  have "q \<in> set qs \<longleftrightarrow> (\<exists>i. ch_slots ?c i = Some q)" for q
  proof
    assume "\<exists>i. ch_slots ?c i = Some q"
    then obtain i where i: "ch_slots ?c i = Some q" by blast
    have "word_of_nat (unat i) = i" by simp
    then show "q \<in> set qs" unfolding qs_def set_slot_queries using i slots_bound [OF p i] by (metis atLeastLessThan_iff le0 set_upt)
  qed (auto simp: qs_def set_slot_queries)
  then have set: "\<forall>q. q \<in> set qs \<longleftrightarrow> (\<exists>i. ch_slots ?c i = Some q)" by blast
  have d: "distinct qs"
    using l(5) by (simp add: sched_rep_def ready_rep_def distinct_map)
  have "set qs = (\<lambda>i. the (ch_slots ?c i)) ` dom (ch_slots ?c)" using set by force
  moreover have "inj_on (\<lambda>i. the (ch_slots ?c i)) (dom (ch_slots ?c))"
    using slot_unique [OF assms(1)] by (auto simp: inj_on_def)
  ultimately have "card (set qs) = card (dom (ch_slots ?c))" by (simp add: card_image)
  then have len: "length qs = ch_pending_count ?c"
    using distinct_card [OF d] up_invD(1) [OF assms(1)] by (simp add: ids_ok_def)
  have ok: "ids_ok (ur_channel w')" by (rule up_invD(1) [OF l(2)])
  then have cnt: "ch_pending_count (ur_channel w') = 0" using none by (simp add: ids_ok_def dom_def)
  have "validate_id_pool (capacity (ur_channel w')) (ur_channel w')"
    unfolding validate_id_pool_spec using ok none cnt by (auto simp: ids_ok_def)
  with cnt have "fst (channel_stop True (ur_channel w'))" by (simp add: channel_stop_def channel_on_owner_def)
  with run l(2,4,5) d len ord set none cnt show ?thesis by blast
qed

text \<open>
  C39. Failing a channel ends every pending query, each with the given outcome, leaves no ID in use and
  makes exactly their tasks ready, behind those that already were, in ascending order of the queries'
  transaction IDs.  The channel can then be stopped.
\<close>

theorem fail_all_complete:
  assumes "up_inv w" and "outcome = QO_Cancelled \<or> outcome = QO_SocketError" and "sched_rep (ur_sched w) ready roots"
  shows "\<exists>w' qs. fail_all rnd True clock outcome e w = (length qs, w') \<and> up_inv w' \<and> distinct qs
    \<and> length qs = ch_pending_count (ur_channel w)
    \<and> sorted_wrt (<) (map (\<lambda>q. unat (qa_transaction_id (ur_queries w q))) qs)
    \<and> (\<forall>q. q \<in> set qs \<longleftrightarrow> (\<exists>i. ch_slots (ur_channel w) i = Some q))
    \<and> (\<forall>q. ur_queries w' q = (if q \<in> set qs then failed_query outcome e (ur_queries w q) else ur_queries w q))
    \<and> sched_rep (ur_sched w') (ready @ map (\<lambda>q. the (qa_task (ur_queries w q))) qs) roots
    \<and> (\<forall>i. ch_slots (ur_channel w') i = None) \<and> ch_pending_count (ur_channel w') = 0 \<and> fst (channel_stop True (ur_channel w'))"
  by (rule fail_all_correct [OF assms])

section \<open>Starting a query\<close>

definition unslotted :: "nat \<Rightarrow> upstream_runtime \<Rightarrow> bool" where
  "unslotted q w \<longleftrightarrow> (\<forall>i. ch_slots (ur_channel w) i \<noteq> Some q)"

lemma up_inv_same_slots:
  assumes w: "up_inv w" and q: "unslotted q w"
    and c: "ids_ok (ur_channel w')" "ch_slots (ur_channel w') = ch_slots (ur_channel w)" and b: "bound_ok w'"
    and qs: "ur_queries w' = (ur_queries w)(q := a)" "\<not> qa_owned a \<or> qa_state a \<noteq> QS_Pending"
    and t: "armed (ur_timers w') = armed (ur_timers w)" and s: "\<And>u. wakeable (ur_sched w) u \<Longrightarrow> wakeable (ur_sched w') u"
  shows "up_inv w'"
proof -
  have ne: "q' \<noteq> q" if "ch_slots (ur_channel w) i = Some q'" for i q' using that q by (auto simp: unslotted_def)
  show ?thesis unfolding up_inv_def
  proof (intro conjI allI impI)
    fix i q' assume i: "ch_slots (ur_channel w') i = Some q'"
    then have i': "ch_slots (ur_channel w) i = Some q'" using c(2) by simp
    from up_invD(4) [OF w i'] ne [OF i'] s show "slot_ok w' i q'" by (auto simp: slot_ok_def qs t)
  next
    fix i j q1 q2
    assume "ch_slots (ur_channel w') i = Some q1" "ch_slots (ur_channel w') j = Some q2"
      "qa_task (ur_queries w' q1) = qa_task (ur_queries w' q2)"
    with up_invD(5) [OF w, of i q1 j q2] ne c(2) show "i = j" by (simp add: qs split: if_splits)
  next
    fix q' assume "qa_owned (ur_queries w' q')" "qa_state (ur_queries w' q') = QS_Pending"
    with up_invD(6) [OF w, of q'] qs c(2)
    show "ch_slots (ur_channel w') (qa_transaction_id (ur_queries w' q')) = Some q'" by (auto split: if_splits)
  next
    fix q' assume "armed (ur_timers w') q' \<noteq> None"
    with up_invD(7) [OF w, of q'] t c(2) show "\<exists>i. ch_slots (ur_channel w') i = Some q'" by simp
  qed (use c(1) b in blast)+
qed

lemma up_inv_added:
  assumes w: "up_inv w" and q: "unslotted q w" and i: "ch_slots (ur_channel w) i = None"
    and c: "ids_ok (ur_channel w')" "ch_slots (ur_channel w') = (ch_slots (ur_channel w))(i \<mapsto> q)" and b: "bound_ok w'"
    and qs: "ur_queries w' = (ur_queries w)(q := a)" "qa_owned a" "qa_state a = QS_Pending" "qa_transaction_id a = i"
    and t: "armed (ur_timers w') = (armed (ur_timers w))(q \<mapsto> ((qa_deadline a, n), q))" and s: "ur_sched w' = ur_sched w"
    and k: "qa_task a = Some u" "wakeable (ur_sched w) u"
      "\<And>j q'. ch_slots (ur_channel w) j = Some q' \<Longrightarrow> qa_task (ur_queries w q') \<noteq> Some u"
  shows "up_inv w'"
proof -
  have ne: "q' \<noteq> q" if "ch_slots (ur_channel w) j = Some q'" for j q' using that q by (auto simp: unslotted_def)
  show ?thesis unfolding up_inv_def
  proof (intro conjI allI impI)
    fix j q' assume j: "ch_slots (ur_channel w') j = Some q'"
    show "slot_ok w' j q'"
    proof (cases "j = i")
      case True
      with j c(2) have "q' = q" by simp
      with True qs t k s show ?thesis by (simp add: slot_ok_def)
    next
      case False
      then have j': "ch_slots (ur_channel w) j = Some q'" using j c(2) by simp
      from up_invD(4) [OF w j'] ne [OF j'] s show ?thesis by (simp add: slot_ok_def qs(1) t)
    qed
  next
    fix j1 j2 q1 q2
    assume j: "ch_slots (ur_channel w') j1 = Some q1" "ch_slots (ur_channel w') j2 = Some q2"
      and e: "qa_task (ur_queries w' q1) = qa_task (ur_queries w' q2)"
    show "j1 = j2"
    proof (rule ccontr)
      assume d: "j1 \<noteq> j2"
      have old: "ch_slots (ur_channel w) j = Some q'" "q' \<noteq> q" "ur_queries w' q' = ur_queries w q'"
        if "ch_slots (ur_channel w') j = Some q'" "j \<noteq> i" for j q'
      proof -
        show o: "ch_slots (ur_channel w) j = Some q'" using that c(2) by simp
        show "q' \<noteq> q" by (rule ne [OF o])
        then show "ur_queries w' q' = ur_queries w q'" by (simp add: qs(1))
      qed
      have new: "q' = q" "ur_queries w' q' = a" if "ch_slots (ur_channel w') i = Some q'" for q'
        using that c(2) by (simp_all add: qs(1))
      consider "j1 = i" "j2 \<noteq> i" | "j2 = i" "j1 \<noteq> i" | "j1 \<noteq> i" "j2 \<noteq> i" using d by blast
      then show False
      proof cases
        case 1
        with j e new(2) [of q1] old [OF j(2)] k(1,3) show False by metis
      next
        case 2
        with j e new(2) [of q2] old [OF j(1)] k(1,3) show False by metis
      next
        case 3
        with old [OF j(1)] old [OF j(2)] e d up_invD(5) [OF w] show False by metis
      qed
    qed
  next
    fix q' assume o: "qa_owned (ur_queries w' q')" "qa_state (ur_queries w' q') = QS_Pending"
    show "ch_slots (ur_channel w') (qa_transaction_id (ur_queries w' q')) = Some q'"
    proof (cases "q' = q")
      case True
      with qs c(2) show ?thesis by simp
    next
      case False
      then have "ch_slots (ur_channel w) (qa_transaction_id (ur_queries w q')) = Some q'"
        using up_invD(6) [OF w, of q'] o by (simp add: qs(1))
      moreover from this have "qa_transaction_id (ur_queries w q') \<noteq> i" using i by auto
      ultimately show ?thesis using False c(2) by (simp add: qs(1))
    qed
  next
    fix q' assume a: "armed (ur_timers w') q' \<noteq> None"
    show "\<exists>i. ch_slots (ur_channel w') i = Some q'"
    proof (cases "q' = q")
      case True
      with c(2) show ?thesis by (intro exI [of _ i]) simp
    next
      case False
      with a t up_invD(7) [OF w, of q'] obtain j where j: "ch_slots (ur_channel w) j = Some q'" by auto
      with i c(2) show ?thesis by (intro exI [of _ j]) auto
    qed
  qed (use c(1) b in blast)+
qed

lemma ids_ok_register:
  assumes "ids_ok c" and "allocate_id rnd now c = (Some i, c1)"
  shows "ids_ok (c1\<lparr>ch_slots := (ch_slots c1)(i \<mapsto> q), ch_pending_count := ch_pending_count c1 + 1\<rparr>)"
    and "ids_ok (release_id rnd i now False c1)" and "off_pool (release_id rnd i now False c1) = off_pool c"
proof -
  have p: "pool_ok c" using assms(1) by (simp add: ids_ok_def)
  note a = allocate_id_correct [OF p assms(2)]
  note f = off_poolD [of c1 c]
  have st: "ch_id_states c1 i = IdPending" "ch_slots c1 i = None" and sl: "ch_slots c1 = ch_slots c"
    and cnt: "ch_pending_count c1 = ch_pending_count c" using a f by simp_all
  have "card (dom ((ch_slots c)(i \<mapsto> q))) = card (dom (ch_slots c)) + 1"
    using st(2) sl finite_slots [of c] by (simp add: domIff)
  moreover have "pool_ok (c1\<lparr>ch_slots := (ch_slots c1)(i \<mapsto> q)\<rparr>)"
    using a st by (intro pool_ok_slots) (auto dest: pool_slot_pending split: if_splits)
  then have "pool_ok (c1\<lparr>ch_slots := (ch_slots c1)(i \<mapsto> q), ch_pending_count := ch_pending_count c1 + 1\<rparr>)"
    by (subst pool_ok_cong [of _ "c1\<lparr>ch_slots := (ch_slots c1)(i \<mapsto> q)\<rparr>"]) simp_all
  ultimately show "ids_ok (c1\<lparr>ch_slots := (ch_slots c1)(i \<mapsto> q), ch_pending_count := ch_pending_count c1 + 1\<rparr>)"
    using assms(1) a by (auto simp: ids_ok_def sl cnt)
  from release_id_free [OF _ st, of False rnd now] a
  have r: "pool_ok (release_id rnd i now False c1)" "off_pool (release_id rnd i now False c1) = off_pool c1"
    "ch_id_states (release_id rnd i now False c1) = (ch_id_states c1)(i := IdFree)" by simp_all
  then show "off_pool (release_id rnd i now False c1) = off_pool c" using a by simp
  note f2 = off_poolD [OF this]
  show "ids_ok (release_id rnd i now False c1)"
    using r assms(1) a by (auto simp: ids_ok_def f2)
qed

lemma timer_arm_failed: "fst (timer_arm b r d cb tq) \<noteq> Armed \<Longrightarrow> snd (timer_arm b r d cb tq) = tq"
  by (auto simp: timer_arm_def Let_def)

lemma rollback_correct:
  fixes rnd :: "nat \<Rightarrow> nat" and now :: int
  assumes c: "ids_ok (ur_channel w)" "ch_slots (ur_channel w) i = Some q" "qa_transaction_id (ur_queries w q) = i"
    and t: "timer_inv (ur_timers w)" "tq_running (ur_timers w)" "ch_timers (ur_channel w)"
  defines "w' \<equiv> rollback_begin rnd True now q w"
  shows "ids_ok (ur_channel w')" and "ch_slots (ur_channel w') = (ch_slots (ur_channel w))(i := None)"
    and "off_pool (ur_channel w') = off_pool (clear_slot i (ur_channel w))"
    and "ur_queries w' = (ur_queries w)(q := (ur_queries w q)\<lparr>qa_owned := False, qa_task := None, qa_state := QS_Idle\<rparr>)"
    and "armed (ur_timers w') = (armed (ur_timers w))(q := None)" and "timer_inv (ur_timers w')" and "tq_running (ur_timers w')"
    and "ur_sched w' = ur_sched w"
proof -
  obtain ok timers where d: "timer_disarm True q (ur_timers w) = (ok, timers)" by fastforce
  note dc = timer_disarm_correct [OF t(1) d]
  define timers1 where "timers1 = (if tr_owned (regs (ur_timers w) q) then timers else ur_timers w)"
  have tm: "timer_inv timers1" "tq_running timers1" "armed timers1 = (armed (ur_timers w))(q := None)"
  proof -
    have "armed (ur_timers w) q = None" if "\<not> tr_owned (regs (ur_timers w) q)" using that armed_owned [OF t(1)] by blast
    then have "(armed (ur_timers w))(q := None) = armed (ur_timers w)" if "\<not> tr_owned (regs (ur_timers w) q)"
      using that by (simp add: fun_upd_idem)
    moreover have "ok" if "tr_owned (regs (ur_timers w) q)" using that dc armed_owned [OF t(1)] t(2) by blast
    ultimately show "timer_inv timers1" "tq_running timers1" "armed timers1 = (armed (ur_timers w))(q := None)"
      using dc t by (auto simp: timers1_def control_def)
  qed
  have cap: "unat i < capacity (ur_channel w)" using slots_bound c(1,2) by (simp add: ids_ok_def)
  have w': "w' = set_query q (\<lambda>a. a\<lparr>qa_owned := False, qa_task := None, qa_state := QS_Idle\<rparr>)
      (on_channel (\<lambda>c. release_id rnd i now False (clear_slot i c)) (w\<lparr>ur_timers := timers1\<rparr>))"
    using c d t(3) cap by (simp add: w'_def rollback_begin_def timers1_def Let_def)
  note r = release_slot [OF c(1,2), where quarantine = False and rnd = rnd and now = now, simplified]
  show "ids_ok (ur_channel w')" "ch_slots (ur_channel w') = (ch_slots (ur_channel w))(i := None)"
    "off_pool (ur_channel w') = off_pool (clear_slot i (ur_channel w))"
    using r by (simp_all add: w')
  show "ur_queries w' = (ur_queries w)(q := (ur_queries w q)\<lparr>qa_owned := False, qa_task := None, qa_state := QS_Idle\<rparr>)"
    "armed (ur_timers w') = (armed (ur_timers w))(q := None)" "timer_inv (ur_timers w')" "tq_running (ur_timers w')"
    "ur_sched w' = ur_sched w"
    using tm by (simp_all add: w')
qed

definition can_begin :: "nat \<Rightarrow> nat \<Rightarrow> upstream_runtime \<Rightarrow> bool" where
  "can_begin task q w \<longleftrightarrow> up_inv w \<and> unslotted q w \<and> armed (ur_timers w) q = None \<and> wakeable (ur_sched w) task
     \<and> (\<forall>j q'. ch_slots (ur_channel w) j = Some q' \<longrightarrow> qa_task (ur_queries w q') \<noteq> Some task)
     \<and> wf_question (qa_question (ur_queries w q))"

definition not_begun :: "nat \<Rightarrow> upstream_runtime \<Rightarrow> upstream_runtime \<Rightarrow> bool" where
  "not_begun q w w' \<longleftrightarrow> ch_slots (ur_channel w') = ch_slots (ur_channel w) \<and> armed (ur_timers w') = armed (ur_timers w)
     \<and> ur_sched w' = ur_sched w \<and> (\<forall>q'. q' \<noteq> q \<longrightarrow> ur_queries w' q' = ur_queries w q')
     \<and> \<not> (qa_owned (ur_queries w' q) \<and> qa_state (ur_queries w' q) = QS_Pending)
     \<and> ch_config (ur_channel w') = ch_config (ur_channel w)"

definition begun :: "nat \<Rightarrow> nat \<Rightarrow> u16 \<Rightarrow> byte list \<Rightarrow> upstream_runtime \<Rightarrow> upstream_runtime \<Rightarrow> bool" where
  "begun task q i wire w w' \<longleftrightarrow> ch_slots (ur_channel w') = (ch_slots (ur_channel w))(i \<mapsto> q)
     \<and> ur_queries w' = (ur_queries w)(q := (ur_queries w q)\<lparr>qa_owned := True, qa_task := Some task,
         qa_transaction_id := i, qa_state := QS_Pending\<rparr>)
     \<and> (\<exists>n. armed (ur_timers w') = (armed (ur_timers w))(q \<mapsto> ((qa_deadline (ur_queries w q), n), q)))
     \<and> ur_sched w' = ur_sched w
     \<and> serialize_query ((qa_header (ur_queries w q))\<lparr>hdr_id := i\<rparr>) [qa_question (ur_queries w q)] kUpstreamQueryBudget = Inr wire"

lemma bound_ok_frame:
  assumes "bound_ok w" and "off_pool (ur_channel w') = off_pool c" and "ch_running c = ch_running (ur_channel w)"
    "ch_timers c = ch_timers (ur_channel w)" "ch_scheduler c = ch_scheduler (ur_channel w)" "ch_config c = ch_config (ur_channel w)"
    and "ur_sched w' = ur_sched w" and "timer_inv (ur_timers w')" and "tq_running (ur_timers w')"
  shows "bound_ok w'"
  using assms off_poolD [OF assms(2)] by (simp add: bound_ok_def)

lemma not_begun_refl: "up_inv w \<Longrightarrow> unslotted q w \<Longrightarrow> not_begun q w w"
  using up_invD(6) by (auto simp: not_begun_def unslotted_def)

lemma sift_up_control: "control (sift_up j tq) = control tq"
  by (induction j tq rule: sift_up.induct)
    (subst sift_up.simps, simp add: Let_def control_def swap_nodes_def set_heap_index_def)

lemma timer_arm_control:
  "tq_running (snd (timer_arm b r d cb tq)) = tq_running tq" "tq_scheduler (snd (timer_arm b r d cb tq)) = tq_scheduler tq"
proof -
  have "tq_running (sift_up j x) = tq_running x" "tq_scheduler (sift_up j x) = tq_scheduler x" for j and x :: "'a timer_queue"
    using sift_up_control [of j x] by (simp_all add: control_def)
  then show "tq_running (snd (timer_arm b r d cb tq)) = tq_running tq" "tq_scheduler (snd (timer_arm b r d cb tq)) = tq_scheduler tq"
    by (simp_all add: timer_arm_def Let_def)
qed

lemma arm_and_send_correct:
  assumes b: "can_begin task q w" and al: "allocate_id rnd now (ur_channel w) = (Some i, c1)"
    and sq: "serialize_query ((qa_header (ur_queries w q))\<lparr>hdr_id := i\<rparr>) [qa_question (ur_queries w q)] kUpstreamQueryBudget = Inr wire"
    and e: "arm_and_send rnd True later send wire q (register_query q task i (w\<lparr>ur_channel := c1\<rparr>)) = (r, w')"
  shows "up_inv w' \<and> r \<noteq> BR_Overloaded \<and> (r = BR_Suspended \<longrightarrow> begun task q i wire w w' \<and> send wire = SentBytes (length wire))
    \<and> (r \<noteq> BR_Suspended \<longrightarrow> not_begun q w w')"
proof -
  have w: "up_inv w" "unslotted q w" "armed (ur_timers w) q = None" "wakeable (ur_sched w) task"
    "\<And>j q'. ch_slots (ur_channel w) j = Some q' \<Longrightarrow> qa_task (ur_queries w q') \<noteq> Some task"
    using b by (auto simp: can_begin_def)
  have bk: "bound_ok w" by (rule up_invD(3) [OF w(1)])
  note a = allocate_id_correct [OF up_invD(2) [OF w(1)] al]
  have f: "off_pool c1 = off_pool (ur_channel w)" and free: "ch_slots (ur_channel w) i = None" using a by simp_all
  note f = off_poolD [OF f]
  define w2 where "w2 = register_query q task i (w\<lparr>ur_channel := c1\<rparr>)"
  define a2 where "a2 = (ur_queries w q)\<lparr>qa_owned := True, qa_task := Some task, qa_transaction_id := i, qa_state := QS_Pending\<rparr>"
  have c2: "ur_channel w2 = c1\<lparr>ch_slots := (ch_slots c1)(i \<mapsto> q), ch_pending_count := ch_pending_count c1 + 1\<rparr>"
    and q2: "ur_queries w2 = (ur_queries w)(q := a2)" and t2: "ur_timers w2 = ur_timers w" and s2: "ur_sched w2 = ur_sched w"
    by (simp_all add: w2_def register_query_def a2_def)
  have ids2: "ids_ok (ur_channel w2)" unfolding c2 by (rule ids_ok_register(1) [OF up_invD(1) [OF w(1)] al])
  have sl2: "ch_slots (ur_channel w2) = (ch_slots (ur_channel w))(i \<mapsto> q)" using f by (simp add: c2)
  obtain res timers where ar: "timer_arm True q (qa_deadline (ur_queries w2 q)) (Some q) (ur_timers w2) = (res, timers)" by fastforce
  define w3 where "w3 = w2\<lparr>ur_timers := timers\<rparr>"
  have t3: "timer_inv timers" "tq_running timers"
    "res = Armed \<Longrightarrow> \<exists>n. armed timers = (armed (ur_timers w))(q \<mapsto> ((qa_deadline (ur_queries w q), n), q))"
    "res \<noteq> Armed \<Longrightarrow> armed timers = armed (ur_timers w)"
  proof -
    have ti: "timer_inv (ur_timers w2)" "tq_running (ur_timers w2)" using bk t2 by (simp_all add: bound_ok_def)
    have same: "res \<noteq> Armed \<Longrightarrow> timers = ur_timers w2"
      using timer_arm_failed [of True q "qa_deadline (ur_queries w2 q)" "Some q" "ur_timers w2"] ar by simp
    have armd: "res = Armed \<Longrightarrow> timer_inv timers \<and> (\<exists>n. armed timers = (armed (ur_timers w))(q \<mapsto> ((qa_deadline (ur_queries w q), n), q)))"
      using timer_arm_correct [OF ti(1)] ar by (fastforce simp: t2 q2 a2_def)
    have run: "tq_running timers"
      using timer_arm_control(1) [of True q "qa_deadline (ur_queries w2 q)" "Some q" "ur_timers w2"] ar ti(2) by simp
    show "timer_inv timers" "tq_running timers" using same armd ti run by (cases "res = Armed"; simp)+
    show "res = Armed \<Longrightarrow> \<exists>n. armed timers = (armed (ur_timers w))(q \<mapsto> ((qa_deadline (ur_queries w q), n), q))" using armd by blast
    show "res \<noteq> Armed \<Longrightarrow> armed timers = armed (ur_timers w)" using same t2 by simp
  qed
  have nf: "((armed timers)(q := None)) = armed (ur_timers w)"
    using t3(3,4) w(3) by (cases "res = Armed") (auto simp: fun_upd_idem)
  define w4 where "w4 = rollback_begin rnd True later q w3"
  have r3: "ids_ok (ur_channel w3)" "ch_slots (ur_channel w3) i = Some q" "qa_transaction_id (ur_queries w3 q) = i"
    "timer_inv (ur_timers w3)" "tq_running (ur_timers w3)" "ch_timers (ur_channel w3)"
    using ids2 sl2 t3(1,2) bk f by (simp_all add: w3_def q2 a2_def c2 bound_ok_def)
  note rb = rollback_correct [OF r3, where rnd = rnd and now = later, folded w4_def]
  have sl4: "ch_slots (ur_channel w4) = ch_slots (ur_channel w)" using rb(2) sl2 free by (simp add: w3_def fun_upd_idem)
  have q4: "ur_queries w4 = (ur_queries w)(q := a2\<lparr>qa_owned := False, qa_task := None, qa_state := QS_Idle\<rparr>)"
    using rb(4) by (simp add: w3_def q2)
  have s4: "ur_sched w4 = ur_sched w" using rb(8) s2 by (simp add: w3_def)
  have b4: "bound_ok w4"
    by (rule bound_ok_frame [OF bk rb(3) _ _ _ _ s4 rb(6,7)]) (simp_all add: w3_def c2 f)
  have t4: "armed (ur_timers w4) = armed (ur_timers w)" using rb(5) nf by (simp add: w3_def)
  have u4: "up_inv w4"
    by (rule up_inv_same_slots [OF w(1,2) rb(1) sl4 b4 q4 _ t4]) (simp_all add: s4)
  have n4: "not_begun q w w4" using sl4 t4 s4 q4 off_poolD [OF rb(3)] f by (simp add: not_begun_def w3_def c2)
  have fail: "up_inv (snd (send_failed rnd True later err q w3))" "not_begun q w (snd (send_failed rnd True later err q w3))" for err
  proof -
    define w5 where "w5 = set_query q (\<lambda>a. a\<lparr>qa_result := (qa_result a)\<lparr>qr_error_number := err\<rparr>\<rparr>) w4"
    have "up_inv w5"
    proof (rule up_inv_same_slots [OF u4])
      show "unslotted q w4" using w(2) sl4 by (simp add: unslotted_def)
      show "ur_queries w5 = (ur_queries w4)(q := ur_queries w5 q)" by (simp add: w5_def)
      show "\<not> qa_owned (ur_queries w5 q) \<or> qa_state (ur_queries w5 q) \<noteq> QS_Pending" by (simp add: w5_def q4)
    qed (use rb(1) b4 in \<open>simp_all add: w5_def bound_ok_def\<close>)
    then show "up_inv (snd (send_failed rnd True later err q w3))"
      using up_inv_stats by (simp add: send_failed_def w5_def w4_def)
    show "not_begun q w (snd (send_failed rnd True later err q w3))"
      using n4 q4 by (simp add: send_failed_def w4_def [symmetric] not_begun_def)
  qed
  have ok: "up_inv (on_channel (on_stats g) w3)" "begun task q i wire w (on_channel (on_stats g) w3)" if arm: "res = Armed" for g
  proof -
    obtain n where n: "armed timers = (armed (ur_timers w))(q \<mapsto> ((qa_deadline a2, n), q))" using t3(3) [OF arm] by (auto simp: a2_def)
    have b3: "bound_ok w3" using bk t3 f by (simp add: bound_ok_def w3_def c2 s2)
    have "up_inv w3"
      by (rule up_inv_added [OF w(1,2) free r3(1) _ b3, where a = a2 and n = n and u = task])
        (use sl2 q2 n w(4,5) s2 in \<open>simp_all add: w3_def a2_def\<close>)
    then show "up_inv (on_channel (on_stats g) w3)" by (rule up_inv_stats)
    show "begun task q i wire w (on_channel (on_stats g) w3)"
      using sl2 q2 n s2 sq by (auto simp: begun_def w3_def a2_def)
  qed
  consider (closed) "res \<noteq> Armed" "r = (if res = ArmClosed then BR_Closed else BR_TimerFailure)" "w' = w4"
    | (fail) err where "r = BR_SendError" "w' = snd (send_failed rnd True later err q w3)"
    | (ok) g where "res = Armed" "r = BR_Suspended" "w' = on_channel (on_stats g) w3" "send wire = SentBytes (length wire)"
    using e unfolding w2_def [symmetric] arm_and_send_def ar prod.case Let_def w3_def [symmetric]
    by (auto simp: send_failed_def w4_def split: if_splits send_outcome.splits)
  then show ?thesis
  proof cases
    case closed
    with u4 n4 show ?thesis by auto
  next
    case (fail err)
    with \<open>\<And>err. up_inv (snd (send_failed rnd True later err q w3))\<close> \<open>\<And>err. not_begun q w (snd (send_failed rnd True later err q w3))\<close>
    show ?thesis by simp
  next
    case (ok g)
    with \<open>\<And>g. res = Armed \<Longrightarrow> up_inv (on_channel (on_stats g) w3)\<close>
      \<open>\<And>g. res = Armed \<Longrightarrow> begun task q i wire w (on_channel (on_stats g) w3)\<close> show ?thesis by simp
  qed
qed

lemma channel_begin_cases:
  assumes b: "can_begin task q w" and e: "channel_begin rnd True task now later send q w = (r, w')"
  shows "up_inv w'
    \<and> (r = BR_Suspended \<longrightarrow> (\<exists>i wire. i \<in> available_ids (ur_channel w) now \<and> ch_slots (ur_channel w) i = None
          \<and> begun task q i wire w w' \<and> send wire = SentBytes (length wire)))
    \<and> (r \<noteq> BR_Suspended \<longrightarrow> not_begun q w w')
    \<and> (r = BR_Overloaded \<longrightarrow> available_ids (ur_channel w) now = {})
    \<and> (ch_accepting (ur_channel w) \<and> timers_bound_to (ur_timers w) (sc_self (ur_sched w))
         \<and> available_ids (ur_channel w) now = {} \<longrightarrow> r = BR_Overloaded)"
proof -
  have w: "up_inv w" "unslotted q w" "wakeable (ur_sched w) task" using b by (auto simp: can_begin_def)
  have bk: "bound_ok w" by (rule up_invD(3) [OF w(1)])
  have sc: "tp_scheduler (sc_tasks (ur_sched w) task) = ch_scheduler (ur_channel w)"
    using w(3) bk by (simp add: wakeable_def bound_ok_def)
  have run: "ch_running (ur_channel w)" "ch_timers (ur_channel w)" "ch_scheduler (ur_channel w) = Some (sc_self (ur_sched w))"
    using bk by (simp_all add: bound_ok_def)
  show ?thesis
  proof (cases "ch_accepting (ur_channel w) \<and> timers_bound_to (ur_timers w) (sc_self (ur_sched w))")
    case False
    then have "w' = w \<and> r \<noteq> BR_Suspended \<and> r \<noteq> BR_Overloaded"
      using e run sc by (auto simp: channel_begin_def Let_def channel_on_owner_def split: if_splits)
    with w not_begun_refl [OF w(1,2)] False show ?thesis by auto
  next
    case True
    obtain x c1 where al: "allocate_id rnd now (ur_channel w) = (x, c1)" by fastforce
    note a = allocate_id_correct [OF up_invD(2) [OF w(1)] al]
    note f = off_poolD [of c1 "ur_channel w"]
    show ?thesis
    proof (cases x)
      case None
      define w1 where "w1 = w\<lparr>ur_channel := c1\<rparr>"
      have r: "r = BR_Overloaded" "w' = on_channel (on_stats (\<lambda>s. s\<lparr>st_overloaded := st_overloaded s + 1\<rparr>)) w1"
        using e run sc True al None by (auto simp: channel_begin_def Let_def channel_on_owner_def on_channel_def w1_def)
      have "ids_ok c1" using up_invD(1) [OF w(1)] a None f by (auto simp: ids_ok_def)
      moreover have "\<not> qa_owned (ur_queries w q) \<or> qa_state (ur_queries w q) \<noteq> QS_Pending"
        using not_begun_refl [OF w(1,2)] by (simp add: not_begun_def)
      ultimately have "up_inv w1"
        using a f bk by (intro up_inv_same_slots [OF w(1,2), of w1 "ur_queries w q"]) (simp_all add: w1_def bound_ok_def)
      moreover have "not_begun q w w'" using not_begun_refl [OF w(1,2)] a f by (simp add: not_begun_def r(2) w1_def)
      ultimately show ?thesis using r a None up_inv_stats by auto
    next
      case (Some i)
      note al = al [unfolded Some]
      show ?thesis
      proof (cases "serialize_query ((qa_header (ur_queries w q))\<lparr>hdr_id := i\<rparr>) [qa_question (ur_queries w q)] kUpstreamQueryBudget")
        case (Inl err)
        then have r: "r = BR_InvalidQuery" "w' = w\<lparr>ur_channel := release_id rnd i now False c1\<rparr>"
          using e run sc True al by (auto simp: channel_begin_def Let_def channel_on_owner_def on_channel_def)
        note rel = ids_ok_register(2,3) [OF up_invD(1) [OF w(1)] al]
        note f2 = off_poolD [OF rel(2)]
        have "\<not> qa_owned (ur_queries w q) \<or> qa_state (ur_queries w q) \<noteq> QS_Pending"
          using not_begun_refl [OF w(1,2)] by (simp add: not_begun_def)
        then have "up_inv w'"
          using rel(1) f2 bk by (intro up_inv_same_slots [OF w(1,2), of w' "ur_queries w q"]) (simp_all add: r(2) bound_ok_def)
        moreover have "not_begun q w w'" using not_begun_refl [OF w(1,2)] f2 by (simp add: not_begun_def r(2))
        ultimately show ?thesis using r(1) a Some by auto
      next
        case (Inr wire)
        then have "arm_and_send rnd True later send wire q (register_query q task i (w\<lparr>ur_channel := c1\<rparr>)) = (r, w')"
          using e run sc True al by (simp add: channel_begin_def Let_def channel_on_owner_def)
        from arm_and_send_correct [OF b al Inr this] a Some show ?thesis by auto
      qed
    qed
  qed
qed

text \<open>
  C21. Starting a query either registers it completely or leaves no trace of it.  If the task suspends,
  the query holds an ID that was available, its deadline is armed and its bytes were sent; they
  re-parse to the client's question under that ID.  Otherwise no slot, timer, task or other query has
  changed and the ID is back in the pool.  Overload is reported only when no ID was available.
\<close>

theorem channel_begin_correct:
  assumes "can_begin task q w" and "channel_begin rnd True task now later send q w = (r, w')"
  shows "up_inv w'
    \<and> (r = BR_Suspended \<longrightarrow> (\<exists>i wire. i \<in> available_ids (ur_channel w) now \<and> ch_slots (ur_channel w) i = None
          \<and> begun task q i wire w w' \<and> send wire = SentBytes (length wire) \<and> length wire \<le> kUpstreamQueryBudget
          \<and> (\<exists>m. parse_message wire default_limits = Inr m \<and> hdr_id (msg_header m) = i
               \<and> questions m = [qa_question (ur_queries w q)]
               \<and> hdr_opcode (msg_header m) = hdr_opcode (qa_header (ur_queries w q)) \<and> \<not> is_response (msg_header m))))
    \<and> (r \<noteq> BR_Suspended \<longrightarrow> not_begun q w w')
    \<and> (r = BR_Overloaded \<longrightarrow> available_ids (ur_channel w) now = {})"
proof -
  have "length wire \<le> kUpstreamQueryBudget \<and> (\<exists>m. parse_message wire default_limits = Inr m \<and> hdr_id (msg_header m) = i
      \<and> questions m = [qa_question (ur_queries w q)]
      \<and> hdr_opcode (msg_header m) = hdr_opcode (qa_header (ur_queries w q)) \<and> \<not> is_response (msg_header m))"
    if "begun task q i wire w w'" for i wire
  proof -
    have s: "serialize_query ((qa_header (ur_queries w q))\<lparr>hdr_id := i\<rparr>) [qa_question (ur_queries w q)] kUpstreamQueryBudget = Inr wire"
      using that by (simp add: begun_def)
    moreover have "\<not> is_response (qa_header (ur_queries w q))" using s by (auto simp: serialize_query_def split: if_splits)
    moreover have "wf_question (qa_question (ur_queries w q))" using assms(1) by (simp add: can_begin_def)
    ultimately show ?thesis using serialize_query_parses [OF s, of default_limits] by (simp add: default_limits_def limit_defs)
  qed
  with channel_begin_cases [OF assms] show ?thesis by blast
qed

section \<open>Abandoned queries\<close>

lemma abandon_correct:
  assumes w: "up_inv w"
  shows "up_inv (abandon rnd True now q w)
    \<and> (\<forall>i. ch_slots (ur_channel w) i = Some q \<longrightarrow>
         ch_slots (ur_channel (abandon rnd True now q w)) = (ch_slots (ur_channel w))(i := None)
         \<and> (guarded_reuse_time (ch_config (ur_channel w)) now, i) \<in> set (ch_retired_ids (ur_channel (abandon rnd True now q w)))
         \<and> armed (ur_timers (abandon rnd True now q w)) = (armed (ur_timers w))(q := None)
         \<and> ur_sched (abandon rnd True now q w) = ur_sched w)
    \<and> (unslotted q w \<longrightarrow> abandon rnd True now q w = w)"
proof (cases "\<exists>i. ch_slots (ur_channel w) i = Some q")
  case False
  then have "unslotted q w" by (simp add: unslotted_def)
  then have "\<not> (qa_owned (ur_queries w q) \<and> qa_state (ur_queries w q) = QS_Pending)"
    using not_begun_refl [OF w] by (simp add: not_begun_def)
  with w False show ?thesis by (auto simp: abandon_def Let_def)
next
  case True
  then obtain i where i: "ch_slots (ur_channel w) i = Some q" by blast
  define w0 where "w0 = on_channel (clear_slot i) w"
  define w1 where "w1 = disarm_query True q w0"
  have b: "bound_ok w" by (rule up_invD(3) [OF w])
  have sl: "slot_ok w i q" by (rule up_invD(4) [OF w i])
  have w0: "timer_inv (ur_timers w0)" "tq_running (ur_timers w0)" "ch_timers (ur_channel w0)"
    using b by (simp_all add: w0_def bound_ok_def)
  note d = disarm_query_correct [OF w0, of q, folded w1_def]
  have c1: "ur_channel w1 = clear_slot i (ur_channel w)" "ur_queries w1 = ur_queries w" "ur_sched w1 = ur_sched w"
    using d by (simp_all add: w0_def)
  have g: "0 < id_reuse_guard (ch_config (ur_channel w))" using b by (simp add: bound_ok_def)
  note r = release_slot [OF up_invD(1) [OF w] i, where quarantine = True and rnd = rnd and now = now, OF g, simplified]
  define w' where "w' = abandon rnd True now q w"
  have e: "w' = on_channel (on_stats (\<lambda>s. s\<lparr>st_cancellations := st_cancellations s + 1\<rparr>))
      (set_query q (\<lambda>a. settle_query QO_Cancelled (a\<lparr>qa_task := None\<rparr>)) (on_channel (release_id rnd i now True) w1))"
    using sl i slots_bound [OF up_invD(2) [OF w] i]
    by (simp add: w'_def abandon_def Let_def slot_ok_def w1_def w0_def)
  have ch: "ch_slots (ur_channel w') = (ch_slots (ur_channel w))(i := None)" "ids_ok (ur_channel w')"
      "(guarded_reuse_time (ch_config (ur_channel w)) now, i) \<in> set (ch_retired_ids (ur_channel w'))"
    using r by (simp_all add: e c1)
  have tm: "armed (ur_timers w') = (armed (ur_timers w))(q := None)" using d(3) by (simp add: e w0_def)
  have bw: "bound_ok w'" using b off_poolD [OF r(3)] d by (simp add: bound_ok_def e c1)
  have "up_inv w'"
    by (rule up_inv_removed [OF w i ch(2,1) bw, where a = "ur_queries w' q"]) (use tm in \<open>simp_all add: e c1 settle_query_def\<close>)
  moreover have "ur_sched w' = ur_sched w" by (simp add: e c1)
  moreover have "j = i" if "ch_slots (ur_channel w) j = Some q" for j by (rule slot_unique [OF w that i])
  moreover have "\<not> unslotted q w" using i by (auto simp: unslotted_def)
  ultimately show ?thesis using ch tm unfolding w'_def [symmetric] by metis
qed

section \<open>Deadlines\<close>

text \<open>
  A worker's call of \<open>TimerQueue::expire\<close>: the callback of a registration ends the query that holds
  it.  The registration is out of the heap by then, so the callback does not reach the queue.
\<close>

definition expire_deadlines ::
  "(nat \<Rightarrow> nat) \<Rightarrow> (nat \<Rightarrow> int) \<Rightarrow> int \<Rightarrow> nat \<Rightarrow> upstream_runtime \<Rightarrow> dispatch_result \<times> upstream_runtime" where
  "expire_deadlines rnd clock now budget w =
     (case timer_expire (\<lambda>q completion v. deadline_complete rnd True (clock q) q completion v) True now budget
             (ur_timers w) (w\<lparr>ur_timers := new_timer_queue\<rparr>) of
        (result, timers, v) \<Rightarrow> (result, v\<lparr>ur_timers := timers\<rparr>))"

definition cancel_deadlines ::
  "(nat \<Rightarrow> nat) \<Rightarrow> (nat \<Rightarrow> int) \<Rightarrow> upstream_runtime \<Rightarrow> dispatch_result \<times> upstream_runtime" where
  "cancel_deadlines rnd clock w =
     (case timer_cancel_all (\<lambda>q completion v. deadline_complete rnd True (clock q) q completion v) True
             (ur_timers w) (w\<lparr>ur_timers := new_timer_queue\<rparr>) of
        (result, timers, v) \<Rightarrow> (result, v\<lparr>ur_timers := timers\<rparr>))"

lemma timers_update [simp]:
  "on_channel f (w\<lparr>ur_timers := X\<rparr>) = (on_channel f w)\<lparr>ur_timers := X\<rparr>"
  "set_query q g (w\<lparr>ur_timers := X\<rparr>) = (set_query q g w)\<lparr>ur_timers := X\<rparr>"
  by (simp_all add: on_channel_def set_query_def)

lemma wake_query_timers:
  "wake_query b t (w\<lparr>ur_timers := X\<rparr>) = (case wake_query b t w of (ok, w') \<Rightarrow> (ok, w'\<lparr>ur_timers := X\<rparr>))"
  by (auto simp: wake_query_def Let_def split: option.splits prod.splits)

lemma runtime_eqI:
  fixes a b :: upstream_runtime
  assumes "ur_channel a = ur_channel b" and "ur_queries a = ur_queries b" and "ur_sched a = ur_sched b"
  shows "a = b\<lparr>ur_timers := ur_timers a\<rparr>"
  using assms by (cases a; cases b) simp

lemma finish_timers_frame:
  assumes w: "up_inv w" and X: "\<not> tr_owned (regs X q)" and f: "finish rnd True now outcome response e q w = (ok, w')"
  shows "finish rnd True now outcome response e q (w\<lparr>ur_timers := X\<rparr>) = (ok, w'\<lparr>ur_timers := X\<rparr>)"
proof (cases "pending_query q w")
  case False
  then have "\<not> pending_query q (w\<lparr>ur_timers := X\<rparr>)" by (simp add: pending_query_def)
  with False f show ?thesis by (simp add: finish_def)
next
  case True
  define i where "i = qa_transaction_id (ur_queries w q)"
  define w0 where "w0 = on_channel (clear_slot i) w"
  have "timer_inv (ur_timers w0)" "tq_running (ur_timers w0)" "ch_timers (ur_channel w0)"
    using up_invD(3) [OF w] by (simp_all add: w0_def bound_ok_def)
  note d = disarm_query_correct [OF this, of q]
  define T where "T = ur_timers (disarm_query True q w0)"
  have dw: "disarm_query True q w0 = w0\<lparr>ur_timers := T\<rparr>" unfolding T_def by (rule runtime_eqI [OF d(4-6)])
  have dx: "disarm_query True q (w0\<lparr>ur_timers := X\<rparr>) = w0\<lparr>ur_timers := X\<rparr>" using X by (simp add: disarm_query_def)
  have px: "pending_query q (w\<lparr>ur_timers := X\<rparr>)" using True by (simp add: pending_query_def)
  show ?thesis using f True px
    by (auto simp: finish_def Let_def i_def [symmetric] w0_def [symmetric] dw dx wake_query_timers split: prod.splits)
qed

lemma deadline_complete_detached:
  fixes completion :: timer_completion
  assumes w: "up_inv w" and i: "ch_slots (ur_channel w) i = Some q" and X: "\<not> tr_owned (regs X q)"
  defines "outcome \<equiv> (if completion = TimerExpired then QO_Timeout else QO_Cancelled)"
  shows "\<exists>w'. deadline_complete rnd True now q completion (w\<lparr>ur_timers := X\<rparr>) = (True, w'\<lparr>ur_timers := X\<rparr>) \<and> up_inv w'
     \<and> finished now outcome [] 0 i q w w'"
proof -
  from finish_correct [OF w i, of rnd now outcome "[]" 0] obtain w' where
    f: "finish rnd True now outcome [] 0 q w = (True, w')" "up_inv w'" "finished now outcome [] 0 i q w w'" by blast
  moreover have "qa_owned (ur_queries w q)" using up_invD(4) [OF w i] by (simp add: slot_ok_def)
  ultimately show ?thesis
    using finish_timers_frame [OF w X f(1)] by (auto simp: deadline_complete_def finish_deadline_def outcome_def)
qed

lemma new_timer_queue_unowned: "\<not> tr_owned (regs new_timer_queue q)"
  by (simp add: new_timer_queue_def idle_registration_def)

lemma run_deadlines:
  fixes completion :: timer_completion
  assumes "up_inv w" and "distinct qs" and "\<forall>q \<in> set qs. \<exists>i. ch_slots (ur_channel w) i = Some q"
    and "sched_rep (ur_sched w) ready roots"
  defines "outcome \<equiv> (if completion = TimerExpired then QO_Timeout else QO_Cancelled)"
  shows "\<exists>w'. run_callbacks (\<lambda>q completion v. deadline_complete rnd True (clock q) q completion v) completion qs
        (w\<lparr>ur_timers := new_timer_queue\<rparr>) = (0, w'\<lparr>ur_timers := new_timer_queue\<rparr>) \<and> up_inv w'
    \<and> armed (ur_timers w') = armed (ur_timers w) |` (- set qs)
    \<and> (\<forall>q. ur_queries w' q = (if q \<in> set qs then failed_query outcome 0 (ur_queries w q) else ur_queries w q))
    \<and> sched_rep (ur_sched w') (ready @ map (\<lambda>q. the (qa_task (ur_queries w q))) qs) roots"
  using assms(1-4)
proof (induction qs arbitrary: w ready)
  case Nil
  then show ?case by auto
next
  case (Cons q qs)
  then obtain i where i: "ch_slots (ur_channel w) i = Some q" by auto
  from deadline_complete_detached [OF Cons.prems(1) i new_timer_queue_unowned, of rnd "clock q" completion] obtain w1 where
    d: "deadline_complete rnd True (clock q) q completion (w\<lparr>ur_timers := new_timer_queue\<rparr>) = (True, w1\<lparr>ur_timers := new_timer_queue\<rparr>)"
      "up_inv w1" "finished (clock q) outcome [] 0 i q w w1" by (auto simp: outcome_def)
  from d(3) obtain t where t: "qa_task (ur_queries w q) = Some t" "sched_rep (ur_sched w1) (ready @ [t]) roots"
    and sl: "ch_slots (ur_channel w1) = (ch_slots (ur_channel w))(i := None)"
    and qs: "ur_queries w1 = (ur_queries w)(q := failed_query outcome 0 (ur_queries w q))"
    and ar: "armed (ur_timers w1) = (armed (ur_timers w))(q := None)"
    using Cons.prems(4) by (auto simp: finished_def failed_query_def)
  have "\<exists>j. ch_slots (ur_channel w1) j = Some p" if "p \<in> set qs" for p
  proof -
    from that Cons.prems(3) obtain j where j: "ch_slots (ur_channel w) j = Some p" by auto
    moreover from this have "j \<noteq> i" using i that Cons.prems(2) by auto
    ultimately show ?thesis using sl by (intro exI [of _ j]) simp
  qed
  with Cons.IH [OF d(2) _ _ t(2)] Cons.prems(2) obtain w' where
    ih: "run_callbacks (\<lambda>q completion v. deadline_complete rnd True (clock q) q completion v) completion qs
          (w1\<lparr>ur_timers := new_timer_queue\<rparr>) = (0, w'\<lparr>ur_timers := new_timer_queue\<rparr>)" "up_inv w'"
      "armed (ur_timers w') = armed (ur_timers w1) |` (- set qs)"
      "\<forall>p. ur_queries w' p = (if p \<in> set qs then failed_query outcome 0 (ur_queries w1 p) else ur_queries w1 p)"
      "sched_rep (ur_sched w') ((ready @ [t]) @ map (\<lambda>q. the (qa_task (ur_queries w1 q))) qs) roots" by auto
  have nq: "q \<notin> set qs" using Cons.prems(2) by simp
  then have "map (\<lambda>q. the (qa_task (ur_queries w1 q))) qs = map (\<lambda>q. the (qa_task (ur_queries w q))) qs" by (auto simp: qs)
  with ih(5) t(1) have rep: "sched_rep (ur_sched w') (ready @ map (\<lambda>q. the (qa_task (ur_queries w q))) (q # qs)) roots" by simp
  have arm: "armed (ur_timers w') = armed (ur_timers w) |` (- set (q # qs))"
    using ih(3) by (auto simp: ar restrict_map_def fun_eq_iff)
  have que: "\<forall>p. ur_queries w' p = (if p \<in> set (q # qs) then failed_query outcome 0 (ur_queries w p) else ur_queries w p)"
    using ih(4) nq by (auto simp: qs)
  show ?case using ih(1,2) d(1) rep arm que by (intro exI [of _ w']) simp
qed

lemma up_inv_timers:
  assumes "up_inv w" and "timer_inv X" and "tq_running X" and "armed X = armed (ur_timers w)"
  shows "up_inv (w\<lparr>ur_timers := X\<rparr>)"
  using assms unfolding up_inv_def bound_ok_def slot_ok_def by simp

text \<open>The keys of the queries' deadlines.\<close>

lemma slot_deadline:
  assumes "up_inv w" and "ch_slots (ur_channel w) i = Some q"
  shows "armed (ur_timers w) q \<noteq> None \<and> snd (the (armed (ur_timers w) q)) = q
     \<and> fst (keys (ur_timers w) q) = qa_deadline (ur_queries w q)"
proof -
  obtain n where a: "armed (ur_timers w) q = Some ((qa_deadline (ur_queries w q), n), q)"
    using up_invD(4) [OF assms] by (auto simp: slot_ok_def)
  then have "q \<in> set (heap (ur_timers w))" by (metis dom_armed domI)
  from armed_keys [OF this] a have "keys (ur_timers w) q = (qa_deadline (ur_queries w q), n)" by simp
  with a show ?thesis by simp
qed

lemma sift_down_control: "control (sift_down j tq) = control tq"
  by (induction j tq rule: sift_down.induct)
    (subst sift_down.simps, simp add: Let_def control_def swap_nodes_def set_heap_index_def)

lemma remove_at_control: "control (snd (remove_at j tq)) = control tq"
proof -
  have "control (detach_at j tq) = control tq"
    by (simp add: detach_at_def Let_def sift_up_control sift_down_control)
      (simp add: control_def set_heap_index_def)
  then show ?thesis by (simp add: remove_at_def Let_def control_def)
qed

lemma complete_front_running:
  assumes "complete_front run c res tq v = (res', tq', v')"
  shows "tq_running tq' = tq_running tq" "tq_scheduler tq' = tq_scheduler tq"
  using assms remove_at_control [of 0 tq]
  by (auto simp: complete_front_def Let_def control_def clear_callback_def split: prod.splits if_splits)

lemma expire_loop_running:
  "expire_loop run now budget res tq v = (res', tq', v') \<Longrightarrow> tq_running tq' = tq_running tq"
proof (induction run now budget res tq v rule: expire_loop.induct)
  case (1 run now budget res tq v)
  obtain x1 x2 x3 where c: "complete_front run TimerExpired res tq v = (x1, x2, x3)" by (metis prod_cases3)
  show ?case
  proof (cases "dispatched res < budget \<and> heap tq \<noteq> [] \<and> tr_deadline (reg_at tq 0) \<le> now")
    case True
    with 1(2) c have "expire_loop run now budget x1 x2 x3 = (res', tq', v')"
      by (subst (asm) expire_loop.simps) simp
    with 1(1) [OF True c [symmetric] refl] complete_front_running [OF c] show ?thesis by simp
  next
    case False
    with 1(2) show ?thesis by (subst (asm) expire_loop.simps) auto
  qed
qed

lemma expire_deadlines_run:
  assumes w: "up_inv w" and rep: "sched_rep (ur_sched w) ready roots"
    and e: "expire_deadlines rnd clock now budget w = (result, w')"
  shows "up_inv w' \<and> schedule_failures result = 0 \<and> dispatched result \<le> budget
    \<and> (\<exists>qs. distinct qs \<and> dispatched result = length qs
         \<and> (\<forall>q \<in> set qs. (\<exists>i. ch_slots (ur_channel w) i = Some q) \<and> qa_deadline (ur_queries w q) \<le> now)
         \<and> sorted (map (\<lambda>q. qa_deadline (ur_queries w q)) qs)
         \<and> (\<forall>q. ur_queries w' q = (if q \<in> set qs then failed_query QO_Timeout 0 (ur_queries w q) else ur_queries w q))
         \<and> sched_rep (ur_sched w') (ready @ map (\<lambda>q. the (qa_task (ur_queries w q))) qs) roots
         \<and> (length qs < budget \<longrightarrow> (\<forall>i q. ch_slots (ur_channel w) i = Some q \<longrightarrow> qa_deadline (ur_queries w q) \<le> now \<longrightarrow> q \<in> set qs)))"
proof -
  let ?run = "\<lambda>q completion v. deadline_complete rnd True (clock q) q completion v"
  let ?T = "ur_timers w"
  have ti: "timer_inv ?T" "tq_running ?T" using up_invD(3) [OF w] by (simp_all add: bound_ok_def)
  obtain res1 T v where l: "expire_loop ?run now budget no_dispatch ?T (w\<lparr>ur_timers := new_timer_queue\<rparr>) = (res1, T, v)"
    by (metis prod_cases3)
  from expire_loop_correct [OF ti(1) l] obtain qs n where
    p: "dispatched_prefix ?T qs T" "\<forall>r \<in> set qs. fst (keys ?T r) \<le> now"
      "run_callbacks ?run TimerExpired (callbacks ?T qs) (w\<lparr>ur_timers := new_timer_queue\<rparr>) = (n, v)"
      "res1 = no_dispatch\<lparr>dispatched := length qs, schedule_failures := n\<rparr>"
      "length qs < budget \<longrightarrow> (\<forall>x \<in> set (heap T). now < fst (keys ?T x))" "length qs \<le> budget"
    by (auto simp: no_dispatch_def)
  have slot: "\<exists>i. ch_slots (ur_channel w) i = Some q" if "q \<in> set qs" for q
    using that p(1) up_invD(7) [OF w, of q] by (auto simp: dispatched_prefix_def armed_def)
  have cb: "callbacks ?T qs = qs"
    unfolding callbacks_def using slot slot_deadline [OF w] by (intro map_idI) blast
  have dl: "fst (keys ?T q) = qa_deadline (ur_queries w q)" if "q \<in> set qs" for q
    using slot [OF that] slot_deadline [OF w] by blast
  have d: "distinct qs" "timer_inv T" "armed T = armed ?T |` (- set qs)" "sorted_wrt (\<le>) (map (keys ?T) qs)"
    using p(1) by (simp_all add: dispatched_prefix_def)
  from run_deadlines [OF w d(1) _ rep, of rnd clock TimerExpired] slot obtain w1 where
    r: "run_callbacks ?run TimerExpired qs (w\<lparr>ur_timers := new_timer_queue\<rparr>) = (0, w1\<lparr>ur_timers := new_timer_queue\<rparr>)" "up_inv w1"
      "armed (ur_timers w1) = armed ?T |` (- set qs)"
      "\<forall>q. ur_queries w1 q = (if q \<in> set qs then failed_query QO_Timeout 0 (ur_queries w q) else ur_queries w q)"
      "sched_rep (ur_sched w1) (ready @ map (\<lambda>q. the (qa_task (ur_queries w q))) qs) roots" by auto
  have nv: "n = 0" "v = w1\<lparr>ur_timers := new_timer_queue\<rparr>" using p(3) r(1) cb by auto
  have res: "dispatched result = length qs" "schedule_failures result = 0" "w' = w1\<lparr>ur_timers := T\<rparr>"
    using e l ti(2) p(4) nv by (auto simp: expire_deadlines_def timer_expire_def timer_on_owner_def Let_def)
  have "tq_running T" using expire_loop_running [OF l] ti(2) by simp
  with r d have inv: "up_inv w'" unfolding res(3) by (intro up_inv_timers) simp_all
  have "sorted (map (\<lambda>q. fst (keys ?T q)) qs)"
    using d(4) by (simp add: sorted_wrt_map) (auto elim!: sorted_wrt_mono_rel [rotated] simp: less_eq_prod_def)
  moreover have "map (\<lambda>q. fst (keys ?T q)) qs = map (\<lambda>q. qa_deadline (ur_queries w q)) qs" using dl by simp
  ultimately have so: "sorted (map (\<lambda>q. qa_deadline (ur_queries w q)) qs)" by metis
  have all: "q \<in> set qs" if "length qs < budget" "ch_slots (ur_channel w) i = Some q" "qa_deadline (ur_queries w q) \<le> now" for i q
  proof (rule ccontr)
    assume "q \<notin> set qs"
    then have "armed T q \<noteq> None" using slot_deadline [OF w that(2)] d(3) by simp
    then have "q \<in> set (heap T)" by (auto simp: armed_def split: if_splits)
    with p(5) that(1) slot_deadline [OF w that(2)] that(3) show False by fastforce
  qed
  have slots: "\<forall>q \<in> set qs. (\<exists>i. ch_slots (ur_channel w) i = Some q) \<and> qa_deadline (ur_queries w q) \<le> now"
    using slot dl p(2) by fastforce
  show ?thesis
    using inv res p(6) d(1) slots so all r(4,5) by (intro conjI exI [of _ qs]) auto
qed

text \<open>
  C40. Expiry ends only queries whose deadline has passed, each with a timeout, within its budget, and
  wakes exactly their tasks in the order of the deadlines.  If the budget was not used up, no query
  whose deadline has passed is left.
\<close>

theorem expire_deadlines_correct:
  assumes w: "up_inv w" and rep: "sched_rep (ur_sched w) ready roots"
    and e: "expire_deadlines rnd clock now budget w = (result, w')"
  shows "up_inv w' \<and> schedule_failures result = 0 \<and> dispatched result \<le> budget
    \<and> (\<exists>qs. distinct qs \<and> dispatched result = length qs
         \<and> (\<forall>q \<in> set qs. (\<exists>i. ch_slots (ur_channel w) i = Some q) \<and> qa_deadline (ur_queries w q) \<le> now)
         \<and> sorted (map (\<lambda>q. qa_deadline (ur_queries w q)) qs)
         \<and> (\<forall>q. ur_queries w' q = (if q \<in> set qs then failed_query QO_Timeout 0 (ur_queries w q) else ur_queries w q))
         \<and> sched_rep (ur_sched w') (ready @ map (\<lambda>q. the (qa_task (ur_queries w q))) qs) roots
         \<and> (length qs < budget \<longrightarrow> (\<forall>i q. ch_slots (ur_channel w) i = Some q \<longrightarrow> qa_deadline (ur_queries w q) \<le> now \<longrightarrow> q \<in> set qs)))"
  by (rule expire_deadlines_run [OF assms])

section \<open>Starting and draining\<close>

lemma check_ids_cong:
  "ch_id_states c' = ch_id_states c \<Longrightarrow> ch_slots c' = ch_slots c \<Longrightarrow> check_ids c' cap st ids seen = check_ids c cap st ids seen"
  by (induction c cap st ids seen rule: check_ids.induct) simp_all

lemma validate_id_pool_cong:
  assumes "ch_id_states c' = ch_id_states c" "ch_slots c' = ch_slots c" "ch_free_ids c' = ch_free_ids c"
    "ch_retired_ids c' = ch_retired_ids c" "ch_pending_count c' = ch_pending_count c"
  shows "validate_id_pool cap c' = validate_id_pool cap c"
proof -
  have "check_slot c' cap = check_slot c cap" using assms by (simp add: check_slot_def fun_eq_iff)
  with assms check_ids_cong [OF assms(1,2)] show ?thesis by (simp add: validate_id_pool_def cong: option.case_cong)
qed

lemma idle_up_inv:
  assumes "validate_id_pool (capacity (ur_channel w)) (ur_channel w)" and "bound_ok w"
    and "armed (ur_timers w) = Map.empty" and "\<forall>q. \<not> (qa_owned (ur_queries w q) \<and> qa_state (ur_queries w q) = QS_Pending)"
  shows "up_inv w"
proof -
  from assms(1) have v: "pool_ok (ur_channel w)" "ch_pending_count (ur_channel w) = 0"
    "\<And>i. ch_slots (ur_channel w) i = None" "\<And>i. ch_id_states (ur_channel w) i \<noteq> IdPending"
    unfolding validate_id_pool_spec by auto
  then have "ids_ok (ur_channel w)" by (simp add: ids_ok_def dom_def)
  with assms v show ?thesis unfolding up_inv_def by (simp add: fun_eq_iff)
qed

lemma channel_start_correct:
  assumes e: "channel_start rnd True now input fd cfg w = (True, w')" and rep: "sched_rep (ur_sched w) ready roots"
    and t: "timer_inv (ur_timers w)" "armed (ur_timers w) = Map.empty"
    and q: "\<forall>q. \<not> (qa_owned (ur_queries w q) \<and> qa_state (ur_queries w q) = QS_Pending)"
  shows "up_inv w' \<and> ch_accepting (ur_channel w') \<and> ch_config (ur_channel w') = cfg \<and> ur_sched w' = ur_sched w
    \<and> ur_timers w' = ur_timers w \<and> ur_queries w' = ur_queries w"
proof -
  define c2 where "c2 = (let c1 = (ur_channel w)\<lparr>ch_slots := (\<lambda>_. None), ch_stats := no_channel_stats\<rparr> in
    if \<not> ch_has_started (ur_channel w) then initialize_id_pool rnd cfg c1 else reclaim_ids rnd now c1)"
  define c3 where "c3 = c2\<lparr>ch_scheduler := Some (sc_self (ur_sched w)), ch_timers := True, ch_config := cfg,
     ch_socket_fd := fd, ch_pending_count := 0, ch_running := True, ch_accepting := True, ch_has_started := True\<rparr>"
  from e have g: "timers_bound_to (ur_timers w) (sc_self (ur_sched w))" "0 < query_timeout cfg"
      "query_timeout cfg \<le> id_reuse_guard cfg" and v: "validate_id_pool (transaction_id_capacity cfg) c2"
      and w': "w' = w\<lparr>ur_channel := c3\<rparr>"
    by (auto simp: channel_start_def c2_def c3_def Let_def split: if_splits)
  have "ch_pending_count c2 = 0" using v by (auto simp: validate_id_pool_def split: if_splits)
  then have "validate_id_pool (transaction_id_capacity cfg) c3"
    using v by (subst validate_id_pool_cong [of c3 c2]) (simp_all add: c3_def)
  moreover have "bound_ok w'"
    using rep t g by (auto simp: w' bound_ok_def c3_def timers_bound_to_def)
  ultimately have "up_inv w'" using t q by (intro idle_up_inv) (simp_all add: w' c3_def)
  then show ?thesis by (simp add: w' c3_def)
qed

lemma handle_datagram_inv:
  assumes "up_inv w" and "handle_datagram rnd True now packet was_truncated w = (r, w')"
  shows "up_inv w'"
  using handle_datagram_cases [OF assms]
proof
  assume "r = PR_Completed \<and> \<not> was_truncated \<and> (\<exists>i q m response. answers_query w packet i q m
      \<and> rewrite_transaction_id packet (hdr_id (qa_header (ur_queries w q))) = Inr response
      \<and> finish rnd True now QO_Response response 0 q w = (True, w'))"
  then obtain i q response where "ch_slots (ur_channel w) i = Some q" "finish rnd True now QO_Response response 0 q w = (True, w')"
    by (auto simp: answers_query_valid)
  with finish_correct [OF assms(1), of i q rnd now QO_Response response 0] show ?thesis by auto
next
  assume "(r = PR_Invalid \<or> r = PR_Unmatched) \<and> (was_truncated \<or> (\<forall>i q m. \<not> answers_query w packet i q m))
      \<and> (\<exists>f. w' = on_channel (on_stats f) w)"
  with up_inv_stats [OF assms(1)] show ?thesis by auto
qed

lemma fail_all_inv:
  assumes "up_inv w" and "outcome = QO_Cancelled \<or> outcome = QO_SocketError"
  shows "up_inv (snd (fail_all rnd True clock outcome e w))
    \<and> (\<forall>i. ch_slots (ur_channel (snd (fail_all rnd True clock outcome e w))) i = None)"
proof -
  from up_invD(3) [OF assms(1)] obtain ready roots where "sched_rep (ur_sched w) ready roots" by (auto simp: bound_ok_def)
  from fail_all_correct [OF assms this, of rnd clock e] show ?thesis by auto
qed

text \<open>The number of datagrams among the first answers, up to the first answer that ends the loop.\<close>

lemma drain_loop_correct:
  assumes "up_inv w" and "dr_datagrams result \<le> budget" and "drain_loop rnd True clock budget input result w = (result', w')"
    and "\<not> dr_socket_error result"
  shows "up_inv w' \<and> dr_datagrams result' \<le> budget
    \<and> (dr_socket_error result' \<longrightarrow> (\<forall>i. ch_slots (ur_channel w') i = None))"
  using assms
proof (induction input arbitrary: result w)
  case Nil
  then show ?case by (auto split: if_splits)
next
  case (Cons answer rest)
  show ?case
  proof (cases "dr_datagrams result < budget")
    case False
    with Cons.prems show ?thesis by auto
  next
    case True
    show ?thesis
    proof (cases answer)
      case (Datagram bytes longer)
      obtain r w1 where h: "handle_datagram rnd True (clock (dr_datagrams result)) (take kUpstreamReceiveBufferSize bytes)
          (longer \<or> length bytes > kUpstreamReceiveBufferSize) w = (r, w1)" by fastforce
      have "up_inv w1" by (rule handle_datagram_inv [OF Cons.prems(1) h])
      from Cons.IH [OF this, of "result\<lparr>dr_datagrams := dr_datagrams result + 1\<rparr>"] True Datagram h Cons.prems(3,4)
      show ?thesis by (simp add: Let_def)
    next
      case (RecvErrno e)
      consider (intr) "e = errno_EINTR" | (again) "e = errno_EAGAIN" "e \<noteq> errno_EINTR"
        | (failed) "e \<noteq> errno_EINTR" "e \<noteq> errno_EAGAIN" by blast
      then show ?thesis
      proof cases
        case intr
        with True RecvErrno Cons.prems show ?thesis by (intro Cons.IH [of w result]) simp_all
      next
        case again
        with True RecvErrno Cons.prems show ?thesis by auto
      next
        case failed
        then have "result' = result\<lparr>dr_socket_error := True\<rparr>" "w' = snd (fail_all rnd True clock QO_SocketError e w)"
          using True RecvErrno Cons.prems(3) by auto
        with fail_all_inv [OF Cons.prems(1), of QO_SocketError rnd clock e] Cons.prems(2) show ?thesis by simp
      qed
    qed
  qed
qed

lemma drain_inv: "up_inv w \<Longrightarrow> up_inv (snd (drain rnd True clock budget input w))"
  using drain_loop_correct [of w "\<lparr>dr_datagrams = 0, dr_has_more = False, dr_socket_error = False\<rparr>" budget rnd clock input]
  by (cases "drain_loop rnd True clock budget input \<lparr>dr_datagrams = 0, dr_has_more = False, dr_socket_error = False\<rparr> w")
    (simp add: drain_def Let_def)

section \<open>Awaiting a query\<close>

lemma settled_up_inv:
  assumes "up_inv w" and "unslotted q w" and "\<not> qa_owned (f (ur_queries w q)) \<or> qa_state (f (ur_queries w q)) \<noteq> QS_Pending"
  shows "up_inv (set_query q f w)"
proof (rule up_inv_same_slots [OF assms(1,2)])
  show "ids_ok (ur_channel (set_query q f w))" using up_invD(1) [OF assms(1)] by (simp add: set_query_def)
  show "bound_ok (set_query q f w)" using up_invD(3) [OF assms(1)] by (simp add: set_query_def bound_ok_def)
  show "ur_queries (set_query q f w) = (ur_queries w)(q := f (ur_queries w q))" by (simp add: set_query_def)
qed (use assms(3) in \<open>simp_all add: set_query_def\<close>)

lemma unslotted_unarmed: "up_inv w \<Longrightarrow> unslotted q w \<Longrightarrow> armed (ur_timers w) q = None"
  using up_invD(7) by (fastforce simp: unslotted_def)

lemma query_begin_inv:
  assumes w: "up_inv w" and k: "wakeable (ur_sched w) task" and q: "wf_question (qa_question (ur_queries w q))"
    and o: "\<And>j q'. ch_slots (ur_channel w) j = Some q' \<Longrightarrow> qa_task (ur_queries w q') \<noteq> Some task"
    and u: "unslotted q w" and e: "query_begin rnd True task now later send q w = (suspended, w')"
  shows "up_inv w'"
proof (cases "\<not> qa_owned (ur_queries w q) \<or> qa_state (ur_queries w q) \<noteq> QS_Idle")
  case True
  with e have "w' = set_query q (\<lambda>a. a\<lparr>qa_state := QS_Failed, qa_error := Some ''upstream query awaiter cannot be reused''\<rparr>) w"
    by (simp add: query_begin_def)
  then show ?thesis using settled_up_inv [OF w u] by simp
next
  case False
  obtain r w1 where b: "channel_begin rnd True task now later send q w = (r, w1)" by fastforce
  have "can_begin task q w" using w k q o u unslotted_unarmed [OF w u] by (simp add: can_begin_def)
  note c = channel_begin_cases [OF this b]
  show ?thesis
  proof (cases "r = BR_Suspended")
    case True
    with c e b False show ?thesis by (simp add: query_begin_def)
  next
    case ns: False
    then have "unslotted q w1" using c u by (simp add: not_begun_def unslotted_def)
    note s = settled_up_inv [OF conjunct1 [OF c] this]
    from e b False ns have "\<exists>f. w' = set_query q f w1 \<and> \<not> qa_owned (f (ur_queries w1 q))"
      by (cases r) (auto simp: query_begin_def settle_query_def fail_query_def)
    with s show ?thesis by blast
  qed
qed

section \<open>Every reachable state\<close>

text \<open>
  What happens on the worker's thread between the start and the stop of a channel: a coroutine creates a
  query and awaits it, the socket is drained, deadlines expire, queries are cancelled or their coroutines
  destroyed, the channel stops to accept queries.  \<open>up_tasks\<close> is the rest of the worker: the scheduler
  runs other coroutines and leaves those that wait for an answer asleep.
\<close>

inductive upstream_step :: "upstream_runtime \<Rightarrow> upstream_runtime \<Rightarrow> bool" where
  up_query: "unslotted q w \<Longrightarrow> wf_question question \<Longrightarrow>
     upstream_step w (set_query q (\<lambda>_. new_query h question (query_deadline (ch_config (ur_channel w)) now)) w)"
| up_await: "unslotted q w \<Longrightarrow> wf_question (qa_question (ur_queries w q)) \<Longrightarrow> wakeable (ur_sched w) task \<Longrightarrow>
     (\<And>j q'. ch_slots (ur_channel w) j = Some q' \<Longrightarrow> qa_task (ur_queries w q') \<noteq> Some task) \<Longrightarrow>
     query_await_suspend rnd True task now later send q w = (suspended, w') \<Longrightarrow> upstream_step w w'"
| up_drain: "drain rnd True clock budget input w = (result, w') \<Longrightarrow> upstream_step w w'"
| up_expire: "expire_deadlines rnd clock now budget w = (expired, w') \<Longrightarrow> upstream_step w w'"
| up_abandon: "upstream_step w (query_destroy rnd True now q w)"
| up_cancel: "channel_cancel_all rnd True clock w = (cancelled, w') \<Longrightarrow> upstream_step w w'"
| up_close: "channel_close True (ur_channel w) = (True, c) \<Longrightarrow> upstream_step w (w\<lparr>ur_channel := c\<rparr>)"
| up_tasks: "sched_rep s ready roots \<Longrightarrow> sc_self s = sc_self (ur_sched w) \<Longrightarrow>
     (\<And>i q t. ch_slots (ur_channel w) i = Some q \<Longrightarrow> qa_task (ur_queries w q) = Some t \<Longrightarrow> wakeable s t) \<Longrightarrow>
     upstream_step w (w\<lparr>ur_sched := s\<rparr>)"

inductive upstream_reachable :: "upstream_runtime \<Rightarrow> upstream_runtime \<Rightarrow> bool" for start where
  ur_start: "upstream_reachable start start"
| ur_step: "upstream_reachable start w \<Longrightarrow> upstream_step w w' \<Longrightarrow> upstream_reachable start w'"

lemma up_inv_tasks:
  assumes w: "up_inv w" and s: "sched_rep s ready roots" "sc_self s = sc_self (ur_sched w)"
    and k: "\<And>i q t. ch_slots (ur_channel w) i = Some q \<Longrightarrow> qa_task (ur_queries w q) = Some t \<Longrightarrow> wakeable s t"
  shows "up_inv (w\<lparr>ur_sched := s\<rparr>)"
proof -
  have "slot_ok (w\<lparr>ur_sched := s\<rparr>) i q" if "ch_slots (ur_channel w) i = Some q" for i q
    using up_invD(4) [OF w that] k [OF that] by (auto simp: slot_ok_def)
  with w s show ?thesis unfolding up_inv_def bound_ok_def by auto
qed

lemma wakeable_observe: "wakeable (observe_external_stop s) t = wakeable s t"
  by (simp add: wakeable_def observe_external_stop_def)

lemma up_inv_observe:
  assumes "up_inv w"
  shows "up_inv (w\<lparr>ur_sched := observe_external_stop (ur_sched w)\<rparr>)"
proof -
  from up_invD(3) [OF assms] obtain ready roots where rep: "sched_rep (ur_sched w) ready roots" by (auto simp: bound_ok_def)
  show ?thesis
  proof (rule up_inv_tasks [OF assms])
    show "sched_rep (observe_external_stop (ur_sched w)) ready roots"
      using same_links_rep [of "ur_sched w" "observe_external_stop (ur_sched w)"] rep by simp
    show "sc_self (observe_external_stop (ur_sched w)) = sc_self (ur_sched w)" by (simp add: observe_external_stop_def)
    show "wakeable (observe_external_stop (ur_sched w)) t"
      if "ch_slots (ur_channel w) i = Some q" "qa_task (ur_queries w q) = Some t" for i q t
      using up_invD(4) [OF assms that(1)] that(2) by (auto simp: slot_ok_def wakeable_observe)
  qed
qed

lemma query_await_suspend_inv:
  assumes w: "up_inv w" and q: "unslotted q w" "wf_question (qa_question (ur_queries w q))" and k: "wakeable (ur_sched w) task"
    and o: "\<And>j q'. ch_slots (ur_channel w) j = Some q' \<Longrightarrow> qa_task (ur_queries w q') \<noteq> Some task"
    and e: "query_await_suspend rnd True task now later send q w = (suspended, w')"
  shows "up_inv w'"
proof -
  define v where "v = w\<lparr>ur_sched := observe_external_stop (ur_sched w)\<rparr>"
  have v: "up_inv v" "unslotted q v" using up_inv_observe [OF w] q(1) by (simp_all add: v_def unslotted_def)
  have "tp_scheduler (sc_tasks (ur_sched w) task) \<noteq> None" using k by (simp add: wakeable_def)
  then have c: "w' = set_query q (settle_query QO_Cancelled) v \<or> query_begin rnd True task now later send q v = (suspended, w')"
    using e by (auto simp: query_await_suspend_def Let_def v_def split: if_splits)
  have kv: "wakeable (ur_sched v) task" using k by (simp add: v_def wakeable_observe)
  have "up_inv (set_query q (settle_query QO_Cancelled) v)" using settled_up_inv [OF v] by (simp add: settle_query_def)
  moreover have "up_inv w'" if "query_begin rnd True task now later send q v = (suspended, w')"
    by (rule query_begin_inv [OF v(1) kv _ _ v(2) that]) (use q(2) o in \<open>simp_all add: v_def\<close>)
  ultimately show ?thesis using c by blast
qed

lemma expire_deadlines_inv:
  assumes "up_inv w" and "expire_deadlines rnd clock now budget w = (r, w')"
  shows "up_inv w'"
proof -
  from up_invD(3) [OF assms(1)] obtain ready roots where "sched_rep (ur_sched w) ready roots" by (auto simp: bound_ok_def)
  from expire_deadlines_run [OF assms(1) this assms(2)] show ?thesis by blast
qed

lemma up_inv_close:
  assumes "up_inv w"
  shows "up_inv (on_channel (\<lambda>c. c\<lparr>ch_accepting := False\<rparr>) w)"
proof -
  have "pool_ok ((ur_channel w)\<lparr>ch_accepting := False\<rparr>) = pool_ok (ur_channel w)" by (rule pool_ok_cong) simp_all
  with assms show ?thesis unfolding up_inv_def by (auto simp: on_channel_def bound_ok_def ids_ok_def slot_ok_def)
qed

text \<open>The destructor of a running channel ends its queries and does not terminate the program.\<close>

lemma channel_destroy_correct:
  assumes "up_inv w"
  shows "\<exists>w'. channel_destroy rnd True clock w = Some w' \<and> ch_pending_count (ur_channel w') = 0"
proof -
  let ?w = "on_channel (\<lambda>c. c\<lparr>ch_accepting := False\<rparr>) w"
  have f: "up_inv (snd (channel_cancel_all rnd True clock ?w))"
    "\<And>i. ch_slots (ur_channel (snd (channel_cancel_all rnd True clock ?w))) i = None"
    using fail_all_inv [OF up_inv_close [OF assms], of QO_Cancelled rnd clock 0] by (simp_all add: channel_cancel_all_def)
  have "ch_pending_count (ur_channel (snd (channel_cancel_all rnd True clock ?w))) = 0"
    using up_invD(1) [OF f(1)] f(2) by (simp add: ids_ok_def dom_def)
  with up_invD(3) [OF assms] show ?thesis
    by (simp add: channel_destroy_def Let_def channel_on_owner_def bound_ok_def)
qed

lemma upstream_step_inv:
  assumes "upstream_step w w'" and "up_inv w"
  shows "up_inv w'"
  using assms
proof (induction rule: upstream_step.induct)
  case (up_query q w question h now)
  then show ?case by (intro settled_up_inv) (simp_all add: new_query_def)
next
  case (up_await q w task rnd now later send suspended w')
  then show ?case using query_await_suspend_inv by blast
next
  case (up_drain rnd clock budget input w result w')
  then show ?case using drain_inv by (metis snd_conv)
next
  case (up_expire rnd clock now budget w expired w')
  then show ?case using expire_deadlines_inv by blast
next
  case (up_abandon w rnd now q)
  then show ?case using abandon_correct by (simp add: query_destroy_def)
next
  case (up_cancel rnd clock w cancelled w')
  then show ?case using fail_all_inv [of w QO_Cancelled rnd clock 0] by (simp add: channel_cancel_all_def)
next
  case (up_close w c)
  then have "w\<lparr>ur_channel := c\<rparr> = on_channel (\<lambda>c. c\<lparr>ch_accepting := False\<rparr>) w"
    by (auto simp: channel_close_def on_channel_def split: if_splits)
  with up_close(2) show ?case by (simp add: up_inv_close)
next
  case (up_tasks s ready roots w)
  then show ?case using up_inv_tasks by blast
qed

lemma upstream_reachable_inv: "upstream_reachable start w \<Longrightarrow> up_inv start \<Longrightarrow> up_inv w"
  by (induction rule: upstream_reachable.induct) (auto intro: upstream_step_inv)

lemma pending_ids: "up_inv w \<Longrightarrow> {i. ch_id_states (ur_channel w) i = IdPending} = dom (ch_slots (ur_channel w))"
  using up_invD(1) [of w] pool_slot_pending [of "ur_channel w"] by (auto simp: ids_ok_def)

text \<open>A pending query holds its transaction ID.\<close>

definition holds_id :: "upstream_runtime \<Rightarrow> nat \<Rightarrow> u16 \<Rightarrow> bool" where
  "holds_id w q i \<longleftrightarrow> qa_owned (ur_queries w q) \<and> qa_state (ur_queries w q) = QS_Pending
     \<and> qa_transaction_id (ur_queries w q) = i"

lemma holds_id_iff:
  assumes "up_inv w"
  shows "holds_id w q i \<longleftrightarrow> ch_slots (ur_channel w) i = Some q"
  using up_invD(4,6) [OF assms] by (auto simp: holds_id_def slot_ok_def)

lemma holders_card:
  assumes "up_inv w"
  shows "card {q. \<exists>i. holds_id w q i} = ch_pending_count (ur_channel w)"
proof -
  let ?c = "ur_channel w"
  have "{q. \<exists>i. holds_id w q i} = (\<lambda>i. the (ch_slots ?c i)) ` dom (ch_slots ?c)"
    unfolding holds_id_iff [OF assms] by force
  moreover have "inj_on (\<lambda>i. the (ch_slots ?c i)) (dom (ch_slots ?c))"
    using slot_unique [OF assms] by (auto simp: inj_on_def)
  ultimately show ?thesis using up_invD(1) [OF assms] by (simp add: card_image ids_ok_def)
qed

lemma ids_partition:
  assumes "up_inv w"
  defines "c \<equiv> ur_channel w"
  shows "set (ch_free_ids c) \<union> snd ` set (ch_retired_ids c) \<union> {i. \<exists>q. holds_id w q i} = {i. unat i < capacity c}"
    and "set (ch_free_ids c) \<inter> snd ` set (ch_retired_ids c) = {}"
    and "(set (ch_free_ids c) \<union> snd ` set (ch_retired_ids c)) \<inter> {i. \<exists>q. holds_id w q i} = {}"
proof -
  note k = pool_okD [OF up_invD(2) [OF assms(1)], folded c_def]
  have h: "{i. \<exists>q. holds_id w q i} = {i. ch_id_states c i = IdPending}"
    using pending_ids [OF assms(1)] by (auto simp: holds_id_iff [OF assms(1)] c_def dom_def)
  have f: "set (ch_free_ids c) = {i. ch_id_states c i = IdFree}"
    and r: "snd ` set (ch_retired_ids c) = {i. ch_id_states c i = IdRetired}" using k(6,7) by blast+
  have "ch_id_states c i = IdFree \<or> ch_id_states c i = IdRetired \<or> ch_id_states c i = IdPending
      \<longleftrightarrow> unat i < capacity c" for i
    using k(8) [of i] by (cases "ch_id_states c i") auto
  then show "set (ch_free_ids c) \<union> snd ` set (ch_retired_ids c) \<union> {i. \<exists>q. holds_id w q i} = {i. unat i < capacity c}"
    unfolding h f r by blast
  show "set (ch_free_ids c) \<inter> snd ` set (ch_retired_ids c) = {}"
    "(set (ch_free_ids c) \<union> snd ` set (ch_retired_ids c)) \<inter> {i. \<exists>q. holds_id w q i} = {}"
    unfolding h f r by auto
qed

text \<open>
  C9. In every state that a started channel can reach, the IDs of its capacity are partitioned: each is
  listed once as free, listed once in quarantine, or held by a pending query, never two of these; two
  queries never hold the same ID, and the slot of an ID names its holder.  The counter of pending
  queries is their exact number.  The armed deadlines are exactly those of the pending queries, each
  armed for its own instant, and each pending query has a task that can be woken.
\<close>

theorem upstream_reachable_correct:
  assumes "channel_start rnd True now input fd cfg w0 = (True, start)" and "sched_rep (ur_sched w0) ready roots"
    and "timer_inv (ur_timers w0)" and "armed (ur_timers w0) = Map.empty"
    and "\<forall>q. \<not> (qa_owned (ur_queries w0 q) \<and> qa_state (ur_queries w0 q) = QS_Pending)" and "upstream_reachable start w"
  shows "distinct (ch_free_ids (ur_channel w)) \<and> distinct (map snd (ch_retired_ids (ur_channel w)))
    \<and> set (ch_free_ids (ur_channel w)) \<union> snd ` set (ch_retired_ids (ur_channel w)) \<union> {i. \<exists>q. holds_id w q i}
        = {i. unat i < capacity (ur_channel w)}
    \<and> set (ch_free_ids (ur_channel w)) \<inter> snd ` set (ch_retired_ids (ur_channel w)) = {}
    \<and> (set (ch_free_ids (ur_channel w)) \<union> snd ` set (ch_retired_ids (ur_channel w))) \<inter> {i. \<exists>q. holds_id w q i} = {}
    \<and> (\<forall>i q p. holds_id w q i \<and> holds_id w p i \<longrightarrow> q = p)
    \<and> (\<forall>i q. ch_slots (ur_channel w) i = Some q \<longleftrightarrow> holds_id w q i)
    \<and> ch_pending_count (ur_channel w) = card {q. \<exists>i. holds_id w q i}
    \<and> (\<forall>q. armed (ur_timers w) q \<noteq> None \<longleftrightarrow> (\<exists>i. holds_id w q i))
    \<and> (\<forall>q i. holds_id w q i \<longrightarrow> (\<exists>n. armed (ur_timers w) q = Some ((qa_deadline (ur_queries w q), n), q))
          \<and> (\<exists>t. qa_task (ur_queries w q) = Some t \<and> wakeable (ur_sched w) t))"
proof -
  have w: "up_inv w" using channel_start_correct [OF assms(1-5)] upstream_reachable_inv [OF assms(6)] by blast
  note h = holds_id_iff [OF w]
  have slot: "(\<exists>n. armed (ur_timers w) q = Some ((qa_deadline (ur_queries w q), n), q))
      \<and> (\<exists>t. qa_task (ur_queries w q) = Some t \<and> wakeable (ur_sched w) t)" if "holds_id w q i" for q i
    using that up_invD(4) [OF w] unfolding h slot_ok_def by blast
  moreover have "armed (ur_timers w) q \<noteq> None \<longleftrightarrow> (\<exists>i. holds_id w q i)" for q
    using up_invD(7) [OF w, of q] slot [of q] unfolding h by fastforce
  moreover have "q = p" if "holds_id w q i \<and> holds_id w p i" for i q p using that h by (metis option.inject)
  ultimately show ?thesis
    using pool_okD(3,4) [OF up_invD(2) [OF w]] ids_partition [OF w] holders_card [OF w] h by simp
qed

text \<open>
  Draining the socket handles at most the budget of datagrams and keeps the invariant; after a socket
  error no query is left pending.  Its loop ends when the socket would block.
\<close>

lemma drain_correct:
  assumes "up_inv w" and "drain rnd True clock budget input w = (result, w')"
  shows "up_inv w' \<and> dr_datagrams result \<le> budget
    \<and> (dr_socket_error result \<longrightarrow> ch_pending_count (ur_channel w') = 0)"
proof -
  have "up_inv w' \<and> dr_datagrams result \<le> budget
      \<and> (dr_socket_error result \<longrightarrow> (\<forall>i. ch_slots (ur_channel w') i = None))"
    using drain_loop_correct [OF assms(1) _, of "\<lparr>dr_datagrams = 0, dr_has_more = False, dr_socket_error = False\<rparr>" budget]
      assms(2) up_invD(3) [OF assms(1)]
    by (simp add: drain_def Let_def bound_ok_def channel_on_owner_def)
  then show ?thesis using up_invD(1) [of w'] by (auto simp: ids_ok_def dom_def)
qed

section \<open>Witnesses\<close>

text \<open>A worker with two tasks, before and after its channel is started, and with one query on its way.\<close>

definition idle_runtime :: upstream_runtime where
  "idle_runtime = \<lparr>ur_channel = idle_channel small_config,
     ur_queries = (\<lambda>_. (new_query default_header sample_question 5)\<lparr>qa_owned := False\<rparr>),
     ur_timers = started_timer_queue, ur_sched = two_bound\<rparr>"

definition started_runtime :: upstream_runtime where
  "started_runtime = snd (channel_start id True 0 [] 3 small_config idle_runtime)"

definition asking_runtime :: upstream_runtime where
  "asking_runtime = set_query 9 (\<lambda>_. new_query default_header sample_question 5) started_runtime"

definition accept_all :: "byte list \<Rightarrow> send_outcome" where
  "accept_all bytes = SentBytes (length bytes)"

definition waiting_runtime :: upstream_runtime where
  "waiting_runtime = snd (channel_begin id True 3 0 0 accept_all 9 asking_runtime)"

lemma small_pool_valid: "validate_id_pool 2 small_pool"
proof -
  have "validate_id_pool (capacity small_pool) small_pool"
    unfolding validate_id_pool_spec using small_pool_ok by (auto simp: small_pool_fields)
  then show ?thesis by (simp add: small_pool_fields small_config_def)
qed

definition started_channel :: upstream_channel where
  "started_channel = small_pool\<lparr>ch_scheduler := Some 0, ch_timers := True, ch_config := small_config,
     ch_socket_fd := 3, ch_pending_count := 0, ch_running := True, ch_accepting := True, ch_has_started := True\<rparr>"

lemma idle_runtime_facts:
  "sched_rep (ur_sched idle_runtime) [] []" "timer_inv (ur_timers idle_runtime)" "armed (ur_timers idle_runtime) = Map.empty"
  "\<forall>q. \<not> (qa_owned (ur_queries idle_runtime q) \<and> qa_state (ur_queries idle_runtime q) = QS_Pending)"
  "channel_start id True 0 [] 3 small_config idle_runtime = (True, started_runtime)"
  "started_runtime = idle_runtime\<lparr>ur_channel := started_channel\<rparr>"
proof -
  show "sched_rep (ur_sched idle_runtime) [] []" "timer_inv (ur_timers idle_runtime)" "armed (ur_timers idle_runtime) = Map.empty"
    "\<forall>q. \<not> (qa_owned (ur_queries idle_runtime q) \<and> qa_state (ur_queries idle_runtime q) = QS_Pending)"
    by (simp_all add: idle_runtime_def two_bound_rep started_timer_queue_inv)
  have "initialize_id_pool id small_config ((idle_channel small_config)\<lparr>ch_slots := (\<lambda>_. None), ch_stats := no_channel_stats\<rparr>)
      = small_pool"
    by (simp add: small_pool_def idle_channel_def)
  moreover have "sched_on_owner True two_bound" "sc_self two_bound = 0"
    by (simp_all add: sched_on_owner_def two_bound_def set_task_def started_scheduler_def sched_start_def new_scheduler_def
        observe_external_stop_def stop_requested_def Let_def)
  moreover have "timers_bound_to started_timer_queue 0"
    by (simp add: timers_bound_to_def started_timer_queue_def timer_start_def new_timer_queue_def)
  ultimately have "channel_start id True 0 [] 3 small_config idle_runtime = (True, idle_runtime\<lparr>ur_channel := started_channel\<rparr>)"
    using small_pool_valid
    by (simp add: channel_start_def idle_runtime_def Let_def small_config_def kTransactionIdSpace_def)
      (simp add: idle_channel_def started_channel_def small_config_def)
  then show "channel_start id True 0 [] 3 small_config idle_runtime = (True, started_runtime)"
    "started_runtime = idle_runtime\<lparr>ur_channel := started_channel\<rparr>"
    by (simp_all add: started_runtime_def)
qed

lemma started_runtime_inv:
  "up_inv started_runtime" "ur_sched started_runtime = two_bound" "ur_timers started_runtime = started_timer_queue"
  "ch_accepting (ur_channel started_runtime)" "ch_config (ur_channel started_runtime) = small_config"
  using channel_start_correct [OF idle_runtime_facts(5,1-4)] by (simp_all add: idle_runtime_def)

lemma started_no_slots: "ch_slots (ur_channel started_runtime) i = None"
  by (simp add: idle_runtime_facts(6) started_channel_def small_pool_fields)

lemma asking_can_begin: "can_begin 3 9 asking_runtime" "can_begin 4 9 asking_runtime"
proof -
  have u: "unslotted 9 started_runtime" by (simp add: unslotted_def started_no_slots)
  have "up_inv asking_runtime" unfolding asking_runtime_def
    by (rule settled_up_inv [OF started_runtime_inv(1) u]) (simp add: new_query_def)
  then show "can_begin 3 9 asking_runtime" "can_begin 4 9 asking_runtime"
    by (simp_all add: can_begin_def asking_runtime_def unslotted_def started_no_slots started_runtime_inv
        started_timer_queue_inv two_bound_rep new_query_def)
qed

lemma accept_all_queries:
  "is_ok (serialize_query (default_header\<lparr>hdr_id := i\<rparr>) [sample_question] kUpstreamQueryBudget)"
  by (simp add: serialize_query_def write_question_message_eq encode_flags_eq question_message_def
      default_header_def sample_question_def kUpstreamQueryBudget_def kClassicDnsUdpPayloadLimit_def)

lemma waiting_started: "channel_begin id True 3 0 0 accept_all 9 asking_runtime = (BR_Suspended, waiting_runtime)"
proof -
  have c: "ur_channel asking_runtime = started_channel" "ur_queries asking_runtime 9 = new_query default_header sample_question 5"
    "ur_timers asking_runtime = started_timer_queue" "ur_sched asking_runtime = two_bound"
    by (simp_all add: asking_runtime_def set_query_def idle_runtime_facts(6)) (simp_all add: idle_runtime_def)
  have "ch_retired_ids started_channel = []" by (simp add: started_channel_def small_pool_fields)
  then have "reclaim_ids id 0 started_channel = started_channel" by (simp add: reclaim_ids_def)
  then have a: "allocate_id id 0 started_channel = (Some 0, set_id_state 0 IdPending (started_channel\<lparr>ch_free_ids := [1]\<rparr>))"
    by (simp add: allocate_id_def allocate_loop.simps) (simp add: started_channel_def small_pool_fields small_config_def)
  obtain wire where s: "serialize_query (default_header\<lparr>hdr_id := 0\<rparr>) [sample_question] kUpstreamQueryBudget = Inr wire"
    using accept_all_queries [of 0] by (auto simp: is_ok_iff)
  have "fst (timer_arm True 9 5 (Some (9 :: nat)) started_timer_queue) = Armed"
    by (simp add: timer_arm_def timer_on_owner_def started_timer_queue_def timer_start_def new_timer_queue_def
        idle_registration_def Let_def)
  then obtain tq where t: "timer_arm True 9 5 (Some (9 :: nat)) started_timer_queue = (Armed, tq)" by (metis prod.collapse)
  have b: "tp_scheduler (sc_tasks two_bound 3) = Some 0" "timers_bound_to started_timer_queue 0"
    by (simp_all add: two_bound_def sc_tasks_set_task timers_bound_to_def started_timer_queue_def timer_start_def new_timer_queue_def)
  have "fst (channel_begin id True 3 0 0 accept_all 9 asking_runtime) = BR_Suspended"
    using b s t unfolding channel_begin_def c
    by (simp add: a Let_def new_query_def arm_and_send_def register_query_def accept_all_def c)
      (simp add: started_channel_def channel_on_owner_def)
  then show ?thesis by (metis prod.collapse waiting_runtime_def)
qed

lemma waiting_runtime_inv:
  "up_inv waiting_runtime" "\<exists>i. ch_slots (ur_channel waiting_runtime) i = Some 9"
  "sched_rep (ur_sched waiting_runtime) [] []" "qa_task (ur_queries waiting_runtime 9) = Some 3"
  "ch_slots (ur_channel waiting_runtime) j = Some q \<Longrightarrow> q = 9" "qa_deadline (ur_queries waiting_runtime 9) = 5"
  "qa_header (ur_queries waiting_runtime 9) = default_header" "qa_question (ur_queries waiting_runtime 9) = sample_question"
proof -
  from channel_begin_cases [OF asking_can_begin(1) waiting_started] obtain i wire where
    b: "up_inv waiting_runtime" "begun 3 9 i wire asking_runtime waiting_runtime" by blast
  then show "up_inv waiting_runtime" "\<exists>i. ch_slots (ur_channel waiting_runtime) i = Some 9"
    "qa_task (ur_queries waiting_runtime 9) = Some 3" by (auto simp: begun_def)
  show "sched_rep (ur_sched waiting_runtime) [] []"
    using b(2) two_bound_rep(1) by (simp add: begun_def asking_runtime_def started_runtime_inv)
  show "q = 9" if "ch_slots (ur_channel waiting_runtime) j = Some q"
    using that b(2) started_no_slots by (auto simp: begun_def asking_runtime_def split: if_splits)
  show "qa_deadline (ur_queries waiting_runtime 9) = 5" "qa_header (ur_queries waiting_runtime 9) = default_header"
    "qa_question (ur_queries waiting_runtime 9) = sample_question" using b(2) by (auto simp: begun_def asking_runtime_def new_query_def)
qed

lemma finish_exactly_once_witness:
  "\<exists>w'. finish id True 1 QO_Timeout [] 0 9 waiting_runtime = (True, w') \<and> finish id True 2 QO_Response [] 0 9 w' = (False, w')"
  using finish_exactly_once [OF waiting_runtime_inv(1), of 9 id 1 QO_Timeout "[]" 0] waiting_runtime_inv(2) by blast

lemma channel_begin_correct_witness:
  "\<exists>i wire. begun 3 9 i wire asking_runtime waiting_runtime \<and> accept_all wire = SentBytes (length wire)"
  using channel_begin_correct [OF asking_can_begin(1) waiting_started] by blast

lemma handle_datagram_correct_witness:
  "\<exists>i w'. ch_slots (ur_channel waiting_runtime) i = Some 9
     \<and> handle_datagram id True 1 (question_message i 0x8000 [sample_question]) False waiting_runtime = (PR_Completed, w')
     \<and> ch_slots (ur_channel w') i = None"
proof -
  obtain i where i: "ch_slots (ur_channel waiting_runtime) i = Some 9" using waiting_runtime_inv(2) by blast
  let ?p = "question_message i 0x8000 [sample_question]"
  obtain r w' where h: "handle_datagram id True 1 ?p False waiting_runtime = (r, w')" by fastforce
  have "parse_message ?p upstream_limits = Inr \<lparr>msg_header = decode_flags i 0x8000, questions = [sample_question],
      answers = [], authorities = [], additionals = [], wire_image = ?p\<rparr>"
    by (rule parse_question_message)
      (simp_all add: upstream_limits_def kUpstreamReceiveBufferSize_def kClassicDnsUdpPayloadLimit_def default_limits_def
        question_message_def sample_question_size)
  then have "answers_query waiting_runtime ?p i 9 \<lparr>msg_header = decode_flags i 0x8000, questions = [sample_question],
      answers = [], authorities = [], additionals = [], wire_image = ?p\<rparr>"
    using i waiting_runtime_inv(7,8) by (simp add: answers_query_def decode_flags_def default_header_def)
  with handle_datagram_correct [OF waiting_runtime_inv(1) h] obtain j q m response where
    c: "r = PR_Completed" "answers_query waiting_runtime ?p j q m" "finished 1 QO_Response response 0 j q waiting_runtime w'"
    by blast
  have "j = i" using c(2) i slot_unique [OF waiting_runtime_inv(1)] waiting_runtime_inv(5) unfolding answers_query_def by metis
  with c i h show ?thesis by (auto simp: finished_def)
qed

lemma fail_all_complete_witness:
  "\<exists>w'. fail_all id True (\<lambda>_. 1) QO_Cancelled 0 waiting_runtime = (1, w') \<and> sched_rep (ur_sched w') [3] []"
proof -
  from fail_all_complete [OF waiting_runtime_inv(1) _ waiting_runtime_inv(3), of QO_Cancelled id "\<lambda>_. 1" 0] obtain w' qs where
    f: "fail_all id True (\<lambda>_. 1) QO_Cancelled 0 waiting_runtime = (length qs, w')" "distinct qs"
      "\<forall>q. q \<in> set qs \<longleftrightarrow> (\<exists>i. ch_slots (ur_channel waiting_runtime) i = Some q)"
      "sched_rep (ur_sched w') (map (\<lambda>q. the (qa_task (ur_queries waiting_runtime q))) qs) []" by auto
  have "set qs = {9}" using f(3) waiting_runtime_inv(2,5) by blast
  with f(2) have "qs = [9]" by (metis distinct_card card.empty card_insert_disjoint empty_iff finite.emptyI length_0_conv
        length_Suc_conv list.set(1) set_ConsD singleton_iff insertI1 list.set_intros(1))
  with f waiting_runtime_inv(4) show ?thesis by auto
qed

lemma expire_deadlines_correct_witness:
  "\<exists>result w'. expire_deadlines id (\<lambda>_. 6) 6 4 waiting_runtime = (result, w') \<and> dispatched result \<le> 4
     \<and> qr_outcome (qa_result (ur_queries w' 9)) = QO_Timeout"
proof -
  obtain result w' where e: "expire_deadlines id (\<lambda>_. 6) 6 4 waiting_runtime = (result, w')" by fastforce
  from expire_deadlines_correct [OF waiting_runtime_inv(1,3) e] obtain qs where
    q: "dispatched result \<le> 4" "dispatched result = length qs" "distinct qs"
      "\<forall>q \<in> set qs. (\<exists>i. ch_slots (ur_channel waiting_runtime) i = Some q) \<and> qa_deadline (ur_queries waiting_runtime q) \<le> 6"
      "\<forall>q. ur_queries w' q = (if q \<in> set qs then failed_query QO_Timeout 0 (ur_queries waiting_runtime q) else ur_queries waiting_runtime q)"
      "length qs < 4 \<longrightarrow> (\<forall>i q. ch_slots (ur_channel waiting_runtime) i = Some q
         \<longrightarrow> qa_deadline (ur_queries waiting_runtime q) \<le> 6 \<longrightarrow> q \<in> set qs)" by auto
  have "set qs \<subseteq> {9}" using q(4) waiting_runtime_inv(5) by blast
  then have "length qs \<le> 1" using distinct_card [OF q(3)] card_mono [of "{9}" "set qs"] by simp
  then have "9 \<in> set qs" using q(6) waiting_runtime_inv(2,6) by auto
  with e q(1,5) show ?thesis by (simp add: failed_query_def)
qed

lemma upstream_reachable_correct_witness:
  "\<exists>w i. upstream_reachable started_runtime w \<and> holds_id w 9 i \<and> armed (ur_timers w) 9 \<noteq> None"
proof -
  have u: "unslotted 9 started_runtime" "unslotted 9 asking_runtime"
    by (simp_all add: unslotted_def started_no_slots asking_runtime_def)
  have "upstream_step started_runtime (set_query 9 (\<lambda>_. new_query default_header sample_question
      (query_deadline (ch_config (ur_channel started_runtime)) 3)) started_runtime)"
    by (rule up_query [OF u(1)]) simp
  moreover have "query_deadline (ch_config (ur_channel started_runtime)) 3 = 5"
    by (simp add: started_runtime_inv query_deadline_def small_config_def duration_max_def)
  ultimately have "upstream_step started_runtime asking_runtime" by (simp add: asking_runtime_def)
  moreover have "upstream_step asking_runtime waiting_runtime"
  proof (rule up_await [OF u(2)])
    have t: "observe_external_stop two_bound = two_bound" "tp_scheduler (sc_tasks two_bound 3) \<noteq> None" "\<not> sc_stop_source two_bound"
      by (simp_all add: two_bound_def sc_tasks_set_task set_task_def started_scheduler_def sched_start_def new_scheduler_def
          observe_external_stop_def stop_requested_def Let_def)
    have "ur_sched asking_runtime = two_bound" by (simp add: asking_runtime_def started_runtime_inv)
    moreover from this t have "asking_runtime\<lparr>ur_sched := observe_external_stop (ur_sched asking_runtime)\<rparr> = asking_runtime" by simp
    moreover have "qa_owned (ur_queries asking_runtime 9)" "qa_state (ur_queries asking_runtime 9) = QS_Idle"
      by (simp_all add: asking_runtime_def new_query_def)
    ultimately show "query_await_suspend id True 3 0 0 accept_all 9 asking_runtime = (True, waiting_runtime)"
      using t(2,3) waiting_started unfolding query_await_suspend_def Let_def query_begin_def by (simp only:) simp
  qed (use asking_can_begin(1) in \<open>auto simp: can_begin_def\<close>)
  ultimately have r: "upstream_reachable started_runtime waiting_runtime" by (meson ur_start ur_step)
  have "pending_query 9 waiting_runtime" using pending_query_iff [OF waiting_runtime_inv(1)] waiting_runtime_inv(2) by blast
  moreover have "(\<exists>i. holds_id waiting_runtime 9 i) \<longleftrightarrow> armed (ur_timers waiting_runtime) 9 \<noteq> None"
    using upstream_reachable_correct [OF idle_runtime_facts(5,1-4) r] by simp
  ultimately show ?thesis using r by (auto simp: holds_id_def pending_query_def Let_def)
qed

end
