(* ===== verification/WorkerLoop.thy ===== *)
theory WorkerLoop
  imports DomainBlocklist CachePolicy UpstreamChannel
begin

text \<open>
  The data path of a worker, \<open>src/WorkerLoop.{h,cpp}\<close>: the decision about a client's datagram and the
  coroutine \<open>process_datagram\<close>, which asks the filter, the cache and the upstream server in this order and
  sends at most one reply.

  The coroutine is split at its only suspension point: \<open>process_start\<close> runs it from the start to the
  \<open>co_await\<close> of the upstream query or to its end, \<open>process_resume\<close> from there to its end; a
  \<open>pending_process\<close> holds the locals that live across the suspension.  \<open>None\<close> as a result is an access
  outside the cache's vector, which the invariant \<open>cache_ok\<close> excludes.  Clock readings, random numbers and
  the answers of both sockets are the record \<open>process_io\<close>; calls interrupted by a signal are repeated by
  the code, and the answer recorded is the one that ends the repetition.  Output to \<open>std::cerr\<close> and
  allocation failures are not modelled.
\<close>

section \<open>Datagrams of clients\<close>

text \<open>The addresses of a cached set as RDATA; \<open>None\<close> is an address of another family than the question asks for.\<close>

fun answer_views :: "u16 \<Rightarrow> ip_address list \<Rightarrow> byte list list option" where
  "answer_views type [] = Some []"
| "answer_views type (address # rest) =
     (if type = type_code RT_A \<and> is_v4 address then map_option ((#) (take 4 (ip_bytes address))) (answer_views type rest)
      else if type = type_code RT_AAAA \<and> is_v6 address then map_option ((#) (ip_bytes address)) (answer_views type rest)
      else None)"

definition make_cache_hit_response :: "message \<Rightarrow> cache_hit \<Rightarrow> nat \<Rightarrow> write_result" where
  "make_cache_hit_response request hit maximum_size =
     (if length (questions request) \<noteq> 1 then Inl WE_WrongQuestionCount
      else case answer_views (q_type (hd (questions request))) (hit_addresses hit) of
        None \<Rightarrow> Inl WE_InvalidAddressLength
      | Some views \<Rightarrow> make_address_response request views (remaining_ttl hit) True maximum_size)"

datatype datagram_outcome = DO_Dropped | DO_Truncated | DO_Malformed | DO_Unsupported | DO_Accepted | DO_InternalError

record datagram_decision =
  dd_outcome :: datagram_outcome
  dd_response :: "byte list"
  dd_request :: "message option"

text \<open>\<open>std::expected\<close> to a response: no response where there is an error.\<close>

definition response_or_empty :: "write_result \<Rightarrow> byte list" where
  "response_or_empty r = (case r of Inl e \<Rightarrow> [] | Inr bytes \<Rightarrow> bytes)"

definition evaluate_datagram :: "byte list \<Rightarrow> bool \<Rightarrow> datagram_decision" where
  "evaluate_datagram packet was_truncated =
     (if was_truncated \<or> length packet > kDownstreamReceiveBufferSize then
        (if length packet < 3 \<or> packet ! 2 AND 0x80 \<noteq> 0
         then \<lparr>dd_outcome = DO_Dropped, dd_response = [], dd_request = None\<rparr>
         else \<lparr>dd_outcome = DO_Truncated,
               dd_response = response_or_empty (make_header_only_error_response packet FormErr True kDownstreamResponseBudget),
               dd_request = None\<rparr>)
      else case parse_message packet default_limits of
        Inl e \<Rightarrow> \<lparr>dd_outcome = DO_Malformed,
                   dd_response = response_or_empty (make_format_error_response packet True kDownstreamResponseBudget),
                   dd_request = None\<rparr>
      | Inr parsed \<Rightarrow>
          (case validate_mvp_query parsed of
             Inl e \<Rightarrow>
               if e = QE_NotAQuery then \<lparr>dd_outcome = DO_Dropped, dd_response = [], dd_request = None\<rparr>
               else (case make_error_response parsed (response_code_for e) True kDownstreamResponseBudget of
                       Inl _ \<Rightarrow> \<lparr>dd_outcome = DO_InternalError, dd_response = [], dd_request = None\<rparr>
                     | Inr response \<Rightarrow> \<lparr>dd_outcome = DO_Unsupported, dd_response = response, dd_request = None\<rparr>)
           | Inr question \<Rightarrow> \<lparr>dd_outcome = DO_Accepted, dd_response = [], dd_request = Some parsed\<rparr>))"

section \<open>The state of a worker\<close>

record worker_stats =
  ws_received_datagrams :: nat
  ws_truncated_datagrams :: nat
  ws_parse_errors :: nat
  ws_unsupported_queries :: nat
  ws_accepted_queries :: nat
  ws_blocked_queries :: nat
  ws_cache_hits :: nat
  ws_cache_misses :: nat
  ws_cache_bypasses :: nat
  ws_cache_inserts :: nat
  ws_responses_sent :: nat
  ws_oversized_responses :: nat
  ws_send_errors :: nat
  ws_upstream_queries :: nat
  ws_upstream_responses :: nat
  ws_upstream_timeouts :: nat
  ws_upstream_cancellations :: nat
  ws_upstream_send_errors :: nat
  ws_upstream_socket_errors :: nat
  ws_upstream_overloaded :: nat
  ws_upstream_invalid_responses :: nat
  ws_upstream_unmatched_responses :: nat
  ws_internal_errors :: nat

record client_datagram =
  cd_packet :: "byte list"
  cd_client :: "byte list"
  cd_truncated :: bool

text \<open>
  The frame of a \<open>process_datagram\<close> coroutine: before its first resumption it holds its argument; while it
  waits for the upstream server it holds the locals that are live at that point, with \<open>pq_query\<close> the
  address of the awaiter in the frame.
\<close>

record pending_process =
  pq_datagram :: client_datagram
  pq_token :: bool
  pq_request :: message
  pq_question :: question
  pq_key :: "cache_key option"
  pq_query :: nat

datatype process_frame = AtStart client_datagram | AwaitsUpstream pending_process

record worker =
  wk_cache :: cache_shard
  wk_filter :: "filter_context option"
  wk_upstream_usable :: bool
  wk_stats :: worker_stats
  wk_runtime :: upstream_runtime
  wk_listener_pending :: bool
  wk_generation_pending :: bool
  wk_upstream_pending :: bool
  wk_upstream_error_pending :: bool
  wk_upstream_hangup_pending :: bool
  wk_frames :: "nat \<rightharpoonup> process_frame"
  wk_sent :: "(byte list \<times> byte list) list"

text \<open>
  \<open>wk_frames\<close> holds the frames of the coroutines that have not ended, by task; \<open>wk_sent\<close> records the datagrams handed to \<open>sendto\<close>, oldest first, each with its client.
\<close>

definition on_worker_stats :: "(worker_stats \<Rightarrow> worker_stats) \<Rightarrow> worker \<Rightarrow> worker" where
  "on_worker_stats f w = w\<lparr>wk_stats := f (wk_stats w)\<rparr>"

definition count_internal_error :: "worker \<Rightarrow> worker" where
  "count_internal_error = on_worker_stats (\<lambda>s. s\<lparr>ws_internal_errors := ws_internal_errors s + 1\<rparr>)"

text \<open>
  What the outside world answers while a coroutine runs: the clocks of the cache and of the channel, the
  random numbers, the upstream socket and the client socket.
\<close>

record process_io =
  io_cache_now :: int
  io_now :: int
  io_later :: int
  io_random :: "nat \<Rightarrow> nat"
  io_send :: "byte list \<Rightarrow> send_outcome"
  io_sendto :: "byte list \<Rightarrow> send_outcome"

section \<open>Processing a datagram\<close>

definition matches_filter :: "(byte list \<Rightarrow> u64) \<Rightarrow> domain_name \<Rightarrow> worker \<Rightarrow> bool" where
  "matches_filter xxh3 name w = (case wk_filter w of None \<Rightarrow> False | Some ctx \<Rightarrow> matches xxh3 (blocklist ctx) name)"

definition send_response :: "process_io \<Rightarrow> byte list \<Rightarrow> byte list \<Rightarrow> worker \<Rightarrow> worker" where
  "send_response io response client w =
     (if length response > kDownstreamResponseBudget
      then on_worker_stats (\<lambda>s. s\<lparr>ws_oversized_responses := ws_oversized_responses s + 1\<rparr>) w
      else let w1 = w\<lparr>wk_sent := wk_sent w @ [(client, response)]\<rparr> in
        if io_sendto io response = SentBytes (length response)
        then on_worker_stats (\<lambda>s. s\<lparr>ws_responses_sent := ws_responses_sent s + 1\<rparr>) w1
        else on_worker_stats (\<lambda>s. s\<lparr>ws_send_errors := ws_send_errors s + 1\<rparr>) w1)"

definition worker_stop_requested :: "bool \<Rightarrow> worker \<Rightarrow> bool" where
  "worker_stop_requested token w = token_stop_requested token (ur_sched (wk_runtime w))"

definition reply :: "process_io \<Rightarrow> bool \<Rightarrow> client_datagram \<Rightarrow> byte list \<Rightarrow> worker \<Rightarrow> worker" where
  "reply io token dg response w =
     (if response \<noteq> [] \<and> \<not> worker_stop_requested token w then send_response io response (cd_client dg) w else w)"

fun count_decision :: "datagram_outcome \<Rightarrow> worker_stats \<Rightarrow> worker_stats" where
  "count_decision DO_Dropped s = s"
| "count_decision DO_Truncated s = s\<lparr>ws_truncated_datagrams := ws_truncated_datagrams s + 1\<rparr>"
| "count_decision DO_Malformed s = s\<lparr>ws_parse_errors := ws_parse_errors s + 1\<rparr>"
| "count_decision DO_Unsupported s = s\<lparr>ws_unsupported_queries := ws_unsupported_queries s + 1\<rparr>"
| "count_decision DO_Accepted s = s\<lparr>ws_accepted_queries := ws_accepted_queries s + 1\<rparr>"
| "count_decision DO_InternalError s = s\<lparr>ws_internal_errors := ws_internal_errors s + 1\<rparr>"

text \<open>The end of an accepted query: without a response so far, the client is told of a server failure.\<close>

definition reply_or_servfail :: "process_io \<Rightarrow> bool \<Rightarrow> client_datagram \<Rightarrow> message \<Rightarrow> byte list \<Rightarrow> worker \<Rightarrow> worker" where
  "reply_or_servfail io token dg request response w =
     (if response \<noteq> [] then reply io token dg response w
      else case make_error_response request ServFail True kDownstreamResponseBudget of
        Inl e \<Rightarrow> count_internal_error w
      | Inr servfail \<Rightarrow> reply io token dg servfail w)"

text \<open>What the cache says: a response, a failure to build one, or to forward, with the key to store under.\<close>

datatype cache_answer = CacheReply "byte list" | CacheFailure | CacheForward "cache_key option"

definition cache_eligible :: "header \<Rightarrow> worker \<Rightarrow> bool" where
  "cache_eligible h w \<longleftrightarrow> cache_shard.capacity (wk_cache w) \<noteq> 0 \<and> \<not> authenticated_data h \<and> \<not> checking_disabled h"

definition count_miss :: "worker \<Rightarrow> worker" where
  "count_miss = on_worker_stats (\<lambda>s. s\<lparr>ws_cache_misses := ws_cache_misses s + 1\<rparr>)"

definition consult_cache :: "int \<Rightarrow> message \<Rightarrow> question \<Rightarrow> worker \<Rightarrow> cache_answer \<times> worker" where
  "consult_cache now request question w =
     (if \<not> cache_eligible (msg_header request) w
      then (CacheForward None, on_worker_stats (\<lambda>s. s\<lparr>ws_cache_bypasses := ws_cache_bypasses s + 1\<rparr>) w)
      else let key = mk_cache_key (q_name question) (q_type question) (q_class question) in
        case cache_get key now (wk_cache w) of (found, shard) \<Rightarrow>
          (let w1 = w\<lparr>wk_cache := shard\<rparr> in
           case found of
             None \<Rightarrow> (CacheForward (Some key), count_miss w1)
           | Some hit \<Rightarrow>
               (case make_cache_hit_response request hit kDownstreamResponseBudget of
                  Inr response \<Rightarrow>
                    (CacheReply response, on_worker_stats (\<lambda>s. s\<lparr>ws_cache_hits := ws_cache_hits s + 1\<rparr>) w1)
                | Inl e \<Rightarrow>
                    if e = WE_MessageTooLarge then (CacheForward (Some key), count_miss w1)
                    else (CacheFailure, count_internal_error w1))))"

text \<open>Admission of an upstream response to the cache; \<open>None\<close> is an access outside the cache's vector.\<close>

definition cache_response :: "int \<Rightarrow> message \<Rightarrow> question \<Rightarrow> cache_key option \<Rightarrow> byte list \<Rightarrow> worker \<Rightarrow> worker option" where
  "cache_response now request question key response w =
     (case key of
        None \<Rightarrow> Some w
      | Some k \<Rightarrow>
          (case parse_message response default_limits of
             Inl e \<Rightarrow> Some w
           | Inr parsed \<Rightarrow>
               (case cacheable_address_set parsed question of
                  None \<Rightarrow> Some w
                | Some cacheable \<Rightarrow>
                    let candidate = \<lparr>hit_addresses = set_addresses cacheable, remaining_ttl = set_ttl cacheable\<rparr> in
                    (case make_cache_hit_response request candidate kDownstreamResponseBudget of
                       Inl e \<Rightarrow> Some w
                     | Inr cache_wire \<Rightarrow>
                         map_option (\<lambda>shard. on_worker_stats (\<lambda>s. s\<lparr>ws_cache_inserts := ws_cache_inserts s + 1\<rparr>)
                                       (w\<lparr>wk_cache := shard\<rparr>))
                           (cache_put k (hit_addresses candidate) (remaining_ttl candidate) now (wk_cache w))))))"

text \<open>
  The coroutine from the resumption of its upstream query to its end.  The awaiter is destroyed at the end
  of the \<open>co_await\<close> expression.
\<close>

definition process_resume :: "process_io \<Rightarrow> pending_process \<Rightarrow> worker \<Rightarrow> worker option" where
  "process_resume io p w =
     (let a = ur_queries (wk_runtime w) (pq_query p);
          w1 = w\<lparr>wk_runtime := query_destroy (io_random io) True (io_later io) (pq_query p) (wk_runtime w)\<rparr>
      in case query_await_resume a of
           Inl QF_OperationCancelled \<Rightarrow> Some w1
         | Inl (QF_LogicError e) \<Rightarrow> Some (count_internal_error w1)
         | Inr result \<Rightarrow>
             if qr_outcome result = QO_Response
             then map_option (reply_or_servfail io (pq_token p) (pq_datagram p) (pq_request p) (qr_response result))
                    (cache_response (io_cache_now io) (pq_request p) (pq_question p) (pq_key p) (qr_response result) w1)
             else Some (reply_or_servfail io (pq_token p) (pq_datagram p) (pq_request p) [] w1))"

text \<open>The frame that remains if the coroutine suspended, and the worker.\<close>

definition forward_query ::
  "process_io \<Rightarrow> nat \<Rightarrow> pending_process \<Rightarrow> worker \<Rightarrow> (process_frame option \<times> worker) option" where
  "forward_query io task p w =
     (let q = pq_query p; rt = wk_runtime w;
          a = new_query (msg_header (pq_request p)) (pq_question p) (query_deadline (ch_config (ur_channel rt)) (io_now io))
      in case query_await_suspend (io_random io) True task (io_now io) (io_later io) (io_send io) q (set_query q (\<lambda>_. a) rt) of
           (suspended, rt') \<Rightarrow>
             (let w1 = w\<lparr>wk_runtime := rt'\<rparr> in
              if suspended then Some (Some (AwaitsUpstream p), w1)
              else map_option (\<lambda>w2. (None, w2)) (process_resume io p w1)))"

definition process_accepted ::
  "(byte list \<Rightarrow> u64) \<Rightarrow> process_io \<Rightarrow> nat \<Rightarrow> nat \<Rightarrow> client_datagram \<Rightarrow> bool \<Rightarrow> message \<Rightarrow> worker
     \<Rightarrow> (process_frame option \<times> worker) option" where
  "process_accepted xxh3 io task q dg token request w =
     (if length (questions request) \<noteq> 1 then Some (None, count_internal_error w)
      else let question = hd (questions request) in
        if matches_filter xxh3 (q_name question) w
        then let w1 = on_worker_stats (\<lambda>s. s\<lparr>ws_blocked_queries := ws_blocked_queries s + 1\<rparr>) w in
          (case make_error_response request Refused True kDownstreamResponseBudget of
             Inl e \<Rightarrow> Some (None, count_internal_error w1)
           | Inr refused \<Rightarrow> Some (None, reply io token dg refused w1))
        else case consult_cache (io_cache_now io) request question w of
          (CacheReply response, w1) \<Rightarrow> Some (None, reply_or_servfail io token dg request response w1)
        | (CacheFailure, w1) \<Rightarrow> Some (None, w1)
        | (CacheForward key, w1) \<Rightarrow>
            if wk_upstream_usable w1
            then forward_query io task \<lparr>pq_datagram = dg, pq_token = token, pq_request = request, pq_question = question,
                   pq_key = key, pq_query = q\<rparr> w1
            else Some (None, reply_or_servfail io token dg request [] w1))"

text \<open>\<open>process_datagram\<close> from its start to its first suspension or its end.\<close>

definition process_start ::
  "(byte list \<Rightarrow> u64) \<Rightarrow> process_io \<Rightarrow> nat \<Rightarrow> nat \<Rightarrow> client_datagram \<Rightarrow> worker \<Rightarrow> (process_frame option \<times> worker) option" where
  "process_start xxh3 io task q dg w =
     (case stop_token_await task (ur_sched (wk_runtime w)) of (awaited, s) \<Rightarrow>
        let w1 = w\<lparr>wk_runtime := (wk_runtime w)\<lparr>ur_sched := s\<rparr>\<rparr> in
        case awaited of
          Inl e \<Rightarrow> Some (None, count_internal_error w1)
        | Inr token \<Rightarrow>
            if worker_stop_requested token w1 then Some (None, w1)
            else let decision = evaluate_datagram (cd_packet dg) (cd_truncated dg);
                     w2 = on_worker_stats (count_decision (dd_outcome decision)) w1
                 in if dd_outcome decision = DO_Dropped \<or> dd_outcome decision = DO_InternalError then Some (None, w2)
                    else if dd_outcome decision = DO_Accepted
                    then case dd_request decision of
                           None \<Rightarrow> Some (None, count_internal_error w2)
                         | Some request \<Rightarrow> process_accepted xxh3 io task q dg token request w2
                    else Some (None, reply io token dg (dd_response decision) w2))"

section \<open>What is answered without looking further\<close>

lemma budget_values: "kDownstreamResponseBudget = 512" "kDownstreamReceiveBufferSize = 512"
  by (simp_all add: kDownstreamResponseBudget_def kDownstreamReceiveBufferSize_def kClassicDnsUdpPayloadLimit_def)

text \<open>A packet whose QR bit is set, as far as it is there.\<close>

definition claims_response :: "byte list \<Rightarrow> bool" where
  "claims_response packet \<longleftrightarrow> 3 \<le> length packet \<and> packet ! 2 AND 0x80 \<noteq> 0"

lemma claims_response_parsed:
  assumes "parse_message packet lim = Inr m"
  shows "is_response (msg_header m) \<longleftrightarrow> claims_response packet"
proof -
  have l: "12 \<le> length packet" and h: "msg_header m = decode_flags (u16_at packet 0) (u16_at packet 2)"
    using parse_message_header [OF assms] by simp_all
  have "u16_at packet 2 = packet_flags packet" by (simp add: u16_at_def packet_flags_def)
  then have "is_response (msg_header m) \<longleftrightarrow> bit (packet ! 2) 7"
    unfolding h decode_flags_def by (simp only: header.simps flag_tests bit_packet_flags) simp
  with l show ?thesis by (simp add: claims_response_def byte_flag_tests)
qed

text \<open>The queries that the service answers by filter, cache and upstream server, and the replies to all others.\<close>

definition served_query :: "byte list \<Rightarrow> bool \<Rightarrow> message \<Rightarrow> bool" where
  "served_query packet was_truncated m \<longleftrightarrow> \<not> was_truncated \<and> length packet \<le> kDownstreamReceiveBufferSize
     \<and> parse_message packet default_limits = Inr m \<and> is_ok (validate_mvp_query m)"

definition error_reply :: "byte list \<Rightarrow> byte list \<Rightarrow> bool" where
  "error_reply packet response \<longleftrightarrow> length response \<le> 512
     \<and> (\<exists>m. parse_message response default_limits = Inr m \<and> is_response (msg_header m) \<and> hdr_id (msg_header m) = packet_id packet
          \<and> hdr_response_code (msg_header m) \<in> {rcode_value FormErr, rcode_value NotImp}
          \<and> answers m = [] \<and> authorities m = [] \<and> additionals m = [])"

lemma header_only_reply:
  assumes "2 \<le> length packet" and "\<not> claims_response packet"
  shows "\<exists>bytes. make_header_only_error_response packet FormErr True kDownstreamResponseBudget = Inr bytes
    \<and> bytes \<noteq> [] \<and> error_reply packet bytes"
proof -
  have "3 \<le> length packet \<longrightarrow> packet ! 2 AND 0x80 = 0" using assms(2) by (auto simp: claims_response_def)
  from make_header_only_error_response_parses [OF assms(1) this, of 512 FormErr True] obtain bytes h where
    "make_header_only_error_response packet FormErr True 512 = Inr bytes" "length bytes = 12"
    "parse_message bytes default_limits = Inr \<lparr>msg_header = h, questions = [], answers = [], authorities = [],
       additionals = [], wire_image = bytes\<rparr>" "hdr_id h = packet_id packet" "is_response h" "hdr_response_code h = rcode_value FormErr"
    by auto
  then show ?thesis by (intro exI [of _ bytes]) (auto simp: budget_values error_reply_def)
qed

lemma header_only_refused:
  assumes "claims_response packet \<or> length packet < 2"
  shows "\<exists>e. make_header_only_error_response packet FormErr True m = Inl e"
  using assms by (force simp: make_header_only_error_response_eq claims_response_def)

lemma parsed_facts:
  assumes "parse_message packet default_limits = Inr m"
  shows "unat (hdr_opcode (msg_header m)) < 16" "\<forall>q \<in> set (questions m). wf_question q" "length (questions m) \<le> 16"
    "hdr_id (msg_header m) = packet_id packet" "2 \<le> length packet"
proof -
  show "unat (hdr_opcode (msg_header m)) < 16" "\<forall>q \<in> set (questions m). wf_question q" "length (questions m) \<le> 16"
    using parse_message_wf [OF assms] by (simp_all add: wf_message_def default_limits_def)
  show "2 \<le> length packet" using parse_message_header [OF assms] by simp
  then show "hdr_id (msg_header m) = packet_id packet"
    using transaction_id_parse_message [OF assms] by (simp add: transaction_id_packet_id)
qed

lemma local_error_reply:
  assumes p: "parse_message packet default_limits = Inr m" and n: "\<not> is_response (msg_header m)"
  shows "\<exists>bytes rest. make_error_response m rc True kDownstreamResponseBudget = Inr bytes \<and> bytes \<noteq> [] \<and> length bytes \<le> 512
    \<and> parse_message bytes default_limits = Inr \<lparr>msg_header = response_header (msg_header m) (rcode_value rc) True,
         questions = rest, answers = [], authorities = [], additionals = [], wire_image = bytes\<rparr>"
proof -
  note f = parsed_facts [OF p]
  from make_error_response_parses [OF n f(1-3), of 512 rc True] obtain bytes where
    b: "make_error_response m rc True 512 = Inr bytes" "length bytes \<le> 512"
      "parse_message bytes default_limits = Inr \<lparr>msg_header = response_header (msg_header m) (rcode_value rc) True,
         questions = echoed_questions m 512, answers = [], authorities = [], additionals = [], wire_image = bytes\<rparr>" by auto
  then have "bytes \<noteq> []" using parsed_facts(5) by fastforce
  with b show ?thesis by (auto simp: budget_values)
qed

lemma evaluate_datagram_cases:
  fixes packet :: "byte list" and was_truncated :: bool
  defines "d \<equiv> evaluate_datagram packet was_truncated"
  shows "(\<exists>m. served_query packet was_truncated m \<and> d = \<lparr>dd_outcome = DO_Accepted, dd_response = [], dd_request = Some m\<rparr>)
    \<or> (\<forall>m. \<not> served_query packet was_truncated m) \<and> dd_outcome d \<notin> {DO_Accepted, DO_InternalError} \<and> dd_request d = None
       \<and> (if claims_response packet then dd_response d = []
          else (dd_response d = [] \<longrightarrow> length packet < 3) \<and> (dd_response d \<noteq> [] \<longrightarrow> error_reply packet (dd_response d)))"
proof (cases "was_truncated \<or> length packet > kDownstreamReceiveBufferSize")
  case True
  then have n: "\<not> served_query packet was_truncated m" for m by (auto simp: served_query_def)
  show ?thesis
  proof (cases "length packet < 3 \<or> packet ! 2 AND 0x80 \<noteq> 0")
    case drop: True
    with True have "d = \<lparr>dd_outcome = DO_Dropped, dd_response = [], dd_request = None\<rparr>" by (simp add: d_def evaluate_datagram_def)
    with n drop show ?thesis by (auto simp: claims_response_def)
  next
    case False
    then have "\<not> claims_response packet" "2 \<le> length packet" by (auto simp: claims_response_def)
    from header_only_reply [OF this(2,1)] True False n this show ?thesis
      by (auto simp: d_def evaluate_datagram_def response_or_empty_def)
  qed
next
  case small: False
  show ?thesis
  proof (cases "parse_message packet default_limits")
    case (Inl e)
    then have n: "\<not> served_query packet was_truncated m" for m by (auto simp: served_query_def)
    have d: "d = \<lparr>dd_outcome = DO_Malformed,
        dd_response = response_or_empty (make_header_only_error_response packet FormErr True kDownstreamResponseBudget), dd_request = None\<rparr>"
      using small Inl by (auto simp: d_def evaluate_datagram_def make_format_error_response_def)
    show ?thesis
    proof (cases "claims_response packet \<or> length packet < 2")
      case True
      with header_only_refused [OF True, of kDownstreamResponseBudget] n show ?thesis by (auto simp: d response_or_empty_def)
    next
      case False
      with header_only_reply [of packet] n show ?thesis by (auto simp: d response_or_empty_def)
    qed
  next
    case (Inr m)
    note c = claims_response_parsed [OF Inr]
    show ?thesis
    proof (cases "validate_mvp_query m")
      case (Inr q)
      with small \<open>parse_message packet default_limits = Inr m\<close> show ?thesis
        by (auto simp: d_def evaluate_datagram_def served_query_def)
    next
      case (Inl e)
      with \<open>parse_message packet default_limits = Inr m\<close> have n: "\<not> served_query packet was_truncated x" for x
        by (auto simp: served_query_def)
      show ?thesis
      proof (cases "is_response (msg_header m)")
        case True
        then have "e = QE_NotAQuery" using Inl by (simp add: validate_mvp_query_def Let_def)
        with small Inr Inl n True c show ?thesis by (auto simp: d_def evaluate_datagram_def)
      next
        case False
        then have ne: "e \<noteq> QE_NotAQuery" using Inl by (auto simp: validate_mvp_query_def Let_def split: if_splits)
        from local_error_reply [OF Inr False, of "response_code_for e"] obtain bytes rest where
          b: "make_error_response m (response_code_for e) True kDownstreamResponseBudget = Inr bytes" "bytes \<noteq> []" "length bytes \<le> 512"
            "parse_message bytes default_limits = Inr \<lparr>msg_header = response_header (msg_header m) (rcode_value (response_code_for e)) True,
               questions = rest, answers = [], authorities = [], additionals = [], wire_image = bytes\<rparr>" by blast
        then have "error_reply packet bytes"
          using parsed_facts(4) [OF Inr] response_code_for_cases [of e] by (auto simp: error_reply_def)
        with small Inr Inl ne b False c n show ?thesis by (auto simp: d_def evaluate_datagram_def)
      qed
    qed
  qed
qed

text \<open>
  C25. A client datagram is served exactly when it fits the receive buffer and parses as a plain address
  query.  A datagram whose QR bit is set is never answered.  Every other datagram of at least three bytes
  is answered with an error that carries its ID, parses, and fits a classic UDP payload; building the
  answer never fails.
\<close>

theorem evaluate_datagram_correct:
  fixes packet :: "byte list" and was_truncated :: bool
  defines "d \<equiv> evaluate_datagram packet was_truncated"
  shows "dd_outcome d \<noteq> DO_InternalError
    \<and> (\<forall>m. dd_outcome d = DO_Accepted \<and> dd_request d = Some m \<longleftrightarrow> served_query packet was_truncated m)
    \<and> (dd_outcome d = DO_Accepted \<longrightarrow> dd_request d \<noteq> None \<and> dd_response d = [])
    \<and> (claims_response packet \<longrightarrow> dd_outcome d \<noteq> DO_Accepted \<and> dd_response d = [])
    \<and> (dd_outcome d \<noteq> DO_Accepted \<longrightarrow> \<not> claims_response packet \<longrightarrow> 3 \<le> length packet \<longrightarrow> dd_response d \<noteq> [])
    \<and> (dd_response d \<noteq> [] \<longrightarrow> error_reply packet (dd_response d))"
proof -
  have "m = m'" if "served_query packet was_truncated m" "served_query packet was_truncated m'" for m m'
    using that by (simp add: served_query_def)
  moreover have "\<not> claims_response packet" if s: "served_query packet was_truncated m" for m
  proof -
    from s obtain q where "parse_message packet default_limits = Inr m" "validate_mvp_query m = Inr q"
      by (auto simp: served_query_def is_ok_iff)
    then show ?thesis using claims_response_parsed by (auto simp: validate_mvp_query_Inr_iff plain_query_header_def)
  qed
  ultimately show ?thesis
    using evaluate_datagram_cases [of packet was_truncated] unfolding d_def
    by (elim disjE exE conjE) (auto split: if_splits)
qed

lemma evaluate_datagram_correct_witness:
  "dd_response (evaluate_datagram [0, 7, 0x80] False) = [] \<and> dd_response (evaluate_datagram [0, 7, 1, 2] True) \<noteq> []
   \<and> error_reply [0, 7, 1, 2] (dd_response (evaluate_datagram [0, 7, 1, 2] True))"
proof -
  have c: "claims_response [0, 7, 0x80]" "\<not> claims_response [0, 7, 1, 2]" by (simp_all add: claims_response_def)
  have "\<not> served_query [0, 7, 1, 2] True m" for m by (simp add: served_query_def)
  with evaluate_datagram_correct [of "[0, 7, 0x80]" False] evaluate_datagram_correct [of "[0, 7, 1, 2]" True] c
  show ?thesis by (auto simp: not_None_eq)
qed

section \<open>Cached address sets\<close>

definition address_fits :: "u16 \<Rightarrow> ip_address \<Rightarrow> bool" where
  "address_fits type a \<longleftrightarrow> length (ip_bytes a) = 16
     \<and> (type = type_code RT_A \<and> is_v4 a \<or> type = type_code RT_AAAA \<and> is_v6 a)"

definition address_view :: "u16 \<Rightarrow> ip_address \<Rightarrow> byte list" where
  "address_view type a = (if type = type_code RT_A then take 4 (ip_bytes a) else ip_bytes a)"

text \<open>Every entry holds addresses of the family that its key asks for.\<close>

definition cache_ok :: "cache_shard \<Rightarrow> bool" where
  "cache_ok s \<longleftrightarrow> shard_inv s \<and> (\<forall>k a x. view s k = Some (a, x) \<longrightarrow>
     a \<noteq> [] \<and> length a \<le> 65535 \<and> (\<forall>ip \<in> set a. address_fits (qtype k) ip))"

lemma answer_views_fit:
  "\<forall>a \<in> set as. address_fits type a \<Longrightarrow> answer_views type as = Some (map (address_view type) as)"
  by (induction as) (auto simp: address_fits_def address_view_def)

lemma address_view_length: "address_fits type a \<Longrightarrow> address_size type = Some (length (address_view type a))"
  by (auto simp: address_fits_def address_view_def address_size_def)

lemma address_message_count: "12 * length as \<le> length (address_message i f q ttl as)"
proof -
  have "12 * length as \<le> length (concat (map (wire_answer q ttl) as))" by (induction as) auto
  then show ?thesis by (simp add: address_message_def)
qed

text \<open>A response from the cache can only fail to fit.\<close>

lemma make_cache_hit_response_cases:
  fixes ttl :: u32
  assumes q: "questions request = [question]" "wf_question question" and h: "\<not> is_response (msg_header request)"
      "unat (hdr_opcode (msg_header request)) < 16"
    and a: "a \<noteq> []" "length a \<le> 65535" "\<forall>ip \<in> set a. address_fits (q_type question) ip"
  defines "r \<equiv> make_cache_hit_response request \<lparr>hit_addresses = a, remaining_ttl = ttl\<rparr> kDownstreamResponseBudget"
  shows "r = Inl WE_MessageTooLarge \<or> (\<exists>bytes rs. r = Inr bytes \<and> bytes \<noteq> [] \<and> length bytes \<le> 512
    \<and> parse_message bytes default_limits = Inr \<lparr>msg_header = response_header (msg_header request) (rcode_value NoError) True,
         questions = [question], answers = rs, authorities = [], additionals = [], wire_image = bytes\<rparr>
    \<and> map rdata rs = map (address_view (q_type question)) a
    \<and> (\<forall>x \<in> set rs. rr_name x = q_name question \<and> rr_type x = q_type question \<and> rr_class x = q_class question \<and> rr_ttl x = ttl))"
proof -
  let ?v = "map (address_view (q_type question)) a"
  let ?h = "response_header (msg_header request) (rcode_value NoError) True"
  have r: "r = make_address_response request ?v ttl True 512"
    using q(1) answer_views_fit [OF a(3)] by (simp add: r_def make_cache_hit_response_def budget_values)
  have op: "hdr_opcode (msg_header request) \<le> 0x0f" using h(2) by (simp add: word_le_nat_alt)
  have enc: "encode_flags ?h = Inr (flag_bits ?h)" using op by (simp add: encode_flags_Inr_iff)
  from a(1) obtain b where b: "b \<in> set a" by (cases a) auto
  define n where "n = length (address_view (q_type question) b)"
  have n: "address_size (q_type question) = Some n" using a(3) b address_view_length by (simp add: n_def)
  then have len: "\<forall>x \<in> set ?v. length x = n" using a(3) address_view_length by fastforce
  have eq: "r = (if length (address_message (hdr_id ?h) (flag_bits ?h) question ttl ?v) \<le> 512
      then Inr (address_message (hdr_id ?h) (flag_bits ?h) question ttl ?v) else Inl WE_MessageTooLarge)"
    using q h a(1,2) n len enc by (auto simp: r make_address_response_def write_address_message_eq)
  show ?thesis
  proof (cases "r = Inl WE_MessageTooLarge")
    case False
    then obtain bytes where bs: "r = Inr bytes" "length bytes \<le> 512" "bytes = address_message (hdr_id ?h) (flag_bits ?h) question ttl ?v"
      using eq by (auto split: if_splits)
    have c: "length ?v \<le> 4096" using address_message_count [of ?v "hdr_id ?h" "flag_bits ?h" question ttl] bs by simp
    from make_address_response_parses [OF bs(1) [unfolded r] q c] obtain rs where
      "parse_message bytes default_limits = Inr \<lparr>msg_header = response_header (msg_header request) 0 True,
         questions = [question], answers = rs, authorities = [], additionals = [], wire_image = bytes\<rparr>"
      "map rdata rs = ?v" "\<forall>x \<in> set rs. rr_name x = q_name question \<and> rr_type x = q_type question
         \<and> rr_class x = q_class question \<and> rr_ttl x = ttl" by blast
    moreover from this(1) have "bytes \<noteq> []" using parsed_facts(5) by fastforce
    ultimately show ?thesis using bs by auto
  qed simp
qed

lemma cacheable_fits:
  assumes "cacheable_address_set m question = Some c"
  shows "set_addresses c \<noteq> []" "length (set_addresses c) \<le> 65535" "\<forall>ip \<in> set (set_addresses c). address_fits (q_type question) ip"
    "set_ttl c \<noteq> 0" "map (address_view (q_type question)) (set_addresses c) = map rdata (answers m)"
proof -
  have c: "direct_response m question" "\<forall>a \<in> set (answers m). cacheable_answer question a \<noteq> None"
    "set_addresses c = map (\<lambda>a. the (cacheable_answer question a)) (answers m)"
    using assms by (auto simp: cacheable_address_set_iff)
  then show "set_addresses c \<noteq> []" "length (set_addresses c) \<le> 65535" by (auto simp: direct_response_def)
  have "address_fits (q_type question) (the (cacheable_answer question a))
      \<and> address_view (q_type question) (the (cacheable_answer question a)) = rdata a"
    if "a \<in> set (answers m)" for a
    using that c(2) by (auto simp: cacheable_answer_def address_fits_def address_view_def ip_v4_def ip_v6_def default_ip_def
        is_v4_def is_v6_def split: if_splits)
  then show "\<forall>ip \<in> set (set_addresses c). address_fits (q_type question) ip"
    "map (address_view (q_type question)) (set_addresses c) = map rdata (answers m)" by (auto simp: c(3))
  show "set_ttl c \<noteq> 0" using cacheable_ttl [OF assms] by blast
qed

lemma cache_ok_get:
  assumes "cache_ok s" and "cache_get k now s = (r, s')"
  shows "cache_ok s' \<and> cache_shard.capacity s' = cache_shard.capacity s"
proof -
  have inv: "shard_inv s" using assms(1) by (simp add: cache_ok_def)
  note g = cache_get_correct [OF inv assms(2)]
  have "view s k' = view s' k'" if "view s' k' \<noteq> None" for k'
    using g that by (auto split: option.splits if_splits)
  then have "view s k' = Some p" if "view s' k' = Some p" for k' p using that by simp
  with g assms(1) show ?thesis unfolding cache_ok_def by blast
qed

lemma cache_ok_put:
  assumes "cache_ok s" and "a \<noteq> []" "length a \<le> 65535" "\<forall>ip \<in> set a. address_fits (qtype k) ip" and "ttl \<noteq> 0"
  shows "\<exists>s'. cache_put k a ttl now s = Some s' \<and> cache_ok s' \<and> cache_shard.capacity s' = cache_shard.capacity s
    \<and> (0 < cache_shard.capacity s \<longrightarrow> view s' k = Some (a, expiry_of ttl now))"
proof -
  from cache_put_correct [of s k a ttl now] assms(1) obtain s' where
    s': "cache_put k a ttl now s = Some s'" "put_post k a ttl now s s'" by (auto simp: cache_ok_def)
  have "cache_ok s' \<and> (0 < cache_shard.capacity s \<longrightarrow> view s' k = Some (a, expiry_of ttl now))"
  proof (cases "cache_shard.capacity s = 0")
    case True
    with s'(2) assms(1) show ?thesis by (simp add: put_post_def)
  next
    case False
    with s'(2) assms(2,5) obtain victim where
      v: "shard_inv s'" "view s' = ((view s) |` (- set_option victim))(k \<mapsto> (a, expiry_of ttl now))" by (auto simp: put_post_def)
    have "b \<noteq> [] \<and> length b \<le> 65535 \<and> (\<forall>ip \<in> set b. address_fits (qtype k') ip)" if "view s' k' = Some (b, x)" for k' b x
      using that v(2) assms(1-4) by (auto simp: cache_ok_def restrict_map_def split: if_splits)
    with v show ?thesis by (auto simp: cache_ok_def)
  qed
  with s' show ?thesis by (auto simp: put_post_def)
qed

section \<open>One coroutine\<close>

text \<open>What a step of a coroutine may hand to the client's socket.\<close>

definition at_most_one_reply :: "client_datagram \<Rightarrow> worker \<Rightarrow> worker \<Rightarrow> bool" where
  "at_most_one_reply dg w w' \<longleftrightarrow> wk_sent w' = wk_sent w
     \<or> (\<exists>r. wk_sent w' = wk_sent w @ [(cd_client dg, r)] \<and> r \<noteq> [] \<and> length r \<le> 512)"

definition worker_ok :: "worker \<Rightarrow> bool" where
  "worker_ok w \<longleftrightarrow> cache_ok (wk_cache w) \<and> up_inv (wk_runtime w)"

lemma on_worker_stats_frame [simp]:
  "wk_cache (on_worker_stats f w) = wk_cache w" "wk_filter (on_worker_stats f w) = wk_filter w"
  "wk_upstream_usable (on_worker_stats f w) = wk_upstream_usable w" "wk_runtime (on_worker_stats f w) = wk_runtime w"
  "wk_sent (on_worker_stats f w) = wk_sent w"
  by (simp_all add: on_worker_stats_def)

lemma count_frame [simp]:
  "wk_cache (count_internal_error w) = wk_cache w" "wk_runtime (count_internal_error w) = wk_runtime w"
  "wk_sent (count_internal_error w) = wk_sent w" "wk_filter (count_internal_error w) = wk_filter w"
  "wk_upstream_usable (count_internal_error w) = wk_upstream_usable w"
  "wk_cache (count_miss w) = wk_cache w" "wk_runtime (count_miss w) = wk_runtime w" "wk_sent (count_miss w) = wk_sent w"
  "wk_filter (count_miss w) = wk_filter w" "wk_upstream_usable (count_miss w) = wk_upstream_usable w"
  by (simp_all add: count_internal_error_def count_miss_def)

lemma reply_frame [simp]:
  "wk_cache (reply io token dg r w) = wk_cache w" "wk_runtime (reply io token dg r w) = wk_runtime w"
  "wk_filter (reply io token dg r w) = wk_filter w"
  by (simp_all add: reply_def send_response_def Let_def)

lemma reply_sent:
  "wk_sent (reply io token dg r w) = (if r \<noteq> [] \<and> \<not> worker_stop_requested token w \<and> length r \<le> 512
     then wk_sent w @ [(cd_client dg, r)] else wk_sent w)"
  by (simp add: reply_def send_response_def Let_def budget_values)

lemma reply_one: "at_most_one_reply dg w (reply io token dg r w)"
  by (simp add: at_most_one_reply_def reply_sent)

lemma servfail_frame [simp]:
  "wk_cache (reply_or_servfail io token dg m r w) = wk_cache w" "wk_runtime (reply_or_servfail io token dg m r w) = wk_runtime w"
  by (simp_all add: reply_or_servfail_def split: sum.split)

lemma servfail_one: "at_most_one_reply dg w (reply_or_servfail io token dg m r w)"
  using reply_one by (simp add: reply_or_servfail_def split: sum.split) (simp add: at_most_one_reply_def)

lemma one_reply_frame: "wk_sent w = wk_sent v \<Longrightarrow> at_most_one_reply dg w w' \<longleftrightarrow> at_most_one_reply dg v w'"
  by (simp add: at_most_one_reply_def)

text \<open>A served query has one well-formed question.\<close>

lemma served_question:
  assumes "served_query packet was_truncated request"
  obtains question where "questions request = [question]" "wf_question question" "address_question question"
    "\<not> is_response (msg_header request)" "unat (hdr_opcode (msg_header request)) < 16"
    "parse_message packet default_limits = Inr request"
proof -
  from assms obtain question where p: "parse_message packet default_limits = Inr request"
    and v: "validate_mvp_query request = Inr question" by (auto simp: served_query_def is_ok_iff)
  from parsed_facts [OF p] v that [of question] p show thesis
    by (auto simp: validate_mvp_query_Inr_iff plain_query_header_def)
qed

definition pending_ok :: "pending_process \<Rightarrow> bool" where
  "pending_ok p \<longleftrightarrow> served_query (cd_packet (pq_datagram p)) (cd_truncated (pq_datagram p)) (pq_request p)
     \<and> questions (pq_request p) = [pq_question p]
     \<and> (\<forall>k. pq_key p = Some k \<longrightarrow> k = mk_cache_key (q_name (pq_question p)) (q_type (pq_question p)) (q_class (pq_question p)))"

lemma consult_cache_correct:
  assumes s: "served_query packet was_truncated request" "questions request = [question]" and c: "cache_ok (wk_cache w)"
    and e: "consult_cache now request question w = (ans, w')"
  shows "cache_ok (wk_cache w') \<and> wk_runtime w' = wk_runtime w \<and> wk_sent w' = wk_sent w \<and> wk_filter w' = wk_filter w
    \<and> wk_upstream_usable w' = wk_upstream_usable w \<and> ans \<noteq> CacheFailure
    \<and> (\<forall>k. ans = CacheForward (Some k) \<longrightarrow> k = mk_cache_key (q_name question) (q_type question) (q_class question))"
proof (cases "cache_eligible (msg_header request) w")
  case False
  with e c show ?thesis by (auto simp: consult_cache_def)
next
  case True
  let ?k = "mk_cache_key (q_name question) (q_type question) (q_class question)"
  obtain found shard where g: "cache_get ?k now (wk_cache w) = (found, shard)" by fastforce
  note ok = cache_ok_get [OF c g]
  show ?thesis
  proof (cases found)
    case None
    with e True g ok show ?thesis by (auto simp: consult_cache_def Let_def)
  next
    case (Some hit)
    have inv: "shard_inv (wk_cache w)" using c by (simp add: cache_ok_def)
    from cache_get_correct [OF inv g] Some obtain a x where v: "view (wk_cache w) ?k = Some (a, x)" "hit_addresses hit = a"
      by (cases "view (wk_cache w) ?k") (auto split: if_splits)
    have qt: "qtype ?k = q_type question" by (simp add: mk_cache_key_def)
    have a: "a \<noteq> []" "length a \<le> 65535" "\<forall>ip \<in> set a. address_fits (q_type question) ip"
      using c v(1) qt unfolding cache_ok_def by metis+
    from served_question [OF s(1)] s(2) have q: "wf_question question" "\<not> is_response (msg_header request)"
        "unat (hdr_opcode (msg_header request)) < 16" by auto
    have "hit = \<lparr>hit_addresses = a, remaining_ttl = remaining_ttl hit\<rparr>" using v(2) by simp
    with make_cache_hit_response_cases [OF s(2) q a, of "remaining_ttl hit"] e True g ok Some show ?thesis
      by (auto simp: consult_cache_def Let_def)
  qed
qed

lemma cache_response_correct:
  assumes p: "questions request = [question]" and c: "cache_ok (wk_cache w)"
    and k: "\<forall>k. key = Some k \<longrightarrow> qtype k = q_type question"
  shows "\<exists>w'. cache_response now request question key response w = Some w' \<and> cache_ok (wk_cache w')
    \<and> wk_runtime w' = wk_runtime w \<and> wk_sent w' = wk_sent w"
proof (cases key)
  case None
  with c show ?thesis by (simp add: cache_response_def)
next
  case (Some k)
  show ?thesis
  proof (cases "parse_message response default_limits")
    case (Inl e)
    with c Some show ?thesis by (simp add: cache_response_def)
  next
    case (Inr m)
    show ?thesis
    proof (cases "cacheable_address_set m question")
      case None
      with c Some Inr show ?thesis by (simp add: cache_response_def)
    next
      case s: (Some x)
      note f = cacheable_fits [OF s]
      have "\<forall>ip \<in> set (set_addresses x). address_fits (qtype k) ip" using f(3) k Some by simp
      from cache_ok_put [OF c f(1,2) this f(4), of now] Inr s Some c show ?thesis
        by (auto simp: cache_response_def Let_def split: sum.split)
    qed
  qed
qed

lemma query_destroy_inv: "up_inv rt \<Longrightarrow> up_inv (query_destroy rnd True now q rt)"
  using abandon_correct [of rt rnd now q] by (simp add: query_destroy_def)

lemma process_resume_safe:
  assumes w: "worker_ok w" and p: "pending_ok p"
  shows "\<exists>w'. process_resume io p w = Some w' \<and> worker_ok w' \<and> at_most_one_reply (pq_datagram p) w w'"
proof -
  define w1 where "w1 = w\<lparr>wk_runtime := query_destroy (io_random io) True (io_later io) (pq_query p) (wk_runtime w)\<rparr>"
  have w1: "cache_ok (wk_cache w1)" "up_inv (wk_runtime w1)" "wk_sent w1 = wk_sent w"
    using w query_destroy_inv by (simp_all add: w1_def worker_ok_def)
  have k: "\<forall>k. pq_key p = Some k \<longrightarrow> qtype k = q_type (pq_question p)" and q: "questions (pq_request p) = [pq_question p]"
    using p by (auto simp: pending_ok_def mk_cache_key_def)
  have none: "\<exists>w'. Some w1 = Some w' \<and> worker_ok w' \<and> at_most_one_reply (pq_datagram p) w w'"
    using w1 by (simp add: worker_ok_def at_most_one_reply_def)
  show ?thesis
  proof (cases "query_await_resume (ur_queries (wk_runtime w) (pq_query p))")
    case (Inl e)
    with none w1 show ?thesis by (cases e) (auto simp: process_resume_def w1_def worker_ok_def at_most_one_reply_def)
  next
    case (Inr result)
    from cache_response_correct [OF q w1(1) k, of "io_cache_now io" "qr_response result"] obtain w2 where
      c: "cache_response (io_cache_now io) (pq_request p) (pq_question p) (pq_key p) (qr_response result) w1 = Some w2"
        "cache_ok (wk_cache w2)" "wk_runtime w2 = wk_runtime w1" "wk_sent w2 = wk_sent w1" by blast
    have "process_resume io p w = Some (if qr_outcome result = QO_Response
        then reply_or_servfail io (pq_token p) (pq_datagram p) (pq_request p) (qr_response result) w2
        else reply_or_servfail io (pq_token p) (pq_datagram p) (pq_request p) [] w1)"
      using Inr c(1) by (simp add: process_resume_def w1_def [symmetric] Let_def)
    moreover have "at_most_one_reply (pq_datagram p) w (reply_or_servfail io (pq_token p) (pq_datagram p) (pq_request p) r v)"
      if "wk_sent v = wk_sent w" for r v
      using that one_reply_frame servfail_one by metis
    ultimately show ?thesis using w1 c by (simp add: worker_ok_def)
  qed
qed

text \<open>The task of the coroutine runs and waits for nothing; the awaiter of its frame is not in use.\<close>

definition can_process :: "nat \<Rightarrow> nat \<Rightarrow> worker \<Rightarrow> bool" where
  "can_process task q w \<longleftrightarrow> wakeable (ur_sched (wk_runtime w)) task \<and> unslotted q (wk_runtime w)
     \<and> (\<forall>j q'. ch_slots (ur_channel (wk_runtime w)) j = Some q' \<longrightarrow> qa_task (ur_queries (wk_runtime w) q') \<noteq> Some task)"

text \<open>A task that suspends on a query has registered it and sent it.\<close>

lemma query_await_suspended:
  assumes w: "up_inv rt" and q: "unslotted q rt" "wf_question (qa_question (ur_queries rt q))" and k: "wakeable (ur_sched rt) task"
    and o: "\<And>j q'. ch_slots (ur_channel rt) j = Some q' \<Longrightarrow> qa_task (ur_queries rt q') \<noteq> Some task"
    and e: "query_await_suspend rnd True task now later send q rt = (True, rt')"
  shows "\<exists>i wire. begun task q i wire (rt\<lparr>ur_sched := observe_external_stop (ur_sched rt)\<rparr>) rt' \<and> send wire = SentBytes (length wire)"
proof -
  define v where "v = rt\<lparr>ur_sched := observe_external_stop (ur_sched rt)\<rparr>"
  have v: "up_inv v" using up_inv_observe [OF w] by (simp add: v_def)
  have "can_begin task q v"
    unfolding can_begin_def using v q k o unslotted_unarmed [OF w q(1)] by (simp add: v_def wakeable_observe unslotted_def)
  moreover have "query_begin rnd True task now later send q v = (True, rt')"
    using e by (auto simp: query_await_suspend_def Let_def v_def split: if_splits)
  then obtain r where "channel_begin rnd True task now later send q v = (r, rt')" "r = BR_Suspended"
    by (auto simp: query_begin_def split: if_splits prod.splits begin_result.splits)
  ultimately show ?thesis using channel_begin_cases unfolding v_def by blast
qed

definition forwarded :: "process_io \<Rightarrow> nat \<Rightarrow> pending_process \<Rightarrow> worker \<Rightarrow> bool" where
  "forwarded io task p w' \<longleftrightarrow> (\<exists>i wire. ch_slots (ur_channel (wk_runtime w')) i = Some (pq_query p)
     \<and> qa_task (ur_queries (wk_runtime w') (pq_query p)) = Some task
     \<and> qa_header (ur_queries (wk_runtime w') (pq_query p)) = msg_header (pq_request p)
     \<and> qa_question (ur_queries (wk_runtime w') (pq_query p)) = pq_question p
     \<and> serialize_query ((msg_header (pq_request p))\<lparr>hdr_id := i\<rparr>) [pq_question p] kUpstreamQueryBudget = Inr wire
     \<and> io_send io wire = SentBytes (length wire))"

lemma forward_query_safe:
  assumes w: "worker_ok w" "can_process task (pq_query p) w" and p: "pending_ok p"
  shows "\<exists>frame w'. forward_query io task p w = Some (frame, w') \<and> worker_ok w' \<and> at_most_one_reply (pq_datagram p) w w'
    \<and> (frame \<noteq> None \<longrightarrow> frame = Some (AwaitsUpstream p) \<and> wk_sent w' = wk_sent w \<and> forwarded io task p w')"
proof -
  define a where "a = new_query (msg_header (pq_request p)) (pq_question p)
     (query_deadline (ch_config (ur_channel (wk_runtime w))) (io_now io))"
  define rt where "rt = set_query (pq_query p) (\<lambda>_. a) (wk_runtime w)"
  have up: "up_inv (wk_runtime w)" and u: "unslotted (pq_query p) (wk_runtime w)"
    using w by (simp_all add: worker_ok_def can_process_def)
  have rt: "up_inv rt" unfolding rt_def by (rule settled_up_inv [OF up u]) (simp add: a_def new_query_def)
  have wf: "wf_question (pq_question p)"
    using p by (auto simp: pending_ok_def elim: served_question)
  have c: "unslotted (pq_query p) rt" "wf_question (qa_question (ur_queries rt (pq_query p)))" "wakeable (ur_sched rt) task"
    "\<And>j q'. ch_slots (ur_channel rt) j = Some q' \<Longrightarrow> qa_task (ur_queries rt q') \<noteq> Some task"
    using w(2) wf u by (auto simp: rt_def can_process_def unslotted_def set_query_def a_def new_query_def)
  obtain suspended rt' where e: "query_await_suspend (io_random io) True task (io_now io) (io_later io) (io_send io) (pq_query p) rt
      = (suspended, rt')" by fastforce
  have up': "up_inv rt'" by (rule query_await_suspend_inv [OF rt c e])
  define w1 where "w1 = w\<lparr>wk_runtime := rt'\<rparr>"
  have w1: "worker_ok w1" using w(1) up' by (simp add: worker_ok_def w1_def)
  have f: "forward_query io task p w = (if suspended then Some (Some (AwaitsUpstream p), w1)
      else map_option (\<lambda>w2. (None, w2)) (process_resume io p w1))"
    using e by (simp add: forward_query_def Let_def rt_def a_def w1_def)
  show ?thesis
  proof (cases suspended)
    case True
    with e have e': "query_await_suspend (io_random io) True task (io_now io) (io_later io) (io_send io) (pq_query p) rt = (True, rt')" by simp
    have "\<exists>i wire. begun task (pq_query p) i wire (rt\<lparr>ur_sched := observe_external_stop (ur_sched rt)\<rparr>) rt'
        \<and> io_send io wire = SentBytes (length wire)" by (rule query_await_suspended [OF rt c(1-3) c(4) e'])
    then obtain i wire where
      b: "begun task (pq_query p) i wire (rt\<lparr>ur_sched := observe_external_stop (ur_sched rt)\<rparr>) rt'" "io_send io wire = SentBytes (length wire)"
      by blast
    then have "forwarded io task p w1"
      unfolding forwarded_def begun_def by (auto simp: w1_def rt_def set_query_def a_def new_query_def)
    with True f w1 show ?thesis by (simp add: at_most_one_reply_def) (simp add: w1_def)
  next
    case False
    from process_resume_safe [OF w1 p, of io] obtain w2 where
      r: "process_resume io p w1 = Some w2" "worker_ok w2" "at_most_one_reply (pq_datagram p) w1 w2" by blast
    moreover have "at_most_one_reply (pq_datagram p) w w2" using r(3) by (simp add: at_most_one_reply_def w1_def)
    ultimately show ?thesis using False f by simp
  qed
qed

lemma process_accepted_safe:
  assumes w: "worker_ok w" "can_process task q w" and s: "served_query (cd_packet dg) (cd_truncated dg) request"
  shows "\<exists>frame w'. process_accepted xxh3 io task q dg token request w = Some (frame, w') \<and> worker_ok w' \<and> at_most_one_reply dg w w'
    \<and> (frame \<noteq> None \<longrightarrow> wk_sent w' = wk_sent w \<and> (\<exists>p. frame = Some (AwaitsUpstream p) \<and> pending_ok p \<and> pq_datagram p = dg
         \<and> pq_request p = request \<and> pq_query p = q \<and> pq_token p = token \<and> forwarded io task p w'))"
proof -
  from served_question [OF s] obtain question where q: "questions request = [question]" "wf_question question"
    "\<not> is_response (msg_header request)" "parse_message (cd_packet dg) default_limits = Inr request" by metis
  show ?thesis
  proof (cases "matches_filter xxh3 (q_name question) w")
    case True
    from local_error_reply [OF q(4,3), of Refused] obtain bytes where
      "make_error_response request Refused True kDownstreamResponseBudget = Inr bytes" by blast
    with True q(1) w(1) reply_sent show ?thesis
      by (auto simp: process_accepted_def Let_def worker_ok_def at_most_one_reply_def reply_sent)
  next
    case False
    obtain ans w1 where c: "consult_cache (io_cache_now io) request question w = (ans, w1)" by fastforce
    have "cache_ok (wk_cache w)" using w(1) by (simp add: worker_ok_def)
    note cc = consult_cache_correct [OF s q(1) this c]
    have w1: "worker_ok w1" "can_process task q w1" using cc w by (simp_all add: worker_ok_def can_process_def)
    have ends: "worker_ok (reply_or_servfail io token dg request r w1)" "at_most_one_reply dg w (reply_or_servfail io token dg request r w1)" for r
      using w1(1) servfail_one [of dg w1] cc one_reply_frame [of w1 w] by (simp_all add: worker_ok_def)
    show ?thesis
    proof (cases ans)
      case (CacheReply r)
      with False q(1) c ends show ?thesis by (simp add: process_accepted_def Let_def)
    next
      case CacheFailure
      with cc show ?thesis by simp
    next
      case (CacheForward key)
      define p where "p = \<lparr>pq_datagram = dg, pq_token = token, pq_request = request, pq_question = question,
        pq_key = key, pq_query = q\<rparr>"
      have p: "pending_ok p" using s q(1) cc CacheForward by (auto simp: pending_ok_def p_def)
      show ?thesis
      proof (cases "wk_upstream_usable w1")
        case True
        have eq: "process_accepted xxh3 io task q dg token request w = forward_query io task p w1"
          using False q(1) c CacheForward True by (simp add: process_accepted_def Let_def p_def)
        have "can_process task (pq_query p) w1" using w1(2) by (simp add: p_def)
        from forward_query_safe [OF w1(1) this p, of io] obtain frame w' where
          f: "forward_query io task p w1 = Some (frame, w')" "worker_ok w'" "at_most_one_reply (pq_datagram p) w1 w'"
            "frame \<noteq> None \<longrightarrow> frame = Some (AwaitsUpstream p) \<and> wk_sent w' = wk_sent w1 \<and> forwarded io task p w'" by blast
        have "at_most_one_reply dg w w'" using f(3) cc one_reply_frame [of w1 w] by (simp add: p_def)
        moreover have "pq_datagram p = dg" "pq_request p = request" "pq_query p = q" "pq_token p = token" by (simp_all add: p_def)
        ultimately show ?thesis using eq f p cc by (intro exI [of _ frame] exI [of _ w']) auto
      next
        case nu: False
        with False q(1) c CacheForward ends show ?thesis by (simp add: process_accepted_def Let_def)
      qed
    qed
  qed
qed

lemma stop_token_bound:
  "wakeable s t \<Longrightarrow> stop_token_await t s = (Inr (tp_token (sc_tasks s t)), observe_external_stop s)"
  by (auto simp: stop_token_await_def task_stop_token_def wakeable_def Let_def observe_external_stop_def)

lemma evaluate_served: "served_query packet was_truncated m \<Longrightarrow>
    evaluate_datagram packet was_truncated = \<lparr>dd_outcome = DO_Accepted, dd_response = [], dd_request = Some m\<rparr>"
  using evaluate_datagram_cases [of packet was_truncated] by (auto simp: served_query_def)

text \<open>The worker once its stop token is read and the datagram counted.\<close>

definition begun_worker :: "datagram_outcome \<Rightarrow> worker \<Rightarrow> worker" where
  "begun_worker outcome w = on_worker_stats (count_decision outcome)
     (w\<lparr>wk_runtime := (wk_runtime w)\<lparr>ur_sched := observe_external_stop (ur_sched (wk_runtime w))\<rparr>\<rparr>)"

lemma begun_worker_frame [simp]:
  "wk_cache (begun_worker d w) = wk_cache w" "wk_filter (begun_worker d w) = wk_filter w" "wk_sent (begun_worker d w) = wk_sent w"
  "wk_upstream_usable (begun_worker d w) = wk_upstream_usable w"
  "wk_runtime (begun_worker d w) = (wk_runtime w)\<lparr>ur_sched := observe_external_stop (ur_sched (wk_runtime w))\<rparr>"
  by (simp_all add: begun_worker_def)

lemma begun_worker_ok:
  "worker_ok w \<Longrightarrow> worker_ok (begun_worker d w)" "can_process task q w \<Longrightarrow> can_process task q (begun_worker d w)"
  using up_inv_observe by (auto simp: worker_ok_def can_process_def unslotted_def wakeable_observe)

text \<open>Whether a coroutine that starts now finds its stop token triggered.\<close>

definition stopping :: "nat \<Rightarrow> worker \<Rightarrow> bool" where
  "stopping task w \<longleftrightarrow> token_stop_requested (tp_token (sc_tasks (ur_sched (wk_runtime w)) task))
     (observe_external_stop (ur_sched (wk_runtime w)))"

lemma process_start_served:
  assumes "wakeable (ur_sched (wk_runtime w)) task" and "\<not> stopping task w" and "served_query (cd_packet dg) (cd_truncated dg) m"
  shows "process_start xxh3 io task q dg w =
    process_accepted xxh3 io task q dg (tp_token (sc_tasks (ur_sched (wk_runtime w)) task)) m (begun_worker DO_Accepted w)"
  using assms stop_token_bound [OF assms(1)]
  by (simp add: process_start_def evaluate_served Let_def begun_worker_def stopping_def worker_stop_requested_def)

lemma process_start_safe:
  assumes w: "worker_ok w" "can_process task q w"
  shows "\<exists>frame w'. process_start xxh3 io task q dg w = Some (frame, w') \<and> worker_ok w' \<and> at_most_one_reply dg w w'
    \<and> (frame \<noteq> None \<longrightarrow> wk_sent w' = wk_sent w \<and> (\<exists>p. frame = Some (AwaitsUpstream p) \<and> pending_ok p \<and> pq_datagram p = dg
         \<and> pq_query p = q \<and> forwarded io task p w'))"
proof -
  let ?t = "tp_token (sc_tasks (ur_sched (wk_runtime w)) task)"
  define d where "d = evaluate_datagram (cd_packet dg) (cd_truncated dg)"
  have k: "wakeable (ur_sched (wk_runtime w)) task" using w(2) by (simp add: can_process_def)
  note s = stop_token_bound [OF k]
  have ok: "worker_ok (begun_worker (dd_outcome d) w)" "can_process task q (begun_worker (dd_outcome d) w)"
    using begun_worker_ok w by blast+
  show ?thesis
  proof (cases "stopping task w")
    case True
    have "worker_ok (w\<lparr>wk_runtime := (wk_runtime w)\<lparr>ur_sched := observe_external_stop (ur_sched (wk_runtime w))\<rparr>\<rparr>)"
      using w(1) up_inv_observe by (simp add: worker_ok_def)
    with True s show ?thesis
      by (simp add: process_start_def Let_def stopping_def worker_stop_requested_def at_most_one_reply_def)
  next
    case False
    show ?thesis
    proof (cases "\<exists>m. served_query (cd_packet dg) (cd_truncated dg) m")
      case True
      then obtain m where m: "served_query (cd_packet dg) (cd_truncated dg) m" by blast
      have "dd_outcome d = DO_Accepted" using evaluate_served [OF m] by (simp add: d_def)
      with process_accepted_safe [OF ok m, of xxh3 io ?t] process_start_served [OF k False m, of xxh3 io q]
        one_reply_frame [of "begun_worker DO_Accepted w" w] show ?thesis by auto
    next
      case ns: False
      with evaluate_datagram_cases [of "cd_packet dg" "cd_truncated dg"]
      have d: "dd_outcome d \<noteq> DO_Accepted" "dd_outcome d \<noteq> DO_InternalError" by (auto simp: d_def)
      have e: "process_start xxh3 io task q dg w = Some (None, if dd_outcome d = DO_Dropped then begun_worker (dd_outcome d) w
          else reply io ?t dg (dd_response d) (begun_worker (dd_outcome d) w))"
        using s False d by (simp add: process_start_def Let_def d_def [symmetric] stopping_def worker_stop_requested_def begun_worker_def)
      show ?thesis
      proof (cases "dd_outcome d = DO_Dropped")
        case True
        with e ok show ?thesis by (simp add: at_most_one_reply_def)
      next
        case False
        with e ok reply_one [of dg "begun_worker (dd_outcome d) w" io ?t "dd_response d"]
          one_reply_frame [of "begun_worker (dd_outcome d) w" w] show ?thesis by (simp add: worker_ok_def)
      qed
    qed
  qed
qed

section \<open>Correctness\<close>

text \<open>
  C1. Whatever a client sends, the coroutine that handles it runs without undefined behaviour, keeps the
  invariants of cache and channel, and hands the socket at most one reply, to that client and of at most
  512 bytes: either before it suspends, or after the upstream query on which it suspended has ended.  If it
  suspends, its query is registered and the bytes sent upstream ask the client's question.
\<close>

theorem process_datagram_safe:
  assumes "worker_ok w" and "can_process task q w"
  shows "\<exists>frame w'. process_start xxh3 io task q dg w = Some (frame, w') \<and> worker_ok w' \<and> at_most_one_reply dg w w'
    \<and> (frame \<noteq> None \<longrightarrow> wk_sent w' = wk_sent w \<and> (\<exists>p. frame = Some (AwaitsUpstream p) \<and> forwarded io task p w'
         \<and> served_query (cd_packet dg) (cd_truncated dg) (pq_request p) \<and> questions (pq_request p) = [pq_question p]
         \<and> (\<forall>io' v. worker_ok v \<longrightarrow> (\<exists>v'. process_resume io' p v = Some v' \<and> worker_ok v' \<and> at_most_one_reply dg v v'))))"
proof -
  from process_start_safe [OF assms, of xxh3 io dg] obtain frame w' where
    s: "process_start xxh3 io task q dg w = Some (frame, w')" "worker_ok w'" "at_most_one_reply dg w w'"
      "frame \<noteq> None \<longrightarrow> wk_sent w' = wk_sent w \<and> (\<exists>p. frame = Some (AwaitsUpstream p) \<and> pending_ok p \<and> pq_datagram p = dg
         \<and> pq_query p = q \<and> forwarded io task p w')" by blast
  have "\<exists>v'. process_resume io' p v = Some v' \<and> worker_ok v' \<and> at_most_one_reply dg v v'"
    if "pending_ok p" "pq_datagram p = dg" "worker_ok v" for p io' v
    using process_resume_safe [OF that(3,1), of io'] that(2) by simp
  with s show ?thesis by (intro exI [of _ frame] exI [of _ w']) (fastforce simp: pending_ok_def)
qed

text \<open>
  C5. A query for a blocked name is refused before anything else is asked: the client gets exactly one
  reply, with its ID, the code REFUSED and no answers, and neither the cache nor the upstream channel, its
  timers and its queries change.
\<close>

theorem blocked_query_refused:
  assumes "served_query (cd_packet dg) (cd_truncated dg) request" and "questions request = [question]"
    and "matches_filter xxh3 (q_name question) w" and "wakeable (ur_sched (wk_runtime w)) task" and "\<not> stopping task w"
  shows "\<exists>w' refused rest. process_start xxh3 io task q dg w = Some (None, w')
    \<and> wk_sent w' = wk_sent w @ [(cd_client dg, refused)] \<and> length refused \<le> 512
    \<and> parse_message refused default_limits = Inr \<lparr>msg_header = response_header (msg_header request) (rcode_value Refused) True,
         questions = rest, answers = [], authorities = [], additionals = [], wire_image = refused\<rparr>
    \<and> wk_cache w' = wk_cache w \<and> wk_runtime w' = (wk_runtime w)\<lparr>ur_sched := observe_external_stop (ur_sched (wk_runtime w))\<rparr>"
proof -
  let ?t = "tp_token (sc_tasks (ur_sched (wk_runtime w)) task)"
  from served_question [OF assms(1)] have "\<not> is_response (msg_header request)" "parse_message (cd_packet dg) default_limits = Inr request"
    by metis+
  from local_error_reply [OF this(2,1), of Refused] obtain refused rest where
    r: "make_error_response request Refused True kDownstreamResponseBudget = Inr refused" "refused \<noteq> []" "length refused \<le> 512"
      "parse_message refused default_limits = Inr \<lparr>msg_header = response_header (msg_header request) (rcode_value Refused) True,
         questions = rest, answers = [], authorities = [], additionals = [], wire_image = refused\<rparr>" by blast
  define w1 where "w1 = on_worker_stats (\<lambda>s. s\<lparr>ws_blocked_queries := ws_blocked_queries s + 1\<rparr>) (begun_worker DO_Accepted w)"
  have "matches_filter xxh3 (q_name question) (begun_worker DO_Accepted w)" using assms(3) by (simp add: matches_filter_def)
  with process_start_served [OF assms(4,5,1), of xxh3 io q] r(1) assms(2)
  have e: "process_start xxh3 io task q dg w = Some (None, reply io ?t dg refused w1)"
    by (simp add: process_accepted_def Let_def w1_def)
  have "\<not> worker_stop_requested ?t w1" using assms(5) by (simp add: worker_stop_requested_def stopping_def w1_def)
  with e r show ?thesis by (simp add: reply_sent w1_def)
qed

lemma query_destroy_sched: "ur_sched (query_destroy rnd b now q rt) = ur_sched rt"
  by (simp add: query_destroy_def abandon_def disarm_query_def Let_def on_channel_def set_query_def split: prod.split)

text \<open>
  Whether a cached set fits into a response does not depend on the header of the request, on the TTL or on
  the case of the letters in the name.
\<close>

lemma question_eq_wire_length:
  assumes "question_eq q1 q2" and "wf_question q1" and "wf_question q2"
  shows "length (wire_question q1) = length (wire_question q2)"
proof -
  have "length (canonical_key (q_name q)) = labels_wire_size (labels (q_name q))" if "wf_question q" for q
    using wf_question_name_of [OF that] length_key_of_labels by (metis name_of_simps(3))
  from this [OF assms(2)] this [OF assms(3)] assms(1) show ?thesis
    by (simp add: wire_question_def question_eq_def name_eq_def)
qed

lemma length_address_message:
  assumes "length (wire_question q1) = length (wire_question q2)"
  shows "length (address_message i f q1 ttl as) = length (address_message i' f' q2 ttl' as)"
  using assms by (simp add: address_message_def length_concat comp_def)

lemma cache_hit_fits:
  assumes q: "questions r1 = [q1]" "questions r2 = [q2]" and eq: "question_eq q2 q1" "wf_question q2" "wf_question q1"
    and ok: "is_ok (make_cache_hit_response r1 \<lparr>hit_addresses = a, remaining_ttl = t1\<rparr> kDownstreamResponseBudget)"
    and h: "\<not> is_response (msg_header r2)" "unat (hdr_opcode (msg_header r2)) < 16"
  shows "is_ok (make_cache_hit_response r2 \<lparr>hit_addresses = a, remaining_ttl = t2\<rparr> kDownstreamResponseBudget)"
proof -
  have ty: "q_type q2 = q_type q1" using eq(1) by (simp add: question_eq_def)
  from ok q(1) obtain v bytes where v: "answer_views (q_type q1) a = Some v"
    and m: "make_address_response r1 v t1 True 512 = Inr bytes"
    by (auto simp: make_cache_hit_response_def budget_values is_ok_iff split: option.splits)
  let ?h1 = "response_header (msg_header r1) (rcode_value NoError) True"
  let ?h2 = "response_header (msg_header r2) (rcode_value NoError) True"
  from m q(1) obtain n f1 where c: "v \<noteq> []" "length v \<le> 65535" "address_size (q_type q1) = Some n" "\<forall>x \<in> set v. length x = n"
      "length (address_message (hdr_id ?h1) f1 q1 t1 v) \<le> 512"
    by (auto simp: make_address_response_def write_address_message_eq split: if_splits option.splits sum.splits)
  have "hdr_opcode (msg_header r2) \<le> 0x0f" using h(2) by (simp add: word_le_nat_alt)
  then have enc: "encode_flags ?h2 = Inr (flag_bits ?h2)" by (simp add: encode_flags_Inr_iff)
  have "length (address_message (hdr_id ?h2) (flag_bits ?h2) q2 t2 v) \<le> 512"
    using c(5) length_address_message [OF question_eq_wire_length [OF eq], of "hdr_id ?h2" "flag_bits ?h2" t2 v "hdr_id ?h1" f1 t1]
    by simp
  with c(1-4) enc h(1) q(2) v ty show ?thesis
    by (simp add: make_cache_hit_response_def make_address_response_def write_address_message_eq budget_values)
qed

lemma cached_query:
  assumes s: "served_query (cd_packet dg) (cd_truncated dg) request" "questions request = [question]"
    and f: "\<not> matches_filter xxh3 (q_name question) w" and c: "cache_ok (wk_cache w)" "cache_eligible (msg_header request) w"
    and v: "view (wk_cache w) (mk_cache_key (q_name question) (q_type question) (q_class question)) = Some (a, x)" "io_cache_now io < x"
    and fits: "is_ok (make_cache_hit_response request \<lparr>hit_addresses = a, remaining_ttl = bounded_remaining (x - io_cache_now io)\<rparr>
                 kDownstreamResponseBudget)"
    and t: "wakeable (ur_sched (wk_runtime w)) task" "\<not> stopping task w"
  shows "\<exists>w' bytes rs. process_start xxh3 io task q dg w = Some (None, w') \<and> wk_sent w' = wk_sent w @ [(cd_client dg, bytes)]
    \<and> length bytes \<le> 512
    \<and> parse_message bytes default_limits = Inr \<lparr>msg_header = response_header (msg_header request) (rcode_value NoError) True,
         questions = [question], answers = rs, authorities = [], additionals = [], wire_image = bytes\<rparr>
    \<and> map rdata rs = map (address_view (q_type question)) a
    \<and> (\<forall>r \<in> set rs. rr_name r = q_name question \<and> rr_type r = q_type question \<and> rr_class r = q_class question
         \<and> rr_ttl r = bounded_remaining (x - io_cache_now io))
    \<and> wk_runtime w' = (wk_runtime w)\<lparr>ur_sched := observe_external_stop (ur_sched (wk_runtime w))\<rparr>"
proof -
  let ?k = "mk_cache_key (q_name question) (q_type question) (q_class question)"
  let ?t = "tp_token (sc_tasks (ur_sched (wk_runtime w)) task)"
  let ?hit = "\<lparr>hit_addresses = a, remaining_ttl = bounded_remaining (x - io_cache_now io)\<rparr>"
  from served_question [OF s(1)] s(2) have q: "wf_question question" "\<not> is_response (msg_header request)"
    "unat (hdr_opcode (msg_header request)) < 16" by auto
  have "qtype ?k = q_type question" by (simp add: mk_cache_key_def)
  then have a: "a \<noteq> []" "length a \<le> 65535" "\<forall>ip \<in> set a. address_fits (q_type question) ip"
    using c(1) v(1) unfolding cache_ok_def by metis+
  from make_cache_hit_response_cases [OF s(2) q a, of "bounded_remaining (x - io_cache_now io)"] fits obtain bytes rs where
    b: "make_cache_hit_response request ?hit kDownstreamResponseBudget = Inr bytes" "bytes \<noteq> []" "length bytes \<le> 512"
      "parse_message bytes default_limits = Inr \<lparr>msg_header = response_header (msg_header request) (rcode_value NoError) True,
         questions = [question], answers = rs, authorities = [], additionals = [], wire_image = bytes\<rparr>"
      "map rdata rs = map (address_view (q_type question)) a"
      "\<forall>r \<in> set rs. rr_name r = q_name question \<and> rr_type r = q_type question \<and> rr_class r = q_class question
         \<and> rr_ttl r = bounded_remaining (x - io_cache_now io)" by auto
  obtain found shard where g: "cache_get ?k (io_cache_now io) (wk_cache w) = (found, shard)" by fastforce
  have "shard_inv (wk_cache w)" using c(1) by (simp add: cache_ok_def)
  from cache_get_correct [OF this g] v have found: "found = Some ?hit" by simp
  define w0 where "w0 = begun_worker DO_Accepted w"
  define w1 where "w1 = on_worker_stats (\<lambda>s. s\<lparr>ws_cache_hits := ws_cache_hits s + 1\<rparr>) (w0\<lparr>wk_cache := shard\<rparr>)"
  have "consult_cache (io_cache_now io) request question w0 = (CacheReply bytes, w1)"
    using c(2) g found b(1) by (simp add: consult_cache_def cache_eligible_def w0_def w1_def Let_def)
  moreover have "\<not> matches_filter xxh3 (q_name question) w0" using f by (simp add: matches_filter_def w0_def)
  ultimately have e: "process_start xxh3 io task q dg w = Some (None, reply io ?t dg bytes w1)"
    using process_start_served [OF t s(1), of xxh3 io q] s(2) b(2)
    by (simp add: process_accepted_def Let_def w0_def [symmetric] reply_or_servfail_def)
  have "\<not> worker_stop_requested ?t w1" using t(2) by (simp add: worker_stop_requested_def stopping_def w1_def w0_def)
  with e b show ?thesis by (simp add: reply_sent w1_def w0_def)
qed

text \<open>
  C24. The end of an upstream query is relayed to the client that asked: a response is handed to the socket
  byte for byte, any other outcome becomes one SERVFAIL with the client's ID, and a cancelled query is not
  answered at all.
\<close>

theorem upstream_result_relayed:
  assumes "pending_ok p" and "worker_ok w" and "\<not> worker_stop_requested (pq_token p) w" and "process_resume io p w = Some w'"
  shows "case query_await_resume (ur_queries (wk_runtime w) (pq_query p)) of
      Inl e \<Rightarrow> wk_sent w' = wk_sent w
    | Inr result \<Rightarrow>
        if qr_outcome result = QO_Response \<and> qr_response result \<noteq> []
        then length (qr_response result) \<le> 512 \<longrightarrow> wk_sent w' = wk_sent w @ [(cd_client (pq_datagram p), qr_response result)]
        else \<exists>servfail m. wk_sent w' = wk_sent w @ [(cd_client (pq_datagram p), servfail)]
               \<and> parse_message servfail default_limits = Inr m \<and> answers m = []
               \<and> msg_header m = response_header (msg_header (pq_request p)) (rcode_value ServFail) True"
proof -
  define w1 where "w1 = w\<lparr>wk_runtime := query_destroy (io_random io) True (io_later io) (pq_query p) (wk_runtime w)\<rparr>"
  have w1: "cache_ok (wk_cache w1)" "wk_sent w1 = wk_sent w" "\<not> worker_stop_requested (pq_token p) w1"
    using assms(2,3) by (simp_all add: w1_def worker_ok_def worker_stop_requested_def query_destroy_sched)
  have k: "\<forall>k. pq_key p = Some k \<longrightarrow> qtype k = q_type (pq_question p)" and q: "questions (pq_request p) = [pq_question p]"
    and s: "served_query (cd_packet (pq_datagram p)) (cd_truncated (pq_datagram p)) (pq_request p)"
    using assms(1) by (auto simp: pending_ok_def mk_cache_key_def)
  from served_question [OF s] have "\<not> is_response (msg_header (pq_request p))"
    "parse_message (cd_packet (pq_datagram p)) default_limits = Inr (pq_request p)" by metis+
  from local_error_reply [OF this(2,1), of ServFail] obtain servfail rest where
    f: "make_error_response (pq_request p) ServFail True kDownstreamResponseBudget = Inr servfail" "servfail \<noteq> []" "length servfail \<le> 512"
      "parse_message servfail default_limits = Inr \<lparr>msg_header = response_header (msg_header (pq_request p)) (rcode_value ServFail) True,
         questions = rest, answers = [], authorities = [], additionals = [], wire_image = servfail\<rparr>" by blast
  have sf: "wk_sent (reply_or_servfail io (pq_token p) (pq_datagram p) (pq_request p) [] v) = wk_sent v @ [(cd_client (pq_datagram p), servfail)]"
    if "\<not> worker_stop_requested (pq_token p) v" for v
    using f that by (simp add: reply_or_servfail_def reply_sent)
  show ?thesis
  proof (cases "query_await_resume (ur_queries (wk_runtime w) (pq_query p))")
    case (Inl e)
    with assms(4) show ?thesis by (cases e) (auto simp: process_resume_def)
  next
    case (Inr result)
    from cache_response_correct [OF q w1(1) k, of "io_cache_now io" "qr_response result"] obtain w2 where
      c: "cache_response (io_cache_now io) (pq_request p) (pq_question p) (pq_key p) (qr_response result) w1 = Some w2"
        "wk_runtime w2 = wk_runtime w1" "wk_sent w2 = wk_sent w1" by blast
    have n2: "\<not> worker_stop_requested (pq_token p) w2" using w1(3) c(2) by (simp add: worker_stop_requested_def)
    have w': "w' = (if qr_outcome result = QO_Response
        then reply_or_servfail io (pq_token p) (pq_datagram p) (pq_request p) (qr_response result) w2
        else reply_or_servfail io (pq_token p) (pq_datagram p) (pq_request p) [] w1)"
      using assms(4) Inr c(1) by (simp add: process_resume_def w1_def [symmetric] Let_def split: if_splits)
    show ?thesis
    proof (cases "qr_outcome result = QO_Response \<and> qr_response result \<noteq> []")
      case True
      with Inr w' n2 c(3) w1(2) show ?thesis by (simp add: reply_or_servfail_def reply_sent)
    next
      case False
      then have "wk_sent w' = wk_sent w @ [(cd_client (pq_datagram p), servfail)]"
        using w' sf [OF n2] sf [OF w1(3)] c(3) w1(2) by auto
      with f(4) Inr False show ?thesis by auto
    qed
  qed
qed

text \<open>
  C10. An upstream answer that may be cached is served again from the cache.  Let the answer to a query
  that was looked up in the cache be cacheable and fit a reply.  Then, however the worker has gone on,
  as long as its shard still holds the stored entry (it was neither evicted nor replaced) and the entry
  has not expired, a request for the same name up to the case of its letters, type and class is answered
  at once with the same addresses, under its own header and question and with the remaining time to live,
  which is at least one second and never exceeds the one received, and nothing is sent upstream.  The
  request must be one the cache is consulted for (AD and CD clear, caching enabled), its name must not be
  blocked by the filter, and the worker must not be stopping.
\<close>

theorem upstream_answer_cached:
  assumes p: "pending_ok p" "pq_key p = Some key" and w: "cache_ok (wk_cache w)" "0 < cache_shard.capacity (wk_cache w)"
    and r: "query_await_resume (ur_queries (wk_runtime w) (pq_query p)) = Inr result" "qr_outcome result = QO_Response"
      "parse_message (qr_response result) default_limits = Inr m" "cacheable_address_set m (pq_question p) = Some c"
      "is_ok (make_cache_hit_response (pq_request p) \<lparr>hit_addresses = set_addresses c, remaining_ttl = set_ttl c\<rparr> kDownstreamResponseBudget)"
    and e: "process_resume io p w = Some w'" and v: "cache_ok (wk_cache v)" "view (wk_cache v) key = view (wk_cache w') key"
    and s: "served_query (cd_packet dg) (cd_truncated dg) request" "questions request = [question]"
      "question_eq question (pq_question p)" "\<not> authenticated_data (msg_header request)"
      "\<not> checking_disabled (msg_header request)" "0 < cache_shard.capacity (wk_cache v)"
      "\<not> matches_filter xxh3 (q_name question) v"
    and now: "io_cache_now io \<le> io_cache_now io'" "io_cache_now io' < expiry_of (set_ttl c) (io_cache_now io)"
    and t: "wakeable (ur_sched (wk_runtime v)) task" "\<not> stopping task v"
  shows "\<exists>v' bytes rs. process_start xxh3 io' task q dg v = Some (None, v') \<and> wk_sent v' = wk_sent v @ [(cd_client dg, bytes)]
    \<and> parse_message bytes default_limits = Inr \<lparr>msg_header = response_header (msg_header request) (rcode_value NoError) True,
         questions = [question], answers = rs, authorities = [], additionals = [], wire_image = bytes\<rparr>
    \<and> map rdata rs = map rdata (answers m)
    \<and> (\<forall>x \<in> set rs. 1 \<le> uint (rr_ttl x) \<and> uint (rr_ttl x) \<le> uint (set_ttl c))
    \<and> wk_runtime v' = (wk_runtime v)\<lparr>ur_sched := observe_external_stop (ur_sched (wk_runtime v))\<rparr>"
proof -
  let ?q = "pq_question p" and ?x = "expiry_of (set_ttl c) (io_cache_now io)"
  note f = cacheable_fits [OF r(4)]
  have key: "key = mk_cache_key (q_name ?q) (q_type ?q) (q_class ?q)" using p by (simp add: pending_ok_def)
  then have kf: "\<forall>ip \<in> set (set_addresses c). address_fits (qtype key) ip" using f(3) by (simp add: mk_cache_key_def)
  define w1 where "w1 = w\<lparr>wk_runtime := query_destroy (io_random io) True (io_later io) (pq_query p) (wk_runtime w)\<rparr>"
  have c1: "cache_ok (wk_cache w1)" using w(1) by (simp add: w1_def)
  from cache_ok_put [OF c1 f(1,2) kf f(4), of "io_cache_now io"] w(2) obtain shard where
    st: "cache_put key (set_addresses c) (set_ttl c) (io_cache_now io) (wk_cache w1) = Some shard" "cache_ok shard"
      "view shard key = Some (set_addresses c, ?x)" by (auto simp: w1_def)
  have "wk_cache w' = shard"
    using e r p(2) st(1) by (auto simp: process_resume_def w1_def [symmetric] Let_def cache_response_def is_ok_iff)
  moreover have ty: "q_type question = q_type ?q" and qk: "mk_cache_key (q_name question) (q_type question) (q_class question) = key"
    using s(3) key by (simp_all add: question_eq_def name_eq_def mk_cache_key_def)
  ultimately have cv: "view (wk_cache v) (mk_cache_key (q_name question) (q_type question) (q_class question)) = Some (set_addresses c, ?x)"
    using v(2) st by simp
  have el: "cache_eligible (msg_header request) v" using s(4-6) by (simp add: cache_eligible_def)
  have pq: "questions (pq_request p) = [?q]" using p(1) by (simp add: pending_ok_def)
  have wq: "wf_question question" "wf_question ?q"
    using served_question [OF s(1)] s(2) served_question p(1) pq unfolding pending_ok_def by (metis list.inject)+
  from served_question [OF s(1)] have h: "\<not> is_response (msg_header request)" "unat (hdr_opcode (msg_header request)) < 16" by metis+
  note fits = cache_hit_fits [OF pq s(2,3) wq r(5) h, of "bounded_remaining (?x - io_cache_now io')"]
  have b: "1 \<le> uint (bounded_remaining (?x - io_cache_now io'))" "uint (bounded_remaining (?x - io_cache_now io')) \<le> uint (set_ttl c)"
    using bounded_remaining_bounds [of "?x - io_cache_now io'" "set_ttl c"] now by (simp_all add: expiry_of_def)
  from cached_query [OF s(1,2,7) v(1) el cv now(2) fits t, of q] obtain v' bytes rs where
    "process_start xxh3 io' task q dg v = Some (None, v')" "wk_sent v' = wk_sent v @ [(cd_client dg, bytes)]"
    "parse_message bytes default_limits = Inr \<lparr>msg_header = response_header (msg_header request) (rcode_value NoError) True,
         questions = [question], answers = rs, authorities = [], additionals = [], wire_image = bytes\<rparr>"
    "map rdata rs = map (address_view (q_type question)) (set_addresses c)"
    "\<forall>x \<in> set rs. rr_ttl x = bounded_remaining (?x - io_cache_now io')"
    "wk_runtime v' = (wk_runtime v)\<lparr>ur_sched := observe_external_stop (ur_sched (wk_runtime v))\<rparr>" by auto
  with f(5) b ty show ?thesis by auto
qed

section \<open>Witnesses\<close>

text \<open>A worker that was just started, and the packet of an A query for the name \<open>a\<close>.\<close>

definition sample_packet :: "byte list" where
  "sample_packet = response_or_empty (serialize_query (msg_header sample_request) [sample_question] 512)"

definition sample_datagram :: client_datagram where
  "sample_datagram = \<lparr>cd_packet = sample_packet, cd_client = [127, 0, 0, 1], cd_truncated = False\<rparr>"

definition no_worker_stats :: worker_stats where
  "no_worker_stats = \<lparr>ws_received_datagrams = 0, ws_truncated_datagrams = 0, ws_parse_errors = 0, ws_unsupported_queries = 0,
     ws_accepted_queries = 0, ws_blocked_queries = 0, ws_cache_hits = 0, ws_cache_misses = 0, ws_cache_bypasses = 0,
     ws_cache_inserts = 0, ws_responses_sent = 0, ws_oversized_responses = 0, ws_send_errors = 0,
     ws_upstream_queries = 0, ws_upstream_responses = 0,
     ws_upstream_timeouts = 0, ws_upstream_cancellations = 0, ws_upstream_send_errors = 0, ws_upstream_socket_errors = 0,
     ws_upstream_overloaded = 0, ws_upstream_invalid_responses = 0, ws_upstream_unmatched_responses = 0, ws_internal_errors = 0\<rparr>"

definition sample_worker :: "filter_context option \<Rightarrow> worker" where
  "sample_worker ctx = \<lparr>wk_cache = new_shard 4, wk_filter = ctx, wk_upstream_usable = True, wk_stats = no_worker_stats,
     wk_runtime = started_runtime, wk_listener_pending = False, wk_generation_pending = False, wk_upstream_pending = False,
     wk_upstream_error_pending = False, wk_upstream_hangup_pending = False, wk_frames = Map.empty, wk_sent = []\<rparr>"

definition sample_io :: process_io where
  "sample_io = \<lparr>io_cache_now = 0, io_now = 3, io_later = 3, io_random = id, io_send = accept_all, io_sendto = accept_all\<rparr>"

lemma sample_served:
  obtains m where "served_query sample_packet False m" "questions m = [sample_question]" "\<not> authenticated_data (msg_header m)"
    "\<not> checking_disabled (msg_header m)"
proof -
  have "is_ok (serialize_query (msg_header sample_request) [sample_question] 512)"
    by (simp add: serialize_query_def write_question_message_eq encode_flags_eq question_message_def
        sample_request_def default_header_def sample_question_def)
  then obtain bs where ok: "serialize_query (msg_header sample_request) [sample_question] 512 = Inr bs" by (auto simp: is_ok_iff)
  then have sp: "sample_packet = bs" by (simp add: sample_packet_def response_or_empty_def)
  from serialize_query_parses [OF ok, of default_limits] obtain m where
    "length bs \<le> 512" "parse_message bs default_limits = Inr m" "questions m = [sample_question]"
    "answers m = []" "authorities m = []" "additionals m = []"
    "msg_header m = (msg_header sample_request)\<lparr>authoritative_answer := False, truncated := False, recursion_available := False,
       hdr_response_code := rcode_value NoError\<rparr>" by (auto simp: default_limits_def)
  then have "served_query sample_packet False m" "questions m = [sample_question]" "\<not> authenticated_data (msg_header m)"
      "\<not> checking_disabled (msg_header m)"
    by (auto simp: served_query_def sp budget_values is_ok_iff validate_mvp_query_Inr_iff plain_query_header_def
        address_question_def sample_request_def sample_question_def default_header_def)
  with that show thesis by blast
qed

lemma sample_worker_ok:
  "worker_ok (sample_worker ctx)" "can_process 3 9 (sample_worker ctx)" "\<not> stopping 3 (sample_worker ctx)"
  "wakeable (ur_sched (wk_runtime (sample_worker ctx))) 3" "wk_sent (sample_worker ctx) = []"
proof -
  show k: "wakeable (ur_sched (wk_runtime (sample_worker ctx))) 3"
    using two_bound_rep(2) by (simp add: sample_worker_def started_runtime_inv)
  show "worker_ok (sample_worker ctx)"
    using started_runtime_inv(1) new_shard_inv by (simp add: worker_ok_def sample_worker_def cache_ok_def)
  show "can_process 3 9 (sample_worker ctx)"
    using k by (simp add: can_process_def sample_worker_def unslotted_def started_no_slots)
  have "\<not> tp_token (sc_tasks two_bound 3)"
    by (simp add: two_bound_def sc_tasks_set_task started_scheduler_def sched_start_def new_scheduler_def
        observe_external_stop_def stop_requested_def Let_def fresh_promise_def)
  then show "\<not> stopping 3 (sample_worker ctx)"
    by (simp add: stopping_def sample_worker_def started_runtime_inv token_stop_requested_def)
  show "wk_sent (sample_worker ctx) = []" by (simp add: sample_worker_def)
qed

lemma process_datagram_safe_witness:
  "\<exists>frame w'. process_start (\<lambda>_. 5) sample_io 3 9 sample_datagram (sample_worker None) = Some (frame, w') \<and> length (wk_sent w') \<le> 1"
  using process_datagram_safe [OF sample_worker_ok(1,2), of "\<lambda>_. 5" sample_io sample_datagram None]
  by (auto simp: at_most_one_reply_def sample_worker_ok(5))

lemma blocked_query_refused_witness:
  "\<exists>ctx w' refused. process_start (\<lambda>_. 5) sample_io 3 9 sample_datagram (sample_worker (Some ctx)) = Some (None, w')
     \<and> wk_sent w' = [([127, 0, 0, 1], refused)]"
proof -
  obtain ctx where b: "build_filter_snapshot (\<lambda>_. 5) (\<lambda>_. False) [[97]] 1 = Some (Inr ctx)"
    using small_build by (auto simp: build_filter_snapshot_def)
  then obtain bl polls where bl: "build (\<lambda>_. 5) (\<lambda>_. False) [[97]] = Some (Inr (bl, polls))" "blocklist ctx = bl"
    by (auto simp: build_filter_snapshot_def new_filter_context_def split: option.splits sum.splits if_splits)
  have "wf_name (q_name sample_question)" using sample_question_wf by (simp add: wf_question_def)
  from build_matches_exactly [OF bl(1) this] have "matches (\<lambda>_. 5) bl (q_name sample_question)"
    by (auto simp: small_text sample_question_def is_subdomain_suffix)
  then have m: "matches_filter (\<lambda>_. 5) (q_name sample_question) (sample_worker (Some ctx))"
    using bl(2) by (simp add: matches_filter_def sample_worker_def)
  from sample_served obtain request where s: "served_query (cd_packet sample_datagram) (cd_truncated sample_datagram) request"
      "questions request = [sample_question]" by (auto simp: sample_datagram_def)
  from blocked_query_refused [OF s m sample_worker_ok(4,3), of sample_io 9] show ?thesis
    by (auto simp: sample_worker_ok(5) sample_datagram_def)
qed

text \<open>The same worker after the query of its client has ended with a result.\<close>

definition answered_worker :: "query_result \<Rightarrow> worker" where
  "answered_worker result = (sample_worker None)\<lparr>wk_runtime := set_query 9 (\<lambda>a. a\<lparr>qa_owned := False, qa_state := QS_Completed,
     qa_result := result\<rparr>) started_runtime\<rparr>"

definition sample_pending :: "message \<Rightarrow> pending_process" where
  "sample_pending request = \<lparr>pq_datagram = sample_datagram, pq_token = False, pq_request = request, pq_question = sample_question,
     pq_key = Some (mk_cache_key (q_name sample_question) (q_type sample_question) (q_class sample_question)), pq_query = 9\<rparr>"

lemma sample_pending_ok:
  "served_query sample_packet False m \<Longrightarrow> questions m = [sample_question] \<Longrightarrow> pending_ok (sample_pending m)"
  by (simp add: pending_ok_def sample_pending_def sample_datagram_def)

lemma answered_worker_facts:
  "worker_ok (answered_worker result)" "wk_cache (answered_worker result) = new_shard 4" "wk_sent (answered_worker result) = []"
  "\<not> worker_stop_requested False (answered_worker result)"
  "qr_outcome result \<noteq> QO_Cancelled \<Longrightarrow> query_await_resume (ur_queries (wk_runtime (answered_worker result)) 9) = Inr result"
proof -
  have "unslotted 9 started_runtime" by (simp add: unslotted_def started_no_slots)
  from settled_up_inv [OF started_runtime_inv(1) this] show "worker_ok (answered_worker result)"
    using new_shard_inv by (simp add: worker_ok_def answered_worker_def sample_worker_def cache_ok_def)
  show "wk_cache (answered_worker result) = new_shard 4" "wk_sent (answered_worker result) = []"
    "\<not> worker_stop_requested False (answered_worker result)"
    by (simp_all add: answered_worker_def sample_worker_def worker_stop_requested_def token_stop_requested_def)
  show "query_await_resume (ur_queries (wk_runtime (answered_worker result)) 9) = Inr result" if "qr_outcome result \<noteq> QO_Cancelled"
    using that by (simp add: answered_worker_def query_await_resume_def)
qed

lemma upstream_result_relayed_witness:
  "\<exists>m w' servfail. process_resume sample_io (sample_pending m) (answered_worker \<lparr>qr_outcome = QO_Timeout, qr_response = [],
       qr_error_number = 0\<rparr>) = Some w' \<and> wk_sent w' = [([127, 0, 0, 1], servfail)]"
proof -
  let ?r = "\<lparr>qr_outcome = QO_Timeout, qr_response = [], qr_error_number = 0\<rparr>"
  from sample_served obtain m where m: "served_query sample_packet False m" "questions m = [sample_question]" by metis
  note p = sample_pending_ok [OF m]
  from process_resume_safe [OF answered_worker_facts(1) p, of sample_io ?r] obtain w' where
    e: "process_resume sample_io (sample_pending m) (answered_worker ?r) = Some w'" by blast
  have n: "\<not> worker_stop_requested (pq_token (sample_pending m)) (answered_worker ?r)"
    using answered_worker_facts(4) by (simp add: sample_pending_def)
  have q: "query_await_resume (ur_queries (wk_runtime (answered_worker ?r)) (pq_query (sample_pending m))) = Inr ?r"
    using answered_worker_facts(5) [of ?r] by (simp add: sample_pending_def)
  from upstream_result_relayed [OF p answered_worker_facts(1) n e, unfolded q] obtain servfail where
    "wk_sent w' = [(cd_client (pq_datagram (sample_pending m)), servfail)]" by (auto simp: answered_worker_facts(3))
  then have "wk_sent w' = [([127, 0, 0, 1], servfail)]" by (simp add: sample_pending_def sample_datagram_def)
  with e show ?thesis by blast
qed

text \<open>The upstream server answers the sample query with one address, valid for a minute.\<close>

lemma sample_answer:
  assumes "served_query sample_packet False request" "questions request = [sample_question]"
  obtains bytes m c where "make_address_response request [[1, 2, 3, 4]] 60 True 512 = Inr bytes"
    "parse_message bytes default_limits = Inr m" "map rdata (answers m) = [[1, 2, 3, 4]]"
    "cacheable_address_set m sample_question = Some c" "set_ttl c = 60"
    "is_ok (make_cache_hit_response request \<lparr>hit_addresses = set_addresses c, remaining_ttl = set_ttl c\<rparr> kDownstreamResponseBudget)"
proof -
  from served_question [OF assms(1)] have h: "\<not> is_response (msg_header request)" "unat (hdr_opcode (msg_header request)) < 16" by metis+
  have "hdr_opcode (msg_header request) \<le> 0x0f" using h(2) by (simp add: word_le_nat_alt)
  then have enc: "encode_flags (response_header (msg_header request) (rcode_value NoError) True)
      = Inr (flag_bits (response_header (msg_header request) (rcode_value NoError) True))" by (simp add: encode_flags_Inr_iff)
  have "is_ok (make_address_response request [[1, 2, 3, 4]] 60 True 512)"
    using h(1) assms(2) enc by (simp add: make_address_response_def write_address_message_eq address_message_def address_size_def
        sample_question_def)
  then obtain bytes where b: "make_address_response request [[1, 2, 3, 4]] 60 True 512 = Inr bytes" by (auto simp: is_ok_iff)
  from make_address_response_parses [OF b assms(2)] obtain rs where
    rs: "parse_message bytes default_limits = Inr \<lparr>msg_header = response_header (msg_header request) 0 True,
       questions = [sample_question], answers = rs, authorities = [], additionals = [], wire_image = bytes\<rparr>"
      "map rdata rs = [[1, 2, 3, 4]]" "\<forall>r \<in> set rs. rr_name r = q_name sample_question \<and> rr_type r = q_type sample_question
         \<and> rr_class r = q_class sample_question \<and> rr_ttl r = 60" by auto
  from rs(2) obtain x where x: "rs = [x]" "rdata x = [1, 2, 3, 4]" by (cases rs) auto
  have a: "cacheable_answer sample_question x = Some (ip_v4 [1, 2, 3, 4])"
    using rs(3) x by (simp add: cacheable_answer_def name_eq_def sample_question_def)
  define m where "m = \<lparr>msg_header = response_header (msg_header request) 0 True,
     questions = [sample_question], answers = rs, authorities = [], additionals = [], wire_image = bytes\<rparr>"
  define c where "c = \<lparr>set_addresses = [ip_v4 [1, 2, 3, 4]], set_ttl = 60 :: u32\<rparr>"
  have "cacheable_address_set m sample_question = Some c"
    using rs(3) x a by (simp add: cacheable_address_set_iff direct_response_def m_def c_def response_header_def default_header_def min_def)
  moreover have "make_cache_hit_response request \<lparr>hit_addresses = set_addresses c, remaining_ttl = set_ttl c\<rparr> kDownstreamResponseBudget
      = Inr bytes"
    using b assms(2) by (simp add: make_cache_hit_response_def c_def ip_v4_def default_ip_def is_v4_def sample_question_def budget_values)
  ultimately show thesis using that [of bytes m c] b rs(1,2) by (simp add: m_def c_def)
qed

lemma upstream_answer_cached_witness:
  "\<exists>m bytes w' v' reply rs. process_resume sample_io (sample_pending m)
       (answered_worker \<lparr>qr_outcome = QO_Response, qr_response = bytes, qr_error_number = 0\<rparr>) = Some w'
     \<and> process_start (\<lambda>_. 5) (sample_io\<lparr>io_cache_now := 1\<rparr>) 3 9 sample_datagram ((sample_worker None)\<lparr>wk_cache := wk_cache w'\<rparr>)
         = Some (None, v')
     \<and> wk_sent v' = [([127, 0, 0, 1], reply)] \<and> parse_message reply default_limits = Inr rs
     \<and> map rdata (answers rs) = [[1, 2, 3, 4]]"
proof -
  from sample_served obtain m where m: "served_query sample_packet False m" "questions m = [sample_question]"
      "\<not> authenticated_data (msg_header m)" "\<not> checking_disabled (msg_header m)" by metis
  from sample_answer [OF m(1,2)] obtain bytes a c where b: "parse_message bytes default_limits = Inr a"
      "map rdata (answers a) = [[1, 2, 3, 4]]" "cacheable_address_set a sample_question = Some c" "set_ttl c = 60"
      "is_ok (make_cache_hit_response m \<lparr>hit_addresses = set_addresses c, remaining_ttl = set_ttl c\<rparr> kDownstreamResponseBudget)"
    by metis
  let ?r = "\<lparr>qr_outcome = QO_Response, qr_response = bytes, qr_error_number = 0\<rparr>"
  let ?p = "sample_pending m" and ?w = "answered_worker ?r"
  note p = sample_pending_ok [OF m(1,2)]
  from process_resume_safe [OF answered_worker_facts(1) p, of sample_io ?r] obtain w' where
    e: "process_resume sample_io ?p ?w = Some w'" "worker_ok w'" by blast
  let ?v = "(sample_worker None)\<lparr>wk_cache := wk_cache w'\<rparr>"
  have k: "wakeable (ur_sched (wk_runtime ?v)) 3" "\<not> stopping 3 ?v"
    using sample_worker_ok(3,4) [of None] by (simp_all add: stopping_def)
  have q: "query_await_resume (ur_queries (wk_runtime ?w) (pq_query ?p)) = Inr ?r"
    using answered_worker_facts(5) [of ?r] by (simp add: sample_pending_def)
  have c: "cache_ok (wk_cache ?w)" "cache_shard.capacity (wk_cache ?w) = 4"
    using answered_worker_facts(1) [of ?r] by (simp_all add: worker_ok_def answered_worker_facts(2) new_shard_def)
  have pq: "pq_question ?p = sample_question" "pq_request ?p = m" by (simp_all add: sample_pending_def)
  have "cache_shard.capacity (wk_cache w') = 4"
  proof -
    have f: "set_addresses c \<noteq> []" "length (set_addresses c) \<le> 65535" "\<forall>ip \<in> set (set_addresses c). address_fits (q_type sample_question) ip"
      "set_ttl c \<noteq> 0" using cacheable_fits [OF b(3)] by simp_all
    from cache_ok_put [OF c(1) f(1,2) _ f(4), of "mk_cache_key (q_name sample_question) (q_type sample_question) (q_class sample_question)" 0]
      f(3) obtain s where "cache_put (mk_cache_key (q_name sample_question) (q_type sample_question) (q_class sample_question))
        (set_addresses c) (set_ttl c) 0 (wk_cache ?w) = Some s" "cache_shard.capacity s = 4"
      using c(2) by (auto simp: mk_cache_key_def)
    then show ?thesis using e(1) q b
      by (auto simp: process_resume_def Let_def cache_response_def is_ok_iff pq sample_pending_def sample_io_def)
  qed
  then have el: "0 < cache_shard.capacity (wk_cache ?v)" "cache_ok (wk_cache ?v)" using e(2) by (simp_all add: worker_ok_def)
  have "\<exists>v' reply rs. process_start (\<lambda>_. 5) (sample_io\<lparr>io_cache_now := 1\<rparr>) 3 9 sample_datagram ?v = Some (None, v')
      \<and> wk_sent v' = wk_sent ?v @ [(cd_client sample_datagram, reply)]
      \<and> parse_message reply default_limits = Inr \<lparr>msg_header = response_header (msg_header m) (rcode_value NoError) True,
         questions = [sample_question], answers = rs, authorities = [], additionals = [], wire_image = reply\<rparr>
      \<and> map rdata rs = map rdata (answers a)
      \<and> (\<forall>x \<in> set rs. 1 \<le> uint (rr_ttl x) \<and> uint (rr_ttl x) \<le> uint (set_ttl c))
      \<and> wk_runtime v' = (wk_runtime ?v)\<lparr>ur_sched := observe_external_stop (ur_sched (wk_runtime ?v))\<rparr>"
    by (rule upstream_answer_cached [OF p _ c(1) _ q _ _ _ _ e(1), where key = "the (pq_key ?p)"])
      (use m k b el c(2) in \<open>simp_all add: pq\<close>, simp_all add: sample_pending_def sample_datagram_def matches_filter_def sample_worker_def
         sample_io_def expiry_of_def nanoseconds_per_second_def)
  then obtain v' reply rs where v': "process_start (\<lambda>_. 5) (sample_io\<lparr>io_cache_now := 1\<rparr>) 3 9 sample_datagram ?v = Some (None, v')"
      "wk_sent v' = wk_sent ?v @ [(cd_client sample_datagram, reply)]" "map rdata rs = map rdata (answers a)"
      "parse_message reply default_limits = Inr \<lparr>msg_header = response_header (msg_header m) (rcode_value NoError) True,
         questions = [sample_question], answers = rs, authorities = [], additionals = [], wire_image = reply\<rparr>"
    by blast
  have "wk_sent v' = [([127, 0, 0, 1], reply)]" using v'(2) by (simp add: sample_worker_ok(5) sample_datagram_def)
  moreover have "map rdata (answers \<lparr>msg_header = response_header (msg_header m) (rcode_value NoError) True,
         questions = [sample_question], answers = rs, authorities = [], additionals = [], wire_image = reply\<rparr>) = [[1, 2, 3, 4]]"
    using v'(3) b(2) by simp
  ultimately show ?thesis using e(1) v'(1,4)
    by (intro exI [of _ m] exI [of _ bytes] exI [of _ w'] exI [of _ v'] exI [of _ reply] exI conjI)
qed

end
