(* ===== verification/FilterPublication.thy ===== *)
theory FilterPublication
  imports DomainBlocklist
begin

text \<open>
  Publication and reclamation of filter snapshots, \<open>src/FilterPublication.{h,cpp}\<close>: an update replaces the
  active snapshot and retires the old one with a cohort, the workers that can still hold it; the reclaimer
  thread destroys it once every member of the cohort has refreshed its own snapshot or has quiesced.

  Every member function of \<open>FilterPublicationState\<close> is one definition.  Each holds a mutex from its first
  access to its last, so it is one step; \<open>run_reclaimer\<close> gives its mutex up while it waits and while it
  destroys a snapshot and is split there.  The wait of a condition variable is the predicate under which it
  ends.  A shared pointer is its address and the object, and \<open>use_count\<close> counts the owners over the whole
  state, the workers' copies included.  \<open>pub_step\<close> interleaves the calls of the supervisor, the workers, the
  update controller and the reclaimer in any order; \<open>pub_inv\<close> is the invariant of the protocol.
  Exceptions of mutexes and of allocation (\<open>InternalError\<close>) and the observer callbacks are not modelled.
\<close>

section \<open>State\<close>

text \<open>
  A \<open>FilterSnapshot\<close> is a shared pointer to an immutable context: the address and what it points to.
  Pointers are compared by address.
\<close>

type_synonym filter_snapshot = "nat \<times> filter_context"

abbreviation snapshot_generation :: "filter_snapshot \<Rightarrow> u64" where
  "snapshot_generation s \<equiv> generation (snd s)"

datatype registration_state = Unregistered | RegStarting | Registered

record worker_epoch =
  we_instance :: u64
  we_observed :: u64
  we_registration :: registration_state
  we_quiesced :: u64

definition kUnobservedFilterGeneration :: u64 where "kUnobservedFilterGeneration = 0"

record filter_version =
  fv_generation :: u64
  fv_rule_count :: nat

definition no_version :: filter_version where
  "no_version = \<lparr>fv_generation = 0, fv_rule_count = 0\<rparr>"

datatype filter_commit_error = NoRetirementCredit | PublicationSealed | InvalidCandidate | GenerationMismatch

datatype generation_wait_result = WaitConverged | WaitReclaimerUnavailable | WaitInternalError

datatype reclaimer_exit_code = RequestedStop | GracePeriodStalled | FatalExit

record cohort_member =
  cm_worker_id :: nat
  cm_instance :: u64
  cm_epoch :: nat

record retirement_record =
  rec_owner :: "filter_snapshot option"
  rec_version :: filter_version
  rec_published_bytes :: nat
  rec_retired_bytes :: nat
  rec_cohort :: "cohort_member list"
  rec_committed_at :: int
  rec_pending :: bool
  rec_destroying :: bool
  rec_terminal :: bool

definition empty_record :: retirement_record where
  "empty_record = \<lparr>rec_owner = None, rec_version = no_version, rec_published_bytes = 0, rec_retired_bytes = 0, rec_cohort = [],
     rec_committed_at = 0, rec_pending = False, rec_destroying = False, rec_terminal = False\<rparr>"

record pending_participant =
  pp_worker_id :: nat
  pp_instance :: u64
  pp_observed :: u64

record grace_diagnostic =
  gd_target_generation :: u64
  gd_retired_bytes :: nat
  gd_waited :: int
  gd_pending :: "pending_participant list"

record retirement_stats =
  rs_unreclaimed_generations :: nat
  rs_retired_bytes :: nat
  rs_progress_sequence :: u64
  rs_last_converged :: u64
  rs_last_reclaimed :: u64
  rs_credit_held :: bool
  rs_terminal_pending :: bool

record filter_publication =
  fp_grace_timeout :: int
  fp_active :: "filter_snapshot option"
  fp_registry :: "nat option list"
  fp_sink :: bool
  fp_generation :: u64
  fp_rule_count :: nat
  fp_rule_bytes :: nat
  fp_sealed :: bool
  fp_retired :: retirement_record
  fp_terminal :: retirement_record
  fp_credit_held :: bool
  fp_retired_bytes :: nat
  fp_progress :: u64
  fp_last_converged :: u64
  fp_last_reclaimed :: u64
  fp_shutdown_requested :: bool
  fp_failure_requested :: bool
  fp_failure_after_commit :: bool
  fp_reclaimer_started :: bool
  fp_reclaimer_active :: bool

text \<open>The epochs of the workers by address; each call reads and writes them under the publication mutex.\<close>

type_synonym epochs = "nat \<Rightarrow> worker_epoch"

section \<open>Operations\<close>

definition new_publication :: "filter_snapshot option \<Rightarrow> nat \<Rightarrow> int \<Rightarrow> filter_publication option" where
  "new_publication initial maximum_workers grace_timeout =
     (case initial of
        None \<Rightarrow> None
      | Some s \<Rightarrow>
          if snapshot_generation s = 0 \<or> grace_timeout \<le> 0 then None
          else Some \<lparr>fp_grace_timeout = grace_timeout, fp_active = Some s, fp_registry = replicate maximum_workers None,
             fp_sink = False, fp_generation = snapshot_generation s, fp_rule_count = rule_count (blocklist (snd s)),
             fp_rule_bytes = ctx_rule_bytes (snd s), fp_sealed = False, fp_retired = empty_record, fp_terminal = empty_record,
             fp_credit_held = False, fp_retired_bytes = 0, fp_progress = 0, fp_last_converged = 0, fp_last_reclaimed = 0,
             fp_shutdown_requested = False, fp_failure_requested = False, fp_failure_after_commit = False,
             fp_reclaimer_started = False, fp_reclaimer_active = False\<rparr>)"

definition set_publication_sink :: "bool \<Rightarrow> filter_publication \<Rightarrow> filter_publication" where
  "set_publication_sink sink p = p\<lparr>fp_sink := sink\<rparr>"

definition publish_progress :: "filter_publication \<Rightarrow> filter_publication" where
  "publish_progress p = p\<lparr>fp_progress := fp_progress p + 1\<rparr>"

definition register_worker ::
  "nat \<Rightarrow> u64 \<Rightarrow> nat \<Rightarrow> filter_publication \<Rightarrow> epochs \<Rightarrow> (filter_snapshot \<times> u64) option \<times> filter_publication \<times> epochs" where
  "register_worker worker_id inst e p eps =
     (if worker_id \<ge> length (fp_registry p) \<or> inst = 0 \<or> fp_registry p ! worker_id \<noteq> None \<or> fp_sealed p then (None, p, eps)
      else case fp_active p of
        None \<Rightarrow> (None, p, eps)
      | Some s \<Rightarrow>
          (Some (s, fp_generation p), p\<lparr>fp_registry := (fp_registry p)[worker_id := Some e]\<rparr>,
           eps(e := (eps e)\<lparr>we_observed := kUnobservedFilterGeneration, we_registration := RegStarting, we_instance := inst\<rparr>)))"

definition mark_worker_registered :: "nat \<Rightarrow> u64 \<Rightarrow> nat \<Rightarrow> filter_publication \<Rightarrow> epochs \<Rightarrow> bool \<times> epochs" where
  "mark_worker_registered worker_id inst e p eps =
     (if worker_id \<ge> length (fp_registry p) \<or> fp_registry p ! worker_id \<noteq> Some e \<or> we_instance (eps e) \<noteq> inst
         \<or> we_registration (eps e) \<noteq> RegStarting then (False, eps)
      else if we_observed (eps e) < fp_generation p then (False, eps)
      else (True, eps(e := (eps e)\<lparr>we_registration := Registered\<rparr>)))"

definition quiesce_worker :: "nat \<Rightarrow> u64 \<Rightarrow> nat \<Rightarrow> filter_publication \<Rightarrow> epochs \<Rightarrow> filter_publication \<times> epochs" where
  "quiesce_worker worker_id inst e p eps =
     (if worker_id < length (fp_registry p) \<and> fp_registry p ! worker_id = Some e \<and> we_instance (eps e) = inst
      then (publish_progress (p\<lparr>fp_registry := (fp_registry p)[worker_id := None]\<rparr>),
            eps(e := (eps e)\<lparr>we_quiesced := inst, we_registration := Unregistered\<rparr>))
      else (publish_progress p, eps))"

definition refresh_worker_snapshot ::
  "filter_snapshot option \<Rightarrow> u64 \<Rightarrow> nat \<Rightarrow> filter_publication \<Rightarrow> epochs
     \<Rightarrow> bool \<times> filter_snapshot option \<times> filter_publication \<times> epochs" where
  "refresh_worker_snapshot local inst e p eps =
     (if we_instance (eps e) \<noteq> inst \<or> we_registration (eps e) = Unregistered then (False, local, p, eps)
      else case (fp_active p, local) of
        (Some next, Some old) \<Rightarrow>
          let observed = we_observed (eps e) in
          if snapshot_generation old > snapshot_generation next \<or> observed > snapshot_generation old then (False, local, p, eps)
          else let current = (if fst old \<noteq> fst next then next else old) in
            if observed < snapshot_generation current
            then (True, Some current, publish_progress p, eps(e := (eps e)\<lparr>we_observed := snapshot_generation current\<rparr>))
            else (True, Some current, p, eps)
      | _ \<Rightarrow> (False, local, p, eps))"

definition worker_needs_refresh :: "u64 \<Rightarrow> nat \<Rightarrow> filter_publication \<Rightarrow> epochs \<Rightarrow> bool" where
  "worker_needs_refresh inst e p eps \<longleftrightarrow> we_instance (eps e) = inst \<and> we_observed (eps e) < fp_generation p"

text \<open>A wait on the condition variable that has not ended is \<open>None\<close>.\<close>

definition acquire_retirement_credit :: "bool \<Rightarrow> filter_publication \<Rightarrow> (bool \<times> filter_publication) option" where
  "acquire_retirement_credit stop p =
     (if fp_credit_held p \<and> \<not> fp_sealed p \<and> \<not> stop then None
      else if (fp_credit_held p \<and> \<not> fp_sealed p) \<or> fp_sealed p \<or> stop then Some (False, p)
      else Some (True, p\<lparr>fp_credit_held := True\<rparr>))"

definition release_uncommitted_credit :: "filter_publication \<Rightarrow> filter_publication" where
  "release_uncommitted_credit p = (if \<not> rec_pending (fp_retired p) then p\<lparr>fp_credit_held := False\<rparr> else p)"

text \<open>The workers that can hold the snapshot that is replaced.\<close>

definition collect_cohort :: "nat option list \<Rightarrow> epochs \<Rightarrow> cohort_member list" where
  "collect_cohort registry eps =
     concat (map (\<lambda>worker_id. case registry ! worker_id of
        None \<Rightarrow> []
      | Some e \<Rightarrow>
          if we_instance (eps e) \<noteq> 0 \<and> (we_registration (eps e) = RegStarting \<or> we_registration (eps e) = Registered)
          then [\<lparr>cm_worker_id = worker_id, cm_instance = we_instance (eps e), cm_epoch = e\<rparr>] else []) [0..<length registry])"

text \<open>The second result is the generation that the publication sink is told of.\<close>

definition commit ::
  "int \<Rightarrow> filter_snapshot option \<Rightarrow> filter_publication \<Rightarrow> epochs \<Rightarrow> (filter_commit_error + filter_version) \<times> u64 option \<times> filter_publication" where
  "commit now candidate p eps =
     (if \<not> fp_credit_held p \<or> rec_pending (fp_retired p) then (Inl NoRetirementCredit, None, p)
      else if fp_sealed p then (Inl PublicationSealed, None, p)
      else case candidate of
        None \<Rightarrow> (Inl InvalidCandidate, None, p)
      | Some c \<Rightarrow>
          if snapshot_generation c = 0 then (Inl InvalidCandidate, None, p)
          else if fp_generation p = - 1 \<or> snapshot_generation c \<noteq> fp_generation p + 1 then (Inl GenerationMismatch, None, p)
          else let published = \<lparr>fv_generation = snapshot_generation c, fv_rule_count = rule_count (blocklist (snd c))\<rparr>;
                   record = \<lparr>rec_owner = fp_active p, rec_version = published, rec_published_bytes = ctx_rule_bytes (snd c),
                     rec_retired_bytes = fp_rule_bytes p, rec_cohort = collect_cohort (fp_registry p) eps, rec_committed_at = now,
                     rec_pending = True, rec_destroying = False, rec_terminal = False\<rparr>
               in (Inr published, if fp_sink p then Some (fv_generation published) else None,
                   p\<lparr>fp_retired := record, fp_active := Some c, fp_retired_bytes := rec_retired_bytes record,
                     fp_generation := fv_generation published, fp_rule_count := fv_rule_count published,
                     fp_rule_bytes := rec_published_bytes record\<rparr>))"

definition wait_until_reclaimed :: "u64 \<Rightarrow> filter_publication \<Rightarrow> generation_wait_result option" where
  "wait_until_reclaimed g p =
     (if fp_last_reclaimed p \<ge> g then Some WaitConverged
      else if fp_reclaimer_started p \<and> \<not> fp_reclaimer_active p then Some WaitReclaimerUnavailable else None)"

definition wait_until_converged :: "u64 \<Rightarrow> filter_publication \<Rightarrow> generation_wait_result option" where
  "wait_until_converged g p =
     (if fp_last_converged p \<ge> g then Some WaitConverged
      else if fp_reclaimer_started p \<and> \<not> fp_reclaimer_active p then Some WaitReclaimerUnavailable else None)"

definition seal_publication :: "filter_publication \<Rightarrow> filter_publication" where
  "seal_publication p = p\<lparr>fp_sealed := True\<rparr>"

definition detach_terminal_snapshot :: "int \<Rightarrow> filter_publication \<Rightarrow> epochs \<Rightarrow> bool \<times> filter_publication" where
  "detach_terminal_snapshot now p eps =
     (if rec_pending (fp_terminal p) then (True, p)
      else case fp_active p of
        None \<Rightarrow> (True, p)
      | Some a \<Rightarrow>
          let record = \<lparr>rec_owner = Some a,
                rec_version = \<lparr>fv_generation = snapshot_generation a, fv_rule_count = rule_count (blocklist (snd a))\<rparr>,
                rec_published_bytes = ctx_rule_bytes (snd a), rec_retired_bytes = ctx_rule_bytes (snd a),
                rec_cohort = collect_cohort (fp_registry p) eps, rec_committed_at = now,
                rec_pending = True, rec_destroying = False, rec_terminal = True\<rparr>
          in (True, p\<lparr>fp_terminal := record, fp_active := None,
                fp_retired_bytes := (if rec_retired_bytes record > size_max - fp_retired_bytes p then size_max
                                     else fp_retired_bytes p + rec_retired_bytes record)\<rparr>))"

definition member_complete :: "epochs \<Rightarrow> u64 \<Rightarrow> bool \<Rightarrow> cohort_member \<Rightarrow> bool" where
  "member_complete eps g terminal m =
     (let e = eps (cm_epoch m) in
      if we_quiesced e \<ge> cm_instance m then True
      else if terminal then False
      else we_instance e = cm_instance m \<and> we_observed e \<ge> g)"

definition cohort_complete :: "epochs \<Rightarrow> retirement_record \<Rightarrow> bool" where
  "cohort_complete eps r \<longleftrightarrow> list_all (member_complete eps (fv_generation (rec_version r)) (rec_terminal r)) (rec_cohort r)"

definition nanoseconds_to_milliseconds :: "int \<Rightarrow> int" where
  "nanoseconds_to_milliseconds d = (if d \<ge> 0 then d div 1000000 else - ((- d) div 1000000))"

definition make_diagnostic :: "epochs \<Rightarrow> retirement_record \<Rightarrow> int \<Rightarrow> grace_diagnostic" where
  "make_diagnostic eps r now =
     \<lparr>gd_target_generation = fv_generation (rec_version r), gd_retired_bytes = rec_retired_bytes r,
      gd_waited = nanoseconds_to_milliseconds (now - rec_committed_at r),
      gd_pending = map (\<lambda>m. \<lparr>pp_worker_id = cm_worker_id m, pp_instance = cm_instance m, pp_observed = we_observed (eps (cm_epoch m))\<rparr>)
        (filter (\<lambda>m. \<not> member_complete eps (fv_generation (rec_version r)) (rec_terminal r) m) (rec_cohort r))\<rparr>"

text \<open>\<open>True\<close> selects the retired record, \<open>False\<close> the terminal one.\<close>

definition next_pending_record :: "filter_publication \<Rightarrow> bool option" where
  "next_pending_record p = (if rec_pending (fp_retired p) then Some True else if rec_pending (fp_terminal p) then Some False else None)"

definition record_of :: "bool \<Rightarrow> filter_publication \<Rightarrow> retirement_record" where
  "record_of which p = (if which then fp_retired p else fp_terminal p)"

definition set_record :: "bool \<Rightarrow> retirement_record \<Rightarrow> filter_publication \<Rightarrow> filter_publication" where
  "set_record which r p = (if which then p\<lparr>fp_retired := r\<rparr> else p\<lparr>fp_terminal := r\<rparr>)"

text \<open>The record after its owner is gone: only the time stamp is kept.\<close>

definition cleared_record :: "retirement_record \<Rightarrow> retirement_record" where
  "cleared_record r = r\<lparr>rec_owner := None, rec_cohort := [], rec_pending := False, rec_destroying := False, rec_terminal := False,
     rec_retired_bytes := 0, rec_version := no_version, rec_published_bytes := 0\<rparr>"

section \<open>The reclaimer\<close>

text \<open>
  \<open>run_reclaimer\<close> releases the mutex while it destroys a snapshot and while it waits, so it is modelled
  by the pieces between: \<open>reclaimer_begin\<close>, one round of the loop, the part after the destruction, and
  \<open>reclaimer_end\<close>.  A round leaves the loop, takes a snapshot to destroy, or waits.
\<close>

datatype reclaimer_round =
    ReclaimerLeaves reclaimer_exit_code "grace_diagnostic option"
  | ReclaimerDestroys bool "filter_snapshot option"
  | ReclaimerWaits

definition shared_owner :: "(filter_snapshot \<Rightarrow> nat) \<Rightarrow> retirement_record \<Rightarrow> bool" where
  "shared_owner use_count r = (case rec_owner r of None \<Rightarrow> False | Some s \<Rightarrow> use_count s \<noteq> 1)"

definition reclaimer_begin :: "filter_publication \<Rightarrow> reclaimer_exit_code option \<times> filter_publication" where
  "reclaimer_begin p =
     (if fp_reclaimer_active p then (Some FatalExit, p)
      else (None, p\<lparr>fp_reclaimer_started := True, fp_reclaimer_active := True\<rparr>))"

definition reclaimer_step ::
  "(filter_snapshot \<Rightarrow> nat) \<Rightarrow> bool \<Rightarrow> int \<Rightarrow> filter_publication \<Rightarrow> epochs \<Rightarrow> reclaimer_round \<times> filter_publication" where
  "reclaimer_step use_count stop now p eps =
     (if fp_failure_requested p then (ReclaimerLeaves FatalExit None, p)
      else if fp_failure_after_commit p \<and> rec_pending (fp_retired p)
      then (ReclaimerLeaves FatalExit None, p\<lparr>fp_failure_after_commit := False\<rparr>)
      else case next_pending_record p of
        Some which \<Rightarrow>
          let r = record_of which p in
          if cohort_complete eps r then
            if shared_owner use_count r then (ReclaimerLeaves FatalExit None, p)
            else (ReclaimerDestroys which (rec_owner r),
                  (set_record which (r\<lparr>rec_destroying := True, rec_owner := None\<rparr>) p)
                    \<lparr>fp_last_converged := (if which then max (fp_last_converged p) (fv_generation (rec_version r))
                                          else fp_last_converged p)\<rparr>)
          else if now \<ge> rec_committed_at r + fp_grace_timeout p
          then (ReclaimerLeaves GracePeriodStalled (Some (make_diagnostic eps r now)), p)
          else (ReclaimerWaits, p)
      | None \<Rightarrow>
          if fp_shutdown_requested p \<or> stop then (ReclaimerLeaves RequestedStop None, p) else (ReclaimerWaits, p))"

definition reclaimer_destroyed :: "bool \<Rightarrow> u64 \<Rightarrow> nat \<Rightarrow> filter_publication \<Rightarrow> filter_publication" where
  "reclaimer_destroyed which g bytes p =
     (let p1 = (set_record which (cleared_record (record_of which p)) p)
                 \<lparr>fp_retired_bytes := fp_retired_bytes p - min (fp_retired_bytes p) bytes\<rparr>
      in if which then p1\<lparr>fp_credit_held := False, fp_last_reclaimed := max (fp_last_reclaimed p1) g\<rparr> else p1)"

definition reclaimer_end :: "filter_publication \<Rightarrow> filter_publication" where
  "reclaimer_end p = p\<lparr>fp_reclaimer_active := False\<rparr>"

text \<open>The callback of the reclaimer's stop token.\<close>

definition wake_on_stop :: "filter_publication \<Rightarrow> filter_publication" where
  "wake_on_stop p = p\<lparr>fp_progress := fp_progress p + 1\<rparr>"

definition request_reclaimer_shutdown :: "filter_publication \<Rightarrow> filter_publication" where
  "request_reclaimer_shutdown p = p\<lparr>fp_shutdown_requested := True\<rparr>"

definition inject_reclaimer_failure :: "filter_publication \<Rightarrow> filter_publication" where
  "inject_reclaimer_failure p = p\<lparr>fp_failure_requested := True\<rparr>"

definition inject_reclaimer_failure_after_next_commit :: "filter_publication \<Rightarrow> filter_publication" where
  "inject_reclaimer_failure_after_next_commit p = p\<lparr>fp_failure_after_commit := True\<rparr>"

section \<open>Emergency reclamation and queries\<close>

definition reclaim_record :: "bool \<Rightarrow> filter_publication \<Rightarrow> filter_publication" where
  "reclaim_record returns_credit p =
     (let r = record_of returns_credit p; g = fv_generation (rec_version r);
          p1 = (set_record returns_credit (cleared_record r) p)
                 \<lparr>fp_retired_bytes := fp_retired_bytes p - min (fp_retired_bytes p) (rec_retired_bytes r)\<rparr>
      in if returns_credit
         then p1\<lparr>fp_credit_held := False, fp_last_converged := max (fp_last_converged p) g,
                 fp_last_reclaimed := max (fp_last_reclaimed p) g\<rparr>
         else p1)"

definition reclaim_converged_locked ::
  "(filter_snapshot \<Rightarrow> nat) \<Rightarrow> filter_publication \<Rightarrow> epochs \<Rightarrow> bool \<times> filter_publication" where
  "reclaim_converged_locked use_count p eps =
     (if rec_pending (fp_retired p) \<and> \<not> cohort_complete eps (fp_retired p) then (False, p)
      else if rec_pending (fp_terminal p) \<and> \<not> cohort_complete eps (fp_terminal p) then (False, p)
      else if shared_owner use_count (fp_retired p) \<or> shared_owner use_count (fp_terminal p) then (False, p)
      else let p1 = (if rec_pending (fp_retired p) then reclaim_record True p else p)
           in (True, if rec_pending (fp_terminal p1) then reclaim_record False p1 else p1))"

definition emergency_reclaim_converged ::
  "(filter_snapshot \<Rightarrow> nat) \<Rightarrow> filter_publication \<Rightarrow> epochs \<Rightarrow> bool \<times> filter_publication" where
  "emergency_reclaim_converged use_count p eps =
     (if fp_reclaimer_active p \<or> \<not> fp_sealed p then (False, p) else reclaim_converged_locked use_count p eps)"

definition current_version :: "filter_publication \<Rightarrow> filter_version" where
  "current_version p = \<lparr>fv_generation = fp_generation p, fv_rule_count = fp_rule_count p\<rparr>"

definition get_retirement_stats :: "filter_publication \<Rightarrow> retirement_stats" where
  "get_retirement_stats p = \<lparr>rs_unreclaimed_generations = (if rec_pending (fp_retired p) then 1 else 0),
     rs_retired_bytes = fp_retired_bytes p, rs_progress_sequence = fp_progress p, rs_last_converged = fp_last_converged p,
     rs_last_reclaimed = fp_last_reclaimed p, rs_credit_held = fp_credit_held p, rs_terminal_pending = rec_pending (fp_terminal p)\<rparr>"

definition current_matches :: "(byte list \<Rightarrow> u64) \<Rightarrow> byte list \<Rightarrow> filter_publication \<Rightarrow> bool" where
  "current_matches xxh3 domain p = (case fp_active p of None \<Rightarrow> False | Some s \<Rightarrow> matches_text xxh3 (blocklist (snd s)) domain)"

text \<open>The destructor terminates the program if something still uses the state; \<open>None\<close> is that.\<close>

definition destroy_publication :: "filter_publication \<Rightarrow> filter_publication option" where
  "destroy_publication p =
     (if fp_reclaimer_active p \<or> rec_pending (fp_retired p) \<or> rec_destroying (fp_retired p) \<or> rec_pending (fp_terminal p)
         \<or> rec_destroying (fp_terminal p) \<or> list_ex (\<lambda>e. e \<noteq> None) (fp_registry p) then None
      else Some (p\<lparr>fp_active := None\<rparr>))"

section \<open>The publication protocol\<close>

text \<open>
  The state together with what the threads around it hold: the snapshot of each worker (worker \<open>k\<close> owns
  the epoch at address \<open>k\<close>) and the snapshot that the reclaimer is destroying, with the generation and the
  bytes it read from the record.  The owners of a snapshot are counted over all of them.
\<close>

record pub_world =
  pw_pub :: filter_publication
  pw_epochs :: epochs
  pw_locals :: "filter_snapshot option list"
  pw_destroying :: "(bool \<times> filter_snapshot option \<times> u64 \<times> nat) option"

definition owner_addresses :: "pub_world \<Rightarrow> nat list" where
  "owner_addresses w = map fst (List.map_filter id
     [fp_active (pw_pub w), rec_owner (fp_retired (pw_pub w)), rec_owner (fp_terminal (pw_pub w)),
      (case pw_destroying w of None \<Rightarrow> None | Some (_, s, _) \<Rightarrow> s)])"

definition local_addresses :: "pub_world \<Rightarrow> nat list" where
  "local_addresses w = map fst (List.map_filter id (pw_locals w))"

definition use_count :: "pub_world \<Rightarrow> filter_snapshot \<Rightarrow> nat" where
  "use_count w s = count_list (owner_addresses w) (fst s) + count_list (local_addresses w) (fst s)"

definition round_world :: "bool \<Rightarrow> int \<Rightarrow> pub_world \<Rightarrow> pub_world" where
  "round_world stop now w =
     (case reclaimer_step (use_count w) stop now (pw_pub w) (pw_epochs w) of
        (ReclaimerLeaves c d, p) \<Rightarrow> w\<lparr>pw_pub := reclaimer_end p\<rparr>
      | (ReclaimerDestroys which s, p) \<Rightarrow>
          w\<lparr>pw_pub := p, pw_destroying := Some (which, s, fv_generation (rec_version (record_of which (pw_pub w))),
             rec_retired_bytes (record_of which (pw_pub w)))\<rparr>
      | (ReclaimerWaits, p) \<Rightarrow> w\<lparr>pw_pub := p\<rparr>)"

text \<open>
  The steps of the supervisor, the workers, the update controller and the reclaimer.  The guards are what
  the callers do: the supervisor counts the instances of a worker up and starts one only after the last is
  gone, it destroys the instance before it quiesces it, a candidate is a new object, the terminal snapshot
  is detached after the publication is sealed, and one thread runs the reclaimer.
\<close>

inductive pub_env_step :: "pub_world \<Rightarrow> pub_world \<Rightarrow> bool" where
  step_register:
    "k < length (pw_locals w) \<Longrightarrow> pw_locals w ! k = None \<Longrightarrow> we_quiesced (pw_epochs w k) < inst
     \<Longrightarrow> register_worker k inst k (pw_pub w) (pw_epochs w) = (Some (s, g), p, eps)
     \<Longrightarrow> pub_env_step w (w\<lparr>pw_pub := p, pw_epochs := eps, pw_locals := (pw_locals w)[k := Some s]\<rparr>)"
| step_mark:
    "mark_worker_registered k inst k (pw_pub w) (pw_epochs w) = (r, eps) \<Longrightarrow> pub_env_step w (w\<lparr>pw_epochs := eps\<rparr>)"
| step_refresh:
    "k < length (pw_locals w)
     \<Longrightarrow> refresh_worker_snapshot (pw_locals w ! k) inst k (pw_pub w) (pw_epochs w) = (r, l, p, eps)
     \<Longrightarrow> pub_env_step w (w\<lparr>pw_pub := p, pw_epochs := eps, pw_locals := (pw_locals w)[k := l]\<rparr>)"
| step_drop:
    "k < length (pw_locals w) \<Longrightarrow> pub_env_step w (w\<lparr>pw_locals := (pw_locals w)[k := None]\<rparr>)"
| step_quiesce:
    "k < length (pw_locals w) \<Longrightarrow> pw_locals w ! k = None
     \<Longrightarrow> quiesce_worker k inst k (pw_pub w) (pw_epochs w) = (p, eps)
     \<Longrightarrow> pub_env_step w (w\<lparr>pw_pub := p, pw_epochs := eps\<rparr>)"
| step_seal: "pub_env_step w (w\<lparr>pw_pub := seal_publication (pw_pub w)\<rparr>)"
| step_detach:
    "fp_sealed (pw_pub w) \<Longrightarrow> detach_terminal_snapshot now (pw_pub w) (pw_epochs w) = (r, p) \<Longrightarrow> pub_env_step w (w\<lparr>pw_pub := p\<rparr>)"
| step_begin: "reclaimer_begin (pw_pub w) = (None, p) \<Longrightarrow> pub_env_step w (w\<lparr>pw_pub := p\<rparr>)"
| step_round:
    "fp_reclaimer_active (pw_pub w) \<Longrightarrow> pw_destroying w = None \<Longrightarrow> pub_env_step w (round_world stop now w)"
| step_destroyed:
    "pw_destroying w = Some (which, s, g, bytes)
     \<Longrightarrow> pub_env_step w (w\<lparr>pw_pub := reclaimer_destroyed which g bytes (pw_pub w), pw_destroying := None\<rparr>)"
| step_request_shutdown: "pub_env_step w (w\<lparr>pw_pub := request_reclaimer_shutdown (pw_pub w)\<rparr>)"
| step_sink: "pub_env_step w (w\<lparr>pw_pub := set_publication_sink sink (pw_pub w)\<rparr>)"
| step_wake_on_stop: "pub_env_step w (w\<lparr>pw_pub := wake_on_stop (pw_pub w)\<rparr>)"
| step_inject: "pub_env_step w (w\<lparr>pw_pub := inject_reclaimer_failure (pw_pub w)\<rparr>)"
| step_inject_commit: "pub_env_step w (w\<lparr>pw_pub := inject_reclaimer_failure_after_next_commit (pw_pub w)\<rparr>)"
| step_emergency:
    "emergency_reclaim_converged (use_count w) (pw_pub w) (pw_epochs w) = (r, p) \<Longrightarrow> pub_env_step w (w\<lparr>pw_pub := p\<rparr>)"

text \<open>The other steps are those of the update controller, the only one that holds the retirement credit.\<close>

inductive pub_step :: "pub_world \<Rightarrow> pub_world \<Rightarrow> bool" where
  step_env: "pub_env_step w w' \<Longrightarrow> pub_step w w'"
| step_acquire:
    "acquire_retirement_credit stop (pw_pub w) = Some (r, p) \<Longrightarrow> pub_step w (w\<lparr>pw_pub := p\<rparr>)"
| step_release: "pub_step w (w\<lparr>pw_pub := release_uncommitted_credit (pw_pub w)\<rparr>)"
| step_commit:
    "(\<And>c. candidate = Some c \<Longrightarrow> use_count w c = 0) \<Longrightarrow> commit now candidate (pw_pub w) (pw_epochs w) = (r, notified, p)
     \<Longrightarrow> pub_step w (w\<lparr>pw_pub := p\<rparr>)"

inductive pub_reachable :: "filter_snapshot \<Rightarrow> nat \<Rightarrow> int \<Rightarrow> pub_world \<Rightarrow> bool" for initial n timeout where
  reach_new:
    "new_publication (Some initial) n timeout = Some p
     \<Longrightarrow> pub_reachable initial n timeout \<lparr>pw_pub = p,
           pw_epochs = (\<lambda>_. \<lparr>we_instance = 0, we_observed = kUnobservedFilterGeneration, we_registration = Unregistered, we_quiesced = 0\<rparr>),
           pw_locals = replicate n None, pw_destroying = None\<rparr>"
| reach_step: "pub_reachable initial n timeout w \<Longrightarrow> pub_step w w' \<Longrightarrow> pub_reachable initial n timeout w'"

section \<open>The invariant\<close>

definition participant :: "epochs \<Rightarrow> nat \<Rightarrow> cohort_member" where
  "participant eps k = \<lparr>cm_worker_id = k, cm_instance = we_instance (eps k), cm_epoch = k\<rparr>"

text \<open>A worker that holds a snapshot is registered, and the snapshot is the active one or is retired with the worker in the cohort.\<close>

definition local_ok :: "filter_publication \<Rightarrow> epochs \<Rightarrow> nat \<Rightarrow> filter_snapshot \<Rightarrow> bool" where
  "local_ok p eps k s \<longleftrightarrow>
     fp_registry p ! k = Some k \<and> we_registration (eps k) \<noteq> Unregistered \<and> we_instance (eps k) \<noteq> 0
     \<and> we_quiesced (eps k) < we_instance (eps k) \<and> we_observed (eps k) \<le> snapshot_generation s
     \<and> fp_last_converged p \<le> snapshot_generation s
     \<and> (fp_active p = Some s
        \<or> rec_owner (fp_retired p) = Some s \<and> participant eps k \<in> set (rec_cohort (fp_retired p))
        \<or> rec_owner (fp_terminal p) = Some s \<and> participant eps k \<in> set (rec_cohort (fp_terminal p)))"

definition records_ok :: "filter_publication \<Rightarrow> bool" where
  "records_ok p \<longleftrightarrow>
     (\<forall>a. fp_active p = Some a \<longrightarrow> snapshot_generation a = fp_generation p)
     \<and> (rec_pending (fp_retired p) \<longrightarrow> fv_generation (rec_version (fp_retired p)) = fp_generation p
          \<and> \<not> rec_terminal (fp_retired p) \<and> fp_credit_held p)
     \<and> (\<forall>s. rec_owner (fp_retired p) = Some s \<longrightarrow> rec_pending (fp_retired p) \<and> snapshot_generation s < fp_generation p)
     \<and> (rec_pending (fp_terminal p) \<longrightarrow> fp_sealed p \<and> rec_terminal (fp_terminal p) \<and> fp_active p = None)
     \<and> (\<forall>s. rec_owner (fp_terminal p) = Some s \<longrightarrow> rec_pending (fp_terminal p) \<and> snapshot_generation s = fp_generation p)
     \<and> fp_last_reclaimed p \<le> fp_last_converged p \<and> fp_last_converged p \<le> fp_generation p"

definition pub_inv :: "pub_world \<Rightarrow> bool" where
  "pub_inv w \<longleftrightarrow>
     length (pw_locals w) = length (fp_registry (pw_pub w))
     \<and> (\<forall>k < length (pw_locals w). \<forall>e. fp_registry (pw_pub w) ! k = Some e \<longrightarrow> e = k)
     \<and> distinct (owner_addresses w) \<and> records_ok (pw_pub w)
     \<and> (\<forall>which s g b. pw_destroying w = Some (which, s, g, b) \<longrightarrow>
          rec_pending (record_of which (pw_pub w)) \<and> rec_owner (record_of which (pw_pub w)) = None
          \<and> fp_reclaimer_active (pw_pub w) \<and> (which \<longrightarrow> g \<le> fp_last_converged (pw_pub w)))
     \<and> (\<forall>k < length (pw_locals w). \<forall>s. pw_locals w ! k = Some s \<longrightarrow> local_ok (pw_pub w) (pw_epochs w) k s)"

text \<open>Snapshots are pairs that are never taken apart here.\<close>

declare split_paired_All [simp del] split_paired_Ex [simp del]

lemma owner_addresses_eq:
  "owner_addresses w =
     (case fp_active (pw_pub w) of None \<Rightarrow> [] | Some s \<Rightarrow> [fst s])
     @ (case rec_owner (fp_retired (pw_pub w)) of None \<Rightarrow> [] | Some s \<Rightarrow> [fst s])
     @ (case rec_owner (fp_terminal (pw_pub w)) of None \<Rightarrow> [] | Some s \<Rightarrow> [fst s])
     @ (case pw_destroying w of Some (_, Some s, _) \<Rightarrow> [fst s] | _ \<Rightarrow> [])"
  by (auto simp: owner_addresses_def List.map_filter_simps split: option.splits)

lemma local_addresses_iff: "a \<in> set (local_addresses w) \<longleftrightarrow> (\<exists>k < length (pw_locals w). \<exists>s. pw_locals w ! k = Some s \<and> fst s = a)"
  unfolding local_addresses_def set_map List.map_filter_def by (force simp: in_set_conv_nth)

lemma use_count_zero_iff: "use_count w s = 0 \<longleftrightarrow> fst s \<notin> set (owner_addresses w) \<and> fst s \<notin> set (local_addresses w)"
  by (simp add: use_count_def count_list_0_iff)

lemma count_list_distinct: "distinct xs \<Longrightarrow> count_list xs x = of_bool (x \<in> set xs)"
  by (induction xs) auto

lemma owner_use_count_one:
  assumes "distinct (owner_addresses w)" and "fst s \<in> set (owner_addresses w)" and "fst s \<notin> set (local_addresses w)"
  shows "use_count w s = 1"
  using assms by (simp add: use_count_def count_list_distinct count_list_0_iff)

text \<open>A worker that holds a retired or terminal snapshot keeps the cohort of that record incomplete.\<close>

lemma holder_incomplete:
  assumes "local_ok p eps k s" and "records_ok p" and "rec_owner (record_of which p) = Some s"
    and "participant eps k \<in> set (rec_cohort (record_of which p))"
  shows "\<not> cohort_complete eps (record_of which p)"
proof -
  have "\<not> member_complete eps (fv_generation (rec_version (record_of which p))) (rec_terminal (record_of which p)) (participant eps k)"
    using assms by (cases which) (auto simp: local_ok_def records_ok_def record_of_def member_complete_def participant_def Let_def)
  then show ?thesis
    using assms(4) by (auto simp: cohort_complete_def list_all_iff)
qed

text \<open>So nobody holds the snapshot of a record whose cohort is complete, and the record is its only owner.\<close>

lemma complete_not_held:
  assumes inv: "pub_inv w" and own: "rec_owner (record_of which (pw_pub w)) = Some s"
    and comp: "cohort_complete (pw_epochs w) (record_of which (pw_pub w))"
  shows "fst s \<notin> set (local_addresses w)" and "use_count w s = 1"
proof -
  have dist: "distinct (owner_addresses w)" and rok: "records_ok (pw_pub w)"
    using inv by (auto simp: pub_inv_def)
  show nl: "fst s \<notin> set (local_addresses w)"
  proof
    assume "fst s \<in> set (local_addresses w)"
    then obtain k t where k: "k < length (pw_locals w)" "pw_locals w ! k = Some t" "fst t = fst s"
      by (auto simp: local_addresses_iff)
    then have lok: "local_ok (pw_pub w) (pw_epochs w) k t"
      using inv by (auto simp: pub_inv_def)
    have "rec_owner (record_of which (pw_pub w)) = Some t \<and> participant (pw_epochs w) k \<in> set (rec_cohort (record_of which (pw_pub w)))"
      using lok own k(3) dist
      by (cases which) (auto simp: local_ok_def owner_addresses_eq record_of_def)
    then show False
      using holder_incomplete [OF lok rok] comp by blast
  qed
  have "fst s \<in> set (owner_addresses w)"
    using own by (cases which) (auto simp: owner_addresses_eq record_of_def)
  then show "use_count w s = 1"
    by (rule owner_use_count_one [OF dist _ nl])
qed

lemma complete_not_shared:
  assumes "pub_inv w" and "cohort_complete (pw_epochs w) (record_of which (pw_pub w))"
  shows "\<not> shared_owner (use_count w) (record_of which (pw_pub w))"
  using complete_not_held(2) [OF assms(1) _ assms(2)] by (auto simp: shared_owner_def split: option.splits)

section \<open>Preservation\<close>

lemma records_ok_frame [simp]:
  "records_ok (p\<lparr>fp_registry := r\<rparr>) = records_ok p"
  "records_ok (p\<lparr>fp_progress := g\<rparr>) = records_ok p"
  "records_ok (p\<lparr>fp_sink := b\<rparr>) = records_ok p"
  "records_ok (p\<lparr>fp_shutdown_requested := b\<rparr>) = records_ok p"
  "records_ok (p\<lparr>fp_failure_requested := b\<rparr>) = records_ok p"
  "records_ok (p\<lparr>fp_failure_after_commit := b\<rparr>) = records_ok p"
  "records_ok (p\<lparr>fp_reclaimer_started := b\<rparr>) = records_ok p"
  "records_ok (p\<lparr>fp_reclaimer_active := b\<rparr>) = records_ok p"
  "records_ok (p\<lparr>fp_retired_bytes := n\<rparr>) = records_ok p"
  by (simp_all add: records_ok_def)

lemma local_ok_frame [simp]:
  "local_ok (p\<lparr>fp_progress := g\<rparr>) = local_ok p"
  "local_ok (p\<lparr>fp_sink := b\<rparr>) = local_ok p"
  "local_ok (p\<lparr>fp_shutdown_requested := b\<rparr>) = local_ok p"
  "local_ok (p\<lparr>fp_failure_requested := b\<rparr>) = local_ok p"
  "local_ok (p\<lparr>fp_failure_after_commit := b\<rparr>) = local_ok p"
  "local_ok (p\<lparr>fp_reclaimer_started := b\<rparr>) = local_ok p"
  "local_ok (p\<lparr>fp_reclaimer_active := b\<rparr>) = local_ok p"
  "local_ok (p\<lparr>fp_sealed := b\<rparr>) = local_ok p"
  "local_ok (p\<lparr>fp_credit_held := b\<rparr>) = local_ok p"
  "local_ok (p\<lparr>fp_retired_bytes := n\<rparr>) = local_ok p"
  by (simp_all add: local_ok_def fun_eq_iff)

lemma record_of_frame [simp]:
  "record_of which (p\<lparr>fp_registry := r\<rparr>) = record_of which p"
  "record_of which (p\<lparr>fp_progress := g\<rparr>) = record_of which p"
  "record_of which (p\<lparr>fp_sink := b\<rparr>) = record_of which p"
  "record_of which (p\<lparr>fp_shutdown_requested := b\<rparr>) = record_of which p"
  "record_of which (p\<lparr>fp_failure_requested := b\<rparr>) = record_of which p"
  "record_of which (p\<lparr>fp_failure_after_commit := b\<rparr>) = record_of which p"
  "record_of which (p\<lparr>fp_reclaimer_started := b\<rparr>) = record_of which p"
  "record_of which (p\<lparr>fp_reclaimer_active := b\<rparr>) = record_of which p"
  "record_of which (p\<lparr>fp_sealed := b\<rparr>) = record_of which p"
  "record_of which (p\<lparr>fp_credit_held := b\<rparr>) = record_of which p"
  by (simp_all add: record_of_def)

lemma owner_addresses_frame [simp]:
  "owner_addresses (w\<lparr>pw_epochs := eps\<rparr>) = owner_addresses w"
  "owner_addresses (w\<lparr>pw_locals := ls\<rparr>) = owner_addresses w"
  "fp_active p = fp_active (pw_pub w) \<Longrightarrow> rec_owner (fp_retired p) = rec_owner (fp_retired (pw_pub w))
   \<Longrightarrow> rec_owner (fp_terminal p) = rec_owner (fp_terminal (pw_pub w)) \<Longrightarrow> owner_addresses (w\<lparr>pw_pub := p\<rparr>) = owner_addresses w"
  by (simp_all add: owner_addresses_def)

lemma pub_inv_local: "pub_inv w \<Longrightarrow> k < length (pw_locals w) \<Longrightarrow> pw_locals w ! k = Some s \<Longrightarrow> local_ok (pw_pub w) (pw_epochs w) k s"
  by (simp add: pub_inv_def)

lemma pub_inv_new:
  assumes "new_publication (Some initial) n timeout = Some p"
  shows "pub_inv \<lparr>pw_pub = p, pw_epochs = eps, pw_locals = replicate n None, pw_destroying = None\<rparr>"
  using assms
  by (auto simp: new_publication_def pub_inv_def records_ok_def owner_addresses_eq empty_record_def split: if_splits)

lemma pub_inv_register:
  assumes inv: "pub_inv w" and k: "k < length (pw_locals w)" "pw_locals w ! k = None" "we_quiesced (pw_epochs w k) < inst"
    and reg: "register_worker k inst k (pw_pub w) (pw_epochs w) = (Some (s, g), p, eps)"
  shows "pub_inv (w\<lparr>pw_pub := p, pw_epochs := eps, pw_locals := (pw_locals w)[k := Some s]\<rparr>)"
proof -
  have p: "p = (pw_pub w)\<lparr>fp_registry := (fp_registry (pw_pub w))[k := Some k]\<rparr>" "fp_active (pw_pub w) = Some s"
    "eps = (pw_epochs w)(k := (pw_epochs w k)\<lparr>we_observed := 0, we_registration := RegStarting, we_instance := inst\<rparr>)" "inst \<noteq> 0"
    using reg by (auto simp: register_worker_def kUnobservedFilterGeneration_def split: if_splits option.splits)
  have lok: "local_ok p eps i t" if "i < length (pw_locals w)" "(pw_locals w)[k := Some s] ! i = Some t" for i t
  proof (cases "i = k")
    case True
    then show ?thesis
      using that inv k p by (auto simp: local_ok_def pub_inv_def records_ok_def)
  next
    case False
    then have "local_ok (pw_pub w) (pw_epochs w) i t"
      using that inv by (auto simp: pub_inv_def)
    then show ?thesis
      using False p by (auto simp: local_ok_def participant_def)
  qed
  show ?thesis
    using inv k p(1,2) lok
    by (auto simp: pub_inv_def records_ok_def owner_addresses_eq record_of_def nth_list_update)
qed

lemma pub_inv_mark:
  assumes inv: "pub_inv w" and m: "mark_worker_registered k inst k (pw_pub w) (pw_epochs w) = (r, eps)"
  shows "pub_inv (w\<lparr>pw_epochs := eps\<rparr>)"
proof -
  have "eps = pw_epochs w \<or> eps = (pw_epochs w)(k := (pw_epochs w k)\<lparr>we_registration := Registered\<rparr>)"
    using m by (auto simp: mark_worker_registered_def split: if_splits)
  then have "local_ok (pw_pub w) eps i t" if "local_ok (pw_pub w) (pw_epochs w) i t" for i t
    using that by (cases "i = k") (auto simp: local_ok_def participant_def)
  then show ?thesis
    using inv by (simp add: pub_inv_def)
qed

lemma pub_inv_drop:
  assumes "pub_inv w"
  shows "pub_inv (w\<lparr>pw_locals := (pw_locals w)[k := None]\<rparr>)"
  using assms by (cases "k < length (pw_locals w)") (auto simp: pub_inv_def nth_list_update)

lemma pub_inv_quiesce:
  assumes inv: "pub_inv w" and k: "k < length (pw_locals w)" "pw_locals w ! k = None"
    and q: "quiesce_worker k inst k (pw_pub w) (pw_epochs w) = (p, eps)"
  shows "pub_inv (w\<lparr>pw_pub := p, pw_epochs := eps\<rparr>)"
proof -
  consider "p = publish_progress (pw_pub w)" "eps = pw_epochs w"
    | "p = publish_progress ((pw_pub w)\<lparr>fp_registry := (fp_registry (pw_pub w))[k := None]\<rparr>)"
      "eps = (pw_epochs w)(k := (pw_epochs w k)\<lparr>we_quiesced := inst, we_registration := Unregistered\<rparr>)"
    using q by (auto simp: quiesce_worker_def split: if_splits)
  then show ?thesis
  proof cases
    case 1
    then show ?thesis
      using inv by (simp add: pub_inv_def publish_progress_def)
  next
    case 2
    have "local_ok ((pw_pub w)\<lparr>fp_registry := (fp_registry (pw_pub w))[k := None]\<rparr>) eps i t"
      if "i < length (pw_locals w)" "pw_locals w ! i = Some t" for i t
    proof -
      have "i \<noteq> k" using that k by auto
      then show ?thesis
        using pub_inv_local [OF inv that] 2(2) by (simp add: local_ok_def participant_def)
    qed
    then show ?thesis
      using inv 2 k by (auto simp: pub_inv_def publish_progress_def nth_list_update split: if_splits)
  qed
qed

lemma pub_inv_refresh:
  assumes inv: "pub_inv w" and k: "k < length (pw_locals w)"
    and r: "refresh_worker_snapshot (pw_locals w ! k) inst k (pw_pub w) (pw_epochs w) = (r, l, p, eps)"
  shows "pub_inv (w\<lparr>pw_pub := p, pw_epochs := eps, pw_locals := (pw_locals w)[k := l]\<rparr>)"
proof (cases "\<exists>next old. fp_active (pw_pub w) = Some next \<and> pw_locals w ! k = Some old \<and> r")
  case False
  then have "p = pw_pub w \<and> eps = pw_epochs w \<and> l = pw_locals w ! k"
    using r by (auto simp: refresh_worker_snapshot_def Let_def split: if_splits option.splits)
  then show ?thesis
    using inv by simp
next
  case True
  then obtain "next" old where no: "fp_active (pw_pub w) = Some next" "pw_locals w ! k = Some old" r
    by blast
  then have ok: "local_ok (pw_pub w) (pw_epochs w) k old"
    using inv k by (auto simp: pub_inv_def)
  have same: "fst old = fst next \<Longrightarrow> old = next"
    using ok no inv by (auto simp: local_ok_def pub_inv_def owner_addresses_eq)
  have g: "snapshot_generation next = fp_generation (pw_pub w)" "fp_last_converged (pw_pub w) \<le> fp_generation (pw_pub w)"
    using inv no by (auto simp: pub_inv_def records_ok_def)
  have res: "l = Some next" "p = pw_pub w \<or> p = publish_progress (pw_pub w)"
    "eps = pw_epochs w \<and> we_observed (pw_epochs w k) \<le> snapshot_generation next
     \<or> eps = (pw_epochs w)(k := (pw_epochs w k)\<lparr>we_observed := snapshot_generation next\<rparr>)"
    using r no same by (auto simp: refresh_worker_snapshot_def Let_def split: if_splits)
  have lok: "local_ok p eps i t" if "i < length (pw_locals w)" "(pw_locals w)[k := l] ! i = Some t" for i t
  proof (cases "i = k")
    case True
    then show ?thesis
      using that k ok res no g by (auto simp: local_ok_def publish_progress_def)
  next
    case False
    then have "local_ok (pw_pub w) (pw_epochs w) i t"
      using that inv by (auto simp: pub_inv_def)
    then show ?thesis
      using False res by (auto simp: local_ok_def participant_def publish_progress_def)
  qed
  show ?thesis
    using inv res(2) lok
    by (elim disjE) (simp_all add: pub_inv_def publish_progress_def)
qed

lemma pub_inv_acquire:
  assumes inv: "pub_inv w" and a: "acquire_retirement_credit stop (pw_pub w) = Some (r, p)"
  shows "pub_inv (w\<lparr>pw_pub := p\<rparr>)"
proof -
  have "p = pw_pub w \<or> p = (pw_pub w)\<lparr>fp_credit_held := True\<rparr>"
    using a by (auto simp: acquire_retirement_credit_def split: if_splits)
  then show ?thesis
    using inv by (auto simp: pub_inv_def records_ok_def)
qed

lemma pub_inv_release: "pub_inv w \<Longrightarrow> pub_inv (w\<lparr>pw_pub := release_uncommitted_credit (pw_pub w)\<rparr>)"
  by (auto simp: release_uncommitted_credit_def pub_inv_def records_ok_def)

lemma pub_inv_seal: "pub_inv w \<Longrightarrow> pub_inv (w\<lparr>pw_pub := seal_publication (pw_pub w)\<rparr>)"
  by (simp add: seal_publication_def pub_inv_def records_ok_def)

lemma pub_inv_requests:
  assumes "pub_inv w"
  shows "pub_inv (w\<lparr>pw_pub := request_reclaimer_shutdown (pw_pub w)\<rparr>)"
    and "pub_inv (w\<lparr>pw_pub := set_publication_sink sink (pw_pub w)\<rparr>)"
    and "pub_inv (w\<lparr>pw_pub := wake_on_stop (pw_pub w)\<rparr>)"
    and "pub_inv (w\<lparr>pw_pub := inject_reclaimer_failure (pw_pub w)\<rparr>)"
    and "pub_inv (w\<lparr>pw_pub := inject_reclaimer_failure_after_next_commit (pw_pub w)\<rparr>)"
  using assms
  by (simp_all add: request_reclaimer_shutdown_def set_publication_sink_def wake_on_stop_def inject_reclaimer_failure_def inject_reclaimer_failure_after_next_commit_def
      pub_inv_def)

lemma pub_inv_begin:
  assumes "pub_inv w" and "reclaimer_begin (pw_pub w) = (None, p)"
  shows "pub_inv (w\<lparr>pw_pub := p\<rparr>)"
  using assms by (auto simp: reclaimer_begin_def pub_inv_def split: if_splits)

text \<open>Every worker that holds a snapshot is in the cohort that a commit or a detach collects.\<close>

lemma holder_in_cohort:
  assumes "local_ok p eps k s" and "k < length (fp_registry p)"
  shows "participant eps k \<in> set (collect_cohort (fp_registry p) eps)"
  using assms
  by (cases "we_registration (eps k)")
     (auto simp: collect_cohort_def local_ok_def participant_def intro!: bexI [of _ k])

lemma succ_greater:
  assumes "(g :: u64) \<noteq> - 1"
  shows "g < g + 1"
proof -
  have "1 + g \<noteq> 0"
    using assms by (metis add_eq_0_iff)
  then show ?thesis
    by (simp add: word_less_nat_alt unatSuc add.commute)
qed

lemma pub_inv_commit:
  assumes inv: "pub_inv w" and fresh: "\<And>c. candidate = Some c \<Longrightarrow> use_count w c = 0"
    and c: "commit now candidate (pw_pub w) (pw_epochs w) = (r, notified, p)"
  shows "pub_inv (w\<lparr>pw_pub := p\<rparr>)"
proof (cases r)
  case (Inl e)
  then have "p = pw_pub w"
    using c by (auto simp: commit_def Let_def split: if_splits option.splits)
  then show ?thesis
    using inv by simp
next
  case (Inr v)
  then obtain d where d: "candidate = Some d" "snapshot_generation d = fp_generation (pw_pub w) + 1" "fp_generation (pw_pub w) \<noteq> - 1"
      "snapshot_generation d \<noteq> 0"
    and g: "fp_credit_held (pw_pub w)" "\<not> rec_pending (fp_retired (pw_pub w))" "\<not> fp_sealed (pw_pub w)"
    using c by (auto simp: commit_def Let_def split: if_splits option.splits)
  have p: "fp_active p = Some d" "rec_owner (fp_retired p) = fp_active (pw_pub w)" "fp_terminal p = fp_terminal (pw_pub w)"
    "rec_pending (fp_retired p)" "fv_generation (rec_version (fp_retired p)) = fp_generation (pw_pub w) + 1"
    "fp_generation p = fp_generation (pw_pub w) + 1" "\<not> rec_terminal (fp_retired p)"
    "rec_cohort (fp_retired p) = collect_cohort (fp_registry (pw_pub w)) (pw_epochs w)"
    "fp_registry p = fp_registry (pw_pub w)" "fp_last_converged p = fp_last_converged (pw_pub w)"
    "fp_last_reclaimed p = fp_last_reclaimed (pw_pub w)" "fp_credit_held p" "\<not> fp_sealed p"
    "fp_reclaimer_active p = fp_reclaimer_active (pw_pub w)"
    using c d g by (auto simp: commit_def Let_def split: if_splits)
  have lt: "fp_generation (pw_pub w) < fp_generation (pw_pub w) + 1"
    by (rule succ_greater [OF d(3)])
  have old: "rec_owner (fp_retired (pw_pub w)) = None" "rec_owner (fp_terminal (pw_pub w)) = None"
    using inv g by (cases "rec_owner (fp_retired (pw_pub w))"; cases "rec_owner (fp_terminal (pw_pub w))";
        auto simp: pub_inv_def records_ok_def)+
  have rok: "records_ok p"
    using inv p g lt d(2) old unfolding pub_inv_def records_ok_def by auto
  have own: "distinct (owner_addresses (w\<lparr>pw_pub := p\<rparr>))"
    using inv p(1-3) old fresh [OF d(1)]
    by (auto simp: pub_inv_def owner_addresses_eq use_count_zero_iff split: option.splits)
  have des: "rec_pending (record_of which p) \<and> rec_owner (record_of which p) = None \<and> fp_reclaimer_active p
      \<and> (which \<longrightarrow> g' \<le> fp_last_converged p)" if "pw_destroying w = Some (which, s, g', b)" for which s g' b
  proof -
    have "rec_pending (record_of which (pw_pub w))" "fp_reclaimer_active (pw_pub w)" "\<not> which"
      using inv that g by (auto simp: pub_inv_def record_of_def)
    then show ?thesis
      using p old by (simp add: record_of_def)
  qed
  have lok: "local_ok p (pw_epochs w) k s" if "k < length (pw_locals w)" "pw_locals w ! k = Some s" for k s
  proof -
    have l: "local_ok (pw_pub w) (pw_epochs w) k s" by (rule pub_inv_local [OF inv that])
    moreover have "k < length (fp_registry (pw_pub w))" using inv that by (simp add: pub_inv_def)
    ultimately have "participant (pw_epochs w) k \<in> set (rec_cohort (fp_retired p))"
      using holder_in_cohort p(8) by simp
    then show ?thesis
      using l p old by (simp add: local_ok_def)
  qed
  show ?thesis
    using inv p(9) rok own des lok by (simp add: pub_inv_def)
qed

lemma pub_inv_detach:
  assumes inv: "pub_inv w" and s: "fp_sealed (pw_pub w)"
    and d: "detach_terminal_snapshot now (pw_pub w) (pw_epochs w) = (r, p)"
  shows "pub_inv (w\<lparr>pw_pub := p\<rparr>)"
proof (cases "rec_pending (fp_terminal (pw_pub w)) \<or> fp_active (pw_pub w) = None")
  case True
  then have "p = pw_pub w"
    using d by (auto simp: detach_terminal_snapshot_def split: if_splits)
  then show ?thesis
    using inv by simp
next
  case False
  then obtain a where a: "fp_active (pw_pub w) = Some a" "\<not> rec_pending (fp_terminal (pw_pub w))"
    by auto
  have p: "fp_active p = None" "rec_owner (fp_terminal p) = Some a" "fp_retired p = fp_retired (pw_pub w)"
    "rec_pending (fp_terminal p)" "rec_terminal (fp_terminal p)" "fp_generation p = fp_generation (pw_pub w)"
    "rec_cohort (fp_terminal p) = collect_cohort (fp_registry (pw_pub w)) (pw_epochs w)"
    "fp_registry p = fp_registry (pw_pub w)" "fp_last_converged p = fp_last_converged (pw_pub w)"
    "fp_last_reclaimed p = fp_last_reclaimed (pw_pub w)" "fp_credit_held p = fp_credit_held (pw_pub w)" "fp_sealed p"
    "fp_reclaimer_active p = fp_reclaimer_active (pw_pub w)"
    using d a s by (auto simp: detach_terminal_snapshot_def Let_def)
  have old: "rec_owner (fp_terminal (pw_pub w)) = None"
    using inv a by (cases "rec_owner (fp_terminal (pw_pub w))") (auto simp: pub_inv_def records_ok_def)
  have rok: "records_ok p"
    using inv p a unfolding pub_inv_def records_ok_def by auto
  have own: "distinct (owner_addresses (w\<lparr>pw_pub := p\<rparr>))"
    using inv p(1-3) old a(1)
    by (auto simp: pub_inv_def owner_addresses_eq split: option.splits)
  have des: "rec_pending (record_of which p) \<and> rec_owner (record_of which p) = None \<and> fp_reclaimer_active p
      \<and> (which \<longrightarrow> g' \<le> fp_last_converged p)" if "pw_destroying w = Some (which, s, g', b)" for which s g' b
  proof -
    have "rec_pending (record_of which (pw_pub w))" "rec_owner (record_of which (pw_pub w)) = None"
        "fp_reclaimer_active (pw_pub w)" "which \<longrightarrow> g' \<le> fp_last_converged (pw_pub w)"
      using inv that by (auto simp: pub_inv_def)
    then show ?thesis
      using p a by (cases which) (simp_all add: record_of_def)
  qed
  have lok: "local_ok p (pw_epochs w) k s" if "k < length (pw_locals w)" "pw_locals w ! k = Some s" for k s
  proof -
    have l: "local_ok (pw_pub w) (pw_epochs w) k s" by (rule pub_inv_local [OF inv that])
    moreover have "k < length (fp_registry (pw_pub w))" using inv that by (simp add: pub_inv_def)
    ultimately have "participant (pw_epochs w) k \<in> set (rec_cohort (fp_terminal p))"
      using holder_in_cohort p(7) by simp
    then show ?thesis
      using l p old a by (auto simp: local_ok_def)
  qed
  show ?thesis
    using inv p(8) rok own des lok by (simp add: pub_inv_def)
qed

section \<open>The reclaimer keeps the invariant\<close>

lemma record_of_set_record [simp]: "record_of which (set_record which r p) = r"
  by (simp add: record_of_def set_record_def)

lemma next_pending_record_pending: "next_pending_record p = Some which \<Longrightarrow> rec_pending (record_of which p)"
  by (auto simp: next_pending_record_def record_of_def split: if_splits)

text \<open>
  Clearing the owner of a complete record: no worker holds it, so the workers that remain hold the active
  or the other snapshot.
\<close>

lemma complete_not_local_owner:
  assumes "pub_inv w" and "cohort_complete (pw_epochs w) (record_of which (pw_pub w))"
    and "k < length (pw_locals w)" and "pw_locals w ! k = Some s"
  shows "rec_owner (record_of which (pw_pub w)) \<noteq> Some s"
  using complete_not_held(1) [OF assms(1) _ assms(2)] assms(3,4) by (meson local_addresses_iff)

lemma converged_local:
  assumes "pub_inv w" and "cohort_complete (pw_epochs w) (fp_retired (pw_pub w))"
    and "k < length (pw_locals w)" and "pw_locals w ! k = Some s"
  shows "snapshot_generation s = fp_generation (pw_pub w)"
    and "fp_active (pw_pub w) = Some s \<or> rec_owner (fp_terminal (pw_pub w)) = Some s
         \<and> participant (pw_epochs w) k \<in> set (rec_cohort (fp_terminal (pw_pub w)))"
  using complete_not_local_owner [of w True, OF assms(1) _ assms(3,4)] pub_inv_local [OF assms(1,3,4)] assms(1,2)
  by (auto simp: local_ok_def record_of_def pub_inv_def records_ok_def)

definition taken :: "bool \<Rightarrow> filter_publication \<Rightarrow> filter_publication" where
  "taken which p = (set_record which ((record_of which p)\<lparr>rec_destroying := True, rec_owner := None\<rparr>) p)
     \<lparr>fp_last_converged := (if which then max (fp_last_converged p) (fv_generation (rec_version (record_of which p)))
                           else fp_last_converged p)\<rparr>"

lemma pub_inv_taken:
  assumes inv: "pub_inv w" and comp: "cohort_complete (pw_epochs w) (record_of which (pw_pub w))"
    and pend: "rec_pending (record_of which (pw_pub w))" and des: "pw_destroying w = None" and act: "fp_reclaimer_active (pw_pub w)"
  shows "pub_inv (w\<lparr>pw_pub := taken which (pw_pub w),
           pw_destroying := Some (which, rec_owner (record_of which (pw_pub w)), fv_generation (rec_version (record_of which (pw_pub w))), b)\<rparr>)"
proof -
  have rok: "records_ok (taken which (pw_pub w))"
    using inv pend by (cases which) (auto simp: pub_inv_def records_ok_def taken_def set_record_def record_of_def)
  have own: "distinct (owner_addresses (w\<lparr>pw_pub := taken which (pw_pub w),
           pw_destroying := Some (which, rec_owner (record_of which (pw_pub w)), g, b)\<rparr>))" for g
    using inv des by (cases which)
      (auto simp: pub_inv_def owner_addresses_eq taken_def set_record_def record_of_def split: option.splits)
  have lok: "local_ok (taken which (pw_pub w)) (pw_epochs w) k s"
    if "k < length (pw_locals w)" "pw_locals w ! k = Some s" for k s
  proof (cases which)
    case True
    have "fv_generation (rec_version (fp_retired (pw_pub w))) = fp_generation (pw_pub w)"
        "fp_last_converged (pw_pub w) \<le> fp_generation (pw_pub w)"
      using inv pend True by (auto simp: pub_inv_def records_ok_def record_of_def)
    then show ?thesis
      using converged_local [OF inv _ that] comp pub_inv_local [OF inv that] True
      by (auto simp: local_ok_def taken_def set_record_def record_of_def)
  next
    case False
    then show ?thesis
      using complete_not_local_owner [OF inv comp that] pub_inv_local [OF inv that]
      by (auto simp: local_ok_def taken_def set_record_def record_of_def)
  qed
  have "fp_registry (taken which (pw_pub w)) = fp_registry (pw_pub w)"
      "rec_pending (record_of which (taken which (pw_pub w)))" "rec_owner (record_of which (taken which (pw_pub w))) = None"
      "fp_reclaimer_active (taken which (pw_pub w))"
      "which \<longrightarrow> fv_generation (rec_version (record_of which (pw_pub w))) \<le> fp_last_converged (taken which (pw_pub w))"
    using pend act by (cases which; simp add: taken_def set_record_def record_of_def)+
  then show ?thesis
    using inv rok own lok by (auto simp: pub_inv_def)
qed

text \<open>In a state of the protocol one round either leaves, waits, or takes the snapshot of a complete record.\<close>

lemma reclaimer_step_cases:
  assumes inv: "pub_inv w"
  obtains c d where "reclaimer_step (use_count w) stop now (pw_pub w) (pw_epochs w) = (ReclaimerLeaves c d, pw_pub w)"
      "c = FatalExit \<Longrightarrow> fp_failure_requested (pw_pub w)"
  | "reclaimer_step (use_count w) stop now (pw_pub w) (pw_epochs w)
       = (ReclaimerLeaves FatalExit None, (pw_pub w)\<lparr>fp_failure_after_commit := False\<rparr>)" "fp_failure_after_commit (pw_pub w)"
  | "reclaimer_step (use_count w) stop now (pw_pub w) (pw_epochs w) = (ReclaimerWaits, pw_pub w)"
  | which where "reclaimer_step (use_count w) stop now (pw_pub w) (pw_epochs w)
       = (ReclaimerDestroys which (rec_owner (record_of which (pw_pub w))), taken which (pw_pub w))"
      "rec_pending (record_of which (pw_pub w))" "cohort_complete (pw_epochs w) (record_of which (pw_pub w))"
proof (cases "fp_failure_requested (pw_pub w)")
  case True
  then show ?thesis
    using that(1) [of FatalExit None] by (simp add: reclaimer_step_def)
next
  case nofail: False
  show ?thesis
  proof (cases "fp_failure_after_commit (pw_pub w) \<and> rec_pending (fp_retired (pw_pub w))")
    case True
    then show ?thesis
      using that(2) nofail by (simp add: reclaimer_step_def)
  next
    case nocommit: False
    note run = reclaimer_step_def if_not_P [OF nofail] if_not_P [OF nocommit]
    show ?thesis
    proof (cases "next_pending_record (pw_pub w)")
      case None
      then show ?thesis
        using that(1) [of RequestedStop None] that(3) by (cases "fp_shutdown_requested (pw_pub w) \<or> stop") (simp_all add: run)
    next
      case (Some which)
      note pend = next_pending_record_pending [OF Some]
      show ?thesis
      proof (cases "cohort_complete (pw_epochs w) (record_of which (pw_pub w))")
        case True
        then show ?thesis
          using that(4) [OF _ pend True] complete_not_shared [OF inv True] Some by (simp add: run Let_def taken_def)
      next
        case False
        then show ?thesis
          using that(1) [of GracePeriodStalled] that(3) Some
          by (cases "now \<ge> rec_committed_at (record_of which (pw_pub w)) + fp_grace_timeout (pw_pub w)") (simp_all add: run Let_def)
      qed
    qed
  qed
qed

lemma pub_inv_round:
  assumes inv: "pub_inv w" and act: "fp_reclaimer_active (pw_pub w)" and des: "pw_destroying w = None"
  shows "pub_inv (round_world stop now w)"
  using inv
proof (cases rule: reclaimer_step_cases [of w stop now])
  case (1 c d)
  then show ?thesis
    using inv des by (simp add: round_world_def reclaimer_end_def pub_inv_def)
next
  case 2
  then show ?thesis
    using inv des by (simp add: round_world_def reclaimer_end_def pub_inv_def)
next
  case 3
  then show ?thesis
    using inv by (simp add: round_world_def)
next
  case (4 which)
  then show ?thesis
    using pub_inv_taken [OF inv 4(3,2) des act] by (simp add: round_world_def)
qed

lemma pub_inv_destroyed:
  assumes inv: "pub_inv w" and des: "pw_destroying w = Some (which, s, g, b)"
  shows "pub_inv (w\<lparr>pw_pub := reclaimer_destroyed which g b (pw_pub w), pw_destroying := None\<rparr>)"
proof -
  have r: "rec_pending (record_of which (pw_pub w))" "rec_owner (record_of which (pw_pub w)) = None"
      "which \<longrightarrow> g \<le> fp_last_converged (pw_pub w)"
    using inv des by (auto simp: pub_inv_def)
  have "records_ok (reclaimer_destroyed which g b (pw_pub w))"
    using inv r by (cases which)
      (auto simp: pub_inv_def records_ok_def reclaimer_destroyed_def set_record_def record_of_def cleared_record_def Let_def)
  moreover have "distinct (owner_addresses (w\<lparr>pw_pub := reclaimer_destroyed which g b (pw_pub w), pw_destroying := None\<rparr>))"
    using inv r by (cases which)
      (auto simp: pub_inv_def owner_addresses_eq reclaimer_destroyed_def set_record_def record_of_def cleared_record_def Let_def
         split: option.splits)
  moreover have "local_ok (reclaimer_destroyed which g b (pw_pub w)) (pw_epochs w) k t"
    if "k < length (pw_locals w)" "pw_locals w ! k = Some t" for k t
    using pub_inv_local [OF inv that] r by (cases which)
      (auto simp: local_ok_def reclaimer_destroyed_def set_record_def record_of_def cleared_record_def Let_def)
  moreover have "fp_registry (reclaimer_destroyed which g b (pw_pub w)) = fp_registry (pw_pub w)"
    by (simp add: reclaimer_destroyed_def set_record_def Let_def)
  ultimately show ?thesis
    using inv by (simp add: pub_inv_def)
qed

section \<open>Emergency reclamation keeps the invariant\<close>

lemma pub_inv_reclaim_record:
  assumes inv: "pub_inv w" and comp: "cohort_complete (pw_epochs w) (record_of which (pw_pub w))"
    and pend: "rec_pending (record_of which (pw_pub w))" and des: "pw_destroying w = None"
  shows "pub_inv (w\<lparr>pw_pub := reclaim_record which (pw_pub w)\<rparr>)"
proof -
  have "records_ok (reclaim_record which (pw_pub w))"
    using inv pend by (cases which)
      (auto simp: pub_inv_def records_ok_def reclaim_record_def set_record_def record_of_def cleared_record_def Let_def)
  moreover have "distinct (owner_addresses (w\<lparr>pw_pub := reclaim_record which (pw_pub w)\<rparr>))"
    using inv des by (cases which)
      (auto simp: pub_inv_def owner_addresses_eq reclaim_record_def set_record_def record_of_def cleared_record_def Let_def
         split: option.splits)
  moreover have "local_ok (reclaim_record which (pw_pub w)) (pw_epochs w) k t"
    if "k < length (pw_locals w)" "pw_locals w ! k = Some t" for k t
  proof (cases which)
    case True
    have "fv_generation (rec_version (fp_retired (pw_pub w))) = fp_generation (pw_pub w)"
        "fp_last_converged (pw_pub w) \<le> fp_generation (pw_pub w)"
      using inv pend True by (auto simp: pub_inv_def records_ok_def record_of_def)
    then show ?thesis
      using converged_local [OF inv _ that] comp pub_inv_local [OF inv that] True
      by (auto simp: local_ok_def reclaim_record_def set_record_def record_of_def cleared_record_def Let_def)
  next
    case False
    then show ?thesis
      using complete_not_local_owner [OF inv comp that] pub_inv_local [OF inv that]
      by (auto simp: local_ok_def reclaim_record_def set_record_def record_of_def cleared_record_def Let_def)
  qed
  moreover have "fp_registry (reclaim_record which (pw_pub w)) = fp_registry (pw_pub w)"
    by (simp add: reclaim_record_def set_record_def Let_def)
  ultimately show ?thesis
    using inv des by (simp add: pub_inv_def)
qed

lemma reclaim_record_terminal [simp]: "fp_terminal (reclaim_record True p) = fp_terminal p"
  by (simp add: reclaim_record_def set_record_def Let_def)

lemma pub_inv_emergency:
  assumes inv: "pub_inv w" and e: "emergency_reclaim_converged (use_count w) (pw_pub w) (pw_epochs w) = (r, p)"
  shows "pub_inv (w\<lparr>pw_pub := p\<rparr>)"
proof (cases r)
  case False
  then have "p = pw_pub w"
    using e by (auto simp: emergency_reclaim_converged_def reclaim_converged_locked_def Let_def split: if_splits)
  then show ?thesis
    using inv by simp
next
  case True
  let ?p1 = "if rec_pending (fp_retired (pw_pub w)) then reclaim_record True (pw_pub w) else pw_pub w"
  have c: "\<not> fp_reclaimer_active (pw_pub w)"
      "rec_pending (fp_retired (pw_pub w)) \<Longrightarrow> cohort_complete (pw_epochs w) (fp_retired (pw_pub w))"
      "rec_pending (fp_terminal (pw_pub w)) \<Longrightarrow> cohort_complete (pw_epochs w) (fp_terminal (pw_pub w))"
      "p = (if rec_pending (fp_terminal ?p1) then reclaim_record False ?p1 else ?p1)"
    using e True by (auto simp: emergency_reclaim_converged_def reclaim_converged_locked_def Let_def split: if_splits)
  have des: "pw_destroying w = None"
    using inv c(1) by (cases "pw_destroying w") (auto simp: pub_inv_def)
  have inv1: "pub_inv (w\<lparr>pw_pub := ?p1\<rparr>)"
    using inv pub_inv_reclaim_record [OF inv, of True] c(2) des by (simp add: record_of_def)
  have t: "fp_terminal ?p1 = fp_terminal (pw_pub w)"
    by simp
  show ?thesis
  proof (cases "rec_pending (fp_terminal (pw_pub w))")
    case True
    then show ?thesis
      using pub_inv_reclaim_record [OF inv1, of False] c(3,4) des t by (simp add: record_of_def)
  next
    case False
    then show ?thesis
      using inv1 c(4) t by simp
  qed
qed

lemma pub_env_step_inv: "pub_env_step w w' \<Longrightarrow> pub_inv w \<Longrightarrow> pub_inv w'"
  by (induction rule: pub_env_step.induct)
     (auto intro: pub_inv_register pub_inv_mark pub_inv_refresh pub_inv_drop pub_inv_quiesce pub_inv_seal pub_inv_detach
       pub_inv_begin pub_inv_round pub_inv_destroyed pub_inv_requests pub_inv_emergency)

lemma pub_step_inv:
  assumes "pub_step w w'" and inv: "pub_inv w"
  shows "pub_inv w'"
  using assms(1)
proof (cases rule: pub_step.cases)
  case (step_commit candidate now r notified p)
  then show ?thesis
    using pub_inv_commit [OF inv step_commit(2,3)] by simp
qed (use inv in \<open>auto intro: pub_env_step_inv pub_inv_acquire pub_inv_release\<close>)

lemma pub_reachable_inv: "pub_reachable initial n timeout w \<Longrightarrow> pub_inv w"
  by (induction rule: pub_reachable.induct) (auto intro: pub_inv_new pub_step_inv)

section \<open>What the protocol guarantees\<close>

lemma destroys_unused:
  assumes inv: "pub_inv w" and r: "reclaimer_step (use_count w) stop now (pw_pub w) (pw_epochs w) = (ReclaimerDestroys which (Some s), p)"
  shows "use_count w s = 1" and "\<forall>k < length (pw_locals w). pw_locals w ! k \<noteq> Some s" and "fp_active (pw_pub w) \<noteq> Some s"
  using inv
proof (atomize (full), cases rule: reclaimer_step_cases [of w stop now])
  case (4 which')
  then have o: "rec_owner (record_of which' (pw_pub w)) = Some s"
    using r by simp
  have "fst s \<notin> set (local_addresses w)" "use_count w s = 1"
    using complete_not_held [OF inv o 4(3)] by auto
  moreover have "fp_active (pw_pub w) \<noteq> Some s"
    using inv o by (cases which') (auto simp: pub_inv_def owner_addresses_eq record_of_def)
  ultimately show "use_count w s = 1 \<and> (\<forall>k < length (pw_locals w). pw_locals w ! k \<noteq> Some s) \<and> fp_active (pw_pub w) \<noteq> Some s"
    by (meson local_addresses_iff)
qed (use r in simp_all)

lemma fatal_only_injected:
  assumes "pub_inv w" and "reclaimer_step (use_count w) stop now (pw_pub w) (pw_epochs w) = (ReclaimerLeaves FatalExit d, p)"
  shows "fp_failure_requested (pw_pub w) \<or> fp_failure_after_commit (pw_pub w)"
  using assms(1) by (cases rule: reclaimer_step_cases [of w stop now]) (use assms(2) in auto)

lemma complete_record_taken:
  assumes inv: "pub_inv w" and nf: "\<not> fp_failure_requested (pw_pub w)" "\<not> fp_failure_after_commit (pw_pub w)"
    and n: "next_pending_record (pw_pub w) = Some which" and c: "cohort_complete (pw_epochs w) (record_of which (pw_pub w))"
  shows "reclaimer_step (use_count w) stop now (pw_pub w) (pw_epochs w)
           = (ReclaimerDestroys which (rec_owner (record_of which (pw_pub w))), taken which (pw_pub w))"
  using nf n c complete_not_shared [OF inv c] by (simp add: reclaimer_step_def Let_def taken_def)

lemma emergency_outcome:
  assumes inv: "pub_inv w" and s: "fp_sealed (pw_pub w)" "\<not> fp_reclaimer_active (pw_pub w)"
  shows "fst (emergency_reclaim_converged (use_count w) (pw_pub w) (pw_epochs w)) \<longleftrightarrow>
    (\<forall>which. rec_pending (record_of which (pw_pub w)) \<longrightarrow> cohort_complete (pw_epochs w) (record_of which (pw_pub w)))"
proof -
  have sh: "\<not> shared_owner (use_count w) (record_of which (pw_pub w))"
    if "rec_pending (record_of which (pw_pub w)) \<longrightarrow> cohort_complete (pw_epochs w) (record_of which (pw_pub w))" for which
  proof (cases "rec_pending (record_of which (pw_pub w))")
    case True
    then show ?thesis using complete_not_shared [OF inv] that by blast
  next
    case False
    then have "rec_owner (record_of which (pw_pub w)) = None"
      using inv by (cases "rec_owner (record_of which (pw_pub w))"; cases which) (auto simp: pub_inv_def records_ok_def record_of_def)
    then show ?thesis by (simp add: shared_owner_def)
  qed
  show ?thesis
    using s sh [of True] sh [of False]
    by (auto simp: emergency_reclaim_converged_def reclaim_converged_locked_def Let_def record_of_def all_bool_eq split: if_splits)
qed

text \<open>
  C14. A retired snapshot is destroyed only when nothing refers to it any more.  In every state that the
  supervisor, the workers, the update controller and the reclaimer can reach: the snapshot the reclaimer
  takes for destruction has the record as its only owner, no worker filters with it and it is not the
  active one; the reclaimer does not stop with \<open>FatalExit\<close> unless a test asked for it, so the check for an
  owner outside the protocol never fires; a record whose cohort is complete is taken in the next round;
  and once the publication is sealed and the reclaimer gone, the emergency path succeeds exactly when every
  pending record has a complete cohort.
\<close>

theorem retired_snapshot_unused:
  assumes "pub_reachable initial n timeout w"
  shows "(\<forall>stop now which s p. reclaimer_step (use_count w) stop now (pw_pub w) (pw_epochs w) = (ReclaimerDestroys which (Some s), p)
            \<longrightarrow> use_count w s = 1 \<and> (\<forall>k < length (pw_locals w). pw_locals w ! k \<noteq> Some s) \<and> fp_active (pw_pub w) \<noteq> Some s)
    \<and> (\<forall>stop now d p. reclaimer_step (use_count w) stop now (pw_pub w) (pw_epochs w) = (ReclaimerLeaves FatalExit d, p)
            \<longrightarrow> fp_failure_requested (pw_pub w) \<or> fp_failure_after_commit (pw_pub w))
    \<and> (\<forall>stop now which. \<not> fp_failure_requested (pw_pub w) \<longrightarrow> \<not> fp_failure_after_commit (pw_pub w)
            \<longrightarrow> next_pending_record (pw_pub w) = Some which \<longrightarrow> cohort_complete (pw_epochs w) (record_of which (pw_pub w))
            \<longrightarrow> fst (reclaimer_step (use_count w) stop now (pw_pub w) (pw_epochs w))
                  = ReclaimerDestroys which (rec_owner (record_of which (pw_pub w))))
    \<and> (fp_sealed (pw_pub w) \<longrightarrow> \<not> fp_reclaimer_active (pw_pub w)
            \<longrightarrow> fst (emergency_reclaim_converged (use_count w) (pw_pub w) (pw_epochs w))
                  = (\<forall>which. rec_pending (record_of which (pw_pub w)) \<longrightarrow> cohort_complete (pw_epochs w) (record_of which (pw_pub w))))"
proof -
  note inv = pub_reachable_inv [OF assms]
  show ?thesis
    by (intro conjI allI impI;
        (rule destroys_unused(1) [OF inv] destroys_unused(2) [OF inv, rule_format] destroys_unused(3) [OF inv]
           fatal_only_injected [OF inv] emergency_outcome [OF inv]; assumption | simp add: complete_record_taken [OF inv]))
qed

lemma converged_bound:
  assumes "pub_inv w" and "wait_until_converged g (pw_pub w) = Some WaitConverged"
    and "k < length (pw_locals w)" and "pw_locals w ! k = Some s"
  shows "g \<le> snapshot_generation s" and "snapshot_generation s \<le> fp_generation (pw_pub w)"
proof -
  have l: "local_ok (pw_pub w) (pw_epochs w) k s"
    by (rule pub_inv_local [OF assms(1,3,4)])
  have "g \<le> fp_last_converged (pw_pub w)"
    using assms(2) by (auto simp: wait_until_converged_def split: if_splits)
  then show "g \<le> snapshot_generation s"
    using l by (auto simp: local_ok_def)
  show "snapshot_generation s \<le> fp_generation (pw_pub w)"
    using l assms(1) by (auto simp: local_ok_def pub_inv_def records_ok_def)
qed

text \<open>
  C15. An update is complete when the controller is told so: whenever \<open>wait_until_converged\<close> returns
  \<open>Converged\<close> for a generation, in whatever state the workers, the supervisor and the reclaimer have reached,
  every snapshot with which a worker filters queries is of that generation or a newer one, and never newer
  than the generation that was published last.
\<close>

theorem converged_generation_in_use:
  assumes "pub_reachable initial n timeout w" and "wait_until_converged g (pw_pub w) = Some WaitConverged"
    and "k < length (pw_locals w)" and "pw_locals w ! k = Some s"
  shows "g \<le> snapshot_generation s \<and> snapshot_generation s \<le> fp_generation (pw_pub w)"
  using converged_bound [OF pub_reachable_inv [OF assms(1)] assms(2-4)] by simp

section \<open>A run of the protocol\<close>

text \<open>One worker starts with generation 1; generation 2 is committed, the worker moves to it and the reclaimer destroys the old snapshot.\<close>

definition sample_snapshot :: "nat \<Rightarrow> u64 \<Rightarrow> filter_snapshot" where
  "sample_snapshot a g = (a, new_filter_context g
     \<lparr>prefilter = \<lparr>buckets = [], cf_size = 0, maximum_kicks = 0, rng_state = 0, last_failure = NoFailure\<rparr>,
      tree = new_tree, rule_count = 0, normalized_rule_bytes = 0\<rparr>)"

lemma sample_snapshot_simps [simp]:
  "snapshot_generation (sample_snapshot a g) = g" "fst (sample_snapshot a g) = a" "ctx_rule_bytes (snd (sample_snapshot a g)) = 0"
  "rule_count (blocklist (snd (sample_snapshot a g))) = 0"
  by (simp_all add: sample_snapshot_def new_filter_context_def)

definition sample_publication :: filter_publication where
  "sample_publication = the (new_publication (Some (sample_snapshot 1 1)) 1 1000)"

definition sample_epochs :: epochs where
  "sample_epochs = (\<lambda>_. \<lparr>we_instance = 0, we_observed = kUnobservedFilterGeneration, we_registration = Unregistered, we_quiesced = 0\<rparr>)"

text \<open>The state in which the worker has moved on and the old snapshot is retired.\<close>

definition sample_world :: pub_world where
  "sample_world =
     \<lparr>pw_pub = sample_publication\<lparr>fp_registry := [Some 0], fp_reclaimer_started := True, fp_reclaimer_active := True,
        fp_credit_held := True, fp_active := Some (sample_snapshot 2 2), fp_generation := 2, fp_progress := 1,
        fp_retired := \<lparr>rec_owner = Some (sample_snapshot 1 1), rec_version = \<lparr>fv_generation = 2, fv_rule_count = 0\<rparr>, rec_published_bytes = 0,
          rec_retired_bytes = 0, rec_cohort = [\<lparr>cm_worker_id = 0, cm_instance = 1, cm_epoch = 0\<rparr>], rec_committed_at = 5,
          rec_pending = True, rec_destroying = False, rec_terminal = False\<rparr>\<rparr>,
      pw_epochs = sample_epochs(0 := \<lparr>we_instance = 1, we_observed = 2, we_registration = RegStarting, we_quiesced = 0\<rparr>),
      pw_locals = [Some (sample_snapshot 2 2)], pw_destroying = None\<rparr>"

lemmas sample_run_simps = sample_publication_def sample_epochs_def new_publication_def empty_record_def kUnobservedFilterGeneration_def

lemma sample_world_reachable: "pub_reachable (sample_snapshot 1 1) 1 1000 sample_world"
proof -
  let ?S = "sample_snapshot 1 1" and ?T = "sample_snapshot 2 2"
  let ?w0 = "\<lparr>pw_pub = sample_publication, pw_epochs = sample_epochs, pw_locals = [None], pw_destroying = None\<rparr>"
  let ?e1 = "sample_epochs(0 := \<lparr>we_instance = 1, we_observed = 0, we_registration = RegStarting, we_quiesced = 0\<rparr>)"
  let ?p1 = "sample_publication\<lparr>fp_registry := [Some 0]\<rparr>"
  let ?p2 = "?p1\<lparr>fp_reclaimer_started := True, fp_reclaimer_active := True\<rparr>"
  let ?p3 = "?p2\<lparr>fp_credit_held := True\<rparr>"
  let ?p4 = "snd (snd (commit 5 (Some ?T) ?p3 ?e1))"
  have p: "new_publication (Some ?S) 1 1000 = Some sample_publication"
    by (simp add: sample_publication_def new_publication_def)
  have r0: "pub_reachable ?S 1 1000 ?w0"
    using reach_new [OF p] by (simp add: sample_epochs_def)
  have reg: "register_worker 0 1 0 sample_publication sample_epochs = (Some (?S, 1), ?p1, ?e1)"
    by (simp add: register_worker_def sample_run_simps)
  have r1: "pub_reachable ?S 1 1000 (?w0\<lparr>pw_pub := ?p1, pw_epochs := ?e1, pw_locals := [Some ?S]\<rparr>)"
    using reach_step [OF r0 step_env [OF step_register [of 0 ?w0 1 ?S 1 ?p1 ?e1]]] reg by (simp add: sample_epochs_def)
  have r2: "pub_reachable ?S 1 1000 (?w0\<lparr>pw_pub := ?p2, pw_epochs := ?e1, pw_locals := [Some ?S]\<rparr>)"
    using reach_step [OF r1 step_env [OF step_begin [of _ ?p2]]] by (simp add: reclaimer_begin_def sample_run_simps)
  have r3: "pub_reachable ?S 1 1000 (?w0\<lparr>pw_pub := ?p3, pw_epochs := ?e1, pw_locals := [Some ?S]\<rparr>)"
    using reach_step [OF r2 step_acquire [of False _ True ?p3]] by (simp add: acquire_retirement_credit_def sample_run_simps)
  have fresh: "use_count (?w0\<lparr>pw_pub := ?p3, pw_epochs := ?e1, pw_locals := [Some ?S]\<rparr>) ?T = 0"
    by (simp add: use_count_zero_iff owner_addresses_eq local_addresses_def List.map_filter_simps sample_run_simps)
  have r4: "pub_reachable ?S 1 1000 (?w0\<lparr>pw_pub := ?p4, pw_epochs := ?e1, pw_locals := [Some ?S]\<rparr>)"
    using reach_step [OF r3 step_commit [of "Some ?T" _ 5 "fst (commit 5 (Some ?T) ?p3 ?e1)" "fst (snd (commit 5 (Some ?T) ?p3 ?e1))" ?p4]] fresh by simp
  have p4: "?p4 = (pw_pub sample_world)\<lparr>fp_progress := 0\<rparr>"
    by (simp add: commit_def collect_cohort_def Let_def sample_world_def sample_run_simps)
  have ref: "refresh_worker_snapshot (Some ?S) 1 0 ?p4 ?e1 = (True, Some ?T, pw_pub sample_world, pw_epochs sample_world)"
    unfolding p4 by (simp add: refresh_worker_snapshot_def Let_def publish_progress_def sample_world_def fun_eq_iff)
  show ?thesis
    using reach_step [OF r4 step_env [OF step_refresh [of 0 _ 1 True "Some ?T" "pw_pub sample_world" "pw_epochs sample_world"]]] ref
    by (simp add: sample_world_def)
qed

lemma sample_world_round: "reclaimer_step (use_count sample_world) False 6 (pw_pub sample_world) (pw_epochs sample_world)
   = (ReclaimerDestroys True (Some (sample_snapshot 1 1)), taken True (pw_pub sample_world))"
  by (simp add: reclaimer_step_def next_pending_record_def record_of_def Let_def cohort_complete_def member_complete_def shared_owner_def
      use_count_def owner_addresses_def local_addresses_def List.map_filter_simps taken_def sample_world_def sample_run_simps)

theorem retired_snapshot_unused_witness:
  "use_count sample_world (sample_snapshot 1 1) = 1 \<and> pw_locals sample_world ! 0 \<noteq> Some (sample_snapshot 1 1)"
proof -
  have "0 < length (pw_locals sample_world)"
    by (simp add: sample_world_def)
  then show ?thesis
    using conjunct1 [OF retired_snapshot_unused [OF sample_world_reachable], rule_format, OF sample_world_round] by blast
qed

theorem converged_generation_in_use_witness:
  "wait_until_converged 2 (pw_pub (round_world False 6 sample_world)) = Some WaitConverged
   \<and> 2 \<le> snapshot_generation (sample_snapshot 2 2)"
proof -
  have r: "pub_reachable (sample_snapshot 1 1) 1 1000 (round_world False 6 sample_world)"
    by (rule reach_step [OF sample_world_reachable step_env [OF step_round]]) (simp_all add: sample_world_def)
  have c: "wait_until_converged 2 (pw_pub (round_world False 6 sample_world)) = Some WaitConverged"
    unfolding round_world_def sample_world_round
    by (simp add: wait_until_converged_def taken_def record_of_def set_record_def sample_world_def sample_run_simps)
  have l: "pw_locals (round_world False 6 sample_world) = [Some (sample_snapshot 2 2)]"
    unfolding round_world_def sample_world_round by (simp add: sample_world_def)
  show ?thesis
    using converged_generation_in_use [OF r c, of 0 "sample_snapshot 2 2"] l c by simp
qed

declare split_paired_All [simp] split_paired_Ex [simp]

end
