(* ===== verification/WorkerSupervisor.thy ===== *)
theory WorkerSupervisor
  imports WorkerLoop FilterPublication
begin

text \<open>
  The supervisor of the worker threads, \<open>src/WorkerSupervisor.{h,cpp}\<close> with \<open>src/WorkerRecovery.h\<close>, and the protocol
  between \<open>WorkerLoop::run\<close> and its observer (\<open>src/WorkerLoop.{h,cpp}\<close>): one thread creates the workers, waits
  until they are ready, lets them pass two gates, and then watches them; a worker that ends is joined and, if
  the policy says so, replaced after a backoff.

  A \<open>WorkerRecord\<close> is a record; the thread of its worker is the program counter \<open>worker_pc\<close>.  The functions of the
  supervisor thread are cut where they release the mutex, wait or call another component, and \<open>sup_pc\<close> names
  the place; \<open>holds_mutex\<close> says where it keeps the mutex, and no other thread takes a step that needs it then.
  \<open>sup_thread_step\<close>, \<open>worker_step\<close> and \<open>sup_env_step\<close> interleave the supervisor, the workers and everyone else on
  the state of the supervisor and of the filter publication.

  The stop source of an instance is named by worker and instance number.  The supervisor always has a
  publication, as in \<open>DNS.cpp\<close>; without one (unit tests only) it is not modelled, nor are the probes of the
  tests, the callbacks for the health of the service, and the destructors, which stop and join as
  \<open>emergency_join_all\<close> does.  The sequence of calls that the notifications of the condition variable cause is
  covered by letting every wait end at any time.
\<close>

section \<open>Outcomes of a worker\<close>

datatype worker_init_step =
    IS_CreateSocket | IS_ConfigureSocket | IS_BindSocket | IS_ReadBoundAddress | IS_CreateEpoll | IS_CreateWakeEvent
  | IS_CreateGenerationEvent | IS_ValidateUpstream | IS_CreateUpstreamSocket | IS_ConnectUpstream | IS_RegisterListener
  | IS_RegisterWakeEvent | IS_RegisterGenerationEvent | IS_RegisterUpstream

record worker_init_error =
  ie_step :: worker_init_step
  ie_error_number :: int

datatype worker_runtime_step =
    RS_StartScheduler | RS_StartTimerQueue | RS_StartUpstreamChannel | RS_AwaitActivation | RS_SynchronizeFilter
  | RS_WaitForEvents | RS_RuntimeInvariant | RS_UnhandledException | RS_Shutdown | RS_UnexpectedStop

record worker_runtime_error =
  re_step :: worker_runtime_step
  re_error_number :: int

datatype worker_ready_outcome = WorkerIsReady | WorkerInitFails

record worker_ready_result =
  ry_outcome :: worker_ready_outcome
  ry_error :: "worker_runtime_error option"

datatype worker_run_outcome = WorkerRequestedStop | WorkerFatalExit

record worker_run_result =
  rr_outcome :: worker_run_outcome
  rr_error :: "worker_runtime_error option"

datatype gate_action = GateStop | GateRefreshFilter | GateProceed

definition requested_stop :: worker_run_result where
  "requested_stop = \<lparr>rr_outcome = WorkerRequestedStop, rr_error = None\<rparr>"

definition fatal_exit :: "worker_runtime_step \<Rightarrow> int \<Rightarrow> worker_run_result" where
  "fatal_exit s n = \<lparr>rr_outcome = WorkerFatalExit, rr_error = Some \<lparr>re_step = s, re_error_number = n\<rparr>\<rparr>"

definition init_error :: "worker_runtime_step \<Rightarrow> int \<Rightarrow> worker_ready_result" where
  "init_error s n = \<lparr>ry_outcome = WorkerInitFails, ry_error = Some \<lparr>re_step = s, re_error_number = n\<rparr>\<rparr>"

definition worker_ready :: worker_ready_result where
  "worker_ready = \<lparr>ry_outcome = WorkerIsReady, ry_error = None\<rparr>"

section \<open>Recovery\<close>

datatype worker_failure_policy = FailService | Restart

record worker_recovery_config =
  rc_policy :: worker_failure_policy
  rc_max_attempts :: nat
  rc_initial_backoff :: int
  rc_max_backoff :: int
  rc_stability_window :: int

text \<open>Durations are in milliseconds, points of the steady clock in nanoseconds.\<close>

definition is_valid_recovery_config :: "worker_recovery_config \<Rightarrow> bool" where
  "is_valid_recovery_config c \<longleftrightarrow> rc_policy c = FailService
     \<or> (rc_policy c = Restart \<and> rc_max_attempts c \<noteq> 0 \<and> rc_initial_backoff c \<ge> 0
        \<and> rc_max_backoff c \<ge> rc_initial_backoff c \<and> rc_stability_window c \<ge> 0)"

definition time_max :: int where "time_max = 2 ^ 63 - 1"

definition deadline_after :: "int \<Rightarrow> int \<Rightarrow> int" where
  "deadline_after now delay =
     (if delay \<ge> nanoseconds_to_milliseconds (time_max - now) then time_max else now + delay * 1000000)"

definition doubled_backoff :: "int \<Rightarrow> int \<Rightarrow> int" where
  "doubled_backoff current maximum = (if current \<ge> maximum - current then maximum else current + current)"

datatype worker_failure_code =
    FC_UnexpectedStop | FC_FatalExit | FC_CreateFailed | FC_ThreadStartFailed | FC_InitFailed | FC_InstanceIdExhausted | FC_JoinFailed

record worker_failure =
  wf_code :: worker_failure_code
  wf_worker :: nat
  wf_instance :: u64
  wf_error_number :: int
  wf_create_error :: "worker_init_error option"
  wf_runtime_error :: "worker_runtime_error option"
  wf_budget_exhausted :: bool

section \<open>Results of the supervisor\<close>

definition kInvalidWorkerId :: nat where "kInvalidWorkerId = size_max"

datatype startup_error_code =
    SE_Cancelled | SE_InvalidConfiguration | SE_InstanceIdExhausted | SE_WorkerCreateFailed | SE_WorkerThreadStartFailed
  | SE_WorkerInitFailed | SE_WorkerExitedBeforeReady | SE_InternalError

record startup_error =
  se_code :: startup_error_code
  se_worker :: nat
  se_instance :: u64
  se_error_number :: int
  se_create_error :: "worker_init_error option"
  se_runtime_error :: "worker_runtime_error option"

record startup_info =
  si_bound_port :: u16
  si_worker_count :: nat

type_synonym startup_result = "startup_error + startup_info"

datatype activation_error_code = AE_Cancelled | AE_WorkerExitedBeforeActivation | AE_InternalError

record activation_error =
  ae_code :: activation_error_code
  ae_worker :: nat
  ae_instance :: u64
  ae_worker_result :: "worker_run_result option"

type_synonym activation_result = "activation_error + unit"

datatype run_outcome = SupRequestedStop | SupStartupFailure | SupFatalExit

datatype run_error_code = SR_None | SR_AlreadyRunning | SR_UnexpectedWorkerStop | SR_WorkerFatalExit | SR_WorkerJoinFailed | SR_InternalError

record sup_run_result =
  sr_outcome :: run_outcome
  sr_error_code :: run_error_code
  sr_worker :: nat
  sr_instance :: u64
  sr_error_number :: int
  sr_startup_error :: "startup_error option"
  sr_worker_result :: "worker_run_result option"

record health_snapshot =
  hs_available_workers :: nat
  hs_restart_count :: nat
  hs_restart_success_count :: nat
  hs_restart_failure_count :: nat
  hs_last_error :: "worker_failure option"

definition bare_startup_error :: "startup_error_code \<Rightarrow> startup_error" where
  "bare_startup_error code = \<lparr>se_code = code, se_worker = kInvalidWorkerId, se_instance = 0, se_error_number = 0,
     se_create_error = None, se_runtime_error = None\<rparr>"

definition cancelled_startup :: startup_error where
  "cancelled_startup = bare_startup_error SE_Cancelled"

definition bare_activation_error :: "activation_error_code \<Rightarrow> activation_error" where
  "bare_activation_error code = \<lparr>ae_code = code, ae_worker = kInvalidWorkerId, ae_instance = 0, ae_worker_result = None\<rparr>"

definition cancelled_activation :: activation_error where
  "cancelled_activation = bare_activation_error AE_Cancelled"

definition requested_stop_result :: sup_run_result where
  "requested_stop_result = \<lparr>sr_outcome = SupRequestedStop, sr_error_code = SR_None, sr_worker = kInvalidWorkerId, sr_instance = 0,
     sr_error_number = 0, sr_startup_error = None, sr_worker_result = None\<rparr>"

definition startup_failure_result :: "startup_error \<Rightarrow> sup_run_result" where
  "startup_failure_result e = \<lparr>sr_outcome = SupStartupFailure, sr_error_code = SR_None, sr_worker = se_worker e,
     sr_instance = se_instance e, sr_error_number = se_error_number e, sr_startup_error = Some e, sr_worker_result = None\<rparr>"

definition bare_fatal_result :: "run_error_code \<Rightarrow> sup_run_result" where
  "bare_fatal_result code = \<lparr>sr_outcome = SupFatalExit, sr_error_code = code, sr_worker = kInvalidWorkerId, sr_instance = 0,
     sr_error_number = 0, sr_startup_error = None, sr_worker_result = None\<rparr>"

definition creation_failure :: "startup_error \<Rightarrow> worker_failure" where
  "creation_failure e =
     \<lparr>wf_code = (if se_code e = SE_InstanceIdExhausted then FC_InstanceIdExhausted
                 else if se_code e = SE_WorkerThreadStartFailed then FC_ThreadStartFailed else FC_CreateFailed),
      wf_worker = se_worker e, wf_instance = se_instance e, wf_error_number = se_error_number e,
      wf_create_error = se_create_error e, wf_runtime_error = se_runtime_error e, wf_budget_exhausted = False\<rparr>"

definition configured_error_or :: "int \<Rightarrow> int \<Rightarrow> int" where
  "configured_error_or configured fallback = (if configured \<noteq> 0 then configured else fallback)"

section \<open>State\<close>

datatype worker_record_state =
    RecOffline | RecCreating | RecStarting | RecReady | RecRunning | RecStopping | RecExited | RecJoined | RecBackoff

record ready_slot =
  rd_published :: bool
  rd_instance :: u64
  rd_result :: worker_ready_result

record activation_slot =
  ac_published :: bool
  ac_instance :: u64

record completion_slot =
  cp_published :: bool
  cp_instance :: u64
  cp_result :: worker_run_result
  cp_completed_at :: int

definition no_ready :: ready_slot where
  "no_ready = \<lparr>rd_published = False, rd_instance = 0, rd_result = \<lparr>ry_outcome = WorkerInitFails, ry_error = None\<rparr>\<rparr>"

definition no_activation :: activation_slot where
  "no_activation = \<lparr>ac_published = False, ac_instance = 0\<rparr>"

definition no_completion :: completion_slot where
  "no_completion = \<lparr>cp_published = False, cp_instance = 0, cp_result = \<lparr>rr_outcome = WorkerFatalExit, rr_error = None\<rparr>, cp_completed_at = 0\<rparr>"

text \<open>
  The part of a \<open>WorkerLoop\<close> that the supervisor touches: its port, its own stop source, its generation
  event and its statistics.  The snapshot it holds is in \<open>pw_locals\<close>.
\<close>

record worker_instance =
  wi_port :: u16
  wi_stop :: bool
  wi_generation_event :: bool
  wi_stats :: worker_stats

text \<open>
  Where the thread of a worker is in \<open>worker_entry\<close> and \<open>WorkerLoop::run\<close>.
\<close>

datatype worker_pc =
    WorkerEnters
  | WorkerSyncs
  | WorkerReportsReady worker_ready_result
  | WorkerActivationGate
  | WorkerActivationRefresh
  | WorkerActivates
  | WorkerReportsActivated
  | WorkerGateStopped
  | WorkerDataGate
  | WorkerDataRefresh
  | WorkerReleased
  | WorkerServes
  | WorkerEnds worker_run_result
  | WorkerFinished

record worker_thread =
  wt_instance :: u64
  wt_pc :: worker_pc

record worker_record =
  wr_state :: worker_record_state
  wr_instance_id :: u64
  wr_instance :: "worker_instance option"
  wr_thread :: "worker_thread option"
  wr_ready :: ready_slot
  wr_activated :: activation_slot
  wr_completion :: completion_slot
  wr_activation_allowed :: bool
  wr_data_plane_allowed :: bool
  wr_last_result :: "worker_run_result option"
  wr_last_stats :: "worker_stats option"
  wr_recovery_episode :: bool
  wr_recovery_attempts :: nat
  wr_next_backoff :: int
  wr_restart_at :: int
  wr_stable_at :: int
  wr_observer_instance :: u64

text \<open>The faults that tests inject; a worker that does not exist is \<open>None\<close>.\<close>

record fault_hooks =
  fh_failure_from_instance :: u64
  fh_create_failure_worker :: "nat option"
  fh_create_failure_step :: worker_init_step
  fh_create_failure_error :: int
  fh_thread_failure_worker :: "nat option"
  fh_thread_failure_error :: int
  fh_runtime_init_failure_worker :: "nat option"
  fh_runtime_init_failure_step :: worker_runtime_step
  fh_runtime_init_failure_error :: int

record supervisor_config =
  cfg_requested_port :: u16
  cfg_cache_shards :: "nat option"
  cfg_recovery :: worker_recovery_config
  cfg_hooks :: fault_hooks
  cfg_fatal_reporter :: bool

text \<open>
  The stop source of instance \<open>n\<close> of worker \<open>k\<close> is \<open>(k, n)\<close>, and \<open>sv_stopped\<close> holds the sources that were
  asked to stop.  \<open>sv_fatal_reports\<close> records the calls of the fatal reporter.
\<close>

record supervisor =
  sv_config :: supervisor_config
  sv_records :: "worker_record list"
  sv_stopped :: "(nat \<times> u64) set"
  sv_service_stop :: bool
  sv_startup :: "startup_result option"
  sv_activation :: "activation_result option"
  sv_activation_requested :: bool
  sv_data_plane_released :: bool
  sv_stop_requested :: bool
  sv_run_started :: bool
  sv_run_active :: bool
  sv_abrupt_exit :: bool
  sv_abrupt_after_publication :: bool
  sv_emergency_join_failure :: bool
  sv_unexpected_stop :: "(nat \<times> u64) option"
  sv_join_failure :: "nat option"
  sv_bound_port :: u16
  sv_health :: health_snapshot
  sv_published_generation :: u64
  sv_publication_pending :: bool
  sv_fatal_reports :: "worker_failure list"

definition new_record :: worker_record where
  "new_record = \<lparr>wr_state = RecOffline, wr_instance_id = 0, wr_instance = None, wr_thread = None, wr_ready = no_ready,
     wr_activated = no_activation, wr_completion = no_completion, wr_activation_allowed = False, wr_data_plane_allowed = False,
     wr_last_result = None, wr_last_stats = None, wr_recovery_episode = False, wr_recovery_attempts = 0, wr_next_backoff = 0,
     wr_restart_at = 0, wr_stable_at = 0, wr_observer_instance = 0\<rparr>"

definition no_health :: health_snapshot where
  "no_health = \<lparr>hs_available_workers = 0, hs_restart_count = 0, hs_restart_success_count = 0, hs_restart_failure_count = 0,
     hs_last_error = None\<rparr>"

text \<open>The constructor also makes the supervisor the sink of the publication.\<close>

definition new_supervisor :: "supervisor_config \<Rightarrow> nat \<Rightarrow> filter_publication \<Rightarrow> supervisor \<times> filter_publication" where
  "new_supervisor config worker_count p =
     (\<lparr>sv_config = config, sv_records = replicate worker_count new_record, sv_stopped = {}, sv_service_stop = False,
       sv_startup = None, sv_activation = None, sv_activation_requested = False, sv_data_plane_released = False,
       sv_stop_requested = False, sv_run_started = False, sv_run_active = False, sv_abrupt_exit = False,
       sv_abrupt_after_publication = False, sv_emergency_join_failure = False, sv_unexpected_stop = None, sv_join_failure = None,
       sv_bound_port = 0, sv_health = no_health, sv_published_generation = fp_generation p, sv_publication_pending = False,
       sv_fatal_reports = []\<rparr>,
      set_publication_sink True p)"

abbreviation rec_at :: "supervisor \<Rightarrow> nat \<Rightarrow> worker_record" where
  "rec_at s k \<equiv> sv_records s ! k"

definition on_record :: "nat \<Rightarrow> (worker_record \<Rightarrow> worker_record) \<Rightarrow> supervisor \<Rightarrow> supervisor" where
  "on_record k f s = s\<lparr>sv_records := (sv_records s)[k := f (rec_at s k)]\<rparr>"

definition on_health :: "(health_snapshot \<Rightarrow> health_snapshot) \<Rightarrow> supervisor \<Rightarrow> supervisor" where
  "on_health f s = s\<lparr>sv_health := f (sv_health s)\<rparr>"

definition stop_requested_locked :: "supervisor \<Rightarrow> bool" where
  "stop_requested_locked s \<longleftrightarrow> sv_stop_requested s \<or> sv_service_stop s"

definition stop_source :: "nat \<times> u64 \<Rightarrow> supervisor \<Rightarrow> supervisor" where
  "stop_source source s = s\<lparr>sv_stopped := insert source (sv_stopped s)\<rparr>"

definition source_of :: "supervisor \<Rightarrow> nat \<Rightarrow> nat \<times> u64" where
  "source_of s k = (k, wr_instance_id (rec_at s k))"

definition instance_stopped :: "supervisor \<Rightarrow> nat \<Rightarrow> bool" where
  "instance_stopped s k \<longleftrightarrow> source_of s k \<in> sv_stopped s"

definition exact_completion :: "worker_record \<Rightarrow> bool" where
  "exact_completion r \<longleftrightarrow> cp_published (wr_completion r) \<and> cp_instance (wr_completion r) = wr_instance_id r"

section \<open>What a worker reports and waits for\<close>

definition injects_init_failure :: "supervisor \<Rightarrow> nat \<Rightarrow> worker_ready_result \<Rightarrow> bool" where
  "injects_init_failure s k result \<longleftrightarrow> ry_outcome result = WorkerIsReady
     \<and> wr_instance_id (rec_at s k) \<ge> fh_failure_from_instance (cfg_hooks (sv_config s))
     \<and> fh_runtime_init_failure_worker (cfg_hooks (sv_config s)) = Some k"

definition report_worker_ready :: "nat \<Rightarrow> u64 \<Rightarrow> worker_ready_result \<Rightarrow> supervisor \<Rightarrow> supervisor" where
  "report_worker_ready k inst result s =
     (let r = rec_at s k; hooks = cfg_hooks (sv_config s) in
      if inst \<noteq> wr_instance_id r \<or> rd_published (wr_ready r) then s
      else let inject = injects_init_failure s k result;
               result' = (if inject
                 then init_error (fh_runtime_init_failure_step hooks) (configured_error_or (fh_runtime_init_failure_error hooks) errno_EIO)
                 else result);
               s1 = on_record k (\<lambda>r. r\<lparr>wr_ready := \<lparr>rd_published = True, rd_instance = inst, rd_result = result'\<rparr>\<rparr>) s
           in if inject then stop_source (source_of s1 k) s1 else s1)"

text \<open>
  The gates wait until their predicate holds or the token is stopped; \<open>None\<close> is a wait that has not ended.
\<close>

definition await_worker_activation ::
  "nat \<Rightarrow> u64 \<Rightarrow> bool \<Rightarrow> filter_publication \<Rightarrow> epochs \<Rightarrow> supervisor \<Rightarrow> gate_action option" where
  "await_worker_activation k inst token p eps s =
     (let r = rec_at s k;
          ready = (inst \<noteq> wr_instance_id r \<or> wr_activation_allowed r \<or> stop_requested_locked s \<or> instance_stopped s k
                   \<or> worker_needs_refresh inst k p eps)
      in if \<not> ready \<and> \<not> token then None
         else if \<not> ready \<or> inst \<noteq> wr_instance_id r \<or> stop_requested_locked s \<or> instance_stopped s k then Some GateStop
         else if worker_needs_refresh inst k p eps then Some GateRefreshFilter
         else Some (if wr_activation_allowed r then GateProceed else GateStop))"

definition report_worker_activated :: "nat \<Rightarrow> u64 \<Rightarrow> supervisor \<Rightarrow> supervisor" where
  "report_worker_activated k inst s =
     (if inst \<noteq> wr_instance_id (rec_at s k) \<or> ac_published (wr_activated (rec_at s k)) then s
      else on_record k (\<lambda>r. r\<lparr>wr_activated := \<lparr>ac_published = True, ac_instance = inst\<rparr>\<rparr>) s)"

definition await_worker_data_plane ::
  "nat \<Rightarrow> u64 \<Rightarrow> bool \<Rightarrow> filter_publication \<Rightarrow> epochs \<Rightarrow> supervisor \<Rightarrow> gate_action option" where
  "await_worker_data_plane k inst token p eps s =
     (let r = rec_at s k;
          released = (inst \<noteq> wr_instance_id r \<or> wr_data_plane_allowed r \<or> stop_requested_locked s \<or> sv_abrupt_exit s
                      \<or> instance_stopped s k \<or> worker_needs_refresh inst k p eps)
      in if \<not> released \<and> \<not> token then None
         else if \<not> released \<or> inst \<noteq> wr_instance_id r \<or> stop_requested_locked s \<or> sv_abrupt_exit s \<or> instance_stopped s k
         then Some GateStop
         else if worker_needs_refresh inst k p eps then Some GateRefreshFilter
         else Some (if wr_data_plane_allowed r then GateProceed else GateStop))"

definition report_worker_completion :: "int \<Rightarrow> nat \<Rightarrow> u64 \<Rightarrow> worker_run_result \<Rightarrow> supervisor \<Rightarrow> supervisor" where
  "report_worker_completion now k inst result s =
     (if inst \<noteq> wr_instance_id (rec_at s k) \<or> cp_published (wr_completion (rec_at s k)) then s
      else on_record k (\<lambda>r. r\<lparr>wr_completion := \<lparr>cp_published = True, cp_instance = inst, cp_result = result, cp_completed_at = now\<rparr>\<rparr>) s)"

section \<open>What the service asks of the supervisor\<close>

definition wait_for_startup :: "bool \<Rightarrow> supervisor \<Rightarrow> startup_result option" where
  "wait_for_startup stop s =
     (case sv_startup s of Some r \<Rightarrow> Some r | None \<Rightarrow> if stop then Some (Inl cancelled_startup) else None)"

definition startup_succeeded :: "supervisor \<Rightarrow> bool" where
  "startup_succeeded s \<longleftrightarrow> (case sv_startup s of Some (Inr info) \<Rightarrow> True | _ \<Rightarrow> False)"

definition request_activation :: "supervisor \<Rightarrow> bool \<times> supervisor" where
  "request_activation s =
     (if stop_requested_locked s \<or> sv_activation_requested s \<or> sv_activation s \<noteq> None \<or> \<not> sv_run_active s
         \<or> \<not> startup_succeeded s then (False, s)
      else (True, s\<lparr>sv_activation_requested := True,
              sv_records := map (\<lambda>r. r\<lparr>wr_activation_allowed := True\<rparr>) (sv_records s)\<rparr>))"

definition wait_for_activation :: "bool \<Rightarrow> supervisor \<Rightarrow> activation_result option" where
  "wait_for_activation stop s =
     (case sv_activation s of Some r \<Rightarrow> Some r | None \<Rightarrow> if stop then Some (Inl cancelled_activation) else None)"

fun first_not_running :: "nat \<Rightarrow> worker_record list \<Rightarrow> activation_error option" where
  "first_not_running k [] = None"
| "first_not_running k (r # rs) =
     (if wr_state r \<noteq> RecRunning \<or> exact_completion r
      then Some \<lparr>ae_code = AE_WorkerExitedBeforeActivation, ae_worker = k, ae_instance = wr_instance_id r,
             ae_worker_result = (if exact_completion r then Some (cp_result (wr_completion r)) else wr_last_result r)\<rparr>
      else first_not_running (k + 1) rs)"

definition release_data_plane :: "supervisor \<Rightarrow> activation_result \<times> supervisor" where
  "release_data_plane s =
     (if stop_requested_locked s then (Inl cancelled_activation, s)
      else if sv_abrupt_exit s then (Inl (bare_activation_error AE_InternalError), s)
      else case first_not_running 0 (sv_records s) of
        Some e \<Rightarrow> (Inl e, s)
      | None \<Rightarrow>
          if sv_data_plane_released s \<or> \<not> sv_run_active s \<or> sv_activation s \<noteq> Some (Inr ())
          then (Inl (bare_activation_error AE_InternalError), s)
          else (Inr (), s\<lparr>sv_data_plane_released := True,
                  sv_bound_port := (case sv_startup s of Some (Inr info) \<Rightarrow> si_bound_port info | _ \<Rightarrow> cfg_requested_port (sv_config s)),
                  sv_records := map (\<lambda>r. r\<lparr>wr_data_plane_allowed := True\<rparr>) (sv_records s)\<rparr>))"

text \<open>\<open>request_stop\<close> sets the flag and then asks the sources one by one, \<open>request_all_worker_stops\<close>.\<close>

definition request_stop :: "supervisor \<Rightarrow> supervisor" where
  "request_stop s = s\<lparr>sv_stop_requested := True\<rparr>"

definition snapshot_published :: "u64 \<Rightarrow> supervisor \<Rightarrow> supervisor" where
  "snapshot_published g s =
     (if g \<le> sv_published_generation s then s
      else s\<lparr>sv_published_generation := g, sv_publication_pending := True,
             sv_abrupt_exit := sv_abrupt_exit s \<or> sv_abrupt_after_publication s, sv_abrupt_after_publication := False\<rparr>)"

definition publish_startup :: "startup_result \<Rightarrow> supervisor \<Rightarrow> supervisor" where
  "publish_startup r s = (if sv_startup s \<noteq> None then s else s\<lparr>sv_startup := Some r\<rparr>)"

definition publish_activation :: "activation_result \<Rightarrow> supervisor \<Rightarrow> supervisor" where
  "publish_activation r s = (if sv_activation s \<noteq> None then s else s\<lparr>sv_activation := Some r\<rparr>)"

definition finish_supervisor_run :: "supervisor \<Rightarrow> supervisor" where
  "finish_supervisor_run s = s\<lparr>sv_run_active := False\<rparr>"

section \<open>Faults that tests inject\<close>

definition inject_abrupt_exit_for_testing :: "supervisor \<Rightarrow> supervisor" where
  "inject_abrupt_exit_for_testing s = s\<lparr>sv_abrupt_exit := True\<rparr>"

definition inject_abrupt_exit_after_next_publication_for_testing :: "supervisor \<Rightarrow> supervisor" where
  "inject_abrupt_exit_after_next_publication_for_testing s = s\<lparr>sv_abrupt_after_publication := True\<rparr>"

definition inject_worker_unexpected_stop_for_testing :: "nat \<Rightarrow> supervisor \<Rightarrow> bool \<times> supervisor" where
  "inject_worker_unexpected_stop_for_testing k s =
     (if \<not> sv_run_active s \<or> k \<ge> length (sv_records s) \<or> sv_unexpected_stop s \<noteq> None \<or> \<not> sv_data_plane_released s then (False, s)
      else if wr_state (rec_at s k) \<noteq> RecRunning \<or> cp_published (wr_completion (rec_at s k)) then (False, s)
      else (True, s\<lparr>sv_unexpected_stop := Some (k, wr_instance_id (rec_at s k))\<rparr>))"

definition inject_worker_precommit_failure_for_testing :: "nat \<Rightarrow> supervisor \<Rightarrow> bool \<times> supervisor" where
  "inject_worker_precommit_failure_for_testing k s =
     (if \<not> sv_run_active s \<or> k \<ge> length (sv_records s) \<or> sv_data_plane_released s \<or> sv_activation s \<noteq> Some (Inr ()) then (False, s)
      else if wr_state (rec_at s k) \<noteq> RecRunning \<or> cp_published (wr_completion (rec_at s k)) then (False, s)
      else (True, on_record k (\<lambda>r. r\<lparr>wr_completion := (wr_completion r)\<lparr>cp_published := True, cp_instance := wr_instance_id r,
                    cp_result := fatal_exit RS_AwaitActivation errno_EIO\<rparr>\<rparr>) s))"

definition inject_emergency_join_failure_once_for_testing :: "supervisor \<Rightarrow> supervisor" where
  "inject_emergency_join_failure_once_for_testing s = s\<lparr>sv_emergency_join_failure := True\<rparr>"

section \<open>Creating a worker\<close>

text \<open>
  \<open>create_worker\<close> and \<open>start_worker_thread\<close>, cut where they release the mutex or call another component: each
  piece ends the call with an error, lets an exception escape, or continues.
\<close>

datatype create_step = CreateThrows | CreateReturns startup_error | CreateContinues

definition worker_startup_error ::
  "nat \<Rightarrow> supervisor \<Rightarrow> startup_error_code \<Rightarrow> int \<Rightarrow> worker_init_error option \<Rightarrow> worker_runtime_error option \<Rightarrow> startup_error" where
  "worker_startup_error k s code error_number create_error runtime_error =
     \<lparr>se_code = code, se_worker = k, se_instance = wr_instance_id (rec_at s k), se_error_number = error_number,
      se_create_error = create_error, se_runtime_error = runtime_error\<rparr>"

definition count_attempt :: "nat \<Rightarrow> supervisor \<Rightarrow> supervisor" where
  "count_attempt k s =
     (if wr_recovery_episode (rec_at s k)
      then on_health (\<lambda>h. h\<lparr>hs_restart_count := hs_restart_count h + 1\<rparr>)
             (on_record k (\<lambda>r. r\<lparr>wr_recovery_attempts := wr_recovery_attempts r + 1\<rparr>) s)
      else s)"

definition create_worker_begin :: "nat \<Rightarrow> supervisor \<Rightarrow> create_step \<times> supervisor" where
  "create_worker_begin k s =
     (if sv_abrupt_exit s then (CreateThrows, s)
      else if stop_requested_locked s then (CreateReturns cancelled_startup, s)
      else let s1 = count_attempt k s; r = rec_at s1 k in
        if wr_instance_id r = - 1 then (CreateReturns (worker_startup_error k s1 SE_InstanceIdExhausted 0 None None), s1)
        else if wr_instance r \<noteq> None \<or> wr_thread r \<noteq> None
        then (CreateReturns (worker_startup_error k s1 SE_InternalError 0 None None), s1)
        else (CreateContinues, on_record k (\<lambda>r. r\<lparr>wr_instance_id := wr_instance_id r + 1, wr_state := RecCreating,
                wr_ready := no_ready, wr_activated := no_activation, wr_completion := no_completion,
                wr_activation_allowed := False, wr_data_plane_allowed := False\<rparr>) s1))"

definition create_worker_register ::
  "nat \<Rightarrow> supervisor \<Rightarrow> filter_publication \<Rightarrow> epochs \<Rightarrow> create_step \<times> filter_snapshot option \<times> filter_publication \<times> epochs" where
  "create_worker_register k s p eps =
     (case register_worker k (wr_instance_id (rec_at s k)) k p eps of
        (None, p', eps') \<Rightarrow> (CreateReturns (worker_startup_error k s SE_InternalError 0 None None), None, p', eps')
      | (Some (snapshot, g), p', eps') \<Rightarrow> (CreateContinues, Some snapshot, p', eps'))"

text \<open>What \<open>WorkerLoop::create\<close> did: the bound port, the system call that failed, or the errno of an exception.\<close>

datatype loop_creation = LoopCreated u16 | LoopFails worker_init_error | LoopThrows int

definition create_worker_build :: "nat \<Rightarrow> loop_creation \<Rightarrow> supervisor \<Rightarrow> startup_error + u16" where
  "create_worker_build k created s =
     (let hooks = cfg_hooks (sv_config s) in
      if wr_instance_id (rec_at s k) \<ge> fh_failure_from_instance hooks \<and> fh_create_failure_worker hooks = Some k
      then let n = configured_error_or (fh_create_failure_error hooks) errno_EIO in
        Inl (worker_startup_error k s SE_WorkerCreateFailed n (Some \<lparr>ie_step = fh_create_failure_step hooks, ie_error_number = n\<rparr>) None)
      else case created of
        LoopFails e \<Rightarrow> Inl (worker_startup_error k s SE_WorkerCreateFailed (ie_error_number e) (Some e) None)
      | LoopThrows n \<Rightarrow> Inl (worker_startup_error k s SE_WorkerCreateFailed n None None)
      | LoopCreated port \<Rightarrow> Inr port)"

definition create_worker_install :: "nat \<Rightarrow> u16 \<Rightarrow> supervisor \<Rightarrow> supervisor" where
  "create_worker_install k port s =
     on_record k (\<lambda>r. r\<lparr>wr_instance := Some \<lparr>wi_port = port, wi_stop = False, wi_generation_event = False, wi_stats = no_worker_stats\<rparr>,
       wr_state := RecStarting\<rparr>) s"

definition start_worker_thread_begin :: "nat \<Rightarrow> supervisor \<Rightarrow> create_step \<times> supervisor" where
  "start_worker_thread_begin k s =
     (if sv_abrupt_exit s then (CreateThrows, s)
      else if stop_requested_locked s then (CreateReturns cancelled_startup, s)
      else let s1 = on_record k (\<lambda>r. r\<lparr>wr_observer_instance := wr_instance_id r\<rparr>) s; hooks = cfg_hooks (sv_config s) in
        if wr_instance_id (rec_at s k) \<ge> fh_failure_from_instance hooks \<and> fh_thread_failure_worker hooks = Some k
        then (CreateReturns (worker_startup_error k s1 SE_WorkerThreadStartFailed
                (configured_error_or (fh_thread_failure_error hooks) errno_EAGAIN) None None), s1)
        else (CreateContinues, s1))"

text \<open>The argument is the errno of the exception with which the thread could not be started.\<close>

definition start_worker_thread_spawn :: "nat \<Rightarrow> int option \<Rightarrow> supervisor \<Rightarrow> create_step \<times> supervisor" where
  "start_worker_thread_spawn k refused s =
     (case refused of
        Some n \<Rightarrow> (CreateReturns (worker_startup_error k s SE_WorkerThreadStartFailed n None None), s)
      | None \<Rightarrow> (CreateContinues,
          on_record k (\<lambda>r. r\<lparr>wr_thread := Some \<lparr>wt_instance = wr_instance_id r, wt_pc = WorkerEnters\<rparr>\<rparr>) s))"

section \<open>Waiting for the workers\<close>

text \<open>One record in a round of \<open>await_worker_readiness\<close>, the mutex being held.\<close>

definition await_ready_record ::
  "nat \<Rightarrow> supervisor \<Rightarrow> filter_publication \<Rightarrow> epochs \<Rightarrow> startup_error option \<times> supervisor \<times> epochs" where
  "await_ready_record k s p eps =
     (let r = rec_at s k in
      if wr_state r = RecReady then (None, s, eps)
      else if rd_published (wr_ready r) \<and> rd_instance (wr_ready r) = wr_instance_id r
      then let result = rd_result (wr_ready r) in
        if ry_outcome result \<noteq> WorkerIsReady
        then (Some (worker_startup_error k s SE_WorkerInitFailed
                (case ry_error result of Some e \<Rightarrow> re_error_number e | None \<Rightarrow> 0) None (ry_error result)), s, eps)
        else (case mark_worker_registered k (wr_instance_id r) k p eps of
                (False, eps') \<Rightarrow> (None, s, eps')
              | (True, eps') \<Rightarrow> (None, on_record k (\<lambda>r. r\<lparr>wr_state := RecReady\<rparr>) s, eps'))
      else if exact_completion r
      then let result = cp_result (wr_completion r) in
        (Some (worker_startup_error k s SE_WorkerExitedBeforeReady
           (case rr_error result of Some e \<Rightarrow> re_error_number e | None \<Rightarrow> 0) None (rr_error result)),
         on_record k (\<lambda>r. r\<lparr>wr_state := RecExited, wr_last_result := Some result\<rparr>) s, eps)
      else (None, s, eps))"

definition all_in_state :: "worker_record_state \<Rightarrow> supervisor \<Rightarrow> bool" where
  "all_in_state st s \<longleftrightarrow> list_all (\<lambda>r. wr_state r = st) (sv_records s)"

datatype activation_round = ActivationThrows | ActivationFails activation_error | ActivationWaits | ActivationDone

fun first_completed :: "nat \<Rightarrow> worker_record list \<Rightarrow> (nat \<times> worker_record) option" where
  "first_completed k [] = None"
| "first_completed k (r # rs) = (if exact_completion r then Some (k, r) else first_completed (k + 1) rs)"

definition activate_record :: "worker_record \<Rightarrow> worker_record" where
  "activate_record r =
     (if wr_state r = RecRunning then r
      else if ac_published (wr_activated r) \<and> ac_instance (wr_activated r) = wr_instance_id r then r\<lparr>wr_state := RecRunning\<rparr> else r)"

text \<open>A round of \<open>await_activation_command_and_workers\<close>.\<close>

definition await_activation_round :: "supervisor \<Rightarrow> activation_round \<times> supervisor" where
  "await_activation_round s =
     (if sv_abrupt_exit s then (ActivationThrows, s)
      else if stop_requested_locked s then (ActivationFails cancelled_activation, s)
      else case first_completed 0 (sv_records s) of
        Some (k, r) \<Rightarrow>
          (ActivationFails \<lparr>ae_code = AE_WorkerExitedBeforeActivation, ae_worker = k, ae_instance = wr_instance_id r,
             ae_worker_result = Some (cp_result (wr_completion r))\<rparr>,
           on_record k (\<lambda>r. r\<lparr>wr_state := RecExited, wr_last_result := Some (cp_result (wr_completion r))\<rparr>) s)
      | None \<Rightarrow>
          if \<not> sv_activation_requested s then (ActivationWaits, s)
          else let s1 = s\<lparr>sv_records := map activate_record (sv_records s)\<rparr> in
            (if all_in_state RecRunning s1 then ActivationDone else ActivationWaits, s1))"

section \<open>Monitoring\<close>

text \<open>
  The wake-up of the instances after a publication; the function gives the errno of a write that failed.
\<close>

fun request_filter_refreshes ::
  "(nat \<Rightarrow> int option) \<Rightarrow> nat \<Rightarrow> worker_record list \<Rightarrow> (nat \<times> worker_record \<times> int) option \<times> worker_record list" where
  "request_filter_refreshes failed k [] = (None, [])"
| "request_filter_refreshes failed k (r # rs) =
     (case wr_instance r of
        None \<Rightarrow> (case request_filter_refreshes failed (k + 1) rs of (e, rs') \<Rightarrow> (e, r # rs'))
      | Some i \<Rightarrow>
          (case failed k of
             Some n \<Rightarrow> (Some (k, r, n), r # rs)
           | None \<Rightarrow> (case request_filter_refreshes failed (k + 1) rs of
                        (e, rs') \<Rightarrow> (e, r\<lparr>wr_instance := Some (i\<lparr>wi_generation_event := True\<rparr>)\<rparr> # rs'))))"

datatype monitor_begin = MonitorThrows | MonitorReturns sup_run_result | MonitorStops "nat \<times> u64" | MonitorScans

text \<open>The beginning of a round of \<open>monitor_active_workers\<close>, up to the loop over the records.\<close>

definition monitor_round_begin :: "(nat \<Rightarrow> int option) \<Rightarrow> supervisor \<Rightarrow> monitor_begin \<times> supervisor" where
  "monitor_round_begin failed s =
     (if sv_abrupt_exit s then (MonitorThrows, s)
      else if stop_requested_locked s then (MonitorReturns requested_stop_result, s)
      else let (error, s1) =
               (if sv_publication_pending s
                then case request_filter_refreshes failed 0 (sv_records s) of
                       (e, rs) \<Rightarrow> (e, s\<lparr>sv_publication_pending := False, sv_records := rs\<rparr>)
                else (None, s))
           in case error of
             Some (k, r, n) \<Rightarrow>
               (MonitorReturns ((bare_fatal_result SR_InternalError)\<lparr>sr_worker := k, sr_instance := wr_instance_id r, sr_error_number := n\<rparr>), s1)
           | None \<Rightarrow>
               (case sv_unexpected_stop s1 of
                  Some target \<Rightarrow> (MonitorStops target, s1\<lparr>sv_unexpected_stop := None\<rparr>)
                | None \<Rightarrow> (MonitorScans, s1)))"

text \<open>The stop of the selected instance, if it is still the current one.\<close>

definition stop_instance :: "nat \<times> u64 \<Rightarrow> supervisor \<Rightarrow> supervisor" where
  "stop_instance target s =
     (if wr_instance_id (rec_at s (fst target)) = snd target
      then on_record (fst target) (\<lambda>r. r\<lparr>wr_instance := map_option (\<lambda>i. i\<lparr>wi_stop := True\<rparr>) (wr_instance r)\<rparr>) s
      else s)"

definition live_state :: "worker_record_state \<Rightarrow> bool" where
  "live_state st \<longleftrightarrow> st = RecStarting \<or> st = RecReady \<or> st = RecRunning"

definition error_number_of :: "worker_runtime_error option \<Rightarrow> int" where
  "error_number_of e = (case e of Some e \<Rightarrow> re_error_number e | None \<Rightarrow> 0)"

definition monitor_failure :: "nat \<Rightarrow> worker_record \<Rightarrow> worker_failure option" where
  "monitor_failure k r =
     (let completed = (live_state (wr_state r) \<and> exact_completion r);
          init_failed = (live_state (wr_state r) \<and> rd_published (wr_ready r) \<and> rd_instance (wr_ready r) = wr_instance_id r
                         \<and> ry_outcome (rd_result (wr_ready r)) \<noteq> WorkerIsReady);
          failure = (\<lambda>code e. Some \<lparr>wf_code = code, wf_worker = k, wf_instance = wr_instance_id r, wf_error_number = error_number_of e,
                      wf_create_error = None, wf_runtime_error = e, wf_budget_exhausted = False\<rparr>)
      in if init_failed then failure FC_InitFailed (ry_error (rd_result (wr_ready r)))
         else if completed then
           (if rr_outcome (cp_result (wr_completion r)) = WorkerRequestedStop
            then failure FC_UnexpectedStop (Some \<lparr>re_step = RS_UnexpectedStop, re_error_number = 0\<rparr>)
            else failure FC_FatalExit (rr_error (cp_result (wr_completion r))))
         else None)"

definition awaits_registration :: "worker_record \<Rightarrow> bool" where
  "awaits_registration r \<longleftrightarrow> wr_state r = RecStarting \<and> rd_published (wr_ready r) \<and> rd_instance (wr_ready r) = wr_instance_id r"

datatype monitor_visit =
    VisitReturns sup_run_result
  | VisitBreaks
  | VisitNext
  | VisitContinues

text \<open>A replacement that is ready, after the test point in which the mutex was released.\<close>

definition monitor_ready ::
  "nat \<Rightarrow> supervisor \<Rightarrow> filter_publication \<Rightarrow> epochs \<Rightarrow> monitor_visit \<times> supervisor \<times> epochs" where
  "monitor_ready k s p eps =
     (if stop_requested_locked s then (VisitReturns requested_stop_result, s, eps)
      else if cp_published (wr_completion (rec_at s k)) then (VisitBreaks, s, eps)
      else case mark_worker_registered k (wr_instance_id (rec_at s k)) k p eps of
        (False, eps') \<Rightarrow> (VisitNext, s, eps')
      | (True, eps') \<Rightarrow> (VisitContinues, on_record k (\<lambda>r. r\<lparr>wr_state := RecReady, wr_activation_allowed := True\<rparr>) s, eps'))"

definition awaits_release :: "worker_record \<Rightarrow> bool" where
  "awaits_release r \<longleftrightarrow> wr_state r = RecReady \<and> ac_published (wr_activated r) \<and> ac_instance (wr_activated r) = wr_instance_id r"

definition monitor_activated :: "int \<Rightarrow> nat \<Rightarrow> supervisor \<Rightarrow> monitor_visit \<times> supervisor" where
  "monitor_activated now k s =
     (if stop_requested_locked s then (VisitReturns requested_stop_result, s)
      else if cp_published (wr_completion (rec_at s k)) then (VisitBreaks, s)
      else (VisitContinues,
            on_health (\<lambda>h. h\<lparr>hs_restart_success_count := hs_restart_success_count h + 1\<rparr>)
              (on_record k (\<lambda>r. r\<lparr>wr_state := RecRunning, wr_data_plane_allowed := True,
                 wr_stable_at := deadline_after now (rc_stability_window (cfg_recovery (sv_config s)))\<rparr>) s)))"

datatype rest_step = RestBreaks | RestNext int | RestRestarts

text \<open>The end of a visit: stability, and the restart of a record whose backoff is over.\<close>

definition monitor_rest :: "int \<Rightarrow> int \<Rightarrow> nat \<Rightarrow> supervisor \<Rightarrow> rest_step \<times> supervisor" where
  "monitor_rest now deadline k s =
     (let r = rec_at s k in
      if wr_state r = RecRunning \<and> cp_published (wr_completion r) then (RestBreaks, s)
      else if wr_state r = RecRunning \<and> wr_recovery_episode r
      then (if now \<ge> wr_stable_at r
            then (RestNext deadline, on_record k (\<lambda>r. r\<lparr>wr_recovery_episode := False, wr_recovery_attempts := 0,
                    wr_next_backoff := rc_initial_backoff (cfg_recovery (sv_config s))\<rparr>) s)
            else (RestNext (min deadline (wr_stable_at r)), s))
      else if wr_state r \<noteq> RecBackoff then (RestNext deadline, s)
      else if now < wr_restart_at r then (RestNext (min deadline (wr_restart_at r)), s)
      else (RestRestarts, s))"

section \<open>Failures\<close>

definition publish_health :: "supervisor \<Rightarrow> supervisor" where
  "publish_health s = on_health (\<lambda>h. h\<lparr>hs_available_workers :=
     length (filter (\<lambda>r. wr_state r = RecRunning \<and> wr_data_plane_allowed r \<and> \<not> exact_completion r) (sv_records s))\<rparr>) s"

definition handle_worker_failure_begin :: "nat \<Rightarrow> worker_failure \<Rightarrow> supervisor \<Rightarrow> sup_run_result option \<times> supervisor" where
  "handle_worker_failure_begin k failure s =
     (if stop_requested_locked s then (Some requested_stop_result, s)
      else let s1 = (if wr_instance_id (rec_at s k) > 1
                     then on_health (\<lambda>h. h\<lparr>hs_restart_failure_count := hs_restart_failure_count h + 1\<rparr>) s else s)
           in (None, on_health (\<lambda>h. h\<lparr>hs_last_error := Some failure\<rparr>)
                (on_record k (\<lambda>r0.
                   let r1 = (if wr_state r0 = RecRunning \<and> wr_recovery_episode r0 \<and> cp_completed_at (wr_completion r0) \<ge> wr_stable_at r0
                             then r0\<lparr>wr_recovery_episode := False, wr_recovery_attempts := 0\<rparr> else r0);
                       r2 = (if \<not> wr_recovery_episode r1
                             then r1\<lparr>wr_recovery_episode := sv_data_plane_released s,
                                    wr_next_backoff := rc_initial_backoff (cfg_recovery (sv_config s))\<rparr> else r1)
                   in r2\<lparr>wr_state := (if cp_published (wr_completion r2) then RecExited else RecStopping)\<rparr>) s1)))"

datatype handle_step = HandleReturns sup_run_result | HandleRecovers | HandleFails worker_failure

text \<open>After the worker was joined.\<close>

definition handle_worker_failure_joined :: "int \<Rightarrow> nat \<Rightarrow> worker_failure \<Rightarrow> supervisor \<Rightarrow> handle_step \<times> supervisor" where
  "handle_worker_failure_joined now k failure s =
     (let s1 = (if wf_code failure = FC_UnexpectedStop \<or> wf_code failure = FC_FatalExit \<or> wf_code failure = FC_InitFailed
                then on_record k (\<lambda>r. r\<lparr>wr_last_result := Some \<lparr>rr_outcome = WorkerFatalExit, rr_error = wf_runtime_error failure\<rparr>\<rparr>) s
                else s);
          recovery = cfg_recovery (sv_config s); r = rec_at s1 k
      in if stop_requested_locked s then (HandleReturns requested_stop_result, s1)
         else if sv_data_plane_released s \<and> wr_recovery_episode r \<and> rc_policy recovery = Restart
                 \<and> wf_code failure \<noteq> FC_InstanceIdExhausted
         then if wr_recovery_attempts r < rc_max_attempts recovery
              then (HandleRecovers, on_record k (\<lambda>r. r\<lparr>wr_state := RecBackoff, wr_restart_at := deadline_after now (wr_next_backoff r),
                      wr_next_backoff := doubled_backoff (wr_next_backoff r) (rc_max_backoff recovery)\<rparr>) s1)
              else (HandleFails (failure\<lparr>wf_budget_exhausted := True\<rparr>), s1)
         else (HandleFails failure, s1))"

definition fail_worker_service_begin :: "worker_failure \<Rightarrow> supervisor \<Rightarrow> bool \<times> supervisor" where
  "fail_worker_service_begin failure s =
     (sv_data_plane_released s \<and> \<not> stop_requested_locked s, on_health (\<lambda>h. h\<lparr>hs_last_error := Some failure\<rparr>) s)"

definition fail_worker_service_report :: "bool \<Rightarrow> worker_failure \<Rightarrow> supervisor \<Rightarrow> supervisor" where
  "fail_worker_service_report report failure s =
     (if report \<and> cfg_fatal_reporter (sv_config s) then s\<lparr>sv_fatal_reports := sv_fatal_reports s @ [failure]\<rparr> else s)"

definition failed_service_result :: "worker_failure \<Rightarrow> sup_run_result" where
  "failed_service_result failure =
     \<lparr>sr_outcome = SupFatalExit,
      sr_error_code = (if wf_code failure = FC_JoinFailed then SR_WorkerJoinFailed
                       else if wf_code failure = FC_UnexpectedStop then SR_UnexpectedWorkerStop else SR_WorkerFatalExit),
      sr_worker = wf_worker failure, sr_instance = wf_instance failure, sr_error_number = wf_error_number failure,
      sr_startup_error = None, sr_worker_result = Some \<lparr>rr_outcome = WorkerFatalExit, rr_error = wf_runtime_error failure\<rparr>\<rparr>"

section \<open>Joining a worker\<close>

text \<open>
  \<open>join_and_reset\<close>: the request to stop, after which it waits for the thread; the bookkeeping when the
  thread is gone; the destruction of the instance; and, after the epoch was quiesced, the end.
\<close>

definition join_begin :: "nat \<Rightarrow> supervisor \<Rightarrow> bool \<times> supervisor" where
  "join_begin k s =
     (let s1 = stop_source (source_of s k) s in
      if sv_join_failure s1 = Some k then (False, s1\<lparr>sv_join_failure := None\<rparr>)
      else (True, if wr_thread (rec_at s1 k) \<noteq> None \<and> wr_state (rec_at s1 k) \<noteq> RecExited
                  then on_record k (\<lambda>r. r\<lparr>wr_state := RecStopping\<rparr>) s1 else s1))"

definition thread_joinable :: "worker_record \<Rightarrow> bool" where
  "thread_joinable r \<longleftrightarrow> (case wr_thread r of None \<Rightarrow> True | Some t \<Rightarrow> wt_pc t = WorkerFinished)"

definition join_joined :: "nat \<Rightarrow> supervisor \<Rightarrow> supervisor" where
  "join_joined k s =
     on_record k (\<lambda>r.
       let r1 = (if exact_completion r then r\<lparr>wr_last_result := Some (cp_result (wr_completion r))\<rparr> else r)
       in r1\<lparr>wr_state := RecJoined,
             wr_last_stats := (case wr_instance r1 of Some i \<Rightarrow> Some (wi_stats i) | None \<Rightarrow> wr_last_stats r1)\<rparr>) s"

definition join_reset :: "nat \<Rightarrow> supervisor \<Rightarrow> supervisor" where
  "join_reset k s = on_record k (\<lambda>r. r\<lparr>wr_thread := None, wr_instance := None\<rparr>) s"

definition join_end :: "nat \<Rightarrow> supervisor \<Rightarrow> supervisor" where
  "join_end k s = on_record k (\<lambda>r. r\<lparr>wr_state := RecOffline, wr_activation_allowed := False, wr_data_plane_allowed := False\<rparr>) s"

section \<open>The thread function\<close>

definition run_begin_supervisor :: "supervisor \<Rightarrow> sup_run_result option \<times> supervisor" where
  "run_begin_supervisor s =
     (if sv_run_started s then (Some (bare_fatal_result SR_AlreadyRunning), s)
      else (None, s\<lparr>sv_run_started := True, sv_run_active := True\<rparr>))"

definition valid_configuration :: "supervisor \<Rightarrow> bool" where
  "valid_configuration s \<longleftrightarrow> sv_records s \<noteq> []
     \<and> (case cfg_cache_shards (sv_config s) of None \<Rightarrow> False | Some n \<Rightarrow> length (sv_records s) \<le> n)
     \<and> is_valid_recovery_config (cfg_recovery (sv_config s))"

definition activation_error_for :: "startup_error \<Rightarrow> activation_error" where
  "activation_error_for e =
     (if se_code e = SE_Cancelled then cancelled_activation
      else \<lparr>ae_code = AE_InternalError, ae_worker = se_worker e, ae_instance = se_instance e, ae_worker_result = None\<rparr>)"

definition startup_error_result :: "startup_error \<Rightarrow> sup_run_result" where
  "startup_error_result e = (if se_code e = SE_Cancelled then requested_stop_result else startup_failure_result e)"

definition activation_failed_result :: "activation_error \<Rightarrow> supervisor \<Rightarrow> sup_run_result" where
  "activation_failed_result e s =
     (if stop_requested_locked s \<or> ae_code e = AE_Cancelled then requested_stop_result
      else let result = (case ae_worker_result e of Some r \<Rightarrow> r | None \<Rightarrow> fatal_exit RS_AwaitActivation 0);
               unexpected = (rr_outcome result = WorkerRequestedStop)
           in \<lparr>sr_outcome = SupFatalExit,
               sr_error_code = (if unexpected then SR_UnexpectedWorkerStop else SR_WorkerFatalExit),
               sr_worker = ae_worker e, sr_instance = ae_instance e, sr_error_number = 0, sr_startup_error = None,
               sr_worker_result = Some (if unexpected then result\<lparr>rr_outcome := WorkerFatalExit\<rparr> else result)\<rparr>)"

section \<open>Threads\<close>

text \<open>A thread inside \<open>request_all_worker_stops\<close>: before it copies the source of a record, or with the copy.\<close>

datatype stopper = StopperAt nat | StopperHolds nat "nat \<times> u64"

definition stopper_step :: "stopper \<Rightarrow> supervisor \<Rightarrow> stopper \<times> supervisor" where
  "stopper_step t s =
     (case t of
        StopperAt k \<Rightarrow> if k < length (sv_records s) then (StopperHolds k (source_of s k), s) else (t, s)
      | StopperHolds k source \<Rightarrow> (StopperAt (k + 1), stop_source source s))"

definition stopper_done :: "supervisor \<Rightarrow> stopper \<Rightarrow> bool" where
  "stopper_done s t \<longleftrightarrow> (case t of StopperAt k \<Rightarrow> length (sv_records s) \<le> k | StopperHolds k source \<Rightarrow> False)"

text \<open>
  Where the supervisor thread is.  A worker is created at startup or as a replacement; it is joined with all
  others or because it failed.  \<open>SupRuns\<close> is a sequence of calls, and \<open>sup_exit\<close> what follows it.
\<close>

datatype create_site = AtStartup | AtRecovery

datatype sup_exit =
    ExitReturn sup_run_result | ExitThrow | ExitActivate | ExitMonitor | ExitActivationFailed activation_error | ExitEmergency bool

datatype sup_action =
    PublishStartup startup_result
  | PublishActivation activation_result
  | StopWorkers stopper
  | JoinWorkers nat bool bool
  | FinishRun
  | EmergencyStop
  | EmergencyCheck

datatype join_site = JoinAll bool bool "sup_action list" sup_exit | JoinFailure worker_failure

datatype join_stage = JoinBegins | JoinWaits | JoinDestroys | JoinQuiesces | JoinEnds

datatype sup_pc =
    SupIdle
  | SupEnters
  | SupChecks
  | SupCreates create_site nat u16
  | SupRegisters create_site nat u16
  | SupBuilds create_site nat u16
  | SupInstalls create_site nat u16 u16
  | SupStarts create_site nat
  | SupSpawns create_site nat
  | SupReadyRound
  | SupReadyAt nat
  | SupActivationRound
  | SupMonitorRound
  | SupStopsInstance "nat \<times> u64"
  | SupVisits nat bool int
  | SupProbedReady nat bool int
  | SupVisitsActivated nat bool int
  | SupProbedActivated nat bool int
  | SupVisitsRest nat bool int
  | SupWaits int
  | SupHealth sup_pc
  | SupHandles nat worker_failure
  | SupHandled nat worker_failure
  | SupFails worker_failure
  | SupReportsFatal bool worker_failure
  | SupJoins join_stage nat join_site
  | SupRuns "sup_action list" sup_exit
  | SupEnded sup_exit

text \<open>The points between which the supervisor thread does not release its mutex.\<close>

fun holds_mutex :: "sup_pc \<Rightarrow> bool" where
  "holds_mutex (SupReadyAt k) = True"
| "holds_mutex (SupVisits k p d) = True"
| "holds_mutex (SupVisitsActivated k p d) = True"
| "holds_mutex (SupVisitsRest k p d) = True"
| "holds_mutex _ = False"

text \<open>\<open>sw_stoppers\<close> are the threads that called \<open>request_stop\<close>; \<open>sw_join_failed\<close> records that a join has failed.\<close>

record sup_world =
  sw_pub :: pub_world
  sw_sup :: supervisor
  sw_pc :: sup_pc
  sw_stoppers :: "stopper list"
  sw_join_failed :: bool

abbreviation sw_publication :: "sup_world \<Rightarrow> filter_publication" where
  "sw_publication w \<equiv> pw_pub (sw_pub w)"

abbreviation sw_epochs :: "sup_world \<Rightarrow> epochs" where
  "sw_epochs w \<equiv> pw_epochs (sw_pub w)"

definition goto :: "sup_pc \<Rightarrow> supervisor \<Rightarrow> sup_world \<Rightarrow> sup_world" where
  "goto pc s w = w\<lparr>sw_sup := s, sw_pc := pc\<rparr>"

definition set_epochs :: "epochs \<Rightarrow> sup_world \<Rightarrow> sup_world" where
  "set_epochs eps w = w\<lparr>sw_pub := (sw_pub w)\<lparr>pw_epochs := eps\<rparr>\<rparr>"

definition set_local :: "nat \<Rightarrow> filter_snapshot option \<Rightarrow> sup_world \<Rightarrow> sup_world" where
  "set_local k l w = w\<lparr>sw_pub := (sw_pub w)\<lparr>pw_locals := (pw_locals (sw_pub w))[k := l]\<rparr>\<rparr>"

definition set_pub_epochs :: "filter_publication \<Rightarrow> epochs \<Rightarrow> sup_world \<Rightarrow> sup_world" where
  "set_pub_epochs p eps w = w\<lparr>sw_pub := (sw_pub w)\<lparr>pw_pub := p, pw_epochs := eps\<rparr>\<rparr>"

section \<open>How the calls of the supervisor thread end\<close>

definition abrupt_exit :: sup_pc where
  "abrupt_exit = SupRuns [PublishStartup (Inl (bare_startup_error SE_InternalError)),
     PublishActivation (Inl (bare_activation_error AE_InternalError)), StopWorkers (StopperAt 0), FinishRun] ExitThrow"

definition startup_fails :: "startup_error \<Rightarrow> sup_pc" where
  "startup_fails e = SupRuns [PublishStartup (Inl e), PublishActivation (Inl (activation_error_for e)), StopWorkers (StopperAt 0),
     JoinWorkers 0 True False, FinishRun] (ExitReturn (startup_error_result e))"

definition run_rejected :: "startup_error \<Rightarrow> activation_error \<Rightarrow> sup_run_result \<Rightarrow> sup_pc" where
  "run_rejected e a r = SupRuns [PublishStartup (Inl e), PublishActivation (Inl a), FinishRun] (ExitReturn r)"

definition monitor_returns :: "sup_run_result \<Rightarrow> sup_pc" where
  "monitor_returns r = SupRuns (StopWorkers (StopperAt 0)
     # (if sr_error_code r = SR_WorkerJoinFailed then [] else [JoinWorkers 0 True True]) @ [FinishRun]) (ExitReturn r)"

definition activation_fails :: "activation_error \<Rightarrow> sup_pc" where
  "activation_fails e = SupRuns [PublishActivation (Inl e)] (ExitActivationFailed e)"

definition emergency_join_all :: sup_pc where
  "emergency_join_all = SupRuns [EmergencyStop, StopWorkers (StopperAt 0), EmergencyCheck, JoinWorkers 0 True False] (ExitEmergency False)"

text \<open>\<open>create_worker\<close> and \<open>start_worker_thread\<close> return to the loop over the records or to the monitor.\<close>

definition recovery_error :: "nat \<Rightarrow> startup_error \<Rightarrow> sup_pc" where
  "recovery_error k e = (if se_code e = SE_Cancelled then monitor_returns requested_stop_result else SupHandles k (creation_failure e))"

definition create_failed :: "create_site \<Rightarrow> nat \<Rightarrow> startup_error \<Rightarrow> sup_pc" where
  "create_failed site k e =
     (case site of AtStartup \<Rightarrow> startup_fails e | AtRecovery \<Rightarrow> SupHealth (recovery_error k e))"

definition created :: "create_site \<Rightarrow> nat \<Rightarrow> u16 \<Rightarrow> u16 \<Rightarrow> supervisor \<Rightarrow> sup_pc" where
  "created site k port bound s =
     (case site of
        AtRecovery \<Rightarrow> SupHealth (SupStarts AtRecovery k)
      | AtStartup \<Rightarrow>
          if k + 1 < length (sv_records s)
          then SupCreates AtStartup (k + 1) (if k = 0 \<and> cfg_requested_port (sv_config s) = 0 then bound else port)
          else SupStarts AtStartup 0)"

definition start_failed :: "create_site \<Rightarrow> nat \<Rightarrow> startup_error \<Rightarrow> sup_pc" where
  "start_failed site k e = (case site of AtStartup \<Rightarrow> startup_fails e | AtRecovery \<Rightarrow> recovery_error k e)"

definition started :: "create_site \<Rightarrow> nat \<Rightarrow> supervisor \<Rightarrow> sup_pc" where
  "started site k s =
     (case site of
        AtRecovery \<Rightarrow> SupMonitorRound
      | AtStartup \<Rightarrow> if k + 1 < length (sv_records s) then SupStarts AtStartup (k + 1) else SupReadyRound)"

definition after_create :: "create_step \<Rightarrow> (startup_error \<Rightarrow> sup_pc) \<Rightarrow> sup_pc \<Rightarrow> sup_pc" where
  "after_create c failed continues =
     (case c of CreateThrows \<Rightarrow> abrupt_exit | CreateReturns e \<Rightarrow> failed e | CreateContinues \<Rightarrow> continues)"

text \<open>The wait at the end of a round of the monitor, or the next round.\<close>

definition round_end :: "bool \<Rightarrow> int \<Rightarrow> sup_pc" where
  "round_end progressed deadline = (if progressed then SupMonitorRound else SupWaits deadline)"

definition visit_next :: "nat \<Rightarrow> bool \<Rightarrow> int \<Rightarrow> supervisor \<Rightarrow> sup_pc" where
  "visit_next k progressed deadline s =
     (if k + 1 < length (sv_records s) then SupVisits (k + 1) progressed deadline else round_end progressed deadline)"

definition joined :: "bool \<Rightarrow> nat \<Rightarrow> join_site \<Rightarrow> sup_pc" where
  "joined success k site =
     (case site of
        JoinAll ok strict rest exit \<Rightarrow> SupRuns (JoinWorkers (k + 1) (success \<and> ok) strict # rest) exit
      | JoinFailure failure \<Rightarrow> if success then SupHandled k failure else SupFails (failure\<lparr>wf_code := FC_JoinFailed\<rparr>))"

definition exit_after_join :: "bool \<Rightarrow> bool \<Rightarrow> sup_exit \<Rightarrow> sup_exit" where
  "exit_after_join ok strict exit =
     (case exit of
        ExitEmergency _ \<Rightarrow> ExitEmergency ok
      | ExitReturn r \<Rightarrow> if strict \<and> \<not> ok \<and> sr_outcome r \<noteq> SupFatalExit then ExitReturn (bare_fatal_result SR_InternalError) else exit
      | _ \<Rightarrow> exit)"

text \<open>One call of a sequence.\<close>

definition run_action :: "sup_action \<Rightarrow> sup_action list \<Rightarrow> sup_exit \<Rightarrow> supervisor \<Rightarrow> sup_pc \<times> supervisor" where
  "run_action a rest exit s =
     (case a of
        PublishStartup r \<Rightarrow> (SupRuns rest exit, publish_startup r s)
      | PublishActivation r \<Rightarrow> (SupRuns rest exit, publish_activation r s)
      | StopWorkers t \<Rightarrow>
          if stopper_done s t then (SupRuns rest exit, s)
          else (case stopper_step t s of (t', s') \<Rightarrow> (SupRuns (StopWorkers t' # rest) exit, s'))
      | JoinWorkers k ok strict \<Rightarrow>
          if k < length (sv_records s) then (SupJoins JoinBegins k (JoinAll ok strict rest exit), s)
          else (SupRuns rest (exit_after_join ok strict exit), s)
      | FinishRun \<Rightarrow> (SupRuns rest exit, finish_supervisor_run s)
      | EmergencyStop \<Rightarrow> (SupRuns rest exit, request_stop s)
      | EmergencyCheck \<Rightarrow>
          if sv_emergency_join_failure s then (SupEnded (ExitEmergency False), s\<lparr>sv_emergency_join_failure := False\<rparr>)
          else (SupRuns rest exit, s))"

definition run_exit :: "sup_exit \<Rightarrow> supervisor \<Rightarrow> sup_pc" where
  "run_exit exit s =
     (case exit of
        ExitActivate \<Rightarrow> SupActivationRound
      | ExitMonitor \<Rightarrow> SupMonitorRound
      | ExitActivationFailed e \<Rightarrow>
          SupRuns [StopWorkers (StopperAt 0), JoinWorkers 0 True False, FinishRun] (ExitReturn (activation_failed_result e s))
      | _ \<Rightarrow> SupEnded exit)"

section \<open>Steps of the supervisor thread\<close>

text \<open>
  Clock readings, the outcome of \<open>WorkerLoop::create\<close>, of the start of a thread and of the writes to the
  generation events are open.  A wait can end at any time; the loop around it checks its condition again.
\<close>

inductive sup_thread_step :: "sup_world \<Rightarrow> sup_world \<Rightarrow> bool" where
  c_run: "sw_pc w = SupIdle \<Longrightarrow> run_begin_supervisor (sw_sup w) = (None, s) \<Longrightarrow> sup_thread_step w (goto SupEnters s w)"
| c_enter:
    "sw_pc w = SupEnters
     \<Longrightarrow> sup_thread_step w (goto (if stop_requested_locked (sw_sup w)
           then run_rejected cancelled_startup cancelled_activation requested_stop_result else SupChecks) (sw_sup w) w)"
| c_check:
    "sw_pc w = SupChecks
     \<Longrightarrow> sup_thread_step w (goto (if sv_abrupt_exit (sw_sup w) then abrupt_exit
           else if \<not> valid_configuration (sw_sup w)
           then run_rejected (bare_startup_error SE_InvalidConfiguration) (bare_activation_error AE_InternalError)
                  (startup_failure_result (bare_startup_error SE_InvalidConfiguration))
           else SupCreates AtStartup 0 (cfg_requested_port (sv_config (sw_sup w)))) (sw_sup w) w)"
| c_create:
    "sw_pc w = SupCreates site k port \<Longrightarrow> create_worker_begin k (sw_sup w) = (c, s)
     \<Longrightarrow> sup_thread_step w (goto (after_create c (create_failed site k) (SupRegisters site k port)) s w)"
| c_register_failed:
    "sw_pc w = SupRegisters site k port
     \<Longrightarrow> create_worker_register k (sw_sup w) (sw_publication w) (sw_epochs w) = (CreateReturns e, l, p, eps)
     \<Longrightarrow> sup_thread_step w (goto (create_failed site k e) (sw_sup w) (set_pub_epochs p eps w))"
| c_register:
    "sw_pc w = SupRegisters site k port
     \<Longrightarrow> create_worker_register k (sw_sup w) (sw_publication w) (sw_epochs w) = (CreateContinues, l, p, eps)
     \<Longrightarrow> sup_thread_step w (goto (SupBuilds site k port) (sw_sup w) (set_local k l (set_pub_epochs p eps w)))"
| c_build_failed:
    "sw_pc w = SupBuilds site k port \<Longrightarrow> create_worker_build k loop (sw_sup w) = Inl e
     \<Longrightarrow> sup_thread_step w (goto (create_failed site k e) (sw_sup w) (set_local k None w))"
| c_build:
    "sw_pc w = SupBuilds site k port \<Longrightarrow> create_worker_build k loop (sw_sup w) = Inr bound
     \<Longrightarrow> sup_thread_step w (goto (SupInstalls site k port bound) (sw_sup w) w)"
| c_install:
    "sw_pc w = SupInstalls site k port bound
     \<Longrightarrow> sup_thread_step w (goto (created site k port bound (sw_sup w)) (create_worker_install k bound (sw_sup w)) w)"
| c_start:
    "sw_pc w = SupStarts site k \<Longrightarrow> start_worker_thread_begin k (sw_sup w) = (c, s)
     \<Longrightarrow> sup_thread_step w (goto (after_create c (start_failed site k) (SupSpawns site k)) s w)"
| c_spawn:
    "sw_pc w = SupSpawns site k \<Longrightarrow> start_worker_thread_spawn k refused (sw_sup w) = (c, s)
     \<Longrightarrow> sup_thread_step w (goto (after_create c (start_failed site k) (started site k s)) s w)"
| c_ready_round:
    "sw_pc w = SupReadyRound
     \<Longrightarrow> sup_thread_step w (goto (if sv_abrupt_exit (sw_sup w) then abrupt_exit
           else if stop_requested_locked (sw_sup w) then startup_fails cancelled_startup else SupReadyAt 0) (sw_sup w) w)"
| c_ready_failed:
    "sw_pc w = SupReadyAt k
     \<Longrightarrow> await_ready_record k (sw_sup w) (sw_publication w) (sw_epochs w) = (Some e, s, eps)
     \<Longrightarrow> sup_thread_step w (goto (startup_fails e) s (set_epochs eps w))"
| c_ready_next:
    "sw_pc w = SupReadyAt k
     \<Longrightarrow> await_ready_record k (sw_sup w) (sw_publication w) (sw_epochs w) = (None, s, eps)
     \<Longrightarrow> k + 1 < length (sv_records s) \<Longrightarrow> sup_thread_step w (goto (SupReadyAt (k + 1)) s (set_epochs eps w))"
| c_ready_wait:
    "sw_pc w = SupReadyAt k
     \<Longrightarrow> await_ready_record k (sw_sup w) (sw_publication w) (sw_epochs w) = (None, s, eps)
     \<Longrightarrow> \<not> k + 1 < length (sv_records s) \<Longrightarrow> \<not> all_in_state RecReady s
     \<Longrightarrow> sup_thread_step w (goto SupReadyRound s (set_epochs eps w))"
| c_ready_done:
    "sw_pc w = SupReadyAt k
     \<Longrightarrow> await_ready_record k (sw_sup w) (sw_publication w) (sw_epochs w) = (None, s, eps)
     \<Longrightarrow> \<not> k + 1 < length (sv_records s) \<Longrightarrow> all_in_state RecReady s \<Longrightarrow> wr_instance (rec_at s 0) = Some i
     \<Longrightarrow> sup_thread_step w (goto (SupRuns [PublishStartup (Inr \<lparr>si_bound_port = wi_port i, si_worker_count = length (sv_records s)\<rparr>)]
           ExitActivate) s (set_epochs eps w))"
| c_activation:
    "sw_pc w = SupActivationRound \<Longrightarrow> await_activation_round (sw_sup w) = (r, s)
     \<Longrightarrow> sup_thread_step w (goto (case r of ActivationThrows \<Rightarrow> abrupt_exit | ActivationFails e \<Rightarrow> activation_fails e
           | ActivationWaits \<Rightarrow> SupActivationRound | ActivationDone \<Rightarrow> SupRuns [PublishActivation (Inr ())] ExitMonitor) s w)"
| c_monitor:
    "sw_pc w = SupMonitorRound \<Longrightarrow> monitor_round_begin failed (sw_sup w) = (r, s)
     \<Longrightarrow> sup_thread_step w (goto (case r of MonitorThrows \<Rightarrow> abrupt_exit | MonitorReturns result \<Rightarrow> monitor_returns result
           | MonitorStops target \<Rightarrow> SupStopsInstance target | MonitorScans \<Rightarrow> SupVisits 0 False time_max) s w)"
| c_stop_instance:
    "sw_pc w = SupStopsInstance target \<Longrightarrow> sup_thread_step w (goto SupMonitorRound (stop_instance target (sw_sup w)) w)"
| c_visit:
    "sw_pc w = SupVisits k progressed deadline
     \<Longrightarrow> sup_thread_step w (goto (case monitor_failure k (rec_at (sw_sup w) k) of
           Some failure \<Rightarrow> SupHandles k failure
         | None \<Rightarrow> if awaits_registration (rec_at (sw_sup w) k) then SupProbedReady k progressed deadline
                   else SupVisitsActivated k progressed deadline) (sw_sup w) w)"
| c_visit_ready:
    "sw_pc w = SupProbedReady k progressed deadline
     \<Longrightarrow> monitor_ready k (sw_sup w) (sw_publication w) (sw_epochs w) = (r, s, eps)
     \<Longrightarrow> sup_thread_step w (goto (case r of VisitReturns result \<Rightarrow> monitor_returns result | VisitBreaks \<Rightarrow> SupMonitorRound
           | VisitNext \<Rightarrow> visit_next k progressed deadline s | VisitContinues \<Rightarrow> SupVisitsActivated k True deadline)
           s (set_epochs eps w))"
| c_visit_activated:
    "sw_pc w = SupVisitsActivated k progressed deadline
     \<Longrightarrow> sup_thread_step w (goto (if awaits_release (rec_at (sw_sup w) k) then SupProbedActivated k progressed deadline
           else SupVisitsRest k progressed deadline) (sw_sup w) w)"
| c_release:
    "sw_pc w = SupProbedActivated k progressed deadline \<Longrightarrow> monitor_activated now k (sw_sup w) = (r, s)
     \<Longrightarrow> sup_thread_step w (goto (case r of VisitReturns result \<Rightarrow> monitor_returns result | VisitBreaks \<Rightarrow> SupMonitorRound
           | _ \<Rightarrow> SupHealth (SupVisitsRest k True deadline)) s w)"
| c_rest:
    "sw_pc w = SupVisitsRest k progressed deadline \<Longrightarrow> monitor_rest now deadline k (sw_sup w) = (r, s)
     \<Longrightarrow> sup_thread_step w (goto (case r of RestBreaks \<Rightarrow> SupMonitorRound | RestNext d \<Rightarrow> visit_next k progressed d s
           | RestRestarts \<Rightarrow> SupCreates AtRecovery k (sv_bound_port s)) s w)"
| c_wait: "sw_pc w = SupWaits deadline \<Longrightarrow> sup_thread_step w (goto SupMonitorRound (sw_sup w) w)"
| c_health: "sw_pc w = SupHealth pc \<Longrightarrow> sup_thread_step w (goto pc (publish_health (sw_sup w)) w)"
| c_handle:
    "sw_pc w = SupHandles k failure \<Longrightarrow> handle_worker_failure_begin k failure (sw_sup w) = (r, s)
     \<Longrightarrow> sup_thread_step w (goto (case r of Some result \<Rightarrow> monitor_returns result
           | None \<Rightarrow> SupHealth (SupJoins JoinBegins k (JoinFailure failure))) s w)"
| c_handled:
    "sw_pc w = SupHandled k failure \<Longrightarrow> handle_worker_failure_joined now k failure (sw_sup w) = (r, s)
     \<Longrightarrow> sup_thread_step w (goto (case r of HandleReturns result \<Rightarrow> monitor_returns result | HandleRecovers \<Rightarrow> SupMonitorRound
           | HandleFails failure' \<Rightarrow> SupFails failure') s w)"
| c_fail:
    "sw_pc w = SupFails failure \<Longrightarrow> fail_worker_service_begin failure (sw_sup w) = (report, s)
     \<Longrightarrow> sup_thread_step w (goto (SupHealth (SupReportsFatal report failure)) s w)"
| c_report:
    "sw_pc w = SupReportsFatal report failure
     \<Longrightarrow> sup_thread_step w (goto (monitor_returns (failed_service_result failure)) (fail_worker_service_report report failure (sw_sup w)) w)"
| c_join_begin:
    "sw_pc w = SupJoins JoinBegins k site \<Longrightarrow> join_begin k (sw_sup w) = (r, s)
     \<Longrightarrow> sup_thread_step w ((goto (if r then SupJoins JoinWaits k site else joined False k site) s w)
           \<lparr>sw_join_failed := sw_join_failed w \<or> \<not> r\<rparr>)"
| c_join_wait:
    "sw_pc w = SupJoins JoinWaits k site \<Longrightarrow> thread_joinable (rec_at (sw_sup w) k)
     \<Longrightarrow> sup_thread_step w (goto (SupJoins JoinDestroys k site) (join_joined k (sw_sup w)) w)"
| c_join_destroy:
    "sw_pc w = SupJoins JoinDestroys k site
     \<Longrightarrow> sup_thread_step w (goto (SupJoins JoinQuiesces k site) (join_reset k (sw_sup w)) (set_local k None w))"
| c_join_quiesce:
    "sw_pc w = SupJoins JoinQuiesces k site
     \<Longrightarrow> quiesce_worker k (wr_instance_id (rec_at (sw_sup w) k)) k (sw_publication w) (sw_epochs w) = (p, eps)
     \<Longrightarrow> sup_thread_step w (goto (SupJoins JoinEnds k site) (sw_sup w) (set_pub_epochs p eps w))"
| c_join_end:
    "sw_pc w = SupJoins JoinEnds k site \<Longrightarrow> sup_thread_step w (goto (joined True k site) (join_end k (sw_sup w)) w)"
| c_action:
    "sw_pc w = SupRuns (a # rest) exit \<Longrightarrow> run_action a rest exit (sw_sup w) = (pc, s) \<Longrightarrow> sup_thread_step w (goto pc s w)"
| c_exit: "sw_pc w = SupRuns [] exit \<Longrightarrow> sup_thread_step w (goto (run_exit exit (sw_sup w)) (sw_sup w) w)"

section \<open>Steps of a worker thread\<close>

text \<open>
  \<open>worker_entry\<close> and \<open>WorkerLoop::run\<close> up to the data plane and after it.  The token of the loop is stopped
  through the source of the instance or directly.  What the event loop does in between is left open here, but
  for the refresh of the snapshot and the ways in which it can end.
\<close>

definition worker_token :: "supervisor \<Rightarrow> nat \<Rightarrow> worker_thread \<Rightarrow> bool" where
  "worker_token s k t \<longleftrightarrow> (k, wt_instance t) \<in> sv_stopped s \<or> (case wr_instance (rec_at s k) of Some i \<Rightarrow> wi_stop i | None \<Rightarrow> False)"

definition set_worker_pc :: "nat \<Rightarrow> worker_pc \<Rightarrow> supervisor \<Rightarrow> supervisor" where
  "set_worker_pc k pc s = on_record k (\<lambda>r. r\<lparr>wr_thread := map_option (\<lambda>t. t\<lparr>wt_pc := pc\<rparr>) (wr_thread r)\<rparr>) s"

definition set_sup :: "supervisor \<Rightarrow> sup_world \<Rightarrow> sup_world" where
  "set_sup s w = w\<lparr>sw_sup := s\<rparr>"

definition worker_goes :: "nat \<Rightarrow> worker_pc \<Rightarrow> sup_world \<Rightarrow> sup_world" where
  "worker_goes k pc w = set_sup (set_worker_pc k pc (sw_sup w)) w"

definition worker_refresh :: "nat \<Rightarrow> u64 \<Rightarrow> sup_world \<Rightarrow> bool \<times> sup_world" where
  "worker_refresh k inst w =
     (if inst = 0 then (False, w)
      else case refresh_worker_snapshot (pw_locals (sw_pub w) ! k) inst k (sw_publication w) (sw_epochs w) of
        (r, l, p, eps) \<Rightarrow> (r, set_local k l (set_pub_epochs p eps w)))"

definition after_ready :: "worker_ready_result \<Rightarrow> worker_pc" where
  "after_ready r = (if ry_outcome r = WorkerIsReady then WorkerActivationGate
     else WorkerEnds \<lparr>rr_outcome = WorkerFatalExit, rr_error = ry_error r\<rparr>)"

definition after_gate :: "gate_action \<Rightarrow> worker_pc \<Rightarrow> worker_pc \<Rightarrow> worker_pc" where
  "after_gate a refresh proceed = (case a of GateStop \<Rightarrow> WorkerGateStopped | GateRefreshFilter \<Rightarrow> refresh | GateProceed \<Rightarrow> proceed)"

text \<open>The last look at the counters of the runtime can turn a requested stop into a failure.\<close>

definition final_result :: "worker_run_result \<Rightarrow> worker_runtime_step option \<Rightarrow> worker_run_result" where
  "final_result r found =
     (case found of None \<Rightarrow> r | Some st \<Rightarrow> if rr_outcome r \<noteq> WorkerFatalExit then fatal_exit st 0 else r)"

inductive worker_step :: "nat \<Rightarrow> worker_thread \<Rightarrow> sup_world \<Rightarrow> sup_world \<Rightarrow> bool" for k t where
  w_enter: "wt_pc t = WorkerEnters \<Longrightarrow> worker_step k t w (worker_goes k WorkerSyncs w)"
| w_enter_failed:
    "wt_pc t = WorkerEnters
     \<Longrightarrow> failed \<in> {RS_StartScheduler, RS_StartTimerQueue, RS_StartUpstreamChannel, RS_UnhandledException}
     \<Longrightarrow> worker_step k t w (worker_goes k (WorkerReportsReady (init_error failed 0)) w)"
| w_sync:
    "wt_pc t = WorkerSyncs \<Longrightarrow> worker_refresh k (wt_instance t) w = (r, w')
     \<Longrightarrow> worker_step k t w (worker_goes k (WorkerReportsReady (if r then worker_ready else init_error RS_SynchronizeFilter 0)) w')"
| w_report_ready:
    "wt_pc t = WorkerReportsReady r \<Longrightarrow> \<not> holds_mutex (sw_pc w)
     \<Longrightarrow> worker_step k t w (worker_goes k (after_ready r) (set_sup (report_worker_ready k (wt_instance t) r (sw_sup w)) w))"
| w_activation_gate:
    "wt_pc t = WorkerActivationGate \<Longrightarrow> \<not> holds_mutex (sw_pc w)
     \<Longrightarrow> await_worker_activation k (wt_instance t) (worker_token (sw_sup w) k t) (sw_publication w) (sw_epochs w) (sw_sup w) = Some a
     \<Longrightarrow> worker_step k t w (worker_goes k (after_gate a WorkerActivationRefresh WorkerActivates) w)"
| w_activation_refresh:
    "wt_pc t = WorkerActivationRefresh \<Longrightarrow> worker_refresh k (wt_instance t) w = (r, w')
     \<Longrightarrow> worker_step k t w (worker_goes k (if r then WorkerActivationGate else WorkerEnds (fatal_exit RS_SynchronizeFilter 0)) w')"
| w_gate_stopped:
    "wt_pc t = WorkerGateStopped
     \<Longrightarrow> worker_step k t w (worker_goes k (WorkerEnds (if worker_token (sw_sup w) k t then requested_stop
           else fatal_exit RS_AwaitActivation 0)) w)"
| w_activate:
    "wt_pc t = WorkerActivates
     \<Longrightarrow> worker_step k t w (worker_goes k (if worker_token (sw_sup w) k t then WorkerEnds requested_stop else WorkerReportsActivated) w)"
| w_report_activated:
    "wt_pc t = WorkerReportsActivated \<Longrightarrow> \<not> holds_mutex (sw_pc w)
     \<Longrightarrow> worker_step k t w (worker_goes k WorkerDataGate (set_sup (report_worker_activated k (wt_instance t) (sw_sup w)) w))"
| w_data_gate:
    "wt_pc t = WorkerDataGate \<Longrightarrow> \<not> holds_mutex (sw_pc w)
     \<Longrightarrow> await_worker_data_plane k (wt_instance t) (worker_token (sw_sup w) k t) (sw_publication w) (sw_epochs w) (sw_sup w) = Some a
     \<Longrightarrow> worker_step k t w (worker_goes k (after_gate a WorkerDataRefresh WorkerReleased) w)"
| w_data_refresh:
    "wt_pc t = WorkerDataRefresh \<Longrightarrow> worker_refresh k (wt_instance t) w = (r, w')
     \<Longrightarrow> worker_step k t w (worker_goes k (if r then WorkerDataGate else WorkerEnds (fatal_exit RS_SynchronizeFilter 0)) w')"
| w_released:
    "wt_pc t = WorkerReleased
     \<Longrightarrow> worker_step k t w (worker_goes k (if worker_token (sw_sup w) k t then WorkerEnds requested_stop else WorkerServes) w)"
| w_serve_refresh:
    "wt_pc t = WorkerServes \<Longrightarrow> \<not> worker_token (sw_sup w) k t \<Longrightarrow> wr_instance (rec_at (sw_sup w) k) = Some i
     \<Longrightarrow> wi_generation_event i \<Longrightarrow> worker_refresh k (wt_instance t) w = (r, w')
     \<Longrightarrow> worker_step k t w (worker_goes k (if r then WorkerServes else WorkerEnds (fatal_exit RS_SynchronizeFilter 0))
           (set_sup (on_record k (\<lambda>r. r\<lparr>wr_instance := Some (i\<lparr>wi_generation_event := False\<rparr>)\<rparr>) (sw_sup w')) w'))"
| w_serve_stop:
    "wt_pc t = WorkerServes \<Longrightarrow> worker_token (sw_sup w) k t \<Longrightarrow> worker_step k t w (worker_goes k (WorkerEnds requested_stop) w)"
| w_serve_failed:
    "wt_pc t = WorkerServes \<Longrightarrow> failed \<in> {RS_WaitForEvents, RS_RuntimeInvariant, RS_UnhandledException}
     \<Longrightarrow> worker_step k t w (worker_goes k (WorkerEnds (fatal_exit failed n)) w)"
| w_complete:
    "wt_pc t = WorkerEnds r \<Longrightarrow> \<not> holds_mutex (sw_pc w)
     \<Longrightarrow> found \<in> {None, Some RS_UnhandledException, Some RS_RuntimeInvariant, Some RS_Shutdown}
     \<Longrightarrow> worker_step k t w (worker_goes k WorkerFinished (set_sup (report_worker_completion now k (wt_instance t) (final_result r found)
           (on_record k (\<lambda>r. r\<lparr>wr_instance := map_option (\<lambda>i. i\<lparr>wi_stats := stats\<rparr>) (wr_instance r)\<rparr>) (sw_sup w))) w))"

section \<open>Steps of everyone else\<close>

text \<open>
  The service and the tests call the supervisor; the update controller and the reclaimer work on the
  publication, where they touch neither an epoch nor the registry nor what a worker holds; threads that
  asked for a stop go through the workers.
\<close>

inductive sup_env_step :: "sup_world \<Rightarrow> sup_world \<Rightarrow> bool" where
  e_publication:
    "pub_step (sw_pub w) p \<Longrightarrow> pw_epochs p = sw_epochs w \<Longrightarrow> pw_locals p = pw_locals (sw_pub w)
     \<Longrightarrow> fp_registry (pw_pub p) = fp_registry (sw_publication w) \<Longrightarrow> sup_env_step w (w\<lparr>sw_pub := p\<rparr>)"
| e_published: "\<not> holds_mutex (sw_pc w) \<Longrightarrow> sup_env_step w (set_sup (snapshot_published g (sw_sup w)) w)"
| e_service_stop: "sup_env_step w (set_sup ((sw_sup w)\<lparr>sv_service_stop := True\<rparr>) w)"
| e_stop:
    "\<not> holds_mutex (sw_pc w)
     \<Longrightarrow> sup_env_step w (w\<lparr>sw_sup := request_stop (sw_sup w), sw_stoppers := sw_stoppers w @ [StopperAt 0]\<rparr>)"
| e_stopper:
    "\<not> holds_mutex (sw_pc w) \<Longrightarrow> j < length (sw_stoppers w) \<Longrightarrow> stopper_step (sw_stoppers w ! j) (sw_sup w) = (t, s)
     \<Longrightarrow> sup_env_step w (w\<lparr>sw_sup := s, sw_stoppers := (sw_stoppers w)[j := t]\<rparr>)"
| e_activate: "\<not> holds_mutex (sw_pc w) \<Longrightarrow> request_activation (sw_sup w) = (r, s) \<Longrightarrow> sup_env_step w (set_sup s w)"
| e_release: "\<not> holds_mutex (sw_pc w) \<Longrightarrow> release_data_plane (sw_sup w) = (r, s) \<Longrightarrow> sup_env_step w (set_sup s w)"
| e_emergency:
    "sw_pc w = SupIdle \<or> sw_pc w = SupEnded exit \<Longrightarrow> \<not> sv_run_active (sw_sup w) \<Longrightarrow> sup_env_step w (goto emergency_join_all (sw_sup w) w)"
| e_abrupt: "\<not> holds_mutex (sw_pc w) \<Longrightarrow> sup_env_step w (set_sup (inject_abrupt_exit_for_testing (sw_sup w)) w)"
| e_abrupt_publication:
    "\<not> holds_mutex (sw_pc w) \<Longrightarrow> sup_env_step w (set_sup (inject_abrupt_exit_after_next_publication_for_testing (sw_sup w)) w)"
| e_unexpected_stop:
    "\<not> holds_mutex (sw_pc w) \<Longrightarrow> inject_worker_unexpected_stop_for_testing k (sw_sup w) = (r, s) \<Longrightarrow> sup_env_step w (set_sup s w)"
| e_precommit_failure:
    "\<not> holds_mutex (sw_pc w) \<Longrightarrow> inject_worker_precommit_failure_for_testing k (sw_sup w) = (r, s) \<Longrightarrow> sup_env_step w (set_sup s w)"
| e_join_failure: "\<not> holds_mutex (sw_pc w) \<Longrightarrow> sup_env_step w (set_sup ((sw_sup w)\<lparr>sv_join_failure := Some k\<rparr>) w)"
| e_emergency_failure:
    "\<not> holds_mutex (sw_pc w) \<Longrightarrow> sup_env_step w (set_sup (inject_emergency_join_failure_once_for_testing (sw_sup w)) w)"

inductive sup_step :: "sup_world \<Rightarrow> sup_world \<Rightarrow> bool" where
  supervisor_moves: "sup_thread_step w w' \<Longrightarrow> sup_step w w'"
| worker_moves:
    "k < length (sv_records (sw_sup w)) \<Longrightarrow> wr_thread (rec_at (sw_sup w) k) = Some t \<Longrightarrow> worker_step k t w w' \<Longrightarrow> sup_step w w'"
| other_moves: "sup_env_step w w' \<Longrightarrow> sup_step w w'"

text \<open>The supervisor is made after the publication, before any worker is registered.\<close>

inductive sup_reachable :: "supervisor_config \<Rightarrow> filter_snapshot \<Rightarrow> nat \<Rightarrow> int \<Rightarrow> sup_world \<Rightarrow> bool" for config initial n timeout where
  sup_new:
    "new_publication (Some initial) n timeout = Some p \<Longrightarrow> new_supervisor config n p = (s, p')
     \<Longrightarrow> sup_reachable config initial n timeout \<lparr>sw_pub = \<lparr>pw_pub = p',
           pw_epochs = (\<lambda>_. \<lparr>we_instance = 0, we_observed = kUnobservedFilterGeneration, we_registration = Unregistered, we_quiesced = 0\<rparr>),
           pw_locals = replicate n None, pw_destroying = None\<rparr>, sw_sup = s, sw_pc = SupIdle, sw_stoppers = [],
           sw_join_failed = False\<rparr>"
| sup_then: "sup_reachable config initial n timeout w \<Longrightarrow> sup_step w w' \<Longrightarrow> sup_reachable config initial n timeout w'"

end
