(* ===== verification/FilterUpdateController.thy ===== *)
theory FilterUpdateController
  imports FilterPublication "HOL-Library.Multiset"
begin

text \<open>
  Replacement of the rule set while the server runs, \<open>src/FilterUpdateController.{h,cpp}\<close>: clients submit rule
  sets into a bounded queue, one runner thread builds a snapshot for each, commits it and completes the
  client's future when every worker has moved to it.

  \<open>run\<close> and \<open>apply\<close> are cut at the points where they wait, call another component or give up the mutex, and
  the program counter \<open>runner_pc\<close> names the point; \<open>seal\<close> is cut into its three parts.  \<open>upd_step\<close> interleaves
  them with the clients, the shutdown, the successor that takes over the journal, and every step of the
  other threads on the publication (\<open>pub_env_step\<close>).  Promises are indices into the list of all promises made.
  The builder is a parameter, \<open>default_builder\<close> the one the constructor installs; it may throw.  Allocation
  failures (\<open>InternalError\<close> of \<open>submit_replace\<close>), the ready callback of the observer and exceptions of mutexes are
  not modelled.

  \<open>upd_inv\<close> is the invariant; from it: no update is lost, the credit is not leaked, and a future that reports
  success is true of what the workers filter with.
\<close>

section \<open>Limits, errors and the measurement of a rule set\<close>

record filter_update_limits =
  maximum_rule_count :: nat
  maximum_normalized_rule_bytes :: nat
  maximum_queued_rule_bytes :: nat

definition default_update_limits :: filter_update_limits where
  "default_update_limits = \<lparr>maximum_rule_count = 100000, maximum_normalized_rule_bytes = 16 * 1024 * 1024,
     maximum_queued_rule_bytes = 64 * 1024 * 1024\<rparr>"

datatype filter_update_error_code =
    ServiceNotRunning | ControlPlaneDisabled | ShuttingDown | BuildFailed | GenerationExhausted | QueueFull
  | RuleCountLimitExceeded | RuleBytesLimitExceeded | QueueBytesLimitExceeded | UpdateInternalError

record filter_update_error =
  ue_code :: filter_update_error_code
  ue_build_error :: "(blocklist_error_code \<times> nat) option"
  ue_actual :: nat
  ue_limit :: nat

type_synonym filter_update_result = "filter_update_error + filter_version"

definition update_error :: "filter_update_error_code \<Rightarrow> (blocklist_error_code \<times> nat) option \<Rightarrow> filter_update_result" where
  "update_error code build_error = Inl \<lparr>ue_code = code, ue_build_error = build_error, ue_actual = 0, ue_limit = 0\<rparr>"

definition saturated_add :: "nat \<Rightarrow> nat \<Rightarrow> nat" where
  "saturated_add lhs rhs = (if rhs > size_max - lhs then size_max else lhs + rhs)"

record filter_rule_measurement =
  raw_bytes :: nat
  measured_normalized_bytes :: nat

definition bytes_limit_error :: "nat \<Rightarrow> nat \<Rightarrow> filter_update_error" where
  "bytes_limit_error actual limit =
     \<lparr>ue_code = RuleBytesLimitExceeded, ue_build_error = None, ue_actual = actual, ue_limit = limit\<rparr>"

fun measure_rules ::
  "nat \<Rightarrow> byte list list \<Rightarrow> filter_rule_measurement \<Rightarrow> filter_update_error + filter_rule_measurement" where
  "measure_rules limit [] m = Inr m"
| "measure_rules limit (rule # rules) m =
     (if length rule > limit - min (raw_bytes m) limit
      then Inl (bytes_limit_error (saturated_add (raw_bytes m) (length rule)) limit)
      else let m1 = m\<lparr>raw_bytes := raw_bytes m + length rule\<rparr> in
        case from_text rule of
          Inl e \<Rightarrow> measure_rules limit rules m1
        | Inr name \<Rightarrow>
            let bytes = length (canonical_key name) in
            if bytes > limit - min (measured_normalized_bytes m1) limit
            then Inl (bytes_limit_error (saturated_add (measured_normalized_bytes m1) bytes) limit)
            else measure_rules limit rules (m1\<lparr>measured_normalized_bytes := measured_normalized_bytes m1 + bytes\<rparr>))"

definition validate_filter_rule_set ::
  "byte list list \<Rightarrow> filter_update_limits \<Rightarrow> filter_update_error + filter_rule_measurement" where
  "validate_filter_rule_set rules limits =
     (if length rules > maximum_rule_count limits
      then Inl \<lparr>ue_code = RuleCountLimitExceeded, ue_build_error = None, ue_actual = length rules, ue_limit = maximum_rule_count limits\<rparr>
      else measure_rules (maximum_normalized_rule_bytes limits) rules \<lparr>raw_bytes = 0, measured_normalized_bytes = 0\<rparr>)"

section \<open>State\<close>

datatype command_phase = Queued | Building | Publishing | Committed | Completed

text \<open>A command names its promise by its index in \<open>fu_promises\<close>.\<close>

record update_command =
  cmd_rules :: "byte list list"
  cmd_accounted_bytes :: nat
  cmd_phase :: command_phase
  cmd_target :: "filter_version option"
  cmd_published :: "filter_version option"
  cmd_completion :: nat

definition new_command :: "byte list list \<Rightarrow> nat \<Rightarrow> nat \<Rightarrow> update_command" where
  "new_command rules bytes completion = \<lparr>cmd_rules = rules, cmd_accounted_bytes = bytes, cmd_phase = Queued, cmd_target = None,
     cmd_published = None, cmd_completion = completion\<rparr>"

text \<open>Every promise that was made, with the rules it was made for and the value once it is set.\<close>

record filter_updates =
  fu_limits :: filter_update_limits
  fu_pending :: "update_command list"
  fu_inflight :: "update_command option"
  fu_queued_rule_bytes :: nat
  fu_build_stop :: bool
  fu_sealed :: bool
  fu_sealed_acknowledged :: bool
  fu_terminal_detach_requested :: bool
  fu_runner_active :: bool
  fu_fail_after_commit :: bool
  fu_promises :: "(byte list list \<times> filter_update_result option) list"

datatype filter_runner_exit_code = RunnerRequestedStop | RunnerFatalExit

datatype successor_completion = SuccessorCompleted | SuccessorReclaimerUnavailable | SuccessorWriterStillRunning | SuccessorInternalError

definition kMaximumPendingUpdates :: nat where "kMaximumPendingUpdates = 64"

text \<open>The constructor throws, \<open>None\<close>, unless there is a published generation and no limit is zero.\<close>

definition new_filter_updates :: "filter_publication \<Rightarrow> filter_update_limits \<Rightarrow> filter_updates option" where
  "new_filter_updates p limits =
     (if fp_generation p = 0 \<or> maximum_rule_count limits = 0 \<or> maximum_normalized_rule_bytes limits = 0
         \<or> maximum_queued_rule_bytes limits = 0 then None
      else Some \<lparr>fu_limits = limits, fu_pending = [], fu_inflight = None, fu_queued_rule_bytes = 0, fu_build_stop = False,
        fu_sealed = False, fu_sealed_acknowledged = False, fu_terminal_detach_requested = False, fu_runner_active = False,
        fu_fail_after_commit = False, fu_promises = []\<rparr>)"

section \<open>Operations\<close>

text \<open>\<open>set_value\<close> on a promise that has a value throws, and \<open>complete\<close> swallows the exception.\<close>

definition complete :: "nat \<Rightarrow> filter_update_result \<Rightarrow> filter_updates \<Rightarrow> filter_updates" where
  "complete i result c =
     (if i < length (fu_promises c) \<and> snd (fu_promises c ! i) = None
      then c\<lparr>fu_promises := (fu_promises c)[i := (fst (fu_promises c ! i), Some result)]\<rparr> else c)"

text \<open>
  The result of \<open>submit_replace\<close> is a future that has a value already, or the promise of the command.
\<close>

definition submit_replace :: "byte list list \<Rightarrow> filter_updates \<Rightarrow> (filter_update_result + nat) \<times> filter_updates" where
  "submit_replace rules c =
     (case validate_filter_rule_set rules (fu_limits c) of
        Inl e \<Rightarrow> (Inl (Inl e), c)
      | Inr measured \<Rightarrow>
          let command = new_command rules (raw_bytes measured) (length (fu_promises c));
              made = c\<lparr>fu_promises := fu_promises c @ [(rules, None)]\<rparr>;
              reject = (\<lambda>code actual limit. (Inr (cmd_completion command), complete (cmd_completion command)
                 (Inl \<lparr>ue_code = code, ue_build_error = None, ue_actual = actual, ue_limit = limit\<rparr>) made))
          in if fu_sealed c then reject ShuttingDown 0 0
             else if length (fu_pending c) \<ge> kMaximumPendingUpdates
             then reject QueueFull (length (fu_pending c) + 1) kMaximumPendingUpdates
             else if cmd_accounted_bytes command > maximum_queued_rule_bytes (fu_limits c)
                       - min (fu_queued_rule_bytes c) (maximum_queued_rule_bytes (fu_limits c))
             then reject QueueBytesLimitExceeded (saturated_add (fu_queued_rule_bytes c) (cmd_accounted_bytes command))
                    (maximum_queued_rule_bytes (fu_limits c))
             else (Inr (cmd_completion command), made\<lparr>fu_pending := fu_pending c @ [command],
                     fu_queued_rule_bytes := fu_queued_rule_bytes c + cmd_accounted_bytes command\<rparr>))"

text \<open>\<open>seal\<close> stops the build, seals the publication and empties the queue; each part is one step for the other threads.\<close>

definition seal_request_stop :: "filter_updates \<Rightarrow> filter_updates" where
  "seal_request_stop c = c\<lparr>fu_build_stop := True\<rparr>"

definition complete_all :: "filter_update_error_code \<Rightarrow> update_command list \<Rightarrow> filter_updates \<Rightarrow> filter_updates" where
  "complete_all code commands c = fold (\<lambda>command. complete (cmd_completion command) (update_error code None)) commands c"

definition seal_queue :: "filter_updates \<Rightarrow> filter_updates" where
  "seal_queue c =
     (let c1 = (if \<not> fu_sealed c then c\<lparr>fu_sealed := True, fu_pending := [], fu_queued_rule_bytes := 0\<rparr> else c)
      in complete_all ShuttingDown (if \<not> fu_sealed c then fu_pending c else []) (c1\<lparr>fu_sealed_acknowledged := True\<rparr>))"

definition request_detach :: "filter_updates \<Rightarrow> filter_updates" where
  "request_detach c = c\<lparr>fu_terminal_detach_requested := True\<rparr>"

definition seal :: "filter_publication \<Rightarrow> filter_updates \<Rightarrow> filter_publication \<times> filter_updates" where
  "seal p c = (seal_publication p, seal_queue (seal_request_stop c))"

definition request_terminal_detach :: "filter_publication \<Rightarrow> filter_updates \<Rightarrow> filter_publication \<times> filter_updates" where
  "request_terminal_detach p c = (case seal p c of (p', c') \<Rightarrow> (p', request_detach c'))"

text \<open>The destructor closes the controller and waits for the runner, \<open>None\<close> while it is active.\<close>

definition destroy_filter_updates :: "filter_publication \<Rightarrow> filter_updates \<Rightarrow> (filter_publication \<times> filter_updates) option" where
  "destroy_filter_updates p c =
     (case request_terminal_detach p c of (p', c') \<Rightarrow> if fu_runner_active c' then None else Some (p', c'))"

definition wait_until_sealed :: "bool \<Rightarrow> filter_updates \<Rightarrow> bool option" where
  "wait_until_sealed stop c = (if fu_sealed_acknowledged c then Some True else if stop then Some False else None)"

definition cancel_pending :: "filter_update_error_code \<Rightarrow> filter_updates \<Rightarrow> filter_updates" where
  "cancel_pending code c = complete_all code (fu_pending c) (c\<lparr>fu_pending := [], fu_queued_rule_bytes := 0\<rparr>)"

definition reconcile_inflight :: "filter_publication \<Rightarrow> filter_updates \<Rightarrow> filter_updates" where
  "reconcile_inflight p c =
     (case fu_inflight c of
        None \<Rightarrow> c
      | Some command \<Rightarrow>
          if cmd_phase command \<noteq> Publishing \<or> cmd_target command = None then c
          else if Some (current_version p) = cmd_target command
          then c\<lparr>fu_inflight := Some (command\<lparr>cmd_phase := Committed, cmd_published := cmd_target command\<rparr>)\<rparr>
          else c\<lparr>fu_inflight := Some (command\<lparr>cmd_phase := Building, cmd_target := None\<rparr>)\<rparr>)"

definition inject_postcommit_failure :: "filter_updates \<Rightarrow> filter_updates" where
  "inject_postcommit_failure c = c\<lparr>fu_fail_after_commit := True\<rparr>"

section \<open>The runner\<close>

text \<open>
  \<open>run\<close> and \<open>apply\<close> are split where they give up the mutex, wait or call into another component; the
  program counter names the place and carries the locals that live across it.  \<open>None\<close> is a wait that has
  not ended.
\<close>

datatype runner_pc =
    RunnerStopped
  | RunnerIdle
  | RunnerDetaching
  | RunnerApplying
  | RunnerAcquiring u64
  | RunnerBuilding u64
  | RunnerPublishing filter_snapshot
  | RunnerConverging filter_version
  | RunnerCompleting filter_update_result
  | RunnerLeaving filter_runner_exit_code
  | RunnerReturned filter_runner_exit_code

definition run_begin :: "filter_updates \<Rightarrow> filter_runner_exit_code option \<times> filter_updates" where
  "run_begin c = (if fu_runner_active c then (Some RunnerFatalExit, c) else (None, c\<lparr>fu_runner_active := True\<rparr>))"

definition run_take :: "filter_updates \<Rightarrow> (runner_pc \<times> filter_updates) option" where
  "run_take c =
     (case fu_pending c of
        command # rest \<Rightarrow>
          Some (RunnerApplying, c\<lparr>fu_inflight := Some (command\<lparr>cmd_phase := Building\<rparr>), fu_pending := rest,
             fu_queued_rule_bytes := fu_queued_rule_bytes c - min (fu_queued_rule_bytes c) (cmd_accounted_bytes command)\<rparr>)
      | [] \<Rightarrow> if fu_terminal_detach_requested c then Some (RunnerDetaching, c) else None)"

definition run_detach :: "int \<Rightarrow> filter_publication \<Rightarrow> epochs \<Rightarrow> runner_pc \<times> filter_publication" where
  "run_detach now p eps =
     (case detach_terminal_snapshot now p eps of
        (detached, p') \<Rightarrow> (RunnerLeaving (if detached then RunnerRequestedStop else RunnerFatalExit), p'))"

definition apply_begin :: "filter_publication \<Rightarrow> filter_updates \<Rightarrow> runner_pc" where
  "apply_begin p c =
     (if fu_build_stop c then RunnerCompleting (update_error ShuttingDown None)
      else let current = current_version p in
        if fv_generation current = - 1 then RunnerCompleting (update_error GenerationExhausted None)
        else RunnerAcquiring (fv_generation current))"

definition apply_acquire :: "u64 \<Rightarrow> filter_publication \<Rightarrow> filter_updates \<Rightarrow> (runner_pc \<times> filter_publication) option" where
  "apply_acquire current p c =
     (case acquire_retirement_credit (fu_build_stop c) p of
        None \<Rightarrow> None
      | Some (acquired, p') \<Rightarrow>
          Some (if acquired then RunnerBuilding (current + 1) else RunnerCompleting (update_error ShuttingDown None), p'))"

text \<open>
  The builder throws, reports an error of the rules, or returns a snapshot that may be null; whether it is
  asked to stop is polled while it runs.
\<close>

datatype builder_result =
    BuilderThrows
  | BuilderFails blocklist_error_code nat
  | BuilderReturns "filter_context option"

type_synonym filter_builder = "(nat \<Rightarrow> bool) \<Rightarrow> byte list list \<Rightarrow> u64 \<Rightarrow> builder_result option"

definition default_builder :: "(byte list \<Rightarrow> u64) \<Rightarrow> filter_builder" where
  "default_builder xxh3 stop rules g =
     (case build_filter_snapshot xxh3 stop rules g of
        None \<Rightarrow> None
      | Some (Inl (BuildError code i)) \<Rightarrow> Some (BuilderFails code i)
      | Some (Inl BuildLengthError) \<Rightarrow> Some BuilderThrows
      | Some (Inr ctx) \<Rightarrow> Some (BuilderReturns (Some ctx)))"

definition set_inflight :: "(update_command \<Rightarrow> update_command) \<Rightarrow> filter_updates \<Rightarrow> filter_updates" where
  "set_inflight f c = c\<lparr>fu_inflight := map_option f (fu_inflight c)\<rparr>"

text \<open>What follows the call of the builder; \<open>address\<close> is where the new snapshot was allocated.\<close>

definition apply_built ::
  "u64 \<Rightarrow> nat \<Rightarrow> builder_result \<Rightarrow> filter_publication \<Rightarrow> filter_updates \<Rightarrow> runner_pc \<times> filter_publication \<times> filter_updates" where
  "apply_built next_generation address r p c =
     (let fail = (\<lambda>code e. (RunnerCompleting (update_error code e), release_uncommitted_credit p, c)) in
      case r of
        BuilderThrows \<Rightarrow> fail (if fu_build_stop c then ShuttingDown else UpdateInternalError) None
      | BuilderFails code i \<Rightarrow>
          if fu_build_stop c \<or> code = BL_Cancelled then fail ShuttingDown None else fail BuildFailed (Some (code, i))
      | BuilderReturns None \<Rightarrow> fail UpdateInternalError None
      | BuilderReturns (Some ctx) \<Rightarrow>
          if generation ctx \<noteq> next_generation then fail UpdateInternalError None
          else if fu_build_stop c then fail ShuttingDown None
          else (RunnerPublishing (address, ctx), p,
                set_inflight (\<lambda>command. command\<lparr>cmd_target := Some \<lparr>fv_generation = generation ctx,
                  fv_rule_count = rule_count (blocklist ctx)\<rparr>, cmd_phase := Publishing\<rparr>) c))"

definition apply_commit ::
  "int \<Rightarrow> filter_snapshot \<Rightarrow> filter_publication \<Rightarrow> epochs \<Rightarrow> filter_updates \<Rightarrow> runner_pc \<times> filter_publication \<times> filter_updates" where
  "apply_commit now candidate p eps c =
     (case commit now (Some candidate) p eps of
        (Inl e, _, p') \<Rightarrow>
          (RunnerCompleting (update_error (if e = PublicationSealed then ShuttingDown else UpdateInternalError) None),
           release_uncommitted_credit p', set_inflight (\<lambda>command. command\<lparr>cmd_phase := Building, cmd_target := None\<rparr>) c)
      | (Inr v, _, p') \<Rightarrow>
          let c1 = set_inflight (\<lambda>command. command\<lparr>cmd_phase := Committed, cmd_published := Some v\<rparr>) c in
          if fu_fail_after_commit c
          then (RunnerCompleting (update_error (if fu_build_stop c then ShuttingDown else UpdateInternalError) None), p',
                c1\<lparr>fu_fail_after_commit := False\<rparr>)
          else (RunnerConverging v, p', c1))"

definition apply_converged :: "filter_version \<Rightarrow> filter_publication \<Rightarrow> runner_pc option" where
  "apply_converged v p =
     (case wait_until_converged (fv_generation v) p of
        None \<Rightarrow> None
      | Some r \<Rightarrow> Some (RunnerCompleting (if r = WaitConverged then Inr v else update_error UpdateInternalError None)))"

definition run_complete :: "filter_update_result \<Rightarrow> filter_updates \<Rightarrow> runner_pc \<times> filter_updates" where
  "run_complete result c =
     (case fu_inflight c of
        None \<Rightarrow> (RunnerIdle, c)
      | Some command \<Rightarrow>
          if isl result \<and> cmd_phase command = Committed then (RunnerLeaving RunnerFatalExit, c)
          else (RunnerIdle, (complete (cmd_completion command) result c)\<lparr>fu_inflight := None\<rparr>))"

text \<open>The part of \<open>finish_run\<close> after its call of \<open>seal\<close>.\<close>

definition finish_run :: "filter_publication \<Rightarrow> filter_updates \<Rightarrow> filter_updates" where
  "finish_run p c =
     (let c1 = reconcile_inflight p (cancel_pending ShuttingDown c);
          c2 = (case fu_inflight c1 of
                  None \<Rightarrow> c1
                | Some command \<Rightarrow>
                    if cmd_phase command \<noteq> Committed
                    then (complete (cmd_completion command) (update_error UpdateInternalError None) c1)\<lparr>fu_inflight := None\<rparr>
                    else c1)
      in c2\<lparr>fu_runner_active := False\<rparr>)"

section \<open>The successor\<close>

text \<open>
  \<open>complete_committed_by_successor\<close> up to its wait, with the version it waits for, and after it.
\<close>

definition successor_begin ::
  "filter_publication \<Rightarrow> filter_updates \<Rightarrow> (successor_completion + filter_version) \<times> filter_updates" where
  "successor_begin p c =
     (if fu_runner_active c then (Inl SuccessorWriterStillRunning, c)
      else let c1 = reconcile_inflight p c in
        case fu_inflight c1 of
          None \<Rightarrow> (Inl SuccessorCompleted, c1)
        | Some command \<Rightarrow>
            (case (cmd_phase command, cmd_published command) of
               (Committed, Some published) \<Rightarrow> (Inr published, c1)
             | _ \<Rightarrow> (Inl SuccessorCompleted,
                      complete (cmd_completion command) (update_error UpdateInternalError None) (c1\<lparr>fu_inflight := None\<rparr>))))"

definition successor_end ::
  "filter_version \<Rightarrow> filter_publication \<Rightarrow> filter_updates \<Rightarrow> (successor_completion \<times> filter_updates) option" where
  "successor_end published p c =
     (case wait_until_converged (fv_generation published) p of
        None \<Rightarrow> None
      | Some WaitReclaimerUnavailable \<Rightarrow> Some (SuccessorReclaimerUnavailable, c)
      | Some WaitInternalError \<Rightarrow> Some (SuccessorInternalError, c)
      | Some WaitConverged \<Rightarrow>
          (case fu_inflight c of
             None \<Rightarrow> Some (SuccessorCompleted, c)
           | Some command \<Rightarrow>
               if cmd_phase command \<noteq> Committed \<or> cmd_published command \<noteq> Some published then Some (SuccessorInternalError, c)
               else Some (SuccessorCompleted, complete (cmd_completion command) (Inr published) (c\<lparr>fu_inflight := None\<rparr>))))"

section \<open>The update protocol\<close>

text \<open>
  The controller with the publication it writes, the runner and the successor that waits, if any.  The
  history records which rules each generation was built from.
\<close>

record upd_world =
  uw_pub :: pub_world
  uw_ctl :: filter_updates
  uw_pc :: runner_pc
  uw_successor :: "filter_version option"
  uw_history :: "(u64 \<times> byte list list) list"

abbreviation uw_publication :: "upd_world \<Rightarrow> filter_publication" where
  "uw_publication w \<equiv> pw_pub (uw_pub w)"

definition set_publication :: "filter_publication \<Rightarrow> upd_world \<Rightarrow> upd_world" where
  "set_publication p w = w\<lparr>uw_pub := (uw_pub w)\<lparr>pw_pub := p\<rparr>\<rparr>"

inductive upd_step :: "filter_builder \<Rightarrow> upd_world \<Rightarrow> upd_world \<Rightarrow> bool" for builder where
  upd_env: "pub_env_step (uw_pub w) p' \<Longrightarrow> upd_step builder w (w\<lparr>uw_pub := p'\<rparr>)"
| upd_submit: "submit_replace rules (uw_ctl w) = (r, c) \<Longrightarrow> upd_step builder w (w\<lparr>uw_ctl := c\<rparr>)"
| upd_stop: "upd_step builder w (w\<lparr>uw_ctl := seal_request_stop (uw_ctl w)\<rparr>)"
| upd_seal_publication:
    "fu_build_stop (uw_ctl w) \<Longrightarrow> upd_step builder w (set_publication (seal_publication (uw_publication w)) w)"
| upd_seal_queue:
    "fu_build_stop (uw_ctl w) \<Longrightarrow> fp_sealed (uw_publication w) \<Longrightarrow> upd_step builder w (w\<lparr>uw_ctl := seal_queue (uw_ctl w)\<rparr>)"
| upd_request_detach: "fu_sealed (uw_ctl w) \<Longrightarrow> upd_step builder w (w\<lparr>uw_ctl := request_detach (uw_ctl w)\<rparr>)"
| upd_inject: "upd_step builder w (w\<lparr>uw_ctl := inject_postcommit_failure (uw_ctl w)\<rparr>)"
| upd_run_begin:
    "uw_pc w = RunnerStopped \<Longrightarrow> run_begin (uw_ctl w) = (None, c) \<Longrightarrow> upd_step builder w (w\<lparr>uw_ctl := c, uw_pc := RunnerIdle\<rparr>)"
| upd_run_take:
    "uw_pc w = RunnerIdle \<Longrightarrow> run_take (uw_ctl w) = Some (pc, c) \<Longrightarrow> upd_step builder w (w\<lparr>uw_ctl := c, uw_pc := pc\<rparr>)"
| upd_run_detach:
    "uw_pc w = RunnerDetaching \<Longrightarrow> run_detach now (uw_publication w) (pw_epochs (uw_pub w)) = (pc, p)
     \<Longrightarrow> upd_step builder w (set_publication p (w\<lparr>uw_pc := pc\<rparr>))"
| upd_apply_begin:
    "uw_pc w = RunnerApplying \<Longrightarrow> upd_step builder w (w\<lparr>uw_pc := apply_begin (uw_publication w) (uw_ctl w)\<rparr>)"
| upd_apply_acquire:
    "uw_pc w = RunnerAcquiring current \<Longrightarrow> apply_acquire current (uw_publication w) (uw_ctl w) = Some (pc, p)
     \<Longrightarrow> upd_step builder w (set_publication p (w\<lparr>uw_pc := pc\<rparr>))"
| upd_apply_built:
    "uw_pc w = RunnerBuilding g \<Longrightarrow> fu_inflight (uw_ctl w) = Some command \<Longrightarrow> builder stop (cmd_rules command) g = Some r
     \<Longrightarrow> apply_built g address r (uw_publication w) (uw_ctl w) = (pc, p, c)
     \<Longrightarrow> upd_step builder w (set_publication p (w\<lparr>uw_ctl := c, uw_pc := pc\<rparr>))"
| upd_apply_commit:
    "uw_pc w = RunnerPublishing candidate \<Longrightarrow> use_count (uw_pub w) candidate = 0
     \<Longrightarrow> fu_inflight (uw_ctl w) = Some command
     \<Longrightarrow> apply_commit now candidate (uw_publication w) (pw_epochs (uw_pub w)) (uw_ctl w) = (pc, p, c)
     \<Longrightarrow> upd_step builder w (set_publication p (w\<lparr>uw_ctl := c, uw_pc := pc,
          uw_history := (if fp_generation p \<noteq> fp_generation (uw_publication w) then [(fp_generation p, cmd_rules command)] else [])
            @ uw_history w\<rparr>))"
| upd_apply_converged:
    "uw_pc w = RunnerConverging v \<Longrightarrow> apply_converged v (uw_publication w) = Some pc \<Longrightarrow> upd_step builder w (w\<lparr>uw_pc := pc\<rparr>)"
| upd_run_complete:
    "uw_pc w = RunnerCompleting result \<Longrightarrow> run_complete result (uw_ctl w) = (pc, c)
     \<Longrightarrow> upd_step builder w (w\<lparr>uw_ctl := c, uw_pc := pc\<rparr>)"
| upd_finish_run:
    "uw_pc w = RunnerLeaving code \<Longrightarrow> fu_build_stop (uw_ctl w) \<Longrightarrow> fp_sealed (uw_publication w) \<Longrightarrow> fu_sealed (uw_ctl w)
     \<Longrightarrow> upd_step builder w (w\<lparr>uw_ctl := finish_run (uw_publication w) (uw_ctl w), uw_pc := RunnerReturned code\<rparr>)"
| upd_successor_begin:
    "uw_successor w = None \<Longrightarrow> successor_begin (uw_publication w) (uw_ctl w) = (r, c)
     \<Longrightarrow> upd_step builder w (w\<lparr>uw_ctl := c, uw_successor := (case r of Inl _ \<Rightarrow> None | Inr v \<Rightarrow> Some v)\<rparr>)"
| upd_successor_end:
    "uw_successor w = Some v \<Longrightarrow> successor_end v (uw_publication w) (uw_ctl w) = Some (r, c)
     \<Longrightarrow> upd_step builder w (w\<lparr>uw_ctl := c, uw_successor := None\<rparr>)"

text \<open>Whether a snapshot is one that the builder returned for these rules.\<close>

definition built_from :: "filter_builder \<Rightarrow> byte list list \<Rightarrow> filter_snapshot \<Rightarrow> bool" where
  "built_from builder rules s \<longleftrightarrow> (\<exists>stop. builder stop rules (snapshot_generation s) = Some (BuilderReturns (Some (snd s))))"

inductive upd_reachable :: "filter_builder \<Rightarrow> upd_world \<Rightarrow> bool" for builder where
  upd_new:
    "built_from builder rules initial \<Longrightarrow> new_publication (Some initial) n timeout = Some p \<Longrightarrow> new_filter_updates p limits = Some c
     \<Longrightarrow> upd_reachable builder \<lparr>uw_pub = \<lparr>pw_pub = p, pw_epochs = (\<lambda>_. \<lparr>we_instance = 0,
             we_observed = kUnobservedFilterGeneration, we_registration = Unregistered, we_quiesced = 0\<rparr>),
             pw_locals = replicate n None, pw_destroying = None\<rparr>,
           uw_ctl = c, uw_pc = RunnerStopped, uw_successor = None, uw_history = [(snapshot_generation initial, rules)]\<rparr>"
| upd_then: "upd_reachable builder w \<Longrightarrow> upd_step builder w w' \<Longrightarrow> upd_reachable builder w'"

section \<open>Measuring a rule set\<close>

definition raw_total :: "byte list list \<Rightarrow> nat" where
  "raw_total rules = sum_list (map length rules)"

definition normalized_total :: "byte list list \<Rightarrow> nat" where
  "normalized_total rules = sum_list (map (\<lambda>rule. case from_text rule of Inl _ \<Rightarrow> 0 | Inr name \<Rightarrow> length (canonical_key name)) rules)"

lemma totals_simps [simp]:
  "raw_total [] = 0" "raw_total (r # rs) = length r + raw_total rs" "normalized_total [] = 0"
  "normalized_total (r # rs) = (case from_text r of Inl _ \<Rightarrow> 0 | Inr name \<Rightarrow> length (canonical_key name)) + normalized_total rs"
  by (simp_all add: raw_total_def normalized_total_def)

lemma measure_rules_iff:
  assumes "raw_bytes m \<le> limit" and "measured_normalized_bytes m \<le> limit"
  shows "measure_rules limit rules m = Inr m' \<longleftrightarrow>
    raw_bytes m + raw_total rules \<le> limit \<and> measured_normalized_bytes m + normalized_total rules \<le> limit
    \<and> m' = \<lparr>raw_bytes = raw_bytes m + raw_total rules, measured_normalized_bytes = measured_normalized_bytes m + normalized_total rules\<rparr>"
  using assms
proof (induction rules arbitrary: m)
  case (Cons rule rules)
  show ?case
  proof (cases "length rule > limit - min (raw_bytes m) limit")
    case True
    then show ?thesis
      using Cons.prems by (auto simp: min_def)
  next
    case False
    then have len: "raw_bytes m + length rule \<le> limit"
      using Cons.prems by auto
    show ?thesis
    proof (cases "from_text rule")
      case (Inl e)
      then show ?thesis
        using False len Cons.prems Cons.IH [of "m\<lparr>raw_bytes := raw_bytes m + length rule\<rparr>"]
        by (simp add: Let_def add.assoc)
    next
      case (Inr name)
      then show ?thesis
        using False len Cons.prems Cons.IH [of "m\<lparr>raw_bytes := raw_bytes m + length rule,
            measured_normalized_bytes := measured_normalized_bytes m + length (canonical_key name)\<rparr>"]
        by (auto simp add: Let_def add.assoc min_def)
    qed
  qed
qed auto

lemma measure_rules_error:
  "measure_rules limit rules m = Inl e \<Longrightarrow> ue_code e = RuleBytesLimitExceeded \<and> ue_limit e = limit \<and> ue_build_error e = None"
  by (induction limit rules m rule: measure_rules.induct)
     (auto simp: Let_def bytes_limit_error_def split: if_splits sum.splits)

text \<open>
  The limits on a rule set: \<open>validate_filter_rule_set\<close> accepts a set exactly when it has no more rules
  than allowed and neither the bytes of the rules as given nor the bytes of their canonical keys exceed the
  limit, and it returns both sums; otherwise it reports the number of rules, or that the bytes exceed the
  limit.  The saturating subtractions of the running test never let a set through that the sums exclude.
\<close>

lemma validate_filter_rule_set_iff:
  "(validate_filter_rule_set rules limits = Inr m \<longleftrightarrow>
      length rules \<le> maximum_rule_count limits \<and> raw_total rules \<le> maximum_normalized_rule_bytes limits
      \<and> normalized_total rules \<le> maximum_normalized_rule_bytes limits
      \<and> m = \<lparr>raw_bytes = raw_total rules, measured_normalized_bytes = normalized_total rules\<rparr>)
   \<and> (case validate_filter_rule_set rules limits of
        Inr _ \<Rightarrow> True
      | Inl e \<Rightarrow> ue_code e = (if length rules > maximum_rule_count limits then RuleCountLimitExceeded else RuleBytesLimitExceeded))"
  using measure_rules_iff [of "\<lparr>raw_bytes = 0, measured_normalized_bytes = 0\<rparr>" "maximum_normalized_rule_bytes limits" rules m]
    measure_rules_error [of "maximum_normalized_rule_bytes limits" rules "\<lparr>raw_bytes = 0, measured_normalized_bytes = 0\<rparr>"]
  by (auto simp: validate_filter_rule_set_def split: sum.splits)

section \<open>What the other threads leave to the controller\<close>

definition live_snapshots :: "filter_publication \<Rightarrow> filter_snapshot set" where
  "live_snapshots p = set_option (fp_active p) \<union> set_option (rec_owner (fp_retired p)) \<union> set_option (rec_owner (fp_terminal p))"

definition env_frame :: "filter_publication \<Rightarrow> filter_publication \<Rightarrow> bool" where
  "env_frame p p' \<longleftrightarrow>
     fp_generation p' = fp_generation p \<and> fp_rule_count p' = fp_rule_count p \<and> fp_last_converged p \<le> fp_last_converged p'
     \<and> (fp_sealed p \<longrightarrow> fp_sealed p') \<and> live_snapshots p' \<subseteq> live_snapshots p
     \<and> (\<not> rec_pending (fp_retired p) \<longrightarrow> \<not> rec_pending (fp_retired p') \<and> fp_credit_held p' = fp_credit_held p)
     \<and> (fp_credit_held p' \<longrightarrow> fp_credit_held p \<and> (rec_pending (fp_retired p) \<longrightarrow> rec_pending (fp_retired p')))"

lemma env_frame_refl [simp]: "env_frame p p"
  by (simp add: env_frame_def)

lemma env_frame_fields:
  assumes "fp_generation p' = fp_generation p" and "fp_rule_count p' = fp_rule_count p" and "fp_last_converged p' = fp_last_converged p"
    and "fp_sealed p \<longrightarrow> fp_sealed p'" and "fp_active p' = fp_active p" and "fp_retired p' = fp_retired p"
    and "fp_terminal p' = fp_terminal p" and "fp_credit_held p' = fp_credit_held p"
  shows "env_frame p p'"
  using assms by (simp add: env_frame_def live_snapshots_def)

lemma env_frame_taken:
  assumes "rec_pending (record_of which p)"
  shows "env_frame p (taken which p)"
  using assms by (cases which) (auto simp: env_frame_def taken_def set_record_def record_of_def live_snapshots_def)

lemma env_frame_destroyed:
  assumes "rec_pending (record_of which p)"
  shows "env_frame p (reclaimer_destroyed which g b p)"
  using assms
  by (cases which) (auto simp: env_frame_def reclaimer_destroyed_def set_record_def record_of_def cleared_record_def live_snapshots_def Let_def)

lemma env_frame_reclaim_record:
  assumes "rec_pending (record_of which p)"
  shows "env_frame p (reclaim_record which p)"
  using assms
  by (cases which) (auto simp: env_frame_def reclaim_record_def set_record_def record_of_def cleared_record_def live_snapshots_def Let_def)

lemma env_frame_trans: "env_frame p q \<Longrightarrow> env_frame q r \<Longrightarrow> env_frame p r"
  unfolding env_frame_def by (elim conjE, intro conjI) auto

lemma env_frame_detach:
  assumes "detach_terminal_snapshot now p eps = (r, p')"
  shows "env_frame p p'" and "r"
  using assms
  by (auto simp: detach_terminal_snapshot_def env_frame_def live_snapshots_def Let_def split: if_splits option.splits)

lemma env_frame_emergency:
  assumes "emergency_reclaim_converged u p eps = (r, p')"
  shows "env_frame p p'"
proof (cases r)
  case False
  then have "p' = p"
    using assms by (auto simp: emergency_reclaim_converged_def reclaim_converged_locked_def Let_def split: if_splits)
  then show ?thesis by simp
next
  case True
  let ?p1 = "if rec_pending (fp_retired p) then reclaim_record True p else p"
  have p': "p' = (if rec_pending (fp_terminal ?p1) then reclaim_record False ?p1 else ?p1)"
    using assms True by (auto simp: emergency_reclaim_converged_def reclaim_converged_locked_def Let_def split: if_splits)
  have "env_frame p ?p1"
    using env_frame_reclaim_record [of True p] by (simp add: record_of_def)
  moreover have "env_frame ?p1 p'"
    using env_frame_reclaim_record [of False ?p1] unfolding p' by (simp add: record_of_def)
  ultimately show ?thesis
    by (rule env_frame_trans)
qed

lemma env_frame_round:
  assumes inv: "pub_inv w"
  shows "env_frame (pw_pub w) (pw_pub (round_world stop now w))"
  using inv
proof (cases rule: reclaimer_step_cases [of w stop now])
  case (4 which)
  then show ?thesis
    using env_frame_taken [OF 4(2)] by (simp add: round_world_def)
qed (simp_all add: round_world_def reclaimer_end_def env_frame_fields)

lemmas env_updates = publish_progress_def seal_publication_def request_reclaimer_shutdown_def set_publication_sink_def
  wake_on_stop_def inject_reclaimer_failure_def inject_reclaimer_failure_after_next_commit_def

lemma env_step_frame:
  assumes "pub_env_step w w'" and inv: "pub_inv w"
  shows "env_frame (pw_pub w) (pw_pub w')"
  using assms(1)
proof (cases rule: pub_env_step.cases)
  case (step_register k inst s g p eps)
  then show ?thesis
    by (auto simp: register_worker_def split: if_splits option.splits intro!: env_frame_fields)
next
  case (step_refresh k inst r l p eps)
  then show ?thesis
    by (auto simp: refresh_worker_snapshot_def env_updates Let_def split: if_splits option.splits intro!: env_frame_fields)
next
  case (step_quiesce k inst p eps)
  then show ?thesis
    by (auto simp: quiesce_worker_def env_updates split: if_splits intro!: env_frame_fields)
next
  case (step_begin p)
  then show ?thesis
    by (auto simp: reclaimer_begin_def split: if_splits intro!: env_frame_fields)
next
  case (step_destroyed which s g b)
  then show ?thesis
    using inv env_frame_destroyed by (simp add: pub_inv_def)
qed (auto simp: env_updates env_frame_round [OF inv] intro: env_frame_fields env_frame_detach env_frame_emergency)

section \<open>Promises\<close>

text \<open>
  \<open>promises_ok\<close> relates the promises to the commands that the controller still has: a promise has no value
  exactly as long as its command is queued or in flight.
\<close>

type_synonym promise_key = "nat \<times> byte list list"

definition command_key :: "update_command \<Rightarrow> promise_key" where
  "command_key x = (cmd_completion x, cmd_rules x)"

definition open_keys :: "filter_updates \<Rightarrow> promise_key list" where
  "open_keys c = map command_key (fu_pending c) @ (case fu_inflight c of None \<Rightarrow> [] | Some x \<Rightarrow> [command_key x])"

definition promises_ok :: "(byte list list \<times> filter_update_result option) list \<Rightarrow> promise_key list \<Rightarrow> bool" where
  "promises_ok ps ks \<longleftrightarrow>
     distinct (map fst ks) \<and> (\<forall>(i, rules) \<in> set ks. i < length ps \<and> ps ! i = (rules, None))
     \<and> (\<forall>i < length ps. snd (ps ! i) = None \<longrightarrow> i \<in> fst ` set ks)"

lemma promises_ok_perm:
  assumes "mset ks = mset ks'"
  shows "promises_ok ps ks = promises_ok ps ks'"
proof -
  have "set ks = set ks'"
    using assms by (rule mset_eq_setD)
  moreover have "distinct (map fst ks) = distinct (map fst ks')"
    using assms by (metis mset_map mset_eq_imp_distinct_iff)
  ultimately show ?thesis
    by (simp add: promises_ok_def)
qed

lemma promises_ok_append: "promises_ok ps ks \<Longrightarrow> promises_ok (ps @ [(rules, None)]) (ks @ [(length ps, rules)])"
  by (fastforce simp: promises_ok_def nth_append less_Suc_eq)

lemma promises_ok_complete:
  assumes "promises_ok ps ((i, rules) # ks)"
  shows "promises_ok (ps[i := (rules, Some r)]) ks"
  unfolding promises_ok_def
proof (intro conjI)
  show "\<forall>(j, rules') \<in> set ks. j < length (ps[i := (rules, Some r)]) \<and> ps[i := (rules, Some r)] ! j = (rules', None)"
  proof (clarify, intro conjI)
    fix j rules' assume j: "(j, rules') \<in> set ks"
    then have "j \<noteq> i"
      using assms by (force simp: promises_ok_def)
    then show "j < length (ps[i := (rules, Some r)])" "ps[i := (rules, Some r)] ! j = (rules', None)"
      using assms j by (auto simp: promises_ok_def)
  qed
  show "\<forall>j < length (ps[i := (rules, Some r)]). snd (ps[i := (rules, Some r)] ! j) = None \<longrightarrow> j \<in> fst ` set ks"
    using assms by (auto simp: promises_ok_def nth_list_update)
qed (use assms in \<open>simp add: promises_ok_def\<close>)

lemma complete_open:
  assumes "promises_ok (fu_promises c) (command_key x # ks)"
  shows "complete (cmd_completion x) r c = c\<lparr>fu_promises := (fu_promises c)[cmd_completion x := (cmd_rules x, Some r)]\<rparr>"
    and "promises_ok (fu_promises (complete (cmd_completion x) r c)) ks"
proof -
  show c: "complete (cmd_completion x) r c = c\<lparr>fu_promises := (fu_promises c)[cmd_completion x := (cmd_rules x, Some r)]\<rparr>"
    using assms by (auto simp: promises_ok_def complete_def command_key_def)
  show "promises_ok (fu_promises (complete (cmd_completion x) r c)) ks"
    using promises_ok_complete [of "fu_promises c" "cmd_completion x" "cmd_rules x" ks r] assms
    by (simp add: c command_key_def)
qed

lemma complete_fields [simp]:
  "fu_limits (complete i r c) = fu_limits c" "fu_pending (complete i r c) = fu_pending c" "fu_inflight (complete i r c) = fu_inflight c"
  "fu_queued_rule_bytes (complete i r c) = fu_queued_rule_bytes c" "fu_build_stop (complete i r c) = fu_build_stop c"
  "fu_sealed (complete i r c) = fu_sealed c" "fu_terminal_detach_requested (complete i r c) = fu_terminal_detach_requested c"
  "fu_runner_active (complete i r c) = fu_runner_active c" "fu_sealed_acknowledged (complete i r c) = fu_sealed_acknowledged c"
  "length (fu_promises (complete i r c)) = length (fu_promises c)"
  by (simp_all add: complete_def)

lemma complete_all_fields [simp]:
  "fu_limits (complete_all code xs c) = fu_limits c" "fu_pending (complete_all code xs c) = fu_pending c"
  "fu_inflight (complete_all code xs c) = fu_inflight c"
  "fu_queued_rule_bytes (complete_all code xs c) = fu_queued_rule_bytes c" "fu_build_stop (complete_all code xs c) = fu_build_stop c"
  "fu_sealed (complete_all code xs c) = fu_sealed c"
  "fu_terminal_detach_requested (complete_all code xs c) = fu_terminal_detach_requested c"
  "fu_runner_active (complete_all code xs c) = fu_runner_active c"
  by (induction xs arbitrary: c) (simp_all add: complete_all_def)

lemma complete_all_open:
  assumes "promises_ok (fu_promises c) (map command_key xs @ ks)"
  shows "promises_ok (fu_promises (complete_all code xs c)) ks"
  using assms
proof (induction xs arbitrary: c)
  case (Cons x xs)
  then show ?case
    using complete_open(2) [of c x "map command_key xs @ ks"] by (simp add: complete_all_def)
qed (simp add: complete_all_def)

text \<open>A promise that has the value of a success belongs to a generation that has converged.\<close>

definition results_ok :: "u64 \<Rightarrow> (u64 \<times> byte list list) list \<Rightarrow> (byte list list \<times> filter_update_result option) list \<Rightarrow> bool" where
  "results_ok converged history ps \<longleftrightarrow>
     (\<forall>rules v. (rules, Some (Inr v)) \<in> set ps \<longrightarrow> fv_generation v \<le> converged \<and> (fv_generation v, rules) \<in> set history)"

lemma results_ok_mono:
  "results_ok g h ps \<Longrightarrow> g \<le> g' \<Longrightarrow> set h \<subseteq> set h' \<Longrightarrow> results_ok g' h' ps"
  unfolding results_ok_def by (meson order.trans subsetD)

lemma results_ok_append: "results_ok g h ps \<Longrightarrow> results_ok g h (ps @ [(rules, None)])"
  by (auto simp: results_ok_def)

lemma results_ok_complete:
  assumes "results_ok g h (fu_promises c)"
    and "case r of Inl _ \<Rightarrow> True | Inr v \<Rightarrow> fv_generation v \<le> g \<and> (fv_generation v, fst (fu_promises c ! i)) \<in> set h"
  shows "results_ok g h (fu_promises (complete i r c))"
  using assms set_update_subset_insert [of "fu_promises c" i "(fst (fu_promises c ! i), Some r)"]
  by (auto simp: results_ok_def complete_def split: sum.splits if_splits)

lemma results_ok_complete_error: "results_ok g h (fu_promises c) \<Longrightarrow> results_ok g h (fu_promises (complete i (Inl e) c))"
  by (rule results_ok_complete) auto

lemma results_ok_complete_all: "results_ok g h (fu_promises c) \<Longrightarrow> results_ok g h (fu_promises (complete_all code xs c))"
proof (induction xs arbitrary: c)
  case (Cons x xs)
  then show ?case
    using results_ok_complete_error by (simp add: complete_all_def update_error_def)
qed (simp add: complete_all_def)

section \<open>The invariant of the update protocol\<close>

definition queue_ok :: "filter_updates \<Rightarrow> bool" where
  "queue_ok c \<longleftrightarrow>
     length (fu_pending c) \<le> kMaximumPendingUpdates
     \<and> fu_queued_rule_bytes c = sum_list (map cmd_accounted_bytes (fu_pending c))
     \<and> fu_queued_rule_bytes c \<le> maximum_queued_rule_bytes (fu_limits c)
     \<and> (fu_sealed c \<longrightarrow> fu_pending c = []) \<and> (fu_terminal_detach_requested c \<longrightarrow> fu_sealed c)"

definition committed :: "(u64 \<times> byte list list) list \<Rightarrow> filter_updates \<Rightarrow> filter_version \<Rightarrow> bool" where
  "committed h c v \<longleftrightarrow>
     (\<exists>x. fu_inflight c = Some x \<and> cmd_phase x = Committed \<and> cmd_published x = Some v \<and> (fv_generation v, cmd_rules x) \<in> set h)"

definition building :: "filter_updates \<Rightarrow> bool" where
  "building c \<longleftrightarrow> (\<exists>x. fu_inflight c = Some x \<and> cmd_phase x = Building)"

text \<open>The runner holds the retirement credit and the next generation is its own.\<close>

definition may_commit :: "filter_publication \<Rightarrow> u64 \<Rightarrow> bool" where
  "may_commit p g \<longleftrightarrow> g = fp_generation p + 1 \<and> fp_generation p \<noteq> - 1 \<and> fp_credit_held p \<and> \<not> rec_pending (fp_retired p)"

fun pc_ok :: "filter_builder \<Rightarrow> (u64 \<times> byte list list) list \<Rightarrow> filter_publication \<Rightarrow> filter_updates \<Rightarrow> runner_pc \<Rightarrow> bool" where
  "pc_ok builder h p c RunnerStopped \<longleftrightarrow> \<not> fu_runner_active c \<and> fu_inflight c = None"
| "pc_ok builder h p c RunnerIdle \<longleftrightarrow> fu_runner_active c \<and> fu_inflight c = None"
| "pc_ok builder h p c RunnerDetaching \<longleftrightarrow> fu_runner_active c \<and> fu_inflight c = None \<and> fu_sealed c"
| "pc_ok builder h p c RunnerApplying \<longleftrightarrow> fu_runner_active c \<and> building c"
| "pc_ok builder h p c (RunnerAcquiring g) \<longleftrightarrow> fu_runner_active c \<and> building c \<and> g = fp_generation p \<and> g \<noteq> - 1"
| "pc_ok builder h p c (RunnerBuilding g) \<longleftrightarrow> fu_runner_active c \<and> building c \<and> may_commit p g"
| "pc_ok builder h p c (RunnerPublishing s) \<longleftrightarrow> fu_runner_active c \<and> may_commit p (snapshot_generation s)
     \<and> (\<exists>x. fu_inflight c = Some x \<and> cmd_phase x = Publishing \<and> built_from builder (cmd_rules x) s)"
| "pc_ok builder h p c (RunnerConverging v) \<longleftrightarrow> fu_runner_active c \<and> committed h c v"
| "pc_ok builder h p c (RunnerCompleting (Inr v)) \<longleftrightarrow> fu_runner_active c \<and> committed h c v \<and> fv_generation v \<le> fp_last_converged p"
| "pc_ok builder h p c (RunnerCompleting (Inl e)) \<longleftrightarrow> fu_runner_active c \<and> (building c \<or> (\<exists>v. committed h c v))"
| "pc_ok builder h p c (RunnerLeaving code) \<longleftrightarrow> fu_runner_active c \<and> (fu_inflight c = None \<or> (\<exists>v. committed h c v))"
| "pc_ok builder h p c (RunnerReturned code) \<longleftrightarrow>
     \<not> fu_runner_active c \<and> fu_sealed c \<and> (fu_inflight c = None \<or> (\<exists>v. committed h c v))"

fun holds_credit :: "runner_pc \<Rightarrow> bool" where
  "holds_credit (RunnerBuilding g) = True"
| "holds_credit (RunnerPublishing s) = True"
| "holds_credit _ = False"

definition history_ok :: "filter_builder \<Rightarrow> (u64 \<times> byte list list) list \<Rightarrow> filter_publication \<Rightarrow> bool" where
  "history_ok builder h p \<longleftrightarrow>
     distinct (map fst h) \<and> (\<forall>g \<in> fst ` set h. g \<le> fp_generation p)
     \<and> (\<forall>s \<in> live_snapshots p. \<exists>rules. (snapshot_generation s, rules) \<in> set h \<and> built_from builder rules s)"

definition upd_inv :: "filter_builder \<Rightarrow> upd_world \<Rightarrow> bool" where
  "upd_inv builder w \<longleftrightarrow>
     pub_inv (uw_pub w) \<and> queue_ok (uw_ctl w) \<and> promises_ok (fu_promises (uw_ctl w)) (open_keys (uw_ctl w))
     \<and> results_ok (fp_last_converged (uw_publication w)) (uw_history w) (fu_promises (uw_ctl w))
     \<and> history_ok builder (uw_history w) (uw_publication w)
     \<and> pc_ok builder (uw_history w) (uw_publication w) (uw_ctl w) (uw_pc w)
     \<and> (fu_sealed (uw_ctl w) \<longrightarrow> fp_sealed (uw_publication w))
     \<and> (fp_credit_held (uw_publication w) \<longrightarrow> rec_pending (fp_retired (uw_publication w)) \<or> holds_credit (uw_pc w))
     \<and> (\<forall>v. uw_successor w = Some v \<longrightarrow> (\<exists>code. uw_pc w = RunnerReturned code) \<and> committed (uw_history w) (uw_ctl w) v)"

lemma upd_invD:
  assumes "upd_inv builder w"
  shows "pub_inv (uw_pub w)" "queue_ok (uw_ctl w)" "promises_ok (fu_promises (uw_ctl w)) (open_keys (uw_ctl w))"
    "results_ok (fp_last_converged (uw_publication w)) (uw_history w) (fu_promises (uw_ctl w))"
    "history_ok builder (uw_history w) (uw_publication w)"
    "pc_ok builder (uw_history w) (uw_publication w) (uw_ctl w) (uw_pc w)"
    "fu_sealed (uw_ctl w) \<Longrightarrow> fp_sealed (uw_publication w)"
    "fp_credit_held (uw_publication w) \<Longrightarrow> rec_pending (fp_retired (uw_publication w)) \<or> holds_credit (uw_pc w)"
    "uw_successor w = Some v \<Longrightarrow> (\<exists>code. uw_pc w = RunnerReturned code) \<and> committed (uw_history w) (uw_ctl w) v"
  using assms by (auto simp: upd_inv_def)

lemma committed_cong: "fu_inflight c' = fu_inflight c \<Longrightarrow> committed h c' = committed h c"
  by (simp add: committed_def fun_eq_iff)

lemma pc_ok_frame:
  assumes "env_frame p p'" and "pc_ok builder h p c pc"
  shows "pc_ok builder h p' c pc"
  using assms by (cases "(builder, h, p, c, pc)" rule: pc_ok.cases) (auto simp: env_frame_def may_commit_def)

lemma pc_ok_ctl:
  assumes "pc_ok builder h p c pc" and "fu_inflight c' = fu_inflight c" and "fu_runner_active c' = fu_runner_active c"
    and "fu_sealed c \<longrightarrow> fu_sealed c'"
  shows "pc_ok builder h p c' pc"
  using assms by (cases "(builder, h, p, c, pc)" rule: pc_ok.cases) (auto simp: building_def committed_def)

lemma history_ok_frame: "env_frame p p' \<Longrightarrow> history_ok builder h p \<Longrightarrow> history_ok builder h p'"
  by (auto simp: history_ok_def env_frame_def)

text \<open>The steps of the other threads, and those that change the controller but not the runner.\<close>

lemma upd_inv_publication:
  assumes inv: "upd_inv builder w" and pub: "pub_inv p'" and frame: "env_frame (uw_publication w) (pw_pub p')"
  shows "upd_inv builder (w\<lparr>uw_pub := p'\<rparr>)"
proof -
  have "results_ok (fp_last_converged (pw_pub p')) (uw_history w) (fu_promises (uw_ctl w))"
    using results_ok_mono [OF upd_invD(4) [OF inv]] frame by (simp add: env_frame_def)
  moreover have "fp_credit_held (pw_pub p') \<longrightarrow> rec_pending (fp_retired (pw_pub p')) \<or> holds_credit (uw_pc w)"
    using upd_invD(8) [OF inv] frame by (auto simp: env_frame_def)
  moreover have "fu_sealed (uw_ctl w) \<longrightarrow> fp_sealed (pw_pub p')"
    using upd_invD(7) [OF inv] frame by (auto simp: env_frame_def)
  ultimately show ?thesis
    using inv pub pc_ok_frame [OF frame upd_invD(6) [OF inv]] history_ok_frame [OF frame upd_invD(5) [OF inv]]
    by (simp add: upd_inv_def)
qed

lemma upd_inv_ctl:
  assumes inv: "upd_inv builder w"
    and c: "queue_ok c" "promises_ok (fu_promises c) (open_keys c)"
      "results_ok (fp_last_converged (uw_publication w)) (uw_history w) (fu_promises c)"
    and same: "fu_inflight c = fu_inflight (uw_ctl w)" "fu_runner_active c = fu_runner_active (uw_ctl w)"
      "fu_sealed (uw_ctl w) \<longrightarrow> fu_sealed c" "fu_sealed c \<longrightarrow> fp_sealed (uw_publication w)"
  shows "upd_inv builder (w\<lparr>uw_ctl := c\<rparr>)"
  using inv c same(4) pc_ok_ctl [OF upd_invD(6) [OF inv] same(1-3)] upd_invD(9) [OF inv]
  by (simp add: upd_inv_def committed_cong [OF same(1)])

lemma upd_inv_env: "upd_inv builder w \<Longrightarrow> pub_env_step (uw_pub w) p' \<Longrightarrow> upd_inv builder (w\<lparr>uw_pub := p'\<rparr>)"
  by (rule upd_inv_publication) (auto intro: pub_env_step_inv env_step_frame upd_invD(1))

lemma upd_inv_seal_publication: "upd_inv builder w \<Longrightarrow> upd_inv builder (set_publication (seal_publication (uw_publication w)) w)"
  unfolding set_publication_def
  by (rule upd_inv_publication, assumption, rule pub_inv_seal, erule upd_invD(1))
     (auto intro: env_frame_fields simp: seal_publication_def)

lemma upd_inv_flags:
  assumes inv: "upd_inv builder w"
  shows "upd_inv builder (w\<lparr>uw_ctl := seal_request_stop (uw_ctl w)\<rparr>)"
    and "upd_inv builder (w\<lparr>uw_ctl := inject_postcommit_failure (uw_ctl w)\<rparr>)"
    and "fu_sealed (uw_ctl w) \<Longrightarrow> upd_inv builder (w\<lparr>uw_ctl := request_detach (uw_ctl w)\<rparr>)"
  using upd_invD [OF inv]
  by (auto intro!: upd_inv_ctl [OF inv]
      simp: seal_request_stop_def inject_postcommit_failure_def request_detach_def queue_ok_def open_keys_def)

lemma upd_inv_seal_queue:
  assumes inv: "upd_inv builder w" and s: "fp_sealed (uw_publication w)"
  shows "upd_inv builder (w\<lparr>uw_ctl := seal_queue (uw_ctl w)\<rparr>)"
proof (rule upd_inv_ctl [OF inv])
  let ?c = "uw_ctl w"
  let ?xs = "if \<not> fu_sealed ?c then fu_pending ?c else []"
  let ?c1 = "(if \<not> fu_sealed ?c then ?c\<lparr>fu_sealed := True, fu_pending := [], fu_queued_rule_bytes := 0\<rparr> else ?c)\<lparr>fu_sealed_acknowledged := True\<rparr>"
  have q: "seal_queue ?c = complete_all ShuttingDown ?xs ?c1"
    by (simp add: seal_queue_def Let_def)
  have "fu_pending ?c = ?xs"
    using upd_invD(2) [OF inv] by (simp add: queue_ok_def)
  then have "promises_ok (fu_promises ?c1) (map command_key ?xs @ (case fu_inflight ?c of None \<Rightarrow> [] | Some x \<Rightarrow> [command_key x]))"
    using upd_invD(3) [OF inv] by (simp add: open_keys_def)
  then show "promises_ok (fu_promises (seal_queue ?c)) (open_keys (seal_queue ?c))"
    using complete_all_open upd_invD(2) [OF inv] unfolding q by (auto simp: open_keys_def queue_ok_def)
  show "results_ok (fp_last_converged (uw_publication w)) (uw_history w) (fu_promises (seal_queue ?c))"
    unfolding q using upd_invD(4) [OF inv] by (intro results_ok_complete_all) simp
  show "queue_ok (seal_queue ?c)"
    unfolding q using upd_invD(2) [OF inv] by (auto simp: queue_ok_def)
qed (use s in \<open>simp_all add: seal_queue_def Let_def\<close>)

lemma submit_replace_cases:
  assumes "submit_replace rules c = (r, c')"
  obtains "c' = c"
  | e where "c' = complete (length (fu_promises c)) (Inl e) (c\<lparr>fu_promises := fu_promises c @ [(rules, None)]\<rparr>)"
  | bytes where "c' = c\<lparr>fu_promises := fu_promises c @ [(rules, None)],
        fu_pending := fu_pending c @ [new_command rules bytes (length (fu_promises c))],
        fu_queued_rule_bytes := fu_queued_rule_bytes c + bytes\<rparr>"
      "\<not> fu_sealed c" "length (fu_pending c) < kMaximumPendingUpdates"
      "bytes \<le> maximum_queued_rule_bytes (fu_limits c) - min (fu_queued_rule_bytes c) (maximum_queued_rule_bytes (fu_limits c))"
proof (cases "validate_filter_rule_set rules (fu_limits c)")
  case (Inl e)
  then show ?thesis
    using assms that(1) by (simp add: submit_replace_def)
next
  case (Inr m)
  let ?full = "fu_sealed c \<or> length (fu_pending c) \<ge> kMaximumPendingUpdates \<or> raw_bytes m > maximum_queued_rule_bytes (fu_limits c)
                       - min (fu_queued_rule_bytes c) (maximum_queued_rule_bytes (fu_limits c))"
  show ?thesis
  proof (cases ?full)
    case True
    then have "\<exists>e. c' = complete (length (fu_promises c)) (Inl e) (c\<lparr>fu_promises := fu_promises c @ [(rules, None)]\<rparr>)"
      using assms Inr by (auto simp: submit_replace_def Let_def new_command_def split: if_splits)
    then show ?thesis
      using that(2) by blast
  next
    case False
    then show ?thesis
      using assms Inr that(3) [of "raw_bytes m"] by (simp add: submit_replace_def Let_def new_command_def)
  qed
qed

lemma upd_inv_submit:
  assumes inv: "upd_inv builder w" and s: "submit_replace rules (uw_ctl w) = (r, c)"
  shows "upd_inv builder (w\<lparr>uw_ctl := c\<rparr>)"
  using s
proof (cases rule: submit_replace_cases)
  case 1
  then show ?thesis
    using inv by simp
next
  case (2 e)
  let ?n = "length (fu_promises (uw_ctl w))"
  let ?m = "(uw_ctl w)\<lparr>fu_promises := fu_promises (uw_ctl w) @ [(rules, None)]\<rparr>"
  let ?x = "new_command rules 0 ?n"
  have "promises_ok (fu_promises ?m) (open_keys (uw_ctl w) @ [command_key ?x])"
    using promises_ok_append [OF upd_invD(3) [OF inv]] by (simp add: command_key_def new_command_def)
  then have "promises_ok (fu_promises ?m) (command_key ?x # open_keys (uw_ctl w))"
    by (subst promises_ok_perm [of _ "open_keys (uw_ctl w) @ [command_key ?x]"]) simp_all
  then have "promises_ok (fu_promises c) (open_keys (uw_ctl w))"
    using complete_open(2) [of ?m ?x "open_keys (uw_ctl w)" "Inl e"] 2 by (simp add: new_command_def)
  moreover have "open_keys c = open_keys (uw_ctl w)"
    using 2 by (simp add: open_keys_def)
  moreover have "results_ok (fp_last_converged (uw_publication w)) (uw_history w) (fu_promises c)"
    unfolding 2 by (rule results_ok_complete_error) (simp add: results_ok_append [OF upd_invD(4) [OF inv]])
  ultimately show ?thesis
    using 2 upd_invD(2,7) [OF inv] by (intro upd_inv_ctl [OF inv]) (auto simp: queue_ok_def)
next
  case (3 bytes)
  let ?x = "new_command rules bytes (length (fu_promises (uw_ctl w)))"
  have "promises_ok (fu_promises c) (open_keys (uw_ctl w) @ [command_key ?x])"
    using promises_ok_append [OF upd_invD(3) [OF inv]] 3(1) by (simp add: command_key_def new_command_def)
  then have "promises_ok (fu_promises c) (open_keys c)"
    by (subst promises_ok_perm [of _ "open_keys (uw_ctl w) @ [command_key ?x]"]) (simp_all add: 3(1) open_keys_def)
  moreover have "queue_ok c"
    using upd_invD(2) [OF inv] 3 by (auto simp: queue_ok_def new_command_def)
  ultimately show ?thesis
    using 3(1,2) results_ok_append [OF upd_invD(4) [OF inv]] by (intro upd_inv_ctl [OF inv]) auto
qed

text \<open>A step of the runner: no successor waits while it runs.\<close>

lemma upd_inv_move:
  assumes inv: "upd_inv builder w" and pc: "fu_runner_active (uw_ctl w) \<or> uw_pc w = RunnerStopped"
    and new: "pub_inv (uw_pub w')" "queue_ok (uw_ctl w')" "promises_ok (fu_promises (uw_ctl w')) (open_keys (uw_ctl w'))"
      "results_ok (fp_last_converged (uw_publication w')) (uw_history w') (fu_promises (uw_ctl w'))"
      "history_ok builder (uw_history w') (uw_publication w')"
      "pc_ok builder (uw_history w') (uw_publication w') (uw_ctl w') (uw_pc w')"
      "fu_sealed (uw_ctl w') \<longrightarrow> fp_sealed (uw_publication w')"
      "fp_credit_held (uw_publication w') \<longrightarrow> rec_pending (fp_retired (uw_publication w')) \<or> holds_credit (uw_pc w')"
    and s: "uw_successor w' = uw_successor w"
  shows "upd_inv builder w'"
proof -
  have "uw_successor w = None"
    using upd_invD(9) [OF inv] upd_invD(6) [OF inv] pc by (cases "uw_successor w") auto
  then show ?thesis
    using new s by (simp add: upd_inv_def)
qed

lemma upd_inv_run_begin:
  assumes inv: "upd_inv builder w" and pc: "uw_pc w = RunnerStopped" and r: "run_begin (uw_ctl w) = (None, c)"
  shows "upd_inv builder (w\<lparr>uw_ctl := c, uw_pc := RunnerIdle\<rparr>)"
  using upd_invD [OF inv] pc r
  by (intro upd_inv_move [OF inv]) (auto simp: run_begin_def queue_ok_def open_keys_def split: if_splits)

lemma upd_inv_run_take:
  assumes inv: "upd_inv builder w" and pc: "uw_pc w = RunnerIdle" and r: "run_take (uw_ctl w) = Some (pc', c)"
  shows "upd_inv builder (w\<lparr>uw_ctl := c, uw_pc := pc'\<rparr>)"
proof (cases "fu_pending (uw_ctl w)")
  case Nil
  then show ?thesis
    using upd_invD [OF inv] pc r
    by (intro upd_inv_move [OF inv]) (auto simp: run_take_def queue_ok_def split: if_splits)
next
  case (Cons x xs)
  have idle: "fu_inflight (uw_ctl w) = None" "fu_runner_active (uw_ctl w)"
    using upd_invD(6) [OF inv] pc by auto
  have c: "c = (uw_ctl w)\<lparr>fu_inflight := Some (x\<lparr>cmd_phase := Building\<rparr>), fu_pending := xs,
      fu_queued_rule_bytes := fu_queued_rule_bytes (uw_ctl w) - min (fu_queued_rule_bytes (uw_ctl w)) (cmd_accounted_bytes x)\<rparr>"
    "pc' = RunnerApplying"
    using r Cons by (simp_all add: run_take_def)
  have "mset (open_keys c) = mset (open_keys (uw_ctl w))"
    using Cons idle by (simp add: c open_keys_def command_key_def)
  then have "promises_ok (fu_promises c) (open_keys c)"
    using upd_invD(3) [OF inv] by (subst promises_ok_perm [of _ "open_keys (uw_ctl w)"]) (simp_all add: c)
  moreover have "queue_ok c"
    using upd_invD(2) [OF inv] Cons by (auto simp: queue_ok_def c)
  ultimately show ?thesis
    using upd_invD [OF inv] pc c idle by (intro upd_inv_move [OF inv]) (simp_all add: building_def)
qed

lemma upd_inv_run_detach:
  assumes inv: "upd_inv builder w" and pc: "uw_pc w = RunnerDetaching"
    and r: "run_detach now (uw_publication w) (pw_epochs (uw_pub w)) = (pc', p)"
  shows "upd_inv builder (set_publication p (w\<lparr>uw_pc := pc'\<rparr>))"
proof -
  obtain d where d: "detach_terminal_snapshot now (uw_publication w) (pw_epochs (uw_pub w)) = (d, p)"
    and pc': "pc' = RunnerLeaving (if d then RunnerRequestedStop else RunnerFatalExit)"
    using r by (auto simp: run_detach_def split: prod.splits)
  have a: "fu_runner_active (uw_ctl w)" "fu_inflight (uw_ctl w) = None" "fp_sealed (uw_publication w)"
    using upd_invD(6,7) [OF inv] pc by auto
  have "upd_inv builder (w\<lparr>uw_pub := (uw_pub w)\<lparr>pw_pub := p\<rparr>\<rparr>)"
    using env_frame_detach(1) [OF d] pub_inv_detach [OF upd_invD(1) [OF inv] a(3) d]
    by (intro upd_inv_publication [OF inv]) simp_all
  from upd_invD [OF this] show ?thesis
    using a pc pc' by (intro upd_inv_move [OF inv]) (simp_all add: set_publication_def)
qed

lemma upd_inv_apply_begin:
  assumes inv: "upd_inv builder w" and pc: "uw_pc w = RunnerApplying"
  shows "upd_inv builder (w\<lparr>uw_pc := apply_begin (uw_publication w) (uw_ctl w)\<rparr>)"
  using upd_invD [OF inv] pc
  by (intro upd_inv_move [OF inv]) (auto simp: apply_begin_def current_version_def update_error_def Let_def)

lemma upd_inv_apply_acquire:
  assumes inv: "upd_inv builder w" and pc: "uw_pc w = RunnerAcquiring g"
    and r: "apply_acquire g (uw_publication w) (uw_ctl w) = Some (pc', p)"
  shows "upd_inv builder (set_publication p (w\<lparr>uw_pc := pc'\<rparr>))"
proof -
  have a: "fu_runner_active (uw_ctl w)" "building (uw_ctl w)" "g = fp_generation (uw_publication w)" "g \<noteq> - 1"
    using upd_invD(6) [OF inv] pc by auto
  have n: "\<not> fp_credit_held (uw_publication w) \<Longrightarrow> \<not> rec_pending (fp_retired (uw_publication w))"
    using upd_invD(1) [OF inv] by (auto simp: pub_inv_def records_ok_def)
  obtain q where q: "acquire_retirement_credit (fu_build_stop (uw_ctl w)) (uw_publication w) = Some (q, p)"
    and pc': "pc' = (if q then RunnerBuilding (g + 1) else RunnerCompleting (update_error ShuttingDown None))"
    using r by (auto simp: apply_acquire_def split: option.splits)
  have pub: "pub_inv ((uw_pub w)\<lparr>pw_pub := p\<rparr>)"
    by (rule pub_inv_acquire [OF upd_invD(1) [OF inv] q])
  show ?thesis
  proof (cases q)
    case True
    then have "p = (uw_publication w)\<lparr>fp_credit_held := True\<rparr>" "\<not> fp_credit_held (uw_publication w)"
      using q by (auto simp: acquire_retirement_credit_def split: if_splits)
    then show ?thesis
      using upd_invD [OF inv] a n pub True pc'
      by (intro upd_inv_move [OF inv]) (simp_all add: set_publication_def may_commit_def history_ok_def live_snapshots_def)
  next
    case False
    then have "p = uw_publication w"
      using q by (auto simp: acquire_retirement_credit_def split: if_splits)
    then show ?thesis
      using upd_invD [OF inv] a pc pub False pc'
      by (intro upd_inv_move [OF inv]) (simp_all add: set_publication_def update_error_def)
  qed
qed

text \<open>A command that fails before its commit gives the credit back.\<close>

lemma upd_inv_give_back:
  assumes inv: "upd_inv builder w" and pc: "holds_credit (uw_pc w)"
    and c: "c = set_inflight f (uw_ctl w)" "\<And>x. command_key (f x) = command_key x" "building c"
  shows "upd_inv builder (set_publication (release_uncommitted_credit (uw_publication w))
           (w\<lparr>uw_ctl := c, uw_pc := RunnerCompleting (update_error code e)\<rparr>))"
proof -
  have a: "fu_runner_active (uw_ctl w)" "\<not> rec_pending (fp_retired (uw_publication w))"
    using upd_invD(6) [OF inv] pc by (cases "uw_pc w"; simp add: may_commit_def)+
  have "open_keys c = open_keys (uw_ctl w)"
    by (simp add: open_keys_def c(1) set_inflight_def c(2) split: option.splits)
  moreover have "history_ok builder (uw_history w) (release_uncommitted_credit (uw_publication w))"
    using upd_invD(5) [OF inv] by (simp add: release_uncommitted_credit_def history_ok_def live_snapshots_def)
  ultimately show ?thesis
    using upd_invD [OF inv] a c(3) pub_inv_release [OF upd_invD(1) [OF inv]]
    by (intro upd_inv_move [OF inv])
       (simp_all add: set_publication_def c(1) set_inflight_def queue_ok_def release_uncommitted_credit_def update_error_def)
qed

lemma set_inflight_id [simp]: "set_inflight (\<lambda>x. x) c = c"
  by (simp add: set_inflight_def option.map_ident)

lemma apply_built_cases:
  assumes "apply_built g address r p c = (pc', p', c')"
  obtains code e where "pc' = RunnerCompleting (update_error code e)" "p' = release_uncommitted_credit p" "c' = c"
  | ctx where "r = BuilderReturns (Some ctx)" "generation ctx = g" "pc' = RunnerPublishing (address, ctx)" "p' = p"
      "c' = set_inflight (\<lambda>command. command\<lparr>cmd_target := Some \<lparr>fv_generation = generation ctx,
                  fv_rule_count = rule_count (blocklist ctx)\<rparr>, cmd_phase := Publishing\<rparr>) c" "\<not> fu_build_stop c"
proof (cases "\<exists>ctx. r = BuilderReturns (Some ctx) \<and> generation ctx = g \<and> \<not> fu_build_stop c")
  case True
  then obtain ctx where "r = BuilderReturns (Some ctx)" "generation ctx = g" "\<not> fu_build_stop c"
    by blast
  then show ?thesis
    using assms that(2) [of ctx] by (simp add: apply_built_def Let_def)
next
  case False
  then have "\<exists>code e. pc' = RunnerCompleting (update_error code e) \<and> p' = release_uncommitted_credit p \<and> c' = c"
    using assms by (auto simp: apply_built_def Let_def split: builder_result.splits option.splits if_splits)
  then show ?thesis
    using that(1) by blast
qed

lemma upd_inv_apply_built:
  assumes inv: "upd_inv builder w" and pc: "uw_pc w = RunnerBuilding g" and x: "fu_inflight (uw_ctl w) = Some command"
    and b: "builder stop (cmd_rules command) g = Some r"
    and r: "apply_built g address r (uw_publication w) (uw_ctl w) = (pc', p, c)"
  shows "upd_inv builder (set_publication p (w\<lparr>uw_ctl := c, uw_pc := pc'\<rparr>))"
  using r
proof (cases rule: apply_built_cases)
  case (1 code e)
  then show ?thesis
    using upd_inv_give_back [OF inv, of c "\<lambda>x. x" code e] upd_invD(6) [OF inv] pc by simp
next
  case (2 ctx)
  have a: "fu_runner_active (uw_ctl w)" "building (uw_ctl w)" "may_commit (uw_publication w) g"
    using upd_invD(6) [OF inv] pc by auto
  have "built_from builder (cmd_rules command) (address, ctx)"
    using b 2 by (auto simp: built_from_def)
  moreover have "open_keys c = open_keys (uw_ctl w)"
    by (simp add: open_keys_def 2 set_inflight_def command_key_def split: option.splits)
  ultimately show ?thesis
    using upd_invD [OF inv] a x 2
    by (intro upd_inv_move [OF inv]) (simp_all add: set_publication_def set_inflight_def queue_ok_def)
qed

text \<open>
  The commit of the runner: it holds the credit and its snapshot has the next generation, so the only error
  is that the publication has been sealed.
\<close>

lemma commit_outcome:
  assumes "may_commit p (snapshot_generation s)" and "snapshot_generation s \<noteq> 0"
  shows "fst (commit now (Some s) p eps) = (if fp_sealed p then Inl PublicationSealed
           else Inr \<lparr>fv_generation = snapshot_generation s, fv_rule_count = rule_count (blocklist (snd s))\<rparr>)"
    and "fp_sealed p \<Longrightarrow> snd (snd (commit now (Some s) p eps)) = p"
  using assms by (auto simp: may_commit_def commit_def Let_def)

lemma next_generation_nonzero: "may_commit p g \<Longrightarrow> g \<noteq> 0"
  using succ_greater [of "fp_generation p"] by (auto simp: may_commit_def)

lemma commit_fields:
  assumes "commit now (Some s) p eps = (Inr v, n, p')"
  shows "v = \<lparr>fv_generation = snapshot_generation s, fv_rule_count = rule_count (blocklist (snd s))\<rparr>"
    and "fp_generation p' = snapshot_generation s" and "rec_pending (fp_retired p')" and "fp_sealed p' = fp_sealed p"
    and "fp_last_converged p' = fp_last_converged p" and "live_snapshots p' \<subseteq> insert s (live_snapshots p)"
    and "fp_credit_held p'"
  using assms by (auto simp: commit_def Let_def live_snapshots_def split: if_splits)

lemma history_ok_commit:
  assumes h: "history_ok builder h p" and m: "may_commit p (snapshot_generation s)" and b: "built_from builder rules s"
    and c: "commit now (Some s) p eps = (Inr v, n, p')"
  shows "history_ok builder ((snapshot_generation s, rules) # h) p'"
proof -
  have lt: "fp_generation p < snapshot_generation s"
    using m succ_greater by (auto simp: may_commit_def)
  show ?thesis
    using h b lt commit_fields [OF c] unfolding history_ok_def by fastforce
qed

lemma upd_inv_apply_commit:
  assumes inv: "upd_inv builder w" and pc: "uw_pc w = RunnerPublishing s" and fresh: "use_count (uw_pub w) s = 0"
    and x: "fu_inflight (uw_ctl w) = Some command"
    and r: "apply_commit now s (uw_publication w) (pw_epochs (uw_pub w)) (uw_ctl w) = (pc', p, c)"
  shows "upd_inv builder (set_publication p (w\<lparr>uw_ctl := c, uw_pc := pc',
          uw_history := (if fp_generation p \<noteq> fp_generation (uw_publication w) then [(fp_generation p, cmd_rules command)] else [])
            @ uw_history w\<rparr>))" (is "upd_inv builder ?w'")
proof -
  have a: "fu_runner_active (uw_ctl w)" "may_commit (uw_publication w) (snapshot_generation s)"
      "built_from builder (cmd_rules command) s"
    using upd_invD(6) [OF inv] pc x by auto
  obtain res n p' where com: "commit now (Some s) (uw_publication w) (pw_epochs (uw_pub w)) = (res, n, p')"
    by (cases "commit now (Some s) (uw_publication w) (pw_epochs (uw_pub w))") auto
  note out = commit_outcome [OF a(2) next_generation_nonzero [OF a(2)], of now "pw_epochs (uw_pub w)", unfolded com fst_conv snd_conv]
  show ?thesis
  proof (cases "fp_sealed (uw_publication w)")
    case True
    let ?f = "\<lambda>x. x\<lparr>cmd_phase := Building, cmd_target := None\<rparr>"
    have e: "p = release_uncommitted_credit (uw_publication w)" "c = set_inflight ?f (uw_ctl w)"
      "pc' = RunnerCompleting (update_error ShuttingDown None)"
      using r com out True by (auto simp: apply_commit_def)
    have "building c"
      using x by (simp add: e building_def set_inflight_def)
    then have "upd_inv builder (set_publication p (w\<lparr>uw_ctl := c, uw_pc := pc'\<rparr>))"
      using upd_inv_give_back [OF inv _ e(2)] pc unfolding e by (simp add: command_key_def)
    moreover have "fp_generation p = fp_generation (uw_publication w)"
      by (simp add: e release_uncommitted_credit_def)
    ultimately show ?thesis
      by simp
  next
    case False
    let ?v = "\<lparr>fv_generation = snapshot_generation s, fv_rule_count = rule_count (blocklist (snd s))\<rparr>"
    have res: "res = Inr ?v"
      using out False by simp
    note f = commit_fields [OF com [unfolded res]]
    have p: "p = p'" and c: "fu_inflight c = Some (command\<lparr>cmd_phase := Committed, cmd_published := Some ?v\<rparr>)"
        "fu_runner_active c" "fu_pending c = fu_pending (uw_ctl w)" "fu_promises c = fu_promises (uw_ctl w)" "queue_ok c"
        "fu_sealed c = fu_sealed (uw_ctl w)"
      and pc': "pc' = RunnerConverging ?v \<or> (\<exists>e. pc' = RunnerCompleting (Inl e))"
      using r com res x a(1) upd_invD(2) [OF inv]
      by (auto simp: apply_commit_def set_inflight_def update_error_def queue_ok_def Let_def split: if_splits)
    have ne: "fp_generation p \<noteq> fp_generation (uw_publication w)"
      using a(2) f(2) succ_greater [of "fp_generation (uw_publication w)"] unfolding p by (auto simp: may_commit_def)
    have h: "uw_history ?w' = (snapshot_generation s, cmd_rules command) # uw_history w"
      using ne f(2) by (simp add: set_publication_def p)
    have com': "committed (uw_history ?w') c ?v"
      unfolding h by (simp add: committed_def c)
    have "pub_inv ((uw_pub w)\<lparr>pw_pub := p\<rparr>)"
      using pub_inv_commit [OF upd_invD(1) [OF inv] _ com] fresh unfolding p by auto
    moreover have "open_keys c = open_keys (uw_ctl w)"
      by (simp add: open_keys_def c x command_key_def)
    moreover have "results_ok (fp_last_converged p) (uw_history ?w') (fu_promises c)"
      unfolding p c f(5) by (rule results_ok_mono [OF upd_invD(4) [OF inv]]) (auto simp: set_publication_def)
    moreover have "history_ok builder (uw_history ?w') p"
      using history_ok_commit [OF upd_invD(5) [OF inv] a(2,3) com [unfolded res]] unfolding h unfolding p .
    moreover have "pc_ok builder (uw_history ?w') p c pc'"
      using pc' com' c(2) by auto
    ultimately show ?thesis
      using upd_invD(3) [OF inv] contrapos_nn [OF False upd_invD(7) [OF inv]] a(1) c f(3,4) False
      by (intro upd_inv_move [OF inv]) (simp_all add: set_publication_def p)
  qed
qed

lemma upd_inv_apply_converged:
  assumes inv: "upd_inv builder w" and pc: "uw_pc w = RunnerConverging v" and r: "apply_converged v (uw_publication w) = Some pc'"
  shows "upd_inv builder (w\<lparr>uw_pc := pc'\<rparr>)"
  using upd_invD [OF inv] pc r
  by (intro upd_inv_move [OF inv])
     (auto simp: apply_converged_def wait_until_converged_def update_error_def split: if_splits)

lemma open_keys_inflight: "fu_inflight c = Some x \<Longrightarrow> mset (command_key x # map command_key (fu_pending c)) = mset (open_keys c)"
  by (simp add: open_keys_def)

text \<open>Setting the value of the command in flight and dropping the command.\<close>

lemma complete_inflight:
  assumes inv: "upd_inv builder w" and x: "fu_inflight (uw_ctl w) = Some x"
    and r: "case r of Inl _ \<Rightarrow> True
       | Inr v \<Rightarrow> fv_generation v \<le> fp_last_converged (uw_publication w) \<and> (fv_generation v, cmd_rules x) \<in> set (uw_history w)"
  shows "promises_ok (fu_promises (complete (cmd_completion x) r (uw_ctl w))) (map command_key (fu_pending (uw_ctl w)))"
    and "results_ok (fp_last_converged (uw_publication w)) (uw_history w) (fu_promises (complete (cmd_completion x) r (uw_ctl w)))"
proof -
  have p: "promises_ok (fu_promises (uw_ctl w)) (command_key x # map command_key (fu_pending (uw_ctl w)))"
    using upd_invD(3) [OF inv] by (subst promises_ok_perm [OF open_keys_inflight [OF x]])
  then show "promises_ok (fu_promises (complete (cmd_completion x) r (uw_ctl w))) (map command_key (fu_pending (uw_ctl w)))"
    by (rule complete_open(2))
  have "fst (fu_promises (uw_ctl w) ! cmd_completion x) = cmd_rules x"
    using p by (simp add: promises_ok_def command_key_def)
  then show "results_ok (fp_last_converged (uw_publication w)) (uw_history w) (fu_promises (complete (cmd_completion x) r (uw_ctl w)))"
    using r by (intro results_ok_complete [OF upd_invD(4) [OF inv]]) (auto split: sum.splits)
qed

lemma upd_inv_run_complete:
  assumes inv: "upd_inv builder w" and pc: "uw_pc w = RunnerCompleting result" and r: "run_complete result (uw_ctl w) = (pc', c)"
  shows "upd_inv builder (w\<lparr>uw_ctl := c, uw_pc := pc'\<rparr>)"
proof -
  obtain x where x: "fu_inflight (uw_ctl w) = Some x" and act: "fu_runner_active (uw_ctl w)"
    using upd_invD(6) [OF inv] pc by (cases result) (auto simp: building_def committed_def)
  show ?thesis
  proof (cases "isl result \<and> cmd_phase x = Committed")
    case True
    then obtain e where e: "result = Inl e"
      by (auto simp: isl_def)
    have "\<exists>v. committed (uw_history w) (uw_ctl w) v"
      using upd_invD(6) [OF inv] pc e True x by (auto simp: building_def)
    then show ?thesis
      using upd_invD [OF inv] act r True x by (intro upd_inv_move [OF inv]) (auto simp: run_complete_def pc)
  next
    case False
    then have c: "c = (complete (cmd_completion x) result (uw_ctl w))\<lparr>fu_inflight := None\<rparr>" "pc' = RunnerIdle"
      using r x by (auto simp: run_complete_def)
    have "case result of Inl _ \<Rightarrow> True
       | Inr v \<Rightarrow> fv_generation v \<le> fp_last_converged (uw_publication w) \<and> (fv_generation v, cmd_rules x) \<in> set (uw_history w)"
      using upd_invD(6) [OF inv] pc x by (auto simp: committed_def split: sum.splits)
    from complete_inflight [OF inv x this] show ?thesis
      using upd_invD [OF inv] act pc by (intro upd_inv_move [OF inv]) (simp_all add: c queue_ok_def open_keys_def)
  qed
qed

lemma reconcile_no_publishing:
  "(\<And>x. fu_inflight c = Some x \<Longrightarrow> cmd_phase x \<noteq> Publishing) \<Longrightarrow> reconcile_inflight p c = c"
  by (auto simp: reconcile_inflight_def split: option.splits)

lemma committed_phase: "committed h c v \<Longrightarrow> fu_inflight c = Some x \<Longrightarrow> cmd_phase x = Committed \<and> cmd_published x = Some v"
  by (auto simp: committed_def)

lemma upd_inv_finish_run:
  assumes inv: "upd_inv builder w" and pc: "uw_pc w = RunnerLeaving code" and s: "fu_sealed (uw_ctl w)"
  shows "upd_inv builder (w\<lparr>uw_ctl := finish_run (uw_publication w) (uw_ctl w), uw_pc := RunnerReturned code\<rparr>)"
proof -
  have a: "fu_runner_active (uw_ctl w)" "fu_inflight (uw_ctl w) = None \<or> (\<exists>v. committed (uw_history w) (uw_ctl w) v)"
    using upd_invD(6) [OF inv] pc by auto
  have q: "fu_pending (uw_ctl w) = []" "fu_queued_rule_bytes (uw_ctl w) = 0"
    using upd_invD(2) [OF inv] s by (auto simp: queue_ok_def)
  then have c1: "cancel_pending ShuttingDown (uw_ctl w) = uw_ctl w"
    by (simp add: cancel_pending_def complete_all_def)
  have c2: "reconcile_inflight (uw_publication w) (uw_ctl w) = uw_ctl w"
    using a(2) by (intro reconcile_no_publishing) (auto dest: committed_phase)
  have c: "finish_run (uw_publication w) (uw_ctl w) = (uw_ctl w)\<lparr>fu_runner_active := False\<rparr>"
    using a(2) by (auto simp: finish_run_def Let_def c1 c2 split: option.splits dest: committed_phase)
  have "committed (uw_history w) ((uw_ctl w)\<lparr>fu_runner_active := False\<rparr>) = committed (uw_history w) (uw_ctl w)"
    by (rule committed_cong) simp
  then show ?thesis
    using upd_invD [OF inv] a s pc by (intro upd_inv_move [OF inv]) (simp_all add: c queue_ok_def open_keys_def)
qed

lemma upd_inv_successor_begin:
  assumes inv: "upd_inv builder w" and r: "successor_begin (uw_publication w) (uw_ctl w) = (r, c)" and none: "uw_successor w = None"
  shows "upd_inv builder (w\<lparr>uw_ctl := c, uw_successor := (case r of Inl _ \<Rightarrow> None | Inr v \<Rightarrow> Some v)\<rparr>)"
proof (cases "fu_runner_active (uw_ctl w)")
  case True
  then show ?thesis
    using inv r none by (auto simp: successor_begin_def upd_inv_def)
next
  case False
  have pc: "uw_pc w = RunnerStopped \<and> fu_inflight (uw_ctl w) = None
      \<or> (\<exists>code. uw_pc w = RunnerReturned code) \<and> (fu_inflight (uw_ctl w) = None \<or> (\<exists>v. committed (uw_history w) (uw_ctl w) v))"
    using upd_invD(6) [OF inv] False by (cases "(builder, uw_history w, uw_publication w, uw_ctl w, uw_pc w)" rule: pc_ok.cases) auto
  have c1: "reconcile_inflight (uw_publication w) (uw_ctl w) = uw_ctl w"
    using pc by (intro reconcile_no_publishing) (auto dest: committed_phase)
  show ?thesis
  proof (cases "fu_inflight (uw_ctl w)")
    case None
    then show ?thesis
      using inv r none False by (auto simp: successor_begin_def Let_def c1 upd_inv_def)
  next
    case (Some x)
    then obtain v code where v: "committed (uw_history w) (uw_ctl w) v" "uw_pc w = RunnerReturned code"
      using pc by auto
    then have "r = Inr v" "c = uw_ctl w"
      using r Some False committed_phase [OF v(1) Some] by (auto simp: successor_begin_def Let_def c1)
    then show ?thesis
      using inv v by (simp add: upd_inv_def)
  qed
qed

lemma upd_inv_successor_end:
  assumes inv: "upd_inv builder w" and s: "uw_successor w = Some v"
    and r: "successor_end v (uw_publication w) (uw_ctl w) = Some (r, c)"
  shows "upd_inv builder (w\<lparr>uw_ctl := c, uw_successor := None\<rparr>)"
proof -
  obtain code where code: "uw_pc w = RunnerReturned code" and com: "committed (uw_history w) (uw_ctl w) v"
    using upd_invD(9) [OF inv s] by blast
  then obtain x where x: "fu_inflight (uw_ctl w) = Some x" "cmd_phase x = Committed" "cmd_published x = Some v"
      "(fv_generation v, cmd_rules x) \<in> set (uw_history w)"
    by (auto simp: committed_def)
  show ?thesis
  proof (cases "wait_until_converged (fv_generation v) (uw_publication w) = Some WaitConverged")
    case True
    have conv: "fv_generation v \<le> fp_last_converged (uw_publication w)"
      using True by (auto simp: wait_until_converged_def split: if_splits)
    have c: "c = complete (cmd_completion x) (Inr v) ((uw_ctl w)\<lparr>fu_inflight := None\<rparr>)"
      using r True x by (simp add: successor_end_def)
    have c': "c = (complete (cmd_completion x) (Inr v) (uw_ctl w))\<lparr>fu_inflight := None\<rparr>"
      by (simp add: c complete_def)
    have "promises_ok (fu_promises c) (map command_key (fu_pending (uw_ctl w)))"
        "results_ok (fp_last_converged (uw_publication w)) (uw_history w) (fu_promises c)"
      using complete_inflight [OF inv x(1), of "Inr v"] conv x(4) by (simp_all add: c')
    then show ?thesis
      using upd_invD [OF inv] code by (simp add: upd_inv_def c' queue_ok_def open_keys_def)
  next
    case False
    then have "c = uw_ctl w"
      using r by (auto simp: successor_end_def split: option.splits generation_wait_result.splits)
    then show ?thesis
      using inv by (simp add: upd_inv_def)
  qed
qed

lemma upd_step_inv:
  assumes "upd_step builder w w'" and inv: "upd_inv builder w"
  shows "upd_inv builder w'"
  using assms(1)
proof (cases rule: upd_step.cases)
  case (upd_apply_built g command stop r address pc p c)
  then show ?thesis
    using upd_inv_apply_built [OF inv] by blast
next
  case (upd_apply_commit s command now pc p c)
  then show ?thesis
    using upd_inv_apply_commit [OF inv] by blast
qed (use inv in \<open>auto intro: upd_inv_env upd_inv_submit upd_inv_flags upd_inv_seal_publication upd_inv_seal_queue upd_inv_run_begin
      upd_inv_run_take upd_inv_run_detach upd_inv_apply_begin upd_inv_apply_acquire upd_inv_apply_converged upd_inv_run_complete
      upd_inv_finish_run upd_inv_successor_begin upd_inv_successor_end\<close>)

lemma upd_inv_new:
  assumes b: "built_from builder rules initial" and p: "new_publication (Some initial) n timeout = Some p"
    and c: "new_filter_updates p limits = Some c"
  shows "upd_inv builder \<lparr>uw_pub = \<lparr>pw_pub = p, pw_epochs = eps, pw_locals = replicate n None, pw_destroying = None\<rparr>,
           uw_ctl = c, uw_pc = RunnerStopped, uw_successor = None, uw_history = [(snapshot_generation initial, rules)]\<rparr>"
proof -
  have f: "fp_active p = Some initial" "fp_retired p = empty_record" "fp_terminal p = empty_record"
      "fp_generation p = snapshot_generation initial" "\<not> fp_credit_held p"
    using p by (auto simp: new_publication_def split: if_splits)
  show ?thesis
    using c pub_inv_new [OF p] f b
    by (auto simp: upd_inv_def new_filter_updates_def queue_ok_def promises_ok_def open_keys_def results_ok_def history_ok_def
        live_snapshots_def empty_record_def split: if_splits)
qed

lemma upd_reachable_inv: "upd_reachable builder w \<Longrightarrow> upd_inv builder w"
  by (induction rule: upd_reachable.induct) (auto intro: upd_inv_new upd_step_inv)

section \<open>What an update guarantees\<close>

lemma local_live:
  assumes "pub_inv w" and "k < length (pw_locals w)" and "pw_locals w ! k = Some s"
  shows "s \<in> live_snapshots (pw_pub w)" and "fp_last_converged (pw_pub w) \<le> snapshot_generation s"
  using pub_inv_local [OF assms] by (auto simp: local_ok_def live_snapshots_def)

lemma worker_filters_with_history:
  assumes inv: "upd_inv builder w" and k: "k < length (pw_locals (uw_pub w))" "pw_locals (uw_pub w) ! k = Some s"
  obtains rules where "(snapshot_generation s, rules) \<in> set (uw_history w)" "built_from builder rules s"
  using local_live(1) [OF upd_invD(1) [OF inv] k] upd_invD(5) [OF inv] by (auto simp: history_ok_def)

lemma history_functional:
  assumes "upd_inv builder w" and "(g, r) \<in> set (uw_history w)" and "(g, r') \<in> set (uw_history w)"
  shows "r = r'"
  using assms by (meson eq_key_imp_eq_value history_ok_def upd_invD(5))

lemma default_builder_exact:
  assumes "built_from (default_builder xxh3) rules s" and "wf_name q"
  shows "matches xxh3 (blocklist (snd s)) q \<longleftrightarrow> (\<exists>rule \<in> set rules. \<exists>n. from_text rule = Inr n \<and> is_subdomain_of q n)"
proof -
  obtain stop where d: "default_builder xxh3 stop rules (snapshot_generation s) = Some (BuilderReturns (Some (snd s)))"
    using assms(1) by (auto simp: built_from_def)
  obtain b polls where b: "build xxh3 stop rules = Some (Inr (b, polls))" "snd s = new_filter_context (snapshot_generation s) b"
    using d by (auto simp: default_builder_def build_filter_snapshot_def
        split: option.splits sum.splits blocklist_failure.splits if_splits)
  show ?thesis
    by (subst b(2)) (simp add: new_filter_context_def build_matches_exactly [OF b(1) assms(2)])
qed

text \<open>
  C2. The result of an update is true of the running server.  Take any interleaving of clients that submit
  rule sets, the update thread, the workers, the supervisor, the reclaimer and a shutdown.  If the future of
  a submitted rule set has become a success with version \<open>v\<close>, then every worker filters with a snapshot of
  that generation or a newer one, and a worker whose snapshot has exactly that generation blocks exactly the
  names that are covered by a rule of that set, whatever the hash function of the prefilter.
\<close>

theorem update_takes_effect:
  assumes "upd_reachable (default_builder xxh3) w" and "(rules, Some (Inr v)) \<in> set (fu_promises (uw_ctl w))"
    and "k < length (pw_locals (uw_pub w))" and "pw_locals (uw_pub w) ! k = Some s" and "wf_name q"
  shows "fv_generation v \<le> snapshot_generation s
    \<and> (snapshot_generation s = fv_generation v \<longrightarrow>
         (matches xxh3 (blocklist (snd s)) q \<longleftrightarrow> (\<exists>rule \<in> set rules. \<exists>n. from_text rule = Inr n \<and> is_subdomain_of q n)))"
proof -
  note inv = upd_reachable_inv [OF assms(1)]
  have v: "fv_generation v \<le> fp_last_converged (uw_publication w)" "(fv_generation v, rules) \<in> set (uw_history w)"
    using upd_invD(4) [OF inv] assms(2) by (auto simp: results_ok_def)
  obtain rules' where r: "(snapshot_generation s, rules') \<in> set (uw_history w)" "built_from (default_builder xxh3) rules' s"
    by (rule worker_filters_with_history [OF inv assms(3,4)])
  have "fv_generation v \<le> snapshot_generation s"
    using v(1) local_live(2) [OF upd_invD(1) [OF inv] assms(3,4)] by (rule order.trans)
  moreover have "rules' = rules" if "snapshot_generation s = fv_generation v"
    using history_functional [OF inv r(1)] v(2) that by simp
  ultimately show ?thesis
    using default_builder_exact [OF r(2) assms(5)] by auto
qed

text \<open>
  C16. No update is lost and none is answered twice: in every reachable state a promise has no value exactly
  as long as its command is in the queue or in flight, each command being there once; the queue is within
  its limits and its byte count is that of its commands; the retirement credit is held only while a retired
  snapshot waits or the runner is about to commit, so a failed update never leaks it; and when the runner
  has returned the queue is empty and a command that is still in flight has been committed.
\<close>

theorem updates_accounted:
  assumes "upd_reachable builder w"
  shows "(\<forall>i < length (fu_promises (uw_ctl w)).
            snd (fu_promises (uw_ctl w) ! i) = None \<longleftrightarrow> i \<in> set (map fst (open_keys (uw_ctl w))))
    \<and> distinct (map fst (open_keys (uw_ctl w)))
    \<and> length (fu_pending (uw_ctl w)) \<le> kMaximumPendingUpdates
    \<and> fu_queued_rule_bytes (uw_ctl w) = sum_list (map cmd_accounted_bytes (fu_pending (uw_ctl w)))
    \<and> fu_queued_rule_bytes (uw_ctl w) \<le> maximum_queued_rule_bytes (fu_limits (uw_ctl w))
    \<and> (fp_credit_held (uw_publication w) \<longrightarrow> rec_pending (fp_retired (uw_publication w)) \<or> holds_credit (uw_pc w))
    \<and> (\<forall>code. uw_pc w = RunnerReturned code \<longrightarrow>
         fu_pending (uw_ctl w) = [] \<and> (\<forall>x. fu_inflight (uw_ctl w) = Some x \<longrightarrow> cmd_phase x = Committed))"
proof -
  note inv = upd_reachable_inv [OF assms]
  have "snd (fu_promises (uw_ctl w) ! i) = None \<longleftrightarrow> i \<in> set (map fst (open_keys (uw_ctl w)))"
    if "i < length (fu_promises (uw_ctl w))" for i
    using upd_invD(3) [OF inv] that by (fastforce simp: promises_ok_def)
  moreover have "distinct (map fst (open_keys (uw_ctl w)))"
    using upd_invD(3) [OF inv] by (simp add: promises_ok_def)
  moreover have "fu_pending (uw_ctl w) = [] \<and> (\<forall>x. fu_inflight (uw_ctl w) = Some x \<longrightarrow> cmd_phase x = Committed)"
    if "uw_pc w = RunnerReturned code" for code
    using upd_invD(2,6) [OF inv] that by (auto simp: queue_ok_def dest: committed_phase)
  ultimately show ?thesis
    using upd_invD(2,8) [OF inv] by (simp add: queue_ok_def)
qed

section \<open>A run of the update protocol\<close>

text \<open>
  One worker, one reclaimer, one update: the worker starts with generation 1, the rule \<open>a\<close> is submitted,
  built and committed as generation 2, the worker moves to it, the reclaimer finds the cohort complete and
  the runner completes the future.
\<close>

definition run_pub :: "filter_snapshot \<Rightarrow> filter_publication" where
  "run_pub s = (the (new_publication (Some s) 1 1000))\<lparr>fp_registry := [Some 0], fp_reclaimer_started := True, fp_reclaimer_active := True\<rparr>"

definition run_epochs :: "u64 \<Rightarrow> epochs" where
  "run_epochs observed = (\<lambda>_. \<lparr>we_instance = 0, we_observed = kUnobservedFilterGeneration, we_registration = Unregistered,
     we_quiesced = 0\<rparr>)(0 := \<lparr>we_instance = 1, we_observed = observed, we_registration = RegStarting, we_quiesced = 0\<rparr>)"

definition run_ctl :: filter_updates where
  "run_ctl = \<lparr>fu_limits = default_update_limits, fu_pending = [], fu_inflight = None, fu_queued_rule_bytes = 0, fu_build_stop = False,
        fu_sealed = False, fu_sealed_acknowledged = False, fu_terminal_detach_requested = False, fu_runner_active = False,
        fu_fail_after_commit = False, fu_promises = []\<rparr>"

definition run_world ::
  "filter_publication \<Rightarrow> epochs \<Rightarrow> filter_snapshot \<Rightarrow> filter_updates \<Rightarrow> runner_pc \<Rightarrow> (u64 \<times> byte list list) list \<Rightarrow> upd_world" where
  "run_world p eps s c pc h = \<lparr>uw_pub = \<lparr>pw_pub = p, pw_epochs = eps, pw_locals = [Some s], pw_destroying = None\<rparr>,
     uw_ctl = c, uw_pc = pc, uw_successor = None, uw_history = h\<rparr>"

lemma run_pub_eq:
  "snapshot_generation s = 1 \<Longrightarrow> run_pub s = \<lparr>fp_grace_timeout = 1000, fp_active = Some s, fp_registry = [Some 0], fp_sink = False,
     fp_generation = 1, fp_rule_count = rule_count (blocklist (snd s)), fp_rule_bytes = ctx_rule_bytes (snd s), fp_sealed = False,
     fp_retired = empty_record, fp_terminal = empty_record, fp_credit_held = False, fp_retired_bytes = 0, fp_progress = 0,
     fp_last_converged = 0, fp_last_reclaimed = 0, fp_shutdown_requested = False, fp_failure_requested = False,
     fp_failure_after_commit = False, fp_reclaimer_started = True, fp_reclaimer_active = True\<rparr>"
  by (simp add: run_pub_def new_publication_def)

lemma run_start:
  assumes b: "built_from builder rules s" and g: "snapshot_generation s = 1"
  shows "upd_reachable builder (run_world (run_pub s) (run_epochs 0) s run_ctl RunnerStopped [(1, rules)])"
proof -
  let ?p = "the (new_publication (Some s) 1 1000)"
  have p: "new_publication (Some s) 1 1000 = Some ?p"
    using g by (simp add: new_publication_def)
  have c: "new_filter_updates ?p default_update_limits = Some run_ctl"
    using g by (simp add: new_filter_updates_def new_publication_def default_update_limits_def run_ctl_def)
  let ?e = "\<lambda>_ :: nat. \<lparr>we_instance = 0, we_observed = kUnobservedFilterGeneration, we_registration = Unregistered, we_quiesced = 0\<rparr>"
  let ?p1 = "?p\<lparr>fp_registry := [Some 0]\<rparr>"
  note r0 = upd_new [OF b p c]
  have reg: "register_worker 0 1 0 ?p ?e = (Some (s, 1), ?p1, run_epochs 0)"
    using g by (simp add: register_worker_def new_publication_def run_epochs_def kUnobservedFilterGeneration_def)
  have r1: "upd_reachable builder (run_world ?p1 (run_epochs 0) s run_ctl RunnerStopped [(1, rules)])"
    using upd_then [OF r0 upd_env [OF step_register [of 0 _ 1 s 1 ?p1 "run_epochs 0"]]] reg g by (simp add: run_world_def)
  have beg: "reclaimer_begin ?p1 = (None, run_pub s)"
    using g by (simp add: reclaimer_begin_def run_pub_def new_publication_def)
  show ?thesis
    using upd_then [OF r1 upd_env [OF step_begin [of _ "run_pub s"]]] beg by (simp add: run_world_def)
qed

text \<open>The command while it is built, and after its commit as version \<open>v\<close>.\<close>

definition run_command :: update_command where
  "run_command = (new_command [[97]] 1 0)\<lparr>cmd_phase := Building\<rparr>"

definition ctl_with :: "update_command option \<Rightarrow> (byte list list \<times> filter_update_result option) list \<Rightarrow> filter_updates" where
  "ctl_with x ps = run_ctl\<lparr>fu_runner_active := True, fu_inflight := x, fu_promises := ps\<rparr>"

lemma run_to_build:
  assumes r: "upd_reachable builder (run_world (run_pub s) (run_epochs 0) s run_ctl RunnerStopped h)" and g: "snapshot_generation s = 1"
  shows "upd_reachable builder (run_world ((run_pub s)\<lparr>fp_credit_held := True\<rparr>) (run_epochs 0) s
           (ctl_with (Some run_command) [([[97]], None)]) (RunnerBuilding 2) h)"
proof -
  let ?w = "\<lambda>p c pc. run_world p (run_epochs 0) s c pc h"
  let ?c1 = "run_ctl\<lparr>fu_promises := [([[97]], None)], fu_pending := [new_command [[97]] 1 0], fu_queued_rule_bytes := 1\<rparr>"
  let ?c2 = "?c1\<lparr>fu_runner_active := True\<rparr>"
  let ?c3 = "ctl_with (Some run_command) [([[97]], None)]"
  have sub: "submit_replace [[97]] run_ctl = (Inr 0, ?c1)"
    by (simp add: submit_replace_def validate_filter_rule_set_def run_ctl_def default_update_limits_def small_text key_of_labels_def
        new_command_def kMaximumPendingUpdates_def Let_def)
  have r1: "upd_reachable builder (?w (run_pub s) ?c1 RunnerStopped)"
    using upd_then [OF r upd_submit [of "[[97]]" _ "Inr 0" ?c1]] sub by (simp add: run_world_def)
  have r2: "upd_reachable builder (?w (run_pub s) ?c2 RunnerIdle)"
    using upd_then [OF r1 upd_run_begin [of _ ?c2]] by (simp add: run_world_def run_begin_def run_ctl_def)
  have take: "run_take ?c2 = Some (RunnerApplying, ?c3)"
    by (simp add: run_take_def ctl_with_def run_ctl_def run_command_def new_command_def)
  have r3: "upd_reachable builder (?w (run_pub s) ?c3 RunnerApplying)"
    using upd_then [OF r2 upd_run_take [of _ RunnerApplying ?c3]] take by (simp add: run_world_def)
  have beg: "apply_begin (run_pub s) ?c3 = RunnerAcquiring 1"
    using g by (simp add: apply_begin_def ctl_with_def run_ctl_def current_version_def run_pub_eq)
  have r4: "upd_reachable builder (?w (run_pub s) ?c3 (RunnerAcquiring 1))"
    using upd_then [OF r3 upd_apply_begin] beg by (simp add: run_world_def)
  have acq: "apply_acquire 1 (run_pub s) ?c3 = Some (RunnerBuilding 2, (run_pub s)\<lparr>fp_credit_held := True\<rparr>)"
    using g by (simp add: apply_acquire_def acquire_retirement_credit_def run_pub_eq ctl_with_def run_ctl_def)
  show ?thesis
    using upd_then [OF r4 upd_apply_acquire [of _ 1 "RunnerBuilding 2"]] acq by (simp add: run_world_def set_publication_def)
qed

lemma run_to_success:
  assumes r: "upd_reachable builder (run_world ((run_pub s)\<lparr>fp_credit_held := True\<rparr>) (run_epochs 0) s
           (ctl_with (Some run_command) [([[97]], None)]) (RunnerBuilding 2) h)"
    and s: "snapshot_generation s = 1" "fst s = 1" and b: "builder stop [[97]] 2 = Some (BuilderReturns (Some ctx))" "generation ctx = 2"
  shows "\<exists>w. upd_reachable builder w \<and> pw_locals (uw_pub w) = [Some (2, ctx)]
     \<and> fu_promises (uw_ctl w) = [([[97]], Some (Inr \<lparr>fv_generation = 2, fv_rule_count = rule_count (blocklist ctx)\<rparr>))]"
proof -
  let ?t = "(2 :: nat, ctx)" and ?v = "\<lparr>fv_generation = 2, fv_rule_count = rule_count (blocklist ctx)\<rparr>" and ?ps = "[([[97]], None)]"
  let ?x4 = "run_command\<lparr>cmd_target := Some ?v, cmd_phase := Publishing\<rparr>"
  let ?x5 = "?x4\<lparr>cmd_phase := Committed, cmd_published := Some ?v\<rparr>"
  let ?p3 = "(run_pub s)\<lparr>fp_credit_held := True\<rparr>"
  let ?p5 = "snd (snd (commit 5 (Some ?t) ?p3 (run_epochs 0)))"
  let ?p6 = "publish_progress ?p5"
  let ?p7 = "taken True ?p6"
  let ?h = "(2, [[97]]) # h"
  have built: "apply_built 2 2 (BuilderReturns (Some ctx)) ?p3 (ctl_with (Some run_command) ?ps)
      = (RunnerPublishing ?t, ?p3, ctl_with (Some ?x4) ?ps)"
    using b by (simp add: apply_built_def ctl_with_def run_ctl_def set_inflight_def)
  have r4: "upd_reachable builder (run_world ?p3 (run_epochs 0) s (ctl_with (Some ?x4) ?ps) (RunnerPublishing ?t) h)"
    using upd_then [OF r upd_apply_built [of _ 2 run_command builder stop "BuilderReturns (Some ctx)" 2]] built b(1)
    by (simp add: run_world_def set_publication_def ctl_with_def run_command_def new_command_def)
  have fresh: "use_count (uw_pub (run_world ?p3 (run_epochs 0) s (ctl_with (Some ?x4) ?ps) (RunnerPublishing ?t) h)) ?t = 0"
    using s by (simp add: use_count_zero_iff owner_addresses_eq local_addresses_def List.map_filter_simps run_world_def run_pub_eq
        empty_record_def)
  have com: "apply_commit 5 ?t ?p3 (run_epochs 0) (ctl_with (Some ?x4) ?ps) = (RunnerConverging ?v, ?p5, ctl_with (Some ?x5) ?ps)"
    using s b(2) by (simp add: apply_commit_def commit_def run_pub_eq empty_record_def Let_def ctl_with_def run_ctl_def set_inflight_def)
  have p5: "fp_generation ?p5 = 2" "fp_active ?p5 = Some ?t" "rec_pending (fp_retired ?p5)" "rec_owner (fp_retired ?p5) = Some s"
      "rec_cohort (fp_retired ?p5) = [\<lparr>cm_worker_id = 0, cm_instance = 1, cm_epoch = 0\<rparr>]"
      "fv_generation (rec_version (fp_retired ?p5)) = 2" "\<not> rec_terminal (fp_retired ?p5)" "fp_reclaimer_active ?p5"
      "\<not> fp_failure_requested ?p5" "\<not> fp_failure_after_commit ?p5" "fp_last_converged ?p5 = 0" "rec_owner (fp_terminal ?p5) = None"
    using s b(2) by (simp_all add: commit_def run_pub_eq empty_record_def Let_def collect_cohort_def run_epochs_def)
  have r5: "upd_reachable builder (run_world ?p5 (run_epochs 0) s (ctl_with (Some ?x5) ?ps) (RunnerConverging ?v) ?h)"
    using upd_then [OF r4 upd_apply_commit [of _ ?t ?x4 5 "RunnerConverging ?v" ?p5 "ctl_with (Some ?x5) ?ps"]] com fresh p5(1) s
    by (simp add: run_world_def set_publication_def ctl_with_def run_command_def new_command_def run_pub_eq)
  have ref: "refresh_worker_snapshot (Some s) 1 0 ?p5 (run_epochs 0) = (True, Some ?t, ?p6, run_epochs 2)"
    unfolding refresh_worker_snapshot_def p5(2) using s b(2) by (simp add: run_epochs_def Let_def fun_eq_iff)
  have r6: "upd_reachable builder (run_world ?p6 (run_epochs 2) ?t (ctl_with (Some ?x5) ?ps) (RunnerConverging ?v) ?h)"
    using upd_then [OF r5 upd_env [OF step_refresh [of 0 _ 1 True "Some ?t" ?p6 "run_epochs 2"]]] ref
    by (simp add: run_world_def)
  let ?w6 = "\<lparr>pw_pub = ?p6, pw_epochs = run_epochs 2, pw_locals = [Some ?t], pw_destroying = None\<rparr>"
  have p6: "fp_generation ?p6 = 2" "fp_active ?p6 = Some ?t" "fp_retired ?p6 = fp_retired ?p5" "fp_terminal ?p6 = fp_terminal ?p5"
      "fp_reclaimer_active ?p6" "\<not> fp_failure_requested ?p6" "\<not> fp_failure_after_commit ?p6" "fp_last_converged ?p6 = 0"
    using p5 by (simp_all add: publish_progress_def)
  have step: "reclaimer_step (use_count ?w6) False 6 ?p6 (run_epochs 2) = (ReclaimerDestroys True (Some s), ?p7)"
    using p5 p6 s
    by (simp add: reclaimer_step_def next_pending_record_def record_of_def cohort_complete_def member_complete_def run_epochs_def
        shared_owner_def use_count_def owner_addresses_eq local_addresses_def List.map_filter_simps taken_def)
  have r7: "upd_reachable builder ((run_world ?p6 (run_epochs 2) ?t (ctl_with (Some ?x5) ?ps) (RunnerConverging ?v) ?h)
      \<lparr>uw_pub := round_world False 6 ?w6\<rparr>)"
    using upd_then [OF r6 upd_env [OF step_round [of _ False 6]]] p6(5) by (simp add: run_world_def)
  have p7: "pw_pub (round_world False 6 ?w6) = ?p7" "pw_locals (round_world False 6 ?w6) = [Some ?t]"
    unfolding round_world_def by (simp_all add: step)
  have conv: "apply_converged ?v ?p7 = Some (RunnerCompleting (Inr ?v))"
    using p5 p6 by (simp add: apply_converged_def wait_until_converged_def taken_def set_record_def record_of_def)
  have r8: "upd_reachable builder ((run_world ?p6 (run_epochs 2) ?t (ctl_with (Some ?x5) ?ps) (RunnerCompleting (Inr ?v)) ?h)
      \<lparr>uw_pub := round_world False 6 ?w6\<rparr>)"
    using upd_then [OF r7 upd_apply_converged [of _ ?v "RunnerCompleting (Inr ?v)"]] conv p7(1) by (simp add: run_world_def)
  have fin: "run_complete (Inr ?v) (ctl_with (Some ?x5) ?ps) = (RunnerIdle, ctl_with None [([[97]], Some (Inr ?v))])"
    by (simp add: run_complete_def ctl_with_def run_ctl_def complete_def run_command_def new_command_def)
  have "upd_reachable builder ((run_world ?p6 (run_epochs 2) ?t (ctl_with None [([[97]], Some (Inr ?v))]) RunnerIdle ?h)
      \<lparr>uw_pub := round_world False 6 ?w6\<rparr>)"
    using upd_then [OF r8 upd_run_complete [of _ "Inr ?v" RunnerIdle "ctl_with None [([[97]], Some (Inr ?v))]"]] fin
    by (simp add: run_world_def)
  then show ?thesis
    using p7(2) by (intro exI conjI) (assumption, simp_all add: run_world_def ctl_with_def)
qed

lemma sample_update:
  "\<exists>w b. upd_reachable (default_builder (\<lambda>_. 5)) w \<and> pw_locals (uw_pub w) = [Some (2, new_filter_context 2 b)]
     \<and> fu_promises (uw_ctl w) = [([[97]], Some (Inr \<lparr>fv_generation = 2, fv_rule_count = rule_count b\<rparr>))]"
proof -
  obtain b p where b: "build (\<lambda>_. 5) (\<lambda>_. False) [[97]] = Some (Inr (b, p))"
    using small_build by blast
  have d: "default_builder (\<lambda>_. 5) (\<lambda>_. False) [[97]] g = Some (BuilderReturns (Some (new_filter_context g b)))" for g
    by (simp add: default_builder_def build_filter_snapshot_def b)
  let ?s = "(1 :: nat, new_filter_context 1 b)"
  have s: "snapshot_generation ?s = 1" "fst ?s = 1"
    by (simp_all add: new_filter_context_def)
  have "built_from (default_builder (\<lambda>_. 5)) [[97]] ?s"
    using d [of 1] s(1) by (auto simp: built_from_def)
  note r = run_to_build [OF run_start [OF this s(1)] s(1)]
  have "generation (new_filter_context 2 b) = 2" "blocklist (new_filter_context 2 b) = b"
    by (simp_all add: new_filter_context_def)
  then show ?thesis
    using run_to_success [OF r s d [of 2]] by auto
qed

theorem update_takes_effect_witness:
  "\<exists>w s v. upd_reachable (default_builder (\<lambda>_. 5)) w \<and> ([[97]], Some (Inr v)) \<in> set (fu_promises (uw_ctl w))
     \<and> pw_locals (uw_pub w) = [Some s] \<and> matches (\<lambda>_. 5) (blocklist (snd s)) (name_of [[98], [65]])"
proof -
  obtain w b where w: "upd_reachable (default_builder (\<lambda>_. 5)) w" "pw_locals (uw_pub w) = [Some (2, new_filter_context 2 b)]"
      "fu_promises (uw_ctl w) = [([[97]], Some (Inr \<lparr>fv_generation = 2, fv_rule_count = rule_count b\<rparr>))]"
    using sample_update by blast
  have q: "wf_name (name_of [[98], [65]])"
    by (auto simp: wf_name_def valid_labels_def valid_label_def kMaxLabelSize_def kMaxDomainWireSize_def)
  have "matches (\<lambda>_. 5) (blocklist (new_filter_context 2 b)) (name_of [[98], [65]])"
    using update_takes_effect [OF w(1) _ _ _ q, of "[[97]]" "\<lparr>fv_generation = 2, fv_rule_count = rule_count b\<rparr>" 0
        "(2, new_filter_context 2 b)"] w(2,3)
    by (simp add: new_filter_context_def small_text is_subdomain_suffix canonical_labels_def ascii_lower_def suffix_Cons)
  then show ?thesis
    using w by (intro exI [of _ w] exI [of _ "(2, new_filter_context 2 b)"] exI) auto
qed

theorem updates_accounted_witness:
  "\<exists>w. upd_reachable (default_builder (\<lambda>_. 5)) w \<and> length (fu_promises (uw_ctl w)) = 1 \<and> 0 \<notin> set (map fst (open_keys (uw_ctl w)))
     \<and> fu_queued_rule_bytes (uw_ctl w) = sum_list (map cmd_accounted_bytes (fu_pending (uw_ctl w)))"
proof -
  obtain w and b :: domain_blocklist where w: "upd_reachable (default_builder (\<lambda>_. 5)) w"
      "fu_promises (uw_ctl w) = [([[97]], Some (Inr \<lparr>fv_generation = 2, fv_rule_count = rule_count b\<rparr>))]"
    using sample_update by blast
  show ?thesis
    using updates_accounted [OF w(1)] w by (intro exI [of _ w]) simp
qed

end
