(* ===== verification/DnsService.thy ===== *)
theory DnsService
  imports WorkerSupervisor FilterUpdateController DNS_Cache
begin

text \<open>
  The service as a whole, \<open>src/DNS.{h,cpp}\<close>: its configuration and results, the mapping of errors, every section that runs
  under \<open>lifecycle_mutex_\<close> as a function on the members it guards, and the interleaving of everything that runs in the
  process.  A caller of \<open>init\<close>, \<open>request_stop\<close>, \<open>join\<close>, \<open>wait\<close> or \<open>replace_blocked_domains\<close>, the holder of \<open>startup_mutex_\<close> (which starts
  the service or tears it down), the coordinator, the reclaimer and the supervisor thread each have a program counter;
  \<open>request_runtime_stop\<close> keeps the mutex over several visible stages.  The supervisor with its workers, the filter
  publication and the update controller are those of \<open>WorkerSupervisor\<close>, \<open>FilterPublication\<close> and \<open>FilterUpdateController\<close>, sharing one publication:
  their own steps are reused, and the calls of the service on them are steps here.

  The hash and \<open>inet_pton\<close> are parameters.  Exceptions of mutexes and of the allocation of small objects are left out, except where
  \<open>start\<close> and \<open>init\<close> catch them; so is the test hook that makes the coordinator detach the snapshot of a running service.
\<close>

section \<open>Configuration, results and errors\<close>

record upstream_config =
  uc_address :: string
  uc_port :: u16
  uc_query_timeout :: int
  uc_id_reuse_guard :: int
  uc_transaction_id_capacity :: nat

record dns_config =
  dc_worker_count :: nat
  dc_cache_capacity :: nat
  dc_port :: u16
  dc_runtime_updates_enabled :: bool
  dc_worker_failure_policy :: worker_failure_policy
  dc_restart_max_attempts :: nat
  dc_restart_initial_backoff :: int
  dc_restart_max_backoff :: int
  dc_restart_stability_window :: int
  dc_blocked_domains :: "byte list list"
  dc_upstream :: upstream_config

datatype dns_lifecycle_state = LcEmpty | LcInitialized | LcStarting | LcActive | LcStopping | LcStopped | LcFailed

datatype dns_health_state = Healthy | Degraded | Unavailable

datatype dns_control_role = RoleNone | RoleFilterUpdateCoordinator | RoleSnapshotReclaimer | RoleWorkerSupervisor | RoleWorker

datatype dns_start_error_code =
    DE_InvalidLifecycleState | DE_Cancelled | DE_CoordinatorThreadCreationFailed | DE_CoordinatorInitFailed
  | DE_ReclaimerThreadCreationFailed | DE_ReclaimerInitFailed | DE_SupervisorThreadCreationFailed | DE_SupervisorInitFailed
  | DE_WorkerCreateFailed | DE_WorkerRuntimeInitFailed | DE_WorkerThreadCreationFailed | DE_InternalError

record dns_start_error =
  de_code :: dns_start_error_code
  de_role :: dns_control_role
  de_worker :: nat
  de_instance :: u64
  de_create_error :: "worker_init_error option"
  de_runtime_error :: "worker_runtime_error option"
  de_error_number :: int

record dns_start_info =
  di_bound_port :: u16
  di_worker_count :: nat
  di_attempt :: u64

type_synonym dns_start_result = "dns_start_error + dns_start_info"

datatype dns_exit_code = EX_NotStarted | EX_ExplicitStop | EX_StartupFailure | EX_Fatal | EX_TeardownIncomplete

datatype dns_fatal_code =
    DF_None | DF_CoordinatorExited | DF_ReclaimerExited | DF_GracePeriodStalled | DF_SupervisorExited | DF_WorkerExited
  | DF_UnexpectedWorkerStop | DF_RestartBudgetExhausted | DF_WorkerJoinFailed | DF_InternalError

record dns_fatal_error =
  df_code :: dns_fatal_code
  df_role :: dns_control_role
  df_worker :: nat
  df_instance :: u64
  df_worker_error :: "worker_runtime_error option"
  df_create_error :: "worker_init_error option"
  df_failure_code :: "worker_failure_code option"
  df_error_number :: int
  df_diagnostic :: "grace_diagnostic option"

record dns_exit_result =
  ex_code :: dns_exit_code
  ex_startup_error :: "dns_start_error option"
  ex_fatal_error :: "dns_fatal_error option"

record dns_health_snapshot =
  dh_state :: dns_health_state
  dh_available_workers :: nat
  dh_desired_workers :: nat
  dh_restart_count :: nat
  dh_restart_success_count :: nat
  dh_restart_failure_count :: nat
  dh_bound_port :: "u16 option"
  dh_filter_version :: "filter_version option"
  dh_last_error :: "dns_fatal_error option"

datatype stop_cause = CauseNone | CauseExplicit | CauseStartupFailure | CauseFatal

record runtime_config =
  rt_worker_count :: nat
  rt_cache_capacity :: nat
  rt_port :: u16
  rt_runtime_updates_enabled :: bool
  rt_recovery :: worker_recovery_config
  rt_upstream :: upstream_config

section \<open>The mapping of errors\<close>

definition errno_ENOMEM :: int where "errno_ENOMEM = 12"

definition make_start_error :: "dns_start_error_code \<Rightarrow> dns_control_role \<Rightarrow> int \<Rightarrow> dns_start_error" where
  "make_start_error code role n = \<lparr>de_code = code, de_role = role, de_worker = size_max, de_instance = 0, de_create_error = None,
     de_runtime_error = None, de_error_number = n\<rparr>"

fun mapped_startup_code :: "startup_error_code \<Rightarrow> dns_start_error_code" where
  "mapped_startup_code SE_Cancelled = DE_Cancelled"
| "mapped_startup_code SE_WorkerCreateFailed = DE_WorkerCreateFailed"
| "mapped_startup_code SE_WorkerThreadStartFailed = DE_WorkerThreadCreationFailed"
| "mapped_startup_code SE_WorkerInitFailed = DE_WorkerRuntimeInitFailed"
| "mapped_startup_code SE_WorkerExitedBeforeReady = DE_WorkerRuntimeInitFailed"
| "mapped_startup_code SE_InvalidConfiguration = DE_SupervisorInitFailed"
| "mapped_startup_code SE_InstanceIdExhausted = DE_SupervisorInitFailed"
| "mapped_startup_code SE_InternalError = DE_SupervisorInitFailed"

definition map_supervisor_start_error :: "startup_error \<Rightarrow> dns_start_error" where
  "map_supervisor_start_error e =
     \<lparr>de_code = mapped_startup_code (se_code e),
      de_role = (if se_code e \<in> {SE_InvalidConfiguration, SE_InstanceIdExhausted, SE_InternalError} then RoleWorkerSupervisor else RoleWorker),
      de_worker = se_worker e, de_instance = se_instance e, de_create_error = se_create_error e,
      de_runtime_error = se_runtime_error e, de_error_number = se_error_number e\<rparr>"

definition map_supervisor_activation_error :: "activation_error \<Rightarrow> dns_start_error" where
  "map_supervisor_activation_error e =
     (if ae_code e = AE_Cancelled then make_start_error DE_Cancelled RoleNone 0
      else if ae_worker e = kInvalidWorkerId then make_start_error DE_SupervisorInitFailed RoleWorkerSupervisor 0
      else let mapped = (make_start_error DE_WorkerRuntimeInitFailed RoleWorker 0)\<lparr>de_worker := ae_worker e, de_instance := ae_instance e\<rparr> in
        case ae_worker_result e of
          None \<Rightarrow> mapped
        | Some r \<Rightarrow> mapped\<lparr>de_runtime_error := rr_error r, de_error_number := error_number_of (rr_error r)\<rparr>)"

definition cancelled_start_error :: dns_start_error where
  "cancelled_start_error = make_start_error DE_Cancelled RoleNone 0"

definition make_role_fatal :: "dns_fatal_code \<Rightarrow> dns_control_role \<Rightarrow> dns_fatal_error" where
  "make_role_fatal code role = \<lparr>df_code = code, df_role = role, df_worker = size_max, df_instance = 0, df_worker_error = None,
     df_create_error = None, df_failure_code = None, df_error_number = 0, df_diagnostic = None\<rparr>"

definition map_worker_failure :: "worker_failure \<Rightarrow> dns_fatal_error" where
  "map_worker_failure f =
     \<lparr>df_code = (if wf_budget_exhausted f then DF_RestartBudgetExhausted
                 else if wf_code f = FC_JoinFailed then DF_WorkerJoinFailed
                 else if wf_code f = FC_UnexpectedStop then DF_UnexpectedWorkerStop else DF_WorkerExited),
      df_role = RoleWorker, df_worker = wf_worker f, df_instance = wf_instance f, df_worker_error = wf_runtime_error f,
      df_create_error = wf_create_error f, df_failure_code = Some (wf_code f), df_error_number = wf_error_number f,
      df_diagnostic = None\<rparr>"

section \<open>The results of the roles\<close>

datatype role_ready = ReadyRole | AlreadyRunningRole

text \<open>The slots of \<open>ControlPlaneState\<close>; each takes the first value only.\<close>

record control_slots =
  cs_attempt :: u64
  cs_coordinator_ready :: "role_ready option"
  cs_reclaimer_ready :: "role_ready option"
  cs_coordinator_result :: "filter_runner_exit_code option"
  cs_reclaimer_result :: "(reclaimer_exit_code \<times> grace_diagnostic option) option"
  cs_supervisor_result :: "sup_run_result option"

definition control_reset :: "u64 \<Rightarrow> control_slots \<Rightarrow> control_slots" where
  "control_reset attempt c = \<lparr>cs_attempt = attempt, cs_coordinator_ready = None, cs_reclaimer_ready = None, cs_coordinator_result = None,
     cs_reclaimer_result = None, cs_supervisor_result = None\<rparr>"

definition new_control_slots :: control_slots where
  "new_control_slots = \<lparr>cs_attempt = 0, cs_coordinator_ready = None, cs_reclaimer_ready = None, cs_coordinator_result = None,
     cs_reclaimer_result = None, cs_supervisor_result = None\<rparr>"

definition report_reclaimer_ready :: "role_ready \<Rightarrow> control_slots \<Rightarrow> control_slots" where
  "report_reclaimer_ready r c = (if cs_reclaimer_ready c = None then c\<lparr>cs_reclaimer_ready := Some r\<rparr> else c)"

definition report_coordinator_ready :: "role_ready \<Rightarrow> control_slots \<Rightarrow> control_slots" where
  "report_coordinator_ready r c = (if cs_coordinator_ready c = None then c\<lparr>cs_coordinator_ready := Some r\<rparr> else c)"

definition publish_coordinator_result :: "filter_runner_exit_code \<Rightarrow> control_slots \<Rightarrow> control_slots" where
  "publish_coordinator_result r c = (if cs_coordinator_result c = None then c\<lparr>cs_coordinator_result := Some r\<rparr> else c)"

definition publish_supervisor_result :: "sup_run_result \<Rightarrow> control_slots \<Rightarrow> control_slots" where
  "publish_supervisor_result r c = (if cs_supervisor_result c = None then c\<lparr>cs_supervisor_result := Some r\<rparr> else c)"

definition publish_reclaimer_result :: "reclaimer_exit_code \<times> grace_diagnostic option \<Rightarrow> control_slots \<Rightarrow> control_slots" where
  "publish_reclaimer_result r c = (if cs_reclaimer_result c = None then c\<lparr>cs_reclaimer_result := Some r\<rparr> else c)"

record fault_injection =
  fi_coordinator_thread_failure :: bool
  fi_coordinator_init_failure :: bool
  fi_reclaimer_thread_failure :: bool
  fi_reclaimer_init_failure :: bool
  fi_supervisor_thread_failure :: bool
  fi_supervisor :: fault_hooks
  fi_pause_armed :: bool
  fi_pause_reached :: bool

section \<open>The service\<close>

text \<open>
  The members that \<open>lifecycle_mutex_\<close> guards.  An owner (\<open>unique_ptr\<close>) is whether it is set; for the cache, its
  shards; a thread handle is whether it is joinable.
\<close>

record dns_service =
  ds_state :: dns_lifecycle_state
  ds_init_in_progress :: bool
  ds_stop_cause :: stop_cause
  ds_attempt :: u64
  ds_startup_stop :: bool
  ds_admission_open :: bool
  ds_config :: runtime_config
  ds_health :: dns_health_snapshot
  ds_startup_error :: "dns_start_error option"
  ds_fatal_error :: "dns_fatal_error option"
  ds_control :: bool
  ds_faults :: "fault_injection option"
  ds_filter_updates :: bool
  ds_cache :: "nat option"
  ds_supervisor :: bool
  ds_coordinator_thread :: bool
  ds_reclaimer_thread :: bool
  ds_supervisor_thread :: bool

definition on_dns_health :: "(dns_health_snapshot \<Rightarrow> dns_health_snapshot) \<Rightarrow> dns_service \<Rightarrow> dns_service" where
  "on_dns_health f s = s\<lparr>ds_health := f (ds_health s)\<rparr>"

definition unavailable :: "dns_health_snapshot \<Rightarrow> dns_health_snapshot" where
  "unavailable h = h\<lparr>dh_state := Unavailable, dh_available_workers := 0\<rparr>"

definition new_dns_health :: "nat \<Rightarrow> filter_version option \<Rightarrow> dns_health_snapshot" where
  "new_dns_health desired version = \<lparr>dh_state = Unavailable, dh_available_workers = 0, dh_desired_workers = desired, dh_restart_count = 0,
     dh_restart_success_count = 0, dh_restart_failure_count = 0, dh_bound_port = None, dh_filter_version = version, dh_last_error = None\<rparr>"

definition no_recovery :: worker_recovery_config where
  "no_recovery = \<lparr>rc_policy = FailService, rc_max_attempts = 3, rc_initial_backoff = 100, rc_max_backoff = 5000,
     rc_stability_window = 30000\<rparr>"

definition default_upstream :: upstream_config where
  "default_upstream = \<lparr>uc_address = ''127.0.0.1'', uc_port = 53, uc_query_timeout = 2000000000, uc_id_reuse_guard = 4000000000,
     uc_transaction_id_capacity = 65536\<rparr>"

definition DEFAULT_TOTAL_CAPACITY :: nat where "DEFAULT_TOTAL_CAPACITY = 1000000"

definition default_runtime_config :: runtime_config where
  "default_runtime_config = \<lparr>rt_worker_count = 1, rt_cache_capacity = DEFAULT_TOTAL_CAPACITY, rt_port = 5353, rt_runtime_updates_enabled = True,
     rt_recovery = no_recovery, rt_upstream = default_upstream\<rparr>"

definition new_dns :: dns_service where
  "new_dns = \<lparr>ds_state = LcEmpty, ds_init_in_progress = False, ds_stop_cause = CauseNone, ds_attempt = 0, ds_startup_stop = False,
     ds_admission_open = False, ds_config = default_runtime_config, ds_health = new_dns_health 0 None, ds_startup_error = None,
     ds_fatal_error = None, ds_control = False, ds_faults = None, ds_filter_updates = False, ds_cache = None, ds_supervisor = False,
     ds_coordinator_thread = False, ds_reclaimer_thread = False, ds_supervisor_thread = False\<rparr>"

section \<open>Initialization\<close>

text \<open>\<open>inet_pton\<close> says whether the C library reads the text as an IPv4 address.\<close>

definition is_valid_upstream_config :: "(string \<Rightarrow> bool) \<Rightarrow> upstream_config \<Rightarrow> bool" where
  "is_valid_upstream_config inet_pton c \<longleftrightarrow>
     \<not> (uc_address c = [] \<or> uc_port c = 0 \<or> uc_query_timeout c \<le> 0 \<or> uc_id_reuse_guard c < uc_query_timeout c
        \<or> uc_transaction_id_capacity c = 0 \<or> uc_transaction_id_capacity c > kTransactionIdSpace)
     \<and> inet_pton (uc_address c)"

definition init_begin :: "dns_service \<Rightarrow> bool \<times> dns_service" where
  "init_begin s = (if ds_state s \<noteq> LcEmpty \<or> ds_init_in_progress s then (False, s) else (True, s\<lparr>ds_init_in_progress := True\<rparr>))"

definition init_recovery :: "dns_config \<Rightarrow> worker_recovery_config" where
  "init_recovery c = \<lparr>rc_policy = dc_worker_failure_policy c, rc_max_attempts = dc_restart_max_attempts c,
     rc_initial_backoff = dc_restart_initial_backoff c, rc_max_backoff = dc_restart_max_backoff c,
     rc_stability_window = dc_restart_stability_window c\<rparr>"

definition init_valid :: "(string \<Rightarrow> bool) \<Rightarrow> dns_config \<Rightarrow> bool" where
  "init_valid inet_pton c \<longleftrightarrow> dc_worker_count c \<noteq> 0 \<and> is_valid_upstream_config inet_pton (dc_upstream c)
     \<and> is_valid_recovery_config (init_recovery c)"

text \<open>Thirty seconds in nanoseconds, the default of \<open>FilterPublicationState::Config\<close>.\<close>

definition kGraceTimeout :: int where "kGraceTimeout = 30000000000"

text \<open>
  What \<open>init\<close> builds before it takes the mutex again; \<open>None\<close> if the rules are rejected, the build fails or a
  constructor throws.  The snapshot is a new object at the given address.
\<close>

definition init_build ::
  "(byte list \<Rightarrow> u64) \<Rightarrow> nat \<Rightarrow> dns_config \<Rightarrow> (filter_snapshot \<times> filter_publication \<times> filter_updates \<times> dns_cache) option" where
  "init_build xxh3 address c =
     (case validate_filter_rule_set (dc_blocked_domains c) default_update_limits of
        Inl e \<Rightarrow> None
      | Inr m \<Rightarrow>
          (case build_filter_snapshot xxh3 (\<lambda>_. False) (dc_blocked_domains c) kInitialFilterGeneration of
             Some (Inr context) \<Rightarrow>
               (case new_publication (Some (address, context)) (dc_worker_count c) kGraceTimeout of
                  None \<Rightarrow> None
                | Some p \<Rightarrow>
                    (case (new_filter_updates p default_update_limits, new_dns_cache (dc_cache_capacity c) (dc_worker_count c)) of
                       (Some u, Some cache) \<Rightarrow> Some ((address, context), p, u, cache)
                     | _ \<Rightarrow> None))
           | _ \<Rightarrow> None))"

definition init_failed :: "dns_service \<Rightarrow> dns_service" where
  "init_failed s = s\<lparr>ds_init_in_progress := False\<rparr>"

definition no_hooks :: fault_hooks where
  "no_hooks = \<lparr>fh_failure_from_instance = 1, fh_create_failure_worker = None, fh_create_failure_step = IS_CreateSocket,
     fh_create_failure_error = 0, fh_thread_failure_worker = None, fh_thread_failure_error = 0, fh_runtime_init_failure_worker = None,
     fh_runtime_init_failure_step = RS_StartScheduler, fh_runtime_init_failure_error = 0\<rparr>"

definition new_fault_injection :: fault_injection where
  "new_fault_injection = \<lparr>fi_coordinator_thread_failure = False, fi_coordinator_init_failure = False, fi_reclaimer_thread_failure = False,
     fi_reclaimer_init_failure = False, fi_supervisor_thread_failure = False, fi_supervisor = no_hooks, fi_pause_armed = False,
     fi_pause_reached = False\<rparr>"

definition init_commit :: "dns_config \<Rightarrow> filter_publication \<Rightarrow> dns_cache \<Rightarrow> dns_service \<Rightarrow> dns_service" where
  "init_commit c p cache s = s\<lparr>ds_config := \<lparr>rt_worker_count = dc_worker_count c, rt_cache_capacity = dc_cache_capacity c, rt_port = dc_port c,
        rt_runtime_updates_enabled = dc_runtime_updates_enabled c, rt_recovery = init_recovery c, rt_upstream = dc_upstream c\<rparr>,
      ds_health := new_dns_health (dc_worker_count c) (Some (current_version p)), ds_filter_updates := True,
      ds_cache := Some (length (shards cache)), ds_control := True, ds_faults := Some new_fault_injection,
      ds_init_in_progress := False, ds_state := LcInitialized\<rparr>"

section \<open>Start\<close>

definition start_begin :: "dns_service \<Rightarrow> dns_start_error option \<times> dns_service" where
  "start_begin s =
     (if ds_state s \<noteq> LcInitialized \<or> \<not> ds_filter_updates s \<or> ds_cache s = None \<or> \<not> ds_control s \<or> ds_faults s = None
      then (Some (make_start_error DE_InvalidLifecycleState RoleNone 0), s)
      else (None, s\<lparr>ds_state := LcStarting, ds_stop_cause := CauseNone, ds_startup_error := None, ds_fatal_error := None,
              ds_admission_open := False, ds_startup_stop := False, ds_attempt := ds_attempt s + 1,
              ds_health := (unavailable (ds_health s))\<lparr>dh_bound_port := None, dh_last_error := None\<rparr>\<rparr>))"

definition fail_start_mark :: "dns_start_error \<Rightarrow> dns_service \<Rightarrow> dns_service" where
  "fail_start_mark e s =
     (let s1 = (if ds_stop_cause s = CauseNone then s\<lparr>ds_stop_cause := CauseStartupFailure, ds_startup_error := Some e\<rparr> else s);
          s2 = (if ds_state s1 = LcStarting \<or> ds_state s1 = LcActive then s1\<lparr>ds_state := LcStopping\<rparr> else s1)
      in s2\<lparr>ds_admission_open := False, ds_health := (ds_health s2)\<lparr>dh_state := Unavailable\<rparr>, ds_startup_stop := True\<rparr>)"

definition fail_start_result :: "dns_start_error \<Rightarrow> dns_service \<Rightarrow> dns_start_error" where
  "fail_start_result e s =
     (if ds_stop_cause s = CauseExplicit then cancelled_start_error
      else case ds_startup_error s of Some first \<Rightarrow> first | None \<Rightarrow> e)"

definition supervisor_config_of :: "dns_service \<Rightarrow> supervisor_config" where
  "supervisor_config_of s = \<lparr>cfg_requested_port = rt_port (ds_config s), cfg_cache_shards = ds_cache s,
     cfg_recovery = rt_recovery (ds_config s), cfg_hooks = (case ds_faults s of Some f \<Rightarrow> fi_supervisor f | None \<Rightarrow> no_hooks),
     cfg_fatal_reporter = True\<rparr>"

text \<open>
  The wait of \<open>start\<close> for a role: \<open>None\<close> while it goes on, otherwise the error with which the start fails, if any.
  The value of a slot never changes once it is set, so that nothing is lost by reading the token with the slots.
\<close>

definition await_role ::
  "dns_start_error_code \<Rightarrow> dns_control_role \<Rightarrow> bool \<Rightarrow> role_ready option \<Rightarrow> 'r option \<Rightarrow> dns_start_error option option" where
  "await_role failed role stop ready result =
     (if ready = None \<and> result = None \<and> \<not> stop then None
      else if ready \<noteq> Some ReadyRole then Some (Some (make_start_error (if stop then DE_Cancelled else failed) role 0))
      else if result \<noteq> None then Some (Some (make_start_error failed role 0)) else Some None)"

definition await_reclaimer :: "bool \<Rightarrow> control_slots \<Rightarrow> dns_start_error option option" where
  "await_reclaimer stop c = await_role DE_ReclaimerInitFailed RoleSnapshotReclaimer stop (cs_reclaimer_ready c) (cs_reclaimer_result c)"

definition await_coordinator :: "bool \<Rightarrow> control_slots \<Rightarrow> dns_start_error option option" where
  "await_coordinator stop c =
     await_role DE_CoordinatorInitFailed RoleFilterUpdateCoordinator stop (cs_coordinator_ready c) (cs_coordinator_result c)"

definition still_starting :: "u64 \<Rightarrow> dns_service \<Rightarrow> bool" where
  "still_starting attempt s \<longleftrightarrow> ds_state s = LcStarting \<and> ds_stop_cause s = CauseNone \<and> ds_attempt s = attempt"

text \<open>\<open>commit_startup\<close>: whether the service is active now, and the error if the workers were not released.\<close>

definition commit_startup ::
  "u64 \<Rightarrow> startup_info \<Rightarrow> filter_version \<Rightarrow> supervisor \<Rightarrow> dns_service \<Rightarrow> bool \<times> dns_start_error option \<times> supervisor \<times> dns_service" where
  "commit_startup attempt ready version sv s =
     (if still_starting attempt s then
        (let h = (ds_health s)\<lparr>dh_state := Healthy, dh_available_workers := rt_worker_count (ds_config s),
                   dh_bound_port := Some (si_bound_port ready), dh_filter_version := Some version\<rparr>;
             s1 = s\<lparr>ds_state := LcActive, ds_health := h\<rparr>
         in case release_data_plane sv of
              (Inr _, sv') \<Rightarrow> (True, None, sv', s1\<lparr>ds_admission_open := rt_runtime_updates_enabled (ds_config s)\<rparr>)
            | (Inl e, sv') \<Rightarrow> (False, Some (map_supervisor_activation_error e), sv',
                s1\<lparr>ds_state := LcStarting, ds_health := (unavailable h)\<lparr>dh_bound_port := None\<rparr>, ds_admission_open := False\<rparr>))
      else (False, None, sv, s))"

definition start_commit ::
  "u64 \<Rightarrow> startup_info \<Rightarrow> filter_version \<Rightarrow> control_slots \<Rightarrow> supervisor \<Rightarrow> dns_service
     \<Rightarrow> bool \<times> dns_start_error option \<times> supervisor \<times> dns_service" where
  "start_commit attempt ready version c sv s =
     (if \<not> rt_runtime_updates_enabled (ds_config s) \<or> cs_coordinator_result c = None \<and> cs_reclaimer_result c = None
      then commit_startup attempt ready version sv s
      else if cs_reclaimer_result c \<noteq> None
      then (False, Some (make_start_error DE_ReclaimerInitFailed RoleSnapshotReclaimer 0), sv, s)
      else (False, Some (make_start_error DE_CoordinatorInitFailed RoleFilterUpdateCoordinator 0), sv, s))"

section \<open>Stopping\<close>

datatype stop_action = StopsNothing | StopsInitialized | StopsRuntime

definition request_stop_locked :: "dns_service \<Rightarrow> stop_action \<times> dns_service" where
  "request_stop_locked s =
     (if ds_state s = LcEmpty \<or> ds_state s = LcStopped \<or> ds_state s = LcFailed then (StopsNothing, s)
      else if ds_state s = LcInitialized
      then (StopsInitialized, s\<lparr>ds_stop_cause := CauseExplicit, ds_state := LcStopped, ds_admission_open := False,
              ds_health := unavailable (ds_health s), ds_filter_updates := False, ds_cache := None, ds_control := False, ds_faults := None\<rparr>)
      else (StopsRuntime, s\<lparr>ds_stop_cause := (if ds_stop_cause s = CauseNone then CauseExplicit else ds_stop_cause s),
              ds_state := (if ds_state s = LcStarting \<or> ds_state s = LcActive then LcStopping else ds_state s),
              ds_admission_open := False, ds_health := unavailable (ds_health s), ds_startup_stop := True\<rparr>))"

definition accept_fatal_locked :: "dns_fatal_error \<Rightarrow> dns_service \<Rightarrow> bool \<times> dns_service" where
  "accept_fatal_locked e s =
     (if ds_state s \<noteq> LcActive \<or> ds_stop_cause s \<noteq> CauseNone then (False, s)
      else (True, s\<lparr>ds_stop_cause := CauseFatal, ds_fatal_error := Some e, ds_state := LcStopping, ds_admission_open := False,
              ds_health := (unavailable (ds_health s))\<lparr>dh_last_error := Some e\<rparr>, ds_startup_stop := True\<rparr>))"

definition runtime_stop_begin :: "dns_service \<Rightarrow> dns_service" where
  "runtime_stop_begin s = s\<lparr>ds_startup_stop := True, ds_admission_open := False\<rparr>"

section \<open>The ends of the roles\<close>

definition stop_expected :: "bool \<Rightarrow> dns_service \<Rightarrow> bool" where
  "stop_expected token s \<longleftrightarrow> token \<or> ds_startup_stop s \<or> ds_state s = LcStopping \<or> ds_state s = LcStopped \<or> ds_state s = LcFailed"

definition role_exited :: "bool \<Rightarrow> u64 \<Rightarrow> dns_start_error \<Rightarrow> dns_fatal_error \<Rightarrow> dns_service \<Rightarrow> bool \<times> dns_service" where
  "role_exited token attempt startup fatal s =
     (if \<not> stop_expected token s \<and> ds_attempt s = attempt then
        if ds_state s = LcStarting
        then (True, (if ds_stop_cause s = CauseNone then s\<lparr>ds_stop_cause := CauseStartupFailure, ds_startup_error := Some startup\<rparr> else s)
                \<lparr>ds_state := LcStopping, ds_startup_stop := True\<rparr>)
        else if ds_state s = LcActive then accept_fatal_locked fatal s
        else (False, s)
      else (False, s))"

definition reclaimer_exited :: "u64 \<Rightarrow> reclaimer_exit_code \<times> grace_diagnostic option \<Rightarrow> dns_service \<Rightarrow> bool \<times> dns_service" where
  "reclaimer_exited attempt r =
     role_exited False attempt (make_start_error DE_ReclaimerInitFailed RoleSnapshotReclaimer 0)
       ((make_role_fatal (if fst r = GracePeriodStalled then DF_GracePeriodStalled else DF_ReclaimerExited) RoleSnapshotReclaimer)
          \<lparr>df_diagnostic := snd r\<rparr>)"

definition coordinator_exited :: "bool \<Rightarrow> u64 \<Rightarrow> dns_service \<Rightarrow> bool \<times> dns_service" where
  "coordinator_exited token attempt =
     role_exited token attempt (make_start_error DE_CoordinatorInitFailed RoleFilterUpdateCoordinator 0)
       (make_role_fatal DF_CoordinatorExited RoleFilterUpdateCoordinator)"

definition supervisor_start_failure :: "sup_run_result \<Rightarrow> dns_start_error" where
  "supervisor_start_failure r =
     (case sr_startup_error r of
        Some e \<Rightarrow> map_supervisor_start_error e
      | None \<Rightarrow>
          if sr_worker r \<noteq> kInvalidWorkerId
          then (make_start_error DE_WorkerRuntimeInitFailed RoleWorker (sr_error_number r))\<lparr>de_worker := sr_worker r,
                 de_instance := sr_instance r,
                 de_runtime_error := (case sr_worker_result r of Some w \<Rightarrow> rr_error w | None \<Rightarrow> None)\<rparr>
          else make_start_error DE_SupervisorInitFailed RoleWorkerSupervisor 0)"

definition supervisor_exited :: "bool \<Rightarrow> u64 \<Rightarrow> sup_run_result \<Rightarrow> dns_service \<Rightarrow> bool \<times> dns_service" where
  "supervisor_exited token attempt r =
     role_exited token attempt (supervisor_start_failure r) (make_role_fatal DF_SupervisorExited RoleWorkerSupervisor)"

text \<open>The result that \<open>supervisor_main\<close> publishes when \<open>run\<close> throws.\<close>

definition supervisor_threw :: sup_run_result where
  "supervisor_threw = bare_fatal_result SR_InternalError"

text \<open>The health callback of the supervisor.\<close>

definition health_reporter :: "health_snapshot \<Rightarrow> dns_service \<Rightarrow> dns_service" where
  "health_reporter h s =
     (if ds_state s \<noteq> LcActive \<and> ds_state s \<noteq> LcStopping then s
      else let s1 = on_dns_health (\<lambda>d. d\<lparr>dh_restart_count := hs_restart_count h, dh_restart_success_count := hs_restart_success_count h,
                       dh_restart_failure_count := hs_restart_failure_count h\<rparr>) s
        in if ds_state s \<noteq> LcActive \<or> ds_stop_cause s \<noteq> CauseNone then s1
           else on_dns_health (\<lambda>d. d\<lparr>dh_available_workers := hs_available_workers h,
                  dh_state := (if hs_available_workers h = dh_desired_workers d then Healthy
                               else if hs_available_workers h = 0 then Unavailable else Degraded),
                  dh_last_error := (case hs_last_error h of Some f \<Rightarrow> Some (map_worker_failure f) | None \<Rightarrow> dh_last_error d)\<rparr>) s1)"

section \<open>Updates of the rules\<close>

definition replace_admission :: "dns_service \<Rightarrow> filter_update_error_code option" where
  "replace_admission s =
     (if ds_state s = LcStopping \<or> ds_state s = LcStopped \<or> ds_state s = LcFailed then Some ShuttingDown
      else if ds_state s \<noteq> LcActive then Some ServiceNotRunning
      else if \<not> rt_runtime_updates_enabled (ds_config s) then Some ControlPlaneDisabled
      else if \<not> ds_admission_open s then Some ServiceNotRunning
      else if \<not> ds_filter_updates s then Some UpdateInternalError
      else None)"

definition replace_completed :: "filter_update_result \<Rightarrow> dns_service \<Rightarrow> dns_service" where
  "replace_completed r s =
     (case r of
        Inl e \<Rightarrow> s
      | Inr v \<Rightarrow>
          if (case dh_filter_version (ds_health s) of None \<Rightarrow> True | Some old \<Rightarrow> fv_generation v > fv_generation old)
          then on_dns_health (\<lambda>d. d\<lparr>dh_filter_version := Some v\<rparr>) s else s)"

section \<open>The end of the service\<close>

definition exit_result_locked :: "dns_service \<Rightarrow> dns_exit_result" where
  "exit_result_locked s =
     (case ds_stop_cause s of
        CauseExplicit \<Rightarrow> \<lparr>ex_code = EX_ExplicitStop, ex_startup_error = None, ex_fatal_error = None\<rparr>
      | CauseStartupFailure \<Rightarrow> \<lparr>ex_code = EX_StartupFailure, ex_startup_error = ds_startup_error s, ex_fatal_error = None\<rparr>
      | CauseFatal \<Rightarrow> \<lparr>ex_code = EX_Fatal, ex_startup_error = None, ex_fatal_error = ds_fatal_error s\<rparr>
      | CauseNone \<Rightarrow> \<lparr>ex_code = EX_NotStarted, ex_startup_error = None, ex_fatal_error = None\<rparr>)"

definition teardown_over :: "dns_service \<Rightarrow> bool" where
  "teardown_over s \<longleftrightarrow> ds_state s = LcEmpty \<or> ds_state s = LcInitialized \<or> ds_state s = LcStopped \<or> ds_state s = LcFailed"

definition teardown_incomplete :: "dns_service \<Rightarrow> dns_exit_result \<times> dns_service" where
  "teardown_incomplete s =
     (let s' = s\<lparr>ds_state := LcStopping, ds_health := unavailable (ds_health s)\<rparr>
      in (\<lparr>ex_code = EX_TeardownIncomplete, ex_startup_error = ds_startup_error s', ex_fatal_error = ds_fatal_error s'\<rparr>, s'))"

definition teardown_commit :: "filter_version \<Rightarrow> dns_service \<Rightarrow> dns_exit_result \<times> dns_service" where
  "teardown_commit version s =
     (let h = (if ds_filter_updates s then (ds_health s)\<lparr>dh_filter_version := Some version\<rparr> else ds_health s);
          s' = s\<lparr>ds_supervisor := False, ds_filter_updates := False, ds_cache := None, ds_control := False, ds_faults := None,
                 ds_health := unavailable h, ds_state := (if ds_stop_cause s = CauseExplicit then LcStopped else LcFailed)\<rparr>
      in (exit_result_locked s', s'))"

text \<open>\<open>wait\<close> goes on in these states; in the first it returns at once.\<close>

definition wait_over :: "dns_service \<Rightarrow> bool" where
  "wait_over s \<longleftrightarrow> ds_state s \<in> {LcEmpty, LcInitialized, LcStopping, LcStopped, LcFailed}"

text \<open>The destructor terminates the process if the teardown is not complete.\<close>

definition destructor_terminates :: "dns_exit_result \<Rightarrow> bool" where
  "destructor_terminates r \<longleftrightarrow> ex_code r = EX_TeardownIncomplete"

text \<open>The exit status of the program.\<close>

definition main_status :: "bool \<Rightarrow> dns_exit_result \<Rightarrow> int" where
  "main_status control_failure r = (if \<not> control_failure \<and> ex_code r = EX_ExplicitStop then 0 else 1)"

section \<open>Queries\<close>

definition is_running :: "dns_service \<Rightarrow> bool" where
  "is_running s \<longleftrightarrow> ds_state s = LcActive"

definition lifecycle_state :: "dns_service \<Rightarrow> dns_lifecycle_state" where
  "lifecycle_state s = ds_state s"

definition health :: "dns_service \<Rightarrow> dns_health_snapshot" where
  "health s = ds_health s"

definition bound_port :: "dns_service \<Rightarrow> u16 option" where
  "bound_port s = dh_bound_port (ds_health s)"

definition service_filter_version :: "filter_publication \<Rightarrow> dns_service \<Rightarrow> filter_version option" where
  "service_filter_version p s = (if ds_filter_updates s then Some (current_version p) else dh_filter_version (ds_health s))"

section \<open>Faults that tests inject\<close>

definition on_faults :: "(fault_injection \<Rightarrow> fault_injection) \<Rightarrow> dns_service \<Rightarrow> dns_service" where
  "on_faults f s = s\<lparr>ds_faults := map_option f (ds_faults s)\<rparr>"

definition inject_coordinator_thread_failure :: "dns_service \<Rightarrow> dns_service" where
  "inject_coordinator_thread_failure = on_faults (\<lambda>f. f\<lparr>fi_coordinator_thread_failure := True\<rparr>)"

definition inject_coordinator_init_failure :: "dns_service \<Rightarrow> dns_service" where
  "inject_coordinator_init_failure = on_faults (\<lambda>f. f\<lparr>fi_coordinator_init_failure := True\<rparr>)"

definition inject_reclaimer_thread_failure :: "dns_service \<Rightarrow> dns_service" where
  "inject_reclaimer_thread_failure = on_faults (\<lambda>f. f\<lparr>fi_reclaimer_thread_failure := True\<rparr>)"

definition inject_reclaimer_init_failure :: "dns_service \<Rightarrow> dns_service" where
  "inject_reclaimer_init_failure = on_faults (\<lambda>f. f\<lparr>fi_reclaimer_init_failure := True\<rparr>)"

definition inject_supervisor_thread_failure :: "dns_service \<Rightarrow> dns_service" where
  "inject_supervisor_thread_failure = on_faults (\<lambda>f. f\<lparr>fi_supervisor_thread_failure := True\<rparr>)"

definition on_hooks :: "(fault_hooks \<Rightarrow> fault_hooks) \<Rightarrow> dns_service \<Rightarrow> dns_service" where
  "on_hooks g = on_faults (\<lambda>f. f\<lparr>fi_supervisor := g (fi_supervisor f)\<rparr>)"

definition inject_worker_create_failure :: "nat \<Rightarrow> worker_init_step \<Rightarrow> int \<Rightarrow> dns_service \<Rightarrow> dns_service" where
  "inject_worker_create_failure k st n =
     on_hooks (\<lambda>h. h\<lparr>fh_create_failure_worker := Some k, fh_create_failure_step := st, fh_create_failure_error := n\<rparr>)"

definition inject_worker_runtime_init_failure :: "nat \<Rightarrow> dns_service \<Rightarrow> dns_service" where
  "inject_worker_runtime_init_failure k = on_hooks (\<lambda>h. h\<lparr>fh_runtime_init_failure_worker := Some k\<rparr>)"

definition inject_worker_thread_failure :: "nat \<Rightarrow> dns_service \<Rightarrow> dns_service" where
  "inject_worker_thread_failure k = on_hooks (\<lambda>h. h\<lparr>fh_thread_failure_worker := Some k, fh_thread_failure_error := errno_EAGAIN\<rparr>)"

definition arm_startup_pause :: "dns_service \<Rightarrow> dns_service" where
  "arm_startup_pause s =
     (if ds_state s \<noteq> LcInitialized then s else on_faults (\<lambda>f. f\<lparr>fi_pause_armed := True, fi_pause_reached := False\<rparr>) s)"

definition release_startup_pause :: "dns_service \<Rightarrow> dns_service" where
  "release_startup_pause = on_faults (\<lambda>f. f\<lparr>fi_pause_armed := False\<rparr>)"

definition reach_startup_pause :: "dns_service \<Rightarrow> dns_service" where
  "reach_startup_pause = on_faults (\<lambda>f. f\<lparr>fi_pause_reached := True\<rparr>)"

definition pause_armed :: "dns_service \<Rightarrow> bool" where
  "pause_armed s \<longleftrightarrow> (case ds_faults s of Some f \<Rightarrow> fi_pause_armed f | None \<Rightarrow> False)"

definition has_fault :: "(fault_injection \<Rightarrow> bool) \<Rightarrow> dns_service \<Rightarrow> bool" where
  "has_fault f s \<longleftrightarrow> (case ds_faults s of Some x \<Rightarrow> f x | None \<Rightarrow> False)"

text \<open>Every way in which a test changes the injected faults.\<close>

inductive injects :: "dns_service \<Rightarrow> dns_service \<Rightarrow> bool" where
  "injects s (inject_coordinator_thread_failure s)"
| "injects s (inject_coordinator_init_failure s)"
| "injects s (inject_reclaimer_thread_failure s)"
| "injects s (inject_reclaimer_init_failure s)"
| "injects s (inject_supervisor_thread_failure s)"
| "injects s (inject_worker_create_failure k st n s)"
| "injects s (inject_worker_runtime_init_failure k s)"
| "injects s (inject_worker_thread_failure k s)"
| "injects s (arm_startup_pause s)"
| "injects s (release_startup_pause s)"

section \<open>Where the threads are\<close>

text \<open>
  \<open>request_runtime_stop\<close> keeps \<open>lifecycle_mutex_\<close> while it seals the updates, stops the supervisor and goes through
  the workers.  The stages are what another thread can see in between.
\<close>

datatype seal_stage = SealsBuild | SealsPublication | SealsQueue

datatype stop_stage = StopSeals seal_stage | StopSupervisor | StopWalks nat | StopThread

datatype stop_caller = ByClient nat | ByOwner | ByCoordinator | ByReclaimer | BySupervisor | ByCallback

text \<open>A call of \<open>request_stop\<close>, \<open>join\<close>, \<open>wait\<close> or \<open>replace_blocked_domains\<close>.\<close>

datatype client_pc = ClientStops bool | ClientJoins | ClientUpdates nat | ClientDone

datatype coordinator_pc =
    CoNone | CoEnters | CoFaulted | CoReports | CoRuns | CoReturned filter_runner_exit_code | CoPublished | CoStops | CoEnded

datatype reclaimer_pc =
    ReNone | ReEnters | ReFaulted | ReReports | ReRuns | ReReturned "reclaimer_exit_code \<times> grace_diagnostic option"
  | RePublished "reclaimer_exit_code \<times> grace_diagnostic option" | ReStops | ReEnded

datatype supervisor_pc = SuNone | SuRuns | SuReturned sup_run_result | SuPublished sup_run_result | SuStops | SuEnded

datatype callback_pc = CbNone | CbHealth health_snapshot | CbFatal worker_failure | CbStops

text \<open>
  The thread that holds \<open>startup_mutex_\<close> runs \<open>start\<close> or tears the service down.  \<open>finish_teardown\<close> is cut like the
  rest; \<open>join_failed_reclaimer\<close> is called at three places, the successor completion at three.
\<close>

datatype reclaim_site = AtCheck | AtWait | AtSuccessor

datatype successor_site = FirstSuccessor | SecondSuccessor | LastSuccessor

datatype teardown_pc =
    TdBegins | TdStops | TdTakesSupervisor | TdJoinsSupervisor | TdEmergency | TdEmergencyRuns | TdLooks | TdChecks
  | TdTakesFailed reclaim_site | TdJoinsFailed reclaim_site | TdReclaims reclaim_site
  | TdDetaches | TdSeals seal_stage | TdRequestsDetach | TdFindsCoordinator | TdWaits | TdTakesCoordinator | TdJoinsCoordinator
  | TdSuccessor successor_site | TdSuccessorWaits successor_site
  | TdSealsPublication | TdDetachesTerminal | TdShuts | TdTakesReclaimer | TdJoinsReclaimer | TdLastReclaim | TdCommits | TdIncomplete

datatype control_thread = CoordinatorThread | ReclaimerThread | SupervisorThread

datatype owner_pc =
    OwNone | OwCreates | OwSpawns control_thread | OwStores control_thread
  | OwAwaitsReclaimer | OwAwaitsCoordinator | OwAwaitsStartup
  | OwActivates startup_info | OwAwaitsActivation startup_info | OwPauses startup_info | OwPaused startup_info | OwCommits startup_info
  | OwFails dns_start_error | OwFailStops dns_start_error | OwTears "dns_start_error option" bool teardown_pc | OwFailed dns_start_error

text \<open>
  The service with everything it owns.  \<open>dw_pub\<close> is the publication with what the threads around it hold,
  \<open>dw_sup\<close> to \<open>dw_created\<close> the supervisor, if it was created, \<open>dw_ctl\<close> to \<open>dw_history\<close> the update controller.  \<open>dw_starts\<close> and
  \<open>dw_exits\<close> are the results that callers of \<open>start\<close>, and of \<open>join\<close> and \<open>wait\<close>, have been given.
\<close>

record dns_world =
  dw_svc :: dns_service
  dw_control :: control_slots
  dw_pub :: pub_world
  dw_sup :: supervisor
  dw_sup_pc :: sup_pc
  dw_stoppers :: "stopper list"
  dw_join_failed :: bool
  dw_created :: bool
  dw_ctl :: filter_updates
  dw_runner :: runner_pc
  dw_successor :: "filter_version option"
  dw_history :: "(u64 \<times> byte list list) list"
  dw_init :: "dns_config option"
  dw_attempt :: u64
  dw_owner :: owner_pc
  dw_stop :: "(stop_caller \<times> stop_stage) option"
  dw_clients :: "client_pc list"
  dw_coordinator :: coordinator_pc
  dw_reclaimer :: reclaimer_pc
  dw_supervisor :: supervisor_pc
  dw_callback :: callback_pc
  dw_sup_token :: bool
  dw_notify :: "u64 option"
  dw_starts :: "dns_start_result list"
  dw_exits :: "dns_exit_result list"

definition sup_view :: "dns_world \<Rightarrow> sup_world" where
  "sup_view w = \<lparr>sw_pub = dw_pub w, sw_sup = dw_sup w, sw_pc = dw_sup_pc w, sw_stoppers = dw_stoppers w, sw_join_failed = dw_join_failed w\<rparr>"

definition set_sup_view :: "sup_world \<Rightarrow> dns_world \<Rightarrow> dns_world" where
  "set_sup_view v w = w\<lparr>dw_pub := sw_pub v, dw_sup := sw_sup v, dw_sup_pc := sw_pc v, dw_stoppers := sw_stoppers v,
     dw_join_failed := sw_join_failed v\<rparr>"

definition upd_view :: "dns_world \<Rightarrow> upd_world" where
  "upd_view w = \<lparr>uw_pub = dw_pub w, uw_ctl = dw_ctl w, uw_pc = dw_runner w, uw_successor = dw_successor w, uw_history = dw_history w\<rparr>"

definition set_upd_view :: "upd_world \<Rightarrow> dns_world \<Rightarrow> dns_world" where
  "set_upd_view u w = w\<lparr>dw_pub := uw_pub u, dw_ctl := uw_ctl u, dw_runner := uw_pc u, dw_successor := uw_successor u,
     dw_history := uw_history u\<rparr>"

abbreviation dw_publication :: "dns_world \<Rightarrow> filter_publication" where
  "dw_publication w \<equiv> pw_pub (dw_pub w)"

definition set_pub :: "filter_publication \<Rightarrow> dns_world \<Rightarrow> dns_world" where
  "set_pub p w = w\<lparr>dw_pub := (dw_pub w)\<lparr>pw_pub := p\<rparr>\<rparr>"

text \<open>
  A section under \<open>lifecycle_mutex_\<close>.  The token that the supervisor got is the one of \<open>startup_stop_source_\<close>.
\<close>

definition with_svc :: "dns_service \<Rightarrow> dns_world \<Rightarrow> dns_world" where
  "with_svc s w = w\<lparr>dw_svc := s, dw_sup := (if ds_startup_stop s then (dw_sup w)\<lparr>sv_service_stop := True\<rparr> else dw_sup w)\<rparr>"

abbreviation lock_free :: "dns_world \<Rightarrow> bool" where
  "lock_free w \<equiv> dw_stop w = None"

definition set_client :: "nat \<Rightarrow> client_pc \<Rightarrow> dns_world \<Rightarrow> dns_world" where
  "set_client i c w = w\<lparr>dw_clients := (dw_clients w)[i := c]\<rparr>"

definition add_client :: "client_pc \<Rightarrow> dns_world \<Rightarrow> dns_world" where
  "add_client c w = w\<lparr>dw_clients := dw_clients w @ [c]\<rparr>"

section \<open>Sequencing\<close>

text \<open>The stage after the updates are sealed.\<close>

definition after_seal :: "dns_service \<Rightarrow> stop_stage" where
  "after_seal s = (if ds_supervisor s then StopSupervisor else StopThread)"

definition first_stage :: "dns_service \<Rightarrow> stop_stage" where
  "first_stage s = (if ds_filter_updates s then StopSeals SealsBuild else after_seal s)"

fun seal_effect :: "seal_stage \<Rightarrow> dns_world \<Rightarrow> dns_world" where
  "seal_effect SealsBuild w = w\<lparr>dw_ctl := seal_request_stop (dw_ctl w)\<rparr>"
| "seal_effect SealsPublication w = set_pub (seal_publication (dw_publication w)) w"
| "seal_effect SealsQueue w = w\<lparr>dw_ctl := seal_queue (dw_ctl w)\<rparr>"

fun next_seal :: "seal_stage \<Rightarrow> 'a \<Rightarrow> (seal_stage \<Rightarrow> 'a) \<Rightarrow> 'a" where
  "next_seal SealsBuild e f = f SealsPublication"
| "next_seal SealsPublication e f = f SealsQueue"
| "next_seal SealsQueue e f = e"

definition enter_stop :: "stop_caller \<Rightarrow> dns_world \<Rightarrow> dns_world" where
  "enter_stop c w = (with_svc (runtime_stop_begin (dw_svc w)) w)\<lparr>dw_stop := Some (c, first_stage (dw_svc w))\<rparr>"

text \<open>The thread that called \<open>request_runtime_stop\<close> goes on.\<close>

fun owner_stopped :: "owner_pc \<Rightarrow> owner_pc" where
  "owner_stopped (OwFailStops e) = OwTears (Some e) False TdBegins"
| "owner_stopped (OwTears k a TdStops) = OwTears k a TdTakesSupervisor"
| "owner_stopped pc = pc"

fun client_stopped :: "client_pc \<Rightarrow> client_pc" where
  "client_stopped (ClientStops joins) = (if joins then ClientJoins else ClientDone)"
| "client_stopped c = c"

definition resume_caller :: "stop_caller \<Rightarrow> dns_world \<Rightarrow> dns_world" where
  "resume_caller c w =
     (case c of
        ByClient i \<Rightarrow> set_client i (client_stopped (dw_clients w ! i)) w
      | ByOwner \<Rightarrow> w\<lparr>dw_owner := owner_stopped (dw_owner w)\<rparr>
      | ByCoordinator \<Rightarrow> w\<lparr>dw_coordinator := CoEnded\<rparr>
      | ByReclaimer \<Rightarrow> w\<lparr>dw_reclaimer := ReEnded\<rparr>
      | BySupervisor \<Rightarrow> w\<lparr>dw_supervisor := SuEnded\<rparr>
      | ByCallback \<Rightarrow> w\<lparr>dw_callback := CbNone\<rparr>)"

text \<open>What the supervisor thread calls back after a step.\<close>

definition callback_after :: "sup_pc \<Rightarrow> supervisor \<Rightarrow> callback_pc" where
  "callback_after pc s =
     (case pc of SupHealth _ \<Rightarrow> CbHealth (sv_health s) | SupReportsFatal report f \<Rightarrow> if report then CbFatal f else CbNone | _ \<Rightarrow> CbNone)"

definition supervisor_result :: "sup_exit \<Rightarrow> sup_run_result" where
  "supervisor_result exit = (case exit of ExitReturn r \<Rightarrow> r | _ \<Rightarrow> supervisor_threw)"

definition after_supervisor :: "dns_service \<Rightarrow> owner_pc" where
  "after_supervisor s = (if rt_runtime_updates_enabled (ds_config s) then OwSpawns ReclaimerThread else OwSpawns SupervisorThread)"

fun thread_error :: "control_thread \<Rightarrow> int \<Rightarrow> dns_start_error" where
  "thread_error ReclaimerThread n = make_start_error DE_ReclaimerThreadCreationFailed RoleSnapshotReclaimer n"
| "thread_error CoordinatorThread n = make_start_error DE_CoordinatorThreadCreationFailed RoleFilterUpdateCoordinator n"
| "thread_error SupervisorThread n = make_start_error DE_SupervisorThreadCreationFailed RoleWorkerSupervisor n"

fun thread_fault :: "control_thread \<Rightarrow> dns_service \<Rightarrow> bool" where
  "thread_fault ReclaimerThread s = has_fault fi_reclaimer_thread_failure s"
| "thread_fault CoordinatorThread s = has_fault fi_coordinator_thread_failure s"
| "thread_fault SupervisorThread s = has_fault fi_supervisor_thread_failure s"

fun spawn_thread :: "control_thread \<Rightarrow> dns_world \<Rightarrow> dns_world" where
  "spawn_thread ReclaimerThread w = w\<lparr>dw_reclaimer := ReEnters\<rparr>"
| "spawn_thread CoordinatorThread w = w\<lparr>dw_coordinator := CoEnters\<rparr>"
| "spawn_thread SupervisorThread w = w\<lparr>dw_supervisor := SuRuns\<rparr>"

fun set_handle :: "control_thread \<Rightarrow> bool \<Rightarrow> dns_service \<Rightarrow> dns_service" where
  "set_handle ReclaimerThread b s = s\<lparr>ds_reclaimer_thread := b\<rparr>"
| "set_handle CoordinatorThread b s = s\<lparr>ds_coordinator_thread := b\<rparr>"
| "set_handle SupervisorThread b s = s\<lparr>ds_supervisor_thread := b\<rparr>"

definition after_store :: "control_thread \<Rightarrow> dns_service \<Rightarrow> owner_pc" where
  "after_store t s =
     (case t of
        ReclaimerThread \<Rightarrow> OwSpawns CoordinatorThread
      | CoordinatorThread \<Rightarrow> OwSpawns SupervisorThread
      | SupervisorThread \<Rightarrow> if rt_runtime_updates_enabled (ds_config s) then OwAwaitsReclaimer else OwAwaitsStartup)"

text \<open>Where the teardown goes on after it has joined a failed reclaimer, and after the successor.\<close>

fun after_reclaim :: "reclaim_site \<Rightarrow> teardown_pc" where
  "after_reclaim AtCheck = TdDetaches"
| "after_reclaim AtWait = TdWaits"
| "after_reclaim AtSuccessor = TdSuccessor SecondSuccessor"

definition after_successor :: "successor_site \<Rightarrow> bool \<Rightarrow> successor_completion \<Rightarrow> teardown_pc" where
  "after_successor site available r =
     (if r = SuccessorCompleted then (if site = LastSuccessor then TdCommits else TdSealsPublication)
      else if site = FirstSuccessor \<and> r = SuccessorReclaimerUnavailable \<and> available then TdTakesFailed AtSuccessor
      else TdIncomplete)"

text \<open>\<open>fail_start\<close> goes on after the teardown; \<open>join\<close> and \<open>wait\<close> return its result.\<close>

definition teardown_done :: "dns_start_error option \<Rightarrow> dns_exit_result \<Rightarrow> dns_world \<Rightarrow> dns_world" where
  "teardown_done k r w =
     (case k of Some e \<Rightarrow> w\<lparr>dw_owner := OwFailed e\<rparr> | None \<Rightarrow> w\<lparr>dw_owner := OwNone, dw_exits := dw_exits w @ [r]\<rparr>)"

definition start_returns :: "dns_start_result \<Rightarrow> dns_world \<Rightarrow> dns_world" where
  "start_returns r w = w\<lparr>dw_owner := OwNone, dw_starts := dw_starts w @ [r]\<rparr>"

section \<open>Faults of the parts\<close>

text \<open>The faults that a test injects into the publication and into the supervisor, under \<open>lifecycle_mutex_\<close>.\<close>

inductive publication_injects :: "filter_publication \<Rightarrow> filter_publication \<Rightarrow> bool" where
  "publication_injects p (inject_reclaimer_failure p)"
| "publication_injects p (inject_reclaimer_failure_after_next_commit p)"

inductive supervisor_injects :: "supervisor \<Rightarrow> supervisor \<Rightarrow> bool" where
  "supervisor_injects s (inject_abrupt_exit_for_testing s)"
| "supervisor_injects s (inject_abrupt_exit_after_next_publication_for_testing s)"
| "inject_worker_unexpected_stop_for_testing k s = (r, s') \<Longrightarrow> supervisor_injects s s'"
| "inject_worker_precommit_failure_for_testing k s = (r, s') \<Longrightarrow> supervisor_injects s s'"
| "supervisor_injects s (inject_emergency_join_failure_once_for_testing s)"

section \<open>Calls of clients\<close>

text \<open>
  \<open>init\<close> builds its objects without the mutex and may throw.  \<open>join\<close> is \<open>request_stop\<close> and then the teardown; \<open>wait\<close>
  waits for a state before it takes \<open>startup_mutex_\<close>.  A test may inject a fault at any time.
\<close>

inductive client_step :: "(byte list \<Rightarrow> u64) \<Rightarrow> (string \<Rightarrow> bool) \<Rightarrow> dns_world \<Rightarrow> dns_world \<Rightarrow> bool" for xxh3 inet_pton where
  k_init_begin:
    "lock_free w \<Longrightarrow> init_begin (dw_svc w) = (True, s) \<Longrightarrow> client_step xxh3 inet_pton w ((with_svc s w)\<lparr>dw_init := Some config\<rparr>)"
| k_init_failed:
    "lock_free w \<Longrightarrow> dw_init w = Some config
     \<Longrightarrow> client_step xxh3 inet_pton w ((with_svc (init_failed (dw_svc w)) w)\<lparr>dw_init := None\<rparr>)"
| k_init_done:
    "lock_free w \<Longrightarrow> dw_init w = Some config \<Longrightarrow> init_valid inet_pton config
     \<Longrightarrow> init_build xxh3 address config = Some (initial, p, u, cache)
     \<Longrightarrow> client_step xxh3 inet_pton w ((with_svc (init_commit config p cache (dw_svc w)) w)
           \<lparr>dw_init := None, dw_control := new_control_slots,
            dw_pub := \<lparr>pw_pub = p, pw_epochs = (\<lambda>_. \<lparr>we_instance = 0, we_observed = kUnobservedFilterGeneration,
                         we_registration = Unregistered, we_quiesced = 0\<rparr>),
                       pw_locals = replicate (dc_worker_count config) None, pw_destroying = None\<rparr>,
            dw_ctl := u, dw_runner := RunnerStopped, dw_successor := None,
            dw_history := [(kInitialFilterGeneration, dc_blocked_domains config)]\<rparr>)"
| k_stop:
    "lock_free w \<Longrightarrow> request_stop_locked (dw_svc w) = (a, s)
     \<Longrightarrow> client_step xxh3 inet_pton w (add_client (case a of StopsRuntime \<Rightarrow> ClientStops joins
           | _ \<Rightarrow> if joins then ClientJoins else ClientDone) (with_svc s w))"
| k_wait:
    "lock_free w \<Longrightarrow> wait_over (dw_svc w) \<Longrightarrow> ds_state (dw_svc w) \<noteq> LcEmpty
     \<Longrightarrow> client_step xxh3 inet_pton w (add_client ClientJoins w)"
| k_wait_empty:
    "lock_free w \<Longrightarrow> ds_state (dw_svc w) = LcEmpty
     \<Longrightarrow> client_step xxh3 inet_pton w (w\<lparr>dw_exits := dw_exits w @ [exit_result_locked (dw_svc w)]\<rparr>)"
| k_runtime_stop:
    "lock_free w \<Longrightarrow> i < length (dw_clients w) \<Longrightarrow> dw_clients w ! i = ClientStops joins
     \<Longrightarrow> client_step xxh3 inet_pton w (enter_stop (ByClient i) w)"
| k_join:
    "dw_owner w = OwNone \<Longrightarrow> i < length (dw_clients w) \<Longrightarrow> dw_clients w ! i = ClientJoins
     \<Longrightarrow> client_step xxh3 inet_pton w ((set_client i ClientDone w)\<lparr>dw_owner := OwTears None False TdBegins\<rparr>)"
| k_replace:
    "lock_free w \<Longrightarrow> replace_admission (dw_svc w) = None \<Longrightarrow> submit_replace rules (dw_ctl w) = (r, c)
     \<Longrightarrow> client_step xxh3 inet_pton w (add_client (case r of Inl _ \<Rightarrow> ClientDone | Inr j \<Rightarrow> ClientUpdates j) (w\<lparr>dw_ctl := c\<rparr>))"
| k_replaced:
    "lock_free w \<Longrightarrow> i < length (dw_clients w) \<Longrightarrow> dw_clients w ! i = ClientUpdates j \<Longrightarrow> j < length (fu_promises (dw_ctl w))
     \<Longrightarrow> snd (fu_promises (dw_ctl w) ! j) = Some r
     \<Longrightarrow> client_step xxh3 inet_pton w (set_client i ClientDone (with_svc (replace_completed r (dw_svc w)) w))"
| k_inject: "injects (dw_svc w) s \<Longrightarrow> client_step xxh3 inet_pton w (with_svc s w)"
| k_inject_coordinator:
    "lock_free w \<Longrightarrow> ds_filter_updates (dw_svc w)
     \<Longrightarrow> client_step xxh3 inet_pton w (w\<lparr>dw_ctl := inject_postcommit_failure (dw_ctl w)\<rparr>)"
| k_inject_reclaimer:
    "lock_free w \<Longrightarrow> ds_control (dw_svc w) \<Longrightarrow> publication_injects (dw_publication w) p \<Longrightarrow> client_step xxh3 inet_pton w (set_pub p w)"
| k_inject_supervisor:
    "lock_free w \<Longrightarrow> ds_supervisor (dw_svc w) \<Longrightarrow> \<not> holds_mutex (dw_sup_pc w) \<Longrightarrow> supervisor_injects (dw_sup w) sv
     \<Longrightarrow> client_step xxh3 inet_pton w (w\<lparr>dw_sup := sv\<rparr>)"

section \<open>The thread that starts the service\<close>

text \<open>
  A thread that is created may run before its handle is stored.  The creation of the supervisor or of a thread may
  throw, with any error number.
\<close>

inductive start_step :: "dns_world \<Rightarrow> dns_world \<Rightarrow> bool" where
  o_refused:
    "dw_owner w = OwNone \<Longrightarrow> lock_free w \<Longrightarrow> start_begin (dw_svc w) = (Some e, s) \<Longrightarrow> start_step w (start_returns (Inl e) w)"
| o_begin:
    "dw_owner w = OwNone \<Longrightarrow> lock_free w \<Longrightarrow> start_begin (dw_svc w) = (None, s)
     \<Longrightarrow> start_step w ((with_svc s w)\<lparr>dw_owner := OwCreates, dw_attempt := ds_attempt s,
           dw_control := control_reset (ds_attempt s) (dw_control w)\<rparr>)"
| o_create:
    "dw_owner w = OwCreates \<Longrightarrow> lock_free w
     \<Longrightarrow> new_supervisor (supervisor_config_of (dw_svc w)) (rt_worker_count (ds_config (dw_svc w))) (dw_publication w) = (sv, p)
     \<Longrightarrow> start_step w (with_svc ((dw_svc w)\<lparr>ds_supervisor := True\<rparr>) (set_pub p (w\<lparr>dw_sup := sv, dw_sup_pc := SupIdle, dw_stoppers := [],
           dw_join_failed := False, dw_created := True, dw_owner := after_supervisor (dw_svc w)\<rparr>)))"
| o_create_throws:
    "dw_owner w = OwCreates \<Longrightarrow> start_step w (w\<lparr>dw_owner := OwFails (make_start_error DE_SupervisorInitFailed RoleWorkerSupervisor n)\<rparr>)"
| o_spawn_fault:
    "dw_owner w = OwSpawns t \<Longrightarrow> thread_fault t (dw_svc w) \<Longrightarrow> start_step w (w\<lparr>dw_owner := OwFails (thread_error t errno_EAGAIN)\<rparr>)"
| o_spawn_throws:
    "dw_owner w = OwSpawns t \<Longrightarrow> \<not> thread_fault t (dw_svc w) \<Longrightarrow> start_step w (w\<lparr>dw_owner := OwFails (thread_error t n)\<rparr>)"
| o_spawn:
    "dw_owner w = OwSpawns t \<Longrightarrow> \<not> thread_fault t (dw_svc w) \<Longrightarrow> start_step w ((spawn_thread t w)\<lparr>dw_owner := OwStores t\<rparr>)"
| o_store:
    "dw_owner w = OwStores t \<Longrightarrow> lock_free w
     \<Longrightarrow> start_step w ((with_svc (set_handle t True (dw_svc w)) w)\<lparr>dw_owner := after_store t (dw_svc w)\<rparr>)"
| o_reclaimer:
    "dw_owner w = OwAwaitsReclaimer \<Longrightarrow> await_reclaimer (ds_startup_stop (dw_svc w)) (dw_control w) = Some r
     \<Longrightarrow> start_step w (w\<lparr>dw_owner := (case r of None \<Rightarrow> OwAwaitsCoordinator | Some e \<Rightarrow> OwFails e)\<rparr>)"
| o_coordinator:
    "dw_owner w = OwAwaitsCoordinator \<Longrightarrow> await_coordinator (ds_startup_stop (dw_svc w)) (dw_control w) = Some r
     \<Longrightarrow> start_step w (w\<lparr>dw_owner := (case r of None \<Rightarrow> OwAwaitsStartup | Some e \<Rightarrow> OwFails e)\<rparr>)"
| o_startup:
    "dw_owner w = OwAwaitsStartup \<Longrightarrow> \<not> holds_mutex (dw_sup_pc w) \<Longrightarrow> wait_for_startup (ds_startup_stop (dw_svc w)) (dw_sup w) = Some r
     \<Longrightarrow> start_step w (w\<lparr>dw_owner := (case r of Inr info \<Rightarrow> OwActivates info | Inl e \<Rightarrow> OwFails (map_supervisor_start_error e))\<rparr>)"
| o_activate:
    "dw_owner w = OwActivates info \<Longrightarrow> lock_free w \<Longrightarrow> \<not> holds_mutex (dw_sup_pc w)
     \<Longrightarrow> (if still_starting (dw_attempt w) (dw_svc w) then request_activation (dw_sup w) else (False, dw_sup w)) = (b, sv)
     \<Longrightarrow> start_step w (w\<lparr>dw_sup := sv, dw_owner := (if b then OwAwaitsActivation info else OwFails cancelled_start_error)\<rparr>)"
| o_activation:
    "dw_owner w = OwAwaitsActivation info \<Longrightarrow> \<not> holds_mutex (dw_sup_pc w)
     \<Longrightarrow> wait_for_activation (ds_startup_stop (dw_svc w)) (dw_sup w) = Some r
     \<Longrightarrow> start_step w (w\<lparr>dw_owner := (case r of Inr _ \<Rightarrow> OwPauses info | Inl e \<Rightarrow> OwFails (map_supervisor_activation_error e))\<rparr>)"
| o_pause:
    "dw_owner w = OwPauses info
     \<Longrightarrow> start_step w (if pause_armed (dw_svc w) then (with_svc (reach_startup_pause (dw_svc w)) w)\<lparr>dw_owner := OwPaused info\<rparr>
           else w\<lparr>dw_owner := OwCommits info\<rparr>)"
| o_paused:
    "dw_owner w = OwPaused info \<Longrightarrow> \<not> pause_armed (dw_svc w) \<or> ds_startup_stop (dw_svc w)
     \<Longrightarrow> start_step w (w\<lparr>dw_owner := (if pause_armed (dw_svc w) then OwFails cancelled_start_error else OwCommits info)\<rparr>)"
| o_commit:
    "dw_owner w = OwCommits info \<Longrightarrow> lock_free w \<Longrightarrow> \<not> holds_mutex (dw_sup_pc w)
     \<Longrightarrow> start_commit (dw_attempt w) info (current_version (dw_publication w)) (dw_control w) (dw_sup w) (dw_svc w) = (True, e, sv, s)
     \<Longrightarrow> start_step w (start_returns (Inr \<lparr>di_bound_port = si_bound_port info, di_worker_count = si_worker_count info, di_attempt = dw_attempt w\<rparr>)
           (with_svc s (w\<lparr>dw_sup := sv\<rparr>)))"
| o_commit_failed:
    "dw_owner w = OwCommits info \<Longrightarrow> lock_free w \<Longrightarrow> \<not> holds_mutex (dw_sup_pc w)
     \<Longrightarrow> start_commit (dw_attempt w) info (current_version (dw_publication w)) (dw_control w) (dw_sup w) (dw_svc w) = (False, e, sv, s)
     \<Longrightarrow> start_step w ((with_svc s (w\<lparr>dw_sup := sv\<rparr>))
           \<lparr>dw_owner := OwFails (case e of Some x \<Rightarrow> x | None \<Rightarrow> cancelled_start_error)\<rparr>)"
| o_fail:
    "dw_owner w = OwFails e \<Longrightarrow> lock_free w
     \<Longrightarrow> start_step w ((with_svc (fail_start_mark e (dw_svc w)) w)\<lparr>dw_owner := OwFailStops e\<rparr>)"
| o_fail_stop: "dw_owner w = OwFailStops e \<Longrightarrow> lock_free w \<Longrightarrow> start_step w (enter_stop ByOwner w)"
| o_failed:
    "dw_owner w = OwFailed e \<Longrightarrow> lock_free w \<Longrightarrow> start_step w (start_returns (Inl (fail_start_result e (dw_svc w))) w)"

section \<open>The teardown\<close>

text \<open>
  A join ends when the thread has ended, or throws.  \<open>k\<close> is the error of a failed start, \<open>a\<close> is \<open>reclaimer_available\<close>.  Whether
  \<open>control_\<close> and \<open>filter_updates_\<close> are set is not asked again: from the start on they are, until the teardown commits (\<open>owners_reachable\<close>).
\<close>

inductive teardown_step :: "dns_world \<Rightarrow> dns_world \<Rightarrow> bool" where
  t_over:
    "dw_owner w = OwTears k a TdBegins \<Longrightarrow> lock_free w \<Longrightarrow> teardown_over (dw_svc w)
     \<Longrightarrow> teardown_step w (teardown_done k (exit_result_locked (dw_svc w)) w)"
| t_begin:
    "dw_owner w = OwTears k a TdBegins \<Longrightarrow> lock_free w \<Longrightarrow> \<not> teardown_over (dw_svc w)
     \<Longrightarrow> teardown_step w (w\<lparr>dw_owner := OwTears k a TdStops\<rparr>)"
| t_stop: "dw_owner w = OwTears k a TdStops \<Longrightarrow> lock_free w \<Longrightarrow> teardown_step w (enter_stop ByOwner w)"
| t_take_supervisor:
    "dw_owner w = OwTears k a TdTakesSupervisor \<Longrightarrow> lock_free w
     \<Longrightarrow> teardown_step w ((with_svc (set_handle SupervisorThread False (dw_svc w)) w)
           \<lparr>dw_sup_token := dw_sup_token w \<or> ds_supervisor_thread (dw_svc w),
            dw_owner := OwTears k a (if ds_supervisor_thread (dw_svc w) then TdJoinsSupervisor else TdEmergency)\<rparr>)"
| t_join_supervisor:
    "dw_owner w = OwTears k a TdJoinsSupervisor \<Longrightarrow> dw_supervisor w = SuEnded
     \<Longrightarrow> teardown_step w (w\<lparr>dw_owner := OwTears k a TdEmergency\<rparr>)"
| t_join_supervisor_throws:
    "dw_owner w = OwTears k a TdJoinsSupervisor \<Longrightarrow> lock_free w
     \<Longrightarrow> teardown_step w ((with_svc (set_handle SupervisorThread True (dw_svc w)) w)\<lparr>dw_owner := OwTears k a TdIncomplete\<rparr>)"
| t_emergency_none:
    "dw_owner w = OwTears k a TdEmergency \<Longrightarrow> \<not> ds_supervisor (dw_svc w) \<Longrightarrow> teardown_step w (w\<lparr>dw_owner := OwTears k a TdLooks\<rparr>)"
| t_emergency_active:
    "dw_owner w = OwTears k a TdEmergency \<Longrightarrow> ds_supervisor (dw_svc w) \<Longrightarrow> sv_run_active (dw_sup w)
     \<Longrightarrow> teardown_step w (w\<lparr>dw_owner := OwTears k a TdIncomplete\<rparr>)"
| t_emergency:
    "dw_owner w = OwTears k a TdEmergency \<Longrightarrow> ds_supervisor (dw_svc w) \<Longrightarrow> \<not> sv_run_active (dw_sup w)
     \<Longrightarrow> teardown_step w (w\<lparr>dw_sup_pc := emergency_join_all, dw_owner := OwTears k a TdEmergencyRuns\<rparr>)"
| t_emergency_done:
    "dw_owner w = OwTears k a TdEmergencyRuns \<Longrightarrow> dw_sup_pc w = SupEnded (ExitEmergency b)
     \<Longrightarrow> teardown_step w (w\<lparr>dw_owner := OwTears k a (if b then TdLooks else TdIncomplete)\<rparr>)"
| t_look:
    "dw_owner w = OwTears k a TdLooks \<Longrightarrow> lock_free w
     \<Longrightarrow> teardown_step w (w\<lparr>dw_owner := OwTears k (ds_reclaimer_thread (dw_svc w)) TdChecks\<rparr>)"
| t_check:
    "dw_owner w = OwTears k a TdChecks
     \<Longrightarrow> teardown_step w (w\<lparr>dw_owner := OwTears k a (if cs_reclaimer_result (dw_control w) \<noteq> None then TdTakesFailed AtCheck else TdDetaches)\<rparr>)"
| t_take_failed:
    "dw_owner w = OwTears k a (TdTakesFailed site) \<Longrightarrow> lock_free w
     \<Longrightarrow> teardown_step w ((with_svc (set_handle ReclaimerThread False (dw_svc w)) w)
           \<lparr>dw_owner := (if ds_reclaimer_thread (dw_svc w) then OwTears k a (TdJoinsFailed site) else OwTears k False (TdReclaims site))\<rparr>)"
| t_join_failed:
    "dw_owner w = OwTears k a (TdJoinsFailed site) \<Longrightarrow> dw_reclaimer w = ReEnded
     \<Longrightarrow> teardown_step w (w\<lparr>dw_owner := OwTears k False (TdReclaims site)\<rparr>)"
| t_join_failed_throws:
    "dw_owner w = OwTears k a (TdJoinsFailed site) \<Longrightarrow> lock_free w
     \<Longrightarrow> teardown_step w ((with_svc (set_handle ReclaimerThread True (dw_svc w)) w)\<lparr>dw_owner := OwTears k a TdIncomplete\<rparr>)"
| t_reclaim:
    "dw_owner w = OwTears k a (TdReclaims site)
     \<Longrightarrow> emergency_reclaim_converged (use_count (dw_pub w)) (dw_publication w) (pw_epochs (dw_pub w)) = (b, p)
     \<Longrightarrow> teardown_step w ((set_pub p w)\<lparr>dw_owner := OwTears k a (if b then after_reclaim site else TdIncomplete)\<rparr>)"
| t_detach:
    "dw_owner w = OwTears k a TdDetaches
     \<Longrightarrow> teardown_step w (w\<lparr>dw_owner := OwTears k a
           (if rt_runtime_updates_enabled (ds_config (dw_svc w)) then TdSeals SealsBuild else TdTakesCoordinator)\<rparr>)"
| t_seal:
    "dw_owner w = OwTears k a (TdSeals stage)
     \<Longrightarrow> teardown_step w ((seal_effect stage w)\<lparr>dw_owner := OwTears k a (next_seal stage TdRequestsDetach TdSeals)\<rparr>)"
| t_request_detach:
    "dw_owner w = OwTears k a TdRequestsDetach
     \<Longrightarrow> teardown_step w (w\<lparr>dw_ctl := request_detach (dw_ctl w), dw_owner := OwTears k a TdFindsCoordinator\<rparr>)"
| t_find_coordinator:
    "dw_owner w = OwTears k a TdFindsCoordinator \<Longrightarrow> lock_free w
     \<Longrightarrow> teardown_step w (w\<lparr>dw_owner := OwTears k a (if ds_coordinator_thread (dw_svc w) then TdWaits else TdTakesCoordinator)\<rparr>)"
| t_wait:
    "dw_owner w = OwTears k a TdWaits \<Longrightarrow> cs_coordinator_result (dw_control w) \<noteq> None \<or> a \<and> cs_reclaimer_result (dw_control w) \<noteq> None
     \<Longrightarrow> teardown_step w (w\<lparr>dw_owner := OwTears k a
           (if cs_coordinator_result (dw_control w) \<noteq> None then TdTakesCoordinator else TdTakesFailed AtWait)\<rparr>)"
| t_take_coordinator:
    "dw_owner w = OwTears k a TdTakesCoordinator \<Longrightarrow> lock_free w
     \<Longrightarrow> teardown_step w ((with_svc (set_handle CoordinatorThread False (dw_svc w)) w)
           \<lparr>dw_owner := OwTears k a (if ds_coordinator_thread (dw_svc w) then TdJoinsCoordinator else TdSuccessor FirstSuccessor)\<rparr>)"
| t_join_coordinator:
    "dw_owner w = OwTears k a TdJoinsCoordinator \<Longrightarrow> dw_coordinator w = CoEnded
     \<Longrightarrow> teardown_step w (w\<lparr>dw_owner := OwTears k a (TdSuccessor FirstSuccessor)\<rparr>)"
| t_join_coordinator_throws:
    "dw_owner w = OwTears k a TdJoinsCoordinator \<Longrightarrow> lock_free w
     \<Longrightarrow> teardown_step w ((with_svc (set_handle CoordinatorThread True (dw_svc w)) w)\<lparr>dw_owner := OwTears k a TdIncomplete\<rparr>)"
| t_successor:
    "dw_owner w = OwTears k a (TdSuccessor site) \<Longrightarrow> successor_begin (dw_publication w) (dw_ctl w) = (r, c)
     \<Longrightarrow> teardown_step w (w\<lparr>dw_ctl := c, dw_successor := (case r of Inl _ \<Rightarrow> None | Inr v \<Rightarrow> Some v),
           dw_owner := OwTears k a (case r of Inl x \<Rightarrow> after_successor site a x | Inr _ \<Rightarrow> TdSuccessorWaits site)\<rparr>)"
| t_successor_waited:
    "dw_owner w = OwTears k a (TdSuccessorWaits site) \<Longrightarrow> dw_successor w = Some v
     \<Longrightarrow> successor_end v (dw_publication w) (dw_ctl w) = Some (r, c)
     \<Longrightarrow> teardown_step w (w\<lparr>dw_ctl := c, dw_successor := None, dw_owner := OwTears k a (after_successor site a r)\<rparr>)"
| t_seal_publication:
    "dw_owner w = OwTears k a TdSealsPublication
     \<Longrightarrow> teardown_step w ((set_pub (seal_publication (dw_publication w)) w)\<lparr>dw_owner := OwTears k a TdDetachesTerminal\<rparr>)"
| t_detach_terminal:
    "dw_owner w = OwTears k a TdDetachesTerminal
     \<Longrightarrow> detach_terminal_snapshot now (dw_publication w) (pw_epochs (dw_pub w)) = (b, p)
     \<Longrightarrow> teardown_step w ((set_pub p w)\<lparr>dw_owner := OwTears k a (if b then TdShuts else TdIncomplete)\<rparr>)"
| t_shut:
    "dw_owner w = OwTears k True TdShuts
     \<Longrightarrow> teardown_step w ((set_pub (request_reclaimer_shutdown (dw_publication w)) w)\<lparr>dw_owner := OwTears k True TdTakesReclaimer\<rparr>)"
| t_shut_none: "dw_owner w = OwTears k False TdShuts \<Longrightarrow> teardown_step w (w\<lparr>dw_owner := OwTears k False TdLastReclaim\<rparr>)"
| t_take_reclaimer:
    "dw_owner w = OwTears k a TdTakesReclaimer \<Longrightarrow> lock_free w
     \<Longrightarrow> teardown_step w ((with_svc (set_handle ReclaimerThread False (dw_svc w)) w)
           \<lparr>dw_owner := (if ds_reclaimer_thread (dw_svc w) then OwTears k a TdJoinsReclaimer else OwTears k False TdLastReclaim)\<rparr>)"
| t_join_reclaimer:
    "dw_owner w = OwTears k a TdJoinsReclaimer \<Longrightarrow> dw_reclaimer w = ReEnded
     \<Longrightarrow> teardown_step w (w\<lparr>dw_owner := OwTears k False TdLastReclaim\<rparr>)"
| t_join_reclaimer_throws:
    "dw_owner w = OwTears k a TdJoinsReclaimer \<Longrightarrow> lock_free w
     \<Longrightarrow> teardown_step w ((with_svc (set_handle ReclaimerThread True (dw_svc w)) w)\<lparr>dw_owner := OwTears k a TdIncomplete\<rparr>)"
| t_last_reclaim:
    "dw_owner w = OwTears k a TdLastReclaim
     \<Longrightarrow> emergency_reclaim_converged (use_count (dw_pub w)) (dw_publication w) (pw_epochs (dw_pub w)) = (b, p)
     \<Longrightarrow> teardown_step w ((set_pub p w)\<lparr>dw_owner := OwTears k a (if b then TdSuccessor LastSuccessor else TdIncomplete)\<rparr>)"
| t_commit:
    "dw_owner w = OwTears k a TdCommits \<Longrightarrow> lock_free w \<Longrightarrow> teardown_commit (current_version (dw_publication w)) (dw_svc w) = (r, s)
     \<Longrightarrow> teardown_step w (teardown_done k r (with_svc s w))"
| t_incomplete:
    "dw_owner w = OwTears k a TdIncomplete \<Longrightarrow> lock_free w \<Longrightarrow> teardown_incomplete (dw_svc w) = (r, s)
     \<Longrightarrow> teardown_step w (teardown_done k r (with_svc s w))"

section \<open>The role threads\<close>

text \<open>
  The steps of the runner are those of the update protocol that move its program counter.  A commit calls the
  supervisor before the coordinator goes on.  The tokens of the coordinator and the reclaimer are never stopped.
\<close>

inductive role_step :: "filter_builder \<Rightarrow> dns_world \<Rightarrow> dns_world \<Rightarrow> bool" for builder where
  a_fault:
    "dw_coordinator w = CoEnters \<Longrightarrow> has_fault fi_coordinator_init_failure (dw_svc w)
     \<Longrightarrow> role_step builder w (w\<lparr>dw_control := report_coordinator_ready AlreadyRunningRole (dw_control w), dw_coordinator := CoFaulted\<rparr>)"
| a_faulted:
    "dw_coordinator w = CoFaulted
     \<Longrightarrow> role_step builder w (w\<lparr>dw_control := publish_coordinator_result RunnerFatalExit (dw_control w), dw_coordinator := CoEnded\<rparr>)"
| a_begin:
    "dw_coordinator w = CoEnters \<Longrightarrow> \<not> has_fault fi_coordinator_init_failure (dw_svc w) \<Longrightarrow> run_begin (dw_ctl w) = (None, c)
     \<Longrightarrow> role_step builder w (w\<lparr>dw_ctl := c, dw_runner := RunnerIdle, dw_coordinator := CoReports\<rparr>)"
| a_rejected:
    "dw_coordinator w = CoEnters \<Longrightarrow> \<not> has_fault fi_coordinator_init_failure (dw_svc w) \<Longrightarrow> run_begin (dw_ctl w) = (Some code, c)
     \<Longrightarrow> role_step builder w (w\<lparr>dw_control := report_coordinator_ready AlreadyRunningRole (dw_control w), dw_coordinator := CoReturned code\<rparr>)"
| a_report:
    "dw_coordinator w = CoReports
     \<Longrightarrow> role_step builder w (w\<lparr>dw_control := report_coordinator_ready ReadyRole (dw_control w), dw_coordinator := CoRuns\<rparr>)"
| a_run:
    "dw_coordinator w = CoRuns \<Longrightarrow> dw_notify w = None \<Longrightarrow> upd_step builder (upd_view w) u \<Longrightarrow> uw_pc u \<noteq> dw_runner w
     \<Longrightarrow> role_step builder w ((set_upd_view u w)\<lparr>dw_notify := (if fp_generation (uw_publication u) \<noteq> fp_generation (dw_publication w)
           \<and> fp_sink (dw_publication w) then Some (fp_generation (uw_publication u)) else None)\<rparr>)"
| a_notify:
    "dw_notify w = Some g \<Longrightarrow> \<not> holds_mutex (dw_sup_pc w)
     \<Longrightarrow> role_step builder w (w\<lparr>dw_sup := snapshot_published g (dw_sup w), dw_notify := None\<rparr>)"
| a_return:
    "dw_coordinator w = CoRuns \<Longrightarrow> dw_runner w = RunnerReturned code \<Longrightarrow> role_step builder w (w\<lparr>dw_coordinator := CoReturned code\<rparr>)"
| a_publish:
    "dw_coordinator w = CoReturned code
     \<Longrightarrow> role_step builder w (w\<lparr>dw_control := publish_coordinator_result code (dw_control w), dw_coordinator := CoPublished\<rparr>)"
| a_exit:
    "dw_coordinator w = CoPublished \<Longrightarrow> lock_free w \<Longrightarrow> coordinator_exited False (dw_attempt w) (dw_svc w) = (b, s)
     \<Longrightarrow> role_step builder w ((with_svc s w)\<lparr>dw_coordinator := (if b then CoStops else CoEnded)\<rparr>)"
| a_stop: "dw_coordinator w = CoStops \<Longrightarrow> lock_free w \<Longrightarrow> role_step builder w (enter_stop ByCoordinator w)"
| b_fault:
    "dw_reclaimer w = ReEnters \<Longrightarrow> has_fault fi_reclaimer_init_failure (dw_svc w)
     \<Longrightarrow> role_step builder w (w\<lparr>dw_control := report_reclaimer_ready AlreadyRunningRole (dw_control w), dw_reclaimer := ReFaulted\<rparr>)"
| b_faulted:
    "dw_reclaimer w = ReFaulted
     \<Longrightarrow> role_step builder w (w\<lparr>dw_control := publish_reclaimer_result (FatalExit, None) (dw_control w), dw_reclaimer := ReEnded\<rparr>)"
| b_begin:
    "dw_reclaimer w = ReEnters \<Longrightarrow> \<not> has_fault fi_reclaimer_init_failure (dw_svc w) \<Longrightarrow> reclaimer_begin (dw_publication w) = (None, p)
     \<Longrightarrow> role_step builder w ((set_pub p w)\<lparr>dw_reclaimer := ReReports\<rparr>)"
| b_rejected:
    "dw_reclaimer w = ReEnters \<Longrightarrow> \<not> has_fault fi_reclaimer_init_failure (dw_svc w) \<Longrightarrow> reclaimer_begin (dw_publication w) = (Some code, p)
     \<Longrightarrow> role_step builder w (w\<lparr>dw_control := report_reclaimer_ready AlreadyRunningRole (dw_control w), dw_reclaimer := ReReturned (code, None)\<rparr>)"
| b_report:
    "dw_reclaimer w = ReReports
     \<Longrightarrow> role_step builder w (w\<lparr>dw_control := report_reclaimer_ready ReadyRole (dw_control w), dw_reclaimer := ReRuns\<rparr>)"
| b_round:
    "dw_reclaimer w = ReRuns \<Longrightarrow> pw_destroying (dw_pub w) = None
     \<Longrightarrow> reclaimer_step (use_count (dw_pub w)) False now (dw_publication w) (pw_epochs (dw_pub w)) = (r, p)
     \<Longrightarrow> role_step builder w (w\<lparr>dw_pub := round_world False now (dw_pub w),
           dw_reclaimer := (case r of ReclaimerLeaves code d \<Rightarrow> ReReturned (code, d) | _ \<Rightarrow> ReRuns)\<rparr>)"
| b_destroyed:
    "dw_reclaimer w = ReRuns \<Longrightarrow> pw_destroying (dw_pub w) = Some (which, x, g, bytes)
     \<Longrightarrow> role_step builder w (w\<lparr>dw_pub := (dw_pub w)\<lparr>pw_pub := reclaimer_destroyed which g bytes (dw_publication w), pw_destroying := None\<rparr>\<rparr>)"
| b_publish:
    "dw_reclaimer w = ReReturned r
     \<Longrightarrow> role_step builder w (w\<lparr>dw_control := publish_reclaimer_result r (dw_control w), dw_reclaimer := RePublished r\<rparr>)"
| b_exit:
    "dw_reclaimer w = RePublished r \<Longrightarrow> lock_free w \<Longrightarrow> reclaimer_exited (dw_attempt w) r (dw_svc w) = (b, s)
     \<Longrightarrow> role_step builder w ((with_svc s w)\<lparr>dw_reclaimer := (if b then ReStops else ReEnded)\<rparr>)"
| b_stop: "dw_reclaimer w = ReStops \<Longrightarrow> lock_free w \<Longrightarrow> role_step builder w (enter_stop ByReclaimer w)"
| c_return:
    "dw_supervisor w = SuRuns \<Longrightarrow> dw_callback w = CbNone \<Longrightarrow> dw_sup_pc w = SupEnded exit
     \<Longrightarrow> role_step builder w (w\<lparr>dw_supervisor := SuReturned (supervisor_result exit)\<rparr>)"
| c_publish:
    "dw_supervisor w = SuReturned r
     \<Longrightarrow> role_step builder w (w\<lparr>dw_control := publish_supervisor_result r (dw_control w), dw_supervisor := SuPublished r\<rparr>)"
| c_exited:
    "dw_supervisor w = SuPublished r \<Longrightarrow> lock_free w \<Longrightarrow> supervisor_exited (dw_sup_token w) (dw_attempt w) r (dw_svc w) = (b, s)
     \<Longrightarrow> role_step builder w ((with_svc s w)\<lparr>dw_supervisor := (if b then SuStops else SuEnded)\<rparr>)"
| c_stop: "dw_supervisor w = SuStops \<Longrightarrow> lock_free w \<Longrightarrow> role_step builder w (enter_stop BySupervisor w)"

section \<open>The parts of the service\<close>

text \<open>
  The supervisor thread runs \<open>run\<close>, or the teardown runs \<open>emergency_join_all\<close>; it does not go on while a callback
  runs.  A stop of its token calls \<open>request_stop\<close> again.
\<close>

inductive part_step :: "dns_world \<Rightarrow> dns_world \<Rightarrow> bool" where
  p_supervisor:
    "dw_supervisor w = SuRuns \<or> dw_owner w = OwTears k a TdEmergencyRuns \<Longrightarrow> dw_callback w = CbNone \<Longrightarrow> sup_thread_step (sup_view w) v
     \<Longrightarrow> part_step w ((set_sup_view v w)\<lparr>dw_callback := callback_after (dw_sup_pc w) (sw_sup v)\<rparr>)"
| p_worker:
    "dw_created w \<Longrightarrow> j < length (sv_records (dw_sup w)) \<Longrightarrow> wr_thread (rec_at (dw_sup w) j) = Some t \<Longrightarrow> worker_step j t (sup_view w) v
     \<Longrightarrow> part_step w (set_sup_view v w)"
| p_stopper:
    "\<not> holds_mutex (dw_sup_pc w) \<Longrightarrow> j < length (dw_stoppers w) \<Longrightarrow> stopper_step (dw_stoppers w ! j) (dw_sup w) = (t, s)
     \<Longrightarrow> part_step w (w\<lparr>dw_sup := s, dw_stoppers := (dw_stoppers w)[j := t]\<rparr>)"
| p_forward_stop:
    "dw_sup_token w \<Longrightarrow> dw_supervisor w = SuRuns \<Longrightarrow> \<not> holds_mutex (dw_sup_pc w)
     \<Longrightarrow> part_step w (w\<lparr>dw_sup := request_stop (dw_sup w), dw_stoppers := dw_stoppers w @ [StopperAt 0]\<rparr>)"
| p_health:
    "dw_callback w = CbHealth h \<Longrightarrow> lock_free w \<Longrightarrow> part_step w ((with_svc (health_reporter h (dw_svc w)) w)\<lparr>dw_callback := CbNone\<rparr>)"
| p_fatal:
    "dw_callback w = CbFatal f \<Longrightarrow> lock_free w \<Longrightarrow> accept_fatal_locked (map_worker_failure f) (dw_svc w) = (b, s)
     \<Longrightarrow> part_step w ((with_svc s w)\<lparr>dw_callback := (if b then CbStops else CbNone)\<rparr>)"
| p_fatal_stop: "dw_callback w = CbStops \<Longrightarrow> lock_free w \<Longrightarrow> part_step w (enter_stop ByCallback w)"
| s_seal:
    "dw_stop w = Some (c, StopSeals stage)
     \<Longrightarrow> part_step w ((seal_effect stage w)\<lparr>dw_stop := Some (c, next_seal stage (after_seal (dw_svc w)) StopSeals)\<rparr>)"
| s_supervisor:
    "dw_stop w = Some (c, StopSupervisor) \<Longrightarrow> \<not> holds_mutex (dw_sup_pc w)
     \<Longrightarrow> part_step w (w\<lparr>dw_sup := request_stop (dw_sup w), dw_stoppers := dw_stoppers w @ [StopperAt 0],
           dw_stop := Some (c, StopWalks (length (dw_stoppers w)))\<rparr>)"
| s_walked:
    "dw_stop w = Some (c, StopWalks j) \<Longrightarrow> j < length (dw_stoppers w) \<Longrightarrow> stopper_done (dw_sup w) (dw_stoppers w ! j)
     \<Longrightarrow> part_step w (w\<lparr>dw_stop := Some (c, StopThread)\<rparr>)"
| s_thread:
    "dw_stop w = Some (c, StopThread)
     \<Longrightarrow> part_step w (resume_caller c (w\<lparr>dw_sup_token := dw_sup_token w \<or> ds_supervisor_thread (dw_svc w), dw_stop := None\<rparr>))"

section \<open>Runs of the service\<close>

inductive dns_step :: "(byte list \<Rightarrow> u64) \<Rightarrow> (string \<Rightarrow> bool) \<Rightarrow> dns_world \<Rightarrow> dns_world \<Rightarrow> bool" for xxh3 inet_pton where
  client_moves: "client_step xxh3 inet_pton w w' \<Longrightarrow> dns_step xxh3 inet_pton w w'"
| start_moves: "start_step w w' \<Longrightarrow> dns_step xxh3 inet_pton w w'"
| teardown_moves: "teardown_step w w' \<Longrightarrow> dns_step xxh3 inet_pton w w'"
| role_moves: "role_step (default_builder xxh3) w w' \<Longrightarrow> dns_step xxh3 inet_pton w w'"
| part_moves: "part_step w w' \<Longrightarrow> dns_step xxh3 inet_pton w w'"

text \<open>Nothing is known about the parts of a service that has not been initialized: they do not exist.\<close>

definition dns_initial :: "dns_world \<Rightarrow> bool" where
  "dns_initial w \<longleftrightarrow> dw_svc w = new_dns \<and> dw_init w = None \<and> dw_owner w = OwNone \<and> dw_stop w = None \<and> dw_clients w = []
     \<and> dw_coordinator w = CoNone \<and> dw_reclaimer w = ReNone \<and> dw_supervisor w = SuNone \<and> dw_callback w = CbNone
     \<and> \<not> dw_created w \<and> dw_stoppers w = [] \<and> \<not> dw_sup_token w \<and> dw_notify w = None \<and> dw_starts w = [] \<and> dw_exits w = []"

inductive dns_reachable :: "(byte list \<Rightarrow> u64) \<Rightarrow> (string \<Rightarrow> bool) \<Rightarrow> dns_world \<Rightarrow> bool" for xxh3 inet_pton where
  dns_new: "dns_initial w \<Longrightarrow> dns_reachable xxh3 inet_pton w"
| dns_then: "dns_reachable xxh3 inet_pton w \<Longrightarrow> dns_step xxh3 inet_pton w w' \<Longrightarrow> dns_reachable xxh3 inet_pton w'"

end
