(* ===== verification/ServiceLifecycle.thy ===== *)
theory ServiceLifecycle
  imports DnsService
begin

text \<open>
  The lifecycle of the service: invariants of the members that \<open>lifecycle_mutex_\<close> guards under every interleaving of
  \<open>dns_step\<close>, and what the callers of \<open>start\<close>, \<open>join\<close> and \<open>wait\<close> are told.
\<close>

section \<open>The lifecycle\<close>

fun lifecycle_rank :: "dns_lifecycle_state \<Rightarrow> nat" where
  "lifecycle_rank LcEmpty = 0"
| "lifecycle_rank LcInitialized = 1"
| "lifecycle_rank LcStarting = 2"
| "lifecycle_rank LcActive = 3"
| "lifecycle_rank LcStopping = 4"
| "lifecycle_rank LcStopped = 5"
| "lifecycle_rank LcFailed = 5"

definition service_ok :: "dns_service \<Rightarrow> bool" where
  "service_ok s \<longleftrightarrow>
     (ds_admission_open s \<longrightarrow> ds_state s = LcActive \<and> rt_runtime_updates_enabled (ds_config s))
     \<and> (lifecycle_rank (ds_state s) \<le> 3 \<longrightarrow> ds_stop_cause s = CauseNone)
     \<and> (ds_state s \<noteq> LcActive \<longrightarrow> dh_state (ds_health s) = Unavailable \<and> dh_available_workers (ds_health s) = 0)
     \<and> (ds_startup_error s \<noteq> None \<longleftrightarrow> ds_stop_cause s = CauseStartupFailure)
     \<and> (ds_fatal_error s \<noteq> None \<longleftrightarrow> ds_stop_cause s = CauseFatal)
     \<and> (ds_state s = LcStopped \<longrightarrow> ds_stop_cause s = CauseExplicit) \<and> (ds_state s = LcFailed \<longrightarrow> ds_stop_cause s \<noteq> CauseExplicit)
     \<and> (ds_init_in_progress s \<longrightarrow> ds_state s = LcEmpty)
     \<and> (ds_startup_stop s \<longrightarrow> \<not> ds_admission_open s \<and> lifecycle_rank (ds_state s) \<ge> 3)"

text \<open>What no step undoes: the order of the states, the first reason for the end, and the port of an active service.\<close>

definition service_moves :: "dns_service \<Rightarrow> dns_service \<Rightarrow> bool" where
  "service_moves s s' \<longleftrightarrow> lifecycle_rank (ds_state s) \<le> lifecycle_rank (ds_state s')
     \<and> (lifecycle_rank (ds_state s) = 5 \<longrightarrow> ds_state s' = ds_state s)
     \<and> (ds_stop_cause s \<noteq> CauseNone \<longrightarrow> ds_stop_cause s' = ds_stop_cause s \<and> ds_startup_error s' = ds_startup_error s
          \<and> ds_fatal_error s' = ds_fatal_error s)
     \<and> (lifecycle_rank (ds_state s) \<ge> 3 \<longrightarrow> dh_bound_port (ds_health s') = dh_bound_port (ds_health s))"

lemma service_moves_refl [simp]: "service_moves s s"
  by (simp add: service_moves_def)

lemma service_moves_trans: "service_moves a b \<Longrightarrow> service_moves b c \<Longrightarrow> service_moves a c"
  by (auto simp: service_moves_def)

lemma rank_le_3: "lifecycle_rank x \<le> 3 \<longleftrightarrow> x \<in> {LcEmpty, LcInitialized, LcStarting, LcActive}"
  by (cases x) auto

lemma rank_5: "lifecycle_rank x = 5 \<longleftrightarrow> x \<in> {LcStopped, LcFailed}"
  by (cases x) auto

text \<open>The members that the lifecycle does not depend on.\<close>

definition same_service :: "dns_service \<Rightarrow> dns_service \<Rightarrow> bool" where
  "same_service s s' \<longleftrightarrow> ds_state s' = ds_state s \<and> ds_init_in_progress s' = ds_init_in_progress s \<and> ds_stop_cause s' = ds_stop_cause s
     \<and> (ds_admission_open s' \<longrightarrow> ds_admission_open s) \<and> ds_config s' = ds_config s
     \<and> ds_startup_error s' = ds_startup_error s \<and> ds_fatal_error s' = ds_fatal_error s
     \<and> ds_startup_stop s' = ds_startup_stop s \<and> dh_bound_port (ds_health s') = dh_bound_port (ds_health s)
     \<and> (ds_state s \<noteq> LcActive \<longrightarrow> dh_state (ds_health s') = dh_state (ds_health s)
          \<and> dh_available_workers (ds_health s') = dh_available_workers (ds_health s))"

lemma same_service_ok: "same_service s s' \<Longrightarrow> service_ok s \<Longrightarrow> service_ok s' \<and> service_moves s s'"
  by (auto simp: same_service_def service_ok_def service_moves_def)

lemma same_services [simp]:
  "same_service s s" "same_service s (set_handle t b s)" "same_service s (health_reporter h s)"
  "same_service s (replace_completed r s)" "same_service s (s\<lparr>ds_supervisor := x\<rparr>)" "same_service s (reach_startup_pause s)"
  by (cases t; auto simp: same_service_def health_reporter_def on_dns_health_def replace_completed_def Let_def
      reach_startup_pause_def on_faults_def split: sum.splits option.splits)+

lemma injects_same: "injects s s' \<Longrightarrow> same_service s s'"
  by (erule injects.cases; simp add: same_service_def inject_coordinator_thread_failure_def inject_coordinator_init_failure_def
      inject_reclaimer_thread_failure_def inject_reclaimer_init_failure_def inject_supervisor_thread_failure_def
      inject_worker_create_failure_def inject_worker_runtime_init_failure_def inject_worker_thread_failure_def arm_startup_pause_def
      release_startup_pause_def on_hooks_def on_faults_def)

lemma service_new: "service_ok new_dns"
  by (simp add: service_ok_def new_dns_def new_dns_health_def)

lemma service_init:
  assumes "service_ok s"
  shows "init_begin s = (b, s') \<Longrightarrow> service_ok s' \<and> service_moves s s' \<and> ds_state s' = ds_state s \<and> (b \<longrightarrow> ds_init_in_progress s')"
    and "service_ok (init_failed s) \<and> service_moves s (init_failed s) \<and> ds_state (init_failed s) = ds_state s"
    and "ds_init_in_progress s \<Longrightarrow> service_ok (init_commit c p cache s) \<and> service_moves s (init_commit c p cache s)
      \<and> ds_state (init_commit c p cache s) = LcInitialized"
  using assms
  by (auto simp: service_ok_def service_moves_def init_begin_def init_failed_def init_commit_def new_dns_health_def split: if_splits)

lemma service_start:
  assumes "service_ok s" "start_begin s = (None, s')"
  shows "service_ok s' \<and> service_moves s s' \<and> ds_state s' = LcStarting \<and> ds_state s = LcInitialized"
  using assms by (auto simp: service_ok_def service_moves_def start_begin_def unavailable_def split: if_splits)

lemma service_runtime_stop:
  assumes "service_ok s" "lifecycle_rank (ds_state s) \<ge> 3"
  shows "service_ok (runtime_stop_begin s) \<and> service_moves s (runtime_stop_begin s)"
  using assms by (simp add: service_ok_def service_moves_def runtime_stop_begin_def)

lemma service_fail:
  assumes "service_ok s" "ds_state s \<in> {LcStarting, LcStopping}"
  shows "service_ok (fail_start_mark e s) \<and> service_moves s (fail_start_mark e s) \<and> ds_state (fail_start_mark e s) = LcStopping"
  using assms
  by (cases "ds_stop_cause s"; elim insertE; simp add: service_ok_def service_moves_def fail_start_mark_def)

lemma service_commit:
  assumes "service_ok s" "start_commit attempt ready version c sv s = (b, e, sv', s')"
  shows "service_ok s' \<and> service_moves s s' \<and> (if b then ds_state s = LcStarting \<and> ds_state s' = LcActive else ds_state s' = ds_state s)"
  using assms
  by (auto simp: service_ok_def service_moves_def start_commit_def commit_startup_def still_starting_def unavailable_def Let_def
      split: if_splits prod.splits sum.splits)

lemma service_stop:
  assumes "service_ok s" "request_stop_locked s = (a, s')"
  shows "service_ok s' \<and> service_moves s s' \<and> (a = StopsNothing \<and> s' = s \<or> ds_state s = LcInitialized \<and> ds_state s' = LcStopped
     \<or> ds_state s \<in> {LcStarting, LcActive, LcStopping} \<and> ds_state s' = LcStopping)"
  using assms
  by (cases "ds_state s") (auto simp: service_ok_def service_moves_def request_stop_locked_def unavailable_def split: if_splits)

lemma service_fatal:
  assumes "service_ok s" "accept_fatal_locked e s = (b, s')"
  shows "service_ok s' \<and> service_moves s s' \<and> (s' = s \<or> ds_state s = LcActive \<and> ds_state s' = LcStopping)"
  using assms by (auto simp: service_ok_def service_moves_def accept_fatal_locked_def unavailable_def split: if_splits)

lemma service_role:
  assumes "service_ok s" "role_exited token attempt e f s = (b, s')"
  shows "service_ok s' \<and> service_moves s s' \<and> (s' = s \<or> ds_state s \<in> {LcStarting, LcActive} \<and> ds_state s' = LcStopping)"
proof (cases "ds_state s = LcActive")
  case True
  then show ?thesis using assms service_fatal [OF assms(1), of f b s'] by (auto simp: role_exited_def split: if_splits)
qed (use assms in \<open>auto simp: service_ok_def service_moves_def role_exited_def split: if_splits\<close>)

lemma service_incomplete:
  assumes "service_ok s" "teardown_incomplete s = (r, s')" "ds_state s \<in> {LcActive, LcStopping}" "ds_startup_stop s"
  shows "service_ok s' \<and> service_moves s s' \<and> ds_state s' = LcStopping"
proof -
  have s': "s' = s\<lparr>ds_state := LcStopping, ds_health := unavailable (ds_health s)\<rparr>"
    using assms(2) by (simp add: teardown_incomplete_def Let_def)
  show ?thesis
    unfolding s' using assms(1,3,4) by (elim insertE; simp add: service_ok_def service_moves_def unavailable_def)
qed

lemma service_end:
  assumes "service_ok s" "teardown_commit v s = (r, s')" "ds_state s \<in> {LcActive, LcStopping}" "ds_startup_stop s"
  shows "service_ok s' \<and> service_moves s s' \<and> ds_state s' \<in> {LcStopped, LcFailed}"
  using assms
  by (cases "ds_stop_cause s"; elim insertE; simp add: service_ok_def service_moves_def teardown_commit_def unavailable_def Let_def;
      elim conjE; hypsubst; simp)

fun starting_pc :: "owner_pc \<Rightarrow> bool" where
  "starting_pc OwNone = False"
| "starting_pc (OwFailStops e) = False"
| "starting_pc (OwTears k a td) = False"
| "starting_pc (OwFailed e) = False"
| "starting_pc pc = True"

text \<open>Only \<open>start\<close> makes the service active, and only the holder of \<open>startup_mutex_\<close> tears it down.\<close>

fun owner_ok :: "owner_pc \<Rightarrow> dns_service \<Rightarrow> bool" where
  "owner_ok (OwFailStops e) s \<longleftrightarrow> ds_state s = LcStopping"
| "owner_ok (OwTears k a TdBegins) s \<longleftrightarrow> ds_state s \<noteq> LcStarting \<and> (k \<noteq> None \<longrightarrow> ds_state s = LcStopping)"
| "owner_ok (OwTears k a TdStops) s \<longleftrightarrow> ds_state s \<in> {LcActive, LcStopping}"
| "owner_ok (OwTears k a td) s \<longleftrightarrow> ds_state s \<in> {LcActive, LcStopping} \<and> ds_startup_stop s"
| "owner_ok (OwFailed e) s \<longleftrightarrow> lifecycle_rank (ds_state s) \<ge> 4"
| "owner_ok pc s \<longleftrightarrow> (if starting_pc pc then ds_state s \<in> {LcStarting, LcStopping} else ds_state s \<noteq> LcStarting)"

definition stop_pending :: "dns_world \<Rightarrow> bool" where
  "stop_pending w \<longleftrightarrow> (\<exists>j. ClientStops j \<in> set (dw_clients w)) \<or> dw_coordinator w = CoStops \<or> dw_reclaimer w = ReStops
     \<or> dw_supervisor w = SuStops \<or> dw_callback w = CbStops"

definition service_inv :: "dns_world \<Rightarrow> bool" where
  "service_inv w \<longleftrightarrow> service_ok (dw_svc w) \<and> owner_ok (dw_owner w) (dw_svc w) \<and> (dw_init w \<noteq> None \<longrightarrow> ds_init_in_progress (dw_svc w))
     \<and> (stop_pending w \<longrightarrow> lifecycle_rank (ds_state (dw_svc w)) \<ge> 4)"

text \<open>How the other threads change the state under the owner.\<close>

definition goes_on :: "dns_service \<Rightarrow> dns_service \<Rightarrow> bool" where
  "goes_on s s' \<longleftrightarrow> (ds_state s' = ds_state s \<or> ds_state s \<in> {LcStarting, LcActive, LcStopping} \<and> ds_state s' = LcStopping
       \<or> ds_state s = LcInitialized \<and> ds_state s' = LcStopped \<or> ds_state s = LcEmpty \<and> ds_state s' = LcInitialized)
     \<and> (ds_startup_stop s \<longrightarrow> ds_startup_stop s')"

lemma owner_goes_on: "owner_ok pc s \<Longrightarrow> goes_on s s' \<Longrightarrow> owner_ok pc s'"
  by (induction pc s rule: owner_ok.induct) (auto simp: goes_on_def)

lemma goes_on_same: "same_service s s' \<Longrightarrow> goes_on s s'"
  by (auto simp: same_service_def goes_on_def)

lemma goes_on_sections:
  "goes_on s (runtime_stop_begin s)"
  "init_begin s = (b, s') \<Longrightarrow> goes_on s s'"
  "goes_on s (init_failed s)"
  "ds_state s = LcEmpty \<Longrightarrow> goes_on s (init_commit c p cache s)"
  "request_stop_locked s = (a, s') \<Longrightarrow> goes_on s s'"
  "accept_fatal_locked e s = (b, s') \<Longrightarrow> goes_on s s'"
  "role_exited token attempt e0 f s = (b, s') \<Longrightarrow> goes_on s s'"
  by (auto simp: goes_on_def runtime_stop_begin_def init_begin_def init_failed_def init_commit_def request_stop_locked_def
      accept_fatal_locked_def role_exited_def split: if_splits)

lemma stop_pending_rank:
  "request_stop_locked s = (StopsRuntime, s') \<Longrightarrow> service_ok s \<Longrightarrow> lifecycle_rank (ds_state s') \<ge> 4"
  "accept_fatal_locked e s = (True, s') \<Longrightarrow> lifecycle_rank (ds_state s') \<ge> 4"
  "role_exited token attempt e0 f s = (True, s') \<Longrightarrow> lifecycle_rank (ds_state s') \<ge> 4"
  by (cases "ds_state s"; auto simp: request_stop_locked_def accept_fatal_locked_def role_exited_def split: if_splits)+

lemma with_svc_simps [simp]:
  "dw_svc (with_svc s w) = s" "dw_owner (with_svc s w) = dw_owner w" "dw_init (with_svc s w) = dw_init w"
  "dw_clients (with_svc s w) = dw_clients w" "dw_coordinator (with_svc s w) = dw_coordinator w"
  "dw_reclaimer (with_svc s w) = dw_reclaimer w" "dw_supervisor (with_svc s w) = dw_supervisor w" "dw_callback (with_svc s w) = dw_callback w"
  "dw_pub (with_svc s w) = dw_pub w" "dw_control (with_svc s w) = dw_control w" "dw_sup_pc (with_svc s w) = dw_sup_pc w"
  "dw_stoppers (with_svc s w) = dw_stoppers w" "dw_join_failed (with_svc s w) = dw_join_failed w" "dw_created (with_svc s w) = dw_created w"
  "dw_ctl (with_svc s w) = dw_ctl w" "dw_runner (with_svc s w) = dw_runner w" "dw_successor (with_svc s w) = dw_successor w"
  "dw_history (with_svc s w) = dw_history w" "dw_attempt (with_svc s w) = dw_attempt w" "dw_stop (with_svc s w) = dw_stop w"
  "dw_sup_token (with_svc s w) = dw_sup_token w" "dw_notify (with_svc s w) = dw_notify w" "dw_starts (with_svc s w) = dw_starts w"
  "dw_exits (with_svc s w) = dw_exits w"
  by (simp_all add: with_svc_def)

lemmas world_defs [simp] = enter_stop_def set_client_def add_client_def set_pub_def start_returns_def set_sup_view_def set_upd_view_def

lemma seal_effect_frame [simp]:
  "dw_svc (seal_effect st w) = dw_svc w" "dw_owner (seal_effect st w) = dw_owner w" "dw_init (seal_effect st w) = dw_init w"
  "dw_clients (seal_effect st w) = dw_clients w" "dw_coordinator (seal_effect st w) = dw_coordinator w"
  "dw_reclaimer (seal_effect st w) = dw_reclaimer w" "dw_supervisor (seal_effect st w) = dw_supervisor w"
  "dw_callback (seal_effect st w) = dw_callback w" "dw_control (seal_effect st w) = dw_control w"
  "dw_sup (seal_effect st w) = dw_sup w" "dw_sup_pc (seal_effect st w) = dw_sup_pc w" "dw_stoppers (seal_effect st w) = dw_stoppers w"
  "dw_join_failed (seal_effect st w) = dw_join_failed w" "dw_created (seal_effect st w) = dw_created w"
  "dw_runner (seal_effect st w) = dw_runner w" "dw_successor (seal_effect st w) = dw_successor w"
  "dw_history (seal_effect st w) = dw_history w" "dw_attempt (seal_effect st w) = dw_attempt w" "dw_stop (seal_effect st w) = dw_stop w"
  "dw_sup_token (seal_effect st w) = dw_sup_token w" "dw_notify (seal_effect st w) = dw_notify w"
  "dw_starts (seal_effect st w) = dw_starts w" "dw_exits (seal_effect st w) = dw_exits w"
  "pw_epochs (dw_pub (seal_effect st w)) = pw_epochs (dw_pub w)" "pw_locals (dw_pub (seal_effect st w)) = pw_locals (dw_pub w)"
  "pw_destroying (dw_pub (seal_effect st w)) = pw_destroying (dw_pub w)"
  by (cases st; simp)+

lemma spawn_frame [simp]:
  "dw_svc (spawn_thread t w) = dw_svc w" "dw_owner (spawn_thread t w) = dw_owner w" "dw_init (spawn_thread t w) = dw_init w"
  "dw_clients (spawn_thread t w) = dw_clients w" "dw_callback (spawn_thread t w) = dw_callback w" "dw_control (spawn_thread t w) = dw_control w"
  "dw_pub (spawn_thread t w) = dw_pub w" "dw_sup (spawn_thread t w) = dw_sup w" "dw_sup_pc (spawn_thread t w) = dw_sup_pc w"
  "dw_stoppers (spawn_thread t w) = dw_stoppers w" "dw_join_failed (spawn_thread t w) = dw_join_failed w" "dw_created (spawn_thread t w) = dw_created w"
  "dw_ctl (spawn_thread t w) = dw_ctl w" "dw_runner (spawn_thread t w) = dw_runner w" "dw_successor (spawn_thread t w) = dw_successor w"
  "dw_history (spawn_thread t w) = dw_history w" "dw_attempt (spawn_thread t w) = dw_attempt w" "dw_stop (spawn_thread t w) = dw_stop w"
  "dw_sup_token (spawn_thread t w) = dw_sup_token w" "dw_notify (spawn_thread t w) = dw_notify w" "dw_starts (spawn_thread t w) = dw_starts w"
  "dw_exits (spawn_thread t w) = dw_exits w"
  by (cases t; simp)+

lemma service_invD:
  assumes "service_inv w"
  shows "service_ok (dw_svc w)" "owner_ok (dw_owner w) (dw_svc w)" "dw_init w \<noteq> None \<Longrightarrow> ds_init_in_progress (dw_svc w)"
    "stop_pending w \<Longrightarrow> lifecycle_rank (ds_state (dw_svc w)) \<ge> 4"
  using assms by (auto simp: service_inv_def)

lemma service_inv_quiet:
  assumes "service_inv w" "dw_svc w' = dw_svc w" "owner_ok (dw_owner w') (dw_svc w)" "dw_init w' = dw_init w" "stop_pending w' \<Longrightarrow> stop_pending w"
  shows "service_inv w' \<and> service_moves (dw_svc w) (dw_svc w')"
  using assms by (auto simp: service_inv_def)

lemma service_inv_section:
  assumes "service_inv w" "service_ok s' \<and> service_moves (dw_svc w) s'" "dw_svc w' = s'" "owner_ok (dw_owner w') s'"
    "dw_init w' \<noteq> None \<Longrightarrow> ds_init_in_progress s'" "stop_pending w' \<Longrightarrow> stop_pending w \<or> lifecycle_rank (ds_state s') \<ge> 4"
  shows "service_inv w' \<and> service_moves (dw_svc w) (dw_svc w')"
  using assms by (auto simp: service_inv_def service_moves_def)

lemma service_client_step:
  assumes step: "client_step xxh3 inet_pton w w'" and i: "service_inv w"
  shows "service_inv w' \<and> service_moves (dw_svc w) (dw_svc w')"
  using step
proof cases
  case (k_init_begin s config)
  note k = service_init(1) [OF service_invD(1) [OF i] k_init_begin(3)] goes_on_sections(2) [OF k_init_begin(3)]
  then show ?thesis
    using k_init_begin(1) by (intro service_inv_section [OF i, of s]) (auto simp: stop_pending_def owner_goes_on [OF service_invD(2) [OF i]])
next
  case (k_init_failed config)
  note k = service_init(2) [OF service_invD(1) [OF i]] goes_on_sections(3) [of "dw_svc w"]
  then show ?thesis
    using k_init_failed(1) by (intro service_inv_section [OF i, of "init_failed (dw_svc w)"]) (auto simp: stop_pending_def owner_goes_on [OF service_invD(2) [OF i]])
next
  case (k_init_done config address initial p u cache)
  have p: "ds_init_in_progress (dw_svc w)" using service_invD(3) [OF i] k_init_done(3) by simp
  then have e: "ds_state (dw_svc w) = LcEmpty" using service_invD(1) [OF i] by (simp add: service_ok_def)
  show ?thesis
    using k_init_done(1) service_init(3) [OF service_invD(1) [OF i] p, of config p cache] goes_on_sections(4) [OF e, of config p cache]
    by (intro service_inv_section [OF i, of "init_commit config p cache (dw_svc w)"])
      (auto simp: stop_pending_def owner_goes_on [OF service_invD(2) [OF i]])
next
  case (k_stop a s joins)
  have "stop_pending w' \<Longrightarrow> stop_pending w \<or> a = StopsRuntime"
    using k_stop(1) by (auto simp: stop_pending_def split: stop_action.splits if_splits)
  then have "stop_pending w' \<Longrightarrow> stop_pending w \<or> lifecycle_rank (ds_state s) \<ge> 4"
    using stop_pending_rank(1) service_invD(1) [OF i] k_stop(3) by blast
  moreover have "dw_init w' \<noteq> None \<Longrightarrow> ds_init_in_progress s"
    using k_stop service_invD(3) [OF i] by (auto simp: request_stop_locked_def split: if_splits)
  ultimately show ?thesis
    using k_stop(1) service_stop [OF service_invD(1) [OF i] k_stop(3)] owner_goes_on [OF service_invD(2) [OF i] goes_on_sections(5) [OF k_stop(3)]]
    by (intro service_inv_section [OF i, of s]) auto
next
  case (k_runtime_stop i' joins)
  have "stop_pending w" using k_runtime_stop by (auto simp: stop_pending_def) (metis nth_mem)
  then show ?thesis
    using k_runtime_stop(1) service_runtime_stop [OF service_invD(1) [OF i]] service_invD [OF i]
      owner_goes_on [OF service_invD(2) [OF i] goes_on_sections(1)]
    by (intro service_inv_section [OF i, of "runtime_stop_begin (dw_svc w)"]) (auto simp: runtime_stop_begin_def)
next
  case (k_join i')
  then show ?thesis
    using service_invD(2) [OF i] by (intro service_inv_quiet [OF i]) (auto simp: stop_pending_def dest!: set_update_subset_insert [THEN subsetD])
next
  case (k_replaced i' j r)
  then show ?thesis
    using same_service_ok [OF same_services(4) service_invD(1) [OF i], of r]
      owner_goes_on [OF service_invD(2) [OF i] goes_on_same [OF same_services(4) [of _ r]]] service_invD(3) [OF i] same_services(4) [of "dw_svc w" r]
    by (intro service_inv_section [OF i, of "replace_completed r (dw_svc w)"])
      (auto simp: stop_pending_def same_service_def dest!: set_update_subset_insert [THEN subsetD])
next
  case (k_inject s)
  note s = injects_same [OF k_inject(2)]
  then show ?thesis
    using k_inject(1) same_service_ok [OF s service_invD(1) [OF i]] owner_goes_on [OF service_invD(2) [OF i] goes_on_same [OF s]] service_invD(3) [OF i]
    by (intro service_inv_section [OF i, of s]) (auto simp: stop_pending_def same_service_def)
qed (use service_invD(2) [OF i] in \<open>intro service_inv_quiet [OF i]; auto simp: stop_pending_def split: sum.splits\<close>)+

lemma service_start_step:
  assumes step: "start_step w w'" and i: "service_inv w"
  shows "service_inv w' \<and> service_moves (dw_svc w) (dw_svc w')"
  using step
proof cases
  case (o_begin s)
  note s = service_start [OF service_invD(1) [OF i] o_begin(4)]
  then have "dw_init w = None" using service_invD(1,3) [OF i] by (cases "dw_init w") (auto simp: service_ok_def)
  then show ?thesis
    using s o_begin(1) by (intro service_inv_section [OF i, of s]) (auto simp: stop_pending_def)
next
  case (o_create sv p)
  have "owner_ok (after_supervisor s) s' \<longleftrightarrow> ds_state s' \<in> {LcStarting, LcStopping}" for s s'
    by (simp add: after_supervisor_def)
  then show ?thesis
    using o_create(1,2) same_service_ok [OF same_services(5) service_invD(1) [OF i]] service_invD(2,3) [OF i]
    by (intro service_inv_section [OF i, of "(dw_svc w)\<lparr>ds_supervisor := True\<rparr>"]) (auto simp: stop_pending_def)
next
  case (o_spawn t)
  then show ?thesis
    using service_invD(2) [OF i] by (cases t) (intro service_inv_quiet [OF i]; auto simp: stop_pending_def)+
next
  case (o_store t)
  have "owner_ok (after_store t s) s' \<longleftrightarrow> ds_state s' \<in> {LcStarting, LcStopping}" for s s'
    by (cases t) (auto simp: after_store_def)
  moreover have "ds_state (set_handle t b s) = ds_state s" "ds_init_in_progress (set_handle t b s) = ds_init_in_progress s" for b s
    by (cases t; simp)+
  ultimately show ?thesis
    using o_store same_service_ok [OF same_services(2) service_invD(1) [OF i], of t True] service_invD(2,3) [OF i]
    by (intro service_inv_section [OF i, of "set_handle t True (dw_svc w)"]) (auto simp: stop_pending_def)
next
  case (o_pause info)
  note s = same_services(6) [of "dw_svc w"]
  show ?thesis
  proof (cases "pause_armed (dw_svc w)")
    case True
    then show ?thesis
      using o_pause same_service_ok [OF s service_invD(1) [OF i]] service_invD(2,3) [OF i] s
      by (intro service_inv_section [OF i, of "reach_startup_pause (dw_svc w)"]) (auto simp: stop_pending_def same_service_def)
  next
    case False
    then show ?thesis using o_pause service_invD(2) [OF i] by (intro service_inv_quiet [OF i]) (auto simp: stop_pending_def)
  qed
next
  case (o_commit info e sv s)
  have "ds_init_in_progress s = ds_init_in_progress (dw_svc w)"
    using o_commit(5) by (auto simp: start_commit_def commit_startup_def Let_def split: if_splits prod.splits sum.splits)
  then show ?thesis
    using o_commit(1) service_commit [OF service_invD(1) [OF i] o_commit(5)] service_invD(3) [OF i]
    by (intro service_inv_section [OF i, of s]) (auto simp: stop_pending_def)
next
  case (o_commit_failed info e sv s)
  have "ds_init_in_progress s = ds_init_in_progress (dw_svc w)"
    using o_commit_failed(5) by (auto simp: start_commit_def commit_startup_def Let_def split: if_splits prod.splits sum.splits)
  then show ?thesis
    using o_commit_failed(1,2) service_commit [OF service_invD(1) [OF i] o_commit_failed(5)] service_invD(2,3) [OF i]
    by (intro service_inv_section [OF i, of s]) (auto simp: stop_pending_def)
next
  case (o_fail e)
  have "ds_init_in_progress (fail_start_mark e s) = ds_init_in_progress s" for s by (simp add: fail_start_mark_def Let_def)
  then show ?thesis
    using o_fail service_fail [OF service_invD(1) [OF i], of e] service_invD(2,3) [OF i]
    by (intro service_inv_section [OF i, of "fail_start_mark e (dw_svc w)"]) (auto simp: stop_pending_def)
next
  case (o_fail_stop e)
  then show ?thesis
    using service_runtime_stop [OF service_invD(1) [OF i]] service_invD(2,3) [OF i]
    by (intro service_inv_section [OF i, of "runtime_stop_begin (dw_svc w)"]) (auto simp: stop_pending_def runtime_stop_begin_def)
next
  case (o_failed e)
  then show ?thesis using service_invD(2) [OF i] by (intro service_inv_quiet [OF i]) (auto simp: stop_pending_def)
qed (use service_invD(2) [OF i] in \<open>intro service_inv_quiet [OF i]; auto simp: stop_pending_def split: option.splits sum.splits if_splits\<close>)+

text \<open>The points of the teardown at which the state does not depend on where exactly it is.\<close>

lemma owner_tears: "td \<noteq> TdBegins \<Longrightarrow> td \<noteq> TdStops
  \<Longrightarrow> owner_ok (OwTears k a td) s \<longleftrightarrow> ds_state s \<in> {LcActive, LcStopping} \<and> ds_startup_stop s"
  by (cases td) auto

lemma teardown_pcs [simp]:
  "after_reclaim site \<noteq> TdBegins" "after_reclaim site \<noteq> TdStops" "after_successor ss a r \<noteq> TdBegins" "after_successor ss a r \<noteq> TdStops"
  "next_seal stage TdRequestsDetach TdSeals \<noteq> TdBegins" "next_seal stage TdRequestsDetach TdSeals \<noteq> TdStops"
  by (cases site; simp add: after_successor_def) (cases site; cases stage; simp add: after_successor_def)+

lemma service_teardown_step:
  assumes step: "teardown_step w w'" and i: "service_inv w"
  shows "service_inv w' \<and> service_moves (dw_svc w) (dw_svc w')"
  using step
proof cases
  case (t_over k a)
  then show ?thesis
    using service_invD(2) [OF i] by (cases k; intro service_inv_quiet [OF i]) (auto simp: stop_pending_def teardown_done_def teardown_over_def)
next
  case (t_begin k a)
  then show ?thesis
    using service_invD(2) [OF i]
    by (intro service_inv_quiet [OF i]; cases "ds_state (dw_svc w)") (auto simp: stop_pending_def teardown_over_def)
next
  case (t_stop k a)
  then have "lifecycle_rank (ds_state (dw_svc w)) \<ge> 3" using service_invD(2) [OF i] by auto
  then show ?thesis
    using t_stop service_runtime_stop [OF service_invD(1) [OF i]] service_invD(2,3) [OF i]
    by (intro service_inv_section [OF i, of "runtime_stop_begin (dw_svc w)"]) (auto simp: stop_pending_def runtime_stop_begin_def)
next
  case (t_commit k a r s)
  have "ds_init_in_progress s = ds_init_in_progress (dw_svc w)" using t_commit(4) by (auto simp: teardown_commit_def Let_def)
  then show ?thesis
    using t_commit(1,2) service_end [OF service_invD(1) [OF i] t_commit(4)] service_invD(2,3) [OF i]
    by (cases k; intro service_inv_section [OF i, of s]) (auto simp: stop_pending_def teardown_done_def)
next
  case (t_incomplete k a r s)
  have "ds_init_in_progress s = ds_init_in_progress (dw_svc w)" using t_incomplete(4) by (auto simp: teardown_incomplete_def Let_def)
  then show ?thesis
    using t_incomplete(1,2) service_incomplete [OF service_invD(1) [OF i] t_incomplete(4)] service_invD(2,3) [OF i]
    by (cases k; intro service_inv_section [OF i, of s]) (auto simp: stop_pending_def teardown_done_def)
next
  case (t_take_supervisor k a)
  then show ?thesis
    using same_service_ok [OF same_services(2) service_invD(1) [OF i], of SupervisorThread False] service_invD(2,3) [OF i]
    by (intro service_inv_section [OF i, of "set_handle SupervisorThread False (dw_svc w)"]) (auto simp: stop_pending_def)
next
  case (t_join_supervisor_throws k a)
  then show ?thesis
    using same_service_ok [OF same_services(2) service_invD(1) [OF i], of SupervisorThread True] service_invD(2,3) [OF i]
    by (intro service_inv_section [OF i, of "set_handle SupervisorThread True (dw_svc w)"]) (auto simp: stop_pending_def)
next
  case (t_take_coordinator k a)
  then show ?thesis
    using same_service_ok [OF same_services(2) service_invD(1) [OF i], of CoordinatorThread False] service_invD(2,3) [OF i]
    by (intro service_inv_section [OF i, of "set_handle CoordinatorThread False (dw_svc w)"]) (auto simp: stop_pending_def)
next
  case (t_join_coordinator_throws k a)
  then show ?thesis
    using same_service_ok [OF same_services(2) service_invD(1) [OF i], of CoordinatorThread True] service_invD(2,3) [OF i]
    by (intro service_inv_section [OF i, of "set_handle CoordinatorThread True (dw_svc w)"]) (auto simp: stop_pending_def)
next
  case (t_take_failed k a site)
  then show ?thesis
    using same_service_ok [OF same_services(2) service_invD(1) [OF i], of ReclaimerThread False] service_invD(2,3) [OF i]
    by (intro service_inv_section [OF i, of "set_handle ReclaimerThread False (dw_svc w)"]) (auto simp: stop_pending_def)
next
  case (t_join_failed_throws k a site)
  then show ?thesis
    using same_service_ok [OF same_services(2) service_invD(1) [OF i], of ReclaimerThread True] service_invD(2,3) [OF i]
    by (intro service_inv_section [OF i, of "set_handle ReclaimerThread True (dw_svc w)"]) (auto simp: stop_pending_def)
next
  case (t_take_reclaimer k a)
  then show ?thesis
    using same_service_ok [OF same_services(2) service_invD(1) [OF i], of ReclaimerThread False] service_invD(2,3) [OF i]
    by (intro service_inv_section [OF i, of "set_handle ReclaimerThread False (dw_svc w)"]) (auto simp: stop_pending_def)
next
  case (t_join_reclaimer_throws k a)
  then show ?thesis
    using same_service_ok [OF same_services(2) service_invD(1) [OF i], of ReclaimerThread True] service_invD(2,3) [OF i]
    by (intro service_inv_section [OF i, of "set_handle ReclaimerThread True (dw_svc w)"]) (auto simp: stop_pending_def)
qed (use service_invD(2) [OF i] in \<open>intro service_inv_quiet [OF i]; auto simp: stop_pending_def owner_tears split: sum.splits\<close>)+

lemma service_enter_stop:
  assumes i: "service_inv w" and p: "stop_pending w"
  shows "service_inv (enter_stop c w) \<and> service_moves (dw_svc w) (dw_svc (enter_stop c w))"
proof -
  have "lifecycle_rank (ds_state (dw_svc w)) \<ge> 3" using service_invD(4) [OF i p] by simp
  then show ?thesis
    using service_runtime_stop [OF service_invD(1) [OF i]] service_invD(3) [OF i] owner_goes_on [OF service_invD(2) [OF i] goes_on_sections(1)]
    by (intro service_inv_section [OF i, of "runtime_stop_begin (dw_svc w)"]) (auto simp: runtime_stop_begin_def stop_pending_def)
qed

lemma service_role_step:
  assumes step: "role_step builder w w'" and i: "service_inv w"
  shows "service_inv w' \<and> service_moves (dw_svc w) (dw_svc w')"
proof -
  have exit: "service_inv w1 \<and> service_moves (dw_svc w) (dw_svc w1)"
    if r: "role_exited token attempt e f (dw_svc w) = (b, s)" and "dw_svc w1 = s" "dw_owner w1 = dw_owner w" "dw_init w1 = dw_init w"
      "stop_pending w1 \<Longrightarrow> b \<or> stop_pending w" for token attempt e f b s w1
  proof -
    have "ds_init_in_progress s = ds_init_in_progress (dw_svc w)"
      using r by (auto simp: role_exited_def accept_fatal_locked_def split: if_splits)
    moreover have "stop_pending w1 \<Longrightarrow> stop_pending w \<or> lifecycle_rank (ds_state s) \<ge> 4"
      using that(5) stop_pending_rank(3) [of token attempt e f "dw_svc w" s] r by (cases b) auto
    ultimately show ?thesis
      using that service_role [OF service_invD(1) [OF i] r] service_invD(3) [OF i] owner_goes_on [OF service_invD(2) [OF i] goes_on_sections(7) [OF r]]
      by (intro service_inv_section [OF i, of s]) auto
  qed
  show ?thesis
    using step
  proof cases
    case (a_exit b s)
    then show ?thesis
      by (intro exit [OF a_exit(4) [unfolded coordinator_exited_def]]) (auto simp: stop_pending_def split: if_splits)
  next
    case (b_exit r b s)
    then show ?thesis
      by (intro exit [OF b_exit(4) [unfolded reclaimer_exited_def]]) (auto simp: stop_pending_def split: if_splits)
  next
    case (c_exited r b s)
    then show ?thesis
      by (intro exit [OF c_exited(4) [unfolded supervisor_exited_def]]) (auto simp: stop_pending_def split: if_splits)
  next
    case a_stop
    then show ?thesis unfolding a_stop(1) by (intro service_enter_stop [OF i]) (simp add: stop_pending_def)
  next
    case b_stop
    then show ?thesis unfolding b_stop(1) by (intro service_enter_stop [OF i]) (simp add: stop_pending_def)
  next
    case c_stop
    then show ?thesis unfolding c_stop(1) by (intro service_enter_stop [OF i]) (simp add: stop_pending_def)
  qed (use service_invD(2) [OF i] in \<open>intro service_inv_quiet [OF i]; auto simp: stop_pending_def split: reclaimer_round.splits\<close>)+
qed

lemma owner_stopped_ok: "owner_ok pc s \<Longrightarrow> ds_startup_stop s \<Longrightarrow> owner_ok (owner_stopped pc) s"
  by (induction pc rule: owner_stopped.induct) auto

lemma resume_frame [simp]:
  "dw_svc (resume_caller c w) = dw_svc w" "dw_init (resume_caller c w) = dw_init w" "dw_pub (resume_caller c w) = dw_pub w"
  "dw_control (resume_caller c w) = dw_control w" "dw_sup (resume_caller c w) = dw_sup w" "dw_sup_pc (resume_caller c w) = dw_sup_pc w"
  "dw_stoppers (resume_caller c w) = dw_stoppers w" "dw_join_failed (resume_caller c w) = dw_join_failed w"
  "dw_created (resume_caller c w) = dw_created w" "dw_ctl (resume_caller c w) = dw_ctl w" "dw_runner (resume_caller c w) = dw_runner w"
  "dw_successor (resume_caller c w) = dw_successor w" "dw_history (resume_caller c w) = dw_history w"
  "dw_attempt (resume_caller c w) = dw_attempt w" "dw_stop (resume_caller c w) = dw_stop w"
  "dw_sup_token (resume_caller c w) = dw_sup_token w" "dw_notify (resume_caller c w) = dw_notify w"
  "dw_starts (resume_caller c w) = dw_starts w" "dw_exits (resume_caller c w) = dw_exits w"
  "dw_owner (resume_caller c w) = (if c = ByOwner then owner_stopped (dw_owner w) else dw_owner w)"
  by (simp_all add: resume_caller_def split: stop_caller.splits)

lemma resume_pending: "stop_pending (resume_caller c w) \<Longrightarrow> stop_pending w"
proof (cases c)
  case (ByClient i)
  assume "stop_pending (resume_caller c w)"
  moreover have "client_stopped x \<noteq> ClientStops j" if "x = ClientStops j'" for x j j' using that by simp
  ultimately show ?thesis
    using ByClient by (cases "dw_clients w ! i"; cases "i < length (dw_clients w)")
      (auto simp: resume_caller_def stop_pending_def split: if_splits dest!: set_update_subset_insert [THEN subsetD])
qed (auto simp: resume_caller_def stop_pending_def)

text \<open>While \<open>request_runtime_stop\<close> runs, the service has been told to stop.\<close>

definition stop_told :: "dns_world \<Rightarrow> bool" where
  "stop_told w \<longleftrightarrow> (dw_stop w \<noteq> None \<longrightarrow> ds_startup_stop (dw_svc w))"

lemma service_part_step:
  assumes step: "part_step w w'" and i: "service_inv w" and told: "stop_told w"
  shows "service_inv w' \<and> service_moves (dw_svc w) (dw_svc w')"
  using step
proof cases
  case (p_health h)
  then show ?thesis
    using same_service_ok [OF same_services(3) service_invD(1) [OF i], of h] same_services(3) [of "dw_svc w" h]
      owner_goes_on [OF service_invD(2) [OF i] goes_on_same [OF same_services(3) [of _ h]]] service_invD(3) [OF i]
    by (intro service_inv_section [OF i, of "health_reporter h (dw_svc w)"]) (auto simp: stop_pending_def same_service_def)
next
  case (p_fatal f b s)
  have "ds_init_in_progress s = ds_init_in_progress (dw_svc w)"
    using p_fatal(4) by (auto simp: accept_fatal_locked_def split: if_splits)
  moreover have "stop_pending w' \<Longrightarrow> stop_pending w \<or> lifecycle_rank (ds_state s) \<ge> 4"
    using p_fatal(1) stop_pending_rank(2) [of "map_worker_failure f" "dw_svc w" s] p_fatal(4) by (cases b) (auto simp: stop_pending_def)
  ultimately show ?thesis
    using p_fatal(1) service_fatal [OF service_invD(1) [OF i] p_fatal(4)] service_invD(3) [OF i]
      owner_goes_on [OF service_invD(2) [OF i] goes_on_sections(6) [OF p_fatal(4)]]
    by (intro service_inv_section [OF i, of s]) auto
next
  case p_fatal_stop
  then show ?thesis unfolding p_fatal_stop(1) by (intro service_enter_stop [OF i]) (simp add: stop_pending_def)
next
  case (s_thread c)
  have "ds_startup_stop (dw_svc w)" using told s_thread(2) by (simp add: stop_told_def)
  moreover have "stop_pending w' \<Longrightarrow> stop_pending w"
    using resume_pending [of c "w\<lparr>dw_sup_token := dw_sup_token w \<or> ds_supervisor_thread (dw_svc w), dw_stop := None\<rparr>"] s_thread(1)
    by (simp add: stop_pending_def)
  ultimately show ?thesis
    using s_thread(1) service_invD(2) [OF i] owner_stopped_ok by (intro service_inv_quiet [OF i]) simp_all
next
  case (p_supervisor k a v)
  have "callback_after pc s \<noteq> CbStops" for pc s by (simp add: callback_after_def split: sup_pc.splits)
  then show ?thesis
    using p_supervisor(1) service_invD(2) [OF i] by (intro service_inv_quiet [OF i]) (auto simp: stop_pending_def)
qed (use service_invD(2) [OF i] in \<open>intro service_inv_quiet [OF i]; auto simp: stop_pending_def\<close>)+

lemma stop_told_step:
  assumes "dns_step xxh3 inet_pton w w'" "stop_told w"
  shows "stop_told w'"
  using assms(1)
proof cases
  case client_moves
  then show ?thesis
    using assms(2) by cases (auto simp: stop_told_def runtime_stop_begin_def same_service_def dest!: injects_same)
next
  case start_moves
  then show ?thesis
    using assms(2) by cases (auto simp: stop_told_def runtime_stop_begin_def reach_startup_pause_def on_faults_def split: if_splits)
next
  case teardown_moves
  then show ?thesis using assms(2) by cases (auto simp: stop_told_def runtime_stop_begin_def teardown_done_def split: option.splits)
next
  case role_moves
  then show ?thesis using assms(2) by cases (auto simp: stop_told_def runtime_stop_begin_def)
next
  case part_moves
  then show ?thesis using assms(2) by cases (auto simp: stop_told_def runtime_stop_begin_def)
qed

lemma service_step:
  assumes "dns_step xxh3 inet_pton w w'" "service_inv w" "stop_told w"
  shows "service_inv w' \<and> service_moves (dw_svc w) (dw_svc w')"
  using assms service_client_step service_start_step service_teardown_step service_role_step service_part_step
  by (auto elim!: dns_step.cases)

lemma service_reachable:
  assumes "dns_reachable xxh3 inet_pton w"
  shows "service_inv w \<and> stop_told w"
  using assms
proof induction
  case (dns_new w)
  then show ?case using service_new by (auto simp: dns_initial_def service_inv_def stop_pending_def stop_told_def) (simp add: new_dns_def)
next
  case (dns_then w w')
  then show ?case using service_step stop_told_step by blast
qed

section \<open>The port, and what the callers are told\<close>

fun failing_pc :: "owner_pc \<Rightarrow> bool" where
  "failing_pc (OwFailStops e) = True"
| "failing_pc (OwTears k a td) \<longleftrightarrow> k \<noteq> None"
| "failing_pc (OwFailed e) = True"
| "failing_pc pc = False"

abbreviation port_of :: "dns_service \<Rightarrow> u16 option" where
  "port_of s \<equiv> dh_bound_port (ds_health s)"

text \<open>The port is known exactly from the moment at which the start succeeds.\<close>

definition port_ok :: "owner_pc \<Rightarrow> dns_service \<Rightarrow> bool" where
  "port_ok pc s \<longleftrightarrow> (starting_pc pc \<or> failing_pc pc \<longrightarrow> port_of s = None) \<and> (failing_pc pc \<longrightarrow> ds_stop_cause s \<noteq> CauseNone)
     \<and> (ds_state s = LcActive \<or> ds_stop_cause s = CauseFatal \<longrightarrow> port_of s \<noteq> None)"

definition same_port :: "dns_service \<Rightarrow> dns_service \<Rightarrow> bool" where
  "same_port s s' \<longleftrightarrow> port_of s' = port_of s \<and> (ds_stop_cause s \<noteq> CauseNone \<longrightarrow> ds_stop_cause s' = ds_stop_cause s)
     \<and> (ds_state s' = LcActive \<longrightarrow> ds_state s = LcActive) \<and> (ds_stop_cause s' = CauseFatal \<longrightarrow> ds_stop_cause s = CauseFatal \<or> ds_state s = LcActive)"

lemma port_same: "port_ok pc s \<Longrightarrow> same_port s s' \<Longrightarrow> port_ok pc s'"
  unfolding port_ok_def same_port_def by metis

lemma same_port_simple [simp]:
  "same_port s s" "same_port s (runtime_stop_begin s)" "same_port s (set_handle t b s)" "same_port s (health_reporter h s)"
  "same_port s (replace_completed r s)" "same_port s (s\<lparr>ds_supervisor := x\<rparr>)" "same_port s (reach_startup_pause s)"
  "same_port s (init_failed s)"
  by (cases t; simp add: same_port_def runtime_stop_begin_def health_reporter_def on_dns_health_def replace_completed_def Let_def
      reach_startup_pause_def on_faults_def init_failed_def split: sum.splits option.splits)+

lemma same_port_sections:
  "injects s s' \<Longrightarrow> same_port s s'" "init_begin s = (b, s') \<Longrightarrow> same_port s s'"
  "request_stop_locked s = (a, s') \<Longrightarrow> service_ok s \<Longrightarrow> same_port s s'" "accept_fatal_locked e s = (b, s') \<Longrightarrow> same_port s s'"
  "role_exited token attempt e0 f s = (b, s') \<Longrightarrow> service_ok s \<Longrightarrow> same_port s s'"
  "teardown_incomplete s = (r, s') \<Longrightarrow> same_port s s'" "teardown_commit v s = (r, s') \<Longrightarrow> same_port s s'"
proof -
  show "injects s s' \<Longrightarrow> same_port s s'" using injects_same by (fastforce simp: same_port_def same_service_def)
  show "init_begin s = (b, s') \<Longrightarrow> same_port s s'" by (auto simp: same_port_def init_begin_def split: if_splits)
  show "request_stop_locked s = (a, s') \<Longrightarrow> service_ok s \<Longrightarrow> same_port s s'"
    by (cases "ds_state s"; simp add: same_port_def request_stop_locked_def service_ok_def unavailable_def; elim conjE; hypsubst; simp)
  show f: "accept_fatal_locked e s = (b, s') \<Longrightarrow> same_port s s'" for e b s'
    by (auto simp: same_port_def accept_fatal_locked_def unavailable_def split: if_splits)
  show "role_exited token attempt e0 f s = (b, s') \<Longrightarrow> service_ok s \<Longrightarrow> same_port s s'"
    using f [of f b s'] by (auto simp: role_exited_def same_port_def split: if_splits)
  show "teardown_incomplete s = (r, s') \<Longrightarrow> same_port s s'"
    by (auto simp: same_port_def teardown_incomplete_def unavailable_def Let_def)
  show "teardown_commit v s = (r, s') \<Longrightarrow> same_port s s'"
    by (auto simp: same_port_def teardown_commit_def unavailable_def Let_def split: if_splits)
qed

lemma port_client_step:
  assumes step: "client_step xxh3 inet_pton w w'" and i: "service_inv w" and p: "port_ok (dw_owner w) (dw_svc w)"
  shows "port_ok (dw_owner w') (dw_svc w')"
  using step
proof cases
  case (k_init_done config address initial pub u cache)
  have "ds_state (dw_svc w) = LcEmpty" using service_invD(1,3) [OF i] k_init_done(3) by (simp add: service_ok_def)
  moreover have "starting_pc pc \<or> failing_pc pc \<Longrightarrow> owner_ok pc s \<Longrightarrow> ds_state s \<noteq> LcEmpty" for pc s
    by (induction pc s rule: owner_ok.induct) auto
  ultimately have "\<not> starting_pc (dw_owner w) \<and> \<not> failing_pc (dw_owner w)" using service_invD(2) [OF i] by blast
  moreover have "ds_stop_cause (dw_svc w) = CauseNone"
    using \<open>ds_state (dw_svc w) = LcEmpty\<close> service_invD(1) [OF i] by (simp add: service_ok_def)
  ultimately show ?thesis using k_init_done(1) by (simp add: port_ok_def init_commit_def)
next
  case (k_join i')
  then show ?thesis using p by (simp add: port_ok_def)
qed (use p service_invD(1) [OF i] in \<open>auto intro: port_same same_port_sections\<close>)

lemma port_start_step:
  assumes step: "start_step w w'" and i: "service_inv w" and p: "port_ok (dw_owner w) (dw_svc w)"
  shows "port_ok (dw_owner w') (dw_svc w')"
  using step
proof cases
  case (o_begin s)
  then show ?thesis by (auto simp: port_ok_def start_begin_def split: if_splits)
next
  case (o_create sv pub)
  then show ?thesis
    using port_same [OF p same_port_simple(6), of True] by (auto simp: port_ok_def after_supervisor_def)
next
  case (o_store t)
  then show ?thesis
    using port_same [OF p same_port_simple(3), of t True] by (cases t) (auto simp: port_ok_def after_store_def)
next
  case (o_commit info e sv s)
  then show ?thesis
    using service_invD(1) [OF i]
    by (auto simp: port_ok_def start_commit_def commit_startup_def still_starting_def Let_def split: if_splits prod.splits sum.splits)
next
  case (o_commit_failed info e sv s)
  then show ?thesis
    using p by (auto simp: port_ok_def start_commit_def commit_startup_def still_starting_def unavailable_def Let_def split: if_splits prod.splits sum.splits)
next
  case (o_fail e)
  then show ?thesis
    using p service_fail [OF service_invD(1) [OF i], of e] service_invD(2) [OF i] by (auto simp: port_ok_def fail_start_mark_def Let_def)
next
  case (o_fail_stop e)
  then show ?thesis using port_same [OF p same_port_simple(2)] by simp
next
  case (o_pause info)
  then show ?thesis using p port_same [OF p same_port_simple(7)] by (auto simp: port_ok_def)
qed (use p in \<open>auto simp: port_ok_def split: option.splits sum.splits\<close>)

lemma port_teardown_step:
  assumes step: "teardown_step w w'" and p: "port_ok (dw_owner w) (dw_svc w)"
  shows "port_ok (dw_owner w') (dw_svc w')"
proof -
  have q: "port_ok (dw_owner w) (dw_svc w')"
    using step by cases (use p in \<open>auto intro: port_same same_port_sections simp: teardown_done_def simp del: set_handle.simps split: option.splits\<close>)
  show ?thesis
    using step by cases (use q in \<open>auto simp: port_ok_def teardown_done_def split: option.splits\<close>)
qed

lemma port_step:
  assumes step: "dns_step xxh3 inet_pton w w'" and i: "service_inv w" and p: "port_ok (dw_owner w) (dw_svc w)"
  shows "port_ok (dw_owner w') (dw_svc w')"
  using step
proof cases
  case client_moves
  then show ?thesis by (rule port_client_step [OF _ i p])
next
  case start_moves
  then show ?thesis by (rule port_start_step [OF _ i p])
next
  case teardown_moves
  then show ?thesis by (rule port_teardown_step [OF _ p])
next
  case role_moves
  then show ?thesis
    by cases (use p service_invD(1) [OF i] in \<open>auto intro: port_same same_port_sections simp: coordinator_exited_def reclaimer_exited_def supervisor_exited_def\<close>)
next
  case part_moves
  then show ?thesis
  proof cases
    case (s_thread c)
    have "starting_pc (owner_stopped pc) = starting_pc pc" "failing_pc (owner_stopped pc) = failing_pc pc" for pc
      by (induction pc rule: owner_stopped.induct) auto
    then show ?thesis using p s_thread(1) by (simp add: port_ok_def)
  qed (use p in \<open>auto intro: port_same same_port_sections\<close>)
qed

lemma port_reachable:
  assumes "dns_reachable xxh3 inet_pton w"
  shows "port_ok (dw_owner w) (dw_svc w)"
  using assms
proof induction
  case (dns_new w)
  then show ?case by (auto simp: dns_initial_def port_ok_def new_dns_def)
next
  case (dns_then w w')
  then show ?case using port_step service_reachable by blast
qed

text \<open>What a caller of \<open>start\<close> was told, and a caller of \<open>join\<close> or \<open>wait\<close>, stays true.\<close>

definition start_reported :: "dns_service \<Rightarrow> dns_start_result \<Rightarrow> bool" where
  "start_reported s r \<longleftrightarrow>
     (case r of
        Inr info \<Rightarrow> lifecycle_rank (ds_state s) \<ge> 3 \<and> port_of s = Some (di_bound_port info)
      | Inl e \<Rightarrow> e = make_start_error DE_InvalidLifecycleState RoleNone 0
          \<or> lifecycle_rank (ds_state s) \<ge> 4 \<and> port_of s = None
             \<and> (ds_stop_cause s = CauseExplicit \<and> e = cancelled_start_error \<or> ds_stop_cause s = CauseStartupFailure \<and> ds_startup_error s = Some e))"

definition exit_reported :: "dns_service \<Rightarrow> dns_exit_result \<Rightarrow> bool" where
  "exit_reported s r \<longleftrightarrow> ex_code r = EX_NotStarted \<or> ex_code r = EX_TeardownIncomplete \<or> r = exit_result_locked s"

lemma start_reported_moves: "start_reported s r \<Longrightarrow> service_moves s s' \<Longrightarrow> start_reported s' r"
  by (auto simp: start_reported_def service_moves_def split: sum.splits)

lemma exit_reported_moves: "exit_reported s r \<Longrightarrow> service_moves s s' \<Longrightarrow> exit_reported s' r"
  by (cases "ds_stop_cause s") (auto simp: exit_reported_def service_moves_def exit_result_locked_def)

definition reported :: "dns_world \<Rightarrow> bool" where
  "reported w \<longleftrightarrow> list_all (start_reported (dw_svc w)) (dw_starts w) \<and> list_all (exit_reported (dw_svc w)) (dw_exits w)"

lemma reported_same:
  assumes "reported w" "service_moves (dw_svc w) (dw_svc w')" "dw_starts w' = dw_starts w" "dw_exits w' = dw_exits w"
  shows "reported w'"
  using assms start_reported_moves exit_reported_moves by (auto simp: reported_def list_all_iff)

lemma reported_start:
  assumes "reported w" "service_moves (dw_svc w) (dw_svc w')" "dw_starts w' = dw_starts w @ [r]" "dw_exits w' = dw_exits w" "start_reported (dw_svc w') r"
  shows "reported w'"
  using assms start_reported_moves exit_reported_moves by (auto simp: reported_def list_all_iff)

lemma reported_exit:
  assumes "reported w" "service_moves (dw_svc w) (dw_svc w')" "dw_starts w' = dw_starts w" "dw_exits w' = dw_exits w @ [r]" "exit_reported (dw_svc w') r"
  shows "reported w'"
  using assms start_reported_moves exit_reported_moves by (auto simp: reported_def list_all_iff)

lemma reported_teardown:
  assumes "reported w" "dw_starts w1 = dw_starts w" "dw_exits w1 = dw_exits w" "service_moves (dw_svc w) (dw_svc w1)" "exit_reported (dw_svc w1) x"
  shows "reported (teardown_done k x w1)"
proof (cases k)
  case None
  then show ?thesis using assms by (intro reported_exit [OF assms(1)]) (simp_all add: teardown_done_def)
next
  case (Some e)
  then show ?thesis using assms by (intro reported_same [OF assms(1)]) (simp_all add: teardown_done_def)
qed

lemma reported_step:
  assumes step: "dns_step xxh3 inet_pton w w'" and r: "reported w" and i: "service_inv w" "stop_told w" and p: "port_ok (dw_owner w) (dw_svc w)"
  shows "reported w'"
proof -
  note m = service_step [OF step i, THEN conjunct2]
  show ?thesis
    using step
  proof cases
    case client_moves
    then show ?thesis
      by cases (use m in \<open>auto intro: reported_same [OF r] reported_exit [OF r] simp: exit_reported_def\<close>)
  next
    case start_moves
    then show ?thesis
    proof cases
      case (o_refused e s)
      then show ?thesis
        using m by (intro reported_start [OF r m]) (auto simp: start_begin_def start_reported_def split: if_splits)
    next
      case (o_commit info e sv s)
      then have "start_reported s (Inr \<lparr>di_bound_port = si_bound_port info, di_worker_count = si_worker_count info, di_attempt = dw_attempt w\<rparr>)"
        by (auto simp: start_reported_def start_commit_def commit_startup_def Let_def split: if_splits prod.splits sum.splits)
      then show ?thesis using o_commit(1) by (intro reported_start [OF r m]) auto
    next
      case (o_failed e)
      have c: "lifecycle_rank (ds_state (dw_svc w)) \<ge> 4" "port_of (dw_svc w) = None" "ds_stop_cause (dw_svc w) \<in> {CauseExplicit, CauseStartupFailure}"
        using service_invD(2) [OF i(1)] p o_failed(2) by (cases "ds_stop_cause (dw_svc w)"; auto simp: port_ok_def)+
      then have "start_reported (dw_svc w) (Inl (fail_start_result e (dw_svc w)))"
        using service_invD(1) [OF i(1)] by (auto simp: start_reported_def fail_start_result_def service_ok_def)
      then show ?thesis using o_failed(1) by (intro reported_start [OF r m]) auto
    qed (use m in \<open>auto intro: reported_same [OF r]\<close>)
  next
    case teardown_moves
    then show ?thesis
    proof cases
      case (t_over k a)
      then show ?thesis unfolding t_over(1) by (intro reported_teardown [OF r]) (simp_all add: exit_reported_def)
    next
      case (t_commit k a x s)
      have "exit_reported s x" using t_commit(4) by (auto simp: exit_reported_def teardown_commit_def Let_def)
      moreover have "dw_svc w' = s" using t_commit(1) by (simp add: teardown_done_def split: option.splits)
      ultimately show ?thesis using m unfolding t_commit(1) by (intro reported_teardown [OF r]) (simp_all add: teardown_done_def split: option.splits)
    next
      case (t_incomplete k a x s)
      have "exit_reported s x" using t_incomplete(4) by (auto simp: exit_reported_def teardown_incomplete_def Let_def)
      moreover have "dw_svc w' = s" using t_incomplete(1) by (simp add: teardown_done_def split: option.splits)
      ultimately show ?thesis using m unfolding t_incomplete(1) by (intro reported_teardown [OF r]) (simp_all add: teardown_done_def split: option.splits)
    qed (use m in \<open>auto intro: reported_same [OF r]\<close>)
  next
    case role_moves
    then show ?thesis by cases (use m in \<open>auto intro: reported_same [OF r]\<close>)
  next
    case part_moves
    then show ?thesis by cases (use m in \<open>auto intro: reported_same [OF r]\<close>)
  qed
qed

lemma reported_reachable:
  assumes "dns_reachable xxh3 inet_pton w"
  shows "reported w"
  using assms
proof induction
  case (dns_new w)
  then show ?case by (simp add: dns_initial_def reported_def)
next
  case (dns_then w w')
  then show ?case using reported_step service_reachable port_reachable by blast
qed

text \<open>
  A service that is active, or on its way down with no reason recorded, was started: the only way to that
  point is the commit of a start, which returns its success.
\<close>

definition grows :: "dns_service \<Rightarrow> dns_service \<Rightarrow> bool" where
  "grows s s' \<longleftrightarrow> (lifecycle_rank (ds_state s') \<ge> 3 \<and> ds_stop_cause s' = CauseNone \<longrightarrow> lifecycle_rank (ds_state s) \<ge> 3)"

definition start_recorded :: "dns_world \<Rightarrow> bool" where
  "start_recorded w \<longleftrightarrow> (lifecycle_rank (ds_state (dw_svc w)) \<ge> 3 \<and> ds_stop_cause (dw_svc w) = CauseNone
     \<longrightarrow> (\<exists>info. Inr info \<in> set (dw_starts w)))"

lemma grows_refl [simp]: "grows s s"
  by (simp add: grows_def)

lemma grows_same: "same_service s s' \<Longrightarrow> grows s s'"
  by (simp add: same_service_def grows_def)

lemma grows_sections:
  "init_begin s = (b, s') \<Longrightarrow> grows s s'" "grows s (init_failed s)" "grows s (init_commit c p cache s)"
  "request_stop_locked s = (a, s') \<Longrightarrow> grows s s'" "accept_fatal_locked e s = (b, s') \<Longrightarrow> grows s s'"
  "role_exited token attempt e0 f s = (b, s') \<Longrightarrow> grows s s'" "start_begin s = (None, s') \<Longrightarrow> grows s s'"
  "grows s (runtime_stop_begin s)" "grows s (fail_start_mark e2 s)" "start_commit at info v cs sv s = (False, e1, sv', s') \<Longrightarrow> grows s s'"
  "lifecycle_rank (ds_state s) \<ge> 3 \<Longrightarrow> grows s s'"
  by (auto simp: grows_def init_begin_def init_failed_def init_commit_def request_stop_locked_def accept_fatal_locked_def role_exited_def
      start_begin_def runtime_stop_begin_def fail_start_mark_def start_commit_def commit_startup_def Let_def
      split: if_splits prod.splits sum.splits)

lemma start_recorded_grows:
  assumes "start_recorded w" "service_moves (dw_svc w) (dw_svc w')" "grows (dw_svc w) (dw_svc w')" "set (dw_starts w) \<subseteq> set (dw_starts w')"
  shows "start_recorded w'"
  using assms by (auto simp: start_recorded_def grows_def service_moves_def)

lemma start_recorded_step:
  assumes step: "dns_step xxh3 inet_pton w w'" and r: "start_recorded w" and i: "service_inv w" "stop_told w"
  shows "start_recorded w'"
proof -
  note m = service_step [OF step i, THEN conjunct2]
  note g = grows_sections same_services [THEN grows_same]
  show ?thesis
    using step
  proof cases
    case client_moves
    then show ?thesis
      by cases (intro start_recorded_grows [OF r m]; auto intro: g grows_same [OF injects_same])+
  next
    case start_moves
    then show ?thesis
    proof cases
      case (o_commit info e sv s)
      then show ?thesis by (auto simp: start_recorded_def)
    qed (intro start_recorded_grows [OF r m]; auto intro: g simp del: set_handle.simps)+
  next
    case teardown_moves
    then show ?thesis
    proof cases
      case (t_commit k a x s)
      have "lifecycle_rank (ds_state (dw_svc w)) \<ge> 3" using service_invD(2) [OF i(1)] t_commit(2) by auto
      then show ?thesis using t_commit
        by (intro start_recorded_grows [OF r m]) (auto intro: g simp: teardown_done_def split: option.splits)
    next
      case (t_incomplete k a x s)
      have "lifecycle_rank (ds_state (dw_svc w)) \<ge> 3" using service_invD(2) [OF i(1)] t_incomplete(2) by auto
      then show ?thesis using t_incomplete
        by (intro start_recorded_grows [OF r m]) (auto intro: g simp: teardown_done_def split: option.splits)
    qed (intro start_recorded_grows [OF r m]; auto intro: g simp: teardown_done_def simp del: set_handle.simps split: option.splits)+
  next
    case role_moves
    then show ?thesis
      by cases (intro start_recorded_grows [OF r m]; auto intro: g simp: coordinator_exited_def reclaimer_exited_def supervisor_exited_def simp del: set_handle.simps)+
  next
    case part_moves
    then show ?thesis by cases (intro start_recorded_grows [OF r m]; auto intro: g)+
  qed
qed

lemma start_recorded_reachable:
  assumes "dns_reachable xxh3 inet_pton w"
  shows "start_recorded w"
  using assms
proof induction
  case (dns_new w)
  then show ?case by (simp add: dns_initial_def start_recorded_def new_dns_def)
next
  case (dns_then w w')
  then show ?case using start_recorded_step service_reachable by blast
qed

text \<open>
  What the state of the service says about the result that a call of \<open>join\<close> or \<open>wait\<close> returns in it; the
  predicate reads the state and the recorded errors, not the recorded cause.
\<close>

definition exit_told :: "dns_service \<Rightarrow> dns_exit_result \<Rightarrow> bool" where
  "exit_told s r \<longleftrightarrow>
     (case ds_state s of
        LcEmpty \<Rightarrow> r = \<lparr>ex_code = EX_NotStarted, ex_startup_error = None, ex_fatal_error = None\<rparr>
      | LcInitialized \<Rightarrow> r = \<lparr>ex_code = EX_NotStarted, ex_startup_error = None, ex_fatal_error = None\<rparr>
      | LcStarting \<Rightarrow> False
      | LcActive \<Rightarrow> False
      | LcStopping \<Rightarrow> r = \<lparr>ex_code = EX_TeardownIncomplete, ex_startup_error = ds_startup_error s, ex_fatal_error = ds_fatal_error s\<rparr>
      | LcStopped \<Rightarrow> r = \<lparr>ex_code = EX_ExplicitStop, ex_startup_error = None, ex_fatal_error = None\<rparr>
      | LcFailed \<Rightarrow>
          (case (ds_startup_error s, ds_fatal_error s) of
             (Some e, _) \<Rightarrow> r = \<lparr>ex_code = EX_StartupFailure, ex_startup_error = Some e, ex_fatal_error = None\<rparr>
           | (None, Some e) \<Rightarrow> r = \<lparr>ex_code = EX_Fatal, ex_startup_error = None, ex_fatal_error = Some e\<rparr>
           | (None, None) \<Rightarrow> r = \<lparr>ex_code = EX_NotStarted, ex_startup_error = None, ex_fatal_error = None\<rparr>))"

lemma exit_told_locked:
  assumes "service_ok s" "ds_state s \<in> {LcEmpty, LcInitialized, LcStopped, LcFailed}"
  shows "exit_told s (exit_result_locked s)"
  using assms
  by (cases "ds_stop_cause s"; cases "ds_state s") (auto simp: service_ok_def exit_told_def exit_result_locked_def split: option.splits)

text \<open>The results that say \<open>NotStarted\<close> of a failed service are those of a service that had been started.\<close>

lemma failed_unstarted:
  assumes "dns_reachable xxh3 inet_pton w" "exit_told (dw_svc w) r" "ds_state (dw_svc w) = LcFailed" "ex_code r = EX_NotStarted"
  shows "\<exists>info. Inr info \<in> set (dw_starts w)"
proof -
  have k: "service_ok (dw_svc w)" using service_reachable [OF assms(1)] by (simp add: service_inv_def)
  have "ds_startup_error (dw_svc w) = None" "ds_fatal_error (dw_svc w) = None"
    using assms(2-4) by (auto simp: exit_told_def split: option.splits)
  then have "ds_stop_cause (dw_svc w) = CauseNone"
    using k assms(3) by (cases "ds_stop_cause (dw_svc w)") (auto simp: service_ok_def)
  then show ?thesis using start_recorded_reachable [OF assms(1)] assms(3) by (simp add: start_recorded_def)
qed

lemma exit_step:
  assumes step: "dns_step xxh3 inet_pton w w'" and e: "dw_exits w' = dw_exits w @ [r]" and i: "service_inv w" "stop_told w"
  shows "exit_told (dw_svc w') r"
proof -
  have k: "service_ok (dw_svc w)" "service_ok (dw_svc w')" using service_step [OF step i] i(1) by (auto simp: service_inv_def)
  show ?thesis
    using step
  proof cases
    case client_moves
    then show ?thesis
    proof cases
      case k_wait_empty
      then show ?thesis using e exit_told_locked [OF k(1)] by simp
    qed (use e in simp_all)
  next
    case start_moves
    then show ?thesis by cases (use e in \<open>simp_all split: if_splits\<close>)
  next
    case teardown_moves
    then show ?thesis
    proof cases
      case (t_over k a)
      then show ?thesis using e exit_told_locked [OF k(1)]
        by (auto simp: teardown_done_def teardown_over_def split: option.splits)
    next
      case (t_commit k a x s)
      have "ds_state s \<in> {LcStopped, LcFailed}" "x = exit_result_locked s"
        using t_commit(4) by (auto simp: teardown_commit_def Let_def split: if_splits)
      moreover have "dw_svc w' = s" using t_commit(1) by (simp add: teardown_done_def split: option.splits)
      moreover have "x = r" using e t_commit(1) by (auto simp: teardown_done_def split: option.splits)
      ultimately show ?thesis using exit_told_locked [OF k(2)] by auto
    next
      case (t_incomplete k a x s)
      then show ?thesis using e
        by (auto simp: teardown_done_def teardown_incomplete_def exit_told_def Let_def split: option.splits)
    qed (use e in \<open>simp_all add: teardown_done_def\<close>)
  next
    case role_moves
    then show ?thesis by cases (use e in \<open>simp_all split: if_splits\<close>)
  next
    case part_moves
    then show ?thesis by cases (use e in simp_all)
  qed
qed

section \<open>The lifecycle of the service\<close>

lemma dns_reachable_steps: "(dns_step xxh3 inet_pton)\<^sup>*\<^sup>* w w' \<Longrightarrow> dns_reachable xxh3 inet_pton w \<Longrightarrow> dns_reachable xxh3 inet_pton w'"
  by (induction rule: rtranclp_induct) (auto intro: dns_then)

lemma service_moves_steps:
  assumes "(dns_step xxh3 inet_pton)\<^sup>*\<^sup>* w w'" "dns_reachable xxh3 inet_pton w"
  shows "service_moves (dw_svc w) (dw_svc w')"
  using assms
proof (induction rule: rtranclp_induct)
  case (step w1 w2)
  then have "dns_reachable xxh3 inet_pton w1" using dns_reachable_steps by blast
  then have "service_moves (dw_svc w1) (dw_svc w2)" using service_step [OF step(2)] service_reachable by blast
  then show ?case using step service_moves_trans by blast
qed simp

text \<open>
  C6. Invariant: the lifecycle only goes forward.  However the callers of \<open>init\<close>, \<open>start\<close>, \<open>request_stop\<close>, \<open>join\<close>, \<open>wait\<close> and
  \<open>replace_blocked_domains\<close>, the three role threads, the workers and the teardown interleave, the service passes through its states in
  order and never returns to an earlier one, \<open>Stopped\<close> and \<open>Failed\<close> are final, and the first reason for the end is never
  overwritten.  In every state: an active service has no reason to stop and knows its port; updates are admitted only while it is
  active; it is reported as healthy or with workers available only while it is active; \<open>Stopped\<close> means that a caller asked for it,
  \<open>Failed\<close> that none did; and the error that is kept is that of the reason.
\<close>

theorem lifecycle_only_forward:
  assumes "dns_reachable xxh3 inet_pton w" and "(dns_step xxh3 inet_pton)\<^sup>*\<^sup>* w w'"
  defines "s \<equiv> dw_svc w" and "s' \<equiv> dw_svc w'"
  shows "lifecycle_rank (ds_state s) \<le> lifecycle_rank (ds_state s')
    \<and> (ds_state s \<in> {LcStopped, LcFailed} \<longrightarrow> ds_state s' = ds_state s)
    \<and> (ds_stop_cause s \<noteq> CauseNone \<longrightarrow> exit_result_locked s' = exit_result_locked s)
    \<and> (ds_state s = LcActive \<longrightarrow> ds_stop_cause s = CauseNone \<and> bound_port s \<noteq> None)
    \<and> (ds_admission_open s \<longrightarrow> ds_state s = LcActive \<and> rt_runtime_updates_enabled (ds_config s))
    \<and> (\<not> is_running s \<longrightarrow> dh_state (health s) = Unavailable \<and> dh_available_workers (health s) = 0)
    \<and> (ds_state s = LcStopped \<longrightarrow> ds_stop_cause s = CauseExplicit) \<and> (ds_state s = LcFailed \<longrightarrow> ds_stop_cause s \<noteq> CauseExplicit)
    \<and> (ds_startup_error s \<noteq> None \<longleftrightarrow> ds_stop_cause s = CauseStartupFailure) \<and> (ds_fatal_error s \<noteq> None \<longleftrightarrow> ds_stop_cause s = CauseFatal)"
proof -
  have m: "service_moves s s'" unfolding s_def s'_def by (rule service_moves_steps [OF assms(2,1)])
  have k: "service_ok s" using service_reachable [OF assms(1)] by (simp add: service_inv_def s_def)
  have p: "ds_state s = LcActive \<Longrightarrow> port_of s \<noteq> None" using port_reachable [OF assms(1)] by (simp add: port_ok_def s_def)
  have "exit_result_locked s' = exit_result_locked s" if "ds_stop_cause s \<noteq> CauseNone"
    using m that by (cases "ds_stop_cause s") (simp_all add: service_moves_def exit_result_locked_def)
  moreover have "lifecycle_rank (ds_state s) \<le> lifecycle_rank (ds_state s')" "ds_state s \<in> {LcStopped, LcFailed} \<longrightarrow> ds_state s' = ds_state s"
    using m by (auto simp: service_moves_def)
  ultimately show ?thesis
    using k p by (simp add: service_ok_def is_running_def health_def bound_port_def)
qed

text \<open>
  C7. Functional: the callers are told the truth, and it stays true.  If a call of \<open>start\<close> succeeded, the service became
  active on the port that the call returned, and this is the port it reports from then on.  If a call of \<open>start\<close>
  failed, then it was refused because the service was not just initialized, or the service never became active and is on its way down or
  has ended: the call returned \<open>Cancelled\<close> if somebody asked for the stop first, and otherwise the first error of the startup.
  A call of \<open>join\<close> or \<open>wait\<close> returns in the moment in which what it says is true: \<open>NotStarted\<close> of a service that is empty or
  only initialized, \<open>TeardownIncomplete\<close> with the recorded errors of one that is still stopping, \<open>ExplicitStop\<close> of a stopped one,
  \<open>StartupFailure\<close> or \<open>Fatal\<close> with the recorded error of a failed one; it never returns while the service is starting or
  active.  One exception is part of the statement: a failed service with no recorded error is reported as \<open>NotStarted\<close>
  although a start had succeeded; this is the service that an early \<open>wait\<close> or \<open>join\<close> took down.  A result with a reason stays
  the result of the service for ever.
\<close>

theorem callers_told_the_truth:
  assumes "dns_reachable xxh3 inet_pton w"
  shows "(\<forall>info. Inr info \<in> set (dw_starts w) \<longrightarrow>
        ds_state (dw_svc w) \<in> {LcActive, LcStopping, LcStopped, LcFailed} \<and> bound_port (dw_svc w) = Some (di_bound_port info))
    \<and> (\<forall>e. Inl e \<in> set (dw_starts w) \<longrightarrow> de_code e = DE_InvalidLifecycleState
         \<or> ds_state (dw_svc w) \<in> {LcStopping, LcStopped, LcFailed} \<and> bound_port (dw_svc w) = None
            \<and> (ds_stop_cause (dw_svc w) = CauseExplicit \<and> de_code e = DE_Cancelled
               \<or> ds_stop_cause (dw_svc w) = CauseStartupFailure \<and> ds_startup_error (dw_svc w) = Some e))
    \<and> (\<forall>w' r. dns_step xxh3 inet_pton w w' \<and> dw_exits w' = dw_exits w @ [r] \<longrightarrow> exit_told (dw_svc w') r
         \<and> (ds_state (dw_svc w') = LcFailed \<and> ex_code r = EX_NotStarted \<longrightarrow> (\<exists>info. Inr info \<in> set (dw_starts w'))))
    \<and> (\<forall>r. r \<in> set (dw_exits w) \<longrightarrow> ex_code r = EX_NotStarted \<or> ex_code r = EX_TeardownIncomplete \<or> r = exit_result_locked (dw_svc w))"
proof -
  have rank: "lifecycle_rank x \<ge> 3 \<longleftrightarrow> x \<in> {LcActive, LcStopping, LcStopped, LcFailed}" "lifecycle_rank x \<ge> 4 \<longleftrightarrow> x \<in> {LcStopping, LcStopped, LcFailed}" for x
    by (cases x; simp)+
  have "start_reported (dw_svc w) r" if "r \<in> set (dw_starts w)" for r
    using reported_reachable [OF assms] that by (simp add: reported_def list_all_iff)
  note r = this [unfolded start_reported_def rank, folded bound_port_def]
  have c: "de_code (make_start_error code role n) = code" for code role n by (simp add: make_start_error_def)
  have "de_code e = DE_InvalidLifecycleState \<or> ds_state (dw_svc w) \<in> {LcStopping, LcStopped, LcFailed} \<and> bound_port (dw_svc w) = None
      \<and> (ds_stop_cause (dw_svc w) = CauseExplicit \<and> de_code e = DE_Cancelled
        \<or> ds_stop_cause (dw_svc w) = CauseStartupFailure \<and> ds_startup_error (dw_svc w) = Some e)" if "Inl e \<in> set (dw_starts w)" for e
    using r [OF that] c unfolding cancelled_start_error_def sum.case by metis
  moreover have "ds_state (dw_svc w) \<in> {LcActive, LcStopping, LcStopped, LcFailed} \<and> bound_port (dw_svc w) = Some (di_bound_port info)"
    if "Inr info \<in> set (dw_starts w)" for info
    using r [OF that] by simp
  moreover have "exit_reported (dw_svc w) r" if "r \<in> set (dw_exits w)" for r
    using reported_reachable [OF assms] that by (simp add: reported_def list_all_iff)
  moreover have "exit_told (dw_svc w') r
      \<and> (ds_state (dw_svc w') = LcFailed \<and> ex_code r = EX_NotStarted \<longrightarrow> (\<exists>info. Inr info \<in> set (dw_starts w')))"
    if "dns_step xxh3 inet_pton w w' \<and> dw_exits w' = dw_exits w @ [r]" for w' r
    using that exit_step service_reachable [OF assms] failed_unstarted [OF dns_then [OF assms]] by blast
  ultimately show ?thesis unfolding exit_reported_def by blast
qed

section \<open>The owners\<close>

text \<open>From its initialization to its end the service owns the controller, the cache, the publication and the injected faults.\<close>

definition owners_ok :: "dns_service \<Rightarrow> bool" where
  "owners_ok s \<longleftrightarrow> (ds_state s \<in> {LcInitialized, LcStarting, LcActive, LcStopping}
     \<longrightarrow> ds_filter_updates s \<and> ds_cache s \<noteq> None \<and> ds_control s \<and> ds_faults s \<noteq> None)"

lemma owners_simple [simp]:
  "owners_ok s \<Longrightarrow> owners_ok (init_failed s)" "owners_ok (init_commit c p cache s)" "owners_ok s \<Longrightarrow> owners_ok (runtime_stop_begin s)"
  "owners_ok s \<Longrightarrow> owners_ok (health_reporter h s)" "owners_ok s \<Longrightarrow> owners_ok (replace_completed r s)"
  "owners_ok s \<Longrightarrow> owners_ok (set_handle t b s)" "owners_ok s \<Longrightarrow> owners_ok (reach_startup_pause s)"
  "owners_ok s \<Longrightarrow> owners_ok (s\<lparr>ds_supervisor := x\<rparr>)"
  by (cases t; auto simp: owners_ok_def init_failed_def init_commit_def runtime_stop_begin_def health_reporter_def on_dns_health_def
      replace_completed_def reach_startup_pause_def on_faults_def Let_def split: sum.splits option.splits)+

lemma owners_fail: "owners_ok s \<Longrightarrow> service_ok s \<Longrightarrow> ds_state s \<in> {LcStarting, LcStopping} \<Longrightarrow> owners_ok (fail_start_mark e s)"
  by (auto simp: owners_ok_def fail_start_mark_def Let_def)

lemma owners_sections:
  assumes "owners_ok s"
  shows "injects s s' \<Longrightarrow> owners_ok s'" "init_begin s = (b, s') \<Longrightarrow> owners_ok s'" "request_stop_locked s = (a, s') \<Longrightarrow> owners_ok s'"
    "accept_fatal_locked e s = (b, s') \<Longrightarrow> owners_ok s'" "role_exited token attempt e0 f s = (b, s') \<Longrightarrow> owners_ok s'"
    "start_begin s = (None, s') \<Longrightarrow> owners_ok s'" "start_commit at info v c sv s = (b, e1, sv', s') \<Longrightarrow> owners_ok s'"
    "teardown_commit v s = (r, s') \<Longrightarrow> owners_ok s'"
proof -
  have i: "owners_ok s \<Longrightarrow> owners_ok (on_faults f s)" for f s by (auto simp: owners_ok_def on_faults_def)
  show "injects s s' \<Longrightarrow> owners_ok s'"
    using assms by (elim injects.cases; simp add: i inject_coordinator_thread_failure_def inject_coordinator_init_failure_def
      inject_reclaimer_thread_failure_def inject_reclaimer_init_failure_def inject_supervisor_thread_failure_def
      inject_worker_create_failure_def inject_worker_runtime_init_failure_def inject_worker_thread_failure_def arm_startup_pause_def
      release_startup_pause_def on_hooks_def)
  show f: "accept_fatal_locked e s = (b, s') \<Longrightarrow> owners_ok s'" for e b s'
    using assms by (auto simp: owners_ok_def accept_fatal_locked_def split: if_splits)
  show "role_exited token attempt e0 f s = (b, s') \<Longrightarrow> owners_ok s'"
    using f [of f b s'] assms by (auto simp: owners_ok_def role_exited_def split: if_splits)
  show "init_begin s = (b, s') \<Longrightarrow> owners_ok s'" using assms by (auto simp: owners_ok_def init_begin_def split: if_splits)
  show "request_stop_locked s = (a, s') \<Longrightarrow> owners_ok s'"
    using assms by (cases "ds_state s") (auto simp: owners_ok_def request_stop_locked_def)
  show "start_begin s = (None, s') \<Longrightarrow> owners_ok s'" using assms by (auto simp: owners_ok_def start_begin_def split: if_splits)
  show "teardown_commit v s = (r, s') \<Longrightarrow> owners_ok s'" by (cases "ds_stop_cause s") (auto simp: owners_ok_def teardown_commit_def Let_def)
  show "start_commit at info v c sv s = (b, e1, sv', s') \<Longrightarrow> owners_ok s'"
    using assms by (cases "ds_state s") (auto simp: owners_ok_def start_commit_def commit_startup_def still_starting_def Let_def
      split: if_splits prod.splits sum.splits)
qed

lemma owners_incomplete:
  "owners_ok s \<Longrightarrow> teardown_incomplete s = (r, s') \<Longrightarrow> ds_state s \<in> {LcActive, LcStopping} \<Longrightarrow> owners_ok s'"
  by (auto simp: owners_ok_def teardown_incomplete_def Let_def)

lemma owners_step:
  assumes step: "dns_step xxh3 inet_pton w w'" and o: "owners_ok (dw_svc w)" and i: "service_inv w"
  shows "owners_ok (dw_svc w')"
proof -
  note S = owners_sections [OF o]
  note O = service_invD(2) [OF i]
  show ?thesis
    using step
  proof cases
    case client_moves
    then show ?thesis by cases (use o in \<open>auto intro: S\<close>)
  next
    case start_moves
    then show ?thesis
    proof cases
      case (o_fail e)
      then show ?thesis using owners_fail [OF o service_invD(1) [OF i]] O by auto
    qed (use o in \<open>auto intro: S split: if_splits\<close>)
  next
    case teardown_moves
    then show ?thesis
    proof cases
      case (t_incomplete k a r s)
      then show ?thesis using owners_incomplete [OF o] O by (auto simp: teardown_done_def split: option.splits)
    qed (use o in \<open>auto intro: S simp: teardown_done_def simp del: set_handle.simps split: option.splits\<close>)
  next
    case role_moves
    then show ?thesis
      by cases (use o in \<open>auto intro: S simp: reclaimer_exited_def coordinator_exited_def supervisor_exited_def\<close>)
  next
    case part_moves
    then show ?thesis by cases (use o in \<open>auto intro: S\<close>)
  qed
qed

lemma owners_reachable:
  assumes "dns_reachable xxh3 inet_pton w"
  shows "owners_ok (dw_svc w)"
  using assms
proof induction
  case (dns_new w)
  then show ?case by (simp add: dns_initial_def owners_ok_def new_dns_def)
next
  case (dns_then w w')
  then show ?case using owners_step service_reachable by blast
qed

end
