(* ===== verification/ServiceThreads.thy ===== *)
theory ServiceThreads
  imports ServiceLifecycle
begin

text \<open>
  The threads of the service and their handles: a thread that runs is owned by a handle or by the thread that joins it, and
  each point of the teardown knows which threads are gone.
\<close>

section \<open>Threads and their handles\<close>

fun role_none :: "control_thread \<Rightarrow> dns_world \<Rightarrow> bool" where
  "role_none CoordinatorThread w \<longleftrightarrow> dw_coordinator w = CoNone"
| "role_none ReclaimerThread w \<longleftrightarrow> dw_reclaimer w = ReNone"
| "role_none SupervisorThread w \<longleftrightarrow> dw_supervisor w = SuNone"

text \<open>The thread was never created, or its function has returned.\<close>

fun role_over :: "control_thread \<Rightarrow> dns_world \<Rightarrow> bool" where
  "role_over CoordinatorThread w \<longleftrightarrow> dw_coordinator w \<in> {CoNone, CoEnded}"
| "role_over ReclaimerThread w \<longleftrightarrow> dw_reclaimer w \<in> {ReNone, ReEnded}"
| "role_over SupervisorThread w \<longleftrightarrow> dw_supervisor w \<in> {SuNone, SuEnded}"

fun handle :: "control_thread \<Rightarrow> dns_service \<Rightarrow> bool" where
  "handle CoordinatorThread s = ds_coordinator_thread s"
| "handle ReclaimerThread s = ds_reclaimer_thread s"
| "handle SupervisorThread s = ds_supervisor_thread s"

text \<open>The owner has the handle in a local variable.\<close>

fun holds_thread :: "owner_pc \<Rightarrow> control_thread \<Rightarrow> bool" where
  "holds_thread (OwStores t') t \<longleftrightarrow> t' = t"
| "holds_thread (OwTears k a TdJoinsSupervisor) t \<longleftrightarrow> t = SupervisorThread"
| "holds_thread (OwTears k a TdJoinsCoordinator) t \<longleftrightarrow> t = CoordinatorThread"
| "holds_thread (OwTears k a (TdJoinsFailed site)) t \<longleftrightarrow> t = ReclaimerThread"
| "holds_thread (OwTears k a TdJoinsReclaimer) t \<longleftrightarrow> t = ReclaimerThread"
| "holds_thread pc t \<longleftrightarrow> False"

fun past_supervisor :: "teardown_pc \<Rightarrow> bool" where
  "past_supervisor TdBegins = False"
| "past_supervisor TdStops = False"
| "past_supervisor TdTakesSupervisor = False"
| "past_supervisor TdJoinsSupervisor = False"
| "past_supervisor TdIncomplete = False"
| "past_supervisor td = True"

fun past_look :: "teardown_pc \<Rightarrow> bool" where
  "past_look TdEmergency = False"
| "past_look TdEmergencyRuns = False"
| "past_look TdLooks = False"
| "past_look td = past_supervisor td"

fun past_coordinator :: "teardown_pc \<Rightarrow> bool" where
  "past_coordinator (TdTakesFailed site) \<longleftrightarrow> site = AtSuccessor"
| "past_coordinator (TdJoinsFailed site) \<longleftrightarrow> site = AtSuccessor"
| "past_coordinator (TdReclaims site) \<longleftrightarrow> site = AtSuccessor"
| "past_coordinator (TdSuccessor site) = True"
| "past_coordinator (TdSuccessorWaits site) = True"
| "past_coordinator TdSealsPublication = True"
| "past_coordinator TdDetachesTerminal = True"
| "past_coordinator TdShuts = True"
| "past_coordinator TdTakesReclaimer = True"
| "past_coordinator TdJoinsReclaimer = True"
| "past_coordinator TdLastReclaim = True"
| "past_coordinator TdCommits = True"
| "past_coordinator td = False"

fun past_reclaimer :: "teardown_pc \<Rightarrow> bool" where
  "past_reclaimer (TdReclaims site) = True"
| "past_reclaimer TdLastReclaim = True"
| "past_reclaimer (TdSuccessor site) \<longleftrightarrow> site \<noteq> FirstSuccessor"
| "past_reclaimer (TdSuccessorWaits site) \<longleftrightarrow> site \<noteq> FirstSuccessor"
| "past_reclaimer TdCommits = True"
| "past_reclaimer td = False"

text \<open>The owner knows that the thread is gone.\<close>

fun thread_gone :: "owner_pc \<Rightarrow> control_thread \<Rightarrow> bool" where
  "thread_gone (OwTears k a td) SupervisorThread = past_supervisor td"
| "thread_gone (OwTears k a td) CoordinatorThread = past_coordinator td"
| "thread_gone (OwTears k a td) ReclaimerThread \<longleftrightarrow> past_look td \<and> \<not> a"
| "thread_gone pc t = False"

fun unspawned :: "owner_pc \<Rightarrow> control_thread \<Rightarrow> bool" where
  "unspawned OwCreates t = True"
| "unspawned (OwSpawns t') t \<longleftrightarrow> (case t' of ReclaimerThread \<Rightarrow> True | CoordinatorThread \<Rightarrow> t \<noteq> ReclaimerThread | SupervisorThread \<Rightarrow> t = SupervisorThread)"
| "unspawned (OwStores t') t \<longleftrightarrow> (case t' of ReclaimerThread \<Rightarrow> t \<noteq> ReclaimerThread | CoordinatorThread \<Rightarrow> t = SupervisorThread | SupervisorThread \<Rightarrow> False)"
| "unspawned pc t = False"

definition owner_shape :: "owner_pc \<Rightarrow> bool" where
  "owner_shape pc \<longleftrightarrow> (\<forall>k a td. pc = OwTears k a td \<longrightarrow> past_reclaimer td \<longrightarrow> \<not> a)"

definition caller_ok :: "dns_world \<Rightarrow> bool" where
  "caller_ok w \<longleftrightarrow>
     (case dw_stop w of
        Some (ByCoordinator, st) \<Rightarrow> dw_coordinator w = CoStops
      | Some (ByReclaimer, st) \<Rightarrow> dw_reclaimer w = ReStops
      | Some (BySupervisor, st) \<Rightarrow> dw_supervisor w = SuStops
      | Some (ByCallback, st) \<Rightarrow> dw_callback w = CbStops
      | Some (ByOwner, st) \<Rightarrow> (\<exists>e. dw_owner w = OwFailStops e) \<or> (\<exists>k a. dw_owner w = OwTears k a TdStops)
      | _ \<Rightarrow> True)"

definition thread_ok :: "dns_world \<Rightarrow> control_thread \<Rightarrow> bool" where
  "thread_ok w t \<longleftrightarrow> (\<not> role_over t w \<longrightarrow> handle t (dw_svc w) \<or> holds_thread (dw_owner w) t)
     \<and> (holds_thread (dw_owner w) t \<longrightarrow> \<not> handle t (dw_svc w))
     \<and> (thread_gone (dw_owner w) t \<longrightarrow> role_over t w \<and> \<not> handle t (dw_svc w))
     \<and> (unspawned (dw_owner w) t \<or> lifecycle_rank (ds_state (dw_svc w)) \<le> 1 \<longrightarrow> role_none t w \<and> \<not> handle t (dw_svc w))
     \<and> (lifecycle_rank (ds_state (dw_svc w)) = 5 \<longrightarrow> role_over t w \<and> \<not> handle t (dw_svc w))"

definition thread_inv :: "dns_world \<Rightarrow> bool" where
  "thread_inv w \<longleftrightarrow> (\<forall>t. thread_ok w t) \<and> owner_shape (dw_owner w) \<and> caller_ok w"

lemma role_none_over: "role_none t w \<Longrightarrow> role_over t w"
  by (cases t) auto

lemma thread_ok_quiet:
  assumes "thread_ok w t" "lifecycle_rank (ds_state (dw_svc w)) \<le> lifecycle_rank (ds_state (dw_svc w'))"
    "handle t (dw_svc w') = handle t (dw_svc w)" "role_over t w \<Longrightarrow> role_over t w'" "role_none t w \<Longrightarrow> role_none t w'"
    "holds_thread (dw_owner w') t = holds_thread (dw_owner w) t"
    "thread_gone (dw_owner w') t \<Longrightarrow> thread_gone (dw_owner w) t" "unspawned (dw_owner w') t \<Longrightarrow> unspawned (dw_owner w) t"
    "lifecycle_rank (ds_state (dw_svc w')) = 5 \<Longrightarrow> lifecycle_rank (ds_state (dw_svc w)) = 5
       \<or> lifecycle_rank (ds_state (dw_svc w)) = 1 \<or> thread_gone (dw_owner w) t"
  shows "thread_ok w' t"
proof -
  have r: "lifecycle_rank (ds_state (dw_svc w')) \<le> 1 \<Longrightarrow> lifecycle_rank (ds_state (dw_svc w)) \<le> 1" using assms(2) by simp
  have o: "\<not> role_over t w \<longrightarrow> handle t (dw_svc w) \<or> holds_thread (dw_owner w) t" "holds_thread (dw_owner w) t \<longrightarrow> \<not> handle t (dw_svc w)"
    "thread_gone (dw_owner w) t \<longrightarrow> role_over t w \<and> \<not> handle t (dw_svc w)"
    "unspawned (dw_owner w) t \<or> lifecycle_rank (ds_state (dw_svc w)) \<le> 1 \<longrightarrow> role_none t w \<and> \<not> handle t (dw_svc w)"
    "lifecycle_rank (ds_state (dw_svc w)) = 5 \<longrightarrow> role_over t w \<and> \<not> handle t (dw_svc w)"
    using assms(1) by (simp_all add: thread_ok_def)
  have "role_over t w \<and> \<not> handle t (dw_svc w)" if "lifecycle_rank (ds_state (dw_svc w')) = 5"
    using assms(9) [OF that] o role_none_over [of t w] by auto
  then show ?thesis
    unfolding thread_ok_def using assms(3-8) o r by blast
qed

lemma handle_sections:
  "injects s s' \<Longrightarrow> handle t s' = handle t s" "init_begin s = (b, s') \<Longrightarrow> handle t s' = handle t s"
  "request_stop_locked s = (a, s') \<Longrightarrow> handle t s' = handle t s" "accept_fatal_locked e s = (b, s') \<Longrightarrow> handle t s' = handle t s"
  "role_exited token attempt e0 f s = (b, s') \<Longrightarrow> handle t s' = handle t s"
  "teardown_incomplete s = (r, s') \<Longrightarrow> handle t s' = handle t s" "teardown_commit v s = (r, s') \<Longrightarrow> handle t s' = handle t s"
  "start_begin s = (x, s') \<Longrightarrow> handle t s' = handle t s"
  "start_commit at info v c sv s = (b, e1, sv', s') \<Longrightarrow> handle t s' = handle t s"
proof -
  have i: "handle t (on_faults f s) = handle t s" for f s by (cases t) (simp_all add: on_faults_def)
  show "injects s s' \<Longrightarrow> handle t s' = handle t s"
    by (erule injects.cases; simp add: i inject_coordinator_thread_failure_def inject_coordinator_init_failure_def
      inject_reclaimer_thread_failure_def inject_reclaimer_init_failure_def inject_supervisor_thread_failure_def
      inject_worker_create_failure_def inject_worker_runtime_init_failure_def inject_worker_thread_failure_def arm_startup_pause_def
      release_startup_pause_def on_hooks_def)
  show f: "accept_fatal_locked e s = (b, s') \<Longrightarrow> handle t s' = handle t s" for e b s'
    by (cases t; auto simp: accept_fatal_locked_def split: if_splits)
  show "role_exited token attempt e0 f s = (b, s') \<Longrightarrow> handle t s' = handle t s"
    using f [of f b s'] by (cases t; auto simp: role_exited_def split: if_splits)
  show "init_begin s = (b, s') \<Longrightarrow> handle t s' = handle t s" by (cases t; auto simp: init_begin_def split: if_splits)
  show "request_stop_locked s = (a, s') \<Longrightarrow> handle t s' = handle t s" by (cases t; auto simp: request_stop_locked_def split: if_splits)
  show "teardown_incomplete s = (r, s') \<Longrightarrow> handle t s' = handle t s" by (cases t; auto simp: teardown_incomplete_def Let_def)
  show "teardown_commit v s = (r, s') \<Longrightarrow> handle t s' = handle t s" by (cases t; auto simp: teardown_commit_def Let_def)
  show "start_begin s = (x, s') \<Longrightarrow> handle t s' = handle t s" by (cases t; auto simp: start_begin_def split: if_splits)
  show "start_commit at info v c sv s = (b, e1, sv', s') \<Longrightarrow> handle t s' = handle t s"
    by (cases t; auto simp: start_commit_def commit_startup_def Let_def split: if_splits prod.splits sum.splits)
qed

lemma handle_simple [simp]:
  "handle t (runtime_stop_begin s) = handle t s" "handle t (health_reporter h s) = handle t s" "handle t (replace_completed r s) = handle t s"
  "handle t (s\<lparr>ds_supervisor := x\<rparr>) = handle t s" "handle t (reach_startup_pause s) = handle t s" "handle t (init_failed s) = handle t s"
  "handle t (init_commit c p cache s) = handle t s" "handle t (fail_start_mark e s) = handle t s"
  "handle t (set_handle t' b s) = (if t = t' then b else handle t s)"
  by (cases t; cases t'; simp add: runtime_stop_begin_def health_reporter_def on_dns_health_def replace_completed_def Let_def
      reach_startup_pause_def on_faults_def init_failed_def init_commit_def fail_start_mark_def split: sum.splits option.splits)+

lemma state_simple [simp]:
  "ds_state (runtime_stop_begin s) = ds_state s" "ds_state (init_failed s) = ds_state s" "ds_state (init_commit c p cache s) = LcInitialized"
  "ds_state (set_handle t b s) = ds_state s" "ds_state (health_reporter h s) = ds_state s" "ds_state (replace_completed r s) = ds_state s"
  "ds_state (reach_startup_pause s) = ds_state s"
  by (cases t; simp add: runtime_stop_begin_def init_failed_def init_commit_def health_reporter_def on_dns_health_def replace_completed_def
      reach_startup_pause_def on_faults_def Let_def split: sum.splits option.splits)+

declare set_handle.simps [simp del]

lemma role_spawn [simp]:
  "role_over t (spawn_thread t' w) \<longleftrightarrow> t \<noteq> t' \<and> role_over t w" "role_none t (spawn_thread t' w) \<longleftrightarrow> t \<noteq> t' \<and> role_none t w"
  by (cases t; cases t'; simp)+

text \<open>Steps that create and end no thread.\<close>

definition same_roles :: "dns_world \<Rightarrow> dns_world \<Rightarrow> bool" where
  "same_roles w w' \<longleftrightarrow> dw_coordinator w' = dw_coordinator w \<and> dw_reclaimer w' = dw_reclaimer w \<and> dw_supervisor w' = dw_supervisor w"

lemma same_roles_eq: "same_roles w w' \<Longrightarrow> role_over t w' = role_over t w" "same_roles w w' \<Longrightarrow> role_none t w' = role_none t w"
  by (cases t; simp add: same_roles_def)+

lemma thread_inv_quiet:
  assumes i: "thread_inv w" and m: "service_moves (dw_svc w) (dw_svc w')" and o: "dw_owner w' = dw_owner w"
    and h: "\<And>t. handle t (dw_svc w') = handle t (dw_svc w)"
    and r: "\<And>t. role_over t w \<Longrightarrow> role_over t w'" "\<And>t. role_none t w \<Longrightarrow> role_none t w'"
    and e: "lifecycle_rank (ds_state (dw_svc w')) = 5 \<Longrightarrow> lifecycle_rank (ds_state (dw_svc w)) = 5 \<or> lifecycle_rank (ds_state (dw_svc w)) = 1"
    and c: "caller_ok w'"
  shows "thread_inv w'"
proof -
  have "thread_ok w' t" for t
    using i m o h r e by (intro thread_ok_quiet [of w t w']) (auto simp: thread_inv_def service_moves_def)
  then show ?thesis using i o c by (simp add: thread_inv_def)
qed

lemma rank_5_sections:
  "service_ok s \<Longrightarrow> request_stop_locked s = (a, s') \<Longrightarrow> lifecycle_rank (ds_state s') = 5 \<Longrightarrow> lifecycle_rank (ds_state s) = 5 \<or> lifecycle_rank (ds_state s) = 1"
  "same_service s s' \<Longrightarrow> ds_state s' = ds_state s"
  by (drule (1) service_stop; auto) (simp add: same_service_def)

lemma thread_client_step:
  assumes step: "client_step xxh3 inet_pton w w'" and i: "thread_inv w" and s: "service_inv w" "stop_told w"
  shows "thread_inv w'"
proof -
  note m = service_step [OF client_moves [OF step] s, THEN conjunct2]
  have c: "caller_ok w" using i by (simp add: thread_inv_def)
  have q: "thread_inv w'" if "dw_owner w' = dw_owner w" "\<And>t. handle t (dw_svc w') = handle t (dw_svc w)" "same_roles w w'"
    "lifecycle_rank (ds_state (dw_svc w')) = 5 \<Longrightarrow> lifecycle_rank (ds_state (dw_svc w)) = 5 \<or> lifecycle_rank (ds_state (dw_svc w)) = 1" "caller_ok w'"
    using that same_roles_eq [OF that(3)] by (intro thread_inv_quiet [OF i m]) auto
  show ?thesis
    using step
  proof cases
    case (k_init_begin s1 config)
    then show ?thesis
      using c handle_sections(2) [OF k_init_begin(3)] by (intro q) (auto simp: same_roles_def caller_ok_def init_begin_def split: if_splits)
  next
    case (k_stop a s1 joins)
    then show ?thesis
      using c handle_sections(3) [OF k_stop(3)] rank_5_sections(1) [OF service_invD(1) [OF s(1)] k_stop(3)]
      by (intro q) (auto simp: same_roles_def caller_ok_def)
  next
    case (k_inject s1)
    then show ?thesis
      using c handle_sections(1) [OF k_inject(2)] rank_5_sections(2) [OF injects_same [OF k_inject(2)]]
      by (intro q) (auto simp: same_roles_def caller_ok_def split: option.splits prod.splits stop_caller.splits)
  next
    case (k_replaced i' j r)
    then show ?thesis
      using c rank_5_sections(2) [OF same_services(4) [of "dw_svc w" r]] by (intro q) (auto simp: same_roles_def caller_ok_def)
  next
    case (k_join i')
    have "thread_ok w t \<Longrightarrow> thread_ok w' t" for t
      using k_join m by (intro thread_ok_quiet [of w t w']) (cases t; auto)+
    moreover have "caller_ok w'"
      using c k_join by (auto simp: caller_ok_def split: option.splits prod.splits stop_caller.splits)
    ultimately show ?thesis using i k_join(1) by (auto simp: thread_inv_def owner_shape_def)
  qed (use c in \<open>(intro q; auto simp: same_roles_def caller_ok_def)+\<close>)
qed

lemma thread_role_step:
  assumes step: "role_step builder w w'" and d: "dns_step xxh3 inet_pton w w'" and i: "thread_inv w" and s: "service_inv w" "stop_told w"
  shows "thread_inv w'"
proof -
  note m = service_step [OF d s, THEN conjunct2]
  have c: "caller_ok w" using i by (simp add: thread_inv_def)
  have e: "lifecycle_rank (ds_state s') = 5 \<Longrightarrow> lifecycle_rank (ds_state (dw_svc w)) = 5"
    if "role_exited token attempt e0 f (dw_svc w) = (b, s')" for token attempt e0 f b s'
    using service_role [OF service_invD(1) [OF s(1)] that] by auto
  have q: "thread_inv w'" if "dw_owner w' = dw_owner w" "\<And>t. handle t (dw_svc w') = handle t (dw_svc w)"
    "\<And>t. role_over t w \<Longrightarrow> role_over t w'" "\<And>t. role_none t w \<Longrightarrow> role_none t w'"
    "lifecycle_rank (ds_state (dw_svc w')) = 5 \<Longrightarrow> lifecycle_rank (ds_state (dw_svc w)) = 5" "caller_ok w'"
    using that by (intro thread_inv_quiet [OF i m]) auto
  have r: "role_over t w \<Longrightarrow> role_over t w'" "role_none t w \<Longrightarrow> role_none t w'" for t
    using step by (cases; cases t; simp split: if_splits reclaimer_round.splits)+
  have k: "caller_ok w'"
    using step c by (cases; auto simp: caller_ok_def split: option.splits prod.splits stop_caller.splits)
  show ?thesis
    using step
  proof cases
    case (a_exit b s1)
    then show ?thesis
      using handle_sections(5) e r k unfolding coordinator_exited_def by (intro q) auto
  next
    case (b_exit r1 b s1)
    then show ?thesis
      using handle_sections(5) e r k unfolding reclaimer_exited_def by (intro q) auto
  next
    case (c_exited r1 b s1)
    then show ?thesis
      using handle_sections(5) e r k unfolding supervisor_exited_def by (intro q) auto
  qed (use r k in \<open>(intro q; auto)+\<close>)
qed

lemma thread_part_step:
  assumes step: "part_step w w'" and d: "dns_step xxh3 inet_pton w w'" and i: "thread_inv w" and s: "service_inv w" "stop_told w"
  shows "thread_inv w'"
proof -
  note m = service_step [OF d s, THEN conjunct2]
  have c: "caller_ok w" using i by (simp add: thread_inv_def)
  have q: "thread_inv w'" if "dw_owner w' = dw_owner w" "\<And>t. handle t (dw_svc w') = handle t (dw_svc w)" "same_roles w w'"
    "lifecycle_rank (ds_state (dw_svc w')) = 5 \<Longrightarrow> lifecycle_rank (ds_state (dw_svc w)) = 5" "caller_ok w'"
    using that same_roles_eq [OF that(3)] by (intro thread_inv_quiet [OF i m]) auto
  show ?thesis
    using step
  proof cases
    case (p_fatal f b s1)
    then show ?thesis
      using c handle_sections(4) [OF p_fatal(4)] service_fatal [OF service_invD(1) [OF s(1)] p_fatal(4)]
      by (intro q) (auto simp: same_roles_def caller_ok_def)
  next
    case (s_thread x)
    have o: "holds_thread (owner_stopped pc) t = holds_thread pc t" "thread_gone (owner_stopped pc) t \<Longrightarrow> thread_gone pc t"
      "unspawned (owner_stopped pc) t \<Longrightarrow> unspawned pc t" "owner_shape pc \<Longrightarrow> owner_shape (owner_stopped pc)" for pc t
      by (induction pc rule: owner_stopped.induct; cases t; simp add: owner_shape_def)+
    have r: "role_over t w \<Longrightarrow> role_over t w'" "role_none t w \<Longrightarrow> role_none t w'" for t
      using s_thread c by (cases t; auto simp: resume_caller_def caller_ok_def split: stop_caller.splits)+
    have "dw_owner w' = dw_owner w \<or> dw_owner w' = owner_stopped (dw_owner w)" and v: "dw_svc w' = dw_svc w" using s_thread(1) by simp_all
    then have p: "holds_thread (dw_owner w') t = holds_thread (dw_owner w) t" "thread_gone (dw_owner w') t \<Longrightarrow> thread_gone (dw_owner w) t"
      "unspawned (dw_owner w') t \<Longrightarrow> unspawned (dw_owner w) t" "owner_shape (dw_owner w) \<Longrightarrow> owner_shape (dw_owner w')" for t
      using o by metis+
    have "thread_ok w t \<Longrightarrow> thread_ok w' t" for t
      using r p by (intro thread_ok_quiet [of w t w']) (simp_all add: v)
    moreover have "caller_ok w'" using s_thread(1) by (simp add: caller_ok_def)
    ultimately show ?thesis using i p(4) by (simp add: thread_inv_def)
  next
    case (s_seal x st)
    then show ?thesis
      using c by (intro q) (auto simp: same_roles_def caller_ok_def split: stop_caller.splits)
  next
    case (p_supervisor k a v)
    then show ?thesis
      using c by (intro q) (auto simp: same_roles_def caller_ok_def split: option.splits prod.splits stop_caller.splits)
  next
    case (p_worker j t v)
    then show ?thesis
      using c by (intro q) (auto simp: same_roles_def caller_ok_def split: option.splits prod.splits stop_caller.splits)
  qed (use c in \<open>intro q; auto simp: same_roles_def caller_ok_def split: option.splits prod.splits stop_caller.splits\<close>)+
qed

lemma thread_okD:
  assumes "thread_inv w"
  shows "\<not> role_over t w \<Longrightarrow> handle t (dw_svc w) \<or> holds_thread (dw_owner w) t"
    "thread_gone (dw_owner w) t \<Longrightarrow> role_over t w \<and> \<not> handle t (dw_svc w)"
    "unspawned (dw_owner w) t \<or> lifecycle_rank (ds_state (dw_svc w)) \<le> 1 \<Longrightarrow> role_none t w \<and> \<not> handle t (dw_svc w)"
    "lifecycle_rank (ds_state (dw_svc w)) = 5 \<Longrightarrow> role_over t w \<and> \<not> handle t (dw_svc w)"
    "holds_thread (dw_owner w) t \<Longrightarrow> \<not> handle t (dw_svc w)"
  using assms by (auto simp: thread_inv_def thread_ok_def)

lemma after_store_pcs:
  "unspawned (after_store t' s) t \<Longrightarrow> unspawned (OwStores t') t" "\<not> unspawned (after_store t' s) t'" "\<not> thread_gone (after_store t' s) t"
  "owner_shape (after_store t' s)" "\<not> holds_thread (after_store t' s) t"
  by (cases t'; cases t; auto simp: after_store_def owner_shape_def split: if_splits)+

lemma thread_start_step:
  assumes step: "start_step w w'" and d: "dns_step xxh3 inet_pton w w'" and i: "thread_inv w" and s: "service_inv w" "stop_told w"
  shows "thread_inv w'"
proof -
  note m = service_step [OF d s, THEN conjunct2]
  note o = service_invD(2) [OF s(1)]
  have c: "caller_ok w" using i by (simp add: thread_inv_def)
  have k: "caller_ok w'"
    using step
  proof cases
    case (o_spawn t')
    have "role_none t' w" using thread_okD(3) [OF i, of t'] o_spawn by (cases t') auto
    then show ?thesis
      using o_spawn c by (cases t') (auto simp: caller_ok_def split: option.splits prod.splits stop_caller.splits)
  qed (use c in \<open>auto simp: caller_ok_def split: option.splits prod.splits stop_caller.splits\<close>)
  have q: "thread_inv w'" if "\<And>t. thread_ok w' t" "owner_shape (dw_owner w')"
    using that k by (simp add: thread_inv_def)
  have n: "thread_ok w' t" if "same_roles w w'" "\<And>t. handle t (dw_svc w') = handle t (dw_svc w)" "\<And>t. \<not> holds_thread (dw_owner w) t \<and> \<not> holds_thread (dw_owner w') t"
    "\<And>t. \<not> thread_gone (dw_owner w') t" "\<And>t. unspawned (dw_owner w') t \<Longrightarrow> unspawned (dw_owner w) t"
    "lifecycle_rank (ds_state (dw_svc w')) = 5 \<Longrightarrow> lifecycle_rank (ds_state (dw_svc w)) = 5" for t
    using that m i same_roles_eq [OF that(1)] by (intro thread_ok_quiet [of w t w']) (auto simp: thread_inv_def service_moves_def)
  show ?thesis
    using step
  proof cases
    case (o_begin s1)
    have r: "lifecycle_rank (ds_state (dw_svc w)) \<le> 1" "lifecycle_rank (ds_state s1) = 2"
      using service_start [OF service_invD(1) [OF s(1)] o_begin(4)] by auto
    have "role_none t w \<and> \<not> handle t s1" for t
      using thread_okD(3) [OF i, of t] r handle_sections(8) [OF o_begin(4)] by simp
    moreover have "same_roles w w'" using o_begin(1) by (simp add: same_roles_def)
    ultimately have "thread_ok w' t" for t
      using o_begin(1) r same_roles_eq [of w w' t] role_none_over [of t w] by (auto simp: thread_ok_def)
    then show ?thesis using o_begin(1) by (intro q) (auto simp: owner_shape_def)
  next
    case (o_create sv p)
    have "unspawned (after_supervisor s1) t \<Longrightarrow> True" "\<not> thread_gone (after_supervisor s1) t" "\<not> holds_thread (after_supervisor s1) t" "owner_shape (after_supervisor s1)" for s1 t
      by (cases t; simp add: after_supervisor_def owner_shape_def)+
    then show ?thesis using o_create by (intro q n) (auto simp: same_roles_def)
  next
    case (o_spawn t')
    have "role_none t' w \<and> \<not> handle t' (dw_svc w)" using thread_okD(3) [OF i, of t'] o_spawn by (cases t') auto
    moreover have "lifecycle_rank (ds_state (dw_svc w)) \<noteq> 5" "lifecycle_rank (ds_state (dw_svc w)) > 1" using o o_spawn(2) by auto
    ultimately have "thread_ok w' t" for t
      using o_spawn thread_okD [OF i, of t] role_none_over [of t w]
      by (cases "t = t'"; cases t; cases t'; auto simp: thread_ok_def)
    then show ?thesis using o_spawn(1) by (intro q) (auto simp: owner_shape_def)
  next
    case (o_store t')
    have r: "lifecycle_rank (ds_state (dw_svc w)) \<noteq> 5" "lifecycle_rank (ds_state (dw_svc w)) > 1" using o o_store(2) by auto
    note a = after_store_pcs [of t']
    have "same_roles w w'" using o_store(1) by (simp add: same_roles_def)
    note e = same_roles_eq [OF this]
    have v: "ds_state (dw_svc w') = ds_state (dw_svc w)" "handle t (dw_svc w') \<longleftrightarrow> t = t' \<or> handle t (dw_svc w)" for t
      using o_store(1) by auto
    have ow: "dw_owner w' = after_store t' (dw_svc w)" using o_store(1) by simp
    have "thread_ok w' t" for t
    proof (cases "t = t'")
      case True
      then show ?thesis using r a(2,3,5) o_store(1) by (simp add: thread_ok_def v)
    next
      case False
      then show ?thesis
        using r a(1,3,5) [of "dw_svc w" t] thread_okD(1,3) [OF i, of t] o_store(2) unfolding thread_ok_def v e ow by auto
    qed
    then show ?thesis using o_store(1) a(4) by (intro q) auto
  next
    case (o_commit info e sv s1)
    then show ?thesis
      using handle_sections(9) [OF o_commit(5)] service_commit [OF service_invD(1) [OF s(1)] o_commit(5)]
      by (intro q n) (auto simp: same_roles_def owner_shape_def)
  next
    case (o_commit_failed info e sv s1)
    then show ?thesis
      using handle_sections(9) [OF o_commit_failed(5)] service_commit [OF service_invD(1) [OF s(1)] o_commit_failed(5)]
      by (intro q n) (auto simp: same_roles_def owner_shape_def)
  next
    case (o_fail e)
    then show ?thesis
      using service_fail [OF service_invD(1) [OF s(1)], of e] o by (intro q n) (auto simp: same_roles_def owner_shape_def)
  qed (intro q n; auto simp: same_roles_def owner_shape_def split: option.splits sum.splits if_splits)+
qed

text \<open>The teardown takes a handle, waits for the thread, and puts the handle back if the wait throws.\<close>

lemma thread_gone_tears:
  "thread_gone (OwTears k a td) t \<longleftrightarrow> (case t of SupervisorThread \<Rightarrow> past_supervisor td | CoordinatorThread \<Rightarrow> past_coordinator td
     | ReclaimerThread \<Rightarrow> past_look td \<and> \<not> a)"
  by (cases t) simp_all

lemma past_pcs [simp]:
  "past_supervisor (after_reclaim site)" "past_look (after_reclaim site)" "past_coordinator (after_reclaim site) \<longleftrightarrow> site = AtSuccessor"
  "past_look (after_successor ss a r) \<longleftrightarrow> past_supervisor (after_successor ss a r)"
  "past_coordinator (after_successor ss a r) \<longleftrightarrow> past_supervisor (after_successor ss a r)"
  "past_supervisor (next_seal st TdRequestsDetach TdSeals)" "past_look (next_seal st TdRequestsDetach TdSeals)"
  "\<not> past_coordinator (next_seal st TdRequestsDetach TdSeals)" "\<not> past_reclaimer (next_seal st TdRequestsDetach TdSeals)"
  "\<not> holds_thread (OwTears k a (next_seal st TdRequestsDetach TdSeals)) t" "\<not> holds_thread (OwTears k a (after_successor ss b r)) t"
  "\<not> holds_thread (OwTears k a (after_reclaim site)) t"
  by (cases site; cases st; simp add: after_successor_def)+

lemma past_reclaimer_after [simp]:
  "past_reclaimer (after_successor ss a r) \<Longrightarrow> ss = LastSuccessor" "past_reclaimer (after_reclaim site) \<Longrightarrow> site = AtSuccessor"
  by (auto simp: after_successor_def split: if_splits) (cases site; simp)

lemma thread_teardown_step:
  assumes step: "teardown_step w w'" and d: "dns_step xxh3 inet_pton w w'" and i: "thread_inv w" and s: "service_inv w" "stop_told w"
  shows "thread_inv w'"
proof -
  note m = service_step [OF d s, THEN conjunct2]
  note o = service_invD(2) [OF s(1)]
  have c: "caller_ok w" and h: "owner_shape (dw_owner w)" using i by (simp_all add: thread_inv_def)
  have k: "caller_ok w'"
    using step c by cases (auto simp: caller_ok_def teardown_done_def split: option.splits prod.splits stop_caller.splits)
  have r: "same_roles w w'"
    using step by cases (auto simp: same_roles_def teardown_done_def split: option.splits)
  have p: "owner_shape (dw_owner w')"
    using step h by cases (auto simp: owner_shape_def teardown_done_def split: option.splits sum.splits if_splits dest: past_reclaimer_after)
  have q: "thread_inv w'" if "\<And>t. thread_ok w' t" using that k p by (simp add: thread_inv_def)
  note e = same_roles_eq [OF r]
  have n: "thread_ok w' t" if "handle t (dw_svc w') = handle t (dw_svc w)" "ds_state (dw_svc w') = ds_state (dw_svc w)"
    "\<not> holds_thread (dw_owner w) t" "\<not> holds_thread (dw_owner w') t" "thread_gone (dw_owner w') t \<Longrightarrow> thread_gone (dw_owner w) t" "\<not> unspawned (dw_owner w') t" for t
    using that thread_okD [OF i, of t] by (auto simp: thread_ok_def e)
  have n2: "thread_ok w' t" if "\<not> role_over t w \<Longrightarrow> handle t (dw_svc w') \<or> holds_thread (dw_owner w') t"
    "thread_gone (dw_owner w') t \<Longrightarrow> role_over t w \<and> \<not> handle t (dw_svc w')" "\<not> unspawned (dw_owner w') t"
    "ds_state (dw_svc w') \<in> {LcActive, LcStopping}" "holds_thread (dw_owner w') t \<Longrightarrow> \<not> handle t (dw_svc w')" for t
    using that by (auto simp: thread_ok_def e)
  have "thread_ok w' t" for t
  proof -
    note D = thread_okD(1,2,5) [OF i, of t]
    show ?thesis
      using step
    proof cases
      case (t_over k a)
      then show ?thesis by (intro n) (cases t; auto simp: teardown_done_def split: option.splits)+
    next
      case (t_begin k a)
      then show ?thesis by (intro n) (cases t; auto)+
    next
      case (t_stop k a)
      then show ?thesis by (intro n) (cases t; auto)+
    next
      case (t_commit k a x s1)
      have "role_over t w \<and> \<not> handle t (dw_svc w)"
        using D(2) t_commit(2) h by (cases t) (auto simp: owner_shape_def)
      moreover have "lifecycle_rank (ds_state s1) = 5"
        using service_end [OF service_invD(1) [OF s(1)] t_commit(4)] o t_commit(2) by auto
      moreover have "\<not> thread_gone (dw_owner w') t" "\<not> unspawned (dw_owner w') t" "\<not> holds_thread (dw_owner w') t" "dw_svc w' = s1"
        using t_commit(1) by (auto simp: teardown_done_def split: option.splits)
      ultimately show ?thesis using handle_sections(7) [OF t_commit(4)] by (auto simp: thread_ok_def e)
    next
      case (t_incomplete k a x s1)
      have "ds_state s1 = LcStopping" using t_incomplete(4) by (auto simp: teardown_incomplete_def Let_def)
      moreover have "\<not> thread_gone (dw_owner w') t" "\<not> unspawned (dw_owner w') t" "\<not> holds_thread (dw_owner w') t" "dw_svc w' = s1"
        using t_incomplete(1) by (auto simp: teardown_done_def split: option.splits)
      ultimately show ?thesis
        using D(1) t_incomplete(2) handle_sections(6) [OF t_incomplete(4)] by (auto simp: thread_ok_def e)
    qed (use o D in \<open>(intro n2; cases t; auto split: if_splits sum.splits)+\<close>)
  qed
  then show ?thesis by (rule q)
qed

lemma thread_step:
  assumes "dns_step xxh3 inet_pton w w'" "thread_inv w" "service_inv w" "stop_told w"
  shows "thread_inv w'"
  using assms(1)
proof cases
  case client_moves
  then show ?thesis by (rule thread_client_step [OF _ assms(2-4)])
qed (use assms thread_start_step thread_teardown_step thread_role_step thread_part_step in blast)+

lemma thread_reachable:
  assumes "dns_reachable xxh3 inet_pton w"
  shows "thread_inv w"
  using assms
proof induction
  case (dns_new w)
  have "thread_ok w t" for t
    using dns_new by (cases t) (auto simp: dns_initial_def thread_ok_def new_dns_def)
  then show ?case using dns_new by (auto simp: dns_initial_def thread_inv_def owner_shape_def caller_ok_def)
next
  case (dns_then w w')
  then show ?case using thread_step service_reachable by blast
qed

section \<open>No thread is lost\<close>

text \<open>
  C8. Safety: no thread is lost.  In every state of every run, a coordinator, reclaimer or supervisor thread whose function has
  not returned is owned exactly once, by the member that holds its handle or by the call of \<open>start\<close>, \<open>join\<close> or \<open>wait\<close> that
  holds \<open>startup_mutex_\<close> and is just storing or joining it; a thread is never created twice.  Before \<open>start\<close> and once the service
  is \<open>Stopped\<close> or \<open>Failed\<close>, no such thread runs and no handle is left to join, whatever failed on the way down.
\<close>

theorem no_thread_is_lost:
  assumes "dns_reachable xxh3 inet_pton w"
  shows "(\<not> role_over t w \<longrightarrow> handle t (dw_svc w) \<noteq> holds_thread (dw_owner w) t)
    \<and> (dw_owner w = OwSpawns t \<longrightarrow> role_none t w)
    \<and> (ds_state (dw_svc w) \<notin> {LcStarting, LcActive, LcStopping} \<longrightarrow> role_over t w \<and> \<not> handle t (dw_svc w))"
proof -
  have "thread_ok w t" using thread_reachable [OF assms] by (simp add: thread_inv_def)
  note k = this [unfolded thread_ok_def]
  have "lifecycle_rank x \<le> 1 \<or> lifecycle_rank x = 5" if "x \<notin> {LcStarting, LcActive, LcStopping}" for x
    using that by (cases x) auto
  moreover have "unspawned (OwSpawns t) t" by (cases t) auto
  ultimately show ?thesis using k role_none_over [of t w] by fastforce
qed

end
