(* ===== verification/SupervisorLifecycle.thy ===== *)
theory SupervisorLifecycle
  imports WorkerSupervisor
begin

text \<open>
  The life of worker instances under the supervisor: \<open>lifecycle_at\<close> relates each record to the registration,
  the epoch and the snapshot of its worker at every point of the supervisor thread.  It shows that the
  supervisor and the workers call the publication as it requires, so that \<open>FilterPublication\<close> holds of the
  program that they form.
\<close>

section \<open>The workers and their epochs\<close>

text \<open>Snapshots are pairs that are never taken apart here.\<close>

declare split_paired_All [simp del] split_paired_Ex [simp del] not_None_eq [simp del]

lemma on_record_frame [simp]:
  "length (sv_records (on_record k f s)) = length (sv_records s)" "sv_config (on_record k f s) = sv_config s"
  "sv_stopped (on_record k f s) = sv_stopped s" "sv_startup (on_record k f s) = sv_startup s"
  "sv_activation (on_record k f s) = sv_activation s" "sv_data_plane_released (on_record k f s) = sv_data_plane_released s"
  "sv_stop_requested (on_record k f s) = sv_stop_requested s" "sv_service_stop (on_record k f s) = sv_service_stop s"
  "sv_run_active (on_record k f s) = sv_run_active s" "sv_run_started (on_record k f s) = sv_run_started s"
  "sv_unexpected_stop (on_record k f s) = sv_unexpected_stop s" "sv_abrupt_exit (on_record k f s) = sv_abrupt_exit s"
  "sv_activation_requested (on_record k f s) = sv_activation_requested s" "sv_join_failure (on_record k f s) = sv_join_failure s"
  "sv_bound_port (on_record k f s) = sv_bound_port s"
  by (simp_all add: on_record_def)

lemma on_health_frame [simp]:
  "sv_records (on_health f s) = sv_records s" "sv_config (on_health f s) = sv_config s"
  "sv_stopped (on_health f s) = sv_stopped s" "sv_startup (on_health f s) = sv_startup s"
  "sv_activation (on_health f s) = sv_activation s" "sv_data_plane_released (on_health f s) = sv_data_plane_released s"
  "sv_stop_requested (on_health f s) = sv_stop_requested s" "sv_service_stop (on_health f s) = sv_service_stop s"
  "sv_run_active (on_health f s) = sv_run_active s" "sv_run_started (on_health f s) = sv_run_started s"
  "sv_unexpected_stop (on_health f s) = sv_unexpected_stop s" "sv_abrupt_exit (on_health f s) = sv_abrupt_exit s"
  "sv_activation_requested (on_health f s) = sv_activation_requested s" "sv_join_failure (on_health f s) = sv_join_failure s"
  "sv_bound_port (on_health f s) = sv_bound_port s"
  by (simp_all add: on_health_def)

lemma rec_at_on_record [simp]:
  "k < length (sv_records s) \<Longrightarrow> rec_at (on_record k f s) j = (if j = k then f (rec_at s k) else rec_at s j)"
  by (simp add: on_record_def nth_list_update)

text \<open>Nothing of a worker is left: no instance, no thread, no registration.\<close>

definition clean :: "sup_world \<Rightarrow> nat \<Rightarrow> bool" where
  "clean w k \<longleftrightarrow> wr_instance (rec_at (sw_sup w) k) = None \<and> wr_thread (rec_at (sw_sup w) k) = None
     \<and> fp_registry (sw_publication w) ! k = None"

definition has_instance :: "sup_world \<Rightarrow> nat \<Rightarrow> bool" where
  "has_instance w k \<longleftrightarrow> wr_instance (rec_at (sw_sup w) k) \<noteq> None"

definition unstarted :: "sup_world \<Rightarrow> nat \<Rightarrow> bool" where
  "unstarted w k \<longleftrightarrow> has_instance w k \<and> wr_thread (rec_at (sw_sup w) k) = None"

definition holds_snapshot :: "sup_world \<Rightarrow> nat \<Rightarrow> bool" where
  "holds_snapshot w k \<longleftrightarrow> pw_locals (sw_pub w) ! k \<noteq> None"

abbreviation workers :: "sup_world \<Rightarrow> nat" where
  "workers w \<equiv> length (sv_records (sw_sup w))"

definition record_ok :: "sup_world \<Rightarrow> nat \<Rightarrow> bool" where
  "record_ok w k \<longleftrightarrow>
     (let r = rec_at (sw_sup w) k; e = sw_epochs w k in
      (\<forall>t. wr_thread r = Some t \<longrightarrow> wt_instance t = wr_instance_id r \<and> wr_instance r \<noteq> None)
      \<and> (wr_instance r \<noteq> None \<longrightarrow> fp_registry (sw_publication w) ! k = Some k \<and> holds_snapshot w k)
      \<and> (fp_registry (sw_publication w) ! k \<noteq> None \<longrightarrow> we_instance e = wr_instance_id r)
      \<and> we_quiesced e \<le> wr_instance_id r
      \<and> (wr_state r = RecBackoff \<longrightarrow> clean w k))"

text \<open>While an instance is being built the supervisor thread holds its snapshot.\<close>

fun building :: "sup_pc \<Rightarrow> nat \<Rightarrow> bool" where
  "building (SupBuilds site k port) j \<longleftrightarrow> j = k"
| "building (SupInstalls site k port bound) j \<longleftrightarrow> j = k"
| "building _ j \<longleftrightarrow> False"

definition startup_rest :: "create_site \<Rightarrow> nat \<Rightarrow> sup_world \<Rightarrow> bool" where
  "startup_rest site k w \<longleftrightarrow> (site = AtStartup \<longrightarrow> (\<forall>j < k. unstarted w j) \<and> (\<forall>j < workers w. k < j \<longrightarrow> clean w j))"

fun final_exit :: "sup_exit \<Rightarrow> bool" where
  "final_exit (ExitReturn r) = True"
| "final_exit ExitThrow = True"
| "final_exit (ExitEmergency b) = True"
| "final_exit _ = False"

fun publishes :: "sup_action \<Rightarrow> bool" where
  "publishes (PublishStartup r) = True"
| "publishes (PublishActivation r) = True"
| "publishes _ = False"

fun pc_ok :: "sup_world \<Rightarrow> sup_pc \<Rightarrow> bool" where
  "pc_ok w SupIdle \<longleftrightarrow> (\<forall>k < workers w. clean w k)"
| "pc_ok w SupEnters \<longleftrightarrow> (\<forall>k < workers w. clean w k)"
| "pc_ok w SupChecks \<longleftrightarrow> (\<forall>k < workers w. clean w k)"
| "pc_ok w (SupCreates site k port) \<longleftrightarrow> k < workers w \<and> clean w k \<and> startup_rest site k w"
| "pc_ok w (SupRegisters site k port) \<longleftrightarrow> k < workers w \<and> clean w k \<and> startup_rest site k w
     \<and> we_quiesced (sw_epochs w k) < wr_instance_id (rec_at (sw_sup w) k) \<and> wr_state (rec_at (sw_sup w) k) \<noteq> RecBackoff"
| "pc_ok w (SupBuilds site k port) \<longleftrightarrow> k < workers w \<and> startup_rest site k w
     \<and> \<not> has_instance w k \<and> holds_snapshot w k \<and> fp_registry (sw_publication w) ! k = Some k"
| "pc_ok w (SupInstalls site k port bound) \<longleftrightarrow> k < workers w \<and> startup_rest site k w
     \<and> \<not> has_instance w k \<and> holds_snapshot w k \<and> fp_registry (sw_publication w) ! k = Some k"
| "pc_ok w (SupStarts site k) \<longleftrightarrow> k < workers w \<and> unstarted w k
     \<and> (site = AtStartup \<longrightarrow> (\<forall>j < workers w. has_instance w j \<and> (k \<le> j \<longrightarrow> unstarted w j)))"
| "pc_ok w (SupSpawns site k) \<longleftrightarrow> k < workers w \<and> unstarted w k
     \<and> (site = AtStartup \<longrightarrow> (\<forall>j < workers w. has_instance w j \<and> (k \<le> j \<longrightarrow> unstarted w j)))"
| "pc_ok w SupReadyRound \<longleftrightarrow> 0 < workers w \<and> (\<forall>j < workers w. has_instance w j)"
| "pc_ok w (SupReadyAt k) \<longleftrightarrow> k < workers w \<and> (\<forall>j < workers w. has_instance w j)"
| "pc_ok w SupActivationRound \<longleftrightarrow> 0 < workers w \<and> (\<forall>j < workers w. has_instance w j)"
| "pc_ok w SupMonitorRound \<longleftrightarrow> 0 < workers w"
| "pc_ok w (SupStopsInstance target) \<longleftrightarrow> fst target < workers w"
| "pc_ok w (SupVisits k p d) \<longleftrightarrow> k < workers w"
| "pc_ok w (SupProbedReady k p d) \<longleftrightarrow> k < workers w"
| "pc_ok w (SupVisitsActivated k p d) \<longleftrightarrow> k < workers w"
| "pc_ok w (SupProbedActivated k p d) \<longleftrightarrow> k < workers w"
| "pc_ok w (SupVisitsRest k p d) \<longleftrightarrow> k < workers w"
| "pc_ok w (SupWaits d) \<longleftrightarrow> 0 < workers w"
| "pc_ok w (SupHealth pc) \<longleftrightarrow> pc_ok w pc \<and> \<not> building pc 0 \<and> (\<forall>j. \<not> building pc j)"
| "pc_ok w (SupHandles k f) \<longleftrightarrow> k < workers w"
| "pc_ok w (SupHandled k f) \<longleftrightarrow> k < workers w \<and> clean w k"
| "pc_ok w (SupFails f) \<longleftrightarrow> True"
| "pc_ok w (SupReportsFatal b f) \<longleftrightarrow> True"
| "pc_ok w (SupJoins stage k site) \<longleftrightarrow> k < workers w
     \<and> (stage = JoinDestroys \<longrightarrow> thread_joinable (rec_at (sw_sup w) k))
     \<and> (stage = JoinQuiesces \<longrightarrow> \<not> has_instance w k) \<and> (stage = JoinEnds \<longrightarrow> clean w k)
     \<and> (case site of JoinAll ok strict rest exit \<Rightarrow> final_exit exit | JoinFailure f \<Rightarrow> True)"
| "pc_ok w (SupRuns acts exit) \<longleftrightarrow>
     (final_exit exit \<or> list_all publishes acts) \<and> (exit = ExitActivate \<or> exit = ExitMonitor \<longrightarrow> 0 < workers w) \<and> (exit = ExitActivate \<longrightarrow> (\<forall>j < workers w. has_instance w j))"
| "pc_ok w (SupEnded exit) \<longleftrightarrow> True"

definition lifecycle_at :: "sup_pc \<Rightarrow> sup_world \<Rightarrow> bool" where
  "lifecycle_at pc w \<longleftrightarrow>
     length (pw_locals (sw_pub w)) = workers w \<and> length (fp_registry (sw_publication w)) = workers w
     \<and> (\<forall>k inst. sv_unexpected_stop (sw_sup w) = Some (k, inst) \<longrightarrow> k < workers w)
     \<and> (\<forall>k < workers w. record_ok w k \<and> (holds_snapshot w k \<longrightarrow> has_instance w k \<or> building pc k))
     \<and> pc_ok w pc"

text \<open>What worker threads and callers leave as it is.\<close>

definition same_record :: "worker_record \<Rightarrow> worker_record \<Rightarrow> bool" where
  "same_record r r' \<longleftrightarrow> wr_instance_id r' = wr_instance_id r \<and> (wr_state r' = RecBackoff \<longrightarrow> wr_state r = RecBackoff)
     \<and> (wr_instance r' = None \<longleftrightarrow> wr_instance r = None) \<and> map_option wt_instance (wr_thread r') = map_option wt_instance (wr_thread r)
     \<and> (thread_joinable r \<longrightarrow> thread_joinable r')"

definition same_workers :: "sup_world \<Rightarrow> sup_world \<Rightarrow> bool" where
  "same_workers w w' \<longleftrightarrow> workers w' = workers w \<and> (\<forall>k < workers w. same_record (rec_at (sw_sup w) k) (rec_at (sw_sup w') k))
     \<and> fp_registry (sw_publication w') = fp_registry (sw_publication w)
     \<and> (\<forall>k < workers w. we_instance (sw_epochs w' k) = we_instance (sw_epochs w k) \<and> we_quiesced (sw_epochs w' k) = we_quiesced (sw_epochs w k))
     \<and> length (pw_locals (sw_pub w')) = length (pw_locals (sw_pub w))
     \<and> (\<forall>k < workers w. holds_snapshot w' k \<longleftrightarrow> holds_snapshot w k)"

lemma same_record_refl [simp]: "same_record r r"
  by (simp add: same_record_def)

lemma same_record_thread: "same_record r r' \<Longrightarrow> wr_thread r' = None \<longleftrightarrow> wr_thread r = None"
  by (cases "wr_thread r"; cases "wr_thread r'") (auto simp: same_record_def)

lemma same_workersD:
  assumes "same_workers w w'"
  shows "workers w' = workers w" "fp_registry (sw_publication w') = fp_registry (sw_publication w)"
    "length (pw_locals (sw_pub w')) = length (pw_locals (sw_pub w))"
    "\<And>k. k < workers w \<Longrightarrow> same_record (rec_at (sw_sup w) k) (rec_at (sw_sup w') k)"
    "\<And>k. k < workers w \<Longrightarrow> holds_snapshot w' k \<longleftrightarrow> holds_snapshot w k"
    "\<And>k. k < workers w \<Longrightarrow> we_instance (sw_epochs w' k) = we_instance (sw_epochs w k)"
    "\<And>k. k < workers w \<Longrightarrow> we_quiesced (sw_epochs w' k) = we_quiesced (sw_epochs w k)"
    "\<And>k. k < workers w \<Longrightarrow> wr_instance_id (rec_at (sw_sup w') k) = wr_instance_id (rec_at (sw_sup w) k)"
    "\<And>k. k < workers w \<Longrightarrow> thread_joinable (rec_at (sw_sup w) k) \<Longrightarrow> thread_joinable (rec_at (sw_sup w') k)"
    "\<And>k. k < workers w \<Longrightarrow> clean w' k \<longleftrightarrow> clean w k"
    "\<And>k. k < workers w \<Longrightarrow> has_instance w' k \<longleftrightarrow> has_instance w k"
    "\<And>k. k < workers w \<Longrightarrow> unstarted w' k \<longleftrightarrow> unstarted w k"
    "\<And>k. k < workers w \<Longrightarrow> startup_rest site k w' \<longleftrightarrow> startup_rest site k w"
    "\<And>k. k < workers w \<Longrightarrow> wr_state (rec_at (sw_sup w) k) \<noteq> RecBackoff \<Longrightarrow> wr_state (rec_at (sw_sup w') k) \<noteq> RecBackoff"
proof -
  note d = assms [unfolded same_workers_def]
  show n: "workers w' = workers w" and "fp_registry (sw_publication w') = fp_registry (sw_publication w)"
    "length (pw_locals (sw_pub w')) = length (pw_locals (sw_pub w))"
    and r: "\<And>k. k < workers w \<Longrightarrow> same_record (rec_at (sw_sup w) k) (rec_at (sw_sup w') k)"
    and "\<And>k. k < workers w \<Longrightarrow> holds_snapshot w' k \<longleftrightarrow> holds_snapshot w k"
    "\<And>k. k < workers w \<Longrightarrow> we_instance (sw_epochs w' k) = we_instance (sw_epochs w k)"
    "\<And>k. k < workers w \<Longrightarrow> we_quiesced (sw_epochs w' k) = we_quiesced (sw_epochs w k)"
    using d by blast+
  show "wr_instance_id (rec_at (sw_sup w') k) = wr_instance_id (rec_at (sw_sup w) k)" if "k < workers w" for k
    using r [OF that] by (simp add: same_record_def)
  show "thread_joinable (rec_at (sw_sup w') k)" if "k < workers w" "thread_joinable (rec_at (sw_sup w) k)" for k
    using r [OF that(1)] that(2) by (simp add: same_record_def)
  show "wr_state (rec_at (sw_sup w') k) \<noteq> RecBackoff" if "k < workers w" "wr_state (rec_at (sw_sup w) k) \<noteq> RecBackoff" for k
    using r [OF that(1)] that(2) by (simp add: same_record_def)
  show c: "clean w' k \<longleftrightarrow> clean w k" if "k < workers w" for k
    using r [OF that] same_record_thread [OF r [OF that]] d by (simp add: clean_def same_record_def)
  show h: "has_instance w' k \<longleftrightarrow> has_instance w k" if "k < workers w" for k
    using r [OF that] by (simp add: has_instance_def same_record_def)
  show u: "unstarted w' k \<longleftrightarrow> unstarted w k" if "k < workers w" for k
    using h [OF that] same_record_thread [OF r [OF that]] by (simp add: unstarted_def)
  show "startup_rest site k w' \<longleftrightarrow> startup_rest site k w" if "k < workers w" for k
    using that n by (auto simp: startup_rest_def c u)
qed

lemma same_workers_record:
  assumes s: "same_workers w w'" and k: "k < workers w" and ok: "record_ok w k"
  shows "record_ok w' k"
proof -
  note r = same_workersD(4) [OF s k, unfolded same_record_def]
  have "wt_instance t = wr_instance_id (rec_at (sw_sup w') k)" "wr_instance (rec_at (sw_sup w') k) \<noteq> None"
    if t: "wr_thread (rec_at (sw_sup w') k) = Some t" for t
  proof -
    obtain t0 where "wr_thread (rec_at (sw_sup w) k) = Some t0" "wt_instance t0 = wt_instance t"
      using r t by (cases "wr_thread (rec_at (sw_sup w) k)") auto
    then show "wt_instance t = wr_instance_id (rec_at (sw_sup w') k)" "wr_instance (rec_at (sw_sup w') k) \<noteq> None"
      using ok r unfolding record_ok_def Let_def by metis+
  qed
  moreover have "wr_state (rec_at (sw_sup w') k) = RecBackoff \<longrightarrow> clean w' k"
    using ok r same_workersD(10) [OF s k] by (simp add: record_ok_def Let_def)
  moreover have "wr_instance (rec_at (sw_sup w') k) \<noteq> None \<longrightarrow>
      fp_registry (sw_publication w') ! k = Some k \<and> holds_snapshot w' k"
    using ok r same_workersD(5) [OF s k] same_workersD(2) [OF s] by (simp add: record_ok_def Let_def)
  ultimately show ?thesis
    using ok r same_workersD(2) [OF s] same_workersD(6,7,8) [OF s k]
    unfolding record_ok_def Let_def by simp
qed

lemma same_workers_pc:
  assumes s: "same_workers w w'"
  shows "pc_ok w pc \<Longrightarrow> pc_ok w' pc"
  by (induction pc) (simp_all add: same_workersD [OF s])

lemma lifecycle_same:
  assumes l: "lifecycle_at pc w" and s: "same_workers w w'" and pc: "pc_ok w' pc'"
    and b: "\<And>k. k < workers w \<Longrightarrow> building pc k \<Longrightarrow> building pc' k"
    and u: "\<And>k inst. sv_unexpected_stop (sw_sup w') = Some (k, inst) \<Longrightarrow> k < workers w"
  shows "lifecycle_at pc' w'"
proof -
  have "record_ok w' k \<and> (holds_snapshot w' k \<longrightarrow> has_instance w' k \<or> building pc' k)" if k: "k < workers w" for k
    using l k b [OF k] same_workers_record [OF s k] same_workersD(5,11) [OF s k]
    by (simp add: lifecycle_at_def) blast
  then show ?thesis
    using l pc u same_workersD(1-3) [OF s] by (simp add: lifecycle_at_def)
qed

lemma same_workers_refl [simp]: "same_workers w w"
  by (simp add: same_workers_def)

lemma same_workers_trans: "same_workers a b \<Longrightarrow> same_workers b c \<Longrightarrow> same_workers a c"
  by (simp add: same_workers_def same_record_def)

lemma world_frame [simp]:
  "sw_pub (goto pc s w) = sw_pub w" "sw_sup (goto pc s w) = s" "sw_pc (goto pc s w) = pc" "sw_stoppers (goto pc s w) = sw_stoppers w"
  "sw_join_failed (goto pc s w) = sw_join_failed w" "sw_join_failed (set_sup s w) = sw_join_failed w"
  "sw_join_failed (set_epochs eps w) = sw_join_failed w" "sw_join_failed (set_local k l w) = sw_join_failed w"
  "sw_join_failed (set_pub_epochs p eps w) = sw_join_failed w" "sw_join_failed (worker_goes k wpc w) = sw_join_failed w"
  "sw_pub (set_sup s w) = sw_pub w" "sw_sup (set_sup s w) = s" "sw_pc (set_sup s w) = sw_pc w" "sw_stoppers (set_sup s w) = sw_stoppers w"
  "sw_sup (set_epochs eps w) = sw_sup w" "sw_pc (set_epochs eps w) = sw_pc w" "sw_stoppers (set_epochs eps w) = sw_stoppers w"
  "sw_sup (set_local k l w) = sw_sup w" "sw_pc (set_local k l w) = sw_pc w" "sw_stoppers (set_local k l w) = sw_stoppers w"
  "sw_sup (set_pub_epochs p eps w) = sw_sup w" "sw_pc (set_pub_epochs p eps w) = sw_pc w" "sw_stoppers (set_pub_epochs p eps w) = sw_stoppers w"
  "sw_pub (worker_goes k wpc w) = sw_pub w" "sw_sup (worker_goes k wpc w) = set_worker_pc k wpc (sw_sup w)"
  "sw_pc (worker_goes k wpc w) = sw_pc w" "sw_stoppers (worker_goes k wpc w) = sw_stoppers w"
  by (simp_all add: goto_def set_sup_def set_epochs_def set_local_def set_pub_epochs_def worker_goes_def)

lemma pub_frame [simp]:
  "sw_pub (set_epochs eps w) = (sw_pub w)\<lparr>pw_epochs := eps\<rparr>"
  "sw_pub (set_local k l w) = (sw_pub w)\<lparr>pw_locals := (pw_locals (sw_pub w))[k := l]\<rparr>"
  "sw_pub (set_pub_epochs p eps w) = (sw_pub w)\<lparr>pw_pub := p, pw_epochs := eps\<rparr>"
  by (simp_all add: set_epochs_def set_local_def set_pub_epochs_def)

lemma same_workers_supI:
  assumes "sw_pub w' = sw_pub w" "workers w' = workers w"
    "\<And>k. k < workers w \<Longrightarrow> same_record (rec_at (sw_sup w) k) (rec_at (sw_sup w') k)"
  shows "same_workers w w'"
  using assms by (simp add: same_workers_def holds_snapshot_def)

lemma same_workers_on_record:
  assumes "sw_pub w' = sw_pub w" "sw_sup w' = on_record k f (sw_sup w)" "k < workers w" "same_record (rec_at (sw_sup w) k) (f (rec_at (sw_sup w) k))"
  shows "same_workers w w'"
  using assms by (intro same_workers_supI) (auto simp: nth_list_update)

text \<open>What the threads of the workers and the callers do to the publication.\<close>

definition pub_moves :: "sup_world \<Rightarrow> sup_world \<Rightarrow> bool" where
  "pub_moves w w' \<longleftrightarrow> sw_pub w' = sw_pub w \<or> pub_env_step (sw_pub w) (sw_pub w')"

lemma refresh_shape:
  assumes "refresh_worker_snapshot l inst e p eps = (r, l', p', eps')"
  shows "fp_registry p' = fp_registry p" "l' = None \<longleftrightarrow> l = None" "we_instance (eps' k) = we_instance (eps k)"
    "we_quiesced (eps' k) = we_quiesced (eps k)" "we_registration (eps' k) = we_registration (eps k)"
  using assms by (auto simp: refresh_worker_snapshot_def publish_progress_def Let_def split: if_splits option.splits) (metis)+

lemma worker_refresh_frame:
  assumes r: "worker_refresh k inst w = (r, w')"
  shows "sw_sup w' = sw_sup w" "sw_pc w' = sw_pc w" "sw_stoppers w' = sw_stoppers w" "sw_join_failed w' = sw_join_failed w"
    "we_registration (sw_epochs w' j) = we_registration (sw_epochs w j)"
proof -
  show "sw_sup w' = sw_sup w" "sw_pc w' = sw_pc w" "sw_stoppers w' = sw_stoppers w" "sw_join_failed w' = sw_join_failed w"
    using r by (auto simp: worker_refresh_def split: if_splits prod.splits)
  show "we_registration (sw_epochs w' j) = we_registration (sw_epochs w j)"
  proof (cases "inst = 0")
    case False
    obtain b l p eps where f: "refresh_worker_snapshot (pw_locals (sw_pub w) ! k) inst k (sw_publication w) (sw_epochs w) = (b, l, p, eps)"
      by (metis prod_cases4)
    then show ?thesis
      using refresh_shape(5) [OF f] r False by (auto simp: worker_refresh_def)
  qed (use r in \<open>auto simp: worker_refresh_def\<close>)
qed

lemma worker_refresh_same:
  assumes r: "worker_refresh k inst w = (r, w')" and k: "k < workers w" "length (pw_locals (sw_pub w)) = workers w"
  shows "same_workers w w'" "pub_moves w w'"
proof -
  have "same_workers w w' \<and> pub_moves w w'"
  proof (cases "inst = 0")
    case True
    then show ?thesis using r by (simp add: worker_refresh_def pub_moves_def)
  next
    case False
    obtain b l p eps where f: "refresh_worker_snapshot (pw_locals (sw_pub w) ! k) inst k (sw_publication w) (sw_epochs w) = (b, l, p, eps)"
      by (metis prod_cases4)
    have w': "w' = set_local k l (set_pub_epochs p eps w)" using r f False by (simp add: worker_refresh_def)
    have "pub_env_step (sw_pub w) (sw_pub w')"
      using step_refresh [of k "sw_pub w" inst, OF _ f] k by (simp add: w')
    moreover have "same_workers w w'"
      using refresh_shape [OF f] k by (simp add: w' same_workers_def holds_snapshot_def nth_list_update)
    ultimately show ?thesis by (simp add: pub_moves_def)
  qed
  then show "same_workers w w'" "pub_moves w w'" by simp_all
qed

lemma thread_same_record:
  assumes "wr_thread r = Some t" "wt_pc t \<noteq> WorkerFinished" "wr_instance_id r' = wr_instance_id r" "wr_state r' = wr_state r"
    "wr_instance r' = None \<longleftrightarrow> wr_instance r = None" "map_option wt_instance (wr_thread r') = Some (wt_instance t)"
  shows "same_record r r'"
  using assms by (simp add: same_record_def thread_joinable_def)

text \<open>The record after a step of its worker, without regard to the publication.\<close>

lemma set_worker_pc_record:
  "k < length (sv_records s) \<Longrightarrow> rec_at (set_worker_pc k pc s) j =
     (if j = k then (rec_at s k)\<lparr>wr_thread := map_option (\<lambda>t. t\<lparr>wt_pc := pc\<rparr>) (wr_thread (rec_at s k))\<rparr> else rec_at s j)"
  by (simp add: set_worker_pc_def)

lemma set_worker_pc_frame [simp]:
  "length (sv_records (set_worker_pc k pc s)) = length (sv_records s)" "sv_config (set_worker_pc k pc s) = sv_config s"
  "sv_stopped (set_worker_pc k pc s) = sv_stopped s" "sv_startup (set_worker_pc k pc s) = sv_startup s"
  "sv_activation (set_worker_pc k pc s) = sv_activation s" "sv_data_plane_released (set_worker_pc k pc s) = sv_data_plane_released s"
  "sv_stop_requested (set_worker_pc k pc s) = sv_stop_requested s" "sv_service_stop (set_worker_pc k pc s) = sv_service_stop s"
  "sv_run_active (set_worker_pc k pc s) = sv_run_active s" "sv_run_started (set_worker_pc k pc s) = sv_run_started s"
  "sv_unexpected_stop (set_worker_pc k pc s) = sv_unexpected_stop s" "sv_abrupt_exit (set_worker_pc k pc s) = sv_abrupt_exit s"
  "sv_activation_requested (set_worker_pc k pc s) = sv_activation_requested s"
  by (simp_all add: set_worker_pc_def)

lemma stop_source_frame [simp]:
  "sv_records (stop_source x s) = sv_records s" "sv_unexpected_stop (stop_source x s) = sv_unexpected_stop s"
  "sv_startup (stop_source x s) = sv_startup s" "sv_activation (stop_source x s) = sv_activation s"
  "sv_stop_requested (stop_source x s) = sv_stop_requested s" "sv_run_active (stop_source x s) = sv_run_active s"
  "sv_data_plane_released (stop_source x s) = sv_data_plane_released s" "sv_config (stop_source x s) = sv_config s"
  "sv_run_started (stop_source x s) = sv_run_started s" "sv_join_failure (stop_source x s) = sv_join_failure s"
  by (simp_all add: stop_source_def)

text \<open>Everything of a record that its worker can change.\<close>

definition worker_changes :: "worker_record \<Rightarrow> worker_record \<Rightarrow> bool" where
  "worker_changes r r' \<longleftrightarrow>
     wr_state r' = wr_state r \<and> wr_instance_id r' = wr_instance_id r \<and> wr_activation_allowed r' = wr_activation_allowed r
     \<and> wr_data_plane_allowed r' = wr_data_plane_allowed r \<and> wr_recovery_episode r' = wr_recovery_episode r
     \<and> wr_recovery_attempts r' = wr_recovery_attempts r \<and> wr_next_backoff r' = wr_next_backoff r
     \<and> wr_restart_at r' = wr_restart_at r \<and> wr_stable_at r' = wr_stable_at r
     \<and> (wr_instance r' = None \<longleftrightarrow> wr_instance r = None) \<and> map_option wt_instance (wr_thread r') = map_option wt_instance (wr_thread r)"

lemma worker_step_changes:
  assumes s: "worker_step k t w w'" and k: "k < workers w" "length (pw_locals (sw_pub w)) = workers w"
    and t: "wr_thread (rec_at (sw_sup w) k) = Some t"
  shows "sw_pc w' = sw_pc w \<and> sw_stoppers w' = sw_stoppers w \<and> sw_join_failed w' = sw_join_failed w \<and> workers w' = workers w
    \<and> sv_unexpected_stop (sw_sup w') = sv_unexpected_stop (sw_sup w)
    \<and> sv_startup (sw_sup w') = sv_startup (sw_sup w) \<and> sv_activation (sw_sup w') = sv_activation (sw_sup w)
    \<and> sv_stop_requested (sw_sup w') = sv_stop_requested (sw_sup w) \<and> sv_run_active (sw_sup w') = sv_run_active (sw_sup w)
    \<and> sv_run_started (sw_sup w') = sv_run_started (sw_sup w) \<and> sv_config (sw_sup w') = sv_config (sw_sup w)
    \<and> sv_data_plane_released (sw_sup w') = sv_data_plane_released (sw_sup w) \<and> sv_stopped (sw_sup w) \<subseteq> sv_stopped (sw_sup w')
    \<and> wt_pc t \<noteq> WorkerFinished
    \<and> worker_changes (rec_at (sw_sup w) k) (rec_at (sw_sup w') k)
    \<and> (\<forall>j < workers w. j \<noteq> k \<longrightarrow> rec_at (sw_sup w') j = rec_at (sw_sup w) j)"
  using s
proof cases
  case (w_report_ready r)
  then show ?thesis
    using k t by (auto simp: report_worker_ready_def Let_def set_worker_pc_record worker_changes_def stop_source_def)
next
  case (w_report_activated)
  then show ?thesis
    using k t by (auto simp: report_worker_activated_def set_worker_pc_record worker_changes_def)
next
  case (w_complete r)
  then show ?thesis
    using k t by (auto simp: report_worker_completion_def set_worker_pc_record worker_changes_def)
next
  case (w_sync r w1)
  then show ?thesis using k t worker_refresh_frame [OF w_sync(3)] by (simp add: set_worker_pc_record worker_changes_def)
next
  case (w_activation_refresh r w1)
  then show ?thesis using k t worker_refresh_frame [OF w_activation_refresh(3)] by (simp add: set_worker_pc_record worker_changes_def)
next
  case (w_data_refresh r w1)
  then show ?thesis using k t worker_refresh_frame [OF w_data_refresh(3)] by (simp add: set_worker_pc_record worker_changes_def)
next
  case (w_serve_refresh i r w1)
  then show ?thesis using k t worker_refresh_frame [OF w_serve_refresh(6)] by (simp add: set_worker_pc_record worker_changes_def)
qed (use k t in \<open>simp_all add: set_worker_pc_record worker_changes_def\<close>)

lemma worker_step_pub:
  assumes s: "worker_step k t w w'" and k: "k < workers w" "length (pw_locals (sw_pub w)) = workers w"
  shows "\<exists>w1. same_workers w w1 \<and> pub_moves w w1 \<and> sw_pub w' = sw_pub w1 \<and> (\<forall>j. we_registration (sw_epochs w1 j) = we_registration (sw_epochs w j))"
  using s
proof cases
  case (w_sync r w1)
  then show ?thesis using worker_refresh_same [OF w_sync(3) k] worker_refresh_frame [OF w_sync(3)] by auto
next
  case (w_activation_refresh r w1)
  then show ?thesis using worker_refresh_same [OF w_activation_refresh(3) k] worker_refresh_frame [OF w_activation_refresh(3)] by auto
next
  case (w_data_refresh r w1)
  then show ?thesis using worker_refresh_same [OF w_data_refresh(3) k] worker_refresh_frame [OF w_data_refresh(3)] by auto
next
  case (w_serve_refresh i r w1)
  then show ?thesis using worker_refresh_same [OF w_serve_refresh(6) k] worker_refresh_frame [OF w_serve_refresh(6)] by auto
qed (auto simp: pub_moves_def intro!: exI [of _ w])

lemma worker_step_same:
  assumes s: "worker_step k t w w'" and k: "k < workers w" "length (pw_locals (sw_pub w)) = workers w"
    and t: "wr_thread (rec_at (sw_sup w) k) = Some t"
  shows "same_workers w w'"
proof -
  obtain w1 where w1: "same_workers w w1" "sw_pub w' = sw_pub w1"
    using worker_step_pub [OF s k] by blast
  note c = worker_step_changes [OF s k t]
  have "same_record (rec_at (sw_sup w) j) (rec_at (sw_sup w') j)" if "j < workers w" for j
  proof (cases "j = k")
    case True
    have w: "worker_changes (rec_at (sw_sup w) k) (rec_at (sw_sup w') k)" and n: "wt_pc t \<noteq> WorkerFinished" using c by blast+
    then show ?thesis using w n t True by (simp add: same_record_def worker_changes_def thread_joinable_def)
  qed (use c that in simp)
  then show ?thesis
    using w1 c by (simp add: same_workers_def holds_snapshot_def)
qed

lemma small_step_frame [simp]:
  "sv_records (request_stop s) = sv_records s" "sv_unexpected_stop (request_stop s) = sv_unexpected_stop s"
  "sv_records (snapshot_published g s) = sv_records s" "sv_unexpected_stop (snapshot_published g s) = sv_unexpected_stop s"
  "sv_records (inject_abrupt_exit_for_testing s) = sv_records s"
  "sv_unexpected_stop (inject_abrupt_exit_for_testing s) = sv_unexpected_stop s"
  "sv_records (inject_abrupt_exit_after_next_publication_for_testing s) = sv_records s"
  "sv_unexpected_stop (inject_abrupt_exit_after_next_publication_for_testing s) = sv_unexpected_stop s"
  "sv_records (inject_emergency_join_failure_once_for_testing s) = sv_records s"
  "sv_unexpected_stop (inject_emergency_join_failure_once_for_testing s) = sv_unexpected_stop s"
  "sv_records (publish_startup r s) = sv_records s" "sv_unexpected_stop (publish_startup r s) = sv_unexpected_stop s"
  "sv_records (publish_activation a s) = sv_records s" "sv_unexpected_stop (publish_activation a s) = sv_unexpected_stop s"
  "sv_records (finish_supervisor_run s) = sv_records s" "sv_unexpected_stop (finish_supervisor_run s) = sv_unexpected_stop s"
  "sv_records (publish_health s) = sv_records s" "sv_unexpected_stop (publish_health s) = sv_unexpected_stop s"
  "sv_records (fail_worker_service_report b f s) = sv_records s"
  "sv_unexpected_stop (fail_worker_service_report b f s) = sv_unexpected_stop s"
  by (simp_all add: request_stop_def snapshot_published_def inject_abrupt_exit_for_testing_def
      inject_abrupt_exit_after_next_publication_for_testing_def inject_emergency_join_failure_once_for_testing_def
      publish_startup_def publish_activation_def finish_supervisor_run_def publish_health_def fail_worker_service_report_def)

lemma stopper_step_frame:
  "stopper_step t s = (t', s') \<Longrightarrow> sv_records s' = sv_records s \<and> sv_unexpected_stop s' = sv_unexpected_stop s"
  by (auto simp: stopper_step_def split: stopper.splits if_splits)

text \<open>Steps that keep the shape of all records.\<close>

definition keeps_records :: "supervisor \<Rightarrow> supervisor \<Rightarrow> bool" where
  "keeps_records s s' \<longleftrightarrow> length (sv_records s') = length (sv_records s)
     \<and> (\<forall>k < length (sv_records s). same_record (rec_at s k) (rec_at s' k))
     \<and> (\<forall>k inst. sv_unexpected_stop s' = Some (k, inst) \<longrightarrow> sv_unexpected_stop s = Some (k, inst) \<or> k < length (sv_records s))"

lemma keeps_records_eq: "sv_records s' = sv_records s \<Longrightarrow> sv_unexpected_stop s' = sv_unexpected_stop s \<Longrightarrow> keeps_records s s'"
  by (simp add: keeps_records_def)

lemma keeps_records_refl [simp]: "keeps_records s s"
  by (simp add: keeps_records_def)

lemma keeps_records_on:
  assumes "\<And>r. wr_thread r = wr_thread (f r) \<and> wr_instance_id r = wr_instance_id (f r) \<and> (wr_instance (f r) = None \<longleftrightarrow> wr_instance r = None)
      \<and> (wr_state (f r) = RecBackoff \<longrightarrow> wr_state r = RecBackoff)"
  shows "keeps_records s (on_record k f s)"
proof -
  have "same_record r (f r)" for r using assms [of r] by (simp add: same_record_def thread_joinable_def)
  then show ?thesis
    by (cases "k < length (sv_records s)") (auto simp: keeps_records_def on_record_def nth_list_update)
qed

lemma keeps_records_trans: "keeps_records a b \<Longrightarrow> keeps_records b c \<Longrightarrow> keeps_records a c"
  by (simp add: keeps_records_def same_record_def) metis

lemma keeps_records_map:
  assumes "\<And>r. wr_thread r = wr_thread (f r) \<and> wr_instance_id r = wr_instance_id (f r) \<and> (wr_instance (f r) = None \<longleftrightarrow> wr_instance r = None)
      \<and> (wr_state (f r) = RecBackoff \<longrightarrow> wr_state r = RecBackoff)" "sv_records s' = map f (sv_records s)"
    "sv_unexpected_stop s' = sv_unexpected_stop s"
  shows "keeps_records s s'"
  using assms by (simp add: keeps_records_def same_record_def thread_joinable_def)

lemma refreshes_same:
  "request_filter_refreshes failed k rs = (e, rs') \<Longrightarrow>
     length rs' = length rs \<and> (\<forall>i < length rs. \<exists>x. rs' ! i = (rs ! i)\<lparr>wr_instance := x\<rparr> \<and> (x = None \<longleftrightarrow> wr_instance (rs ! i) = None))"
proof (induction rs arbitrary: k e rs')
  case (Cons r rs)
  have r: "\<exists>x. r = r\<lparr>wr_instance := x\<rparr> \<and> (x = None \<longleftrightarrow> wr_instance r = None)"
    by (rule exI [of _ "wr_instance r"]) simp
  have self: "\<exists>x. s = s\<lparr>wr_instance := x\<rparr> \<and> (x = None \<longleftrightarrow> wr_instance s = None)" for s :: worker_record
    by (rule exI [of _ "wr_instance s"]) simp
  obtain e1 rs1 where rec: "request_filter_refreshes failed (k + 1) rs = (e1, rs1)" by fastforce
  note IH = Cons.IH [OF rec]
  show ?case
  proof (cases "wr_instance r")
    case None
    then have "rs' = r # rs1" using Cons.prems rec by simp
    then show ?thesis using IH r by (auto simp: nth_Cons split: nat.splits)
  next
    case (Some i)
    show ?thesis
    proof (cases "failed k")
      case None
      then have "rs' = r\<lparr>wr_instance := Some (i\<lparr>wi_generation_event := True\<rparr>)\<rparr> # rs1" using Cons.prems rec Some by simp
      then show ?thesis using IH Some by (auto simp: nth_Cons split: nat.splits)
    next
      case (Some n)
      then have "rs' = r # rs" using Cons.prems \<open>wr_instance r = Some i\<close> by simp
      then show ?thesis using self by simp
    qed
  qed
qed simp

lemma monitor_begin_keeps:
  assumes "monitor_round_begin failed s = (r, s')"
  shows "keeps_records s s'"
proof -
  obtain e rs where q: "request_filter_refreshes failed 0 (sv_records s) = (e, rs)" by fastforce
  have "length rs = length (sv_records s)" "\<And>i. i < length (sv_records s) \<Longrightarrow> same_record (sv_records s ! i) (rs ! i)"
    using refreshes_same [OF q] by (force simp: same_record_def thread_joinable_def)+
  then have a: "keeps_records s (s\<lparr>sv_publication_pending := False, sv_records := rs\<rparr>)"
    by (simp add: keeps_records_def)
  have b: "keeps_records s1 (s1\<lparr>sv_unexpected_stop := None\<rparr>)" for s1 by (simp add: keeps_records_def)
  show ?thesis
    using assms a b [of s] keeps_records_trans [OF a b]
    by (auto simp: monitor_round_begin_def q Let_def split: if_splits option.splits prod.splits)
qed

lemma await_ready_keeps:
  assumes "await_ready_record k s p eps = (e, s', eps')"
  shows "keeps_records s s'" "we_instance (eps' j) = we_instance (eps j)" "we_quiesced (eps' j) = we_quiesced (eps j)"
  using assms
  by (auto simp: await_ready_record_def mark_worker_registered_def Let_def keeps_records_eq
      intro!: keeps_records_on split: if_splits prod.splits)

lemma monitor_ready_keeps:
  assumes "monitor_ready k s p eps = (r, s', eps')"
  shows "keeps_records s s'" "we_instance (eps' j) = we_instance (eps j)" "we_quiesced (eps' j) = we_quiesced (eps j)"
  using assms
  by (auto simp: monitor_ready_def mark_worker_registered_def keeps_records_eq intro!: keeps_records_on split: if_splits prod.splits)

lemma activation_round_keeps:
  assumes "await_activation_round s = (r, s')"
  shows "keeps_records s s'"
proof -
  have m: "keeps_records s (s\<lparr>sv_records := map activate_record (sv_records s)\<rparr>)"
    by (rule keeps_records_map [of activate_record]) (simp_all add: activate_record_def)
  have o: "keeps_records s (on_record k (\<lambda>r. r\<lparr>wr_state := RecExited, wr_last_result := Some (cp_result (wr_completion r))\<rparr>) s)" for k
    by (rule keeps_records_on) simp
  show ?thesis
    using assms m o
    by (auto simp: await_activation_round_def Let_def split: if_splits option.splits)
qed

lemma handle_begin_keeps:
  assumes "handle_worker_failure_begin k f s = (r, s')"
  shows "keeps_records s s'"
proof -
  have h: "keeps_records s0 (on_health g (on_record k u s1))"
    if "sv_records s1 = sv_records s0" "sv_unexpected_stop s1 = sv_unexpected_stop s0"
      "\<And>r. wr_thread r = wr_thread (u r) \<and> wr_instance_id r = wr_instance_id (u r) \<and> (wr_instance (u r) = None \<longleftrightarrow> wr_instance r = None)
      \<and> (wr_state (u r) = RecBackoff \<longrightarrow> wr_state r = RecBackoff)" for s0 s1 g u
    using keeps_records_on [of u s1 k, OF that(3)] that(1,2) by (simp add: keeps_records_def)
  show ?thesis
    using assms by (auto simp: handle_worker_failure_begin_def Let_def keeps_records_eq intro!: h split: if_splits)
qed

lemma other_keeps:
  "run_begin_supervisor s = (x1, s') \<Longrightarrow> keeps_records s s'"
  "start_worker_thread_begin k s = (c, s') \<Longrightarrow> keeps_records s s'"
  "monitor_activated now k s = (v, s') \<Longrightarrow> keeps_records s s'"
  "monitor_rest now d k s = (x2, s') \<Longrightarrow> keeps_records s s'"
  "fail_worker_service_begin f s = (b, s') \<Longrightarrow> keeps_records s s'"
  "join_begin k s = (b, s') \<Longrightarrow> keeps_records s s'"
  "keeps_records s (join_joined k s)"
  "keeps_records s (stop_instance target s)"
  "run_action a rest exit s = (pc, s') \<Longrightarrow> keeps_records s s'"
  "request_activation s = (b, s') \<Longrightarrow> keeps_records s s'"
  "release_data_plane s = (x3, s') \<Longrightarrow> keeps_records s s'"
  "inject_worker_unexpected_stop_for_testing k s = (b, s') \<Longrightarrow> keeps_records s s'"
  "inject_worker_precommit_failure_for_testing k s = (b, s') \<Longrightarrow> keeps_records s s'"
proof -
  show "run_begin_supervisor s = (x1, s') \<Longrightarrow> keeps_records s s'"
    by (auto simp: run_begin_supervisor_def keeps_records_eq split: if_splits)
  show "start_worker_thread_begin k s = (c, s') \<Longrightarrow> keeps_records s s'"
    by (auto simp: start_worker_thread_begin_def Let_def intro!: keeps_records_on split: if_splits)
  show "monitor_activated now k s = (v, s') \<Longrightarrow> keeps_records s s'"
    using keeps_records_on [of "\<lambda>r. r\<lparr>wr_state := RecRunning, wr_data_plane_allowed := True,
                 wr_stable_at := deadline_after now (rc_stability_window (cfg_recovery (sv_config s)))\<rparr>" s k]
    by (auto simp: monitor_activated_def keeps_records_def split: if_splits)
  show "monitor_rest now d k s = (x2, s') \<Longrightarrow> keeps_records s s'"
    by (auto simp: monitor_rest_def Let_def intro!: keeps_records_on split: if_splits)
  show "fail_worker_service_begin f s = (b, s') \<Longrightarrow> keeps_records s s'"
    by (auto simp: fail_worker_service_begin_def keeps_records_eq)
  show "join_begin k s = (b, s') \<Longrightarrow> keeps_records s s'"
    using keeps_records_on [of "\<lambda>r. r\<lparr>wr_state := RecStopping\<rparr>" "stop_source (source_of s k) s" k]
    by (auto simp: join_begin_def Let_def keeps_records_def split: if_splits)
  show "keeps_records s (join_joined k s)"
    unfolding join_joined_def by (rule keeps_records_on) (simp add: Let_def)
  show "keeps_records s (stop_instance target s)"
    by (auto simp: stop_instance_def intro!: keeps_records_on)
  show "run_action a rest exit s = (pc, s') \<Longrightarrow> keeps_records s s'"
    by (auto simp: run_action_def keeps_records_eq dest: stopper_step_frame split: sup_action.splits if_splits prod.splits)
  show "request_activation s = (b, s') \<Longrightarrow> keeps_records s s'"
    by (auto simp: request_activation_def intro!: keeps_records_map [of "\<lambda>r. r\<lparr>wr_activation_allowed := True\<rparr>"] split: if_splits)
  show "release_data_plane s = (x3, s') \<Longrightarrow> keeps_records s s'"
    by (auto simp: release_data_plane_def intro!: keeps_records_map [of "\<lambda>r. r\<lparr>wr_data_plane_allowed := True\<rparr>"]
        split: if_splits option.splits)
  show "inject_worker_unexpected_stop_for_testing k s = (b, s') \<Longrightarrow> keeps_records s s'"
    by (auto simp: inject_worker_unexpected_stop_for_testing_def keeps_records_def split: if_splits)
  show "inject_worker_precommit_failure_for_testing k s = (b, s') \<Longrightarrow> keeps_records s s'"
    by (auto simp: inject_worker_precommit_failure_for_testing_def intro!: keeps_records_on split: if_splits)
qed

lemma lifecycle_keeps:
  assumes l: "lifecycle_at pc w" and r: "keeps_records (sw_sup w) (sw_sup w')"
    and p: "sw_publication w' = sw_publication w" "pw_locals (sw_pub w') = pw_locals (sw_pub w)"
    and e: "\<And>k. we_instance (sw_epochs w' k) = we_instance (sw_epochs w k)" "\<And>k. we_quiesced (sw_epochs w' k) = we_quiesced (sw_epochs w k)"
    and pc: "pc_ok w pc'" and b: "\<And>k. building pc k \<Longrightarrow> building pc' k"
  shows "lifecycle_at pc' w'"
proof -
  have s: "same_workers w w'"
    using r p e by (simp add: same_workers_def keeps_records_def holds_snapshot_def)
  show ?thesis
    by (rule lifecycle_same [OF l s same_workers_pc [OF s pc] b]) (use r l in \<open>auto simp: keeps_records_def lifecycle_at_def\<close>)
qed

lemma pc_ok_exits [simp]:
  "pc_ok w abrupt_exit" "pc_ok w (startup_fails e)" "pc_ok w (run_rejected e a r)" "pc_ok w (monitor_returns r)"
  "pc_ok w (activation_fails ae)" "pc_ok w emergency_join_all"
  "\<not> building abrupt_exit k" "\<not> building (startup_fails e) k" "\<not> building (run_rejected e a r) k" "\<not> building (monitor_returns r) k"
  "\<not> building (activation_fails ae) k" "\<not> building emergency_join_all k"
  by (simp_all add: abrupt_exit_def startup_fails_def run_rejected_def monitor_returns_def activation_fails_def emergency_join_all_def)

lemma pc_ok_errors [simp]:
  "k < workers w \<Longrightarrow> pc_ok w (recovery_error k e)" "\<not> building (recovery_error k e) j"
  "k < workers w \<Longrightarrow> pc_ok w (create_failed site k e)" "\<not> building (create_failed site k e) j"
  "k < workers w \<Longrightarrow> pc_ok w (start_failed site k e)" "\<not> building (start_failed site k e) j"
proof -
  show r: "k < workers w \<Longrightarrow> pc_ok w (recovery_error k e)" "\<not> building (recovery_error k e) j" for j
    by (simp_all add: recovery_error_def)
  show "k < workers w \<Longrightarrow> pc_ok w (create_failed site k e)" "\<not> building (create_failed site k e) j"
    "k < workers w \<Longrightarrow> pc_ok w (start_failed site k e)" "\<not> building (start_failed site k e) j"
    using r by (cases site; simp add: create_failed_def start_failed_def)+
qed

lemma pc_ok_visit_next [simp]: "k < workers w \<Longrightarrow> length (sv_records s) = workers w \<Longrightarrow> pc_ok w (visit_next k progressed d s)"
  by (auto simp: visit_next_def round_end_def)

text \<open>Steps that change one worker.\<close>

definition only_worker :: "nat \<Rightarrow> sup_world \<Rightarrow> sup_world \<Rightarrow> bool" where
  "only_worker k w w' \<longleftrightarrow> k < workers w \<and> workers w' = workers w \<and> length (pw_locals (sw_pub w')) = length (pw_locals (sw_pub w))
     \<and> length (fp_registry (sw_publication w')) = length (fp_registry (sw_publication w))
     \<and> sv_unexpected_stop (sw_sup w') = sv_unexpected_stop (sw_sup w)
     \<and> (\<forall>j < workers w. j \<noteq> k \<longrightarrow> rec_at (sw_sup w') j = rec_at (sw_sup w) j
          \<and> fp_registry (sw_publication w') ! j = fp_registry (sw_publication w) ! j
          \<and> pw_locals (sw_pub w') ! j = pw_locals (sw_pub w) ! j \<and> sw_epochs w' j = sw_epochs w j)"

lemma only_workerD:
  assumes "only_worker k w w'"
  shows "workers w' = workers w" "k < workers w"
    "\<And>j. j < workers w \<Longrightarrow> j \<noteq> k \<Longrightarrow> clean w' j \<longleftrightarrow> clean w j"
    "\<And>j. j < workers w \<Longrightarrow> j \<noteq> k \<Longrightarrow> has_instance w' j \<longleftrightarrow> has_instance w j"
    "\<And>j. j < workers w \<Longrightarrow> j \<noteq> k \<Longrightarrow> unstarted w' j \<longleftrightarrow> unstarted w j"
    "\<And>j. j < workers w \<Longrightarrow> j \<noteq> k \<Longrightarrow> record_ok w' j \<longleftrightarrow> record_ok w j"
    "\<And>j. j < workers w \<Longrightarrow> j \<noteq> k \<Longrightarrow> holds_snapshot w' j \<longleftrightarrow> holds_snapshot w j"
    "startup_rest site k w' \<longleftrightarrow> startup_rest site k w"
  using assms by (auto simp: only_worker_def clean_def has_instance_def unstarted_def record_ok_def holds_snapshot_def startup_rest_def Let_def)

lemma lifecycle_only:
  assumes l: "lifecycle_at pc w" and o: "only_worker k w w'" and r: "record_ok w' k"
    and h: "holds_snapshot w' k \<Longrightarrow> has_instance w' k \<or> building pc' k"
    and b: "\<And>j. building pc j \<Longrightarrow> j = k" and pc: "pc_ok w' pc'"
  shows "lifecycle_at pc' w'"
proof -
  note d = only_workerD [OF o]
  have "record_ok w' j \<and> (holds_snapshot w' j \<longrightarrow> has_instance w' j \<or> building pc' j)" if "j < workers w" for j
    using l that r h b d(4,6,7) [OF that] by (cases "j = k") (auto simp: lifecycle_at_def)
  then show ?thesis
    using l o pc by (simp add: lifecycle_at_def only_worker_def)
qed

lemma lifecycleD:
  assumes "lifecycle_at pc w"
  shows "length (pw_locals (sw_pub w)) = workers w" "length (fp_registry (sw_publication w)) = workers w"
    "\<And>k. k < workers w \<Longrightarrow> record_ok w k" "\<And>k. k < workers w \<Longrightarrow> holds_snapshot w k \<Longrightarrow> has_instance w k \<or> building pc k"
    "pc_ok w pc" "\<And>k inst. sv_unexpected_stop (sw_sup w) = Some (k, inst) \<Longrightarrow> k < workers w"
  using assms by (simp_all add: lifecycle_at_def)

definition fresh_instance :: "worker_record \<Rightarrow> worker_record" where
  "fresh_instance r = r\<lparr>wr_instance_id := wr_instance_id r + 1, wr_state := RecCreating,
     wr_ready := no_ready, wr_activated := no_activation, wr_completion := no_completion,
     wr_activation_allowed := False, wr_data_plane_allowed := False\<rparr>"

lemma create_begin_cases:
  assumes "create_worker_begin k s = (c, s')"
  shows "c \<noteq> CreateContinues \<and> (s' = s \<or> \<not> stop_requested_locked s \<and> s' = count_attempt k s)
    \<or> c = CreateContinues \<and> \<not> stop_requested_locked s \<and> wr_instance_id (rec_at (count_attempt k s) k) \<noteq> - 1
       \<and> s' = on_record k fresh_instance (count_attempt k s)"
  using assms by (simp add: create_worker_begin_def Let_def fresh_instance_def [abs_def] split: if_splits) auto

lemma create_begin_lifecycle:
  assumes l: "lifecycle_at (SupCreates site k port) w" and c: "create_worker_begin k (sw_sup w) = (c, s)"
  shows "lifecycle_at (after_create c (create_failed site k) (SupRegisters site k port)) (goto pc s w)"
proof -
  have k: "k < workers w" "clean w k" "startup_rest site k w" using lifecycleD(5) [OF l] by simp_all
  have a: "keeps_records (sw_sup w) (count_attempt k (sw_sup w))"
    using keeps_records_on [of "\<lambda>r. r\<lparr>wr_recovery_attempts := wr_recovery_attempts r + 1\<rparr>" "sw_sup w" k]
    by (simp add: count_attempt_def keeps_records_def)
  have n: "wr_instance (rec_at (count_attempt k (sw_sup w)) k) = None" "wr_thread (rec_at (count_attempt k (sw_sup w)) k) = None"
    "wr_instance_id (rec_at (count_attempt k (sw_sup w)) k) = wr_instance_id (rec_at (sw_sup w) k)"
    "sv_unexpected_stop (count_attempt k (sw_sup w)) = sv_unexpected_stop (sw_sup w)"
    "\<And>j. j \<noteq> k \<Longrightarrow> rec_at (count_attempt k (sw_sup w)) j = rec_at (sw_sup w) j"
    "length (sv_records (count_attempt k (sw_sup w))) = workers w"
    using k by (simp_all add: clean_def count_attempt_def)
  consider (keep) "c \<noteq> CreateContinues" "s = sw_sup w \<or> s = count_attempt k (sw_sup w)" |
    (go) "c = CreateContinues" "wr_instance_id (rec_at (sw_sup w) k) \<noteq> - 1" "s = on_record k fresh_instance (count_attempt k (sw_sup w))"
    using create_begin_cases [OF c] n(3) by metis
  then show ?thesis
  proof cases
    case keep
    then show ?thesis
      using k(1) a by (intro lifecycle_keeps [OF l]) (auto simp: after_create_def split: create_step.splits)
  next
    case go
    let ?w = "goto pc s w"
    have q: "we_quiesced (sw_epochs w k) \<le> wr_instance_id (rec_at (sw_sup w) k)"
      using lifecycleD(3) [OF l k(1)] by (simp add: record_ok_def Let_def)
    have less: "wr_instance_id (rec_at (sw_sup w) k) < wr_instance_id (rec_at (sw_sup w) k) + 1"
      by (rule succ_greater [OF go(2)])
    have o: "only_worker k w ?w"
      using k(1) n go(3) by (simp add: only_worker_def fresh_instance_def)
    have cl: "clean ?w k" using k n go(3) by (simp add: clean_def fresh_instance_def)
    show ?thesis
    proof (rule lifecycle_only [OF l o])
      show "record_ok ?w k"
        using cl less q k(1) n go(3) by (simp add: record_ok_def clean_def Let_def fresh_instance_def)
      show "holds_snapshot ?w k \<Longrightarrow> has_instance ?w k \<or> building (after_create c (create_failed site k) (SupRegisters site k port)) k"
        using lifecycleD(4) [OF l k(1)] k(2) by (simp add: holds_snapshot_def has_instance_def clean_def)
      show "pc_ok ?w (after_create c (create_failed site k) (SupRegisters site k port))"
        using go k cl only_workerD(1,8) [OF o] less q n by (simp add: after_create_def fresh_instance_def)
    qed simp_all
  qed
qed

lemma register_shape:
  assumes "register_worker k inst e p eps = (Some (snapshot, g), p', eps')"
  shows "p' = p\<lparr>fp_registry := (fp_registry p)[k := Some e]\<rparr>" "k < length (fp_registry p)" "inst \<noteq> 0"
    "eps' = eps(e := (eps e)\<lparr>we_observed := kUnobservedFilterGeneration, we_registration := RegStarting, we_instance := inst\<rparr>)"
  using assms by (auto simp: register_worker_def split: if_splits option.splits)

lemma create_register_cases:
  assumes "create_worker_register k s p eps = (c, l, p', eps')"
  shows "(\<exists>e. c = CreateReturns e) \<and> l = None \<and> p' = p \<and> eps' = eps
    \<or> c = CreateContinues \<and> (\<exists>snapshot g. l = Some snapshot
        \<and> register_worker k (wr_instance_id (rec_at s k)) k p eps = (Some (snapshot, g), p', eps'))"
  using assms by (auto simp: create_worker_register_def register_worker_def split: if_splits option.splits) metis

lemma register_lifecycle:
  assumes l: "lifecycle_at (SupRegisters site k port) w"
    and c: "create_worker_register k (sw_sup w) (sw_publication w) (sw_epochs w) = (CreateContinues, x, p, eps)"
  defines "w' \<equiv> goto (SupBuilds site k port) (sw_sup w) (set_local k x (set_pub_epochs p eps w))"
  shows "lifecycle_at (SupBuilds site k port) w'" "pub_moves w w'"
proof -
  have k: "k < workers w" "clean w k" "startup_rest site k w" "we_quiesced (sw_epochs w k) < wr_instance_id (rec_at (sw_sup w) k)"
    "wr_state (rec_at (sw_sup w) k) \<noteq> RecBackoff"
    using lifecycleD(5) [OF l] by simp_all
  note n = lifecycleD(1,2) [OF l]
  obtain snapshot g where x: "x = Some snapshot"
    and reg: "register_worker k (wr_instance_id (rec_at (sw_sup w) k)) k (sw_publication w) (sw_epochs w) = (Some (snapshot, g), p, eps)"
    using create_register_cases [OF c] by auto
  note s = register_shape [OF reg]
  have none: "pw_locals (sw_pub w) ! k = None"
    using lifecycleD(4) [OF l k(1)] k(2) by (auto simp: holds_snapshot_def has_instance_def clean_def)
  have o: "only_worker k w w'" using k(1) s n by (simp add: only_worker_def w'_def)
  have step: "pub_env_step (sw_pub w) (sw_pub w')"
    using step_register [OF _ none k(4) reg] k n x by (simp add: w'_def)
  show "lifecycle_at (SupBuilds site k port) w'"
  proof (rule lifecycle_only [OF l o])
    show "record_ok w' k"
      using k s n lifecycleD(3) [OF l k(1)] by (simp add: record_ok_def clean_def Let_def w'_def)
    show "pc_ok w' (SupBuilds site k port)"
      using k s n x only_workerD(1,8) [OF o] by (simp add: w'_def has_instance_def clean_def holds_snapshot_def)
  qed simp_all
  show "pub_moves w w'" using step by (simp add: pub_moves_def)
qed

lemma drop_lifecycle:
  fixes pc :: sup_pc
  assumes l: "lifecycle_at (SupBuilds site k port) w"
  defines "w' \<equiv> goto pc (sw_sup w) (set_local k None w)"
  shows "lifecycle_at (create_failed site k e) w'" "pub_moves w w'"
proof -
  have k: "k < workers w" "\<not> has_instance w k" using lifecycleD(5) [OF l] by simp_all
  note n = lifecycleD(1,2) [OF l]
  have o: "only_worker k w w'" using k(1) n by (simp add: only_worker_def w'_def)
  show "lifecycle_at (create_failed site k e) w'"
  proof (rule lifecycle_only [OF l o])
    show "record_ok w' k"
      using k n lifecycleD(3) [OF l k(1)] by (simp add: record_ok_def clean_def Let_def w'_def has_instance_def)
  qed (use k n in \<open>simp_all add: w'_def holds_snapshot_def\<close>)
  show "pub_moves w w'"
    using step_drop [of k "sw_pub w"] k n by (simp add: w'_def pub_moves_def)
qed

lemma install_lifecycle:
  fixes pc :: sup_pc
  assumes l: "lifecycle_at (SupInstalls site k port bound) w"
  defines "w' \<equiv> goto pc (create_worker_install k bound (sw_sup w)) w"
  shows "lifecycle_at (created site k port bound (sw_sup w)) w'"
proof -
  have k: "k < workers w" "\<not> has_instance w k" "startup_rest site k w" "holds_snapshot w k" "fp_registry (sw_publication w) ! k = Some k"
    using lifecycleD(5) [OF l] by simp_all
  have th: "wr_thread (rec_at (sw_sup w) k) = None"
    using lifecycleD(3) [OF l k(1)] k(2) by (cases "wr_thread (rec_at (sw_sup w) k)") (auto simp: record_ok_def has_instance_def Let_def)
  have o: "only_worker k w w'" using k(1) by (simp add: only_worker_def w'_def create_worker_install_def)
  note d = only_workerD [OF o]
  have u: "unstarted w' k" using k(1) th by (simp add: unstarted_def has_instance_def w'_def create_worker_install_def)
  show ?thesis
  proof (rule lifecycle_only [OF l o])
    show "record_ok w' k"
      using k th lifecycleD(3) [OF l k(1)] by (simp add: record_ok_def Let_def w'_def create_worker_install_def holds_snapshot_def)
    have s: "unstarted w' j" if "site = AtStartup" "j \<le> k" for j
      using that k u d(5) [of j] by (cases "j = k") (auto simp: startup_rest_def)
    have c: "clean w' j" if "site = AtStartup" "k < j" "j < workers w" for j
      using that k d(3) [of j] by (auto simp: startup_rest_def)
    show "pc_ok w' (created site k port bound (sw_sup w))"
      using k(1) d(1) u s c
      by (cases site) (auto simp: created_def startup_rest_def unstarted_def)
  qed (use u in \<open>auto simp: unstarted_def\<close>)
qed

lemma spawn_lifecycle:
  assumes l: "lifecycle_at (SupSpawns site k) w" and c: "start_worker_thread_spawn k refused (sw_sup w) = (c, s)"
  shows "lifecycle_at (after_create c (start_failed site k) (started site k s)) (goto pc s w)"
proof -
  have k: "k < workers w" "unstarted w k" using lifecycleD(5) [OF l] by simp_all
  have a: "has_instance w j \<and> (k \<le> j \<longrightarrow> unstarted w j)" if "site = AtStartup" "j < workers w" for j
    using lifecycleD(5) [OF l] that by simp
  show ?thesis
  proof (cases refused)
    case (Some n)
    then show ?thesis
      using c k by (intro lifecycle_keeps [OF l]) (auto simp: start_worker_thread_spawn_def after_create_def)
  next
    case None
    let ?w = "goto pc s w"
    have s: "c = CreateContinues" "s = on_record k (\<lambda>r. r\<lparr>wr_thread := Some \<lparr>wt_instance = wr_instance_id r, wt_pc = WorkerEnters\<rparr>\<rparr>) (sw_sup w)"
      using c None by (auto simp: start_worker_thread_spawn_def)
    have o: "only_worker k w ?w" using k(1) by (simp add: only_worker_def s)
    note d = only_workerD [OF o]
    have h: "has_instance ?w k" using k by (simp add: has_instance_def unstarted_def s)
    show ?thesis
    proof (rule lifecycle_only [OF l o])
      show "record_ok ?w k"
        using k lifecycleD(3) [OF l k(1)] by (simp add: record_ok_def Let_def clean_def s holds_snapshot_def unstarted_def has_instance_def)
      have "has_instance ?w j" "k < j \<Longrightarrow> unstarted ?w j" if "site = AtStartup" "j < workers w" for j
        using a [OF that] that d(4,5) [of j] h by (cases "j = k"; auto)+
      then show "pc_ok ?w (after_create c (start_failed site k) (started site k s))"
        using k(1) d(1) s by (cases site) (auto simp: after_create_def started_def)
    qed (use h in auto)
  qed
qed

lemma join_destroy_lifecycle:
  fixes pc :: sup_pc
  assumes l: "lifecycle_at (SupJoins JoinDestroys k site) w"
  defines "w' \<equiv> goto pc (join_reset k (sw_sup w)) (set_local k None w)"
  shows "lifecycle_at (SupJoins JoinQuiesces k site) w'" "pub_moves w w'"
proof -
  have k: "k < workers w" using lifecycleD(5) [OF l] by simp
  note n = lifecycleD(1,2) [OF l]
  have o: "only_worker k w w'" using k n by (simp add: only_worker_def w'_def join_reset_def)
  show "lifecycle_at (SupJoins JoinQuiesces k site) w'"
  proof (rule lifecycle_only [OF l o])
    show "record_ok w' k"
      using k n lifecycleD(3) [OF l k] by (simp add: record_ok_def Let_def w'_def join_reset_def clean_def)
  qed (use lifecycleD(5) [OF l] n in \<open>simp_all add: w'_def join_reset_def has_instance_def holds_snapshot_def\<close>)
  show "pub_moves w w'"
    using step_drop [of k "sw_pub w"] k n by (simp add: w'_def pub_moves_def)
qed

lemma quiesce_shape:
  assumes "quiesce_worker k inst k p eps = (p', eps')"
  shows "length (fp_registry p') = length (fp_registry p)" "j \<noteq> k \<Longrightarrow> fp_registry p' ! j = fp_registry p ! j" "j \<noteq> k \<Longrightarrow> eps' j = eps j"
    "k < length (fp_registry p) \<Longrightarrow> fp_registry p ! k = None \<or> fp_registry p ! k = Some k \<and> we_instance (eps k) = inst \<Longrightarrow> fp_registry p' ! k = None"
    "we_quiesced (eps' k) = we_quiesced (eps k) \<or> we_quiesced (eps' k) = inst"
  using assms by (auto simp: quiesce_worker_def publish_progress_def split: if_splits)

lemma join_quiesce_lifecycle:
  fixes pc :: sup_pc
  assumes l: "lifecycle_at (SupJoins JoinQuiesces k site) w" and inv: "pub_inv (sw_pub w)"
    and q: "quiesce_worker k (wr_instance_id (rec_at (sw_sup w) k)) k (sw_publication w) (sw_epochs w) = (p, eps)"
  defines "w' \<equiv> goto pc (sw_sup w) (set_pub_epochs p eps w)"
  shows "lifecycle_at (SupJoins JoinEnds k site) w'" "pub_moves w w'"
proof -
  have k: "k < workers w" "\<not> has_instance w k" using lifecycleD(5) [OF l] by simp_all
  note n = lifecycleD(1,2) [OF l]
  have none: "pw_locals (sw_pub w) ! k = None"
    using lifecycleD(4) [OF l k(1)] k(2) by (auto simp: holds_snapshot_def)
  note ok = lifecycleD(3) [OF l k(1), unfolded record_ok_def Let_def]
  have th: "wr_thread (rec_at (sw_sup w) k) = None"
    using ok k(2) by (cases "wr_thread (rec_at (sw_sup w) k)") (auto simp: has_instance_def)
  have "fp_registry (sw_publication w) ! k = None \<or> fp_registry (sw_publication w) ! k = Some k"
    using inv k(1) n by (cases "fp_registry (sw_publication w) ! k") (auto simp: pub_inv_def)
  then have r: "fp_registry p ! k = None"
    using quiesce_shape(4) [OF q] k(1) n ok by auto
  have o: "only_worker k w w'" using k(1) quiesce_shape(1-3) [OF q] by (simp add: only_worker_def w'_def)
  have c: "clean w' k" using k(2) th r by (simp add: clean_def w'_def has_instance_def)
  show "lifecycle_at (SupJoins JoinEnds k site) w'"
  proof (rule lifecycle_only [OF l o])
    show "record_ok w' k"
      using c ok r quiesce_shape(5) [OF q] by (auto simp: record_ok_def Let_def w'_def clean_def)
  qed (use lifecycleD(5) [OF l] none c in \<open>simp_all add: w'_def holds_snapshot_def\<close>)
  show "pub_moves w w'"
    using step_quiesce [OF _ none q] k n by (simp add: w'_def pub_moves_def)
qed

lemma join_end_lifecycle:
  assumes l: "lifecycle_at (SupJoins JoinEnds k site) w"
  shows "lifecycle_at (joined True k site) (goto pc (join_end k (sw_sup w)) w)"
proof -
  have "keeps_records (sw_sup w) (join_end k (sw_sup w))"
    unfolding join_end_def by (rule keeps_records_on) simp
  moreover have "pc_ok w (joined True k site)"
    using lifecycleD(5) [OF l] by (cases site) (auto simp: joined_def split: join_site.splits)
  ultimately show ?thesis
    by (intro lifecycle_keeps [OF l]) auto
qed

lemma run_action_pc:
  assumes l: "pc_ok w (SupRuns (a # rest) exit)" and r: "run_action a rest exit (sw_sup w) = (pc, s)"
  shows "pc_ok w pc \<and> \<not> building pc j"
proof -
  have x: "final_exit (exit_after_join ok strict exit)" if "final_exit exit" for ok strict
    using that by (cases exit) (auto simp: exit_after_join_def)
  have y: "\<not> final_exit exit \<Longrightarrow> exit_after_join ok strict exit = exit" for ok strict
    by (cases exit) (auto simp: exit_after_join_def)
  show ?thesis
  proof (cases a)
    case (JoinWorkers k ok strict)
    then show ?thesis
      using l r x [of ok strict] by (cases exit) (auto simp: run_action_def exit_after_join_def split: if_splits)
  qed (use l r in \<open>auto simp: run_action_def split: if_splits prod.splits\<close>)
qed

lemma mark_moves:
  assumes "mark_worker_registered k inst k (sw_publication w) (sw_epochs w) = (r, eps)"
  shows "pub_env_step (sw_pub w) ((sw_pub w)\<lparr>pw_epochs := eps\<rparr>)"
  by (rule step_mark [OF assms])

lemma await_ready_moves:
  assumes "await_ready_record k s (sw_publication w) (sw_epochs w) = (e, s', eps)"
  shows "eps = sw_epochs w \<or> pub_env_step (sw_pub w) ((sw_pub w)\<lparr>pw_epochs := eps\<rparr>)"
  using assms mark_moves by (auto simp: await_ready_record_def Let_def split: if_splits prod.splits bool.splits)

lemma monitor_ready_moves:
  assumes "monitor_ready k s (sw_publication w) (sw_epochs w) = (e, s', eps)"
  shows "eps = sw_epochs w \<or> pub_env_step (sw_pub w) ((sw_pub w)\<lparr>pw_epochs := eps\<rparr>)"
  using assms mark_moves by (auto simp: monitor_ready_def split: if_splits prod.splits bool.splits)

lemma await_ready_lifecycle:
  assumes l: "lifecycle_at (SupReadyAt k) w" and r: "await_ready_record k (sw_sup w) (sw_publication w) (sw_epochs w) = (e, s, eps)"
    and pc: "pc_ok w pc" "\<And>j. \<not> building pc j"
  shows "lifecycle_at pc (goto pc s (set_epochs eps w)) \<and> pub_moves w (goto pc s (set_epochs eps w))"
  using await_ready_moves [OF r] await_ready_keeps [OF r] pc
  by (intro conjI lifecycle_keeps [OF l]) (auto simp: pub_moves_def)

lemma handled_lifecycle:
  assumes l: "lifecycle_at (SupHandled k f) w" and h: "handle_worker_failure_joined now k f (sw_sup w) = (r, s)"
    and pc: "pc_ok (goto pc s w) pc" "\<And>j. \<not> building pc j"
  shows "lifecycle_at pc (goto pc s w)"
proof -
  have k: "k < workers w" "clean w k" using lifecycleD(5) [OF l] by simp_all
  let ?r = "rec_at s k"
  have s: "length (sv_records s) = workers w" "sv_unexpected_stop s = sv_unexpected_stop (sw_sup w)" "\<And>j. j \<noteq> k \<Longrightarrow> rec_at s j = rec_at (sw_sup w) j"
    "wr_instance ?r = wr_instance (rec_at (sw_sup w) k)" "wr_thread ?r = wr_thread (rec_at (sw_sup w) k)"
    "wr_instance_id ?r = wr_instance_id (rec_at (sw_sup w) k)"
    using h k(1) by (auto simp: handle_worker_failure_joined_def Let_def split: if_splits)
  have o: "only_worker k w (goto pc s w)" using k(1) s by (simp add: only_worker_def)
  have c: "clean (goto pc s w) k" using k s by (simp add: clean_def)
  show ?thesis
    by (rule lifecycle_only [OF l o]) (use c pc lifecycleD(3,4) [OF l k(1)] s in \<open>auto simp: record_ok_def Let_def holds_snapshot_def has_instance_def clean_def\<close>)
qed

lemma monitor_rest_restarts: "monitor_rest now d k s = (RestRestarts, s') \<Longrightarrow> s' = s \<and> wr_state (rec_at s k) = RecBackoff"
  by (auto simp: monitor_rest_def Let_def split: if_splits)

lemma sup_thread_lifecycle:
  assumes step: "sup_thread_step w w'" and l: "lifecycle_at (sw_pc w) w" and inv: "pub_inv (sw_pub w)"
  shows "lifecycle_at (sw_pc w') w' \<and> pub_moves w w'"
  using step
proof cases
  case (c_run s)
  then show ?thesis
    using l other_keeps(1) [OF c_run(3)] lifecycleD(5) [OF l] by (auto simp: pub_moves_def intro!: lifecycle_keeps [OF l])
next
  case c_check
  have "pc_ok w (sw_pc w') \<and> \<not> building (sw_pc w') j" for j
    using c_check lifecycleD(5) [OF l] by (auto simp: valid_configuration_def startup_rest_def)
  then show ?thesis
    using c_check by (intro conjI lifecycle_keeps [OF l]) (auto simp: pub_moves_def)
next
  case (c_create site k port c s)
  then show ?thesis using create_begin_lifecycle [OF l [unfolded c_create(2)] c_create(3)] by (simp add: pub_moves_def)
next
  case (c_register_failed site k port e x p eps)
  have "p = sw_publication w" "eps = sw_epochs w" using create_register_cases [OF c_register_failed(3)] by auto
  then show ?thesis
    using c_register_failed lifecycleD(5) [OF l] by (auto simp: pub_moves_def intro!: lifecycle_keeps [OF l])
next
  case (c_register site k port x p eps)
  then show ?thesis using register_lifecycle [OF l [unfolded c_register(2)] c_register(3)] by simp
next
  case (c_build_failed site k port loop e)
  then show ?thesis using drop_lifecycle [OF l [unfolded c_build_failed(2)]] by simp
next
  case (c_build site k port loop bound)
  then show ?thesis using lifecycleD(5) [OF l] by (auto simp: pub_moves_def intro!: lifecycle_keeps [OF l])
next
  case (c_install site k port bound)
  then show ?thesis using install_lifecycle [OF l [unfolded c_install(2)]] by (simp add: pub_moves_def)
next
  case (c_start site k c s)
  then show ?thesis
    using lifecycleD(5) [OF l] other_keeps(2) [OF c_start(3)]
    by (auto simp: pub_moves_def after_create_def intro!: lifecycle_keeps [OF l] split: create_step.splits)
next
  case (c_spawn site k refused c s)
  then show ?thesis using spawn_lifecycle [OF l [unfolded c_spawn(2)] c_spawn(3)] by (simp add: pub_moves_def)
next
  case (c_join_destroy k site)
  then show ?thesis using join_destroy_lifecycle [OF l [unfolded c_join_destroy(2)]] by simp
next
  case (c_join_quiesce k site p eps)
  then show ?thesis using join_quiesce_lifecycle [OF l [unfolded c_join_quiesce(2)] inv c_join_quiesce(3)] by simp
next
  case (c_join_end k site)
  then show ?thesis using join_end_lifecycle [OF l [unfolded c_join_end(2)]] by (simp add: pub_moves_def)
next
  case (c_action a rest exit pc s)
  then show ?thesis
    using run_action_pc [of w a rest exit pc s] lifecycleD(5) [OF l] other_keeps(9) [OF c_action(3)]
    by (auto simp: pub_moves_def intro!: lifecycle_keeps [OF l])
next
  case (c_ready_failed k e s eps)
  then show ?thesis using await_ready_lifecycle [OF l [unfolded c_ready_failed(2)] c_ready_failed(3)] by simp
next
  case (c_ready_next k s eps)
  then show ?thesis
    using await_ready_lifecycle [OF l [unfolded c_ready_next(2)] c_ready_next(3)] lifecycleD(5) [OF l] await_ready_keeps(1) [OF c_ready_next(3)]
    by (simp add: keeps_records_def)
next
  case (c_ready_wait k s eps)
  then show ?thesis
    using await_ready_lifecycle [OF l [unfolded c_ready_wait(2)] c_ready_wait(3), of SupReadyRound] lifecycleD(5) [OF l] by force
next
  case (c_ready_done k s eps i)
  have "pc_ok w (sw_pc w') \<and> \<not> building (sw_pc w') j" for j
    using c_ready_done(1,2) lifecycleD(5) [OF l] by auto
  then show ?thesis
    using await_ready_lifecycle [OF l [unfolded c_ready_done(2)] c_ready_done(3), of "sw_pc w'"] c_ready_done(1) by simp
next
  case (c_visit_ready k progressed deadline r s eps)
  have "pc_ok w (sw_pc w') \<and> \<not> building (sw_pc w') j" for j
    using c_visit_ready lifecycleD(5) [OF l] monitor_ready_keeps(1) [OF c_visit_ready(3)]
    by (cases r) (auto simp: visit_next_def round_end_def keeps_records_def)
  then show ?thesis
    using c_visit_ready monitor_ready_keeps [OF c_visit_ready(3)] monitor_ready_moves [OF c_visit_ready(3)]
    by (intro conjI lifecycle_keeps [OF l]) (auto simp: pub_moves_def)
next
  case (c_activation r s)
  have "pc_ok w (sw_pc w') \<and> \<not> building (sw_pc w') j" for j
    using c_activation lifecycleD(5) [OF l] by (cases r) auto
  then show ?thesis
    using c_activation activation_round_keeps [OF c_activation(3)] by (intro conjI lifecycle_keeps [OF l]) (auto simp: pub_moves_def)
next
  case (c_monitor failed r s)
  have u: "fst target < workers w" if "r = MonitorStops target" for target
    using that c_monitor(3) lifecycleD(6) [OF l]
    by (cases target) (auto simp: monitor_round_begin_def Let_def split: if_splits option.splits prod.splits)
  have "pc_ok w (sw_pc w') \<and> \<not> building (sw_pc w') j" for j
    using c_monitor lifecycleD(5) [OF l] u by (cases r) auto
  then show ?thesis
    using c_monitor monitor_begin_keeps [OF c_monitor(3)] by (intro conjI lifecycle_keeps [OF l]) (auto simp: pub_moves_def)
next
  case (c_stop_instance target)
  then show ?thesis
    using lifecycleD(5) [OF l] other_keeps(8) [of "sw_sup w" target]
    by (intro conjI lifecycle_keeps [OF l]) (auto simp: pub_moves_def)
next
  case (c_visit k progressed deadline)
  then show ?thesis
    using lifecycleD(5) [OF l] by (intro conjI lifecycle_keeps [OF l]) (auto simp: pub_moves_def split: option.splits)
next
  case (c_release k progressed deadline now r s)
  have "pc_ok w (sw_pc w') \<and> \<not> building (sw_pc w') j" for j
    using c_release lifecycleD(5) [OF l] by (cases r) auto
  then show ?thesis
    using c_release other_keeps(3) [OF c_release(3)] by (intro conjI lifecycle_keeps [OF l]) (auto simp: pub_moves_def)
next
  case (c_rest k progressed deadline now r s)
  have "pc_ok w (sw_pc w') \<and> \<not> building (sw_pc w') j" for j
  proof (cases r)
    case RestRestarts
    have k: "k < workers w" using lifecycleD(5) [OF l] c_rest(2) by simp
    then have "clean w k"
      using lifecycleD(3) [OF l k] monitor_rest_restarts [OF c_rest(3) [unfolded RestRestarts]] by (simp add: record_ok_def Let_def)
    then show ?thesis using c_rest(1) k RestRestarts by (simp add: startup_rest_def)
  next
    case (RestNext d)
    then show ?thesis
      using c_rest(1,2) lifecycleD(5) [OF l] other_keeps(4) [OF c_rest(3)] by (auto simp: visit_next_def round_end_def keeps_records_def)
  qed (use c_rest(1,2) lifecycleD(5) [OF l] in auto)
  then show ?thesis
    using c_rest other_keeps(4) [OF c_rest(3)] by (intro conjI lifecycle_keeps [OF l]) (auto simp: pub_moves_def)
next
  case (c_handle k failure r s)
  then show ?thesis
    using lifecycleD(5) [OF l] handle_begin_keeps [OF c_handle(3)]
    by (intro conjI lifecycle_keeps [OF l]) (auto simp: pub_moves_def split: option.splits)
next
  case (c_handled k failure now r s)
  have "length (sv_records s) = workers w"
    using c_handled(3) by (auto simp: handle_worker_failure_joined_def Let_def split: if_splits)
  then have "pc_ok w' (sw_pc w') \<and> \<not> building (sw_pc w') j" for j
    using c_handled(1,2) lifecycleD(5) [OF l] by (cases r) auto
  then show ?thesis
    using handled_lifecycle [OF l [unfolded c_handled(2)] c_handled(3), of "sw_pc w'"] c_handled(1) by (simp add: pub_moves_def)
next
  case (c_fail failure report s)
  then show ?thesis
    using other_keeps(5) [OF c_fail(3)] by (intro conjI lifecycle_keeps [OF l]) (auto simp: pub_moves_def)
next
  case (c_join_begin k site r s)
  have "pc_ok w (sw_pc w') \<and> \<not> building (sw_pc w') j" for j
    using c_join_begin(1,2) lifecycleD(5) [OF l] by (cases site) (auto simp: joined_def)
  then show ?thesis
    using c_join_begin other_keeps(6) [OF c_join_begin(3)] by (intro conjI lifecycle_keeps [OF l]) (auto simp: pub_moves_def)
next
  case (c_join_wait k site)
  then show ?thesis
    using lifecycleD(5) [OF l] other_keeps(7) [of "sw_sup w" k] by (intro conjI lifecycle_keeps [OF l]) (auto simp: pub_moves_def)
next
  case (c_exit exit)
  have "pc_ok w (sw_pc w') \<and> \<not> building (sw_pc w') j" for j
    using c_exit lifecycleD(5) [OF l] by (cases exit) (auto simp: run_exit_def)
  then show ?thesis
    using c_exit by (intro conjI lifecycle_keeps [OF l]) (auto simp: pub_moves_def)
next
  case (c_health pc)
  then show ?thesis
    using lifecycleD(5) [OF l] by (intro conjI lifecycle_keeps [OF l]) (auto simp: pub_moves_def keeps_records_eq)
qed (insert lifecycleD(5) [OF l], auto simp: pub_moves_def keeps_records_eq intro!: lifecycle_keeps [OF l])

lemma sup_env_lifecycle:
  assumes step: "sup_env_step w w'" and l: "lifecycle_at (sw_pc w) w"
  shows "lifecycle_at (sw_pc w') w' \<and> (sw_pub w' = sw_pub w \<or> pub_step (sw_pub w) (sw_pub w'))"
  using step
proof cases
  case (e_publication p)
  have s: "same_workers w w'"
    using e_publication by (simp add: same_workers_def holds_snapshot_def)
  show ?thesis
    using e_publication same_workers_pc [OF s lifecycleD(5) [OF l]] lifecycleD(6) [OF l]
    by (intro conjI lifecycle_same [OF l s]) auto
next
  case (e_stopper j t s)
  then show ?thesis
    using stopper_step_frame [OF e_stopper(4)] lifecycleD(5) [OF l]
    by (intro conjI lifecycle_keeps [OF l]) (auto simp: keeps_records_eq)
next
  case (e_activate r s)
  then show ?thesis
    using other_keeps(10) [OF e_activate(3)] lifecycleD(5) [OF l] by (intro conjI lifecycle_keeps [OF l]) auto
next
  case (e_release r s)
  then show ?thesis
    using other_keeps(11) [OF e_release(3)] lifecycleD(5) [OF l] by (intro conjI lifecycle_keeps [OF l]) auto
next
  case (e_unexpected_stop k r s)
  then show ?thesis
    using other_keeps(12) [OF e_unexpected_stop(3)] lifecycleD(5) [OF l] by (intro conjI lifecycle_keeps [OF l]) auto
next
  case (e_precommit_failure k r s)
  then show ?thesis
    using other_keeps(13) [OF e_precommit_failure(3)] lifecycleD(5) [OF l] by (intro conjI lifecycle_keeps [OF l]) auto
qed (insert lifecycleD(5) [OF l], (intro conjI lifecycle_keeps [OF l]; auto simp: keeps_records_eq)+)

lemma worker_step_lifecycle:
  assumes s: "worker_step k t w w'" and k: "k < workers w" and t: "wr_thread (rec_at (sw_sup w) k) = Some t"
    and l: "lifecycle_at (sw_pc w) w"
  shows "lifecycle_at (sw_pc w') w' \<and> pub_moves w w'"
proof -
  note n = lifecycleD(1) [OF l]
  have same: "same_workers w w'" by (rule worker_step_same [OF s k n t])
  have c: "sw_pc w' = sw_pc w" "sv_unexpected_stop (sw_sup w') = sv_unexpected_stop (sw_sup w)"
    using worker_step_changes [OF s k n t] by simp_all
  have "pub_moves w w'" using worker_step_pub [OF s k n] by (auto simp: pub_moves_def)
  moreover have "lifecycle_at (sw_pc w') w'"
    unfolding c(1) by (rule lifecycle_same [OF l same same_workers_pc [OF same lifecycleD(5) [OF l]]]) (use c lifecycleD(6) [OF l] in auto)
  ultimately show ?thesis by blast
qed

lemma sup_step_lifecycle:
  assumes "sup_step w w'" "lifecycle_at (sw_pc w) w" "pub_inv (sw_pub w)"
  shows "lifecycle_at (sw_pc w') w' \<and> (sw_pub w' = sw_pub w \<or> pub_step (sw_pub w) (sw_pub w'))"
  using assms sup_thread_lifecycle [of w w'] worker_step_lifecycle sup_env_lifecycle [of w w'] step_env [of "sw_pub w" "sw_pub w'"]
  by (elim sup_step.cases; unfold pub_moves_def) blast+

lemma sup_lifecycle:
  assumes "sup_reachable config initial n timeout w"
  shows "lifecycle_at (sw_pc w) w \<and> pub_reachable initial n timeout (sw_pub w)"
  using assms
proof induction
  case (sup_new p s p')
  have p': "p' = set_publication_sink True p" and s: "sv_records s = replicate n new_record" "sv_unexpected_stop s = None"
    using sup_new(2) by (auto simp: new_supervisor_def)
  have "fp_registry p = replicate n None" using sup_new(1) by (auto simp: new_publication_def split: if_splits)
  then show ?case
    using reach_step [OF reach_new [OF sup_new(1)] step_env [OF step_sink [of _ True]]] s p'
    by (auto simp: lifecycle_at_def record_ok_def clean_def new_record_def set_publication_sink_def holds_snapshot_def Let_def)
next
  case (sup_then w w')
  have "pub_inv (sw_pub w)" using sup_then.IH pub_reachable_inv by blast
  then show ?case
    using sup_step_lifecycle [OF sup_then(2)] sup_then.IH reach_step [of initial n timeout "sw_pub w" "sw_pub w'"]
    by metis
qed

section \<open>The supervisor keeps the protocol of the publication\<close>

text \<open>
  C17. Refinement: whatever the supervisor thread, the workers and all other threads do, in any order, the
  calls on the filter publication are those that its protocol allows: an instance is registered only when
  the one before it is gone and quiesced, with a larger number; it is quiesced only after its snapshot is
  dropped.  So every state of the publication that the supervisor reaches is one of \<open>pub_reachable\<close>.  And in
  each such state a thread runs the current instance of its worker, which is registered and holds a
  snapshot.
\<close>

theorem supervisor_refines_publication:
  assumes "sup_reachable config initial n timeout w"
  shows "pub_reachable initial n timeout (sw_pub w)
    \<and> (\<forall>k t. k < workers w \<longrightarrow> wr_thread (rec_at (sw_sup w) k) = Some t \<longrightarrow>
      wt_instance t = wr_instance_id (rec_at (sw_sup w) k) \<and> wr_instance (rec_at (sw_sup w) k) \<noteq> None
      \<and> fp_registry (sw_publication w) ! k = Some k \<and> we_instance (sw_epochs w k) = wt_instance t
      \<and> pw_locals (sw_pub w) ! k \<noteq> None)"
proof -
  note l = sup_lifecycle [OF assms]
  have "record_ok w k" if "k < workers w" for k using l that by (simp add: lifecycle_at_def)
  with l show ?thesis
    unfolding record_ok_def Let_def holds_snapshot_def by force
qed

end
