(* ===== verification/SupervisorProtocol.thy ===== *)
theory SupervisorProtocol
  imports SupervisorLifecycle
begin

text \<open>
  What the supervisor promises the service, as invariants of every interleaving of its thread, the workers
  and their environment: \<open>stops_at\<close> (a stop reaches every instance, and what is joined has been asked to stop), \<open>results_at\<close> (the
  startup and activation results are published before the thread function returns), \<open>pc_joins\<close> (what is
  joined is gone) and \<open>budget_at\<close> (restarts stay within the configured budget and backoff).
\<close>

section \<open>A stop reaches every worker\<close>

text \<open>What a thread in \<open>request_all_worker_stops\<close> has done so far.\<close>

definition stopper_ok :: "supervisor \<Rightarrow> stopper \<Rightarrow> bool" where
  "stopper_ok s t \<longleftrightarrow>
     (case t of
        StopperAt k \<Rightarrow> \<forall>j < length (sv_records s). j < k \<longrightarrow> instance_stopped s j
      | StopperHolds k source \<Rightarrow> k < length (sv_records s) \<and> source = source_of s k
          \<and> (\<forall>j < length (sv_records s). j < k \<longrightarrow> instance_stopped s j))"

fun pc_stops :: "supervisor \<Rightarrow> sup_pc \<Rightarrow> bool" where
  "pc_stops s (SupRuns acts exit) \<longleftrightarrow> (\<forall>t. StopWorkers t \<in> set acts \<longrightarrow> stopper_ok s t)"
| "pc_stops s (SupJoins stage k site) \<longleftrightarrow> (stage \<noteq> JoinBegins \<longrightarrow> instance_stopped s k)
     \<and> (case site of JoinAll ok strict rest exit \<Rightarrow> \<forall>t. StopWorkers t \<in> set rest \<longrightarrow> stopper_ok s t | JoinFailure f \<Rightarrow> True)"
| "pc_stops s (SupHealth pc) \<longleftrightarrow> pc_stops s pc"
| "pc_stops s _ \<longleftrightarrow> True"

definition stops_at :: "sup_pc \<Rightarrow> sup_world \<Rightarrow> bool" where
  "stops_at pc w \<longleftrightarrow> (\<forall>t \<in> set (sw_stoppers w). sv_stop_requested (sw_sup w) \<and> stopper_ok (sw_sup w) t) \<and> pc_stops (sw_sup w) pc"

text \<open>Steps after which the instances are the same and no stop is taken back.\<close>

definition same_instances :: "supervisor \<Rightarrow> supervisor \<Rightarrow> bool" where
  "same_instances s s' \<longleftrightarrow> length (sv_records s') = length (sv_records s)
     \<and> (\<forall>k < length (sv_records s). wr_instance_id (rec_at s' k) = wr_instance_id (rec_at s k))
     \<and> sv_stopped s \<subseteq> sv_stopped s' \<and> (sv_stop_requested s \<longrightarrow> sv_stop_requested s')"

lemma same_instances_refl [simp]: "same_instances s s"
  by (simp add: same_instances_def)

lemma keeps_instances:
  "keeps_records s s' \<Longrightarrow> sv_stopped s' = sv_stopped s \<Longrightarrow> sv_stop_requested s' = sv_stop_requested s \<Longrightarrow> same_instances s s'"
  by (simp add: same_instances_def keeps_records_def same_record_def)

lemma same_instances_stopped:
  "same_instances s s' \<Longrightarrow> k < length (sv_records s) \<Longrightarrow> instance_stopped s k \<Longrightarrow> instance_stopped s' k"
  by (auto simp: same_instances_def instance_stopped_def source_of_def)

lemma same_instances_stopper: "same_instances s s' \<Longrightarrow> stopper_ok s t \<Longrightarrow> stopper_ok s' t"
  using same_instances_stopped by (auto simp: stopper_ok_def source_of_def same_instances_def [THEN iffD1, THEN conjunct1]
      dest: same_instances_def [THEN iffD1] split: stopper.splits)

lemma stopper_ok_start [simp]: "stopper_ok s (StopperAt 0)"
  by (simp add: stopper_ok_def)

lemma stopper_ok_step:
  assumes "stopper_ok s t" "stopper_step t s = (t', s')"
  shows "stopper_ok s' t' \<and> same_instances s s'"
  using assms
  by (auto simp: stopper_step_def stopper_ok_def stop_source_def same_instances_def instance_stopped_def source_of_def less_Suc_eq
      split: stopper.splits if_splits)

lemma pc_stops_same:
  assumes s: "same_instances s s'" and w: "pc_ok w pc" "sw_sup w = s"
  shows "pc_stops s pc \<Longrightarrow> pc_stops s' pc"
  using w
proof (induction pc)
  case (SupJoins stage k site)
  then show ?case
    using s same_instances_stopped [OF s, of k] same_instances_stopper [OF s] by (auto split: join_site.splits)
qed (use same_instances_stopper [OF s] in auto)

lemma stops_same:
  assumes "stops_at pc w" "same_instances (sw_sup w) (sw_sup w')" "sw_stoppers w' = sw_stoppers w" "pc_stops (sw_sup w') pc'"
  shows "stops_at pc' w'"
  using assms same_instances_stopper [OF assms(2)] by (auto simp: stops_at_def same_instances_def)

lemma pc_stops_exits [simp]:
  "pc_stops s abrupt_exit" "pc_stops s (startup_fails e)" "pc_stops s (run_rejected e a r)" "pc_stops s (monitor_returns r)"
  "pc_stops s (activation_fails ae)" "pc_stops s emergency_join_all" "pc_stops s (recovery_error k e)"
  "pc_stops s (create_failed site k e)" "pc_stops s (start_failed site k e)" "pc_stops s (visit_next k progressed d s0)"
  by (simp_all add: abrupt_exit_def startup_fails_def run_rejected_def monitor_returns_def activation_fails_def emergency_join_all_def
      recovery_error_def create_failed_def start_failed_def visit_next_def round_end_def split: create_site.splits)

lemma same_instances_on: "(\<And>r. wr_instance_id (f r) = wr_instance_id r) \<Longrightarrow> same_instances s (on_record k f s)"
  by (cases "k < length (sv_records s)") (auto simp: same_instances_def on_record_def nth_list_update)

lemma same_instances_trans: "same_instances a b \<Longrightarrow> same_instances b c \<Longrightarrow> same_instances a c"
  by (auto simp: same_instances_def)

lemma same_instances_health [simp]: "same_instances s (on_health f s') \<longleftrightarrow> same_instances s s'"
  by (simp add: same_instances_def)

lemma same_instances_eqI:
  "sv_records s' = sv_records s \<Longrightarrow> sv_stopped s \<subseteq> sv_stopped s' \<Longrightarrow> (sv_stop_requested s \<Longrightarrow> sv_stop_requested s') \<Longrightarrow> same_instances s s'"
  by (simp add: same_instances_def)

lemma operations_same_instances:
  "run_begin_supervisor s = (x1, s') \<Longrightarrow> same_instances s s'"
  "start_worker_thread_begin k s = (c, s') \<Longrightarrow> same_instances s s'"
  "start_worker_thread_spawn k refused s = (c, s') \<Longrightarrow> same_instances s s'"
  "await_ready_record k s p eps = (x2, s', eps') \<Longrightarrow> same_instances s s'"
  "await_activation_round s = (x3, s') \<Longrightarrow> same_instances s s'"
  "monitor_round_begin failed s = (x4, s') \<Longrightarrow> same_instances s s'"
  "monitor_ready k s p eps = (v, s', eps') \<Longrightarrow> same_instances s s'"
  "monitor_activated now k s = (v, s') \<Longrightarrow> same_instances s s'"
  "monitor_rest now d k s = (x5, s') \<Longrightarrow> same_instances s s'"
  "handle_worker_failure_begin k f s = (x6, s') \<Longrightarrow> same_instances s s'"
  "handle_worker_failure_joined now k f s = (x7, s') \<Longrightarrow> same_instances s s'"
  "fail_worker_service_begin f s = (b, s') \<Longrightarrow> same_instances s s'"
proof -
  show "run_begin_supervisor s = (x1, s') \<Longrightarrow> same_instances s s'"
    by (auto simp: run_begin_supervisor_def intro!: same_instances_eqI split: if_splits)
  show "start_worker_thread_begin k s = (c, s') \<Longrightarrow> same_instances s s'"
    by (auto simp: start_worker_thread_begin_def Let_def intro!: same_instances_on split: if_splits)
  show "start_worker_thread_spawn k refused s = (c, s') \<Longrightarrow> same_instances s s'"
    by (auto simp: start_worker_thread_spawn_def intro!: same_instances_on split: option.splits)
  show "await_ready_record k s p eps = (x2, s', eps') \<Longrightarrow> same_instances s s'"
    by (auto simp: await_ready_record_def Let_def intro!: same_instances_on split: if_splits prod.splits bool.splits)
  show "await_activation_round s = (x3, s') \<Longrightarrow> same_instances s s'"
    by (rule keeps_instances [OF activation_round_keeps])
      (auto simp: await_activation_round_def Let_def split: if_splits option.splits)
  show "monitor_round_begin failed s = (x4, s') \<Longrightarrow> same_instances s s'"
    by (rule keeps_instances [OF monitor_begin_keeps])
      (auto simp: monitor_round_begin_def Let_def split: if_splits option.splits prod.splits)
  show "monitor_ready k s p eps = (v, s', eps') \<Longrightarrow> same_instances s s'"
    by (auto simp: monitor_ready_def intro!: same_instances_on split: if_splits prod.splits bool.splits)
  show "monitor_activated now k s = (v, s') \<Longrightarrow> same_instances s s'"
    by (auto simp: monitor_activated_def intro!: same_instances_on split: if_splits)
  show "monitor_rest now d k s = (x5, s') \<Longrightarrow> same_instances s s'"
    by (auto simp: monitor_rest_def Let_def intro!: same_instances_on split: if_splits)
  show "handle_worker_failure_begin k f s = (x6, s') \<Longrightarrow> same_instances s s'"
    by (rule keeps_instances [OF handle_begin_keeps])
      (auto simp: handle_worker_failure_begin_def Let_def split: if_splits)
  show "handle_worker_failure_joined now k f s = (x7, s') \<Longrightarrow> same_instances s s'"
    by (auto simp: handle_worker_failure_joined_def Let_def intro!: same_instances_on same_instances_trans [OF same_instances_on same_instances_on]
        split: if_splits)
  show "fail_worker_service_begin f s = (b, s') \<Longrightarrow> same_instances s s'"
    by (auto simp: fail_worker_service_begin_def)
qed

lemma joins_same_instances:
  "join_begin k s = (b, s') \<Longrightarrow> same_instances s s' \<and> (k < length (sv_records s) \<longrightarrow> instance_stopped s' k)"
  "same_instances s (join_joined k s)" "same_instances s (join_reset k s)" "same_instances s (join_end k s)"
  "same_instances s (stop_instance target s)" "same_instances s (create_worker_install k port s)"
  "same_instances s (publish_health s)" "same_instances s (fail_worker_service_report report f s)"
proof -
  have x: "same_instances s (stop_source (source_of s k) s)" by (simp add: same_instances_def stop_source_def subset_insertI)
  show "join_begin k s = (b, s') \<Longrightarrow> same_instances s s' \<and> (k < length (sv_records s) \<longrightarrow> instance_stopped s' k)"
    using x same_instances_trans [OF x same_instances_on, of "\<lambda>r. r\<lparr>wr_state := RecStopping\<rparr>" k]
    by (auto simp: join_begin_def Let_def instance_stopped_def source_of_def same_instances_def stop_source_def split: if_splits)
  show "same_instances s (join_joined k s)"
    unfolding join_joined_def by (rule same_instances_on) (simp add: Let_def)
  show "same_instances s (join_reset k s)" "same_instances s (join_end k s)"
    "same_instances s (stop_instance target s)" "same_instances s (create_worker_install k port s)"
    by (simp_all add: join_reset_def join_end_def stop_instance_def create_worker_install_def same_instances_on)
  show "same_instances s (publish_health s)" "same_instances s (fail_worker_service_report report f s)"
    by (auto simp: publish_health_def fail_worker_service_report_def intro!: same_instances_eqI)
qed

lemma run_action_stops:
  assumes p: "pc_stops s (SupRuns (a # rest) exit)" and r: "run_action a rest exit s = (pc, s')"
  shows "same_instances s s' \<and> pc_stops s' pc"
proof (cases a)
  case (StopWorkers t)
  show ?thesis
  proof (cases "stopper_done s t")
    case True
    then show ?thesis using p r StopWorkers by (auto simp: run_action_def)
  next
    case False
    obtain t1 where t: "stopper_step t s = (t1, s')" "pc = SupRuns (StopWorkers t1 # rest) exit"
      using r StopWorkers False by (auto simp: run_action_def split: prod.splits)
    then show ?thesis
      using p StopWorkers stopper_ok_step [of s t t1 s'] same_instances_stopper [of s s'] by auto
  qed
next
  case (PublishStartup x)
  then have s: "s' = publish_startup x s" "pc = SupRuns rest exit" using r by (auto simp: run_action_def)
  have i: "same_instances s s'" unfolding s by (auto simp: publish_startup_def intro!: same_instances_eqI)
  with p s same_instances_stopper [OF i] show ?thesis by auto
next
  case (PublishActivation x)
  then have s: "s' = publish_activation x s" "pc = SupRuns rest exit" using r by (auto simp: run_action_def)
  have i: "same_instances s s'" unfolding s by (auto simp: publish_activation_def intro!: same_instances_eqI)
  with p s same_instances_stopper [OF i] show ?thesis by auto
next
  case (JoinWorkers k ok strict)
  then show ?thesis using p r by (auto simp: run_action_def split: if_splits)
next
  case FinishRun
  then have s: "s' = finish_supervisor_run s" "pc = SupRuns rest exit" using r by (auto simp: run_action_def)
  have i: "same_instances s s'" unfolding s by (auto simp: finish_supervisor_run_def intro!: same_instances_eqI)
  with p s same_instances_stopper [OF i] show ?thesis by auto
next
  case EmergencyStop
  then have s: "s' = request_stop s" "pc = SupRuns rest exit" using r by (auto simp: run_action_def)
  have i: "same_instances s s'" unfolding s by (auto simp: request_stop_def intro!: same_instances_eqI)
  with p s same_instances_stopper [OF i] show ?thesis by auto
next
  case EmergencyCheck
  have "same_instances s (s\<lparr>sv_emergency_join_failure := False\<rparr>)" by (intro same_instances_eqI) auto
  with p r EmergencyCheck show ?thesis by (auto simp: run_action_def split: if_splits)
qed

lemma create_begin_stops:
  assumes p: "stops_at (SupCreates site k port) w" and c: "create_worker_begin k (sw_sup w) = (c, s)"
  shows "stops_at (after_create c (create_failed site k) (SupRegisters site k port)) (goto pc s w)"
proof -
  have pc: "pc_stops s (after_create c (create_failed site k) (SupRegisters site k port))" for s
    by (simp add: after_create_def split: create_step.splits)
  show ?thesis
  proof (cases "sw_stoppers w = []")
    case True
    then show ?thesis using pc by (simp add: stops_at_def)
  next
    case False
    then have "sv_stop_requested (sw_sup w)" using p by (cases "sw_stoppers w") (auto simp: stops_at_def)
    then have "s = sw_sup w" using create_begin_cases [OF c] by (auto simp: stop_requested_locked_def)
    then show ?thesis using p pc by (simp add: stops_at_def)
  qed
qed

lemma sup_thread_stops:
  assumes step: "sup_thread_step w w'" and p: "stops_at (sw_pc w) w" and l: "pc_ok w (sw_pc w)"
  shows "stops_at (sw_pc w') w'"
  using step
proof cases
  case (c_create site k port c s)
  then show ?thesis using create_begin_stops [OF p [unfolded c_create(2)] c_create(3)] by simp
next
  case (c_run s)
  then show ?thesis using operations_same_instances(1) [OF c_run(3)] by (intro stops_same [OF p]) auto
next
  case (c_start site k c s)
  then show ?thesis using operations_same_instances(2) [OF c_start(3)]
    by (intro stops_same [OF p]) (auto simp: after_create_def split: create_step.splits)
next
  case (c_spawn site k refused c s)
  then show ?thesis using operations_same_instances(3) [OF c_spawn(3)]
    by (intro stops_same [OF p]) (auto simp: after_create_def started_def split: create_step.splits create_site.splits)
next
  case (c_install site k port bound)
  then show ?thesis using joins_same_instances(6)
    by (intro stops_same [OF p]) (auto simp: created_def split: create_site.splits)
next
  case (c_ready_failed k e s eps)
  then show ?thesis using operations_same_instances(4) [OF c_ready_failed(3)] by (intro stops_same [OF p]) auto
next
  case (c_ready_next k s eps)
  then show ?thesis using operations_same_instances(4) [OF c_ready_next(3)] by (intro stops_same [OF p]) auto
next
  case (c_ready_wait k s eps)
  then show ?thesis using operations_same_instances(4) [OF c_ready_wait(3)] by (intro stops_same [OF p]) auto
next
  case (c_ready_done k s eps i)
  then show ?thesis using operations_same_instances(4) [OF c_ready_done(3)] by (intro stops_same [OF p]) auto
next
  case (c_activation r s)
  then show ?thesis using operations_same_instances(5) [OF c_activation(3)]
    by (intro stops_same [OF p]) (auto split: activation_round.splits)
next
  case (c_monitor failed r s)
  then show ?thesis using operations_same_instances(6) [OF c_monitor(3)]
    by (intro stops_same [OF p]) (auto split: monitor_begin.splits)
next
  case (c_stop_instance target)
  then show ?thesis using joins_same_instances(5) by (intro stops_same [OF p]) auto
next
  case (c_visit_ready k progressed deadline r s eps)
  then show ?thesis using operations_same_instances(7) [OF c_visit_ready(3)]
    by (intro stops_same [OF p]) (auto split: monitor_visit.splits)
next
  case (c_release k progressed deadline now r s)
  then show ?thesis using operations_same_instances(8) [OF c_release(3)]
    by (intro stops_same [OF p]) (auto split: monitor_visit.splits)
next
  case (c_rest k progressed deadline now r s)
  then show ?thesis using operations_same_instances(9) [OF c_rest(3)]
    by (intro stops_same [OF p]) (auto split: rest_step.splits)
next
  case (c_health pc)
  have i: "same_instances (sw_sup w) (publish_health (sw_sup w))" by (rule joins_same_instances(7))
  have "pc_ok w pc" "pc_stops (sw_sup w) pc" using l p c_health(2) by (simp_all add: stops_at_def)
  then show ?thesis
    using c_health i pc_stops_same [OF i, of w pc] by (intro stops_same [OF p]) auto
next
  case (c_handle k failure r s)
  then show ?thesis using operations_same_instances(10) [OF c_handle(3)] by (intro stops_same [OF p]) (auto split: option.splits)
next
  case (c_handled k failure now r s)
  then show ?thesis using operations_same_instances(11) [OF c_handled(3)] by (intro stops_same [OF p]) (auto split: handle_step.splits)
next
  case (c_fail failure report s)
  then show ?thesis using operations_same_instances(12) [OF c_fail(3)] by (intro stops_same [OF p]) auto
next
  case (c_report report failure)
  then show ?thesis using joins_same_instances(8) by (intro stops_same [OF p]) auto
next
  case (c_join_begin k site r s)
  have i: "same_instances (sw_sup w) s" "instance_stopped s k"
    using joins_same_instances(1) [OF c_join_begin(3)] l c_join_begin(2) by auto
  then show ?thesis
    using c_join_begin(1,2) p same_instances_stopper [OF i(1)]
    by (intro stops_same [OF p]) (auto simp: joined_def stops_at_def split: join_site.splits)
next
  case (c_join_wait k site)
  have i: "same_instances (sw_sup w) (join_joined k (sw_sup w))" by (rule joins_same_instances(2))
  then show ?thesis
    using c_join_wait p l same_instances_stopper [OF i] same_instances_stopped [OF i, of k]
    by (intro stops_same [OF p]) (auto simp: stops_at_def split: join_site.splits)
next
  case (c_join_destroy k site)
  have i: "same_instances (sw_sup w) (join_reset k (sw_sup w))" by (rule joins_same_instances(3))
  then show ?thesis
    using c_join_destroy p l same_instances_stopper [OF i] same_instances_stopped [OF i, of k]
    by (intro stops_same [OF p]) (auto simp: stops_at_def split: join_site.splits)
next
  case (c_join_end k site)
  have i: "same_instances (sw_sup w) (join_end k (sw_sup w))" by (rule joins_same_instances(4))
  then show ?thesis
    using c_join_end p same_instances_stopper [OF i]
    by (intro stops_same [OF p]) (auto simp: stops_at_def joined_def split: join_site.splits)
next
  case (c_action a rest exit pc s)
  then show ?thesis
    using run_action_stops [of "sw_sup w" a rest exit pc s] p by (intro stops_same [OF p]) (auto simp: stops_at_def)
next
  case (c_exit exit)
  then show ?thesis using p by (intro stops_same [OF p]) (auto simp: run_exit_def split: sup_exit.splits)
qed (use p in \<open>(intro stops_same [OF p]; auto simp: stops_at_def split: option.splits)+\<close>)

lemma stops_quiet:
  assumes p: "stops_at (sw_pc w) w" and l: "pc_ok w (sw_pc w)" and i: "same_instances (sw_sup w) (sw_sup w')"
    and "sw_pc w' = sw_pc w" "sw_stoppers w' = sw_stoppers w"
  shows "stops_at (sw_pc w') w'"
  using assms pc_stops_same [OF i l] by (intro stops_same [OF p i]) (simp_all add: stops_at_def)

lemma sup_env_stops:
  assumes step: "sup_env_step w w'" and p: "stops_at (sw_pc w) w" and l: "pc_ok w (sw_pc w)"
  shows "stops_at (sw_pc w') w'"
  using step
proof cases
  case (e_stop)
  have i: "same_instances (sw_sup w) (request_stop (sw_sup w))" by (auto simp: request_stop_def intro!: same_instances_eqI)
  then show ?thesis
    using e_stop p pc_stops_same [OF i l] same_instances_stopper [OF i] by (auto simp: stops_at_def request_stop_def)
next
  case (e_stopper j t s)
  have i: "same_instances (sw_sup w) s" "stopper_ok s t" "stopper_ok (sw_sup w) (sw_stoppers w ! j)"
    using stopper_ok_step [OF _ e_stopper(4)] p e_stopper(3) by (auto simp: stops_at_def)
  then show ?thesis
    using e_stopper(1,3) p pc_stops_same [OF i(1) l] same_instances_stopper [OF i(1)]
    by (auto simp: stops_at_def same_instances_def dest!: set_update_subset_insert [THEN subsetD])
next
  case (e_activate r s)
  then show ?thesis
    by (intro stops_quiet [OF p l] keeps_instances [OF other_keeps(10)]) (auto simp: request_activation_def split: if_splits)
next
  case (e_release r s)
  then show ?thesis
    by (intro stops_quiet [OF p l] keeps_instances [OF other_keeps(11)])
      (auto simp: release_data_plane_def split: if_splits option.splits)
next
  case (e_unexpected_stop k r s)
  then show ?thesis
    by (intro stops_quiet [OF p l] keeps_instances [OF other_keeps(12)])
      (auto simp: inject_worker_unexpected_stop_for_testing_def split: if_splits)
next
  case (e_precommit_failure k r s)
  then show ?thesis
    by (intro stops_quiet [OF p l] keeps_instances [OF other_keeps(13)])
      (auto simp: inject_worker_precommit_failure_for_testing_def split: if_splits)
next
  case (e_emergency exit)
  then show ?thesis using p by (intro stops_same [OF p]) auto
qed (intro stops_quiet [OF p l] same_instances_eqI;
    simp add: snapshot_published_def inject_abrupt_exit_for_testing_def inject_abrupt_exit_after_next_publication_for_testing_def
      inject_emergency_join_failure_once_for_testing_def)+

lemma worker_step_stops:
  assumes s: "worker_step k t w w'" and k: "k < workers w" and t: "wr_thread (rec_at (sw_sup w) k) = Some t"
    and l: "lifecycle_at (sw_pc w) w" and p: "stops_at (sw_pc w) w"
  shows "stops_at (sw_pc w') w'"
proof -
  note c = worker_step_changes [OF s k lifecycleD(1) [OF l] t]
  have "wr_instance_id (rec_at (sw_sup w') j) = wr_instance_id (rec_at (sw_sup w) j)" if "j < workers w" for j
    using c that by (cases "j = k") (simp_all add: worker_changes_def)
  then have i: "same_instances (sw_sup w) (sw_sup w')"
    using c by (simp add: same_instances_def)
  show ?thesis using c by (intro stops_quiet [OF p lifecycleD(5) [OF l] i]) simp_all
qed

lemma sup_stops:
  assumes "sup_reachable config initial n timeout w"
  shows "stops_at (sw_pc w) w"
  using assms
proof induction
  case (sup_new p s p')
  then show ?case by (simp add: stops_at_def)
next
  case (sup_then w w')
  have l: "lifecycle_at (sw_pc w) w" using sup_lifecycle [OF sup_then(1)] by blast
  from sup_then(2) show ?case
    using sup_thread_stops [OF _ sup_then.IH lifecycleD(5) [OF l]] sup_env_stops [OF _ sup_then.IH lifecycleD(5) [OF l]]
      worker_step_stops [OF _ _ _ l sup_then.IH]
    by cases blast+
qed

text \<open>
  C3. Safety: a stop reaches every worker.  As soon as a call of \<open>request_stop\<close> has gone through the records,
  the stop source of the current instance of every worker is asked to stop, also where a replacement was
  being made while the call was going on, and no new instance is created.
\<close>

theorem stop_reaches_every_worker:
  assumes "sup_reachable config initial n timeout w" and "t \<in> set (sw_stoppers w)" and "stopper_done (sw_sup w) t"
  shows "(\<forall>k < workers w. instance_stopped (sw_sup w) k
      \<and> (\<forall>u. wr_thread (rec_at (sw_sup w) k) = Some u \<longrightarrow> worker_token (sw_sup w) k u))
    \<and> (\<forall>k. fst (create_worker_begin k (sw_sup w)) \<noteq> CreateContinues)"
proof -
  have s: "sv_stop_requested (sw_sup w)" "stopper_ok (sw_sup w) t"
    using sup_stops [OF assms(1)] assms(2) by (auto simp: stops_at_def)
  then have i: "instance_stopped (sw_sup w) k" if "k < workers w" for k
    using assms(3) that by (auto simp: stopper_done_def stopper_ok_def split: stopper.splits)
  moreover have "worker_token (sw_sup w) k u" if "k < workers w" "wr_thread (rec_at (sw_sup w) k) = Some u" for k u
    using i [OF that(1)] that lifecycleD(3) [of "sw_pc w" w, OF _ that(1)] sup_lifecycle [OF assms(1)]
    by (auto simp: worker_token_def instance_stopped_def source_of_def record_ok_def Let_def)
  moreover have "fst (create_worker_begin k (sw_sup w)) \<noteq> CreateContinues" for k
    using s(1) by (simp add: create_worker_begin_def stop_requested_locked_def)
  ultimately show ?thesis by blast
qed

section \<open>Nobody waits for ever\<close>

text \<open>An upper bound on the steps that a worker takes once it is asked to stop.\<close>

fun worker_rank :: "worker_pc \<Rightarrow> nat" where
  "worker_rank WorkerEnters = 6"
| "worker_rank WorkerSyncs = 5"
| "worker_rank (WorkerReportsReady r) = 4"
| "worker_rank WorkerActivationRefresh = 4"
| "worker_rank WorkerReportsActivated = 4"
| "worker_rank WorkerDataRefresh = 4"
| "worker_rank WorkerActivationGate = 3"
| "worker_rank WorkerDataGate = 3"
| "worker_rank WorkerActivates = 2"
| "worker_rank WorkerReleased = 2"
| "worker_rank WorkerServes = 2"
| "worker_rank WorkerGateStopped = 2"
| "worker_rank (WorkerEnds r) = 1"
| "worker_rank WorkerFinished = 0"

definition thread_rank :: "sup_world \<Rightarrow> nat \<Rightarrow> nat" where
  "thread_rank w k = (case wr_thread (rec_at (sw_sup w) k) of None \<Rightarrow> 0 | Some t \<Rightarrow> worker_rank (wt_pc t))"

lemma worker_goes_rank:
  assumes "k < workers w" "wr_thread (rec_at (sw_sup w) k) = Some t"
  shows "thread_rank (worker_goes k pc w) k = worker_rank pc"
  using assms by (simp add: thread_rank_def set_worker_pc_record)

lemma reports_threads:
  "k < length (sv_records s) \<Longrightarrow> wr_thread (rec_at (report_worker_ready k inst r s) k) = wr_thread (rec_at s k)"
  "k < length (sv_records s) \<Longrightarrow> wr_thread (rec_at (report_worker_activated k inst s) k) = wr_thread (rec_at s k)"
  "k < length (sv_records s) \<Longrightarrow> wr_thread (rec_at (report_worker_completion now k inst x s) k) = wr_thread (rec_at s k)"
  "length (sv_records (report_worker_ready k inst r s)) = length (sv_records s)"
  "length (sv_records (report_worker_activated k inst s)) = length (sv_records s)"
  "length (sv_records (report_worker_completion now k inst x s)) = length (sv_records s)"
  by (simp_all add: report_worker_ready_def report_worker_activated_def report_worker_completion_def Let_def)

lemma stopped_worker_step_rank:
  assumes s: "worker_step k t w w'" and k: "k < workers w" and t: "wr_thread (rec_at (sw_sup w) k) = Some t"
    and i: "instance_stopped (sw_sup w) k" "wt_instance t = wr_instance_id (rec_at (sw_sup w) k)"
  shows "thread_rank w' k < thread_rank w k"
proof -
  have tok: "worker_token (sw_sup w) k t" using i by (simp add: worker_token_def instance_stopped_def source_of_def)
  have r: "thread_rank w k = worker_rank (wt_pc t)" using t by (simp add: thread_rank_def)
  from s show ?thesis
  proof cases
    case (w_report_ready x)
    have "thread_rank w' k = worker_rank (after_ready x)"
      using w_report_ready(1) k t worker_goes_rank [of k "set_sup (report_worker_ready k (wt_instance t) x (sw_sup w)) w" t]
      by (simp add: reports_threads)
    then show ?thesis using r w_report_ready(2) by (simp add: after_ready_def)
  next
    case w_report_activated
    then show ?thesis
      using r k t worker_goes_rank [of k "set_sup (report_worker_activated k (wt_instance t) (sw_sup w)) w" t]
      by (simp add: reports_threads)
  next
    case (w_complete x found now stats)
    then show ?thesis
      using r k t by (simp add: thread_rank_def set_worker_pc_record reports_threads)
  next
    case (w_activation_gate a)
    have "a = GateStop" using w_activation_gate(4) i by (auto simp: await_worker_activation_def Let_def split: if_splits)
    then show ?thesis using w_activation_gate r worker_goes_rank [OF k t] by (simp add: after_gate_def)
  next
    case (w_data_gate a)
    have "a = GateStop" using w_data_gate(4) i by (auto simp: await_worker_data_plane_def Let_def split: if_splits)
    then show ?thesis using w_data_gate r worker_goes_rank [OF k t] by (simp add: after_gate_def)
  next
    case (w_sync x w1)
    have f: "sw_sup w1 = sw_sup w" using worker_refresh_frame(1) [OF w_sync(3)] .
    then show ?thesis using w_sync(1,2) r k t by (simp add: thread_rank_def set_worker_pc_record)
  next
    case (w_activation_refresh x w1)
    have f: "sw_sup w1 = sw_sup w" using worker_refresh_frame(1) [OF w_activation_refresh(3)] .
    then show ?thesis using w_activation_refresh(1,2) r k t by (simp add: thread_rank_def set_worker_pc_record)
  next
    case (w_data_refresh x w1)
    have f: "sw_sup w1 = sw_sup w" using worker_refresh_frame(1) [OF w_data_refresh(3)] .
    then show ?thesis using w_data_refresh(1,2) r k t by (simp add: thread_rank_def set_worker_pc_record)
  qed (use r tok worker_goes_rank [OF k t] in simp_all)
qed

lemma stopped_worker_moves:
  assumes i: "instance_stopped (sw_sup w) k" "wt_instance t = wr_instance_id (rec_at (sw_sup w) k)"
    and pc: "wt_pc t \<noteq> WorkerFinished" "\<not> holds_mutex (sw_pc w)"
  shows "\<exists>w'. worker_step k t w w'"
proof -
  have tok: "worker_token (sw_sup w) k t" using i by (simp add: worker_token_def instance_stopped_def source_of_def)
  obtain b w1 where f: "worker_refresh k (wt_instance t) w = (b, w1)" by (meson surj_pair)
  show ?thesis
  proof (cases "wt_pc t")
    case WorkerActivationGate
    have "await_worker_activation k (wt_instance t) (worker_token (sw_sup w) k t) (sw_publication w) (sw_epochs w) (sw_sup w) = Some GateStop"
      using i by (simp add: await_worker_activation_def)
    then show ?thesis using w_activation_gate [OF WorkerActivationGate pc(2)] by blast
  next
    case WorkerDataGate
    have "await_worker_data_plane k (wt_instance t) (worker_token (sw_sup w) k t) (sw_publication w) (sw_epochs w) (sw_sup w) = Some GateStop"
      using i by (simp add: await_worker_data_plane_def)
    then show ?thesis using w_data_gate [OF WorkerDataGate pc(2)] by blast
  next
    case (WorkerEnds r)
    then show ?thesis using w_complete [OF WorkerEnds pc(2), of None] by blast
  qed (use pc f tok in \<open>blast intro: worker_step.intros\<close>)+
qed

text \<open>
  The program of the supervisor thread has a step in every state but in the wait for a joined thread; a wait
  on a condition is a step that may be taken at any time and looks at the state again.
\<close>

lemma supervisor_moves_unless_joining:
  assumes l: "pc_ok w (sw_pc w)" and pc: "sw_pc w \<noteq> SupIdle" "\<And>exit. sw_pc w \<noteq> SupEnded exit"
    and j: "\<And>k site. sw_pc w = SupJoins JoinWaits k site \<Longrightarrow> thread_joinable (rec_at (sw_sup w) k)"
  shows "\<exists>w'. sup_thread_step w w'"
proof (cases "sw_pc w")
  case (SupRegisters site k port)
  obtain c x p eps where r: "create_worker_register k (sw_sup w) (sw_publication w) (sw_epochs w) = (c, x, p, eps)" by (metis prod_cases4)
  then consider e where "c = CreateReturns e" | "c = CreateContinues" using create_register_cases [OF r] by blast
  then show ?thesis using r SupRegisters by cases (blast intro: c_register_failed c_register)+
next
  case (SupBuilds site k port)
  then show ?thesis
    by (cases "create_worker_build k (LoopCreated port) (sw_sup w)") (blast intro: c_build_failed c_build)+
next
  case (SupReadyAt k)
  obtain e s eps where r: "await_ready_record k (sw_sup w) (sw_publication w) (sw_epochs w) = (e, s, eps)" by (metis prod_cases3)
  have h: "k < workers w" "\<forall>j < workers w. has_instance w j" using l SupReadyAt by simp_all
  then have z: "0 < workers w" by linarith
  with h(2) have z2: "has_instance w 0" by blast
  have n: "length (sv_records s) = workers w" "same_record (rec_at (sw_sup w) 0) (rec_at s 0)"
    using await_ready_keeps(1) [OF r] z by (simp_all add: keeps_records_def)
  then obtain i where i: "wr_instance (rec_at s 0) = Some i"
    using z2 by (cases "wr_instance (rec_at s 0)") (auto simp: same_record_def has_instance_def)
  show ?thesis
  proof (cases e)
    case (Some x)
    then show ?thesis using c_ready_failed [OF SupReadyAt] r by blast
  next
    case None
    then show ?thesis
      using c_ready_next [OF SupReadyAt] c_ready_wait [OF SupReadyAt] c_ready_done [OF SupReadyAt _ _ _ i] r by blast
  qed
next
  case (SupJoins stage k site)
  then show ?thesis
    using j by (cases stage) (metis c_join_begin c_join_wait c_join_destroy c_join_quiesce c_join_end surj_pair)+
next
  case (SupRuns acts exit)
  then show ?thesis by (cases acts) (metis c_action c_exit surj_pair)+
qed (use pc in \<open>(metis c_enter c_check c_create c_install c_start c_spawn c_ready_round c_activation c_monitor c_stop_instance c_visit
      c_visit_ready c_visit_activated c_release c_rest c_wait c_health c_handle c_handled c_fail c_report surj_pair)+\<close>)

text \<open>
  What can happen while the supervisor waits for the thread of worker \<open>k\<close> in a join: steps of that
  worker, which are counted, and steps of the other workers and of the callers.
\<close>

inductive waiting_run :: "nat \<Rightarrow> sup_world \<Rightarrow> nat \<Rightarrow> sup_world \<Rightarrow> bool" for k w where
  wait_begins: "waiting_run k w 0 w"
| wait_joined:
    "waiting_run k w m v \<Longrightarrow> wr_thread (rec_at (sw_sup v) k) = Some t \<Longrightarrow> worker_step k t v v' \<Longrightarrow> waiting_run k w (m + 1) v'"
| wait_worker:
    "waiting_run k w m v \<Longrightarrow> j \<noteq> k \<Longrightarrow> j < workers v \<Longrightarrow> wr_thread (rec_at (sw_sup v) j) = Some t \<Longrightarrow> worker_step j t v v'
     \<Longrightarrow> waiting_run k w m v'"
| wait_other: "waiting_run k w m v \<Longrightarrow> sup_env_step v v' \<Longrightarrow> waiting_run k w m v'"

lemma env_keeps_thread:
  assumes "sup_env_step w w'" and "k < workers w"
  shows "wr_thread (rec_at (sw_sup w') k) = wr_thread (rec_at (sw_sup w) k)"
  using assms(1)
proof cases
  case (e_stopper j t s)
  then show ?thesis by (auto simp: stopper_step_def split: stopper.splits if_splits)
next
  case (e_activate r s)
  then show ?thesis using assms(2) by (auto simp: request_activation_def split: if_splits)
next
  case (e_release r s)
  then show ?thesis using assms(2) by (auto simp: release_data_plane_def split: if_splits option.splits)
next
  case (e_unexpected_stop j r s)
  then show ?thesis by (auto simp: inject_worker_unexpected_stop_for_testing_def split: if_splits)
next
  case (e_precommit_failure j r s)
  then show ?thesis using assms(2) by (auto simp: inject_worker_precommit_failure_for_testing_def on_record_def nth_list_update split: if_splits)
qed (simp_all add: snapshot_published_def request_stop_def inject_abrupt_exit_for_testing_def
    inject_abrupt_exit_after_next_publication_for_testing_def inject_emergency_join_failure_once_for_testing_def)

lemma env_step_stays:
  assumes "sup_env_step w w'" and "sw_pc w = SupJoins JoinWaits k site"
  shows "sw_pc w' = sw_pc w"
  using assms(1) by cases (use assms(2) in auto)

text \<open>A waiting run is a run, the supervisor stays where it is, and the worker only comes closer to its end.\<close>

lemma waiting_run_reachable:
  assumes "waiting_run k w m v" and "sup_reachable config initial n timeout w" and "sw_pc w = SupJoins JoinWaits k site"
  shows "sup_reachable config initial n timeout v \<and> sw_pc v = SupJoins JoinWaits k site \<and> m + thread_rank v k \<le> thread_rank w k"
  using assms(1)
proof induction
  case wait_begins
  then show ?case using assms(2,3) by simp
next
  case (wait_joined m v t v')
  then have r: "sup_reachable config initial n timeout v" and pc: "sw_pc v = SupJoins JoinWaits k site" by blast+
  have l: "lifecycle_at (sw_pc v) v" using sup_lifecycle [OF r] by blast
  have k: "k < workers v" using lifecycleD(5) [OF l] pc by simp
  have i: "instance_stopped (sw_sup v) k" using sup_stops [OF r] pc by (simp add: stops_at_def)
  have id: "wt_instance t = wr_instance_id (rec_at (sw_sup v) k)" using lifecycleD(3) [OF l k] wait_joined(2) by (simp add: record_ok_def Let_def)
  have "sw_pc v' = sw_pc v" using worker_step_changes [OF wait_joined(3) k lifecycleD(1) [OF l] wait_joined(2)] by blast
  with stopped_worker_step_rank [OF wait_joined(3) k wait_joined(2) i id] wait_joined.IH pc sup_then [OF r worker_moves [OF k wait_joined(2,3)]]
  show ?case by simp
next
  case (wait_worker m v j t v')
  then have r: "sup_reachable config initial n timeout v" and pc: "sw_pc v = SupJoins JoinWaits k site" by blast+
  have l: "lifecycle_at (sw_pc v) v" using sup_lifecycle [OF r] by blast
  have k: "k < workers v" using lifecycleD(5) [OF l] pc by simp
  note c = worker_step_changes [OF wait_worker(5) wait_worker(3) lifecycleD(1) [OF l] wait_worker(4)]
  have "thread_rank v' k = thread_rank v k" "sw_pc v' = sw_pc v" using c k wait_worker(2) by (simp_all add: thread_rank_def)
  with wait_worker.IH pc sup_then [OF r worker_moves [OF wait_worker(3-5)]] show ?case by simp
next
  case (wait_other m v v')
  then have r: "sup_reachable config initial n timeout v" and pc: "sw_pc v = SupJoins JoinWaits k site" by blast+
  have k: "k < workers v" using sup_lifecycle [OF r] lifecycleD(5) [of "sw_pc v" v] pc by simp
  have "thread_rank v' k = thread_rank v k" using env_keeps_thread [OF wait_other(2) k] by (simp add: thread_rank_def)
  with wait_other.IH pc env_step_stays [OF wait_other(2) pc] sup_then [OF r other_moves [OF wait_other(2)]] show ?case by simp
qed

text \<open>
  C19. A worker that the supervisor joins can only finish.  From the moment in which the supervisor waits for
  the thread of a worker, and however the other workers and the callers interleave, the instance has been
  asked to stop and its token is set; the worker takes at most six more steps, none of them is forbidden to
  it by a gate or a held mutex until it has finished, and once it has finished the join can go on.  The
  statement is about the steps of the program: that a blocking call returns, and that a thread waiting on a
  condition is notified when the condition holds, is outside the model.
\<close>

theorem joined_worker_finishes:
  assumes "sup_reachable config initial n timeout w" and "sw_pc w = SupJoins JoinWaits k site" and "waiting_run k w m v"
  shows "m \<le> 6 \<and> sw_pc v = SupJoins JoinWaits k site \<and> instance_stopped (sw_sup v) k
    \<and> (\<forall>t. wr_thread (rec_at (sw_sup v) k) = Some t \<longrightarrow> wt_instance t = wr_instance_id (rec_at (sw_sup v) k)
          \<and> worker_token (sw_sup v) k t \<and> (wt_pc t = WorkerFinished \<or> (\<exists>v'. worker_step k t v v')))
    \<and> ((\<forall>t. wr_thread (rec_at (sw_sup v) k) = Some t \<longrightarrow> wt_pc t = WorkerFinished)
         \<longrightarrow> sup_thread_step v (goto (SupJoins JoinDestroys k site) (join_joined k (sw_sup v)) v))"
proof -
  note q = waiting_run_reachable [OF assms(3,1,2)]
  then have r: "sup_reachable config initial n timeout v" and pc: "sw_pc v = SupJoins JoinWaits k site" by blast+
  have l: "lifecycle_at (sw_pc v) v" using sup_lifecycle [OF r] by blast
  have k: "k < workers v" using lifecycleD(5) [OF l] pc by simp
  have i: "instance_stopped (sw_sup v) k" using sup_stops [OF r] pc by (simp add: stops_at_def)
  have "worker_rank x \<le> 6" for x by (cases x) simp_all
  then have "thread_rank w k \<le> 6" by (simp add: thread_rank_def split: option.split)
  then have m: "m \<le> 6" using q by linarith
  have "wt_instance t = wr_instance_id (rec_at (sw_sup v) k) \<and> worker_token (sw_sup v) k t
      \<and> (wt_pc t = WorkerFinished \<or> (\<exists>v'. worker_step k t v v'))" if t: "wr_thread (rec_at (sw_sup v) k) = Some t" for t
  proof -
    have id: "wt_instance t = wr_instance_id (rec_at (sw_sup v) k)" using lifecycleD(3) [OF l k] t by (simp add: record_ok_def Let_def)
    then show ?thesis
      using stopped_worker_moves [OF i id] i pc by (auto simp: worker_token_def instance_stopped_def source_of_def)
  qed
  moreover have "sup_thread_step v (goto (SupJoins JoinDestroys k site) (join_joined k (sw_sup v)) v)"
    if "\<forall>t. wr_thread (rec_at (sw_sup v) k) = Some t \<longrightarrow> wt_pc t = WorkerFinished"
    using that by (intro c_join_wait [OF pc]) (auto simp: thread_joinable_def split: option.split)
  ultimately show ?thesis using m i pc by blast
qed

section \<open>Results are always published\<close>

fun publishes_startup :: "sup_action \<Rightarrow> bool" where
  "publishes_startup (PublishStartup r) = True"
| "publishes_startup _ = False"

fun publishes_activation :: "sup_action \<Rightarrow> bool" where
  "publishes_activation (PublishActivation r) = True"
| "publishes_activation _ = False"

text \<open>Where the results of the startup and of the activation may still be missing.\<close>

fun before_startup :: "sup_pc \<Rightarrow> bool" where
  "before_startup SupIdle = True"
| "before_startup SupEnters = True"
| "before_startup SupChecks = True"
| "before_startup (SupCreates site k port) \<longleftrightarrow> site = AtStartup"
| "before_startup (SupRegisters site k port) \<longleftrightarrow> site = AtStartup"
| "before_startup (SupBuilds site k port) \<longleftrightarrow> site = AtStartup"
| "before_startup (SupInstalls site k port bound) \<longleftrightarrow> site = AtStartup"
| "before_startup (SupStarts site k) \<longleftrightarrow> site = AtStartup"
| "before_startup (SupSpawns site k) \<longleftrightarrow> site = AtStartup"
| "before_startup SupReadyRound = True"
| "before_startup (SupReadyAt k) = True"
| "before_startup (SupRuns acts exit) \<longleftrightarrow> list_ex publishes_startup acts"
| "before_startup _ = False"

fun before_activation :: "sup_pc \<Rightarrow> bool" where
  "before_activation (SupRuns acts exit) \<longleftrightarrow> list_ex publishes_activation acts \<or> exit = ExitActivate"
| "before_activation SupActivationRound = True"
| "before_activation pc = before_startup pc"

fun publishes_first :: "sup_action list \<Rightarrow> bool" where
  "publishes_first [] = True"
| "publishes_first (a # as) \<longleftrightarrow> publishes_first as \<and> (publishes a \<or> list_all (\<lambda>b. \<not> publishes b) as)"

fun script_ok :: "sup_pc \<Rightarrow> bool" where
  "script_ok (SupRuns acts exit) \<longleftrightarrow> publishes_first acts \<and> (final_exit exit \<or> list_all publishes acts)"
| "script_ok (SupJoins stage k site) \<longleftrightarrow>
     (case site of JoinAll ok strict rest exit \<Rightarrow> list_all (\<lambda>b. \<not> publishes b) rest \<and> final_exit exit | JoinFailure f \<Rightarrow> True)"
| "script_ok (SupHealth pc) \<longleftrightarrow> script_ok pc \<and> \<not> before_startup pc \<and> \<not> before_activation pc"
| "script_ok _ \<longleftrightarrow> True"

text \<open>The thread function has returned or is about to, or someone else tears down.\<close>

fun run_over :: "sup_pc \<Rightarrow> bool" where
  "run_over (SupRuns acts exit) \<longleftrightarrow> final_exit exit \<and> list_all (\<lambda>b. \<not> publishes b) acts"
| "run_over (SupJoins stage k site) \<longleftrightarrow> (case site of JoinAll ok strict rest exit \<Rightarrow> True | JoinFailure f \<Rightarrow> False)"
| "run_over (SupEnded exit) \<longleftrightarrow> True"
| "run_over _ \<longleftrightarrow> False"

definition results_at :: "sup_pc \<Rightarrow> supervisor \<Rightarrow> bool" where
  "results_at pc s \<longleftrightarrow> script_ok pc
     \<and> (sv_run_started s \<and> sv_startup s = None \<longrightarrow> before_startup pc)
     \<and> (sv_run_started s \<and> sv_activation s = None \<longrightarrow> before_activation pc)
     \<and> (sv_run_started s \<and> \<not> sv_run_active s \<longrightarrow> run_over pc)
     \<and> (\<not> sv_run_started s \<longrightarrow> sv_startup s = None \<and> \<not> sv_run_active s \<and> (pc = SupIdle \<or> run_over pc))"

lemma not_publishes: "list_all (\<lambda>b. \<not> publishes b) acts \<Longrightarrow> \<not> list_ex publishes_startup acts \<and> \<not> list_ex publishes_activation acts"
proof -
  have "\<not> publishes b \<Longrightarrow> \<not> publishes_startup b \<and> \<not> publishes_activation b" for b by (cases b) auto
  then show "list_all (\<lambda>b. \<not> publishes b) acts \<Longrightarrow> ?thesis" by (auto simp: list_all_iff list_ex_iff)
qed

lemma publishes_first_none: "list_all (\<lambda>b. \<not> publishes b) acts \<Longrightarrow> publishes_first acts"
  by (induction acts) auto

lemma run_over_published:
  assumes "results_at pc s" "sv_run_started s" "\<not> sv_run_active s"
  shows "sv_startup s \<noteq> None \<and> sv_activation s \<noteq> None"
  using assms not_publishes by (cases pc) (auto simp: results_at_def split: join_site.splits)

text \<open>Steps that publish nothing.\<close>

definition same_results :: "supervisor \<Rightarrow> supervisor \<Rightarrow> bool" where
  "same_results s s' \<longleftrightarrow> sv_startup s' = sv_startup s \<and> sv_activation s' = sv_activation s
     \<and> sv_run_started s' = sv_run_started s \<and> sv_run_active s' = sv_run_active s"

lemma results_same:
  assumes "results_at pc s" "same_results s s'" "script_ok pc'" "before_startup pc \<Longrightarrow> before_startup pc'"
    "before_activation pc \<Longrightarrow> before_activation pc'" "run_over pc \<Longrightarrow> run_over pc'" "pc = SupIdle \<Longrightarrow> run_over pc'"
  shows "results_at pc' s'"
  using assms by (auto simp: results_at_def same_results_def)

lemma script_exits [simp]:
  "script_ok abrupt_exit" "before_startup abrupt_exit" "before_activation abrupt_exit"
  "script_ok (startup_fails e)" "before_startup (startup_fails e)" "before_activation (startup_fails e)"
  "script_ok (run_rejected e a r)" "before_startup (run_rejected e a r)" "before_activation (run_rejected e a r)"
  "script_ok (monitor_returns r)" "\<not> before_startup (monitor_returns r)" "\<not> before_activation (monitor_returns r)"
  "run_over (monitor_returns r)" "script_ok (activation_fails ae)" "before_activation (activation_fails ae)"
  "\<not> before_startup (activation_fails ae)" "script_ok emergency_join_all" "run_over emergency_join_all"
  by (simp_all add: abrupt_exit_def startup_fails_def run_rejected_def monitor_returns_def activation_fails_def emergency_join_all_def)

lemma script_errors [simp]:
  "script_ok (recovery_error k e)" "\<not> before_startup (recovery_error k e)" "\<not> before_activation (recovery_error k e)"
  "script_ok (create_failed site k e)" "before_startup (create_failed site k e) \<longleftrightarrow> site = AtStartup"
  "before_activation (create_failed site k e) \<longleftrightarrow> site = AtStartup"
  "script_ok (start_failed site k e)" "before_startup (start_failed site k e) \<longleftrightarrow> site = AtStartup"
  "before_activation (start_failed site k e) \<longleftrightarrow> site = AtStartup"
  "script_ok (visit_next k progressed d s)" "\<not> before_startup (visit_next k progressed d s)" "\<not> before_activation (visit_next k progressed d s)"
  "script_ok (after_create c f g) \<longleftrightarrow> (\<forall>e. c = CreateReturns e \<longrightarrow> script_ok (f e)) \<and> (c = CreateContinues \<longrightarrow> script_ok g)"
  by (simp_all add: recovery_error_def create_failed_def start_failed_def visit_next_def round_end_def after_create_def
      split: create_site.splits create_step.splits)

lemma same_results_refl [simp]: "same_results s s"
  by (simp add: same_results_def)

lemma same_results_on [simp]: "same_results s (on_record k f s') \<longleftrightarrow> same_results s s'" "same_results s (on_health g s') \<longleftrightarrow> same_results s s'"
  by (simp_all add: same_results_def)

lemma operations_same_results:
  "create_worker_begin k s = (c, s') \<Longrightarrow> same_results s s'"
  "start_worker_thread_begin k s = (c, s') \<Longrightarrow> same_results s s'"
  "start_worker_thread_spawn k refused s = (c, s') \<Longrightarrow> same_results s s'"
  "await_ready_record k s p eps = (x2, s', eps') \<Longrightarrow> same_results s s'"
  "await_activation_round s = (x3, s') \<Longrightarrow> same_results s s'"
  "monitor_round_begin failed s = (x4, s') \<Longrightarrow> same_results s s'"
  "monitor_ready k s p eps = (v, s', eps') \<Longrightarrow> same_results s s'"
  "monitor_activated now k s = (v, s') \<Longrightarrow> same_results s s'"
  "monitor_rest now d k s = (x5, s') \<Longrightarrow> same_results s s'"
  "handle_worker_failure_begin k f s = (x6, s') \<Longrightarrow> same_results s s'"
  "handle_worker_failure_joined now k f s = (x7, s') \<Longrightarrow> same_results s s'"
  "fail_worker_service_begin f s = (b, s') \<Longrightarrow> same_results s s'"
  "join_begin k s = (b, s') \<Longrightarrow> same_results s s'"
  "same_results s (join_joined k s)" "same_results s (join_reset k s)" "same_results s (join_end k s)"
  "same_results s (stop_instance target s)" "same_results s (create_worker_install k port s)"
  "same_results s (publish_health s)" "same_results s (fail_worker_service_report report f s)"
proof -
  have a: "same_results s (count_attempt k s)" by (simp add: count_attempt_def)
  show "create_worker_begin k s = (c, s') \<Longrightarrow> same_results s s'"
    using a create_begin_cases [of k s c s'] by auto
  show "start_worker_thread_begin k s = (c, s') \<Longrightarrow> same_results s s'"
    by (auto simp: start_worker_thread_begin_def Let_def split: if_splits)
  show "start_worker_thread_spawn k refused s = (c, s') \<Longrightarrow> same_results s s'"
    by (auto simp: start_worker_thread_spawn_def split: option.splits)
  show "await_ready_record k s p eps = (x2, s', eps') \<Longrightarrow> same_results s s'"
    by (auto simp: await_ready_record_def Let_def split: if_splits prod.splits bool.splits)
  show "await_activation_round s = (x3, s') \<Longrightarrow> same_results s s'"
    by (auto simp: await_activation_round_def Let_def same_results_def split: if_splits option.splits)
  show "monitor_round_begin failed s = (x4, s') \<Longrightarrow> same_results s s'"
    by (auto simp: monitor_round_begin_def Let_def same_results_def split: if_splits option.splits prod.splits)
  show "monitor_ready k s p eps = (v, s', eps') \<Longrightarrow> same_results s s'"
    by (auto simp: monitor_ready_def split: if_splits prod.splits bool.splits)
  show "monitor_activated now k s = (v, s') \<Longrightarrow> same_results s s'"
    by (auto simp: monitor_activated_def split: if_splits)
  show "monitor_rest now d k s = (x5, s') \<Longrightarrow> same_results s s'"
    by (auto simp: monitor_rest_def Let_def split: if_splits)
  show "handle_worker_failure_begin k f s = (x6, s') \<Longrightarrow> same_results s s'"
    by (auto simp: handle_worker_failure_begin_def Let_def split: if_splits)
  show "handle_worker_failure_joined now k f s = (x7, s') \<Longrightarrow> same_results s s'"
    by (auto simp: handle_worker_failure_joined_def Let_def split: if_splits)
  show "fail_worker_service_begin f s = (b, s') \<Longrightarrow> same_results s s'"
    by (auto simp: fail_worker_service_begin_def)
  show "join_begin k s = (b, s') \<Longrightarrow> same_results s s'"
    by (auto simp: join_begin_def Let_def same_results_def split: if_splits)
  show "same_results s (join_joined k s)" "same_results s (join_reset k s)" "same_results s (join_end k s)"
    "same_results s (stop_instance target s)" "same_results s (create_worker_install k port s)"
    "same_results s (publish_health s)" "same_results s (fail_worker_service_report report f s)"
    by (simp_all add: join_joined_def join_reset_def join_end_def stop_instance_def create_worker_install_def publish_health_def
        fail_worker_service_report_def same_results_def)
qed

lemma run_action_results:
  assumes p: "results_at (SupRuns (a # rest) exit) s" and r: "run_action a rest exit s = (pc, s')"
  shows "results_at pc s'"
proof -
  have q: "publishes_first rest" "publishes a \<or> list_all (\<lambda>b. \<not> publishes b) rest"
    using p by (simp_all add: results_at_def)
  have x: "final_exit (exit_after_join ok strict exit) \<longleftrightarrow> final_exit exit" "exit_after_join ok strict exit = ExitActivate \<longleftrightarrow> exit = ExitActivate" for ok strict
    by (cases exit; simp add: exit_after_join_def)+
  have fin: "final_exit exit" if "\<not> publishes a" using p that by (simp add: results_at_def)
  show ?thesis
  proof (cases a)
    case (StopWorkers t)
    show ?thesis
    proof (cases "stopper_done s t")
      case False
      obtain t1 where t: "stopper_step t s = (t1, s')" "pc = SupRuns (StopWorkers t1 # rest) exit"
        using r StopWorkers False by (auto simp: run_action_def split: prod.splits)
      have "same_results s s'" using t(1) by (auto simp: stopper_step_def same_results_def stop_source_def split: stopper.splits if_splits)
      then show ?thesis using p t StopWorkers q fin by (intro results_same [OF p]) auto
    qed (use p r StopWorkers q in \<open>auto simp: run_action_def results_at_def\<close>)
  qed (use p r q x fin not_publishes in \<open>auto simp: run_action_def results_at_def publish_startup_def publish_activation_def
        finish_supervisor_run_def request_stop_def split: if_splits\<close>)
qed

lemma sup_thread_results:
  assumes step: "sup_thread_step w w'" and p: "results_at (sw_pc w) (sw_sup w)"
  shows "results_at (sw_pc w') (sw_sup w')"
  using step
proof cases
  case (c_run s)
  then show ?thesis using p by (auto simp: run_begin_supervisor_def results_at_def split: if_splits)
next
  case (c_action a rest exit pc s)
  then show ?thesis using run_action_results [OF p [unfolded c_action(2)] c_action(3)] by simp
next
  case (c_create site k port c s)
  then show ?thesis using operations_same_results(1) [OF c_create(3)]
    by (intro results_same [OF p]) (auto simp: after_create_def split: create_step.splits)
next
  case (c_start site k c s)
  then show ?thesis using operations_same_results(2) [OF c_start(3)]
    by (intro results_same [OF p]) (auto simp: after_create_def split: create_step.splits)
next
  case (c_spawn site k refused c s)
  then show ?thesis using operations_same_results(3) [OF c_spawn(3)]
    by (intro results_same [OF p]) (auto simp: after_create_def started_def split: create_step.splits create_site.splits)
next
  case (c_install site k port bound)
  then show ?thesis using operations_same_results(18) by (intro results_same [OF p]) (auto simp: created_def split: create_site.splits)
next
  case (c_ready_failed k e s eps)
  then show ?thesis using operations_same_results(4) [OF c_ready_failed(3)] by (intro results_same [OF p]) auto
next
  case (c_ready_next k s eps)
  then show ?thesis using operations_same_results(4) [OF c_ready_next(3)] by (intro results_same [OF p]) auto
next
  case (c_ready_wait k s eps)
  then show ?thesis using operations_same_results(4) [OF c_ready_wait(3)] by (intro results_same [OF p]) auto
next
  case (c_ready_done k s eps i)
  then show ?thesis using operations_same_results(4) [OF c_ready_done(3)] by (intro results_same [OF p]) auto
next
  case (c_activation r s)
  then show ?thesis using operations_same_results(5) [OF c_activation(3)]
    by (intro results_same [OF p]) (auto split: activation_round.splits)
next
  case (c_monitor failed r s)
  then show ?thesis using operations_same_results(6) [OF c_monitor(3)]
    by (intro results_same [OF p]) (auto split: monitor_begin.splits)
next
  case (c_stop_instance target)
  then show ?thesis using operations_same_results(17) by (intro results_same [OF p]) auto
next
  case (c_visit_ready k progressed deadline r s eps)
  then show ?thesis using operations_same_results(7) [OF c_visit_ready(3)]
    by (intro results_same [OF p]) (auto split: monitor_visit.splits)
next
  case (c_release k progressed deadline now r s)
  then show ?thesis using operations_same_results(8) [OF c_release(3)]
    by (intro results_same [OF p]) (auto split: monitor_visit.splits)
next
  case (c_rest k progressed deadline now r s)
  then show ?thesis using operations_same_results(9) [OF c_rest(3)]
    by (intro results_same [OF p]) (auto split: rest_step.splits)
next
  case (c_health pc)
  then show ?thesis using operations_same_results(19) p by (intro results_same [OF p]) (auto simp: results_at_def)
next
  case (c_handle k failure r s)
  then show ?thesis using operations_same_results(10) [OF c_handle(3)] by (intro results_same [OF p]) (auto split: option.splits)
next
  case (c_handled k failure now r s)
  then show ?thesis using operations_same_results(11) [OF c_handled(3)] by (intro results_same [OF p]) (auto split: handle_step.splits)
next
  case (c_fail failure report s)
  then show ?thesis using operations_same_results(12) [OF c_fail(3)] by (intro results_same [OF p]) auto
next
  case (c_report report failure)
  then show ?thesis using operations_same_results(20) by (intro results_same [OF p]) auto
next
  case (c_join_begin k site r s)
  then show ?thesis using operations_same_results(13) [OF c_join_begin(3)] p publishes_first_none
    by (intro results_same [OF p]) (auto simp: joined_def results_at_def split: join_site.splits)
next
  case (c_join_wait k site)
  then show ?thesis using operations_same_results(14) p by (intro results_same [OF p]) (auto simp: results_at_def)
next
  case (c_join_destroy k site)
  then show ?thesis using operations_same_results(15) p by (intro results_same [OF p]) (auto simp: results_at_def)
next
  case (c_join_end k site)
  then show ?thesis using operations_same_results(16) p publishes_first_none
    by (intro results_same [OF p]) (auto simp: joined_def results_at_def split: join_site.splits)
next
  case (c_exit exit)
  then show ?thesis using p by (intro results_same [OF p]) (auto simp: run_exit_def results_at_def split: sup_exit.splits)
qed (use p in \<open>(intro results_same [OF p]; auto simp: results_at_def split: option.splits)+\<close>)

lemma sup_results:
  assumes "sup_reachable config initial n timeout w"
  shows "results_at (sw_pc w) (sw_sup w)"
  using assms
proof induction
  case (sup_new p s p')
  then show ?case by (auto simp: results_at_def new_supervisor_def)
next
  case (sup_then w w')
  note p = sup_then.IH
  have l: "lifecycle_at (sw_pc w) w" using sup_lifecycle [OF sup_then(1)] by blast
  from sup_then(2) show ?case
  proof cases
    case supervisor_moves
    then show ?thesis by (rule sup_thread_results [OF _ p])
  next
    case (worker_moves k t)
    then show ?thesis
      using worker_step_changes [OF worker_moves(3) worker_moves(1) lifecycleD(1) [OF l] worker_moves(2)] p by (simp add: results_at_def)
  next
    case other_moves
    then show ?thesis
    proof cases
      case (e_emergency exit)
      then show ?thesis using p by (auto simp: results_at_def)
    next
      case (e_stopper j t s)
      have "same_results (sw_sup w) s"
        using e_stopper(4) by (auto simp: stopper_step_def same_results_def stop_source_def split: stopper.splits if_splits)
      then show ?thesis using e_stopper p by (simp add: results_at_def same_results_def)
    qed (use p in \<open>auto simp: results_at_def request_activation_def release_data_plane_def snapshot_published_def request_stop_def
        inject_abrupt_exit_for_testing_def inject_abrupt_exit_after_next_publication_for_testing_def
        inject_worker_unexpected_stop_for_testing_def inject_worker_precommit_failure_for_testing_def
        inject_emergency_join_failure_once_for_testing_def split: if_splits option.splits\<close>)
  qed
qed

section \<open>Nothing is left after the shutdown\<close>

fun joins :: "sup_action \<Rightarrow> bool" where
  "joins (JoinWorkers k ok strict) = True"
| "joins _ = False"

definition all_clean :: "sup_world \<Rightarrow> bool" where
  "all_clean w \<longleftrightarrow> (\<forall>j < workers w. clean w j)"

fun exit_clean :: "sup_world \<Rightarrow> sup_exit \<Rightarrow> bool" where
  "exit_clean w (ExitReturn r) \<longleftrightarrow> (\<not> sw_join_failed w \<longrightarrow> all_clean w)"
| "exit_clean w (ExitEmergency ok) \<longleftrightarrow> (ok \<longrightarrow> all_clean w)"
| "exit_clean w _ \<longleftrightarrow> True"

text \<open>How far a call of \<open>join_and_reset_all\<close> has come, and whether it has succeeded so far.\<close>

definition joined_upto :: "sup_world \<Rightarrow> nat \<Rightarrow> bool \<Rightarrow> bool" where
  "joined_upto w k ok \<longleftrightarrow> (ok \<longrightarrow> (\<forall>j < workers w. j < k \<longrightarrow> clean w j)) \<and> (\<not> sw_join_failed w \<longrightarrow> ok)"

definition join_unfailed :: "sup_world \<Rightarrow> worker_failure \<Rightarrow> bool" where
  "join_unfailed w f \<longleftrightarrow> (\<not> sw_join_failed w \<longrightarrow> wf_code f \<noteq> FC_JoinFailed)"

fun pc_joins :: "sup_world \<Rightarrow> sup_pc \<Rightarrow> bool" where
  "pc_joins w (SupRuns acts exit) \<longleftrightarrow>
     (\<forall>k ok strict. JoinWorkers k ok strict \<in> set acts \<longrightarrow> joined_upto w k ok)
     \<and> (list_ex joins acts \<longrightarrow> length (filter joins acts) = 1 \<and> exit \<noteq> ExitEmergency True) \<and> (\<not> list_ex joins acts \<longrightarrow> exit_clean w exit)"
| "pc_joins w (SupJoins stage k site) \<longleftrightarrow>
     (case site of JoinAll ok strict rest exit \<Rightarrow> joined_upto w k ok \<and> \<not> list_ex joins rest \<and> exit \<noteq> ExitEmergency True | JoinFailure f \<Rightarrow> join_unfailed w f)"
| "pc_joins w (SupHandles k f) \<longleftrightarrow> join_unfailed w f"
| "pc_joins w (SupHandled k f) \<longleftrightarrow> join_unfailed w f"
| "pc_joins w (SupFails f) \<longleftrightarrow> join_unfailed w f"
| "pc_joins w (SupReportsFatal b f) \<longleftrightarrow> join_unfailed w f"
| "pc_joins w (SupHealth pc) \<longleftrightarrow> pc_joins w pc"
| "pc_joins w (SupEnded exit) \<longleftrightarrow> exit_clean w exit"
| "pc_joins w _ \<longleftrightarrow> True"

definition cleaner :: "sup_world \<Rightarrow> sup_world \<Rightarrow> bool" where
  "cleaner w w' \<longleftrightarrow> workers w' = workers w \<and> (\<forall>j < workers w. clean w j \<longrightarrow> clean w' j) \<and> (sw_join_failed w \<longrightarrow> sw_join_failed w')"

lemma cleaner_refl [simp]: "cleaner w w"
  by (simp add: cleaner_def)

lemma cleaner_parts:
  assumes "cleaner w w'"
  shows "joined_upto w k ok \<Longrightarrow> joined_upto w' k ok" "exit_clean w exit \<Longrightarrow> exit_clean w' exit"
    "join_unfailed w f \<Longrightarrow> join_unfailed w' f" "all_clean w \<Longrightarrow> all_clean w'"
  using assms by (auto simp: cleaner_def joined_upto_def join_unfailed_def all_clean_def elim!: exit_clean.elims)

lemma pc_joins_mono:
  assumes c: "cleaner w w'"
  shows "pc_joins w pc \<Longrightarrow> pc_joins w' pc"
proof (induction pc)
  case (SupRuns acts exit)
  then show ?case
    using cleaner_parts(1,2) [OF c] by auto
next
  case (SupJoins stage k site)
  then show ?case
    using cleaner_parts [OF c] by (auto split: join_site.splits)
qed (use cleaner_parts [OF c] in auto)

lemma same_workers_cleaner: "same_workers w w' \<Longrightarrow> sw_join_failed w' = sw_join_failed w \<Longrightarrow> cleaner w w'"
  by (simp add: cleaner_def same_workersD)

lemma keeps_cleaner:
  "keeps_records (sw_sup w) (sw_sup w') \<Longrightarrow> sw_pub w' = sw_pub w \<Longrightarrow> (sw_join_failed w \<Longrightarrow> sw_join_failed w') \<Longrightarrow> cleaner w w'"
proof -
  assume a: "keeps_records (sw_sup w) (sw_sup w')" "sw_pub w' = sw_pub w" "sw_join_failed w \<Longrightarrow> sw_join_failed w'"
  then have "same_workers w w'" by (simp add: same_workers_def keeps_records_def holds_snapshot_def)
  then show "cleaner w w'" using a(3) by (simp add: cleaner_def same_workersD)
qed

lemma monitor_returns_joins:
  "sr_error_code r \<noteq> SR_WorkerJoinFailed \<or> sw_join_failed w \<Longrightarrow> pc_joins w (monitor_returns r)"
  by (auto simp: monitor_returns_def joined_upto_def)

lemma exits_joins [simp]:
  "pc_joins w abrupt_exit" "pc_joins w (startup_fails e)" "pc_joins w (activation_fails ae)" "pc_joins w emergency_join_all"
  "pc_joins w (monitor_returns requested_stop_result)" "all_clean w \<Longrightarrow> pc_joins w (run_rejected e a r)"
  "pc_joins w (recovery_error k e)" "pc_joins w (create_failed site k e)" "pc_joins w (start_failed site k e)"
  "pc_joins w (visit_next k progressed d s)"
proof -
  show f: "pc_joins w (recovery_error k e)" for e
    by (simp add: recovery_error_def join_unfailed_def creation_failure_def monitor_returns_joins requested_stop_result_def)
  show s: "pc_joins w (startup_fails e)" for e by (simp add: startup_fails_def joined_upto_def)
  show "pc_joins w (create_failed site k e)" "pc_joins w (start_failed site k e)"
    using f s by (cases site; simp add: create_failed_def start_failed_def)+
qed (simp_all add: abrupt_exit_def activation_fails_def emergency_join_all_def monitor_returns_joins requested_stop_result_def
      run_rejected_def joined_upto_def visit_next_def round_end_def)

lemma run_action_joins:
  assumes p: "pc_joins w (SupRuns (a # rest) exit)" and r: "run_action a rest exit (sw_sup w) = (pc, s)"
  shows "pc_joins w pc"
proof -
  have "list_ex joins rest \<longleftrightarrow> filter joins rest \<noteq> []" by (auto simp: list_ex_iff filter_empty_conv)
  then have q: "joins a \<Longrightarrow> \<not> list_ex joins rest" "\<not> joins a \<Longrightarrow> pc_joins w (SupRuns rest exit)" "joins a \<Longrightarrow> exit \<noteq> ExitEmergency True"
    using p by auto
  show ?thesis
  proof (cases a)
    case (StopWorkers t)
    then show ?thesis using p r q by (auto simp: run_action_def split: if_splits prod.splits)
  next
    case (JoinWorkers k ok strict)
    then have u: "joined_upto w k ok" "\<not> list_ex joins rest" using p q by auto
    show ?thesis
    proof (cases "k < workers w")
      case True
      then show ?thesis using u q(3) r JoinWorkers by (auto simp: run_action_def)
    next
      case False
      then have "ok \<Longrightarrow> all_clean w" "\<not> sw_join_failed w \<Longrightarrow> ok" using u(1) by (auto simp: joined_upto_def all_clean_def)
      then have "exit_clean w (exit_after_join ok strict exit)"
        by (cases exit) (auto simp: exit_after_join_def)
      moreover have "JoinWorkers k' ok' strict' \<notin> set rest" for k' ok' strict' using u(2) by (auto simp: list_ex_iff)
      ultimately show ?thesis using u(2) r JoinWorkers False by (auto simp: run_action_def)
    qed
  qed (use r q in \<open>auto simp: run_action_def split: if_splits\<close>)
qed

lemma joined_joins:
  assumes p: "pc_joins w (SupJoins stage k site)" and c: "clean w k"
  shows "pc_joins w (joined True k site)"
proof (cases site)
  case (JoinAll ok strict rest exit)
  have n: "\<not> list_ex joins rest" and u: "joined_upto w k ok" and e: "exit \<noteq> ExitEmergency True" using p JoinAll by simp_all
  from n have "JoinWorkers k' ok' strict' \<notin> set rest" "filter joins rest = []" for k' ok' strict'
    by (auto simp: list_ex_iff filter_empty_conv)
  moreover have "joined_upto w (k + 1) ok" using u c by (auto simp: joined_upto_def less_Suc_eq)
  ultimately show ?thesis using JoinAll e by (auto simp: joined_def)
qed (use p in \<open>simp add: joined_def\<close>)

lemma joins_failed:
  assumes "pc_joins w (SupJoins stage k site)" "sw_join_failed w"
  shows "pc_joins w (joined False k site)"
proof (cases site)
  case (JoinAll ok strict rest exit)
  have "JoinWorkers k' ok' strict' \<notin> set rest" "filter joins rest = []" "exit \<noteq> ExitEmergency True" for k' ok' strict'
    using assms(1) JoinAll by (auto simp: list_ex_iff filter_empty_conv)
  then show ?thesis using JoinAll assms(2) by (auto simp: joined_def joined_upto_def)
qed (use assms in \<open>simp add: joined_def join_unfailed_def\<close>)

lemma join_cleaner:
  assumes l: "lifecycle_at (sw_pc w) w" and o: "only_worker k w w'" and c: "clean w k \<Longrightarrow> clean w' k" and f: "sw_join_failed w' = sw_join_failed w"
  shows "cleaner w w'"
proof -
  have "clean w j \<longrightarrow> clean w' j" if "j < workers w" for j
    using c only_workerD(3) [OF o that] by (cases "j = k") auto
  then show ?thesis using only_workerD(1) [OF o] f by (simp add: cleaner_def)
qed

lemma sup_thread_joins:
  assumes step: "sup_thread_step w w'" and p: "pc_joins w (sw_pc w)" and l: "lifecycle_at (sw_pc w) w"
    and l': "lifecycle_at (sw_pc w') w'"
  shows "pc_joins w' (sw_pc w')"
  using step
proof cases
  case (c_enter)
  then have "all_clean w'" using lifecycleD(5) [OF l] by (auto simp: all_clean_def clean_def)
  then show ?thesis using c_enter by auto
next
  case (c_check)
  then have "all_clean w'" using lifecycleD(5) [OF l] by (auto simp: all_clean_def clean_def)
  then show ?thesis using c_check by auto
next
  case (c_create site k port c s)
  then show ?thesis by (auto simp: after_create_def split: create_step.splits)
next
  case (c_start site k c s)
  then show ?thesis by (auto simp: after_create_def split: create_step.splits)
next
  case (c_spawn site k refused c s)
  then show ?thesis by (auto simp: after_create_def started_def split: create_step.splits create_site.splits)
next
  case (c_install site k port bound)
  then show ?thesis by (auto simp: created_def split: create_site.splits)
next
  case (c_activation r s)
  then show ?thesis by (auto split: activation_round.splits)
next
  case (c_monitor failed r s)
  have "sr_error_code x \<noteq> SR_WorkerJoinFailed" if "r = MonitorReturns x" for x
    using that c_monitor(3) by (auto simp: monitor_round_begin_def Let_def requested_stop_result_def bare_fatal_result_def
        split: if_splits option.splits prod.splits)
  then show ?thesis using c_monitor by (auto simp: monitor_returns_joins split: monitor_begin.splits)
next
  case (c_visit k progressed deadline)
  then show ?thesis
    by (auto simp: join_unfailed_def monitor_failure_def Let_def split: option.splits if_splits)
next
  case (c_visit_ready k progressed deadline r s eps)
  have "x = requested_stop_result" if "r = VisitReturns x" for x
    using that c_visit_ready(3) by (auto simp: monitor_ready_def split: if_splits prod.splits bool.splits)
  then show ?thesis using c_visit_ready by (auto split: monitor_visit.splits)
next
  case (c_release k progressed deadline now r s)
  have "x = requested_stop_result" if "r = VisitReturns x" for x
    using that c_release(3) by (auto simp: monitor_activated_def split: if_splits)
  then show ?thesis using c_release by (auto split: monitor_visit.splits)
next
  case (c_rest k progressed deadline now r s)
  then show ?thesis by (auto split: rest_step.splits)
next
  case (c_health pc)
  have c: "cleaner w w'" using c_health by (intro keeps_cleaner) (auto simp: keeps_records_eq)
  then show ?thesis using pc_joins_mono [OF c, of pc] p c_health by simp
next
  case (c_handle k failure r s)
  have "x = requested_stop_result" if "r = Some x" for x
    using that c_handle(3) by (auto simp: handle_worker_failure_begin_def Let_def split: if_splits)
  then show ?thesis using c_handle p by (auto simp: join_unfailed_def split: option.splits)
next
  case (c_handled k failure now r s)
  have "r = HandleReturns requested_stop_result \<or> r = HandleRecovers \<or> (\<exists>f. r = HandleFails f \<and> wf_code f = wf_code failure)"
    using c_handled(3) by (auto simp: handle_worker_failure_joined_def Let_def split: if_splits)
  then show ?thesis using c_handled p by (auto simp: join_unfailed_def)
next
  case (c_fail failure report s)
  then show ?thesis using p by (simp add: join_unfailed_def)
next
  case (c_report report failure)
  have "pc_joins w' (monitor_returns (failed_service_result failure))"
    by (rule monitor_returns_joins) (use p c_report in \<open>auto simp: failed_service_result_def join_unfailed_def\<close>)
  then show ?thesis using c_report(1) by simp
next
  case (c_join_begin k site r s)
  have c: "cleaner w w'"
    using c_join_begin other_keeps(6) [OF c_join_begin(3)] by (intro keeps_cleaner) auto
  have q: "pc_joins w' (SupJoins stage k site)" for stage using pc_joins_mono [OF c, of "SupJoins stage k site"] p c_join_begin(2) by simp
  show ?thesis
  proof (cases r)
    case True
    then show ?thesis using q c_join_begin(1) by simp
  next
    case False
    then show ?thesis using joins_failed [OF q] c_join_begin(1) by simp
  qed
next
  case (c_join_wait k site)
  have c: "cleaner w w'" using c_join_wait other_keeps(7) by (intro keeps_cleaner) auto
  then show ?thesis using pc_joins_mono [OF c, of "SupJoins JoinDestroys k site"] p c_join_wait by simp
next
  case (c_join_destroy k site)
  have "k < workers w" "length (pw_locals (sw_pub w)) = workers w" using lifecycleD(1,5) [OF l] c_join_destroy(2) by simp_all
  then have c: "cleaner w w'" using c_join_destroy lifecycleD(2) [OF l]
    by (intro join_cleaner [OF l, of k]) (auto simp: only_worker_def clean_def join_reset_def)
  then show ?thesis using pc_joins_mono [OF c, of "SupJoins JoinQuiesces k site"] p c_join_destroy by simp
next
  case (c_join_quiesce k site q eps)
  have k: "k < workers w" "length (fp_registry (sw_publication w)) = workers w" using lifecycleD(2,5) [OF l] c_join_quiesce(2) by simp_all
  then have c: "cleaner w w'" using c_join_quiesce(1) quiesce_shape [OF c_join_quiesce(3)]
    by (intro join_cleaner [OF l, of k]) (auto simp: only_worker_def clean_def)
  then show ?thesis using pc_joins_mono [OF c, of "SupJoins JoinEnds k site"] p c_join_quiesce by simp
next
  case (c_join_end k site)
  have "keeps_records (sw_sup w) (join_end k (sw_sup w))" unfolding join_end_def by (rule keeps_records_on) simp
  then have c: "cleaner w w'" using c_join_end by (intro keeps_cleaner) auto
  have k: "k < workers w" "clean w k" using lifecycleD(5) [OF l] c_join_end(2) by simp_all
  then have "clean w' k" using c by (simp add: cleaner_def)
  then show ?thesis using joined_joins [of w' JoinEnds k site] pc_joins_mono [OF c, of "SupJoins JoinEnds k site"] p c_join_end by simp
next
  case (c_action a rest exit pc s)
  have c: "cleaner w w'" using c_action other_keeps(9) [OF c_action(3)] by (intro keeps_cleaner) auto
  have "pc_joins w pc" by (rule run_action_joins [OF p [unfolded c_action(2)] c_action(3)])
  then show ?thesis using pc_joins_mono [OF c, of pc] c_action(1) by simp
next
  case (c_exit exit)
  have c: "cleaner w w'" using c_exit by (intro keeps_cleaner) auto
  have e: "exit_clean w' exit" using p c_exit(2) cleaner_parts(2) [OF c] by simp
  then show ?thesis using c_exit(1) by (cases exit) (auto simp: run_exit_def joined_upto_def)
qed auto

lemma sup_joins:
  assumes "sup_reachable config initial n timeout w"
  shows "pc_joins w (sw_pc w)"
  using assms
proof induction
  case (sup_new p s p')
  then show ?case by simp
next
  case (sup_then w w')
  note p = sup_then.IH
  have l: "lifecycle_at (sw_pc w) w" and l': "lifecycle_at (sw_pc w') w'"
    using sup_lifecycle sup_then(1) sup_reachable.sup_then [OF sup_then(1,2)] by blast+
  from sup_then(2) show ?case
  proof cases
    case supervisor_moves
    then show ?thesis by (rule sup_thread_joins [OF _ p l l'])
  next
    case (worker_moves k t)
    have c: "sw_pc w' = sw_pc w" "sw_join_failed w' = sw_join_failed w"
      using worker_step_changes [OF worker_moves(3) worker_moves(1) lifecycleD(1) [OF l] worker_moves(2)] by blast+
    have "cleaner w w'"
      by (rule same_workers_cleaner [OF worker_step_same [OF worker_moves(3,1) lifecycleD(1) [OF l] worker_moves(2)] c(2)])
    then show ?thesis using pc_joins_mono p c(1) by simp
  next
    case other_moves
    then show ?thesis
    proof cases
      case (e_publication q)
      have "cleaner w w'" using e_publication by (intro same_workers_cleaner) (auto simp: same_workers_def holds_snapshot_def)
      then show ?thesis using pc_joins_mono p e_publication(1) by simp
    next
      case (e_stopper j t s)
      have "cleaner w w'" using e_stopper stopper_step_frame [OF e_stopper(4)] by (intro keeps_cleaner) (auto simp: keeps_records_eq)
      then show ?thesis using pc_joins_mono p e_stopper(1) by simp
    next
      case (e_activate r s)
      have "cleaner w w'" using e_activate other_keeps(10) by (intro keeps_cleaner) auto
      then show ?thesis using pc_joins_mono p e_activate(1) by simp
    next
      case (e_release r s)
      have "cleaner w w'" using e_release other_keeps(11) by (intro keeps_cleaner) auto
      then show ?thesis using pc_joins_mono p e_release(1) by simp
    next
      case (e_unexpected_stop k r s)
      have "cleaner w w'" using e_unexpected_stop other_keeps(12) by (intro keeps_cleaner) auto
      then show ?thesis using pc_joins_mono p e_unexpected_stop(1) by simp
    next
      case (e_precommit_failure k r s)
      have "cleaner w w'" using e_precommit_failure other_keeps(13) by (intro keeps_cleaner) auto
      then show ?thesis using pc_joins_mono p e_precommit_failure(1) by simp
    next
      case (e_emergency exit)
      then show ?thesis by simp
    qed (rule pc_joins_mono [OF keeps_cleaner]; use p in \<open>simp add: keeps_records_eq\<close>)+
  qed
qed

text \<open>
  C18. Safety: when the thread function of the supervisor has returned and no join has failed, or when
  \<open>emergency_join_all\<close> has returned true, nothing of any worker is left: no thread, no instance, no snapshot
  and no registration.  So nothing of the workers keeps the publication from being destroyed.  And if the
  thread was ever started, both results have been published, so nobody waits for them any more.
\<close>

theorem shutdown_leaves_nothing:
  assumes "sup_reachable config initial n timeout w" and "sw_pc w = SupEnded exit"
    and "exit = ExitEmergency True \<or> (\<exists>r. exit = ExitReturn r) \<and> \<not> sw_join_failed w"
  shows "(\<forall>k < workers w. wr_thread (rec_at (sw_sup w) k) = None \<and> wr_instance (rec_at (sw_sup w) k) = None
      \<and> pw_locals (sw_pub w) ! k = None)
    \<and> \<not> list_ex (\<lambda>e. e \<noteq> None) (fp_registry (sw_publication w))
    \<and> (sv_run_started (sw_sup w) \<longrightarrow>
        wait_for_startup False (sw_sup w) \<noteq> None \<and> wait_for_activation False (sw_sup w) \<noteq> None)"
proof -
  have l: "lifecycle_at (SupEnded exit) w" using sup_lifecycle [OF assms(1)] assms(2) by simp
  have c: "clean w k" if "k < workers w" for k
    using sup_joins [OF assms(1)] assms(2,3) that by (auto simp: all_clean_def)
  have "pw_locals (sw_pub w) ! k = None" if "k < workers w" for k
    using lifecycleD(4) [OF l that] c [OF that] by (auto simp: holds_snapshot_def has_instance_def clean_def)
  moreover have "\<not> list_ex (\<lambda>e. e \<noteq> None) (fp_registry (sw_publication w))"
    using c lifecycleD(2) [OF l] by (auto simp: list_ex_iff in_set_conv_nth clean_def)
  moreover have "sv_startup (sw_sup w) \<noteq> None \<and> sv_activation (sw_sup w) \<noteq> None" if "sv_run_started (sw_sup w)"
    using that sup_results [OF assms(1)] assms(2) by (auto simp: results_at_def)
  ultimately show ?thesis using c by (auto simp: clean_def wait_for_startup_def wait_for_activation_def)
qed

section \<open>The budget of restarts\<close>

definition backoff_after :: "worker_recovery_config \<Rightarrow> nat \<Rightarrow> int" where
  "backoff_after c a = ((\<lambda>d. doubled_backoff d (rc_max_backoff c)) ^^ a) (rc_initial_backoff c)"

lemma backoff_after_closed:
  assumes "0 \<le> rc_initial_backoff c" "rc_initial_backoff c \<le> rc_max_backoff c"
  shows "backoff_after c a = min (rc_max_backoff c) (rc_initial_backoff c * 2 ^ a)"
proof (induction a)
  case (Suc a)
  have "0 \<le> rc_initial_backoff c * 2 ^ a" "0 \<le> rc_max_backoff c" using assms by simp_all
  then show ?case using Suc by (auto simp: backoff_after_def doubled_backoff_def min_def)
qed (use assms in \<open>simp add: backoff_after_def\<close>)

lemma backoff_after_Suc: "backoff_after c (Suc a) = doubled_backoff (backoff_after c a) (rc_max_backoff c)"
  by (simp add: backoff_after_def)

text \<open>A replacement could not be created, and its failure is about to be handled.\<close>

fun handling :: "sup_pc \<Rightarrow> nat \<Rightarrow> bool" where
  "handling (SupHandles j f) k \<longleftrightarrow> j = k"
| "handling (SupHealth pc) k \<longleftrightarrow> handling pc k"
| "handling _ k \<longleftrightarrow> False"

text \<open>The service ends; the backoffs do not matter any more.\<close>

fun torn_down :: "sup_pc \<Rightarrow> bool" where
  "torn_down (SupRuns acts exit) \<longleftrightarrow> final_exit exit"
| "torn_down (SupJoins stage k site) \<longleftrightarrow> (case site of JoinAll ok strict rest exit \<Rightarrow> True | JoinFailure f \<Rightarrow> False)"
| "torn_down (SupEnded exit) \<longleftrightarrow> True"
| "torn_down (SupHealth pc) \<longleftrightarrow> torn_down pc"
| "torn_down _ \<longleftrightarrow> False"

definition attempts_ok :: "worker_recovery_config \<Rightarrow> worker_record \<Rightarrow> bool" where
  "attempts_ok c r \<longleftrightarrow> wr_recovery_attempts r \<le> rc_max_attempts c \<and> (\<not> wr_recovery_episode r \<longrightarrow> wr_recovery_attempts r = 0)"

definition record_budget :: "worker_recovery_config \<Rightarrow> bool \<Rightarrow> worker_record \<Rightarrow> bool" where
  "record_budget c handled r \<longleftrightarrow>
     (wr_state r = RecBackoff \<longrightarrow> wr_recovery_episode r \<and> rc_policy c = Restart)
     \<and> (wr_recovery_episode r \<longrightarrow>
          (if wr_state r = RecBackoff \<and> \<not> handled
           then wr_recovery_attempts r < rc_max_attempts c \<and> wr_next_backoff r = backoff_after c (Suc (wr_recovery_attempts r))
           else wr_next_backoff r = backoff_after c (wr_recovery_attempts r)))"

fun pc_budget :: "supervisor \<Rightarrow> sup_pc \<Rightarrow> bool" where
  "pc_budget s (SupCreates site k port) \<longleftrightarrow>
     (if site = AtStartup then \<forall>j < length (sv_records s). \<not> wr_recovery_episode (rec_at s j) else wr_state (rec_at s k) = RecBackoff)"
| "pc_budget s (SupHandled k f) \<longleftrightarrow> wr_state (rec_at s k) \<noteq> RecBackoff"
| "pc_budget s (SupProbedReady k p d) \<longleftrightarrow> wr_state (rec_at s k) \<noteq> RecBackoff"
| "pc_budget s (SupProbedActivated k p d) \<longleftrightarrow> wr_state (rec_at s k) \<noteq> RecBackoff"
| "pc_budget s (SupJoins stage k site) \<longleftrightarrow>
     (case site of JoinAll ok strict rest exit \<Rightarrow> True | JoinFailure f \<Rightarrow> wr_state (rec_at s k) \<noteq> RecBackoff)"
| "pc_budget s (SupHealth pc) \<longleftrightarrow> pc_budget s pc"
| "pc_budget s (SupRegisters site k port) \<longleftrightarrow> (site = AtStartup \<longrightarrow> (\<forall>j < length (sv_records s). \<not> wr_recovery_episode (rec_at s j)))"
| "pc_budget s (SupBuilds site k port) \<longleftrightarrow> (site = AtStartup \<longrightarrow> (\<forall>j < length (sv_records s). \<not> wr_recovery_episode (rec_at s j)))"
| "pc_budget s (SupInstalls site k port bound) \<longleftrightarrow> (site = AtStartup \<longrightarrow> (\<forall>j < length (sv_records s). \<not> wr_recovery_episode (rec_at s j)))"
| "pc_budget s SupIdle \<longleftrightarrow> (\<forall>j < length (sv_records s). \<not> wr_recovery_episode (rec_at s j))"
| "pc_budget s SupEnters \<longleftrightarrow> (\<forall>j < length (sv_records s). \<not> wr_recovery_episode (rec_at s j))"
| "pc_budget s SupChecks \<longleftrightarrow> (\<forall>j < length (sv_records s). \<not> wr_recovery_episode (rec_at s j))"
| "pc_budget s _ \<longleftrightarrow> True"

definition budget_at :: "sup_pc \<Rightarrow> supervisor \<Rightarrow> bool" where
  "budget_at pc s \<longleftrightarrow>
     (\<forall>k < length (sv_records s). attempts_ok (cfg_recovery (sv_config s)) (rec_at s k)
        \<and> (\<not> torn_down pc \<longrightarrow> record_budget (cfg_recovery (sv_config s)) (handling pc k) (rec_at s k)))
     \<and> pc_budget s pc"

text \<open>Steps that leave the recovery of every worker alone.\<close>

definition same_recovery :: "worker_record \<Rightarrow> worker_record \<Rightarrow> bool" where
  "same_recovery r r' \<longleftrightarrow> wr_recovery_episode r' = wr_recovery_episode r \<and> wr_recovery_attempts r' = wr_recovery_attempts r
     \<and> wr_next_backoff r' = wr_next_backoff r \<and> (wr_state r' = RecBackoff \<longleftrightarrow> wr_state r = RecBackoff)"

definition same_budgets :: "supervisor \<Rightarrow> supervisor \<Rightarrow> bool" where
  "same_budgets s s' \<longleftrightarrow> sv_config s' = sv_config s \<and> length (sv_records s') = length (sv_records s)
     \<and> (\<forall>k < length (sv_records s). same_recovery (rec_at s k) (rec_at s' k))"

lemma same_budgets_refl [simp]: "same_budgets s s"
  by (simp add: same_budgets_def same_recovery_def)

lemma pc_budget_same:
  assumes s: "same_budgets s s'" and w: "pc_ok w pc" "workers w = length (sv_records s)"
  shows "pc_budget s pc \<Longrightarrow> pc_budget s' pc"
  using w s by (induction pc) (auto simp: same_budgets_def same_recovery_def split: join_site.splits)

lemma budget_quiet:
  assumes b: "budget_at pc s" and s: "same_budgets s s'" and pc: "pc_budget s' pc'"
    and h: "\<And>k. k < length (sv_records s) \<Longrightarrow>
      torn_down pc' \<or> \<not> torn_down pc \<and> (handling pc' k = handling pc k \<or> wr_state (rec_at s k) \<noteq> RecBackoff)"
  shows "budget_at pc' s'"
proof -
  have "record_budget c (handling pc' k) (rec_at s' k)"
    if "k < length (sv_records s)" "record_budget c (handling pc k) (rec_at s k)" "\<not> torn_down pc'" for k c
    using that h [OF that(1)] s by (auto simp: same_budgets_def same_recovery_def record_budget_def)
  moreover have "attempts_ok c (rec_at s' k)" if "k < length (sv_records s)" "attempts_ok c (rec_at s k)" for k c
    using that s by (auto simp: same_budgets_def same_recovery_def attempts_ok_def)
  ultimately show ?thesis using b s pc h by (auto simp: budget_at_def same_budgets_def)
qed

lemma budget_torn:
  assumes "budget_at pc s" "torn_down pc'" "pc_budget s' pc'" "sv_config s' = sv_config s" "length (sv_records s') = length (sv_records s)"
    "\<And>k. k < length (sv_records s) \<Longrightarrow> wr_recovery_episode (rec_at s' k) = wr_recovery_episode (rec_at s k)
      \<and> wr_recovery_attempts (rec_at s' k) = wr_recovery_attempts (rec_at s k)"
  shows "budget_at pc' s'"
  using assms by (auto simp: budget_at_def attempts_ok_def)

lemma same_budgets_on:
  assumes "\<And>r. wr_recovery_episode (f r) = wr_recovery_episode r \<and> wr_recovery_attempts (f r) = wr_recovery_attempts r
      \<and> wr_next_backoff (f r) = wr_next_backoff r"
    and "k < length (sv_records s) \<Longrightarrow> wr_state (f (rec_at s k)) = RecBackoff \<longleftrightarrow> wr_state (rec_at s k) = RecBackoff"
  shows "same_budgets s (on_record k f s)"
  using assms by (cases "k < length (sv_records s)") (auto simp: same_budgets_def same_recovery_def on_record_def nth_list_update)

lemma same_budgets_health [simp]: "same_budgets s (on_health f s') \<longleftrightarrow> same_budgets s s'"
  by (simp add: same_budgets_def)

lemma same_budgets_eqI: "sv_records s' = sv_records s \<Longrightarrow> sv_config s' = sv_config s \<Longrightarrow> same_budgets s s'"
  by (simp add: same_budgets_def same_recovery_def)

lemma same_budgets_map:
  "sv_records s' = map f (sv_records s) \<Longrightarrow> sv_config s' = sv_config s \<Longrightarrow> (\<And>r. r \<in> set (sv_records s) \<Longrightarrow> same_recovery r (f r)) \<Longrightarrow> same_budgets s s'"
  by (simp add: same_budgets_def)

lemma not_backoff:
  assumes l: "lifecycle_at pc w" and k: "k < workers w" and c: "\<not> clean w k"
  shows "wr_state (rec_at (sw_sup w) k) \<noteq> RecBackoff"
  using lifecycleD(3) [OF l k] c by (auto simp: record_ok_def Let_def)

lemma budget_exits [simp]:
  "pc_budget s abrupt_exit" "torn_down abrupt_exit" "pc_budget s (startup_fails e)" "torn_down (startup_fails e)"
  "pc_budget s (run_rejected e a r)" "torn_down (run_rejected e a r)" "pc_budget s (monitor_returns r)" "torn_down (monitor_returns r)"
  "\<not> handling (monitor_returns r) j"
  "pc_budget s (activation_fails ae)" "\<not> torn_down (activation_fails ae)" "\<not> handling (activation_fails ae) j"
  "pc_budget s emergency_join_all" "torn_down emergency_join_all"
  "pc_budget s (recovery_error k e)"
  "pc_budget s (visit_next k progressed d s0)" "\<not> torn_down (visit_next k progressed d s0)" "\<not> handling (visit_next k progressed d s0) j"
  by (auto simp: abrupt_exit_def startup_fails_def run_rejected_def monitor_returns_def activation_fails_def emergency_join_all_def
      recovery_error_def visit_next_def round_end_def)

lemma create_failed_budget [simp]:
  "pc_budget s (create_failed site k e)" "pc_budget s (start_failed site k e)"
  by (cases site; simp add: create_failed_def start_failed_def)+

lemma create_failed_handling:
  "\<not> torn_down (create_failed site k e) \<Longrightarrow> handling (create_failed site k e) j \<Longrightarrow> j = k"
  "\<not> torn_down (start_failed site k e) \<Longrightarrow> handling (start_failed site k e) j \<Longrightarrow> j = k"
  "\<not> torn_down (create_failed site k e) \<Longrightarrow> handling (create_failed site k e) k"
  by (cases site; auto simp: create_failed_def start_failed_def recovery_error_def split: if_splits)+

lemma operations_same_budgets:
  "run_begin_supervisor s = (x1, s') \<Longrightarrow> same_budgets s s'"
  "start_worker_thread_begin k s = (c, s') \<Longrightarrow> same_budgets s s'"
  "start_worker_thread_spawn k refused s = (c, s') \<Longrightarrow> same_budgets s s'"
  "monitor_round_begin failed s = (x4, s') \<Longrightarrow> same_budgets s s'"
  "fail_worker_service_begin f s = (b, s') \<Longrightarrow> same_budgets s s'"
  "same_budgets s (stop_instance target s)" "same_budgets s (publish_health s)" "same_budgets s (fail_worker_service_report report f s)"
  "run_action a rest exit s = (pc, s') \<Longrightarrow> same_budgets s s'"
  "stopper_step t s = (t', s') \<Longrightarrow> same_budgets s s'"
proof -
  show "run_begin_supervisor s = (x1, s') \<Longrightarrow> same_budgets s s'"
    by (auto simp: run_begin_supervisor_def intro!: same_budgets_eqI split: if_splits)
  show "start_worker_thread_begin k s = (c, s') \<Longrightarrow> same_budgets s s'"
    by (auto simp: start_worker_thread_begin_def Let_def intro!: same_budgets_on split: if_splits)
  show "start_worker_thread_spawn k refused s = (c, s') \<Longrightarrow> same_budgets s s'"
    by (auto simp: start_worker_thread_spawn_def intro!: same_budgets_on split: option.splits)
  show "monitor_round_begin failed s = (x4, s') \<Longrightarrow> same_budgets s s'"
  proof -
    assume m: "monitor_round_begin failed s = (x4, s')"
    obtain e rs where q: "request_filter_refreshes failed 0 (sv_records s) = (e, rs)" by fastforce
    have r: "length rs = length (sv_records s)" "\<And>i. i < length (sv_records s) \<Longrightarrow> same_recovery (sv_records s ! i) (rs ! i)"
      using refreshes_same [OF q] by (force simp: same_recovery_def)+
    have "sv_records s' = sv_records s \<or> sv_records s' = rs" "sv_config s' = sv_config s"
      using m by (auto simp: monitor_round_begin_def q Let_def split: if_splits option.splits prod.splits)
    then show ?thesis using r by (auto simp: same_budgets_def same_recovery_def)
  qed
  show "fail_worker_service_begin f s = (b, s') \<Longrightarrow> same_budgets s s'"
    by (auto simp: fail_worker_service_begin_def)
  show "same_budgets s (stop_instance target s)" "same_budgets s (publish_health s)" "same_budgets s (fail_worker_service_report report f s)"
    by (simp_all add: stop_instance_def publish_health_def fail_worker_service_report_def same_budgets_on same_budgets_eqI)
  show st: "stopper_step t s = (t', s') \<Longrightarrow> same_budgets s s'" for t t'
    by (auto simp: stopper_step_def intro!: same_budgets_eqI split: stopper.splits if_splits)
  show "run_action a rest exit s = (pc, s') \<Longrightarrow> same_budgets s s'"
    using st by (auto simp: run_action_def publish_startup_def publish_activation_def finish_supervisor_run_def request_stop_def
        intro!: same_budgets_eqI split: sup_action.splits if_splits prod.splits)
qed

lemma create_begin_outcomes:
  assumes "create_worker_begin k s = (c, s')"
  shows "(c = CreateThrows \<or> c = CreateReturns cancelled_startup) \<and> s' = s
    \<or> c \<noteq> CreateContinues \<and> s' = count_attempt k s
    \<or> c = CreateContinues \<and> s' = on_record k fresh_instance (count_attempt k s)"
  using assms by (simp add: create_worker_begin_def Let_def fresh_instance_def [abs_def] split: if_splits) auto

lemma create_begin_budget:
  assumes b: "budget_at (SupCreates site k port) s" and k: "k < length (sv_records s)" and c: "create_worker_begin k s = (c, s')"
  shows "budget_at (after_create c (create_failed site k) (SupRegisters site k port)) s'"
proof -
  let ?c = "cfg_recovery (sv_config s)"
  have all: "attempts_ok ?c (rec_at s j) \<and> record_budget ?c False (rec_at s j)" if "j < length (sv_records s)" for j
    using b that by (simp add: budget_at_def)
  have st: "site = AtStartup \<Longrightarrow> \<forall>j < length (sv_records s). \<not> wr_recovery_episode (rec_at s j)"
    "site \<noteq> AtStartup \<Longrightarrow> wr_state (rec_at s k) = RecBackoff"
    using b by (auto simp: budget_at_def)
  let ?s = "count_attempt k s"
  have cf: "sv_config ?s = sv_config s" "length (sv_records ?s) = length (sv_records s)" "\<And>j. j \<noteq> k \<Longrightarrow> rec_at ?s j = rec_at s j"
    "wr_recovery_episode (rec_at ?s k) = wr_recovery_episode (rec_at s k)"
    using k by (simp_all add: count_attempt_def)
  have counted: "attempts_ok ?c (rec_at ?s k)" "record_budget ?c True (rec_at ?s k)"
  proof -
    show "attempts_ok ?c (rec_at ?s k)"
      using all [OF k] st k by (cases site) (auto simp: count_attempt_def attempts_ok_def record_budget_def)
    show "record_budget ?c True (rec_at ?s k)"
      using all [OF k] st k by (cases site) (auto simp: count_attempt_def record_budget_def)
  qed
  have ep: "site = AtStartup \<Longrightarrow> \<forall>j < length (sv_records s). \<not> wr_recovery_episode (rec_at ?s j)"
    using st(1) cf(3,4) by metis
  have others: "attempts_ok ?c (rec_at ?s j)" "j \<noteq> k \<Longrightarrow> record_budget ?c h (rec_at ?s j) \<longleftrightarrow> record_budget ?c h (rec_at s j)"
    if "j < length (sv_records s)" for j h
    using all [OF that] cf(3) [of j] counted(1) by (cases "j = k"; simp)+
  from create_begin_outcomes [OF c] consider (same) "c = CreateThrows \<or> c = CreateReturns cancelled_startup" "s' = s" | (fail) "c \<noteq> CreateContinues" "s' = ?s"
    | (go) "c = CreateContinues" "s' = on_record k fresh_instance ?s" by blast
  then show ?thesis
  proof cases
    case same
    have f: "torn_down (after_create c (create_failed site k) (SupRegisters site k port))"
      using same(1) by (cases site) (auto simp: after_create_def create_failed_def recovery_error_def cancelled_startup_def bare_startup_error_def)
    show ?thesis by (rule budget_torn [OF b f]) (use same in \<open>auto simp: after_create_def\<close>)
  next
    case fail
    have pc: "pc_budget s' (after_create c (create_failed site k) (SupRegisters site k port))"
      using fail(1) by (simp add: after_create_def split: create_step.splits)
    have h: "torn_down (after_create c (create_failed site k) (SupRegisters site k port))
        \<or> (handling (after_create c (create_failed site k) (SupRegisters site k port)) j \<longleftrightarrow> j = k)" for j
      using fail(1) create_failed_handling by (auto simp: after_create_def split: create_step.splits)
    have "record_budget ?c (handling (after_create c (create_failed site k) (SupRegisters site k port)) j) (rec_at ?s j)"
      if "j < length (sv_records s)" "\<not> torn_down (after_create c (create_failed site k) (SupRegisters site k port))" for j
      using that h [of j] counted(2) others(2) [OF that(1)] all [OF that(1)] by (cases "j = k") auto
    then show ?thesis using fail others(1) cf pc by (simp add: budget_at_def)
  next
    case go
    have "attempts_ok ?c (rec_at s' j)" "record_budget ?c False (rec_at s' j)" if "j < length (sv_records s)" for j
      using that go k cf counted others [OF that] all [OF that]
      by (cases "j = k"; auto simp: fresh_instance_def attempts_ok_def record_budget_def)+
    moreover have "\<not> wr_recovery_episode (rec_at s' j)" if "site = AtStartup" "j < length (sv_records s)" for j
      using ep that go k cf(2) by (cases "j = k") (simp_all add: fresh_instance_def)
    moreover have "sv_config s' = sv_config s" "length (sv_records s') = length (sv_records s)" using go cf by simp_all
    ultimately show ?thesis
      using go(1) by (simp add: budget_at_def after_create_def)
  qed
qed

lemma handle_begin_budget:
  assumes b: "budget_at (SupHandles k f) s" and k: "k < length (sv_records s)" and h: "handle_worker_failure_begin k f s = (None, s')"
  shows "budget_at (SupHealth (SupJoins JoinBegins k (JoinFailure f))) s'"
proof -
  let ?c = "cfg_recovery (sv_config s)"
  have all: "attempts_ok ?c (rec_at s j) \<and> record_budget ?c (j = k) (rec_at s j)" if "j < length (sv_records s)" for j
    using b that by (simp add: budget_at_def eq_commute)
  have s': "sv_config s' = sv_config s" "length (sv_records s') = length (sv_records s)" "\<And>j. j \<noteq> k \<Longrightarrow> rec_at s' j = rec_at s j"
    using h k by (auto simp: handle_worker_failure_begin_def Let_def split: if_splits)
  have "attempts_ok ?c (rec_at s' k)" "record_budget ?c False (rec_at s' k)" "wr_state (rec_at s' k) \<noteq> RecBackoff"
    using all [OF k] h k
    by (auto simp: handle_worker_failure_begin_def Let_def attempts_ok_def record_budget_def backoff_after_def split: if_splits)
  then have "attempts_ok ?c (rec_at s' j)" "record_budget ?c False (rec_at s' j)" "wr_state (rec_at s' k) \<noteq> RecBackoff"
    if "j < length (sv_records s)" for j
    using all [OF that] s'(3) [of j] by (cases "j = k"; simp)+
  then show ?thesis using s' k by (simp add: budget_at_def)
qed

lemma handled_budget:
  assumes b: "budget_at (SupHandled k f) s" and k: "k < length (sv_records s)" and h: "handle_worker_failure_joined now k f s = (r, s')"
    and pc: "\<And>j. \<not> handling pc j" "pc_budget s' pc"
  shows "budget_at pc s'"
proof -
  let ?c = "cfg_recovery (sv_config s)"
  have all: "attempts_ok ?c (rec_at s j) \<and> record_budget ?c False (rec_at s j)" if "j < length (sv_records s)" for j
    using b that by (simp add: budget_at_def)
  have n: "wr_state (rec_at s k) \<noteq> RecBackoff" using b by (simp add: budget_at_def)
  have s': "sv_config s' = sv_config s" "length (sv_records s') = length (sv_records s)" "\<And>j. j \<noteq> k \<Longrightarrow> rec_at s' j = rec_at s j"
    using h k by (auto simp: handle_worker_failure_joined_def Let_def split: if_splits)
  have "attempts_ok ?c (rec_at s' k)" "record_budget ?c False (rec_at s' k)"
    using all [OF k] h k n
    by (auto simp: handle_worker_failure_joined_def Let_def attempts_ok_def record_budget_def backoff_after_Suc split: if_splits)
  then have "attempts_ok ?c (rec_at s' j)" "record_budget ?c False (rec_at s' j)" if "j < length (sv_records s)" for j
    using all [OF that] s'(3) [of j] by (cases "j = k"; simp)+
  then show ?thesis using s' pc by (simp add: budget_at_def)
qed

lemma rest_budget:
  assumes b: "budget_at (SupVisitsRest k p d) s" and k: "k < length (sv_records s)" and h: "monitor_rest now d k s = (r, s')"
    and pc: "\<And>j. \<not> handling pc j" "pc_budget s' pc"
  shows "budget_at pc s'"
proof -
  let ?c = "cfg_recovery (sv_config s)"
  have all: "attempts_ok ?c (rec_at s j) \<and> record_budget ?c False (rec_at s j)" if "j < length (sv_records s)" for j
    using b that by (simp add: budget_at_def)
  have s': "sv_config s' = sv_config s" "length (sv_records s') = length (sv_records s)" "\<And>j. j \<noteq> k \<Longrightarrow> rec_at s' j = rec_at s j"
    using h k by (auto simp: monitor_rest_def Let_def split: if_splits)
  have "attempts_ok ?c (rec_at s' k)" "record_budget ?c False (rec_at s' k)"
    using all [OF k] h k by (auto simp: monitor_rest_def Let_def attempts_ok_def record_budget_def split: if_splits)
  then have "attempts_ok ?c (rec_at s' j)" "record_budget ?c False (rec_at s' j)" if "j < length (sv_records s)" for j
    using all [OF that] s'(3) [of j] by (cases "j = k"; simp)+
  then show ?thesis using s' pc by (simp add: budget_at_def)
qed

lemma join_budget:
  assumes b: "budget_at (SupJoins stage k site) s" and l: "pc_ok w (SupJoins stage k site)" and w: "sw_sup w = s"
    and c: "sv_config s' = sv_config s" "length (sv_records s') = length (sv_records s)"
    and r: "\<And>j. j < length (sv_records s) \<Longrightarrow> wr_recovery_episode (rec_at s' j) = wr_recovery_episode (rec_at s j)
        \<and> wr_recovery_attempts (rec_at s' j) = wr_recovery_attempts (rec_at s j)
        \<and> wr_next_backoff (rec_at s' j) = wr_next_backoff (rec_at s j)"
    and k: "wr_state (rec_at s' k) = wr_state (rec_at s k) \<or> wr_state (rec_at s' k) \<noteq> RecBackoff"
    and j: "\<And>j. j < length (sv_records s) \<Longrightarrow> j \<noteq> k \<Longrightarrow> wr_state (rec_at s' j) = wr_state (rec_at s j)"
    and pc: "pc = SupJoins stage' k site \<or> pc = joined ok k site"
  shows "budget_at pc s'"
proof (cases site)
  case (JoinAll ok' strict rest exit)
  then have "torn_down pc" "pc_budget s' pc" using l pc by (auto simp: joined_def)
  then show ?thesis using budget_torn [OF b] c r by blast
next
  case (JoinFailure f)
  have n: "wr_state (rec_at s k) \<noteq> RecBackoff" using b JoinFailure by (simp add: budget_at_def)
  have "same_recovery (rec_at s i) (rec_at s' i)" if "i < length (sv_records s)" for i
    using r [OF that] j [OF that] k n by (cases "i = k") (auto simp: same_recovery_def)
  then have "same_budgets s s'" using c by (simp add: same_budgets_def)
  then show ?thesis
    using pc JoinFailure k n by (intro budget_quiet [OF b]) (auto simp: joined_def split: if_splits)
qed

lemma ready_budgets:
  assumes l: "lifecycle_at (SupReadyAt k) w" and r: "await_ready_record k (sw_sup w) p eps = (e, s, eps')"
  shows "same_budgets (sw_sup w) s"
proof -
  have "k < workers w" "has_instance w k" using lifecycleD(5) [OF l] by simp_all
  then have n: "wr_state (rec_at (sw_sup w) k) \<noteq> RecBackoff"
    by (intro not_backoff [OF l]) (auto simp: clean_def has_instance_def)
  show ?thesis
    using r n by (auto simp: await_ready_record_def Let_def intro!: same_budgets_on split: if_splits prod.splits bool.splits)
qed

lemma sup_thread_budget:
  assumes step: "sup_thread_step w w'" and b: "budget_at (sw_pc w) (sw_sup w)" and l: "lifecycle_at (sw_pc w) w"
  shows "budget_at (sw_pc w') (sw_sup w')"
  using step
proof cases
  case (c_run s)
  then show ?thesis using b operations_same_budgets(1) [OF c_run(3)]
    by (intro budget_quiet [OF b]) (auto simp: budget_at_def same_budgets_def same_recovery_def)
next
  case (c_create site k port c s)
  then show ?thesis using create_begin_budget [OF b [unfolded c_create(2)] _ c_create(3)] lifecycleD(5) [OF l] by simp
next
  case (c_register_failed site k port e x p eps)
  have "wr_state (rec_at (sw_sup w) k) \<noteq> RecBackoff" using lifecycleD(5) [OF l] c_register_failed(2) by simp
  then show ?thesis
    using c_register_failed create_failed_handling(1) by (intro budget_quiet [OF b]) auto
next
  case (c_register site k port x p eps)
  then show ?thesis using b by (intro budget_quiet [OF b]) (auto simp: budget_at_def)
next
  case (c_build_failed site k port loop e)
  have "wr_state (rec_at (sw_sup w) k) \<noteq> RecBackoff"
    using lifecycleD(5) [OF l] c_build_failed(2) by (intro not_backoff [OF l]) (auto simp: clean_def)
  then show ?thesis
    using c_build_failed create_failed_handling(1) by (intro budget_quiet [OF b]) auto
next
  case (c_build site k port loop bound)
  then show ?thesis using b by (intro budget_quiet [OF b]) (auto simp: budget_at_def)
next
  case (c_install site k port bound)
  have k: "k < workers w" and "fp_registry (sw_publication w) ! k = Some k" using lifecycleD(5) [OF l] c_install(2) by simp_all
  then have n: "wr_state (rec_at (sw_sup w) k) \<noteq> RecBackoff" by (intro not_backoff [OF l]) (auto simp: clean_def)
  have s: "same_budgets (sw_sup w) (create_worker_install k bound (sw_sup w))"
    unfolding create_worker_install_def by (rule same_budgets_on) (use n in auto)
  have "\<not> wr_recovery_episode (rec_at (create_worker_install k bound (sw_sup w)) j)" if "site = AtStartup" "j < workers w" for j
    using that b c_install(2) s by (auto simp: budget_at_def same_budgets_def same_recovery_def)
  then show ?thesis
    using c_install s by (intro budget_quiet [OF b]) (auto simp: created_def same_budgets_def split: create_site.splits)
next
  case (c_start site k c s)
  have n: "wr_state (rec_at (sw_sup w) k) \<noteq> RecBackoff"
    using lifecycleD(5) [OF l] c_start(2) by (intro not_backoff [OF l]) (auto simp: clean_def unstarted_def has_instance_def)
  then show ?thesis
    using c_start operations_same_budgets(2) [OF c_start(3)] create_failed_handling(2)
    by (intro budget_quiet [OF b]) (auto simp: after_create_def split: create_step.splits)
next
  case (c_spawn site k refused c s)
  have n: "wr_state (rec_at (sw_sup w) k) \<noteq> RecBackoff"
    using lifecycleD(5) [OF l] c_spawn(2) by (intro not_backoff [OF l]) (auto simp: clean_def unstarted_def has_instance_def)
  then show ?thesis
    using c_spawn operations_same_budgets(3) [OF c_spawn(3)] create_failed_handling(2)
    by (intro budget_quiet [OF b]) (auto simp: after_create_def started_def split: create_step.splits create_site.splits)
next
  case (c_action a rest exit pc s)
  have "pc_budget s pc \<and> (torn_down pc \<or> \<not> final_exit exit \<and> (\<forall>k. \<not> handling pc k))"
    using c_action(2,3) lifecycleD(5) [OF l] by (cases a; cases exit) (auto simp: run_action_def exit_after_join_def split: if_splits prod.splits)
  then show ?thesis
    using c_action(1,2) operations_same_budgets(9) [OF c_action(3)] by (intro budget_quiet [OF b]) auto
next
  case (c_exit exit)
  then show ?thesis by (intro budget_quiet [OF b]) (auto simp: run_exit_def split: sup_exit.splits)
next
  case (c_monitor failed r s)
  then show ?thesis using operations_same_budgets(4) [OF c_monitor(3)]
    by (intro budget_quiet [OF b]) (auto split: monitor_begin.splits)
next
  case (c_stop_instance target)
  then show ?thesis using operations_same_budgets(6) by (intro budget_quiet [OF b]) auto
next
  case (c_visit k progressed deadline)
  have "wr_state (rec_at (sw_sup w) k) \<noteq> RecBackoff" if "monitor_failure k (rec_at (sw_sup w) k) = Some f" for f
    using that by (auto simp: monitor_failure_def live_state_def Let_def split: if_splits)
  then show ?thesis
    using c_visit by (intro budget_quiet [OF b]) (auto simp: awaits_registration_def split: option.splits)
next
  case (c_visit_activated k progressed deadline)
  then show ?thesis by (intro budget_quiet [OF b]) (auto simp: awaits_release_def)
next
  case (c_visit_ready k progressed deadline r s eps)
  have n: "wr_state (rec_at (sw_sup w) k) \<noteq> RecBackoff" using b c_visit_ready(2) by (simp add: budget_at_def)
  have "same_budgets (sw_sup w) s"
    using c_visit_ready(3) n by (auto simp: monitor_ready_def intro!: same_budgets_on split: if_splits prod.splits bool.splits)
  then show ?thesis using c_visit_ready by (intro budget_quiet [OF b]) (auto split: monitor_visit.splits)
next
  case (c_release k progressed deadline now r s)
  have n: "wr_state (rec_at (sw_sup w) k) \<noteq> RecBackoff" using b c_release(2) by (simp add: budget_at_def)
  have "same_budgets (sw_sup w) s"
    using c_release(3) n by (auto simp: monitor_activated_def intro!: same_budgets_on split: if_splits)
  then show ?thesis using c_release by (intro budget_quiet [OF b]) (auto split: monitor_visit.splits)
next
  case (c_rest k progressed deadline now r s)
  have k: "k < length (sv_records (sw_sup w))" using lifecycleD(5) [OF l] c_rest(2) by simp
  have pc: "\<not> handling (sw_pc w') j" "pc_budget s (sw_pc w')" for j
    using c_rest monitor_rest_restarts [of now deadline k "sw_sup w" s] by (cases r; auto)+
  show ?thesis using rest_budget [OF b [unfolded c_rest(2)] k c_rest(3) pc] c_rest(1) by simp
next
  case (c_health pc)
  have "pc_budget (publish_health (sw_sup w)) pc"
    using pc_budget_same [OF operations_same_budgets(7), of w pc] lifecycleD(5) [OF l] b c_health(2) by (simp add: budget_at_def)
  then show ?thesis using c_health operations_same_budgets(7) by (intro budget_quiet [OF b]) auto
next
  case (c_handle k failure r s)
  have k: "k < length (sv_records (sw_sup w))" using lifecycleD(5) [OF l] c_handle(2) by simp
  show ?thesis
  proof (cases r)
    case None
    then show ?thesis using handle_begin_budget [OF b [unfolded c_handle(2)] k] c_handle by simp
  next
    case (Some x)
    then have "s = sw_sup w" using c_handle(3) by (auto simp: handle_worker_failure_begin_def Let_def split: if_splits)
    then show ?thesis using c_handle Some by (intro budget_torn [OF b]) auto
  qed
next
  case (c_handled k failure now r s)
  have k: "k < length (sv_records (sw_sup w))" using lifecycleD(5) [OF l] c_handled(2) by simp
  have pc: "\<not> handling (sw_pc w') j" "pc_budget s (sw_pc w')" for j
    using c_handled(1) by (cases r; simp)+
  show ?thesis using handled_budget [OF b [unfolded c_handled(2)] k c_handled(3) pc] c_handled(1) by simp
next
  case (c_fail failure report s)
  then show ?thesis using operations_same_budgets(5) [OF c_fail(3)] by (intro budget_quiet [OF b]) auto
next
  case (c_report report failure)
  then show ?thesis using operations_same_budgets(8) by (intro budget_quiet [OF b]) auto
next
  case (c_join_begin k site r s)
  have k: "k < workers w" using lifecycleD(5) [OF l] c_join_begin(2) by simp
  show ?thesis
    using c_join_begin(1,3) k
    by (intro join_budget [OF b [unfolded c_join_begin(2)] lifecycleD(5) [OF l, unfolded c_join_begin(2)] refl])
      (auto simp: join_begin_def Let_def split: if_splits)
next
  case (c_join_wait k site)
  have k: "k < workers w" using lifecycleD(5) [OF l] c_join_wait(2) by simp
  show ?thesis
    using c_join_wait(1) k
    by (intro join_budget [OF b [unfolded c_join_wait(2)] lifecycleD(5) [OF l, unfolded c_join_wait(2)] refl])
      (auto simp: join_joined_def Let_def)
next
  case (c_join_destroy k site)
  have k: "k < workers w" using lifecycleD(5) [OF l] c_join_destroy(2) by simp
  show ?thesis
    using c_join_destroy(1) k
    by (intro join_budget [OF b [unfolded c_join_destroy(2)] lifecycleD(5) [OF l, unfolded c_join_destroy(2)] refl])
      (auto simp: join_reset_def)
next
  case (c_join_quiesce k site p eps)
  have k: "k < workers w" using lifecycleD(5) [OF l] c_join_quiesce(2) by simp
  show ?thesis
    using c_join_quiesce(1) k
    by (intro join_budget [OF b [unfolded c_join_quiesce(2)] lifecycleD(5) [OF l, unfolded c_join_quiesce(2)] refl]) auto
next
  case (c_join_end k site)
  have k: "k < workers w" using lifecycleD(5) [OF l] c_join_end(2) by simp
  show ?thesis
    using c_join_end(1) k
    by (intro join_budget [OF b [unfolded c_join_end(2)] lifecycleD(5) [OF l, unfolded c_join_end(2)] refl])
      (auto simp: join_end_def)
next
  case (c_ready_failed k e s eps)
  then show ?thesis using ready_budgets [OF l [unfolded c_ready_failed(2)] c_ready_failed(3)] by (intro budget_quiet [OF b]) auto
next
  case (c_ready_next k s eps)
  then show ?thesis using ready_budgets [OF l [unfolded c_ready_next(2)] c_ready_next(3)] by (intro budget_quiet [OF b]) auto
next
  case (c_ready_wait k s eps)
  then show ?thesis using ready_budgets [OF l [unfolded c_ready_wait(2)] c_ready_wait(3)] by (intro budget_quiet [OF b]) auto
next
  case (c_ready_done k s eps i)
  then show ?thesis using ready_budgets [OF l [unfolded c_ready_done(2)] c_ready_done(3)] by (intro budget_quiet [OF b]) auto
next
  case (c_activation r s)
  have n: "wr_state (rec_at (sw_sup w) k) \<noteq> RecBackoff" if "k < workers w" for k
    using lifecycleD(5) [OF l] c_activation(2) that by (intro not_backoff [OF l that]) (auto simp: clean_def has_instance_def)
  have "same_budgets (sw_sup w) s"
    using c_activation(3) n
    by (auto simp: await_activation_round_def Let_def activate_record_def same_recovery_def in_set_conv_nth
        intro!: same_budgets_on same_budgets_map [of _ activate_record] split: if_splits option.splits)
  then show ?thesis using c_activation by (intro budget_quiet [OF b]) (auto split: activation_round.splits)
qed (use b in \<open>(intro budget_quiet [OF b]; auto simp: budget_at_def)+\<close>)

lemma sup_env_budgets:
  assumes "sup_env_step w w'"
  shows "same_budgets (sw_sup w) (sw_sup w')"
  using assms
proof cases
  case (e_stopper j t s)
  then show ?thesis using operations_same_budgets(10) by simp
next
  case (e_activate r s)
  then show ?thesis
    by (auto simp: request_activation_def same_recovery_def intro!: same_budgets_map [of _ "\<lambda>r. r\<lparr>wr_activation_allowed := True\<rparr>"] split: if_splits)
next
  case (e_release r s)
  then show ?thesis
    by (auto simp: release_data_plane_def same_recovery_def intro!: same_budgets_map [of _ "\<lambda>r. r\<lparr>wr_data_plane_allowed := True\<rparr>"]
        split: if_splits option.splits)
next
  case (e_precommit_failure k r s)
  then show ?thesis
    by (auto simp: inject_worker_precommit_failure_for_testing_def intro!: same_budgets_on split: if_splits)
next
  case (e_unexpected_stop k r s)
  then show ?thesis
    by (auto simp: inject_worker_unexpected_stop_for_testing_def intro!: same_budgets_eqI split: if_splits)
qed (simp_all add: same_budgets_eqI snapshot_published_def request_stop_def inject_abrupt_exit_for_testing_def
    inject_abrupt_exit_after_next_publication_for_testing_def inject_emergency_join_failure_once_for_testing_def)

lemma sup_env_pc: "sup_env_step w w' \<Longrightarrow> sw_pc w' = sw_pc w \<or> sw_pc w' = emergency_join_all"
  by (erule sup_env_step.cases) (simp_all, blast?)

lemma sup_budget:
  assumes "sup_reachable config initial n timeout w"
  shows "budget_at (sw_pc w) (sw_sup w)"
  using assms
proof induction
  case (sup_new p s p')
  then show ?case by (auto simp: budget_at_def new_supervisor_def new_record_def attempts_ok_def record_budget_def)
next
  case (sup_then w w')
  note b = sup_then.IH
  have l: "lifecycle_at (sw_pc w) w" using sup_lifecycle [OF sup_then(1)] by blast
  have q: "budget_at (sw_pc w') (sw_sup w')" if s: "same_budgets (sw_sup w) (sw_sup w')" and pc: "sw_pc w' = sw_pc w"
    using pc_budget_same [OF s lifecycleD(5) [OF l]] b pc by (intro budget_quiet [OF b s]) (auto simp: budget_at_def)
  from sup_then(2) show ?case
  proof cases
    case supervisor_moves
    then show ?thesis by (rule sup_thread_budget [OF _ b l])
  next
    case (worker_moves k t)
    note c = worker_step_changes [OF worker_moves(3) worker_moves(1) lifecycleD(1) [OF l] worker_moves(2)]
    have "same_recovery (rec_at (sw_sup w) j) (rec_at (sw_sup w') j)" if "j < workers w" for j
      using c that by (cases "j = k") (simp_all add: worker_changes_def same_recovery_def)
    then show ?thesis using c by (intro q) (simp_all add: same_budgets_def)
  next
    case other_moves
    note s = sup_env_budgets [OF other_moves]
    show ?thesis
    proof (cases "sw_pc w' = sw_pc w")
      case False
      then have "sw_pc w' = emergency_join_all" using sup_env_pc [OF other_moves] by simp
      then show ?thesis by (intro budget_quiet [OF b s]) auto
    qed (rule q [OF s])
  qed
qed

text \<open>What the end of a failure decides, in terms of the counter in the record of the worker.\<close>

lemma failure_handled_budget:
  assumes reach: "sup_reachable config initial n timeout w"
    and valid: "is_valid_recovery_config (cfg_recovery (sv_config (sw_sup w)))"
    and pc: "sw_pc w = SupHandled k f" and h: "handle_worker_failure_joined now k f (sw_sup w) = (r, s)"
  defines "c \<equiv> cfg_recovery (sv_config (sw_sup w))" and "a \<equiv> wr_recovery_attempts (rec_at (sw_sup w) k)"
  shows "a \<le> rc_max_attempts c
    \<and> (r = HandleRecovers \<longrightarrow> rc_policy c = Restart \<and> a < rc_max_attempts c \<and> wr_state (rec_at s k) = RecBackoff
        \<and> wr_restart_at (rec_at s k) = deadline_after now (min (rc_max_backoff c) (rc_initial_backoff c * 2 ^ a)))
    \<and> (a = rc_max_attempts c \<longrightarrow> rc_policy c = Restart \<longrightarrow> sv_data_plane_released (sw_sup w) \<longrightarrow> wr_recovery_episode (rec_at (sw_sup w) k)
        \<longrightarrow> wf_code f \<noteq> FC_InstanceIdExhausted \<longrightarrow> \<not> stop_requested_locked (sw_sup w)
        \<longrightarrow> r = HandleFails (f\<lparr>wf_budget_exhausted := True\<rparr>))"
proof -
  have k: "k < workers w" using sup_lifecycle [OF reach] lifecycleD(5) [of "sw_pc w" w] pc by simp
  have b: "attempts_ok c (rec_at (sw_sup w) k)" "record_budget c False (rec_at (sw_sup w) k)" "wr_state (rec_at (sw_sup w) k) \<noteq> RecBackoff"
    using sup_budget [OF reach] k pc by (simp_all add: budget_at_def c_def)
  have m: "a \<le> rc_max_attempts c" using b(1) by (simp add: attempts_ok_def a_def)
  have n: "wr_recovery_episode (rec_at (sw_sup w) k) \<Longrightarrow> wr_next_backoff (rec_at (sw_sup w) k) = backoff_after c a"
    using b(2,3) by (simp add: record_budget_def a_def)
  have "rc_policy c = Restart \<and> a < rc_max_attempts c \<and> wr_state (rec_at s k) = RecBackoff
        \<and> wr_restart_at (rec_at s k) = deadline_after now (min (rc_max_backoff c) (rc_initial_backoff c * 2 ^ a))" if "r = HandleRecovers"
  proof -
    have x: "rc_policy c = Restart" "a < rc_max_attempts c" "wr_state (rec_at s k) = RecBackoff" "wr_recovery_episode (rec_at (sw_sup w) k)"
      "wr_restart_at (rec_at s k) = deadline_after now (wr_next_backoff (rec_at (sw_sup w) k))"
      using h k that by (auto simp: handle_worker_failure_joined_def Let_def c_def a_def split: if_splits)
    then have "0 \<le> rc_initial_backoff c" "rc_initial_backoff c \<le> rc_max_backoff c"
      using valid by (auto simp: is_valid_recovery_config_def c_def)
    then show ?thesis using x n backoff_after_closed by simp
  qed
  moreover have "r = HandleFails (f\<lparr>wf_budget_exhausted := True\<rparr>)"
    if "a = rc_max_attempts c" "rc_policy c = Restart" "sv_data_plane_released (sw_sup w)" "wr_recovery_episode (rec_at (sw_sup w) k)"
      "wf_code f \<noteq> FC_InstanceIdExhausted" "\<not> stop_requested_locked (sw_sup w)"
    using h k that by (auto simp: handle_worker_failure_joined_def Let_def c_def a_def split: if_splits)
  ultimately show ?thesis using m by blast
qed

end
