(* ===== verification/SupervisorGates.thy ===== *)
theory SupervisorGates
  imports SupervisorProtocol
begin

text \<open>
  The gates between the supervisor and its workers: \<open>gates_at\<close> follows which worker has reported what, which
  gate is open for whom, and what has been published, at every point of the supervisor thread.  It shows
  that a worker serves clients only after the service has released it.
\<close>

section \<open>The gates of a worker\<close>

text \<open>The worker has reported that it is ready, and the supervisor has registered it for the current generation.\<close>

definition ready_ok :: "worker_record \<Rightarrow> bool" where
  "ready_ok r \<longleftrightarrow> rd_published (wr_ready r) \<and> rd_instance (wr_ready r) = wr_instance_id r \<and> ry_outcome (rd_result (wr_ready r)) = WorkerIsReady"

definition accepted :: "registration_state \<Rightarrow> worker_record \<Rightarrow> bool" where
  "accepted reg r \<longleftrightarrow> wr_instance r \<noteq> None \<and> reg = Registered \<and> ready_ok r"

fun past_release :: "worker_pc \<Rightarrow> bool" where
  "past_release WorkerReleased = True"
| "past_release WorkerServes = True"
| "past_release _ = False"

fun past_report :: "worker_pc \<Rightarrow> bool" where
  "past_report WorkerDataGate = True"
| "past_report WorkerDataRefresh = True"
| "past_report pc = past_release pc"

fun past_activation :: "worker_pc \<Rightarrow> bool" where
  "past_activation WorkerActivates = True"
| "past_activation WorkerReportsActivated = True"
| "past_activation pc = past_report pc"

definition thread_gates :: "worker_record \<Rightarrow> worker_pc \<Rightarrow> bool" where
  "thread_gates r pc \<longleftrightarrow> (past_activation pc \<longrightarrow> wr_activation_allowed r)
     \<and> (past_report pc \<longrightarrow> ac_published (wr_activated r) \<and> ac_instance (wr_activated r) = wr_instance_id r)
     \<and> (past_release pc \<longrightarrow> wr_data_plane_allowed r)"

definition gate_ok :: "bool \<Rightarrow> registration_state \<Rightarrow> worker_record \<Rightarrow> bool" where
  "gate_ok released reg r \<longleftrightarrow> (wr_activation_allowed r \<and> wr_instance r \<noteq> None \<longrightarrow> accepted reg r)
     \<and> (wr_state r = RecReady \<or> wr_state r = RecRunning \<longrightarrow> accepted reg r)
     \<and> (wr_state r = RecStarting \<longrightarrow> wr_instance r \<noteq> None)
     \<and> (\<forall>t. wr_thread r = Some t \<longrightarrow> thread_gates r (wt_pc t)) \<and> (wr_data_plane_allowed r \<longrightarrow> released)
     \<and> (ac_published (wr_activated r) \<longrightarrow> ac_instance (wr_activated r) = wr_instance_id r)"

text \<open>A record that nobody can bring back without a release of the data plane.\<close>

definition resting :: "worker_record_state \<Rightarrow> bool" where
  "resting st \<longleftrightarrow> st = RecOffline \<or> st = RecStopping \<or> st = RecExited \<or> st = RecJoined"

abbreviation registration_of :: "sup_world \<Rightarrow> nat \<Rightarrow> registration_state" where
  "registration_of w k \<equiv> we_registration (sw_epochs w k)"

definition all_accepted :: "sup_world \<Rightarrow> bool" where
  "all_accepted w \<longleftrightarrow> (\<forall>k < workers w. accepted (registration_of w k) (rec_at (sw_sup w) k))"

definition settled :: "supervisor \<Rightarrow> bool" where
  "settled s \<longleftrightarrow> sv_data_plane_released s \<or> (\<forall>k < length (sv_records s). wr_state (rec_at s k) = RecRunning \<or> resting (wr_state (rec_at s k)))"

definition unpublished :: "supervisor \<Rightarrow> bool" where
  "unpublished s \<longleftrightarrow> sv_startup s = None \<and> sv_activation s = None"

definition activating :: "supervisor \<Rightarrow> bool" where
  "activating s \<longleftrightarrow> startup_succeeded s \<and> sv_activation s = None"

definition site_gates :: "create_site \<Rightarrow> supervisor \<Rightarrow> bool" where
  "site_gates site s \<longleftrightarrow> (case site of AtStartup \<Rightarrow> unpublished s | AtRecovery \<Rightarrow> sv_data_plane_released s)"

definition fresh_record :: "worker_record \<Rightarrow> bool" where
  "fresh_record r \<longleftrightarrow> wr_state r = RecCreating \<and> \<not> wr_activation_allowed r \<and> \<not> wr_data_plane_allowed r"

fun pc_gates :: "sup_world \<Rightarrow> sup_pc \<Rightarrow> bool" where
  "pc_gates w SupIdle \<longleftrightarrow> unpublished (sw_sup w)"
| "pc_gates w SupEnters \<longleftrightarrow> unpublished (sw_sup w)"
| "pc_gates w SupChecks \<longleftrightarrow> unpublished (sw_sup w)"
| "pc_gates w (SupCreates site k port) \<longleftrightarrow> site_gates site (sw_sup w)"
| "pc_gates w (SupRegisters site k port) \<longleftrightarrow> site_gates site (sw_sup w) \<and> fresh_record (rec_at (sw_sup w) k)"
| "pc_gates w (SupBuilds site k port) \<longleftrightarrow> site_gates site (sw_sup w) \<and> fresh_record (rec_at (sw_sup w) k)"
| "pc_gates w (SupInstalls site k port bound) \<longleftrightarrow> site_gates site (sw_sup w) \<and> fresh_record (rec_at (sw_sup w) k)"
| "pc_gates w (SupStarts site k) \<longleftrightarrow> site_gates site (sw_sup w)"
| "pc_gates w (SupSpawns site k) \<longleftrightarrow> site_gates site (sw_sup w)"
| "pc_gates w SupReadyRound \<longleftrightarrow> unpublished (sw_sup w)"
| "pc_gates w (SupReadyAt k) \<longleftrightarrow> unpublished (sw_sup w)"
| "pc_gates w SupActivationRound \<longleftrightarrow> activating (sw_sup w)"
| "pc_gates w SupMonitorRound \<longleftrightarrow> settled (sw_sup w)"
| "pc_gates w (SupStopsInstance target) \<longleftrightarrow> settled (sw_sup w)"
| "pc_gates w (SupVisits k p d) \<longleftrightarrow> settled (sw_sup w)"
| "pc_gates w (SupProbedReady k p d) \<longleftrightarrow> settled (sw_sup w) \<and> wr_state (rec_at (sw_sup w) k) = RecStarting \<and> ready_ok (rec_at (sw_sup w) k)"
| "pc_gates w (SupVisitsActivated k p d) \<longleftrightarrow> settled (sw_sup w)"
| "pc_gates w (SupProbedActivated k p d) \<longleftrightarrow> settled (sw_sup w) \<and> wr_state (rec_at (sw_sup w) k) = RecReady"
| "pc_gates w (SupVisitsRest k p d) \<longleftrightarrow> settled (sw_sup w)"
| "pc_gates w (SupWaits d) \<longleftrightarrow> settled (sw_sup w)"
| "pc_gates w (SupHealth pc) \<longleftrightarrow> pc_gates w pc"
| "pc_gates w (SupHandles k f) \<longleftrightarrow> settled (sw_sup w)"
| "pc_gates w (SupHandled k f) \<longleftrightarrow> settled (sw_sup w)"
| "pc_gates w (SupFails f) \<longleftrightarrow> True"
| "pc_gates w (SupReportsFatal b f) \<longleftrightarrow> True"
| "pc_gates w (SupJoins stage k site) \<longleftrightarrow> (stage = JoinDestroys \<or> stage = JoinQuiesces \<longrightarrow> wr_state (rec_at (sw_sup w) k) = RecJoined)
     \<and> (case site of JoinAll ok strict rest exit \<Rightarrow> True | JoinFailure f \<Rightarrow> settled (sw_sup w))"
| "pc_gates w (SupRuns acts exit) \<longleftrightarrow> (\<forall>i. PublishStartup (Inr i) \<in> set acts \<longrightarrow> acts = [PublishStartup (Inr i)] \<and> exit = ExitActivate)
     \<and> (PublishActivation (Inr ()) \<in> set acts \<longrightarrow> acts = [PublishActivation (Inr ())] \<and> exit = ExitMonitor \<and> activating (sw_sup w))
     \<and> (exit = ExitActivate \<longrightarrow> acts = [] \<and> activating (sw_sup w) \<or> (\<exists>i. acts = [PublishStartup (Inr i)]) \<and> unpublished (sw_sup w) \<and> all_accepted w)
     \<and> (exit = ExitMonitor \<longrightarrow> settled (sw_sup w))"
| "pc_gates w (SupEnded exit) \<longleftrightarrow> True"

definition gates_at :: "sup_pc \<Rightarrow> sup_world \<Rightarrow> bool" where
  "gates_at pc w \<longleftrightarrow> (\<forall>k < workers w. gate_ok (sv_data_plane_released (sw_sup w)) (registration_of w k) (rec_at (sw_sup w) k))
     \<and> (sv_data_plane_released (sw_sup w) \<longrightarrow> sv_activation (sw_sup w) = Some (Inr ()))
     \<and> (sv_activation (sw_sup w) = Some (Inr ()) \<longrightarrow> startup_succeeded (sw_sup w))
     \<and> (activating (sw_sup w) \<longrightarrow> all_accepted w) \<and> pc_gates w pc"

lemma gatesD:
  assumes "gates_at pc w"
  shows "\<And>k. k < workers w \<Longrightarrow> gate_ok (sv_data_plane_released (sw_sup w)) (registration_of w k) (rec_at (sw_sup w) k)"
    "sv_data_plane_released (sw_sup w) \<Longrightarrow> sv_activation (sw_sup w) = Some (Inr ())"
    "sv_activation (sw_sup w) = Some (Inr ()) \<Longrightarrow> startup_succeeded (sw_sup w)"
    "activating (sw_sup w) \<Longrightarrow> all_accepted w" "pc_gates w pc"
  using assms by (simp_all add: gates_at_def)

lemma gate_activated: "gate_ok rel reg r \<Longrightarrow> ac_published (wr_activated r) \<longrightarrow> ac_instance (wr_activated r) = wr_instance_id r"
  by (simp add: gate_ok_def)

section \<open>Steps that leave the gates alone\<close>

definition quiet_record :: "worker_record \<Rightarrow> worker_record \<Rightarrow> bool" where
  "quiet_record r r' \<longleftrightarrow> wr_instance_id r' = wr_instance_id r \<and> (wr_instance r' = None \<longleftrightarrow> wr_instance r = None)
     \<and> wr_ready r' = wr_ready r \<and> wr_activated r' = wr_activated r \<and> wr_thread r' = wr_thread r
     \<and> wr_activation_allowed r' = wr_activation_allowed r \<and> wr_data_plane_allowed r' = wr_data_plane_allowed r
     \<and> (wr_state r' = wr_state r \<or> resting (wr_state r'))"

definition quiet_sup :: "supervisor \<Rightarrow> supervisor \<Rightarrow> bool" where
  "quiet_sup s s' \<longleftrightarrow> length (sv_records s') = length (sv_records s) \<and> sv_startup s' = sv_startup s \<and> sv_activation s' = sv_activation s
     \<and> sv_data_plane_released s' = sv_data_plane_released s \<and> (\<forall>k < length (sv_records s). quiet_record (rec_at s k) (rec_at s' k))"

lemma quiet_record_refl [simp]: "quiet_record r r"
  by (simp add: quiet_record_def)

lemma quiet_refl [simp]: "quiet_sup s s"
  by (simp add: quiet_sup_def)

lemma quiet_recordD:
  assumes "quiet_record r r'"
  shows "accepted reg r \<Longrightarrow> accepted reg r'" "gate_ok rel reg r \<Longrightarrow> gate_ok rel reg r'"
proof -
  have q: "ready_ok r' \<longleftrightarrow> ready_ok r" "thread_gates r' = thread_gates r"
    using assms by (simp_all add: quiet_record_def ready_ok_def thread_gates_def [abs_def])
  show a: "accepted reg r \<Longrightarrow> accepted reg r'" using assms q by (simp add: accepted_def quiet_record_def)
  show "gate_ok rel reg r \<Longrightarrow> gate_ok rel reg r'"
  proof -
    assume g: "gate_ok rel reg r"
    have s: "wr_state r' = RecReady \<or> wr_state r' = RecRunning \<Longrightarrow> wr_state r = RecReady \<or> wr_state r = RecRunning"
      "wr_state r' = RecStarting \<Longrightarrow> wr_state r = RecStarting"
      using assms unfolding quiet_record_def resting_def by fastforce+
    have "accepted reg r'" if "wr_state r' = RecReady \<or> wr_state r' = RecRunning"
      using g a s(1) [OF that] unfolding gate_ok_def by blast
    with g a q s(2) assms show "gate_ok rel reg r'"
      unfolding gate_ok_def quiet_record_def by simp
  qed
qed

lemma gates_quiet:
  assumes g: "gates_at pc w" and q: "quiet_sup (sw_sup w) (sw_sup w')" and e: "\<And>k. k < workers w \<Longrightarrow> registration_of w' k = registration_of w k"
    and pc: "pc_gates w' pc'"
  shows "gates_at pc' w'"
proof -
  have r: "quiet_record (rec_at (sw_sup w) k) (rec_at (sw_sup w') k)" if "k < workers w" for k
    using q that by (simp add: quiet_sup_def)
  have n: "workers w' = workers w" "startup_succeeded (sw_sup w') = startup_succeeded (sw_sup w)" "activating (sw_sup w') = activating (sw_sup w)"
    using q by (simp_all add: quiet_sup_def startup_succeeded_def activating_def)
  have "all_accepted w \<Longrightarrow> all_accepted w'" using quiet_recordD(1) [OF r] e n by (simp add: all_accepted_def)
  then show ?thesis using g quiet_recordD(2) [OF r] e n pc q by (auto simp: gates_at_def quiet_sup_def)
qed

lemma quiet_on:
  assumes "\<And>r. quiet_record r (f r)"
  shows "quiet_sup s (on_record k f s)" "quiet_sup s (on_health g (on_record k f s))" "quiet_sup s (on_record k f (on_health g s))"
proof -
  have "quiet_record (rec_at s j) ((sv_records s)[k := f (rec_at s k)] ! j)" if "j < length (sv_records s)" for j
    using assms that by (cases "j = k") simp_all
  then show "quiet_sup s (on_record k f s)" "quiet_sup s (on_health g (on_record k f s))" "quiet_sup s (on_record k f (on_health g s))"
    by (simp_all add: quiet_sup_def on_record_def on_health_def)
qed

lemma quiet_sup_trans: "quiet_sup a b \<Longrightarrow> quiet_sup b c \<Longrightarrow> quiet_sup a c"
  by (fastforce simp: quiet_sup_def quiet_record_def)


lemma settled_quiet: "settled s \<Longrightarrow> quiet_sup s s' \<Longrightarrow> settled s'"
  unfolding settled_def quiet_sup_def quiet_record_def by metis

text \<open>Steps that change one record.\<close>

lemma gates_change:
  assumes g: "gates_at pc w" and n: "workers w' = workers w" "sv_startup (sw_sup w') = sv_startup (sw_sup w)"
    "sv_activation (sw_sup w') = sv_activation (sw_sup w)" "sv_data_plane_released (sw_sup w') = sv_data_plane_released (sw_sup w)"
    and o: "\<And>j. j < workers w \<Longrightarrow> j \<noteq> k \<Longrightarrow> rec_at (sw_sup w') j = rec_at (sw_sup w) j \<and> registration_of w' j = registration_of w j"
    and k: "k < workers w \<Longrightarrow> gate_ok (sv_data_plane_released (sw_sup w)) (registration_of w' k) (rec_at (sw_sup w') k)"
    and a: "k < workers w \<Longrightarrow> activating (sw_sup w) \<Longrightarrow> accepted (registration_of w k) (rec_at (sw_sup w) k)
      \<Longrightarrow> accepted (registration_of w' k) (rec_at (sw_sup w') k)"
    and pc: "pc_gates w' pc'"
  shows "gates_at pc' w'"
proof -
  have "gate_ok (sv_data_plane_released (sw_sup w)) (registration_of w' j) (rec_at (sw_sup w') j)" if "j < workers w" for j
    using gatesD(1) [OF g that] o [OF that] k that by (cases "j = k") simp_all
  moreover have "accepted (registration_of w' j) (rec_at (sw_sup w') j)" if "j < workers w" "activating (sw_sup w)" for j
    using gatesD(4) [OF g that(2)] that o [OF that(1)] a by (cases "j = k") (simp_all add: all_accepted_def)
  moreover have "activating (sw_sup w') = activating (sw_sup w)" "startup_succeeded (sw_sup w') = startup_succeeded (sw_sup w)"
    using n by (simp_all add: activating_def startup_succeeded_def)
  ultimately show ?thesis
    using gatesD(2,3) [OF g] n pc by (simp add: gates_at_def all_accepted_def)
qed

lemma quiet_eqI: "sv_records s' = sv_records s \<Longrightarrow> sv_startup s' = sv_startup s \<Longrightarrow> sv_activation s' = sv_activation s
  \<Longrightarrow> sv_data_plane_released s' = sv_data_plane_released s \<Longrightarrow> quiet_sup s s'"
  by (simp add: quiet_sup_def)

lemma refreshes_quiet:
  assumes "request_filter_refreshes failed k rs = (e, rs')"
  shows "length rs' = length rs \<and> (\<forall>i < length rs. quiet_record (rs ! i) (rs' ! i))"
  using assms
proof (induction rs arbitrary: k rs' e)
  case (Cons r rs)
  show ?case
  proof (cases "wr_instance r")
    case None
    then show ?thesis using Cons by (auto split: prod.splits simp: nth_Cons split: nat.splits)
  next
    case (Some i)
    show ?thesis
    proof (cases "failed k")
      case None
      have "quiet_record r (r\<lparr>wr_instance := Some (i\<lparr>wi_generation_event := True\<rparr>)\<rparr>)" using Some by (simp add: quiet_record_def)
      then show ?thesis using Cons Some None by (auto split: prod.splits simp: nth_Cons split: nat.splits)
    qed (use Some Cons in auto)
  qed
qed simp

lemma operations_quiet:
  "quiet_sup s (count_attempt k s)"
  "start_worker_thread_begin k s = (c, s') \<Longrightarrow> quiet_sup s s'"
  "monitor_round_begin failed s = (x4, s') \<Longrightarrow> quiet_sup s s'"
  "monitor_rest now d k s = (x5, s') \<Longrightarrow> quiet_sup s s'"
  "handle_worker_failure_begin k f s = (x6, s') \<Longrightarrow> quiet_sup s s'"
  "fail_worker_service_begin f s = (b, s') \<Longrightarrow> quiet_sup s s'"
  "join_begin k s = (b, s') \<Longrightarrow> quiet_sup s s'"
  "quiet_sup s (join_joined k s)" "quiet_sup s (stop_instance target s)"
  "quiet_sup s (publish_health s)" "quiet_sup s (fail_worker_service_report report f s)"
  "stopper_step t s = (t', s') \<Longrightarrow> quiet_sup s s'"
proof -
  show "quiet_sup s (count_attempt k s)" by (auto simp: count_attempt_def quiet_record_def intro!: quiet_on)
  show "start_worker_thread_begin k s = (c, s') \<Longrightarrow> quiet_sup s s'"
    by (auto simp: start_worker_thread_begin_def Let_def quiet_record_def intro!: quiet_on split: if_splits)
  show "monitor_round_begin failed s = (x4, s') \<Longrightarrow> quiet_sup s s'"
    by (auto simp: monitor_round_begin_def Let_def quiet_sup_def dest!: refreshes_quiet split: if_splits option.splits prod.splits)
  show "monitor_rest now d k s = (x5, s') \<Longrightarrow> quiet_sup s s'"
    by (auto simp: monitor_rest_def Let_def quiet_record_def intro!: quiet_on split: if_splits)
  show "fail_worker_service_begin f s = (b, s') \<Longrightarrow> quiet_sup s s'"
    by (auto simp: fail_worker_service_begin_def intro!: quiet_eqI)
  show "join_begin k s = (b, s') \<Longrightarrow> quiet_sup s s'"
  proof -
    have a: "quiet_sup s (stop_source (source_of s k) s)" "quiet_sup s ((stop_source (source_of s k) s)\<lparr>sv_join_failure := None\<rparr>)"
      by (simp_all add: stop_source_def quiet_eqI)
    have "quiet_sup s (on_record k (\<lambda>r. r\<lparr>wr_state := RecStopping\<rparr>) (stop_source (source_of s k) s))"
      by (rule quiet_sup_trans [OF a(1) quiet_on(1)]) (simp add: quiet_record_def resting_def)
    then show "join_begin k s = (b, s') \<Longrightarrow> quiet_sup s s'"
      using a by (auto simp: join_begin_def Let_def split: if_splits)
  qed
  show "quiet_sup s (join_joined k s)"
    unfolding join_joined_def by (rule quiet_on) (simp add: Let_def quiet_record_def resting_def)
  show "quiet_sup s (stop_instance target s)"
    by (auto simp: stop_instance_def quiet_record_def intro!: quiet_on)
  show "quiet_sup s (publish_health s)" "quiet_sup s (fail_worker_service_report report f s)"
    by (simp_all add: publish_health_def fail_worker_service_report_def quiet_eqI)
  show "stopper_step t s = (t', s') \<Longrightarrow> quiet_sup s s'"
    by (auto simp: stopper_step_def stop_source_def intro!: quiet_eqI split: stopper.splits if_splits)
  show "handle_worker_failure_begin k f s = (x6, s') \<Longrightarrow> quiet_sup s s'"
  proof -
    have h: "quiet_sup s0 (on_health g (on_record k u s1))"
      if "sv_records s1 = sv_records s0" "sv_startup s1 = sv_startup s0" "sv_activation s1 = sv_activation s0"
        "sv_data_plane_released s1 = sv_data_plane_released s0" "\<And>r. quiet_record r (u r)" for s0 s1 g u
      using quiet_sup_trans [OF quiet_eqI [OF that(1-4)] quiet_on(2) [OF that(5)]] .
    show "handle_worker_failure_begin k f s = (x6, s') \<Longrightarrow> quiet_sup s s'"
      by (auto simp: handle_worker_failure_begin_def Let_def quiet_record_def resting_def intro!: h split: if_splits)
  qed
qed

lemma phase_frame [simp]:
  "unpublished (on_record k f s) = unpublished s" "unpublished (on_health h s) = unpublished s"
  "startup_succeeded (on_record k f s) = startup_succeeded s" "startup_succeeded (on_health h s) = startup_succeeded s"
  "activating (on_record k f s) = activating s" "activating (on_health h s) = activating s"
  "site_gates site (on_record k f s) = site_gates site s" "site_gates site (on_health h s) = site_gates site s"
  by (simp_all add: unpublished_def startup_succeeded_def activating_def site_gates_def split: create_site.splits)

lemma gates_exits [simp]:
  "pc_gates w abrupt_exit" "pc_gates w (startup_fails e)" "pc_gates w (run_rejected e a r)" "pc_gates w (monitor_returns r)"
  "pc_gates w (activation_fails ae)" "pc_gates w emergency_join_all"
  by (simp_all add: abrupt_exit_def startup_fails_def run_rejected_def monitor_returns_def activation_fails_def emergency_join_all_def)

lemma site_settled [simp]: "site_gates AtRecovery s \<Longrightarrow> settled s"
  by (simp add: site_gates_def settled_def)

lemma gates_errors [simp]:
  "settled (sw_sup w) \<Longrightarrow> pc_gates w (recovery_error k e)"
  "site_gates site (sw_sup w) \<Longrightarrow> pc_gates w (create_failed site k e)"
  "site_gates site (sw_sup w) \<Longrightarrow> pc_gates w (start_failed site k e)"
  "settled (sw_sup w) \<Longrightarrow> pc_gates w (visit_next k progressed d s)"
  "pc_gates w (after_create c f g) \<longleftrightarrow> (\<forall>e. c = CreateReturns e \<longrightarrow> pc_gates w (f e)) \<and> (c = CreateContinues \<longrightarrow> pc_gates w g)"
  by (simp_all add: recovery_error_def create_failed_def start_failed_def visit_next_def round_end_def after_create_def
      split: create_site.splits create_step.splits) auto

lemma site_not_activating:
  assumes "gates_at pc w" "site_gates site (sw_sup w)"
  shows "\<not> activating (sw_sup w)"
  using assms gatesD(2) [OF assms(1)]
  by (auto simp: site_gates_def unpublished_def activating_def startup_succeeded_def split: create_site.splits)

lemma gates_goto: "gates_at pc (goto pc1 s w) \<longleftrightarrow> gates_at pc (goto pc2 s w)"
proof -
  have "pc_gates (goto pc1 s w) x = pc_gates (goto pc2 s w) x" for x
    by (induction x) (simp_all add: all_accepted_def split: join_site.splits)
  then show ?thesis by (simp add: gates_at_def all_accepted_def)
qed

text \<open>Where the supervisor stands is not affected by what its environment does, as long as records keep their state.\<close>

definition steady :: "sup_world \<Rightarrow> sup_world \<Rightarrow> bool" where
  "steady w w' \<longleftrightarrow> workers w' = workers w \<and> sv_startup (sw_sup w') = sv_startup (sw_sup w) \<and> sv_activation (sw_sup w') = sv_activation (sw_sup w)
     \<and> (sv_data_plane_released (sw_sup w) \<longrightarrow> sv_data_plane_released (sw_sup w'))
     \<and> (\<forall>k < workers w. wr_state (rec_at (sw_sup w') k) = wr_state (rec_at (sw_sup w) k)
          \<and> (ready_ok (rec_at (sw_sup w) k) \<longrightarrow> ready_ok (rec_at (sw_sup w') k))
          \<and> (accepted (registration_of w k) (rec_at (sw_sup w) k) \<longrightarrow> accepted (registration_of w' k) (rec_at (sw_sup w') k)))"

lemma pc_steady:
  assumes s: "steady w w'" and k: "pc_ok w pc"
    and f: "\<And>k site. k < workers w \<Longrightarrow> site_gates site (sw_sup w) \<Longrightarrow> fresh_record (rec_at (sw_sup w) k) \<Longrightarrow> fresh_record (rec_at (sw_sup w') k)"
  shows "pc_gates w pc \<Longrightarrow> pc_gates w' pc"
proof -
  have a: "unpublished (sw_sup w') = unpublished (sw_sup w)" "activating (sw_sup w') = activating (sw_sup w)"
    "site_gates site (sw_sup w) \<Longrightarrow> site_gates site (sw_sup w')" for site
    using s by (auto simp: steady_def unpublished_def activating_def startup_succeeded_def site_gates_def split: create_site.splits)
  have b: "settled (sw_sup w) \<Longrightarrow> settled (sw_sup w')" "all_accepted w \<Longrightarrow> all_accepted w'"
    using s by (auto simp: steady_def settled_def all_accepted_def)
  have c: "wr_state (rec_at (sw_sup w') k) = wr_state (rec_at (sw_sup w) k)" "ready_ok (rec_at (sw_sup w) k) \<Longrightarrow> ready_ok (rec_at (sw_sup w') k)"
    if "k < workers w" for k
    using s that by (simp_all add: steady_def)
  have d: "site_gates site (sw_sup w) \<and> fresh_record (rec_at (sw_sup w) k) \<Longrightarrow> fresh_record (rec_at (sw_sup w') k)"
    if "k < workers w" for k site
    using f that by blast
  show "pc_gates w pc \<Longrightarrow> pc_gates w' pc"
    using k by (induction pc) (use a b c in \<open>auto intro: d split: join_site.splits\<close>)
qed

lemma quiet_steady:
  assumes "quiet_sup (sw_sup w) (sw_sup w')" "\<And>k. k < workers w \<Longrightarrow> registration_of w' k = registration_of w k"
    "\<And>k. k < workers w \<Longrightarrow> wr_state (rec_at (sw_sup w') k) = wr_state (rec_at (sw_sup w) k)"
  shows "steady w w'"
  using assms quiet_recordD(1) by (auto simp: steady_def quiet_sup_def) (auto simp: quiet_record_def ready_ok_def)

section \<open>Steps of the supervisor thread\<close>

lemma thread_gates_enters [simp]: "thread_gates r WorkerEnters"
  by (simp add: thread_gates_def)

lemma create_begin_gates:
  assumes g: "gates_at (SupCreates site k port) w" and l: "pc_ok w (SupCreates site k port)" and c: "create_worker_begin k (sw_sup w) = (c, s)"
  shows "gates_at (after_create c (create_failed site k) (SupRegisters site k port)) (goto pc s w)"
proof -
  have k: "k < workers w" "wr_thread (rec_at (sw_sup w) k) = None" using l by (simp_all add: clean_def)
  have t: "site_gates site (sw_sup w)" using gatesD(5) [OF g] by simp
  have q: "quiet_sup (sw_sup w) (count_attempt k (sw_sup w))" by (rule operations_quiet)
  have t2: "site_gates site (count_attempt k (sw_sup w))" using t by (simp add: count_attempt_def)
  show ?thesis
  proof (cases "c = CreateContinues")
    case False
    then have "s = sw_sup w \<or> s = count_attempt k (sw_sup w)" using create_begin_cases [OF c] by blast
    then show ?thesis using False q t t2 by (intro gates_quiet [OF g]) auto
  next
    case True
    then have s: "s = on_record k fresh_instance (count_attempt k (sw_sup w))" using create_begin_cases [OF c] by blast
    have r: "wr_thread (rec_at (count_attempt k (sw_sup w)) k) = None" "length (sv_records (count_attempt k (sw_sup w))) = workers w"
      "\<And>j. j \<noteq> k \<Longrightarrow> rec_at (count_attempt k (sw_sup w)) j = rec_at (sw_sup w) j"
      using k by (simp_all add: count_attempt_def)
    then have f: "fresh_record (rec_at s k)" "wr_thread (rec_at s k) = None" "\<not> ac_published (wr_activated (rec_at s k))"
      using k(1) by (simp_all add: s fresh_record_def fresh_instance_def no_activation_def)
    have "gates_at (SupRegisters site k port) (goto pc s w)"
      using k r f t site_not_activating [OF g t]
      by (intro gates_change [OF g, where k = k]) (simp_all add: gate_ok_def fresh_record_def, simp_all add: s count_attempt_def)
    then show ?thesis by (simp add: after_create_def True)
  qed
qed

lemma register_gates:
  assumes g: "gates_at (SupRegisters site k port) w" and l: "pc_ok w (SupRegisters site k port)"
    and c: "create_worker_register k (sw_sup w) (sw_publication w) (sw_epochs w) = (CreateContinues, loc, p, eps)"
  shows "gates_at (SupBuilds site k port) (goto pc (sw_sup w) (set_local k loc (set_pub_epochs p eps w)))"
proof -
  have t: "site_gates site (sw_sup w)" "fresh_record (rec_at (sw_sup w) k)" using gatesD(5) [OF g] by simp_all
  have "we_registration (eps j) = we_registration (sw_epochs w j)" if "j \<noteq> k" for j
    using c that by (auto simp: create_worker_register_def register_worker_def split: if_splits option.splits)
  then show ?thesis
    using t l site_not_activating [OF g t(1)] gate_activated [OF gatesD(1) [OF g]] by (intro gates_change [OF g, where k = k]) (simp_all add: gate_ok_def fresh_record_def clean_def)
qed

lemma install_gates:
  assumes g: "gates_at (SupInstalls site k port bound) w" and l: "lifecycle_at (SupInstalls site k port bound) w"
  shows "gates_at (created site k port bound (sw_sup w)) (goto pc (create_worker_install k bound (sw_sup w)) w)"
proof -
  have k: "k < workers w" "\<not> has_instance w k" using lifecycleD(5) [OF l] by simp_all
  then have th: "wr_thread (rec_at (sw_sup w) k) = None"
    using lifecycleD(3) [OF l k(1)] by (cases "wr_thread (rec_at (sw_sup w) k)") (auto simp: record_ok_def Let_def has_instance_def)
  have t: "site_gates site (sw_sup w)" "fresh_record (rec_at (sw_sup w) k)" using gatesD(5) [OF g] by simp_all
  show ?thesis
    using t k th site_not_activating [OF g t(1)] gate_activated [OF gatesD(1) [OF g k(1)]]
    by (intro gates_change [OF g, where k = k])
      (auto simp: create_worker_install_def gate_ok_def fresh_record_def created_def split: create_site.splits)
qed

lemma spawn_gates:
  assumes g: "gates_at (SupSpawns site k) w" and l: "pc_ok w (SupSpawns site k)" and c: "start_worker_thread_spawn k refused (sw_sup w) = (c, s)"
  shows "gates_at (after_create c (start_failed site k) (started site k s)) (goto pc s w)"
proof (cases refused)
  case None
  have t: "site_gates site (sw_sup w)" using gatesD(5) [OF g] by simp
  have s: "c = CreateContinues" "s = on_record k (\<lambda>r. r\<lparr>wr_thread := Some \<lparr>wt_instance = wr_instance_id r, wt_pc = WorkerEnters\<rparr>\<rparr>) (sw_sup w)"
    using c None by (auto simp: start_worker_thread_spawn_def)
  have t2: "site_gates site s" using t by (simp add: s)
  have "pc_gates (goto pc s w) (started site k s)"
    using t2 by (auto simp: started_def site_gates_def settled_def split: create_site.splits)
  moreover have "gate_ok rel reg (f r)" if "gate_ok rel reg r" "f = (\<lambda>r. r\<lparr>wr_thread := Some \<lparr>wt_instance = wr_instance_id r, wt_pc = WorkerEnters\<rparr>\<rparr>)"
    for rel reg r f
    using that by (simp add: gate_ok_def accepted_def ready_ok_def)
  ultimately show ?thesis
    using l gatesD(1) [OF g] site_not_activating [OF g t] s(1)
    by (simp add: after_create_def, intro gates_change [OF g, where k = k]) (simp_all add: s(2))
next
  case (Some n)
  have t: "site_gates site (sw_sup w)" using gatesD(5) [OF g] by simp
  show ?thesis using c Some t by (intro gates_quiet [OF g]) (auto simp: start_worker_thread_spawn_def)
qed

lemma mark_registered_shape:
  assumes "mark_worker_registered k inst e p eps = (b, eps')"
  shows "\<not> b \<Longrightarrow> eps' = eps" "b \<Longrightarrow> eps' = eps(e := (eps e)\<lparr>we_registration := Registered\<rparr>)"
  using assms by (auto simp: mark_worker_registered_def split: if_splits)

lemma await_ready_gates:
  assumes g: "gates_at (SupReadyAt k) w" and l: "pc_ok w (SupReadyAt k)" and c: "await_ready_record k (sw_sup w) (sw_publication w) (sw_epochs w) = (e, s, eps)"
  shows "gates_at SupReadyRound (goto pc s (set_epochs eps w))"
proof -
  have k: "k < workers w" "wr_instance (rec_at (sw_sup w) k) \<noteq> None" using l by (auto simp: has_instance_def)
  have u: "unpublished (sw_sup w)" using gatesD(5) [OF g] by simp
  let ?x = "on_record k (\<lambda>r. r\<lparr>wr_state := RecExited, wr_last_result := Some (cp_result (wr_completion r))\<rparr>) (sw_sup w)"
  let ?r = "on_record k (\<lambda>r. r\<lparr>wr_state := RecReady\<rparr>) (sw_sup w)"
  consider (same) "s = sw_sup w" "eps = sw_epochs w" | (exit) "\<exists>x. s = on_record k (\<lambda>r. r\<lparr>wr_state := RecExited, wr_last_result := x\<rparr>) (sw_sup w)" "eps = sw_epochs w"
    | (ready) "s = ?r" "eps = (sw_epochs w)(k := (sw_epochs w k)\<lparr>we_registration := Registered\<rparr>)" "ready_ok (rec_at (sw_sup w) k)"
    using c mark_registered_shape
    by (auto simp: await_ready_record_def Let_def ready_ok_def split: if_splits prod.splits bool.splits)
  then show ?thesis
  proof cases
    case same
    then show ?thesis using u by (intro gates_quiet [OF g]) simp_all
  next
    case exit
    then obtain x where s: "s = on_record k (\<lambda>r. r\<lparr>wr_state := RecExited, wr_last_result := x\<rparr>) (sw_sup w)" by blast
    have "quiet_sup (sw_sup w) s" unfolding s by (rule quiet_on) (simp add: quiet_record_def resting_def)
    then show ?thesis using u exit s by (intro gates_quiet [OF g]) (simp_all add: unpublished_def)
  next
    case ready
    have a: "gate_ok rel Registered (r\<lparr>wr_state := RecReady\<rparr>)" if "gate_ok rel reg r" "wr_instance r \<noteq> None" "ready_ok r" for rel reg r
      using that by (simp add: gate_ok_def accepted_def ready_ok_def thread_gates_def)
    show ?thesis
      using u ready k a [OF gatesD(1) [OF g k(1)] k(2) ready(3)]
      by (intro gates_change [OF g, where k = k]) (simp_all add: unpublished_def activating_def startup_succeeded_def)
  qed
qed

lemma activation_round_cases:
  assumes "await_activation_round s = (r, s')"
  shows "(r = ActivationThrows \<or> (\<exists>e. r = ActivationFails e) \<or> r = ActivationWaits) \<and> s' = s
    \<or> (\<exists>e k. r = ActivationFails e \<and> s' = on_record k (\<lambda>r. r\<lparr>wr_state := RecExited, wr_last_result := Some (cp_result (wr_completion r))\<rparr>) s)
    \<or> s' = s\<lparr>sv_records := map activate_record (sv_records s)\<rparr>
      \<and> (r = ActivationWaits \<or> r = ActivationDone \<and> all_in_state RecRunning s')"
  using assms by (auto simp: await_activation_round_def Let_def split: if_splits option.splits)

lemma activation_gates:
  assumes g: "gates_at SupActivationRound w" and c: "await_activation_round (sw_sup w) = (r, s)"
  shows "gates_at (case r of ActivationThrows \<Rightarrow> abrupt_exit | ActivationFails e \<Rightarrow> activation_fails e
           | ActivationWaits \<Rightarrow> SupActivationRound | ActivationDone \<Rightarrow> SupRuns [PublishActivation (Inr ())] ExitMonitor) (goto pc s w)"
    (is "gates_at ?pc _")
proof -
  have a: "activating (sw_sup w)" using gatesD(5) [OF g] by simp
  consider (same) "s = sw_sup w" "r = ActivationThrows \<or> (\<exists>e. r = ActivationFails e) \<or> r = ActivationWaits"
    | (exit) k e where "r = ActivationFails e" "s = on_record k (\<lambda>r. r\<lparr>wr_state := RecExited, wr_last_result := Some (cp_result (wr_completion r))\<rparr>) (sw_sup w)"
    | (activated) "s = (sw_sup w)\<lparr>sv_records := map activate_record (sv_records (sw_sup w))\<rparr>" "r = ActivationWaits \<or> r = ActivationDone \<and> all_in_state RecRunning s"
    using activation_round_cases [OF c] by blast
  then show ?thesis
  proof cases
    case same
    then show ?thesis using a by (intro gates_quiet [OF g]) auto
  next
    case exit
    have "quiet_sup (sw_sup w) s" unfolding exit(2) by (rule quiet_on) (simp add: quiet_record_def resting_def)
    then show ?thesis using exit by (intro gates_quiet [OF g]) auto
  next
    case activated
    have acc: "accepted (registration_of w k) (rec_at (sw_sup w) k)" if "k < workers w" for k
      using gatesD(4) [OF g a] that by (simp add: all_accepted_def)
    have m: "accepted reg x \<Longrightarrow> accepted reg (activate_record x)" "accepted reg x \<Longrightarrow> gate_ok rel reg x \<Longrightarrow> gate_ok rel reg (activate_record x)" for rel reg x
      by (auto simp: activate_record_def accepted_def gate_ok_def ready_ok_def thread_gates_def)
    have p: "activating s" "startup_succeeded s = startup_succeeded (sw_sup w)" using a by (simp_all add: activated(1) activating_def startup_succeeded_def)
    have "settled s" if "all_in_state RecRunning s" using that by (simp add: settled_def all_in_state_def list_all_length)
    then have "pc_gates (goto pc s w) ?pc" using p activated(2) by auto
    then show ?thesis
      using gatesD(1) [OF g] gatesD(2,3) [OF g] m acc p activated(1) by (simp add: gates_at_def all_accepted_def)
  qed
qed

lemma visit_gates:
  assumes g: "gates_at (SupVisits k p d) w" and n: "monitor_failure k (rec_at (sw_sup w) k) = None" "awaits_registration (rec_at (sw_sup w) k)"
  shows "wr_state (rec_at (sw_sup w) k) = RecStarting \<and> ready_ok (rec_at (sw_sup w) k)"
  using n by (auto simp: monitor_failure_def awaits_registration_def live_state_def ready_ok_def Let_def split: if_splits)

lemma settled_released:
  "settled s \<Longrightarrow> k < length (sv_records s) \<Longrightarrow> wr_state (rec_at s k) \<noteq> RecRunning \<Longrightarrow> \<not> resting (wr_state (rec_at s k)) \<Longrightarrow> sv_data_plane_released s"
  unfolding settled_def by blast

lemma monitor_ready_gates:
  assumes g: "gates_at (SupProbedReady k p d) w" and k: "k < workers w" and c: "monitor_ready k (sw_sup w) (sw_publication w) (sw_epochs w) = (r, s, eps)"
  shows "gates_at SupMonitorRound (goto pc s (set_epochs eps w))"
proof -
  have st: "settled (sw_sup w)" "wr_state (rec_at (sw_sup w) k) = RecStarting" "ready_ok (rec_at (sw_sup w) k)" using gatesD(5) [OF g] by simp_all
  have rel: "sv_data_plane_released (sw_sup w)" using settled_released [OF st(1) k] st(2) by (simp add: resting_def)
  consider (same) "s = sw_sup w" "eps = sw_epochs w"
    | (ready) "s = on_record k (\<lambda>r. r\<lparr>wr_state := RecReady, wr_activation_allowed := True\<rparr>) (sw_sup w)"
        "eps = (sw_epochs w)(k := (sw_epochs w k)\<lparr>we_registration := Registered\<rparr>)"
    using c mark_registered_shape by (auto simp: monitor_ready_def split: if_splits prod.splits bool.splits)
  then show ?thesis
  proof cases
    case same
    then show ?thesis using st by (intro gates_quiet [OF g]) auto
  next
    case ready
    have a: "gate_ok rl Registered (x\<lparr>wr_state := RecReady, wr_activation_allowed := True\<rparr>)"
      if "gate_ok rl reg x" "wr_state x = RecStarting" "ready_ok x" for rl reg x
      using that by (simp add: gate_ok_def accepted_def ready_ok_def thread_gates_def)
    have "\<not> activating (sw_sup w)" using gatesD(2) [OF g rel] by (simp add: activating_def)
    then show ?thesis
      using ready k rel a [OF gatesD(1) [OF g k] st(2,3)]
      by (intro gates_change [OF g, where k = k]) (simp_all add: settled_def)
  qed
qed

lemma monitor_activated_gates:
  assumes g: "gates_at (SupProbedActivated k p d) w" and k: "k < workers w" and c: "monitor_activated now k (sw_sup w) = (r, s)"
  shows "gates_at SupMonitorRound (goto pc s w)"
proof -
  have st: "settled (sw_sup w)" "wr_state (rec_at (sw_sup w) k) = RecReady" using gatesD(5) [OF g] by simp_all
  have rel: "sv_data_plane_released (sw_sup w)" using settled_released [OF st(1) k] st(2) by (simp add: resting_def)
  let ?f = "\<lambda>r. r\<lparr>wr_state := RecRunning, wr_data_plane_allowed := True,
                 wr_stable_at := deadline_after now (rc_stability_window (cfg_recovery (sv_config (sw_sup w))))\<rparr>"
  consider (same) "s = sw_sup w" | (released) h where "s = on_health h (on_record k ?f (sw_sup w))"
    using c by (auto simp: monitor_activated_def split: if_splits)
  then show ?thesis
  proof cases
    case same
    then show ?thesis using st by (intro gates_quiet [OF g]) auto
  next
    case released
    have a: "gate_ok True reg (?f x)" if "gate_ok True reg x" "wr_state x = RecReady" for reg x
      using that by (simp add: gate_ok_def accepted_def ready_ok_def thread_gates_def)
    have "\<not> activating (sw_sup w)" using gatesD(2) [OF g rel] by (simp add: activating_def)
    then show ?thesis
      using released k rel a [OF _ st(2)] gatesD(1) [OF g k]
      by (intro gates_change [OF g, where k = k]) (simp_all add: settled_def)
  qed
qed

lemma handled_gates:
  assumes g: "gates_at (SupHandled k f) w" and l: "pc_ok w (SupHandled k f)" and c: "handle_worker_failure_joined now k f (sw_sup w) = (r, s)"
  shows "gates_at SupMonitorRound (goto pc s w)"
proof -
  have k: "k < workers w" "wr_thread (rec_at (sw_sup w) k) = None" "wr_instance (rec_at (sw_sup w) k) = None" using l by (simp_all add: clean_def)
  have st: "settled (sw_sup w)" using gatesD(5) [OF g] by simp
  show ?thesis
  proof (cases "r = HandleRecovers")
    case False
    then have "s = sw_sup w \<or> (\<exists>x. s = on_record k (\<lambda>r. r\<lparr>wr_last_result := x\<rparr>) (sw_sup w))"
      using c by (auto simp: handle_worker_failure_joined_def Let_def split: if_splits)
    moreover have "quiet_sup (sw_sup w) (on_record k (\<lambda>r. r\<lparr>wr_last_result := x\<rparr>) (sw_sup w))" for x
      by (rule quiet_on) (simp add: quiet_record_def)
    ultimately have "quiet_sup (sw_sup w) s" by auto
    then show ?thesis using settled_quiet [OF st] by (intro gates_quiet [OF g]) auto
  next
    case True
    have rel: "sv_data_plane_released (sw_sup w)" "workers (goto pc s w) = workers w" "sv_startup s = sv_startup (sw_sup w)"
      "sv_activation s = sv_activation (sw_sup w)" "sv_data_plane_released s" "\<And>j. j \<noteq> k \<Longrightarrow> rec_at s j = rec_at (sw_sup w) j"
      "wr_state (rec_at s k) = RecBackoff" "wr_thread (rec_at s k) = None" "wr_instance (rec_at s k) = None"
      "wr_activated (rec_at s k) = wr_activated (rec_at (sw_sup w) k)" "wr_instance_id (rec_at s k) = wr_instance_id (rec_at (sw_sup w) k)"
      using c True k by (auto simp: handle_worker_failure_joined_def Let_def split: if_splits)
    have "\<not> activating (sw_sup w)" using gatesD(2) [OF g rel(1)] by (simp add: activating_def)
    then show ?thesis
      using rel gate_activated [OF gatesD(1) [OF g k(1)]] by (intro gates_change [OF g, where k = k]) (simp_all add: settled_def gate_ok_def)
  qed
qed

text \<open>Scripts without a success to publish, and those with one.\<close>

definition plain_script :: "sup_action list \<Rightarrow> sup_exit \<Rightarrow> sup_world \<Rightarrow> bool" where
  "plain_script acts exit w \<longleftrightarrow> (\<forall>i. PublishStartup (Inr i) \<notin> set acts) \<and> PublishActivation (Inr ()) \<notin> set acts
     \<and> exit \<noteq> ExitActivate \<and> (exit = ExitMonitor \<longrightarrow> settled (sw_sup w))"

lemma plain_script_gates: "plain_script acts exit w \<Longrightarrow> pc_gates w (SupRuns acts exit)"
  by (simp add: plain_script_def)

lemma script_cases:
  assumes "pc_gates w (SupRuns (a # rest) exit)"
  obtains (startup) i where "a = PublishStartup (Inr i)" "rest = []" "exit = ExitActivate" "unpublished (sw_sup w)" "all_accepted w"
    | (activation) "a = PublishActivation (Inr ())" "rest = []" "exit = ExitMonitor" "activating (sw_sup w)" "settled (sw_sup w)"
    | (plain) "plain_script (a # rest) exit w"
proof -
  have s: "PublishStartup (Inr i) \<in> set (a # rest) \<Longrightarrow> a # rest = [PublishStartup (Inr i)] \<and> exit = ExitActivate" for i
    using assms by (simp only: pc_gates.simps)
  have v: "PublishActivation (Inr ()) \<in> set (a # rest) \<Longrightarrow> a # rest = [PublishActivation (Inr ())] \<and> exit = ExitMonitor \<and> activating (sw_sup w)"
    and e: "exit = ExitActivate \<Longrightarrow> (\<exists>i. a # rest = [PublishStartup (Inr i)]) \<and> unpublished (sw_sup w) \<and> all_accepted w"
    and m: "exit = ExitMonitor \<Longrightarrow> settled (sw_sup w)"
    using assms by (simp_all only: pc_gates.simps) blast+
  show thesis
  proof (cases "exit = ExitActivate")
    case True
    then show ?thesis using e [OF True] startup by auto
  next
    case False
    show ?thesis
    proof (cases "PublishActivation (Inr ()) \<in> set (a # rest)")
      case True
      then show ?thesis using v [OF True] m activation by auto
    qed (use False s m plain in \<open>auto simp: plain_script_def\<close>)
  qed
qed

lemma publish_startup_gates:
  assumes g: "gates_at (SupRuns (PublishStartup x # rest) exit) w"
  shows "gates_at (SupRuns rest exit) (goto pc (publish_startup x (sw_sup w)) w)"
proof -
  let ?s = "publish_startup x (sw_sup w)"
  have f: "sv_records ?s = sv_records (sw_sup w)" "sv_activation ?s = sv_activation (sw_sup w)" "sv_data_plane_released ?s = sv_data_plane_released (sw_sup w)"
    by (simp_all add: publish_startup_def)
  have st: "settled ?s = settled (sw_sup w)" using f by (simp add: settled_def)
  have r: "gate_ok (sv_data_plane_released ?s) (registration_of w k) (rec_at ?s k)" if "k < workers w" for k
    using gatesD(1) [OF g that] f by simp
  from gatesD(5) [OF g] show ?thesis
  proof (cases rule: script_cases)
    case (startup i)
    then have n: "sv_activation (sw_sup w) = None" "sv_startup (sw_sup w) = None" "x = Inr i" by (simp_all add: unpublished_def)
    then have "activating ?s" "\<not> sv_data_plane_released (sw_sup w)"
      using gatesD(2) [OF g] by (auto simp: publish_startup_def activating_def startup_succeeded_def)
    moreover have "all_accepted (goto pc ?s w)" using startup(5) f by (simp add: all_accepted_def)
    ultimately show ?thesis using r f n startup(2,3) by (simp add: gates_at_def)
  next
    case plain
    then have pc: "pc_gates (goto pc ?s w) (SupRuns rest exit)" using st by (intro plain_script_gates) (simp add: plain_script_def)
    show ?thesis
    proof (cases "sv_startup (sw_sup w) = None")
      case True
      then have "sv_activation (sw_sup w) \<noteq> Some (Inr ())" "\<not> sv_data_plane_released (sw_sup w)"
        using gatesD(2,3) [OF g] by (auto simp: startup_succeeded_def)
      moreover have "\<not> activating ?s"
        using True plain by (cases x) (auto simp: publish_startup_def startup_succeeded_def activating_def plain_script_def)
      ultimately show ?thesis using r f pc by (simp add: gates_at_def)
    next
      case False
      then have "?s = sw_sup w" by (simp add: publish_startup_def)
      then show ?thesis using pc by (intro gates_quiet [OF g]) simp_all
    qed
  qed simp
qed

lemma publish_activation_gates:
  assumes g: "gates_at (SupRuns (PublishActivation x # rest) exit) w"
  shows "gates_at (SupRuns rest exit) (goto pc (publish_activation x (sw_sup w)) w)"
proof -
  let ?s = "publish_activation x (sw_sup w)"
  have f: "sv_records ?s = sv_records (sw_sup w)" "sv_startup ?s = sv_startup (sw_sup w)" "sv_data_plane_released ?s = sv_data_plane_released (sw_sup w)"
    "startup_succeeded ?s = startup_succeeded (sw_sup w)"
    by (simp_all add: publish_activation_def startup_succeeded_def)
  have st: "settled ?s = settled (sw_sup w)" using f by (simp add: settled_def)
  have r: "gate_ok (sv_data_plane_released ?s) (registration_of w k) (rec_at ?s k)" if "k < workers w" for k
    using gatesD(1) [OF g that] f by simp
  have "plain_script rest exit (goto pc ?s w) \<and> (x = Inr () \<longrightarrow> startup_succeeded (sw_sup w))"
    using gatesD(5) [OF g] by (cases rule: script_cases) (use st in \<open>auto simp: plain_script_def activating_def\<close>)
  then have pc: "pc_gates (goto pc ?s w) (SupRuns rest exit)" and x: "x = Inr () \<longrightarrow> startup_succeeded (sw_sup w)"
    using plain_script_gates by blast+
  show ?thesis
  proof (cases "sv_activation (sw_sup w) = None")
    case False
    then have "?s = sw_sup w" by (simp add: publish_activation_def)
    then show ?thesis using pc by (intro gates_quiet [OF g]) simp_all
  next
    case True
    then have a: "sv_activation ?s = Some x" "\<not> activating ?s" by (simp_all add: publish_activation_def activating_def)
    moreover have "\<not> sv_data_plane_released (sw_sup w)" using gatesD(2) [OF g] True by auto
    moreover have "sv_activation ?s = Some (Inr ()) \<longrightarrow> startup_succeeded ?s" using a(1) x f(4) by (metis option.inject)
    ultimately show ?thesis using r f(1-3) pc by (simp add: gates_at_def)
  qed
qed

lemma run_action_gates:
  assumes g: "gates_at (SupRuns (a # rest) exit) w" and r: "run_action a rest exit (sw_sup w) = (pc, s)"
  shows "gates_at pc (goto pc' s w)"
proof (cases "publishes a")
  case True
  then show ?thesis
    using r publish_startup_gates publish_activation_gates g by (cases a) (auto simp: run_action_def)
next
  case False
  have b: "plain_script (a # rest) exit w"
    using gatesD(5) [OF g] False by (cases rule: script_cases) simp_all
  have s: "quiet_sup (sw_sup w) s"
    using r False operations_quiet(12) [of _ "sw_sup w"]
    by (cases a) (auto simp: run_action_def finish_supervisor_run_def request_stop_def intro!: quiet_eqI split: if_splits prod.splits)
  have p: "plain_script rest exit (goto pc' s w)" "\<And>t. plain_script (StopWorkers t # rest) exit (goto pc' s w)"
    using b settled_quiet [OF _ s] by (simp_all add: plain_script_def)
  have "plain_script rest (exit_after_join ok strict exit) (goto pc' s w)" for ok strict
    using p(1) by (cases exit) (auto simp: plain_script_def exit_after_join_def)
  note p = this [THEN plain_script_gates] p [THEN plain_script_gates]
  have "pc_gates (goto pc' s w) pc"
    using r False p by (cases a) (auto simp: run_action_def simp del: pc_gates.simps(27) split: if_splits prod.splits)
  then show ?thesis using s by (intro gates_quiet [OF g]) simp_all
qed

lemma not_activating:
  assumes "results_at pc s" "\<not> before_activation pc"
  shows "\<not> activating s"
  using assms by (auto simp: results_at_def activating_def startup_succeeded_def)

lemma joined_gates:
  assumes "results_at (SupJoins stage k site) s0" "pc_ok w0 (SupJoins stage k site)" "\<And>f. site = JoinFailure f \<Longrightarrow> settled (sw_sup w)"
  shows "pc_gates w (joined b k site)"
  using assms by (cases site) (auto simp: joined_def results_at_def list_all_iff)

lemma join_reset_gates:
  assumes g: "gates_at (SupJoins JoinDestroys k site) w" and p: "results_at (SupJoins JoinDestroys k site) (sw_sup w)" and k: "k < workers w"
  shows "gates_at (SupJoins JoinQuiesces k site) (goto pc (join_reset k (sw_sup w)) (set_local k None w))"
proof -
  have st: "wr_state (rec_at (sw_sup w) k) = RecJoined" "\<And>f. site = JoinFailure f \<Longrightarrow> settled (sw_sup w)" using gatesD(5) [OF g] by auto
  have "settled (join_reset k (sw_sup w))" if "settled (sw_sup w)"
    using that k by (auto simp: settled_def join_reset_def)
  moreover have "gate_ok rel reg (x\<lparr>wr_thread := None, wr_instance := None\<rparr>)" if "gate_ok rel reg x" "wr_state x = RecJoined" for rel reg x
    using that by (simp add: gate_ok_def)
  ultimately show ?thesis
    using not_activating [OF p] gatesD(1) [OF g k] st k
    by (intro gates_change [OF g, where k = k]) (auto simp: join_reset_def split: join_site.splits)
qed

lemma join_quiesce_gates:
  assumes g: "gates_at (SupJoins JoinQuiesces k site) w" and p: "results_at (SupJoins JoinQuiesces k site) (sw_sup w)"
    and l: "lifecycle_at (SupJoins JoinQuiesces k site) w"
    and q: "quiesce_worker k inst k (sw_publication w) (sw_epochs w) = (pub, eps)"
  shows "gates_at (SupJoins JoinEnds k site) (goto pc (sw_sup w) (set_pub_epochs pub eps w))"
proof -
  have k: "k < workers w" "\<not> has_instance w k" using lifecycleD(5) [OF l] by simp_all
  then have th: "wr_thread (rec_at (sw_sup w) k) = None" "wr_instance (rec_at (sw_sup w) k) = None"
    using lifecycleD(3) [OF l k(1)] by (cases "wr_thread (rec_at (sw_sup w) k)"; auto simp: record_ok_def Let_def has_instance_def)+
  have st: "wr_state (rec_at (sw_sup w) k) = RecJoined" using gatesD(5) [OF g] by auto
  have e: "we_registration (eps j) = registration_of w j" if "j \<noteq> k" for j
    using q that by (auto simp: quiesce_worker_def split: if_splits)
  have "gate_ok (sv_data_plane_released (sw_sup w)) (we_registration (eps k)) (rec_at (sw_sup w) k)"
    using gatesD(1) [OF g k(1)] st th by (simp add: gate_ok_def)
  then show ?thesis
    using not_activating [OF p] gatesD(5) [OF g] st th k e
    by (intro gates_change [OF g, where k = k]) (auto split: join_site.splits)
qed

lemma join_end_gates:
  assumes g: "gates_at (SupJoins JoinEnds k site) w" and p: "results_at (SupJoins JoinEnds k site) (sw_sup w)" and l: "pc_ok w (SupJoins JoinEnds k site)"
  shows "gates_at (joined True k site) (goto pc (join_end k (sw_sup w)) w)"
proof -
  have k: "k < workers w" "wr_thread (rec_at (sw_sup w) k) = None" using l by (auto simp: clean_def)
  have "settled (join_end k (sw_sup w))" if "settled (sw_sup w)"
    using that k by (auto simp: settled_def join_end_def resting_def)
  then have pc: "pc_gates (goto pc (join_end k (sw_sup w)) w) (joined True k site)"
    using gatesD(5) [OF g] by (intro joined_gates [OF p l]) auto
  show ?thesis
    using not_activating [OF p] k pc gate_activated [OF gatesD(1) [OF g k(1)]] by (intro gates_change [OF g, where k = k]) (auto simp: join_end_def gate_ok_def)
qed

lemma register_failed_shape:
  assumes "create_worker_register k s p eps = (CreateReturns e, loc, p', eps')"
  shows "eps' = eps"
  using assms by (auto simp: create_worker_register_def register_worker_def split: if_splits option.splits)

lemma sup_thread_gates:
  assumes step: "sup_thread_step w w'" and g: "gates_at (sw_pc w) w" and l: "lifecycle_at (sw_pc w) w" and p: "results_at (sw_pc w) (sw_sup w)"
  shows "gates_at (sw_pc w') w'"
  using step
proof cases
  case (c_run s)
  then have s: "s = (sw_sup w)\<lparr>sv_run_started := True, sv_run_active := True\<rparr>" by (auto simp: run_begin_supervisor_def split: if_splits)
  show ?thesis using c_run gatesD(5) [OF g] by (intro gates_quiet [OF g]) (simp_all add: s quiet_eqI unpublished_def)
next
  case c_enter
  then show ?thesis using gatesD(5) [OF g] by (intro gates_quiet [OF g]) simp_all
next
  case c_check
  then show ?thesis using gatesD(5) [OF g] by (intro gates_quiet [OF g]) (simp_all add: site_gates_def)
next
  case (c_create site k port c s)
  then show ?thesis using create_begin_gates g lifecycleD(5) [OF l] by simp
next
  case (c_register_failed site k port e loc p eps)
  then show ?thesis using gatesD(5) [OF g] register_failed_shape [OF c_register_failed(3)] by (intro gates_quiet [OF g]) simp_all
next
  case (c_register site k port loc p eps)
  then show ?thesis using register_gates g lifecycleD(5) [OF l] by simp
next
  case (c_build_failed site k port loop e)
  then show ?thesis using gatesD(5) [OF g] by (intro gates_quiet [OF g]) simp_all
next
  case (c_build site k port loop bound)
  then show ?thesis using gatesD(5) [OF g] by (intro gates_quiet [OF g]) simp_all
next
  case (c_install site k port bound)
  then show ?thesis using install_gates g l by simp
next
  case (c_start site k c s)
  have "site_gates site s"
    using c_start gatesD(5) [OF g] by (auto simp: start_worker_thread_begin_def Let_def split: if_splits)
  then show ?thesis using c_start operations_quiet(2) by (intro gates_quiet [OF g]) simp_all
next
  case (c_spawn site k refused c s)
  then show ?thesis using spawn_gates g lifecycleD(5) [OF l] by simp
next
  case c_ready_round
  then show ?thesis using gatesD(5) [OF g] by (intro gates_quiet [OF g]) simp_all
next
  case (c_ready_failed k e s eps)
  have "gates_at SupReadyRound w'"
    using await_ready_gates [of k w "Some e" s eps] c_ready_failed g lifecycleD(5) [OF l] by simp
  then show ?thesis using c_ready_failed by (simp add: gates_at_def)
next
  case (c_ready_next k s eps)
  have "gates_at SupReadyRound w'"
    using await_ready_gates [of k w None s eps] c_ready_next g lifecycleD(5) [OF l] by simp
  then show ?thesis using c_ready_next by (simp add: gates_at_def)
next
  case (c_ready_wait k s eps)
  then show ?thesis using await_ready_gates [of k w None s eps] g lifecycleD(5) [OF l] by simp
next
  case (c_ready_done k s eps i)
  have r: "gates_at SupReadyRound w'"
    using await_ready_gates [of k w None s eps] c_ready_done g lifecycleD(5) [OF l] by simp
  have "accepted (registration_of w' j) (rec_at (sw_sup w') j)" if "j < workers w'" for j
    using gatesD(1) [OF r that] c_ready_done(5) that c_ready_done(1) by (simp add: gate_ok_def all_in_state_def list_all_length)
  then have "all_accepted w'" by (simp add: all_accepted_def)
  then show ?thesis using r c_ready_done(1) by (simp add: gates_at_def)
next
  case (c_activation r s)
  then show ?thesis using activation_gates g by simp
next
  case (c_monitor failed r s)
  have "quiet_sup (sw_sup w) s" "settled s"
    using operations_quiet(3) [OF c_monitor(3)] settled_quiet gatesD(5) [OF g] c_monitor by auto
  then show ?thesis using c_monitor by (intro gates_quiet [OF g]) (auto split: monitor_begin.splits)
next
  case (c_stop_instance target)
  then show ?thesis
    using operations_quiet(9) settled_quiet [OF _ operations_quiet(9)] gatesD(5) [OF g] by (intro gates_quiet [OF g]) auto
next
  case (c_visit k progressed deadline)
  then show ?thesis
    using gatesD(5) [OF g] visit_gates [of k progressed deadline w] g by (intro gates_quiet [OF g]) (auto split: option.splits)
next
  case (c_visit_ready k progressed deadline r s eps)
  have r: "gates_at SupMonitorRound w'"
    using monitor_ready_gates [of k progressed deadline w r s eps] c_visit_ready g lifecycleD(5) [OF l] by simp
  then have "settled s" using c_visit_ready(1) by (simp add: gates_at_def)
  then show ?thesis using r c_visit_ready(1) by (cases r) (simp_all add: gates_at_def)
next
  case (c_visit_activated k progressed deadline)
  then show ?thesis using gatesD(5) [OF g] by (intro gates_quiet [OF g]) (auto simp: awaits_release_def)
next
  case (c_release k progressed deadline now r s)
  have r: "gates_at SupMonitorRound w'"
    using monitor_activated_gates [of k progressed deadline w now r s] c_release g lifecycleD(5) [OF l] by simp
  then have "settled s" using c_release(1) by (simp add: gates_at_def)
  then show ?thesis using r c_release(1) by (cases r) (simp_all add: gates_at_def)
next
  case (c_rest k progressed deadline now r s)
  have q: "quiet_sup (sw_sup w) s" "settled s"
    using operations_quiet(4) [OF c_rest(3)] settled_quiet gatesD(5) [OF g] c_rest by auto
  have "sv_data_plane_released s" if "r = RestRestarts"
  proof -
    have "s = sw_sup w" "wr_state (rec_at (sw_sup w) k) = RecBackoff"
      using c_rest(3) that by (auto simp: monitor_rest_def Let_def split: if_splits)
    then show ?thesis using settled_released [of "sw_sup w" k] q lifecycleD(5) [OF l] c_rest(2) by (simp add: resting_def)
  qed
  then show ?thesis using c_rest q by (intro gates_quiet [OF g]) (auto simp: site_gates_def split: rest_step.splits)
next
  case (c_wait deadline)
  then show ?thesis using gatesD(5) [OF g] by (intro gates_quiet [OF g]) simp_all
next
  case (c_health pc)
  have s: "quiet_sup (sw_sup w) (publish_health (sw_sup w))" "sv_records (publish_health (sw_sup w)) = sv_records (sw_sup w)"
    by (rule operations_quiet) (simp add: publish_health_def)
  have "steady w w'" using c_health(1) s by (intro quiet_steady) simp_all
  moreover have "pc_ok w pc" "pc_gates w pc" using lifecycleD(5) [OF l] gatesD(5) [OF g] c_health(2) by simp_all
  moreover have "rec_at (sw_sup w') k = rec_at (sw_sup w) k" for k using c_health(1) s(2) by simp
  ultimately have "pc_gates w' pc" by (metis pc_steady)
  then show ?thesis using c_health s by (intro gates_quiet [OF g]) simp_all
next
  case (c_handle k failure r s)
  have "quiet_sup (sw_sup w) s" "settled s"
    using operations_quiet(5) [OF c_handle(3)] settled_quiet gatesD(5) [OF g] c_handle by auto
  then show ?thesis using c_handle by (intro gates_quiet [OF g]) (auto split: option.splits)
next
  case (c_handled k failure now r s)
  have r: "gates_at SupMonitorRound w'"
    using handled_gates [of k failure w now r s] c_handled g lifecycleD(5) [OF l] by simp
  then show ?thesis using c_handled(1) by (cases r) (simp_all add: gates_at_def)
next
  case (c_fail failure report s)
  then show ?thesis using operations_quiet(6) by (intro gates_quiet [OF g]) simp_all
next
  case (c_report report failure)
  then show ?thesis using operations_quiet(11) by (intro gates_quiet [OF g]) simp_all
next
  case (c_join_begin k site r s)
  have q: "quiet_sup (sw_sup w) s" by (rule operations_quiet(7) [OF c_join_begin(3)])
  have "settled s" if "site = JoinFailure f" for f using settled_quiet [OF _ q] gatesD(5) [OF g] c_join_begin(2) that by simp
  then have "pc_gates w' (joined False k site)" "pc_gates w' (SupJoins JoinWaits k site)"
    using p lifecycleD(5) [OF l] c_join_begin(1,2) by (auto intro: joined_gates split: join_site.splits)
  then have "pc_gates w' (sw_pc w')" using c_join_begin(1) by (cases r) (simp_all del: pc_gates.simps)
  then show ?thesis using c_join_begin(1) q by (intro gates_quiet [OF g]) simp_all
next
  case (c_join_wait k site)
  have k: "k < workers w" using lifecycleD(5) [OF l] c_join_wait(2) by simp
  have q: "quiet_sup (sw_sup w) (join_joined k (sw_sup w))" by (rule operations_quiet)
  have "wr_state (rec_at (join_joined k (sw_sup w)) k) = RecJoined" using k by (simp add: join_joined_def Let_def)
  then show ?thesis
    using c_join_wait gatesD(5) [OF g] settled_quiet [OF _ q] q by (intro gates_quiet [OF g]) (auto split: join_site.splits)
next
  case (c_join_destroy k site)
  then show ?thesis using join_reset_gates g p lifecycleD(5) [OF l] by simp
next
  case (c_join_quiesce k site pub eps)
  then show ?thesis using join_quiesce_gates g p l by simp
next
  case (c_join_end k site)
  then show ?thesis using join_end_gates g p lifecycleD(5) [OF l] by simp
next
  case (c_action a rest exit pc s)
  then show ?thesis using run_action_gates g by simp
next
  case (c_exit exit)
  then show ?thesis
    using gatesD(5) [OF g] by (intro gates_quiet [OF g]) (auto simp: run_exit_def split: sup_exit.splits)
qed

section \<open>Steps of the workers and of the environment\<close>

definition same_gates :: "worker_record \<Rightarrow> worker_record \<Rightarrow> bool" where
  "same_gates r r' \<longleftrightarrow> wr_instance_id r' = wr_instance_id r \<and> (wr_instance r' = None \<longleftrightarrow> wr_instance r = None) \<and> wr_state r' = wr_state r
     \<and> wr_activation_allowed r' = wr_activation_allowed r \<and> wr_data_plane_allowed r' = wr_data_plane_allowed r
     \<and> (ready_ok r \<longrightarrow> ready_ok r') \<and> (ac_published (wr_activated r) \<longrightarrow> wr_activated r' = wr_activated r)
     \<and> (ac_published (wr_activated r') \<longrightarrow> wr_activated r' = wr_activated r \<or> ac_instance (wr_activated r') = wr_instance_id r)"

lemma same_gatesD:
  assumes s: "same_gates r r'" and g: "gate_ok rel reg r" and t: "\<And>t. wr_thread r' = Some t \<Longrightarrow> thread_gates r' (wt_pc t)"
  shows "gate_ok rel reg r'" "accepted reg r \<Longrightarrow> accepted reg r'" "fresh_record r \<Longrightarrow> fresh_record r'" "wr_state r' = wr_state r" "ready_ok r \<Longrightarrow> ready_ok r'"
proof -
  show a: "accepted reg r \<Longrightarrow> accepted reg r'" and "fresh_record r \<Longrightarrow> fresh_record r'" "wr_state r' = wr_state r" "ready_ok r \<Longrightarrow> ready_ok r'"
    using s by (auto simp: same_gates_def accepted_def fresh_record_def)
  have c: "ac_published (wr_activated r') \<longrightarrow> ac_instance (wr_activated r') = wr_instance_id r'"
    using s g unfolding same_gates_def gate_ok_def by metis
  show "gate_ok rel reg r'"
    using s g t a c unfolding gate_ok_def same_gates_def by simp
qed

lemma thread_gates_keep: "thread_gates r pc \<Longrightarrow> same_gates r r' \<Longrightarrow> thread_gates r' pc"
  unfolding thread_gates_def same_gates_def by metis

lemma worker_step_gates:
  assumes step: "worker_step k t w w'" and k: "k < workers w" "wr_thread (rec_at (sw_sup w) k) = Some t"
    and g: "gate_ok rel reg (rec_at (sw_sup w) k)" and i: "wt_instance t = wr_instance_id (rec_at (sw_sup w) k)"
  shows "same_gates (rec_at (sw_sup w) k) (rec_at (sw_sup w') k) \<and> (\<forall>u. wr_thread (rec_at (sw_sup w') k) = Some u \<longrightarrow> thread_gates (rec_at (sw_sup w') k) (wt_pc u))"
proof -
  have th: "thread_gates (rec_at (sw_sup w) k) (wt_pc t)" using g k(2) by (simp add: gate_ok_def)
  have ac: "ac_published (wr_activated (rec_at (sw_sup w) k)) \<Longrightarrow> ac_instance (wr_activated (rec_at (sw_sup w) k)) = wr_instance_id (rec_at (sw_sup w) k)"
    using g by (simp add: gate_ok_def)
  note simps = set_worker_pc_record same_gates_def thread_gates_def ready_ok_def
  from step show ?thesis
  proof cases
    case (w_report_ready r)
    then show ?thesis using k th
      by (auto simp: simps report_worker_ready_def after_ready_def Let_def stop_source_def split: if_splits)
  next
    case (w_activation_gate a)
    then show ?thesis using k th
      by (cases a) (auto simp: simps after_gate_def await_worker_activation_def Let_def split: if_splits)
  next
    case (w_data_gate a)
    then show ?thesis using k th
      by (cases a) (auto simp: simps after_gate_def await_worker_data_plane_def Let_def split: if_splits)
  next
    case (w_report_activated)
    then show ?thesis using k th i ac by (auto simp: simps report_worker_activated_def)
  next
    case (w_complete r)
    then show ?thesis using k th by (auto simp: simps report_worker_completion_def)
  next
    case (w_sync r w1)
    then show ?thesis using k th worker_refresh_frame [OF w_sync(3)] by (auto simp: simps)
  next
    case (w_activation_refresh r w1)
    then show ?thesis using k th worker_refresh_frame [OF w_activation_refresh(3)] by (auto simp: simps)
  next
    case (w_data_refresh r w1)
    then show ?thesis using k th worker_refresh_frame [OF w_data_refresh(3)] by (auto simp: simps)
  next
    case (w_serve_refresh i r w1)
    then show ?thesis using k th worker_refresh_frame [OF w_serve_refresh(6)] by (auto simp: simps)
  qed (use k th in \<open>auto simp: simps\<close>)
qed

lemma gates_records:
  assumes g: "gates_at pc w" and l: "pc_ok w pc" and n: "workers w' = workers w" "sv_startup (sw_sup w') = sv_startup (sw_sup w)"
    "sv_activation (sw_sup w') = sv_activation (sw_sup w)" "sv_data_plane_released (sw_sup w') = sv_data_plane_released (sw_sup w)"
    "\<And>k. registration_of w' k = registration_of w k"
    and r: "\<And>k. k < workers w \<Longrightarrow> same_gates (rec_at (sw_sup w) k) (rec_at (sw_sup w') k)"
    and t: "\<And>k u. k < workers w \<Longrightarrow> wr_thread (rec_at (sw_sup w') k) = Some u \<Longrightarrow> thread_gates (rec_at (sw_sup w') k) (wt_pc u)"
  shows "gates_at pc w'"
proof -
  note d = same_gatesD [OF r gatesD(1) [OF g] t]
  have "steady w w'" using n d(2,4,5) by (simp add: steady_def)
  then have pc: "pc_gates w' pc" using d(3) by (rule pc_steady [OF _ l _ gatesD(5) [OF g]])
  have "startup_succeeded (sw_sup w') = startup_succeeded (sw_sup w)" "activating (sw_sup w') = activating (sw_sup w)"
    using n by (simp_all add: startup_succeeded_def activating_def)
  then show ?thesis
    using gatesD(2,3,4) [OF g] d(1,2) n pc by (simp add: gates_at_def all_accepted_def)
qed

lemma same_gates_refl [simp]: "same_gates r r"
  by (simp add: same_gates_def)

lemma gates_eq:
  assumes g: "gates_at pc w" and l: "pc_ok w pc" and n: "sv_records (sw_sup w') = sv_records (sw_sup w)" "sv_startup (sw_sup w') = sv_startup (sw_sup w)"
    "sv_activation (sw_sup w') = sv_activation (sw_sup w)" "sv_data_plane_released (sw_sup w') = sv_data_plane_released (sw_sup w)"
    "\<And>k. registration_of w' k = registration_of w k"
  shows "gates_at pc w'"
  using n gatesD(1) [OF g] by (intro gates_records [OF g l]) (simp_all add: gate_ok_def)

lemma worker_gates:
  assumes g: "gates_at (sw_pc w) w" and l: "lifecycle_at (sw_pc w) w" and step: "worker_step k t w w'" and k: "k < workers w" "wr_thread (rec_at (sw_sup w) k) = Some t"
  shows "gates_at (sw_pc w') w'"
proof -
  note c = worker_step_changes [OF step k(1) lifecycleD(1) [OF l] k(2)]
  have i: "wt_instance t = wr_instance_id (rec_at (sw_sup w) k)" using lifecycleD(3) [OF l k(1)] k(2) by (simp add: record_ok_def Let_def)
  note s = worker_step_gates [OF step k gatesD(1) [OF g k(1)] i]
  have e: "registration_of w' j = registration_of w j" for j using worker_step_pub [OF step k(1) lifecycleD(1) [OF l]] by auto
  have "same_gates (rec_at (sw_sup w) j) (rec_at (sw_sup w') j)" if "j < workers w" for j
    using s c that by (cases "j = k") simp_all
  moreover have "thread_gates (rec_at (sw_sup w') j) (wt_pc u)" if "j < workers w" "wr_thread (rec_at (sw_sup w') j) = Some u" for j u
    using s c that gatesD(1) [OF g that(1)] by (cases "j = k") (simp_all add: gate_ok_def)
  moreover have "sw_pc w' = sw_pc w" using c by blast
  ultimately show ?thesis using c e by (simp, intro gates_records [OF g lifecycleD(5) [OF l]]) simp_all
qed

lemma activate_gates:
  assumes g: "gates_at pc w" and l: "pc_ok w pc" and c: "request_activation (sw_sup w) = (b, s)"
  shows "gates_at pc (set_sup s w)"
proof (cases b)
  case False
  then show ?thesis using c by (intro gates_eq [OF g l]) (auto simp: request_activation_def split: if_splits)
next
  case True
  let ?f = "\<lambda>r. r\<lparr>wr_activation_allowed := True\<rparr>"
  have a: "activating (sw_sup w)" and s: "s = (sw_sup w)\<lparr>sv_activation_requested := True, sv_records := map ?f (sv_records (sw_sup w))\<rparr>"
    using c True by (auto simp: request_activation_def activating_def split: if_splits)
  have acc: "accepted (registration_of w k) (rec_at (sw_sup w) k)" if "k < workers w" for k
    using gatesD(4) [OF g a] that by (simp add: all_accepted_def)
  have f: "accepted reg (?f r) = accepted reg r" "accepted reg r \<Longrightarrow> gate_ok rel reg r \<Longrightarrow> gate_ok rel reg (?f r)" "ready_ok (?f r) = ready_ok r" for rel reg r
    by (auto simp: accepted_def gate_ok_def ready_ok_def thread_gates_def)
  have "steady w (set_sup s w)" using f by (simp add: steady_def s)
  moreover have "\<not> site_gates site (sw_sup w)" for site using site_not_activating [OF g] a by blast
  ultimately have "pc_gates (set_sup s w) pc" using pc_steady [OF _ l _ gatesD(5) [OF g]] by blast
  moreover have "activating s" "startup_succeeded s = startup_succeeded (sw_sup w)" using a by (simp_all add: s activating_def startup_succeeded_def)
  ultimately show ?thesis
    using gatesD(1-3) [OF g] acc f by (simp add: gates_at_def all_accepted_def s)
qed

lemma release_gates:
  assumes g: "gates_at pc w" and l: "pc_ok w pc" and c: "release_data_plane (sw_sup w) = (r, s)"
  shows "gates_at pc (set_sup s w)"
proof (cases "s = sw_sup w")
  case True
  then show ?thesis by (intro gates_eq [OF g l]) simp_all
next
  case False
  let ?f = "\<lambda>r. r\<lparr>wr_data_plane_allowed := True\<rparr>"
  have a: "sv_activation (sw_sup w) = Some (Inr ())" "\<not> sv_data_plane_released (sw_sup w)" "sv_records s = map ?f (sv_records (sw_sup w))"
    "sv_data_plane_released s" "sv_startup s = sv_startup (sw_sup w)" "sv_activation s = sv_activation (sw_sup w)"
    using c False by (auto simp: release_data_plane_def split: if_splits option.splits)
  have f: "accepted reg (?f r) = accepted reg r" "gate_ok rel reg r \<Longrightarrow> gate_ok True reg (?f r)" "ready_ok (?f r) = ready_ok r" for rel reg r
    by (auto simp: accepted_def gate_ok_def ready_ok_def thread_gates_def)
  have "steady w (set_sup s w)" using f a by (simp add: steady_def)
  moreover have "\<not> site_gates site (sw_sup w)" for site
    using a(1,2) by (cases site) (simp_all add: site_gates_def unpublished_def)
  ultimately have "pc_gates (set_sup s w) pc" using pc_steady [OF _ l _ gatesD(5) [OF g]] by blast
  moreover have "\<not> activating s" "startup_succeeded s" using a gatesD(3) [OF g a(1)] by (simp_all add: activating_def startup_succeeded_def)
  ultimately show ?thesis
    using f(2) [OF gatesD(1) [OF g]] a by (simp add: gates_at_def)
qed

lemma sup_env_gates:
  assumes step: "sup_env_step w w'" and g: "gates_at (sw_pc w) w" and l: "pc_ok w (sw_pc w)"
  shows "gates_at (sw_pc w') w'"
  using step
proof cases
  case (e_publication p)
  then show ?thesis by (simp, intro gates_eq [OF g l]) simp_all
next
  case (e_stopper j t s)
  have "sv_records s = sv_records (sw_sup w)" "sv_startup s = sv_startup (sw_sup w)" "sv_activation s = sv_activation (sw_sup w)"
    "sv_data_plane_released s = sv_data_plane_released (sw_sup w)"
    using e_stopper(4) by (auto simp: stopper_step_def stop_source_def split: stopper.splits if_splits)
  then show ?thesis using e_stopper by (simp, intro gates_eq [OF g l]) simp_all
next
  case (e_activate r s)
  then show ?thesis using activate_gates [OF g l] by simp
next
  case (e_release r s)
  then show ?thesis using release_gates [OF g l] by simp
next
  case (e_emergency exit)
  then show ?thesis by (intro gates_quiet [OF g]) simp_all
next
  case (e_precommit_failure k r s)
  have "same_gates (rec_at (sw_sup w) j) (rec_at s j) \<and> wr_thread (rec_at s j) = wr_thread (rec_at (sw_sup w) j)" if "j < workers w" for j
    using e_precommit_failure(3) that
    by (cases "j = k") (auto simp: inject_worker_precommit_failure_for_testing_def same_gates_def ready_ok_def split: if_splits)
  moreover have "thread_gates (rec_at s j) pc" if "thread_gates (rec_at (sw_sup w) j) pc" "same_gates (rec_at (sw_sup w) j) (rec_at s j)" for j pc
    using thread_gates_keep that by blast
  moreover have "length (sv_records s) = workers w" "sv_startup s = sv_startup (sw_sup w)" "sv_activation s = sv_activation (sw_sup w)"
    "sv_data_plane_released s = sv_data_plane_released (sw_sup w)"
    using e_precommit_failure(3) by (auto simp: inject_worker_precommit_failure_for_testing_def split: if_splits)
  ultimately show ?thesis
    using e_precommit_failure gatesD(1) [OF g] by (simp, intro gates_records [OF g l]) (simp_all add: gate_ok_def)
next
  case (e_unexpected_stop k r s)
  then show ?thesis
    by (simp, intro gates_eq [OF g l]) (auto simp: inject_worker_unexpected_stop_for_testing_def split: if_splits)
qed (use g l in \<open>(simp, intro gates_eq [OF g l];
    simp add: snapshot_published_def request_stop_def inject_abrupt_exit_for_testing_def
      inject_abrupt_exit_after_next_publication_for_testing_def inject_emergency_join_failure_once_for_testing_def)+\<close>)

lemma sup_gates:
  assumes "sup_reachable config initial n timeout w"
  shows "gates_at (sw_pc w) w"
  using assms
proof induction
  case (sup_new p s p')
  then show ?case
    by (auto simp: gates_at_def new_supervisor_def new_record_def gate_ok_def no_activation_def unpublished_def activating_def startup_succeeded_def)
next
  case (sup_then w w')
  have l: "lifecycle_at (sw_pc w) w" using sup_lifecycle [OF sup_then(1)] by blast
  from sup_then(2) show ?case
  proof cases
    case supervisor_moves
    then show ?thesis by (rule sup_thread_gates [OF _ sup_then.IH l sup_results [OF sup_then(1)]])
  next
    case (worker_moves k t)
    then show ?thesis using worker_gates [OF sup_then.IH l] by blast
  next
    case other_moves
    then show ?thesis by (rule sup_env_gates [OF _ sup_then.IH lifecycleD(5) [OF l]])
  qed
qed

section \<open>Only released workers serve\<close>

text \<open>
  C4. Safety: no worker answers clients before the service has released it.  While a worker is in its event
  loop, the startup and the activation of the service have succeeded and the data plane has been released;
  this very instance has reported that it is ready and activated, was let through both gates, and is
  registered with the publication, with a snapshot of its own.  This holds of replacements too, which are
  created while the service runs.
\<close>

theorem only_released_workers_serve:
  assumes "sup_reachable config initial n timeout w" and "k < workers w"
    and "wr_thread (rec_at (sw_sup w) k) = Some t" and "wt_pc t = WorkerServes"
  shows "sv_data_plane_released (sw_sup w) \<and> sv_activation (sw_sup w) = Some (Inr ()) \<and> startup_succeeded (sw_sup w)
    \<and> wr_activation_allowed (rec_at (sw_sup w) k) \<and> wr_data_plane_allowed (rec_at (sw_sup w) k)
    \<and> ry_outcome (rd_result (wr_ready (rec_at (sw_sup w) k))) = WorkerIsReady
    \<and> rd_instance (wr_ready (rec_at (sw_sup w) k)) = wt_instance t \<and> ac_instance (wr_activated (rec_at (sw_sup w) k)) = wt_instance t
    \<and> we_registration (sw_epochs w k) = Registered \<and> we_instance (sw_epochs w k) = wt_instance t
    \<and> pw_locals (sw_pub w) ! k \<noteq> None"
proof -
  have l: "lifecycle_at (sw_pc w) w" using sup_lifecycle [OF assms(1)] by blast
  note g = sup_gates [OF assms(1)]
  have o: "gate_ok (sv_data_plane_released (sw_sup w)) (registration_of w k) (rec_at (sw_sup w) k)" by (rule gatesD(1) [OF g assms(2)])
  have r: "wt_instance t = wr_instance_id (rec_at (sw_sup w) k)" "wr_instance (rec_at (sw_sup w) k) \<noteq> None"
    "we_instance (sw_epochs w k) = wt_instance t" "pw_locals (sw_pub w) ! k \<noteq> None"
    using lifecycleD(3) [OF l assms(2)] assms(3) by (simp_all add: record_ok_def Let_def holds_snapshot_def)
  have "thread_gates (rec_at (sw_sup w) k) WorkerServes" using o assms(3,4) unfolding gate_ok_def by metis
  then have t: "wr_activation_allowed (rec_at (sw_sup w) k)" "wr_data_plane_allowed (rec_at (sw_sup w) k)"
    "ac_instance (wr_activated (rec_at (sw_sup w) k)) = wr_instance_id (rec_at (sw_sup w) k)"
    by (simp_all add: thread_gates_def)
  have "accepted (registration_of w k) (rec_at (sw_sup w) k)" "sv_data_plane_released (sw_sup w)"
    using o t r(2) by (simp_all add: gate_ok_def)
  then show ?thesis using t r gatesD(2,3) [OF g] by (simp add: accepted_def ready_ok_def)
qed

end
