(* ===== verification/SupervisorRecovery.thy ===== *)
theory SupervisorRecovery
  imports SupervisorGates
begin

text \<open>
  The restart budget of \<open>src/WorkerSupervisor.cpp\<close> (\<open>monitor_workers\<close>, \<open>handle_worker_failure\<close>,
  \<open>create_worker\<close>): runs of the supervisor with an outside record of the replacements in a row, the steps that
  leave the restarts of a worker alone, and the bound.
\<close>

section \<open>Runs with a record of the restarts\<close>

text \<open>The places in which the supervisor decides on the restarts of a worker.\<close>

fun recovery_pc :: "nat \<Rightarrow> sup_pc \<Rightarrow> bool" where
  "recovery_pc k (SupCreates site j port) \<longleftrightarrow> site = AtRecovery \<and> j = k"
| "recovery_pc k (SupProbedActivated j p d) \<longleftrightarrow> j = k"
| "recovery_pc k (SupVisitsRest j p d) \<longleftrightarrow> j = k"
| "recovery_pc k (SupHandles j f) \<longleftrightarrow> j = k"
| "recovery_pc k _ \<longleftrightarrow> False"

text \<open>
  The instant from which an instance that was released at \<open>released\<close> counts as stable, and when the
  creation of a replacement is admitted.
\<close>

definition stability_instant :: "int \<Rightarrow> sup_world \<Rightarrow> int" where
  "stability_instant released w = deadline_after released (rc_stability_window (cfg_recovery (sv_config (sw_sup w))))"

definition admits_creation :: "supervisor \<Rightarrow> bool" where
  "admits_creation s \<longleftrightarrow> \<not> sv_abrupt_exit s \<and> \<not> stop_requested_locked s"

text \<open>
  A run of the supervisor together with a record that is kept for worker \<open>k\<close> outside of the program: the
  number of replacements that were admitted in a row and the instant in which the present instance was
  released.  An admitted creation (\<open>rr_create\<close>) adds one.  The number goes back to zero only when the
  worker has been running past its stability instant: the supervisor sees it running, with no completion,
  at a time \<open>now\<close> that is not earlier (\<open>rr_rest\<close>), or it handles a failure of a running worker whose
  completion carries a time that is not earlier (\<open>rr_handle\<close>).  No other step touches the number.
\<close>

inductive recovery_run :: "supervisor_config \<Rightarrow> filter_snapshot \<Rightarrow> nat \<Rightarrow> int \<Rightarrow> nat \<Rightarrow> nat \<Rightarrow> int \<Rightarrow> sup_world \<Rightarrow> bool"
  for config initial n timeout k where
  rr_new:
    "new_publication (Some initial) n timeout = Some p \<Longrightarrow> new_supervisor config n p = (s, p')
     \<Longrightarrow> recovery_run config initial n timeout k 0 0 \<lparr>sw_pub = \<lparr>pw_pub = p',
           pw_epochs = (\<lambda>_. \<lparr>we_instance = 0, we_observed = kUnobservedFilterGeneration, we_registration = Unregistered, we_quiesced = 0\<rparr>),
           pw_locals = replicate n None, pw_destroying = None\<rparr>, sw_sup = s, sw_pc = SupIdle, sw_stoppers = [],
           sw_join_failed = False\<rparr>"
| rr_worker:
    "recovery_run config initial n timeout k c a w \<Longrightarrow> j < length (sv_records (sw_sup w))
     \<Longrightarrow> wr_thread (rec_at (sw_sup w) j) = Some t \<Longrightarrow> worker_step j t w w' \<Longrightarrow> recovery_run config initial n timeout k c a w'"
| rr_other: "recovery_run config initial n timeout k c a w \<Longrightarrow> sup_env_step w w' \<Longrightarrow> recovery_run config initial n timeout k c a w'"
| rr_thread:
    "recovery_run config initial n timeout k c a w \<Longrightarrow> sup_thread_step w w' \<Longrightarrow> \<not> recovery_pc k (sw_pc w)
     \<Longrightarrow> recovery_run config initial n timeout k c a w'"
| rr_create:
    "recovery_run config initial n timeout k c a w \<Longrightarrow> sw_pc w = SupCreates AtRecovery k port
     \<Longrightarrow> create_worker_begin k (sw_sup w) = (r, s)
     \<Longrightarrow> recovery_run config initial n timeout k (if admits_creation (sw_sup w) then c + 1 else c) a
           (goto (after_create r (create_failed AtRecovery k) (SupRegisters AtRecovery k port)) s w)"
| rr_release:
    "recovery_run config initial n timeout k c a w \<Longrightarrow> sw_pc w = SupProbedActivated k progressed deadline
     \<Longrightarrow> monitor_activated now k (sw_sup w) = (r, s)
     \<Longrightarrow> recovery_run config initial n timeout k c (if r = VisitContinues then now else a)
           (goto (case r of VisitReturns result \<Rightarrow> monitor_returns result | VisitBreaks \<Rightarrow> SupMonitorRound
             | _ \<Rightarrow> SupHealth (SupVisitsRest k True deadline)) s w)"
| rr_rest:
    "recovery_run config initial n timeout k c a w \<Longrightarrow> sw_pc w = SupVisitsRest k progressed deadline
     \<Longrightarrow> monitor_rest now deadline k (sw_sup w) = (r, s)
     \<Longrightarrow> recovery_run config initial n timeout k
           (if wr_state (rec_at (sw_sup w) k) = RecRunning \<and> \<not> cp_published (wr_completion (rec_at (sw_sup w) k))
               \<and> stability_instant a w \<le> now then 0 else c) a
           (goto (case r of RestBreaks \<Rightarrow> SupMonitorRound | RestNext d \<Rightarrow> visit_next k progressed d s
             | RestRestarts \<Rightarrow> SupCreates AtRecovery k (sv_bound_port s)) s w)"
| rr_handle:
    "recovery_run config initial n timeout k c a w \<Longrightarrow> sw_pc w = SupHandles k failure
     \<Longrightarrow> handle_worker_failure_begin k failure (sw_sup w) = (r, s)
     \<Longrightarrow> recovery_run config initial n timeout k
           (if r = None \<and> wr_state (rec_at (sw_sup w) k) = RecRunning
               \<and> stability_instant a w \<le> cp_completed_at (wr_completion (rec_at (sw_sup w) k)) then 0 else c) a
           (goto (case r of Some result \<Rightarrow> monitor_returns result
             | None \<Rightarrow> SupHealth (SupJoins JoinBegins k (JoinFailure failure))) s w)"

lemma recovery_run_reachable:
  "recovery_run config initial n timeout k c a w \<Longrightarrow> sup_reachable config initial n timeout w"
proof (induction rule: recovery_run.induct)
  case (rr_create c a w port r s)
  then show ?case using c_create sup_then supervisor_moves by metis
next
  case (rr_release c a w progressed deadline now r s)
  then show ?case using c_release sup_then supervisor_moves by metis
next
  case (rr_rest c a w progressed deadline now r s)
  then show ?case using c_rest sup_then supervisor_moves by metis
next
  case (rr_handle c a w failure r s)
  then show ?case using c_handle sup_then supervisor_moves by metis
qed (blast intro: sup_new sup_then supervisor_moves worker_moves other_moves)+

text \<open>Every run of the supervisor has such a record, for every worker.\<close>

lemma reachable_recovery_run:
  assumes "sup_reachable config initial n timeout w"
  shows "\<exists>c a. recovery_run config initial n timeout k c a w"
  using assms
proof induction
  case (sup_new p s p')
  then show ?case using rr_new by blast
next
  case (sup_then w w')
  then obtain c a where h: "recovery_run config initial n timeout k c a w" by blast
  from sup_then(2) show ?case
  proof cases
    case supervisor_moves
    show ?thesis
    proof (cases "recovery_pc k (sw_pc w)")
      case True
      from supervisor_moves show ?thesis
      proof cases
        case (c_create site j port r s)
        then show ?thesis using rr_create [OF h] True by auto
      next
        case (c_release j progressed deadline now r s)
        then have "j = k" using True by simp
        with c_release show ?thesis using rr_release [OF h] by blast
      next
        case (c_rest j progressed deadline now r s)
        then have "j = k" using True by simp
        with c_rest show ?thesis using rr_rest [OF h] by blast
      next
        case (c_handle j failure r s)
        then have "j = k" using True by simp
        with c_handle show ?thesis using rr_handle [OF h] by blast
      qed (use True in simp_all)
    qed (use rr_thread [OF h] supervisor_moves in blast)
  next
    case (worker_moves j t)
    then show ?thesis using rr_worker [OF h] by blast
  next
    case other_moves
    then show ?thesis using rr_other [OF h] by blast
  qed
qed

section \<open>Steps that leave the restarts of a worker alone\<close>

definition recovery_frame :: "worker_record \<Rightarrow> worker_record \<Rightarrow> bool" where
  "recovery_frame r r' \<longleftrightarrow> wr_recovery_attempts r' = wr_recovery_attempts r \<and> wr_recovery_episode r' = wr_recovery_episode r
     \<and> (wr_state r' = RecRunning \<and> wr_recovery_episode r \<longrightarrow> wr_state r = RecRunning \<and> wr_stable_at r' = wr_stable_at r)"

definition recovery_kept :: "nat \<Rightarrow> supervisor \<Rightarrow> supervisor \<Rightarrow> bool" where
  "recovery_kept k s s' \<longleftrightarrow> recovery_frame (rec_at s k) (rec_at s' k) \<and> sv_config s' = sv_config s
     \<and> length (sv_records s') = length (sv_records s) \<and> (sv_data_plane_released s \<longrightarrow> sv_data_plane_released s')"

lemma recovery_frame_refl [simp]: "recovery_frame r r"
  by (simp add: recovery_frame_def)

lemma recovery_kept_refl [simp]: "recovery_kept k s s"
  by (simp add: recovery_kept_def)

lemma recovery_kept_eqI:
  "sv_records s' = sv_records s \<Longrightarrow> sv_config s' = sv_config s
     \<Longrightarrow> sv_data_plane_released s' = sv_data_plane_released s \<Longrightarrow> recovery_kept k s s'"
  by (simp add: recovery_kept_def)

lemma recovery_kept_on:
  assumes "k < length (sv_records s)" and "j = k \<Longrightarrow> recovery_frame (rec_at s k) (f (rec_at s k))"
  shows "recovery_kept k s (on_record j f s)"
  using assms by (cases "j = k") (simp_all add: recovery_kept_def on_record_def)

lemma recovery_kept_map:
  assumes "k < length (sv_records s)" and "sv_records s' = map f (sv_records s)" and "sv_config s' = sv_config s"
    and "sv_data_plane_released s \<longrightarrow> sv_data_plane_released s'" and "recovery_frame (rec_at s k) (f (rec_at s k))"
  shows "recovery_kept k s s'"
  using assms by (simp add: recovery_kept_def)

lemma operations_keep_recovery:
  assumes k: "k < length (sv_records s)"
  shows "run_begin_supervisor s = (x1, s') \<Longrightarrow> recovery_kept k s s'"
    "start_worker_thread_begin j s = (c, s') \<Longrightarrow> recovery_kept k s s'"
    "start_worker_thread_spawn j refused s = (c, s') \<Longrightarrow> recovery_kept k s s'"
    "monitor_round_begin failed s = (x4, s') \<Longrightarrow> recovery_kept k s s'"
    "fail_worker_service_begin f s = (b, s') \<Longrightarrow> recovery_kept k s s'"
    "recovery_kept k s (stop_instance target s)" "recovery_kept k s (publish_health s)" "recovery_kept k s (fail_worker_service_report report f s)"
    "run_action a rest exit s = (pc, s') \<Longrightarrow> recovery_kept k s s'"
    "stopper_step t s = (t', s') \<Longrightarrow> recovery_kept k s s'"
proof -
  show "run_begin_supervisor s = (x1, s') \<Longrightarrow> recovery_kept k s s'"
    by (auto simp: run_begin_supervisor_def intro!: recovery_kept_eqI split: if_splits)
  show "start_worker_thread_begin j s = (c, s') \<Longrightarrow> recovery_kept k s s'"
    using k by (auto simp: start_worker_thread_begin_def Let_def recovery_frame_def intro!: recovery_kept_on split: if_splits)
  show "start_worker_thread_spawn j refused s = (c, s') \<Longrightarrow> recovery_kept k s s'"
    using k by (auto simp: start_worker_thread_spawn_def recovery_frame_def intro!: recovery_kept_on split: option.splits)
  show "monitor_round_begin failed s = (x4, s') \<Longrightarrow> recovery_kept k s s'"
  proof -
    assume m: "monitor_round_begin failed s = (x4, s')"
    obtain e rs where q: "request_filter_refreshes failed 0 (sv_records s) = (e, rs)" by fastforce
    have r: "length rs = length (sv_records s)" "recovery_frame (sv_records s ! k) (rs ! k)"
      using refreshes_same [OF q] k by (force simp: recovery_frame_def)+
    have "sv_records s' = sv_records s \<or> sv_records s' = rs" "sv_config s' = sv_config s"
      "sv_data_plane_released s' = sv_data_plane_released s"
      using m by (auto simp: monitor_round_begin_def q Let_def split: if_splits option.splits prod.splits)
    then show ?thesis using r by (auto simp: recovery_kept_def)
  qed
  show "fail_worker_service_begin f s = (b, s') \<Longrightarrow> recovery_kept k s s'"
    by (auto simp: fail_worker_service_begin_def recovery_kept_def)
  show "recovery_kept k s (stop_instance target s)" "recovery_kept k s (publish_health s)" "recovery_kept k s (fail_worker_service_report report f s)"
    using k by (auto simp: stop_instance_def publish_health_def fail_worker_service_report_def recovery_frame_def
        intro!: recovery_kept_on recovery_kept_eqI)
  show st: "stopper_step t s = (t', s') \<Longrightarrow> recovery_kept k s s'" for t t'
    by (auto simp: stopper_step_def intro!: recovery_kept_eqI split: stopper.splits if_splits)
  show "run_action a rest exit s = (pc, s') \<Longrightarrow> recovery_kept k s s'"
    using st by (auto simp: run_action_def publish_startup_def publish_activation_def finish_supervisor_run_def request_stop_def
        intro!: recovery_kept_eqI split: sup_action.splits if_splits prod.splits)
qed

lemma join_keeps_recovery:
  assumes k: "k < length (sv_records s)"
  shows "join_begin j s = (r, s') \<Longrightarrow> recovery_kept k s s'" "recovery_kept k s (join_joined j s)"
    "recovery_kept k s (join_reset j s)" "recovery_kept k s (join_end j s)"
proof -
  show "recovery_kept k s s'" if b: "join_begin j s = (r, s')"
  proof -
    let ?s = "stop_source (source_of s j) s"
    have "recovery_kept k ?s (on_record j (\<lambda>r. r\<lparr>wr_state := RecStopping\<rparr>) ?s)"
      using k by (intro recovery_kept_on) (simp_all add: recovery_frame_def)
    then show ?thesis using b by (auto simp: join_begin_def Let_def recovery_kept_def split: if_splits)
  qed
  show "recovery_kept k s (join_joined j s)" "recovery_kept k s (join_reset j s)" "recovery_kept k s (join_end j s)"
    using k by (auto simp: join_joined_def join_reset_def join_end_def Let_def recovery_frame_def intro!: recovery_kept_on)
qed

lemma visits_keep_recovery:
  assumes k: "k < length (sv_records s)"
  shows "await_ready_record j s p eps = (e, s', eps') \<Longrightarrow> recovery_kept k s s'"
    "monitor_ready j s p eps = (r, s', eps') \<Longrightarrow> recovery_kept k s s'"
    "monitor_activated now j s = (r, s') \<Longrightarrow> j \<noteq> k \<Longrightarrow> recovery_kept k s s'"
    "monitor_rest now d j s = (x, s') \<Longrightarrow> j \<noteq> k \<Longrightarrow> recovery_kept k s s'"
    "handle_worker_failure_begin j f s = (y, s') \<Longrightarrow> j \<noteq> k \<Longrightarrow> recovery_kept k s s'"
    "handle_worker_failure_joined now j f s = (z, s') \<Longrightarrow> recovery_kept k s s'"
    "create_worker_begin j s = (c, s') \<Longrightarrow> j \<noteq> k \<or> \<not> wr_recovery_episode (rec_at s k) \<Longrightarrow> recovery_kept k s s'"
    "recovery_kept k s (create_worker_install j bound s)"
proof -
  show "await_ready_record j s p eps = (e, s', eps') \<Longrightarrow> recovery_kept k s s'"
    using k by (auto simp: await_ready_record_def Let_def recovery_frame_def intro!: recovery_kept_on
        split: if_splits prod.splits bool.splits)
  show "monitor_ready j s p eps = (r, s', eps') \<Longrightarrow> recovery_kept k s s'"
    using k by (auto simp: monitor_ready_def recovery_frame_def intro!: recovery_kept_on split: if_splits prod.splits bool.splits)
  show "monitor_activated now j s = (r, s') \<Longrightarrow> j \<noteq> k \<Longrightarrow> recovery_kept k s s'"
    "handle_worker_failure_begin j f s = (y, s') \<Longrightarrow> j \<noteq> k \<Longrightarrow> recovery_kept k s s'"
    using k by (auto simp: monitor_activated_def handle_worker_failure_begin_def Let_def recovery_kept_def on_record_def on_health_def
        split: if_splits)
  show "monitor_rest now d j s = (x, s') \<Longrightarrow> j \<noteq> k \<Longrightarrow> recovery_kept k s s'"
    using k by (auto simp: monitor_rest_def Let_def intro!: recovery_kept_on split: if_splits)
  show "handle_worker_failure_joined now j f s = (z, s') \<Longrightarrow> recovery_kept k s s'"
    using k by (cases "j = k") (auto simp: handle_worker_failure_joined_def Let_def recovery_kept_def on_record_def recovery_frame_def
        split: if_splits)
  show "create_worker_begin j s = (c, s') \<Longrightarrow> j \<noteq> k \<or> \<not> wr_recovery_episode (rec_at s k) \<Longrightarrow> recovery_kept k s s'"
    using k by (cases "j = k") (auto simp: create_worker_begin_def count_attempt_def Let_def recovery_kept_def on_record_def on_health_def
        recovery_frame_def split: if_splits)
  show "recovery_kept k s (create_worker_install j bound s)"
    unfolding create_worker_install_def using k by (rule recovery_kept_on) (simp add: recovery_frame_def)
qed

lemma activation_keeps_recovery:
  assumes "await_activation_round s = (r, s')" and "k < length (sv_records s)" and "\<not> wr_recovery_episode (rec_at s k)"
  shows "recovery_kept k s s'"
  using assms
  by (auto simp: await_activation_round_def Let_def activate_record_def recovery_frame_def
      intro!: recovery_kept_on recovery_kept_map [of _ _ _ activate_record] split: if_splits option.splits)

lemma sup_thread_keeps_recovery:
  assumes step: "sup_thread_step w w'" and pc: "\<not> recovery_pc k (sw_pc w)" and k: "k < workers w"
    and b: "budget_at (sw_pc w) (sw_sup w)" and e: "sw_pc w = SupActivationRound \<Longrightarrow> \<not> wr_recovery_episode (rec_at (sw_sup w) k)"
  shows "recovery_kept k (sw_sup w) (sw_sup w')"
proof -
  note ops = operations_keep_recovery [OF k] join_keeps_recovery [OF k] visits_keep_recovery [OF k]
  show ?thesis using step
  proof cases
    case (c_create site j port c s)
    have "j \<noteq> k \<or> \<not> wr_recovery_episode (rec_at (sw_sup w) k)"
      using pc b c_create(2) k by (cases site) (auto simp: budget_at_def)
    with c_create ops show ?thesis by simp
  next
    case (c_activation r s)
    then show ?thesis using activation_keeps_recovery [OF c_activation(3) k] e by simp
  qed (use pc ops in \<open>auto simp: recovery_kept_refl\<close>)
qed

lemma sup_env_keeps_recovery:
  assumes "sup_env_step w w'" and k: "k < workers w"
  shows "recovery_kept k (sw_sup w) (sw_sup w')"
  using assms(1)
proof cases
  case (e_stopper j t s)
  then show ?thesis using operations_keep_recovery(10) [OF k] by simp
next
  case (e_activate r s)
  then show ?thesis using k
    by (auto simp: request_activation_def recovery_frame_def intro!: recovery_kept_map [of _ _ _ "\<lambda>r. r\<lparr>wr_activation_allowed := True\<rparr>"] split: if_splits)
next
  case (e_release r s)
  then show ?thesis using k
    by (auto simp: release_data_plane_def recovery_frame_def intro!: recovery_kept_map [of _ _ _ "\<lambda>r. r\<lparr>wr_data_plane_allowed := True\<rparr>"]
        split: if_splits option.splits)
next
  case (e_precommit_failure j r s)
  then show ?thesis using k
    by (auto simp: inject_worker_precommit_failure_for_testing_def recovery_frame_def intro!: recovery_kept_on split: if_splits)
next
  case (e_unexpected_stop j r s)
  then show ?thesis
    by (auto simp: inject_worker_unexpected_stop_for_testing_def intro!: recovery_kept_eqI split: if_splits)
qed (simp_all add: recovery_kept_eqI snapshot_published_def request_stop_def inject_abrupt_exit_for_testing_def
    inject_abrupt_exit_after_next_publication_for_testing_def inject_emergency_join_failure_once_for_testing_def)

lemma worker_keeps_recovery:
  assumes "worker_step j t w w'" and "j < workers w" and "length (pw_locals (sw_pub w)) = workers w"
    and "wr_thread (rec_at (sw_sup w) j) = Some t" and k: "k < workers w"
  shows "recovery_kept k (sw_sup w) (sw_sup w')"
  using worker_step_changes [OF assms(1-4)] k
  by (cases "k = j") (auto simp: recovery_kept_def recovery_frame_def worker_changes_def)

section \<open>The counter of the supervisor\<close>

definition recovery_inv :: "nat \<Rightarrow> nat \<Rightarrow> int \<Rightarrow> sup_world \<Rightarrow> bool" where
  "recovery_inv k c a w \<longleftrightarrow> wr_recovery_attempts (rec_at (sw_sup w) k) = c
     \<and> (wr_recovery_episode (rec_at (sw_sup w) k) \<longrightarrow> sv_data_plane_released (sw_sup w))
     \<and> (wr_state (rec_at (sw_sup w) k) = RecRunning \<and> wr_recovery_episode (rec_at (sw_sup w) k)
          \<longrightarrow> wr_stable_at (rec_at (sw_sup w) k) = stability_instant a w)"

lemma recovery_inv_kept:
  "workers w = n \<and> recovery_inv k c a w \<Longrightarrow> recovery_kept k (sw_sup w) (sw_sup w') \<Longrightarrow> workers w' = n \<and> recovery_inv k c a w'"
  by (auto simp: recovery_inv_def recovery_kept_def recovery_frame_def stability_instant_def)

lemma recovery_run_inv:
  assumes "recovery_run config initial n timeout k c a w" and "k < n"
  shows "workers w = n \<and> recovery_inv k c a w"
  using assms
proof (induction rule: recovery_run.induct)
  case (rr_new p s p')
  then show ?case by (auto simp: recovery_inv_def new_supervisor_def new_record_def)
next
  case (rr_worker c a w j t w')
  have l: "lifecycle_at (sw_pc w) w" using sup_lifecycle [OF recovery_run_reachable [OF rr_worker(1)]] by blast
  have k: "k < workers w" using rr_worker.IH rr_worker.prems by simp
  show ?case
    using recovery_inv_kept [OF rr_worker.IH] rr_worker.prems
      worker_keeps_recovery [OF rr_worker(4,2) lifecycleD(1) [OF l] rr_worker(3) k] by blast
next
  case (rr_other c a w w')
  then have "k < workers w" by simp
  then show ?case using recovery_inv_kept [OF rr_other.IH] sup_env_keeps_recovery [OF rr_other(2)] rr_other.prems by blast
next
  case (rr_thread c a w w')
  note r = recovery_run_reachable [OF rr_thread(1)]
  have k: "k < workers w" using rr_thread.IH rr_thread.prems by simp
  have "\<not> wr_recovery_episode (rec_at (sw_sup w) k)" if "sw_pc w = SupActivationRound"
    using gatesD(2,5) [OF sup_gates [OF r]] that rr_thread.IH rr_thread.prems by (auto simp: recovery_inv_def activating_def)
  then show ?case
    using recovery_inv_kept [OF rr_thread.IH] sup_thread_keeps_recovery [OF rr_thread(2,3) k sup_budget [OF r]] rr_thread.prems by blast
next
  case (rr_create c a w port r s)
  have k: "k < workers w" using rr_create.IH rr_create.prems by simp
  have "wr_state (rec_at (sw_sup w) k) = RecBackoff" "wr_recovery_episode (rec_at (sw_sup w) k)"
    using sup_budget [OF recovery_run_reachable [OF rr_create(1)]] rr_create(2) k by (simp_all add: budget_at_def record_budget_def)
  then show ?case using rr_create.IH rr_create.prems rr_create(3) k
    by (auto simp: recovery_inv_def create_worker_begin_def count_attempt_def Let_def admits_creation_def split: if_splits)
next
  case (rr_release c a w progressed deadline now r s)
  then show ?case by (auto simp: recovery_inv_def monitor_activated_def stability_instant_def split: if_splits)
next
  case (rr_rest c a w progressed deadline now r s)
  have k: "k < workers w" using rr_rest.IH rr_rest.prems by simp
  have "\<not> wr_recovery_episode (rec_at (sw_sup w) k) \<Longrightarrow> wr_recovery_attempts (rec_at (sw_sup w) k) = 0"
    using sup_budget [OF recovery_run_reachable [OF rr_rest(1)]] k by (simp add: budget_at_def attempts_ok_def)
  then show ?case using rr_rest.IH rr_rest.prems rr_rest(3) k
    by (auto simp: recovery_inv_def monitor_rest_def stability_instant_def Let_def split: if_splits)
next
  case (rr_handle c a w failure r s)
  have k: "k < workers w" using rr_handle.IH rr_handle.prems by simp
  have "\<not> wr_recovery_episode (rec_at (sw_sup w) k) \<Longrightarrow> wr_recovery_attempts (rec_at (sw_sup w) k) = 0"
    using sup_budget [OF recovery_run_reachable [OF rr_handle(1)]] k by (simp add: budget_at_def attempts_ok_def)
  then show ?case using rr_handle.IH rr_handle.prems rr_handle(3) k
    by (auto simp: recovery_inv_def handle_worker_failure_begin_def stability_instant_def Let_def split: if_splits)
qed

section \<open>The budget\<close>

text \<open>
  C20. Restarts in a row are bounded.  In every reachable state (every reachable state has such a record) at
  most as many replacements of a worker were admitted in a row as the configuration allows, where only a
  time of running past the stability window, counted from the release of the instance, starts a new row: a
  brief run does not reset the budget.  A replacement is created only under the policy \<open>Restart\<close> and with
  budget left.  After a failure the worker is restarted only in that case, after a pause that is the initial
  backoff doubled with each replacement of the row up to the maximum; with the budget used up the failure of
  a released worker ends the service and says so.
\<close>

theorem restart_within_budget:
  assumes run: "recovery_run config initial n timeout k c released w" and k: "k < n"
    and valid: "is_valid_recovery_config (cfg_recovery (sv_config (sw_sup w)))"
  defines "rc \<equiv> cfg_recovery (sv_config (sw_sup w))"
  shows "c \<le> rc_max_attempts rc
    \<and> (\<forall>port. sw_pc w = SupCreates AtRecovery k port \<longrightarrow> rc_policy rc = Restart \<and> c < rc_max_attempts rc)
    \<and> (\<forall>f now r s. sw_pc w = SupHandled k f \<longrightarrow> handle_worker_failure_joined now k f (sw_sup w) = (r, s) \<longrightarrow>
        (r = HandleRecovers \<longrightarrow> rc_policy rc = Restart \<and> c < rc_max_attempts rc \<and> wr_state (rec_at s k) = RecBackoff
           \<and> wr_restart_at (rec_at s k) = deadline_after now (min (rc_max_backoff rc) (rc_initial_backoff rc * 2 ^ c)))
        \<and> (c = rc_max_attempts rc \<longrightarrow> rc_policy rc = Restart \<longrightarrow> wf_code f \<noteq> FC_InstanceIdExhausted
             \<longrightarrow> \<not> stop_requested_locked (sw_sup w) \<longrightarrow> r = HandleFails (f\<lparr>wf_budget_exhausted := True\<rparr>)))"
proof -
  note reach = recovery_run_reachable [OF run]
  note i = recovery_run_inv [OF run k]
  have kw: "k < workers w" using i k by simp
  have a: "wr_recovery_attempts (rec_at (sw_sup w) k) = c" and
    ep: "wr_recovery_episode (rec_at (sw_sup w) k) \<Longrightarrow> sv_data_plane_released (sw_sup w)"
    using i by (simp_all add: recovery_inv_def)
  have b: "attempts_ok rc (rec_at (sw_sup w) k)" "pc_budget (sw_sup w) (sw_pc w)"
    using sup_budget [OF reach] kw by (simp_all add: budget_at_def rc_def)
  have "rc_policy rc = Restart \<and> c < rc_max_attempts rc" if "sw_pc w = SupCreates AtRecovery k port" for port
    using sup_budget [OF reach] kw that a by (auto simp: budget_at_def record_budget_def rc_def)
  moreover have "(r = HandleRecovers \<longrightarrow> rc_policy rc = Restart \<and> c < rc_max_attempts rc \<and> wr_state (rec_at s k) = RecBackoff
           \<and> wr_restart_at (rec_at s k) = deadline_after now (min (rc_max_backoff rc) (rc_initial_backoff rc * 2 ^ c)))
        \<and> (c = rc_max_attempts rc \<longrightarrow> rc_policy rc = Restart \<longrightarrow> wf_code f \<noteq> FC_InstanceIdExhausted
             \<longrightarrow> \<not> stop_requested_locked (sw_sup w) \<longrightarrow> r = HandleFails (f\<lparr>wf_budget_exhausted := True\<rparr>))"
    if "sw_pc w = SupHandled k f" "handle_worker_failure_joined now k f (sw_sup w) = (r, s)" for f now r s
  proof -
    have "wr_recovery_episode (rec_at (sw_sup w) k)" if "c = rc_max_attempts rc" "rc_policy rc = Restart"
      using that b(1) a valid by (auto simp: attempts_ok_def is_valid_recovery_config_def rc_def)
    then show ?thesis using failure_handled_budget [OF reach valid that] a ep unfolding rc_def by simp
  qed
  ultimately show ?thesis using b(1) a by (auto simp: attempts_ok_def)
qed

end
