(* ===== verification/SupervisorRun.thy ===== *)
theory SupervisorRun
  imports SupervisorRecovery
begin

text \<open>
  A run of the supervisor with one worker, evaluated rule by rule: the worker is created, becomes ready, is
  activated, released and serves; then it fails and its failure is handled, or the service is stopped and
  the supervisor returns.  The run gives the properties of \<open>SupervisorLifecycle\<close>, \<open>SupervisorProtocol\<close>,
  \<open>SupervisorGates\<close> and \<open>SupervisorRecovery\<close> a concrete instance each.
\<close>

section \<open>A run\<close>

text \<open>
  One worker under the policy \<open>Restart\<close>: it is created, becomes ready, is activated and released, and fails
  while it serves.  Each step is an instance of the rule it names, evaluated on the state before it.
\<close>

definition sample_config :: supervisor_config where
  "sample_config = \<lparr>cfg_requested_port = 53, cfg_cache_shards = Some 1,
     cfg_recovery = \<lparr>rc_policy = Restart, rc_max_attempts = 2, rc_initial_backoff = 2, rc_max_backoff = 8, rc_stability_window = 100\<rparr>,
     cfg_hooks = \<lparr>fh_failure_from_instance = 0, fh_create_failure_worker = None, fh_create_failure_step = IS_CreateSocket,
       fh_create_failure_error = 0, fh_thread_failure_worker = None, fh_thread_failure_error = 0,
       fh_runtime_init_failure_worker = None, fh_runtime_init_failure_step = RS_StartScheduler, fh_runtime_init_failure_error = 0\<rparr>,
     cfg_fatal_reporter = True\<rparr>"

lemma sample_config_simps [simp]:
  "cfg_requested_port sample_config = 53" "cfg_cache_shards sample_config = Some 1"
  "rc_policy (cfg_recovery sample_config) = Restart" "rc_max_attempts (cfg_recovery sample_config) = 2"
  "rc_initial_backoff (cfg_recovery sample_config) = 2" "rc_max_backoff (cfg_recovery sample_config) = 8"
  "rc_stability_window (cfg_recovery sample_config) = 100" "fh_create_failure_worker (cfg_hooks sample_config) = None"
  "fh_thread_failure_worker (cfg_hooks sample_config) = None" "fh_runtime_init_failure_worker (cfg_hooks sample_config) = None"
  by (simp_all add: sample_config_def)

lemmas supervisor_then = sup_then [OF _ supervisor_moves]
lemmas worker_then = sup_then [OF _ worker_moves]
lemmas other_then = sup_then [OF _ other_moves]

lemmas run_simps = goto_def set_sup_def worker_goes_def set_worker_pc_def on_record_def on_health_def set_local_def
  set_pub_epochs_def set_epochs_def run_begin_supervisor_def stop_requested_locked_def valid_configuration_def
  is_valid_recovery_config_def after_create_def create_worker_begin_def count_attempt_def create_worker_register_def
  register_worker_def create_worker_build_def create_worker_install_def created_def start_worker_thread_begin_def
  start_worker_thread_spawn_def started_def worker_refresh_def refresh_worker_snapshot_def publish_progress_def
  report_worker_ready_def injects_init_failure_def after_ready_def await_ready_record_def mark_worker_registered_def
  all_in_state_def run_action_def publish_startup_def publish_activation_def run_exit_def request_activation_def
  startup_succeeded_def await_worker_activation_def worker_needs_refresh_def instance_stopped_def source_of_def
  worker_token_def after_gate_def report_worker_activated_def await_activation_round_def exact_completion_def
  activate_record_def monitor_round_begin_def release_data_plane_def await_worker_data_plane_def final_result_def
  report_worker_completion_def monitor_failure_def live_state_def handle_worker_failure_begin_def publish_health_def
  join_begin_def stop_source_def thread_joinable_def join_joined_def join_reset_def quiesce_worker_def join_end_def joined_def
  no_ready_def no_activation_def no_completion_def worker_ready_def requested_stop_def kUnobservedFilterGeneration_def
  new_record_def no_health_def request_stop_def stopper_step_def stopper_done_def monitor_returns_def requested_stop_result_def
  finish_supervisor_run_def exit_after_join_def fatal_exit_def error_number_of_def Let_def

declare run_simps [simp]

lemmas refl2 = conjI [OF refl refl]
lemmas refl3 = conjI [OF refl refl2]

text \<open>The state at the end of a run, with what the run is needed for.\<close>

definition sample_run :: "sup_world \<Rightarrow> bool" where
  "sample_run w \<longleftrightarrow> sup_reachable sample_config (sample_snapshot 1 1) 1 1000 w"

lemmas sample_runI = sample_run_def [THEN iffD2, simplified]

lemmas run_0 = sup_new [of "sample_snapshot 1 1" 1 1000 _ sample_config,
  simplified new_publication_def new_supervisor_def set_publication_sink_def, simplified,
  OF refl refl2, simplified]
lemmas run_1 = supervisor_then [OF run_0 c_run, simplified, OF refl]
lemmas run_2 = supervisor_then [OF run_1 c_enter, simplified]
lemmas run_3 = supervisor_then [OF run_2 c_check, simplified]
lemmas run_4 = supervisor_then [OF run_3 c_create [of _ AtStartup 0 53], simplified, OF refl2, simplified]
lemmas run_5 = supervisor_then [OF run_4 c_register [of _ AtStartup 0 53], simplified, OF refl3, simplified]
lemmas run_6 = supervisor_then [OF run_5 c_build [of _ AtStartup 0 53 "LoopCreated 53"], simplified, OF refl, simplified]
lemmas run_7 = supervisor_then [OF run_6 c_install [of _ AtStartup 0 53 53], simplified]
lemmas run_8 = supervisor_then [OF run_7 c_start [of _ AtStartup 0], simplified, OF refl2, simplified]
lemmas run_9 = supervisor_then [OF run_8 c_spawn [of _ AtStartup 0 None], simplified, OF refl2, simplified]
lemmas run_10 = worker_then [where k = 0, OF run_9 _ _ w_enter, simplified, OF refl, simplified]
lemmas run_11 = worker_then [where k = 0, OF run_10 _ _ w_sync, simplified, OF refl, simplified, OF refl2, simplified]
lemmas run_12 = worker_then [where k = 0, OF run_11 _ _ w_report_ready [where r = worker_ready], simplified, OF refl, simplified]
lemmas run_13 = supervisor_then [OF run_12 c_ready_round, simplified]
lemmas run_14 = supervisor_then [OF run_13 c_ready_done [where k = 0], simplified, OF refl2, simplified, OF refl, simplified]
lemmas run_15 = supervisor_then [OF run_14 c_action, simplified, OF refl3, simplified, OF refl2, simplified]
lemmas run_16 = supervisor_then [OF run_15 c_exit, simplified, OF refl, simplified]
lemmas run_17 = other_then [OF run_16 e_activate, simplified, OF refl2]
lemmas run_18 = worker_then [where k = 0, OF run_17 _ _ w_activation_gate, simplified, OF refl, simplified, OF refl, simplified]
lemmas run_19 = worker_then [where k = 0, OF run_18 _ _ w_activate, simplified, OF refl, simplified]
lemmas run_20 = worker_then [where k = 0, OF run_19 _ _ w_report_activated, simplified, OF refl, simplified]
lemmas run_21 = supervisor_then [OF run_20 c_activation, simplified, OF refl2, simplified]
lemmas run_22 = supervisor_then [OF run_21 c_action, simplified, OF refl3, simplified, OF refl2, simplified]
lemmas run_23 = supervisor_then [OF run_22 c_exit, simplified, OF refl, simplified]
lemmas run_24 = other_then [OF run_23 e_release, simplified, OF refl2]
lemmas run_25 = worker_then [where k = 0, OF run_24 _ _ w_data_gate, simplified, OF refl, simplified, OF refl, simplified]
lemmas run_26 = worker_then [where k = 0, OF run_25 _ _ w_released, simplified, OF refl, simplified]
lemmas run_27 = worker_then [where k = 0, OF run_26 _ _ w_serve_failed [where failed = RS_WaitForEvents and n = 9], simplified, OF refl, simplified]
lemmas run_28 = worker_then [where k = 0, OF run_27 _ _ w_complete [where found = None and stats = no_worker_stats and now = 7],
  simplified, OF refl, simplified, OF refl, simplified]
lemmas run_29 = supervisor_then [OF run_28 c_monitor, simplified, OF refl2, simplified]
lemmas run_30 = supervisor_then [OF run_29 c_visit [of _ 0 False time_max], simplified]
lemmas run_31 = supervisor_then [OF run_30 c_handle [where k = 0], simplified, OF refl, simplified, OF refl2, simplified]
lemmas run_32 = supervisor_then [OF run_31 c_health, simplified, OF refl, simplified]
lemmas run_33 = supervisor_then [OF run_32 c_join_begin [where k = 0], simplified, OF refl, simplified, OF refl2, simplified]
lemmas run_34 = supervisor_then [OF run_33 c_join_wait [where k = 0], simplified, OF refl, simplified]
lemmas run_35 = supervisor_then [OF run_34 c_join_destroy [where k = 0], simplified, OF refl, simplified]
lemmas run_36 = supervisor_then [OF run_35 c_join_quiesce [where k = 0], simplified, OF refl, simplified, OF refl2, simplified]
lemmas run_37 = supervisor_then [OF run_36 c_join_end [where k = 0], simplified, OF refl, simplified]

section \<open>Witnesses\<close>

lemma sample_failure_handled:
  "\<exists>w. sample_run w \<and> (\<exists>f s. sv_config (sw_sup w) = sample_config \<and> sw_pc w = SupHandled 0 f
     \<and> handle_worker_failure_joined 5 0 f (sw_sup w) = (HandleRecovers, s) \<and> wr_recovery_attempts (rec_at (sw_sup w) 0) = 0)"
  by (rule exI, rule conjI [OF sample_runI [OF run_37]]) (simp add: handle_worker_failure_joined_def)

theorem restart_within_budget_witness:
  "\<exists>w c released f s. recovery_run sample_config (sample_snapshot 1 1) 1 1000 0 c released w
     \<and> sw_pc w = SupHandled 0 f \<and> handle_worker_failure_joined 5 0 f (sw_sup w) = (HandleRecovers, s)
     \<and> wr_state (rec_at s 0) = RecBackoff \<and> wr_restart_at (rec_at s 0) = deadline_after 5 (min 8 (2 * 2 ^ c)) \<and> c < 2"
proof -
  obtain w f s where w: "sample_run w" "sv_config (sw_sup w) = sample_config" "sw_pc w = SupHandled 0 f"
    "handle_worker_failure_joined 5 0 f (sw_sup w) = (HandleRecovers, s)"
    using sample_failure_handled by blast
  from w(1) have "sup_reachable sample_config (sample_snapshot 1 1) 1 1000 w" by (simp only: sample_run_def)
  from reachable_recovery_run [OF this] obtain c released where
    run: "recovery_run sample_config (sample_snapshot 1 1) 1 1000 0 c released w" by blast
  from restart_within_budget [OF run] w(2-4)
  have "wr_state (rec_at s 0) = RecBackoff" "wr_restart_at (rec_at s 0) = deadline_after 5 (min 8 (2 * 2 ^ c))" "c < 2" by simp_all
  then show ?thesis using run w by blast
qed

lemma sample_serving:
  "\<exists>w. sample_run w \<and> (\<exists>t. length (sv_records (sw_sup w)) = 1 \<and> wr_thread (rec_at (sw_sup w) 0) = Some t \<and> wt_pc t = WorkerServes)"
  by (rule exI, rule conjI [OF sample_runI [OF run_26]]) simp

theorem supervisor_refines_publication_witness:
  "\<exists>w t. sample_run w \<and> wr_thread (rec_at (sw_sup w) 0) = Some t \<and> wt_pc t = WorkerServes
     \<and> pub_reachable (sample_snapshot 1 1) 1 1000 (sw_pub w) \<and> pw_locals (sw_pub w) ! 0 \<noteq> None
     \<and> fp_registry (sw_publication w) ! 0 = Some 0 \<and> we_instance (sw_epochs w 0) = wt_instance t"
proof -
  obtain w t where w: "sample_run w" "length (sv_records (sw_sup w)) = 1" "wr_thread (rec_at (sw_sup w) 0) = Some t"
    "wt_pc t = WorkerServes"
    using sample_serving by blast
  from w(1) have "sup_reachable sample_config (sample_snapshot 1 1) 1 1000 w" by (simp only: sample_run_def)
  from supervisor_refines_publication [OF this] w(2,3) show ?thesis using w by auto
qed

theorem only_released_workers_serve_witness:
  "\<exists>w t. sample_run w \<and> wr_thread (rec_at (sw_sup w) 0) = Some t \<and> wt_pc t = WorkerServes
     \<and> sv_data_plane_released (sw_sup w) \<and> we_registration (sw_epochs w 0) = Registered
     \<and> ac_instance (wr_activated (rec_at (sw_sup w) 0)) = wt_instance t"
proof -
  obtain w t where w: "sample_run w" "length (sv_records (sw_sup w)) = 1" "wr_thread (rec_at (sw_sup w) 0) = Some t"
    "wt_pc t = WorkerServes"
    using sample_serving by blast
  from w(1) have "sup_reachable sample_config (sample_snapshot 1 1) 1 1000 w" by (simp only: sample_run_def)
  from only_released_workers_serve [OF this, of 0 t] w(2-4) show ?thesis using w by auto
qed

lemmas run_stop_1 = other_then [OF run_26 e_stop, simplified]
lemmas run_stop_2 = other_then [OF run_stop_1 e_stopper [where j = 0], simplified, OF refl2, simplified]
lemmas run_stop_3 = other_then [OF run_stop_2 e_stopper [where j = 0], simplified, OF refl2, simplified]

lemma sample_stopped:
  "\<exists>w. sample_run w \<and> (\<exists>t. length (sv_records (sw_sup w)) = 1 \<and> sw_stoppers w = [StopperAt 1]
     \<and> wr_thread (rec_at (sw_sup w) 0) = Some t \<and> wt_pc t = WorkerServes)"
  by (rule exI, rule conjI [OF sample_runI [OF run_stop_3]]) simp

theorem stop_reaches_every_worker_witness:
  "\<exists>w t. sample_run w \<and> wr_thread (rec_at (sw_sup w) 0) = Some t \<and> wt_pc t = WorkerServes
     \<and> worker_token (sw_sup w) 0 t \<and> fst (create_worker_begin 0 (sw_sup w)) \<noteq> CreateContinues"
proof -
  obtain w t where w: "sample_run w" "length (sv_records (sw_sup w)) = 1" "sw_stoppers w = [StopperAt 1]"
    "wr_thread (rec_at (sw_sup w) 0) = Some t" "wt_pc t = WorkerServes"
    using sample_stopped by blast
  from w(1) have "sup_reachable sample_config (sample_snapshot 1 1) 1 1000 w" by (simp only: sample_run_def)
  from stop_reaches_every_worker [OF this, of "StopperAt 1"] w(2,3)
  have "\<forall>k < workers w. instance_stopped (sw_sup w) k \<and> (\<forall>u. wr_thread (rec_at (sw_sup w) k) = Some u \<longrightarrow> worker_token (sw_sup w) k u)"
    "fst (create_worker_begin 0 (sw_sup w)) \<noteq> CreateContinues" by (simp_all only: stopper_done_def stopper.case) simp_all
  then have "worker_token (sw_sup w) 0 t" "fst (create_worker_begin 0 (sw_sup w)) \<noteq> CreateContinues" using w(2,4) by simp_all
  then show ?thesis using w by blast
qed

lemmas run_end_1 = supervisor_then [OF run_stop_3 c_monitor, simplified, OF refl2, simplified]
lemmas run_end_2 = supervisor_then [OF run_end_1 c_action, simplified, OF refl3, simplified, OF refl2, simplified]
lemmas run_end_3 = supervisor_then [OF run_end_2 c_action, simplified, OF refl3, simplified, OF refl2, simplified]
lemmas run_end_4 = supervisor_then [OF run_end_3 c_action, simplified, OF refl3, simplified, OF refl2, simplified]
lemmas run_end_5 = supervisor_then [OF run_end_4 c_action, simplified, OF refl3, simplified, OF refl2, simplified]
lemmas run_end_6 = supervisor_then [OF run_end_5 c_join_begin [where k = 0], simplified, OF refl, simplified, OF refl2, simplified]

lemma sample_waiting:
  "\<exists>w. sample_run w \<and> (\<exists>site t. sw_pc w = SupJoins JoinWaits 0 site \<and> wr_thread (rec_at (sw_sup w) 0) = Some t \<and> wt_pc t = WorkerServes)"
  by (rule exI, rule conjI [OF sample_runI [OF run_end_6]]) simp

theorem joined_worker_finishes_witness:
  "\<exists>w site t w'. sample_run w \<and> sw_pc w = SupJoins JoinWaits 0 site \<and> wr_thread (rec_at (sw_sup w) 0) = Some t
     \<and> wt_pc t = WorkerServes \<and> worker_token (sw_sup w) 0 t \<and> worker_step 0 t w w'"
proof -
  obtain w site t where w: "sample_run w" "sw_pc w = SupJoins JoinWaits 0 site" "wr_thread (rec_at (sw_sup w) 0) = Some t"
    "wt_pc t = WorkerServes" using sample_waiting by blast
  from w(1) have "sup_reachable sample_config (sample_snapshot 1 1) 1 1000 w" by (simp only: sample_run_def)
  from joined_worker_finishes [OF this w(2) wait_begins] w(3,4)
  have "worker_token (sw_sup w) 0 t" "\<exists>w'. worker_step 0 t w w'" by auto
  then show ?thesis using w by blast
qed

lemmas run_end_7 = worker_then [where k = 0, OF run_end_6 _ _ w_serve_stop, simplified, OF refl, simplified]
lemmas run_end_8 = worker_then [where k = 0, OF run_end_7 _ _ w_complete [where found = None and stats = no_worker_stats and now = 7],
  simplified, OF refl, simplified, OF refl, simplified]
lemmas run_end_9 = supervisor_then [OF run_end_8 c_join_wait [where k = 0], simplified, OF refl, simplified]
lemmas run_end_10 = supervisor_then [OF run_end_9 c_join_destroy [where k = 0], simplified, OF refl, simplified]
lemmas run_end_11 = supervisor_then [OF run_end_10 c_join_quiesce [where k = 0], simplified, OF refl, simplified, OF refl2, simplified]
lemmas run_end_12 = supervisor_then [OF run_end_11 c_join_end [where k = 0], simplified, OF refl, simplified]
lemmas run_end_13 = supervisor_then [OF run_end_12 c_action, simplified, OF refl3, simplified, OF refl2, simplified]
lemmas run_end_14 = supervisor_then [OF run_end_13 c_action, simplified, OF refl3, simplified, OF refl2, simplified]
lemmas run_end_15 = supervisor_then [OF run_end_14 c_exit, simplified, OF refl, simplified]

lemma sample_ended:
  "\<exists>w. sample_run w \<and> (\<exists>r. sw_pc w = SupEnded (ExitReturn r) \<and> \<not> sw_join_failed w \<and> length (sv_records (sw_sup w)) = 1
     \<and> sv_run_started (sw_sup w))"
  by (rule exI, rule conjI [OF sample_runI [OF run_end_15]]) simp

theorem shutdown_leaves_nothing_witness:
  "\<exists>w r. sample_run w \<and> sw_pc w = SupEnded (ExitReturn r) \<and> wr_thread (rec_at (sw_sup w) 0) = None
     \<and> wr_instance (rec_at (sw_sup w) 0) = None \<and> pw_locals (sw_pub w) ! 0 = None
     \<and> \<not> list_ex (\<lambda>e. e \<noteq> None) (fp_registry (sw_publication w)) \<and> wait_for_startup False (sw_sup w) \<noteq> None"
proof -
  obtain w r where w: "sample_run w" "sw_pc w = SupEnded (ExitReturn r)" "\<not> sw_join_failed w" "length (sv_records (sw_sup w)) = 1"
      "sv_run_started (sw_sup w)"
    using sample_ended by blast
  from w(1) have "sup_reachable sample_config (sample_snapshot 1 1) 1 1000 w" by (simp only: sample_run_def)
  from shutdown_leaves_nothing [OF this w(2)] w(3-5) show ?thesis using w by auto
qed

declare run_simps [simp del]
declare split_paired_All [simp] split_paired_Ex [simp] not_None_eq [simp]

end
