(* ===== verification/ServiceRun.thy ===== *)
theory ServiceRun
  imports ServiceThreads SupervisorRun
begin

text \<open>
  A run of the whole service with one worker, evaluated rule by rule: \<open>init\<close>, a call of \<open>wait\<close>, \<open>start\<close> up to the
  point where the worker serves, \<open>request_stop\<close>, and the teardown by the thread that waits.  It gives the properties of
  \<open>ServiceLifecycle\<close> and \<open>ServiceThreads\<close> a concrete instance each, and shows what a call of \<open>wait\<close> does that comes too early.
\<close>

section \<open>A run\<close>

text \<open>
  One worker, no rules and no runtime updates.  Each step is an instance of the rule it names, evaluated on the state
  before it.
\<close>

definition run_config :: dns_config where
  "run_config = \<lparr>dc_worker_count = 1, dc_cache_capacity = 10, dc_port = 53, dc_runtime_updates_enabled = False,
     dc_worker_failure_policy = FailService, dc_restart_max_attempts = 3, dc_restart_initial_backoff = 100,
     dc_restart_max_backoff = 5000, dc_restart_stability_window = 30000, dc_blocked_domains = [], dc_upstream = default_upstream\<rparr>"

definition run_hash :: "byte list \<Rightarrow> u64" where "run_hash = (\<lambda>_. 5)"

definition run_pton :: "string \<Rightarrow> bool" where "run_pton = (\<lambda>_. True)"

definition run_context :: filter_context where
  "run_context = new_filter_context 1 \<lparr>prefilter = \<lparr>buckets = replicate 4 (replicate 4 0), cf_size = 0, maximum_kicks = 500,
     rng_state = splitmix64 15111065706836454663, last_failure = NoFailure\<rparr>, tree = new_tree, rule_count = 0, normalized_rule_bytes = 0\<rparr>"

definition run_publication :: filter_publication where
  "run_publication = the (new_publication (Some (7, run_context)) 1 kGraceTimeout)"

definition run_controller :: filter_updates where
  "run_controller = the (new_filter_updates run_publication default_update_limits)"

lemma run_context_simps [simp]: "generation run_context = 1" "ctx_rule_bytes run_context = 0" "rule_count (blocklist run_context) = 0"
  by (simp_all add: run_context_def new_filter_context_def)

lemma run_publication_eq: "run_publication = \<lparr>fp_grace_timeout = 30000000000, fp_active = Some (7, run_context), fp_registry = [None],
    fp_sink = False, fp_generation = 1, fp_rule_count = 0, fp_rule_bytes = 0, fp_sealed = False, fp_retired = empty_record,
    fp_terminal = empty_record, fp_credit_held = False, fp_retired_bytes = 0, fp_progress = 0, fp_last_converged = 0,
    fp_last_reclaimed = 0, fp_shutdown_requested = False, fp_failure_requested = False, fp_failure_after_commit = False,
    fp_reclaimer_started = False, fp_reclaimer_active = False\<rparr>"
  by (simp add: run_publication_def new_publication_def kGraceTimeout_def)

lemma run_controller_eq: "run_controller = \<lparr>fu_limits = default_update_limits, fu_pending = [], fu_inflight = None,
    fu_queued_rule_bytes = 0, fu_build_stop = False, fu_sealed = False, fu_sealed_acknowledged = False,
    fu_terminal_detach_requested = False, fu_runner_active = False, fu_fail_after_commit = False, fu_promises = []\<rparr>"
  by (simp add: run_controller_def run_publication_eq new_filter_updates_def default_update_limits_def)

lemma run_config_simps: "dc_worker_count run_config = 1" "dc_cache_capacity run_config = 10" "dc_port run_config = 53"
  "dc_runtime_updates_enabled run_config = False" "dc_worker_failure_policy run_config = FailService"
  "dc_restart_max_attempts run_config = 3" "dc_restart_initial_backoff run_config = 100" "dc_restart_max_backoff run_config = 5000"
  "dc_restart_stability_window run_config = 30000" "dc_blocked_domains run_config = []" "dc_upstream run_config = default_upstream"
  by (simp_all add: run_config_def)

lemma run_valid [simp]: "init_valid run_pton run_config"
  by (simp add: run_pton_def init_valid_def run_config_def is_valid_upstream_config_def default_upstream_def kTransactionIdSpace_def
    is_valid_recovery_config_def init_recovery_def)

lemma run_build: "init_build run_hash 7 run_config
    = Some ((7, run_context), run_publication, run_controller, \<lparr>total_capacity = 10, shards = [new_shard 10]\<rparr>)"
  by (simp add: run_hash_def init_build_def run_config_def validate_filter_rule_set_def default_update_limits_def
    build_filter_snapshot_def build_def initial_bucket_count_def build_loop.simps new_blocklist_def MAX_KICKS_def
    new_filter_small kInitialFilterGeneration_def run_publication_def new_publication_def kGraceTimeout_def run_controller_def
    new_filter_updates_def new_dns_cache_def run_context_def new_filter_context_def Let_def)

text \<open>The state at the end of a run.\<close>

definition service_run :: "dns_world \<Rightarrow> bool" where
  "service_run w \<longleftrightarrow> dns_reachable run_hash run_pton w"

lemmas client_then = dns_then [of run_hash run_pton, OF _ client_moves]
lemmas start_then = dns_then [of run_hash run_pton, OF _ start_moves]
lemmas teardown_then = dns_then [of run_hash run_pton, OF _ teardown_moves]
lemmas role_then = dns_then [of run_hash run_pton, OF _ role_moves]
lemmas part_then = dns_then [of run_hash run_pton, OF _ part_moves]
lemmas sup_part_then = part_then [OF _ p_supervisor]
lemmas work_part_then = part_then [OF _ p_worker]

definition run_initial :: "supervisor \<Rightarrow> pub_world \<Rightarrow> filter_updates \<Rightarrow> dns_world" where
  "run_initial s p c = \<lparr>dw_svc = new_dns, dw_control = new_control_slots, dw_pub = p, dw_sup = s, dw_sup_pc = SupIdle, dw_stoppers = [],
     dw_join_failed = False, dw_created = False, dw_ctl = c, dw_runner = RunnerStopped, dw_successor = None, dw_history = [],
     dw_init = None, dw_attempt = 0, dw_owner = OwNone, dw_stop = None, dw_clients = [], dw_coordinator = CoNone, dw_reclaimer = ReNone,
     dw_supervisor = SuNone, dw_callback = CbNone, dw_sup_token = False, dw_notify = None, dw_starts = [], dw_exits = []\<rparr>"

lemmas srun_simps = sup_view_def upd_view_def with_svc_def new_dns_def init_begin_def init_commit_def new_dns_health_def start_begin_def
  control_reset_def new_control_slots_def new_fault_injection_def unavailable_def supervisor_config_of_def no_hooks_def init_recovery_def
  run_publication_eq run_controller_eq current_version_def
  new_supervisor_def set_publication_sink_def after_supervisor_def has_fault_def after_store_def callback_after_def
  wait_for_startup_def wait_for_activation_def still_starting_def pause_armed_def start_commit_def commit_startup_def run_config_simps
  wait_over_def request_stop_locked_def first_stage_def after_seal_def runtime_stop_begin_def seal_request_stop_def seal_publication_def
  seal_queue_def resume_caller_def complete_all_def supervisor_result_def publish_supervisor_result_def supervisor_exited_def role_exited_def stop_expected_def teardown_over_def emergency_join_all_def successor_begin_def reconcile_inflight_def after_successor_def
  detach_terminal_snapshot_def collect_cohort_def emergency_reclaim_converged_def empty_record_def reclaim_converged_locked_def use_count_def owner_addresses_def local_addresses_def
  shared_owner_def cohort_complete_def reclaim_record_def record_of_def teardown_commit_def exit_result_locked_def teardown_done_def

lemma run_0: "dns_reachable run_hash run_pton (run_initial s p c)"
  by (rule dns_new) (simp add: run_initial_def dns_initial_def)

declare run_simps [simp] srun_simps [simp] set_handle.simps [simp]
declare split_paired_All [simp del] split_paired_Ex [simp del] not_None_eq [simp del]

lemmas s_1 = client_then [OF run_0 k_init_begin [where config = run_config], simplified run_initial_def, simplified, OF refl, simplified]
lemmas s_2 = client_then [OF s_1 k_init_done [OF _ _ _ run_build], simplified]
lemmas s_2w = client_then [OF s_2 k_wait, simplified]
lemmas s_3 = start_then [OF s_2w o_begin, simplified, OF refl, simplified]
lemmas s_4 = start_then [OF s_3 o_create, simplified, OF refl2, simplified]
lemmas s_5 = start_then [OF s_4 o_spawn, simplified, OF refl, simplified]
lemmas s_6 = start_then [OF s_5 o_store, simplified, OF refl, simplified]
lemmas s_7 = sup_part_then [OF s_6 _ _ c_run, simplified, OF refl, simplified]
lemmas s_8 = sup_part_then [OF s_7 _ _ c_enter, simplified]
lemmas s_9 = sup_part_then [OF s_8 _ _ c_check, simplified]
lemmas s_10 = sup_part_then [OF s_9 _ _ c_create [of _ AtStartup 0 53], simplified, OF refl2, simplified]
lemmas s_11 = sup_part_then [OF s_10 _ _ c_register [of _ AtStartup 0 53], simplified, OF refl3, simplified]
lemmas s_12 = sup_part_then [OF s_11 _ _ c_build [of _ AtStartup 0 53 "LoopCreated 53"], simplified, OF refl, simplified]
lemmas s_13 = sup_part_then [OF s_12 _ _ c_install [of _ AtStartup 0 53 53], simplified]
lemmas s_14 = sup_part_then [OF s_13 _ _ c_start [of _ AtStartup 0], simplified, OF refl2, simplified]
lemmas s_15 = sup_part_then [OF s_14 _ _ c_spawn [of _ AtStartup 0 None], simplified, OF refl2, simplified]
lemmas s_16 = work_part_then [where j = 0, OF s_15 _ _ _ w_enter, simplified, OF refl, simplified]
lemmas s_17 = work_part_then [where j = 0, OF s_16 _ _ _ w_sync, simplified, OF refl, simplified, OF refl2, simplified]
lemmas s_18 = work_part_then [where j = 0, OF s_17 _ _ _ w_report_ready [where r = worker_ready], simplified, OF refl, simplified]
lemmas s_19 = sup_part_then [OF s_18 _ _ c_ready_round, simplified]
lemmas s_20 = sup_part_then [OF s_19 _ _ c_ready_done [where k = 0], simplified, OF refl2, simplified, OF refl, simplified]
lemmas s_21 = sup_part_then [OF s_20 _ _ c_action, simplified, OF refl3, simplified, OF refl2, simplified]
lemmas s_22 = sup_part_then [OF s_21 _ _ c_exit, simplified, OF refl, simplified]
lemmas s_23 = start_then [OF s_22 o_startup, simplified, OF refl, simplified]
lemmas s_24 = start_then [OF s_23 o_activate, simplified, OF refl, simplified, OF refl2, simplified]
lemmas s_25 = work_part_then [where j = 0, OF s_24 _ _ _ w_activation_gate, simplified, OF refl, simplified, OF refl, simplified]
lemmas s_26 = work_part_then [where j = 0, OF s_25 _ _ _ w_activate, simplified, OF refl, simplified]
lemmas s_27 = work_part_then [where j = 0, OF s_26 _ _ _ w_report_activated, simplified, OF refl, simplified]
lemmas s_28 = sup_part_then [OF s_27 _ _ c_activation, simplified, OF refl2, simplified]
lemmas s_29 = sup_part_then [OF s_28 _ _ c_action, simplified, OF refl3, simplified, OF refl2, simplified]
lemmas s_30 = sup_part_then [OF s_29 _ _ c_exit, simplified, OF refl, simplified]
lemmas s_31 = start_then [OF s_30 o_activation, simplified, OF refl, simplified, OF refl, simplified]
lemmas s_32 = start_then [OF s_31 o_pause, simplified, OF refl, simplified]
lemmas s_33 = start_then [OF s_32 o_commit, simplified, OF refl, simplified, OF refl3, simplified]
lemmas s_34 = work_part_then [where j = 0, OF s_33 _ _ _ w_data_gate, simplified, OF refl, simplified, OF refl, simplified]
lemmas s_35 = work_part_then [where j = 0, OF s_34 _ _ _ w_released, simplified, OF refl, simplified]
lemmas s_36 = client_then [OF s_35 k_stop [where joins = False], simplified, OF refl2, simplified]
lemmas s_37 = client_then [OF s_36 k_runtime_stop [where i = 1 and joins = False], simplified]
lemmas s_38 = part_then [OF s_37 s_seal [where c = "ByClient (Suc 0)" and stage = SealsBuild], simplified]
lemmas s_39 = part_then [OF s_38 s_seal [where c = "ByClient (Suc 0)" and stage = SealsPublication], simplified]
lemmas s_40 = part_then [OF s_39 s_seal [where c = "ByClient (Suc 0)" and stage = SealsQueue], simplified]
lemmas s_41 = part_then [OF s_40 s_supervisor [where c = "ByClient (Suc 0)"], simplified]
lemmas s_42 = part_then [OF s_41 p_stopper [where j = 0], simplified, OF refl2, simplified]
lemmas s_43 = part_then [OF s_42 p_stopper [where j = 0], simplified, OF refl2, simplified]
lemmas s_44 = part_then [OF s_43 s_walked [where c = "ByClient (Suc 0)" and j = 0], simplified]
lemmas s_45 = part_then [OF s_44 s_thread [where c = "ByClient (Suc 0)"], simplified]
lemmas s_46 = sup_part_then [OF s_45 _ _ c_monitor, simplified, OF refl2, simplified]
lemmas s_47 = sup_part_then [OF s_46 _ _ c_action, simplified, OF refl3, simplified, OF refl2, simplified]
lemmas s_48 = sup_part_then [OF s_47 _ _ c_action, simplified, OF refl3, simplified, OF refl2, simplified]
lemmas s_49 = sup_part_then [OF s_48 _ _ c_action, simplified, OF refl3, simplified, OF refl2, simplified]
lemmas s_50 = sup_part_then [OF s_49 _ _ c_action, simplified, OF refl3, simplified, OF refl2, simplified]
lemmas s_51 = sup_part_then [OF s_50 _ _ c_join_begin [where k = 0], simplified, OF refl, simplified, OF refl2, simplified]
lemmas s_52 = work_part_then [where j = 0, OF s_51 _ _ _ w_serve_stop, simplified, OF refl, simplified]
lemmas s_53 = work_part_then [where j = 0, OF s_52 _ _ _ w_complete [where found = None and stats = no_worker_stats and now = 7],
  simplified, OF refl, simplified, OF refl, simplified]
lemmas s_54 = sup_part_then [OF s_53 _ _ c_join_wait [where k = 0], simplified, OF refl, simplified]
lemmas s_55 = sup_part_then [OF s_54 _ _ c_join_destroy [where k = 0], simplified, OF refl, simplified]
lemmas s_56 = sup_part_then [OF s_55 _ _ c_join_quiesce [where k = 0], simplified, OF refl, simplified, OF refl2, simplified]
lemmas s_57 = sup_part_then [OF s_56 _ _ c_join_end [where k = 0], simplified, OF refl, simplified]
lemmas s_58 = sup_part_then [OF s_57 _ _ c_action, simplified, OF refl3, simplified, OF refl2, simplified]
lemmas s_59 = sup_part_then [OF s_58 _ _ c_action, simplified, OF refl3, simplified, OF refl2, simplified]
lemmas s_60 = sup_part_then [OF s_59 _ _ c_exit, simplified, OF refl, simplified]
lemmas s_61 = role_then [OF s_60 c_return, simplified, OF refl, simplified]
lemmas s_62 = role_then [OF s_61 c_publish, simplified, OF refl, simplified]
lemmas s_63 = role_then [OF s_62 c_exited [where b = False], simplified, OF refl, simplified, OF refl, simplified]
lemmas s_64 = client_then [OF s_63 k_join [where i = 0], simplified]
lemmas s_65 = teardown_then [OF s_64 t_begin [where k = None and a = False], simplified]
lemmas s_66 = teardown_then [OF s_65 t_stop [where k = None and a = False], simplified]
lemmas s_67 = part_then [OF s_66 s_seal [where c = ByOwner and stage = SealsBuild], simplified]
lemmas s_68 = part_then [OF s_67 s_seal [where c = ByOwner and stage = SealsPublication], simplified]
lemmas s_69 = part_then [OF s_68 s_seal [where c = ByOwner and stage = SealsQueue], simplified]
lemmas s_70 = part_then [OF s_69 s_supervisor [where c = ByOwner], simplified]
lemmas s_71 = part_then [OF s_70 p_stopper [where j = 1], simplified, OF refl2, simplified]
lemmas s_72 = part_then [OF s_71 p_stopper [where j = 1], simplified, OF refl2, simplified]
lemmas s_73 = part_then [OF s_72 s_walked [where c = ByOwner and j = 1], simplified]
lemmas s_74 = part_then [OF s_73 s_thread [where c = ByOwner], simplified]
lemmas s_75 = teardown_then [OF s_74 t_take_supervisor [where k = None and a = False], simplified]
lemmas s_76 = teardown_then [OF s_75 t_join_supervisor [where k = None and a = False], simplified]
lemmas s_77 = teardown_then [OF s_76 t_emergency [where k = None and a = False], simplified]
lemmas s_78 = sup_part_then [where k = None and a = False, OF s_77 _ _ c_action, simplified, OF refl3, simplified, OF refl2, simplified]
lemmas s_79 = sup_part_then [where k = None and a = False, OF s_78 _ _ c_action, simplified, OF refl3, simplified, OF refl2, simplified]
lemmas s_80 = sup_part_then [where k = None and a = False, OF s_79 _ _ c_action, simplified, OF refl3, simplified, OF refl2, simplified]
lemmas s_81 = sup_part_then [where k = None and a = False, OF s_80 _ _ c_action, simplified, OF refl3, simplified, OF refl2, simplified]
lemmas s_82 = sup_part_then [where k = None and a = False, OF s_81 _ _ c_action, simplified, OF refl3, simplified, OF refl2, simplified]
lemmas s_83 = sup_part_then [where k = None and a = False, OF s_82 _ _ c_action, simplified, OF refl3, simplified, OF refl2, simplified]
lemmas s_84 = sup_part_then [where k = None and a = False, OF s_83 _ _ c_join_begin [where k = 0], simplified, OF refl, simplified, OF refl2, simplified]
lemmas s_85 = sup_part_then [where k = None and a = False, OF s_84 _ _ c_join_wait [where k = 0], simplified, OF refl, simplified]
lemmas s_86 = sup_part_then [where k = None and a = False, OF s_85 _ _ c_join_destroy [where k = 0], simplified, OF refl, simplified]
lemmas s_87 = sup_part_then [where k = None and a = False, OF s_86 _ _ c_join_quiesce [where k = 0], simplified, OF refl, simplified, OF refl2, simplified]
lemmas s_88 = sup_part_then [where k = None and a = False, OF s_87 _ _ c_join_end [where k = 0], simplified, OF refl, simplified]
lemmas s_89 = sup_part_then [where k = None and a = False, OF s_88 _ _ c_action, simplified, OF refl3, simplified, OF refl2, simplified]
lemmas s_90 = sup_part_then [where k = None and a = False, OF s_89 _ _ c_exit, simplified, OF refl, simplified]
lemmas s_91 = teardown_then [OF s_90 t_emergency_done [where k = None and a = False and b = True], simplified]
lemmas s_92 = teardown_then [OF s_91 t_look [where k = None and a = False], simplified]
lemmas s_93 = teardown_then [OF s_92 t_check [where k = None and a = False], simplified]
lemmas s_94 = teardown_then [OF s_93 t_detach [where k = None and a = False], simplified]
lemmas s_95 = teardown_then [OF s_94 t_take_coordinator [where k = None and a = False], simplified]
lemmas s_96 = teardown_then [OF s_95 t_successor [where k = None and a = False and site = FirstSuccessor], simplified, OF refl2, simplified]
lemmas s_97 = teardown_then [OF s_96 t_seal_publication [where k = None and a = False], simplified]
lemmas s_98 = teardown_then [OF s_97 t_detach_terminal [where k = None and a = False and now = 9 and b = True], simplified, OF refl, simplified]
lemmas s_99 = teardown_then [OF s_98 t_shut_none [where k = None], simplified]
lemmas s_100 = teardown_then [OF s_99 t_last_reclaim [where k = None and a = False and b = True], simplified, OF refl, simplified]
lemmas s_101 = teardown_then [OF s_100 t_successor [where k = None and a = False and site = LastSuccessor], simplified, OF refl2, simplified]
lemmas s_102 = teardown_then [OF s_101 t_commit [where k = None and a = False], simplified, OF refl2, simplified]
lemmas service_runI = service_run_def [THEN iffD2]

lemmas w_1 = client_then [OF s_35 k_join [where i = 0], simplified]
lemmas w_2 = teardown_then [OF w_1 t_begin [where k = None and a = False], simplified]
lemmas w_3 = teardown_then [OF w_2 t_stop [where k = None and a = False], simplified]

lemma run_serving:
  "\<exists>w. service_run w \<and> dw_stop w = None \<and> dw_owner w = OwNone \<and> ds_state (dw_svc w) = LcActive \<and> ds_stop_cause (dw_svc w) = CauseNone
     \<and> dw_clients w = [ClientJoins] \<and> bound_port (dw_svc w) = Some 53 \<and> length (sv_records (dw_sup w)) = 1
     \<and> (\<exists>t. wr_thread (rec_at (dw_sup w) 0) = Some t \<and> wt_pc t = WorkerServes)
     \<and> dw_starts w = [Inr \<lparr>di_bound_port = 53, di_worker_count = 1, di_attempt = 1\<rparr>]"
  by (rule exI, rule conjI [OF service_runI [OF s_35]]) (simp add: bound_port_def)

lemma run_stopped:
  "\<exists>w. service_run w \<and> ds_state (dw_svc w) = LcStopped
     \<and> dw_starts w = [Inr \<lparr>di_bound_port = 53, di_worker_count = 1, di_attempt = 1\<rparr>]
     \<and> dw_exits w = [\<lparr>ex_code = EX_ExplicitStop, ex_startup_error = None, ex_fatal_error = None\<rparr>]"
  by (rule exI, rule conjI [OF service_runI [OF s_102]]) simp

declare run_simps [simp del] srun_simps [simp del] set_handle.simps [simp del]
declare split_paired_All [simp] split_paired_Ex [simp] not_None_eq [simp]

text \<open>
  A call of \<open>wait\<close> that comes between \<open>init\<close> and \<open>start\<close> passes its check in the state \<open>Initialized\<close>.  If it gets \<open>startup_mutex_\<close> only
  after the start has succeeded, it begins the teardown of the active service, for which nobody asked and no reason is recorded: a run
  in which this happens.  If no reason is recorded before the end of the teardown either, its commit leaves the service \<open>Failed\<close> and
  reports it as \<open>NotStarted\<close>.
\<close>

lemma early_wait_stops_the_service:
  "\<exists>w. service_run w \<and> ds_state (dw_svc w) = LcActive \<and> ds_stop_cause (dw_svc w) = CauseNone \<and> ds_startup_stop (dw_svc w)
     \<and> dw_owner w = OwTears None False TdStops
     \<and> (\<forall>v. ex_code (fst (teardown_commit v (dw_svc w))) = EX_NotStarted \<and> ds_state (snd (teardown_commit v (dw_svc w))) = LcFailed)"
  by (rule exI, rule conjI [OF service_runI [OF w_3]]) (simp add: teardown_commit_def exit_result_locked_def Let_def)

section \<open>Witnesses\<close>

theorem lifecycle_only_forward_witness:
  "\<exists>w w'. service_run w \<and> dns_step run_hash run_pton w w' \<and> ds_state (dw_svc w) = LcActive \<and> ds_state (dw_svc w') = LcStopping
     \<and> lifecycle_rank (ds_state (dw_svc w)) \<le> lifecycle_rank (ds_state (dw_svc w')) \<and> ds_stop_cause (dw_svc w) = CauseNone"
proof -
  obtain w where w: "service_run w" "dw_stop w = None" "ds_state (dw_svc w) = LcActive" using run_serving by blast
  obtain a s where a: "request_stop_locked (dw_svc w) = (a, s)" by fastforce
  have s: "ds_state s = LcStopping" using a w(3) by (auto simp: request_stop_locked_def)
  let ?w = "add_client (case a of StopsRuntime \<Rightarrow> ClientStops False | _ \<Rightarrow> if False then ClientJoins else ClientDone) (with_svc s w)"
  have step: "dns_step run_hash run_pton w ?w" by (intro client_moves k_stop w(2) a)
  have r: "dns_reachable run_hash run_pton w" using w(1) by (simp only: service_run_def)
  have steps: "(dns_step run_hash run_pton)\<^sup>*\<^sup>* w ?w" using step by blast
  from lifecycle_only_forward [OF r steps] w(3)
  have "lifecycle_rank (ds_state (dw_svc w)) \<le> lifecycle_rank (ds_state (dw_svc ?w))" "ds_stop_cause (dw_svc w) = CauseNone" by simp_all
  moreover have "ds_state (dw_svc ?w) = LcStopping" using s by simp
  ultimately show ?thesis using w step by blast
qed

theorem callers_told_the_truth_witness:
  "\<exists>w. service_run w \<and> dw_starts w = [Inr \<lparr>di_bound_port = 53, di_worker_count = 1, di_attempt = 1\<rparr>]
     \<and> bound_port (dw_svc w) = Some 53
     \<and> dw_exits w = [\<lparr>ex_code = EX_ExplicitStop, ex_startup_error = None, ex_fatal_error = None\<rparr>]
     \<and> exit_result_locked (dw_svc w) = \<lparr>ex_code = EX_ExplicitStop, ex_startup_error = None, ex_fatal_error = None\<rparr>"
proof -
  obtain w where w: "service_run w" "dw_starts w = [Inr \<lparr>di_bound_port = 53, di_worker_count = 1, di_attempt = 1\<rparr>]"
    "dw_exits w = [\<lparr>ex_code = EX_ExplicitStop, ex_startup_error = None, ex_fatal_error = None\<rparr>]"
    using run_stopped by blast
  from w(1) have "dns_reachable run_hash run_pton w" by (simp only: service_run_def)
  from callers_told_the_truth [OF this] w(2,3)
  have "bound_port (dw_svc w) = Some 53"
    "exit_result_locked (dw_svc w) = \<lparr>ex_code = EX_ExplicitStop, ex_startup_error = None, ex_fatal_error = None\<rparr>" by auto
  then show ?thesis using w by blast
qed

theorem no_thread_is_lost_witness:
  "\<exists>w. service_run w \<and> ds_state (dw_svc w) = LcStopped \<and> dw_supervisor w \<in> {SuNone, SuEnded} \<and> \<not> ds_supervisor_thread (dw_svc w)"
proof -
  obtain w where w: "service_run w" "ds_state (dw_svc w) = LcStopped" using run_stopped by blast
  from w(1) have "dns_reachable run_hash run_pton w" by (simp only: service_run_def)
  from no_thread_is_lost [OF this, of SupervisorThread] w(2)
  have "dw_supervisor w \<in> {SuNone, SuEnded}" "\<not> ds_supervisor_thread (dw_svc w)" by auto
  then show ?thesis using w by blast
qed

end
