(* ===== verification/Spec2Isabelle.thy ===== *)
theory Spec2Isabelle
  imports ServiceRun
begin

text \<open>
  \<^bold>\<open>DNS\_PRO\<close>, a filtering DNS forwarder, verified.

  \<^bold>\<open>The program.\<close>  A worker thread owns one UDP socket for its clients and one to the upstream server.  A
  datagram of a client is parsed and checked (\<open>protocol/\<close>); a name on the blocklist is refused; an address
  question may be answered from the worker's cache shard; everything else is forwarded under a fresh
  transaction ID, and the answer, if it is accepted, is cached and relayed.  Each request is a coroutine that
  a cooperative scheduler runs (\<open>runtime/\<close>).  The blocklist is an immutable snapshot shared by all workers;
  a new rule set is built by the update thread, published to the workers, and the old snapshot is destroyed
  by the reclaimer thread when nobody uses it any more.  A supervisor thread creates the workers, holds them at
  two gates until the service is ready, restarts those that fail, and joins them all at the end.  The service
  (\<open>DNS.cpp\<close>) owns these threads: it starts them in order, answers its callers, and takes them down.

  \<^bold>\<open>The library.\<close>  Each theory models one component and proves it correct; it imports the components it
  calls.  The names of the definitions are those of the source.

    \<^item> \<open>Prelude\<close>: types and lemmas shared by all; \<open>Wire\<close>: the reader and writer of \<open>protocol/Wire.h\<close>, the locale
      \<open>wire_codec\<close> and its instances for 8, 16 and 32 bits.
    \<^item> \<open>DomainName\<close>, \<open>DnsMessage\<close>, \<open>DnsParser\<close>, \<open>DnsWriter\<close>, \<open>DnsQuery\<close>, \<open>DnsResponse\<close>: \<open>protocol/\<close>.  Names in text,
      wire and canonical form; the parser of messages, with compression pointers; the writer of queries and
      of every reply; the policies for queries and for answers of the upstream server.  Shown: round trips
      of text and wire form, the parser reads inside its input and accepts only well-formed messages, each
      reply parses to the message it is meant to be.
    \<^item> \<open>CuckooFilter\<close>, \<open>RadixTree\<close>, \<open>DomainBlocklist\<close>: the approximate prefilter, the exact label trie and the
      blocklist and \<open>FilterContext\<close> built from both.  The locales \<open>approximate_set\<close>, \<open>exact_matcher\<close> and
      \<open>prefiltered_matcher\<close> state what each relies on.  Shown: the filter has no false negatives, the trie is
      exact, and a blocklist blocks a name exactly when a rule covers it, for every hash function.
    \<^item> \<open>DNS_Cache\<close>, \<open>CachePolicy\<close>: the shards with expiry and eviction by a clock hand (locale \<open>expiring_cache\<close>) and
      the admission of answers.  Shown: a hit is what was stored and has not expired, a store evicts at most
      one entry, the slots and the index agree.
    \<^item> \<open>TimerQueue\<close>, \<open>Scheduler\<close>: \<open>runtime/TimerQueue\<close>, \<open>Task\<close>, \<open>Scheduler\<close>; the indexed heap against a finite map
      of deadlines, the ready queue, detached tasks, cancellation and shutdown (locale \<open>waker\<close>).  Shown with a log of
      resumptions and destructions: tasks run in the order in which they were made ready, cancellation is
      given only when it was asked for, and a shutdown destroys every frame that is left.
    \<^item> \<open>TransactionIds\<close>, \<open>UpstreamChannel\<close>: \<open>upstream/UpstreamChannel\<close>; the pool of 65536 IDs with its quarantine,
      and the channel with its queries, deadlines, failures and stop.  Shown: the invariant of every
      reachable state (every ID is free, retired or held by exactly one waiting query, and the counter is
      exact), each query ends exactly once, an ID is not reused while an old answer may arrive, a
      datagram is accepted only for the query that asked.
    \<^item> \<open>WorkerLoop\<close>: the data path of \<open>src/WorkerLoop.cpp\<close>, the coroutine \<open>process_datagram\<close> over the components
      above.  Shown: at most one reply, within 512 bytes, to the client that asked; blocked names are refused
      and never forwarded; an accepted answer is relayed under the client's ID and served from the cache.
    \<^item> \<open>FilterPublication\<close>: publication, epochs, cohorts and reclamation of snapshots.  Shown over all
      interleavings: a snapshot is destroyed only when no worker uses it, and a generation that has converged
      is the oldest that any worker filters with.
    \<^item> \<open>FilterUpdateController\<close>: the queue of updates and the runner thread.  Shown over all interleavings: no
      update is lost, and a success that a client sees is true of every worker.
    \<^item> \<open>WorkerSupervisor\<close>: \<open>src/WorkerSupervisor.cpp\<close> and the gates of \<open>WorkerLoop::run\<close>; \<open>sup_step\<close> interleaves the
      supervisor thread, the workers, the service, threads that ask for a stop, the update thread and the
      reclaimer.  \<open>SupervisorLifecycle\<close> shows that this program uses the publication as \<open>FilterPublication\<close>
      requires; \<open>SupervisorProtocol\<close> that a stop reaches every worker, that a worker which the
      supervisor joins takes at most six more steps and can always take them, and that nothing is left behind
      when the supervisor returns; \<open>SupervisorGates\<close> that a worker serves only when it was released;
      \<open>SupervisorRecovery\<close> counts the restarts in a row along a run, independently of the code's own counter,
      and shows that they keep to their budget; \<open>SupervisorRun\<close> evaluates a run.
    \<^item> \<open>DnsService\<close>: \<open>src/DNS.cpp\<close>, \<open>DNS.h\<close> and the exit status of \<open>main.cpp\<close>: the sections under the lifecycle
      mutex as functions, and \<open>init\<close>, \<open>start\<close>, \<open>request_stop\<close>, \<open>join\<close>, \<open>wait\<close>, the update of the rules, the role
      threads and the teardown as one step relation together with the supervisor.  \<open>ServiceLifecycle\<close> shows
      that the lifecycle only moves forward and that what a caller is told agrees with what happened;
      \<open>ServiceThreads\<close> that every thread of the service is owned exactly once; \<open>ServiceRun\<close> evaluates runs, among
      them one in which \<open>wait\<close> ends a service that was started meanwhile.

  \<^bold>\<open>How the code is modelled.\<close>  Classes are records, enumerations datatypes, \<open>std::expected\<close> a sum type and
  \<open>std::optional\<close> an option.  Integers whose width matters are words (\<open>u16\<close>, \<open>u32\<close>, \<open>u64\<close>); sizes and counters
  that the code keeps below \<open>SIZE_MAX\<close> by explicit tests are naturals, with the tests.  Times are integers in
  nanoseconds; where the source saturates at the limits of the clock the model does, elsewhere (the expiry
  times of the cache) they are unbounded.  The heap of retired IDs is a list sorted by reuse time, and
  \<open>std::is_heap\<close> is sortedness.  Operations pass their state explicitly.  Coroutines and thread functions are cut at the
  points where they suspend, wait or release a mutex; objects that others point to (queries, timers, tasks,
  snapshots) live in a store by address.  Concurrency is an inductive step relation over the atomic pieces,
  and invariants are proved by rule induction over the reachable states.

  \<^bold>\<open>Parameters.\<close>  The hash XXH3 (\<open>src/xxhash.h\<close>, third-party) is a function argument and no property assumes
  anything of it.  Clock readings, random numbers and the answers of the sockets are arguments too.

  \<^bold>\<open>Bounds and loops.\<close>  Loops are structural recursion or \<open>function\<close> with a termination proof; the growth loop
  of \<open>DomainBlocklist::build\<close> is an option that is shown never to be \<open>None\<close>.  No definition has fuel.

  \<^bold>\<open>Granularity.\<close>  A condition wait is a test that may be repeated at any time and goes on when its condition
  holds; notifications are not modelled, so no property says that a waiting thread wakes up, and blocking
  system calls may never return.  Some neighbouring pieces are one step: \<open>complete\<close> and the reset of the
  update in flight (\<open>run_complete\<close>), the swap of the queue of updates and the completions that follow
  (\<open>seal_queue\<close>), the request for a stop and the locked section before a join (\<open>join_begin\<close>).  Destroying the
  frame of a coroutine acts on the worker's state; callbacks of stop tokens, which the program does not use
  there, are left out.

  \<^bold>\<open>Not modelled.\<close>  The event loop of a worker between the gates (epoll, eventfd), file descriptors, the
  signal loop of \<open>main\<close>, and the test hook that detaches the snapshot of a running service.  Logging,
  allocation failures and exceptions of mutexes are left out throughout.  The memory model is sequential
  consistency of the critical sections: atomics are read and written at the step that contains them.
\<close>

end
